(* ===== verification/Spike_Prelude.thy ===== *)
theory Spike_Prelude
  imports Complex_Main "HOL-Library.Word"
begin

text \<open>
  Shared vocabulary of the development: the C integer types of the simulator at the widths
  they have on the LP64 platform the simulator is built for, and the lemmas that read a
  machine-word expression as an expression over natural numbers.

  \<^item> \<open>uint8_t\<close>, \<open>uint16_t\<close>, \<open>uint32_t\<close>, \<open>uint64_t\<close> are words of that width; \<open>uint_fast8_t\<close> is an
    8-bit word, and \<open>uint_fast16_t\<close>, \<open>uint_fast32_t\<close> and \<open>uint_fast64_t\<close> are 64-bit words, as
    glibc defines them for x86-64.
  \<^item> Signed exponents and shift distances are integers: their values stay far from the
    limits of the C types, and every cast back to an unsigned type is written out.
  \<^item> A C \<open>bool\<close> used as a number is \<open>of_bool\<close>.

  The collection \<open>c_word\<close> holds the equations that push \<open>unat\<close> through word operations.
\<close>

unbundle bit_operations_syntax

type_synonym uint8_t = "8 word"
type_synonym uint16_t = "16 word"
type_synonym uint32_t = "32 word"
type_synonym uint64_t = "64 word"
type_synonym uint_fast8_t = "8 word"
type_synonym uint_fast16_t = "64 word"
type_synonym uint_fast32_t = "64 word"
type_synonym uint_fast64_t = "64 word"

named_theorems c_word \<open>unsigned reading of word expressions\<close>

section \<open>Reading words as natural numbers\<close>

lemma unat_add_nowrap:
  fixes a b :: "'a::len word"
  shows "unat a + unat b < 2 ^ LENGTH('a) \<Longrightarrow> unat (a + b) = unat a + unat b"
  by (simp add: unat_word_ariths)

lemma unat_mult_nowrap:
  fixes a b :: "'a::len word"
  shows "unat a * unat b < 2 ^ LENGTH('a) \<Longrightarrow> unat (a * b) = unat a * unat b"
  by (simp add: unat_word_ariths)

lemma unat_diff_nowrap:
  fixes a b :: "'a::len word"
  shows "unat b \<le> unat a \<Longrightarrow> unat (a - b) = unat a - unat b"
  by (simp add: unat_sub word_le_nat_alt)

lemma unat_drop_bit_div [c_word]:
  fixes a :: "'a::len word"
  shows "unat (drop_bit n a) = unat a div 2 ^ n"
  unfolding unat_drop_bit_eq by (rule drop_bit_eq_div)

lemma unat_take_bit_mod [c_word]:
  fixes a :: "'a::len word"
  shows "unat (take_bit n a) = unat a mod 2 ^ n"
  unfolding unsigned_take_bit_eq by (rule take_bit_eq_mod)

lemma unat_push_bit_mod:
  fixes a :: "'a::len word"
  shows "unat (push_bit n a) = (unat a * 2 ^ n) mod 2 ^ LENGTH('a)"
  unfolding unsigned_push_bit_eq by (simp only: push_bit_eq_mult take_bit_eq_mod)

lemma unat_push_bit_nowrap:
  fixes a :: "'a::len word"
  shows "unat a * 2 ^ n < 2 ^ LENGTH('a) \<Longrightarrow> unat (push_bit n a) = unat a * 2 ^ n"
  by (simp add: unat_push_bit_mod)

lemma unat_ucast_mod [c_word]:
  fixes a :: "'a::len word"
  shows "unat (ucast a :: 'b::len word) = unat a mod 2 ^ LENGTH('b)"
  by (simp add: unsigned_ucast_eq take_bit_eq_mod)

lemma unat_of_bool [c_word, simp]: "unat (of_bool b :: 'a::len word) = of_bool b"
  by simp

lemma unat_less_pow2: "unat (a :: 'a::len word) < 2 ^ LENGTH('a)"
  by (rule unsigned_less)

lemma unat_and_distrib [c_word]:
  fixes a b :: "'a::len word"
  shows "unat (a AND b) = unat a AND unat b"
  by (rule unsigned_and_eq)

lemma unat_or_distrib [c_word]:
  fixes a b :: "'a::len word"
  shows "unat (a OR b) = unat a OR unat b"
  by (rule unsigned_or_eq)

text \<open>Masks and hidden bits.\<close>

lemma nat_and_mask:
  fixes a :: nat
  assumes "m + 1 = 2 ^ n"
  shows "a AND m = a mod 2 ^ n"
proof -
  have "m = mask n" using assms by (simp add: mask_eq_exp_minus_1)
  then show ?thesis by (simp add: take_bit_eq_mod flip: take_bit_eq_mask)
qed

lemma unat_and_mask:
  fixes a m :: "'a::len word"
  assumes "unat m + 1 = 2 ^ n"
  shows "unat (a AND m) = unat a mod 2 ^ n"
  by (simp add: unat_and_distrib nat_and_mask [OF assms])

lemma nat_and_field:
  fixes a :: nat
  assumes "m + 1 = 2 ^ k"
  shows "a AND (m * 2 ^ n) = (a div 2 ^ n mod 2 ^ k) * 2 ^ n"
proof -
  have "a AND push_bit n m = push_bit n (drop_bit n a AND m)"
    by (rule bit_eqI) (auto simp: bit_simps)
  then show ?thesis
    using nat_and_mask [OF assms, of "drop_bit n a"] by (simp add: push_bit_eq_mult drop_bit_eq_div)
qed

lemma unat_and_field:
  fixes a m :: "'a::len word"
  assumes "unat m = (2 ^ k - 1) * 2 ^ n"
  shows "unat (a AND m) = (unat a div 2 ^ n mod 2 ^ k) * 2 ^ n"
  using nat_and_field [of "2 ^ k - 1" k "unat a" n] by (simp add: unat_and_distrib assms)

lemma div_pow_eq_iff:
  fixes n c :: nat
  assumes "n < c * 2 ^ k + 2 ^ k" 
  shows "n div 2 ^ k = c \<longleftrightarrow> c * 2 ^ k \<le> n"
  using assms by (metis add.commute div_nat_eqI div_times_less_eq_dividend mult.commute mult_Suc)

lemma div_pow_inside_iff:
  fixes n c :: nat
  shows "n div 2 ^ k = c \<and> n mod 2 ^ k \<noteq> 0 \<longleftrightarrow> c * 2 ^ k < n \<and> n < c * 2 ^ k + 2 ^ k"
proof -
  have n: "n = n div 2 ^ k * 2 ^ k + n mod 2 ^ k" by (rule div_mult_mod_eq [symmetric])
  have "n div 2 ^ k = c \<longleftrightarrow> c * 2 ^ k \<le> n" if "n < c * 2 ^ k + 2 ^ k"
    using that by (rule div_pow_eq_iff)
  moreover have "n < c * 2 ^ k + 2 ^ k" if "n div 2 ^ k = c"
  proof -
    have "n mod 2 ^ k < 2 ^ k" by simp
    with n show ?thesis unfolding that by linarith
  qed
  ultimately show ?thesis using n by (metis add.right_neutral le_add1 le_neq_implies_less less_imp_le mod_mult_self2_is_0 nat_less_le)
qed

lemma even_if_mod_pow: "0 < k \<Longrightarrow> (n::nat) mod 2 ^ k = 0 \<Longrightarrow> even n"
  by (metis dvd_power dvd_trans mod_0_imp_dvd)

lemma nat_or_hidden:
  fixes a :: nat
  assumes "a < 2 ^ n"
  shows "a OR 2 ^ n = a + 2 ^ n"
proof -
  have "a AND 2 ^ n = 0"
    using assms by (intro bit_eqI) (auto simp: bit_and_iff bit_exp_iff bit_iff_odd [of a])
  then show ?thesis by (simp add: disjunctive_add_eq_or)
qed

lemma nat_or_set_bit:
  fixes a :: nat
  assumes "2 ^ n \<le> a" "a < 2 ^ Suc n"
  shows "a OR 2 ^ n = a"
proof -
  have "a = (a - 2 ^ n) OR 2 ^ n" using nat_or_hidden [of "a - 2 ^ n" n] assms by simp
  then have "a OR 2 ^ n = (a - 2 ^ n) OR 2 ^ n OR 2 ^ n" by (metis or.assoc)
  also have "\<dots> = (a - 2 ^ n) OR 2 ^ n" by (simp add: or.assoc)
  finally show ?thesis using nat_or_hidden [of "a - 2 ^ n" n] assms by simp
qed

lemma pow2_split: "n \<le> m \<Longrightarrow> (2::'a::comm_semiring_1) ^ m = 2 ^ (m - n) * 2 ^ n"
  by (simp flip: power_add)

lemma nat_or_of_bool:
  fixes a :: nat
  shows "a OR of_bool b = (if b \<and> even a then Suc a else a)"
  using or_one_eq [of a] by (cases b) auto

lemma unat_or_of_bool:
  fixes a :: "'a::len word"
  shows "unat (a OR of_bool b) = (if b \<and> even (unat a) then Suc (unat a) else unat a)"
  by (simp add: unat_or_distrib nat_or_of_bool)

lemma unat_or_1:
  fixes a :: "'a::len word"
  shows "unat (a OR 1) = (if even (unat a) then Suc (unat a) else unat a)"
  using unat_or_of_bool [of a True] by simp

lemma unat_and_not_of_bool:
  fixes a :: "'a::len word"
  shows "unat (a AND NOT (of_bool b)) = (if b \<and> odd (unat a) then unat a - 1 else unat a)"
proof (cases b)
  case True
  have "(a AND NOT 1) + (a AND 1) = a"
    by (subst disjunctive_add_eq_or) (auto intro!: bit_eqI simp: bit_simps)
  then have "a AND NOT 1 = a - (a AND 1)" by (simp add: eq_diff_eq)
  moreover have one: "unat (a AND 1) = unat a mod 2"
    unfolding unat_and_distrib by (simp only: unsigned_1 and_one_eq)
  ultimately have "unat (a AND NOT 1) = unat a - unat a mod 2" by (simp add: unat_diff_nowrap)
  with True show ?thesis by (simp add: odd_iff_mod_2_eq_one even_iff_mod_2_eq_zero)
qed simp

lemma xor_eq_0_iff [simp]:
  fixes a b :: "'a::len word"
  shows "a XOR b = 0 \<longleftrightarrow> a = b"
proof
  assume "a XOR b = 0"
  then have "(a XOR b) XOR b = b" by simp
  then show "a = b" by (simp add: xor.assoc)
qed simp

lemma unat_neg:
  fixes a :: "'a::len word"
  assumes "a \<noteq> 0"
  shows "unat (- a) = 2 ^ LENGTH('a) - unat a"
proof -
  have "0 < unat a" using assms by (simp add: unat_gt_0)
  then have "unat (of_nat (2 ^ LENGTH('a) - unat a) :: 'a word) = 2 ^ LENGTH('a) - unat a"
    by (simp add: unat_of_nat)
  moreover have "(of_nat (2 ^ LENGTH('a) - unat a) :: 'a word) = - a"
    using unat_less_pow2 [of a] by (simp add: of_nat_diff less_imp_le)
  ultimately show ?thesis by simp
qed

text \<open>Integers read into words.\<close>

lemma unat_word_of_int:
  assumes "0 \<le> i" and "i < 2 ^ LENGTH('a)"
  shows "unat (word_of_int i :: 'a::len word) = nat i"
  using assms by (simp add: unsigned_of_int take_bit_int_eq_self nat_eq_iff)

lemma uint_word_of_int_neg:
  assumes "- (2 ^ LENGTH('a)) \<le> i" and "i < 0"
  shows "uint (word_of_int i :: 'a::len word) = i + 2 ^ LENGTH('a)"
proof -
  have "i mod 2 ^ LENGTH('a) = (i + 2 ^ LENGTH('a)) mod 2 ^ LENGTH('a)" by simp
  also have "\<dots> = i + 2 ^ LENGTH('a)" using assms by (intro mod_pos_pos_trivial) auto
  finally show ?thesis by (simp add: uint_word_of_int)
qed

lemma uint_word_of_int_nonneg:
  assumes "0 \<le> i" and "i < 2 ^ LENGTH('a)"
  shows "uint (word_of_int i :: 'a::len word) = i"
  using assms by (simp add: uint_word_of_int)

lemma unat_ucast_up:
  fixes a :: "'a::len word"
  assumes "LENGTH('a) \<le> LENGTH('b)"
  shows "unat (ucast a :: 'b::len word) = unat a"
proof -
  have "(2::nat) ^ LENGTH('a) \<le> 2 ^ LENGTH('b)" using assms by (intro power_increasing) simp_all
  then have "unat a < 2 ^ LENGTH('b)" using unat_less_pow2 [of a] by linarith
  then show ?thesis by (simp add: unat_ucast_mod)
qed

lemma word_of_int_less_iff:
  fixes c :: "'a::len word"
  assumes "uint c - 2 ^ LENGTH('a) \<le> e" "e < 2 ^ LENGTH('a)"
  shows "word_of_int e < c \<longleftrightarrow> 0 \<le> e \<and> e < uint c"
proof (cases "0 \<le> e")
  case True
  with assms(2) show ?thesis by (simp add: word_less_def uint_word_of_int_nonneg)
next
  case False
  have "- (2 ^ LENGTH('a)) \<le> e" using assms(1) uint_ge_0 [of c] by linarith
  with False have "uint (word_of_int e :: 'a word) = e + 2 ^ LENGTH('a)"
    by (intro uint_word_of_int_neg) simp_all
  with False assms(1) show ?thesis by (simp add: word_less_def)
qed

lemma scale_pow2: "e = e' + int n \<Longrightarrow> (y::real) * 2 powi e = y * 2 ^ n * 2 powi e'"
  by (simp add: power_int_add)

lemma sint_diff_small:
  fixes a b :: uint64_t
  assumes "unat a < 2 ^ 63" "unat b < 2 ^ 63"
  shows "sint (a - b) = int (unat a) - int (unat b)"
proof -
  define i where "i = int (unat a) - int (unat b)"
  have "a - b = word_of_int i"
    unfolding i_def by simp
  moreover have "- (2 ^ (LENGTH(64) - 1)) \<le> i" "i < 2 ^ (LENGTH(64) - 1)"
  proof -
    have L: "LENGTH(64) - 1 = 63" by simp
    show "- (2 ^ (LENGTH(64) - 1)) \<le> i" "i < 2 ^ (LENGTH(64) - 1)"
      using assms [folded of_nat_less_numeral_power_cancel_iff [where 'a = int]] unfolding L i_def by linarith+
  qed
  then have "sint (word_of_int i :: uint64_t) = i"
    unfolding sint_sbintrunc' by (rule signed_take_bit_int_eq_self)
  ultimately show ?thesis by (simp add: i_def)
qed

lemma top_bit_iff:
  fixes n :: nat
  assumes "n < 2 ^ Suc k"
  shows "n div 2 ^ k mod 2 ^ 1 \<noteq> 0 \<longleftrightarrow> 2 ^ k \<le> n"
proof (cases "2 ^ k \<le> n")
  case True
  with assms have "n div 2 ^ k = 1" by (intro div_nat_eqI) simp_all
  with True show ?thesis by simp
qed simp

lemma unat_and_not_mask:
  fixes a m :: "'a::len word"
  assumes "unat m + 1 = 2 ^ n"
  shows "unat (a AND NOT m) = unat a - unat a mod 2 ^ n"
proof -
  have "(a AND NOT m) + (a AND m) = a"
    by (subst disjunctive_add_eq_or) (auto intro!: bit_eqI simp: bit_simps)
  then have "a AND NOT m = a - (a AND m)" by (simp add: eq_diff_eq)
  then show ?thesis using unat_and_mask [OF assms, of a] by (simp add: unat_diff_nowrap)
qed

lemma unat_word_of_int_pos:
  assumes "0 \<le> i" "i < 2 ^ 64"
  shows "unat (word_of_int i :: uint64_t) = nat i"
  using unat_word_of_int [where 'a = 64, of i] assms by simp

lemma sign_bit_word_of_int:
  assumes "- (2 ^ 63) \<le> i" "i < 2 ^ 63"
  shows "(word_of_int i :: uint64_t) AND 0x8000000000000000 \<noteq> 0 \<longleftrightarrow> i < 0"
    and "(word_of_int i :: uint64_t) = 0 \<longleftrightarrow> i = 0"
proof -
  have u: "unat (word_of_int i :: uint64_t) = nat (if i < 0 then i + 2 ^ 64 else i)"
  proof (cases "i < 0")
    case True
    have "uint (word_of_int i :: uint64_t) = i + 2 ^ 64" using assms True by (subst uint_word_of_int_neg) simp_all
    with True show ?thesis unfolding unat_eq_nat_uint by (simp only: if_True)
  next
    case False
    with assms show ?thesis by (simp add: unat_word_of_int_pos)
  qed
  have "unat ((word_of_int i :: uint64_t) AND 0x8000000000000000) = (unat (word_of_int i :: uint64_t) div 2 ^ 63 mod 2 ^ 1) * 2 ^ 63"
    by (rule unat_and_field) simp
  then have "(word_of_int i :: uint64_t) AND 0x8000000000000000 \<noteq> 0 \<longleftrightarrow> unat (word_of_int i :: uint64_t) div 2 ^ 63 mod 2 ^ 1 \<noteq> 0"
    by (metis mult_is_0 power_not_zero unat_eq_zero zero_neq_numeral)
  also have "\<dots> \<longleftrightarrow> 2 ^ 63 \<le> unat (word_of_int i :: uint64_t)"
    using unat_less_pow2 [of "word_of_int i :: uint64_t"] by (intro top_bit_iff) simp
  also have "\<dots> \<longleftrightarrow> i < 0"
    unfolding u using assms by (auto simp: le_nat_iff not_less)
  finally show "(word_of_int i :: uint64_t) AND 0x8000000000000000 \<noteq> 0 \<longleftrightarrow> i < 0" .
  show "(word_of_int i :: uint64_t) = 0 \<longleftrightarrow> i = 0"
    unfolding word_unat_eq_iff u using assms by auto
qed

lemma nat_or_mod_zero: "((m::nat) OR n) mod 2 ^ k = 0 \<longleftrightarrow> m mod 2 ^ k = 0 \<and> n mod 2 ^ k = 0"
  by (simp add: or_eq_0_iff flip: take_bit_eq_mod)

lemma not_and_eq_zero_iff:
  fixes x m :: "'a::len word"
  shows "NOT x AND m = 0 \<longleftrightarrow> x AND m = m"
proof -
  have "(x AND m) + (NOT x AND m) = m"
    by (subst disjunctive_add_eq_or) (auto intro!: bit_eqI simp: bit_simps)
  then show ?thesis by (metis add.right_neutral add_left_cancel)
qed

section \<open>Signed words\<close>

lemma ucast_uminus:
  fixes a :: "'a::len word"
  assumes "LENGTH('b) \<le> LENGTH('a)"
  shows "(ucast (- a) :: 'b::len word) = - ucast a"
  using assms
proof transfer
  fix a :: int
  assume "LENGTH('b) \<le> LENGTH('a)"
  then show "take_bit LENGTH('b) (take_bit LENGTH('a) (- a)) = take_bit LENGTH('b) (- take_bit LENGTH('a) a)"
    using take_bit_minus [of "LENGTH('b)" "take_bit LENGTH('a) a"] take_bit_minus [of "LENGTH('b)" a]
    by (simp add: min_def)
qed

lemma sint_eqI:
  fixes w :: "'a::len word"
  assumes "w = word_of_int i" "- (2 ^ (LENGTH('a) - 1)) \<le> i" "i < 2 ^ (LENGTH('a) - 1)"
  shows "sint w = i"
  unfolding assms(1) sint_sbintrunc' using assms(2,3) by (rule signed_take_bit_int_eq_self)

lemma sint_with_sign:
  fixes w :: "'a::len word" and sign :: bool
  defines "v \<equiv> if sign then - int (unat w) else int (unat w)"
    and "z \<equiv> sint (if sign then - w else w)"
  shows "- (2 ^ (LENGTH('a) - 1)) \<le> v \<Longrightarrow> v < 2 ^ (LENGTH('a) - 1) \<Longrightarrow> z = v \<and> \<not> (z \<noteq> 0 \<and> (z < 0) \<noteq> sign)"
    and "\<not> (- (2 ^ (LENGTH('a) - 1)) \<le> v \<and> v < 2 ^ (LENGTH('a) - 1)) \<Longrightarrow> z \<noteq> 0 \<and> (z < 0) \<noteq> sign"
proof -
  have vw: "(if sign then - w else w) = word_of_int v" by (simp add: v_def)
  show "z = v \<and> \<not> (z \<noteq> 0 \<and> (z < 0) \<noteq> sign)" if "- (2 ^ (LENGTH('a) - 1)) \<le> v" "v < 2 ^ (LENGTH('a) - 1)"
  proof -
    have "z = v" unfolding z_def vw using that by (intro sint_eqI) simp_all
    then show ?thesis using of_nat_0_le_iff [of "unat w", where 'a = int] unfolding v_def by (auto simp del: uint_nat of_nat_unat of_nat_0_le_iff)
  qed
  show "z \<noteq> 0 \<and> (z < 0) \<noteq> sign" if out: "\<not> (- (2 ^ (LENGTH('a) - 1)) \<le> v \<and> v < 2 ^ (LENGTH('a) - 1))"
  proof -
    define h :: int where "h = 2 ^ (LENGTH('a) - 1)"
    have L: "(2::int) ^ LENGTH('a) = 2 * h" by (simp add: h_def power_eq_if)
    obtain N where N: "N = int (unat w)" by simp
    have v: "v = (if sign then - N else N)" unfolding v_def N ..
    have n: "0 \<le> N" "N < 2 * h"
      using unat_less_pow2 [of w] unfolding L [symmetric] N by (simp_all add: unat_less_pow2 flip: of_nat_power)
    have h0: "0 < h" by (simp add: h_def)
    define u where "u = (if sign then v + 2 * h else v - 2 * h)"
    have "word_of_int v = (word_of_int u :: 'a word)"
      unfolding u_def L [symmetric] by (simp add: word_of_int_eq_iff take_bit_eq_mod)
    moreover have "- h \<le> u" "u < h"
      using out n unfolding h_def [symmetric] u_def v by (auto split: if_splits)
    ultimately have "z = u" unfolding z_def vw h_def by (intro sint_eqI)
    moreover have "u \<noteq> 0 \<and> (u < 0) \<noteq> sign"
      using out n h0 unfolding h_def [symmetric] u_def v by (auto split: if_splits)
    ultimately show ?thesis by simp
  qed
qed

lemma abs_word:
  fixes a :: "'a::len word"
  assumes "LENGTH('a) \<le> 64"
  shows "unat (if sint a < 0 then - scast a else scast a :: uint64_t) = nat \<bar>sint a\<bar>"
    and "nat \<bar>sint a\<bar> \<le> 2 ^ (LENGTH('a) - 1)"
proof -
  have p: "(2::int) ^ (LENGTH('a) - 1) \<le> 2 ^ 63" using assms by (intro power_increasing) simp_all
  have b: "\<bar>sint a\<bar> \<le> 2 ^ (LENGTH('a) - 1)" using sint_ge [of a] sint_lt [of a] by simp
  then have "nat \<bar>sint a\<bar> \<le> nat (2 ^ (LENGTH('a) - 1))" by (rule nat_mono)
  then show "nat \<bar>sint a\<bar> \<le> 2 ^ (LENGTH('a) - 1)" by (simp add: nat_power_eq)
  have "(if sint a < 0 then - scast a else scast a :: uint64_t) = word_of_int \<bar>sint a\<bar>"
  proof (cases "sint a < 0")
    case True
    then show ?thesis by (simp only: if_True scast_eq wi_hom_neg abs_of_neg)
  next
    case False
    then have "\<bar>sint a\<bar> = sint a" by simp
    with False show ?thesis by (simp only: if_False scast_eq)
  qed
  then show "unat (if sint a < 0 then - scast a else scast a :: uint64_t) = nat \<bar>sint a\<bar>"
    using unat_word_of_int_pos [of "\<bar>sint a\<bar>"] b p by simp
qed

lemma abs_word64:
  fixes a :: uint64_t
  shows "unat (if sint a < 0 then - a else a) = nat \<bar>sint a\<bar>" "nat \<bar>sint a\<bar> \<le> 2 ^ 63"
  using abs_word [of a, unfolded scast_id] by simp_all

lemma sint_unat:
  fixes a :: "'a::len word"
  shows "sint a = (if unat a < 2 ^ (LENGTH('a) - 1) then int (unat a) else int (unat a) - 2 ^ LENGTH('a))"
proof -
  define h :: nat where "h = 2 ^ (LENGTH('a) - 1)"
  have L: "(2::nat) ^ LENGTH('a) = 2 * h" by (simp add: h_def power_eq_if)
  define i where "i = (if unat a < h then int (unat a) else int (unat a) - 2 * int h)"
  have "a = word_of_int i"
  proof (cases "unat a < h")
    case False
    have "(word_of_int (2 * int h) :: 'a word) = word_of_int (2 ^ LENGTH('a))"
      using L by (metis of_nat_mult of_nat_numeral of_nat_power)
    then have "(word_of_int (2 * int h) :: 'a word) = 0" by simp
    with False show ?thesis by (simp add: i_def wi_hom_syms)
  qed (simp add: i_def)
  moreover obtain u where u: "u = unat a" by simp
  have "- int h \<le> i" "i < int h"
    using unat_less_pow2 [of a, unfolded L] unfolding i_def u [symmetric] by (auto split: if_splits)
  ultimately have "sint a = i"
    by (metis h_def of_nat_numeral of_nat_power signed_take_bit_int_eq_self sint_sbintrunc')
  then show ?thesis unfolding i_def h_def [symmetric] using L by (metis of_nat_mult of_nat_numeral of_nat_power)
qed

lemma abs_sint_min:
  fixes a :: "'a::len word"
  assumes "nat \<bar>sint a\<bar> = 2 ^ (LENGTH('a) - 1)"
  shows "unat a = 2 ^ (LENGTH('a) - 1)"
proof -
  obtain h :: nat where h: "h = 2 ^ (LENGTH('a) - 1)" by simp
  have L: "(2::nat) ^ LENGTH('a) = 2 * h" by (simp add: h power_eq_if)
  then have L': "(2::int) ^ LENGTH('a) = 2 * int h" by (metis of_nat_mult of_nat_numeral of_nat_power)
  obtain u where u: "u = unat a" by simp
  have "u < 2 * h" using unat_less_pow2 [of a] unfolding L u .
  moreover have "sint a = (if u < h then int u else int u - 2 * int h)"
    using sint_unat [of a] unfolding h [symmetric] u [symmetric] L' .
  ultimately show ?thesis using assms unfolding h [symmetric] u [symmetric] by (auto split: if_splits)
qed

lemma low_bits_zero:
  fixes a m :: "'a::len word"
  assumes m: "unat m + 1 = 2 ^ (LENGTH('a) - 1)"
  shows "a AND m = 0 \<longleftrightarrow> unat a = 0 \<or> unat a = 2 ^ (LENGTH('a) - 1)"
proof -
  have L: "(2::nat) ^ LENGTH('a) = 2 * 2 ^ (LENGTH('a) - 1)" by (simp add: power_eq_if)
  have "a AND m = 0 \<longleftrightarrow> unat a mod 2 ^ (LENGTH('a) - 1) = 0"
    using unat_and_mask [OF m, of a] by (metis unat_eq_zero)
  also have "\<dots> \<longleftrightarrow> unat a = 0 \<or> unat a = 2 ^ (LENGTH('a) - 1)"
    using unat_less_pow2 [of a] unfolding L by (auto elim!: dvdE simp flip: dvd_eq_mod_eq_0)
  finally show ?thesis .
qed

lemma top_bit_set:
  fixes a m :: "'a::len word"
  assumes "unat m = 2 ^ (LENGTH('a) - 1)"
  shows "a AND m \<noteq> 0 \<longleftrightarrow> 2 ^ (LENGTH('a) - 1) \<le> unat a"
proof -
  have L: "Suc (LENGTH('a) - 1) = LENGTH('a)" by simp
  have "unat (a AND m) = (unat a div 2 ^ (LENGTH('a) - 1) mod 2 ^ 1) * 2 ^ (LENGTH('a) - 1)"
    by (rule unat_and_field) (simp add: assms)
  then have "a AND m \<noteq> 0 \<longleftrightarrow> unat a div 2 ^ (LENGTH('a) - 1) mod 2 ^ 1 \<noteq> 0"
    by (metis mult_is_0 power_not_zero unat_eq_zero zero_neq_numeral)
  then show ?thesis using top_bit_iff [of "unat a" "LENGTH('a) - 1"] unat_less_pow2 [of a] unfolding L by blast
qed

end
