(* ===== verification/Softfloat_State.thy ===== *)
theory Softfloat_State
  imports Spike_Prelude
begin

text \<open>
  The state of the floating-point engine (\<^verbatim>\<open>softfloat/softfloat_state.c\<close>): the rounding mode, the
  tininess-detection mode and the accrued exception flags, with the enumerations of
  \<^verbatim>\<open>softfloat/softfloat.h\<close>. The C variables are thread-local globals; here they are a record that
  every operation takes and returns. Operations return a pair of the result and the new state.
\<close>

named_theorems fp_state_simps \<open>unfolding of flag updates\<close>

definition softfloat_tininess_beforeRounding :: uint_fast8_t where
  "softfloat_tininess_beforeRounding = 0"
definition softfloat_tininess_afterRounding :: uint_fast8_t where
  "softfloat_tininess_afterRounding = 1"

definition softfloat_round_near_even :: uint_fast8_t where
  "softfloat_round_near_even = 0"
definition softfloat_round_minMag :: uint_fast8_t where
  "softfloat_round_minMag = 1"
definition softfloat_round_min :: uint_fast8_t where
  "softfloat_round_min = 2"
definition softfloat_round_max :: uint_fast8_t where
  "softfloat_round_max = 3"
definition softfloat_round_near_maxMag :: uint_fast8_t where
  "softfloat_round_near_maxMag = 4"
definition softfloat_round_odd :: uint_fast8_t where
  "softfloat_round_odd = 5"

lemmas round_mode_defs =
  softfloat_round_near_even_def softfloat_round_minMag_def softfloat_round_min_def
  softfloat_round_max_def softfloat_round_near_maxMag_def softfloat_round_odd_def

definition softfloat_flag_inexact :: uint_fast8_t where
  "softfloat_flag_inexact = 1"
definition softfloat_flag_underflow :: uint_fast8_t where
  "softfloat_flag_underflow = 2"
definition softfloat_flag_overflow :: uint_fast8_t where
  "softfloat_flag_overflow = 4"
definition softfloat_flag_infinite :: uint_fast8_t where
  "softfloat_flag_infinite = 8"
definition softfloat_flag_invalid :: uint_fast8_t where
  "softfloat_flag_invalid = 16"

lemmas flag_defs =
  softfloat_flag_inexact_def softfloat_flag_underflow_def softfloat_flag_overflow_def
  softfloat_flag_infinite_def softfloat_flag_invalid_def

record fp_state =
  softfloat_roundingMode :: uint_fast8_t
  softfloat_detectTininess :: uint_fast8_t
  softfloat_exceptionFlags :: uint_fast8_t

definition softfloat_init :: fp_state where
  "softfloat_init =
     \<lparr>softfloat_roundingMode = softfloat_round_near_even,
      softfloat_detectTininess = softfloat_tininess_afterRounding,
      softfloat_exceptionFlags = 0\<rparr>"

definition softfloat_raiseFlags :: "uint_fast8_t \<Rightarrow> fp_state \<Rightarrow> fp_state" where
  "softfloat_raiseFlags flags s =
     s\<lparr>softfloat_exceptionFlags := softfloat_exceptionFlags s OR flags\<rparr>"

lemma raiseFlags_roundingMode [simp]:
  "softfloat_roundingMode (softfloat_raiseFlags f s) = softfloat_roundingMode s"
  by (simp add: softfloat_raiseFlags_def)

lemma raiseFlags_detectTininess [simp]:
  "softfloat_detectTininess (softfloat_raiseFlags f s) = softfloat_detectTininess s"
  by (simp add: softfloat_raiseFlags_def)

lemma raiseFlags_exceptionFlags [simp]:
  "softfloat_exceptionFlags (softfloat_raiseFlags f s) = softfloat_exceptionFlags s OR f"
  by (simp add: softfloat_raiseFlags_def)

lemma raiseFlags_0 [simp]: "softfloat_raiseFlags 0 s = s"
  by (simp add: softfloat_raiseFlags_def)

lemma raiseFlags_raiseFlags [simp]:
  "softfloat_raiseFlags f (softfloat_raiseFlags g s) = softfloat_raiseFlags (g OR f) s"
  by (simp add: softfloat_raiseFlags_def or.assoc)

end
