(* ===== verification/IEEE_Rounding.thy ===== *)
theory IEEE_Rounding
  imports Softfloat_State
begin

text \<open>
  The abstract specification the floating-point engine is measured against.

  \<^item> \<open>mag_val p q n\<close> is the real value of the magnitude encoding \<open>n\<close> (the bits below the sign)
    of a binary format with \<open>p\<close> fraction bits whose smallest subnormal is \<open>2 powi q\<close>. Encodings
    are ordered as the values are, and the encoding of infinity stands for the first power of
    two that the format cannot represent.
  \<^item> \<open>rounds p q mode sign x n\<close>: \<open>n\<close> is the encoding that rounding the non-negative real \<open>x\<close>
    gives in a rounding mode, chosen among the two neighbours of \<open>x\<close>.
  \<^item> \<open>fp_rounded\<close>: the word and the flags an IEEE operation delivers for an exact result.
  \<^item> \<open>same_cell j y s\<close>: the integer \<open>s\<close> stands for the real \<open>y\<close> up to its position inside a
    cell of width \<open>2 ^ j\<close>; this is what a significand with a sticky bit preserves. The lemmas
    show how shifts, sums and differences keep it and that rounding depends on nothing more.
\<close>

section \<open>Values of encodings\<close>

definition mag_val :: "nat \<Rightarrow> int \<Rightarrow> nat \<Rightarrow> real" where
  "mag_val p q n =
     (if n < 2 ^ p then real n * 2 powi q
      else real (2 ^ p + n mod 2 ^ p) * 2 powi (q + int (n div 2 ^ p) - 1))"

definition round_up :: "8 word \<Rightarrow> bool \<Rightarrow> nat \<Rightarrow> real \<Rightarrow> real \<Rightarrow> real \<Rightarrow> bool" where
  "round_up mode sign m lo hi x \<longleftrightarrow>
     x \<noteq> lo \<and>
     (if mode = softfloat_round_near_even then lo + hi < 2 * x \<or> (2 * x = lo + hi \<and> odd m)
      else if mode = softfloat_round_near_maxMag then lo + hi \<le> 2 * x
      else if mode = softfloat_round_odd then even m
      else mode = (if sign then softfloat_round_min else softfloat_round_max))"

definition rounds :: "nat \<Rightarrow> int \<Rightarrow> 8 word \<Rightarrow> bool \<Rightarrow> real \<Rightarrow> nat \<Rightarrow> bool" where
  "rounds p q mode sign x n \<longleftrightarrow>
     (\<exists>m. mag_val p q m \<le> x \<and> x < mag_val p q (Suc m) \<and>
          n = (if round_up mode sign m (mag_val p q m) (mag_val p q (Suc m)) x then Suc m else m))"

definition round_inc :: "8 word \<Rightarrow> bool \<Rightarrow> nat \<Rightarrow> nat" where
  "round_inc mode sign k =
     (if mode = softfloat_round_near_even \<or> mode = softfloat_round_near_maxMag then 2 ^ (k - 1)
      else if mode = (if sign then softfloat_round_min else softfloat_round_max) then 2 ^ k - 1
      else 0)"

definition round_nat :: "8 word \<Rightarrow> bool \<Rightarrow> nat \<Rightarrow> nat \<Rightarrow> nat" where
  "round_nat mode sign k sig =
     (let z = (sig + round_inc mode sign k) div 2 ^ k; r = sig mod 2 ^ k in
      if r \<noteq> 0 \<and> mode = softfloat_round_odd then (if even z then Suc z else z)
      else if r = 2 ^ (k - 1) \<and> mode = softfloat_round_near_even then (if odd z then z - 1 else z)
      else z)"

definition same_cell :: "nat \<Rightarrow> real \<Rightarrow> nat \<Rightarrow> bool" where
  "same_cell j y s \<longleftrightarrow>
     y = real s \<or>
     (\<exists>t::nat. real (t * 2 ^ j) < y \<and> y < real ((t + 1) * 2 ^ j) \<and>
               t * 2 ^ j < s \<and> s < (t + 1) * 2 ^ j)"

lemma same_cell_less:
  assumes "same_cell j y s"
  shows "y < real (c * 2 ^ j) \<longleftrightarrow> s < c * 2 ^ j"
proof -
  consider "y = real s" | t where "real (t * 2 ^ j) < y" "y < real ((t + 1) * 2 ^ j)"
      "t * 2 ^ j < s" "s < (t + 1) * 2 ^ j"
    using assms by (auto simp: same_cell_def)
  then show ?thesis
  proof cases
    case 1
    then show ?thesis by (simp only: of_nat_less_iff)
  next
    case 2
    show ?thesis
    proof (cases "t < c")
      case True
      then have "(t + 1) * 2 ^ j \<le> c * 2 ^ j" by (intro mult_right_mono) auto
      then have "real ((t + 1) * 2 ^ j) \<le> real (c * 2 ^ j)" by (simp only: of_nat_le_iff)
      with 2 \<open>(t + 1) * 2 ^ j \<le> c * 2 ^ j\<close> show ?thesis by linarith
    next
      case False
      then have "c * 2 ^ j \<le> t * 2 ^ j" by (intro mult_right_mono) auto
      then have "real (c * 2 ^ j) \<le> real (t * 2 ^ j)" by (simp only: of_nat_le_iff)
      with 2 \<open>c * 2 ^ j \<le> t * 2 ^ j\<close> show ?thesis by linarith
    qed
  qed
qed

lemma same_cell_eq:
  assumes "same_cell j y s"
  shows "y = real (c * 2 ^ j) \<longleftrightarrow> s = c * 2 ^ j"
proof -
  consider "y = real s" | t where "real (t * 2 ^ j) < y" "y < real ((t + 1) * 2 ^ j)"
      "t * 2 ^ j < s" "s < (t + 1) * 2 ^ j"
    using assms by (auto simp: same_cell_def)
  then show ?thesis
  proof cases
    case 1
    then show ?thesis by (simp only: of_nat_eq_iff)
  next
    case 2
    have "c * 2 ^ j \<le> t * 2 ^ j \<or> (t + 1) * 2 ^ j \<le> c * 2 ^ j"
      using mult_right_mono [of c t "2 ^ j"] mult_right_mono [of "t + 1" c "2 ^ j"]
      by (cases "c \<le> t") auto
    moreover from this have "real (c * 2 ^ j) \<le> real (t * 2 ^ j) \<or> real ((t + 1) * 2 ^ j) \<le> real (c * 2 ^ j)"
      by (simp only: of_nat_le_iff)
    ultimately show ?thesis using 2 by linarith
  qed
qed

lemma mag_val_scaled:
  assumes "s \<le> 2 ^ (p + 1)" and "2 ^ p \<le> s \<or> E = 0"
  shows "mag_val p q (E * 2 ^ p + s) = real s * 2 powi (q + int E)"
proof -
  consider "s < 2 ^ p" "E = 0" | "2 ^ p \<le> s" "s < 2 * 2 ^ p" | "s = 2 * 2 ^ p"
    using assms by force
  then show ?thesis
  proof cases
    case 1
    then show ?thesis by (simp add: mag_val_def)
  next
    case 2
    then have "s div 2 ^ p = 1" by (intro div_nat_eqI) auto
    moreover from this have "s mod 2 ^ p = s - 2 ^ p" by (simp add: modulo_nat_def)
    ultimately show ?thesis using 2 by (simp add: mag_val_def of_nat_diff)
  next
    case 3
    then have *: "E * 2 ^ p + s = (E + 2) * 2 ^ p" by (simp add: algebra_simps)
    have "\<not> (E + 2) * 2 ^ p < (2::nat) ^ p" by simp
    then have "mag_val p q (E * 2 ^ p + s) = 2 ^ p * 2 powi (q + int (E + 2) - 1)"
      unfolding * mag_val_def by (simp del: of_nat_add)
    also have "\<dots> = 2 ^ p * (2 powi (q + int E) * 2)"
      by (simp add: power_int_add power_int_diff)
    finally show ?thesis using 3 by simp
  qed
qed

definition round_up_nat :: "8 word \<Rightarrow> bool \<Rightarrow> nat \<Rightarrow> nat \<Rightarrow> nat \<Rightarrow> bool" where
  "round_up_nat mode sign h S R \<longleftrightarrow>
     R \<noteq> 0 \<and>
     (if mode = softfloat_round_near_even then h < R \<or> (R = h \<and> odd S)
      else if mode = softfloat_round_near_maxMag then h \<le> R
      else if mode = softfloat_round_odd then even S
      else mode = (if sign then softfloat_round_min else softfloat_round_max))"

lemma round_nat_split:
  assumes k: "0 < k" and R: "R < 2 * 2 ^ (k - 1)"
  shows "round_nat mode sign k (2 * 2 ^ (k - 1) * S + R) =
    (if round_up_nat mode sign (2 ^ (k - 1)) S R then Suc S else S)"
proof -
  define h :: nat where "h = 2 ^ (k - 1)"
  have K: "2 ^ k = 2 * h" using k by (simp add: h_def power_eq_if)
  have h0: "0 < h" by (simp add: h_def)
  have r: "(2 * h * S + R) mod (2 * h) = R" using R by (simp add: h_def)
  have z: "(2 * h * S + R + i) div (2 * h) = S + (R + i) div (2 * h)" for i
    using h0 div_mult_self2 [of "2 * h" "R + i" S] by (simp add: ac_simps)
  have d: "(R + i) div (2 * h) = (if 2 * h \<le> R + i then 1 else 0)" if "i < 2 * h" for i
    using R that by (auto simp: h_def intro!: div_nat_eqI)
  have inc: "round_inc mode sign k < 2 * h"
    unfolding round_inc_def h_def [symmetric] K using h0 by auto
  show ?thesis
    unfolding round_nat_def Let_def h_def [symmetric] K r z d [OF inc]
    unfolding round_inc_def round_up_nat_def h_def [symmetric] K
    using R [folded h_def] h0 by (auto simp: round_mode_defs)
qed

lemma rounds_round_nat:
  assumes p: "0 < p" and k: "0 < k" and cell: "same_cell (k - 1) y sig"
    and norm: "2 ^ (p + k) \<le> sig \<or> E = 0" and bound: "sig < 2 ^ (p + k + 1)"
    and x: "x = y * 2 powi (q + int E - int k)"
  shows "rounds p q mode sign x (E * 2 ^ p + round_nat mode sign k sig)"
    and "mag_val p q (E * 2 ^ p + round_nat mode sign k sig) = x \<longleftrightarrow> sig mod 2 ^ k = 0"
proof -
  define h :: nat where "h = 2 ^ (k - 1)"
  have K: "2 ^ k = 2 * h" using k by (simp add: h_def power_eq_if)
  have h0: "0 < h" by (simp add: h_def)
  define S where "S = sig div 2 ^ k"
  define R where "R = sig mod 2 ^ k"
  have sig: "sig = 2 * h * S + R" and R: "R < 2 * h"
    using K h0 by (simp_all add: S_def R_def flip: K)
  have S1: "S < 2 ^ (p + 1)" using bound
    by (simp add: S_def less_mult_imp_div_less power_add ac_simps)
  have S2: "2 ^ p \<le> S \<or> E = 0"
    using norm by (auto simp: S_def power_add less_eq_div_iff_mult_less_eq)
  define U :: real where "U = 2 powi (q + int E - int k)"
  have U0: "0 < U" by (simp add: U_def)
  have KU: "(2::real) powi (q + int E) = 2 * real h * U"
  proof -
    have "(2::real) powi (q + int E - int k + int k) = 2 powi (q + int E - int k) * 2 powi int k"
      by (rule power_int_add) simp
    then show ?thesis using K by (simp add: U_def) (metis of_nat_mult of_nat_numeral of_nat_power)
  qed
  have lo: "mag_val p q (E * 2 ^ p + S) = real (2 * S * h) * U"
    using mag_val_scaled [of S p E q] S1 S2 KU by simp
  have hi: "mag_val p q (Suc (E * 2 ^ p + S)) = real (2 * (S + 1) * h) * U"
    using mag_val_scaled [of "S + 1" p E q] S1 S2 KU by (auto simp: algebra_simps)
  have c: "(y < real (c * h)) = (sig < c * h)" "(y = real (c * h)) = (sig = c * h)" for c
    using same_cell_less [OF cell, of c] same_cell_eq [OF cell, of c] by (simp_all add: h_def)
  have xlo: "mag_val p q (E * 2 ^ p + S) \<le> x"
    unfolding lo using c(1) [of "2 * S"] U0 sig
    by (simp add: x U_def [symmetric] not_less [symmetric] del: of_nat_mult)
  have xhi: "x < mag_val p q (Suc (E * 2 ^ p + S))"
    unfolding hi using c(1) [of "2 * (S + 1)"] U0 sig R
    by (simp add: x U_def [symmetric] algebra_simps del: of_nat_mult of_nat_add)
  have eqlo: "(x = mag_val p q (E * 2 ^ p + S)) = (R = 0)"
    unfolding lo using c(2) [of "2 * S"] U0 sig
    by (simp add: x U_def [symmetric] del: of_nat_mult)
  have mid: "mag_val p q (E * 2 ^ p + S) + mag_val p q (Suc (E * 2 ^ p + S)) = 2 * (real ((2 * S + 1) * h) * U)"
    unfolding lo hi by (simp add: algebra_simps)
  have mid1: "(mag_val p q (E * 2 ^ p + S) + mag_val p q (Suc (E * 2 ^ p + S)) < 2 * x) = (h < R)"
    "(2 * x = mag_val p q (E * 2 ^ p + S) + mag_val p q (Suc (E * 2 ^ p + S))) = (R = h)"
    unfolding mid using c [of "2 * S + 1"] U0 sig
      not_less_iff_gr_or_eq [of y "real ((2 * S + 1) * h)"]
      not_less_iff_gr_or_eq [of sig "(2 * S + 1) * h"]
    by (simp_all add: x U_def [symmetric] ring_distribs del: of_nat_mult of_nat_add) auto
  have "even (E * 2 ^ p)" using p by simp
  then have up: "round_up mode sign (E * 2 ^ p + S) (mag_val p q (E * 2 ^ p + S))
        (mag_val p q (Suc (E * 2 ^ p + S))) x \<longleftrightarrow> round_up_nat mode sign h S R"
    unfolding round_up_def round_up_nat_def
    using eqlo mid1 by (auto simp: le_less)
  have n: "E * 2 ^ p + round_nat mode sign k sig =
      (if round_up_nat mode sign h S R then Suc (E * 2 ^ p + S) else E * 2 ^ p + S)"
    using round_nat_split [OF k, where R = R and S = S and mode = mode and sign = sign] sig R
    by (simp add: h_def)
  with xlo xhi up show "rounds p q mode sign x (E * 2 ^ p + round_nat mode sign k sig)"
    unfolding rounds_def by (intro exI [of _ "E * 2 ^ p + S"]) simp
  show "mag_val p q (E * 2 ^ p + round_nat mode sign k sig) = x \<longleftrightarrow> sig mod 2 ^ k = 0"
    unfolding n R_def [symmetric] using eqlo xhi by (auto simp: round_up_nat_def)
qed

definition jam :: "nat \<Rightarrow> nat \<Rightarrow> nat" where
  "jam d m = (if m mod 2 ^ d = 0 then m div 2 ^ d
              else if even (m div 2 ^ d) then Suc (m div 2 ^ d) else m div 2 ^ d)"

lemma same_cell_refl [simp]: "same_cell j (real s) s"
  by (simp add: same_cell_def)

lemma same_cellI:
  assumes "real (t * 2 ^ j) < y" "y < real ((t + 1) * 2 ^ j)" "t * 2 ^ j < s" "s < (t + 1) * 2 ^ j"
  shows "same_cell j y s"
  using assms unfolding same_cell_def by blast

lemma same_cellE:
  assumes "same_cell j y s"
  obtains "y = real s"
  | t where "real (t * 2 ^ j) < y" "y < real ((t + 1) * 2 ^ j)" "t * 2 ^ j < s" "s < (t + 1) * 2 ^ j"
  using assms unfolding same_cell_def by blast

lemma same_cell_nonneg: "same_cell j y s \<Longrightarrow> 0 \<le> y"
  using same_cell_less [of j y s 0] by simp

lemma same_cell_iff:
  "same_cell j y s \<longleftrightarrow>
     (\<forall>c. (y < real (c * 2 ^ j) \<longleftrightarrow> s < c * 2 ^ j) \<and> (y = real (c * 2 ^ j) \<longleftrightarrow> s = c * 2 ^ j))"
proof
  assume *: "\<forall>c. (y < real (c * 2 ^ j) \<longleftrightarrow> s < c * 2 ^ j) \<and> (y = real (c * 2 ^ j) \<longleftrightarrow> s = c * 2 ^ j)"
  define t where "t = s div 2 ^ j"
  have "t * 2 ^ j \<le> s" "s < (t + 1) * 2 ^ j"
    using dividend_less_div_times [of "2 ^ j" s] by (simp_all add: t_def)
  moreover have "y = real (t * 2 ^ j)" if "s = t * 2 ^ j"
    using * [rule_format, of t] that by blast
  ultimately show "same_cell j y s"
    using * [rule_format, of t] * [rule_format, of "t + 1"] not_less_iff_gr_or_eq [of y "real (t * 2 ^ j)"]
    unfolding same_cell_def by (metis le_neq_implies_less not_less)
qed (blast dest: same_cell_less same_cell_eq)

lemma same_cell_mono:
  assumes "same_cell i y s" and "i \<le> j"
  shows "same_cell j y s"
proof -
  have j: "c * 2 ^ j = c * 2 ^ (j - i) * 2 ^ i" for c :: nat
    using assms(2) by (simp add: mult.assoc flip: power_add)
  show ?thesis
    unfolding same_cell_iff j using assms(1) unfolding same_cell_iff by blast
qed

lemma same_cell_double:
  assumes "same_cell j y s"
  shows "same_cell (Suc j) (2 * y) (2 * s)"
  using assms
proof (cases rule: same_cellE)
  case (2 t)
  then show ?thesis by (intro same_cellI [of t]) (simp_all add: algebra_simps)
qed (simp add: same_cell_def)

lemma same_cell_mult_pow2:
  "same_cell j y s \<Longrightarrow> same_cell (j + i) (2 ^ i * y) (2 ^ i * s)"
proof (induction i)
  case (Suc i)
  from same_cell_double [OF Suc.IH [OF Suc.prems]] show ?case by (simp add: ac_simps)
qed simp

lemma same_cell_add:
  assumes "same_cell j y s" and "2 ^ j dvd c"
  shows "same_cell j (y + real c) (s + c)"
  using assms(1)
proof (cases rule: same_cellE)
  case (2 t)
  obtain e where "c = e * 2 ^ j" using assms(2) by (auto simp: dvd_def mult.commute)
  with 2 show ?thesis by (intro same_cellI [of "t + e"]) (simp_all add: algebra_simps)
qed (simp add: same_cell_def)

lemma same_cell_sub:
  assumes "same_cell j y s" and "2 ^ j dvd c" and "s \<le> c"
  shows "same_cell j (real c - y) (c - s)"
  using assms(1)
proof (cases rule: same_cellE)
  case (2 t)
  obtain e where c: "c = e * 2 ^ j" using assms(2) by (auto simp: dvd_def mult.commute)
  with 2 assms(3) have "t * 2 ^ j < e * 2 ^ j" by linarith
  then have "t < e" by simp
  then obtain f where e: "e = Suc (t + f)" using less_iff_Suc_add by blast
  have c': "c = t * 2 ^ j + 2 ^ j + f * 2 ^ j" by (simp add: c e algebra_simps)
  have r: "real c = real (t * 2 ^ j) + real (2 ^ j) + real (f * 2 ^ j)" by (simp add: c')
  have t1: "(t + 1) * 2 ^ j = t * 2 ^ j + 2 ^ j" "(f + 1) * 2 ^ j = f * 2 ^ j + 2 ^ j" by simp_all
  show ?thesis
    using 2 r c' unfolding t1 of_nat_add
    by (intro same_cellI [of f]) (unfold t1 of_nat_add, linarith+)
qed (use assms in \<open>simp add: same_cell_def of_nat_diff\<close>)

lemma jam_even_less: "even c \<Longrightarrow> jam d s < c \<longleftrightarrow> s < c * 2 ^ d"
  and jam_even_eq: "even c \<Longrightarrow> jam d s = c \<longleftrightarrow> s = c * 2 ^ d"
proof -
  assume c: "even c"
  define z where "z = s div 2 ^ d"
  define r where "r = s mod 2 ^ d"
  have s: "s = z * 2 ^ d + r" unfolding z_def r_def by (rule div_mult_mod_eq [symmetric])
  have r: "r < 2 ^ d" by (simp add: r_def)
  have z: "s < c * 2 ^ d \<longleftrightarrow> z < c" by (simp add: z_def div_less_iff_less_mult)
  have e: "s = c * 2 ^ d \<longleftrightarrow> z = c \<and> r = 0"
    using s by (auto simp: z_def r_def)
  have j: "jam d s = (if r = 0 then z else if even z then Suc z else z)"
    by (simp add: jam_def z_def r_def)
  have "even z \<Longrightarrow> z < c \<Longrightarrow> Suc z < c" using c by presburger
  then show "jam d s < c \<longleftrightarrow> s < c * 2 ^ d" by (auto simp: z j)
  show "jam d s = c \<longleftrightarrow> s = c * 2 ^ d" using c by (auto simp: e j)
qed

lemma same_cell_jam:
  assumes "same_cell j y s" and "1 \<le> j"
  shows "same_cell j (y / 2 ^ d) (jam d s)"
proof -
  have ev: "even (c * 2 ^ j)" for c :: nat using assms(2) by simp
  have y: "(y / 2 ^ d < real (c * 2 ^ j)) = (y < real (c * 2 ^ d * 2 ^ j))"
    "(y / 2 ^ d = real (c * 2 ^ j)) = (y = real (c * 2 ^ d * 2 ^ j))" for c
    by (simp_all add: field_simps)
  have s: "c * 2 ^ j * 2 ^ d = c * 2 ^ d * 2 ^ j" for c :: nat by simp
  show ?thesis
    unfolding same_cell_iff y jam_even_less [OF ev] jam_even_eq [OF ev] s
    using assms(1) unfolding same_cell_iff by blast
qed

lemma jam_cell: "same_cell (Suc 0) (real m / 2 ^ d) (jam d m)"
  by (rule same_cell_jam) simp_all

lemma same_cell_quotient:
  assumes "1 \<le> j" "0 < m"
  shows "same_cell j (real n / real m)
           (if n div m mod 2 ^ j = 0 \<and> n mod m \<noteq> 0 then Suc (n div m) else n div m)"
proof (cases "n mod m = 0")
  case True
  then have "real n / real m = real (n div m)" using assms(2) by (simp add: real_of_nat_div mod_0_imp_dvd)
  with True show ?thesis by (simp add: same_cell_def)
next
  case False
  define z where "z = n div m"
  define t where "t = z div 2 ^ j"
  have n: "n = z * m + n mod m" "n mod m < m" using assms(2) by (simp_all add: z_def)
  then have "z * m < n" "n < (z + 1) * m" using False by (simp_all add: algebra_simps)
  then have "real (z * m) < real n" "real n < real ((z + 1) * m)" by (simp_all only: of_nat_less_iff)
  then have y: "real z < real n / real m" "real n / real m < real z + 1"
    using assms(2) by (simp_all add: field_simps)
  define r where "r = z mod 2 ^ j"
  have t: "z = t * 2 ^ j + r" "r < 2 ^ j"
    unfolding t_def r_def by (rule div_mult_mod_eq [symmetric], simp)
  have t1: "(t + 1) * 2 ^ j = t * 2 ^ j + 2 ^ j" by simp
  have j: "(1::nat) < 2 ^ j" using assms(1) by (intro one_less_power) simp_all
  have tr: "real (t * 2 ^ j) \<le> real z" "real z + 1 \<le> real ((t + 1) * 2 ^ j)"
    using t unfolding t1 by linarith+
  have lo: "t * 2 ^ j < (if r = 0 then Suc z else z)" and hi: "(if r = 0 then Suc z else z) < (t + 1) * 2 ^ j"
    unfolding t1 using t j by auto
  have c: "(if z mod 2 ^ j = 0 \<and> n mod m \<noteq> 0 then Suc z else z) = (if r = 0 then Suc z else z)"
    using False by (simp add: r_def)
  show ?thesis
    unfolding z_def [symmetric] c by (rule same_cellI [OF _ _ lo hi]) (use y tr in linarith)+
qed

section \<open>Order of encodings, uniqueness of rounding\<close>

lemma mag_val_less_Suc: "mag_val p q n < mag_val p q (Suc n)"
proof -
  define E where "E = n div 2 ^ p - 1"
  define s where "s = n - E * 2 ^ p"
  have d: "n = n div 2 ^ p * 2 ^ p + n mod 2 ^ p" "n mod 2 ^ p < 2 ^ p"
    by (simp_all add: div_mult_mod_eq)
  have "n = E * 2 ^ p + s \<and> s < 2 ^ (p + 1) \<and> (2 ^ p \<le> s \<or> E = 0)"
  proof (cases "n div 2 ^ p")
    case 0
    with d show ?thesis by (simp add: E_def s_def)
  next
    case (Suc e)
    with d have "n - e * 2 ^ p = 2 ^ p + n mod 2 ^ p" "e * 2 ^ p \<le> n"
      by (metis add_diff_cancel_left' add.assoc add.commute mult_Suc, simp)
    with Suc d(2) show ?thesis by (simp add: E_def s_def)
  qed
  then have "n = E * 2 ^ p + s" "s < 2 ^ (p + 1)" "2 ^ p \<le> s \<or> E = 0" by auto
  then have "mag_val p q n = real s * 2 powi (q + int E)"
    and "mag_val p q (Suc n) = real (s + 1) * 2 powi (q + int E)"
    using mag_val_scaled [of s p E q] mag_val_scaled [of "s + 1" p E q] by auto
  then show ?thesis by simp
qed

lemma mag_val_strict_mono: "strict_mono (mag_val p q)"
  by (simp add: strict_mono_Suc_iff mag_val_less_Suc)

lemma mag_val_less_iff [simp]: "mag_val p q m < mag_val p q n \<longleftrightarrow> m < n"
  by (rule strict_mono_less [OF mag_val_strict_mono])

lemma mag_val_le_iff [simp]: "mag_val p q m \<le> mag_val p q n \<longleftrightarrow> m \<le> n"
  by (rule strict_mono_less_eq [OF mag_val_strict_mono])

lemma mag_val_eq_iff [simp]: "mag_val p q m = mag_val p q n \<longleftrightarrow> m = n"
  by (rule strict_mono_eq [OF mag_val_strict_mono])

lemma mag_val_0 [simp]: "mag_val p q 0 = 0"
  by (simp add: mag_val_def)

lemma mag_val_pow2: "mag_val p q (2 ^ p) = 2 powi (q + int p)" "mag_val p q (2 ^ (p + 1)) = 2 powi (q + int p + 1)"
  using mag_val_scaled [of "2 ^ p" p 0 q] mag_val_scaled [of "2 ^ (p + 1)" p 0 q]
  by (simp_all add: power_int_add)

lemma rounds_unique:
  assumes "rounds p q mode sign x n" and "rounds p q mode sign x n'"
  shows "n = n'"
proof -
  obtain m m' where m: "mag_val p q m \<le> x" "x < mag_val p q (Suc m)"
    "mag_val p q m' \<le> x" "x < mag_val p q (Suc m')"
    and n: "n = (if round_up mode sign m (mag_val p q m) (mag_val p q (Suc m)) x then Suc m else m)"
    "n' = (if round_up mode sign m' (mag_val p q m') (mag_val p q (Suc m')) x then Suc m' else m')"
    using assms unfolding rounds_def by blast
  have "m < Suc m'" "m' < Suc m"
    using m by (metis le_less_trans mag_val_less_iff)+
  then have "m = m'" by simp
  with n show ?thesis by simp
qed

lemma rounds_bounds:
  assumes "rounds p q mode sign x n" 
  shows "mag_val p q c \<le> x \<Longrightarrow> c \<le> n" and "x \<le> mag_val p q c \<Longrightarrow> n \<le> c"
proof -
  obtain m where m: "mag_val p q m \<le> x" "x < mag_val p q (Suc m)"
    and n: "n = (if round_up mode sign m (mag_val p q m) (mag_val p q (Suc m)) x then Suc m else m)"
    using assms unfolding rounds_def by blast
  show "c \<le> n" if "mag_val p q c \<le> x"
  proof -
    have "c < Suc m" using that m by (metis le_less_trans mag_val_less_iff)
    then show ?thesis by (simp add: n)
  qed
  show "n \<le> c" if "x \<le> mag_val p q c"
  proof (cases "x = mag_val p q m")
    case True
    with that n show ?thesis by (simp add: round_up_def)
  next
    case False
    with m that have "mag_val p q m < mag_val p q c" by linarith
    with n show ?thesis by auto
  qed
qed

lemma rounds_exact_iff:
  assumes "rounds p q mode sign x n"
  shows "mag_val p q n = x \<longleftrightarrow> (\<exists>m. mag_val p q m = x)"
  using rounds_bounds [OF assms] by (metis antisym order_refl)

text \<open>Rounding to nearest delivers a closest representable magnitude.\<close>

lemma rounds_nearest:
  assumes r: "rounds p q mode sign x n"
    and mode: "mode = softfloat_round_near_even \<or> mode = softfloat_round_near_maxMag"
  shows "\<bar>mag_val p q n - x\<bar> \<le> \<bar>mag_val p q c - x\<bar>"
proof -
  obtain m where m: "mag_val p q m \<le> x" "x < mag_val p q (Suc m)"
    and n: "n = (if round_up mode sign m (mag_val p q m) (mag_val p q (Suc m)) x then Suc m else m)"
    using r unfolding rounds_def by blast
  have c: "mag_val p q c \<le> mag_val p q m \<or> mag_val p q (Suc m) \<le> mag_val p q c"
    by (simp only: mag_val_le_iff) auto
  show ?thesis
  proof (cases "n = m")
    case True
    with n mode have "x = mag_val p q m \<or> 2 * x \<le> mag_val p q m + mag_val p q (Suc m)"
      by (auto simp: round_up_def round_mode_defs split: if_splits)
    with m c show ?thesis unfolding True by (elim disjE) linarith+
  next
    case False
    with n have Suc: "n = Suc m" by (simp split: if_splits)
    with n mode have "mag_val p q m + mag_val p q (Suc m) \<le> 2 * x"
      by (auto simp: round_up_def round_mode_defs split: if_splits)
    with m c show ?thesis unfolding Suc by (elim disjE) linarith+
  qed
qed

section \<open>Results of IEEE operations\<close>

definition overflow_to_inf :: "uint_fast8_t \<Rightarrow> bool \<Rightarrow> bool" where
  "overflow_to_inf mode sign \<longleftrightarrow>
     mode = softfloat_round_near_even \<or> mode = softfloat_round_near_maxMag \<or>
     mode = (if sign then softfloat_round_min else softfloat_round_max)"

definition tiny :: "nat \<Rightarrow> int \<Rightarrow> bool \<Rightarrow> real \<Rightarrow> fp_state \<Rightarrow> bool" where
  "tiny p q sign x s \<longleftrightarrow>
     (if softfloat_detectTininess s = softfloat_tininess_beforeRounding then x < 2 powi (q + int p)
      else \<exists>n. rounds p (q - 1) (softfloat_roundingMode s) sign x n \<and>
               mag_val p (q - 1) n < 2 powi (q + int p))"

definition fp_rounded ::
  "nat \<Rightarrow> int \<Rightarrow> nat \<Rightarrow> bool \<Rightarrow> real \<Rightarrow> fp_state \<Rightarrow> 'w::len word \<times> fp_state \<Rightarrow> bool" where
  "fp_rounded p q infEnc sign x s r \<longleftrightarrow>
     (\<exists>n. rounds p q (softfloat_roundingMode s) sign x n \<and>
          unat (fst r) = of_bool sign * 2 ^ (LENGTH('w) - 1) +
            (if n < infEnc then n
             else if overflow_to_inf (softfloat_roundingMode s) sign then infEnc else infEnc - 1) \<and>
          snd r = softfloat_raiseFlags
            ((if infEnc \<le> n then softfloat_flag_overflow OR softfloat_flag_inexact
              else if mag_val p q n \<noteq> x then
                softfloat_flag_inexact OR (if tiny p q sign x s then softfloat_flag_underflow else 0)
              else 0)) s)"

lemma round_nat_decomp:
  assumes "0 < k"
  shows "round_nat mode sign k s =
    (if round_up_nat mode sign (2 ^ (k - 1)) (s div 2 ^ k) (s mod 2 ^ k) then Suc (s div 2 ^ k) else s div 2 ^ k)"
proof -
  have K: "(2::nat) ^ k = 2 * 2 ^ (k - 1)" using assms by (simp add: power_eq_if)
  have "s = 2 * 2 ^ (k - 1) * (s div 2 ^ k) + s mod 2 ^ k"
    unfolding K [symmetric] by (rule mult_div_mod_eq [symmetric])
  moreover have "s mod 2 ^ k < 2 * 2 ^ (k - 1)" unfolding K [symmetric] by simp
  ultimately show ?thesis using round_nat_split [OF assms] by metis
qed

lemma round_nat_le:
  assumes "s \<le> c * 2 ^ k" "0 < k"
  shows "round_nat mode sign k s \<le> c"
proof (cases "s mod 2 ^ k = 0")
  case True
  have "s div 2 ^ k \<le> c * 2 ^ k div 2 ^ k" using assms(1) by (rule div_le_mono)
  with True show ?thesis by (simp add: round_nat_decomp [OF assms(2)] round_up_nat_def)
next
  case False
  then have "s \<noteq> c * 2 ^ k" by auto
  with assms(1) have "s div 2 ^ k < c" by (simp add: div_less_iff_less_mult)
  then show ?thesis by (simp add: round_nat_decomp [OF assms(2)])
qed

lemma round_nat_ge_iff:
  assumes s: "s < c * 2 ^ k" and k: "0 < k" and c: "even c"
  shows "c \<le> round_nat mode sign k s \<longleftrightarrow> c * 2 ^ k \<le> s + round_inc mode sign k"
proof -
  define h :: nat where "h = 2 ^ (k - 1)"
  have K: "2 ^ k = 2 * h" using k by (simp add: h_def power_eq_if)
  define S where "S = s div 2 ^ k"
  define R where "R = s mod 2 ^ k"
  have sSR: "s = S * (2 * h) + R"
    unfolding S_def R_def K [symmetric] by (rule div_mult_mod_eq [symmetric])
  have R: "R < 2 * h" by (simp add: R_def flip: K)
  have h0: "0 < h" by (simp add: h_def)
  have "S < c" using s by (simp add: S_def div_less_iff_less_mult)
  then consider "S + 1 = c" | "S + 2 \<le> c" by linarith
  then show ?thesis
  proof cases
    case 1
    with c have "odd S" by auto
    moreover have "c * (2 * h) = S * (2 * h) + 2 * h" using 1 by auto
    moreover have "round_nat mode sign k s = (if round_up_nat mode sign h S R then Suc S else S)"
      using round_nat_decomp [OF k] by (simp add: h_def S_def R_def)
    ultimately show ?thesis
      using R h0 1 unfolding sSR round_inc_def h_def [symmetric] K round_up_nat_def
      by (auto simp: round_mode_defs)
  next
    case 2
    have "round_inc mode sign k < 2 * h"
      unfolding round_inc_def h_def [symmetric] K using h0 by auto
    moreover have "c * (2 * h) \<ge> S * (2 * h) + 2 * (2 * h)"
      using mult_right_mono [OF 2, of "2 * h"] by (simp add: algebra_simps)
    moreover have "round_nat mode sign k s \<le> S + 1"
      using round_nat_decomp [OF k, of mode sign s] by (simp add: S_def)
    ultimately show ?thesis using R 2 unfolding sSR K by linarith
  qed
qed

section \<open>From a rounded significand to an IEEE result\<close>

lemma same_cell_ge: "same_cell j y s \<Longrightarrow> c * 2 ^ j \<le> s \<Longrightarrow> real (c * 2 ^ j) \<le> y"
  using same_cell_less [of j y s c] by linarith

lemma fp_rounded_normalI:
  fixes r :: "'w::len word \<times> fp_state" and k p :: nat
  assumes p: "0 < p" and k: "0 < k" and cell: "same_cell (k - 1) y sig"
    and sig: "2 ^ (p + k) \<le> sig" "sig < 2 ^ (p + k + 1)"
    and x: "x = y * 2 powi (q + int E - int k)"
    and n: "n = E * 2 ^ p + round_nat (softfloat_roundingMode s) sign k sig"
    and r: "unat (fst r) = of_bool sign * 2 ^ (LENGTH('w) - 1) +
            (if n < infEnc then n
             else if overflow_to_inf (softfloat_roundingMode s) sign then infEnc else infEnc - 1)"
    and s': "snd r = softfloat_raiseFlags
            (if infEnc \<le> n then softfloat_flag_overflow OR softfloat_flag_inexact
             else if sig mod 2 ^ k \<noteq> 0 then softfloat_flag_inexact else 0) s"
  shows "fp_rounded p q infEnc sign x s r"
proof -
  let ?mode = "softfloat_roundingMode s"
  have rnd: "rounds p q ?mode sign x n"
    and exact: "mag_val p q n = x \<longleftrightarrow> sig mod 2 ^ k = 0"
    using rounds_round_nat [OF p k cell, where mode = ?mode and sign = sign and E = E and x = x and q = q] sig x n
    by simp_all
  have "(2::nat) ^ (p + k) = 2 ^ (p + 1) * 2 ^ (k - 1)" using k by (cases k) (simp_all add: power_add)
  then have "real (2 ^ (p + k)) \<le> y"
    using same_cell_ge [OF cell, of "2 ^ (p + 1)"] sig(1) by (simp only:)
  then have "2 ^ (p + k) \<le> y" by simp
  then have "2 ^ (p + k) * 2 powi (q + int E - int k) \<le> x"
    unfolding x by (rule mult_right_mono) simp
  moreover have "(2::real) ^ (p + k) * 2 powi (q + int E - int k) = 2 powi (q + int p + int E)"
    by (simp add: power_int_add power_int_diff power_add)
  moreover have "(2::real) powi (q + int p) \<le> 2 powi (q + int p + int E)" 
    by (simp add: power_int_add)
  ultimately have big: "2 powi (q + int p) \<le> x" by linarith
  have "\<not> tiny p q sign x s"
  proof -
    have "2 ^ (p + 1) \<le> m" if "rounds p (q - 1) ?mode sign x m" for m
      using rounds_bounds(1) [OF that, of "2 ^ (p + 1)"] big mag_val_pow2(2) [of p "q - 1"] by simp
    moreover have "(2::real) powi (q + int p) = mag_val p (q - 1) (2 ^ (p + 1))"
      using mag_val_pow2(2) [of p "q - 1"] by simp
    ultimately show ?thesis
      using big unfolding tiny_def by (metis leD mag_val_less_iff)
  qed
  with rnd r s' exact show ?thesis unfolding fp_rounded_def by (intro exI [of _ n]) auto
qed

lemma jam_le:
  assumes "s \<le> c * 2 ^ d" "even c"
  shows "jam d s \<le> c"
  using jam_even_less [OF assms(2), of d s] jam_even_eq [OF assms(2), of d s] assms(1) by linarith

lemma fp_rounded_subnormalI:
  fixes r :: "'w::len word \<times> fp_state" and k p d :: nat
  assumes p: "0 < p" and k: "1 < k" and cell: "same_cell (k - 1) y sig"
    and sig: "sig < 2 ^ (p + k + 1)" and d: "0 < d"
    and x: "x = y * 2 powi (q - int d - int k)"
    and n: "n = round_nat (softfloat_roundingMode s) sign k (jam d sig)"
    and inf: "2 ^ (p + 1) < infEnc"
    and r: "unat (fst r) = of_bool sign * 2 ^ (LENGTH('w) - 1) + n"
    and s': "snd r = softfloat_raiseFlags
            (if jam d sig mod 2 ^ k \<noteq> 0 then softfloat_flag_inexact OR
               (if softfloat_detectTininess s = softfloat_tininess_beforeRounding \<or> 1 < d \<or>
                   sig + round_inc (softfloat_roundingMode s) sign k < 2 ^ (p + k + 1)
                then softfloat_flag_underflow else 0)
             else 0) s"
  shows "fp_rounded p q infEnc sign x s r"
proof -
  let ?mode = "softfloat_roundingMode s"
  have k0: "0 < k" "1 \<le> k - 1" using k by simp_all
  have xe: "x = y / 2 ^ e * 2 powi (q - int d + int e - int k)" for e
    by (simp add: x power_int_add power_int_diff)
  have jb: "jam e sig < 2 ^ (p + k + 1)" for e
  proof -
    have "sig < 2 ^ (p + k + 1) * 2 ^ e" using sig by (simp add: less_le_trans)
    then show ?thesis by (subst jam_even_less) simp_all
  qed
  have shift: "rounds p (q - int d + int e) ?mode sign x (round_nat ?mode sign k (jam e sig))"
    "mag_val p (q - int d + int e) (round_nat ?mode sign k (jam e sig)) = x \<longleftrightarrow> jam e sig mod 2 ^ k = 0" for e
    using rounds_round_nat [OF p k0(1) same_cell_jam [OF cell k0(2), of e], where E = 0
        and mode = ?mode and sign = sign and q = "q - int d + int e" and x = x] jb xe
    by simp_all
  have n_le: "n \<le> 2 ^ (p + 1)"
    unfolding n using jb [of d] k0(1) by (intro round_nat_le) (simp_all add: power_add less_imp_le mult.commute mult.left_commute)
  have t: "tiny p q sign x s \<longleftrightarrow> softfloat_detectTininess s = softfloat_tininess_beforeRounding \<or>
      round_nat ?mode sign k (jam (d - 1) sig) < 2 ^ (p + 1)" (is "_ \<longleftrightarrow> _ \<or> ?n' < _")
  proof -
    have q1: "q - int d + int (d - 1) = q - 1" using d by simp
    have "y < 2 ^ (p + k + 1)"
      using same_cell_less [OF cell, of "2 ^ (p + 2)"] sig k by (cases k) (simp_all add: power_add)
    then have "y / 2 ^ d < 2 ^ (p + k)"
      using d by (cases d) (auto simp: field_simps power_add intro: less_le_trans)
    then have "y / 2 ^ d * 2 powi (q - int k) < 2 ^ (p + k) * 2 powi (q - int k)"
      by (rule mult_strict_right_mono) simp
    then have "x < 2 ^ (p + k) * 2 powi (q - int k)"
      using xe [of d] by simp
    also have "(2::real) ^ (p + k) * 2 powi (q - int k) = 2 powi (q + int p)"
      by (simp add: power_int_add power_int_diff power_add)
    finally have "x < 2 powi (q + int p)" .
    moreover have "(\<exists>n. rounds p (q - 1) ?mode sign x n \<and> mag_val p (q - 1) n < 2 powi (q + int p)) \<longleftrightarrow>
        ?n' < 2 ^ (p + 1)"
    proof -
      have "mag_val p (q - 1) ?n' < 2 powi (q + int p) \<longleftrightarrow> ?n' < 2 ^ (p + 1)"
        using mag_val_pow2(2) [of p "q - 1"] mag_val_less_iff [of p "q - 1" ?n' "2 ^ (p + 1)"] by simp
      with shift(1) [of "d - 1", unfolded q1] show ?thesis by (metis rounds_unique)
    qed
    ultimately show ?thesis unfolding tiny_def by auto
  qed
  have n': "round_nat ?mode sign k (jam (d - 1) sig) < 2 ^ (p + 1) \<longleftrightarrow>
      1 < d \<or> sig + round_inc ?mode sign k < 2 ^ (p + k + 1)"
  proof (cases "d = 1")
    case True
    have "round_nat ?mode sign k sig < 2 ^ (p + 1) \<longleftrightarrow> sig + round_inc ?mode sign k < 2 ^ (p + 1) * 2 ^ k"
      using round_nat_ge_iff [OF _ k0(1), of sig "2 ^ (p + 1)" ?mode sign] sig by (simp add: power_add not_le [symmetric] ac_simps)
    with True show ?thesis by (simp add: jam_def power_add ac_simps)
  next
    case False
    with d obtain e where e: "d = Suc (Suc e)" by (metis One_nat_def not0_implies_Suc not_less_zero)
    have "jam (d - 1) sig \<le> 2 ^ p * 2 ^ k"
      using sig p by (intro jam_le) (simp_all add: e power_add less_imp_le mult.commute less_le_trans)
    then have "round_nat ?mode sign k (jam (d - 1) sig) \<le> 2 ^ p" by (rule round_nat_le [OF _ k0(1)])
    with e show ?thesis by (simp add: less_le_trans le_less_trans)
  qed
  show ?thesis
    unfolding fp_rounded_def
    using shift [of d] n_le inf r s' n t n' by (intro exI [of _ n]) auto
qed
lemma round_inc_0_iff: "1 < k \<Longrightarrow> round_inc mode sign k = 0 \<longleftrightarrow> \<not> overflow_to_inf mode sign"
  using one_less_power [of "2 :: nat" k] by (auto simp: round_inc_def overflow_to_inf_def)

lemma round_nat_ge: "0 < k \<Longrightarrow> c * 2 ^ k \<le> s \<Longrightarrow> c \<le> round_nat mode sign k s"
  by (simp add: round_nat_decomp less_eq_div_iff_mult_less_eq le_SucI)

lemma fp_rounded_exact:
  fixes r :: "'w::len word \<times> fp_state"
  assumes "x = mag_val p q n" and "n < infEnc"
    and "unat (fst r) = of_bool sign * 2 ^ (LENGTH('w) - 1) + n" and "snd r = s"
  shows "fp_rounded p q infEnc sign x s r"
proof -
  have "rounds p q (softfloat_roundingMode s) sign x n"
    unfolding rounds_def by (rule exI [of _ n]) (simp add: assms(1) round_up_def)
  with assms show ?thesis unfolding fp_rounded_def by (intro exI [of _ n]) simp
qed

definition sum_sign :: "uint_fast8_t \<Rightarrow> bool \<Rightarrow> bool \<Rightarrow> real \<Rightarrow> bool" where
  "sum_sign mode sA sB v = (if v \<noteq> 0 then v < 0 else if sA = sB then sA else mode = softfloat_round_min)"

end
