(* ===== verification/Softfloat_Primitives.thy ===== *)
theory Softfloat_Primitives
  imports IEEE_Rounding
begin

text \<open>
  The integer primitives under the floating-point engine (\<^verbatim>\<open>softfloat/primitives.h\<close> and the
  \<^verbatim>\<open>softfloat/s_*.c\<close> files that define them): right shifts that jam the bits shifted off into the
  least-significant bit, leading-zero counts, and 128-bit arithmetic on pairs of words. Each is
  shown equal to an arithmetic function on natural numbers.
\<close>

section \<open>Jamming shifts\<close>

definition softfloat_shortShiftRightJam64 :: "uint64_t \<Rightarrow> uint_fast8_t \<Rightarrow> uint64_t" where
  "softfloat_shortShiftRightJam64 a dst =
     drop_bit (unat dst) a OR of_bool (a AND (push_bit (unat dst) 1 - 1) \<noteq> 0)"

definition softfloat_shiftRightJam32 :: "uint32_t \<Rightarrow> uint_fast16_t \<Rightarrow> uint32_t" where
  "softfloat_shiftRightJam32 a dst =
     (if dst < 31
      then drop_bit (unat dst) a OR of_bool (push_bit (unat (- dst AND 31)) a \<noteq> 0)
      else of_bool (a \<noteq> 0))"

definition softfloat_shiftRightJam64 :: "uint64_t \<Rightarrow> uint_fast32_t \<Rightarrow> uint64_t" where
  "softfloat_shiftRightJam64 a dst =
     (if dst < 63
      then drop_bit (unat dst) a OR of_bool (push_bit (unat (- dst AND 63)) a \<noteq> 0)
      else of_bool (a \<noteq> 0))"

record uint64_extra =
  extra_v :: uint64_t
  extra_extra :: uint64_t

definition softfloat_shiftRightJam64Extra :: "uint64_t \<Rightarrow> uint64_t \<Rightarrow> uint_fast32_t \<Rightarrow> uint64_extra" where
  "softfloat_shiftRightJam64Extra a extra dst =
     (let z = (if dst < 64
               then \<lparr>extra_v = drop_bit (unat dst) a, extra_extra = push_bit (unat (- dst AND 63)) a\<rparr>
               else \<lparr>extra_v = 0, extra_extra = (if dst = 64 then a else of_bool (a \<noteq> 0))\<rparr>)
      in z\<lparr>extra_extra := extra_extra z OR of_bool (extra \<noteq> 0)\<rparr>)"

section \<open>Leading zeros\<close>

definition softfloat_countLeadingZeros8 :: "uint_fast8_t list" where
  "softfloat_countLeadingZeros8 =
     [8, 7] @ replicate 2 6 @ replicate 4 5 @ replicate 8 4 @ replicate 16 3 @
     replicate 32 2 @ replicate 64 1 @ replicate 128 0"

definition softfloat_countLeadingZeros32 :: "uint32_t \<Rightarrow> uint_fast8_t" where
  "softfloat_countLeadingZeros32 a =
     (let (count, a) = (if a < 0x10000 then (16, push_bit 16 a) else (0, a));
          (count, a) = (if a < 0x1000000 then (count + 8, push_bit 8 a) else (count, a))
      in count + softfloat_countLeadingZeros8 ! unat (drop_bit 24 a))"

definition softfloat_countLeadingZeros64 :: "uint64_t \<Rightarrow> uint_fast8_t" where
  "softfloat_countLeadingZeros64 a =
     (let count = 0;
          a32 = ucast (drop_bit 32 a) :: uint32_t;
          (count, a32) = (if a32 = 0 then (32, ucast a) else (count, a32));
          (count, a32) = (if a32 < 0x10000 then (count + 16, push_bit 16 a32) else (count, a32));
          (count, a32) = (if a32 < 0x1000000 then (count + 8, push_bit 8 a32) else (count, a32))
      in count + softfloat_countLeadingZeros8 ! unat (drop_bit 24 a32))"

section \<open>128-bit arithmetic\<close>

record uint128 =
  v64 :: uint64_t
  v0 :: uint64_t

definition softfloat_add128 :: "uint64_t \<Rightarrow> uint64_t \<Rightarrow> uint64_t \<Rightarrow> uint64_t \<Rightarrow> uint128" where
  "softfloat_add128 a64 a0 b64 b0 =
     (let z0 = a0 + b0 in \<lparr>v64 = a64 + b64 + of_bool (z0 < a0), v0 = z0\<rparr>)"

definition softfloat_sub128 :: "uint64_t \<Rightarrow> uint64_t \<Rightarrow> uint64_t \<Rightarrow> uint64_t \<Rightarrow> uint128" where
  "softfloat_sub128 a64 a0 b64 b0 =
     \<lparr>v64 = a64 - b64 - of_bool (a0 < b0), v0 = a0 - b0\<rparr>"

definition softfloat_mul64To128 :: "uint64_t \<Rightarrow> uint64_t \<Rightarrow> uint128" where
  "softfloat_mul64To128 a b =
     (let a32 = ucast (drop_bit 32 a) :: uint32_t;
          a0 = ucast a :: uint32_t;
          b32 = ucast (drop_bit 32 b) :: uint32_t;
          b0 = ucast b :: uint32_t;
          z0 = ucast a0 * ucast b0 :: uint64_t;
          mid1 = ucast a32 * ucast b0 :: uint64_t;
          mid = mid1 + ucast a0 * ucast b32;
          z64 = ucast a32 * ucast b32 :: uint64_t;
          z64 = z64 + (push_bit 32 (of_bool (mid < mid1)) OR drop_bit 32 mid);
          mid = push_bit 32 mid;
          z0 = z0 + mid;
          z64 = z64 + of_bool (z0 < mid)
      in \<lparr>v64 = z64, v0 = z0\<rparr>)"

section \<open>Reciprocal estimates\<close>

definition softfloat_approxRecip32_1 :: "uint32_t \<Rightarrow> uint32_t" where
  "softfloat_approxRecip32_1 a = ucast ((0x7FFFFFFFFFFFFFFF :: uint64_t) div ucast a)"

abbreviation uint128_val :: "uint128 \<Rightarrow> nat" where
  "uint128_val z \<equiv> unat (v64 z) * 2 ^ 64 + unat (v0 z)"

section \<open>The jamming shifts implement \<open>jam\<close>\<close>

lemma push_bit_low_zero:
  fixes a :: "'a::len word"
  assumes "d \<le> LENGTH('a)"
  shows "push_bit (LENGTH('a) - d) a = 0 \<longleftrightarrow> unat a mod 2 ^ d = 0"
proof -
  have "(2::nat) ^ LENGTH('a) = 2 ^ d * 2 ^ (LENGTH('a) - d)" using assms by (simp flip: power_add)
  then have "unat (push_bit (LENGTH('a) - d) a) = (unat a mod 2 ^ d) * 2 ^ (LENGTH('a) - d)"
    unfolding unat_push_bit_mod by (simp only: mult_mod_left)
  then have "unat (push_bit (LENGTH('a) - d) a) = 0 \<longleftrightarrow> unat a mod 2 ^ d = 0" by simp
  then show ?thesis by (simp only: unat_eq_zero)
qed

lemma jam_word:
  fixes a :: "'a::len word"
  shows "unat (drop_bit d a OR of_bool (unat a mod 2 ^ d \<noteq> 0)) = jam d (unat a)"
  by (simp add: unat_or_of_bool unat_drop_bit_div jam_def)

lemma jam_big:
  assumes "m < 2 ^ d"
  shows "jam d m = of_bool (m \<noteq> 0)"
  using assms by (simp add: jam_def)

lemma jam_big_or_top:
  assumes "m < 2 ^ Suc n" "n \<le> d"
  shows "jam d m = of_bool (m \<noteq> 0)"
proof (cases "m < 2 ^ d")
  case False
  have "d = n"
  proof (rule ccontr)
    assume "d \<noteq> n"
    with assms(2) have "(2::nat) ^ Suc n \<le> 2 ^ d" by (intro power_increasing) auto
    with assms(1) False show False by linarith
  qed
  with False assms have "m div 2 ^ d = 1" by (intro div_nat_eqI) auto
  moreover have "m \<noteq> 0" using False by (cases "m = 0") auto
  ultimately show ?thesis by (simp add: jam_def)
qed (rule jam_big)

lemma neg_dst_mod:
  fixes dst m :: uint64_t
  assumes "0 < unat dst" "unat dst < 2 ^ n" "n \<le> 64" "unat m + 1 = 2 ^ n"
  shows "unat (- dst AND m) = 2 ^ n - unat dst"
proof -
  have "unat (- dst) = 2 ^ 64 - unat dst"
    using assms(1) by (subst unat_neg) (auto simp: unat_gt_0)
  also have "\<dots> = (2 ^ (64 - n) - 1) * 2 ^ n + (2 ^ n - unat dst)"
  proof -
    have "(2::nat) ^ 64 = 2 ^ (64 - n) * 2 ^ n" using assms(3) by (simp flip: power_add)
    moreover have "(2 ^ (64 - n) - 1) * 2 ^ n = (2::nat) ^ (64 - n) * 2 ^ n - 2 ^ n"
      by (simp add: diff_mult_distrib)
    moreover have "(2::nat) ^ n \<le> 2 ^ (64 - n) * 2 ^ n" by simp
    ultimately show ?thesis using assms(2) by linarith
  qed
  finally have "unat (- dst) mod 2 ^ n = (2 ^ n - unat dst) mod 2 ^ n" by (simp only: mod_mult_self3)
  with assms(1,2) show ?thesis by (simp only: unat_and_mask [OF assms(4)] mod_less)
qed

lemma shortShiftRightJam64_jam:
  assumes "unat dst < 64"
  shows "unat (softfloat_shortShiftRightJam64 a dst) = jam (unat dst) (unat a)"
proof -
  have "unat (push_bit (unat dst) (1 :: uint64_t) - 1) = 2 ^ unat dst - 1"
  proof -
    have "(2::nat) ^ unat dst < 2 ^ 64" using assms by (rule power_strict_increasing) simp
    then have "unat (push_bit (unat dst) (1 :: uint64_t)) = 2 ^ unat dst"
      unfolding unat_push_bit_mod by simp
    then show ?thesis by (simp add: unat_diff_nowrap)
  qed
  then have "unat (a AND (push_bit (unat dst) 1 - 1)) = unat a mod 2 ^ unat dst"
    by (intro unat_and_mask) simp
  then have "a AND (push_bit (unat dst) 1 - 1) \<noteq> 0 \<longleftrightarrow> unat a mod 2 ^ unat dst \<noteq> 0"
    by (metis unat_eq_zero)
  then show ?thesis
    unfolding softfloat_shortShiftRightJam64_def using jam_word [of "unat dst" a] by simp
qed

lemma shiftRightJam32_jam:
  assumes "dst \<noteq> 0"
  shows "unat (softfloat_shiftRightJam32 a dst) = jam (unat dst) (unat a)"
proof (cases "dst < 31")
  case True
  then have d: "0 < unat dst" "unat dst < 31" using assms by (auto simp: word_less_nat_alt unat_gt_0)
  then have "unat (- dst AND 31) = LENGTH(32) - unat dst"
    using neg_dst_mod [of dst 5 31] by simp
  then have "push_bit (unat (- dst AND 31)) a \<noteq> 0 \<longleftrightarrow> unat a mod 2 ^ unat dst \<noteq> 0"
    using push_bit_low_zero [of "unat dst" a] d by simp
  with True show ?thesis
    unfolding softfloat_shiftRightJam32_def using jam_word [of "unat dst" a] by simp
next
  case False
  then have "31 \<le> unat dst" by (simp add: word_less_nat_alt)
  then have "jam (unat dst) (unat a) = of_bool (unat a \<noteq> 0)"
    using unat_less_pow2 [of a] by (intro jam_big_or_top [of _ 31]) simp_all
  with False show ?thesis by (simp add: softfloat_shiftRightJam32_def unat_eq_zero)
qed

lemma shiftRightJam64_jam:
  assumes "dst \<noteq> 0"
  shows "unat (softfloat_shiftRightJam64 a dst) = jam (unat dst) (unat a)"
proof (cases "dst < 63")
  case True
  then have d: "0 < unat dst" "unat dst < 63" using assms by (auto simp: word_less_nat_alt unat_gt_0)
  then have "unat (- dst AND 63) = LENGTH(64) - unat dst"
    using neg_dst_mod [of dst 6 63] by simp
  then have "push_bit (unat (- dst AND 63)) a \<noteq> 0 \<longleftrightarrow> unat a mod 2 ^ unat dst \<noteq> 0"
    using push_bit_low_zero [of "unat dst" a] d by simp
  with True show ?thesis
    unfolding softfloat_shiftRightJam64_def using jam_word [of "unat dst" a] by simp
next
  case False
  then have "63 \<le> unat dst" by (simp add: word_less_nat_alt)
  then have "jam (unat dst) (unat a) = of_bool (unat a \<noteq> 0)"
    using unat_less_pow2 [of a] by (intro jam_big_or_top [of _ 63]) simp_all
  with False show ?thesis by (simp add: softfloat_shiftRightJam64_def unat_eq_zero)
qed

section \<open>Leading-zero counts\<close>

lemma clz8_table:
  assumes "0 < i" "i < 256"
  shows "128 \<le> i * 2 ^ unat (softfloat_countLeadingZeros8 ! i)" "(i + 1) * 2 ^ unat (softfloat_countLeadingZeros8 ! i) \<le> 256"
         "unat (softfloat_countLeadingZeros8 ! i) < 8"
  using assms by (auto simp: softfloat_countLeadingZeros8_def nth_append nth_Cons split: nat.splits)

definition is_clz :: "nat \<Rightarrow> nat \<Rightarrow> nat \<Rightarrow> bool" where
  "is_clz w a c \<longleftrightarrow> c < w \<and> 2 ^ (w - 1) \<le> a * 2 ^ c \<and> a * 2 ^ c < 2 ^ w"

lemma clz8_byte:
  fixes a :: uint32_t
  assumes "2 ^ 24 \<le> unat a"
  shows "is_clz 32 (unat a) (unat (softfloat_countLeadingZeros8 ! unat (drop_bit 24 a)))"
    and "unat (softfloat_countLeadingZeros8 ! unat (drop_bit 24 a)) < 8"
proof -
  define t where "t = unat a div 2 ^ 24"
  define c where "c = unat (softfloat_countLeadingZeros8 ! t)"
  have t: "0 < t" "t < 256" "t * 2 ^ 24 \<le> unat a" "unat a < (t + 1) * 2 ^ 24"
    using assms unat_less_pow2 [of a] by (simp_all add: t_def)
  have c: "128 \<le> t * 2 ^ c" "(t + 1) * 2 ^ c \<le> 256" "c < 8"
    using clz8_table [OF t(1,2)] by (simp_all add: c_def)
  have "128 * 2 ^ 24 \<le> t * 2 ^ c * 2 ^ 24" using c(1) by (rule mult_right_mono) simp
  also have "\<dots> = t * 2 ^ 24 * 2 ^ c" by (simp only: ac_simps)
  also have "\<dots> \<le> unat a * 2 ^ c" using t(3) by (rule mult_right_mono) simp
  finally have lo: "2 ^ 31 \<le> unat a * 2 ^ c" by simp
  have "unat a * 2 ^ c < (t + 1) * 2 ^ 24 * 2 ^ c" using t(4) by (rule mult_strict_right_mono) simp
  also have "\<dots> = (t + 1) * 2 ^ c * 2 ^ 24" by (simp only: ac_simps)
  also have "\<dots> \<le> 256 * 2 ^ 24" using c(2) by (rule mult_right_mono) simp
  finally have hi: "unat a * 2 ^ c < 2 ^ 32" by simp
  with lo c(3) show "is_clz 32 (unat a) (unat (softfloat_countLeadingZeros8 ! unat (drop_bit 24 a)))"
    "unat (softfloat_countLeadingZeros8 ! unat (drop_bit 24 a)) < 8"
    unfolding is_clz_def unat_drop_bit_div t_def [symmetric] c_def [symmetric] by simp_all
qed

lemma countLeadingZeros32_is_clz:
  fixes a :: uint32_t
  assumes "a \<noteq> 0"
  shows "is_clz 32 (unat a) (unat (softfloat_countLeadingZeros32 a))"
proof -
  define a1 where "a1 = (if a < 0x10000 then push_bit 16 a else a)"
  define c1 :: nat where "c1 = (if a < 0x10000 then 16 else 0)"
  have a0: "0 < unat a" using assms by (simp add: unat_gt_0)
  have a1: "unat a1 = unat a * 2 ^ c1" "2 ^ 16 \<le> unat a1"
    using a0 unfolding a1_def c1_def by (auto simp: word_less_nat_alt unat_push_bit_nowrap not_less)
  define a2 where "a2 = (if a1 < 0x1000000 then push_bit 8 a1 else a1)"
  define c2 :: nat where "c2 = (if a1 < 0x1000000 then 8 else 0)"
  have a2: "unat a2 = unat a1 * 2 ^ c2" "2 ^ 24 \<le> unat a2"
    using a1(2) unfolding a2_def c2_def by (auto simp: word_less_nat_alt unat_push_bit_nowrap not_less)
  define c3 where "c3 = softfloat_countLeadingZeros8 ! unat (drop_bit 24 a2)"
  have c3: "is_clz 32 (unat a2) (unat c3)" "unat c3 < 8" using clz8_byte [OF a2(2)] by (simp_all add: c3_def)
  have eq: "softfloat_countLeadingZeros32 a = of_nat c1 + of_nat c2 + c3"
    unfolding softfloat_countLeadingZeros32_def Let_def c3_def a2_def c2_def a1_def c1_def by simp
  have "unat (softfloat_countLeadingZeros32 a) = c1 + c2 + unat c3"
    unfolding eq using c3(2) by (auto simp: c1_def c2_def unat_word_ariths)
  then show ?thesis using c3 a1 a2 unfolding is_clz_def by (auto simp: power_add c1_def c2_def split: if_splits)
qed

lemma countLeadingZeros64_is_clz:
  fixes a :: uint64_t
  assumes "a \<noteq> 0"
  shows "is_clz 64 (unat a) (unat (softfloat_countLeadingZeros64 a))"
proof (cases "ucast (drop_bit 32 a) = (0 :: uint32_t)")
  case True
  then have hi: "unat a div 2 ^ 32 = 0"
    using unat_ucast_mod [of "drop_bit 32 a", where 'b = 32] unat_less_pow2 [of a]
    by (simp add: unat_drop_bit_div)
  then have u: "unat (ucast a :: uint32_t) = unat a" by (simp add: unat_ucast_mod)
  with assms have nz: "(ucast a :: uint32_t) \<noteq> 0" by (metis unat_eq_zero)
  have eq: "softfloat_countLeadingZeros64 a = 32 + softfloat_countLeadingZeros32 (ucast a)"
    unfolding softfloat_countLeadingZeros64_def softfloat_countLeadingZeros32_def Let_def
    using True by (simp add: add.assoc)
  have c: "is_clz 32 (unat a) (unat (softfloat_countLeadingZeros32 (ucast a)))"
    using countLeadingZeros32_is_clz [OF nz] by (simp add: u)
  then have "unat (softfloat_countLeadingZeros64 a) = 32 + unat (softfloat_countLeadingZeros32 (ucast a))"
    unfolding eq by (subst unat_add_nowrap) (simp_all add: is_clz_def)
  with c show ?thesis by (simp add: is_clz_def power_add)
next
  case False
  have u: "unat (ucast (drop_bit 32 a) :: uint32_t) = unat a div 2 ^ 32"
    using unat_less_pow2 [of a] by (simp add: unat_ucast_mod unat_drop_bit_div)
  have eq: "softfloat_countLeadingZeros64 a = softfloat_countLeadingZeros32 (ucast (drop_bit 32 a))"
    unfolding softfloat_countLeadingZeros64_def softfloat_countLeadingZeros32_def Let_def
    using False by simp
  define t where "t = unat a div 2 ^ 32"
  define c where "c = unat (softfloat_countLeadingZeros64 a)"
  have c: "c < 32" "2 ^ 31 \<le> t * 2 ^ c" "t * 2 ^ c < 2 ^ 32"
    using countLeadingZeros32_is_clz [OF False] by (simp_all add: eq u is_clz_def t_def c_def)
  have t: "t * 2 ^ 32 \<le> unat a" "unat a < (t + 1) * 2 ^ 32" by (simp_all add: t_def)
  have "2 ^ 32 = 2 ^ (32 - c) * (2::nat) ^ c" using c(1) by (simp flip: power_add)
  with c(3) have "t * 2 ^ c < 2 ^ (32 - c) * 2 ^ c" by simp
  then have "t < 2 ^ (32 - c)" by (rule mult_right_less_imp_less) simp
  then have "(t + 1) * 2 ^ c \<le> 2 ^ (32 - c) * 2 ^ c" by (intro mult_right_mono) simp_all
  then have c3: "(t + 1) * 2 ^ c \<le> 2 ^ 32" using c(1) by (simp flip: power_add)
  have "2 ^ 31 * 2 ^ 32 \<le> t * 2 ^ c * 2 ^ 32" using c(2) by (rule mult_right_mono) simp
  also have "\<dots> = t * 2 ^ 32 * 2 ^ c" by (simp only: ac_simps)
  also have "\<dots> \<le> unat a * 2 ^ c" using t(1) by (rule mult_right_mono) simp
  finally have lo: "2 ^ 63 \<le> unat a * 2 ^ c" by simp
  have "unat a * 2 ^ c < (t + 1) * 2 ^ 32 * 2 ^ c" using t(2) by (rule mult_strict_right_mono) simp
  also have "\<dots> = (t + 1) * 2 ^ c * 2 ^ 32" by (simp only: ac_simps)
  also have "\<dots> \<le> 2 ^ 32 * 2 ^ 32" using c3 by (rule mult_right_mono) simp
  finally have hi: "unat a * 2 ^ c < 2 ^ 64" by simp
  with lo c(1) show ?thesis by (simp add: is_clz_def c_def)
qed

lemma countLeadingZeros_0:
  "softfloat_countLeadingZeros32 0 = 32" "softfloat_countLeadingZeros64 0 = 64"
  by (simp_all add: softfloat_countLeadingZeros32_def softfloat_countLeadingZeros64_def
      softfloat_countLeadingZeros8_def)

section \<open>128-bit arithmetic is exact\<close>

lemma add_carry:
  fixes a b :: "'a::len word"
  shows "unat a + unat b = of_bool (a + b < a) * 2 ^ LENGTH('a) + unat (a + b)"
proof (cases "unat a + unat b < 2 ^ LENGTH('a)")
  case True
  then show ?thesis by (simp add: word_less_nat_alt unat_add_nowrap)
next
  case False
  then have u: "unat (a + b) = unat a + unat b - 2 ^ LENGTH('a)" by (simp add: unat_plus_if')
  with False unat_less_pow2 [of b] have "unat (a + b) < unat a" by linarith
  then have "a + b < a" by (simp add: word_less_nat_alt)
  with u False show ?thesis by simp
qed

lemma sub_borrow:
  fixes a b :: "'a::len word"
  shows "unat a + of_bool (a < b) * 2 ^ LENGTH('a) = unat b + unat (a - b)"
proof (cases "unat b \<le> unat a")
  case True
  then show ?thesis by (simp add: word_less_nat_alt unat_diff_nowrap)
next
  case False
  then have "unat (a - b) = unat a + 2 ^ LENGTH('a) - unat b" by (simp add: unat_sub_if')
  with unat_less_pow2 [of b] have "unat a + 2 ^ LENGTH('a) = unat b + unat (a - b)" by linarith
  with False show ?thesis by (simp add: word_less_nat_alt)
qed

lemma unat_mult32:
  fixes u v :: uint64_t
  assumes "unat u < 2 ^ 32" "unat v < 2 ^ 32"
  shows "unat (u * v) = unat u * unat v"
proof -
  have "unat u * unat v < 2 ^ 32 * 2 ^ 32" using assms by (intro mult_strict_mono) simp_all
  then show ?thesis by (simp add: unat_mult_nowrap)
qed

lemma add128_val:
  "uint128_val (softfloat_add128 a64 a0 b64 b0) =
     (unat a64 * 2 ^ 64 + unat a0 + (unat b64 * 2 ^ 64 + unat b0)) mod 2 ^ 128"
proof -
  define c :: nat where "c = of_bool (a0 + b0 < a0)"
  define z where "z = unat a64 + unat b64 + c"
  have z64: "unat (v64 (softfloat_add128 a64 a0 b64 b0)) = z mod 2 ^ 64"
    by (simp add: softfloat_add128_def Let_def unat_word_ariths c_def z_def mod_add_left_eq)
  have z0: "unat a0 + unat b0 = c * 2 ^ 64 + unat (a0 + b0)"
    using add_carry [of a0 b0] by (simp add: c_def)
  have "unat a64 * 2 ^ 64 + unat a0 + (unat b64 * 2 ^ 64 + unat b0) = z * 2 ^ 64 + unat (a0 + b0)"
    using z0 by (simp add: z_def)
  moreover have "(z * 2 ^ 64 + u) mod 2 ^ 128 = z mod 2 ^ 64 * 2 ^ 64 + u" if "u < 2 ^ 64" for u :: nat
    using mod_mult2_eq [of "z * 2 ^ 64 + u" "2 ^ 64" "2 ^ 64"] that by simp
  moreover have "v0 (softfloat_add128 a64 a0 b64 b0) = a0 + b0"
    by (simp add: softfloat_add128_def Let_def)
  ultimately show ?thesis
    using unat_less_pow2 [of "a0 + b0"] by (simp add: z64)
qed

lemma mul64To128_val:
  "uint128_val (softfloat_mul64To128 a b) = unat a * unat b"
proof -
  define ah al bh bl where "ah = unat a div 2 ^ 32" and "al = unat a mod 2 ^ 32"
    and "bh = unat b div 2 ^ 32" and "bl = unat b mod 2 ^ 32"
  have less: "ah < 2 ^ 32" "al < 2 ^ 32" "bh < 2 ^ 32" "bl < 2 ^ 32"
    using unat_less_pow2 [of a] unat_less_pow2 [of b]
    by (simp_all add: ah_def al_def bh_def bl_def)
  have ab: "unat a = ah * 2 ^ 32 + al" "unat b = bh * 2 ^ 32 + bl"
    unfolding ah_def al_def bh_def bl_def by (rule div_mult_mod_eq [symmetric])+
  have hi: "unat (ucast (ucast (drop_bit 32 w) :: uint32_t) :: uint64_t) = unat w div 2 ^ 32"
    and lo: "unat (ucast (ucast w :: uint32_t) :: uint64_t) = unat w mod 2 ^ 32" for w :: uint64_t
    using unat_less_pow2 [of w] by (simp_all add: unat_ucast_mod unat_drop_bit_div)
  define mid1 z00 z640 where "mid1 = (ucast (ucast (drop_bit 32 a) :: uint32_t) * ucast (ucast b :: uint32_t) :: uint64_t)"
    and "z00 = (ucast (ucast a :: uint32_t) * ucast (ucast b :: uint32_t) :: uint64_t)"
    and "z640 = (ucast (ucast (drop_bit 32 a) :: uint32_t) * ucast (ucast (drop_bit 32 b) :: uint32_t) :: uint64_t)"
  define mid2 where "mid2 = (ucast (ucast a :: uint32_t) * ucast (ucast (drop_bit 32 b) :: uint32_t) :: uint64_t)"
  have u: "unat mid1 = ah * bl" "unat z00 = al * bl" "unat z640 = ah * bh" "unat mid2 = al * bh"
    unfolding mid1_def z00_def z640_def mid2_def ah_def al_def bh_def bl_def hi [symmetric] lo [symmetric]
    using less unfolding ah_def al_def bh_def bl_def hi [symmetric] lo [symmetric]
    by (simp_all only: unat_mult32)
  define mid where "mid = mid1 + mid2"
  define c1 :: nat where "c1 = of_bool (mid < mid1)"
  have m: "ah * bl + al * bh = c1 * 2 ^ 64 + unat mid"
    using add_carry [of mid1 mid2] by (simp add: u c1_def mid_def)
  define midl where "midl = push_bit 32 mid"
  have midl: "unat midl = unat mid mod 2 ^ 32 * 2 ^ 32"
    unfolding midl_def unat_push_bit_mod using mult_mod_left [of "unat mid" "2 ^ 32" "2 ^ 32"] by simp
  define z0 where "z0 = midl + z00"
  define c2 :: nat where "c2 = of_bool (z0 < midl)"
  have z0: "al * bl + unat midl = c2 * 2 ^ 64 + unat z0"
    using add_carry [of midl z00] by (simp add: u c2_def z0_def)
  define Z where "Z = ah * bh + (c1 * 2 ^ 32 + unat mid div 2 ^ 32) + c2"
  have total: "Z * 2 ^ 64 + unat z0 = unat a * unat b"
  proof -
    define H L where "H = unat mid div 2 ^ 32" and "L = unat mid mod 2 ^ 32"
    have M: "unat mid = H * 2 ^ 32 + L" unfolding H_def L_def by (rule div_mult_mod_eq [symmetric])
    have "unat a * unat b = ah * bh * 2 ^ 64 + (ah * bl + al * bh) * 2 ^ 32 + al * bl"
      by (simp add: ab algebra_simps)
    also have "\<dots> = ah * bh * 2 ^ 64 + (c1 * 2 ^ 64 + (H * 2 ^ 32 + L)) * 2 ^ 32 + al * bl"
      unfolding m M ..
    also have "\<dots> = ah * bh * 2 ^ 64 + (c1 * 2 ^ 32 + H) * 2 ^ 64 + (al * bl + L * 2 ^ 32)"
      by (simp add: add_mult_distrib)
    also have "\<dots> = ah * bh * 2 ^ 64 + (c1 * 2 ^ 32 + H) * 2 ^ 64 + (c2 * 2 ^ 64 + unat z0)"
      using z0 unfolding midl L_def by (simp only:)
    finally show ?thesis unfolding Z_def H_def by (simp only: add_mult_distrib add.assoc)
  qed
  have "unat a * unat b < 2 ^ 64 * 2 ^ 64"
    using unat_less_pow2 [of a] unat_less_pow2 [of b] by (intro mult_strict_mono) simp_all
  with total have Z: "Z < 2 ^ 64" by simp
  define hiw where "hiw = (push_bit 32 (of_bool (mid < mid1)) OR drop_bit 32 mid :: uint64_t)"
  have hiw: "unat hiw = c1 * 2 ^ 32 + unat mid div 2 ^ 32"
  proof -
    have "unat mid div 2 ^ 32 < 2 ^ 32" using unat_less_pow2 [of mid] by simp
    then have "(unat mid div 2 ^ 32) OR 2 ^ 32 = unat mid div 2 ^ 32 + 2 ^ 32" by (rule nat_or_hidden)
    then show ?thesis
      unfolding hiw_def unat_or_distrib unat_drop_bit_div
      by (simp add: c1_def unat_push_bit_mod or.commute)
  qed
  have v: "softfloat_mul64To128 a b = \<lparr>v64 = z640 + hiw + of_bool (z0 < midl), v0 = z0\<rparr>"
    unfolding softfloat_mul64To128_def Let_def hiw_def z0_def midl_def mid_def mid1_def mid2_def z00_def z640_def
    by (simp only: add.commute)
  have "unat (z640 + hiw + of_bool (z0 < midl)) = Z mod 2 ^ 64"
    by (simp add: unat_word_ariths u hiw Z_def c2_def mod_add_left_eq mod_add_right_eq)
  with Z total show ?thesis by (simp add: v)
qed

lemma sub128_val:
  assumes "unat b64 * 2 ^ 64 + unat b0 \<le> unat a64 * 2 ^ 64 + unat a0"
  shows "uint128_val (softfloat_sub128 a64 a0 b64 b0) =
     unat a64 * 2 ^ 64 + unat a0 - (unat b64 * 2 ^ 64 + unat b0)"
proof -
  define c :: nat where "c = of_bool (a0 < b0)"
  have z0: "unat a0 + c * 2 ^ 64 = unat b0 + unat (a0 - b0)"
    using sub_borrow [of a0 b0] by (simp add: c_def)
  have le: "unat b64 + c \<le> unat a64"
  proof (cases "a0 < b0")
    case True
    then have "unat a0 < unat b0" by (simp add: word_less_nat_alt)
    with assms have "unat b64 * 2 ^ 64 < unat a64 * 2 ^ 64" by linarith
    with True show ?thesis by (simp add: c_def)
  next
    case False
    have "unat a0 < 2 ^ 64" using unat_less_pow2 [of a0] by simp
    with assms have "unat b64 * 2 ^ 64 < (unat a64 + 1) * 2 ^ 64" by simp
    with False show ?thesis by (simp add: c_def)
  qed
  have "unat (a64 - b64 - of_bool (a0 < b0)) = unat a64 - unat b64 - c"
    using le by (simp add: unat_diff_nowrap c_def)
  moreover have "unat a64 - unat b64 - c + (unat b64 + c) = unat a64" using le by simp
  ultimately show ?thesis
    using z0 le by (simp add: softfloat_sub128_def algebra_simps diff_mult_distrib)
qed

lemma uint128_jam: "unat (v64 z OR of_bool (v0 z \<noteq> 0)) = jam 64 (uint128_val z)"
proof -
  have "uint128_val z div 2 ^ 64 = unat (v64 z)" "uint128_val z mod 2 ^ 64 = unat (v0 z)"
    using unat_less_pow2 [of "v0 z"] by simp_all
  then show ?thesis unfolding jam_def unat_or_of_bool by (simp add: unat_eq_zero)
qed

end
