(* ===== verification/Round_Pack.thy ===== *)
theory Round_Pack
  imports Softfloat_Primitives
begin

text \<open>
  The interface between the rounding routines of the formats and the operations that call them.
  Locale \<open>round_pack\<close> states what \<open>softfloat_roundPackToF*\<close> promises: a normalised significand
  that stands for the exact result up to its position in a cell of half a unit in the last place
  is delivered as the correctly rounded word with the right flags. The lemmas inside are the
  obligations that callers share: significands that are one bit short, significands that are
  normalised first, and products of significands.
\<close>

locale round_pack =
  fixes p k :: nat and q :: int and infEnc :: nat and lim :: int
    and roundPack :: "bool \<Rightarrow> int \<Rightarrow> uint64_t \<Rightarrow> fp_state \<Rightarrow> 'w::len word \<times> fp_state"
  assumes width: "p + k + 1 < 64" and extra_bits: "3 \<le> k"
    and roundPack_rounded:
      "same_cell (k - 1) y (unat sig) \<Longrightarrow> 2 ^ (p + k) \<le> unat sig \<Longrightarrow> unat sig < 2 ^ (p + k + 1) \<Longrightarrow>
       - lim \<le> expn \<Longrightarrow> expn < lim \<Longrightarrow>
       fp_rounded p q infEnc sign (y * 2 powi (q + expn - int k)) s (roundPack sign expn sig s)"
begin

lemma push_bit_norm:
  assumes "unat sig * 2 ^ d < 2 ^ (p + k + 1)"
  shows "unat (push_bit d sig :: uint64_t) = unat sig * 2 ^ d"
proof -
  have "(2::nat) ^ (p + k + 1) \<le> 2 ^ 64" using width by (intro power_increasing) simp_all
  with assms show ?thesis by (intro unat_push_bit_nowrap) simp
qed

text \<open>A significand brought to its place by a left shift.\<close>

lemma roundPack_shifted:
  assumes cell: "same_cell j y (unat sig)" and j: "j + d \<le> k - 1 \<or> y = real (unat sig)"
    and sig: "2 ^ (p + k) \<le> unat sig * 2 ^ d" "unat sig * 2 ^ d < 2 ^ (p + k + 1)"
    and e: "- lim \<le> expn - int d" "expn - int d < lim"
  shows "fp_rounded p q infEnc sign (y * 2 powi (q + expn - int k)) s
           (roundPack sign (expn - int d) (push_bit d sig) s)"
proof -
  have u: "unat (push_bit d sig) = 2 ^ d * unat sig"
    using push_bit_norm [OF sig(2)] by simp
  have "same_cell (k - 1) (2 ^ d * y) (2 ^ d * unat sig)"
    using j
  proof
    assume "j + d \<le> k - 1"
    then show ?thesis by (rule same_cell_mono [OF same_cell_mult_pow2 [OF cell]])
  next
    assume "y = real (unat sig)"
    then show ?thesis by (simp add: same_cell_def)
  qed
  then have "fp_rounded p q infEnc sign (2 ^ d * y * 2 powi (q + (expn - int d) - int k)) s
      (roundPack sign (expn - int d) (push_bit d sig) s)"
    using sig e by (intro roundPack_rounded) (simp_all add: u mult.commute)
  moreover have "2 ^ d * y * 2 powi (q + (expn - int d) - int k) = y * 2 powi (q + expn - int k)"
    by (simp add: power_int_add power_int_diff)
  ultimately show ?thesis by simp
qed

text \<open>A significand that is at most one bit short, as sums and products leave it.\<close>

lemma roundPack_one_short:
  assumes cell: "same_cell 1 y (unat sig)"
    and sig: "2 ^ (p + k - 1) \<le> unat sig" "unat sig < 2 ^ (p + k + 1)"
    and e: "- lim < expn" "expn < lim"
  shows "fp_rounded p q infEnc sign (y * 2 powi (q + expn - int k)) s
           (if unat sig < 2 ^ (p + k) then roundPack sign (expn - 1) (push_bit 1 sig) s
            else roundPack sign expn sig s)"
proof (cases "unat sig < 2 ^ (p + k)")
  case True
  have "(2::nat) ^ (p + k) = 2 ^ (p + k - 1) * 2" using extra_bits by (cases k) simp_all
  then have "2 ^ (p + k) \<le> unat sig * 2 ^ 1" using sig(1) by simp
  moreover have "1 + 1 \<le> k - 1" using extra_bits by simp
  ultimately have "fp_rounded p q infEnc sign (y * 2 powi (q + expn - int k)) s
      (roundPack sign (expn - int 1) (push_bit 1 sig) s)"
    using True e by (intro roundPack_shifted [OF cell]) simp_all
  with True show ?thesis by simp
next
  case False
  have "1 + 0 \<le> k - 1" using extra_bits by simp
  then have "fp_rounded p q infEnc sign (y * 2 powi (q + expn - int k)) s
      (roundPack sign (expn - int 0) (push_bit 0 sig) s)"
    using False e sig by (intro roundPack_shifted [OF cell]) simp_all
  with False show ?thesis by simp
qed

end

end
