(* ===== verification/Softfloat_F32.thy ===== *)
theory Softfloat_F32
  imports Round_Pack
begin

text \<open>
  Single precision (\<^verbatim>\<open>softfloat/f32_*.c\<close>, \<^verbatim>\<open>softfloat/s_*F32*.c\<close>): the field macros, NaN
  propagation, normalisation, rounding and packing, and the arithmetic operations. A
  \<open>float32_t\<close> is its 32-bit pattern; \<open>uint_fast32_t\<close> locals are 64-bit words. A C \<open>goto\<close> to
  a label is a call of the local function of that name.
\<close>

type_synonym float32_t = uint32_t

section \<open>Fields, NaNs and normalisation\<close>

definition signF32UI :: "uint_fast32_t \<Rightarrow> bool" where
  "signF32UI a = (drop_bit 31 (ucast a :: uint32_t) \<noteq> 0)"

definition expF32UI :: "uint_fast32_t \<Rightarrow> int" where
  "expF32UI a = uint (drop_bit 23 a AND 0xFF)"

definition fracF32UI :: "uint_fast32_t \<Rightarrow> uint_fast32_t" where
  "fracF32UI a = a AND 0x007FFFFF"

definition packToF32UI :: "bool \<Rightarrow> int \<Rightarrow> uint_fast32_t \<Rightarrow> uint_fast32_t" where
  "packToF32UI sign expn sig =
     ucast (push_bit 31 (of_bool sign) + push_bit 23 (word_of_int expn) :: uint32_t) + sig"

definition isNaNF32UI :: "uint_fast32_t \<Rightarrow> bool" where
  "isNaNF32UI a \<longleftrightarrow> NOT a AND 0x7F800000 = 0 \<and> a AND 0x007FFFFF \<noteq> 0"

definition softfloat_isSigNaNF32UI :: "uint_fast32_t \<Rightarrow> bool" where
  "softfloat_isSigNaNF32UI uiA \<longleftrightarrow> uiA AND 0x7FC00000 = 0x7F800000 \<and> uiA AND 0x003FFFFF \<noteq> 0"

definition defaultNaNF32UI :: uint_fast32_t where
  "defaultNaNF32UI = 0x7FC00000"

definition softfloat_propagateNaNF32UI ::
  "uint_fast32_t \<Rightarrow> uint_fast32_t \<Rightarrow> fp_state \<Rightarrow> uint_fast32_t \<times> fp_state" where
  "softfloat_propagateNaNF32UI uiA uiB s =
     (defaultNaNF32UI,
      if softfloat_isSigNaNF32UI uiA \<or> softfloat_isSigNaNF32UI uiB
      then softfloat_raiseFlags softfloat_flag_invalid s else s)"

record exp16_sig32 =
  exp16_sig32_exp :: int
  exp16_sig32_sig :: uint_fast32_t

definition softfloat_normSubnormalF32Sig :: "uint_fast32_t \<Rightarrow> exp16_sig32" where
  "softfloat_normSubnormalF32Sig sig =
     (let shiftDist = uint (softfloat_countLeadingZeros32 (ucast sig)) - 8
      in \<lparr>exp16_sig32_exp = 1 - shiftDist, exp16_sig32_sig = push_bit (nat shiftDist) sig\<rparr>)"

section \<open>Rounding and packing\<close>

definition roundPackF32_increment :: "bool \<Rightarrow> fp_state \<Rightarrow> uint_fast8_t" where
  "roundPackF32_increment sign s =
     (let roundingMode = softfloat_roundingMode s
      in if roundingMode \<noteq> softfloat_round_near_even \<and> roundingMode \<noteq> softfloat_round_near_maxMag
         then (if roundingMode = (if sign then softfloat_round_min else softfloat_round_max)
               then 0x7F else 0)
         else 0x40)"

definition roundPackF32_finish ::
  "bool \<Rightarrow> int \<Rightarrow> uint_fast32_t \<Rightarrow> uint_fast8_t \<Rightarrow> uint_fast8_t \<Rightarrow> fp_state \<Rightarrow> float32_t \<times> fp_state" where
  "roundPackF32_finish sign expn sig roundIncrement roundBits s =
     (let roundingMode = softfloat_roundingMode s;
          roundNearEven = (roundingMode = softfloat_round_near_even);
          sig = drop_bit 7 (sig + ucast roundIncrement);
          s = (if roundBits \<noteq> 0
               then s\<lparr>softfloat_exceptionFlags := softfloat_exceptionFlags s OR softfloat_flag_inexact\<rparr>
               else s)
      in if roundBits \<noteq> 0 \<and> roundingMode = softfloat_round_odd
         then (ucast (packToF32UI sign expn (sig OR 1)), s)
         else
           let sig = sig AND NOT (of_bool (roundBits XOR 0x40 = 0 \<and> roundNearEven));
               expn = (if sig = 0 then 0 else expn)
           in (ucast (packToF32UI sign expn sig), s))"

definition softfloat_roundPackToF32 ::
  "bool \<Rightarrow> int \<Rightarrow> uint_fast32_t \<Rightarrow> fp_state \<Rightarrow> float32_t \<times> fp_state" where
  "softfloat_roundPackToF32 sign expn sig s =
     (let roundIncrement = roundPackF32_increment sign s;
          roundBits = ucast (sig AND 0x7F) :: uint_fast8_t
      in if 0xFD \<le> (word_of_int expn :: uint32_t) then
           if expn < 0 then
             let isTiny = (softfloat_detectTininess s = softfloat_tininess_beforeRounding
                           \<or> expn < -1 \<or> sig + ucast roundIncrement < 0x80000000);
                 sig = ucast (softfloat_shiftRightJam32 (ucast sig) (word_of_int (- expn)));
                 roundBits = ucast (sig AND 0x7F);
                 s = (if isTiny \<and> roundBits \<noteq> 0
                      then softfloat_raiseFlags softfloat_flag_underflow s else s)
             in roundPackF32_finish sign 0 sig roundIncrement roundBits s
           else if 0xFD < expn \<or> 0x80000000 \<le> sig + ucast roundIncrement then
             (ucast (packToF32UI sign 0xFF 0 - of_bool (roundIncrement = 0)),
              softfloat_raiseFlags (softfloat_flag_overflow OR softfloat_flag_inexact) s)
           else roundPackF32_finish sign expn sig roundIncrement roundBits s
         else roundPackF32_finish sign expn sig roundIncrement roundBits s)"

definition softfloat_normRoundPackToF32 ::
  "bool \<Rightarrow> int \<Rightarrow> uint_fast32_t \<Rightarrow> fp_state \<Rightarrow> float32_t \<times> fp_state" where
  "softfloat_normRoundPackToF32 sign expn sig s =
     (let shiftDist = uint (softfloat_countLeadingZeros32 (ucast sig)) - 1;
          expn = expn - shiftDist
      in if 7 \<le> shiftDist \<and> (word_of_int expn :: uint32_t) < 0xFD
         then (ucast (packToF32UI sign (if sig \<noteq> 0 then expn else 0)
                        (push_bit (nat (shiftDist - 7)) sig)), s)
         else softfloat_roundPackToF32 sign expn (push_bit (nat shiftDist) sig) s)"

section \<open>Addition and subtraction\<close>

definition softfloat_addMagsF32 ::
  "uint_fast32_t \<Rightarrow> uint_fast32_t \<Rightarrow> fp_state \<Rightarrow> float32_t \<times> fp_state" where
  "softfloat_addMagsF32 uiA uiB s =
     (let expA = expF32UI uiA;
          sigA = fracF32UI uiA;
          expB = expF32UI uiB;
          sigB = fracF32UI uiB;
          propagateNaN = (let (uiZ, s) = softfloat_propagateNaNF32UI uiA uiB s in (ucast uiZ, s));
          expDiff = expA - expB
      in if expDiff = 0 then
           if expA = 0 then (ucast (uiA + sigB), s)
           else if expA = 0xFF then
             if sigA OR sigB \<noteq> 0 then propagateNaN else (ucast uiA, s)
           else
             let signZ = signF32UI uiA;
                 expZ = expA;
                 sigZ = 0x01000000 + sigA + sigB
             in if sigZ AND 1 = 0 \<and> expZ < 0xFE
                then (ucast (packToF32UI signZ expZ (drop_bit 1 sigZ)), s)
                else softfloat_roundPackToF32 signZ expZ (push_bit 6 sigZ) s
         else
           let signZ = signF32UI uiA;
               sigA = push_bit 6 sigA;
               sigB = push_bit 6 sigB;
               sum = (\<lambda>expZ sigA sigB.
                 let sigZ = 0x20000000 + sigA + sigB
                 in if sigZ < 0x40000000
                    then softfloat_roundPackToF32 signZ (expZ - 1) (push_bit 1 sigZ) s
                    else softfloat_roundPackToF32 signZ expZ sigZ s)
           in if expDiff < 0 then
                if expB = 0xFF then
                  if sigB \<noteq> 0 then propagateNaN else (ucast (packToF32UI signZ 0xFF 0), s)
                else
                  let sigA = sigA + (if expA \<noteq> 0 then 0x20000000 else sigA)
                  in sum expB (ucast (softfloat_shiftRightJam32 (ucast sigA) (word_of_int (- expDiff)))) sigB
              else
                if expA = 0xFF then
                  if sigA \<noteq> 0 then propagateNaN else (ucast uiA, s)
                else
                  let sigB = sigB + (if expB \<noteq> 0 then 0x20000000 else sigB)
                  in sum expA sigA (ucast (softfloat_shiftRightJam32 (ucast sigB) (word_of_int expDiff))))"

definition softfloat_subMagsF32 ::
  "uint_fast32_t \<Rightarrow> uint_fast32_t \<Rightarrow> fp_state \<Rightarrow> float32_t \<times> fp_state" where
  "softfloat_subMagsF32 uiA uiB s =
     (let expA = expF32UI uiA;
          sigA = fracF32UI uiA;
          expB = expF32UI uiB;
          sigB = fracF32UI uiB;
          propagateNaN = (let (uiZ, s) = softfloat_propagateNaNF32UI uiA uiB s in (ucast uiZ, s));
          expDiff = expA - expB
      in if expDiff = 0 then
           if expA = 0xFF then
             if sigA OR sigB \<noteq> 0 then propagateNaN
             else (ucast defaultNaNF32UI, softfloat_raiseFlags softfloat_flag_invalid s)
           else
             let sigDiff = sint (sigA - sigB)
             in if sigDiff = 0
                then (ucast (packToF32UI (softfloat_roundingMode s = softfloat_round_min) 0 0), s)
                else
                  let expA = (if expA \<noteq> 0 then expA - 1 else expA);
                      signZ = signF32UI uiA;
                      (signZ, sigDiff) = (if sigDiff < 0 then (\<not> signZ, - sigDiff) else (signZ, sigDiff));
                      shiftDist = uint (softfloat_countLeadingZeros32 (word_of_int sigDiff)) - 8;
                      expZ = expA - shiftDist;
                      (shiftDist, expZ) = (if expZ < 0 then (expA, 0) else (shiftDist, expZ))
                  in (ucast (packToF32UI signZ expZ (push_bit (nat shiftDist) (word_of_int sigDiff))), s)
         else
           let signZ = signF32UI uiA;
               sigA = push_bit 7 sigA;
               sigB = push_bit 7 sigB
           in if expDiff < 0 then
                let signZ = (\<not> signZ)
                in if expB = 0xFF then
                     if sigB \<noteq> 0 then propagateNaN else (ucast (packToF32UI signZ 0xFF 0), s)
                   else
                     let expZ = expB - 1;
                         sigX = sigB OR 0x40000000;
                         sigY = sigA + (if expA \<noteq> 0 then 0x40000000 else sigA)
                     in softfloat_normRoundPackToF32 signZ expZ
                          (sigX - ucast (softfloat_shiftRightJam32 (ucast sigY) (word_of_int (- expDiff)))) s
              else
                if expA = 0xFF then
                  if sigA \<noteq> 0 then propagateNaN else (ucast uiA, s)
                else
                  let expZ = expA - 1;
                      sigX = sigA OR 0x40000000;
                      sigY = sigB + (if expB \<noteq> 0 then 0x40000000 else sigB)
                  in softfloat_normRoundPackToF32 signZ expZ
                       (sigX - ucast (softfloat_shiftRightJam32 (ucast sigY) (word_of_int expDiff))) s)"

definition f32_add :: "float32_t \<Rightarrow> float32_t \<Rightarrow> fp_state \<Rightarrow> float32_t \<times> fp_state" where
  "f32_add a b s =
     (let uiA = ucast a; uiB = ucast b
      in if signF32UI (uiA XOR uiB) then softfloat_subMagsF32 uiA uiB s
         else softfloat_addMagsF32 uiA uiB s)"

definition f32_sub :: "float32_t \<Rightarrow> float32_t \<Rightarrow> fp_state \<Rightarrow> float32_t \<times> fp_state" where
  "f32_sub a b s =
     (let uiA = ucast a; uiB = ucast b
      in if signF32UI (uiA XOR uiB) then softfloat_addMagsF32 uiA uiB s
         else softfloat_subMagsF32 uiA uiB s)"

section \<open>Multiplication and division\<close>

definition f32_mul :: "float32_t \<Rightarrow> float32_t \<Rightarrow> fp_state \<Rightarrow> float32_t \<times> fp_state" where
  "f32_mul a b s =
     (let uiA = ucast a;
          signA = signF32UI uiA;
          expA = expF32UI uiA;
          sigA = fracF32UI uiA;
          uiB = ucast b;
          signB = signF32UI uiB;
          expB = expF32UI uiB;
          sigB = fracF32UI uiB;
          signZ = (signA \<noteq> signB);
          propagateNaN = (let (uiZ, s) = softfloat_propagateNaNF32UI uiA uiB s in (ucast uiZ, s));
          infArg = (\<lambda>magBits :: uint_fast32_t.
            if magBits = 0
            then (ucast defaultNaNF32UI, softfloat_raiseFlags softfloat_flag_invalid s)
            else (ucast (packToF32UI signZ 0xFF 0), s));
          zero = (ucast (packToF32UI signZ 0 0), s)
      in if expA = 0xFF then
           if sigA \<noteq> 0 \<or> (expB = 0xFF \<and> sigB \<noteq> 0) then propagateNaN
           else infArg (word_of_int expB OR sigB)
         else if expB = 0xFF then
           if sigB \<noteq> 0 then propagateNaN else infArg (word_of_int expA OR sigA)
         else if expA = 0 \<and> sigA = 0 then zero
         else
           let (expA, sigA) = (if expA = 0
                 then let n = softfloat_normSubnormalF32Sig sigA in (exp16_sig32_exp n, exp16_sig32_sig n)
                 else (expA, sigA))
           in if expB = 0 \<and> sigB = 0 then zero
              else
                let (expB, sigB) = (if expB = 0
                      then let n = softfloat_normSubnormalF32Sig sigB in (exp16_sig32_exp n, exp16_sig32_sig n)
                      else (expB, sigB));
                    expZ = expA + expB - 0x7F;
                    sigA = push_bit 7 (sigA OR 0x00800000);
                    sigB = push_bit 8 (sigB OR 0x00800000);
                    sigZ = softfloat_shortShiftRightJam64 (sigA * sigB) 32
                in if sigZ < 0x40000000
                   then softfloat_roundPackToF32 signZ (expZ - 1) (push_bit 1 sigZ) s
                   else softfloat_roundPackToF32 signZ expZ sigZ s)"

definition f32_div :: "float32_t \<Rightarrow> float32_t \<Rightarrow> fp_state \<Rightarrow> float32_t \<times> fp_state" where
  "f32_div a b s =
     (let uiA = ucast a;
          signA = signF32UI uiA;
          expA = expF32UI uiA;
          sigA = fracF32UI uiA;
          uiB = ucast b;
          signB = signF32UI uiB;
          expB = expF32UI uiB;
          sigB = fracF32UI uiB;
          signZ = (signA \<noteq> signB);
          propagateNaN = (let (uiZ, s) = softfloat_propagateNaNF32UI uiA uiB s in (ucast uiZ, s));
          invalid = (ucast defaultNaNF32UI, softfloat_raiseFlags softfloat_flag_invalid s);
          infinity = (\<lambda>s :: fp_state. (ucast (packToF32UI signZ 0xFF 0), s));
          zero = (ucast (packToF32UI signZ 0 0), s)
      in if expA = 0xFF then
           if sigA \<noteq> 0 then propagateNaN
           else if expB = 0xFF then (if sigB \<noteq> 0 then propagateNaN else invalid)
           else infinity s
         else if expB = 0xFF then
           if sigB \<noteq> 0 then propagateNaN else zero
         else if expB = 0 \<and> sigB = 0 then
           if word_of_int expA OR sigA = 0 then invalid
           else infinity (softfloat_raiseFlags softfloat_flag_infinite s)
         else
           let (expB, sigB) = (if expB = 0
                 then let n = softfloat_normSubnormalF32Sig sigB in (exp16_sig32_exp n, exp16_sig32_sig n)
                 else (expB, sigB))
           in if expA = 0 \<and> sigA = 0 then zero
              else
                let (expA, sigA) = (if expA = 0
                      then let n = softfloat_normSubnormalF32Sig sigA in (exp16_sig32_exp n, exp16_sig32_sig n)
                      else (expA, sigA));
                    expZ = expA - expB + 0x7E;
                    sigA = sigA OR 0x00800000;
                    sigB = sigB OR 0x00800000;
                    (expZ, sig64A) = (if sigA < sigB then (expZ - 1, push_bit 31 sigA)
                                      else (expZ, push_bit 30 sigA));
                    sigZ = sig64A div sigB;
                    sigZ = (if sigZ AND 0x3F = 0 then sigZ OR of_bool (sigB * sigZ \<noteq> sig64A) else sigZ)
                in softfloat_roundPackToF32 signZ expZ sigZ s)"

section \<open>Values\<close>

definition f32_mag :: "float32_t \<Rightarrow> nat" where
  "f32_mag a = unat a mod 2 ^ 31"

definition f32_finite :: "float32_t \<Rightarrow> bool" where
  "f32_finite a \<longleftrightarrow> f32_mag a < 255 * 2 ^ 23"

definition f32_abs :: "float32_t \<Rightarrow> real" where
  "f32_abs a = mag_val 23 (- 149) (f32_mag a)"

definition f32_val :: "float32_t \<Rightarrow> real" where
  "f32_val a = (if signF32UI (ucast a) then - f32_abs a else f32_abs a)"

definition f32_nan :: "float32_t \<Rightarrow> bool" where
  "f32_nan a \<longleftrightarrow> 255 * 2 ^ 23 < f32_mag a"

definition f32_inf :: "float32_t \<Rightarrow> bool" where
  "f32_inf a \<longleftrightarrow> f32_mag a = 255 * 2 ^ 23"

definition f32_snan :: "float32_t \<Rightarrow> bool" where
  "f32_snan a \<longleftrightarrow> f32_nan a \<and> f32_mag a < 255 * 2 ^ 23 + 2 ^ 22"

abbreviation f32_rounded :: "bool \<Rightarrow> real \<Rightarrow> fp_state \<Rightarrow> float32_t \<times> fp_state \<Rightarrow> bool" where
  "f32_rounded \<equiv> fp_rounded 23 (- 149) (255 * 2 ^ 23)"

lemma packToF32UI_unat:
  assumes "0 \<le> expn" "expn < 2 ^ 32"
  shows "unat (ucast (packToF32UI sign expn sig) :: float32_t) =
    (of_bool sign * 2 ^ 31 + nat expn * 2 ^ 23 + unat sig) mod 2 ^ 32"
proof -
  define h :: uint32_t where "h = push_bit 31 (of_bool sign) + push_bit 23 (word_of_int expn)"
  have "unat (push_bit 31 (of_bool sign) :: uint32_t) = of_bool sign * 2 ^ 31"
    by (simp add: unat_push_bit_mod)
  moreover have "unat (push_bit 23 (word_of_int expn) :: uint32_t) = nat expn * 2 ^ 23 mod 2 ^ 32"
    using unat_word_of_int [where 'a = 32, of expn] assms by (simp add: unat_push_bit_mod)
  ultimately have h: "unat h = (of_bool sign * 2 ^ 31 + nat expn * 2 ^ 23) mod 2 ^ 32"
    by (simp add: h_def unat_word_ariths mod_add_right_eq)
  have "unat (packToF32UI sign expn sig) = (unat h + unat sig) mod 2 ^ 64"
    using unat_less_pow2 [of h] by (simp add: packToF32UI_def h_def [symmetric] unat_word_ariths unat_ucast_mod)
  then have "unat (ucast (packToF32UI sign expn sig) :: float32_t) = (unat h + unat sig) mod 2 ^ 32"
    by (simp add: unat_ucast_mod mod_mod_cancel)
  then show ?thesis by (simp add: h mod_add_left_eq)
qed

lemma roundPackF32_increment_eq:
  "unat (roundPackF32_increment sign s) = round_inc (softfloat_roundingMode s) sign 7"
  by (simp add: roundPackF32_increment_def round_inc_def Let_def)

lemma roundBits_F32:
  "unat (ucast (sig AND 0x7F :: uint64_t) :: uint8_t) = unat sig mod 2 ^ 7"
  by (simp add: unat_ucast_mod unat_and_mask [of _ 7])

lemma round_inc_7: "round_inc mode sign 7 \<le> 127"
  by (simp add: round_inc_def)

lemma roundPackF32_finish_eq:
  fixes sig :: uint64_t
  assumes e: "0 \<le> expn" "expn < 2 ^ 32" and sig: "unat sig < 2 ^ 32"
    and rb: "roundBits = ucast (sig AND 0x7F)"
    and inc: "unat roundIncrement = round_inc (softfloat_roundingMode s) sign 7"
  defines "rn \<equiv> round_nat (softfloat_roundingMode s) sign 7 (unat sig)"
  shows "unat (fst (roundPackF32_finish sign expn sig roundIncrement roundBits s)) =
      (of_bool sign * 2 ^ 31 + (if rn = 0 then 0 else nat expn) * 2 ^ 23 + rn) mod 2 ^ 32"
    and "snd (roundPackF32_finish sign expn sig roundIncrement roundBits s) =
      softfloat_raiseFlags (if unat sig mod 2 ^ 7 \<noteq> 0 then softfloat_flag_inexact else 0) s"
proof -
  define z where "z = (unat sig + round_inc (softfloat_roundingMode s) sign 7) div 2 ^ 7"
  define w where "w = drop_bit 7 (sig + ucast roundIncrement)"
  have w: "unat w = z"
    using sig round_inc_7 [of "softfloat_roundingMode s" sign] inc
    unfolding w_def z_def unat_drop_bit_div
    by (subst unat_add_nowrap) (simp_all add: unat_ucast_mod)
  have rb0: "roundBits \<noteq> 0 \<longleftrightarrow> unat sig mod 2 ^ 7 \<noteq> 0"
    unfolding rb roundBits_F32 [symmetric] by (simp add: unat_eq_zero)
  have tie: "roundBits XOR 0x40 = 0 \<longleftrightarrow> unat sig mod 2 ^ 7 = 2 ^ 6"
  proof -
    have "roundBits XOR 0x40 = 0 \<longleftrightarrow> roundBits = 0x40" by simp
    also have "\<dots> \<longleftrightarrow> unat roundBits = 64" by (simp add: word_unat_eq_iff)
    finally show ?thesis unfolding rb roundBits_F32 by simp
  qed
  have rn: "rn = (if unat sig mod 2 ^ 7 \<noteq> 0 \<and> softfloat_roundingMode s = softfloat_round_odd
       then (if even z then Suc z else z)
       else if unat sig mod 2 ^ 7 = 2 ^ 6 \<and> softfloat_roundingMode s = softfloat_round_near_even
       then (if odd z then z - 1 else z) else z)"
    unfolding rn_def round_nat_def Let_def z_def by simp
  show "unat (fst (roundPackF32_finish sign expn sig roundIncrement roundBits s)) =
      (of_bool sign * 2 ^ 31 + (if rn = 0 then 0 else nat expn) * 2 ^ 23 + rn) mod 2 ^ 32"
  proof (cases "unat sig mod 2 ^ 7 \<noteq> 0 \<and> softfloat_roundingMode s = softfloat_round_odd")
    case True
    then have "fst (roundPackF32_finish sign expn sig roundIncrement roundBits s) =
        ucast (packToF32UI sign expn (w OR 1))"
      unfolding roundPackF32_finish_def Let_def rb0 w_def by simp
    moreover from True have "unat (w OR 1) = rn" "rn \<noteq> 0"
      by (auto simp: unat_or_1 w rn elim: oddE)
    ultimately show ?thesis by (simp add: packToF32UI_unat [OF e])
  next
    case False
    define v where "v = w AND NOT (of_bool (roundBits XOR 0x40 = 0 \<and> softfloat_roundingMode s = softfloat_round_near_even))"
    from False have "fst (roundPackF32_finish sign expn sig roundIncrement roundBits s) =
        ucast (packToF32UI sign (if v = 0 then 0 else expn) v)"
      unfolding roundPackF32_finish_def Let_def rb0 w_def v_def by (simp only: if_False fst_conv)
    moreover have "unat v = rn"
      unfolding v_def unat_and_not_of_bool w tie rn using False by auto
    moreover from this have "v = 0 \<longleftrightarrow> rn = 0" by (metis unat_eq_zero)
    ultimately show ?thesis using e by (simp add: packToF32UI_unat)
  qed
  show "snd (roundPackF32_finish sign expn sig roundIncrement roundBits s) =
      softfloat_raiseFlags (if unat sig mod 2 ^ 7 \<noteq> 0 then softfloat_flag_inexact else 0) s"
    unfolding roundPackF32_finish_def Let_def rb0 by (simp add: softfloat_raiseFlags_def)
qed

lemma packToF32UI_inf:
  "unat (ucast (packToF32UI sign 0xFF 0 - of_bool c) :: float32_t) =
     of_bool sign * 2 ^ 31 + (255 * 2 ^ 23 - of_bool c)"
  by (cases sign; cases c) (simp_all add: packToF32UI_def)

lemma roundPackToF32_subnormal:
  fixes sig :: uint64_t
  assumes cell: "same_cell 6 y (unat sig)" and sig: "unat sig < 2 ^ 31"
    and e: "- (2 ^ 31) \<le> expn" "expn < 0" and x: "x = y * 2 powi (expn - 156)"
  shows "f32_rounded sign x s (softfloat_roundPackToF32 sign expn sig s)"
proof -
  define d where "d = nat (- expn)"
  define sig' where "sig' = (ucast (softfloat_shiftRightJam32 (ucast sig) (word_of_int (- expn))) :: uint64_t)"
  have d: "0 < d" "expn = - int d" using e by (simp_all add: d_def)
  have dw: "unat (word_of_int (- expn) :: uint64_t) = d"
    using e unat_word_of_int [where 'a = 64, of "- expn"] by (simp add: d_def)
  then have "(word_of_int (- expn) :: uint64_t) \<noteq> 0" using d(1) by (metis unat_0 less_irrefl)
  then have "unat (softfloat_shiftRightJam32 (ucast sig) (word_of_int (- expn))) = jam d (unat sig)"
    using shiftRightJam32_jam [of "word_of_int (- expn)" "ucast sig"] sig dw by (simp add: unat_ucast_mod)
  moreover have "jam d (unat sig) < 2 ^ 31"
    using sig by (subst jam_even_less) (simp_all add: less_le_trans)
  ultimately have sig': "unat sig' = jam d (unat sig)" "unat sig' < 2 ^ 31"
    unfolding sig'_def by (simp_all add: unat_ucast_mod)
  define isTiny where "isTiny \<longleftrightarrow> softfloat_detectTininess s = softfloat_tininess_beforeRounding
      \<or> expn < -1 \<or> sig + ucast (roundPackF32_increment sign s) < 0x80000000"
  have tiny: "isTiny \<longleftrightarrow> softfloat_detectTininess s = softfloat_tininess_beforeRounding \<or> 1 < d \<or>
      unat sig + round_inc (softfloat_roundingMode s) sign 7 < 2 ^ (23 + 7 + 1)"
  proof -
    have "unat (sig + ucast (roundPackF32_increment sign s)) = unat sig + round_inc (softfloat_roundingMode s) sign 7"
      using sig round_inc_7 [of "softfloat_roundingMode s" sign]
      by (subst unat_add_nowrap) (simp_all add: unat_ucast_mod roundPackF32_increment_eq)
    then show ?thesis unfolding isTiny_def by (auto simp: word_less_nat_alt d(2))
  qed
  define rb where "rb = (ucast (sig' AND 0x7F) :: uint8_t)"
  have rb0: "rb \<noteq> 0 \<longleftrightarrow> jam d (unat sig) mod 2 ^ 7 \<noteq> 0"
    using roundBits_F32 [of sig'] by (simp add: rb_def sig'(1) flip: unat_eq_zero)
  define s1 where "s1 = (if isTiny \<and> rb \<noteq> 0 then softfloat_raiseFlags softfloat_flag_underflow s else s)"
  have "0xFD \<le> (word_of_int expn :: uint32_t)"
  proof -
    have "uint (word_of_int expn :: uint32_t) = expn + 2 ^ 32"
      using e by (subst uint_word_of_int_neg) simp_all
    then show ?thesis using e by (simp add: word_le_def)
  qed
  then have eq: "softfloat_roundPackToF32 sign expn sig s =
      roundPackF32_finish sign 0 sig' (roundPackF32_increment sign s) rb s1"
    unfolding softfloat_roundPackToF32_def Let_def s1_def rb_def isTiny_def sig'_def using e(2) by simp
  define rn where "rn = round_nat (softfloat_roundingMode s) sign 7 (jam d (unat sig))"
  have s1: "softfloat_roundingMode s1 = softfloat_roundingMode s" by (simp add: s1_def)
  have rn: "rn \<le> 2 ^ 24" unfolding rn_def using sig' by (intro round_nat_le) simp_all
  note fin = roundPackF32_finish_eq [of 0 sig' rb "roundPackF32_increment sign s" s1 sign]
  show ?thesis
  proof (rule fp_rounded_subnormalI [where y = y and sig = "unat sig" and d = d and k = 7 and n = rn])
    have "expn - 156 = - 149 - int d - int 7" by (simp add: d(2))
    with x show "x = y * 2 powi (- 149 - int d - int 7)" by (simp only:)
    show "unat (fst (softfloat_roundPackToF32 sign expn sig s)) = of_bool sign * 2 ^ (LENGTH(32) - 1) + rn"
      unfolding eq using fin(1) sig' rn
      by (simp add: rb_def s1 roundPackF32_increment_eq rn_def [symmetric])
    show "snd (softfloat_roundPackToF32 sign expn sig s) = softfloat_raiseFlags
            (if jam d (unat sig) mod 2 ^ 7 \<noteq> 0 then softfloat_flag_inexact OR
               (if softfloat_detectTininess s = softfloat_tininess_beforeRounding \<or> 1 < d \<or>
                   unat sig + round_inc (softfloat_roundingMode s) sign 7 < 2 ^ (23 + 7 + 1)
                then softfloat_flag_underflow else 0)
             else 0) s"
      unfolding eq tiny [symmetric] using fin(2) sig' rb0
      by (simp add: rb_def [symmetric] s1 roundPackF32_increment_eq s1_def or.commute)
  qed (use cell sig d(1) rn_def in simp_all)
qed

lemma roundPackToF32_normal:
  fixes sig :: uint64_t
  assumes cell: "same_cell 6 y (unat sig)" and sig: "2 ^ 30 \<le> unat sig" "unat sig < 2 ^ 31"
    and e: "0 \<le> expn" "expn < 2 ^ 31" and x: "x = y * 2 powi (expn - 156)"
  shows "f32_rounded sign x s (softfloat_roundPackToF32 sign expn sig s)"
proof -
  let ?inc = "roundPackF32_increment sign s"
  define mode where "mode = softfloat_roundingMode s"
  define rn where "rn = round_nat mode sign 7 (unat sig)"
  define n where "n = nat expn * 2 ^ 23 + rn"
  have rn: "2 ^ 23 \<le> rn" "rn \<le> 2 ^ 24"
    unfolding rn_def using sig by (auto intro!: round_nat_le round_nat_ge)
  have rn24: "rn = 2 ^ 24 \<longleftrightarrow> 2 ^ 31 \<le> unat sig + round_inc mode sign 7"
    using round_nat_ge_iff [of "unat sig" "2 ^ 24" 7 mode sign] sig(2) rn by (simp add: rn_def [symmetric])
  have inc: "unat (sig + ucast ?inc) = unat sig + round_inc mode sign 7"
    using sig(2) round_inc_7 [of mode sign]
    by (subst unat_add_nowrap) (simp_all add: unat_ucast_mod roundPackF32_increment_eq mode_def)
  have FD: "0xFD \<le> (word_of_int expn :: uint32_t) \<longleftrightarrow> 253 \<le> expn"
    using uint_word_of_int_nonneg [where 'a = 32, of expn] e by (simp add: word_le_def)
  have ov: "0x80000000 \<le> sig + ucast ?inc \<longleftrightarrow> rn = 2 ^ 24"
    unfolding rn24 by (simp add: word_le_nat_alt inc)
  have n_inf: "255 * 2 ^ 23 \<le> n \<longleftrightarrow> 253 < expn \<or> (expn = 253 \<and> rn = 2 ^ 24)"
    using rn e by (auto simp: n_def nat_less_iff)
  have rnd: "unat (fst (softfloat_roundPackToF32 sign expn sig s)) = of_bool sign * 2 ^ (LENGTH(32) - 1) +
      (if n < 255 * 2 ^ 23 then n else if overflow_to_inf mode sign then 255 * 2 ^ 23 else 255 * 2 ^ 23 - 1) \<and>
    snd (softfloat_roundPackToF32 sign expn sig s) = softfloat_raiseFlags
      (if 255 * 2 ^ 23 \<le> n then softfloat_flag_overflow OR softfloat_flag_inexact
       else if unat sig mod 2 ^ 7 \<noteq> 0 then softfloat_flag_inexact else 0) s"
  proof (cases "255 * 2 ^ 23 \<le> n")
    case True
    then have "253 < expn \<or> 0x80000000 \<le> sig + ucast ?inc" "0xFD \<le> (word_of_int expn :: uint32_t)"
      using n_inf FD ov by auto
    then have eq: "softfloat_roundPackToF32 sign expn sig s =
        (ucast (packToF32UI sign 0xFF 0 - of_bool (?inc = 0)),
         softfloat_raiseFlags (softfloat_flag_overflow OR softfloat_flag_inexact) s)"
      unfolding softfloat_roundPackToF32_def Let_def using e(1) by simp
    have "?inc = 0 \<longleftrightarrow> \<not> overflow_to_inf mode sign"
      using round_inc_0_iff [of 7 mode sign] by (simp add: mode_def roundPackF32_increment_eq flip: unat_eq_zero)
    with True show ?thesis unfolding eq fst_conv packToF32UI_inf by simp
  next
    case False
    then have "\<not> (0xFD \<le> (word_of_int expn :: uint32_t) \<and> (253 < expn \<or> 0x80000000 \<le> sig + ucast ?inc))"
      using n_inf FD ov by auto
    then have eq: "softfloat_roundPackToF32 sign expn sig s =
        roundPackF32_finish sign expn sig ?inc (ucast (sig AND 0x7F)) s"
      unfolding softfloat_roundPackToF32_def Let_def using e(1) by auto
    note fin = roundPackF32_finish_eq [of expn sig "ucast (sig AND 0x7F)" ?inc s sign]
    from False have "of_bool sign * 2 ^ 31 + n < 2 ^ 32" by (cases sign) simp_all
    with False rn(1) show ?thesis
      unfolding eq using fin e sig(2)
      by (simp add: roundPackF32_increment_eq mode_def [symmetric] rn_def [symmetric] n_def add.assoc)
  qed
  show ?thesis
    by (rule fp_rounded_normalI [where y = y and sig = "unat sig" and k = 7 and n = n and E = "nat expn"])
      (use cell sig x e rnd in \<open>simp_all add: n_def rn_def mode_def [symmetric]\<close>)
qed

lemma roundPackToF32_rounded:
  fixes sig :: uint64_t
  assumes "same_cell 6 y (unat sig)" "2 ^ 30 \<le> unat sig" "unat sig < 2 ^ 31"
    and "- (2 ^ 31) \<le> expn" "expn < 2 ^ 31" and "x = y * 2 powi (expn - 156)"
  shows "f32_rounded sign x s (softfloat_roundPackToF32 sign expn sig s)"
  using assms roundPackToF32_normal roundPackToF32_subnormal by (cases "0 \<le> expn") auto

interpretation f32: round_pack 23 7 "- 149" "255 * 2 ^ 23" "2 ^ 31" softfloat_roundPackToF32
proof unfold_locales
  fix y :: real and sig :: uint64_t and expn :: int and sign s
  assume "same_cell (7 - 1) y (unat sig)" "2 ^ (23 + 7) \<le> unat sig" "unat sig < 2 ^ (23 + 7 + 1)"
    "- (2 ^ 31) \<le> expn" "expn < 2 ^ 31"
  then show "f32_rounded sign (y * 2 powi (- 149 + expn - int 7)) s (softfloat_roundPackToF32 sign expn sig s)"
    by (intro roundPackToF32_rounded) simp_all
qed simp_all

section \<open>Reading operands\<close>

lemma f32_fields:
  fixes a :: float32_t
  shows "expF32UI (ucast a) = int (f32_mag a div 2 ^ 23)"
    and "unat (fracF32UI (ucast a)) = f32_mag a mod 2 ^ 23"
    and "signF32UI (ucast a) \<longleftrightarrow> 2 ^ 31 \<le> unat a"
proof -
  have u: "unat (ucast a :: uint64_t) = unat a" using unat_less_pow2 [of a] by (simp add: unat_ucast_mod)
  have "unat (drop_bit 23 (ucast a :: uint64_t) AND 0xFF) = unat a div 2 ^ 23 mod 2 ^ 8"
    using unat_and_mask [of "0xFF :: uint64_t" 8 "drop_bit 23 (ucast a)"] by (simp add: unat_drop_bit_div u)
  moreover have "unat a div 2 ^ 23 mod 2 ^ 8 = f32_mag a div 2 ^ 23"
    unfolding f32_mag_def using div_exp_mod_exp_eq [of "unat a" 23 8] by simp
  ultimately show "expF32UI (ucast a) = int (f32_mag a div 2 ^ 23)"
    by (simp add: expF32UI_def uint_nat)
  have "unat (fracF32UI (ucast a)) = unat a mod 2 ^ 23"
    unfolding fracF32UI_def using unat_and_mask [of "0x007FFFFF :: uint64_t" 23 "ucast a"] u by simp
  then show "unat (fracF32UI (ucast a)) = f32_mag a mod 2 ^ 23"
    by (simp add: f32_mag_def mod_mod_cancel)
  show "signF32UI (ucast a) \<longleftrightarrow> 2 ^ 31 \<le> unat a"
  proof -
    have "(ucast (ucast a :: uint64_t) :: uint32_t) = a"
      unfolding word_unat_eq_iff using u unat_less_pow2 [of a] by (simp add: unat_ucast_mod)
    then have "signF32UI (ucast a) \<longleftrightarrow> unat (drop_bit 31 a) \<noteq> 0"
      unfolding signF32UI_def by (simp add: unat_eq_zero)
    then show ?thesis unfolding unat_drop_bit_div by (simp add: div_eq_0_iff not_less)
  qed
qed

text \<open>The normalised significand and exponent that the operations compute for a nonzero operand.\<close>

definition f32_norm :: "float32_t \<Rightarrow> int \<times> uint_fast32_t" where
  "f32_norm a =
     (if expF32UI (ucast a) = 0
      then let n = softfloat_normSubnormalF32Sig (fracF32UI (ucast a)) in (exp16_sig32_exp n, exp16_sig32_sig n)
      else (expF32UI (ucast a), fracF32UI (ucast a)))"

lemma f32_norm_sig:
  assumes "f32_finite a" "f32_mag a \<noteq> 0" "f32_norm a = (e, g)"
  shows "2 ^ 23 \<le> unat (g OR 0x00800000)" "unat (g OR 0x00800000) < 2 ^ 24"
    "f32_abs a = real (unat (g OR 0x00800000)) * 2 powi (e - 150)"
    "- 22 \<le> e" "e \<le> 254"
proof -
  define F where "F = f32_mag a mod 2 ^ 23"
  define E where "E = f32_mag a div 2 ^ 23"
  have mag: "f32_mag a = E * 2 ^ 23 + F" unfolding E_def F_def by (rule div_mult_mod_eq [symmetric])
  have F: "F < 2 ^ 23" by (simp add: F_def)
  have frac: "unat (fracF32UI (ucast a)) = F" by (simp add: f32_fields F_def)
  have ex: "expF32UI (ucast a) = int E" by (simp add: f32_fields E_def)
  have "2 ^ 23 \<le> unat (g OR 0x00800000) \<and> unat (g OR 0x00800000) < 2 ^ 24 \<and>
    f32_abs a = real (unat (g OR 0x00800000)) * 2 powi (e - 150) \<and> - 22 \<le> e \<and> e \<le> 254"
  proof (cases "E = 0")
    case False
    then have e: "e = int E" "g = fracF32UI (ucast a)" using assms(3) ex by (simp_all add: f32_norm_def)
    have g: "unat (g OR 0x00800000) = F + 2 ^ 23"
      using nat_or_hidden [OF F] by (simp add: unat_or_distrib e frac)
    have "f32_abs a = real (F + 2 ^ 23) * 2 powi (int E - 150)"
      using mag_val_scaled [of "F + 2 ^ 23" 23 "E - 1" "- 149"] False F
      by (cases E) (simp_all add: f32_abs_def mag ac_simps)
    moreover have "E \<le> 254"
      using assms(1) by (simp add: f32_finite_def E_def)
    ultimately show ?thesis unfolding g e(1) using F by simp
  next
    case True
    then have F0: "F \<noteq> 0" using mag assms(2) by simp
    define w where "w = (ucast (fracF32UI (ucast a)) :: uint32_t)"
    have w: "unat w = F" using F by (simp add: w_def unat_ucast_mod frac)
    then have "w \<noteq> 0" using F0 by auto
    define c where "c = unat (softfloat_countLeadingZeros32 w)"
    have c: "c < 32" "2 ^ 31 \<le> F * 2 ^ c" "F * 2 ^ c < 2 ^ 32"
      using countLeadingZeros32_is_clz [OF \<open>w \<noteq> 0\<close>] unfolding is_clz_def c_def w by simp_all
    have c9: "9 \<le> c"
    proof (rule ccontr)
      assume "\<not> 9 \<le> c"
      then have "(2::nat) ^ c \<le> 2 ^ 8" by (intro power_increasing) simp_all
      then have "F * 2 ^ c \<le> F * 2 ^ 8" by (rule mult_left_mono) simp
      moreover have "F * 2 ^ 8 < 2 ^ 31" using F by simp
      ultimately show False using c(2) by (meson leD le_trans)
    qed
    have uc: "uint (softfloat_countLeadingZeros32 w) = int c" unfolding c_def by (rule uint_nat)
    have nc: "nat (int c - 8) = c - 8" using c9 by simp
    have ng: "(exp16_sig32_exp (softfloat_normSubnormalF32Sig (fracF32UI (ucast a))),
        exp16_sig32_sig (softfloat_normSubnormalF32Sig (fracF32UI (ucast a)))) = (9 - int c, push_bit (c - 8) (fracF32UI (ucast a)))"
      unfolding softfloat_normSubnormalF32Sig_def Let_def w_def [symmetric] uc nc exp16_sig32.simps by simp
    have "f32_norm a = (9 - int c, push_bit (c - 8) (fracF32UI (ucast a)))"
      unfolding f32_norm_def Let_def ng using ex True by simp
    with assms(3) have e: "e = 9 - int c" "g = push_bit (c - 8) (fracF32UI (ucast a))" by simp_all
    have P: "(2::nat) ^ c = 2 ^ (c - 8) * 2 ^ 8" using c9 by (intro pow2_split) simp
    have b: "2 ^ 23 \<le> F * 2 ^ (c - 8)" "F * 2 ^ (c - 8) < 2 ^ 24" using c(2,3) unfolding P by simp_all
    have "unat g = F * 2 ^ (c - 8)"
      unfolding e using b by (subst unat_push_bit_nowrap) (simp_all add: frac)
    moreover from this b have "unat (g OR 0x00800000) = unat g"
      using nat_or_set_bit [of 23 "unat g"] by (simp add: unat_or_distrib)
    ultimately have g: "unat (g OR 0x00800000) = F * 2 ^ (c - 8)" by simp
    have "f32_abs a = real F * 2 powi (- 149)"
      using F by (simp add: f32_abs_def mag True mag_val_def)
    also have "\<dots> = real F * 2 ^ (c - 8) * 2 powi (9 - int c - 150)"
    proof -
      have "(2::real) ^ (c - 8) * 2 powi (9 - int c - 150) = 2 powi (int (c - 8) + (9 - int c - 150))"
        by (simp add: power_int_add)
      also have "int (c - 8) + (9 - int c - 150) = - 149" using c9 by simp
      finally show ?thesis by simp
    qed
    finally show ?thesis unfolding g e(1) using b c c9 by simp
  qed
  then show "2 ^ 23 \<le> unat (g OR 0x00800000)" "unat (g OR 0x00800000) < 2 ^ 24"
    "f32_abs a = real (unat (g OR 0x00800000)) * 2 powi (e - 150)"
    "- 22 \<le> e" "e \<le> 254" by blast+
qed

lemma f32_finite_exp: "f32_finite a \<longleftrightarrow> expF32UI (ucast a) \<noteq> 0xFF"
proof -
  have "f32_mag a < 2 ^ 31" by (simp add: f32_mag_def)
  then have "f32_mag a div 2 ^ 23 \<le> 255" by simp
  then show ?thesis by (auto simp: f32_fields f32_finite_def)
qed

lemma f32_zero_iff: "expF32UI (ucast a) = 0 \<and> fracF32UI (ucast a) = 0 \<longleftrightarrow> f32_mag a = 0"
proof -
  have "fracF32UI (ucast a) = 0 \<longleftrightarrow> f32_mag a mod 2 ^ 23 = 0"
    by (simp add: f32_fields flip: unat_eq_zero)
  then show ?thesis by (auto simp: f32_fields)
qed

lemma f32_pack_zero: "unat (ucast (packToF32UI sign 0 0) :: float32_t) = of_bool sign * 2 ^ 31"
  by (subst packToF32UI_unat) simp_all

lemma f32_mag_less: "f32_mag a < 256 * 2 ^ 23"
  by (simp add: f32_mag_def)

lemma f32_class:
  "expF32UI (ucast a) = 0xFF \<longleftrightarrow> \<not> f32_finite a"
  "\<not> f32_finite a \<Longrightarrow> fracF32UI (ucast a) \<noteq> 0 \<longleftrightarrow> f32_nan a"
  "f32_inf a \<Longrightarrow> \<not> f32_finite a" "f32_nan a \<Longrightarrow> \<not> f32_finite a"
  "\<not> f32_finite a \<Longrightarrow> \<not> f32_nan a \<Longrightarrow> f32_inf a"
  "f32_inf a \<Longrightarrow> \<not> f32_nan a"
proof -
  show "expF32UI (ucast a) = 0xFF \<longleftrightarrow> \<not> f32_finite a" by (simp add: f32_finite_exp)
  show "fracF32UI (ucast a) \<noteq> 0 \<longleftrightarrow> f32_nan a" if "\<not> f32_finite a"
  proof -
    have "f32_mag a div 2 ^ 23 = 255"
      using that f32_mag_less [of a] by (subst div_pow_eq_iff) (simp_all add: f32_finite_def)
    then have "f32_mag a = 255 * 2 ^ 23 + unat (fracF32UI (ucast a))"
      using div_mult_mod_eq [of "f32_mag a" "2 ^ 23"] by (simp add: f32_fields)
    then show ?thesis by (auto simp: f32_nan_def unat_gt_0)
  qed
qed (auto simp: f32_inf_def f32_nan_def f32_finite_def)

lemma isSigNaNF32UI_iff: "softfloat_isSigNaNF32UI (ucast a) \<longleftrightarrow> f32_snan a"
proof -
  have u: "unat (ucast a :: uint64_t) = unat a" using unat_less_pow2 [of a] by (simp add: unat_ucast_mod)
  have m: "unat a div 2 ^ 22 mod 2 ^ 9 = f32_mag a div 2 ^ 22" "unat a mod 2 ^ 22 = f32_mag a mod 2 ^ 22"
    unfolding f32_mag_def using div_exp_mod_exp_eq [of "unat a" 22 9] by (simp_all add: mod_mod_cancel)
  have 1: "(ucast a :: uint64_t) AND 0x7FC00000 = 0x7F800000 \<longleftrightarrow> f32_mag a div 2 ^ 22 = 510"
    unfolding word_unat_eq_iff using unat_and_field [of "0x7FC00000 :: uint64_t" 9 22 "ucast a"] m by (simp add: u)
  have "unat ((ucast a :: uint64_t) AND 0x003FFFFF) = f32_mag a mod 2 ^ 22"
    using unat_and_mask [of "0x003FFFFF :: uint64_t" 22 "ucast a"] m by (simp add: u)
  then have 2: "(ucast a :: uint64_t) AND 0x003FFFFF \<noteq> 0 \<longleftrightarrow> f32_mag a mod 2 ^ 22 \<noteq> 0"
    by (metis unat_eq_zero)
  have "f32_mag a div 2 ^ 22 = 510 \<and> f32_mag a mod 2 ^ 22 \<noteq> 0 \<longleftrightarrow> f32_snan a"
    using div_pow_inside_iff [of "f32_mag a" 22 510] by (auto simp: f32_snan_def f32_nan_def)
  then show ?thesis unfolding softfloat_isSigNaNF32UI_def 1 2 .
qed

lemma f32_bits_or_zero: "word_of_int (expF32UI (ucast a)) OR fracF32UI (ucast a) = 0 \<longleftrightarrow> f32_mag a = 0"
proof -
  have "expF32UI (ucast a) = uint (drop_bit 23 (ucast a :: uint64_t) AND 0xFF)" by (simp add: expF32UI_def)
  then have "word_of_int (expF32UI (ucast a)) = drop_bit 23 (ucast a :: uint64_t) AND 0xFF" by simp
  moreover have "drop_bit 23 (ucast a :: uint64_t) AND 0xFF = 0 \<longleftrightarrow> expF32UI (ucast a) = 0"
    by (simp add: expF32UI_def uint_0_iff)
  ultimately show ?thesis by (simp add: or_eq_0_iff flip: f32_zero_iff)
qed

lemma propagateNaNF32_result:
  "(case softfloat_propagateNaNF32UI (ucast a) (ucast b) s of (uiZ, s) \<Rightarrow> (ucast uiZ :: float32_t, s)) =
     (0x7FC00000, if f32_snan a \<or> f32_snan b then softfloat_raiseFlags softfloat_flag_invalid s else s)"
  by (simp add: softfloat_propagateNaNF32UI_def defaultNaNF32UI_def isSigNaNF32UI_iff)

lemma f32_pack_inf: "unat (ucast (packToF32UI sign 0xFF 0) :: float32_t) = of_bool sign * 2 ^ 31 + 255 * 2 ^ 23"
  using packToF32UI_inf [of sign False] by simp

section \<open>Addition\<close>

definition f32_asig :: "float32_t \<Rightarrow> nat" where
  "f32_asig a = (if f32_mag a < 2 ^ 23 then 2 * f32_mag a else 2 ^ 23 + f32_mag a mod 2 ^ 23)"

lemma f32_asig:
  assumes "f32_finite a"
  shows "f32_abs a = real (f32_asig a) * 2 powi (expF32UI (ucast a) - 150)"
    and "f32_asig a < 2 ^ 24"
    and "f32_asig a = (if expF32UI (ucast a) = 0 then 2 * unat (fracF32UI (ucast a)) else 2 ^ 23 + unat (fracF32UI (ucast a)))"
    and "unat (fracF32UI (ucast a)) < 2 ^ 23" "0 \<le> expF32UI (ucast a)" "expF32UI (ucast a) \<le> 254"
proof -
  have E: "expF32UI (ucast a) = 0 \<longleftrightarrow> f32_mag a < 2 ^ 23" by (auto simp: f32_fields div_eq_0_iff)
  show "f32_abs a = real (f32_asig a) * 2 powi (expF32UI (ucast a) - 150)"
  proof (cases "f32_mag a < 2 ^ 23")
    case True
    then have "expF32UI (ucast a) = 0" using E by blast
    with True show ?thesis
      using power_int_add [of "2::real" "- 150" 1] by (simp add: f32_abs_def mag_val_def f32_asig_def)
  qed (simp add: f32_abs_def mag_val_def f32_asig_def f32_fields)
  show "f32_asig a < 2 ^ 24" by (simp add: f32_asig_def)
  show "f32_asig a = (if expF32UI (ucast a) = 0 then 2 * unat (fracF32UI (ucast a)) else 2 ^ 23 + unat (fracF32UI (ucast a)))"
    unfolding E by (simp add: f32_asig_def f32_fields)
  show "unat (fracF32UI (ucast a)) < 2 ^ 23" by (simp add: f32_fields)
  show "0 \<le> expF32UI (ucast a)" "expF32UI (ucast a) \<le> 254"
    using assms by (simp_all add: f32_fields f32_finite_def)
qed

lemma packToF32UI_mag:
  assumes "0 \<le> expn" "nat expn * 2 ^ 23 + unat sig < 2 ^ 31"
  shows "unat (ucast (packToF32UI sign expn sig) :: float32_t) = of_bool sign * 2 ^ 31 + (nat expn * 2 ^ 23 + unat sig)"
proof -
  have "nat expn < 2 ^ 32" using assms(2) by simp
  then have "expn < 2 ^ 32" using assms(1) by (simp add: nat_less_iff)
  with assms show ?thesis by (subst packToF32UI_unat) (simp_all split: split_of_bool)
qed

text \<open>A packed significand that needs no rounding is the exact result.\<close>

lemma f32_pack_exact:
  assumes "0 \<le> expn" "unat sig \<le> 2 ^ 24" "2 ^ 23 \<le> unat sig \<or> expn = 0" "nat expn * 2 ^ 23 + unat sig < 255 * 2 ^ 23"
    and "x = real (unat sig) * 2 powi (expn - 149)"
  shows "f32_rounded sign x s (ucast (packToF32UI sign expn sig), s)"
proof (rule fp_rounded_exact [where n = "nat expn * 2 ^ 23 + unat sig"])
  show "x = mag_val 23 (- 149) (nat expn * 2 ^ 23 + unat sig)"
    using mag_val_scaled [of "unat sig" 23 "nat expn" "- 149"] assms by (simp add: add.commute)
  show "unat (fst (ucast (packToF32UI sign expn sig) :: float32_t, s)) =
      of_bool sign * 2 ^ (LENGTH(32) - 1) + (nat expn * 2 ^ 23 + unat sig)"
    using packToF32UI_mag [of expn sig sign] assms(1,4) by simp
qed (use assms in simp_all)

lemma f32_decode: "unat a = of_bool (signF32UI (ucast a)) * 2 ^ 31 + f32_mag a"
proof -
  have "unat a = unat a div 2 ^ 31 * 2 ^ 31 + f32_mag a" unfolding f32_mag_def by (rule div_mult_mod_eq [symmetric])
  moreover have "unat a div 2 ^ 31 = of_bool (2 ^ 31 \<le> unat a)"
    using unat_less_pow2 [of a] by (cases "2 ^ 31 \<le> unat a") (auto intro: div_nat_eqI)
  ultimately show ?thesis by (simp add: f32_fields)
qed

lemma f32_aligned_word:
  assumes "f32_finite a" "j \<le> 7" "unat h = 2 ^ (23 + j)"
  shows "unat (push_bit j (fracF32UI (ucast a)) + (if expF32UI (ucast a) \<noteq> 0 then h else push_bit j (fracF32UI (ucast a)))) =
    f32_asig a * 2 ^ j"
    and "f32_asig a * 2 ^ j < 2 ^ 31"
proof -
  note A = f32_asig [OF assms(1)]
  have J: "(2::nat) ^ j \<le> 2 ^ 7" using assms(2) by (intro power_increasing) simp_all
  have b: "unat (fracF32UI (ucast a)) * 2 ^ j < 2 ^ 23 * 2 ^ j" using A(4) by (intro mult_strict_right_mono) simp_all
  have "f32_asig a * 2 ^ j < 2 ^ 24 * 2 ^ j" using A(2) by (intro mult_strict_right_mono) simp_all
  also have "\<dots> \<le> 2 ^ 24 * 2 ^ 7" using J by (rule mult_left_mono) simp
  finally show lt: "f32_asig a * 2 ^ j < 2 ^ 31" by simp
  have p: "unat (push_bit j (fracF32UI (ucast a))) = unat (fracF32UI (ucast a)) * 2 ^ j"
  proof (rule unat_push_bit_nowrap)
    have "(2::nat) ^ 23 * 2 ^ j \<le> 2 ^ 23 * 2 ^ 7" using J by (rule mult_left_mono) simp
    from less_le_trans [OF b this] show "unat (fracF32UI (ucast a)) * 2 ^ j < 2 ^ LENGTH(64)" by simp
  qed
  show "unat (push_bit j (fracF32UI (ucast a)) + (if expF32UI (ucast a) \<noteq> 0 then h else push_bit j (fracF32UI (ucast a)))) =
    f32_asig a * 2 ^ j"
  proof (cases "expF32UI (ucast a) = 0")
    case True
    then have "f32_asig a = 2 * unat (fracF32UI (ucast a))" using A(3) by simp
    with True lt show ?thesis by (subst unat_add_nowrap) (simp_all add: p)
  next
    case False
    then have "f32_asig a = 2 ^ 23 + unat (fracF32UI (ucast a))" using A(3) by simp
    with False lt show ?thesis
      by (subst unat_add_nowrap) (simp_all add: p assms(3) power_add add_mult_distrib)
  qed
qed

lemma f32_shifted_word:
  fixes w :: uint_fast32_t
  assumes "unat w = m" "m < 2 ^ 31" "0 < d" "d < 2 ^ 31"
  shows "unat (ucast (softfloat_shiftRightJam32 (ucast w) (word_of_int d)) :: uint_fast32_t) = jam (nat d) m"
proof -
  have dw: "unat (word_of_int d :: uint64_t) = nat d"
    using assms unat_word_of_int [where 'a = 64, of d] by simp
  then have "(word_of_int d :: uint64_t) \<noteq> 0" using assms(3) by (auto simp: word_unat_eq_iff)
  then have "unat (softfloat_shiftRightJam32 (ucast w) (word_of_int d)) = jam (nat d) m"
    using shiftRightJam32_jam [of "word_of_int d" "ucast w"] assms dw by (simp add: unat_ucast_mod)
  then show ?thesis by (simp add: unat_ucast_up)
qed

lemma normRoundPackToF32_rounded:
  fixes sig :: uint_fast32_t
  assumes sig: "sig \<noteq> 0" "unat sig < 2 ^ 31"
    and y: "y = real (unat sig) \<or> same_cell 1 y (unat sig) \<and> 2 ^ 29 \<le> unat sig"
    and e: "- (2 ^ 30) \<le> expn" "expn < 2 ^ 31" and x: "x = y * 2 powi (expn - 156)"
  shows "f32_rounded sign x s (softfloat_normRoundPackToF32 sign expn sig s)"
proof -
  define c where "c = unat (softfloat_countLeadingZeros32 (ucast sig))"
  have u: "unat (ucast sig :: uint32_t) = unat sig" using sig(2) by (simp add: unat_ucast_mod)
  then have "(ucast sig :: uint32_t) \<noteq> 0" using sig(1) by (metis unat_eq_zero)
  then have c: "c < 32" "2 ^ 31 \<le> unat sig * 2 ^ c" "unat sig * 2 ^ c < 2 ^ 32"
    using countLeadingZeros32_is_clz [of "ucast sig"] unfolding is_clz_def u c_def by simp_all
  have "c \<noteq> 0" using c(2) sig(2) by (intro notI) simp
  then obtain d where d: "c = Suc d" by (cases c) simp_all
  have dd: "d < 31" "2 ^ 30 \<le> unat sig * 2 ^ d" "unat sig * 2 ^ d < 2 ^ 31" using c by (simp_all add: d)
  have uc: "uint (softfloat_countLeadingZeros32 (ucast sig)) - 1 = int d"
    using d unfolding c_def by (simp add: uint_nat)
  have eq: "softfloat_normRoundPackToF32 sign expn sig s =
      (if 7 \<le> int d \<and> (word_of_int (expn - int d) :: uint32_t) < 0xFD
       then (ucast (packToF32UI sign (expn - int d) (push_bit (d - 7) sig)), s)
       else softfloat_roundPackToF32 sign (expn - int d) (push_bit d sig) s)"
    using sig(1) unfolding softfloat_normRoundPackToF32_def Let_def uc by (simp add: nat_diff_distrib')
  show ?thesis
  proof (cases "7 \<le> int d \<and> (word_of_int (expn - int d) :: uint32_t) < 0xFD")
    case True
    then have e0: "0 \<le> expn - int d" and "expn - int d < 253"
      using word_of_int_less_iff [of "0xFD :: uint32_t" "expn - int d"] e dd(1) by simp_all
    then have e1: "nat (expn - int d) < 253" by simp
    have d7: "7 \<le> d" using True by simp
    have P: "unat sig * 2 ^ d = unat sig * 2 ^ (d - 7) * 2 ^ 7"
      using pow2_split [OF d7, where 'a = nat] by (simp only: mult.assoc)
    have b: "2 ^ 23 \<le> unat sig * 2 ^ (d - 7)" "unat sig * 2 ^ (d - 7) < 2 ^ 24"
      using dd(2,3) unfolding P by simp_all
    have p: "unat (push_bit (d - 7) sig) = unat sig * 2 ^ (d - 7)"
      using b by (intro unat_push_bit_nowrap) simp
    have "unat sig < 2 ^ 29"
    proof (rule ccontr)
      assume "\<not> unat sig < 2 ^ 29"
      moreover have "(2::nat) ^ 7 \<le> 2 ^ d" using d7 by (intro power_increasing) simp_all
      ultimately have "2 ^ 29 * 2 ^ 7 \<le> unat sig * 2 ^ d" by (intro mult_mono) simp_all
      with dd(3) show False by simp
    qed
    with y have "y = real (unat sig)" by linarith
    then have "x = real (unat sig * 2 ^ (d - 7)) * 2 powi (expn - int d - 149)"
      using scale_pow2 [of "expn - 156" "expn - int d - 149" "d - 7" y] d7 by (simp add: x)
    then show ?thesis
      unfolding eq if_P [OF True] using b e0 e1 by (intro f32_pack_exact) (unfold p, simp_all)
  next
    case False
    have "f32_rounded sign (y * 2 powi (- 149 + expn - int 7)) s
        (softfloat_roundPackToF32 sign (expn - int d) (push_bit d sig) s)"
      using y
    proof
      assume y: "y = real (unat sig)"
      show ?thesis
        unfolding y using dd e by (intro f32.roundPack_shifted [OF same_cell_refl [of 0]]) simp_all
    next
      assume *: "same_cell 1 y (unat sig) \<and> 2 ^ 29 \<le> unat sig"
      have "d \<le> 1"
      proof (rule ccontr)
        assume "\<not> d \<le> 1"
        then have "(2::nat) ^ 2 \<le> 2 ^ d" by (intro power_increasing) simp_all
        with * have "2 ^ 29 * 2 ^ 2 \<le> unat sig * 2 ^ d" by (intro mult_mono) simp_all
        with dd(3) show False by simp
      qed
      with * show ?thesis using dd e by (intro f32.roundPack_shifted [where j = 1]) simp_all
    qed
    then show ?thesis unfolding eq if_not_P [OF False] by (simp add: x)
  qed
qed

lemma f32_abs_less_exp:
  assumes fin: "f32_finite a" "f32_finite b" and e: "expF32UI (ucast b) < expF32UI (ucast a)"
  shows "f32_abs b < f32_abs a"
proof -
  have "f32_mag b < f32_mag a"
  proof (rule ccontr)
    assume "\<not> f32_mag b < f32_mag a"
    then have "f32_mag a div 2 ^ 23 \<le> f32_mag b div 2 ^ 23" by (intro div_le_mono) simp
    with e show False by (simp add: f32_fields)
  qed
  then show ?thesis by (simp add: f32_abs_def)
qed

lemma signF32UI_bit: "signF32UI a \<longleftrightarrow> bit a 31"
proof -
  have "drop_bit 31 (ucast a :: uint32_t) = of_bool (bit a 31)"
    by (rule bit_eqI) (auto simp: bit_simps bit_1_iff not_less_eq split: split_of_bool)
  then show ?thesis by (simp add: signF32UI_def)
qed

lemma signF32UI_xor: "signF32UI (a XOR b) \<longleftrightarrow> signF32UI a \<noteq> signF32UI b"
  by (simp add: signF32UI_bit bit_xor_iff)

lemma f32_abs_nonneg: "0 \<le> f32_abs a"
  unfolding f32_abs_def using mag_val_le_iff [of 23 "- 149" 0 "f32_mag a"] by simp

lemma f32_inf_eq:
  assumes "f32_inf a" "signF32UI (ucast a) = sign"
  shows "ucast (packToF32UI sign 0xFF 0) = a"
  using f32_decode [of a] f32_pack_inf [of sign] assms by (simp add: word_unat_eq_iff f32_inf_def)

lemma f32_exp_less:
  assumes "f32_finite a" "\<not> f32_finite b"
  shows "expF32UI (ucast a) - expF32UI (ucast b) < 0" "(expF32UI (ucast a) - expF32UI (ucast b) = 0) = False"
    "\<not> expF32UI (ucast b) - expF32UI (ucast a) < 0" "(expF32UI (ucast b) - expF32UI (ucast a) = 0) = False"
  using f32_asig(6) [OF assms(1)] f32_class(1) [of b] assms(2) by simp_all

end
