(* ===== verification/F32_Arith.thy ===== *)
theory F32_Arith
  imports Softfloat_F32
begin

text \<open>
  Correctness of the single-precision arithmetic: for finite operands each operation delivers the
  correctly rounded exact result with the flags IEEE 754 asks for; NaN, infinite and zero operands
  give the results and flags of the special cases.
\<close>

section \<open>Multiplication\<close>

lemma f32_mul_norm:
  assumes "f32_finite a" "f32_finite b" "f32_mag a \<noteq> 0" "f32_mag b \<noteq> 0"
    and "f32_norm a = (eA, gA)" "f32_norm b = (eB, gB)"
  defines "sigZ \<equiv> softfloat_shortShiftRightJam64 (push_bit 7 (gA OR 0x00800000) * push_bit 8 (gB OR 0x00800000)) 32"
  defines "signZ \<equiv> signF32UI (ucast a) \<noteq> signF32UI (ucast b)"
  shows "f32_mul a b s =
    (if unat sigZ < 2 ^ (23 + 7) then softfloat_roundPackToF32 signZ (eA + eB - 0x7F - 1) (push_bit 1 sigZ) s
     else softfloat_roundPackToF32 signZ (eA + eB - 0x7F) sigZ s)"
proof -
  have nz: "(expF32UI (ucast a) = 0 \<and> fracF32UI (ucast a) = 0) = False"
    "(expF32UI (ucast b) = 0 \<and> fracF32UI (ucast b) = 0) = False"
    using assms by (simp_all add: f32_zero_iff)
  have fin: "(expF32UI (ucast a) = 0xFF) = False" "(expF32UI (ucast b) = 0xFF) = False"
    using assms by (simp_all add: f32_finite_exp)
  have lt: "sigZ < 0x40000000 \<longleftrightarrow> unat sigZ < 2 ^ (23 + 7)" by (simp add: word_less_nat_alt)
  note n = assms(5,6) [unfolded f32_norm_def Let_def]
  show ?thesis
    unfolding lt [symmetric] unfolding sigZ_def signZ_def f32_mul_def Let_def fin nz if_False n prod.case ..
qed

lemma f32_mul_rounded_nonzero:
  assumes fin: "f32_finite a" "f32_finite b" and nz: "f32_mag a \<noteq> 0" "f32_mag b \<noteq> 0"
  shows "f32_rounded (signF32UI (ucast a) \<noteq> signF32UI (ucast b)) (f32_abs a * f32_abs b) s (f32_mul a b s)"
proof -
  obtain eA gA eB gB where n: "f32_norm a = (eA, gA)" "f32_norm b = (eB, gB)" by fastforce
  define ma mb where "ma = unat (gA OR 0x00800000)" and "mb = unat (gB OR 0x00800000)"
  note A = f32_norm_sig [OF fin(1) nz(1) n(1), folded ma_def]
  note B = f32_norm_sig [OF fin(2) nz(2) n(2), folded mb_def]
  define w where "w = push_bit 7 (gA OR 0x00800000) * push_bit 8 (gB OR 0x00800000)"
  define sigZ where "sigZ = softfloat_shortShiftRightJam64 w 32"
  have prod: "2 ^ 46 \<le> ma * mb" "ma * mb < 2 ^ 48"
    using mult_mono [OF A(1) B(1)] mult_strict_mono [OF A(2) B(2)] by simp_all
  have "unat (push_bit 7 (gA OR 0x00800000)) = ma * 2 ^ 7" "unat (push_bit 8 (gB OR 0x00800000)) = mb * 2 ^ 8"
    using A(2) B(2) by (subst unat_push_bit_nowrap; simp add: ma_def mb_def)+
  then have w: "unat w = ma * mb * 2 ^ 15"
    unfolding w_def using prod(2) by (subst unat_mult_nowrap) simp_all
  have sigZ: "unat sigZ = jam 32 (ma * mb * 2 ^ 15)"
    using shortShiftRightJam64_jam [of 32 w] by (simp add: sigZ_def w)
  have "2 ^ (23 + 7 - 1) \<le> unat sigZ"
    using jam_even_less [of "2 ^ 29" 32 "ma * mb * 2 ^ 15"] prod(1) unfolding sigZ by simp
  moreover have "unat sigZ < 2 ^ (23 + 7 + 1)"
    using jam_even_less [of "2 ^ 31" 32 "ma * mb * 2 ^ 15"] prod(2) unfolding sigZ by simp
  moreover have "same_cell 1 (real (ma * mb * 2 ^ 15) / 2 ^ 32) (unat sigZ)"
    unfolding sigZ One_nat_def by (rule jam_cell)
  ultimately have "f32_rounded (signF32UI (ucast a) \<noteq> signF32UI (ucast b))
      (real (ma * mb * 2 ^ 15) / 2 ^ 32 * 2 powi (- 149 + (eA + eB - 0x7F) - int 7)) s (f32_mul a b s)"
    unfolding f32_mul_norm [OF fin nz n] w_def [symmetric] sigZ_def [symmetric]
    using A(4,5) B(4,5) by (intro f32.roundPack_one_short) simp_all
  moreover have "real (ma * mb * 2 ^ 15) / 2 ^ 32 * 2 powi (- 149 + (eA + eB - 0x7F) - int 7) = f32_abs a * f32_abs b"
    unfolding A(3) B(3) by (simp add: power_int_add power_int_diff field_simps)
  ultimately show ?thesis by simp
qed

lemma f32_mul_nan:
  assumes "f32_nan a \<or> f32_nan b"
  shows "f32_mul a b s =
    (0x7FC00000, if f32_snan a \<or> f32_snan b then softfloat_raiseFlags softfloat_flag_invalid s else s)"
proof -
  consider "\<not> f32_finite a" "f32_nan a" | "f32_finite a" "\<not> f32_finite b" "f32_nan b"
    | "\<not> f32_finite a" "\<not> f32_nan a" "\<not> f32_finite b" "f32_nan b"
    using assms f32_class(4) by blast
  then show ?thesis
    unfolding f32_mul_def Let_def propagateNaNF32_result f32_class(1)
    by cases (simp_all add: f32_class(2))
qed

lemma f32_mul_inf:
  assumes "\<not> f32_nan a" "\<not> f32_nan b" "f32_inf a \<or> f32_inf b"
  shows "f32_mul a b s =
    (if f32_mag a = 0 \<or> f32_mag b = 0 then (0x7FC00000, softfloat_raiseFlags softfloat_flag_invalid s)
     else (ucast (packToF32UI (signF32UI (ucast a) \<noteq> signF32UI (ucast b)) 0xFF 0), s))"
proof -
  consider "\<not> f32_finite a" "f32_inf a" "\<not> f32_finite b" "f32_inf b" | "f32_finite a" "\<not> f32_finite b" "f32_inf b"
    | "\<not> f32_finite a" "f32_inf a" "f32_finite b"
    using assms f32_class(3,5) by blast
  then show ?thesis
    unfolding f32_mul_def Let_def f32_class(1) f32_bits_or_zero
    by cases (use assms in \<open>simp_all add: f32_class(2) defaultNaNF32UI_def f32_inf_def\<close>)
qed

lemma f32_mul_zero:
  assumes "f32_finite a" "f32_finite b" "f32_mag a = 0 \<or> f32_mag b = 0"
  shows "f32_mul a b s = (ucast (packToF32UI (signF32UI (ucast a) \<noteq> signF32UI (ucast b)) 0 0), s)"
  using assms unfolding f32_mul_def Let_def f32_class(1) f32_zero_iff
  by (cases "f32_mag a = 0"; simp split: prod.split)

lemma f32_mul_rounded:
  assumes "f32_finite a" "f32_finite b"
  shows "f32_rounded (signF32UI (ucast a) \<noteq> signF32UI (ucast b)) (f32_abs a * f32_abs b) s (f32_mul a b s)"
proof (cases "f32_mag a = 0 \<or> f32_mag b = 0")
  case True
  then show ?thesis
    unfolding f32_mul_zero [OF assms True]
    by (intro fp_rounded_exact [where n = 0]) (auto simp: f32_pack_zero f32_abs_def)
qed (use assms f32_mul_rounded_nonzero in blast)

section \<open>Division\<close>

lemma f32_div_norm:
  assumes "f32_finite a" "f32_finite b" "f32_mag a \<noteq> 0" "f32_mag b \<noteq> 0"
    and "f32_norm a = (eA, gA)" "f32_norm b = (eB, gB)"
  defines "mA \<equiv> gA OR 0x00800000" and "mB \<equiv> gB OR 0x00800000"
  defines "sig64A \<equiv> push_bit (if mA < mB then 31 else 30) mA"
  defines "sigZ \<equiv> sig64A div mB"
  defines "signZ \<equiv> signF32UI (ucast a) \<noteq> signF32UI (ucast b)"
  shows "f32_div a b s =
    softfloat_roundPackToF32 signZ (eA - eB + 0x7E - of_bool (mA < mB))
      (if sigZ AND 0x3F = 0 then sigZ OR of_bool (mB * sigZ \<noteq> sig64A) else sigZ) s"
proof -
  have nz: "(expF32UI (ucast a) = 0 \<and> fracF32UI (ucast a) = 0) = False"
    "(expF32UI (ucast b) = 0 \<and> fracF32UI (ucast b) = 0) = False"
    using assms by (simp_all add: f32_zero_iff)
  have fin: "(expF32UI (ucast a) = 0xFF) = False" "(expF32UI (ucast b) = 0xFF) = False"
    using assms by (simp_all add: f32_finite_exp)
  note n = assms(5,6) [unfolded f32_norm_def Let_def]
  show ?thesis
    unfolding signZ_def f32_div_def Let_def fin nz if_False n prod.case
    unfolding sigZ_def sig64A_def mA_def [symmetric] mB_def [symmetric]
    by (cases "mA < mB") simp_all
qed

lemma f32_div_rounded_nonzero:
  assumes fin: "f32_finite a" "f32_finite b" and nz: "f32_mag a \<noteq> 0" "f32_mag b \<noteq> 0"
  shows "f32_rounded (signF32UI (ucast a) \<noteq> signF32UI (ucast b)) (f32_abs a / f32_abs b) s (f32_div a b s)"
proof -
  obtain eA gA eB gB where n: "f32_norm a = (eA, gA)" "f32_norm b = (eB, gB)" by fastforce
  define mA mB where "mA = gA OR 0x00800000" and "mB = gB OR 0x00800000"
  note A = f32_norm_sig [OF fin(1) nz(1) n(1), folded mA_def]
  note B = f32_norm_sig [OF fin(2) nz(2) n(2), folded mB_def]
  define d :: nat where "d = (if mA < mB then 31 else 30)"
  define N where "N = unat mA * 2 ^ d"
  define sigZ where "sigZ = push_bit d mA div mB"
  have N: "unat (push_bit d mA) = N"
    unfolding N_def using A(2) by (intro unat_push_bit_nowrap) (simp add: d_def)
  have z: "unat sigZ = N div unat mB" by (simp add: sigZ_def unat_div N)
  have bounds: "2 ^ 30 * unat mB \<le> N" "N < 2 ^ 31 * unat mB"
    using A(1,2) B(1,2) unfolding N_def d_def by (auto simp: word_less_nat_alt)
  have zb: "2 ^ 30 \<le> unat sigZ" "unat sigZ < 2 ^ 31"
    using bounds B(1) unfolding z by (simp_all add: less_eq_div_iff_mult_less_eq div_less_iff_less_mult)
  have ex: "mB * sigZ \<noteq> push_bit d mA \<longleftrightarrow> N mod unat mB \<noteq> 0"
  proof -
    have "unat (mB * sigZ) = unat mB * (N div unat mB)"
      using unat_less_pow2 [of "push_bit d mA"] N times_div_less_eq_dividend [of "unat mB" N]
      by (subst unat_mult_nowrap) (unfold z, linarith, rule refl)
    then show ?thesis unfolding word_unat_eq_iff N
      by (metis mod_0_imp_dvd dvd_mult_div_cancel dvd_imp_mod_0 dvd_triv_left)
  qed
  define w where "w = (if sigZ AND 0x3F = 0 then sigZ OR of_bool (mB * sigZ \<noteq> push_bit d mA) else sigZ)"
  have "unat (sigZ AND 0x3F) = unat sigZ mod 2 ^ 6" using unat_and_mask [of "0x3F :: uint64_t" 6 sigZ] by simp
  then have m6: "sigZ AND 0x3F = 0 \<longleftrightarrow> unat sigZ mod 2 ^ 6 = 0" by (metis unat_eq_zero)
  have w: "unat w = (if N div unat mB mod 2 ^ 6 = 0 \<and> N mod unat mB \<noteq> 0 then Suc (N div unat mB) else N div unat mB)"
    unfolding w_def m6 ex z using even_if_mod_pow [of 6 "N div unat mB"] by (auto simp: unat_or_1 z)
  have cell: "same_cell 6 (real N / real (unat mB)) (unat w)"
    unfolding w using B(1) by (intro same_cell_quotient) simp_all
  have "2 ^ 30 \<le> unat w" "unat w < 2 ^ 31"
    using zb unfolding z w by auto
  then have "f32_rounded (signF32UI (ucast a) \<noteq> signF32UI (ucast b))
      (real N / real (unat mB) * 2 powi (eA - eB + 0x7E - of_bool (mA < mB) - 156)) s (f32_div a b s)"
    unfolding f32_div_norm [OF fin nz n] mA_def [symmetric] mB_def [symmetric] d_def [symmetric]
      sigZ_def [symmetric] w_def [symmetric]
    using A(4,5) B(4,5) by (intro roundPackToF32_rounded [OF cell]) (simp_all split: split_of_bool)
  moreover have "real N / real (unat mB) * 2 powi (eA - eB + 0x7E - of_bool (mA < mB) - 156) = f32_abs a / f32_abs b"
  proof -
    have "f32_abs a / f32_abs b = real (unat mA) / real (unat mB) * (2 powi (eA - 150) / 2 powi (eB - 150))"
      unfolding A(3) B(3) by simp
    also have "2 powi (eA - 150) / 2 powi (eB - 150) = (2::real) powi (eA - eB)"
      by (simp flip: power_int_diff)
    also have "(2::real) powi (eA - eB) = 2 ^ d * 2 powi (eA - eB + 0x7E - of_bool (mA < mB) - 156)"
    proof -
      have "eA - eB = int d + (eA - eB + 0x7E - of_bool (mA < mB) - 156)" by (simp add: d_def)
      then show ?thesis by (metis power_int_add power_int_of_nat zero_neq_numeral)
    qed
    finally show ?thesis by (simp add: N_def)
  qed
  ultimately show ?thesis by simp
qed

lemma f32_div_nan:
  assumes "f32_nan a \<or> f32_nan b"
  shows "f32_div a b s =
    (0x7FC00000, if f32_snan a \<or> f32_snan b then softfloat_raiseFlags softfloat_flag_invalid s else s)"
proof -
  consider "\<not> f32_finite a" "f32_nan a" | "f32_finite a" "\<not> f32_finite b" "f32_nan b"
    | "\<not> f32_finite a" "\<not> f32_nan a" "\<not> f32_finite b" "f32_nan b"
    using assms f32_class(4) by blast
  then show ?thesis
    unfolding f32_div_def Let_def propagateNaNF32_result f32_class(1)
    by cases (simp_all add: f32_class(2))
qed

lemma f32_div_special:
  assumes "\<not> f32_nan a" "\<not> f32_nan b"
  defines "signZ \<equiv> signF32UI (ucast a) \<noteq> signF32UI (ucast b)"
  shows "f32_inf a \<Longrightarrow> f32_inf b \<Longrightarrow> f32_div a b s = (0x7FC00000, softfloat_raiseFlags softfloat_flag_invalid s)"
    and "f32_inf a \<Longrightarrow> f32_finite b \<Longrightarrow> f32_div a b s = (ucast (packToF32UI signZ 0xFF 0), s)"
    and "f32_finite a \<Longrightarrow> f32_inf b \<Longrightarrow> f32_div a b s = (ucast (packToF32UI signZ 0 0), s)"
    and "f32_mag a = 0 \<Longrightarrow> f32_mag b = 0 \<Longrightarrow> f32_div a b s = (0x7FC00000, softfloat_raiseFlags softfloat_flag_invalid s)"
    and "f32_finite a \<Longrightarrow> f32_mag a \<noteq> 0 \<Longrightarrow> f32_mag b = 0 \<Longrightarrow>
      f32_div a b s = (ucast (packToF32UI signZ 0xFF 0), softfloat_raiseFlags softfloat_flag_infinite s)"
    and "f32_mag a = 0 \<Longrightarrow> f32_finite b \<Longrightarrow> f32_mag b \<noteq> 0 \<Longrightarrow> f32_div a b s = (ucast (packToF32UI signZ 0 0), s)"
proof -
  have fin0: "f32_mag c = 0 \<Longrightarrow> f32_finite c" for c by (simp add: f32_finite_def)
  note facts = assms(1,2) f32_class(2,3) [of a] f32_class(2,3) [of b] fin0 [of a] fin0 [of b]
  note unf = f32_div_def Let_def f32_class(1) f32_zero_iff f32_bits_or_zero signZ_def
  show "f32_div a b s = (0x7FC00000, softfloat_raiseFlags softfloat_flag_invalid s)" if "f32_inf a" "f32_inf b"
    using facts that unfolding unf by (simp add: defaultNaNF32UI_def)
  show "f32_div a b s = (ucast (packToF32UI signZ 0xFF 0), s)" if "f32_inf a" "f32_finite b"
    using facts that unfolding unf by simp
  show "f32_div a b s = (ucast (packToF32UI signZ 0 0), s)" if "f32_finite a" "f32_inf b"
    using facts that unfolding unf by simp
  show "f32_div a b s = (0x7FC00000, softfloat_raiseFlags softfloat_flag_invalid s)" if "f32_mag a = 0" "f32_mag b = 0"
    using facts that unfolding unf by (simp add: defaultNaNF32UI_def)
  show "f32_div a b s = (ucast (packToF32UI signZ 0xFF 0), softfloat_raiseFlags softfloat_flag_infinite s)"
    if "f32_finite a" "f32_mag a \<noteq> 0" "f32_mag b = 0"
    using facts that unfolding unf by simp
  show "f32_div a b s = (ucast (packToF32UI signZ 0 0), s)" if "f32_mag a = 0" "f32_finite b" "f32_mag b \<noteq> 0"
    using facts that unfolding unf by (simp split: prod.split)
qed

lemma f32_div_rounded:
  assumes "f32_finite a" "f32_finite b" "f32_mag b \<noteq> 0"
  shows "f32_rounded (signF32UI (ucast a) \<noteq> signF32UI (ucast b)) (f32_abs a / f32_abs b) s (f32_div a b s)"
proof (cases "f32_mag a = 0")
  case True
  have "\<not> f32_nan a" "\<not> f32_nan b" using assms f32_class(4) by blast+
  then show ?thesis
    using f32_div_special(6) [of a b s] True assms
    by (intro fp_rounded_exact [where n = 0]) (auto simp: f32_pack_zero f32_abs_def)
qed (use assms f32_div_rounded_nonzero in blast)

lemma f32_addMags_same_exp:
  assumes fin: "f32_finite a" "f32_finite b" and e: "expF32UI (ucast a) = expF32UI (ucast b)"
  shows "f32_rounded (signF32UI (ucast a)) (f32_abs a + f32_abs b) s (softfloat_addMagsF32 (ucast a) (ucast b) s)"
proof -
  let ?E = "expF32UI (ucast a)" and ?F = "unat (fracF32UI (ucast a))" and ?G = "unat (fracF32UI (ucast b))"
  note A = f32_asig [OF fin(1)] and B = f32_asig [OF fin(2), folded e]
  have sum: "f32_abs a + f32_abs b = real (f32_asig a + f32_asig b) * 2 powi (?E - 150)"
    unfolding A(1) B(1) by (simp add: algebra_simps)
  show ?thesis
  proof (cases "?E = 0")
    case True
    have mag: "f32_mag a = ?F" "f32_mag b = ?G"
      using True e f32_fields [of a] f32_fields [of b] by (simp_all add: div_eq_0_iff)
    have "unat (ucast (ucast a + fracF32UI (ucast b)) :: float32_t) = (unat a + ?G) mod 2 ^ 32"
      by (simp add: unat_ucast_mod [where 'b = 32] unat_word_ariths mod_mod_cancel unat_ucast_up)
    moreover have "unat a = of_bool (signF32UI (ucast a)) * 2 ^ 31 + ?F"
      using f32_decode [of a] by (simp only: mag)
    ultimately have "unat (ucast (ucast a + fracF32UI (ucast b)) :: float32_t) = of_bool (signF32UI (ucast a)) * 2 ^ 31 + (?F + ?G)"
      using A(4) B(4) by (simp split: split_of_bool)
    moreover have "softfloat_addMagsF32 (ucast a) (ucast b) s = (ucast (ucast a + fracF32UI (ucast b)), s)"
      unfolding softfloat_addMagsF32_def Let_def e [symmetric] True by (simp only: diff_self if_True simp_thms)
    moreover have "f32_abs a + f32_abs b = mag_val 23 (- 149) (0 * 2 ^ 23 + (?F + ?G))"
      using mag_val_scaled [of "?F + ?G" 23 0 "- 149"] A(4) B(4)
      by (simp add: f32_abs_def mag mag_val_def algebra_simps)
    ultimately show ?thesis
      using A(4) B(4) by (intro fp_rounded_exact [where n = "?F + ?G"]) simp_all
  next
    case False
    define sigZ where "sigZ = 0x01000000 + fracF32UI (ucast a) + fracF32UI (ucast b)"
    have sigZ: "unat sigZ = f32_asig a + f32_asig b" "2 ^ 24 \<le> unat sigZ" "unat sigZ < 2 ^ 25"
      unfolding sigZ_def using A(3,4) B(3,4) False
      by (simp_all add: unat_word_ariths)
    have eq: "softfloat_addMagsF32 (ucast a) (ucast b) s =
       (if sigZ AND 1 = 0 \<and> ?E < 0xFE then (ucast (packToF32UI (signF32UI (ucast a)) ?E (drop_bit 1 sigZ)), s)
        else softfloat_roundPackToF32 (signF32UI (ucast a)) ?E (push_bit 6 sigZ) s)"
    proof -
      have nf: "(?E = 0xFF) = False" "(?E = 0) = False" using False A(6) by simp_all
      show ?thesis unfolding softfloat_addMagsF32_def Let_def e [symmetric] sigZ_def diff_self nf by (simp only: if_True if_False simp_thms)
    qed
    show ?thesis
    proof (cases "sigZ AND 1 = 0 \<and> ?E < 0xFE")
      case True
      have "unat (sigZ AND 1) = unat sigZ mod 2 ^ 1" by (rule unat_and_mask) simp
      with True have "2 dvd unat sigZ" by (simp add: mod_eq_0_iff_dvd)
      then obtain h where h: "unat sigZ = 2 * h" by blast
      have d: "unat (drop_bit 1 sigZ) = h" unfolding unat_drop_bit_div h by simp
      have "nat ?E \<le> 253" using True by (auto simp: nat_le_iff)
      moreover have "f32_abs a + f32_abs b = real h * 2 powi (?E - 149)"
        unfolding sum sigZ(1) [symmetric] h using power_int_add [of "2::real" "?E - 150" 1] by simp
      ultimately show ?thesis
        unfolding eq if_P [OF True] using sigZ(2,3) h A(5)
        by (intro f32_pack_exact) (unfold d, simp_all)
    next
      case F: False
      have "f32_rounded (signF32UI (ucast a)) (real (unat sigZ) * 2 powi (- 149 + (?E + 6) - int 7)) s
          (softfloat_roundPackToF32 (signF32UI (ucast a)) (?E + 6 - int 6) (push_bit 6 sigZ) s)"
        using sigZ(2,3) A(5,6) by (intro f32.roundPack_shifted [OF same_cell_refl [of 0]]) simp_all
      then show ?thesis unfolding eq if_not_P [OF F] sum sigZ(1) [symmetric] by (simp add: add.commute)
    qed
  qed
qed

lemma f32_addMags_sum:
  assumes fin: "f32_finite a" "f32_finite b" and e: "expF32UI (ucast b) < expF32UI (ucast a)"
    and sigZ: "unat sigZ = f32_asig a * 2 ^ 6 + jam (nat (expF32UI (ucast a) - expF32UI (ucast b))) (f32_asig b * 2 ^ 6)"
  shows "f32_rounded sign (f32_abs a + f32_abs b) s
    (if sigZ < 0x40000000 then softfloat_roundPackToF32 sign (expF32UI (ucast a) - 1) (push_bit 1 sigZ) s
     else softfloat_roundPackToF32 sign (expF32UI (ucast a)) sigZ s)"
proof -
  define d where "d = nat (expF32UI (ucast a) - expF32UI (ucast b))"
  note A = f32_asig [OF fin(1)] and B = f32_asig [OF fin(2)]
  have asig: "2 ^ 23 \<le> f32_asig a" using A(3) B(5) e by auto
  have j: "jam d (f32_asig b * 2 ^ 6) \<le> 2 ^ 29"
  proof (rule jam_le)
    have "(2::nat) ^ 1 \<le> 2 ^ d" using e by (intro power_increasing) (simp_all add: d_def)
    then have "2 ^ 29 * 2 ^ 1 \<le> (2::nat) ^ 29 * 2 ^ d" by (rule mult_left_mono) simp
    moreover have "f32_asig b * 2 ^ 6 \<le> 2 ^ 29 * 2 ^ 1" using B(2) by simp
    ultimately show "f32_asig b * 2 ^ 6 \<le> 2 ^ 29 * 2 ^ d" by (rule order_trans [rotated])
  qed simp
  have cell: "same_cell 1 (real (f32_asig b * 2 ^ 6) / 2 ^ d + real (f32_asig a * 2 ^ 6)) (unat sigZ)"
    unfolding sigZ d_def [symmetric] One_nat_def add.commute [of "f32_asig a * 2 ^ 6"]
    by (intro same_cell_add jam_cell) simp
  have "f32_rounded sign ((real (f32_asig b * 2 ^ 6) / 2 ^ d + real (f32_asig a * 2 ^ 6)) * 2 powi (- 149 + expF32UI (ucast a) - int 7)) s
    (if unat sigZ < 2 ^ (23 + 7) then softfloat_roundPackToF32 sign (expF32UI (ucast a) - 1) (push_bit 1 sigZ) s
     else softfloat_roundPackToF32 sign (expF32UI (ucast a)) sigZ s)"
    using asig A(2,5,6) sigZ j by (intro f32.roundPack_one_short [OF cell]) (simp_all add: d_def [symmetric])
  moreover have "(real (f32_asig b * 2 ^ 6) / 2 ^ d + real (f32_asig a * 2 ^ 6)) * 2 powi (- 149 + expF32UI (ucast a) - int 7) =
      f32_abs a + f32_abs b"
  proof -
    have ea: "expF32UI (ucast a) = expF32UI (ucast b) + int d" using e by (simp add: d_def)
    show ?thesis unfolding A(1) B(1) ea by (simp add: power_int_add power_int_diff field_simps)
  qed
  ultimately show ?thesis by (simp add: word_less_nat_alt)
qed

lemma f32_addMags_word:
  assumes fin: "f32_finite a" "f32_finite b" and e: "expF32UI (ucast b) < expF32UI (ucast a)"
  shows "unat (0x20000000 + push_bit 6 (fracF32UI (ucast a)) +
      ucast (softfloat_shiftRightJam32
        (ucast (push_bit 6 (fracF32UI (ucast b)) +
           (if expF32UI (ucast b) \<noteq> 0 then 0x20000000 else push_bit 6 (fracF32UI (ucast b)))))
        (word_of_int (expF32UI (ucast a) - expF32UI (ucast b)))) :: uint_fast32_t) =
    f32_asig a * 2 ^ 6 + jam (nat (expF32UI (ucast a) - expF32UI (ucast b))) (f32_asig b * 2 ^ 6)"
    (is "unat (?x + ?y) = _ + ?j")
proof -
  note A = f32_asig [OF fin(1)] and B = f32_asig [OF fin(2)]
  have h: "6 \<le> (7::nat)" "unat (0x20000000 :: uint_fast32_t) = 2 ^ (23 + 6)" by simp_all
  have "expF32UI (ucast a) \<noteq> 0" using e B(5) by simp
  then have x: "unat ?x = f32_asig a * 2 ^ 6"
    using f32_aligned_word(1) [OF fin(1) h] by (simp only: add.commute not_False_eq_True if_True simp_thms)
  have y: "unat ?y = ?j"
    using e B(5) A(6) by (intro f32_shifted_word f32_aligned_word [OF fin(2) h]) simp_all
  have "?j \<le> 2 ^ 31"
    using B(2) by (intro jam_le) (simp_all add: less_imp_le le_trans [where j = "2 ^ 31 * 1"])
  then show ?thesis using A(2) x y by (subst unat_add_nowrap) simp_all
qed

lemma addMagsF32_rounded:
  assumes fin: "f32_finite a" "f32_finite b"
  shows "f32_rounded (signF32UI (ucast a)) (f32_abs a + f32_abs b) s (softfloat_addMagsF32 (ucast a) (ucast b) s)"
proof -
  let ?eA = "expF32UI (ucast a)" and ?eB = "expF32UI (ucast b)"
  have nf: "(?eA = 0xFF) = False" "(?eB = 0xFF) = False" using f32_asig(6) fin by fastforce+
  consider "?eA = ?eB" | "?eA < ?eB" | "?eB < ?eA" by linarith
  then show ?thesis
  proof cases
    case 1
    then show ?thesis by (intro f32_addMags_same_exp fin)
  next
    case 2
    have c: "(?eA - ?eB = 0) = False" "(?eA - ?eB < 0) = True" "- (?eA - ?eB) = ?eB - ?eA" using 2 by simp_all
    have ac: "0x20000000 + u + v = 0x20000000 + v + u" for u v :: uint_fast32_t by (simp only: ac_simps)
    show ?thesis
      unfolding softfloat_addMagsF32_def Let_def c nf if_False if_True
      unfolding ac [of "ucast _"] add.commute [of "f32_abs a"]
      by (rule f32_addMags_sum [OF fin(2,1) 2]) (rule f32_addMags_word [OF fin(2,1) 2])
  next
    case 3
    then have c: "(?eA - ?eB = 0) = False" "(?eA - ?eB < 0) = False" by simp_all
    show ?thesis
      unfolding softfloat_addMagsF32_def Let_def c nf if_False if_True
      by (rule f32_addMags_sum [OF fin 3]) (rule f32_addMags_word [OF fin 3])
  qed
qed

lemma f32_subMags_pack:
  assumes D: "0 < D" "D < 2 ^ 24" and E: "0 \<le> E" "E \<le> 253"
  defines "shiftDist \<equiv> uint (softfloat_countLeadingZeros32 (word_of_int D)) - 8"
  defines "r \<equiv> (if E - shiftDist < 0 then (E, 0) else (shiftDist, E - shiftDist))"
  shows "f32_rounded sign (real_of_int D * 2 powi (E - 149)) s
           (ucast (packToF32UI sign (snd r) (push_bit (nat (fst r)) (word_of_int D))), s)"
proof -
  define c where "c = unat (softfloat_countLeadingZeros32 (word_of_int D))"
  have w: "unat (word_of_int D :: uint32_t) = nat D" "unat (word_of_int D :: uint64_t) = nat D"
    using D by (simp_all add: unat_word_of_int)
  then have "(word_of_int D :: uint32_t) \<noteq> 0" using D(1) by (auto simp: word_unat_eq_iff)
  then have c: "c < 32" "2 ^ 31 \<le> nat D * 2 ^ c" "nat D * 2 ^ c < 2 ^ 32"
    using countLeadingZeros32_is_clz [of "word_of_int D"] unfolding is_clz_def w c_def by simp_all
  have c8: "8 \<le> c"
  proof (rule ccontr)
    assume "\<not> 8 \<le> c"
    then have "(2::nat) ^ c \<le> 2 ^ 7" by (intro power_increasing) simp_all
    then have "nat D * 2 ^ c \<le> nat D * 2 ^ 7" by (rule mult_left_mono) simp
    moreover have "nat D * 2 ^ 7 < 2 ^ 31" using D by simp
    ultimately show False using c(2) by (meson leD le_trans)
  qed
  define d where "d = c - 8"
  have P: "(2::nat) ^ c = 2 ^ d * 2 ^ 8" unfolding d_def using c8 by (rule pow2_split)
  have norm: "2 ^ 23 \<le> nat D * 2 ^ d" "nat D * 2 ^ d < 2 ^ 24" using c(2,3) unfolding P by simp_all
  have "uint (softfloat_countLeadingZeros32 (word_of_int D)) = int c" unfolding c_def by (rule uint_nat)
  then have sd: "shiftDist = int d" unfolding shiftDist_def d_def using c8 by simp
  define m where "m = (if E < int d then nat E else d)"
  have m: "nat (fst r) = m" "snd r = E - int m" "m \<le> d"
    unfolding r_def sd m_def using E by auto
  have "(2::nat) ^ m \<le> 2 ^ d" using m(3) by (intro power_increasing) simp_all
  then have "nat D * 2 ^ m \<le> nat D * 2 ^ d" by (rule mult_left_mono) simp
  with norm have b: "nat D * 2 ^ m < 2 ^ 24" by linarith
  have b2: "2 ^ 23 \<le> nat D * 2 ^ m \<or> E - int m = 0" using norm E unfolding m_def by auto
  have p: "unat (push_bit m (word_of_int D) :: uint64_t) = nat D * 2 ^ m"
    using b unfolding w(2) [symmetric] by (intro unat_push_bit_nowrap) simp
  have "real_of_int D * 2 powi (E - 149) = real (nat D * 2 ^ m) * 2 powi (E - int m - 149)"
    using scale_pow2 [of "E - 149" "E - int m - 149" m "real_of_int D"] D by simp
  moreover have "0 \<le> E - int m" "nat (E - int m) \<le> 253" using E unfolding m_def by auto
  ultimately show ?thesis
    unfolding m using b b2 by (intro f32_pack_exact) (unfold p, simp_all)
qed

lemma f32_subMags_same_exp:
  fixes s :: fp_state
  assumes fin: "f32_finite a" "f32_finite b" and e: "expF32UI (ucast a) = expF32UI (ucast b)"
  defines "sgnZ \<equiv> (if f32_abs a = f32_abs b then softfloat_roundingMode s = softfloat_round_min
                  else signF32UI (ucast a) = (f32_abs b < f32_abs a))"
  shows "f32_rounded sgnZ \<bar>f32_abs a - f32_abs b\<bar> s (softfloat_subMagsF32 (ucast a) (ucast b) s)"
proof -
  let ?E = "expF32UI (ucast a)" and ?sA = "signF32UI (ucast a)"
  define F G where "F = int (unat (fracF32UI (ucast a)))" and "G = int (unat (fracF32UI (ucast b)))"
  note A = f32_asig [OF fin(1)] and B = f32_asig [OF fin(2), folded e]
  define E' where "E' = (if ?E \<noteq> 0 then ?E - 1 else ?E)"
  have E': "0 \<le> E'" "E' \<le> 253" using A(5,6) by (auto simp: E'_def)
  have b: "0 \<le> F" "F < 2 ^ 23" "0 \<le> G" "G < 2 ^ 23" 
    using A(4) B(4) unfolding F_def G_def by (simp_all only: of_nat_0_le_iff of_nat_less_numeral_power_cancel_iff)
  have sd: "sint (fracF32UI (ucast a) - fracF32UI (ucast b)) = F - G"
    unfolding F_def G_def using A(4) B(4) by (intro sint_diff_small) simp_all
  have val: "f32_abs a - f32_abs b = real_of_int (F - G) * 2 powi (E' - 149)"
  proof (cases "?E = 0")
    case True
    then show ?thesis
      unfolding A(1) B(1) A(3) B(3) using scale_pow2 [of "- 149" "- 150" 1 "real_of_int (F - G)"]
      by (simp add: E'_def F_def G_def algebra_simps)
  next
    case False
    then show ?thesis unfolding A(1) B(1) A(3) B(3) by (simp add: E'_def F_def G_def algebra_simps)
  qed
  have pos: "0 < (2::real) powi (E' - 149)" by simp
  have cmp: "f32_abs a = f32_abs b \<longleftrightarrow> F - G = 0" "f32_abs b < f32_abs a \<longleftrightarrow> \<not> F - G < 0 \<and> F - G \<noteq> 0"
  proof -
    have "(f32_abs a - f32_abs b = 0) = (F - G = 0)" "(0 < f32_abs a - f32_abs b) = (0 < F - G)"
      unfolding val using mult_less_cancel_right_pos [OF pos, of 0] by (simp_all del: of_int_diff)
    then show "f32_abs a = f32_abs b \<longleftrightarrow> F - G = 0" "f32_abs b < f32_abs a \<longleftrightarrow> \<not> F - G < 0 \<and> F - G \<noteq> 0" by auto
  qed
  have nf: "(?E = 0xFF) = False" using A(6) by simp
  show ?thesis
  proof (cases "F - G = 0")
    case True
    then have "softfloat_subMagsF32 (ucast a) (ucast b) s = (ucast (packToF32UI sgnZ 0 0), s)"
      unfolding softfloat_subMagsF32_def Let_def e [symmetric] sd nf sgnZ_def cmp True diff_self
      by (simp only: if_True if_False simp_thms)
    moreover have "f32_rounded sgnZ 0 s (ucast (packToF32UI sgnZ 0 0), s)" by (intro f32_pack_exact) simp_all
    ultimately show ?thesis using cmp(1) True by simp
  next
    case False
    then have nz: "(F - G = 0) = False" by simp
    define D where "D = \<bar>F - G\<bar>"
    have D: "0 < D" "D < 2 ^ 24" using False b by (simp_all add: D_def)
    have sgnZ: "sgnZ \<longleftrightarrow> (if F - G < 0 then \<not> ?sA else ?sA)" unfolding sgnZ_def cmp using False by simp
    have eq: "(if F - G < 0 then (\<not> ?sA, - (F - G)) else (?sA, F - G)) = (sgnZ, D)"
      unfolding sgnZ D_def by auto
    have "f32_rounded sgnZ (real_of_int D * 2 powi (E' - 149)) s (softfloat_subMagsF32 (ucast a) (ucast b) s)"
      unfolding softfloat_subMagsF32_def Let_def e [symmetric] sd nf diff_self E'_def [symmetric] nz
      by (simp only: simp_thms if_True if_False eq case_prod_beta fst_conv snd_conv) (rule f32_subMags_pack [OF D E'])
    moreover have "\<bar>f32_abs a - f32_abs b\<bar> = real_of_int D * 2 powi (E' - 149)"
      unfolding val D_def by (simp add: abs_mult)
    ultimately show ?thesis by simp
  qed
qed

lemma f32_subMags_word:
  assumes fin: "f32_finite a" "f32_finite b" and e: "expF32UI (ucast b) < expF32UI (ucast a)"
  defines "d \<equiv> nat (expF32UI (ucast a) - expF32UI (ucast b))"
  shows "unat ((push_bit 7 (fracF32UI (ucast a)) OR 0x40000000) -
      ucast (softfloat_shiftRightJam32
        (ucast (push_bit 7 (fracF32UI (ucast b)) +
           (if expF32UI (ucast b) \<noteq> 0 then 0x40000000 else push_bit 7 (fracF32UI (ucast b)))))
        (word_of_int (expF32UI (ucast a) - expF32UI (ucast b)))) :: uint_fast32_t) =
    f32_asig a * 2 ^ 7 - jam d (f32_asig b * 2 ^ 7)" (is "unat (?x - ?y) = _")
    and "jam d (f32_asig b * 2 ^ 7) < f32_asig a * 2 ^ 7"
proof -
  note A = f32_asig [OF fin(1)] and B = f32_asig [OF fin(2)]
  have h: "7 \<le> (7::nat)" "unat (0x40000000 :: uint_fast32_t) = 2 ^ (23 + 7)" by simp_all
  have a: "f32_asig a = 2 ^ 23 + unat (fracF32UI (ucast a))" using A(3) e B(5) by simp
  have "unat (push_bit 7 (fracF32UI (ucast a))) = unat (fracF32UI (ucast a)) * 2 ^ 7"
    using A(4) by (intro unat_push_bit_nowrap) simp
  then have x: "unat ?x = f32_asig a * 2 ^ 7"
    using nat_or_hidden [of "unat (fracF32UI (ucast a)) * 2 ^ 7" 30] A(4) by (simp add: unat_or_distrib a)
  have y: "unat ?y = jam d (f32_asig b * 2 ^ 7)"
    unfolding d_def using e B(5) A(6) by (intro f32_shifted_word f32_aligned_word [OF fin(2) h]) simp_all
  show lt: "jam d (f32_asig b * 2 ^ 7) < f32_asig a * 2 ^ 7"
  proof -
    have "(2::nat) ^ 1 \<le> 2 ^ d" using e by (intro power_increasing) (simp_all add: d_def)
    then have "2 ^ 30 * 2 ^ 1 \<le> (2::nat) ^ 30 * 2 ^ d" by (rule mult_left_mono) simp
    moreover have "f32_asig b * 2 ^ 7 < 2 ^ 30 * 2 ^ 1" using B(2) by simp
    ultimately have "jam d (f32_asig b * 2 ^ 7) < 2 ^ 30" by (subst jam_even_less) simp_all
    then show ?thesis by (simp add: a)
  qed
  then show "unat (?x - ?y) = f32_asig a * 2 ^ 7 - jam d (f32_asig b * 2 ^ 7)"
    unfolding x [symmetric] y [symmetric] by (intro unat_diff_nowrap) simp
qed

lemma f32_subMags_diff:
  assumes fin: "f32_finite a" "f32_finite b" and e: "expF32UI (ucast b) < expF32UI (ucast a)"
    and sig: "unat sig = f32_asig a * 2 ^ 7 - jam (nat (expF32UI (ucast a) - expF32UI (ucast b))) (f32_asig b * 2 ^ 7)"
  shows "f32_rounded sign (f32_abs a - f32_abs b) s (softfloat_normRoundPackToF32 sign (expF32UI (ucast a) - 1) sig s)"
proof -
  define d where "d = nat (expF32UI (ucast a) - expF32UI (ucast b))"
  note A = f32_asig [OF fin(1)] and B = f32_asig [OF fin(2)]
  have asig: "2 ^ 23 \<le> f32_asig a" using A(3) B(5) e by auto
  note lt = f32_subMags_word(2) [OF fin e, folded d_def]
  define y where "y = real (f32_asig a * 2 ^ 7) - real (f32_asig b * 2 ^ 7) / 2 ^ d"
  have "y = real (unat sig) \<or> same_cell 1 y (unat sig) \<and> 2 ^ 29 \<le> unat sig"
  proof (cases "d = 1")
    case True
    have "jam d (f32_asig b * 2 ^ 7) = f32_asig b * 2 ^ 6" unfolding True by (subst jam_def) simp
    then have "y = real (unat sig)" using lt unfolding sig d_def [symmetric] y_def True by (simp add: of_nat_diff)
    then show ?thesis ..
  next
    case False
    with e have "2 \<le> d" by (auto simp: d_def)
    then have "(2::nat) ^ 2 \<le> 2 ^ d" by (intro power_increasing) simp_all
    then have "2 ^ 29 * 2 ^ 2 \<le> (2::nat) ^ 29 * 2 ^ d" by (rule mult_left_mono) simp
    moreover have "f32_asig b * 2 ^ 7 < 2 ^ 29 * 2 ^ 2" using B(2) by simp
    ultimately have "jam d (f32_asig b * 2 ^ 7) < 2 ^ 29" by (subst jam_even_less) simp_all
    then have "2 ^ 29 \<le> unat sig" unfolding sig d_def [symmetric] using asig by simp
    moreover have "same_cell 1 y (unat sig)"
      unfolding y_def sig d_def [symmetric] One_nat_def using lt by (intro same_cell_sub jam_cell) simp_all
    ultimately show ?thesis by simp
  qed
  moreover have "sig \<noteq> 0" using lt unfolding d_def sig [symmetric] 
    by (metis sig zero_less_diff unat_0 less_irrefl)
  moreover have "unat sig < 2 ^ 31" unfolding sig using A(2) by simp
  moreover have "f32_abs a - f32_abs b = y * 2 powi (expF32UI (ucast a) - 1 - 156)"
  proof -
    have ea: "expF32UI (ucast a) = expF32UI (ucast b) + int d" using e by (simp add: d_def)
    show ?thesis unfolding A(1) B(1) ea y_def by (simp add: power_int_add power_int_diff field_simps)
  qed
  ultimately show ?thesis using A(5,6) by (intro normRoundPackToF32_rounded) simp_all
qed

lemma subMagsF32_rounded:
  fixes s :: fp_state
  assumes fin: "f32_finite a" "f32_finite b"
  defines "sgnZ \<equiv> (if f32_abs a = f32_abs b then softfloat_roundingMode s = softfloat_round_min
                  else signF32UI (ucast a) = (f32_abs b < f32_abs a))"
  shows "f32_rounded sgnZ \<bar>f32_abs a - f32_abs b\<bar> s (softfloat_subMagsF32 (ucast a) (ucast b) s)"
proof -
  let ?eA = "expF32UI (ucast a)" and ?eB = "expF32UI (ucast b)"
  have nf: "(?eA = 0xFF) = False" "(?eB = 0xFF) = False" using f32_asig(6) fin by fastforce+
  consider "?eA = ?eB" | "?eA < ?eB" | "?eB < ?eA" by linarith
  then show ?thesis
  proof cases
    case 1
    then show ?thesis unfolding sgnZ_def by (intro f32_subMags_same_exp fin)
  next
    case 2
    have lt: "f32_abs a < f32_abs b" using f32_abs_less_exp [OF fin(2,1) 2] .
    have c: "(?eA - ?eB = 0) = False" "(?eA - ?eB < 0) = True" "- (?eA - ?eB) = ?eB - ?eA" using 2 by simp_all
    have x: "\<bar>f32_abs a - f32_abs b\<bar> = f32_abs b - f32_abs a" "sgnZ = (\<not> signF32UI (ucast a))"
      using lt by (simp_all add: sgnZ_def)
    show ?thesis
      unfolding softfloat_subMagsF32_def Let_def c nf if_False if_True x
      by (rule f32_subMags_diff [OF fin(2,1) 2]) (rule f32_subMags_word(1) [OF fin(2,1) 2])
  next
    case 3
    have lt: "f32_abs b < f32_abs a" using f32_abs_less_exp [OF fin 3] .
    from 3 have c: "(?eA - ?eB = 0) = False" "(?eA - ?eB < 0) = False" by simp_all
    have x: "\<bar>f32_abs a - f32_abs b\<bar> = f32_abs a - f32_abs b" "sgnZ = signF32UI (ucast a)"
      using lt by (simp_all add: sgnZ_def)
    show ?thesis
      unfolding softfloat_subMagsF32_def Let_def c nf if_False if_True x
      by (rule f32_subMags_diff [OF fin 3]) (rule f32_subMags_word(1) [OF fin 3])
  qed
qed

lemma f32_add_sub_rounded:
  assumes fin: "f32_finite a" "f32_finite b"
  defines "sA \<equiv> signF32UI (ucast a)" and "sB \<equiv> signF32UI (ucast b)"
  shows f32_add_rounded:
    "f32_rounded (sum_sign (softfloat_roundingMode s) sA sB (f32_val a + f32_val b)) \<bar>f32_val a + f32_val b\<bar> s (f32_add a b s)"
  and f32_sub_rounded:
    "f32_rounded (sum_sign (softfloat_roundingMode s) sA (\<not> sB) (f32_val a - f32_val b)) \<bar>f32_val a - f32_val b\<bar> s (f32_sub a b s)"
proof -
  note pos = f32_abs_nonneg [of a] f32_abs_nonneg [of b]
  have sub: "f32_rounded (sum_sign (softfloat_roundingMode s) sA (\<not> sA) v) \<bar>v\<bar> s (softfloat_subMagsF32 (ucast a) (ucast b) s)"
    if "v = (if sA then f32_abs b - f32_abs a else f32_abs a - f32_abs b)" for v
  proof -
    have "\<bar>v\<bar> = \<bar>f32_abs a - f32_abs b\<bar>" using that by auto
    moreover have "sum_sign (softfloat_roundingMode s) sA (\<not> sA) v = 
       (if f32_abs a = f32_abs b then softfloat_roundingMode s = softfloat_round_min
                  else signF32UI (ucast a) = (f32_abs b < f32_abs a))"
      using that unfolding sum_sign_def sA_def by auto
    ultimately show ?thesis using subMagsF32_rounded [OF fin, of s] by (simp only:)
  qed
  have add: "f32_rounded (sum_sign (softfloat_roundingMode s) sA sA v) \<bar>v\<bar> s (softfloat_addMagsF32 (ucast a) (ucast b) s)"
    if "v = (if sA then - (f32_abs a + f32_abs b) else f32_abs a + f32_abs b)" for v
  proof -
    have "0 \<le> f32_abs a + f32_abs b" using pos by simp
    then have "\<bar>v\<bar> = f32_abs a + f32_abs b" "sum_sign (softfloat_roundingMode s) sA sA v = sA"
      unfolding that sum_sign_def by auto
    then show ?thesis using addMagsF32_rounded [OF fin, of s] unfolding sA_def by (simp only:)
  qed
  show "f32_rounded (sum_sign (softfloat_roundingMode s) sA sB (f32_val a + f32_val b)) \<bar>f32_val a + f32_val b\<bar> s (f32_add a b s)"
  proof (cases "sA = sB")
    case True
    then show ?thesis using add [of "f32_val a + f32_val b"]
      unfolding f32_add_def Let_def signF32UI_xor f32_val_def sA_def sB_def by auto
  next
    case False
    then have "sB = (\<not> sA)" by blast
    then show ?thesis using sub [of "f32_val a + f32_val b"]
      unfolding f32_add_def Let_def signF32UI_xor f32_val_def sA_def sB_def by auto
  qed
  show "f32_rounded (sum_sign (softfloat_roundingMode s) sA (\<not> sB) (f32_val a - f32_val b)) \<bar>f32_val a - f32_val b\<bar> s (f32_sub a b s)"
  proof (cases "sA = sB")
    case True
    then show ?thesis using sub [of "f32_val a - f32_val b"]
      unfolding f32_sub_def Let_def signF32UI_xor f32_val_def sA_def sB_def by auto
  next
    case False
    then have "(\<not> sB) = sA" by blast
    then show ?thesis using add [of "f32_val a - f32_val b"]
      unfolding f32_sub_def Let_def signF32UI_xor f32_val_def sA_def sB_def by auto
  qed
qed

lemma f32_push_nz:
  assumes "\<not> f32_finite a" "j \<le> 7"
  shows "push_bit j (fracF32UI (ucast a)) \<noteq> 0 \<longleftrightarrow> f32_nan a"
proof -
  have "unat (push_bit j (fracF32UI (ucast a))) = unat (fracF32UI (ucast a)) * 2 ^ j"
  proof (rule unat_push_bit_nowrap)
    have "(2::nat) ^ j \<le> 2 ^ 7" using assms(2) by (intro power_increasing) simp_all
    then have "unat (fracF32UI (ucast a)) * 2 ^ j \<le> 2 ^ 23 * 2 ^ 7"
      by (intro mult_mono) (simp_all add: f32_fields less_imp_le)
    then show "unat (fracF32UI (ucast a)) * 2 ^ j < 2 ^ LENGTH(64)" by simp
  qed
  then have "push_bit j (fracF32UI (ucast a)) \<noteq> 0 \<longleftrightarrow> fracF32UI (ucast a) \<noteq> 0"
    by (metis mult_is_0 power_not_zero unat_eq_zero zero_neq_numeral)
  then show ?thesis using f32_class(2) [OF assms(1)] by blast
qed

lemma f32_mags_nan:
  assumes "f32_nan a \<or> f32_nan b"
  defines "r \<equiv> \<lambda>s. (0x7FC00000 :: float32_t, if f32_snan a \<or> f32_snan b then softfloat_raiseFlags softfloat_flag_invalid s else s)"
  shows "softfloat_addMagsF32 (ucast a) (ucast b) s = r s" "softfloat_subMagsF32 (ucast a) (ucast b) s = r s"
proof -
  consider "\<not> f32_finite a" "\<not> f32_finite b" | "f32_finite a" "\<not> f32_finite b" "f32_nan b"
    | "\<not> f32_finite a" "f32_finite b" "f32_nan a"
    using assms(1) f32_class(4) by blast
  then have "softfloat_addMagsF32 (ucast a) (ucast b) s = r s \<and> softfloat_subMagsF32 (ucast a) (ucast b) s = r s"
  proof cases
    case 1
    then have e: "expF32UI (ucast a) = 0xFF" "expF32UI (ucast b) = 0xFF" by (simp_all add: f32_class(1))
    have "(fracF32UI (ucast a) OR fracF32UI (ucast b) \<noteq> 0) = True"
      using 1 assms(1) f32_class(2) by (simp add: or_eq_0_iff)
    then show ?thesis
      unfolding softfloat_addMagsF32_def softfloat_subMagsF32_def Let_def propagateNaNF32_result e r_def by simp
  next
    case 2
    note * = f32_exp_less [OF 2(1,2)] f32_class(1) f32_push_nz [OF 2(2)]
    show ?thesis
      unfolding softfloat_addMagsF32_def softfloat_subMagsF32_def Let_def propagateNaNF32_result r_def
      using * 2 by simp
  next
    case 3
    note * = f32_exp_less [OF 3(2,1)] f32_class(1) f32_push_nz [OF 3(1)]
    show ?thesis
      unfolding softfloat_addMagsF32_def softfloat_subMagsF32_def Let_def propagateNaNF32_result r_def
      using * 3 by simp
  qed
  then show "softfloat_addMagsF32 (ucast a) (ucast b) s = r s" "softfloat_subMagsF32 (ucast a) (ucast b) s = r s" by blast+
qed

lemma f32_add_nan:
  assumes "f32_nan a \<or> f32_nan b"
  shows "f32_add a b s =
    (0x7FC00000, if f32_snan a \<or> f32_snan b then softfloat_raiseFlags softfloat_flag_invalid s else s)"
  and "f32_sub a b s =
    (0x7FC00000, if f32_snan a \<or> f32_snan b then softfloat_raiseFlags softfloat_flag_invalid s else s)"
  unfolding f32_add_def f32_sub_def Let_def f32_mags_nan [OF assms] by simp_all

text \<open>An infinite operand: the infinity itself, or an invalid operation for infinities that cancel.\<close>

lemma f32_mags_inf:
  assumes nn: "\<not> f32_nan a" "\<not> f32_nan b" and i: "f32_inf a \<or> f32_inf b"
  shows "softfloat_addMagsF32 (ucast a) (ucast b) s =
      (if f32_inf a then a else ucast (packToF32UI (signF32UI (ucast a)) 0xFF 0), s)"
    and "softfloat_subMagsF32 (ucast a) (ucast b) s =
      (if f32_inf a \<and> f32_inf b then (0x7FC00000, softfloat_raiseFlags softfloat_flag_invalid s)
       else (if f32_inf a then a else ucast (packToF32UI (\<not> signF32UI (ucast a)) 0xFF 0), s))"
proof -
  have a: "ucast (ucast a :: uint_fast32_t) = a"
    using unat_less_pow2 [of a] by (simp add: word_unat_eq_iff unat_ucast_mod [where 'b = 32] unat_ucast_up)
  consider "\<not> f32_finite a" "\<not> f32_finite b" | "f32_finite a" "\<not> f32_finite b" "f32_inf b"
    | "\<not> f32_finite a" "f32_finite b" "f32_inf a"
    using i f32_class(3) by blast
  then have "softfloat_addMagsF32 (ucast a) (ucast b) s =
      (if f32_inf a then a else ucast (packToF32UI (signF32UI (ucast a)) 0xFF 0), s) \<and>
    softfloat_subMagsF32 (ucast a) (ucast b) s =
      (if f32_inf a \<and> f32_inf b then (0x7FC00000, softfloat_raiseFlags softfloat_flag_invalid s)
       else (if f32_inf a then a else ucast (packToF32UI (\<not> signF32UI (ucast a)) 0xFF 0), s))"
  proof cases
    case 1
    then have e: "expF32UI (ucast a) = 0xFF" "expF32UI (ucast b) = 0xFF" by (simp_all add: f32_class(1))
    have "(fracF32UI (ucast a) OR fracF32UI (ucast b) \<noteq> 0) = False" "f32_inf a" "f32_inf b"
      using 1 nn f32_class(2,5) by (simp_all add: or_eq_0_iff)
    then show ?thesis
      unfolding softfloat_addMagsF32_def softfloat_subMagsF32_def Let_def e defaultNaNF32UI_def by (simp add: a)
  next
    case 2
    note * = f32_exp_less [OF 2(1,2)] f32_class(1) f32_push_nz [OF 2(2)] f32_class(3)
    show ?thesis
      unfolding softfloat_addMagsF32_def softfloat_subMagsF32_def Let_def using * 2 nn by auto
  next
    case 3
    note * = f32_exp_less [OF 3(2,1)] f32_class(1) f32_push_nz [OF 3(1)] f32_class(3)
    show ?thesis
      unfolding softfloat_addMagsF32_def softfloat_subMagsF32_def Let_def using * 3 nn a by auto
  qed
  then show "softfloat_addMagsF32 (ucast a) (ucast b) s =
      (if f32_inf a then a else ucast (packToF32UI (signF32UI (ucast a)) 0xFF 0), s)"
    and "softfloat_subMagsF32 (ucast a) (ucast b) s =
      (if f32_inf a \<and> f32_inf b then (0x7FC00000, softfloat_raiseFlags softfloat_flag_invalid s)
       else (if f32_inf a then a else ucast (packToF32UI (\<not> signF32UI (ucast a)) 0xFF 0), s))" by blast+
qed

lemma f32_add_inf:
  assumes "\<not> f32_nan a" "\<not> f32_nan b" "f32_inf a \<or> f32_inf b"
  shows "f32_add a b s =
    (if f32_inf a \<and> f32_inf b \<and> signF32UI (ucast a) \<noteq> signF32UI (ucast b)
     then (0x7FC00000, softfloat_raiseFlags softfloat_flag_invalid s)
     else (if f32_inf a then a else b, s))"
  using assms(3) f32_inf_eq [of b] unfolding f32_add_def Let_def signF32UI_xor f32_mags_inf [OF assms] by auto

lemma f32_sub_inf:
  assumes "\<not> f32_nan a" "\<not> f32_nan b" "f32_inf a \<or> f32_inf b"
  shows "f32_sub a b s = (if f32_inf a \<and> f32_inf b \<and> signF32UI (ucast a) = signF32UI (ucast b)
    then (0x7FC00000, softfloat_raiseFlags softfloat_flag_invalid s)
    else (if f32_inf a then a else ucast (packToF32UI (\<not> signF32UI (ucast b)) 0xFF 0), s))"
  using assms(3) unfolding f32_sub_def Let_def signF32UI_xor f32_mags_inf [OF assms] by auto

lemma f32_div_edges:
  assumes nn: "\<not> f32_nan a" "\<not> f32_nan b" and h: "f32_inf a \<or> f32_inf b \<or> f32_mag b = 0"
  defines "signZ \<equiv> signF32UI (ucast a) \<noteq> signF32UI (ucast b)"
  shows "f32_div a b s =
    (if f32_inf a \<and> f32_inf b \<or> f32_mag a = 0 \<and> f32_mag b = 0
     then (0x7FC00000, softfloat_raiseFlags softfloat_flag_invalid s)
     else if f32_inf b then (ucast (packToF32UI signZ 0 0), s)
     else (ucast (packToF32UI signZ 0xFF 0), if f32_inf a then s else softfloat_raiseFlags softfloat_flag_infinite s))"
proof -
  have fin: "f32_inf c \<or> f32_finite c \<and> \<not> f32_inf c" if "\<not> f32_nan c" for c
    using that f32_class(3,5) by blast
  have inf: "f32_inf c \<Longrightarrow> f32_mag c \<noteq> 0" for c by (simp add: f32_inf_def)
  consider "f32_inf a" "f32_inf b" | "f32_inf a" "\<not> f32_inf b" "f32_finite b" | "\<not> f32_inf a" "f32_finite a" "f32_inf b"
    | "\<not> f32_inf a" "\<not> f32_inf b" "f32_finite a" "f32_mag b = 0"
    using h fin [OF nn(1)] fin [OF nn(2)] by argo
  then show ?thesis
    unfolding signZ_def
    by cases (use f32_div_special [OF nn, of s] inf in \<open>simp; blast?\<close>)+
qed

section \<open>Properties\<close>

text \<open>C12. \<open>f32_add\<close> and \<open>f32_sub\<close> of finite operands deliver the exact sum and difference of their values, correctly
  rounded in the current rounding mode, with the sign IEEE 754 prescribes for a zero result and exactly the flags
  overflow, underflow and inexact that the exact result calls for.\<close>

theorem f32_add_sub_correct:
  assumes "f32_finite a" "f32_finite b"
  shows "f32_rounded
    (sum_sign (softfloat_roundingMode s) (signF32UI (ucast a)) (signF32UI (ucast b)) (f32_val a + f32_val b))
    \<bar>f32_val a + f32_val b\<bar> s (f32_add a b s) \<and>
    f32_rounded
    (sum_sign (softfloat_roundingMode s) (signF32UI (ucast a)) (\<not> signF32UI (ucast b)) (f32_val a - f32_val b))
    \<bar>f32_val a - f32_val b\<bar> s (f32_sub a b s)"
  using f32_add_rounded [OF assms] f32_sub_rounded [OF assms] by (rule conjI)

theorem f32_add_sub_correct_witness:
  "f32_finite 0x3F800000 \<and> f32_finite 0x33800001 \<and>
   f32_rounded (sum_sign (softfloat_roundingMode softfloat_init) (signF32UI (ucast (0x3F800000 :: float32_t)))
       (signF32UI (ucast (0x33800001 :: float32_t))) (f32_val 0x3F800000 + f32_val 0x33800001))
     \<bar>f32_val 0x3F800000 + f32_val 0x33800001\<bar> softfloat_init (f32_add 0x3F800000 0x33800001 softfloat_init) \<and>
   f32_add 0x3F800000 0x33800001 softfloat_init =
     (0x3F800001, softfloat_raiseFlags softfloat_flag_inexact softfloat_init)"
proof (intro conjI)
  show fin: "f32_finite 0x3F800000" "f32_finite 0x33800001" by (simp_all add: f32_finite_def f32_mag_def)
  show "f32_rounded (sum_sign (softfloat_roundingMode softfloat_init) (signF32UI (ucast (0x3F800000 :: float32_t)))
       (signF32UI (ucast (0x33800001 :: float32_t))) (f32_val 0x3F800000 + f32_val 0x33800001))
     \<bar>f32_val 0x3F800000 + f32_val 0x33800001\<bar> softfloat_init (f32_add 0x3F800000 0x33800001 softfloat_init)"
    using f32_add_sub_correct [OF fin] by (rule conjunct1)
qed code_simp

text \<open>C13. \<open>f32_mul\<close> and \<open>f32_div\<close> of finite operands deliver the correctly rounded exact product and, for a nonzero divisor, quotient, signed
  by the exclusive or of the operand signs, with their flags.\<close>

theorem f32_mul_div_correct:
  assumes "f32_finite a" "f32_finite b"
  shows "f32_rounded (signF32UI (ucast a) \<noteq> signF32UI (ucast b)) (f32_abs a * f32_abs b) s (f32_mul a b s) \<and>
    (f32_mag b \<noteq> 0 \<longrightarrow> f32_rounded (signF32UI (ucast a) \<noteq> signF32UI (ucast b)) (f32_abs a / f32_abs b) s (f32_div a b s))"
  using f32_mul_rounded [OF assms] f32_div_rounded [OF assms] by blast

theorem f32_mul_div_correct_witness:
  "(f32_rounded (signF32UI (ucast (0xBF800001 :: float32_t)) \<noteq> signF32UI (ucast (0x00000001 :: float32_t)))
     (f32_abs 0xBF800001 * f32_abs 0x00000001) softfloat_init (f32_mul 0xBF800001 0x00000001 softfloat_init) \<and>
   f32_rounded (signF32UI (ucast (0x3F800000 :: float32_t)) \<noteq> signF32UI (ucast (0x40400000 :: float32_t)))
     (f32_abs 0x3F800000 / f32_abs 0x40400000) softfloat_init (f32_div 0x3F800000 0x40400000 softfloat_init)) \<and>
   f32_mul 0xBF800001 0x00000001 softfloat_init =
     (0x80000001, softfloat_raiseFlags (softfloat_flag_inexact OR softfloat_flag_underflow) softfloat_init) \<and>
   f32_div 0x3F800000 0x40400000 softfloat_init =
     (0x3EAAAAAB, softfloat_raiseFlags softfloat_flag_inexact softfloat_init)"
proof (intro conjI)
  have fin: "f32_finite 0xBF800001" "f32_finite 0x00000001" "f32_finite 0x3F800000" "f32_finite 0x40400000" "f32_mag 0x40400000 \<noteq> 0"
    by (simp_all add: f32_finite_def f32_mag_def)
  show "f32_rounded (signF32UI (ucast (0xBF800001 :: float32_t)) \<noteq> signF32UI (ucast (0x00000001 :: float32_t)))
     (f32_abs 0xBF800001 * f32_abs 0x00000001) softfloat_init (f32_mul 0xBF800001 0x00000001 softfloat_init)"
    using f32_mul_div_correct [OF fin(1,2)] by blast
  show "f32_rounded (signF32UI (ucast (0x3F800000 :: float32_t)) \<noteq> signF32UI (ucast (0x40400000 :: float32_t)))
     (f32_abs 0x3F800000 / f32_abs 0x40400000) softfloat_init (f32_div 0x3F800000 0x40400000 softfloat_init)"
    using f32_mul_div_correct [OF fin(3,4)] fin(5) by blast
qed code_simp+

lemma f32_arith_nan:
  assumes "f32_nan a \<or> f32_nan b" and "op \<in> {f32_add, f32_sub, f32_mul, f32_div}"
  shows "op a b s =
    (0x7FC00000, if f32_snan a \<or> f32_snan b then softfloat_raiseFlags softfloat_flag_invalid s else s)"
  using assms f32_add_nan f32_mul_nan f32_div_nan by auto

lemma f32_arith_special:
  assumes "\<not> f32_nan a" "\<not> f32_nan b"
  shows "(f32_inf a \<or> f32_inf b \<longrightarrow>
            f32_add a b s = (if f32_inf a \<and> f32_inf b \<and> signF32UI (ucast a) \<noteq> signF32UI (ucast b)
                             then (0x7FC00000, softfloat_raiseFlags softfloat_flag_invalid s)
                             else (if f32_inf a then a else b, s)) \<and>
            f32_sub a b s = (if f32_inf a \<and> f32_inf b \<and> signF32UI (ucast a) = signF32UI (ucast b)
                             then (0x7FC00000, softfloat_raiseFlags softfloat_flag_invalid s)
                             else (if f32_inf a then a else ucast (packToF32UI (\<not> signF32UI (ucast b)) 0xFF 0), s)) \<and>
            f32_mul a b s = (if f32_mag a = 0 \<or> f32_mag b = 0
                             then (0x7FC00000, softfloat_raiseFlags softfloat_flag_invalid s)
                             else (ucast (packToF32UI (signF32UI (ucast a) \<noteq> signF32UI (ucast b)) 0xFF 0), s))) \<and>
         (f32_inf a \<or> f32_inf b \<or> f32_mag b = 0 \<longrightarrow>
            f32_div a b s =
              (if f32_inf a \<and> f32_inf b \<or> f32_mag a = 0 \<and> f32_mag b = 0
               then (0x7FC00000, softfloat_raiseFlags softfloat_flag_invalid s)
               else if f32_inf b then (ucast (packToF32UI (signF32UI (ucast a) \<noteq> signF32UI (ucast b)) 0 0), s)
               else (ucast (packToF32UI (signF32UI (ucast a) \<noteq> signF32UI (ucast b)) 0xFF 0),
                     if f32_inf a then s else softfloat_raiseFlags softfloat_flag_infinite s)))"
  using f32_add_inf [OF assms, of s] f32_sub_inf [OF assms, of s] f32_mul_inf [OF assms, of s] f32_div_edges [OF assms, of s] by argo

text \<open>C14. Exceptional operands of the single-precision operations. A NaN operand of \<open>f32_add\<close>, \<open>f32_sub\<close>, \<open>f32_mul\<close> or \<open>f32_div\<close> gives the
  canonical NaN, and the invalid flag is raised exactly when an operand is a signaling NaN. An infinity is delivered exactly with the sign
  IEEE 754 prescribes; infinities that cancel, zero times infinity, infinity over infinity and zero over zero are invalid operations,
  and a finite nonzero number over zero raises the divide-by-zero flag.\<close>

theorem f32_arith_exceptional:
  "(f32_nan a \<or> f32_nan b \<longrightarrow>
     (\<forall>op \<in> {f32_add, f32_sub, f32_mul, f32_div}. op a b s =
       (0x7FC00000, if f32_snan a \<or> f32_snan b then softfloat_raiseFlags softfloat_flag_invalid s else s))) \<and>
   (\<not> f32_nan a \<and> \<not> f32_nan b \<longrightarrow>
         (f32_inf a \<or> f32_inf b \<longrightarrow>
            f32_add a b s = (if f32_inf a \<and> f32_inf b \<and> signF32UI (ucast a) \<noteq> signF32UI (ucast b)
                             then (0x7FC00000, softfloat_raiseFlags softfloat_flag_invalid s)
                             else (if f32_inf a then a else b, s)) \<and>
            f32_sub a b s = (if f32_inf a \<and> f32_inf b \<and> signF32UI (ucast a) = signF32UI (ucast b)
                             then (0x7FC00000, softfloat_raiseFlags softfloat_flag_invalid s)
                             else (if f32_inf a then a else ucast (packToF32UI (\<not> signF32UI (ucast b)) 0xFF 0), s)) \<and>
            f32_mul a b s = (if f32_mag a = 0 \<or> f32_mag b = 0
                             then (0x7FC00000, softfloat_raiseFlags softfloat_flag_invalid s)
                             else (ucast (packToF32UI (signF32UI (ucast a) \<noteq> signF32UI (ucast b)) 0xFF 0), s))) \<and>
         (f32_inf a \<or> f32_inf b \<or> f32_mag b = 0 \<longrightarrow>
            f32_div a b s =
              (if f32_inf a \<and> f32_inf b \<or> f32_mag a = 0 \<and> f32_mag b = 0
               then (0x7FC00000, softfloat_raiseFlags softfloat_flag_invalid s)
               else if f32_inf b then (ucast (packToF32UI (signF32UI (ucast a) \<noteq> signF32UI (ucast b)) 0 0), s)
               else (ucast (packToF32UI (signF32UI (ucast a) \<noteq> signF32UI (ucast b)) 0xFF 0),
                     if f32_inf a then s else softfloat_raiseFlags softfloat_flag_infinite s))))"
  using f32_arith_nan [of a b _ s] f32_arith_special [of a b s] by blast

theorem f32_arith_exceptional_witness:
  "f32_mul 0x7F800001 0x3F800000 softfloat_init = (0x7FC00000, softfloat_raiseFlags softfloat_flag_invalid softfloat_init) \<and>
   f32_add 0x7F800000 0xFF800000 softfloat_init = (0x7FC00000, softfloat_raiseFlags softfloat_flag_invalid softfloat_init) \<and>
   f32_div 0x3F800000 0 softfloat_init =
     (ucast (packToF32UI False 0xFF 0), softfloat_raiseFlags softfloat_flag_infinite softfloat_init)"
  using f32_arith_exceptional [of "0x7F800001" "0x3F800000" softfloat_init] f32_arith_exceptional [of "0x7F800000" "0xFF800000" softfloat_init]
    f32_arith_exceptional [of "0x3F800000" 0 softfloat_init]
  by (simp add: f32_nan_def f32_snan_def f32_inf_def f32_mag_def signF32UI_def)

end
