(* ===== verification/Softfloat_F64.thy ===== *)
theory Softfloat_F64
  imports Round_Pack
begin

text \<open>
  Double precision (\<^verbatim>\<open>softfloat/f64_*.c\<close>, \<^verbatim>\<open>softfloat/s_*F64*.c\<close>): the field macros, NaN
  propagation, normalisation, rounding and packing, and the arithmetic operations. A
  \<open>float64_t\<close> is its 64-bit pattern. A C \<open>goto\<close> to a label is a call of the local function of
  that name.
\<close>

type_synonym float64_t = uint64_t

section \<open>Fields, NaNs and normalisation\<close>

definition signF64UI :: "uint_fast64_t \<Rightarrow> bool" where
  "signF64UI a = (drop_bit 63 a \<noteq> 0)"

definition expF64UI :: "uint_fast64_t \<Rightarrow> int" where
  "expF64UI a = uint (drop_bit 52 a AND 0x7FF)"

definition fracF64UI :: "uint_fast64_t \<Rightarrow> uint_fast64_t" where
  "fracF64UI a = a AND 0x000FFFFFFFFFFFFF"

definition packToF64UI :: "bool \<Rightarrow> int \<Rightarrow> uint_fast64_t \<Rightarrow> uint64_t" where
  "packToF64UI sign expn sig = push_bit 63 (of_bool sign) + push_bit 52 (word_of_int expn) + sig"

definition isNaNF64UI :: "uint_fast64_t \<Rightarrow> bool" where
  "isNaNF64UI a \<longleftrightarrow> NOT a AND 0x7FF0000000000000 = 0 \<and> a AND 0x000FFFFFFFFFFFFF \<noteq> 0"

definition softfloat_isSigNaNF64UI :: "uint_fast64_t \<Rightarrow> bool" where
  "softfloat_isSigNaNF64UI uiA \<longleftrightarrow>
     uiA AND 0x7FF8000000000000 = 0x7FF0000000000000 \<and> uiA AND 0x0007FFFFFFFFFFFF \<noteq> 0"

definition defaultNaNF64UI :: uint_fast64_t where
  "defaultNaNF64UI = 0x7FF8000000000000"

definition softfloat_propagateNaNF64UI ::
  "uint_fast64_t \<Rightarrow> uint_fast64_t \<Rightarrow> fp_state \<Rightarrow> uint_fast64_t \<times> fp_state" where
  "softfloat_propagateNaNF64UI uiA uiB s =
     (defaultNaNF64UI,
      if softfloat_isSigNaNF64UI uiA \<or> softfloat_isSigNaNF64UI uiB
      then softfloat_raiseFlags softfloat_flag_invalid s else s)"

record exp16_sig64 =
  exp16_sig64_exp :: int
  exp16_sig64_sig :: uint_fast64_t

definition softfloat_normSubnormalF64Sig :: "uint_fast64_t \<Rightarrow> exp16_sig64" where
  "softfloat_normSubnormalF64Sig sig =
     (let shiftDist = uint (softfloat_countLeadingZeros64 sig) - 11
      in \<lparr>exp16_sig64_exp = 1 - shiftDist, exp16_sig64_sig = push_bit (nat shiftDist) sig\<rparr>)"

section \<open>Rounding and packing\<close>

definition roundPackF64_increment :: "bool \<Rightarrow> fp_state \<Rightarrow> uint_fast16_t" where
  "roundPackF64_increment sign s =
     (let roundingMode = softfloat_roundingMode s
      in if roundingMode \<noteq> softfloat_round_near_even \<and> roundingMode \<noteq> softfloat_round_near_maxMag
         then (if roundingMode = (if sign then softfloat_round_min else softfloat_round_max)
               then 0x3FF else 0)
         else 0x200)"

definition roundPackF64_finish ::
  "bool \<Rightarrow> int \<Rightarrow> uint_fast64_t \<Rightarrow> uint_fast16_t \<Rightarrow> uint_fast16_t \<Rightarrow> fp_state \<Rightarrow> float64_t \<times> fp_state" where
  "roundPackF64_finish sign expn sig roundIncrement roundBits s =
     (let roundingMode = softfloat_roundingMode s;
          roundNearEven = (roundingMode = softfloat_round_near_even);
          sig = drop_bit 10 (sig + roundIncrement);
          s = (if roundBits \<noteq> 0
               then s\<lparr>softfloat_exceptionFlags := softfloat_exceptionFlags s OR softfloat_flag_inexact\<rparr>
               else s)
      in if roundBits \<noteq> 0 \<and> roundingMode = softfloat_round_odd
         then (packToF64UI sign expn (sig OR 1), s)
         else
           let sig = sig AND NOT (of_bool (roundBits XOR 0x200 = 0 \<and> roundNearEven));
               expn = (if sig = 0 then 0 else expn)
           in (packToF64UI sign expn sig, s))"

definition softfloat_roundPackToF64 ::
  "bool \<Rightarrow> int \<Rightarrow> uint_fast64_t \<Rightarrow> fp_state \<Rightarrow> float64_t \<times> fp_state" where
  "softfloat_roundPackToF64 sign expn sig s =
     (let roundIncrement = roundPackF64_increment sign s;
          roundBits = sig AND 0x3FF
      in if 0x7FD \<le> (word_of_int expn :: uint16_t) then
           if expn < 0 then
             let isTiny = (softfloat_detectTininess s = softfloat_tininess_beforeRounding
                           \<or> expn < -1 \<or> sig + roundIncrement < 0x8000000000000000);
                 sig = softfloat_shiftRightJam64 sig (word_of_int (- expn));
                 roundBits = sig AND 0x3FF;
                 s = (if isTiny \<and> roundBits \<noteq> 0
                      then softfloat_raiseFlags softfloat_flag_underflow s else s)
             in roundPackF64_finish sign 0 sig roundIncrement roundBits s
           else if 0x7FD < expn \<or> 0x8000000000000000 \<le> sig + roundIncrement then
             (packToF64UI sign 0x7FF 0 - of_bool (roundIncrement = 0),
              softfloat_raiseFlags (softfloat_flag_overflow OR softfloat_flag_inexact) s)
           else roundPackF64_finish sign expn sig roundIncrement roundBits s
         else roundPackF64_finish sign expn sig roundIncrement roundBits s)"

definition softfloat_normRoundPackToF64 ::
  "bool \<Rightarrow> int \<Rightarrow> uint_fast64_t \<Rightarrow> fp_state \<Rightarrow> float64_t \<times> fp_state" where
  "softfloat_normRoundPackToF64 sign expn sig s =
     (let shiftDist = uint (softfloat_countLeadingZeros64 sig) - 1;
          expn = expn - shiftDist
      in if 10 \<le> shiftDist \<and> (word_of_int expn :: uint32_t) < 0x7FD
         then (packToF64UI sign (if sig \<noteq> 0 then expn else 0) (push_bit (nat (shiftDist - 10)) sig), s)
         else softfloat_roundPackToF64 sign expn (push_bit (nat shiftDist) sig) s)"

section \<open>Addition and subtraction\<close>

definition softfloat_addMagsF64 ::
  "uint_fast64_t \<Rightarrow> uint_fast64_t \<Rightarrow> bool \<Rightarrow> fp_state \<Rightarrow> float64_t \<times> fp_state" where
  "softfloat_addMagsF64 uiA uiB signZ s =
     (let expA = expF64UI uiA;
          sigA = fracF64UI uiA;
          expB = expF64UI uiB;
          sigB = fracF64UI uiB;
          propagateNaN = softfloat_propagateNaNF64UI uiA uiB s;
          expDiff = expA - expB
      in if expDiff = 0 then
           if expA = 0 then (uiA + sigB, s)
           else if expA = 0x7FF then
             if sigA OR sigB \<noteq> 0 then propagateNaN else (uiA, s)
           else
             let expZ = expA;
                 sigZ = 0x0020000000000000 + sigA + sigB;
                 sigZ = push_bit 9 sigZ
             in softfloat_roundPackToF64 signZ expZ sigZ s
         else
           let sigA = push_bit 9 sigA;
               sigB = push_bit 9 sigB;
               sum = (\<lambda>expZ sigA sigB.
                 let sigZ = 0x2000000000000000 + sigA + sigB
                 in if sigZ < 0x4000000000000000
                    then softfloat_roundPackToF64 signZ (expZ - 1) (push_bit 1 sigZ) s
                    else softfloat_roundPackToF64 signZ expZ sigZ s)
           in if expDiff < 0 then
                if expB = 0x7FF then
                  if sigB \<noteq> 0 then propagateNaN else (packToF64UI signZ 0x7FF 0, s)
                else
                  let sigA = (if expA \<noteq> 0 then sigA + 0x2000000000000000 else push_bit 1 sigA)
                  in sum expB (softfloat_shiftRightJam64 sigA (word_of_int (- expDiff))) sigB
              else
                if expA = 0x7FF then
                  if sigA \<noteq> 0 then propagateNaN else (uiA, s)
                else
                  let sigB = (if expB \<noteq> 0 then sigB + 0x2000000000000000 else push_bit 1 sigB)
                  in sum expA sigA (softfloat_shiftRightJam64 sigB (word_of_int expDiff)))"

definition softfloat_subMagsF64 ::
  "uint_fast64_t \<Rightarrow> uint_fast64_t \<Rightarrow> bool \<Rightarrow> fp_state \<Rightarrow> float64_t \<times> fp_state" where
  "softfloat_subMagsF64 uiA uiB signZ s =
     (let expA = expF64UI uiA;
          sigA = fracF64UI uiA;
          expB = expF64UI uiB;
          sigB = fracF64UI uiB;
          propagateNaN = softfloat_propagateNaNF64UI uiA uiB s;
          expDiff = expA - expB
      in if expDiff = 0 then
           if expA = 0x7FF then
             if sigA OR sigB \<noteq> 0 then propagateNaN
             else (defaultNaNF64UI, softfloat_raiseFlags softfloat_flag_invalid s)
           else
             let sigDiff = sint (sigA - sigB)
             in if sigDiff = 0
                then (packToF64UI (softfloat_roundingMode s = softfloat_round_min) 0 0, s)
                else
                  let expA = (if expA \<noteq> 0 then expA - 1 else expA);
                      (signZ, sigDiff) = (if sigDiff < 0 then (\<not> signZ, - sigDiff) else (signZ, sigDiff));
                      shiftDist = uint (softfloat_countLeadingZeros64 (word_of_int sigDiff)) - 11;
                      expZ = expA - shiftDist;
                      (shiftDist, expZ) = (if expZ < 0 then (expA, 0) else (shiftDist, expZ))
                  in (packToF64UI signZ expZ (push_bit (nat shiftDist) (word_of_int sigDiff)), s)
         else
           let sigA = push_bit 10 sigA;
               sigB = push_bit 10 sigB
           in if expDiff < 0 then
                let signZ = (\<not> signZ)
                in if expB = 0x7FF then
                     if sigB \<noteq> 0 then propagateNaN else (packToF64UI signZ 0x7FF 0, s)
                   else
                     let sigA = sigA + (if expA \<noteq> 0 then 0x4000000000000000 else sigA);
                         sigA = softfloat_shiftRightJam64 sigA (word_of_int (- expDiff));
                         sigB = sigB OR 0x4000000000000000;
                         expZ = expB;
                         sigZ = sigB - sigA
                     in softfloat_normRoundPackToF64 signZ (expZ - 1) sigZ s
              else
                if expA = 0x7FF then
                  if sigA \<noteq> 0 then propagateNaN else (uiA, s)
                else
                  let sigB = sigB + (if expB \<noteq> 0 then 0x4000000000000000 else sigB);
                      sigB = softfloat_shiftRightJam64 sigB (word_of_int expDiff);
                      sigA = sigA OR 0x4000000000000000;
                      expZ = expA;
                      sigZ = sigA - sigB
                  in softfloat_normRoundPackToF64 signZ (expZ - 1) sigZ s)"

definition f64_add :: "float64_t \<Rightarrow> float64_t \<Rightarrow> fp_state \<Rightarrow> float64_t \<times> fp_state" where
  "f64_add a b s =
     (let uiA = a;
          signA = signF64UI uiA;
          uiB = b;
          signB = signF64UI uiB
      in if signA = signB then softfloat_addMagsF64 uiA uiB signA s
         else softfloat_subMagsF64 uiA uiB signA s)"

definition f64_sub :: "float64_t \<Rightarrow> float64_t \<Rightarrow> fp_state \<Rightarrow> float64_t \<times> fp_state" where
  "f64_sub a b s =
     (let uiA = a;
          signA = signF64UI uiA;
          uiB = b;
          signB = signF64UI uiB
      in if signA = signB then softfloat_subMagsF64 uiA uiB signA s
         else softfloat_addMagsF64 uiA uiB signA s)"

section \<open>Multiplication and division\<close>

definition f64_mul :: "float64_t \<Rightarrow> float64_t \<Rightarrow> fp_state \<Rightarrow> float64_t \<times> fp_state" where
  "f64_mul a b s =
     (let uiA = a;
          signA = signF64UI uiA;
          expA = expF64UI uiA;
          sigA = fracF64UI uiA;
          uiB = b;
          signB = signF64UI uiB;
          expB = expF64UI uiB;
          sigB = fracF64UI uiB;
          signZ = (signA \<noteq> signB);
          propagateNaN = softfloat_propagateNaNF64UI uiA uiB s;
          infArg = (\<lambda>magBits :: uint_fast64_t.
            if magBits = 0
            then (defaultNaNF64UI, softfloat_raiseFlags softfloat_flag_invalid s)
            else (packToF64UI signZ 0x7FF 0, s));
          zero = (packToF64UI signZ 0 0, s)
      in if expA = 0x7FF then
           if sigA \<noteq> 0 \<or> (expB = 0x7FF \<and> sigB \<noteq> 0) then propagateNaN
           else infArg (word_of_int expB OR sigB)
         else if expB = 0x7FF then
           if sigB \<noteq> 0 then propagateNaN else infArg (word_of_int expA OR sigA)
         else if expA = 0 \<and> sigA = 0 then zero
         else
           let (expA, sigA) = (if expA = 0
                 then let n = softfloat_normSubnormalF64Sig sigA in (exp16_sig64_exp n, exp16_sig64_sig n)
                 else (expA, sigA))
           in if expB = 0 \<and> sigB = 0 then zero
              else
                let (expB, sigB) = (if expB = 0
                      then let n = softfloat_normSubnormalF64Sig sigB in (exp16_sig64_exp n, exp16_sig64_sig n)
                      else (expB, sigB));
                    expZ = expA + expB - 0x3FF;
                    sigA = push_bit 10 (sigA OR 0x0010000000000000);
                    sigB = push_bit 11 (sigB OR 0x0010000000000000);
                    sig128Z = softfloat_mul64To128 sigA sigB;
                    sigZ = v64 sig128Z OR of_bool (v0 sig128Z \<noteq> 0)
                in if sigZ < 0x4000000000000000
                   then softfloat_roundPackToF64 signZ (expZ - 1) (push_bit 1 sigZ) s
                   else softfloat_roundPackToF64 signZ expZ sigZ s)"

definition f64_div_sigZ :: "uint_fast64_t \<Rightarrow> uint_fast64_t \<Rightarrow> uint_fast64_t" where
  "f64_div_sigZ sigA sigB =
     (let recip32 = softfloat_approxRecip32_1 (ucast (drop_bit 32 sigB)) - 2;
          sig32Z = ucast (drop_bit 32 (ucast (ucast (drop_bit 32 sigA) :: uint32_t) * ucast recip32 :: uint64_t)) :: uint32_t;
          doubleTerm = push_bit 1 sig32Z;
          rem = push_bit 28 (sigA - ucast doubleTerm * ucast (ucast (drop_bit 32 sigB) :: uint32_t))
                - ucast doubleTerm * ucast (drop_bit 4 (ucast sigB :: uint32_t));
          q = ucast (drop_bit 32 (ucast (ucast (drop_bit 32 rem) :: uint32_t) * ucast recip32 :: uint64_t) + 4) :: uint32_t;
          sigZ = push_bit 32 (ucast sig32Z) + push_bit 4 (ucast q)
      in if sigZ AND 0x1FF < push_bit 4 4 then
           let q = q AND NOT 7;
               sigZ = sigZ AND NOT 0x7F;
               doubleTerm = push_bit 1 q;
               rem = push_bit 28 (rem - ucast doubleTerm * ucast (ucast (drop_bit 32 sigB) :: uint32_t))
                     - ucast doubleTerm * ucast (drop_bit 4 (ucast sigB :: uint32_t))
           in if rem AND 0x8000000000000000 \<noteq> 0 then sigZ - push_bit 7 1
              else if rem \<noteq> 0 then sigZ OR 1 else sigZ
         else sigZ)"

definition f64_div :: "float64_t \<Rightarrow> float64_t \<Rightarrow> fp_state \<Rightarrow> float64_t \<times> fp_state" where
  "f64_div a b s =
     (let uiA = a;
          signA = signF64UI uiA;
          expA = expF64UI uiA;
          sigA = fracF64UI uiA;
          uiB = b;
          signB = signF64UI uiB;
          expB = expF64UI uiB;
          sigB = fracF64UI uiB;
          signZ = (signA \<noteq> signB);
          propagateNaN = softfloat_propagateNaNF64UI uiA uiB s;
          invalid = (defaultNaNF64UI, softfloat_raiseFlags softfloat_flag_invalid s);
          infinity = (\<lambda>s :: fp_state. (packToF64UI signZ 0x7FF 0, s));
          zero = (packToF64UI signZ 0 0, s)
      in if expA = 0x7FF then
           if sigA \<noteq> 0 then propagateNaN
           else if expB = 0x7FF then (if sigB \<noteq> 0 then propagateNaN else invalid)
           else infinity s
         else if expB = 0x7FF then
           if sigB \<noteq> 0 then propagateNaN else zero
         else if expB = 0 \<and> sigB = 0 then
           if word_of_int expA OR sigA = 0 then invalid
           else infinity (softfloat_raiseFlags softfloat_flag_infinite s)
         else
           let (expB, sigB) = (if expB = 0
                 then let n = softfloat_normSubnormalF64Sig sigB in (exp16_sig64_exp n, exp16_sig64_sig n)
                 else (expB, sigB))
           in if expA = 0 \<and> sigA = 0 then zero
              else
                let (expA, sigA) = (if expA = 0
                      then let n = softfloat_normSubnormalF64Sig sigA in (exp16_sig64_exp n, exp16_sig64_sig n)
                      else (expA, sigA));
                    expZ = expA - expB + 0x3FE;
                    sigA = sigA OR 0x0010000000000000;
                    sigB = sigB OR 0x0010000000000000;
                    (expZ, sigA) = (if sigA < sigB then (expZ - 1, push_bit 11 sigA)
                                    else (expZ, push_bit 10 sigA));
                    sigB = push_bit 11 sigB
                in softfloat_roundPackToF64 signZ expZ (f64_div_sigZ sigA sigB) s)"

section \<open>Values\<close>

definition f64_mag :: "float64_t \<Rightarrow> nat" where
  "f64_mag a = unat a mod 2 ^ 63"

definition f64_finite :: "float64_t \<Rightarrow> bool" where
  "f64_finite a \<longleftrightarrow> f64_mag a < 2047 * 2 ^ 52"

definition f64_abs :: "float64_t \<Rightarrow> real" where
  "f64_abs a = mag_val 52 (- 1074) (f64_mag a)"

definition f64_val :: "float64_t \<Rightarrow> real" where
  "f64_val a = (if signF64UI a then - f64_abs a else f64_abs a)"

definition f64_nan :: "float64_t \<Rightarrow> bool" where
  "f64_nan a \<longleftrightarrow> 2047 * 2 ^ 52 < f64_mag a"

definition f64_inf :: "float64_t \<Rightarrow> bool" where
  "f64_inf a \<longleftrightarrow> f64_mag a = 2047 * 2 ^ 52"

definition f64_snan :: "float64_t \<Rightarrow> bool" where
  "f64_snan a \<longleftrightarrow> f64_nan a \<and> f64_mag a < 2047 * 2 ^ 52 + 2 ^ 51"

abbreviation f64_rounded :: "bool \<Rightarrow> real \<Rightarrow> fp_state \<Rightarrow> float64_t \<times> fp_state \<Rightarrow> bool" where
  "f64_rounded \<equiv> fp_rounded 52 (- 1074) (2047 * 2 ^ 52)"

lemma packToF64UI_unat:
  assumes "0 \<le> expn" "expn < 2 ^ 64"
  shows "unat (packToF64UI sign expn sig) =
    (of_bool sign * 2 ^ 63 + nat expn * 2 ^ 52 + unat sig) mod 2 ^ 64"
proof -
  define h :: uint64_t where "h = push_bit 63 (of_bool sign) + push_bit 52 (word_of_int expn)"
  have "unat (push_bit 63 (of_bool sign) :: uint64_t) = of_bool sign * 2 ^ 63"
    by (simp add: unat_push_bit_mod)
  moreover have "unat (push_bit 52 (word_of_int expn) :: uint64_t) = nat expn * 2 ^ 52 mod 2 ^ 64"
    using unat_word_of_int [where 'a = 64, of expn] assms by (simp add: unat_push_bit_mod)
  ultimately have h: "unat h = (of_bool sign * 2 ^ 63 + nat expn * 2 ^ 52) mod 2 ^ 64"
    by (simp add: h_def unat_word_ariths mod_add_right_eq)
  have "unat (packToF64UI sign expn sig) = (unat h + unat sig) mod 2 ^ 64"
    by (simp add: packToF64UI_def h_def [symmetric] unat_word_ariths)
  then show ?thesis by (simp add: h mod_add_left_eq)
qed

lemma roundPackF64_increment_eq:
  "unat (roundPackF64_increment sign s) = round_inc (softfloat_roundingMode s) sign 10"
  by (simp add: roundPackF64_increment_def round_inc_def Let_def)

lemma roundBits_F64:
  "unat (sig AND 0x3FF :: uint64_t) = unat sig mod 2 ^ 10"
  by (simp add: unat_and_mask [of _ 10])

lemma round_inc_10: "round_inc mode sign 10 \<le> 1023"
  by (simp add: round_inc_def)

lemma roundPackF64_finish_eq:
  fixes sig :: uint64_t
  assumes e: "0 \<le> expn" "expn < 2 ^ 64" and sig: "unat sig < 2 ^ 63"
    and rb: "roundBits = sig AND 0x3FF"
    and inc: "unat roundIncrement = round_inc (softfloat_roundingMode s) sign 10"
  defines "rn \<equiv> round_nat (softfloat_roundingMode s) sign 10 (unat sig)"
  shows "unat (fst (roundPackF64_finish sign expn sig roundIncrement roundBits s)) =
      (of_bool sign * 2 ^ 63 + (if rn = 0 then 0 else nat expn) * 2 ^ 52 + rn) mod 2 ^ 64"
    and "snd (roundPackF64_finish sign expn sig roundIncrement roundBits s) =
      softfloat_raiseFlags (if unat sig mod 2 ^ 10 \<noteq> 0 then softfloat_flag_inexact else 0) s"
proof -
  define z where "z = (unat sig + round_inc (softfloat_roundingMode s) sign 10) div 2 ^ 10"
  define w where "w = drop_bit 10 (sig + roundIncrement)"
  have w: "unat w = z"
    using sig round_inc_10 [of "softfloat_roundingMode s" sign] inc
    unfolding w_def z_def unat_drop_bit_div
    by (subst unat_add_nowrap) simp_all
  have rb0: "roundBits \<noteq> 0 \<longleftrightarrow> unat sig mod 2 ^ 10 \<noteq> 0"
    unfolding rb roundBits_F64 [symmetric] by (simp add: unat_eq_zero)
  have tie: "roundBits XOR 0x200 = 0 \<longleftrightarrow> unat sig mod 2 ^ 10 = 2 ^ 9"
  proof -
    have "roundBits XOR 0x200 = 0 \<longleftrightarrow> roundBits = 0x200" by simp
    also have "\<dots> \<longleftrightarrow> unat roundBits = 512" by (simp add: word_unat_eq_iff)
    finally show ?thesis unfolding rb roundBits_F64 by simp
  qed
  have rn: "rn = (if unat sig mod 2 ^ 10 \<noteq> 0 \<and> softfloat_roundingMode s = softfloat_round_odd
       then (if even z then Suc z else z)
       else if unat sig mod 2 ^ 10 = 2 ^ 9 \<and> softfloat_roundingMode s = softfloat_round_near_even
       then (if odd z then z - 1 else z) else z)"
    unfolding rn_def round_nat_def Let_def z_def by simp
  show "unat (fst (roundPackF64_finish sign expn sig roundIncrement roundBits s)) =
      (of_bool sign * 2 ^ 63 + (if rn = 0 then 0 else nat expn) * 2 ^ 52 + rn) mod 2 ^ 64"
  proof (cases "unat sig mod 2 ^ 10 \<noteq> 0 \<and> softfloat_roundingMode s = softfloat_round_odd")
    case True
    then have "fst (roundPackF64_finish sign expn sig roundIncrement roundBits s) =
        packToF64UI sign expn (w OR 1)"
      unfolding roundPackF64_finish_def Let_def rb0 w_def by simp
    moreover from True have "unat (w OR 1) = rn" "rn \<noteq> 0"
      by (auto simp: unat_or_1 w rn elim: oddE)
    ultimately show ?thesis by (simp add: packToF64UI_unat [OF e])
  next
    case False
    define v where "v = w AND NOT (of_bool (roundBits XOR 0x200 = 0 \<and> softfloat_roundingMode s = softfloat_round_near_even))"
    from False have "fst (roundPackF64_finish sign expn sig roundIncrement roundBits s) =
        packToF64UI sign (if v = 0 then 0 else expn) v"
      unfolding roundPackF64_finish_def Let_def rb0 w_def v_def by (simp only: if_False fst_conv)
    moreover have "unat v = rn"
      unfolding v_def unat_and_not_of_bool w tie rn using False by auto
    moreover from this have "v = 0 \<longleftrightarrow> rn = 0" by (metis unat_eq_zero)
    ultimately show ?thesis using e by (simp add: packToF64UI_unat)
  qed
  show "snd (roundPackF64_finish sign expn sig roundIncrement roundBits s) =
      softfloat_raiseFlags (if unat sig mod 2 ^ 10 \<noteq> 0 then softfloat_flag_inexact else 0) s"
    unfolding roundPackF64_finish_def Let_def rb0 by (simp add: softfloat_raiseFlags_def)
qed

lemma packToF64UI_inf:
  "unat (packToF64UI sign 0x7FF 0 - of_bool c) =
     of_bool sign * 2 ^ 63 + (2047 * 2 ^ 52 - of_bool c)"
  by (cases sign; cases c) (simp_all add: packToF64UI_def)

lemma roundPackToF64_subnormal:
  fixes sig :: uint64_t
  assumes cell: "same_cell 9 y (unat sig)" and sig: "unat sig < 2 ^ 63"
    and e: "- (2 ^ 15) \<le> expn" "expn < 0" and x: "x = y * 2 powi (expn - 1084)"
  shows "f64_rounded sign x s (softfloat_roundPackToF64 sign expn sig s)"
proof -
  define d where "d = nat (- expn)"
  define sig' where "sig' = (softfloat_shiftRightJam64 sig (word_of_int (- expn)))"
  have d: "0 < d" "expn = - int d" using e by (simp_all add: d_def)
  have dw: "unat (word_of_int (- expn) :: uint64_t) = d"
    using e unat_word_of_int [where 'a = 64, of "- expn"] by (simp add: d_def)
  then have "(word_of_int (- expn) :: uint64_t) \<noteq> 0" using d(1) by (metis unat_0 less_irrefl)
  then have "unat (softfloat_shiftRightJam64 sig (word_of_int (- expn))) = jam d (unat sig)"
    using shiftRightJam64_jam [of "word_of_int (- expn)" sig] sig dw by simp
  moreover have "jam d (unat sig) < 2 ^ 63"
    using sig by (subst jam_even_less) (simp_all add: less_le_trans)
  ultimately have sig': "unat sig' = jam d (unat sig)" "unat sig' < 2 ^ 63"
    unfolding sig'_def by simp_all
  define isTiny where "isTiny \<longleftrightarrow> softfloat_detectTininess s = softfloat_tininess_beforeRounding
      \<or> expn < -1 \<or> sig + roundPackF64_increment sign s < 0x8000000000000000"
  have tiny: "isTiny \<longleftrightarrow> softfloat_detectTininess s = softfloat_tininess_beforeRounding \<or> 1 < d \<or>
      unat sig + round_inc (softfloat_roundingMode s) sign 10 < 2 ^ (52 + 10 + 1)"
  proof -
    have "unat (sig + roundPackF64_increment sign s) = unat sig + round_inc (softfloat_roundingMode s) sign 10"
      using sig round_inc_10 [of "softfloat_roundingMode s" sign]
      by (subst unat_add_nowrap) (simp_all add: roundPackF64_increment_eq)
    then show ?thesis unfolding isTiny_def by (auto simp: word_less_nat_alt d(2))
  qed
  define rb where "rb = (sig' AND 0x3FF)"
  have rb0: "rb \<noteq> 0 \<longleftrightarrow> jam d (unat sig) mod 2 ^ 10 \<noteq> 0"
    using roundBits_F64 [of sig'] by (simp add: rb_def sig'(1) flip: unat_eq_zero)
  define s1 where "s1 = (if isTiny \<and> rb \<noteq> 0 then softfloat_raiseFlags softfloat_flag_underflow s else s)"
  have "0x7FD \<le> (word_of_int expn :: uint16_t)"
  proof -
    have "uint (word_of_int expn :: uint16_t) = expn + 2 ^ 16"
      using e by (subst uint_word_of_int_neg) simp_all
    then show ?thesis using e by (simp add: word_le_def)
  qed
  then have eq: "softfloat_roundPackToF64 sign expn sig s =
      roundPackF64_finish sign 0 sig' (roundPackF64_increment sign s) rb s1"
    unfolding softfloat_roundPackToF64_def Let_def s1_def rb_def isTiny_def sig'_def using e(2) by simp
  define rn where "rn = round_nat (softfloat_roundingMode s) sign 10 (jam d (unat sig))"
  have s1: "softfloat_roundingMode s1 = softfloat_roundingMode s" by (simp add: s1_def)
  have rn: "rn \<le> 2 ^ 53" unfolding rn_def using sig' by (intro round_nat_le) simp_all
  note fin = roundPackF64_finish_eq [of 0 sig' rb "roundPackF64_increment sign s" s1 sign]
  show ?thesis
  proof (rule fp_rounded_subnormalI [where y = y and sig = "unat sig" and d = d and k = 10 and n = rn])
    have "expn - 1084 = - 1074 - int d - int 10" by (simp add: d(2))
    with x show "x = y * 2 powi (- 1074 - int d - int 10)" by (simp only:)
    show "unat (fst (softfloat_roundPackToF64 sign expn sig s)) = of_bool sign * 2 ^ (LENGTH(64) - 1) + rn"
      unfolding eq using fin(1) sig' rn
      by (simp add: rb_def s1 roundPackF64_increment_eq rn_def [symmetric])
    show "snd (softfloat_roundPackToF64 sign expn sig s) = softfloat_raiseFlags
            (if jam d (unat sig) mod 2 ^ 10 \<noteq> 0 then softfloat_flag_inexact OR
               (if softfloat_detectTininess s = softfloat_tininess_beforeRounding \<or> 1 < d \<or>
                   unat sig + round_inc (softfloat_roundingMode s) sign 10 < 2 ^ (52 + 10 + 1)
                then softfloat_flag_underflow else 0)
             else 0) s"
      unfolding eq tiny [symmetric] using fin(2) sig' rb0
      by (simp add: rb_def [symmetric] s1 roundPackF64_increment_eq s1_def or.commute)
  qed (use cell sig d(1) rn_def in simp_all)
qed

lemma roundPackToF64_normal:
  fixes sig :: uint64_t
  assumes cell: "same_cell 9 y (unat sig)" and sig: "2 ^ 62 \<le> unat sig" "unat sig < 2 ^ 63"
    and e: "0 \<le> expn" "expn < 2 ^ 15" and x: "x = y * 2 powi (expn - 1084)"
  shows "f64_rounded sign x s (softfloat_roundPackToF64 sign expn sig s)"
proof -
  let ?inc = "roundPackF64_increment sign s"
  define mode where "mode = softfloat_roundingMode s"
  define rn where "rn = round_nat mode sign 10 (unat sig)"
  define n where "n = nat expn * 2 ^ 52 + rn"
  have rn: "2 ^ 52 \<le> rn" "rn \<le> 2 ^ 53"
    unfolding rn_def using sig by (auto intro!: round_nat_le round_nat_ge)
  have rn24: "rn = 2 ^ 53 \<longleftrightarrow> 2 ^ 63 \<le> unat sig + round_inc mode sign 10"
    using round_nat_ge_iff [of "unat sig" "2 ^ 53" 10 mode sign] sig(2) rn by (simp add: rn_def [symmetric])
  have inc: "unat (sig + ?inc) = unat sig + round_inc mode sign 10"
    using sig(2) round_inc_10 [of mode sign]
    by (subst unat_add_nowrap) (simp_all add: roundPackF64_increment_eq mode_def)
  have FD: "0x7FD \<le> (word_of_int expn :: uint16_t) \<longleftrightarrow> 2045 \<le> expn"
    using uint_word_of_int_nonneg [where 'a = 16, of expn] e by (simp add: word_le_def)
  have ov: "0x8000000000000000 \<le> sig + ?inc \<longleftrightarrow> rn = 2 ^ 53"
    unfolding rn24 by (simp add: word_le_nat_alt inc)
  have n_inf: "2047 * 2 ^ 52 \<le> n \<longleftrightarrow> 2045 < expn \<or> (expn = 2045 \<and> rn = 2 ^ 53)"
    using rn e by (auto simp: n_def nat_less_iff)
  have rnd: "unat (fst (softfloat_roundPackToF64 sign expn sig s)) = of_bool sign * 2 ^ (LENGTH(64) - 1) +
      (if n < 2047 * 2 ^ 52 then n else if overflow_to_inf mode sign then 2047 * 2 ^ 52 else 2047 * 2 ^ 52 - 1) \<and>
    snd (softfloat_roundPackToF64 sign expn sig s) = softfloat_raiseFlags
      (if 2047 * 2 ^ 52 \<le> n then softfloat_flag_overflow OR softfloat_flag_inexact
       else if unat sig mod 2 ^ 10 \<noteq> 0 then softfloat_flag_inexact else 0) s"
  proof (cases "2047 * 2 ^ 52 \<le> n")
    case True
    then have "2045 < expn \<or> 0x8000000000000000 \<le> sig + ?inc" "0x7FD \<le> (word_of_int expn :: uint16_t)"
      using n_inf FD ov by auto
    then have eq: "softfloat_roundPackToF64 sign expn sig s =
        (packToF64UI sign 0x7FF 0 - of_bool (?inc = 0),
         softfloat_raiseFlags (softfloat_flag_overflow OR softfloat_flag_inexact) s)"
      unfolding softfloat_roundPackToF64_def Let_def using e(1) by simp
    have "?inc = 0 \<longleftrightarrow> \<not> overflow_to_inf mode sign"
      using round_inc_0_iff [of 10 mode sign] by (simp add: mode_def roundPackF64_increment_eq flip: unat_eq_zero)
    with True show ?thesis unfolding eq fst_conv packToF64UI_inf by simp
  next
    case False
    then have "\<not> (0x7FD \<le> (word_of_int expn :: uint16_t) \<and> (2045 < expn \<or> 0x8000000000000000 \<le> sig + ?inc))"
      using n_inf FD ov by auto
    then have eq: "softfloat_roundPackToF64 sign expn sig s =
        roundPackF64_finish sign expn sig ?inc (sig AND 0x3FF) s"
      unfolding softfloat_roundPackToF64_def Let_def using e(1) by auto
    note fin = roundPackF64_finish_eq [of expn sig "sig AND 0x3FF" ?inc s sign]
    from False have "of_bool sign * 2 ^ 63 + n < 2 ^ 64" by (cases sign) simp_all
    with False rn(1) show ?thesis
      unfolding eq using fin e sig(2)
      by (simp add: roundPackF64_increment_eq mode_def [symmetric] rn_def [symmetric] n_def add.assoc)
  qed
  show ?thesis
    by (rule fp_rounded_normalI [where y = y and sig = "unat sig" and k = 10 and n = n and E = "nat expn"])
      (use cell sig x e rnd in \<open>simp_all add: n_def rn_def mode_def [symmetric]\<close>)
qed

lemma roundPackToF64_rounded:
  fixes sig :: uint64_t
  assumes "same_cell 9 y (unat sig)" "2 ^ 62 \<le> unat sig" "unat sig < 2 ^ 63"
    and "- (2 ^ 15) \<le> expn" "expn < 2 ^ 15" and "x = y * 2 powi (expn - 1084)"
  shows "f64_rounded sign x s (softfloat_roundPackToF64 sign expn sig s)"
  using assms roundPackToF64_normal roundPackToF64_subnormal by (cases "0 \<le> expn") auto

interpretation f64: round_pack 52 10 "- 1074" "2047 * 2 ^ 52" "2 ^ 15" softfloat_roundPackToF64
proof unfold_locales
  fix y :: real and sig :: uint64_t and expn :: int and sign s
  assume "same_cell (10 - 1) y (unat sig)" "2 ^ (52 + 10) \<le> unat sig" "unat sig < 2 ^ (52 + 10 + 1)"
    "- (2 ^ 15) \<le> expn" "expn < 2 ^ 15"
  then show "f64_rounded sign (y * 2 powi (- 1074 + expn - int 10)) s (softfloat_roundPackToF64 sign expn sig s)"
    by (intro roundPackToF64_rounded) simp_all
qed simp_all

section \<open>Reading operands\<close>

lemma f64_fields:
  fixes a :: float64_t
  shows "expF64UI a = int (f64_mag a div 2 ^ 52)"
    and "unat (fracF64UI a) = f64_mag a mod 2 ^ 52"
    and "signF64UI a \<longleftrightarrow> 2 ^ 63 \<le> unat a"
proof -
  have "unat (drop_bit 52 a AND 0x7FF) = unat a div 2 ^ 52 mod 2 ^ 11"
    using unat_and_mask [of "0x7FF :: uint64_t" 11 "drop_bit 52 a"] by (simp add: unat_drop_bit_div)
  moreover have "unat a div 2 ^ 52 mod 2 ^ 11 = f64_mag a div 2 ^ 52"
    unfolding f64_mag_def using div_exp_mod_exp_eq [of "unat a" 52 11] by simp
  ultimately show "expF64UI a = int (f64_mag a div 2 ^ 52)"
    by (simp add: expF64UI_def uint_nat)
  have "unat (fracF64UI a) = unat a mod 2 ^ 52"
    unfolding fracF64UI_def using unat_and_mask [of "0x000FFFFFFFFFFFFF :: uint64_t" 52 a] by simp
  then show "unat (fracF64UI a) = f64_mag a mod 2 ^ 52"
    by (simp add: f64_mag_def mod_mod_cancel)
  show "signF64UI a \<longleftrightarrow> 2 ^ 63 \<le> unat a"
  proof -
    have "signF64UI a \<longleftrightarrow> unat (drop_bit 63 a) \<noteq> 0"
      unfolding signF64UI_def by (simp add: unat_eq_zero)
    then show ?thesis unfolding unat_drop_bit_div by (simp add: div_eq_0_iff not_less)
  qed
qed

text \<open>The normalised significand and exponent that the operations compute for a nonzero operand.\<close>

definition f64_norm :: "float64_t \<Rightarrow> int \<times> uint_fast64_t" where
  "f64_norm a =
     (if expF64UI a = 0
      then let n = softfloat_normSubnormalF64Sig (fracF64UI a) in (exp16_sig64_exp n, exp16_sig64_sig n)
      else (expF64UI a, fracF64UI a))"

lemma f64_norm_sig:
  assumes "f64_finite a" "f64_mag a \<noteq> 0" "f64_norm a = (e, g)"
  shows "2 ^ 52 \<le> unat (g OR 0x0010000000000000)" "unat (g OR 0x0010000000000000) < 2 ^ 53"
    "f64_abs a = real (unat (g OR 0x0010000000000000)) * 2 powi (e - 1075)"
    "- 51 \<le> e" "e \<le> 2046"
proof -
  define F where "F = f64_mag a mod 2 ^ 52"
  define E where "E = f64_mag a div 2 ^ 52"
  have mag: "f64_mag a = E * 2 ^ 52 + F" unfolding E_def F_def by (rule div_mult_mod_eq [symmetric])
  have F: "F < 2 ^ 52" by (simp add: F_def)
  have frac: "unat (fracF64UI a) = F" by (simp add: f64_fields F_def)
  have ex: "expF64UI a = int E" by (simp add: f64_fields E_def)
  have "2 ^ 52 \<le> unat (g OR 0x0010000000000000) \<and> unat (g OR 0x0010000000000000) < 2 ^ 53 \<and>
    f64_abs a = real (unat (g OR 0x0010000000000000)) * 2 powi (e - 1075) \<and> - 51 \<le> e \<and> e \<le> 2046"
  proof (cases "E = 0")
    case False
    then have e: "e = int E" "g = fracF64UI a" using assms(3) ex by (simp_all add: f64_norm_def)
    have g: "unat (g OR 0x0010000000000000) = F + 2 ^ 52"
      using nat_or_hidden [OF F] by (simp add: unat_or_distrib e frac)
    have "f64_abs a = real (F + 2 ^ 52) * 2 powi (int E - 1075)"
      using mag_val_scaled [of "F + 2 ^ 52" 52 "E - 1" "- 1074"] False F
      by (cases E) (simp_all add: f64_abs_def mag ac_simps)
    moreover have "E \<le> 2046"
      using assms(1) by (simp add: f64_finite_def E_def)
    ultimately show ?thesis unfolding g e(1) using F by simp
  next
    case True
    then have F0: "F \<noteq> 0" using mag assms(2) by simp
    define w where "w = fracF64UI a"
    have w: "unat w = F" by (simp add: w_def frac)
    then have "w \<noteq> 0" using F0 by auto
    define c where "c = unat (softfloat_countLeadingZeros64 w)"
    have c: "c < 64" "2 ^ 63 \<le> F * 2 ^ c" "F * 2 ^ c < 2 ^ 64"
      using countLeadingZeros64_is_clz [OF \<open>w \<noteq> 0\<close>] unfolding is_clz_def c_def w by simp_all
    have c9: "12 \<le> c"
    proof (rule ccontr)
      assume "\<not> 12 \<le> c"
      then have "(2::nat) ^ c \<le> 2 ^ 11" by (intro power_increasing) simp_all
      then have "F * 2 ^ c \<le> F * 2 ^ 11" by (rule mult_left_mono) simp
      moreover have "F * 2 ^ 11 < 2 ^ 63" using F by simp
      ultimately show False using c(2) by (meson leD le_trans)
    qed
    have uc: "uint (softfloat_countLeadingZeros64 w) = int c" unfolding c_def by (rule uint_nat)
    have nc: "nat (int c - 11) = c - 11" using c9 by simp
    have ng: "(exp16_sig64_exp (softfloat_normSubnormalF64Sig (fracF64UI a)),
        exp16_sig64_sig (softfloat_normSubnormalF64Sig (fracF64UI a))) = (12 - int c, push_bit (c - 11) (fracF64UI a))"
      unfolding softfloat_normSubnormalF64Sig_def Let_def w_def [symmetric] uc nc exp16_sig64.simps by simp
    have "f64_norm a = (12 - int c, push_bit (c - 11) (fracF64UI a))"
      unfolding f64_norm_def Let_def ng using ex True by simp
    with assms(3) have e: "e = 12 - int c" "g = push_bit (c - 11) (fracF64UI a)" by simp_all
    have P: "(2::nat) ^ c = 2 ^ (c - 11) * 2 ^ 11" using c9 by (intro pow2_split) simp
    have b: "2 ^ 52 \<le> F * 2 ^ (c - 11)" "F * 2 ^ (c - 11) < 2 ^ 53" using c(2,3) unfolding P by simp_all
    have "unat g = F * 2 ^ (c - 11)"
      unfolding e using b by (subst unat_push_bit_nowrap) (simp_all add: frac)
    moreover from this b have "unat (g OR 0x0010000000000000) = unat g"
      using nat_or_set_bit [of 52 "unat g"] by (simp add: unat_or_distrib)
    ultimately have g: "unat (g OR 0x0010000000000000) = F * 2 ^ (c - 11)" by simp
    have "f64_abs a = real F * 2 powi (- 1074)"
      using F by (simp add: f64_abs_def mag True mag_val_def)
    also have "\<dots> = real F * 2 ^ (c - 11) * 2 powi (12 - int c - 1075)"
    proof -
      have "(2::real) ^ (c - 11) * 2 powi (12 - int c - 1075) = 2 powi (int (c - 11) + (12 - int c - 1075))"
        by (simp add: power_int_add)
      also have "int (c - 11) + (12 - int c - 1075) = - 1074" using c9 by simp
      finally show ?thesis by simp
    qed
    finally show ?thesis unfolding g e(1) using b c c9 by simp
  qed
  then show "2 ^ 52 \<le> unat (g OR 0x0010000000000000)" "unat (g OR 0x0010000000000000) < 2 ^ 53"
    "f64_abs a = real (unat (g OR 0x0010000000000000)) * 2 powi (e - 1075)"
    "- 51 \<le> e" "e \<le> 2046" by blast+
qed

lemma f64_finite_exp: "f64_finite a \<longleftrightarrow> expF64UI a \<noteq> 0x7FF"
proof -
  have "f64_mag a < 2 ^ 63" by (simp add: f64_mag_def)
  then have "f64_mag a div 2 ^ 52 \<le> 2047" by simp
  then show ?thesis by (auto simp: f64_fields f64_finite_def)
qed

lemma f64_zero_iff: "expF64UI a = 0 \<and> fracF64UI a = 0 \<longleftrightarrow> f64_mag a = 0"
proof -
  have "fracF64UI a = 0 \<longleftrightarrow> f64_mag a mod 2 ^ 52 = 0"
    by (simp add: f64_fields flip: unat_eq_zero)
  then show ?thesis by (auto simp: f64_fields)
qed

lemma f64_pack_zero: "unat (packToF64UI sign 0 0) = of_bool sign * 2 ^ 63"
  by (subst packToF64UI_unat) simp_all

lemma f64_mag_less: "f64_mag a < 2048 * 2 ^ 52"
  by (simp add: f64_mag_def)

lemma f64_class:
  "expF64UI a = 0x7FF \<longleftrightarrow> \<not> f64_finite a"
  "\<not> f64_finite a \<Longrightarrow> fracF64UI a \<noteq> 0 \<longleftrightarrow> f64_nan a"
  "f64_inf a \<Longrightarrow> \<not> f64_finite a" "f64_nan a \<Longrightarrow> \<not> f64_finite a"
  "\<not> f64_finite a \<Longrightarrow> \<not> f64_nan a \<Longrightarrow> f64_inf a"
  "f64_inf a \<Longrightarrow> \<not> f64_nan a"
proof -
  show "expF64UI a = 0x7FF \<longleftrightarrow> \<not> f64_finite a" by (simp add: f64_finite_exp)
  show "fracF64UI a \<noteq> 0 \<longleftrightarrow> f64_nan a" if "\<not> f64_finite a"
  proof -
    have "f64_mag a div 2 ^ 52 = 2047"
      using that f64_mag_less [of a] by (subst div_pow_eq_iff) (simp_all add: f64_finite_def)
    then have "f64_mag a = 2047 * 2 ^ 52 + unat (fracF64UI a)"
      using div_mult_mod_eq [of "f64_mag a" "2 ^ 52"] by (simp add: f64_fields)
    then show ?thesis by (auto simp: f64_nan_def unat_gt_0)
  qed
qed (auto simp: f64_inf_def f64_nan_def f64_finite_def)

lemma isSigNaNF64UI_iff: "softfloat_isSigNaNF64UI a \<longleftrightarrow> f64_snan a"
proof -
  have m: "unat a div 2 ^ 51 mod 2 ^ 12 = f64_mag a div 2 ^ 51" "unat a mod 2 ^ 51 = f64_mag a mod 2 ^ 51"
    unfolding f64_mag_def using div_exp_mod_exp_eq [of "unat a" 51 12] by (simp_all add: mod_mod_cancel)
  have 1: "a AND 0x7FF8000000000000 = 0x7FF0000000000000 \<longleftrightarrow> f64_mag a div 2 ^ 51 = 4094"
    unfolding word_unat_eq_iff using unat_and_field [of "0x7FF8000000000000 :: uint64_t" 12 51 a] m by simp
  have "unat (a AND 0x0007FFFFFFFFFFFF) = f64_mag a mod 2 ^ 51"
    using unat_and_mask [of "0x0007FFFFFFFFFFFF :: uint64_t" 51 a] m by simp
  then have 2: "a AND 0x0007FFFFFFFFFFFF \<noteq> 0 \<longleftrightarrow> f64_mag a mod 2 ^ 51 \<noteq> 0"
    by (metis unat_eq_zero)
  have "f64_mag a div 2 ^ 51 = 4094 \<and> f64_mag a mod 2 ^ 51 \<noteq> 0 \<longleftrightarrow> f64_snan a"
    using div_pow_inside_iff [of "f64_mag a" 51 4094] by (auto simp: f64_snan_def f64_nan_def)
  then show ?thesis unfolding softfloat_isSigNaNF64UI_def 1 2 .
qed

lemma f64_bits_or_zero: "word_of_int (expF64UI a) OR fracF64UI a = 0 \<longleftrightarrow> f64_mag a = 0"
proof -
  have "expF64UI a = uint (drop_bit 52 a AND 0x7FF)" by (simp add: expF64UI_def)
  then have "word_of_int (expF64UI a) = drop_bit 52 a AND 0x7FF" by simp
  moreover have "drop_bit 52 a AND 0x7FF = 0 \<longleftrightarrow> expF64UI a = 0"
    by (simp add: expF64UI_def uint_0_iff)
  ultimately show ?thesis by (simp add: or_eq_0_iff flip: f64_zero_iff)
qed

lemma propagateNaNF64_result:
  "softfloat_propagateNaNF64UI a b s =
     (0x7FF8000000000000, if f64_snan a \<or> f64_snan b then softfloat_raiseFlags softfloat_flag_invalid s else s)"
  by (simp add: softfloat_propagateNaNF64UI_def defaultNaNF64UI_def isSigNaNF64UI_iff)

lemma f64_pack_inf: "unat (packToF64UI sign 0x7FF 0) = of_bool sign * 2 ^ 63 + 2047 * 2 ^ 52"
  using packToF64UI_inf [of sign False] by simp

section \<open>Addition\<close>

definition f64_asig :: "float64_t \<Rightarrow> nat" where
  "f64_asig a = (if f64_mag a < 2 ^ 52 then 2 * f64_mag a else 2 ^ 52 + f64_mag a mod 2 ^ 52)"

lemma f64_asig:
  assumes "f64_finite a"
  shows "f64_abs a = real (f64_asig a) * 2 powi (expF64UI a - 1075)"
    and "f64_asig a < 2 ^ 53"
    and "f64_asig a = (if expF64UI a = 0 then 2 * unat (fracF64UI a) else 2 ^ 52 + unat (fracF64UI a))"
    and "unat (fracF64UI a) < 2 ^ 52" "0 \<le> expF64UI a" "expF64UI a \<le> 2046"
proof -
  have E: "expF64UI a = 0 \<longleftrightarrow> f64_mag a < 2 ^ 52" by (auto simp: f64_fields div_eq_0_iff)
  show "f64_abs a = real (f64_asig a) * 2 powi (expF64UI a - 1075)"
  proof (cases "f64_mag a < 2 ^ 52")
    case True
    then have "expF64UI a = 0" using E by blast
    with True show ?thesis
      using power_int_add [of "2::real" "- 1075" 1] by (simp add: f64_abs_def mag_val_def f64_asig_def)
  qed (simp add: f64_abs_def mag_val_def f64_asig_def f64_fields)
  show "f64_asig a < 2 ^ 53" by (simp add: f64_asig_def)
  show "f64_asig a = (if expF64UI a = 0 then 2 * unat (fracF64UI a) else 2 ^ 52 + unat (fracF64UI a))"
    unfolding E by (simp add: f64_asig_def f64_fields)
  show "unat (fracF64UI a) < 2 ^ 52" by (simp add: f64_fields)
  show "0 \<le> expF64UI a" "expF64UI a \<le> 2046"
    using assms by (simp_all add: f64_fields f64_finite_def)
qed

lemma packToF64UI_mag:
  assumes "0 \<le> expn" "nat expn * 2 ^ 52 + unat sig < 2 ^ 63"
  shows "unat (packToF64UI sign expn sig) = of_bool sign * 2 ^ 63 + (nat expn * 2 ^ 52 + unat sig)"
proof -
  have "nat expn < 2 ^ 64" using assms(2) by simp
  then have "expn < 2 ^ 64" using assms(1) by (simp add: nat_less_iff)
  with assms show ?thesis by (subst packToF64UI_unat) (simp_all split: split_of_bool)
qed

text \<open>A packed significand that needs no rounding is the exact result.\<close>

lemma f64_pack_exact:
  assumes "0 \<le> expn" "unat sig \<le> 2 ^ 53" "2 ^ 52 \<le> unat sig \<or> expn = 0" "nat expn * 2 ^ 52 + unat sig < 2047 * 2 ^ 52"
    and "x = real (unat sig) * 2 powi (expn - 1074)"
  shows "f64_rounded sign x s (packToF64UI sign expn sig, s)"
proof (rule fp_rounded_exact [where n = "nat expn * 2 ^ 52 + unat sig"])
  show "x = mag_val 52 (- 1074) (nat expn * 2 ^ 52 + unat sig)"
    using mag_val_scaled [of "unat sig" 52 "nat expn" "- 1074"] assms by (simp add: add.commute)
  show "unat (fst (packToF64UI sign expn sig :: float64_t, s)) =
      of_bool sign * 2 ^ (LENGTH(64) - 1) + (nat expn * 2 ^ 52 + unat sig)"
    using packToF64UI_mag [of expn sig sign] assms(1,4) by simp
qed (use assms in simp_all)

lemma f64_decode: "unat a = of_bool (signF64UI a) * 2 ^ 63 + f64_mag a"
proof -
  have "unat a = unat a div 2 ^ 63 * 2 ^ 63 + f64_mag a" unfolding f64_mag_def by (rule div_mult_mod_eq [symmetric])
  moreover have "unat a div 2 ^ 63 = of_bool (2 ^ 63 \<le> unat a)"
    using unat_less_pow2 [of a] by (cases "2 ^ 63 \<le> unat a") (auto intro: div_nat_eqI)
  ultimately show ?thesis by (simp add: f64_fields)
qed

lemma f64_aligned_word:
  assumes "f64_finite a" "j \<le> 10" "unat h = 2 ^ (52 + j)"
  shows "unat (push_bit j (fracF64UI a) + (if expF64UI a \<noteq> 0 then h else push_bit j (fracF64UI a))) =
    f64_asig a * 2 ^ j"
    and "f64_asig a * 2 ^ j < 2 ^ 63"
proof -
  note A = f64_asig [OF assms(1)]
  have J: "(2::nat) ^ j \<le> 2 ^ 10" using assms(2) by (intro power_increasing) simp_all
  have b: "unat (fracF64UI a) * 2 ^ j < 2 ^ 52 * 2 ^ j" using A(4) by (intro mult_strict_right_mono) simp_all
  have "f64_asig a * 2 ^ j < 2 ^ 53 * 2 ^ j" using A(2) by (intro mult_strict_right_mono) simp_all
  also have "\<dots> \<le> 2 ^ 53 * 2 ^ 10" using J by (rule mult_left_mono) simp
  finally show lt: "f64_asig a * 2 ^ j < 2 ^ 63" by simp
  have p: "unat (push_bit j (fracF64UI a)) = unat (fracF64UI a) * 2 ^ j"
  proof (rule unat_push_bit_nowrap)
    have "(2::nat) ^ 52 * 2 ^ j \<le> 2 ^ 52 * 2 ^ 10" using J by (rule mult_left_mono) simp
    from less_le_trans [OF b this] show "unat (fracF64UI a) * 2 ^ j < 2 ^ LENGTH(64)" by simp
  qed
  show "unat (push_bit j (fracF64UI a) + (if expF64UI a \<noteq> 0 then h else push_bit j (fracF64UI a))) =
    f64_asig a * 2 ^ j"
  proof (cases "expF64UI a = 0")
    case True
    then have "f64_asig a = 2 * unat (fracF64UI a)" using A(3) by simp
    with True lt show ?thesis by (subst unat_add_nowrap) (simp_all add: p)
  next
    case False
    then have "f64_asig a = 2 ^ 52 + unat (fracF64UI a)" using A(3) by simp
    with False lt show ?thesis
      by (subst unat_add_nowrap) (simp_all add: p assms(3) power_add add_mult_distrib)
  qed
qed

lemma f64_shifted_word:
  fixes w :: uint_fast64_t
  assumes "unat w = m" "m < 2 ^ 63" "0 < d" "d < 2 ^ 63"
  shows "unat (softfloat_shiftRightJam64 w (word_of_int d)) = jam (nat d) m"
proof -
  have dw: "unat (word_of_int d :: uint64_t) = nat d"
    using assms unat_word_of_int [where 'a = 64, of d] by simp
  then have "(word_of_int d :: uint64_t) \<noteq> 0" using assms(3) by (auto simp: word_unat_eq_iff)
  then show ?thesis using shiftRightJam64_jam [of "word_of_int d" w] assms dw by simp
qed

lemma normRoundPackToF64_rounded:
  fixes sig :: uint_fast64_t
  assumes sig: "sig \<noteq> 0" "unat sig < 2 ^ 63"
    and y: "y = real (unat sig) \<or> same_cell 1 y (unat sig) \<and> 2 ^ 61 \<le> unat sig"
    and e: "- (2 ^ 14) \<le> expn" "expn < 2 ^ 15" and x: "x = y * 2 powi (expn - 1084)"
  shows "f64_rounded sign x s (softfloat_normRoundPackToF64 sign expn sig s)"
proof -
  define c where "c = unat (softfloat_countLeadingZeros64 sig)"
  have c: "c < 64" "2 ^ 63 \<le> unat sig * 2 ^ c" "unat sig * 2 ^ c < 2 ^ 64"
    using countLeadingZeros64_is_clz [OF sig(1)] unfolding is_clz_def c_def by simp_all
  have "c \<noteq> 0" using c(2) sig(2) by (intro notI) simp
  then obtain d where d: "c = Suc d" by (cases c) simp_all
  have dd: "d < 63" "2 ^ 62 \<le> unat sig * 2 ^ d" "unat sig * 2 ^ d < 2 ^ 63" using c by (simp_all add: d)
  have uc: "uint (softfloat_countLeadingZeros64 sig) - 1 = int d"
    using d unfolding c_def by (simp add: uint_nat)
  have eq: "softfloat_normRoundPackToF64 sign expn sig s =
      (if 10 \<le> int d \<and> (word_of_int (expn - int d) :: uint32_t) < 0x7FD
       then (packToF64UI sign (expn - int d) (push_bit (d - 10) sig), s)
       else softfloat_roundPackToF64 sign (expn - int d) (push_bit d sig) s)"
    using sig(1) unfolding softfloat_normRoundPackToF64_def Let_def uc by (simp add: nat_diff_distrib')
  show ?thesis
  proof (cases "10 \<le> int d \<and> (word_of_int (expn - int d) :: uint32_t) < 0x7FD")
    case True
    then have e0: "0 \<le> expn - int d" and "expn - int d < 2045"
      using word_of_int_less_iff [of "0x7FD :: uint32_t" "expn - int d"] e dd(1) by simp_all
    then have e1: "nat (expn - int d) < 2045" by simp
    have d7: "10 \<le> d" using True by simp
    have P: "unat sig * 2 ^ d = unat sig * 2 ^ (d - 10) * 2 ^ 10"
      using pow2_split [OF d7, where 'a = nat] by (simp only: mult.assoc)
    have b: "2 ^ 52 \<le> unat sig * 2 ^ (d - 10)" "unat sig * 2 ^ (d - 10) < 2 ^ 53"
      using dd(2,3) unfolding P by simp_all
    have p: "unat (push_bit (d - 10) sig) = unat sig * 2 ^ (d - 10)"
      using b by (intro unat_push_bit_nowrap) simp
    have "unat sig < 2 ^ 61"
    proof (rule ccontr)
      assume "\<not> unat sig < 2 ^ 61"
      moreover have "(2::nat) ^ 10 \<le> 2 ^ d" using d7 by (intro power_increasing) simp_all
      ultimately have "2 ^ 61 * 2 ^ 10 \<le> unat sig * 2 ^ d" by (intro mult_mono) simp_all
      with dd(3) show False by simp
    qed
    with y have "y = real (unat sig)" by linarith
    then have "x = real (unat sig * 2 ^ (d - 10)) * 2 powi (expn - int d - 1074)"
      using scale_pow2 [of "expn - 1084" "expn - int d - 1074" "d - 10" y] d7 by (simp add: x)
    then show ?thesis
      unfolding eq if_P [OF True] using b e0 e1 by (intro f64_pack_exact) (unfold p, simp_all)
  next
    case False
    have "f64_rounded sign (y * 2 powi (- 1074 + expn - int 10)) s
        (softfloat_roundPackToF64 sign (expn - int d) (push_bit d sig) s)"
      using y
    proof
      assume y: "y = real (unat sig)"
      show ?thesis
        unfolding y using dd e by (intro f64.roundPack_shifted [OF same_cell_refl [of 0]]) simp_all
    next
      assume *: "same_cell 1 y (unat sig) \<and> 2 ^ 61 \<le> unat sig"
      have "d \<le> 1"
      proof (rule ccontr)
        assume "\<not> d \<le> 1"
        then have "(2::nat) ^ 2 \<le> 2 ^ d" by (intro power_increasing) simp_all
        with * have "2 ^ 61 * 2 ^ 2 \<le> unat sig * 2 ^ d" by (intro mult_mono) simp_all
        with dd(3) show False by simp
      qed
      with * show ?thesis using dd e by (intro f64.roundPack_shifted [where j = 1]) simp_all
    qed
    then show ?thesis unfolding eq if_not_P [OF False] by (simp add: x)
  qed
qed

lemma f64_abs_less_exp:
  assumes fin: "f64_finite a" "f64_finite b" and e: "expF64UI b < expF64UI a"
  shows "f64_abs b < f64_abs a"
proof -
  have "f64_mag b < f64_mag a"
  proof (rule ccontr)
    assume "\<not> f64_mag b < f64_mag a"
    then have "f64_mag a div 2 ^ 52 \<le> f64_mag b div 2 ^ 52" by (intro div_le_mono) simp
    with e show False by (simp add: f64_fields)
  qed
  then show ?thesis by (simp add: f64_abs_def)
qed

lemma f64_abs_nonneg: "0 \<le> f64_abs a"
  unfolding f64_abs_def using mag_val_le_iff [of 52 "- 1074" 0 "f64_mag a"] by simp

lemma f64_inf_eq:
  assumes "f64_inf a" "signF64UI a = sign"
  shows "packToF64UI sign 0x7FF 0 = a"
  using f64_decode [of a] f64_pack_inf [of sign] assms by (simp add: word_unat_eq_iff f64_inf_def)

lemma f64_exp_less:
  assumes "f64_finite a" "\<not> f64_finite b"
  shows "expF64UI a - expF64UI b < 0" "(expF64UI a - expF64UI b = 0) = False"
    "\<not> expF64UI b - expF64UI a < 0" "(expF64UI b - expF64UI a = 0) = False"
  using f64_asig(6) [OF assms(1)] f64_class(1) [of b] assms(2) by simp_all

end

