(* ===== verification/F64_Division.thy ===== *)
theory F64_Division
  imports Softfloat_F64
begin

text \<open>
  The quotient of double-precision division (\<^verbatim>\<open>softfloat/f64_div.c\<close>). The routine multiplies by an
  estimate of the reciprocal twice to get two halves of the quotient and corrects the result with an
  exact remainder when the estimate is close to a multiple of 512. The lemmas bound the error of the
  estimates and show that the significand handed to the rounding routine lies in the same cell of
  half a unit in the last place as the exact quotient.
\<close>

lemma recip_estimate:
  fixes b bl X r :: nat
  assumes b: "2 ^ 31 \<le> b" "b < 2 ^ 32" and bl: "bl < 2 ^ 32" and r: "r = (2 ^ 63 - 1) div b - 2" and X: "0 < X"
  defines "x \<equiv> X div 2 ^ 32" and "B \<equiv> b * 2 ^ 32 + bl"
  defines "z \<equiv> x * r div 2 ^ 32"
  shows "z * B < X * 2 ^ 31" and "3 * x + 2 ^ 32 \<le> c * 2 ^ 32 \<Longrightarrow> X * 2 ^ 31 < (z + 1 + c) * B"
    and "r + 2 < 2 ^ 32"
proof -
  have b0: "0 < b" using b(1) by (rule less_le_trans [rotated]) simp
  define R where "R = (2 ^ 63 - 1) div b"
  have R1: "R * b \<le> 2 ^ 63 - 1" unfolding R_def by simp
  have R2: "2 ^ 63 - 1 < (R + 1) * b"
    unfolding R_def using dividend_less_div_times [OF b0, of "2 ^ 63 - 1"] by simp
  have "2 \<le> R"
  proof -
    have "2 * b \<le> 2 ^ 63 - 1" using b(2) by simp
    then show ?thesis unfolding R_def using b0 by (simp only: less_eq_div_iff_mult_less_eq)
  qed
  then have rR: "r + 2 = R" by (simp add: r R_def)
  show r32: "r + 2 < 2 ^ 32"
  proof (rule ccontr)
    assume "\<not> r + 2 < 2 ^ 32"
    then have "2 ^ 32 * 2 ^ 31 \<le> R * b" using b(1) rR by (intro mult_mono) simp_all
    with R1 show False by simp
  qed
  have rb: "r * b + r \<le> 2 ^ 63 - 1"
  proof -
    have "r \<le> 2 * b" using r32 b(1) by simp
    moreover have "R * b = r * b + 2 * b" unfolding rR [symmetric] by (simp only: add_mult_distrib)
    ultimately show ?thesis using R1 by linarith
  qed
  have rb3: "2 ^ 63 \<le> r * b + 3 * b"
  proof -
    have "(R + 1) * b = r * b + 3 * b" unfolding rR [symmetric] by (simp add: add_mult_distrib)
    then show ?thesis using R2 by linarith
  qed
  have x: "x * 2 ^ 32 \<le> X" "X < (x + 1) * 2 ^ 32" unfolding x_def by (simp_all add: dividend_less_div_times)
  have z: "z * 2 ^ 32 \<le> x * r" "x * r < (z + 1) * 2 ^ 32" unfolding z_def by (simp_all add: dividend_less_div_times)
  show "z * B < X * 2 ^ 31"
  proof (cases "x = 0")
    case True
    then show ?thesis using X by (simp add: z_def)
  next
    case False
    have "B \<le> (b + 1) * 2 ^ 32" unfolding B_def using bl by simp
    then have "z * B \<le> z * ((b + 1) * 2 ^ 32)" by (rule mult_left_mono) simp
    also have "\<dots> = z * 2 ^ 32 * (b + 1)" by (simp only: ac_simps)
    also have "\<dots> \<le> x * r * (b + 1)" using z(1) by (rule mult_right_mono) simp
    also have "\<dots> = x * (r * b + r)" by (simp add: algebra_simps)
    also have "\<dots> \<le> x * (2 ^ 63 - 1)" using rb by (rule mult_left_mono) simp
    also have "\<dots> < x * 2 ^ 63" using False by simp
    also have "\<dots> = x * 2 ^ 32 * 2 ^ 31" by simp
    also have "\<dots> \<le> X * 2 ^ 31" using x(1) by (rule mult_right_mono) simp
    finally show ?thesis .
  qed
  show "X * 2 ^ 31 < (z + 1 + c) * B" if c: "3 * x + 2 ^ 32 \<le> c * 2 ^ 32"
  proof -
    have "X * 2 ^ 31 < (x + 1) * 2 ^ 32 * 2 ^ 31" using x(2) by (rule mult_strict_right_mono) simp
    also have "\<dots> = x * 2 ^ 63 + 2 ^ 63" by simp
    also have "\<dots> \<le> x * (r * b + 3 * b) + b * 2 ^ 32"
      using rb3 b(1) by (intro add_mono mult_left_mono) simp_all
    also have "\<dots> = x * r * b + b * (3 * x + 2 ^ 32)" by (simp add: algebra_simps)
    also have "\<dots> \<le> (z + 1) * 2 ^ 32 * b + b * (c * 2 ^ 32)"
      using z(2) c by (intro add_mono mult_right_mono mult_left_mono) simp_all
    also have "\<dots> = (z + 1 + c) * (b * 2 ^ 32)" by (simp add: algebra_simps)
    also have "\<dots> \<le> (z + 1 + c) * B" unfolding B_def by (rule mult_left_mono) simp_all
    finally show ?thesis .
  qed
qed

lemma div_rem_word:
  fixes w :: uint64_t and dt bh bw :: uint32_t
  assumes "unat dt = 2 * z" "unat bh = b" "unat bw = 16 * m"
  shows "push_bit 28 (w - ucast dt * ucast bh) - ucast dt * ucast (drop_bit 4 bw) =
    word_of_int (int (unat w) * 2 ^ 28 - int z * (int b * 2 ^ 29 + 2 * int m))"
proof -
  have u: "ucast v = (of_nat (unat v) :: uint64_t)" for v :: uint32_t by simp
  have 1: "ucast dt = (of_nat (2 * z) :: uint64_t)" "ucast bh = (of_nat b :: uint64_t)"
    unfolding u assms(1,2) by (rule refl)+
  have "unat (drop_bit 4 bw) = m" by (simp add: unat_drop_bit_div assms(3))
  then have 2: "ucast (drop_bit 4 bw) = (of_nat m :: uint64_t)" unfolding u by (simp only:)
  have 3: "w = of_nat (unat w)" by simp
  show ?thesis
    unfolding 1 2 push_bit_eq_mult by (subst 3) (simp add: algebra_simps)
qed

lemma f64_recip_word:
  fixes bh :: uint32_t
  assumes "2 ^ 31 \<le> unat bh"
  shows "unat (softfloat_approxRecip32_1 bh - 2) = (2 ^ 63 - 1) div unat bh - 2"
proof -
  define R where "R = (2 ^ 63 - 1) div unat bh"
  have b: "0 < unat bh" using assms by (rule less_le_trans [rotated]) simp
  have b32: "unat bh < 2 ^ 32" using unat_less_pow2 [of bh] by simp
  have "R < 2 ^ 32"
  proof -
    have "(2 ^ 63 - 1) < 2 ^ 32 * unat bh" using assms by simp
    then show ?thesis unfolding R_def using b by (simp only: div_less_iff_less_mult)
  qed
  moreover have "unat ((0x7FFFFFFFFFFFFFFF :: uint64_t) div ucast bh) = R"
    unfolding unat_div unat_ucast_up [where 'a = 32 and 'b = 64, simplified] R_def by simp
  ultimately have u: "unat (softfloat_approxRecip32_1 bh) = R"
    unfolding softfloat_approxRecip32_1_def by (simp add: unat_ucast_mod)
  have "2 * unat bh \<le> 2 ^ 63 - 1" using b32 by simp
  then have "2 \<le> R" unfolding R_def using b by (simp only: less_eq_div_iff_mult_less_eq)
  with u show ?thesis unfolding R_def [symmetric] by (simp add: unat_diff_nowrap)
qed

lemma f64_estimate_word:
  fixes w :: uint64_t and recip :: uint32_t
  shows "unat (drop_bit 32 (ucast (ucast (drop_bit 32 w) :: uint32_t) * ucast recip :: uint64_t)) =
    unat w div 2 ^ 32 * unat recip div 2 ^ 32"
    and "unat w div 2 ^ 32 * unat recip div 2 ^ 32 < 2 ^ 32"
proof -
  have h: "unat w div 2 ^ 32 < 2 ^ 32" using unat_less_pow2 [of w] by simp
  have u: "unat (ucast (ucast (drop_bit 32 w) :: uint32_t) :: uint64_t) = unat w div 2 ^ 32"
    using h by (simp add: unat_ucast_mod unat_drop_bit_div)
  have ur: "unat (ucast recip :: uint64_t) = unat recip" by (rule unat_ucast_up) simp
  have r: "unat recip < 2 ^ 32" using unat_less_pow2 [of recip] by simp
  have "unat (ucast (ucast (drop_bit 32 w) :: uint32_t) * ucast recip :: uint64_t) = unat w div 2 ^ 32 * unat recip"
    using h r unat_mult32 [of "ucast (ucast (drop_bit 32 w) :: uint32_t)" "ucast recip"] unfolding u ur by blast
  then show "unat (drop_bit 32 (ucast (ucast (drop_bit 32 w) :: uint32_t) * ucast recip :: uint64_t)) =
      unat w div 2 ^ 32 * unat recip div 2 ^ 32"
    by (simp only: unat_drop_bit_div)
  have "unat w div 2 ^ 32 * unat recip < 2 ^ 32 * 2 ^ 32" using h r by (intro mult_strict_mono) simp_all
  then show "unat w div 2 ^ 32 * unat recip div 2 ^ 32 < 2 ^ 32" by (simp add: div_less_iff_less_mult)
qed

text \<open>The estimate lies at most 64 above the quotient, so it is in the right cell of width 512, or
  the exact remainder at the nearest multiple of 512 decides.\<close>

lemma quotient_cell:
  fixes A B s0 :: nat and R :: int
  assumes B: "0 < B" and lo: "s0 * B < A * 2 ^ 63 + 64 * B" and hi: "A * 2 ^ 63 < s0 * B"
    and R: "s0 mod 512 < 64 \<Longrightarrow> int (A * 2 ^ 63) = int ((s0 - s0 mod 128) * B) + 128 * R"
  shows "same_cell 9 (real A * 2 ^ 63 / real B)
    (if s0 mod 512 < 64
     then let s1 = s0 - s0 mod 128 in if R < 0 then s1 - 128 else if R \<noteq> 0 then s1 + 1 else s1
     else s0)"
proof -
  define y where "y = real A * 2 ^ 63 / real B"
  have yB: "y * real B = real (A * 2 ^ 63)" using B by (simp add: y_def)
  have B': "0 < real B" using B by simp
  have "real (s0 * B) < real (A * 2 ^ 63 + 64 * B)" using lo by (simp only: of_nat_less_iff)
  then have "real s0 * real B < (y + 64) * real B" using yB by (simp add: distrib_right)
  then have y1: "real s0 < y + 64" using B' by (simp only: mult_less_cancel_right_pos)
  have "real (A * 2 ^ 63) < real (s0 * B)" using hi by (simp only: of_nat_less_iff)
  then have "y * real B < real s0 * real B" using yB by simp
  then have y2: "y < real s0" using B' by (simp only: mult_less_cancel_right_pos)
  have y0: "0 \<le> y" by (simp add: y_def)
  define t \<rho> where "t = s0 div 512" and "\<rho> = s0 mod 512"
  have t: "s0 = t * 512 + \<rho>" "\<rho> < 512" by (simp_all add: t_def \<rho>_def)
  have rt: "real s0 = real t * 512 + real \<rho>" "real \<rho> < 512" using t by simp_all
  show ?thesis
  proof (cases "s0 mod 512 < 64")
    case False
    then have "64 \<le> \<rho>" by (simp add: \<rho>_def)
    then have "same_cell 9 y s0"
      by (intro same_cellI [of t]) (use t rt y1 y2 in simp_all)
    with False show ?thesis by (simp add: y_def)
  next
    case True
    then have r64: "\<rho> < 64" by (simp add: \<rho>_def)
    have "s0 mod 128 = \<rho>" using True mod_mod_cancel [of 128 512 s0] by (simp add: \<rho>_def)
    then have s1: "s0 - s0 mod 128 = t * 512" using t by simp
    have "real_of_int (int (A * 2 ^ 63)) = real_of_int (int (t * 512 * B) + 128 * R)"
      using R [OF True] unfolding s1 by (simp only:)
    then have eq: "y * real B = real (t * 512) * real B + 128 * real_of_int R" using yB by simp
    have sgn: "y < real (t * 512) \<longleftrightarrow> R < 0" "y = real (t * 512) \<longleftrightarrow> R = 0"
      using eq B' mult_less_cancel_right_pos [OF B', of y "real (t * 512)"] by auto
    consider "R < 0" | "R = 0" | "0 < R" by linarith
    then show ?thesis
    proof cases
      case 1
      then have yt: "y < real (t * 512)" using sgn by simp
      then obtain u where u: "t = Suc u" using y0 by (cases t) auto
      have "same_cell 9 y (t * 512 - 128)"
        by (intro same_cellI [of u]) (use u yt y1 t rt r64 in simp_all)
      with True 1 show ?thesis unfolding s1 Let_def y_def by simp
    next
      case 2
      then have "y = real (t * 512)" using sgn by simp
      with True 2 show ?thesis unfolding s1 Let_def y_def by (simp add: same_cell_def)
    next
      case 3
      then have yt: "real (t * 512) < y" using sgn by linarith
      have "same_cell 9 y (t * 512 + 1)"
        by (intro same_cellI [of t]) (use yt y2 t rt r64 in simp_all)
      with True 3 show ?thesis unfolding s1 Let_def y_def by simp
    qed
  qed
qed

text \<open>The last step of the routine: the sign and the vanishing of the remainder correct the estimate.\<close>

definition f64_div_adjust :: "bool \<Rightarrow> uint64_t \<Rightarrow> uint64_t \<Rightarrow> uint64_t" where
  "f64_div_adjust near rem sigZ =
     (if near then
        if rem AND 0x8000000000000000 \<noteq> 0 then (sigZ AND NOT 0x7F) - push_bit 7 1
        else if rem \<noteq> 0 then (sigZ AND NOT 0x7F) OR 1 else sigZ AND NOT 0x7F
      else sigZ)"

lemma f64_div_adjust_cell:
  fixes A B s0 :: nat and R :: int
  assumes sig: "unat sigZ = s0" and rem: "rem = word_of_int R" and B: "0 < B"
    and lo: "s0 * B < A * 2 ^ 63 + 64 * B" and hi: "A * 2 ^ 63 < s0 * B"
    and Req: "int (A * 2 ^ 63) = int ((s0 - s0 mod 128) * B) + 128 * R"
    and R: "s0 mod 512 < 64 \<Longrightarrow> - (2 ^ 63) \<le> R \<and> R < 2 ^ 63"
  shows "same_cell 9 (real A * 2 ^ 63 / real B) (unat (f64_div_adjust (s0 mod 512 < 64) rem sigZ))"
proof -
  have us1: "unat (sigZ AND NOT 0x7F) = s0 - s0 mod 128"
    unfolding sig [symmetric] using unat_and_not_mask [of "0x7F :: uint64_t" 7 sigZ] by simp
  define s1 where "s1 = s0 - s0 mod 128"
  have s128: "s1 = 128 * (s0 div 128)" by (simp add: s1_def minus_mod_eq_mult_div)
  have big: "128 \<le> s1" if "R < 0"
  proof -
    have "int (A * 2 ^ 63) < int (s1 * B)" using Req that unfolding s1_def by simp
    then have "s1 \<noteq> 0" by (intro notI) simp
    then show ?thesis unfolding s128 by simp
  qed
  have "unat (f64_div_adjust (s0 mod 512 < 64) rem sigZ) =
      (if s0 mod 512 < 64
       then let s1 = s0 - s0 mod 128 in if R < 0 then s1 - 128 else if R \<noteq> 0 then s1 + 1 else s1
       else s0)"
  proof (cases "s0 mod 512 < 64")
    case True
    note sgn = sign_bit_word_of_int [OF conjunct1 [OF R [OF True]] conjunct2 [OF R [OF True]], folded rem]
    have "unat ((sigZ AND NOT 0x7F) - push_bit 7 1) = s1 - 128" if "R < 0"
      using big [OF that] us1 unfolding s1_def [symmetric] by (subst unat_diff_nowrap) simp_all
    moreover have "unat ((sigZ AND NOT 0x7F) OR 1) = s1 + 1"
      using us1 s128 unfolding unat_or_1 s1_def [symmetric] by simp
    ultimately show ?thesis
      unfolding f64_div_adjust_def sgn Let_def using True us1 unfolding s1_def [symmetric] by simp
  qed (simp add: f64_div_adjust_def sig)
  then show ?thesis using quotient_cell [OF B lo hi Req] by simp
qed

text \<open>The divisor as the routine sees it: its upper and lower halves and the reciprocal estimate.\<close>

lemma f64_div_divisor:
  fixes sigB :: uint64_t
  assumes B: "2 ^ 63 \<le> unat sigB" "16 dvd unat sigB"
  obtains b m r where "unat sigB = b * 2 ^ 32 + 16 * m" "unat (ucast (drop_bit 32 sigB) :: uint32_t) = b"
    "unat (ucast sigB :: uint32_t) = 16 * m" "2 ^ 31 \<le> b" "b < 2 ^ 32" "16 * m < 2 ^ 32"
    "r = (2 ^ 63 - 1) div b - 2" "unat (softfloat_approxRecip32_1 (ucast (drop_bit 32 sigB)) - 2) = r"
proof -
  define b bl where "b = unat sigB div 2 ^ 32" and "bl = unat sigB mod 2 ^ 32"
  have BB: "unat sigB = b * 2 ^ 32 + bl" unfolding b_def bl_def by (rule div_mult_mod_eq [symmetric])
  have B64: "unat sigB < 2 ^ 64" using unat_less_pow2 [of sigB] by simp
  have ub: "unat (ucast (drop_bit 32 sigB) :: uint32_t) = b" "unat (ucast sigB :: uint32_t) = bl"
    using B64 unfolding b_def bl_def by (simp_all add: unat_ucast_mod unat_drop_bit_div)
  have b: "2 ^ 31 \<le> b" "b < 2 ^ 32" "bl < 2 ^ 32" using B(1) B64 unfolding b_def bl_def by simp_all
  have "16 dvd bl" using B(2) unfolding bl_def by (simp add: dvd_mod)
  then obtain m where m: "bl = 16 * m" ..
  show ?thesis
    using that [of b m "(2 ^ 63 - 1) div b - 2"] BB ub b m f64_recip_word [of "ucast (drop_bit 32 sigB)"] by simp
qed

text \<open>Each half of the quotient is estimated from below, and the remainder that the words hold is exact.\<close>

lemma f64_div_first_half:
  fixes A B b m r z :: nat
  assumes B: "B = b * 2 ^ 32 + 16 * m" and b: "2 ^ 31 \<le> b" "b < 2 ^ 32" "16 * m < 2 ^ 32"
    and r: "r = (2 ^ 63 - 1) div b - 2" and A: "0 < A" "A < B"
  defines "z \<equiv> A div 2 ^ 32 * r div 2 ^ 32"
  defines "R \<equiv> int A * 2 ^ 28 - int z * (int b * 2 ^ 29 + 2 * int m)"
  shows "8 * R = int A * 2 ^ 31 - int z * int B" "0 < R" "8 * R < 5 * int B" "z < 2 ^ 31"
proof -
  note est = recip_estimate [OF b r, folded B]
  have B64: "B < 2 ^ 64" using B b by simp
  have z1: "z * B < A * 2 ^ 31" unfolding z_def using A(1) by (intro est(1))
  have z2: "A * 2 ^ 31 < (z + 1 + 4) * B"
  proof -
    have "A div 2 ^ 32 < 2 ^ 32" using A B64 by simp
    then show ?thesis unfolding z_def using A by (intro est(2)) simp_all
  qed
  show "z < 2 ^ 31"
  proof -
    have "A * 2 ^ 31 \<le> B * 2 ^ 31" using A(2) by (intro mult_right_mono) simp_all
    with z1 have "z * B < 2 ^ 31 * B" by (simp only: mult.commute [of _ B])
    then show ?thesis by (simp only: mult_less_cancel2)
  qed
  have B8: "int B = 8 * (int b * 2 ^ 29 + 2 * int m)" by (simp add: B)
  show R8: "8 * R = int A * 2 ^ 31 - int z * int B" unfolding R_def B8 by (simp add: algebra_simps)
  have "int (z * B) < int (A * 2 ^ 31)" "int (A * 2 ^ 31) < int ((z + 1 + 4) * B)"
    using z1 z2 by (simp_all only: of_nat_less_iff)
  then show "0 < R" "8 * R < 5 * int B" using R8 by (simp_all add: algebra_simps)
qed

lemma f64_div_second_half:
  fixes B b m r :: nat and R :: int
  assumes B: "B = b * 2 ^ 32 + 16 * m" and b: "2 ^ 31 \<le> b" "b < 2 ^ 32" "16 * m < 2 ^ 32"
    and r: "r = (2 ^ 63 - 1) div b - 2" and R: "0 < R" "8 * R < 5 * int B"
  defines "q \<equiv> nat R div 2 ^ 32 * r div 2 ^ 32"
  shows "q * B < nat R * 2 ^ 31" "nat R * 2 ^ 31 < (q + 4) * B" "q < 5 * 2 ^ 28"
proof -
  note est = recip_estimate [OF b r, folded B]
  have "nat R < 5 * 2 ^ 61" using R B b by (simp add: nat_less_iff)
  then have x: "nat R div 2 ^ 32 < 5 * 2 ^ 29" by (simp add: div_less_iff_less_mult)
  show q1: "q * B < nat R * 2 ^ 31" unfolding q_def using R by (intro est(1)) simp
  have "nat R * 2 ^ 31 < (q + 1 + 3) * B" unfolding q_def using R x by (intro est(2)) simp_all
  then show "nat R * 2 ^ 31 < (q + 4) * B" by (simp add: add.commute [of 4])
  have "8 * nat R \<le> 5 * B" using R by simp
  then have "8 * nat R * 2 ^ 28 \<le> 5 * B * 2 ^ 28" by (rule mult_right_mono) simp
  then have "nat R * 2 ^ 31 \<le> 5 * 2 ^ 28 * B" by simp
  with q1 have "q * B < 5 * 2 ^ 28 * B" by (rule less_le_trans)
  then show "q < 5 * 2 ^ 28" by (simp only: mult_less_cancel2)
qed

text \<open>The joined estimate, and the remainder at the multiple of 128 below it.\<close>

lemma f64_div_joined:
  fixes A B b m z q :: nat and R :: int
  assumes B: "B = b * 2 ^ 32 + 16 * m" "B < 2 ^ 64"
    and R: "0 < R" "8 * R = int A * 2 ^ 31 - int z * int B"
    and q: "q * B < nat R * 2 ^ 31" "nat R * 2 ^ 31 < (q + 4) * B"
  defines "s0 \<equiv> z * 2 ^ 32 + 16 * (q + 4)" and "q' \<equiv> q + 4 - (q + 4) mod 8"
  defines "R' \<equiv> R * 2 ^ 28 - int q' * (int b * 2 ^ 29 + 2 * int m)"
  shows "s0 * B < A * 2 ^ 63 + 64 * B" "A * 2 ^ 63 < s0 * B"
    and "int (A * 2 ^ 63) = int ((s0 - s0 mod 128) * B) + 128 * R'"
    and "s0 mod 512 < 64 \<Longrightarrow> - (2 ^ 63) \<le> R' \<and> R' < 2 ^ 63"
proof -
  have tot: "A * 2 ^ 63 = z * 2 ^ 32 * B + 16 * (nat R * 2 ^ 31)"
  proof -
    have "int (A * 2 ^ 63) = 2 ^ 32 * (int z * int B + 8 * R)" unfolding R(2) by simp
    also have "\<dots> = int (z * 2 ^ 32 * B + 16 * (nat R * 2 ^ 31))" using R by simp
    finally show ?thesis by (simp only: of_nat_eq_iff)
  qed
  show "s0 * B < A * 2 ^ 63 + 64 * B" "A * 2 ^ 63 < s0 * B"
    unfolding tot s0_def using q by (simp_all add: algebra_simps)
  have B8: "int B = 8 * (int b * 2 ^ 29 + 2 * int m)" by (simp add: B)
  have R8': "8 * R' = R * 2 ^ 31 - int q' * int B" unfolding R'_def B8 by (simp add: algebra_simps)
  have q128: "s0 mod 128 = 16 * ((q + 4) mod 8)"
  proof -
    have "s0 = 128 * (z * 2 ^ 25) + 16 * (q + 4)" by (simp add: s0_def)
    then have "s0 mod 128 = 16 * (q + 4) mod (16 * 8)"
      by (simp only: mod_mult_self4 mult_numeral_left_semiring_numeral semiring_norm mult_num_simps arith_simps)
    then show ?thesis by (simp only: mult_mod_right)
  qed
  then have s1: "s0 - s0 mod 128 = z * 2 ^ 32 + 16 * q'"
    unfolding s0_def q'_def by (simp add: diff_mult_distrib2)
  have "int (A * 2 ^ 63) = int z * 2 ^ 32 * int B + 16 * (R * 2 ^ 31)" unfolding tot using R by simp
  also have "R * 2 ^ 31 = 8 * R' + int q' * int B" using R8' by simp
  finally show "int (A * 2 ^ 63) = int ((s0 - s0 mod 128) * B) + 128 * R'" unfolding s1 by (simp add: algebra_simps)
  show "- (2 ^ 63) \<le> R' \<and> R' < 2 ^ 63" if "s0 mod 512 < 64"
  proof -
    have "s0 mod 128 < 64" using that mod_mod_cancel [of 128 512 s0] by simp
    then have "(q + 4) mod 8 \<le> 3" unfolding q128 by simp
    then have "q + 1 \<le> q'" "q' \<le> q + 4" unfolding q'_def by simp_all
    then have "(q + 1) * B \<le> q' * B" "q' * B \<le> (q + 4) * B" by (intro mult_right_mono; simp)+
    with q have "int (q' * B) < int (nat R * 2 ^ 31 + 4 * B)" "int (nat R * 2 ^ 31) < int (q' * B + 3 * B)"
      by (simp_all only: of_nat_less_iff) (simp_all add: algebra_simps)
    then have "- 4 * int B < 8 * R'" "8 * R' < 3 * int B" unfolding R8' using R by simp_all
    then show ?thesis using B(2) by simp
  qed
qed

lemma f64_div_sigZ_cell:
  fixes sigA sigB :: uint64_t
  assumes B: "2 ^ 63 \<le> unat sigB" "16 dvd unat sigB" and A: "0 < unat sigA" "unat sigA < unat sigB"
  shows "same_cell 9 (real (unat sigA) * 2 ^ 63 / real (unat sigB)) (unat (f64_div_sigZ sigA sigB))"
proof -
  obtain b m r where BB: "unat sigB = b * 2 ^ 32 + 16 * m" and ub: "unat (ucast (drop_bit 32 sigB) :: uint32_t) = b"
    "unat (ucast sigB :: uint32_t) = 16 * m" and b: "2 ^ 31 \<le> b" "b < 2 ^ 32" "16 * m < 2 ^ 32"
    and r: "r = (2 ^ 63 - 1) div b - 2" "unat (softfloat_approxRecip32_1 (ucast (drop_bit 32 sigB)) - 2) = r"
    using f64_div_divisor [OF B] by blast
  have B64: "unat sigB < 2 ^ 64" using unat_less_pow2 [of sigB] by simp
  define bh bw :: uint32_t where "bh = ucast (drop_bit 32 sigB)" and "bw = ucast sigB"
  define recip where "recip = softfloat_approxRecip32_1 bh - 2"
  have ur: "unat recip = r" using r by (simp add: recip_def bh_def)
  define z where "z = unat sigA div 2 ^ 32 * r div 2 ^ 32"
  define R where "R = int (unat sigA) * 2 ^ 28 - int z * (int b * 2 ^ 29 + 2 * int m)"
  note R = f64_div_first_half [OF BB b r(1) A, folded z_def, folded R_def]
  define sig32Z where "sig32Z = (ucast (drop_bit 32 (ucast (ucast (drop_bit 32 sigA) :: uint32_t) * ucast recip :: uint64_t)) :: uint32_t)"
  have uz: "unat sig32Z = z"
    using f64_estimate_word [of sigA recip] unfolding ur sig32Z_def z_def by (simp add: unat_ucast_mod)
  have udt: "unat (push_bit 1 sig32Z) = 2 * z" using R(4) by (subst unat_push_bit_nowrap) (simp_all add: uz)
  define rem where "rem = push_bit 28 (sigA - ucast (push_bit 1 sig32Z) * ucast bh) - ucast (push_bit 1 sig32Z) * ucast (drop_bit 4 bw)"
  have rem: "rem = word_of_int R"
    unfolding rem_def R_def bh_def bw_def using udt ub by (intro div_rem_word)
  have "8 * R < 5 * int (2 ^ 64)" using R(3) B64 by linarith
  then have urem: "unat rem = nat R" unfolding rem using R(2) by (intro unat_word_of_int_pos) simp_all
  define q where "q = nat R div 2 ^ 32 * r div 2 ^ 32"
  note q = f64_div_second_half [OF BB b r(1) R(2,3), folded q_def]
  define qw where "qw = (ucast (drop_bit 32 (ucast (ucast (drop_bit 32 rem) :: uint32_t) * ucast recip :: uint64_t) + 4) :: uint32_t)"
  have uq: "unat qw = q + 4"
  proof -
    have "unat (drop_bit 32 (ucast (ucast (drop_bit 32 rem) :: uint32_t) * ucast recip :: uint64_t) + 4) = q + 4"
      using f64_estimate_word(1) [of rem recip] q(3) unfolding ur urem q_def [symmetric]
      by (subst unat_add_nowrap) simp_all
    with q(3) show ?thesis unfolding qw_def by (simp add: unat_ucast_mod)
  qed
  define q' where "q' = q + 4 - (q + 4) mod 8"
  define R' where "R' = R * 2 ^ 28 - int q' * (int b * 2 ^ 29 + 2 * int m)"
  define s0 where "s0 = z * 2 ^ 32 + 16 * (q + 4)"
  note joined = f64_div_joined [OF BB B64 R(2,1) q(1,2), folded q'_def s0_def, folded R'_def]
  define rem' where "rem' = push_bit 28 (rem - ucast (push_bit 1 (qw AND NOT 7)) * ucast bh)
      - ucast (push_bit 1 (qw AND NOT 7)) * ucast (drop_bit 4 bw)"
  have rem': "rem' = word_of_int R'"
  proof -
    have uq': "unat (qw AND NOT 7) = q'"
      unfolding q'_def uq [symmetric] using unat_and_not_mask [of "7 :: uint32_t" 3 qw] by simp
    have "unat (push_bit 1 (qw AND NOT 7)) = 2 * q'"
      using q(3) by (subst unat_push_bit_nowrap) (unfold uq', simp_all add: q'_def)
    then have "rem' = word_of_int (int (unat rem) * 2 ^ 28 - int q' * (int b * 2 ^ 29 + 2 * int m))"
      unfolding rem'_def bh_def bw_def using ub by (intro div_rem_word)
    then show ?thesis unfolding urem R'_def using R by simp
  qed
  define sigZ where "sigZ = (push_bit 32 (ucast sig32Z) + push_bit 4 (ucast qw) :: uint64_t)"
  have usig: "unat sigZ = s0"
  proof -
    have "unat (push_bit 32 (ucast sig32Z) :: uint64_t) = z * 2 ^ 32"
      using R(4) by (subst unat_push_bit_nowrap) (simp_all add: unat_ucast_up uz)
    moreover have "unat (push_bit 4 (ucast qw) :: uint64_t) = 16 * (q + 4)"
      using q(3) by (subst unat_push_bit_nowrap) (simp_all add: unat_ucast_up uq)
    ultimately show ?thesis unfolding sigZ_def s0_def using R(4) q(3) by (subst unat_add_nowrap) simp_all
  qed
  have c1: "sigZ AND 0x1FF < push_bit 4 4 \<longleftrightarrow> s0 mod 512 < 64"
    using unat_and_mask [of "0x1FF :: uint64_t" 9 sigZ] by (simp add: word_less_nat_alt usig)
  have eq: "f64_div_sigZ sigA sigB = f64_div_adjust (s0 mod 512 < 64) rem' sigZ"
    unfolding f64_div_sigZ_def f64_div_adjust_def Let_def bh_def [symmetric] bw_def [symmetric] recip_def [symmetric]
      sig32Z_def [symmetric] rem_def [symmetric] qw_def [symmetric] sigZ_def [symmetric] rem'_def [symmetric] c1 ..
  show ?thesis
    unfolding eq using f64_div_adjust_cell [OF usig rem' _ joined] B(1) by simp
qed

end
