(* ===== verification/F64_Arith.thy ===== *)
theory F64_Arith
  imports F64_Division
begin

text \<open>
  Correctness of the double-precision arithmetic: for finite operands each operation delivers the
  correctly rounded exact result with the flags IEEE 754 asks for; NaN, infinite and zero operands
  give the results and flags of the special cases.
\<close>

section \<open>Multiplication\<close>

lemma f64_mul_norm:
  assumes "f64_finite a" "f64_finite b" "f64_mag a \<noteq> 0" "f64_mag b \<noteq> 0"
    and "f64_norm a = (eA, gA)" "f64_norm b = (eB, gB)"
  defines "z \<equiv> softfloat_mul64To128 (push_bit 10 (gA OR 0x0010000000000000)) (push_bit 11 (gB OR 0x0010000000000000))"
  defines "sigZ \<equiv> v64 z OR of_bool (v0 z \<noteq> 0)"
  defines "signZ \<equiv> signF64UI a \<noteq> signF64UI b"
  shows "f64_mul a b s =
    (if unat sigZ < 2 ^ (52 + 10) then softfloat_roundPackToF64 signZ (eA + eB - 0x3FF - 1) (push_bit 1 sigZ) s
     else softfloat_roundPackToF64 signZ (eA + eB - 0x3FF) sigZ s)"
proof -
  have nz: "(expF64UI a = 0 \<and> fracF64UI a = 0) = False"
    "(expF64UI b = 0 \<and> fracF64UI b = 0) = False"
    using assms by (simp_all add: f64_zero_iff)
  have fin: "(expF64UI a = 0x7FF) = False" "(expF64UI b = 0x7FF) = False"
    using assms by (simp_all add: f64_finite_exp)
  have lt: "sigZ < 0x4000000000000000 \<longleftrightarrow> unat sigZ < 2 ^ (52 + 10)" by (simp add: word_less_nat_alt)
  note n = assms(5,6) [unfolded f64_norm_def Let_def]
  show ?thesis
    unfolding lt [symmetric] unfolding sigZ_def z_def signZ_def f64_mul_def Let_def fin nz if_False n prod.case ..
qed

lemma f64_mul_rounded_nonzero:
  assumes fin: "f64_finite a" "f64_finite b" and nz: "f64_mag a \<noteq> 0" "f64_mag b \<noteq> 0"
  shows "f64_rounded (signF64UI a \<noteq> signF64UI b) (f64_abs a * f64_abs b) s (f64_mul a b s)"
proof -
  obtain eA gA eB gB where n: "f64_norm a = (eA, gA)" "f64_norm b = (eB, gB)" by fastforce
  define ma mb where "ma = unat (gA OR 0x0010000000000000)" and "mb = unat (gB OR 0x0010000000000000)"
  note A = f64_norm_sig [OF fin(1) nz(1) n(1), folded ma_def]
  note B = f64_norm_sig [OF fin(2) nz(2) n(2), folded mb_def]
  define z where "z = softfloat_mul64To128 (push_bit 10 (gA OR 0x0010000000000000)) (push_bit 11 (gB OR 0x0010000000000000))"
  define sigZ where "sigZ = v64 z OR of_bool (v0 z \<noteq> 0)"
  have prod: "2 ^ 104 \<le> ma * mb" "ma * mb < 2 ^ 106"
    using mult_mono [OF A(1) B(1)] mult_strict_mono [OF A(2) B(2)] by simp_all
  have "unat (push_bit 10 (gA OR 0x0010000000000000)) = ma * 2 ^ 10" "unat (push_bit 11 (gB OR 0x0010000000000000)) = mb * 2 ^ 11"
    using A(2) B(2) by (subst unat_push_bit_nowrap; simp add: ma_def mb_def)+
  then have sigZ: "unat sigZ = jam 64 (ma * mb * 2 ^ 21)"
    unfolding sigZ_def uint128_jam z_def mul64To128_val by (simp add: ac_simps)
  have "2 ^ (52 + 10 - 1) \<le> unat sigZ"
    using jam_even_less [of "2 ^ 61" 64 "ma * mb * 2 ^ 21"] prod(1) unfolding sigZ by simp
  moreover have "unat sigZ < 2 ^ (52 + 10 + 1)"
    using jam_even_less [of "2 ^ 63" 64 "ma * mb * 2 ^ 21"] prod(2) unfolding sigZ by simp
  moreover have "same_cell 1 (real (ma * mb * 2 ^ 21) / 2 ^ 64) (unat sigZ)"
    unfolding sigZ One_nat_def by (rule jam_cell)
  ultimately have "f64_rounded (signF64UI a \<noteq> signF64UI b)
      (real (ma * mb * 2 ^ 21) / 2 ^ 64 * 2 powi (- 1074 + (eA + eB - 0x3FF) - int 10)) s (f64_mul a b s)"
    unfolding f64_mul_norm [OF fin nz n] z_def [symmetric] sigZ_def [symmetric]
    using A(4,5) B(4,5) by (intro f64.roundPack_one_short) simp_all
  moreover have "real (ma * mb * 2 ^ 21) / 2 ^ 64 * 2 powi (- 1074 + (eA + eB - 0x3FF) - int 10) = f64_abs a * f64_abs b"
    unfolding A(3) B(3) by (simp add: power_int_add power_int_diff field_simps)
  ultimately show ?thesis by simp
qed

lemma f64_mul_nan:
  assumes "f64_nan a \<or> f64_nan b"
  shows "f64_mul a b s =
    (0x7FF8000000000000, if f64_snan a \<or> f64_snan b then softfloat_raiseFlags softfloat_flag_invalid s else s)"
proof -
  consider "\<not> f64_finite a" "f64_nan a" | "f64_finite a" "\<not> f64_finite b" "f64_nan b"
    | "\<not> f64_finite a" "\<not> f64_nan a" "\<not> f64_finite b" "f64_nan b"
    using assms f64_class(4) by blast
  then show ?thesis
    unfolding f64_mul_def Let_def propagateNaNF64_result f64_class(1)
    by cases (simp_all add: f64_class(2))
qed

lemma f64_mul_inf:
  assumes "\<not> f64_nan a" "\<not> f64_nan b" "f64_inf a \<or> f64_inf b"
  shows "f64_mul a b s =
    (if f64_mag a = 0 \<or> f64_mag b = 0 then (0x7FF8000000000000, softfloat_raiseFlags softfloat_flag_invalid s)
     else (packToF64UI (signF64UI a \<noteq> signF64UI b) 0x7FF 0, s))"
proof -
  consider "\<not> f64_finite a" "f64_inf a" "\<not> f64_finite b" "f64_inf b" | "f64_finite a" "\<not> f64_finite b" "f64_inf b"
    | "\<not> f64_finite a" "f64_inf a" "f64_finite b"
    using assms f64_class(3,5) by blast
  then show ?thesis
    unfolding f64_mul_def Let_def f64_class(1) f64_bits_or_zero
    by cases (use assms in \<open>simp_all add: f64_class(2) defaultNaNF64UI_def f64_inf_def\<close>)
qed

lemma f64_mul_zero:
  assumes "f64_finite a" "f64_finite b" "f64_mag a = 0 \<or> f64_mag b = 0"
  shows "f64_mul a b s = (packToF64UI (signF64UI a \<noteq> signF64UI b) 0 0, s)"
  using assms unfolding f64_mul_def Let_def f64_class(1) f64_zero_iff
  by (cases "f64_mag a = 0"; simp split: prod.split)

lemma f64_mul_rounded:
  assumes "f64_finite a" "f64_finite b"
  shows "f64_rounded (signF64UI a \<noteq> signF64UI b) (f64_abs a * f64_abs b) s (f64_mul a b s)"
proof (cases "f64_mag a = 0 \<or> f64_mag b = 0")
  case True
  then show ?thesis
    unfolding f64_mul_zero [OF assms True]
    by (intro fp_rounded_exact [where n = 0]) (auto simp: f64_pack_zero f64_abs_def)
qed (use assms f64_mul_rounded_nonzero in blast)

section \<open>Division\<close>

lemma f64_div_norm:
  assumes "f64_finite a" "f64_finite b" "f64_mag a \<noteq> 0" "f64_mag b \<noteq> 0"
    and "f64_norm a = (eA, gA)" "f64_norm b = (eB, gB)"
  defines "mA \<equiv> gA OR 0x0010000000000000" and "mB \<equiv> gB OR 0x0010000000000000"
  defines "signZ \<equiv> signF64UI a \<noteq> signF64UI b"
  shows "f64_div a b s =
    softfloat_roundPackToF64 signZ (eA - eB + 0x3FE - of_bool (mA < mB))
      (f64_div_sigZ (push_bit (if mA < mB then 11 else 10) mA) (push_bit 11 mB)) s"
proof -
  have nz: "(expF64UI a = 0 \<and> fracF64UI a = 0) = False"
    "(expF64UI b = 0 \<and> fracF64UI b = 0) = False"
    using assms by (simp_all add: f64_zero_iff)
  have fin: "(expF64UI a = 0x7FF) = False" "(expF64UI b = 0x7FF) = False"
    using assms by (simp_all add: f64_finite_exp)
  note n = assms(5,6) [unfolded f64_norm_def Let_def]
  show ?thesis
    unfolding signZ_def f64_div_def Let_def fin nz if_False n prod.case
    unfolding mA_def [symmetric] mB_def [symmetric]
    by (cases "mA < mB") simp_all
qed

lemma f64_div_rounded_nonzero:
  assumes fin: "f64_finite a" "f64_finite b" and nz: "f64_mag a \<noteq> 0" "f64_mag b \<noteq> 0"
  shows "f64_rounded (signF64UI a \<noteq> signF64UI b) (f64_abs a / f64_abs b) s (f64_div a b s)"
proof -
  obtain eA gA eB gB where n: "f64_norm a = (eA, gA)" "f64_norm b = (eB, gB)" by fastforce
  define mA mB where "mA = gA OR 0x0010000000000000" and "mB = gB OR 0x0010000000000000"
  note A = f64_norm_sig [OF fin(1) nz(1) n(1), folded mA_def]
  note B = f64_norm_sig [OF fin(2) nz(2) n(2), folded mB_def]
  define d :: nat where "d = (if mA < mB then 11 else 10)"
  have uA: "unat (push_bit d mA) = unat mA * 2 ^ d"
    using A(2) by (intro unat_push_bit_nowrap) (simp add: d_def)
  have uB: "unat (push_bit 11 mB) = unat mB * 2 ^ 11"
    using B(2) by (intro unat_push_bit_nowrap) simp
  have ord: "unat mA * 2 ^ d < unat mB * 2 ^ 11" "unat mB * 2 ^ 11 \<le> 2 * (unat mA * 2 ^ d)"
    using A(1,2) B(1,2) unfolding d_def by (auto simp: word_less_nat_alt)
  define w where "w = f64_div_sigZ (push_bit d mA) (push_bit 11 mB)"
  define y where "y = real (unat mA * 2 ^ d) * 2 ^ 63 / real (unat mB * 2 ^ 11)"
  have cell: "same_cell 9 y (unat w)"
    unfolding w_def y_def uA [symmetric] uB [symmetric]
    using A(1) B(1) ord by (intro f64_div_sigZ_cell) (simp_all only: uA uB, simp_all)
  have mB: "0 < real (unat mB * 2 ^ 11)" using B(1) by (simp only: of_nat_0_less_iff) simp
  have "real (unat mA * 2 ^ d) < real (unat mB * 2 ^ 11)" using ord(1) by (simp only: of_nat_less_iff)
  moreover have "real (unat mB * 2 ^ 11) \<le> real (2 * (unat mA * 2 ^ d))" using ord(2) by (simp only: of_nat_le_iff)
  ultimately have yb: "2 ^ 62 \<le> y" "y < 2 ^ 63" unfolding y_def using mB by (simp_all add: field_simps)
  have w: "2 ^ 62 \<le> unat w" "unat w < 2 ^ 63"
    using same_cell_less [OF cell, of "2 ^ 53"] same_cell_less [OF cell, of "2 ^ 54"] yb by simp_all
  have "f64_rounded (signF64UI a \<noteq> signF64UI b)
      (y * 2 powi (eA - eB + 0x3FE - of_bool (mA < mB) - 1084)) s (f64_div a b s)"
    unfolding f64_div_norm [OF fin nz n] mA_def [symmetric] mB_def [symmetric] d_def [symmetric] w_def [symmetric]
    using A(4,5) B(4,5) w by (intro roundPackToF64_rounded [OF cell]) (simp_all split: split_of_bool)
  moreover have "y * 2 powi (eA - eB + 0x3FE - of_bool (mA < mB) - 1084) = f64_abs a / f64_abs b"
  proof -
    have "f64_abs a / f64_abs b = real (unat mA) / real (unat mB) * (2 powi (eA - 1075) / 2 powi (eB - 1075))"
      unfolding A(3) B(3) by simp
    also have "2 powi (eA - 1075) / 2 powi (eB - 1075) = (2::real) powi (eA - eB)"
      by (simp flip: power_int_diff)
    also have "(2::real) powi (eA - eB) = 2 ^ (d + 52) * 2 powi (eA - eB + 0x3FE - of_bool (mA < mB) - 1084)"
    proof -
      have "eA - eB = int (d + 52) + (eA - eB + 0x3FE - of_bool (mA < mB) - 1084)" by (simp add: d_def)
      then show ?thesis by (metis power_int_add power_int_of_nat zero_neq_numeral)
    qed
    finally show ?thesis by (simp add: y_def power_add)
  qed
  ultimately show ?thesis by simp
qed

lemma f64_div_nan:
  assumes "f64_nan a \<or> f64_nan b"
  shows "f64_div a b s =
    (0x7FF8000000000000, if f64_snan a \<or> f64_snan b then softfloat_raiseFlags softfloat_flag_invalid s else s)"
proof -
  consider "\<not> f64_finite a" "f64_nan a" | "f64_finite a" "\<not> f64_finite b" "f64_nan b"
    | "\<not> f64_finite a" "\<not> f64_nan a" "\<not> f64_finite b" "f64_nan b"
    using assms f64_class(4) by blast
  then show ?thesis
    unfolding f64_div_def Let_def propagateNaNF64_result f64_class(1)
    by cases (simp_all add: f64_class(2))
qed

lemma f64_div_special:
  assumes "\<not> f64_nan a" "\<not> f64_nan b"
  defines "signZ \<equiv> signF64UI a \<noteq> signF64UI b"
  shows "f64_inf a \<Longrightarrow> f64_inf b \<Longrightarrow> f64_div a b s = (0x7FF8000000000000, softfloat_raiseFlags softfloat_flag_invalid s)"
    and "f64_inf a \<Longrightarrow> f64_finite b \<Longrightarrow> f64_div a b s = (packToF64UI signZ 0x7FF 0, s)"
    and "f64_finite a \<Longrightarrow> f64_inf b \<Longrightarrow> f64_div a b s = (packToF64UI signZ 0 0, s)"
    and "f64_mag a = 0 \<Longrightarrow> f64_mag b = 0 \<Longrightarrow> f64_div a b s = (0x7FF8000000000000, softfloat_raiseFlags softfloat_flag_invalid s)"
    and "f64_finite a \<Longrightarrow> f64_mag a \<noteq> 0 \<Longrightarrow> f64_mag b = 0 \<Longrightarrow>
      f64_div a b s = (packToF64UI signZ 0x7FF 0, softfloat_raiseFlags softfloat_flag_infinite s)"
    and "f64_mag a = 0 \<Longrightarrow> f64_finite b \<Longrightarrow> f64_mag b \<noteq> 0 \<Longrightarrow> f64_div a b s = (packToF64UI signZ 0 0, s)"
proof -
  have fin0: "f64_mag c = 0 \<Longrightarrow> f64_finite c" for c by (simp add: f64_finite_def)
  note facts = assms(1,2) f64_class(2,3) [of a] f64_class(2,3) [of b] fin0 [of a] fin0 [of b]
  note unf = f64_div_def Let_def f64_class(1) f64_zero_iff f64_bits_or_zero signZ_def
  show "f64_div a b s = (0x7FF8000000000000, softfloat_raiseFlags softfloat_flag_invalid s)" if "f64_inf a" "f64_inf b"
    using facts that unfolding unf by (simp add: defaultNaNF64UI_def)
  show "f64_div a b s = (packToF64UI signZ 0x7FF 0, s)" if "f64_inf a" "f64_finite b"
    using facts that unfolding unf by simp
  show "f64_div a b s = (packToF64UI signZ 0 0, s)" if "f64_finite a" "f64_inf b"
    using facts that unfolding unf by simp
  show "f64_div a b s = (0x7FF8000000000000, softfloat_raiseFlags softfloat_flag_invalid s)" if "f64_mag a = 0" "f64_mag b = 0"
    using facts that unfolding unf by (simp add: defaultNaNF64UI_def)
  show "f64_div a b s = (packToF64UI signZ 0x7FF 0, softfloat_raiseFlags softfloat_flag_infinite s)"
    if "f64_finite a" "f64_mag a \<noteq> 0" "f64_mag b = 0"
    using facts that unfolding unf by simp
  show "f64_div a b s = (packToF64UI signZ 0 0, s)" if "f64_mag a = 0" "f64_finite b" "f64_mag b \<noteq> 0"
    using facts that unfolding unf by (simp split: prod.split)
qed

lemma f64_div_rounded:
  assumes "f64_finite a" "f64_finite b" "f64_mag b \<noteq> 0"
  shows "f64_rounded (signF64UI a \<noteq> signF64UI b) (f64_abs a / f64_abs b) s (f64_div a b s)"
proof (cases "f64_mag a = 0")
  case True
  have "\<not> f64_nan a" "\<not> f64_nan b" using assms f64_class(4) by blast+
  then show ?thesis
    using f64_div_special(6) [of a b s] True assms
    by (intro fp_rounded_exact [where n = 0]) (auto simp: f64_pack_zero f64_abs_def)
qed (use assms f64_div_rounded_nonzero in blast)

lemma f64_addMags_same_exp:
  assumes fin: "f64_finite a" "f64_finite b" and e: "expF64UI a = expF64UI b"
  shows "f64_rounded (signF64UI a) (f64_abs a + f64_abs b) s (softfloat_addMagsF64 a b (signF64UI a) s)"
proof -
  let ?E = "expF64UI a" and ?F = "unat (fracF64UI a)" and ?G = "unat (fracF64UI b)"
  note A = f64_asig [OF fin(1)] and B = f64_asig [OF fin(2), folded e]
  have sum: "f64_abs a + f64_abs b = real (f64_asig a + f64_asig b) * 2 powi (?E - 1075)"
    unfolding A(1) B(1) by (simp add: algebra_simps)
  show ?thesis
  proof (cases "?E = 0")
    case True
    have mag: "f64_mag a = ?F" "f64_mag b = ?G"
      using True e f64_fields [of a] f64_fields [of b] by (simp_all add: div_eq_0_iff)
    have "unat (a + fracF64UI b) = (unat a + ?G) mod 2 ^ 64" by (simp add: unat_word_ariths)
    moreover have "unat a = of_bool (signF64UI a) * 2 ^ 63 + ?F"
      using f64_decode [of a] by (simp only: mag)
    ultimately have "unat (a + fracF64UI b) = of_bool (signF64UI a) * 2 ^ 63 + (?F + ?G)"
      using A(4) B(4) by (simp split: split_of_bool)
    moreover have "softfloat_addMagsF64 a b (signF64UI a) s = (a + fracF64UI b, s)"
      unfolding softfloat_addMagsF64_def Let_def e [symmetric] True by (simp only: diff_self if_True simp_thms)
    moreover have "f64_abs a + f64_abs b = mag_val 52 (- 1074) (0 * 2 ^ 52 + (?F + ?G))"
      using mag_val_scaled [of "?F + ?G" 52 0 "- 1074"] A(4) B(4)
      by (simp add: f64_abs_def mag mag_val_def algebra_simps)
    ultimately show ?thesis
      using A(4) B(4) by (intro fp_rounded_exact [where n = "?F + ?G"]) simp_all
  next
    case False
    define sigZ where "sigZ = 0x0020000000000000 + fracF64UI a + fracF64UI b"
    have sigZ: "unat sigZ = f64_asig a + f64_asig b" "2 ^ 53 \<le> unat sigZ" "unat sigZ < 2 ^ 54"
      unfolding sigZ_def using A(3,4) B(3,4) False
      by (simp_all add: unat_word_ariths)
    have nf: "(?E = 0x7FF) = False" "(?E = 0) = False" using False A(6) by simp_all
    have eq: "softfloat_addMagsF64 a b (signF64UI a) s = softfloat_roundPackToF64 (signF64UI a) ?E (push_bit 9 sigZ) s"
      unfolding softfloat_addMagsF64_def Let_def e [symmetric] sigZ_def diff_self nf by (simp only: if_True if_False simp_thms)
    have "f64_rounded (signF64UI a) (real (unat sigZ) * 2 powi (- 1074 + (?E + 9) - int 10)) s
        (softfloat_roundPackToF64 (signF64UI a) (?E + 9 - int 9) (push_bit 9 sigZ) s)"
      using sigZ(2,3) A(5,6) by (intro f64.roundPack_shifted [OF same_cell_refl [of 0]]) simp_all
    then show ?thesis unfolding eq sum sigZ(1) [symmetric] by (simp add: add.commute)
  qed
qed

lemma f64_addMags_sum:
  assumes fin: "f64_finite a" "f64_finite b" and e: "expF64UI b < expF64UI a"
    and sigZ: "unat sigZ = f64_asig a * 2 ^ 9 + jam (nat (expF64UI a - expF64UI b)) (f64_asig b * 2 ^ 9)"
  shows "f64_rounded sign (f64_abs a + f64_abs b) s
    (if sigZ < 0x4000000000000000 then softfloat_roundPackToF64 sign (expF64UI a - 1) (push_bit 1 sigZ) s
     else softfloat_roundPackToF64 sign (expF64UI a) sigZ s)"
proof -
  define d where "d = nat (expF64UI a - expF64UI b)"
  note A = f64_asig [OF fin(1)] and B = f64_asig [OF fin(2)]
  have asig: "2 ^ 52 \<le> f64_asig a" using A(3) B(5) e by auto
  have j: "jam d (f64_asig b * 2 ^ 9) \<le> 2 ^ 61"
  proof (rule jam_le)
    have "(2::nat) ^ 1 \<le> 2 ^ d" using e by (intro power_increasing) (simp_all add: d_def)
    then have "2 ^ 61 * 2 ^ 1 \<le> (2::nat) ^ 61 * 2 ^ d" by (rule mult_left_mono) simp
    moreover have "f64_asig b * 2 ^ 9 \<le> 2 ^ 61 * 2 ^ 1" using B(2) by simp
    ultimately show "f64_asig b * 2 ^ 9 \<le> 2 ^ 61 * 2 ^ d" by (rule order_trans [rotated])
  qed simp
  have cell: "same_cell 1 (real (f64_asig b * 2 ^ 9) / 2 ^ d + real (f64_asig a * 2 ^ 9)) (unat sigZ)"
    unfolding sigZ d_def [symmetric] One_nat_def add.commute [of "f64_asig a * 2 ^ 9"]
    by (intro same_cell_add jam_cell) simp
  have "f64_rounded sign ((real (f64_asig b * 2 ^ 9) / 2 ^ d + real (f64_asig a * 2 ^ 9)) * 2 powi (- 1074 + expF64UI a - int 10)) s
    (if unat sigZ < 2 ^ (52 + 10) then softfloat_roundPackToF64 sign (expF64UI a - 1) (push_bit 1 sigZ) s
     else softfloat_roundPackToF64 sign (expF64UI a) sigZ s)"
    using asig A(2,5,6) sigZ j by (intro f64.roundPack_one_short [OF cell]) (simp_all add: d_def [symmetric])
  moreover have "(real (f64_asig b * 2 ^ 9) / 2 ^ d + real (f64_asig a * 2 ^ 9)) * 2 powi (- 1074 + expF64UI a - int 10) =
      f64_abs a + f64_abs b"
  proof -
    have ea: "expF64UI a = expF64UI b + int d" using e by (simp add: d_def)
    show ?thesis unfolding A(1) B(1) ea by (simp add: power_int_add power_int_diff field_simps)
  qed
  ultimately show ?thesis by (simp add: word_less_nat_alt)
qed

lemma f64_addMags_word:
  assumes fin: "f64_finite a" "f64_finite b" and e: "expF64UI b < expF64UI a"
  shows "unat (0x2000000000000000 + push_bit 9 (fracF64UI a) +
      softfloat_shiftRightJam64
        (if expF64UI b \<noteq> 0 then push_bit 9 (fracF64UI b) + 0x2000000000000000 else push_bit 1 (push_bit 9 (fracF64UI b)))
        (word_of_int (expF64UI a - expF64UI b))) =
    f64_asig a * 2 ^ 9 + jam (nat (expF64UI a - expF64UI b)) (f64_asig b * 2 ^ 9)"
    (is "unat (?x + ?y) = _ + ?j")
proof -
  note A = f64_asig [OF fin(1)] and B = f64_asig [OF fin(2)]
  have h: "9 \<le> (10::nat)" "unat (0x2000000000000000 :: uint_fast64_t) = 2 ^ (52 + 9)" by simp_all
  have "expF64UI a \<noteq> 0" using e B(5) by simp
  then have x: "unat ?x = f64_asig a * 2 ^ 9"
    using f64_aligned_word(1) [OF fin(1) h] by (simp only: add.commute not_False_eq_True if_True simp_thms)
  have dbl: "(if c then w + h else push_bit 1 w) = w + (if c then h else w)" for c and w h :: uint64_t
    by (simp add: push_bit_eq_mult mult_2_right)
  have y: "unat ?y = ?j"
    unfolding dbl using e B(5) A(6) by (intro f64_shifted_word f64_aligned_word [OF fin(2) h]) simp_all
  have "?j \<le> 2 ^ 63"
    using B(2) by (intro jam_le) (simp_all add: less_imp_le le_trans [where j = "2 ^ 63 * 1"])
  then show ?thesis using A(2) x y by (subst unat_add_nowrap) simp_all
qed

lemma addMagsF64_rounded:
  assumes fin: "f64_finite a" "f64_finite b"
  shows "f64_rounded (signF64UI a) (f64_abs a + f64_abs b) s (softfloat_addMagsF64 a b (signF64UI a) s)"
proof -
  let ?eA = "expF64UI a" and ?eB = "expF64UI b"
  have nf: "(?eA = 0x7FF) = False" "(?eB = 0x7FF) = False" using f64_asig(6) fin by fastforce+
  consider "?eA = ?eB" | "?eA < ?eB" | "?eB < ?eA" by linarith
  then show ?thesis
  proof cases
    case 1
    then show ?thesis by (intro f64_addMags_same_exp fin)
  next
    case 2
    have c: "(?eA - ?eB = 0) = False" "(?eA - ?eB < 0) = True" "- (?eA - ?eB) = ?eB - ?eA" using 2 by simp_all
    have ac: "0x2000000000000000 + u + v = 0x2000000000000000 + v + u" for u v :: uint_fast64_t by (simp only: ac_simps)
    show ?thesis
      unfolding softfloat_addMagsF64_def Let_def c nf if_False if_True
      unfolding ac [of "softfloat_shiftRightJam64 _ _"] add.commute [of "f64_abs a"]
      by (rule f64_addMags_sum [OF fin(2,1) 2]) (rule f64_addMags_word [OF fin(2,1) 2])
  next
    case 3
    then have c: "(?eA - ?eB = 0) = False" "(?eA - ?eB < 0) = False" by simp_all
    show ?thesis
      unfolding softfloat_addMagsF64_def Let_def c nf if_False if_True
      by (rule f64_addMags_sum [OF fin 3]) (rule f64_addMags_word [OF fin 3])
  qed
qed

lemma f64_subMags_pack:
  assumes D: "0 < D" "D < 2 ^ 53" and E: "0 \<le> E" "E \<le> 2045"
  defines "shiftDist \<equiv> uint (softfloat_countLeadingZeros64 (word_of_int D)) - 11"
  defines "r \<equiv> (if E - shiftDist < 0 then (E, 0) else (shiftDist, E - shiftDist))"
  shows "f64_rounded sign (real_of_int D * 2 powi (E - 1074)) s
           (packToF64UI sign (snd r) (push_bit (nat (fst r)) (word_of_int D)), s)"
proof -
  define c where "c = unat (softfloat_countLeadingZeros64 (word_of_int D))"
  have w: "unat (word_of_int D :: uint64_t) = nat D"
    using D by (simp add: unat_word_of_int)
  then have "(word_of_int D :: uint64_t) \<noteq> 0" using D(1) by (auto simp: word_unat_eq_iff)
  then have c: "c < 64" "2 ^ 63 \<le> nat D * 2 ^ c" "nat D * 2 ^ c < 2 ^ 64"
    using countLeadingZeros64_is_clz [of "word_of_int D"] unfolding is_clz_def w c_def by simp_all
  have c8: "11 \<le> c"
  proof (rule ccontr)
    assume "\<not> 11 \<le> c"
    then have "(2::nat) ^ c \<le> 2 ^ 10" by (intro power_increasing) simp_all
    then have "nat D * 2 ^ c \<le> nat D * 2 ^ 10" by (rule mult_left_mono) simp
    moreover have "nat D * 2 ^ 10 < 2 ^ 63" using D by simp
    ultimately show False using c(2) by (meson leD le_trans)
  qed
  define d where "d = c - 11"
  have P: "(2::nat) ^ c = 2 ^ d * 2 ^ 11" unfolding d_def using c8 by (rule pow2_split)
  have norm: "2 ^ 52 \<le> nat D * 2 ^ d" "nat D * 2 ^ d < 2 ^ 53" using c(2,3) unfolding P by simp_all
  have "uint (softfloat_countLeadingZeros64 (word_of_int D)) = int c" unfolding c_def by (rule uint_nat)
  then have sd: "shiftDist = int d" unfolding shiftDist_def d_def using c8 by simp
  define m where "m = (if E < int d then nat E else d)"
  have m: "nat (fst r) = m" "snd r = E - int m" "m \<le> d"
    unfolding r_def sd m_def using E by auto
  have "(2::nat) ^ m \<le> 2 ^ d" using m(3) by (intro power_increasing) simp_all
  then have "nat D * 2 ^ m \<le> nat D * 2 ^ d" by (rule mult_left_mono) simp
  with norm have b: "nat D * 2 ^ m < 2 ^ 53" by linarith
  have b2: "2 ^ 52 \<le> nat D * 2 ^ m \<or> E - int m = 0" using norm E unfolding m_def by auto
  have p: "unat (push_bit m (word_of_int D) :: uint64_t) = nat D * 2 ^ m"
    using b unfolding w [symmetric] by (intro unat_push_bit_nowrap) simp
  have "real_of_int D * 2 powi (E - 1074) = real (nat D * 2 ^ m) * 2 powi (E - int m - 1074)"
    using scale_pow2 [of "E - 1074" "E - int m - 1074" m "real_of_int D"] D by simp
  moreover have "0 \<le> E - int m" "nat (E - int m) \<le> 2045" using E unfolding m_def by auto
  ultimately show ?thesis
    unfolding m using b b2 by (intro f64_pack_exact) (unfold p, simp_all)
qed

lemma f64_subMags_same_exp:
  fixes s :: fp_state
  assumes fin: "f64_finite a" "f64_finite b" and e: "expF64UI a = expF64UI b"
  defines "sgnZ \<equiv> (if f64_abs a = f64_abs b then softfloat_roundingMode s = softfloat_round_min
                  else signF64UI a = (f64_abs b < f64_abs a))"
  shows "f64_rounded sgnZ \<bar>f64_abs a - f64_abs b\<bar> s (softfloat_subMagsF64 a b (signF64UI a) s)"
proof -
  let ?E = "expF64UI a" and ?sA = "signF64UI a"
  define F G where "F = int (unat (fracF64UI a))" and "G = int (unat (fracF64UI b))"
  note A = f64_asig [OF fin(1)] and B = f64_asig [OF fin(2), folded e]
  define E' where "E' = (if ?E \<noteq> 0 then ?E - 1 else ?E)"
  have E': "0 \<le> E'" "E' \<le> 2045" using A(5,6) by (auto simp: E'_def)
  have b: "0 \<le> F" "F < 2 ^ 52" "0 \<le> G" "G < 2 ^ 52" 
    using A(4) B(4) unfolding F_def G_def by (simp_all only: of_nat_0_le_iff of_nat_less_numeral_power_cancel_iff)
  have sd: "sint (fracF64UI a - fracF64UI b) = F - G"
    unfolding F_def G_def using A(4) B(4) by (intro sint_diff_small) simp_all
  have val: "f64_abs a - f64_abs b = real_of_int (F - G) * 2 powi (E' - 1074)"
  proof (cases "?E = 0")
    case True
    then show ?thesis
      unfolding A(1) B(1) A(3) B(3) using scale_pow2 [of "- 1074" "- 1075" 1 "real_of_int (F - G)"]
      by (simp add: E'_def F_def G_def algebra_simps)
  next
    case False
    then show ?thesis unfolding A(1) B(1) A(3) B(3) by (simp add: E'_def F_def G_def algebra_simps)
  qed
  have pos: "0 < (2::real) powi (E' - 1074)" by simp
  have cmp: "f64_abs a = f64_abs b \<longleftrightarrow> F - G = 0" "f64_abs b < f64_abs a \<longleftrightarrow> \<not> F - G < 0 \<and> F - G \<noteq> 0"
  proof -
    have "(f64_abs a - f64_abs b = 0) = (F - G = 0)" "(0 < f64_abs a - f64_abs b) = (0 < F - G)"
      unfolding val using mult_less_cancel_right_pos [OF pos, of 0] by (simp_all del: of_int_diff)
    then show "f64_abs a = f64_abs b \<longleftrightarrow> F - G = 0" "f64_abs b < f64_abs a \<longleftrightarrow> \<not> F - G < 0 \<and> F - G \<noteq> 0" by auto
  qed
  have nf: "(?E = 0x7FF) = False" using A(6) by simp
  show ?thesis
  proof (cases "F - G = 0")
    case True
    then have "softfloat_subMagsF64 a b (signF64UI a) s = (packToF64UI sgnZ 0 0, s)"
      unfolding softfloat_subMagsF64_def Let_def e [symmetric] sd nf sgnZ_def cmp True diff_self
      by (simp only: if_True if_False simp_thms)
    moreover have "f64_rounded sgnZ 0 s (packToF64UI sgnZ 0 0, s)" by (intro f64_pack_exact) simp_all
    ultimately show ?thesis using cmp(1) True by simp
  next
    case False
    then have nz: "(F - G = 0) = False" by simp
    define D where "D = \<bar>F - G\<bar>"
    have D: "0 < D" "D < 2 ^ 53" using False b by (simp_all add: D_def)
    have sgnZ: "sgnZ \<longleftrightarrow> (if F - G < 0 then \<not> ?sA else ?sA)" unfolding sgnZ_def cmp using False by simp
    have eq: "(if F - G < 0 then (\<not> ?sA, - (F - G)) else (?sA, F - G)) = (sgnZ, D)"
      unfolding sgnZ D_def by auto
    have "f64_rounded sgnZ (real_of_int D * 2 powi (E' - 1074)) s (softfloat_subMagsF64 a b (signF64UI a) s)"
      unfolding softfloat_subMagsF64_def Let_def e [symmetric] sd nf diff_self E'_def [symmetric] nz
      by (simp only: simp_thms if_True if_False eq case_prod_beta fst_conv snd_conv) (rule f64_subMags_pack [OF D E'])
    moreover have "\<bar>f64_abs a - f64_abs b\<bar> = real_of_int D * 2 powi (E' - 1074)"
      unfolding val D_def by (simp add: abs_mult)
    ultimately show ?thesis by simp
  qed
qed

lemma f64_subMags_word:
  assumes fin: "f64_finite a" "f64_finite b" and e: "expF64UI b < expF64UI a"
  defines "d \<equiv> nat (expF64UI a - expF64UI b)"
  shows "unat ((push_bit 10 (fracF64UI a) OR 0x4000000000000000) -
      softfloat_shiftRightJam64
        (push_bit 10 (fracF64UI b) +
           (if expF64UI b \<noteq> 0 then 0x4000000000000000 else push_bit 10 (fracF64UI b)))
        (word_of_int (expF64UI a - expF64UI b))) =
    f64_asig a * 2 ^ 10 - jam d (f64_asig b * 2 ^ 10)" (is "unat (?x - ?y) = _")
    and "jam d (f64_asig b * 2 ^ 10) < f64_asig a * 2 ^ 10"
proof -
  note A = f64_asig [OF fin(1)] and B = f64_asig [OF fin(2)]
  have h: "10 \<le> (10::nat)" "unat (0x4000000000000000 :: uint_fast64_t) = 2 ^ (52 + 10)" by simp_all
  have a: "f64_asig a = 2 ^ 52 + unat (fracF64UI a)" using A(3) e B(5) by simp
  have "unat (push_bit 10 (fracF64UI a)) = unat (fracF64UI a) * 2 ^ 10"
    using A(4) by (intro unat_push_bit_nowrap) simp
  then have x: "unat ?x = f64_asig a * 2 ^ 10"
    using nat_or_hidden [of "unat (fracF64UI a) * 2 ^ 10" 62] A(4) by (simp add: unat_or_distrib a)
  have y: "unat ?y = jam d (f64_asig b * 2 ^ 10)"
    unfolding d_def using e B(5) A(6) by (intro f64_shifted_word f64_aligned_word [OF fin(2) h]) simp_all
  show lt: "jam d (f64_asig b * 2 ^ 10) < f64_asig a * 2 ^ 10"
  proof -
    have "(2::nat) ^ 1 \<le> 2 ^ d" using e by (intro power_increasing) (simp_all add: d_def)
    then have "2 ^ 62 * 2 ^ 1 \<le> (2::nat) ^ 62 * 2 ^ d" by (rule mult_left_mono) simp
    moreover have "f64_asig b * 2 ^ 10 < 2 ^ 62 * 2 ^ 1" using B(2) by simp
    ultimately have "jam d (f64_asig b * 2 ^ 10) < 2 ^ 62" by (subst jam_even_less) simp_all
    then show ?thesis by (simp add: a)
  qed
  then show "unat (?x - ?y) = f64_asig a * 2 ^ 10 - jam d (f64_asig b * 2 ^ 10)"
    unfolding x [symmetric] y [symmetric] by (intro unat_diff_nowrap) simp
qed

lemma f64_subMags_diff:
  assumes fin: "f64_finite a" "f64_finite b" and e: "expF64UI b < expF64UI a"
    and sig: "unat sig = f64_asig a * 2 ^ 10 - jam (nat (expF64UI a - expF64UI b)) (f64_asig b * 2 ^ 10)"
  shows "f64_rounded sign (f64_abs a - f64_abs b) s (softfloat_normRoundPackToF64 sign (expF64UI a - 1) sig s)"
proof -
  define d where "d = nat (expF64UI a - expF64UI b)"
  note A = f64_asig [OF fin(1)] and B = f64_asig [OF fin(2)]
  have asig: "2 ^ 52 \<le> f64_asig a" using A(3) B(5) e by auto
  note lt = f64_subMags_word(2) [OF fin e, folded d_def]
  define y where "y = real (f64_asig a * 2 ^ 10) - real (f64_asig b * 2 ^ 10) / 2 ^ d"
  have "y = real (unat sig) \<or> same_cell 1 y (unat sig) \<and> 2 ^ 61 \<le> unat sig"
  proof (cases "d = 1")
    case True
    have "jam d (f64_asig b * 2 ^ 10) = f64_asig b * 2 ^ 9" unfolding True by (subst jam_def) simp
    then have "y = real (unat sig)" using lt unfolding sig d_def [symmetric] y_def True by (simp add: of_nat_diff)
    then show ?thesis ..
  next
    case False
    with e have "2 \<le> d" by (auto simp: d_def)
    then have "(2::nat) ^ 2 \<le> 2 ^ d" by (intro power_increasing) simp_all
    then have "2 ^ 61 * 2 ^ 2 \<le> (2::nat) ^ 61 * 2 ^ d" by (rule mult_left_mono) simp
    moreover have "f64_asig b * 2 ^ 10 < 2 ^ 61 * 2 ^ 2" using B(2) by simp
    ultimately have "jam d (f64_asig b * 2 ^ 10) < 2 ^ 61" by (subst jam_even_less) simp_all
    then have "2 ^ 61 \<le> unat sig" unfolding sig d_def [symmetric] using asig by simp
    moreover have "same_cell 1 y (unat sig)"
      unfolding y_def sig d_def [symmetric] One_nat_def using lt by (intro same_cell_sub jam_cell) simp_all
    ultimately show ?thesis by simp
  qed
  moreover have "sig \<noteq> 0" using lt unfolding d_def sig [symmetric] 
    by (metis sig zero_less_diff unat_0 less_irrefl)
  moreover have "unat sig < 2 ^ 63" unfolding sig using A(2) by simp
  moreover have "f64_abs a - f64_abs b = y * 2 powi (expF64UI a - 1 - 1084)"
  proof -
    have ea: "expF64UI a = expF64UI b + int d" using e by (simp add: d_def)
    show ?thesis unfolding A(1) B(1) ea y_def by (simp add: power_int_add power_int_diff field_simps)
  qed
  ultimately show ?thesis using A(5,6) by (intro normRoundPackToF64_rounded) simp_all
qed

lemma subMagsF64_rounded:
  fixes s :: fp_state
  assumes fin: "f64_finite a" "f64_finite b"
  defines "sgnZ \<equiv> (if f64_abs a = f64_abs b then softfloat_roundingMode s = softfloat_round_min
                  else signF64UI a = (f64_abs b < f64_abs a))"
  shows "f64_rounded sgnZ \<bar>f64_abs a - f64_abs b\<bar> s (softfloat_subMagsF64 a b (signF64UI a) s)"
proof -
  let ?eA = "expF64UI a" and ?eB = "expF64UI b"
  have nf: "(?eA = 0x7FF) = False" "(?eB = 0x7FF) = False" using f64_asig(6) fin by fastforce+
  consider "?eA = ?eB" | "?eA < ?eB" | "?eB < ?eA" by linarith
  then show ?thesis
  proof cases
    case 1
    then show ?thesis unfolding sgnZ_def by (intro f64_subMags_same_exp fin)
  next
    case 2
    have lt: "f64_abs a < f64_abs b" using f64_abs_less_exp [OF fin(2,1) 2] .
    have c: "(?eA - ?eB = 0) = False" "(?eA - ?eB < 0) = True" "- (?eA - ?eB) = ?eB - ?eA" using 2 by simp_all
    have x: "\<bar>f64_abs a - f64_abs b\<bar> = f64_abs b - f64_abs a" "sgnZ = (\<not> signF64UI a)"
      using lt by (simp_all add: sgnZ_def)
    show ?thesis
      unfolding softfloat_subMagsF64_def Let_def c nf if_False if_True x
      by (rule f64_subMags_diff [OF fin(2,1) 2]) (rule f64_subMags_word(1) [OF fin(2,1) 2])
  next
    case 3
    have lt: "f64_abs b < f64_abs a" using f64_abs_less_exp [OF fin 3] .
    from 3 have c: "(?eA - ?eB = 0) = False" "(?eA - ?eB < 0) = False" by simp_all
    have x: "\<bar>f64_abs a - f64_abs b\<bar> = f64_abs a - f64_abs b" "sgnZ = signF64UI a"
      using lt by (simp_all add: sgnZ_def)
    show ?thesis
      unfolding softfloat_subMagsF64_def Let_def c nf if_False if_True x
      by (rule f64_subMags_diff [OF fin 3]) (rule f64_subMags_word(1) [OF fin 3])
  qed
qed

lemma f64_add_sub_rounded:
  assumes fin: "f64_finite a" "f64_finite b"
  defines "sA \<equiv> signF64UI a" and "sB \<equiv> signF64UI b"
  shows f64_add_rounded:
    "f64_rounded (sum_sign (softfloat_roundingMode s) sA sB (f64_val a + f64_val b)) \<bar>f64_val a + f64_val b\<bar> s (f64_add a b s)"
  and f64_sub_rounded:
    "f64_rounded (sum_sign (softfloat_roundingMode s) sA (\<not> sB) (f64_val a - f64_val b)) \<bar>f64_val a - f64_val b\<bar> s (f64_sub a b s)"
proof -
  note pos = f64_abs_nonneg [of a] f64_abs_nonneg [of b]
  have sub: "f64_rounded (sum_sign (softfloat_roundingMode s) sA (\<not> sA) v) \<bar>v\<bar> s (softfloat_subMagsF64 a b (signF64UI a) s)"
    if "v = (if sA then f64_abs b - f64_abs a else f64_abs a - f64_abs b)" for v
  proof -
    have "\<bar>v\<bar> = \<bar>f64_abs a - f64_abs b\<bar>" using that by auto
    moreover have "sum_sign (softfloat_roundingMode s) sA (\<not> sA) v = 
       (if f64_abs a = f64_abs b then softfloat_roundingMode s = softfloat_round_min
                  else signF64UI a = (f64_abs b < f64_abs a))"
      using that unfolding sum_sign_def sA_def by auto
    ultimately show ?thesis using subMagsF64_rounded [OF fin, of s] by (simp only:)
  qed
  have add: "f64_rounded (sum_sign (softfloat_roundingMode s) sA sA v) \<bar>v\<bar> s (softfloat_addMagsF64 a b (signF64UI a) s)"
    if "v = (if sA then - (f64_abs a + f64_abs b) else f64_abs a + f64_abs b)" for v
  proof -
    have "0 \<le> f64_abs a + f64_abs b" using pos by simp
    then have "\<bar>v\<bar> = f64_abs a + f64_abs b" "sum_sign (softfloat_roundingMode s) sA sA v = sA"
      unfolding that sum_sign_def by auto
    then show ?thesis using addMagsF64_rounded [OF fin, of s] unfolding sA_def by (simp only:)
  qed
  show "f64_rounded (sum_sign (softfloat_roundingMode s) sA sB (f64_val a + f64_val b)) \<bar>f64_val a + f64_val b\<bar> s (f64_add a b s)"
  proof (cases "sA = sB")
    case True
    then show ?thesis using add [of "f64_val a + f64_val b"]
      unfolding f64_add_def Let_def f64_val_def sA_def sB_def by auto
  next
    case False
    then have "sB = (\<not> sA)" by blast
    then show ?thesis using sub [of "f64_val a + f64_val b"]
      unfolding f64_add_def Let_def f64_val_def sA_def sB_def by auto
  qed
  show "f64_rounded (sum_sign (softfloat_roundingMode s) sA (\<not> sB) (f64_val a - f64_val b)) \<bar>f64_val a - f64_val b\<bar> s (f64_sub a b s)"
  proof (cases "sA = sB")
    case True
    then show ?thesis using sub [of "f64_val a - f64_val b"]
      unfolding f64_sub_def Let_def f64_val_def sA_def sB_def by auto
  next
    case False
    then have "(\<not> sB) = sA" by blast
    then show ?thesis using add [of "f64_val a - f64_val b"]
      unfolding f64_sub_def Let_def f64_val_def sA_def sB_def by auto
  qed
qed

lemma f64_push_nz:
  assumes "\<not> f64_finite a" "j \<le> 10"
  shows "push_bit j (fracF64UI a) \<noteq> 0 \<longleftrightarrow> f64_nan a"
proof -
  have "unat (push_bit j (fracF64UI a)) = unat (fracF64UI a) * 2 ^ j"
  proof (rule unat_push_bit_nowrap)
    have "(2::nat) ^ j \<le> 2 ^ 10" using assms(2) by (intro power_increasing) simp_all
    then have "unat (fracF64UI a) * 2 ^ j \<le> 2 ^ 52 * 2 ^ 10"
      by (intro mult_mono) (simp_all add: f64_fields less_imp_le)
    then show "unat (fracF64UI a) * 2 ^ j < 2 ^ LENGTH(64)" by simp
  qed
  then have "push_bit j (fracF64UI a) \<noteq> 0 \<longleftrightarrow> fracF64UI a \<noteq> 0"
    by (metis mult_is_0 power_not_zero unat_eq_zero zero_neq_numeral)
  then show ?thesis using f64_class(2) [OF assms(1)] by blast
qed

lemma f64_mags_nan:
  assumes "f64_nan a \<or> f64_nan b"
  defines "r \<equiv> \<lambda>s. (0x7FF8000000000000 :: float64_t, if f64_snan a \<or> f64_snan b then softfloat_raiseFlags softfloat_flag_invalid s else s)"
  shows "softfloat_addMagsF64 a b (signF64UI a) s = r s" "softfloat_subMagsF64 a b (signF64UI a) s = r s"
proof -
  consider "\<not> f64_finite a" "\<not> f64_finite b" | "f64_finite a" "\<not> f64_finite b" "f64_nan b"
    | "\<not> f64_finite a" "f64_finite b" "f64_nan a"
    using assms(1) f64_class(4) by blast
  then have "softfloat_addMagsF64 a b (signF64UI a) s = r s \<and> softfloat_subMagsF64 a b (signF64UI a) s = r s"
  proof cases
    case 1
    then have e: "expF64UI a = 0x7FF" "expF64UI b = 0x7FF" by (simp_all add: f64_class(1))
    have "(fracF64UI a OR fracF64UI b \<noteq> 0) = True"
      using 1 assms(1) f64_class(2) by (simp add: or_eq_0_iff)
    then show ?thesis
      unfolding softfloat_addMagsF64_def softfloat_subMagsF64_def Let_def propagateNaNF64_result e r_def by simp
  next
    case 2
    note * = f64_exp_less [OF 2(1,2)] f64_class(1) f64_push_nz [OF 2(2)]
    show ?thesis
      unfolding softfloat_addMagsF64_def softfloat_subMagsF64_def Let_def propagateNaNF64_result r_def
      using * 2 by simp
  next
    case 3
    note * = f64_exp_less [OF 3(2,1)] f64_class(1) f64_push_nz [OF 3(1)]
    show ?thesis
      unfolding softfloat_addMagsF64_def softfloat_subMagsF64_def Let_def propagateNaNF64_result r_def
      using * 3 by simp
  qed
  then show "softfloat_addMagsF64 a b (signF64UI a) s = r s" "softfloat_subMagsF64 a b (signF64UI a) s = r s" by blast+
qed

lemma f64_add_nan:
  assumes "f64_nan a \<or> f64_nan b"
  shows "f64_add a b s =
    (0x7FF8000000000000, if f64_snan a \<or> f64_snan b then softfloat_raiseFlags softfloat_flag_invalid s else s)"
  and "f64_sub a b s =
    (0x7FF8000000000000, if f64_snan a \<or> f64_snan b then softfloat_raiseFlags softfloat_flag_invalid s else s)"
  unfolding f64_add_def f64_sub_def Let_def f64_mags_nan [OF assms] by simp_all

text \<open>An infinite operand: the infinity itself, or an invalid operation for infinities that cancel.\<close>

lemma f64_mags_inf:
  assumes nn: "\<not> f64_nan a" "\<not> f64_nan b" and i: "f64_inf a \<or> f64_inf b"
  shows "softfloat_addMagsF64 a b (signF64UI a) s =
      (if f64_inf a then a else packToF64UI (signF64UI a) 0x7FF 0, s)"
    and "softfloat_subMagsF64 a b (signF64UI a) s =
      (if f64_inf a \<and> f64_inf b then (0x7FF8000000000000, softfloat_raiseFlags softfloat_flag_invalid s)
       else (if f64_inf a then a else packToF64UI (\<not> signF64UI a) 0x7FF 0, s))"
proof -
  consider "\<not> f64_finite a" "\<not> f64_finite b" | "f64_finite a" "\<not> f64_finite b" "f64_inf b"
    | "\<not> f64_finite a" "f64_finite b" "f64_inf a"
    using i f64_class(3) by blast
  then have "softfloat_addMagsF64 a b (signF64UI a) s =
      (if f64_inf a then a else packToF64UI (signF64UI a) 0x7FF 0, s) \<and>
    softfloat_subMagsF64 a b (signF64UI a) s =
      (if f64_inf a \<and> f64_inf b then (0x7FF8000000000000, softfloat_raiseFlags softfloat_flag_invalid s)
       else (if f64_inf a then a else packToF64UI (\<not> signF64UI a) 0x7FF 0, s))"
  proof cases
    case 1
    then have e: "expF64UI a = 0x7FF" "expF64UI b = 0x7FF" by (simp_all add: f64_class(1))
    have "(fracF64UI a OR fracF64UI b \<noteq> 0) = False" "f64_inf a" "f64_inf b"
      using 1 nn f64_class(2,5) by (simp_all add: or_eq_0_iff)
    then show ?thesis
      unfolding softfloat_addMagsF64_def softfloat_subMagsF64_def Let_def e defaultNaNF64UI_def by simp
  next
    case 2
    note * = f64_exp_less [OF 2(1,2)] f64_class(1) f64_push_nz [OF 2(2)] f64_class(3)
    show ?thesis
      unfolding softfloat_addMagsF64_def softfloat_subMagsF64_def Let_def using * 2 nn by auto
  next
    case 3
    note * = f64_exp_less [OF 3(2,1)] f64_class(1) f64_push_nz [OF 3(1)] f64_class(3)
    show ?thesis
      unfolding softfloat_addMagsF64_def softfloat_subMagsF64_def Let_def using * 3 nn by auto
  qed
  then show "softfloat_addMagsF64 a b (signF64UI a) s =
      (if f64_inf a then a else packToF64UI (signF64UI a) 0x7FF 0, s)"
    and "softfloat_subMagsF64 a b (signF64UI a) s =
      (if f64_inf a \<and> f64_inf b then (0x7FF8000000000000, softfloat_raiseFlags softfloat_flag_invalid s)
       else (if f64_inf a then a else packToF64UI (\<not> signF64UI a) 0x7FF 0, s))" by blast+
qed

lemma f64_add_inf:
  assumes "\<not> f64_nan a" "\<not> f64_nan b" "f64_inf a \<or> f64_inf b"
  shows "f64_add a b s =
    (if f64_inf a \<and> f64_inf b \<and> signF64UI a \<noteq> signF64UI b
     then (0x7FF8000000000000, softfloat_raiseFlags softfloat_flag_invalid s)
     else (if f64_inf a then a else b, s))"
  using assms(3) f64_inf_eq [of b] unfolding f64_add_def Let_def f64_mags_inf [OF assms] by auto

lemma f64_sub_inf:
  assumes "\<not> f64_nan a" "\<not> f64_nan b" "f64_inf a \<or> f64_inf b"
  shows "f64_sub a b s = (if f64_inf a \<and> f64_inf b \<and> signF64UI a = signF64UI b
    then (0x7FF8000000000000, softfloat_raiseFlags softfloat_flag_invalid s)
    else (if f64_inf a then a else packToF64UI (\<not> signF64UI b) 0x7FF 0, s))"
  using assms(3) unfolding f64_sub_def Let_def f64_mags_inf [OF assms] by auto

lemma f64_div_edges:
  assumes nn: "\<not> f64_nan a" "\<not> f64_nan b" and h: "f64_inf a \<or> f64_inf b \<or> f64_mag b = 0"
  defines "signZ \<equiv> signF64UI a \<noteq> signF64UI b"
  shows "f64_div a b s =
    (if f64_inf a \<and> f64_inf b \<or> f64_mag a = 0 \<and> f64_mag b = 0
     then (0x7FF8000000000000, softfloat_raiseFlags softfloat_flag_invalid s)
     else if f64_inf b then (packToF64UI signZ 0 0, s)
     else (packToF64UI signZ 0x7FF 0, if f64_inf a then s else softfloat_raiseFlags softfloat_flag_infinite s))"
proof -
  have fin: "f64_inf c \<or> f64_finite c \<and> \<not> f64_inf c" if "\<not> f64_nan c" for c
    using that f64_class(3,5) by blast
  have inf: "f64_inf c \<Longrightarrow> f64_mag c \<noteq> 0" for c by (simp add: f64_inf_def)
  consider "f64_inf a" "f64_inf b" | "f64_inf a" "\<not> f64_inf b" "f64_finite b" | "\<not> f64_inf a" "f64_finite a" "f64_inf b"
    | "\<not> f64_inf a" "\<not> f64_inf b" "f64_finite a" "f64_mag b = 0"
    using h fin [OF nn(1)] fin [OF nn(2)] by argo
  then show ?thesis
    unfolding signZ_def
    by cases (use f64_div_special [OF nn, of s] inf in \<open>simp; blast?\<close>)+
qed

section \<open>Properties\<close>

text \<open>C15. \<open>f64_add\<close> and \<open>f64_sub\<close> of finite operands deliver the exact sum and difference of their values, correctly
  rounded in the current rounding mode, with the sign IEEE 754 prescribes for a zero result and exactly the flags
  overflow, underflow and inexact that the exact result calls for.\<close>

theorem f64_add_sub_correct:
  assumes "f64_finite a" "f64_finite b"
  shows "f64_rounded
    (sum_sign (softfloat_roundingMode s) (signF64UI a) (signF64UI b) (f64_val a + f64_val b))
    \<bar>f64_val a + f64_val b\<bar> s (f64_add a b s) \<and>
    f64_rounded
    (sum_sign (softfloat_roundingMode s) (signF64UI a) (\<not> signF64UI b) (f64_val a - f64_val b))
    \<bar>f64_val a - f64_val b\<bar> s (f64_sub a b s)"
  using f64_add_rounded [OF assms] f64_sub_rounded [OF assms] by (rule conjI)

theorem f64_add_sub_correct_witness:
  "f64_finite 0x3FF0000000000000 \<and> f64_finite 0x3CA0000000000001 \<and>
   f64_rounded (sum_sign (softfloat_roundingMode softfloat_init) (signF64UI (0x3FF0000000000000))
       (signF64UI (0x3CA0000000000001)) (f64_val 0x3FF0000000000000 + f64_val 0x3CA0000000000001))
     \<bar>f64_val 0x3FF0000000000000 + f64_val 0x3CA0000000000001\<bar> softfloat_init (f64_add 0x3FF0000000000000 0x3CA0000000000001 softfloat_init) \<and>
   f64_add 0x3FF0000000000000 0x3CA0000000000001 softfloat_init =
     (0x3FF0000000000001, softfloat_raiseFlags softfloat_flag_inexact softfloat_init)"
proof (intro conjI)
  show fin: "f64_finite 0x3FF0000000000000" "f64_finite 0x3CA0000000000001" by (simp_all add: f64_finite_def f64_mag_def)
  show "f64_rounded (sum_sign (softfloat_roundingMode softfloat_init) (signF64UI (0x3FF0000000000000))
       (signF64UI (0x3CA0000000000001)) (f64_val 0x3FF0000000000000 + f64_val 0x3CA0000000000001))
     \<bar>f64_val 0x3FF0000000000000 + f64_val 0x3CA0000000000001\<bar> softfloat_init (f64_add 0x3FF0000000000000 0x3CA0000000000001 softfloat_init)"
    using f64_add_sub_correct [OF fin] by (rule conjunct1)
qed code_simp

text \<open>C16. \<open>f64_mul\<close> and \<open>f64_div\<close> of finite operands deliver the correctly rounded exact product and, for a nonzero divisor, quotient, signed
  by the exclusive or of the operand signs, with their flags.\<close>

theorem f64_mul_div_correct:
  assumes "f64_finite a" "f64_finite b"
  shows "f64_rounded (signF64UI a \<noteq> signF64UI b) (f64_abs a * f64_abs b) s (f64_mul a b s) \<and>
    (f64_mag b \<noteq> 0 \<longrightarrow> f64_rounded (signF64UI a \<noteq> signF64UI b) (f64_abs a / f64_abs b) s (f64_div a b s))"
  using f64_mul_rounded [OF assms] f64_div_rounded [OF assms] by blast

theorem f64_mul_div_correct_witness:
  "(f64_rounded (signF64UI (0xBFF0000000000001) \<noteq> signF64UI (0x0000000000000001))
     (f64_abs 0xBFF0000000000001 * f64_abs 0x0000000000000001) softfloat_init (f64_mul 0xBFF0000000000001 0x0000000000000001 softfloat_init) \<and>
   f64_rounded (signF64UI (0x3FF0000000000000) \<noteq> signF64UI (0x4008000000000000))
     (f64_abs 0x3FF0000000000000 / f64_abs 0x4008000000000000) softfloat_init (f64_div 0x3FF0000000000000 0x4008000000000000 softfloat_init)) \<and>
   f64_mul 0xBFF0000000000001 0x0000000000000001 softfloat_init =
     (0x8000000000000001, softfloat_raiseFlags (softfloat_flag_inexact OR softfloat_flag_underflow) softfloat_init) \<and>
   f64_div 0x3FF0000000000000 0x4008000000000000 softfloat_init =
     (0x3FD5555555555555, softfloat_raiseFlags softfloat_flag_inexact softfloat_init)"
proof (intro conjI)
  have fin: "f64_finite 0xBFF0000000000001" "f64_finite 0x0000000000000001" "f64_finite 0x3FF0000000000000" "f64_finite 0x4008000000000000" "f64_mag 0x4008000000000000 \<noteq> 0"
    by (simp_all add: f64_finite_def f64_mag_def)
  show "f64_rounded (signF64UI (0xBFF0000000000001) \<noteq> signF64UI (0x0000000000000001))
     (f64_abs 0xBFF0000000000001 * f64_abs 0x0000000000000001) softfloat_init (f64_mul 0xBFF0000000000001 0x0000000000000001 softfloat_init)"
    using f64_mul_div_correct [OF fin(1,2)] by blast
  show "f64_rounded (signF64UI (0x3FF0000000000000) \<noteq> signF64UI (0x4008000000000000))
     (f64_abs 0x3FF0000000000000 / f64_abs 0x4008000000000000) softfloat_init (f64_div 0x3FF0000000000000 0x4008000000000000 softfloat_init)"
    using f64_mul_div_correct [OF fin(3,4)] fin(5) by blast
qed code_simp+

lemma f64_arith_nan:
  assumes "f64_nan a \<or> f64_nan b" and "op \<in> {f64_add, f64_sub, f64_mul, f64_div}"
  shows "op a b s =
    (0x7FF8000000000000, if f64_snan a \<or> f64_snan b then softfloat_raiseFlags softfloat_flag_invalid s else s)"
  using assms f64_add_nan f64_mul_nan f64_div_nan by auto

lemma f64_arith_special:
  assumes "\<not> f64_nan a" "\<not> f64_nan b"
  shows "(f64_inf a \<or> f64_inf b \<longrightarrow>
            f64_add a b s = (if f64_inf a \<and> f64_inf b \<and> signF64UI a \<noteq> signF64UI b
                             then (0x7FF8000000000000, softfloat_raiseFlags softfloat_flag_invalid s)
                             else (if f64_inf a then a else b, s)) \<and>
            f64_sub a b s = (if f64_inf a \<and> f64_inf b \<and> signF64UI a = signF64UI b
                             then (0x7FF8000000000000, softfloat_raiseFlags softfloat_flag_invalid s)
                             else (if f64_inf a then a else packToF64UI (\<not> signF64UI b) 0x7FF 0, s)) \<and>
            f64_mul a b s = (if f64_mag a = 0 \<or> f64_mag b = 0
                             then (0x7FF8000000000000, softfloat_raiseFlags softfloat_flag_invalid s)
                             else (packToF64UI (signF64UI a \<noteq> signF64UI b) 0x7FF 0, s))) \<and>
         (f64_inf a \<or> f64_inf b \<or> f64_mag b = 0 \<longrightarrow>
            f64_div a b s =
              (if f64_inf a \<and> f64_inf b \<or> f64_mag a = 0 \<and> f64_mag b = 0
               then (0x7FF8000000000000, softfloat_raiseFlags softfloat_flag_invalid s)
               else if f64_inf b then (packToF64UI (signF64UI a \<noteq> signF64UI b) 0 0, s)
               else (packToF64UI (signF64UI a \<noteq> signF64UI b) 0x7FF 0,
                     if f64_inf a then s else softfloat_raiseFlags softfloat_flag_infinite s)))"
  using f64_add_inf [OF assms, of s] f64_sub_inf [OF assms, of s] f64_mul_inf [OF assms, of s] f64_div_edges [OF assms, of s] by argo

text \<open>C17. Exceptional operands of the double-precision operations. A NaN operand of \<open>f64_add\<close>, \<open>f64_sub\<close>, \<open>f64_mul\<close> or \<open>f64_div\<close> gives the
  canonical NaN, and the invalid flag is raised exactly when an operand is a signaling NaN. An infinity is delivered exactly with the sign
  IEEE 754 prescribes; infinities that cancel, zero times infinity, infinity over infinity and zero over zero are invalid operations,
  and a finite nonzero number over zero raises the divide-by-zero flag.\<close>

theorem f64_arith_exceptional:
  "(f64_nan a \<or> f64_nan b \<longrightarrow>
     (\<forall>op \<in> {f64_add, f64_sub, f64_mul, f64_div}. op a b s =
       (0x7FF8000000000000, if f64_snan a \<or> f64_snan b then softfloat_raiseFlags softfloat_flag_invalid s else s))) \<and>
   (\<not> f64_nan a \<and> \<not> f64_nan b \<longrightarrow>
         (f64_inf a \<or> f64_inf b \<longrightarrow>
            f64_add a b s = (if f64_inf a \<and> f64_inf b \<and> signF64UI a \<noteq> signF64UI b
                             then (0x7FF8000000000000, softfloat_raiseFlags softfloat_flag_invalid s)
                             else (if f64_inf a then a else b, s)) \<and>
            f64_sub a b s = (if f64_inf a \<and> f64_inf b \<and> signF64UI a = signF64UI b
                             then (0x7FF8000000000000, softfloat_raiseFlags softfloat_flag_invalid s)
                             else (if f64_inf a then a else packToF64UI (\<not> signF64UI b) 0x7FF 0, s)) \<and>
            f64_mul a b s = (if f64_mag a = 0 \<or> f64_mag b = 0
                             then (0x7FF8000000000000, softfloat_raiseFlags softfloat_flag_invalid s)
                             else (packToF64UI (signF64UI a \<noteq> signF64UI b) 0x7FF 0, s))) \<and>
         (f64_inf a \<or> f64_inf b \<or> f64_mag b = 0 \<longrightarrow>
            f64_div a b s =
              (if f64_inf a \<and> f64_inf b \<or> f64_mag a = 0 \<and> f64_mag b = 0
               then (0x7FF8000000000000, softfloat_raiseFlags softfloat_flag_invalid s)
               else if f64_inf b then (packToF64UI (signF64UI a \<noteq> signF64UI b) 0 0, s)
               else (packToF64UI (signF64UI a \<noteq> signF64UI b) 0x7FF 0,
                     if f64_inf a then s else softfloat_raiseFlags softfloat_flag_infinite s))))"
  using f64_arith_nan [of a b _ s] f64_arith_special [of a b s] by blast

theorem f64_arith_exceptional_witness:
  "f64_mul 0x7FF0000000000001 0x3FF0000000000000 softfloat_init = (0x7FF8000000000000, softfloat_raiseFlags softfloat_flag_invalid softfloat_init) \<and>
   f64_add 0x7FF0000000000000 0xFFF0000000000000 softfloat_init = (0x7FF8000000000000, softfloat_raiseFlags softfloat_flag_invalid softfloat_init) \<and>
   f64_div 0x3FF0000000000000 0 softfloat_init =
     (packToF64UI False 0x7FF 0, softfloat_raiseFlags softfloat_flag_infinite softfloat_init)"
  using f64_arith_exceptional [of "0x7FF0000000000001" "0x3FF0000000000000" softfloat_init]
    f64_arith_exceptional [of "0x7FF0000000000000" "0xFFF0000000000000" softfloat_init]
    f64_arith_exceptional [of "0x3FF0000000000000" 0 softfloat_init]
  by (simp add: f64_nan_def f64_snan_def f64_inf_def f64_mag_def signF64UI_def)

end
