(* ===== verification/Softfloat_Compare.thy ===== *)
theory Softfloat_Compare
  imports Softfloat_F32 Softfloat_F64
begin

text \<open>
  Comparison, classification, minimum and maximum (\<^verbatim>\<open>softfloat/f*_eq.c\<close>, \<^verbatim>\<open>f*_le.c\<close>, \<^verbatim>\<open>f*_lt.c\<close>,
  their quiet and signaling variants, \<^verbatim>\<open>f*_classify.c\<close> and \<^verbatim>\<open>fall_maxmin.c\<close>). On operands that are
  not NaNs the comparisons of bit patterns are the order of the values, where an infinity stands for
  the first power of two beyond the format; NaN operands are unordered and raise the invalid flag
  as the variant demands.
\<close>

section \<open>Single precision\<close>

definition f32_eq :: "float32_t \<Rightarrow> float32_t \<Rightarrow> fp_state \<Rightarrow> bool \<times> fp_state" where
  "f32_eq a b s =
     (let uiA = ucast a; uiB = ucast b
      in if isNaNF32UI uiA \<or> isNaNF32UI uiB then
           (False, if softfloat_isSigNaNF32UI uiA \<or> softfloat_isSigNaNF32UI uiB
                   then softfloat_raiseFlags softfloat_flag_invalid s else s)
         else (uiA = uiB \<or> (ucast (push_bit 1 (uiA OR uiB)) :: uint32_t) = 0, s))"

definition f32_eq_signaling :: "float32_t \<Rightarrow> float32_t \<Rightarrow> fp_state \<Rightarrow> bool \<times> fp_state" where
  "f32_eq_signaling a b s =
     (let uiA = ucast a; uiB = ucast b
      in if isNaNF32UI uiA \<or> isNaNF32UI uiB then
           (False, softfloat_raiseFlags softfloat_flag_invalid s)
         else (uiA = uiB \<or> (ucast (push_bit 1 (uiA OR uiB)) :: uint32_t) = 0, s))"

definition f32_le :: "float32_t \<Rightarrow> float32_t \<Rightarrow> fp_state \<Rightarrow> bool \<times> fp_state" where
  "f32_le a b s =
     (let uiA = ucast a; uiB = ucast b
      in if isNaNF32UI uiA \<or> isNaNF32UI uiB then
           (False, softfloat_raiseFlags softfloat_flag_invalid s)
         else (let signA = signF32UI uiA; signB = signF32UI uiB
            in (if signA \<noteq> signB then signA \<or> (ucast (push_bit 1 (uiA OR uiB)) :: uint32_t) = 0
                else uiA = uiB \<or> signA \<noteq> (uiA < uiB), s)))"

definition f32_le_quiet :: "float32_t \<Rightarrow> float32_t \<Rightarrow> fp_state \<Rightarrow> bool \<times> fp_state" where
  "f32_le_quiet a b s =
     (let uiA = ucast a; uiB = ucast b
      in if isNaNF32UI uiA \<or> isNaNF32UI uiB then
           (False, if softfloat_isSigNaNF32UI uiA \<or> softfloat_isSigNaNF32UI uiB
                   then softfloat_raiseFlags softfloat_flag_invalid s else s)
         else (let signA = signF32UI uiA; signB = signF32UI uiB
            in (if signA \<noteq> signB then signA \<or> (ucast (push_bit 1 (uiA OR uiB)) :: uint32_t) = 0
                else uiA = uiB \<or> signA \<noteq> (uiA < uiB), s)))"

definition f32_lt :: "float32_t \<Rightarrow> float32_t \<Rightarrow> fp_state \<Rightarrow> bool \<times> fp_state" where
  "f32_lt a b s =
     (let uiA = ucast a; uiB = ucast b
      in if isNaNF32UI uiA \<or> isNaNF32UI uiB then
           (False, softfloat_raiseFlags softfloat_flag_invalid s)
         else (let signA = signF32UI uiA; signB = signF32UI uiB
            in (if signA \<noteq> signB then signA \<and> (ucast (push_bit 1 (uiA OR uiB)) :: uint32_t) \<noteq> 0
                else uiA \<noteq> uiB \<and> signA \<noteq> (uiA < uiB), s)))"

definition f32_lt_quiet :: "float32_t \<Rightarrow> float32_t \<Rightarrow> fp_state \<Rightarrow> bool \<times> fp_state" where
  "f32_lt_quiet a b s =
     (let uiA = ucast a; uiB = ucast b
      in if isNaNF32UI uiA \<or> isNaNF32UI uiB then
           (False, if softfloat_isSigNaNF32UI uiA \<or> softfloat_isSigNaNF32UI uiB
                   then softfloat_raiseFlags softfloat_flag_invalid s else s)
         else (let signA = signF32UI uiA; signB = signF32UI uiB
            in (if signA \<noteq> signB then signA \<and> (ucast (push_bit 1 (uiA OR uiB)) :: uint32_t) \<noteq> 0
                else uiA \<noteq> uiB \<and> signA \<noteq> (uiA < uiB), s)))"

definition f32_isSignalingNaN :: "float32_t \<Rightarrow> bool" where
  "f32_isSignalingNaN a = softfloat_isSigNaNF32UI (ucast a)"

definition f32_classify :: "float32_t \<Rightarrow> uint_fast16_t" where
  "f32_classify a =
     (let uiA = ucast a;
          infOrNaN = (expF32UI uiA = 0xFF);
          subnormalOrZero = (expF32UI uiA = 0);
          sign = signF32UI uiA;
          fracZero = (fracF32UI uiA = 0);
          isNaN = isNaNF32UI uiA;
          isSNaN = softfloat_isSigNaNF32UI uiA
      in push_bit 0 (of_bool (sign \<and> infOrNaN \<and> fracZero)) OR
         push_bit 1 (of_bool (sign \<and> \<not> infOrNaN \<and> \<not> subnormalOrZero)) OR
         push_bit 2 (of_bool (sign \<and> subnormalOrZero \<and> \<not> fracZero)) OR
         push_bit 3 (of_bool (sign \<and> subnormalOrZero \<and> fracZero)) OR
         push_bit 7 (of_bool (\<not> sign \<and> infOrNaN \<and> fracZero)) OR
         push_bit 6 (of_bool (\<not> sign \<and> \<not> infOrNaN \<and> \<not> subnormalOrZero)) OR
         push_bit 5 (of_bool (\<not> sign \<and> subnormalOrZero \<and> \<not> fracZero)) OR
         push_bit 4 (of_bool (\<not> sign \<and> subnormalOrZero \<and> fracZero)) OR
         push_bit 8 (of_bool (isNaN \<and> isSNaN)) OR
         push_bit 9 (of_bool (isNaN \<and> \<not> isSNaN)))"

definition f32_max :: "float32_t \<Rightarrow> float32_t \<Rightarrow> fp_state \<Rightarrow> float32_t \<times> fp_state" where
  "f32_max a b s =
     (let (c, s) = f32_lt_quiet b a s;
          (greater, s) = (if c then (True, s) else let (e, s) = f32_eq b a s in (e \<and> signF32UI (ucast b), s))
      in if isNaNF32UI (ucast a) \<and> isNaNF32UI (ucast b) then (ucast defaultNaNF32UI, s)
         else (if greater \<or> isNaNF32UI (ucast b) then a else b, s))"

definition f32_min :: "float32_t \<Rightarrow> float32_t \<Rightarrow> fp_state \<Rightarrow> float32_t \<times> fp_state" where
  "f32_min a b s =
     (let (c, s) = f32_lt_quiet a b s;
          (less, s) = (if c then (True, s) else let (e, s) = f32_eq a b s in (e \<and> signF32UI (ucast a), s))
      in if isNaNF32UI (ucast a) \<and> isNaNF32UI (ucast b) then (ucast defaultNaNF32UI, s)
         else (if less \<or> isNaNF32UI (ucast b) then a else b, s))"

section \<open>Double precision\<close>

definition f64_eq :: "float64_t \<Rightarrow> float64_t \<Rightarrow> fp_state \<Rightarrow> bool \<times> fp_state" where
  "f64_eq a b s =
     (let uiA = a; uiB = b
      in if isNaNF64UI uiA \<or> isNaNF64UI uiB then
           (False, if softfloat_isSigNaNF64UI uiA \<or> softfloat_isSigNaNF64UI uiB
                   then softfloat_raiseFlags softfloat_flag_invalid s else s)
         else (uiA = uiB \<or> (uiA OR uiB) AND 0x7FFFFFFFFFFFFFFF = 0, s))"

definition f64_eq_signaling :: "float64_t \<Rightarrow> float64_t \<Rightarrow> fp_state \<Rightarrow> bool \<times> fp_state" where
  "f64_eq_signaling a b s =
     (let uiA = a; uiB = b
      in if isNaNF64UI uiA \<or> isNaNF64UI uiB then
           (False, softfloat_raiseFlags softfloat_flag_invalid s)
         else (uiA = uiB \<or> (uiA OR uiB) AND 0x7FFFFFFFFFFFFFFF = 0, s))"

definition f64_le :: "float64_t \<Rightarrow> float64_t \<Rightarrow> fp_state \<Rightarrow> bool \<times> fp_state" where
  "f64_le a b s =
     (let uiA = a; uiB = b
      in if isNaNF64UI uiA \<or> isNaNF64UI uiB then
           (False, softfloat_raiseFlags softfloat_flag_invalid s)
         else (let signA = signF64UI uiA; signB = signF64UI uiB
            in (if signA \<noteq> signB then signA \<or> (uiA OR uiB) AND 0x7FFFFFFFFFFFFFFF = 0
                else uiA = uiB \<or> signA \<noteq> (uiA < uiB), s)))"

definition f64_le_quiet :: "float64_t \<Rightarrow> float64_t \<Rightarrow> fp_state \<Rightarrow> bool \<times> fp_state" where
  "f64_le_quiet a b s =
     (let uiA = a; uiB = b
      in if isNaNF64UI uiA \<or> isNaNF64UI uiB then
           (False, if softfloat_isSigNaNF64UI uiA \<or> softfloat_isSigNaNF64UI uiB
                   then softfloat_raiseFlags softfloat_flag_invalid s else s)
         else (let signA = signF64UI uiA; signB = signF64UI uiB
            in (if signA \<noteq> signB then signA \<or> (uiA OR uiB) AND 0x7FFFFFFFFFFFFFFF = 0
                else uiA = uiB \<or> signA \<noteq> (uiA < uiB), s)))"

definition f64_lt :: "float64_t \<Rightarrow> float64_t \<Rightarrow> fp_state \<Rightarrow> bool \<times> fp_state" where
  "f64_lt a b s =
     (let uiA = a; uiB = b
      in if isNaNF64UI uiA \<or> isNaNF64UI uiB then
           (False, softfloat_raiseFlags softfloat_flag_invalid s)
         else (let signA = signF64UI uiA; signB = signF64UI uiB
            in (if signA \<noteq> signB then signA \<and> (uiA OR uiB) AND 0x7FFFFFFFFFFFFFFF \<noteq> 0
                else uiA \<noteq> uiB \<and> signA \<noteq> (uiA < uiB), s)))"

definition f64_lt_quiet :: "float64_t \<Rightarrow> float64_t \<Rightarrow> fp_state \<Rightarrow> bool \<times> fp_state" where
  "f64_lt_quiet a b s =
     (let uiA = a; uiB = b
      in if isNaNF64UI uiA \<or> isNaNF64UI uiB then
           (False, if softfloat_isSigNaNF64UI uiA \<or> softfloat_isSigNaNF64UI uiB
                   then softfloat_raiseFlags softfloat_flag_invalid s else s)
         else (let signA = signF64UI uiA; signB = signF64UI uiB
            in (if signA \<noteq> signB then signA \<and> (uiA OR uiB) AND 0x7FFFFFFFFFFFFFFF \<noteq> 0
                else uiA \<noteq> uiB \<and> signA \<noteq> (uiA < uiB), s)))"

definition f64_isSignalingNaN :: "float64_t \<Rightarrow> bool" where
  "f64_isSignalingNaN a = softfloat_isSigNaNF64UI a"

definition f64_classify :: "float64_t \<Rightarrow> uint_fast16_t" where
  "f64_classify a =
     (let uiA = a;
          infOrNaN = (expF64UI uiA = 0x7FF);
          subnormalOrZero = (expF64UI uiA = 0);
          sign = signF64UI uiA;
          fracZero = (fracF64UI uiA = 0);
          isNaN = isNaNF64UI uiA;
          isSNaN = softfloat_isSigNaNF64UI uiA
      in push_bit 0 (of_bool (sign \<and> infOrNaN \<and> fracZero)) OR
         push_bit 1 (of_bool (sign \<and> \<not> infOrNaN \<and> \<not> subnormalOrZero)) OR
         push_bit 2 (of_bool (sign \<and> subnormalOrZero \<and> \<not> fracZero)) OR
         push_bit 3 (of_bool (sign \<and> subnormalOrZero \<and> fracZero)) OR
         push_bit 7 (of_bool (\<not> sign \<and> infOrNaN \<and> fracZero)) OR
         push_bit 6 (of_bool (\<not> sign \<and> \<not> infOrNaN \<and> \<not> subnormalOrZero)) OR
         push_bit 5 (of_bool (\<not> sign \<and> subnormalOrZero \<and> \<not> fracZero)) OR
         push_bit 4 (of_bool (\<not> sign \<and> subnormalOrZero \<and> fracZero)) OR
         push_bit 8 (of_bool (isNaN \<and> isSNaN)) OR
         push_bit 9 (of_bool (isNaN \<and> \<not> isSNaN)))"

definition f64_max :: "float64_t \<Rightarrow> float64_t \<Rightarrow> fp_state \<Rightarrow> float64_t \<times> fp_state" where
  "f64_max a b s =
     (let (c, s) = f64_lt_quiet b a s;
          (greater, s) = (if c then (True, s) else let (e, s) = f64_eq b a s in (e \<and> signF64UI b, s))
      in if isNaNF64UI a \<and> isNaNF64UI b then (defaultNaNF64UI, s)
         else (if greater \<or> isNaNF64UI b then a else b, s))"

definition f64_min :: "float64_t \<Rightarrow> float64_t \<Rightarrow> fp_state \<Rightarrow> float64_t \<times> fp_state" where
  "f64_min a b s =
     (let (c, s) = f64_lt_quiet a b s;
          (less, s) = (if c then (True, s) else let (e, s) = f64_eq a b s in (e \<and> signF64UI a, s))
      in if isNaNF64UI a \<and> isNaNF64UI b then (defaultNaNF64UI, s)
         else (if less \<or> isNaNF64UI b then a else b, s))"

section \<open>Sign and magnitude\<close>

text \<open>Comparing bit patterns that are a sign above \<open>n\<close> magnitude bits compares signed magnitudes.\<close>

definition signed_mag :: "bool \<Rightarrow> nat \<Rightarrow> int" where
  "signed_mag sign m = (if sign then - int m else int m)"

lemma sign_magnitude_order:
  assumes x: "x = of_bool sA * 2 ^ n + mA" "mA < 2 ^ n" and y: "y = of_bool sB * 2 ^ n + mB" "mB < 2 ^ n"
    and z: "z \<longleftrightarrow> mA = 0 \<and> mB = 0"
  shows "(x = y \<or> z) = (signed_mag sA mA = signed_mag sB mB)"
    and "(if sA \<noteq> sB then sA \<or> z else x = y \<or> sA \<noteq> (x < y)) = (signed_mag sA mA \<le> signed_mag sB mB)"
    and "(if sA \<noteq> sB then sA \<and> \<not> z else x \<noteq> y \<and> sA \<noteq> (x < y)) = (signed_mag sA mA < signed_mag sB mB)"
  using assms by (cases sA; cases sB; auto simp: signed_mag_def)+

definition signed_val :: "nat \<Rightarrow> int \<Rightarrow> bool \<Rightarrow> nat \<Rightarrow> real" where
  "signed_val p q sign m = (if sign then - mag_val p q m else mag_val p q m)"

lemma signed_val_order:
  "signed_val p q sA mA < signed_val p q sB mB \<longleftrightarrow> signed_mag sA mA < signed_mag sB mB"
  "signed_val p q sA mA = signed_val p q sB mB \<longleftrightarrow> signed_mag sA mA = signed_mag sB mB"
proof -
  have pos: "0 \<le> mag_val p q m" "mag_val p q m = 0 \<longleftrightarrow> m = 0" for m
    using mag_val_le_iff [of p q 0 m] mag_val_eq_iff [of p q m 0] by (simp_all del: mag_val_eq_iff mag_val_le_iff)
  show "signed_val p q sA mA < signed_val p q sB mB \<longleftrightarrow> signed_mag sA mA < signed_mag sB mB"
    using pos [of mA] pos [of mB] by (auto simp: signed_val_def signed_mag_def)
  show "signed_val p q sA mA = signed_val p q sB mB \<longleftrightarrow> signed_mag sA mA = signed_mag sB mB"
    using pos [of mA] pos [of mB] by (auto simp: signed_val_def signed_mag_def)
qed

section \<open>Minimum and maximum over an interface of comparisons\<close>

text \<open>
  What minimum and maximum rely on: quiet comparisons that decide the order of values and leave the
  state alone on ordered operands, and that raise the invalid flag exactly for signaling NaNs.
\<close>

locale fp_compare =
  fixes nan snan sgn :: "'a \<Rightarrow> bool" and val :: "'a \<Rightarrow> real"
    and lt_quiet eq :: "'a \<Rightarrow> 'a \<Rightarrow> fp_state \<Rightarrow> bool \<times> fp_state"
  assumes ordered: "\<not> nan a \<Longrightarrow> \<not> nan b \<Longrightarrow> lt_quiet a b s = (val a < val b, s)"
      "\<not> nan a \<Longrightarrow> \<not> nan b \<Longrightarrow> eq a b s = (val a = val b, s)"
    and unordered: "nan a \<or> nan b \<Longrightarrow>
        lt_quiet a b s = (False, if snan a \<or> snan b then softfloat_raiseFlags softfloat_flag_invalid s else s)"
      "nan a \<or> nan b \<Longrightarrow>
        eq a b s = (False, if snan a \<or> snan b then softfloat_raiseFlags softfloat_flag_invalid s else s)"
    and snan_nan: "snan a \<Longrightarrow> nan a"
    and same_sign_zero: "val a = val b \<Longrightarrow> \<not> nan a \<Longrightarrow> \<not> nan b \<Longrightarrow> sgn a = sgn b \<Longrightarrow> a = b"

text \<open>The code of minimum and maximum over that interface, and what it delivers.\<close>

locale fp_maxmin = fp_compare +
  fixes fmax fmin :: "'a \<Rightarrow> 'a \<Rightarrow> fp_state \<Rightarrow> 'a \<times> fp_state" and canonical :: 'a
  assumes fmax_code: "fmax a b s =
      (let (c, s) = lt_quiet b a s;
           (greater, s) = (if c then (True, s) else let (e, s) = eq b a s in (e \<and> sgn b, s))
       in if nan a \<and> nan b then (canonical, s) else (if greater \<or> nan b then a else b, s))"
    and fmin_code: "fmin a b s =
      (let (c, s) = lt_quiet a b s;
           (less, s) = (if c then (True, s) else let (e, s) = eq a b s in (e \<and> sgn a, s))
       in if nan a \<and> nan b then (canonical, s) else (if less \<or> nan b then a else b, s))"
begin

definition above :: "'a \<Rightarrow> 'a \<Rightarrow> bool" where
  "above a b \<longleftrightarrow> val b < val a \<or> (val a = val b \<and> (sgn b \<or> \<not> sgn a))"

lemma fmax_ordered:
  assumes "\<not> nan a" "\<not> nan b"
  shows "fmax a b s = (if above a b then a else b, s)" "fmin a b s = (if above b a then a else b, s)"
proof -
  have "val a = val b \<Longrightarrow> sgn a = sgn b \<Longrightarrow> a = b" using assms same_sign_zero by blast
  then show "fmax a b s = (if above a b then a else b, s)" "fmin a b s = (if above b a then a else b, s)"
    unfolding fmax_code fmin_code ordered [OF assms] ordered [OF assms(2,1)] above_def Let_def
    using assms by (cases "a = b"; auto)+
qed

lemma fmax_unordered:
  assumes "nan a \<or> nan b"
  defines "r \<equiv> \<lambda>s. (if \<not> nan a then a else if \<not> nan b then b else canonical,
      if snan a \<or> snan b then softfloat_raiseFlags softfloat_flag_invalid s else s)"
  shows "fmax a b s = r s" "fmin a b s = r s"
  using assms snan_nan by (auto simp: fmax_code fmin_code unordered)

end

section \<open>Classification\<close>

definition fclass_bit :: "bool \<Rightarrow> bool \<Rightarrow> bool \<Rightarrow> bool \<Rightarrow> bool \<Rightarrow> bool \<Rightarrow> nat" where
  "fclass_bit snan nan isInf zero subnormal sign =
     (if snan then 8 else if nan then 9
      else if isInf then (if sign then 0 else 7)
      else if zero then (if sign then 3 else 4)
      else if subnormal then (if sign then 2 else 5)
      else (if sign then 1 else 6))"

section \<open>Single precision: correctness\<close>

lemma f32_val_signed: "f32_val a = signed_val 23 (- 149) (signF32UI (ucast a)) (f32_mag a)"
  by (simp add: f32_val_def signed_val_def f32_abs_def)

lemma isNaNF32UI_iff: "isNaNF32UI (ucast a) \<longleftrightarrow> f32_nan a"
proof -
  have u: "unat (ucast a :: uint64_t) = unat a" by (rule unat_ucast_up) simp
  have m: "unat a div 2 ^ 23 mod 2 ^ 8 = f32_mag a div 2 ^ 23" "unat a mod 2 ^ 23 = f32_mag a mod 2 ^ 23"
    unfolding f32_mag_def using div_exp_mod_exp_eq [of "unat a" 23 8] by (simp_all add: mod_mod_cancel)
  have 1: "NOT (ucast a :: uint64_t) AND 0x7F800000 = 0 \<longleftrightarrow> f32_mag a div 2 ^ 23 = 255"
    unfolding not_and_eq_zero_iff unfolding word_unat_eq_iff
    using unat_and_field [of "0x7F800000 :: uint64_t" 8 23 "ucast a"] m by (simp add: u)
  have "unat ((ucast a :: uint64_t) AND 0x007FFFFF) = f32_mag a mod 2 ^ 23"
    using unat_and_mask [of "0x007FFFFF :: uint64_t" 23 "ucast a"] m by (simp add: u)
  then have 2: "(ucast a :: uint64_t) AND 0x007FFFFF \<noteq> 0 \<longleftrightarrow> f32_mag a mod 2 ^ 23 \<noteq> 0"
    by (metis unat_eq_zero)
  have "f32_mag a div 2 ^ 23 = 255 \<and> f32_mag a mod 2 ^ 23 \<noteq> 0 \<longleftrightarrow> f32_nan a"
    using div_pow_inside_iff [of "f32_mag a" 23 255] f32_mag_less [of a] by (simp add: f32_nan_def)
  then show ?thesis unfolding isNaNF32UI_def 1 2 .
qed

lemma f32_both_zero:
  "(ucast (push_bit 1 ((ucast a :: uint64_t) OR ucast b)) :: uint32_t) = 0 \<longleftrightarrow> f32_mag a = 0 \<and> f32_mag b = 0"
proof -
  have u: "unat (ucast c :: uint64_t) = unat c" for c :: uint32_t by (rule unat_ucast_up) simp
  have "unat (ucast (push_bit 1 ((ucast a :: uint64_t) OR ucast b)) :: uint32_t) = 2 * ((unat a OR unat b) mod 2 ^ 31)"
    unfolding unat_ucast_mod [where 'b = 32] unat_push_bit_mod unat_or_distrib u by (simp add: mod_mod_cancel mult_mod_right mult.commute)
  then have "(ucast (push_bit 1 ((ucast a :: uint64_t) OR ucast b)) :: uint32_t) = 0 \<longleftrightarrow> (unat a OR unat b) mod 2 ^ 31 = 0"
    by (metis mult_is_0 unat_eq_zero zero_neq_numeral)
  then show ?thesis unfolding nat_or_mod_zero f32_mag_def .
qed

lemmas f32_cmp = isNaNF32UI_iff isSigNaNF32UI_iff f32_both_zero

lemma f32_compare_ordered:
  assumes "\<not> f32_nan a" "\<not> f32_nan b"
  shows "f32_eq a b s = (f32_val a = f32_val b, s)" "f32_eq_signaling a b s = (f32_val a = f32_val b, s)"
    "f32_le a b s = (f32_val a \<le> f32_val b, s)" "f32_le_quiet a b s = (f32_val a \<le> f32_val b, s)"
    "f32_lt a b s = (f32_val a < f32_val b, s)" "f32_lt_quiet a b s = (f32_val a < f32_val b, s)"
proof -
  have u: "unat (ucast c :: uint64_t) = unat c" for c :: uint32_t by (rule unat_ucast_up) simp
  have w: "(ucast a :: uint64_t) = ucast b \<longleftrightarrow> unat a = unat b" "(ucast a :: uint64_t) < ucast b \<longleftrightarrow> unat a < unat b"
    by (simp_all add: word_unat_eq_iff word_less_nat_alt u)
  have m: "f32_mag c < 2 ^ 31" for c by (simp add: f32_mag_def)
  note o = sign_magnitude_order [OF f32_decode [of a] m f32_decode [of b] m refl]
  have v: "(f32_val a \<le> f32_val b) = (signed_mag (signF32UI (ucast a)) (f32_mag a) \<le> signed_mag (signF32UI (ucast b)) (f32_mag b))"
    using signed_val_order [of 23 "- 149" "signF32UI (ucast a)" "f32_mag a" "signF32UI (ucast b)" "f32_mag b"]
    unfolding f32_val_signed le_less by blast
  note defs = f32_eq_def f32_eq_signaling_def f32_le_def f32_le_quiet_def f32_lt_def f32_lt_quiet_def Let_def f32_cmp w
  show "f32_eq a b s = (f32_val a = f32_val b, s)" "f32_eq_signaling a b s = (f32_val a = f32_val b, s)"
    "f32_le a b s = (f32_val a \<le> f32_val b, s)" "f32_le_quiet a b s = (f32_val a \<le> f32_val b, s)"
    "f32_lt a b s = (f32_val a < f32_val b, s)" "f32_lt_quiet a b s = (f32_val a < f32_val b, s)"
    unfolding defs o v unfolding f32_val_signed signed_val_order using assms by simp_all
qed

lemma f32_compare_unordered:
  assumes "f32_nan a \<or> f32_nan b"
  defines "quiet \<equiv> \<lambda>s. (False, if f32_snan a \<or> f32_snan b then softfloat_raiseFlags softfloat_flag_invalid s else s)"
  defines "signaling \<equiv> \<lambda>s. (False, softfloat_raiseFlags softfloat_flag_invalid s)"
  shows "f32_eq a b s = quiet s" "f32_le_quiet a b s = quiet s" "f32_lt_quiet a b s = quiet s"
    "f32_eq_signaling a b s = signaling s" "f32_le a b s = signaling s" "f32_lt a b s = signaling s"
  using assms(1) unfolding f32_eq_def f32_eq_signaling_def f32_le_def f32_le_quiet_def f32_lt_def f32_lt_quiet_def
    Let_def f32_cmp quiet_def signaling_def by simp_all

interpretation f32_cmp: fp_maxmin f32_nan f32_snan "\<lambda>a. signF32UI (ucast a)" f32_val f32_lt_quiet f32_eq
  f32_max f32_min "0x7FC00000"
proof unfold_locales
  fix a b :: float32_t
  assume "f32_val a = f32_val b" "signF32UI (ucast a) = signF32UI (ucast b)"
  then have "f32_mag a = f32_mag b"
    unfolding f32_val_signed signed_val_order by (auto simp: signed_mag_def split: if_splits)
  then show "a = b"
    using f32_decode [of a] f32_decode [of b] \<open>signF32UI _ = _\<close> by (simp add: word_unat_eq_iff)
qed (auto simp: f32_compare_ordered f32_compare_unordered f32_snan_def f32_max_def f32_min_def isNaNF32UI_iff
       defaultNaNF32UI_def split: prod.splits)

lemma f32_classify_bit:
  "f32_classify a = 2 ^ fclass_bit (f32_snan a) (f32_nan a) (f32_inf a) (f32_mag a = 0) (f32_mag a < 2 ^ 23) (signF32UI (ucast a))"
proof -
  have e0: "expF32UI (ucast a) = 0 \<longleftrightarrow> f32_mag a < 2 ^ 23" by (auto simp: f32_fields div_eq_0_iff)
  have z: "f32_mag a < 2 ^ 23 \<Longrightarrow> fracF32UI (ucast a) = 0 \<longleftrightarrow> f32_mag a = 0" using e0 f32_zero_iff [of a] by blast
  consider "f32_nan a" | "f32_inf a" | "f32_finite a" "f32_mag a < 2 ^ 23" | "f32_finite a" "\<not> f32_mag a < 2 ^ 23"
    using f32_class(5) by blast
  then show ?thesis
  proof cases
    case 1
    then have "\<not> f32_finite a" "\<not> f32_mag a < 2 ^ 23" "fracF32UI (ucast a) \<noteq> 0"
      using f32_class(2,4) by (auto simp: f32_nan_def)
    with 1 show ?thesis
      unfolding f32_classify_def Let_def f32_class(1) e0 f32_cmp by (auto simp: fclass_bit_def)
  next
    case 2
    then have "\<not> f32_finite a" "\<not> f32_mag a < 2 ^ 23" "fracF32UI (ucast a) = 0" "\<not> f32_nan a" "\<not> f32_snan a"
      using f32_class(2,3,6) by (auto simp: f32_inf_def f32_snan_def)
    with 2 show ?thesis
      unfolding f32_classify_def Let_def f32_class(1) e0 f32_cmp by (auto simp: fclass_bit_def)
  next
    case 3
    then have "\<not> f32_nan a" "\<not> f32_snan a" "\<not> f32_inf a" using f32_class(3,4) by (auto simp: f32_snan_def)
    with 3 z show ?thesis
      unfolding f32_classify_def Let_def f32_class(1) e0 f32_cmp by (auto simp: fclass_bit_def)
  next
    case 4
    then have "\<not> f32_nan a" "\<not> f32_snan a" "\<not> f32_inf a" "f32_mag a \<noteq> 0"
      using f32_class(3,4) by (auto simp: f32_snan_def intro!: notI)
    with 4 show ?thesis
      unfolding f32_classify_def Let_def f32_class(1) e0 f32_cmp by (auto simp: fclass_bit_def)
  qed
qed

section \<open>Double precision: correctness\<close>

lemma f64_val_signed: "f64_val a = signed_val 52 (- 1074) (signF64UI a) (f64_mag a)"
  by (simp add: f64_val_def signed_val_def f64_abs_def)

lemma isNaNF64UI_iff: "isNaNF64UI a \<longleftrightarrow> f64_nan a"
proof -
  have m: "unat a div 2 ^ 52 mod 2 ^ 11 = f64_mag a div 2 ^ 52" "unat a mod 2 ^ 52 = f64_mag a mod 2 ^ 52"
    unfolding f64_mag_def using div_exp_mod_exp_eq [of "unat a" 52 11] by (simp_all add: mod_mod_cancel)
  have 1: "NOT a AND 0x7FF0000000000000 = 0 \<longleftrightarrow> f64_mag a div 2 ^ 52 = 2047"
    unfolding not_and_eq_zero_iff unfolding word_unat_eq_iff
    using unat_and_field [of "0x7FF0000000000000 :: uint64_t" 11 52 a] m by simp
  have "unat (a AND 0x000FFFFFFFFFFFFF) = f64_mag a mod 2 ^ 52"
    using unat_and_mask [of "0x000FFFFFFFFFFFFF :: uint64_t" 52 a] m by simp
  then have 2: "a AND 0x000FFFFFFFFFFFFF \<noteq> 0 \<longleftrightarrow> f64_mag a mod 2 ^ 52 \<noteq> 0"
    by (metis unat_eq_zero)
  have "f64_mag a div 2 ^ 52 = 2047 \<and> f64_mag a mod 2 ^ 52 \<noteq> 0 \<longleftrightarrow> f64_nan a"
    using div_pow_inside_iff [of "f64_mag a" 52 2047] f64_mag_less [of a] by (simp add: f64_nan_def)
  then show ?thesis unfolding isNaNF64UI_def 1 2 .
qed

lemma f64_both_zero: "(a OR b) AND 0x7FFFFFFFFFFFFFFF = 0 \<longleftrightarrow> f64_mag a = 0 \<and> f64_mag b = 0"
proof -
  have "unat ((a OR b) AND 0x7FFFFFFFFFFFFFFF) = (unat a OR unat b) mod 2 ^ 63"
    unfolding unat_or_distrib [symmetric] by (rule unat_and_mask) simp
  then have "(a OR b) AND 0x7FFFFFFFFFFFFFFF = 0 \<longleftrightarrow> (unat a OR unat b) mod 2 ^ 63 = 0" by (metis unat_eq_zero)
  then show ?thesis unfolding nat_or_mod_zero f64_mag_def .
qed

lemmas f64_cmp = isNaNF64UI_iff isSigNaNF64UI_iff f64_both_zero

lemma f64_compare_ordered:
  assumes "\<not> f64_nan a" "\<not> f64_nan b"
  shows "f64_eq a b s = (f64_val a = f64_val b, s)" "f64_eq_signaling a b s = (f64_val a = f64_val b, s)"
    "f64_le a b s = (f64_val a \<le> f64_val b, s)" "f64_le_quiet a b s = (f64_val a \<le> f64_val b, s)"
    "f64_lt a b s = (f64_val a < f64_val b, s)" "f64_lt_quiet a b s = (f64_val a < f64_val b, s)"
proof -
  have w: "a = b \<longleftrightarrow> unat a = unat b" "a < b \<longleftrightarrow> unat a < unat b"
    by (simp_all add: word_unat_eq_iff word_less_nat_alt)
  have m: "f64_mag c < 2 ^ 63" for c by (simp add: f64_mag_def)
  note o = sign_magnitude_order [OF f64_decode [of a] m f64_decode [of b] m refl]
  have v: "(f64_val a \<le> f64_val b) = (signed_mag (signF64UI a) (f64_mag a) \<le> signed_mag (signF64UI b) (f64_mag b))"
    using signed_val_order [of 52 "- 1074" "signF64UI a" "f64_mag a" "signF64UI b" "f64_mag b"]
    unfolding f64_val_signed le_less by blast
  note defs = f64_eq_def f64_eq_signaling_def f64_le_def f64_le_quiet_def f64_lt_def f64_lt_quiet_def Let_def f64_cmp w
  show "f64_eq a b s = (f64_val a = f64_val b, s)" "f64_eq_signaling a b s = (f64_val a = f64_val b, s)"
    "f64_le a b s = (f64_val a \<le> f64_val b, s)" "f64_le_quiet a b s = (f64_val a \<le> f64_val b, s)"
    "f64_lt a b s = (f64_val a < f64_val b, s)" "f64_lt_quiet a b s = (f64_val a < f64_val b, s)"
    unfolding defs o v unfolding f64_val_signed signed_val_order using assms by simp_all
qed

lemma f64_compare_unordered:
  assumes "f64_nan a \<or> f64_nan b"
  defines "quiet \<equiv> \<lambda>s. (False, if f64_snan a \<or> f64_snan b then softfloat_raiseFlags softfloat_flag_invalid s else s)"
  defines "signaling \<equiv> \<lambda>s. (False, softfloat_raiseFlags softfloat_flag_invalid s)"
  shows "f64_eq a b s = quiet s" "f64_le_quiet a b s = quiet s" "f64_lt_quiet a b s = quiet s"
    "f64_eq_signaling a b s = signaling s" "f64_le a b s = signaling s" "f64_lt a b s = signaling s"
  using assms(1) unfolding f64_eq_def f64_eq_signaling_def f64_le_def f64_le_quiet_def f64_lt_def f64_lt_quiet_def
    Let_def f64_cmp quiet_def signaling_def by simp_all

interpretation f64_cmp: fp_maxmin f64_nan f64_snan signF64UI f64_val f64_lt_quiet f64_eq
  f64_max f64_min "0x7FF8000000000000"
proof unfold_locales
  fix a b :: float64_t
  assume "f64_val a = f64_val b" "signF64UI a = signF64UI b"
  then have "f64_mag a = f64_mag b"
    unfolding f64_val_signed signed_val_order by (auto simp: signed_mag_def split: if_splits)
  then show "a = b"
    using f64_decode [of a] f64_decode [of b] \<open>signF64UI _ = _\<close> by (simp add: word_unat_eq_iff)
qed (auto simp: f64_compare_ordered f64_compare_unordered f64_snan_def f64_max_def f64_min_def isNaNF64UI_iff
       defaultNaNF64UI_def split: prod.splits)

lemma f64_classify_bit:
  "f64_classify a = 2 ^ fclass_bit (f64_snan a) (f64_nan a) (f64_inf a) (f64_mag a = 0) (f64_mag a < 2 ^ 52) (signF64UI a)"
proof -
  have e0: "expF64UI a = 0 \<longleftrightarrow> f64_mag a < 2 ^ 52" by (auto simp: f64_fields div_eq_0_iff)
  have z: "f64_mag a < 2 ^ 52 \<Longrightarrow> fracF64UI a = 0 \<longleftrightarrow> f64_mag a = 0" using e0 f64_zero_iff [of a] by blast
  consider "f64_nan a" | "f64_inf a" | "f64_finite a" "f64_mag a < 2 ^ 52" | "f64_finite a" "\<not> f64_mag a < 2 ^ 52"
    using f64_class(5) by blast
  then show ?thesis
  proof cases
    case 1
    then have "\<not> f64_finite a" "\<not> f64_mag a < 2 ^ 52" "fracF64UI a \<noteq> 0"
      using f64_class(2,4) by (auto simp: f64_nan_def)
    with 1 show ?thesis
      unfolding f64_classify_def Let_def f64_class(1) e0 f64_cmp by (auto simp: fclass_bit_def)
  next
    case 2
    then have "\<not> f64_finite a" "\<not> f64_mag a < 2 ^ 52" "fracF64UI a = 0" "\<not> f64_nan a" "\<not> f64_snan a"
      using f64_class(2,3,6) by (auto simp: f64_inf_def f64_snan_def)
    with 2 show ?thesis
      unfolding f64_classify_def Let_def f64_class(1) e0 f64_cmp by (auto simp: fclass_bit_def)
  next
    case 3
    then have "\<not> f64_nan a" "\<not> f64_snan a" "\<not> f64_inf a" using f64_class(3,4) by (auto simp: f64_snan_def)
    with 3 z show ?thesis
      unfolding f64_classify_def Let_def f64_class(1) e0 f64_cmp by (auto simp: fclass_bit_def)
  next
    case 4
    then have "\<not> f64_nan a" "\<not> f64_snan a" "\<not> f64_inf a" "f64_mag a \<noteq> 0"
      using f64_class(3,4) by (auto simp: f64_snan_def intro!: notI)
    with 4 show ?thesis
      unfolding f64_classify_def Let_def f64_class(1) e0 f64_cmp by (auto simp: fclass_bit_def)
  qed
qed

section \<open>Properties\<close>

lemma f32_compare_laws:
  "(\<not> f32_nan a \<and> \<not> f32_nan b \<longrightarrow>
     f32_eq a b s = (f32_val a = f32_val b, s) \<and> f32_eq_signaling a b s = (f32_val a = f32_val b, s) \<and>
     f32_le a b s = (f32_val a \<le> f32_val b, s) \<and> f32_le_quiet a b s = (f32_val a \<le> f32_val b, s) \<and>
     f32_lt a b s = (f32_val a < f32_val b, s) \<and> f32_lt_quiet a b s = (f32_val a < f32_val b, s)) \<and>
   (f32_nan a \<or> f32_nan b \<longrightarrow>
     (\<forall>cmp \<in> {f32_eq, f32_le_quiet, f32_lt_quiet}.
        cmp a b s = (False, if f32_snan a \<or> f32_snan b then softfloat_raiseFlags softfloat_flag_invalid s else s)) \<and>
     (\<forall>cmp \<in> {f32_eq_signaling, f32_le, f32_lt}. cmp a b s = (False, softfloat_raiseFlags softfloat_flag_invalid s)))"
  using f32_compare_ordered [of a b s] f32_compare_unordered [of a b s] by simp

lemma f64_compare_laws:
  "(\<not> f64_nan a \<and> \<not> f64_nan b \<longrightarrow>
     f64_eq a b s = (f64_val a = f64_val b, s) \<and> f64_eq_signaling a b s = (f64_val a = f64_val b, s) \<and>
     f64_le a b s = (f64_val a \<le> f64_val b, s) \<and> f64_le_quiet a b s = (f64_val a \<le> f64_val b, s) \<and>
     f64_lt a b s = (f64_val a < f64_val b, s) \<and> f64_lt_quiet a b s = (f64_val a < f64_val b, s)) \<and>
   (f64_nan a \<or> f64_nan b \<longrightarrow>
     (\<forall>cmp \<in> {f64_eq, f64_le_quiet, f64_lt_quiet}.
        cmp a b s = (False, if f64_snan a \<or> f64_snan b then softfloat_raiseFlags softfloat_flag_invalid s else s)) \<and>
     (\<forall>cmp \<in> {f64_eq_signaling, f64_le, f64_lt}. cmp a b s = (False, softfloat_raiseFlags softfloat_flag_invalid s)))"
  using f64_compare_ordered [of a b s] f64_compare_unordered [of a b s] by simp

lemma f32_maxmin_laws:
  "(\<not> f32_nan a \<and> \<not> f32_nan b \<longrightarrow>
     f32_max a b s = (if f32_val b < f32_val a \<or> (f32_val a = f32_val b \<and> (signF32UI (ucast b) \<or> \<not> signF32UI (ucast a))) then a else b, s) \<and>
     f32_min a b s = (if f32_val a < f32_val b \<or> (f32_val b = f32_val a \<and> (signF32UI (ucast a) \<or> \<not> signF32UI (ucast b))) then a else b, s)) \<and>
   (f32_nan a \<or> f32_nan b \<longrightarrow>
     (\<forall>op \<in> {f32_max, f32_min}. op a b s =
       (if \<not> f32_nan a then a else if \<not> f32_nan b then b else 0x7FC00000,
        if f32_snan a \<or> f32_snan b then softfloat_raiseFlags softfloat_flag_invalid s else s)))"
  using f32_cmp.fmax_ordered [of a b s, unfolded f32_cmp.above_def] f32_cmp.fmax_unordered [of a b s] by simp

lemma f64_maxmin_laws:
  "(\<not> f64_nan a \<and> \<not> f64_nan b \<longrightarrow>
     f64_max a b s = (if f64_val b < f64_val a \<or> (f64_val a = f64_val b \<and> (signF64UI b \<or> \<not> signF64UI a)) then a else b, s) \<and>
     f64_min a b s = (if f64_val a < f64_val b \<or> (f64_val b = f64_val a \<and> (signF64UI a \<or> \<not> signF64UI b)) then a else b, s)) \<and>
   (f64_nan a \<or> f64_nan b \<longrightarrow>
     (\<forall>op \<in> {f64_max, f64_min}. op a b s =
       (if \<not> f64_nan a then a else if \<not> f64_nan b then b else 0x7FF8000000000000,
        if f64_snan a \<or> f64_snan b then softfloat_raiseFlags softfloat_flag_invalid s else s)))"
  using f64_cmp.fmax_ordered [of a b s, unfolded f64_cmp.above_def] f64_cmp.fmax_unordered [of a b s] by simp

text \<open>C18. The comparisons of single and double precision: on operands that are not NaNs every variant of equality,
  less-or-equal and less-than decides the order of the values and raises nothing; with a NaN operand
  every variant is false, the quiet ones raise invalid exactly for signaling NaNs and the signaling
  ones always.\<close>

theorem float_compare_correct:
  "((\<not> f32_nan a \<and> \<not> f32_nan b \<longrightarrow>
     f32_eq a b s = (f32_val a = f32_val b, s) \<and> f32_eq_signaling a b s = (f32_val a = f32_val b, s) \<and>
     f32_le a b s = (f32_val a \<le> f32_val b, s) \<and> f32_le_quiet a b s = (f32_val a \<le> f32_val b, s) \<and>
     f32_lt a b s = (f32_val a < f32_val b, s) \<and> f32_lt_quiet a b s = (f32_val a < f32_val b, s)) \<and>
   (f32_nan a \<or> f32_nan b \<longrightarrow>
     (\<forall>cmp \<in> {f32_eq, f32_le_quiet, f32_lt_quiet}.
        cmp a b s = (False, if f32_snan a \<or> f32_snan b then softfloat_raiseFlags softfloat_flag_invalid s else s)) \<and>
     (\<forall>cmp \<in> {f32_eq_signaling, f32_le, f32_lt}. cmp a b s = (False, softfloat_raiseFlags softfloat_flag_invalid s)))) \<and>
   ((\<not> f64_nan c \<and> \<not> f64_nan d \<longrightarrow>
     f64_eq c d s = (f64_val c = f64_val d, s) \<and> f64_eq_signaling c d s = (f64_val c = f64_val d, s) \<and>
     f64_le c d s = (f64_val c \<le> f64_val d, s) \<and> f64_le_quiet c d s = (f64_val c \<le> f64_val d, s) \<and>
     f64_lt c d s = (f64_val c < f64_val d, s) \<and> f64_lt_quiet c d s = (f64_val c < f64_val d, s)) \<and>
   (f64_nan c \<or> f64_nan d \<longrightarrow>
     (\<forall>cmp \<in> {f64_eq, f64_le_quiet, f64_lt_quiet}.
        cmp c d s = (False, if f64_snan c \<or> f64_snan d then softfloat_raiseFlags softfloat_flag_invalid s else s)) \<and>
     (\<forall>cmp \<in> {f64_eq_signaling, f64_le, f64_lt}. cmp c d s = (False, softfloat_raiseFlags softfloat_flag_invalid s))))"
  by (intro conjI [OF f32_compare_laws f64_compare_laws])

theorem float_compare_correct_witness:
  "f32_lt 0x80000000 0x3F800000 softfloat_init = (f32_val 0x80000000 < f32_val 0x3F800000, softfloat_init) \<and>
   f64_eq 0x7FF8000000000000 0x3FF0000000000000 softfloat_init = (False, softfloat_init) \<and>
   f64_le 0x7FF8000000000000 0x3FF0000000000000 softfloat_init = (False, softfloat_raiseFlags softfloat_flag_invalid softfloat_init)"
  using float_compare_correct [of "0x80000000" "0x3F800000" softfloat_init "0x7FF8000000000000" "0x3FF0000000000000"]
  by (simp add: f32_nan_def f32_mag_def f32_snan_def f64_nan_def f64_mag_def f64_snan_def)

text \<open>C19. Maximum and minimum of single and double precision: on operands that are not NaNs the larger or smaller value is delivered,
  with negative zero below positive zero; a NaN operand gives the other operand, two NaNs the canonical
  NaN, and invalid is raised exactly for signaling NaNs.\<close>

theorem float_maxmin_correct:
  "((\<not> f32_nan a \<and> \<not> f32_nan b \<longrightarrow>
     f32_max a b s = (if f32_val b < f32_val a \<or> (f32_val a = f32_val b \<and> (signF32UI (ucast b) \<or> \<not> signF32UI (ucast a))) then a else b, s) \<and>
     f32_min a b s = (if f32_val a < f32_val b \<or> (f32_val b = f32_val a \<and> (signF32UI (ucast a) \<or> \<not> signF32UI (ucast b))) then a else b, s)) \<and>
   (f32_nan a \<or> f32_nan b \<longrightarrow>
     (\<forall>op \<in> {f32_max, f32_min}. op a b s =
       (if \<not> f32_nan a then a else if \<not> f32_nan b then b else 0x7FC00000,
        if f32_snan a \<or> f32_snan b then softfloat_raiseFlags softfloat_flag_invalid s else s)))) \<and>
   ((\<not> f64_nan c \<and> \<not> f64_nan d \<longrightarrow>
     f64_max c d s = (if f64_val d < f64_val c \<or> (f64_val c = f64_val d \<and> (signF64UI d \<or> \<not> signF64UI c)) then c else d, s) \<and>
     f64_min c d s = (if f64_val c < f64_val d \<or> (f64_val d = f64_val c \<and> (signF64UI c \<or> \<not> signF64UI d)) then c else d, s)) \<and>
   (f64_nan c \<or> f64_nan d \<longrightarrow>
     (\<forall>op \<in> {f64_max, f64_min}. op c d s =
       (if \<not> f64_nan c then c else if \<not> f64_nan d then d else 0x7FF8000000000000,
        if f64_snan c \<or> f64_snan d then softfloat_raiseFlags softfloat_flag_invalid s else s))))"
  by (intro conjI [OF f32_maxmin_laws f64_maxmin_laws])

theorem float_maxmin_correct_witness:
  "f32_max 0x80000000 0 softfloat_init = (0, softfloat_init) \<and> f64_min 0x7FF0000000000001 0x3FF0000000000000 softfloat_init =
     (0x3FF0000000000000, softfloat_raiseFlags softfloat_flag_invalid softfloat_init)"
proof -
  have "f32_val 0x80000000 = f32_val 0" by (simp add: f32_val_def f32_abs_def f32_mag_def)
  then show ?thesis
    using float_maxmin_correct [of "0x80000000" 0 softfloat_init "0x7FF0000000000001" "0x3FF0000000000000"]
    by (simp add: f32_nan_def f32_mag_def f32_snan_def signF32UI_def f64_nan_def f64_mag_def f64_snan_def)
qed

text \<open>C20. \<open>f32_classify\<close> and \<open>f64_classify\<close> set exactly the bit of the class that the RISC-V manual gives their operand.\<close>

theorem fclassify_correct:
  "f32_classify a =
     2 ^ fclass_bit (f32_snan a) (f32_nan a) (f32_inf a) (f32_mag a = 0) (f32_mag a < 2 ^ 23) (signF32UI (ucast a)) \<and>
   f64_classify b =
     2 ^ fclass_bit (f64_snan b) (f64_nan b) (f64_inf b) (f64_mag b = 0) (f64_mag b < 2 ^ 52) (signF64UI b)"
  by (intro conjI f32_classify_bit f64_classify_bit)

end
