(* ===== verification/Softfloat_ToInt.thy ===== *)
theory Softfloat_ToInt
  imports Softfloat_F32 Softfloat_F64
begin

text \<open>
  Conversion of floating-point numbers to integers (\<^verbatim>\<open>softfloat/s_roundTo*.c\<close>, \<^verbatim>\<open>softfloat/f*_to_i*.c\<close>,
  \<^verbatim>\<open>softfloat/f*_to_ui*.c\<close>). Signed results are integers and unsigned results are words. The rounding
  routines take a significand with 12 extra bits (32-bit targets) or with an extra word (64-bit
  targets); out-of-range operands and NaNs raise the invalid flag and give the values that
  \<^verbatim>\<open>specialize.h\<close> fixes for RISC-V.
\<close>

section \<open>Values for invalid conversions\<close>

definition ui32_fromPosOverflow :: uint_fast32_t where "ui32_fromPosOverflow = 0xFFFFFFFF"
definition ui32_fromNegOverflow :: uint_fast32_t where "ui32_fromNegOverflow = 0"
definition i32_fromPosOverflow :: int where "i32_fromPosOverflow = 0x7FFFFFFF"
definition i32_fromNegOverflow :: int where "i32_fromNegOverflow = - 0x7FFFFFFF - 1"
definition ui64_fromPosOverflow :: uint_fast64_t where "ui64_fromPosOverflow = 0xFFFFFFFFFFFFFFFF"
definition ui64_fromNegOverflow :: uint_fast64_t where "ui64_fromNegOverflow = 0"
definition ui64_fromNaN :: uint_fast64_t where "ui64_fromNaN = 0xFFFFFFFFFFFFFFFF"
definition i64_fromPosOverflow :: int where "i64_fromPosOverflow = 0x7FFFFFFFFFFFFFFF"
definition i64_fromNegOverflow :: int where "i64_fromNegOverflow = - 0x7FFFFFFFFFFFFFFF - 1"
definition i64_fromNaN :: int where "i64_fromNaN = 0x7FFFFFFFFFFFFFFF"

lemmas from_overflow_defs =
  ui32_fromPosOverflow_def ui32_fromNegOverflow_def i32_fromPosOverflow_def i32_fromNegOverflow_def
  ui64_fromPosOverflow_def ui64_fromNegOverflow_def ui64_fromNaN_def
  i64_fromPosOverflow_def i64_fromNegOverflow_def i64_fromNaN_def

section \<open>Rounding to an integer\<close>

definition roundTo32_increment :: "bool \<Rightarrow> uint_fast8_t \<Rightarrow> uint_fast16_t" where
  "roundTo32_increment sign roundingMode =
     (if roundingMode \<noteq> softfloat_round_near_even \<and> roundingMode \<noteq> softfloat_round_near_maxMag
      then (if roundingMode = (if sign then softfloat_round_min else softfloat_round_max) then 0xFFF else 0)
      else 0x800)"

definition softfloat_roundToI32 ::
  "bool \<Rightarrow> uint_fast64_t \<Rightarrow> uint_fast8_t \<Rightarrow> bool \<Rightarrow> fp_state \<Rightarrow> int \<times> fp_state" where
  "softfloat_roundToI32 sign sig roundingMode exact s =
     (let roundNearEven = (roundingMode = softfloat_round_near_even);
          roundIncrement = roundTo32_increment sign roundingMode;
          roundBits = sig AND 0xFFF;
          sig = sig + roundIncrement;
          invalid = (if sign then i32_fromNegOverflow else i32_fromPosOverflow,
                     softfloat_raiseFlags softfloat_flag_invalid s)
      in if sig AND 0xFFFFF00000000000 \<noteq> 0 then invalid
         else
           let sig32 = drop_bit 12 sig AND NOT (of_bool (roundBits XOR 0x800 = 0 \<and> roundNearEven));
               z = sint (ucast (if sign then - sig32 else sig32) :: uint32_t)
           in if z \<noteq> 0 \<and> (z < 0) \<noteq> sign then invalid
              else (z, if exact \<and> roundBits \<noteq> 0
                       then s\<lparr>softfloat_exceptionFlags := softfloat_exceptionFlags s OR softfloat_flag_inexact\<rparr>
                       else s))"

definition softfloat_roundToUI32 ::
  "bool \<Rightarrow> uint_fast64_t \<Rightarrow> uint_fast8_t \<Rightarrow> bool \<Rightarrow> fp_state \<Rightarrow> uint_fast32_t \<times> fp_state" where
  "softfloat_roundToUI32 sign sig roundingMode exact s =
     (let roundNearEven = (roundingMode = softfloat_round_near_even);
          roundIncrement = roundTo32_increment sign roundingMode;
          roundBits = sig AND 0xFFF;
          sig = sig + roundIncrement;
          invalid = (if sign then ui32_fromNegOverflow else ui32_fromPosOverflow,
                     softfloat_raiseFlags softfloat_flag_invalid s)
      in if sig AND 0xFFFFF00000000000 \<noteq> 0 then invalid
         else
           let z = drop_bit 12 sig AND NOT (of_bool (roundBits XOR 0x800 = 0 \<and> roundNearEven))
           in if sign \<and> z \<noteq> 0 then invalid
              else (z, if exact \<and> roundBits \<noteq> 0
                       then s\<lparr>softfloat_exceptionFlags := softfloat_exceptionFlags s OR softfloat_flag_inexact\<rparr>
                       else s))"

definition roundTo64_doIncrement :: "bool \<Rightarrow> uint_fast64_t \<Rightarrow> uint_fast8_t \<Rightarrow> bool" where
  "roundTo64_doIncrement sign sigExtra roundingMode =
     (if roundingMode \<noteq> softfloat_round_near_even \<and> roundingMode \<noteq> softfloat_round_near_maxMag
      then roundingMode = (if sign then softfloat_round_min else softfloat_round_max) \<and> sigExtra \<noteq> 0
      else 0x8000000000000000 \<le> sigExtra)"

definition softfloat_roundToI64 ::
  "bool \<Rightarrow> uint_fast64_t \<Rightarrow> uint_fast64_t \<Rightarrow> uint_fast8_t \<Rightarrow> bool \<Rightarrow> fp_state \<Rightarrow> int \<times> fp_state" where
  "softfloat_roundToI64 sign sig sigExtra roundingMode exact s =
     (let roundNearEven = (roundingMode = softfloat_round_near_even);
          doIncrement = roundTo64_doIncrement sign sigExtra roundingMode;
          invalid = (if sign then i64_fromNegOverflow else i64_fromPosOverflow,
                     softfloat_raiseFlags softfloat_flag_invalid s)
      in if doIncrement \<and> sig + 1 = 0 then invalid
         else
           let sig = (if doIncrement
                      then (sig + 1) AND NOT (of_bool (sigExtra AND 0x7FFFFFFFFFFFFFFF = 0 \<and> roundNearEven))
                      else sig);
               z = sint (if sign then - sig else sig)
           in if z \<noteq> 0 \<and> (z < 0) \<noteq> sign then invalid
              else (z, if exact \<and> sigExtra \<noteq> 0
                       then s\<lparr>softfloat_exceptionFlags := softfloat_exceptionFlags s OR softfloat_flag_inexact\<rparr>
                       else s))"

definition softfloat_roundToUI64 ::
  "bool \<Rightarrow> uint_fast64_t \<Rightarrow> uint_fast64_t \<Rightarrow> uint_fast8_t \<Rightarrow> bool \<Rightarrow> fp_state \<Rightarrow> uint_fast64_t \<times> fp_state" where
  "softfloat_roundToUI64 sign sig sigExtra roundingMode exact s =
     (let roundNearEven = (roundingMode = softfloat_round_near_even);
          doIncrement = roundTo64_doIncrement sign sigExtra roundingMode;
          invalid = (if sign then ui64_fromNegOverflow else ui64_fromPosOverflow,
                     softfloat_raiseFlags softfloat_flag_invalid s)
      in if doIncrement \<and> sig + 1 = 0 then invalid
         else
           let sig = (if doIncrement
                      then (sig + 1) AND NOT (of_bool (sigExtra AND 0x7FFFFFFFFFFFFFFF = 0 \<and> roundNearEven))
                      else sig)
           in if sign \<and> sig \<noteq> 0 then invalid
              else (sig, if exact \<and> sigExtra \<noteq> 0
                       then s\<lparr>softfloat_exceptionFlags := softfloat_exceptionFlags s OR softfloat_flag_inexact\<rparr>
                       else s))"

section \<open>Conversions\<close>

definition f32_to_i32 :: "float32_t \<Rightarrow> uint_fast8_t \<Rightarrow> bool \<Rightarrow> fp_state \<Rightarrow> int \<times> fp_state" where
  "f32_to_i32 a roundingMode exact s =
     (let uiA = ucast a;
          sign = signF32UI uiA;
          expn = expF32UI uiA;
          sig = fracF32UI uiA;
          sign = (if expn = 0xFF \<and> sig \<noteq> 0 then False else sign);
          sig = (if expn \<noteq> 0 then sig OR 0x00800000 else sig);
          sig64 = push_bit 32 sig;
          shiftDist = 0xAA - expn;
          sig64 = (if 0 < shiftDist then softfloat_shiftRightJam64 sig64 (word_of_int shiftDist) else sig64)
      in softfloat_roundToI32 sign sig64 roundingMode exact s)"

definition f32_to_ui32 :: "float32_t \<Rightarrow> uint_fast8_t \<Rightarrow> bool \<Rightarrow> fp_state \<Rightarrow> uint_fast32_t \<times> fp_state" where
  "f32_to_ui32 a roundingMode exact s =
     (let uiA = ucast a;
          sign = signF32UI uiA;
          expn = expF32UI uiA;
          sig = fracF32UI uiA;
          sign = (if expn = 0xFF \<and> sig \<noteq> 0 then False else sign);
          sig = (if expn \<noteq> 0 then sig OR 0x00800000 else sig);
          sig64 = push_bit 32 sig;
          shiftDist = 0xAA - expn;
          sig64 = (if 0 < shiftDist then softfloat_shiftRightJam64 sig64 (word_of_int shiftDist) else sig64)
      in softfloat_roundToUI32 sign sig64 roundingMode exact s)"

definition f32_to_i64 :: "float32_t \<Rightarrow> uint_fast8_t \<Rightarrow> bool \<Rightarrow> fp_state \<Rightarrow> int \<times> fp_state" where
  "f32_to_i64 a roundingMode exact s =
     (let uiA = ucast a;
          sign = signF32UI uiA;
          expn = expF32UI uiA;
          sig = fracF32UI uiA;
          shiftDist = 0xBE - expn
      in if shiftDist < 0 then
           (if expn = 0xFF \<and> sig \<noteq> 0 then i64_fromNaN
            else if sign then i64_fromNegOverflow else i64_fromPosOverflow,
            softfloat_raiseFlags softfloat_flag_invalid s)
         else
           let sig = (if expn \<noteq> 0 then sig OR 0x00800000 else sig);
               sig64 = push_bit 40 sig;
               (sig64, extra) =
                 (if shiftDist \<noteq> 0
                  then let sig64Extra = softfloat_shiftRightJam64Extra sig64 0 (word_of_int shiftDist)
                       in (extra_v sig64Extra, extra_extra sig64Extra)
                  else (sig64, 0))
           in softfloat_roundToI64 sign sig64 extra roundingMode exact s)"

definition f32_to_ui64 :: "float32_t \<Rightarrow> uint_fast8_t \<Rightarrow> bool \<Rightarrow> fp_state \<Rightarrow> uint_fast64_t \<times> fp_state" where
  "f32_to_ui64 a roundingMode exact s =
     (let uiA = ucast a;
          sign = signF32UI uiA;
          expn = expF32UI uiA;
          sig = fracF32UI uiA;
          shiftDist = 0xBE - expn
      in if shiftDist < 0 then
           (if expn = 0xFF \<and> sig \<noteq> 0 then ui64_fromNaN
            else if sign then ui64_fromNegOverflow else ui64_fromPosOverflow,
            softfloat_raiseFlags softfloat_flag_invalid s)
         else
           let sig = (if expn \<noteq> 0 then sig OR 0x00800000 else sig);
               sig64 = push_bit 40 sig;
               (sig64, extra) =
                 (if shiftDist \<noteq> 0
                  then let sig64Extra = softfloat_shiftRightJam64Extra sig64 0 (word_of_int shiftDist)
                       in (extra_v sig64Extra, extra_extra sig64Extra)
                  else (sig64, 0))
           in softfloat_roundToUI64 sign sig64 extra roundingMode exact s)"

definition f64_to_i32 :: "float64_t \<Rightarrow> uint_fast8_t \<Rightarrow> bool \<Rightarrow> fp_state \<Rightarrow> int \<times> fp_state" where
  "f64_to_i32 a roundingMode exact s =
     (let uiA = a;
          sign = signF64UI uiA;
          expn = expF64UI uiA;
          sig = fracF64UI uiA;
          sign = (if expn = 0x7FF \<and> sig \<noteq> 0 then False else sign);
          sig = (if expn \<noteq> 0 then sig OR 0x0010000000000000 else sig);
          shiftDist = 0x427 - expn;
          sig = (if 0 < shiftDist then softfloat_shiftRightJam64 sig (word_of_int shiftDist) else sig)
      in softfloat_roundToI32 sign sig roundingMode exact s)"

definition f64_to_ui32 :: "float64_t \<Rightarrow> uint_fast8_t \<Rightarrow> bool \<Rightarrow> fp_state \<Rightarrow> uint_fast32_t \<times> fp_state" where
  "f64_to_ui32 a roundingMode exact s =
     (let uiA = a;
          sign = signF64UI uiA;
          expn = expF64UI uiA;
          sig = fracF64UI uiA;
          sign = (if expn = 0x7FF \<and> sig \<noteq> 0 then False else sign);
          sig = (if expn \<noteq> 0 then sig OR 0x0010000000000000 else sig);
          shiftDist = 0x427 - expn;
          sig = (if 0 < shiftDist then softfloat_shiftRightJam64 sig (word_of_int shiftDist) else sig)
      in softfloat_roundToUI32 sign sig roundingMode exact s)"

definition f64_to_i64 :: "float64_t \<Rightarrow> uint_fast8_t \<Rightarrow> bool \<Rightarrow> fp_state \<Rightarrow> int \<times> fp_state" where
  "f64_to_i64 a roundingMode exact s =
     (let uiA = a;
          sign = signF64UI uiA;
          expn = expF64UI uiA;
          sig = fracF64UI uiA;
          sig = (if expn \<noteq> 0 then sig OR 0x0010000000000000 else sig);
          shiftDist = 0x433 - expn
      in if shiftDist \<le> 0 then
           if shiftDist < - 11 then
             (if expn = 0x7FF \<and> fracF64UI uiA \<noteq> 0 then i64_fromNaN
              else if sign then i64_fromNegOverflow else i64_fromPosOverflow,
              softfloat_raiseFlags softfloat_flag_invalid s)
           else softfloat_roundToI64 sign (push_bit (nat (- shiftDist)) sig) 0 roundingMode exact s
         else
           let sigExtra = softfloat_shiftRightJam64Extra sig 0 (word_of_int shiftDist)
           in softfloat_roundToI64 sign (extra_v sigExtra) (extra_extra sigExtra) roundingMode exact s)"

definition f64_to_ui64 :: "float64_t \<Rightarrow> uint_fast8_t \<Rightarrow> bool \<Rightarrow> fp_state \<Rightarrow> uint_fast64_t \<times> fp_state" where
  "f64_to_ui64 a roundingMode exact s =
     (let uiA = a;
          sign = signF64UI uiA;
          expn = expF64UI uiA;
          sig = fracF64UI uiA;
          sig = (if expn \<noteq> 0 then sig OR 0x0010000000000000 else sig);
          shiftDist = 0x433 - expn
      in if shiftDist \<le> 0 then
           if shiftDist < - 11 then
             (if expn = 0x7FF \<and> fracF64UI uiA \<noteq> 0 then ui64_fromNaN
              else if sign then ui64_fromNegOverflow else ui64_fromPosOverflow,
              softfloat_raiseFlags softfloat_flag_invalid s)
           else softfloat_roundToUI64 sign (push_bit (nat (- shiftDist)) sig) 0 roundingMode exact s
         else
           let sigExtra = softfloat_shiftRightJam64Extra sig 0 (word_of_int shiftDist)
           in softfloat_roundToUI64 sign (extra_v sigExtra) (extra_extra sigExtra) roundingMode exact s)"

section \<open>Specification\<close>

text \<open>
  \<open>int_rounds mode sign x n\<close>: rounding the non-negative real \<open>x\<close> to an integer in a rounding mode gives
  \<open>n\<close>. \<open>int_converted lo hi exact mode sign x s z s'\<close>: converting the real with sign \<open>sign\<close> and
  magnitude \<open>x\<close> to an integer type with range \<open>lo..hi\<close> delivers \<open>z\<close> and the state \<open>s'\<close>.
\<close>

definition int_rounds :: "8 word \<Rightarrow> bool \<Rightarrow> real \<Rightarrow> nat \<Rightarrow> bool" where
  "int_rounds mode sign x n \<longleftrightarrow>
     (\<exists>m. real m \<le> x \<and> x < real m + 1 \<and>
          n = (if round_up mode sign m (real m) (real m + 1) x then Suc m else m))"

definition int_converted ::
  "int \<Rightarrow> int \<Rightarrow> bool \<Rightarrow> 8 word \<Rightarrow> bool \<Rightarrow> real \<Rightarrow> fp_state \<Rightarrow> int \<Rightarrow> fp_state \<Rightarrow> bool" where
  "int_converted lo hi exact mode sign x s z s' \<longleftrightarrow>
     (\<exists>n. int_rounds mode sign x n \<and>
        (let v = (if sign then - int n else int n) in
         if lo \<le> v \<and> v \<le> hi
         then z = v \<and> s' = (if exact \<and> real n \<noteq> x then softfloat_raiseFlags softfloat_flag_inexact s else s)
         else z = (if sign then lo else hi) \<and> s' = softfloat_raiseFlags softfloat_flag_invalid s))"

lemma mag_val_int: "n \<le> 2 ^ p \<Longrightarrow> mag_val p 0 n = real n"
  using mag_val_scaled [of n p 0 0] by simp

lemma int_rounds_round_nat:
  assumes k: "0 < k" and cell: "same_cell (k - 1) y sig"
  shows "int_rounds mode sign (y / 2 ^ k) (round_nat mode sign k sig)"
    and "real (round_nat mode sign k sig) = y / 2 ^ k \<longleftrightarrow> sig mod 2 ^ k = 0"
proof -
  define p where "p = Suc sig"
  have sp: "sig < 2 ^ p" unfolding p_def using less_exp [of sig] power_increasing [of sig "Suc sig" "2::nat"] by linarith
  have N: "round_nat mode sign k sig \<le> 2 ^ p"
    using sp by (intro round_nat_le) (use k in \<open>auto intro: order_trans less_imp_le\<close>)
  have b: "sig < 2 ^ (p + k + 1)"
    using sp power_increasing [of p "p + k + 1" "2::nat"] by linarith
  have x: "y / 2 ^ k = y * 2 powi (0 + int 0 - int k)" by (simp add: power_int_minus field_simps)
  note R = rounds_round_nat [OF _ k cell, where p = p and E = 0 and q = 0 and mode = mode and sign = sign and x = "y / 2 ^ k",
      OF _ disjI2 b x, simplified]
  have p0: "0 < p" by (simp add: p_def)
  show "real (round_nat mode sign k sig) = y / 2 ^ k \<longleftrightarrow> sig mod 2 ^ k = 0"
    using R(2) [OF p0] mag_val_int [OF N] by simp
  from R(1) [OF p0] obtain m where m: "mag_val p 0 m \<le> y / 2 ^ k" "y / 2 ^ k < mag_val p 0 (Suc m)"
    "round_nat mode sign k sig = (if round_up mode sign m (mag_val p 0 m) (mag_val p 0 (Suc m)) (y / 2 ^ k) then Suc m else m)"
    unfolding rounds_def by blast
  have "y < 2 ^ p * 2 ^ k"
    using same_cell_less [OF cell, of "2 ^ p * 2"] sp k by (cases k) (simp_all add: ac_simps less_le_trans)
  then have "y / 2 ^ k < mag_val p 0 (2 ^ p)" by (simp add: mag_val_int field_simps)
  then have "m < 2 ^ p" using m(1) by (metis le_less_trans mag_val_less_iff)
  then have "mag_val p 0 m = real m" "mag_val p 0 (Suc m) = real m + 1"
    by (simp_all add: mag_val_int)
  with m show "int_rounds mode sign (y / 2 ^ k) (round_nat mode sign k sig)"
    unfolding int_rounds_def by auto
qed

lemma raise_inexact: "s\<lparr>softfloat_exceptionFlags := softfloat_exceptionFlags s OR softfloat_flag_inexact\<rparr> =
   softfloat_raiseFlags softfloat_flag_inexact s"
  by (simp add: softfloat_raiseFlags_def)

lemma int_convertedI:
  assumes k: "0 < k" and cell: "same_cell (k - 1) y sig"
    and n: "n = round_nat mode sign k sig" and v: "v = (if sign then - int n else int n)"
    and "lo \<le> v \<and> v \<le> hi \<Longrightarrow> z = v \<and> s' = (if exact \<and> sig mod 2 ^ k \<noteq> 0 then softfloat_raiseFlags softfloat_flag_inexact s else s)"
    and "\<not> (lo \<le> v \<and> v \<le> hi) \<Longrightarrow> z = (if sign then lo else hi) \<and> s' = softfloat_raiseFlags softfloat_flag_invalid s"
  shows "int_converted lo hi exact mode sign (y / 2 ^ k) s z s'"
proof -
  have "(real n \<noteq> y / 2 ^ k) = (sig mod 2 ^ k \<noteq> 0)"
    using int_rounds_round_nat(2) [OF k cell, of mode sign] by (simp add: n)
  with assms(5,6) show ?thesis
    unfolding int_converted_def Let_def using int_rounds_round_nat(1) [OF k cell, of mode sign]
    by (intro exI [of _ n]) (simp add: n v)
qed

section \<open>The rounding routines\<close>

lemma roundTo32_increment_eq:
  "mode \<noteq> softfloat_round_odd \<Longrightarrow> unat (roundTo32_increment sign mode) = round_inc mode sign 12"
  by (simp add: roundTo32_increment_def round_inc_def)

lemma round_inc_12: "round_inc mode sign 12 \<le> 4095"
  by (simp add: round_inc_def)

lemma even_le_drop_odd: "even c \<Longrightarrow> c \<le> (if P \<and> odd q then q - 1 else q) \<longleftrightarrow> c \<le> (q :: nat)"
  by (auto simp: le_less elim!: oddE)

lemma roundTo32_parts:
  assumes mode: "mode \<noteq> softfloat_round_odd" and sig: "unat sig < 2 ^ 63"
  shows "sig AND 0xFFF = 0 \<longleftrightarrow> unat sig mod 2 ^ 12 = 0"
    and "(sig + roundTo32_increment sign mode) AND 0xFFFFF00000000000 \<noteq> 0 \<longleftrightarrow> 2 ^ 32 \<le> round_nat mode sign 12 (unat sig)"
    and "unat (drop_bit 12 (sig + roundTo32_increment sign mode) AND
          NOT (of_bool ((sig AND 0xFFF) XOR 0x800 = 0 \<and> mode = softfloat_round_near_even))) = round_nat mode sign 12 (unat sig)"
proof -
  have r: "unat (sig AND 0xFFF) = unat sig mod 2 ^ 12"
    by (rule unat_and_mask) simp
  show "sig AND 0xFFF = 0 \<longleftrightarrow> unat sig mod 2 ^ 12 = 0" unfolding r [symmetric] by (rule unat_eq_zero [symmetric])
  have h: "((sig AND 0xFFF) XOR 0x800 = 0) = (unat sig mod 2 ^ 12 = 2 ^ (12 - 1))"
    unfolding xor_eq_0_iff unfolding word_unat_eq_iff r by simp
  define t where "t = unat sig + round_inc mode sign 12"
  have t: "unat (sig + roundTo32_increment sign mode) = t" "t < 2 ^ 64"
    using sig round_inc_12 [of mode sign] roundTo32_increment_eq [OF mode, of sign]
    by (simp_all add: unat_add_nowrap t_def)
  have rn: "round_nat mode sign 12 (unat sig) =
      (if unat sig mod 2 ^ 12 = 2 ^ (12 - 1) \<and> mode = softfloat_round_near_even \<and> odd (t div 2 ^ 12) then t div 2 ^ 12 - 1 else t div 2 ^ 12)"
    unfolding round_nat_def Let_def t_def using mode by auto
  show "unat (drop_bit 12 (sig + roundTo32_increment sign mode) AND
          NOT (of_bool ((sig AND 0xFFF) XOR 0x800 = 0 \<and> mode = softfloat_round_near_even))) = round_nat mode sign 12 (unat sig)"
    unfolding rn h unat_and_not_of_bool unat_drop_bit_div t(1) by auto
  have "unat ((sig + roundTo32_increment sign mode) AND 0xFFFFF00000000000) = (t div 2 ^ 44 mod 2 ^ 20) * 2 ^ 44"
    unfolding t(1) [symmetric] by (rule unat_and_field) simp
  moreover have "t div 2 ^ 44 mod 2 ^ 20 = t div 2 ^ 44" using t(2) by simp
  ultimately have "(sig + roundTo32_increment sign mode) AND 0xFFFFF00000000000 \<noteq> 0 \<longleftrightarrow> t div 2 ^ 44 \<noteq> 0"
    by (metis mult_is_0 power_not_zero unat_eq_zero zero_neq_numeral)
  also have "\<dots> \<longleftrightarrow> 2 ^ 32 \<le> t div 2 ^ 12" by (auto simp: div_eq_0_iff less_eq_div_iff_mult_less_eq)
  also have "\<dots> \<longleftrightarrow> 2 ^ 32 \<le> round_nat mode sign 12 (unat sig)"
    unfolding rn conj_assoc [symmetric] by (rule even_le_drop_odd [symmetric]) simp
  finally show "(sig + roundTo32_increment sign mode) AND 0xFFFFF00000000000 \<noteq> 0 \<longleftrightarrow> 2 ^ 32 \<le> round_nat mode sign 12 (unat sig)" .
qed

lemma roundToI32_converted:
  assumes cell: "same_cell 11 y (unat sig)" and sig: "unat sig < 2 ^ 63" and mode: "mode \<noteq> softfloat_round_odd"
    and eq: "softfloat_roundToI32 sign sig mode exact s = (z, s')"
  shows "int_converted (- (2 ^ 31)) (2 ^ 31 - 1) exact mode sign (y / 2 ^ 12) s z s'"
proof (rule int_convertedI)
  define n where "n = round_nat mode sign 12 (unat sig)"
  define w where "w = drop_bit 12 (sig + roundTo32_increment sign mode) AND
          NOT (of_bool ((sig AND 0xFFF) XOR 0x800 = 0 \<and> mode = softfloat_round_near_even))"
  define v where "v = (if sign then - int n else int n)"
  note parts = roundTo32_parts(1) [OF mode sig]
    roundTo32_parts(2,3) [OF mode sig, where sign = sign, folded w_def, folded n_def]
  define Z where "Z = sint (ucast (if sign then - w else w) :: uint32_t)"
  have eq': "(z, s') = (if 2 ^ 32 \<le> n \<or> Z \<noteq> 0 \<and> (Z < 0) \<noteq> sign
     then (if sign then - (2 ^ 31) else 2 ^ 31 - 1, softfloat_raiseFlags softfloat_flag_invalid s)
     else (Z, if exact \<and> unat sig mod 2 ^ 12 \<noteq> 0 then softfloat_raiseFlags softfloat_flag_inexact s else s))"
    unfolding eq [symmetric] softfloat_roundToI32_def Let_def raise_inexact w_def [symmetric] Z_def [symmetric] parts
    by (simp add: from_overflow_defs)
  have u: "unat (ucast w :: uint32_t) = n" if "n < 2 ^ 32"
    using that parts(3) by (simp add: unat_ucast_mod)
  have uc: "(ucast (if sign then - w else w) :: uint32_t) = (if sign then - ucast w else ucast w)"
    by (simp add: ucast_uminus)
  note sg = sint_with_sign [where w = "ucast w :: uint32_t" and sign = sign, folded uc, folded Z_def]
  show "n = round_nat mode sign 12 (unat sig)" by (rule n_def)
  show "v = (if sign then - int n else int n)" by (rule v_def)
  show "z = v \<and> s' = (if exact \<and> unat sig mod 2 ^ 12 \<noteq> 0 then softfloat_raiseFlags softfloat_flag_inexact s else s)"
    if "- (2 ^ 31) \<le> v \<and> v \<le> 2 ^ 31 - 1"
  proof -
    have n: "n < 2 ^ 32" using that by (auto simp: v_def split: if_splits)
    have "Z = v" "\<not> (Z \<noteq> 0 \<and> (Z < 0) \<noteq> sign)" using sg(1) [unfolded u [OF n] v_def [symmetric]] that by auto
    with n have c: "\<not> (2 ^ 32 \<le> n \<or> Z \<noteq> 0 \<and> (Z < 0) \<noteq> sign)" by linarith
    show ?thesis using eq' \<open>Z = v\<close> unfolding if_not_P [OF c] by simp
  qed
  show "z = (if sign then - (2 ^ 31) else 2 ^ 31 - 1) \<and> s' = softfloat_raiseFlags softfloat_flag_invalid s"
    if "\<not> (- (2 ^ 31) \<le> v \<and> v \<le> 2 ^ 31 - 1)"
  proof -
    have "2 ^ 32 \<le> n \<or> Z \<noteq> 0 \<and> (Z < 0) \<noteq> sign"
    proof (cases "n < 2 ^ 32")
      case True
      from sg(2) [unfolded u [OF True] v_def [symmetric]] that show ?thesis by auto
    qed simp
    from eq' [unfolded if_P [OF this]] show ?thesis by simp
  qed
qed (use cell in simp_all)

lemma roundToUI32_converted:
  assumes cell: "same_cell 11 y (unat sig)" and sig: "unat sig < 2 ^ 63" and mode: "mode \<noteq> softfloat_round_odd"
    and eq: "softfloat_roundToUI32 sign sig mode exact s = (z, s')"
  shows "int_converted 0 (2 ^ 32 - 1) exact mode sign (y / 2 ^ 12) s (uint z) s'"
proof (rule int_convertedI)
  define n where "n = round_nat mode sign 12 (unat sig)"
  define w where "w = drop_bit 12 (sig + roundTo32_increment sign mode) AND
          NOT (of_bool ((sig AND 0xFFF) XOR 0x800 = 0 \<and> mode = softfloat_round_near_even))"
  define v where "v = (if sign then - int n else int n)"
  note parts = roundTo32_parts(1) [OF mode sig]
    roundTo32_parts(2,3) [OF mode sig, where sign = sign, folded w_def, folded n_def]
  have w: "w \<noteq> 0 \<longleftrightarrow> n \<noteq> 0" "uint w = int n"
    unfolding parts(3) [symmetric] by (simp_all add: unat_eq_zero)
  have eq': "(z, s') = (if 2 ^ 32 \<le> n \<or> sign \<and> n \<noteq> 0
     then (if sign then 0 else 0xFFFFFFFF, softfloat_raiseFlags softfloat_flag_invalid s)
     else (w, if exact \<and> unat sig mod 2 ^ 12 \<noteq> 0 then softfloat_raiseFlags softfloat_flag_inexact s else s))"
    unfolding eq [symmetric] softfloat_roundToUI32_def Let_def raise_inexact w_def [symmetric] parts w(1)
    by (simp add: from_overflow_defs)
  show "n = round_nat mode sign 12 (unat sig)" by (rule n_def)
  show "v = (if sign then - int n else int n)" by (rule v_def)
  show "uint z = v \<and> s' = (if exact \<and> unat sig mod 2 ^ 12 \<noteq> 0 then softfloat_raiseFlags softfloat_flag_inexact s else s)"
    if "0 \<le> v \<and> v \<le> 2 ^ 32 - 1"
  proof -
    have "\<not> (2 ^ 32 \<le> n \<or> sign \<and> n \<noteq> 0)" using that by (auto simp: v_def split: if_splits)
    with eq' w(2) show ?thesis by (auto simp: v_def)
  qed
  show "uint z = (if sign then 0 else 2 ^ 32 - 1) \<and> s' = softfloat_raiseFlags softfloat_flag_invalid s"
    if "\<not> (0 \<le> v \<and> v \<le> 2 ^ 32 - 1)"
  proof -
    have "2 ^ 32 \<le> n \<or> sign \<and> n \<noteq> 0" using that by (auto simp: v_def split: if_splits)
    with eq' show ?thesis by auto
  qed
qed (use cell in simp_all)

lemma roundTo64_parts:
  fixes sig extra :: uint64_t and sign :: bool and mode :: uint_fast8_t
  assumes mode: "mode \<noteq> softfloat_round_odd"
  defines "n \<equiv> round_nat mode sign 64 (unat sig * 2 ^ 64 + unat extra)"
  shows "roundTo64_doIncrement sign extra mode \<and> sig + 1 = 0 \<longleftrightarrow> 2 ^ 64 \<le> n"
    and "n < 2 ^ 64 \<Longrightarrow> unat (if roundTo64_doIncrement sign extra mode
            then (sig + 1) AND NOT (of_bool (extra AND 0x7FFFFFFFFFFFFFFF = 0 \<and> mode = softfloat_round_near_even))
            else sig) = n"
    and "(unat sig * 2 ^ 64 + unat extra) mod 2 ^ 64 = 0 \<longleftrightarrow> extra = 0"
proof -
  define S where "S = unat sig"
  define R where "R = unat extra"
  have SR: "S < 2 ^ 64" "R < 2 ^ 64" using unat_less_pow2 [of sig] unat_less_pow2 [of extra] by (simp_all add: S_def R_def)
  have dm: "(S * 2 ^ 64 + R) div 2 ^ 64 = S" "(S * 2 ^ 64 + R) mod 2 ^ 64 = R" using SR by simp_all
  show "(unat sig * 2 ^ 64 + unat extra) mod 2 ^ 64 = 0 \<longleftrightarrow> extra = 0"
    unfolding S_def [symmetric] R_def [symmetric] dm by (simp add: R_def unat_eq_zero)
  have n: "n = (if round_up_nat mode sign (2 ^ 63) S R then Suc S else S)"
    unfolding n_def S_def [symmetric] R_def [symmetric] using round_nat_decomp [of 64 mode sign "S * 2 ^ 64 + R"] dm by simp
  have inc: "roundTo64_doIncrement sign extra mode \<longleftrightarrow>
     (if mode \<noteq> softfloat_round_near_even \<and> mode \<noteq> softfloat_round_near_maxMag
      then mode = (if sign then softfloat_round_min else softfloat_round_max) \<and> R \<noteq> 0 else 2 ^ 63 \<le> R)"
    unfolding roundTo64_doIncrement_def R_def by (simp add: word_le_nat_alt unat_eq_zero)
  have r0: "roundTo64_doIncrement sign extra mode \<longleftrightarrow> round_up_nat mode sign (2 ^ 63) S R" if "odd S"
    unfolding inc round_up_nat_def using that mode by (auto simp: le_less)
  have r1: "round_up_nat mode sign (2 ^ 63) S R \<longleftrightarrow> roundTo64_doIncrement sign extra mode \<and>
      \<not> (R = 2 ^ 63 \<and> mode = softfloat_round_near_even)" if "even S"
    unfolding inc round_up_nat_def using that mode by (auto simp: le_less)
  have z: "sig + 1 = 0 \<longleftrightarrow> S = 2 ^ 64 - 1"
    unfolding word_unat_eq_iff unat_word_ariths S_def using unat_less_pow2 [of sig]
    by (simp add: mod_Suc)
  have odd: "odd (2 ^ 64 - 1 :: nat)" by simp
  show "roundTo64_doIncrement sign extra mode \<and> sig + 1 = 0 \<longleftrightarrow> 2 ^ 64 \<le> n"
  proof (cases "S = 2 ^ 64 - 1")
    case True
    then have "odd S" using odd by (simp only: not_False_eq_True)
    from r0 [OF this] True show ?thesis unfolding z n by simp
  qed (use SR(1) in \<open>auto simp: z n\<close>)
  assume small: "n < 2 ^ 64"
  have tie: "(extra AND 0x7FFFFFFFFFFFFFFF = 0) = (R = 2 ^ 63)" if "mode = softfloat_round_near_even" "roundTo64_doIncrement sign extra mode"
  proof -
    have "unat (extra AND 0x7FFFFFFFFFFFFFFF) = R mod 2 ^ 63" unfolding R_def by (rule unat_and_mask) simp
    then have "(extra AND 0x7FFFFFFFFFFFFFFF = 0) = (R mod 2 ^ 63 = 0)" by (metis unat_eq_zero)
    moreover have "2 ^ 63 \<le> R" using that unfolding inc by simp
    then have "R mod 2 ^ 63 = R - 2 ^ 63" using SR(2) by (simp add: mod_if)
    ultimately show ?thesis using \<open>2 ^ 63 \<le> R\<close> by auto
  qed
  show "unat (if roundTo64_doIncrement sign extra mode
            then (sig + 1) AND NOT (of_bool (extra AND 0x7FFFFFFFFFFFFFFF = 0 \<and> mode = softfloat_round_near_even))
            else sig) = n"
  proof (cases "roundTo64_doIncrement sign extra mode")
    case True
    then have "Suc S < 2 ^ 64" using small SR(1) r0 n odd by (cases "S = 2 ^ 64 - 1") auto
    then have "unat (sig + 1) = Suc S" by (simp add: S_def unat_word_ariths)
    with True tie r0 r1 show ?thesis unfolding if_P [OF True] unat_and_not_of_bool n by (cases "odd S") auto
  next
    case False
    with r0 r1 have "\<not> round_up_nat mode sign (2 ^ 63) S R" by blast
    with False show ?thesis by (simp add: n S_def)
  qed
qed

lemma roundToI64_converted:
  assumes cell: "same_cell 63 y (unat sig * 2 ^ 64 + unat extra)" and mode: "mode \<noteq> softfloat_round_odd"
    and eq: "softfloat_roundToI64 sign sig extra mode exact s = (z, s')"
  shows "int_converted (- (2 ^ 63)) (2 ^ 63 - 1) exact mode sign (y / 2 ^ 64) s z s'"
proof (rule int_convertedI)
  define n where "n = round_nat mode sign 64 (unat sig * 2 ^ 64 + unat extra)"
  define w where "w = (if roundTo64_doIncrement sign extra mode
            then (sig + 1) AND NOT (of_bool (extra AND 0x7FFFFFFFFFFFFFFF = 0 \<and> mode = softfloat_round_near_even))
            else sig)"
  define v where "v = (if sign then - int n else int n)"
  define Z where "Z = sint (if sign then - w else w)"
  note parts = roundTo64_parts(1,2) [OF mode, where sign = sign and extra = extra and sig = sig, folded w_def, folded n_def]
    roundTo64_parts(3) [OF mode, where extra = extra and sig = sig]
  have eq': "(z, s') = (if 2 ^ 64 \<le> n \<or> Z \<noteq> 0 \<and> (Z < 0) \<noteq> sign
     then (if sign then - (2 ^ 63) else 2 ^ 63 - 1, softfloat_raiseFlags softfloat_flag_invalid s)
     else (Z, if exact \<and> extra \<noteq> 0 then softfloat_raiseFlags softfloat_flag_inexact s else s))"
    unfolding eq [symmetric] softfloat_roundToI64_def Let_def raise_inexact w_def [symmetric] Z_def [symmetric] parts(1)
    by (simp add: from_overflow_defs)
  note sg = sint_with_sign [where w = w and sign = sign, folded Z_def]
  show "n = round_nat mode sign 64 (unat sig * 2 ^ 64 + unat extra)" by (rule n_def)
  show "v = (if sign then - int n else int n)" by (rule v_def)
  show "z = v \<and> s' = (if exact \<and> (unat sig * 2 ^ 64 + unat extra) mod 2 ^ 64 \<noteq> 0 then softfloat_raiseFlags softfloat_flag_inexact s else s)"
    if "- (2 ^ 63) \<le> v \<and> v \<le> 2 ^ 63 - 1"
  proof -
    have n: "n < 2 ^ 64" using that by (auto simp: v_def split: if_splits)
    have "Z = v" "\<not> (Z \<noteq> 0 \<and> (Z < 0) \<noteq> sign)" using sg(1) [unfolded parts(2) [OF n] v_def [symmetric]] that by auto
    with n have c: "\<not> (2 ^ 64 \<le> n \<or> Z \<noteq> 0 \<and> (Z < 0) \<noteq> sign)" by linarith
    show ?thesis using eq' \<open>Z = v\<close> unfolding if_not_P [OF c] parts(3) by simp
  qed
  show "z = (if sign then - (2 ^ 63) else 2 ^ 63 - 1) \<and> s' = softfloat_raiseFlags softfloat_flag_invalid s"
    if "\<not> (- (2 ^ 63) \<le> v \<and> v \<le> 2 ^ 63 - 1)"
  proof -
    have "2 ^ 64 \<le> n \<or> Z \<noteq> 0 \<and> (Z < 0) \<noteq> sign"
    proof (cases "n < 2 ^ 64")
      case True
      from sg(2) [unfolded parts(2) [OF True] v_def [symmetric]] that show ?thesis by auto
    qed simp
    from eq' [unfolded if_P [OF this]] show ?thesis by simp
  qed
qed (use cell in simp_all)

lemma roundToUI64_converted:
  assumes cell: "same_cell 63 y (unat sig * 2 ^ 64 + unat extra)" and mode: "mode \<noteq> softfloat_round_odd"
    and eq: "softfloat_roundToUI64 sign sig extra mode exact s = (z, s')"
  shows "int_converted 0 (2 ^ 64 - 1) exact mode sign (y / 2 ^ 64) s (uint z) s'"
proof (rule int_convertedI)
  define n where "n = round_nat mode sign 64 (unat sig * 2 ^ 64 + unat extra)"
  define w where "w = (if roundTo64_doIncrement sign extra mode
            then (sig + 1) AND NOT (of_bool (extra AND 0x7FFFFFFFFFFFFFFF = 0 \<and> mode = softfloat_round_near_even))
            else sig)"
  define v where "v = (if sign then - int n else int n)"
  note parts = roundTo64_parts(1,2) [OF mode, where sign = sign and extra = extra and sig = sig, folded w_def, folded n_def]
    roundTo64_parts(3) [OF mode, where extra = extra and sig = sig]
  have eq': "(z, s') = (if 2 ^ 64 \<le> n \<or> sign \<and> w \<noteq> 0
     then (if sign then 0 else 0xFFFFFFFFFFFFFFFF, softfloat_raiseFlags softfloat_flag_invalid s)
     else (w, if exact \<and> extra \<noteq> 0 then softfloat_raiseFlags softfloat_flag_inexact s else s))"
    unfolding eq [symmetric] softfloat_roundToUI64_def Let_def raise_inexact w_def [symmetric] parts(1)
    by (simp add: from_overflow_defs)
  have w: "w \<noteq> 0 \<longleftrightarrow> n \<noteq> 0" "uint w = int n" if "n < 2 ^ 64"
    using parts(2) [OF that] by (auto simp flip: unat_eq_zero)
  show "n = round_nat mode sign 64 (unat sig * 2 ^ 64 + unat extra)" by (rule n_def)
  show "v = (if sign then - int n else int n)" by (rule v_def)
  show "uint z = v \<and> s' = (if exact \<and> (unat sig * 2 ^ 64 + unat extra) mod 2 ^ 64 \<noteq> 0 then softfloat_raiseFlags softfloat_flag_inexact s else s)"
    if "0 \<le> v \<and> v \<le> 2 ^ 64 - 1"
  proof -
    have n: "n < 2 ^ 64" "\<not> (sign \<and> n \<noteq> 0)" using that by (auto simp: v_def split: if_splits)
    then have c: "\<not> (2 ^ 64 \<le> n \<or> sign \<and> w \<noteq> 0)" using w(1) by auto
    show ?thesis using eq' w(2) [OF n(1)] n(2) unfolding if_not_P [OF c] parts(3) by (auto simp: v_def)
  qed
  show "uint z = (if sign then 0 else 2 ^ 64 - 1) \<and> s' = softfloat_raiseFlags softfloat_flag_invalid s"
    if "\<not> (0 \<le> v \<and> v \<le> 2 ^ 64 - 1)"
  proof -
    have "2 ^ 64 \<le> n \<or> sign \<and> w \<noteq> 0"
      using that w(1) by (cases "n < 2 ^ 64") (auto simp: v_def split: if_splits)
    from eq' [unfolded if_P [OF this]] show ?thesis by auto
  qed
qed (use cell in simp_all)

lemma int_rounds_exists:
  assumes "0 \<le> x"
  shows "\<exists>n. int_rounds mode sign x n"
proof -
  have "real (nat \<lfloor>x\<rfloor>) \<le> x" "x < real (nat \<lfloor>x\<rfloor>) + 1"
    using assms by (simp_all add: of_nat_nat)
  then show ?thesis unfolding int_rounds_def by blast
qed

lemma int_rounds_ge:
  assumes "int_rounds mode sign x n" "real c \<le> x"
  shows "c \<le> n"
proof -
  from assms(1) obtain m where m: "x < real m + 1" "m \<le> n"
    unfolding int_rounds_def by (auto split: if_splits)
  with assms(2) have "real c < real (m + 1)" by linarith
  with m(2) show ?thesis by (simp only: of_nat_less_iff)
qed

lemma int_converted_far:
  assumes "real c \<le> x" "hi < int c" "- lo < int c"
  shows "int_converted lo hi exact mode sign x s z s' \<longleftrightarrow>
    z = (if sign then lo else hi) \<and> s' = softfloat_raiseFlags softfloat_flag_invalid s"
proof -
  have "\<not> (lo \<le> v \<and> v \<le> hi)" if "int_rounds mode sign x n" "v = (if sign then - int n else int n)" for n v
    using int_rounds_ge [OF that(1) assms(1)] assms(2,3) that(2) by (auto split: if_splits)
  moreover have "0 \<le> x" using assms(1) of_nat_0_le_iff [of c, where 'a = real] by linarith
  ultimately show ?thesis unfolding int_converted_def Let_def using int_rounds_exists [of x mode sign] by auto
qed

lemma same_cell_tiny: "0 < y \<Longrightarrow> y < 2 ^ j \<Longrightarrow> 1 \<le> j \<Longrightarrow> same_cell j y 1"
  using one_less_power [of "2::nat" j] by (intro same_cellI [of 0]) simp_all

lemma shiftRightJam64_int_cell:
  fixes sig :: uint64_t
  assumes d: "0 < d" "d < 2 ^ 32"
    and x: "x * 2 ^ 12 = real (unat sig) / 2 ^ nat d \<or>
            unat sig < 2 ^ nat d \<and> unat sig \<noteq> 0 \<and> 0 < x \<and> x * 2 ^ 12 < 2 ^ 11"
  shows "same_cell 11 (x * 2 ^ 12) (unat (softfloat_shiftRightJam64 sig (word_of_int d)))"
proof -
  have ud: "unat (word_of_int d :: uint64_t) = nat d" using d by (intro unat_word_of_int_pos) simp_all
  then have "word_of_int d \<noteq> (0 :: uint64_t)" using d(1) by (metis nat_0_iff not_less unat_0)
  then have w: "unat (softfloat_shiftRightJam64 sig (word_of_int d)) = jam (nat d) (unat sig)"
    by (simp add: shiftRightJam64_jam ud)
  from x show ?thesis
  proof
    assume "x * 2 ^ 12 = real (unat sig) / 2 ^ nat d"
    then show ?thesis unfolding w using jam_cell [of "unat sig" "nat d"] by (metis One_nat_def le_numeral_extra(4) one_le_numeral same_cell_mono)
  next
    assume *: "unat sig < 2 ^ nat d \<and> unat sig \<noteq> 0 \<and> 0 < x \<and> x * 2 ^ 12 < 2 ^ 11"
    then have "jam (nat d) (unat sig) = 1" by (subst jam_big) simp_all
    moreover have "same_cell 11 (x * 2 ^ 12) 1" using * by (intro same_cell_tiny) simp_all
    ultimately show ?thesis unfolding w by (simp only:)
  qed
qed

lemma shiftRightJam64Extra_cell:
  fixes sig :: uint64_t
  assumes d: "0 < d" "d < 2 ^ 32"
    and x: "x * 2 ^ 64 = real (unat sig) * 2 ^ 64 / 2 ^ nat d \<or>
            65 \<le> d \<and> unat sig \<noteq> 0 \<and> 0 < x \<and> x * 2 ^ 64 < 2 ^ 63"
    and z: "z = softfloat_shiftRightJam64Extra sig 0 (word_of_int d)"
  shows "same_cell 63 (x * 2 ^ 64) (unat (extra_v z) * 2 ^ 64 + unat (extra_extra z))"
proof -
  have ud: "unat (word_of_int d :: uint64_t) = nat d" using d by (intro unat_word_of_int_pos) simp_all
  consider "d < 64" | "d = 64" | "65 \<le> d" by linarith
  then show ?thesis
  proof cases
    case 1
    define n where "n = nat d"
    have n: "0 < n" "n < 64" "unat (word_of_int d :: uint64_t) = n" using d 1 ud by (auto simp: n_def)
    have "unat (- (word_of_int d :: uint64_t) AND 63) = LENGTH(64) - n"
      using neg_dst_mod [of "word_of_int d :: uint64_t" 6 63] n by simp
    then have z': "z = \<lparr>extra_v = drop_bit n sig, extra_extra = push_bit (LENGTH(64) - n) sig\<rparr>"
      unfolding z softfloat_shiftRightJam64Extra_def Let_def using n by (simp add: word_less_nat_alt)
    have pn: "(2::nat) ^ 64 = 2 ^ n * 2 ^ (64 - n)" using n by (simp flip: power_add)
    have e: "unat (push_bit (LENGTH(64) - n) sig) = unat sig mod 2 ^ n * 2 ^ (64 - n)"
      unfolding unat_push_bit_mod using pn by (simp add: mult_mod_left)
    have "unat sig * 2 ^ (64 - n) = (unat sig div 2 ^ n * 2 ^ n + unat sig mod 2 ^ n) * 2 ^ (64 - n)"
      by (simp only: div_mult_mod_eq)
    also have "\<dots> = unat (extra_v z) * 2 ^ 64 + unat (extra_extra z)"
      unfolding z' by (simp only: uint64_extra.select_convs e unat_drop_bit_div pn) (simp only: algebra_simps)
    finally have V: "unat (extra_v z) * 2 ^ 64 + unat (extra_extra z) = unat sig * 2 ^ (64 - n)" by simp
    have pr: "(2::real) ^ 64 = 2 ^ n * 2 ^ (64 - n)" using n by (simp flip: power_add)
    have "x * 2 ^ 64 = real (unat sig) * 2 ^ 64 / 2 ^ n" using x 1 by (auto simp: n_def)
    then have "x * 2 ^ 64 = real (unat sig * 2 ^ (64 - n))" unfolding pr by simp
    then show ?thesis unfolding V by (simp only: same_cell_refl)
  next
    case 2
    then have "x * 2 ^ 64 = real (unat sig)" using x by simp
    moreover have "z = \<lparr>extra_v = 0, extra_extra = sig\<rparr>"
      unfolding z softfloat_shiftRightJam64Extra_def using 2 by simp
    ultimately show ?thesis using same_cell_refl [of 63 "unat sig"] by simp
  next
    case 3
    then have "\<not> word_of_int d < (64 :: uint64_t)" "word_of_int d \<noteq> (64 :: uint64_t)"
      unfolding word_less_nat_alt word_unat_eq_iff ud by simp_all
    then have "z = \<lparr>extra_v = 0, extra_extra = of_bool (sig \<noteq> 0)\<rparr>"
      unfolding z softfloat_shiftRightJam64Extra_def by simp
    then have V: "unat (extra_v z) * 2 ^ 64 + unat (extra_extra z) = of_bool (unat sig \<noteq> 0)" by (simp add: unat_eq_zero)
    show ?thesis
    proof (cases "unat sig = 0")
      case True
      with x have "x = 0" by simp
      with True V show ?thesis by (simp add: same_cell_def)
    next
      case False
      define S where "S = real (unat sig)"
      have S: "0 < S" "S < 2 ^ 64"
      proof -
        obtain t where t: "t = unat sig" by simp
        then have "0 < t" "t < 2 ^ 64" using False unat_less_pow2 [of sig] by simp_all
        then show "0 < S" "S < 2 ^ 64" unfolding S_def t [symmetric] by simp_all
      qed
      have "(2::real) ^ 65 \<le> 2 ^ nat d" using 3 by (intro power_increasing) simp_all
      then have "S * 2 ^ 64 / 2 ^ nat d \<le> S * 2 ^ 64 / 2 ^ 65" using S(1) by (intro divide_left_mono) simp_all
      also have "\<dots> < 2 ^ 63" using S(2) by simp
      finally have "S * 2 ^ 64 / 2 ^ nat d < 2 ^ 63" .
      moreover have "0 < S * 2 ^ 64 / 2 ^ nat d" using S(1) by simp
      ultimately have y: "x * 2 ^ 64 < 2 ^ 63" "0 < x * 2 ^ 64"
        using x unfolding S_def [symmetric] by auto
      have "same_cell 63 (x * 2 ^ 64) 1" using y by (intro same_cell_tiny) simp_all
      then show ?thesis unfolding V using False by simp
    qed
  qed
qed


section \<open>Single precision\<close>

definition f32_int_sig :: "float32_t \<Rightarrow> uint_fast32_t" where
  "f32_int_sig a = (if expF32UI (ucast a) \<noteq> 0 then fracF32UI (ucast a) OR 0x00800000 else fracF32UI (ucast a))"

lemma f32_int_sig:
  shows "expF32UI (ucast a) = 0 \<Longrightarrow> f32_abs a = real (unat (f32_int_sig a)) * 2 powi (- 149)"
    and "expF32UI (ucast a) = 0 \<Longrightarrow> unat (f32_int_sig a) < 2 ^ 23"
    and "expF32UI (ucast a) \<noteq> 0 \<Longrightarrow> f32_abs a = real (unat (f32_int_sig a)) * 2 powi (expF32UI (ucast a) - 150)"
    and "expF32UI (ucast a) \<noteq> 0 \<Longrightarrow> 2 ^ 23 \<le> unat (f32_int_sig a)"
    and "unat (f32_int_sig a) < 2 ^ 24" "0 \<le> expF32UI (ucast a)" "expF32UI (ucast a) < 2 ^ 8"
proof -
  have E: "expF32UI (ucast a) = 0 \<longleftrightarrow> f32_mag a < 2 ^ 23" by (auto simp: f32_fields div_eq_0_iff)
  have f: "unat (fracF32UI (ucast a)) < 2 ^ 23" by (simp add: f32_fields)
  have h: "unat (fracF32UI (ucast a) OR 0x00800000) = 2 ^ 23 + unat (fracF32UI (ucast a))"
    using nat_or_hidden [OF f] by (simp add: unat_or_distrib)
  have u: "unat (f32_int_sig a) = (if f32_mag a < 2 ^ 23 then f32_mag a else 2 ^ 23 + f32_mag a mod 2 ^ 23)"
    unfolding f32_int_sig_def E using h by (simp add: f32_fields)
  show "f32_abs a = real (unat (f32_int_sig a)) * 2 powi (- 149)" if "expF32UI (ucast a) = 0"
    unfolding f32_abs_def mag_val_def u using that E by simp
  show "f32_abs a = real (unat (f32_int_sig a)) * 2 powi (expF32UI (ucast a) - 150)" if "expF32UI (ucast a) \<noteq> 0"
    unfolding f32_abs_def mag_val_def u using that E by (simp add: f32_fields(1))
  show "unat (f32_int_sig a) < 2 ^ 24" "0 \<le> expF32UI (ucast a)" "expF32UI (ucast a) < 2 ^ 8"
    using f32_mag_less [of a] by (simp_all add: u f32_fields(1))
  show "unat (f32_int_sig a) < 2 ^ 23" if "expF32UI (ucast a) = 0" using that unfolding E by (simp add: u)
  show "2 ^ 23 \<le> unat (f32_int_sig a)" if "expF32UI (ucast a) \<noteq> 0" using that unfolding E by (simp add: u)
qed

definition f32_int32_sig :: "float32_t \<Rightarrow> uint_fast64_t" where
  "f32_int32_sig a = (let shiftDist = 0xAA - expF32UI (ucast a)
     in if 0 < shiftDist then softfloat_shiftRightJam64 (push_bit 32 (f32_int_sig a)) (word_of_int shiftDist)
        else push_bit 32 (f32_int_sig a))"

lemma powi_split: "(2::real) powi (i + int n) = 2 powi i * 2 ^ n"
  by (simp add: power_int_add)

lemma jam_less: "m < 2 ^ n \<Longrightarrow> 0 < n \<Longrightarrow> jam d m < 2 ^ n"
  by (subst jam_even_less) (auto intro: less_le_trans)

lemma f32_abs_tiny:
  assumes "expF32UI (ucast a) = 0"
  shows "f32_abs a < 2 powi (- 125)"
proof -
  obtain g where g: "g = unat (f32_int_sig a)" by simp
  have "real g < 2 ^ 24" using f32_int_sig(5) [of a] unfolding g [symmetric] by simp
  then have "real g * 2 powi (- 149) < 2 ^ 24 * 2 powi (- 149)" by (intro mult_strict_right_mono) simp_all
  also have "\<dots> = 2 powi (- 125)" using powi_split [of "-149" 24] by simp
  finally show ?thesis using f32_int_sig(1) [OF assms] by (simp only: g)
qed

lemma f32_int32_sig_near:
  assumes E: "expF32UI (ucast a) \<le> 0xAA"
  shows "same_cell 11 (f32_abs a * 2 ^ 12) (unat (f32_int32_sig a))" "unat (f32_int32_sig a) < 2 ^ 63"
proof -
  define e where "e = expF32UI (ucast a)"
  define d where "d = 0xAA - e"
  define g where "g = unat (f32_int_sig a)"
  have e: "0 \<le> e" "e \<le> 0xAA" using f32_int_sig(6) E by (simp_all add: e_def)
  have g: "g < 2 ^ 24" using f32_int_sig(5) by (simp add: g_def)
  have u: "unat (push_bit 32 (f32_int_sig a)) = g * 2 ^ 32"
    using g unfolding g_def by (intro unat_push_bit_nowrap) simp
  have S: "g * 2 ^ 32 < 2 ^ 56" using g by simp
  have w: "f32_int32_sig a = (if 0 < d then softfloat_shiftRightJam64 (push_bit 32 (f32_int_sig a)) (word_of_int d) else push_bit 32 (f32_int_sig a))"
    by (simp add: f32_int32_sig_def d_def e_def)
  show "unat (f32_int32_sig a) < 2 ^ 63"
  proof (cases "0 < d")
    case True
    then have "word_of_int d \<noteq> (0 :: uint64_t)" using e
      unfolding word_unat_eq_iff by (subst unat_word_of_int_pos) (simp_all add: d_def)
    then have "unat (f32_int32_sig a) = jam (unat (word_of_int d :: uint64_t)) (g * 2 ^ 32)"
      using True by (simp add: w shiftRightJam64_jam u)
    then show ?thesis using jam_less [of "g * 2 ^ 32" 63] S by simp
  qed (use S u in \<open>simp add: w\<close>)
  show "same_cell 11 (f32_abs a * 2 ^ 12) (unat (f32_int32_sig a))"
  proof (cases "0 < d")
    case False
    then have "e = 0xAA" using e by (simp add: d_def)
    then have "f32_abs a = real g * 2 powi (8 + int 12)" using f32_int_sig(3) [of a] by (simp add: e_def g_def)
    then have "f32_abs a * 2 ^ 12 = real (g * 2 ^ 32)" by simp
    then show ?thesis using False u by (simp only: w if_False same_cell_refl)
  next
    case True
    have "f32_abs a * 2 ^ 12 = real (g * 2 ^ 32) / 2 ^ nat d \<or>
       g * 2 ^ 32 < 2 ^ nat d \<and> g * 2 ^ 32 \<noteq> 0 \<and> 0 < f32_abs a \<and> f32_abs a * 2 ^ 12 < 2 ^ 11"
    proof (cases "e = 0")
      case False
      have "f32_abs a = real g * 2 powi (e - 150)" using f32_int_sig(3) [of a] False by (simp add: e_def g_def)
      moreover obtain k where k: "k = nat d" by simp
      then have "e - 150 = 20 - int k" using True by (simp add: d_def)
      ultimately show ?thesis unfolding k [symmetric] by (simp add: power_int_diff)
    next
      case 0: True
      have x: "f32_abs a = real g * 2 powi (- 149)" using f32_int_sig(1) [of a] 0 by (simp add: e_def g_def)
      have d: "nat d = 170" using 0 by (simp add: d_def)
      show ?thesis
      proof (cases "g = 0")
        case False
        from f32_abs_tiny [of a] 0 have "f32_abs a < 2 powi (- 125)" by (simp add: e_def)
        moreover have "(2::real) powi (- 125) \<le> 2 powi (- 1)" by (intro power_int_increasing) simp_all
        ultimately have "f32_abs a * 2 ^ 12 < 2 ^ 11" by (simp add: power_int_minus)
        with False x S show ?thesis unfolding d by simp
      qed (simp add: x)
    qed
    then show ?thesis using True e u
      shiftRightJam64_int_cell [of d "f32_abs a" "push_bit 32 (f32_int_sig a)"]
      unfolding w by (simp add: d_def)
  qed
qed


lemma f32_abs_ge:
  assumes "i + 150 \<le> expF32UI (ucast a)" "expF32UI (ucast a) \<noteq> 0"
  shows "2 ^ 23 * 2 powi i \<le> f32_abs a"
proof -
  have "2 ^ 23 \<le> real (unat (f32_int_sig a))"
    using of_nat_mono [OF f32_int_sig(4) [OF assms(2)], where 'a = real] by simp
  then have "2 ^ 23 * 2 powi i \<le> real (unat (f32_int_sig a)) * 2 powi (expF32UI (ucast a) - 150)"
    using assms(1) by (intro mult_mono power_int_increasing) simp_all
  then show ?thesis using f32_int_sig(3) [OF assms(2)] by simp
qed

lemma f32_int32_sig_far:
  assumes E: "0xAA < expF32UI (ucast a)"
  shows "2 ^ 55 \<le> unat (f32_int32_sig a)" "unat (f32_int32_sig a) < 2 ^ 63" "real (2 ^ 33) \<le> f32_abs a"
proof -
  have u: "unat (f32_int32_sig a) = unat (f32_int_sig a) * 2 ^ 32"
  proof -
    have "(0 < 0xAA - expF32UI (ucast a)) = False" using E by simp
    then show ?thesis unfolding f32_int32_sig_def Let_def
      using f32_int_sig(5) [of a] by (simp only: if_False) (rule unat_push_bit_nowrap, simp)
  qed
  show "2 ^ 55 \<le> unat (f32_int32_sig a)" "unat (f32_int32_sig a) < 2 ^ 63"
    unfolding u using f32_int_sig(4,5) [of a] E by simp_all
  show "real (2 ^ 33) \<le> f32_abs a" using f32_abs_ge [of 10 a] E by simp
qed


text \<open>
  The contract of the 32-bit rounding routines, and what both formats get from it: a significand with
  12 extra bits that stands for the operand in its cell gives the conversion of the operand, and a
  significand too large for the target stands for any operand too large for it.
\<close>

locale round_to_int32 =
  fixes lo hi :: int and roundTo :: "bool \<Rightarrow> uint64_t \<Rightarrow> uint_fast8_t \<Rightarrow> bool \<Rightarrow> fp_state \<Rightarrow> 'r \<times> fp_state"
    and val :: "'r \<Rightarrow> int"
  assumes bounds: "- lo < 2 ^ 33" "hi < 2 ^ 33"
    and roundTo_converted:
      "same_cell 11 y (unat sig) \<Longrightarrow> unat sig < 2 ^ 63 \<Longrightarrow> mode \<noteq> softfloat_round_odd \<Longrightarrow>
       roundTo sign sig mode exact s = (z, s') \<Longrightarrow>
       int_converted lo hi exact mode sign (y / 2 ^ 12) s (val z) s'"
begin

lemma near:
  assumes "same_cell 11 (x * 2 ^ 12) (unat sig)" "unat sig < 2 ^ 63" "mode \<noteq> softfloat_round_odd"
    and "roundTo sign sig mode exact s = (z, s')"
  shows "int_converted lo hi exact mode sign x s (val z) s'"
  using roundTo_converted [OF assms] by simp

lemma far:
  assumes "2 ^ 45 \<le> unat sig" "unat sig < 2 ^ 63" "real (2 ^ 33) \<le> x" "mode \<noteq> softfloat_round_odd"
    and "roundTo sign sig mode exact s = (z, s')"
  shows "int_converted lo hi exact mode sign x s (val z) s'"
proof -
  have lim: "hi < int (2 ^ 33)" "- lo < int (2 ^ 33)" using bounds by simp_all
  have "real (2 ^ 45) \<le> real (unat sig)" using assms(1) by (simp only: of_nat_le_iff)
  then have "real (2 ^ 33) \<le> real (unat sig) / 2 ^ 12" by simp
  from int_converted_far [OF this lim] int_converted_far [OF assms(3) lim]
    roundTo_converted [OF same_cell_refl assms(2,4,5)]
  show ?thesis by (simp only:)
qed

lemma f32_converted:
  assumes "mode \<noteq> softfloat_round_odd" "roundTo sign (f32_int32_sig a) mode exact s = (z, s')"
  shows "int_converted lo hi exact mode sign (f32_abs a) s (val z) s'"
proof (cases "expF32UI (ucast a) \<le> 0xAA")
  case True
  from near [OF f32_int32_sig_near [OF True] assms] show ?thesis .
next
  case False
  then have E: "0xAA < expF32UI (ucast a)" by simp
  have "2 ^ 45 \<le> unat (f32_int32_sig a)" using f32_int32_sig_far(1) [OF E] by simp
  from far [OF this f32_int32_sig_far(2,3) [OF E] assms] show ?thesis .
qed

end

lemma f32_nan_fields: "expF32UI (ucast a) = 0xFF \<and> fracF32UI (ucast a) \<noteq> 0 \<longleftrightarrow> f32_nan a"
  using f32_class(1,2,4) [of a] by blast

lemma f32_to_i32_eq:
  "f32_to_i32 a mode exact s = softfloat_roundToI32 (signF32UI (ucast a) \<and> \<not> f32_nan a) (f32_int32_sig a) mode exact s"
proof -
  have "(if f32_nan a then False else signF32UI (ucast a)) = (signF32UI (ucast a) \<and> \<not> f32_nan a)" by simp
  then show ?thesis
    unfolding f32_to_i32_def Let_def f32_int_sig_def [symmetric] f32_nan_fields f32_int32_sig_def by (simp only:)
qed

lemma f32_to_ui32_eq:
  "f32_to_ui32 a mode exact s = softfloat_roundToUI32 (signF32UI (ucast a) \<and> \<not> f32_nan a) (f32_int32_sig a) mode exact s"
proof -
  have "(if f32_nan a then False else signF32UI (ucast a)) = (signF32UI (ucast a) \<and> \<not> f32_nan a)" by simp
  then show ?thesis
    unfolding f32_to_ui32_def Let_def f32_int_sig_def [symmetric] f32_nan_fields f32_int32_sig_def by (simp only:)
qed

interpretation to_i32: round_to_int32 "- (2 ^ 31)" "2 ^ 31 - 1" softfloat_roundToI32 "\<lambda>z. z"
  by unfold_locales (simp, simp, rule roundToI32_converted)

interpretation to_ui32: round_to_int32 0 "2 ^ 32 - 1" softfloat_roundToUI32 uint
  by unfold_locales (simp, simp, rule roundToUI32_converted)


text \<open>The contract of the 64-bit rounding routines, on a significand with an extra word.\<close>

locale round_to_int64 =
  fixes lo hi :: int and roundTo :: "bool \<Rightarrow> uint64_t \<Rightarrow> uint64_t \<Rightarrow> uint_fast8_t \<Rightarrow> bool \<Rightarrow> fp_state \<Rightarrow> 'r \<times> fp_state"
    and val :: "'r \<Rightarrow> int"
  assumes bounds: "- lo < 2 ^ 64" "hi < 2 ^ 64"
    and roundTo_converted:
      "same_cell 63 y (unat sig * 2 ^ 64 + unat extra) \<Longrightarrow> mode \<noteq> softfloat_round_odd \<Longrightarrow>
       roundTo sign sig extra mode exact s = (z, s') \<Longrightarrow>
       int_converted lo hi exact mode sign (y / 2 ^ 64) s (val z) s'"
begin

lemma near:
  assumes "same_cell 63 (x * 2 ^ 64) (unat sig * 2 ^ 64 + unat extra)" "mode \<noteq> softfloat_round_odd"
    and "roundTo sign sig extra mode exact s = (z, s')"
  shows "int_converted lo hi exact mode sign x s (val z) s'"
  using roundTo_converted [OF assms] by simp

lemma far:
  assumes "real (2 ^ 64) \<le> x"
  shows "int_converted lo hi exact mode sign x s z s' \<longleftrightarrow>
    z = (if sign then lo else hi) \<and> s' = softfloat_raiseFlags softfloat_flag_invalid s"
  using bounds by (intro int_converted_far [OF assms]) simp_all

end

interpretation to_i64: round_to_int64 "- (2 ^ 63)" "2 ^ 63 - 1" softfloat_roundToI64 "\<lambda>z. z"
  by unfold_locales (simp, simp, rule roundToI64_converted)

interpretation to_ui64: round_to_int64 0 "2 ^ 64 - 1" softfloat_roundToUI64 uint
  by unfold_locales (simp, simp, rule roundToUI64_converted)

definition f32_int64_sig :: "float32_t \<Rightarrow> uint64_extra" where
  "f32_int64_sig a = (let shiftDist = 0xBE - expF32UI (ucast a); sig64 = push_bit 40 (f32_int_sig a)
     in if shiftDist \<noteq> 0 then softfloat_shiftRightJam64Extra sig64 0 (word_of_int shiftDist)
        else \<lparr>extra_v = sig64, extra_extra = 0\<rparr>)"

lemma f32_int64_sig_near:
  assumes E: "expF32UI (ucast a) \<le> 0xBE"
  shows "same_cell 63 (f32_abs a * 2 ^ 64) (unat (extra_v (f32_int64_sig a)) * 2 ^ 64 + unat (extra_extra (f32_int64_sig a)))"
proof -
  define e where "e = expF32UI (ucast a)"
  define d where "d = 0xBE - e"
  define g where "g = unat (f32_int_sig a)"
  have e: "0 \<le> e" "e \<le> 0xBE" using f32_int_sig(6) E by (simp_all add: e_def)
  have g: "g < 2 ^ 24" using f32_int_sig(5) by (simp add: g_def)
  have u: "unat (push_bit 40 (f32_int_sig a)) = g * 2 ^ 40"
    using g unfolding g_def by (intro unat_push_bit_nowrap) simp
  have w: "f32_int64_sig a = (if d \<noteq> 0 then softfloat_shiftRightJam64Extra (push_bit 40 (f32_int_sig a)) 0 (word_of_int d)
      else \<lparr>extra_v = push_bit 40 (f32_int_sig a), extra_extra = 0\<rparr>)"
    by (simp add: f32_int64_sig_def d_def e_def)
  show ?thesis
  proof (cases "d = 0")
    case True
    then have "e = 0xBE" using e by (simp add: d_def)
    then have "f32_abs a = real g * 2 powi 40" using f32_int_sig(3) [of a] by (simp add: e_def g_def)
    then have "f32_abs a * 2 ^ 64 = real (g * 2 ^ 40 * 2 ^ 64)" by simp
    then show ?thesis using True u by (simp only: w simp_thms if_False uint64_extra.select_convs unat_0 add_0_right same_cell_refl)
  next
    case False
    have "f32_abs a * 2 ^ 64 = real (g * 2 ^ 40) * 2 ^ 64 / 2 ^ nat d \<or>
       65 \<le> d \<and> g * 2 ^ 40 \<noteq> 0 \<and> 0 < f32_abs a \<and> f32_abs a * 2 ^ 64 < 2 ^ 63"
    proof (cases "e = 0")
      case 0: False
      have "f32_abs a = real g * 2 powi (e - 150)" using f32_int_sig(3) [of a] 0 by (simp add: e_def g_def)
      moreover obtain k where k: "k = nat d" by simp
      then have "e - 150 = 40 - int k" using e by (simp add: d_def)
      ultimately show ?thesis unfolding k [symmetric] by (simp add: power_int_diff)
    next
      case 0: True
      have x: "f32_abs a = real g * 2 powi (- 149)" using f32_int_sig(1) [of a] 0 by (simp add: e_def g_def)
      show ?thesis
      proof (cases "g = 0")
        case False
        from f32_abs_tiny [of a] 0 have "f32_abs a < 2 powi (- 125)" by (simp add: e_def)
        moreover have "(2::real) powi (- 125) \<le> 2 powi (- 1)" by (intro power_int_increasing) simp_all
        ultimately have "f32_abs a * 2 ^ 64 < 2 ^ 63" by (simp add: power_int_minus)
        with False x 0 show ?thesis by (simp add: d_def)
      qed (simp add: x)
    qed
    then show ?thesis using False e u
      shiftRightJam64Extra_cell [of d "f32_abs a" "push_bit 40 (f32_int_sig a)" "f32_int64_sig a"]
      unfolding w by (simp add: d_def)
  qed
qed


definition f32_to_int_spec ::
  "int \<Rightarrow> int \<Rightarrow> bool \<Rightarrow> uint_fast8_t \<Rightarrow> float32_t \<Rightarrow> fp_state \<Rightarrow> int \<Rightarrow> fp_state \<Rightarrow> bool" where
  "f32_to_int_spec lo hi exact mode a s z s' \<longleftrightarrow>
     (if f32_nan a then z = hi \<and> s' = softfloat_raiseFlags softfloat_flag_invalid s
      else int_converted lo hi exact mode (signF32UI (ucast a)) (f32_abs a) s z s')"

lemma f32_nan_abs: "f32_nan a \<Longrightarrow> real (2 ^ 64) \<le> f32_abs a"
  using f32_abs_ge [of 41 a] f32_class(1,4) [of a] by simp

lemma f32_to_int_spec_32I:
  assumes "int_converted lo hi exact mode (signF32UI (ucast a) \<and> \<not> f32_nan a) (f32_abs a) s z s'"
    and "- lo < 2 ^ 64" "hi < 2 ^ 64"
  shows "f32_to_int_spec lo hi exact mode a s z s'"
  using assms int_converted_far [OF f32_nan_abs, of a hi lo exact mode False s z s']
  unfolding f32_to_int_spec_def by auto

lemma f32_to_i32_spec:
  assumes "mode \<noteq> softfloat_round_odd"
  shows "f32_to_int_spec (- (2 ^ 31)) (2 ^ 31 - 1) exact mode a s (fst (f32_to_i32 a mode exact s)) (snd (f32_to_i32 a mode exact s))"
  unfolding f32_to_i32_eq by (rule f32_to_int_spec_32I, rule to_i32.f32_converted [OF assms]) simp_all

lemma f32_to_ui32_spec:
  assumes "mode \<noteq> softfloat_round_odd"
  shows "f32_to_int_spec 0 (2 ^ 32 - 1) exact mode a s (uint (fst (f32_to_ui32 a mode exact s))) (snd (f32_to_ui32 a mode exact s))"
  unfolding f32_to_ui32_eq by (rule f32_to_int_spec_32I, rule to_ui32.f32_converted [OF assms]) simp_all

lemma f32_to_i64_eq:
  "f32_to_i64 a mode exact s =
     (if 0xBE < expF32UI (ucast a)
      then (if signF32UI (ucast a) \<and> \<not> f32_nan a then - (2 ^ 63) else 2 ^ 63 - 1, softfloat_raiseFlags softfloat_flag_invalid s)
      else softfloat_roundToI64 (signF32UI (ucast a)) (extra_v (f32_int64_sig a)) (extra_extra (f32_int64_sig a)) mode exact s)"
  unfolding f32_to_i64_def Let_def f32_int_sig_def [symmetric] f32_nan_fields f32_int64_sig_def
  by (auto simp: from_overflow_defs)

lemma f32_to_ui64_eq:
  "f32_to_ui64 a mode exact s =
     (if 0xBE < expF32UI (ucast a)
      then (if signF32UI (ucast a) \<and> \<not> f32_nan a then 0 else 0xFFFFFFFFFFFFFFFF, softfloat_raiseFlags softfloat_flag_invalid s)
      else softfloat_roundToUI64 (signF32UI (ucast a)) (extra_v (f32_int64_sig a)) (extra_extra (f32_int64_sig a)) mode exact s)"
  unfolding f32_to_ui64_def Let_def f32_int_sig_def [symmetric] f32_nan_fields f32_int64_sig_def
  by (auto simp: from_overflow_defs)

lemma f32_to_int_spec_far:
  assumes "0xBE < expF32UI (ucast a)" "- lo < 2 ^ 64" "hi < 2 ^ 64"
  shows "f32_to_int_spec lo hi exact mode a s z s' \<longleftrightarrow>
    z = (if signF32UI (ucast a) \<and> \<not> f32_nan a then lo else hi) \<and> s' = softfloat_raiseFlags softfloat_flag_invalid s"
proof -
  have "real (2 ^ 64) \<le> f32_abs a" using f32_abs_ge [of 41 a] assms(1) by simp
  from int_converted_far [OF this, of hi lo] assms(2,3) show ?thesis by (simp add: f32_to_int_spec_def)
qed

lemma f32_not_nan_near: "\<not> 0xBE < expF32UI (ucast a) \<Longrightarrow> \<not> f32_nan a"
  using f32_class(1,4) [of a] by auto

lemma f32_to_i64_spec:
  assumes "mode \<noteq> softfloat_round_odd"
  shows "f32_to_int_spec (- (2 ^ 63)) (2 ^ 63 - 1) exact mode a s (fst (f32_to_i64 a mode exact s)) (snd (f32_to_i64 a mode exact s))"
proof (cases "0xBE < expF32UI (ucast a)")
  case False
  then have "expF32UI (ucast a) \<le> 0xBE" by simp
  from to_i64.near [OF f32_int64_sig_near [OF this] assms] show ?thesis
    unfolding f32_to_i64_eq f32_to_int_spec_def if_not_P [OF False] if_not_P [OF f32_not_nan_near [OF False]]
    by (simp only: prod.collapse)
qed (simp add: f32_to_int_spec_far f32_to_i64_eq)

lemma f32_to_ui64_spec:
  assumes "mode \<noteq> softfloat_round_odd"
  shows "f32_to_int_spec 0 (2 ^ 64 - 1) exact mode a s (uint (fst (f32_to_ui64 a mode exact s))) (snd (f32_to_ui64 a mode exact s))"
proof (cases "0xBE < expF32UI (ucast a)")
  case False
  then have "expF32UI (ucast a) \<le> 0xBE" by simp
  from to_ui64.near [OF f32_int64_sig_near [OF this] assms] show ?thesis
    unfolding f32_to_ui64_eq f32_to_int_spec_def if_not_P [OF False] if_not_P [OF f32_not_nan_near [OF False]]
    by (simp only: prod.collapse)
qed (simp add: f32_to_int_spec_far f32_to_ui64_eq)

section \<open>Double precision\<close>

definition f64_int_sig :: "float64_t \<Rightarrow> uint_fast64_t" where
  "f64_int_sig a = (if expF64UI a \<noteq> 0 then fracF64UI a OR 0x0010000000000000 else fracF64UI a)"

lemma f64_int_sig:
  shows "expF64UI a = 0 \<Longrightarrow> f64_abs a = real (unat (f64_int_sig a)) * 2 powi (- 1074)"
    and "expF64UI a \<noteq> 0 \<Longrightarrow> f64_abs a = real (unat (f64_int_sig a)) * 2 powi (expF64UI a - 1075)"
    and "expF64UI a \<noteq> 0 \<Longrightarrow> 2 ^ 52 \<le> unat (f64_int_sig a)"
    and "unat (f64_int_sig a) < 2 ^ 53" "0 \<le> expF64UI a" "expF64UI a < 2 ^ 11"
proof -
  have E: "expF64UI a = 0 \<longleftrightarrow> f64_mag a < 2 ^ 52" by (auto simp: f64_fields div_eq_0_iff)
  have f: "unat (fracF64UI a) < 2 ^ 52" by (simp add: f64_fields)
  have h: "unat (fracF64UI a OR 0x0010000000000000) = 2 ^ 52 + unat (fracF64UI a)"
    using nat_or_hidden [OF f] by (simp add: unat_or_distrib)
  have u: "unat (f64_int_sig a) = (if f64_mag a < 2 ^ 52 then f64_mag a else 2 ^ 52 + f64_mag a mod 2 ^ 52)"
    unfolding f64_int_sig_def E using h by (simp add: f64_fields)
  show "f64_abs a = real (unat (f64_int_sig a)) * 2 powi (- 1074)" if "expF64UI a = 0"
    unfolding f64_abs_def mag_val_def u using that E by simp
  show "f64_abs a = real (unat (f64_int_sig a)) * 2 powi (expF64UI a - 1075)" if "expF64UI a \<noteq> 0"
    unfolding f64_abs_def mag_val_def u using that E by (simp add: f64_fields(1))
  show "unat (f64_int_sig a) < 2 ^ 53" "0 \<le> expF64UI a" "expF64UI a < 2 ^ 11"
    using f64_mag_less [of a] by (simp_all add: u f64_fields(1))
  show "2 ^ 52 \<le> unat (f64_int_sig a)" if "expF64UI a \<noteq> 0" using that unfolding E by (simp add: u)
qed

lemma f64_abs_tiny:
  assumes "expF64UI a = 0"
  shows "f64_abs a < 2 powi (- 1021)"
proof -
  obtain g where g: "g = unat (f64_int_sig a)" by simp
  have "real g < 2 ^ 53" using f64_int_sig(4) [of a] unfolding g [symmetric] by simp
  then have "real g * 2 powi (- 1074) < 2 ^ 53 * 2 powi (- 1074)" by (intro mult_strict_right_mono) simp_all
  also have "\<dots> = 2 powi (- 1021)" using powi_split [of "-1074" 53] by simp
  finally show ?thesis using f64_int_sig(1) [OF assms] by (simp only: g)
qed

lemma f64_abs_ge:
  assumes "i + 1075 \<le> expF64UI a" "expF64UI a \<noteq> 0"
  shows "2 ^ 52 * 2 powi i \<le> f64_abs a"
proof -
  have "2 ^ 52 \<le> real (unat (f64_int_sig a))"
    using of_nat_mono [OF f64_int_sig(3) [OF assms(2)], where 'a = real] by simp
  then have "2 ^ 52 * 2 powi i \<le> real (unat (f64_int_sig a)) * 2 powi (expF64UI a - 1075)"
    using assms(1) by (intro mult_mono power_int_increasing) simp_all
  then show ?thesis using f64_int_sig(2) [OF assms(2)] by simp
qed

definition f64_int32_sig :: "float64_t \<Rightarrow> uint_fast64_t" where
  "f64_int32_sig a = (let shiftDist = 0x427 - expF64UI a
     in if 0 < shiftDist then softfloat_shiftRightJam64 (f64_int_sig a) (word_of_int shiftDist) else f64_int_sig a)"

lemma f64_int32_sig_near:
  assumes E: "expF64UI a < 0x427"
  shows "same_cell 11 (f64_abs a * 2 ^ 12) (unat (f64_int32_sig a))" "unat (f64_int32_sig a) < 2 ^ 63"
proof -
  define e where "e = expF64UI a"
  define d where "d = 0x427 - e"
  define g where "g = unat (f64_int_sig a)"
  have e: "0 \<le> e" "e < 0x427" using f64_int_sig(5) E by (simp_all add: e_def)
  then have d: "0 < d" "d < 2 ^ 32" by (simp_all add: d_def)
  have g: "g < 2 ^ 53" using f64_int_sig(4) by (simp add: g_def)
  have w: "f64_int32_sig a = softfloat_shiftRightJam64 (f64_int_sig a) (word_of_int d)"
    using d by (simp add: f64_int32_sig_def d_def e_def)
  have "word_of_int d \<noteq> (0 :: uint64_t)"
    using d unfolding word_unat_eq_iff by (subst unat_word_of_int_pos) simp_all
  then have "unat (f64_int32_sig a) = jam (unat (word_of_int d :: uint64_t)) g"
    by (simp add: w shiftRightJam64_jam g_def)
  then show "unat (f64_int32_sig a) < 2 ^ 63" using jam_less [of g 63] g by simp
  have "f64_abs a * 2 ^ 12 = real g / 2 ^ nat d \<or>
     g < 2 ^ nat d \<and> g \<noteq> 0 \<and> 0 < f64_abs a \<and> f64_abs a * 2 ^ 12 < 2 ^ 11"
  proof (cases "e = 0")
    case False
    have "f64_abs a = real g * 2 powi (e - 1075)" using f64_int_sig(2) [of a] False by (simp add: e_def g_def)
    moreover obtain k where k: "k = nat d" by simp
    then have "e - 1075 = - 12 - int k" using d by (simp add: d_def)
    ultimately show ?thesis unfolding k [symmetric] by (simp add: power_int_diff power_int_minus)
  next
    case 0: True
    have x: "f64_abs a = real g * 2 powi (- 1074)" using f64_int_sig(1) [of a] 0 by (simp add: e_def g_def)
    have d: "nat d = 1063" using 0 by (simp add: d_def)
    show ?thesis
    proof (cases "g = 0")
      case False
      from f64_abs_tiny [of a] 0 have "f64_abs a < 2 powi (- 1021)" by (simp add: e_def)
      moreover have "(2::real) powi (- 1021) \<le> 2 powi (- 1)" by (intro power_int_increasing) simp_all
      ultimately have "f64_abs a * 2 ^ 12 < 2 ^ 11" by (simp add: power_int_minus)
      moreover have "g < 2 ^ 1063" using g power_increasing [of 53 1063 "2::nat"] by linarith
      ultimately show ?thesis unfolding d using False x by simp
    qed (simp add: x)
  qed
  then show "same_cell 11 (f64_abs a * 2 ^ 12) (unat (f64_int32_sig a))"
    unfolding w g_def by (rule shiftRightJam64_int_cell [OF d])
qed

lemma f64_int32_sig_far:
  assumes E: "\<not> expF64UI a < 0x427"
  shows "2 ^ 45 \<le> unat (f64_int32_sig a)" "unat (f64_int32_sig a) < 2 ^ 63" "real (2 ^ 33) \<le> f64_abs a"
proof -
  have w: "f64_int32_sig a = f64_int_sig a" using E by (simp add: f64_int32_sig_def)
  show "2 ^ 45 \<le> unat (f64_int32_sig a)" "unat (f64_int32_sig a) < 2 ^ 63"
    unfolding w using f64_int_sig(3,4) [of a] E by simp_all
  show "real (2 ^ 33) \<le> f64_abs a" using f64_abs_ge [of "- 12" a] E by (simp add: power_int_minus)
qed

context round_to_int32
begin

lemma f64_converted:
  assumes "mode \<noteq> softfloat_round_odd" "roundTo sign (f64_int32_sig a) mode exact s = (z, s')"
  shows "int_converted lo hi exact mode sign (f64_abs a) s (val z) s'"
proof (cases "expF64UI a < 0x427")
  case True
  from near [OF f64_int32_sig_near [OF True] assms] show ?thesis .
next
  case False
  from far [OF f64_int32_sig_far [OF False] assms] show ?thesis .
qed

end

definition f64_to_int_spec ::
  "int \<Rightarrow> int \<Rightarrow> bool \<Rightarrow> uint_fast8_t \<Rightarrow> float64_t \<Rightarrow> fp_state \<Rightarrow> int \<Rightarrow> fp_state \<Rightarrow> bool" where
  "f64_to_int_spec lo hi exact mode a s z s' \<longleftrightarrow>
     (if f64_nan a then z = hi \<and> s' = softfloat_raiseFlags softfloat_flag_invalid s
      else int_converted lo hi exact mode (signF64UI a) (f64_abs a) s z s')"

lemma f64_nan_fields: "expF64UI a = 0x7FF \<and> fracF64UI a \<noteq> 0 \<longleftrightarrow> f64_nan a"
  using f64_class(1,2,4) [of a] by blast

lemma f64_nan_abs: "f64_nan a \<Longrightarrow> real (2 ^ 64) \<le> f64_abs a"
  using f64_abs_ge [of 12 a] f64_class(1,4) [of a] by simp

lemma f64_to_int_spec_32I:
  assumes "int_converted lo hi exact mode (signF64UI a \<and> \<not> f64_nan a) (f64_abs a) s z s'"
    and "- lo < 2 ^ 64" "hi < 2 ^ 64"
  shows "f64_to_int_spec lo hi exact mode a s z s'"
  using assms int_converted_far [OF f64_nan_abs, of a hi lo exact mode False s z s']
  unfolding f64_to_int_spec_def by auto

lemma f64_to_i32_eq:
  "f64_to_i32 a mode exact s = softfloat_roundToI32 (signF64UI a \<and> \<not> f64_nan a) (f64_int32_sig a) mode exact s"
proof -
  have "(if f64_nan a then False else signF64UI a) = (signF64UI a \<and> \<not> f64_nan a)" by simp
  then show ?thesis
    unfolding f64_to_i32_def Let_def f64_int_sig_def [symmetric] f64_nan_fields f64_int32_sig_def by (simp only:)
qed

lemma f64_to_ui32_eq:
  "f64_to_ui32 a mode exact s = softfloat_roundToUI32 (signF64UI a \<and> \<not> f64_nan a) (f64_int32_sig a) mode exact s"
proof -
  have "(if f64_nan a then False else signF64UI a) = (signF64UI a \<and> \<not> f64_nan a)" by simp
  then show ?thesis
    unfolding f64_to_ui32_def Let_def f64_int_sig_def [symmetric] f64_nan_fields f64_int32_sig_def by (simp only:)
qed

lemma f64_to_i32_spec:
  assumes "mode \<noteq> softfloat_round_odd"
  shows "f64_to_int_spec (- (2 ^ 31)) (2 ^ 31 - 1) exact mode a s (fst (f64_to_i32 a mode exact s)) (snd (f64_to_i32 a mode exact s))"
  unfolding f64_to_i32_eq by (rule f64_to_int_spec_32I, rule to_i32.f64_converted [OF assms]) simp_all

lemma f64_to_ui32_spec:
  assumes "mode \<noteq> softfloat_round_odd"
  shows "f64_to_int_spec 0 (2 ^ 32 - 1) exact mode a s (uint (fst (f64_to_ui32 a mode exact s))) (snd (f64_to_ui32 a mode exact s))"
  unfolding f64_to_ui32_eq by (rule f64_to_int_spec_32I, rule to_ui32.f64_converted [OF assms]) simp_all

definition f64_int64_sig :: "float64_t \<Rightarrow> uint64_extra" where
  "f64_int64_sig a = (let shiftDist = 0x433 - expF64UI a
     in if shiftDist \<le> 0 then \<lparr>extra_v = push_bit (nat (- shiftDist)) (f64_int_sig a), extra_extra = 0\<rparr>
        else softfloat_shiftRightJam64Extra (f64_int_sig a) 0 (word_of_int shiftDist))"

lemma f64_int64_sig_near:
  assumes E: "expF64UI a \<le> 0x43E"
  shows "same_cell 63 (f64_abs a * 2 ^ 64) (unat (extra_v (f64_int64_sig a)) * 2 ^ 64 + unat (extra_extra (f64_int64_sig a)))"
proof -
  define e where "e = expF64UI a"
  define d where "d = 0x433 - e"
  define g where "g = unat (f64_int_sig a)"
  have e: "0 \<le> e" "e \<le> 0x43E" using f64_int_sig(5) E by (simp_all add: e_def)
  have g: "g < 2 ^ 53" using f64_int_sig(4) by (simp add: g_def)
  have w: "f64_int64_sig a = (if d \<le> 0 then \<lparr>extra_v = push_bit (nat (- d)) (f64_int_sig a), extra_extra = 0\<rparr>
      else softfloat_shiftRightJam64Extra (f64_int_sig a) 0 (word_of_int d))"
    by (simp add: f64_int64_sig_def d_def e_def)
  show ?thesis
  proof (cases "d \<le> 0")
    case True
    obtain k where k: "k = nat (- d)" by simp
    then have k1: "e - 1075 = int k" "k \<le> 11" using True e by (simp_all add: d_def)
    have "g * 2 ^ k < 2 ^ 53 * 2 ^ 11"
      using g k1(2) by (intro mult_less_le_imp_less power_increasing) simp_all
    then have u: "unat (push_bit k (f64_int_sig a)) = g * 2 ^ k"
      unfolding g_def by (intro unat_push_bit_nowrap) simp
    have "f64_abs a = real g * 2 ^ k" using f64_int_sig(2) [of a] k1(1) by (simp add: e_def g_def)
    then have "f64_abs a * 2 ^ 64 = real (g * 2 ^ k * 2 ^ 64)" by simp
    then show ?thesis using True u k
      by (simp only: w simp_thms if_True uint64_extra.select_convs unat_0 add_0_right same_cell_refl)
  next
    case False
    have d: "0 < d" "d < 2 ^ 32" using False e by (simp_all add: d_def)
    have "f64_abs a * 2 ^ 64 = real g * 2 ^ 64 / 2 ^ nat d \<or>
       65 \<le> d \<and> g \<noteq> 0 \<and> 0 < f64_abs a \<and> f64_abs a * 2 ^ 64 < 2 ^ 63"
    proof (cases "e = 0")
      case 0: False
      have "f64_abs a = real g * 2 powi (e - 1075)" using f64_int_sig(2) [of a] 0 by (simp add: e_def g_def)
      moreover obtain k where k: "k = nat d" by simp
      then have "e - 1075 = - int k" using d by (simp add: d_def)
      ultimately show ?thesis unfolding k [symmetric] by (simp add: power_int_minus field_simps)
    next
      case 0: True
      have x: "f64_abs a = real g * 2 powi (- 1074)" using f64_int_sig(1) [of a] 0 by (simp add: e_def g_def)
      show ?thesis
      proof (cases "g = 0")
        case False
        from f64_abs_tiny [of a] 0 have "f64_abs a < 2 powi (- 1021)" by (simp add: e_def)
        moreover have "(2::real) powi (- 1021) \<le> 2 powi (- 1)" by (intro power_int_increasing) simp_all
        ultimately have "f64_abs a * 2 ^ 64 < 2 ^ 63" by (simp add: power_int_minus)
        with False x 0 show ?thesis by (simp add: d_def)
      qed (simp add: x)
    qed
    then show ?thesis using False unfolding g_def
      by (intro shiftRightJam64Extra_cell [OF d]) (simp_all only: w if_False)
  qed
qed

lemma f64_to_i64_eq:
  "f64_to_i64 a mode exact s =
     (if 0x43E < expF64UI a
      then (if signF64UI a \<and> \<not> f64_nan a then - (2 ^ 63) else 2 ^ 63 - 1, softfloat_raiseFlags softfloat_flag_invalid s)
      else softfloat_roundToI64 (signF64UI a) (extra_v (f64_int64_sig a)) (extra_extra (f64_int64_sig a)) mode exact s)"
  unfolding f64_to_i64_def Let_def f64_int_sig_def [symmetric] f64_nan_fields f64_int64_sig_def
  by (auto simp: from_overflow_defs)

lemma f64_to_ui64_eq:
  "f64_to_ui64 a mode exact s =
     (if 0x43E < expF64UI a
      then (if signF64UI a \<and> \<not> f64_nan a then 0 else 0xFFFFFFFFFFFFFFFF, softfloat_raiseFlags softfloat_flag_invalid s)
      else softfloat_roundToUI64 (signF64UI a) (extra_v (f64_int64_sig a)) (extra_extra (f64_int64_sig a)) mode exact s)"
  unfolding f64_to_ui64_def Let_def f64_int_sig_def [symmetric] f64_nan_fields f64_int64_sig_def
  by (auto simp: from_overflow_defs)

lemma f64_to_int_spec_far:
  assumes "0x43E < expF64UI a" "- lo < 2 ^ 64" "hi < 2 ^ 64"
  shows "f64_to_int_spec lo hi exact mode a s z s' \<longleftrightarrow>
    z = (if signF64UI a \<and> \<not> f64_nan a then lo else hi) \<and> s' = softfloat_raiseFlags softfloat_flag_invalid s"
proof -
  have "real (2 ^ 64) \<le> f64_abs a" using f64_abs_ge [of 12 a] assms(1) by simp
  from int_converted_far [OF this, of hi lo] assms(2,3) show ?thesis by (simp add: f64_to_int_spec_def)
qed

lemma f64_not_nan_near: "\<not> 0x43E < expF64UI a \<Longrightarrow> \<not> f64_nan a"
  using f64_class(1,4) [of a] by auto

lemma f64_to_i64_spec:
  assumes "mode \<noteq> softfloat_round_odd"
  shows "f64_to_int_spec (- (2 ^ 63)) (2 ^ 63 - 1) exact mode a s (fst (f64_to_i64 a mode exact s)) (snd (f64_to_i64 a mode exact s))"
proof (cases "0x43E < expF64UI a")
  case False
  then have "expF64UI a \<le> 0x43E" by simp
  from to_i64.near [OF f64_int64_sig_near [OF this] assms] show ?thesis
    unfolding f64_to_i64_eq f64_to_int_spec_def if_not_P [OF False] if_not_P [OF f64_not_nan_near [OF False]]
    by (simp only: prod.collapse)
qed (simp add: f64_to_int_spec_far f64_to_i64_eq)

lemma f64_to_ui64_spec:
  assumes "mode \<noteq> softfloat_round_odd"
  shows "f64_to_int_spec 0 (2 ^ 64 - 1) exact mode a s (uint (fst (f64_to_ui64 a mode exact s))) (snd (f64_to_ui64 a mode exact s))"
proof (cases "0x43E < expF64UI a")
  case False
  then have "expF64UI a \<le> 0x43E" by simp
  from to_ui64.near [OF f64_int64_sig_near [OF this] assms] show ?thesis
    unfolding f64_to_ui64_eq f64_to_int_spec_def if_not_P [OF False] if_not_P [OF f64_not_nan_near [OF False]]
    by (simp only: prod.collapse)
qed (simp add: f64_to_int_spec_far f64_to_ui64_eq)

section \<open>Properties\<close>

text \<open>C21. For every single- and double-precision operand, the conversions to signed and unsigned 32- and 64-bit integers deliver its value
  rounded to an integer in the given mode when that integer is in the range of the type, raising inexact
  exactly when asked to and the operand is not an integer; otherwise they raise invalid and return the bound
  on the operand's side. A NaN gives the upper bound and raises invalid.\<close>

theorem float_to_int_correct:
  assumes "mode \<noteq> softfloat_round_odd"
  shows "f32_to_int_spec (- (2 ^ 31)) (2 ^ 31 - 1) exact mode a s (fst (f32_to_i32 a mode exact s)) (snd (f32_to_i32 a mode exact s)) \<and>
    f32_to_int_spec 0 (2 ^ 32 - 1) exact mode a s (uint (fst (f32_to_ui32 a mode exact s))) (snd (f32_to_ui32 a mode exact s)) \<and>
    f32_to_int_spec (- (2 ^ 63)) (2 ^ 63 - 1) exact mode a s (fst (f32_to_i64 a mode exact s)) (snd (f32_to_i64 a mode exact s)) \<and>
    f32_to_int_spec 0 (2 ^ 64 - 1) exact mode a s (uint (fst (f32_to_ui64 a mode exact s))) (snd (f32_to_ui64 a mode exact s)) \<and>
    f64_to_int_spec (- (2 ^ 31)) (2 ^ 31 - 1) exact mode b s (fst (f64_to_i32 b mode exact s)) (snd (f64_to_i32 b mode exact s)) \<and>
    f64_to_int_spec 0 (2 ^ 32 - 1) exact mode b s (uint (fst (f64_to_ui32 b mode exact s))) (snd (f64_to_ui32 b mode exact s)) \<and>
    f64_to_int_spec (- (2 ^ 63)) (2 ^ 63 - 1) exact mode b s (fst (f64_to_i64 b mode exact s)) (snd (f64_to_i64 b mode exact s)) \<and>
    f64_to_int_spec 0 (2 ^ 64 - 1) exact mode b s (uint (fst (f64_to_ui64 b mode exact s))) (snd (f64_to_ui64 b mode exact s))"
  by (intro conjI f32_to_i32_spec [OF assms] f32_to_ui32_spec [OF assms] f32_to_i64_spec [OF assms] f32_to_ui64_spec [OF assms]
    f64_to_i32_spec [OF assms] f64_to_ui32_spec [OF assms] f64_to_i64_spec [OF assms] f64_to_ui64_spec [OF assms])

theorem float_to_int_correct_witness:
  "softfloat_round_near_even \<noteq> softfloat_round_odd \<and>
   f32_to_i32 0xC0200000 softfloat_round_near_even True softfloat_init = (- 2, softfloat_raiseFlags softfloat_flag_inexact softfloat_init) \<and>
   f32_to_int_spec (- (2 ^ 31)) (2 ^ 31 - 1) True softfloat_round_near_even 0xC0200000 softfloat_init (- 2)
     (softfloat_raiseFlags softfloat_flag_inexact softfloat_init) \<and>
   f64_to_ui32 0xC004000000000000 softfloat_round_near_even True softfloat_init = (0, softfloat_raiseFlags softfloat_flag_invalid softfloat_init) \<and>
   f64_to_int_spec 0 (2 ^ 32 - 1) True softfloat_round_near_even 0xC004000000000000 softfloat_init (uint (0 :: uint_fast32_t))
     (softfloat_raiseFlags softfloat_flag_invalid softfloat_init)"
proof -
  have m: "softfloat_round_near_even \<noteq> softfloat_round_odd" by code_simp
  have r: "f32_to_i32 0xC0200000 softfloat_round_near_even True softfloat_init =
      (- 2, softfloat_raiseFlags softfloat_flag_inexact softfloat_init)" by code_simp
  have q: "f64_to_ui32 0xC004000000000000 softfloat_round_near_even True softfloat_init =
      (0, softfloat_raiseFlags softfloat_flag_invalid softfloat_init)" by code_simp
  from float_to_int_correct [OF m, of True "0xC0200000" softfloat_init "0xC004000000000000"] m r q show ?thesis
    by (simp only: fst_conv snd_conv simp_thms)
qed

end
