(* ===== verification/Softfloat_Convert.thy ===== *)
theory Softfloat_Convert
  imports Softfloat_F32 Softfloat_F64
begin

text \<open>
  Conversion of integers to floating-point numbers and between the formats
  (\<^verbatim>\<open>softfloat/i*_to_f*.c\<close>, \<^verbatim>\<open>softfloat/ui*_to_f*.c\<close>, \<^verbatim>\<open>softfloat/f32_to_f64.c\<close>, \<^verbatim>\<open>softfloat/f64_to_f32.c\<close>).
  A C \<open>int32_t\<close> or \<open>int64_t\<close> argument is a word of that width read by \<open>sint\<close>; the cast to an unsigned
  64-bit type is sign extension. Conversions that never round return the float alone, the others
  also the state.
\<close>

section \<open>Integers to single precision\<close>

definition i32_to_f32 :: "uint32_t \<Rightarrow> fp_state \<Rightarrow> float32_t \<times> fp_state" where
  "i32_to_f32 a s =
     (let sign = (sint a < 0)
      in if a AND 0x7FFFFFFF = 0 then (ucast (if sign then packToF32UI True 0x9E 0 else 0), s)
         else
           let absA = (if sign then - scast a else scast a) :: uint_fast32_t
           in softfloat_normRoundPackToF32 sign 0x9C absA s)"

definition ui32_to_f32 :: "uint32_t \<Rightarrow> fp_state \<Rightarrow> float32_t \<times> fp_state" where
  "ui32_to_f32 a s =
     (if a = 0 then (0, s)
      else if a AND 0x80000000 \<noteq> 0
      then softfloat_roundPackToF32 False 0x9D (ucast (drop_bit 1 a OR (a AND 1))) s
      else softfloat_normRoundPackToF32 False 0x9C (ucast a) s)"

definition i64_to_f32 :: "uint64_t \<Rightarrow> fp_state \<Rightarrow> float32_t \<times> fp_state" where
  "i64_to_f32 a s =
     (let sign = (sint a < 0);
          absA = (if sign then - a else a);
          shiftDist = uint (softfloat_countLeadingZeros64 absA) - 40
      in if 0 \<le> shiftDist then
           (ucast (if a \<noteq> 0 then packToF32UI sign (0x95 - shiftDist) (push_bit (nat shiftDist) absA) else 0), s)
         else
           let shiftDist = shiftDist + 7;
               sig = (if shiftDist < 0 then softfloat_shortShiftRightJam64 absA (word_of_int (- shiftDist))
                      else push_bit (nat shiftDist) absA)
           in softfloat_roundPackToF32 sign (0x9C - shiftDist) sig s)"

definition ui64_to_f32 :: "uint64_t \<Rightarrow> fp_state \<Rightarrow> float32_t \<times> fp_state" where
  "ui64_to_f32 a s =
     (let shiftDist = uint (softfloat_countLeadingZeros64 a) - 40
      in if 0 \<le> shiftDist then
           (ucast (if a \<noteq> 0 then packToF32UI False (0x95 - shiftDist) (push_bit (nat shiftDist) a) else 0), s)
         else
           let shiftDist = shiftDist + 7;
               sig = (if shiftDist < 0 then softfloat_shortShiftRightJam64 a (word_of_int (- shiftDist))
                      else push_bit (nat shiftDist) a)
           in softfloat_roundPackToF32 False (0x9C - shiftDist) sig s)"

section \<open>Integers to double precision\<close>

definition i32_to_f64 :: "uint32_t \<Rightarrow> float64_t" where
  "i32_to_f64 a =
     (if a = 0 then 0
      else
        let sign = (sint a < 0);
            absA = (if sign then - scast a else scast a) :: uint_fast32_t;
            shiftDist = uint (softfloat_countLeadingZeros32 (ucast absA)) + 21
        in packToF64UI sign (0x432 - shiftDist) (push_bit (nat shiftDist) absA))"

definition ui32_to_f64 :: "uint32_t \<Rightarrow> float64_t" where
  "ui32_to_f64 a =
     (if a = 0 then 0
      else
        let shiftDist = uint (softfloat_countLeadingZeros32 a) + 21
        in packToF64UI False (0x432 - shiftDist) (push_bit (nat shiftDist) (ucast a)))"

definition i64_to_f64 :: "uint64_t \<Rightarrow> fp_state \<Rightarrow> float64_t \<times> fp_state" where
  "i64_to_f64 a s =
     (let sign = (sint a < 0)
      in if a AND 0x7FFFFFFFFFFFFFFF = 0 then (if sign then packToF64UI True 0x43E 0 else 0, s)
         else
           let absA = (if sign then - a else a)
           in softfloat_normRoundPackToF64 sign 0x43C absA s)"

definition ui64_to_f64 :: "uint64_t \<Rightarrow> fp_state \<Rightarrow> float64_t \<times> fp_state" where
  "ui64_to_f64 a s =
     (if a = 0 then (0, s)
      else if a AND 0x8000000000000000 \<noteq> 0
      then softfloat_roundPackToF64 False 0x43D (softfloat_shortShiftRightJam64 a 1) s
      else softfloat_normRoundPackToF64 False 0x43C a s)"

section \<open>Between the formats\<close>

definition softfloat_f32UIToCommonNaN :: "uint_fast32_t \<Rightarrow> fp_state \<Rightarrow> fp_state" where
  "softfloat_f32UIToCommonNaN uiA s =
     (if uiA AND 0x00400000 = 0 then softfloat_raiseFlags softfloat_flag_invalid s else s)"

definition softfloat_f64UIToCommonNaN :: "uint_fast64_t \<Rightarrow> fp_state \<Rightarrow> fp_state" where
  "softfloat_f64UIToCommonNaN uiA s =
     (if uiA AND 0x0008000000000000 = 0 then softfloat_raiseFlags softfloat_flag_invalid s else s)"

definition f32_to_f64 :: "float32_t \<Rightarrow> fp_state \<Rightarrow> float64_t \<times> fp_state" where
  "f32_to_f64 a s =
     (let uiA = ucast a;
          sign = signF32UI uiA;
          expn = expF32UI uiA;
          frac = fracF32UI uiA
      in if expn = 0xFF then
           if frac \<noteq> 0 then (defaultNaNF64UI, softfloat_f32UIToCommonNaN uiA s)
           else (packToF64UI sign 0x7FF 0, s)
         else if expn = 0 \<and> frac = 0 then (packToF64UI sign 0 0, s)
         else
           let (expn, frac) =
                 (if expn = 0
                  then let normExpSig = softfloat_normSubnormalF32Sig frac
                       in (exp16_sig32_exp normExpSig - 1, exp16_sig32_sig normExpSig)
                  else (expn, frac))
           in (packToF64UI sign (expn + 0x380) (push_bit 29 frac), s))"

definition f64_to_f32 :: "float64_t \<Rightarrow> fp_state \<Rightarrow> float32_t \<times> fp_state" where
  "f64_to_f32 a s =
     (let uiA = a;
          sign = signF64UI uiA;
          expn = expF64UI uiA;
          frac = fracF64UI uiA
      in if expn = 0x7FF then
           if frac \<noteq> 0 then (ucast defaultNaNF32UI, softfloat_f64UIToCommonNaN uiA s)
           else (ucast (packToF32UI sign 0xFF 0), s)
         else
           let frac32 = softfloat_shortShiftRightJam64 frac 22
           in if word_of_int expn OR frac32 = 0 then (ucast (packToF32UI sign 0 0), s)
              else softfloat_roundPackToF32 sign (expn - 0x381) (frac32 OR 0x40000000) s)"

section \<open>Signed words and leading zeros\<close>

lemma real_abs_sint: "real (nat \<bar>sint a\<bar>) = \<bar>real_of_int (sint a)\<bar>"
  by simp

lemma clz64_shift:
  fixes m :: uint64_t
  assumes "m \<noteq> 0"
  obtains c where "uint (softfloat_countLeadingZeros64 m) = int c" "c < 64" "2 ^ 63 \<le> unat m * 2 ^ c" "unat m * 2 ^ c < 2 ^ 64"
proof
  show "uint (softfloat_countLeadingZeros64 m) = int (unat (softfloat_countLeadingZeros64 m))" by (rule uint_nat)
  show "unat (softfloat_countLeadingZeros64 m) < 64"
    "2 ^ 63 \<le> unat m * 2 ^ unat (softfloat_countLeadingZeros64 m)"
    "unat m * 2 ^ unat (softfloat_countLeadingZeros64 m) < 2 ^ 64"
    using countLeadingZeros64_is_clz [OF assms] by (simp_all add: is_clz_def)
qed


section \<open>Correctness of the integer conversions\<close>

lemma u64_to_f32_rounded:
  fixes m :: uint64_t
  assumes m: "m \<noteq> 0" and sd: "shiftDist = uint (softfloat_countLeadingZeros64 m) - 40"
  shows "0 \<le> shiftDist \<Longrightarrow>
      f32_rounded sign (real (unat m)) s (ucast (packToF32UI sign (0x95 - shiftDist) (push_bit (nat shiftDist) m)), s)"
    and "shiftDist < 0 \<Longrightarrow>
      f32_rounded sign (real (unat m)) s (softfloat_roundPackToF32 sign (0x9C - (shiftDist + 7))
        (if shiftDist + 7 < 0 then softfloat_shortShiftRightJam64 m (word_of_int (- (shiftDist + 7)))
         else push_bit (nat (shiftDist + 7)) m) s)"
proof -
  obtain c where c: "uint (softfloat_countLeadingZeros64 m) = int c" "c < 64" "2 ^ 63 \<le> unat m * 2 ^ c" "unat m * 2 ^ c < 2 ^ 64"
    using clz64_shift [OF m] .
  obtain M where M: "M = unat m" by simp
  have lo: "2 ^ (63 - i) \<le> M * 2 ^ (c - i)" and hi: "M * 2 ^ (c - i) < 2 ^ (64 - i)" if "i \<le> c" for i
  proof -
    have "M * 2 ^ c = M * 2 ^ (c - i) * 2 ^ i" using that by (simp add: mult.assoc flip: power_add)
    moreover have "(2::nat) ^ 63 = 2 ^ (63 - i) * 2 ^ i" "(2::nat) ^ 64 = 2 ^ (64 - i) * 2 ^ i"
      using that c(2) by (simp_all flip: power_add)
    ultimately have "2 ^ (63 - i) * 2 ^ i \<le> M * 2 ^ (c - i) * 2 ^ i" "M * 2 ^ (c - i) * 2 ^ i < 2 ^ (64 - i) * 2 ^ i"
      using c(3,4) unfolding M [symmetric] by linarith+
    then show "2 ^ (63 - i) \<le> M * 2 ^ (c - i)" "M * 2 ^ (c - i) < 2 ^ (64 - i)" by simp_all
  qed
  show "f32_rounded sign (real (unat m)) s (ucast (packToF32UI sign (0x95 - shiftDist) (push_bit (nat shiftDist) m)), s)"
    if "0 \<le> shiftDist"
  proof -
    define d where "d = c - 40"
    have d: "shiftDist = int d" "40 \<le> c" "d < 24" using that c(1,2) by (simp_all add: sd d_def)
    have b: "2 ^ 23 \<le> M * 2 ^ d" "M * 2 ^ d < 2 ^ 24" using lo [of 40] hi [of 40] d by (simp_all add: d_def)
    then have u: "unat (push_bit d m) = M * 2 ^ d" unfolding M by (intro unat_push_bit_nowrap) simp
    show ?thesis unfolding d(1) nat_int
    proof (rule f32_pack_exact)
      show "real (unat m) = real (unat (push_bit d m)) * 2 powi (0x95 - int d - 149)"
        unfolding u M [symmetric] by (simp add: power_int_minus)
    qed (use b d u in simp_all)
  qed
  show "f32_rounded sign (real (unat m)) s (softfloat_roundPackToF32 sign (0x9C - (shiftDist + 7))
        (if shiftDist + 7 < 0 then softfloat_shortShiftRightJam64 m (word_of_int (- (shiftDist + 7)))
         else push_bit (nat (shiftDist + 7)) m) s)" if "shiftDist < 0"
  proof (cases "shiftDist + 7 < 0")
    case True
    define k where "k = 33 - c"
    have k: "- (shiftDist + 7) = int k" "0 < k" "k \<le> 33" "c + k = 33" using True c(1) by (simp_all add: sd k_def)
    have "unat (word_of_int (int k) :: uint_fast8_t) = k" using k(3) by (subst unat_word_of_int) simp_all
    then have u: "unat (softfloat_shortShiftRightJam64 m (word_of_int (int k))) = jam k M"
      using k(3) by (simp add: shortShiftRightJam64_jam M)
    have b: "2 ^ 30 \<le> jam k M \<and> jam k M < 2 ^ 31"
    proof -
      have "2 ^ 63 * 2 ^ k \<le> M * 2 ^ c * 2 ^ k" "M * 2 ^ c * 2 ^ k < 2 ^ 64 * 2 ^ k" using c(3,4) by (simp_all add: M)
      moreover have "M * 2 ^ c * 2 ^ k = M * 2 ^ 33" unfolding mult.assoc power_add [symmetric] k(4) ..
      ultimately have "2 ^ 30 * 2 ^ k \<le> M" "M < 2 ^ 31 * 2 ^ k" by simp_all
      then show ?thesis using jam_even_less [of "2 ^ 30" k M] jam_even_less [of "2 ^ 31" k M] by simp
    qed
    have "f32_rounded sign (real (unat m)) s (softfloat_roundPackToF32 sign (0x9C + int k) (softfloat_shortShiftRightJam64 m (word_of_int (int k))) s)"
    proof (rule roundPackToF32_rounded)
      show "same_cell 6 (real M / 2 ^ k) (unat (softfloat_shortShiftRightJam64 m (word_of_int (int k))))"
        unfolding u by (rule same_cell_mono [OF jam_cell]) simp
      show "real (unat m) = real M / 2 ^ k * 2 powi (0x9C + int k - 156)" by (simp add: M)
    qed (use b k u in simp_all)
    moreover have "0x9C - (shiftDist + 7) = 0x9C + int k" using k(1) by simp
    ultimately show ?thesis using True k(1) by (simp only: if_True)
  next
    case False
    define k where "k = c - 33"
    have k: "shiftDist + 7 = int k" "33 \<le> c" "k < 7" using False that c(1) by (simp_all add: sd k_def)
    have b: "2 ^ 30 \<le> M * 2 ^ k" "M * 2 ^ k < 2 ^ 31" using lo [of 33] hi [of 33] k by (simp_all add: k_def)
    then have u: "unat (push_bit k m) = M * 2 ^ k" unfolding M by (intro unat_push_bit_nowrap) simp
    have "f32_rounded sign (real (unat m)) s (softfloat_roundPackToF32 sign (0x9C - int k) (push_bit k m) s)"
    proof (rule roundPackToF32_rounded)
      show "same_cell 6 (real (M * 2 ^ k)) (unat (push_bit k m))" unfolding u by (rule same_cell_refl)
      show "real (unat m) = real (M * 2 ^ k) * 2 powi (0x9C - int k - 156)" by (simp add: M power_int_minus)
    qed (use b k u in simp_all)
    then show ?thesis using False unfolding k(1) nat_int by (simp only: if_False)
  qed
qed


lemma i64_to_f32_rounded: "f32_rounded (sint a < 0) \<bar>real_of_int (sint a)\<bar> s (i64_to_f32 a s)"
proof (cases "a = 0")
  case True
  have "f32_rounded False 0 s (ucast (packToF32UI False 0 0), s)"
    by (rule f32_pack_exact) simp_all
  with True show ?thesis by (simp add: i64_to_f32_def packToF32UI_def countLeadingZeros_0)
next
  case False
  define m where "m = (if sint a < 0 then - a else a)"
  have m: "m \<noteq> 0" using False by (simp add: m_def)
  have u: "real (unat m) = \<bar>real_of_int (sint a)\<bar>"
    unfolding m_def abs_word64(1) by simp
  have "i64_to_f32 a s = (let shiftDist = uint (softfloat_countLeadingZeros64 m) - 40
      in if 0 \<le> shiftDist then
           (ucast (packToF32UI (sint a < 0) (0x95 - shiftDist) (push_bit (nat shiftDist) m)), s)
         else softfloat_roundPackToF32 (sint a < 0) (0x9C - (shiftDist + 7))
                (if shiftDist + 7 < 0 then softfloat_shortShiftRightJam64 m (word_of_int (- (shiftDist + 7)))
                      else push_bit (nat (shiftDist + 7)) m) s)"
    unfolding i64_to_f32_def Let_def m_def using False by (simp only: simp_thms if_True)
  then show ?thesis
    using u64_to_f32_rounded [OF m refl, of "sint a < 0" s] unfolding u Let_def
    by (cases "0 \<le> uint (softfloat_countLeadingZeros64 m) - 40") (simp_all only: if_True if_False not_le)
qed

lemma ui64_to_f32_rounded: "f32_rounded False (real (unat a)) s (ui64_to_f32 a s)"
proof (cases "a = 0")
  case True
  have "f32_rounded False 0 s (ucast (packToF32UI False 0 0), s)"
    by (rule f32_pack_exact) simp_all
  with True show ?thesis by (simp add: ui64_to_f32_def packToF32UI_def countLeadingZeros_0)
next
  case False
  then have "ui64_to_f32 a s = (let shiftDist = uint (softfloat_countLeadingZeros64 a) - 40
      in if 0 \<le> shiftDist then
           (ucast (packToF32UI False (0x95 - shiftDist) (push_bit (nat shiftDist) a)), s)
         else softfloat_roundPackToF32 False (0x9C - (shiftDist + 7))
                (if shiftDist + 7 < 0 then softfloat_shortShiftRightJam64 a (word_of_int (- (shiftDist + 7)))
                      else push_bit (nat (shiftDist + 7)) a) s)"
    unfolding ui64_to_f32_def Let_def by (simp only: simp_thms if_True)
  then show ?thesis
    using u64_to_f32_rounded [OF False refl, of False s] unfolding Let_def
    by (cases "0 \<le> uint (softfloat_countLeadingZeros64 a) - 40") (simp_all only: if_True if_False not_le)
qed

lemma i32_to_f32_rounded: "f32_rounded (sint a < 0) \<bar>real_of_int (sint a)\<bar> s (i32_to_f32 a s)"
proof (cases "a AND 0x7FFFFFFF = 0")
  case True
  then consider "unat a = 0" | "unat a = 2 ^ 31" using low_bits_zero [of "0x7FFFFFFF :: uint32_t" a] by auto
  then show ?thesis
  proof cases
    case 1
    then have a: "a = 0" by (simp add: unat_eq_zero)
    have "f32_rounded False 0 s (ucast (packToF32UI False 0 0), s)"
      by (rule f32_pack_exact) simp_all
    with a show ?thesis by (simp add: i32_to_f32_def packToF32UI_def)
  next
    case 2
    then have a: "sint a = - (2 ^ 31)" using sint_unat [of a] by simp
    have "f32_rounded True (2 ^ 31) s (ucast (packToF32UI True 0x9D 0x800000), s)"
      by (rule f32_pack_exact) simp_all
    moreover have "packToF32UI True 0x9D 0x800000 = packToF32UI True 0x9E 0" by code_simp
    ultimately show ?thesis using a True by (simp add: i32_to_f32_def Let_def)
  qed
next
  case False
  define m where "m = (if sint a < 0 then - scast a else scast a :: uint64_t)"
  have u: "unat m = nat \<bar>sint a\<bar>" "nat \<bar>sint a\<bar> \<le> 2 ^ 31"
    unfolding m_def using abs_word [of a] by simp_all
  have ne: "unat a \<noteq> 0" "unat a \<noteq> 2 ^ 31" using False low_bits_zero [of "0x7FFFFFFF :: uint32_t" a] by auto
  have "i32_to_f32 a s = softfloat_normRoundPackToF32 (sint a < 0) 0x9C m s"
    using False by (simp add: i32_to_f32_def Let_def m_def)
  moreover have "f32_rounded (sint a < 0) (real (unat m)) s (softfloat_normRoundPackToF32 (sint a < 0) 0x9C m s)"
  proof (rule normRoundPackToF32_rounded)
    have "sint a \<noteq> 0" using ne(1) by (auto simp: signed_eq_0_iff)
    then show "m \<noteq> 0" using u(1) by (metis abs_eq_0_iff abs_ge_zero nat_0_iff order_antisym unat_0)
    have "nat \<bar>sint a\<bar> \<noteq> 2 ^ 31" using ne(2) abs_sint_min [of a] by auto
    then show "unat m < 2 ^ 31" using u by linarith
  qed simp_all
  ultimately show ?thesis using u(1) by simp
qed


lemma ui32_to_f32_rounded: "f32_rounded False (real (unat a)) s (ui32_to_f32 a s)"
proof -
  have u: "unat (ucast a :: uint64_t) = unat a" by (rule unat_ucast_up) simp
  have top: "a AND 0x80000000 \<noteq> 0 \<longleftrightarrow> 2 ^ 31 \<le> unat a" using top_bit_set [of "0x80000000 :: uint32_t" a] by simp
  consider "a = 0" | "2 ^ 31 \<le> unat a" | "a \<noteq> 0" "unat a < 2 ^ 31" by linarith
  then show ?thesis
  proof cases
    case 1
    have "f32_rounded False 0 s (ucast (packToF32UI False 0 0), s)"
      by (rule f32_pack_exact) simp_all
    with 1 show ?thesis by (simp add: ui32_to_f32_def packToF32UI_def)
  next
    case 2
    then have "a \<noteq> 0" by auto
    define w where "w = drop_bit 1 a OR (a AND 1)"
    have "a AND 1 = of_bool (unat a mod 2 ^ 1 \<noteq> 0)"
      unfolding word_unat_eq_iff using unat_and_mask [of "1 :: uint32_t" 1 a] by (simp only: unat_of_bool) simp
    then have w: "unat w = jam 1 (unat a)" unfolding w_def using jam_word [of 1 a] by simp
    have uw: "unat (ucast w :: uint64_t) = jam 1 (unat a)" unfolding w [symmetric] by (rule unat_ucast_up) simp
    have "f32_rounded False (real (unat a)) s (softfloat_roundPackToF32 False 0x9D (ucast w) s)"
    proof (rule roundPackToF32_rounded)
      show "same_cell 6 (real (unat a) / 2 ^ 1) (unat (ucast w :: uint64_t))"
        unfolding uw by (rule same_cell_mono [OF jam_cell]) simp
      show "2 ^ 30 \<le> unat (ucast w :: uint64_t)" "unat (ucast w :: uint64_t) < 2 ^ 31"
        unfolding uw using jam_even_less [of "2 ^ 30" 1 "unat a"] jam_even_less [of "2 ^ 31" 1 "unat a"] 2 unat_less_pow2 [of a] by auto
    qed simp_all
    then show ?thesis using 2 \<open>a \<noteq> 0\<close> by (simp add: ui32_to_f32_def top w_def del: unat_eq_zero)
  next
    case 3
    have "f32_rounded False (real (unat (ucast a :: uint64_t))) s (softfloat_normRoundPackToF32 False 0x9C (ucast a) s)"
    proof (rule normRoundPackToF32_rounded)
      show "(ucast a :: uint64_t) \<noteq> 0" using 3(1) u by (metis unat_eq_zero)
    qed (use 3 u in simp_all)
    then show ?thesis unfolding u using 3 top by (simp add: ui32_to_f32_def)
  qed
qed

lemma f64_pack_int:
  fixes sig :: uint64_t
  assumes sig: "unat sig * 2 ^ d < 2 ^ 53" "2 ^ 52 \<le> unat sig * 2 ^ d" and d: "d \<le> 52"
    and z: "z = packToF64UI sign (0x432 - int d) (push_bit d sig)"
  shows "signF64UI z = sign" "f64_abs z = real (unat sig)" "f64_finite z"
proof -
  obtain M where M: "M = unat sig" by simp
  note b = sig [folded M]
  have u: "unat (push_bit d sig) = M * 2 ^ d" using b(1) unfolding M by (intro unat_push_bit_nowrap) simp
  define n where "n = nat (0x432 - int d) * 2 ^ 52 + M * 2 ^ d"
  have e: "nat (0x432 - int d) \<le> 1074" by simp
  have n: "n < 2047 * 2 ^ 52"
  proof -
    have "nat (0x432 - int d) * 2 ^ 52 \<le> 1074 * 2 ^ 52" using e by (rule mult_right_mono) simp
    moreover obtain E where "E = nat (0x432 - int d) * 2 ^ 52" by simp
    ultimately show ?thesis using b(1) unfolding n_def by simp
  qed
  have uz: "unat z = of_bool sign * 2 ^ 63 + n"
    unfolding z n_def u [symmetric] using n d by (intro packToF64UI_mag) (simp_all add: n_def u)
  have mag: "f64_mag z = n" unfolding f64_mag_def uz using n by simp
  show "f64_finite z" using n by (simp add: f64_finite_def mag)
  show "signF64UI z = sign" unfolding f64_fields uz using n by (cases sign) simp_all
  have "f64_abs z = real (M * 2 ^ d) * 2 powi (- 1074 + int (nat (0x432 - int d)))"
    unfolding f64_abs_def mag n_def using b by (intro mag_val_scaled) simp_all
  also have "- 1074 + int (nat (0x432 - int d)) = - int d" using d by simp
  finally show "f64_abs z = real (unat sig)" by (simp add: M power_int_minus)
qed

lemma clz32_shift:
  fixes m :: uint32_t
  assumes "m \<noteq> 0"
  obtains c where "uint (softfloat_countLeadingZeros32 m) = int c" "c < 32" "2 ^ 31 \<le> unat m * 2 ^ c" "unat m * 2 ^ c < 2 ^ 32"
proof
  show "uint (softfloat_countLeadingZeros32 m) = int (unat (softfloat_countLeadingZeros32 m))" by (rule uint_nat)
  show "unat (softfloat_countLeadingZeros32 m) < 32"
    "2 ^ 31 \<le> unat m * 2 ^ unat (softfloat_countLeadingZeros32 m)"
    "unat m * 2 ^ unat (softfloat_countLeadingZeros32 m) < 2 ^ 32"
    using countLeadingZeros32_is_clz [OF assms] by (simp_all add: is_clz_def)
qed

lemma u32_to_f64_exact:
  fixes m :: uint32_t and w :: uint64_t
  assumes m: "m \<noteq> 0" and w: "unat w = unat m"
    and sd: "shiftDist = uint (softfloat_countLeadingZeros32 m) + 21"
    and z: "z = packToF64UI sign (0x432 - shiftDist) (push_bit (nat shiftDist) w)"
  shows "signF64UI z = sign" "f64_abs z = real (unat m)" "f64_finite z"
proof -
  obtain c where c: "uint (softfloat_countLeadingZeros32 m) = int c" "c < 32" "2 ^ 31 \<le> unat m * 2 ^ c" "unat m * 2 ^ c < 2 ^ 32"
    using clz32_shift [OF m] .
  have "unat w * 2 ^ (c + 21) < 2 ^ 53" "2 ^ 52 \<le> unat w * 2 ^ (c + 21)"
    using c(3,4) unfolding w by (simp_all add: power_add)
  moreover have "z = packToF64UI sign (0x432 - int (c + 21)) (push_bit (c + 21) w)"
    unfolding z sd c(1) by (simp add: nat_add_distrib)
  ultimately show "signF64UI z = sign" "f64_abs z = real (unat m)" "f64_finite z"
    using f64_pack_int [of w "c + 21" z sign] c(2) w by simp_all
qed

lemma f64_zero: "f64_val 0 = 0" "f64_finite 0"
  by (simp_all add: f64_val_def f64_abs_def f64_mag_def f64_finite_def)

lemma ui32_to_f64_exact: "f64_finite (ui32_to_f64 a) \<and> f64_val (ui32_to_f64 a) = real (unat a)"
proof (cases "a = 0")
  case False
  have u: "unat (ucast a :: uint64_t) = unat a" by (rule unat_ucast_up) simp
  from u32_to_f64_exact [OF False u refl refl, of False] False show ?thesis
    by (simp add: ui32_to_f64_def f64_val_def)
qed (simp add: ui32_to_f64_def f64_zero)

lemma i32_to_f64_exact: "f64_finite (i32_to_f64 a) \<and> f64_val (i32_to_f64 a) = real_of_int (sint a)"
proof (cases "a = 0")
  case False
  define m where "m = (if sint a < 0 then - scast a else scast a :: uint64_t)"
  have u: "unat m = nat \<bar>sint a\<bar>" "nat \<bar>sint a\<bar> \<le> 2 ^ 31"
    unfolding m_def using abs_word [of a] by simp_all
  then have w: "unat (ucast m :: uint32_t) = unat m" by (simp add: unat_ucast_mod)
  have "sint a \<noteq> 0" using False by (simp add: signed_eq_0_iff)
  then have "unat m \<noteq> 0" using u(1) by simp
  then have nz: "(ucast m :: uint32_t) \<noteq> 0" using w by (metis unat_0)
  from u32_to_f64_exact [OF nz w [symmetric] refl refl, of "sint a < 0"] False w u(1) show ?thesis
    unfolding i32_to_f64_def Let_def m_def [symmetric] f64_val_def using real_abs_sint [of a]
    by (cases "sint a < 0") (simp_all only: simp_thms if_True if_False, linarith+)
qed (simp add: i32_to_f64_def f64_zero)


lemma f64_pack_zero_rounded: "f64_rounded False 0 s (0, s)"
proof -
  have "f64_rounded False 0 s (packToF64UI False 0 0, s)" by (rule f64_pack_exact) simp_all
  then show ?thesis by (simp add: packToF64UI_def)
qed

lemma i64_to_f64_rounded: "f64_rounded (sint a < 0) \<bar>real_of_int (sint a)\<bar> s (i64_to_f64 a s)"
proof (cases "a AND 0x7FFFFFFFFFFFFFFF = 0")
  case True
  then consider "unat a = 0" | "unat a = 2 ^ 63" using low_bits_zero [of "0x7FFFFFFFFFFFFFFF :: uint64_t" a] by auto
  then show ?thesis
  proof cases
    case 1
    then have a: "a = 0" by (simp add: unat_eq_zero)
    then show ?thesis using f64_pack_zero_rounded by (simp add: i64_to_f64_def)
  next
    case 2
    then have a: "sint a = - (2 ^ 63)" using sint_unat [of a] by simp
    have "f64_rounded True (2 ^ 63) s (packToF64UI True 0x43D 0x10000000000000, s)"
      by (rule f64_pack_exact) simp_all
    moreover have "packToF64UI True 0x43D 0x10000000000000 = packToF64UI True 0x43E 0" by code_simp
    ultimately show ?thesis using a True by (simp add: i64_to_f64_def Let_def)
  qed
next
  case False
  define m where "m = (if sint a < 0 then - a else a)"
  have u: "unat m = nat \<bar>sint a\<bar>" "nat \<bar>sint a\<bar> \<le> 2 ^ 63"
    unfolding m_def using abs_word64 [of a] by simp_all
  have ne: "unat a \<noteq> 0" "unat a \<noteq> 2 ^ 63" using False low_bits_zero [of "0x7FFFFFFFFFFFFFFF :: uint64_t" a] by auto
  have "i64_to_f64 a s = softfloat_normRoundPackToF64 (sint a < 0) 0x43C m s"
    using False by (simp add: i64_to_f64_def Let_def m_def)
  moreover have "f64_rounded (sint a < 0) (real (unat m)) s (softfloat_normRoundPackToF64 (sint a < 0) 0x43C m s)"
  proof (rule normRoundPackToF64_rounded)
    have "sint a \<noteq> 0" using ne(1) by (auto simp: signed_eq_0_iff)
    then show "m \<noteq> 0" using u(1) by (metis abs_eq_0_iff abs_ge_zero nat_0_iff order_antisym unat_0)
    have "nat \<bar>sint a\<bar> \<noteq> 2 ^ 63" using ne(2) abs_sint_min [of a] by auto
    then show "unat m < 2 ^ 63" using u by linarith
  qed simp_all
  ultimately show ?thesis using u(1) by simp
qed

lemma ui64_to_f64_rounded: "f64_rounded False (real (unat a)) s (ui64_to_f64 a s)"
proof -
  have top: "a AND 0x8000000000000000 \<noteq> 0 \<longleftrightarrow> 2 ^ 63 \<le> unat a" using top_bit_set [of "0x8000000000000000 :: uint64_t" a] by simp
  consider "a = 0" | "2 ^ 63 \<le> unat a" | "a \<noteq> 0" "unat a < 2 ^ 63" by linarith
  then show ?thesis
  proof cases
    case 1
    then show ?thesis using f64_pack_zero_rounded by (simp add: ui64_to_f64_def)
  next
    case 2
    then have "a \<noteq> 0" by auto
    have w: "unat (softfloat_shortShiftRightJam64 a 1) = jam 1 (unat a)" by (simp add: shortShiftRightJam64_jam)
    have "f64_rounded False (real (unat a)) s (softfloat_roundPackToF64 False 0x43D (softfloat_shortShiftRightJam64 a 1) s)"
    proof (rule roundPackToF64_rounded)
      show "same_cell 9 (real (unat a) / 2 ^ 1) (unat (softfloat_shortShiftRightJam64 a 1))"
        unfolding w by (rule same_cell_mono [OF jam_cell]) simp
      show "2 ^ 62 \<le> unat (softfloat_shortShiftRightJam64 a 1)" "unat (softfloat_shortShiftRightJam64 a 1) < 2 ^ 63"
        unfolding w using jam_even_less [of "2 ^ 62" 1 "unat a"] jam_even_less [of "2 ^ 63" 1 "unat a"] 2 unat_less_pow2 [of a] by auto
    qed simp_all
    then show ?thesis using 2 \<open>a \<noteq> 0\<close> by (simp add: ui64_to_f64_def top del: unat_eq_zero)
  next
    case 3
    have "f64_rounded False (real (unat a)) s (softfloat_normRoundPackToF64 False 0x43C a s)"
      by (rule normRoundPackToF64_rounded) (use 3 in simp_all)
    then show ?thesis using 3 top by (simp add: ui64_to_f64_def)
  qed
qed

section \<open>Correctness of the format conversions\<close>

text \<open>All positive reals below a quarter of the smallest subnormal round alike.\<close>

lemma rounds_tiny:
  assumes p: "0 < p" and x: "0 < x" "x < 2 powi (q - 1)"
  shows "rounds p q mode sign x n \<longleftrightarrow>
    n = (if mode = softfloat_round_odd \<or>
            (mode \<noteq> softfloat_round_near_even \<and> mode \<noteq> softfloat_round_near_maxMag \<and>
             mode = (if sign then softfloat_round_min else softfloat_round_max)) then 1 else 0)"
    (is "_ \<longleftrightarrow> n = ?N")
proof -
  have v1: "mag_val p q (Suc 0) = 2 powi q" using p one_less_power [of "2::nat" p] by (simp add: mag_val_def)
  have q: "(2::real) powi q = 2 * 2 powi (q - 1)" by (simp add: power_int_diff)
  have lt: "2 * x < 2 powi q" using x(2) unfolding q by simp
  define N where "N = ?N"
  have N: "N = 0 \<or> N = 1" by (simp add: N_def)
  have up: "round_up mode sign 0 0 (2 powi q) x \<longleftrightarrow> N = 1"
    unfolding round_up_def N_def using x(1) lt by (auto simp: round_mode_defs)
  have "rounds p q mode sign x N"
    unfolding rounds_def
  proof (intro exI [of _ 0] conjI)
    show "mag_val p q 0 \<le> x" using x(1) by simp
    show "x < mag_val p q (Suc 0)" using lt x(1) unfolding v1 by linarith
    show "N = (if round_up mode sign 0 (mag_val p q 0) (mag_val p q (Suc 0)) x then Suc 0 else 0)"
      unfolding v1 mag_val_0 up using N by auto
  qed
  then show ?thesis unfolding N_def [symmetric] by (metis rounds_unique)
qed

lemma fp_rounded_tiny_cong:
  assumes p: "0 < p" and x: "0 < x" "x < 2 powi (q - 2)" and y: "0 < y" "y < 2 powi (q - 2)"
    and r: "fp_rounded p q infEnc sign y s r"
  shows "fp_rounded p q infEnc sign x s r"
proof -
  have lt: "z < 2 powi (q - 1)" "z < 2 powi (q - 1 - 1)" "z < 2 powi (q + int p)" "z < 2 powi q"
    if "z < 2 powi (q - 2)" for z :: real
    using that power_int_increasing [of "q - 2" "q - 1" "2::real"] power_int_increasing [of "q - 2" "q + int p" "2::real"]
      power_int_increasing [of "q - 2" q "2::real"] by simp_all
  have R: "rounds p q mode sign x n \<longleftrightarrow> rounds p q mode sign y n"
    "rounds p (q - 1) mode sign x n \<longleftrightarrow> rounds p (q - 1) mode sign y n" for mode n
    using rounds_tiny [OF p] x y lt by simp_all
  have t: "tiny p q sign x s \<longleftrightarrow> tiny p q sign y s"
    using lt [OF x(2)] lt [OF y(2)] unfolding tiny_def R by simp
  have ne: "mag_val p q n \<noteq> z" if "0 < z" "z < 2 powi (q - 2)" for n z
  proof (cases "n = 0")
    case False
    then have "mag_val p q 1 \<le> mag_val p q n" by simp
    moreover have "mag_val p q 1 = 2 powi q" using p one_less_power [of "2::nat" p] by (simp add: mag_val_def)
    ultimately show ?thesis using lt(4) [OF that(2)] by linarith
  qed (use that in simp)
  have "(mag_val p q n \<noteq> x) = True" "(mag_val p q n \<noteq> y) = True" for n using ne x y by blast+
  then show ?thesis using r unfolding fp_rounded_def R t by (simp only:)
qed

lemma f64_pack_mag:
  assumes "0 \<le> expn" "n = nat expn * 2 ^ 52 + unat sig" "n < 2047 * 2 ^ 52" and z: "z = packToF64UI sign expn sig"
  shows "signF64UI z = sign" "f64_mag z = n" "f64_finite z" "f64_abs z = mag_val 52 (- 1074) n"
proof -
  have uz: "unat z = of_bool sign * 2 ^ 63 + n"
    unfolding z assms(2) using assms(1-3) by (intro packToF64UI_mag) simp_all
  show "f64_mag z = n" unfolding f64_mag_def uz using assms(3) by simp
  then show "f64_finite z" "f64_abs z = mag_val 52 (- 1074) n" using assms(3) by (simp_all add: f64_finite_def f64_abs_def)
  show "signF64UI z = sign" unfolding f64_fields uz using assms(3) by (cases sign) simp_all
qed

text \<open>Values of the widened encodings.\<close>

lemma widen_normal:
  assumes e: "1 \<le> e" "e \<le> 254" and F: "F < 2 ^ 23"
  shows "(e + 896) * 2 ^ 52 + F * 2 ^ 29 < 2047 * 2 ^ 52"
    and "mag_val 52 (- 1074) ((e + 896) * 2 ^ 52 + F * 2 ^ 29) = real (2 ^ 23 + F) * 2 powi (int e - 150)"
proof -
  have "(e + 896) * 2 ^ 52 \<le> 1150 * 2 ^ 52" using e(2) by (intro mult_right_mono) simp_all
  then show "(e + 896) * 2 ^ 52 + F * 2 ^ 29 < 2047 * 2 ^ 52" using F by simp
  have n: "(e + 896) * 2 ^ 52 + F * 2 ^ 29 = (e + 895) * 2 ^ 52 + (2 ^ 52 + F * 2 ^ 29)" by simp
  have "mag_val 52 (- 1074) ((e + 896) * 2 ^ 52 + F * 2 ^ 29) = real (2 ^ 52 + F * 2 ^ 29) * 2 powi (- 1074 + int (e + 895))"
    unfolding n using F by (intro mag_val_scaled) simp_all
  moreover have "real (2 ^ 52 + F * 2 ^ 29) = real (2 ^ 23 + F) * 2 ^ 29" by simp
  moreover have "2 ^ 29 * (2::real) powi (- 1074 + int (e + 895)) = 2 powi (int e - 150)"
    using power_int_add [of "2::real" 29 "int e - 179"] by (simp add: algebra_simps)
  ultimately show "mag_val 52 (- 1074) ((e + 896) * 2 ^ 52 + F * 2 ^ 29) = real (2 ^ 23 + F) * 2 powi (int e - 150)"
    by (simp only: mult.assoc)
qed

lemma widen_subnormal:
  assumes F: "2 ^ 23 \<le> F * 2 ^ d" "F * 2 ^ d < 2 ^ 24" and d: "d < 24"
  shows "(896 - d) * 2 ^ 52 + F * 2 ^ d * 2 ^ 29 < 2047 * 2 ^ 52"
    and "mag_val 52 (- 1074) ((896 - d) * 2 ^ 52 + F * 2 ^ d * 2 ^ 29) = real F * 2 powi (- 149)"
proof -
  obtain D where D: "D = 896 - d" "D \<le> 896" by simp
  then show "(896 - d) * 2 ^ 52 + F * 2 ^ d * 2 ^ 29 < 2047 * 2 ^ 52" using F(2) unfolding D(1) [symmetric] by simp
  have "mag_val 52 (- 1074) ((896 - d) * 2 ^ 52 + F * 2 ^ d * 2 ^ 29) = real (F * 2 ^ d * 2 ^ 29) * 2 powi (- 1074 + int (896 - d))"
    using F by (intro mag_val_scaled) simp_all
  also have "- 1074 + int (896 - d) = - 178 - int d" using d by simp
  also have "real (F * 2 ^ d * 2 ^ 29) * 2 powi (- 178 - int d) = real F * (2 ^ 29 * 2 powi (- 178))"
    by (simp add: power_int_diff)
  also have "2 ^ 29 * 2 powi (- 178) = (2::real) powi (- 149)" using power_int_add [of "2::real" 29 "-178"] by simp
  finally show "mag_val 52 (- 1074) ((896 - d) * 2 ^ 52 + F * 2 ^ d * 2 ^ 29) = real F * 2 powi (- 149)" .
qed

lemma f32_to_f64_finite:
  assumes "f32_finite a"
  shows "snd (f32_to_f64 a s) = s" "f64_finite (fst (f32_to_f64 a s))"
    "signF64UI (fst (f32_to_f64 a s)) = signF32UI (ucast a)" "f64_abs (fst (f32_to_f64 a s)) = f32_abs a"
proof -
  define E where "E = expF32UI (ucast a)"
  define F where "F = unat (fracF32UI (ucast a))"
  define sign where "sign = signF32UI (ucast a)"
  have E: "0 \<le> E" "E \<le> 254" using f32_asig(5,6) [OF assms] by (simp_all add: E_def)
  have F: "F < 2 ^ 23" using f32_asig(4) [OF assms] by (simp add: F_def)
  have x: "f32_abs a = (if E = 0 then real F * 2 powi (- 149) else real (2 ^ 23 + F) * 2 powi (E - 150))"
    using f32_asig(1,3) [OF assms] power_int_add [of "2::real" "- 150" 1] unfolding E_def F_def by simp
  have "snd (f32_to_f64 a s) = s \<and> f64_finite (fst (f32_to_f64 a s)) \<and>
    signF64UI (fst (f32_to_f64 a s)) = sign \<and> f64_abs (fst (f32_to_f64 a s)) = f32_abs a"
  proof -
    consider "E = 0" "F = 0" | "E = 0" "F \<noteq> 0" | "E \<noteq> 0" by blast
    then show ?thesis
    proof cases
      case 1
      then have "fracF32UI (ucast a) = 0" by (simp add: F_def unat_eq_zero)
      then have "f32_to_f64 a s = (packToF64UI sign 0 0, s)"
        using 1 unfolding f32_to_f64_def Let_def E_def sign_def by simp
      then show ?thesis using f64_pack_mag [of 0 0 0 "packToF64UI sign 0 0" sign] 1 by (simp add: x)
    next
      case 2
      define g where "g = fracF32UI (ucast a)"
      have ug: "unat (ucast g :: uint32_t) = F" using F by (simp add: unat_ucast_mod g_def F_def)
      then have "(ucast g :: uint32_t) \<noteq> 0" using 2 by (metis unat_0)
      from clz32_shift [OF this] obtain c where c: "uint (softfloat_countLeadingZeros32 (ucast g)) = int c" "c < 32"
        "2 ^ 31 \<le> F * 2 ^ c" "F * 2 ^ c < 2 ^ 32" unfolding ug .
      have "8 < c"
      proof (rule ccontr)
        assume "\<not> 8 < c"
        then have "F * 2 ^ c \<le> F * 2 ^ 8" by (intro mult_left_mono power_increasing) simp_all
        moreover have "F * 2 ^ 8 < 2 ^ 31" using F by simp
        ultimately show False using c(3) by linarith
      qed
      then obtain d where d: "c = d + 8" by (metis add.commute less_imp_add_positive)
      have dd: "2 ^ 23 \<le> F * 2 ^ d" "F * 2 ^ d < 2 ^ 24" "d < 24" using c by (simp_all add: d power_add)
      have u: "unat (push_bit d g) = F * 2 ^ d" using dd(2) unfolding F_def g_def by (intro unat_push_bit_nowrap) simp
      have u29: "unat (push_bit 29 (push_bit d g)) = F * 2 ^ d * 2 ^ 29"
        unfolding u [symmetric] using dd(2) by (intro unat_push_bit_nowrap) (simp add: u)
      have ns: "softfloat_normSubnormalF32Sig g = \<lparr>exp16_sig32_exp = 1 - int d, exp16_sig32_sig = push_bit d g\<rparr>"
        unfolding softfloat_normSubnormalF32Sig_def Let_def c(1) by (simp add: d)
      have eq: "f32_to_f64 a s = (packToF64UI sign (896 - int d) (push_bit 29 (push_bit d g)), s)"
        using 2 ns unfolding f32_to_f64_def Let_def sign_def g_def E_def F_def by (simp add: unat_eq_zero)
      have "nat (896 - int d) * 2 ^ 52 + unat (push_bit 29 (push_bit d g)) = (896 - d) * 2 ^ 52 + F * 2 ^ d * 2 ^ 29"
        unfolding u29 by (simp add: nat_diff_distrib')
      with f64_pack_mag [OF _ refl _ refl, of "896 - int d" "push_bit 29 (push_bit d g)" sign] dd widen_subnormal [OF dd] 2
      show ?thesis by (simp add: eq x)
    next
      case 3
      have u: "unat (push_bit 29 (fracF32UI (ucast a))) = F * 2 ^ 29"
        using F unfolding F_def by (intro unat_push_bit_nowrap) simp
      have eq: "f32_to_f64 a s = (packToF64UI sign (E + 896) (push_bit 29 (fracF32UI (ucast a))), s)"
      proof -
        have "(expF32UI (ucast a) = 0xFF) = False" "(expF32UI (ucast a) = 0) = False" using 3 E by (simp_all add: E_def)
        then show ?thesis unfolding f32_to_f64_def Let_def sign_def E_def by (simp only: if_False simp_thms prod.case)
      qed
      obtain e where e: "E = int e" "1 \<le> e" "e \<le> 254" using that [of "nat E"] E 3 by simp
      have "nat (E + 896) * 2 ^ 52 + unat (push_bit 29 (fracF32UI (ucast a))) = (e + 896) * 2 ^ 52 + F * 2 ^ 29"
        unfolding u e(1) by (simp add: nat_add_distrib)
      with f64_pack_mag [OF _ refl _ refl, of "E + 896" "push_bit 29 (fracF32UI (ucast a))" sign] E widen_normal [OF e(2,3) F] 3 e(1)
      show ?thesis by (simp add: eq x)
    qed
  qed
  then show "snd (f32_to_f64 a s) = s" "f64_finite (fst (f32_to_f64 a s))"
    "signF64UI (fst (f32_to_f64 a s)) = signF32UI (ucast a)" "f64_abs (fst (f32_to_f64 a s)) = f32_abs a"
    by (simp_all add: sign_def)
qed


lemma f64_to_f32_finite:
  assumes "f64_finite a"
  shows "f32_rounded (signF64UI a) (f64_abs a) s (f64_to_f32 a s)"
proof -
  define E where "E = expF64UI a"
  define F where "F = unat (fracF64UI a)"
  define sign where "sign = signF64UI a"
  have E: "0 \<le> E" "E \<le> 2046" using f64_asig(5,6) [OF assms] by (simp_all add: E_def)
  have F: "F < 2 ^ 52" using f64_asig(4) [OF assms] by (simp add: F_def)
  have x: "f64_abs a = (if E = 0 then real F * 2 powi (- 1074) else real (2 ^ 52 + F) * 2 powi (E - 1075))"
    using f64_asig(1,3) [OF assms] power_int_add [of "2::real" "- 1075" 1] unfolding E_def F_def by simp
  define w where "w = softfloat_shortShiftRightJam64 (fracF64UI a) 22"
  have w: "unat w = jam 22 F" by (simp add: w_def shortShiftRightJam64_jam F_def)
  have wb: "jam 22 F < 2 ^ 30" using F by (subst jam_even_less) simp_all
  have ww: "unat (w OR 0x40000000) = jam 22 F + 2 ^ 30"
    using nat_or_hidden [OF wb] by (simp add: unat_or_distrib w)
  have j0: "jam 22 F = 0 \<longleftrightarrow> F = 0" using jam_even_eq [of 0 22 F] by simp
  have z: "word_of_int E OR w = 0 \<longleftrightarrow> E = 0 \<and> F = 0"
  proof -
    have "(word_of_int E :: uint64_t) = 0 \<longleftrightarrow> E = 0" using E sign_bit_word_of_int(2) [of E] by simp
    moreover have "w = 0 \<longleftrightarrow> F = 0" using w j0 by (metis unat_eq_zero)
    ultimately show ?thesis by (simp add: or_eq_0_iff)
  qed
  have eq: "f64_to_f32 a s = (if E = 0 \<and> F = 0 then (ucast (packToF32UI sign 0 0), s)
      else softfloat_roundPackToF32 sign (E - 0x381) (w OR 0x40000000) s)"
    using E z unfolding f64_to_f32_def Let_def w_def [symmetric] E_def [symmetric] sign_def [symmetric] by simp
  define y where "y = real (2 ^ 52 + F) / 2 ^ 22"
  have cell: "same_cell 6 y (jam 22 F + 2 ^ 30)"
  proof -
    have "same_cell 6 (real F / 2 ^ 22) (jam 22 F)" by (rule same_cell_mono [OF jam_cell]) simp
    from same_cell_add [OF this, of "2 ^ 30"] show ?thesis by (simp add: y_def field_simps)
  qed
  have R: "f32_rounded sign (y * 2 powi (E - 1053)) s (softfloat_roundPackToF32 sign (E - 0x381) (w OR 0x40000000) s)"
    by (rule roundPackToF32_rounded [where y = y]) (use cell wb E in \<open>simp_all add: ww\<close>)
  consider "E = 0" "F = 0" | "E = 0" "F \<noteq> 0" | "E \<noteq> 0" by blast
  then show ?thesis
  proof cases
    case 1
    have "f32_rounded sign 0 s (ucast (packToF32UI sign 0 0), s)" by (rule f32_pack_exact) simp_all
    with 1 show ?thesis by (simp add: eq x sign_def)
  next
    case 2
    have "f32_rounded sign (real F * 2 powi (- 1074)) s (softfloat_roundPackToF32 sign (E - 0x381) (w OR 0x40000000) s)"
    proof (rule fp_rounded_tiny_cong [OF _ _ _ _ _ R])
      have "real F < 2 ^ 52" using F by simp
      then have "real F * 2 powi (- 1074) < 2 ^ 52 * 2 powi (- 1074)" by (intro mult_strict_right_mono) simp_all
      also have "\<dots> = 2 powi (- 1022)" using power_int_add [of "2::real" 52 "- 1074"] by simp
      also have "\<dots> \<le> 2 powi (- 149 - 2)" by (intro power_int_increasing) simp_all
      finally show "real F * 2 powi (- 1074) < 2 powi (- 149 - 2)" .
      have "y < 2 ^ 31" using F by (simp add: y_def)
      then have "y * 2 powi (E - 1053) < 2 ^ 31 * 2 powi (E - 1053)" by (intro mult_strict_right_mono) simp_all
      also have "\<dots> = 2 powi (- 1022)" using power_int_add [of "2::real" 31 "- 1053"] 2 by simp
      also have "\<dots> \<le> 2 powi (- 149 - 2)" by (intro power_int_increasing) simp_all
      finally show "y * 2 powi (E - 1053) < 2 powi (- 149 - 2)" .
      show "0 < y * 2 powi (E - 1053)" "0 < real F * 2 powi (- 1074)" using 2 by (simp_all add: y_def)
    qed simp
    with 2 show ?thesis by (simp add: eq x sign_def)
  next
    case 3
    have "y * 2 powi (E - 1053) = f64_abs a"
      using 3 power_int_add [of "2::real" "E - 1075" 22] by (simp add: x y_def)
    with R 3 show ?thesis by (simp add: eq sign_def)
  qed
qed

lemma f32UIToCommonNaN_flags:
  assumes "f32_nan a"
  shows "softfloat_f32UIToCommonNaN (ucast a) s = (if f32_snan a then softfloat_raiseFlags softfloat_flag_invalid s else s)"
proof -
  have u: "unat (ucast a :: uint64_t) = unat a" by (rule unat_ucast_up) simp
  have "unat ((ucast a :: uint64_t) AND 0x00400000) = (unat a div 2 ^ 22 mod 2 ^ 1) * 2 ^ 22"
    unfolding u [symmetric] by (rule unat_and_field) simp
  then have "(ucast a :: uint64_t) AND 0x00400000 = 0 \<longleftrightarrow> unat a div 2 ^ 22 mod 2 ^ 1 = 0"
    by (metis mult_is_0 power_not_zero unat_eq_zero zero_neq_numeral)
  also have "unat a div 2 ^ 22 mod 2 ^ 1 = f32_mag a div 2 ^ 22 mod 2 ^ 1"
    unfolding f32_mag_def using div_exp_mod_exp_eq [of "unat a" 22 9] mod_mod_cancel [of "2 ^ 1" "2 ^ 9" "unat a div 2 ^ 22"] by simp
  also have "f32_mag a div 2 ^ 22 mod 2 ^ 1 = 0 \<longleftrightarrow> f32_snan a"
  proof -
    have m: "255 * 2 ^ 23 \<le> f32_mag a" "f32_mag a < 256 * 2 ^ 23" using assms f32_mag_less [of a] by (simp_all add: f32_nan_def)
    then consider "f32_mag a < 511 * 2 ^ 22" "f32_mag a div 2 ^ 22 = 510" | "\<not> f32_mag a < 511 * 2 ^ 22" "f32_mag a div 2 ^ 22 = 511"
      using div_pow_eq_iff [of "f32_mag a" 510 22] div_pow_eq_iff [of "f32_mag a" 511 22] by (cases "f32_mag a < 511 * 2 ^ 22") auto
    then show ?thesis using assms by cases (simp_all add: f32_snan_def)
  qed
  finally show ?thesis by (simp add: softfloat_f32UIToCommonNaN_def)
qed

lemma f64UIToCommonNaN_flags:
  assumes "f64_nan a"
  shows "softfloat_f64UIToCommonNaN a s = (if f64_snan a then softfloat_raiseFlags softfloat_flag_invalid s else s)"
proof -
  have "unat (a AND 0x0008000000000000) = (unat a div 2 ^ 51 mod 2 ^ 1) * 2 ^ 51"
    by (rule unat_and_field) simp
  then have "a AND 0x0008000000000000 = 0 \<longleftrightarrow> unat a div 2 ^ 51 mod 2 ^ 1 = 0"
    by (metis mult_is_0 power_not_zero unat_eq_zero zero_neq_numeral)
  also have "unat a div 2 ^ 51 mod 2 ^ 1 = f64_mag a div 2 ^ 51 mod 2 ^ 1"
    unfolding f64_mag_def using div_exp_mod_exp_eq [of "unat a" 51 12] mod_mod_cancel [of "2 ^ 1" "2 ^ 12" "unat a div 2 ^ 51"] by simp
  also have "f64_mag a div 2 ^ 51 mod 2 ^ 1 = 0 \<longleftrightarrow> f64_snan a"
  proof -
    have m: "2047 * 2 ^ 52 \<le> f64_mag a" "f64_mag a < 2048 * 2 ^ 52" using assms f64_mag_less [of a] by (simp_all add: f64_nan_def)
    then consider "f64_mag a < 4095 * 2 ^ 51" "f64_mag a div 2 ^ 51 = 4094" | "\<not> f64_mag a < 4095 * 2 ^ 51" "f64_mag a div 2 ^ 51 = 4095"
      using div_pow_eq_iff [of "f64_mag a" 4094 51] div_pow_eq_iff [of "f64_mag a" 4095 51] by (cases "f64_mag a < 4095 * 2 ^ 51") auto
    then show ?thesis using assms by cases (simp_all add: f64_snan_def)
  qed
  finally show ?thesis by (simp add: softfloat_f64UIToCommonNaN_def)
qed

lemma f32_to_f64_special:
  "f32_nan a \<Longrightarrow> f32_to_f64 a s =
     (0x7FF8000000000000, if f32_snan a then softfloat_raiseFlags softfloat_flag_invalid s else s)"
  "f32_inf a \<Longrightarrow> f32_to_f64 a s = (packToF64UI (signF32UI (ucast a)) 0x7FF 0, s)"
proof -
  show "f32_to_f64 a s = (0x7FF8000000000000, if f32_snan a then softfloat_raiseFlags softfloat_flag_invalid s else s)" if "f32_nan a"
  proof -
    have "(expF32UI (ucast a) = 0xFF) = True" "(fracF32UI (ucast a) \<noteq> 0) = True" using f32_class(1,2,4) [of a] that by simp_all
    then show ?thesis unfolding f32_to_f64_def Let_def f32UIToCommonNaN_flags [OF that] defaultNaNF64UI_def by (simp only: if_True)
  qed
  show "f32_to_f64 a s = (packToF64UI (signF32UI (ucast a)) 0x7FF 0, s)" if "f32_inf a"
  proof -
    have "(expF32UI (ucast a) = 0xFF) = True" "(fracF32UI (ucast a) \<noteq> 0) = False" using f32_class(1,2,3,6) [of a] that by simp_all
    then show ?thesis unfolding f32_to_f64_def Let_def by (simp only: if_True if_False)
  qed
qed

lemma f64_to_f32_special:
  "f64_nan a \<Longrightarrow> f64_to_f32 a s =
     (0x7FC00000, if f64_snan a then softfloat_raiseFlags softfloat_flag_invalid s else s)"
  "f64_inf a \<Longrightarrow> f64_to_f32 a s = (ucast (packToF32UI (signF64UI a) 0xFF 0), s)"
proof -
  show "f64_to_f32 a s = (0x7FC00000, if f64_snan a then softfloat_raiseFlags softfloat_flag_invalid s else s)" if "f64_nan a"
  proof -
    have "(expF64UI a = 0x7FF) = True" "(fracF64UI a \<noteq> 0) = True" using f64_class(1,2,4) [of a] that by simp_all
    moreover have "(ucast defaultNaNF32UI :: float32_t) = 0x7FC00000" by (simp add: defaultNaNF32UI_def)
    ultimately show ?thesis unfolding f64_to_f32_def Let_def f64UIToCommonNaN_flags [OF that] by (simp only: if_True)
  qed
  show "f64_to_f32 a s = (ucast (packToF32UI (signF64UI a) 0xFF 0), s)" if "f64_inf a"
  proof -
    have "(expF64UI a = 0x7FF) = True" "(fracF64UI a \<noteq> 0) = False" using f64_class(1,2,3,6) [of a] that by simp_all
    then show ?thesis unfolding f64_to_f32_def Let_def by (simp only: if_True if_False)
  qed
qed

lemma f64_inf_pack: "f64_inf (packToF64UI sign 0x7FF 0)" "signF64UI (packToF64UI sign 0x7FF 0) = sign"
  using f64_pack_inf [of sign] by (simp_all add: f64_inf_def f64_mag_def f64_fields split: split_of_bool)

lemma f32_inf_pack: "f32_inf (ucast (packToF32UI sign 0xFF 0))" "signF32UI (ucast (ucast (packToF32UI sign 0xFF 0) :: float32_t)) = sign"
  using f32_pack_inf [of sign] by (simp_all add: f32_inf_def f32_mag_def f32_fields split: split_of_bool)

lemma f64_to_f32_roundtrip:
  assumes "\<not> f32_nan a"
  shows "f64_to_f32 (fst (f32_to_f64 a s)) s' = (a, s')"
proof (cases "f32_finite a")
  case True
  note c = f32_to_f64_finite [OF True, of s]
  from f64_to_f32_finite [OF c(2), of s']
  have "f32_rounded (signF32UI (ucast a)) (f32_abs a) s' (f64_to_f32 (fst (f32_to_f64 a s)) s')"
    unfolding c(3,4) .
  then obtain n where n: "rounds 23 (- 149) (softfloat_roundingMode s') (signF32UI (ucast a)) (f32_abs a) n"
    "unat (fst (f64_to_f32 (fst (f32_to_f64 a s)) s')) = of_bool (signF32UI (ucast a)) * 2 ^ 31 +
      (if n < 255 * 2 ^ 23 then n else if overflow_to_inf (softfloat_roundingMode s') (signF32UI (ucast a)) then 255 * 2 ^ 23 else 255 * 2 ^ 23 - 1)"
    "snd (f64_to_f32 (fst (f32_to_f64 a s)) s') = softfloat_raiseFlags
            ((if 255 * 2 ^ 23 \<le> n then softfloat_flag_overflow OR softfloat_flag_inexact
              else if mag_val 23 (- 149) n \<noteq> f32_abs a then
                softfloat_flag_inexact OR (if tiny 23 (- 149) (signF32UI (ucast a)) (f32_abs a) s' then softfloat_flag_underflow else 0)
              else 0)) s'"
    unfolding fp_rounded_def by auto
  have "rounds 23 (- 149) (softfloat_roundingMode s') (signF32UI (ucast a)) (f32_abs a) (f32_mag a)"
    unfolding rounds_def f32_abs_def by (intro exI [of _ "f32_mag a"]) (simp add: round_up_def)
  then have nm: "n = f32_mag a" using n(1) by (metis rounds_unique)
  have fin: "f32_mag a < 255 * 2 ^ 23" using True by (simp add: f32_finite_def)
  then have "snd (f64_to_f32 (fst (f32_to_f64 a s)) s') = s'" using n(3) by (simp add: nm f32_abs_def)
  moreover have "unat (fst (f64_to_f32 (fst (f32_to_f64 a s)) s')) = unat a"
    unfolding n(2) nm f32_decode [of a] using fin by (simp only: if_True)
  ultimately show ?thesis by (simp add: prod_eq_iff word_unat_eq_iff)
next
  case False
  then have "f32_inf a" using f32_class(5) assms by blast
  from f32_to_f64_special(2) [OF this] f64_to_f32_special(2) [OF f64_inf_pack(1)] f32_inf_eq [OF this refl]
  show ?thesis by (simp add: f64_inf_pack)
qed


section \<open>Properties\<close>

text \<open>C22. The conversions of signed and unsigned 32- and 64-bit integers to single and double precision
  deliver, for every argument and every state, the correctly rounded number with the flags of an IEEE
  conversion; zero gives positive zero, and 32-bit integers are exact in double precision.\<close>

theorem int_to_float_correct:
  "f32_rounded (sint a < 0) \<bar>real_of_int (sint a)\<bar> s (i32_to_f32 a s) \<and>
   f32_rounded False (real (unat b)) s (ui32_to_f32 b s) \<and>
   f32_rounded (sint c < 0) \<bar>real_of_int (sint c)\<bar> s (i64_to_f32 c s) \<and>
   f32_rounded False (real (unat d)) s (ui64_to_f32 d s) \<and>
   f64_finite (i32_to_f64 a) \<and> f64_val (i32_to_f64 a) = real_of_int (sint a) \<and>
   f64_finite (ui32_to_f64 b) \<and> f64_val (ui32_to_f64 b) = real (unat b) \<and>
   f64_rounded (sint c < 0) \<bar>real_of_int (sint c)\<bar> s (i64_to_f64 c s) \<and>
   f64_rounded False (real (unat d)) s (ui64_to_f64 d s)"
  using i32_to_f32_rounded ui32_to_f32_rounded i64_to_f32_rounded ui64_to_f32_rounded
    i32_to_f64_exact ui32_to_f64_exact i64_to_f64_rounded ui64_to_f64_rounded by blast

lemma f32_f64_roundtrip:
  assumes "\<not> f32_nan a"
  shows "f64_to_f32 (fst (f32_to_f64 a s)) s' = (a, s') \<and> snd (f32_to_f64 a s) = s \<and>
    signF64UI (fst (f32_to_f64 a s)) = signF32UI (ucast a) \<and>
    (f32_finite a \<longrightarrow> f64_abs (fst (f32_to_f64 a s)) = f32_abs a)"
proof (cases "f32_finite a")
  case True
  with f32_to_f64_finite [OF True, of s] f64_to_f32_roundtrip [OF assms, of s s'] show ?thesis by blast
next
  case False
  then have "f32_inf a" using f32_class(5) assms by blast
  from f32_to_f64_special(2) [OF this, of s] f64_to_f32_roundtrip [OF assms, of s s'] False f64_inf_pack(2)
  show ?thesis by simp
qed

text \<open>C23. f64_to_f32 of a finite operand delivers the correctly rounded single-precision value with its
  flags; an infinity keeps its sign, and a NaN gives the canonical NaN and raises invalid exactly when
  it is signaling. Widening loses nothing: converting a single-precision number that is not a NaN
  to double precision and back, in any rounding mode, returns the number itself and raises no flag,
  and the widened number has the same sign and value.\<close>

theorem float_format_conversion:
  "(if f64_nan b then f64_to_f32 b s = (0x7FC00000, if f64_snan b then softfloat_raiseFlags softfloat_flag_invalid s else s)
    else if f64_inf b then f32_inf (fst (f64_to_f32 b s)) \<and>
      signF32UI (ucast (fst (f64_to_f32 b s))) = signF64UI b \<and> snd (f64_to_f32 b s) = s
    else f32_rounded (signF64UI b) (f64_abs b) s (f64_to_f32 b s)) \<and>
   (\<not> f32_nan a \<longrightarrow>
     f64_to_f32 (fst (f32_to_f64 a s)) s' = (a, s') \<and> snd (f32_to_f64 a s) = s \<and>
     signF64UI (fst (f32_to_f64 a s)) = signF32UI (ucast a) \<and>
     (f32_finite a \<longrightarrow> f64_abs (fst (f32_to_f64 a s)) = f32_abs a))"
proof
  show "if f64_nan b then f64_to_f32 b s = (0x7FC00000, if f64_snan b then softfloat_raiseFlags softfloat_flag_invalid s else s)
    else if f64_inf b then f32_inf (fst (f64_to_f32 b s)) \<and>
      signF32UI (ucast (fst (f64_to_f32 b s))) = signF64UI b \<and> snd (f64_to_f32 b s) = s
    else f32_rounded (signF64UI b) (f64_abs b) s (f64_to_f32 b s)"
    using f64_to_f32_special [of b s] f32_inf_pack [of "signF64UI b"] f64_class(5) [of b] f64_to_f32_finite [of b s] by auto
qed (rule impI, erule f32_f64_roundtrip)

theorem float_format_conversion_witness:
  "\<not> f32_nan 0x00000001 \<and> f32_to_f64 0x00000001 softfloat_init = (0x36A0000000000000, softfloat_init) \<and>
   f64_to_f32 0x36A0000000000000 softfloat_init = (0x00000001, softfloat_init)"
proof -
  have n: "\<not> f32_nan 0x00000001" by (simp add: f32_nan_def f32_mag_def)
  have r: "f32_to_f64 0x00000001 softfloat_init = (0x36A0000000000000, softfloat_init)" by code_simp
  from float_format_conversion [of 0 softfloat_init "0x00000001" softfloat_init, THEN conjunct2] n r show ?thesis by (simp only: fst_conv simp_thms)
qed

end
