(* ===== verification/Arith.thy ===== *)
theory Arith
  imports Spike_Prelude
begin

text \<open>
  The integer helpers that instructions share (\<^verbatim>\<open>riscv/arith.h\<close>): the high half of a product, saturating
  sums and differences, bit fields, bit counts and rotations. A C++ template over an integer type is a
  definition over words of any length; a signed type is a word read by \<open>sint\<close>. Each helper is shown to
  compute the arithmetic function it is named after.
\<close>

section \<open>High half of a product\<close>

definition mulhu :: "uint64_t \<Rightarrow> uint64_t \<Rightarrow> uint64_t" where
  "mulhu a b =
     (let a0 = ucast (ucast a :: uint32_t); a1 = drop_bit 32 a;
          b0 = ucast (ucast b :: uint32_t); b1 = drop_bit 32 b;
          t = a1 * b0 + drop_bit 32 (a0 * b0);
          y1 = ucast t :: uint32_t;
          y2 = ucast (drop_bit 32 t) :: uint32_t;
          t = a0 * b1 + ucast y1;
          t = a1 * b1 + ucast y2 + drop_bit 32 t;
          y2 = ucast t :: uint32_t;
          y3 = ucast (drop_bit 32 t) :: uint32_t
      in push_bit 32 (ucast y3) OR ucast y2)"

definition mulh :: "uint64_t \<Rightarrow> uint64_t \<Rightarrow> uint64_t" where
  "mulh a b =
     (let negate = ((sint a < 0) \<noteq> (sint b < 0));
          res = mulhu (if sint a < 0 then - a else a) (if sint b < 0 then - b else b)
      in if negate then NOT res + of_bool (a * b = 0) else res)"

definition mulhsu :: "uint64_t \<Rightarrow> uint64_t \<Rightarrow> uint64_t" where
  "mulhsu a b =
     (let negate = (sint a < 0);
          res = mulhu (if sint a < 0 then - a else a) b
      in if negate then NOT res + of_bool (a * b = 0) else res)"

section \<open>Saturating arithmetic\<close>

definition sat_add :: "'a::len word \<Rightarrow> 'a word \<Rightarrow> 'a word \<times> bool" where
  "sat_add x y =
     (let ux = x; uy = y; res = ux + uy;
          sh = LENGTH('a) - 1;
          ux = drop_bit sh ux + (push_bit sh 1 - 1)
      in if 0 \<le> sint ((ux XOR uy) OR NOT (uy XOR res)) then (ux, True) else (res, False))"

definition sat_add3 :: "'a::len word \<Rightarrow> 'a word \<Rightarrow> 'a word \<Rightarrow> 'a word \<times> bool" where
  "sat_add3 x y z =
     (let (a, b) = (if sint ((y XOR z) AND (x XOR z)) < 0 then (z, y) else (y, z));
          (res, sat1) = sat_add x a;
          (res, sat2) = sat_add res b
      in (res, sat1 \<or> sat2))"

definition sat_sub :: "'a::len word \<Rightarrow> 'a word \<Rightarrow> 'a word \<times> bool" where
  "sat_sub x y =
     (let ux = x; uy = y; res = ux - uy;
          sh = LENGTH('a) - 1;
          ux = drop_bit sh ux + (push_bit sh 1 - 1)
      in if sint ((ux XOR uy) AND (ux XOR res)) < 0 then (ux, True) else (res, False))"

definition sat_addu :: "'a::len word \<Rightarrow> 'a word \<Rightarrow> 'a word \<times> bool" where
  "sat_addu x y =
     (let res = x + y; sat = (res < x)
      in (res OR - of_bool (res < x), sat))"

definition sat_subu :: "'a::len word \<Rightarrow> 'a word \<Rightarrow> 'a word \<times> bool" where
  "sat_subu x y =
     (let res = x - y; sat = (\<not> res \<le> x)
      in (res AND - of_bool (res \<le> x), sat))"

section \<open>Bit fields and counts\<close>

definition extract64 :: "uint64_t \<Rightarrow> int \<Rightarrow> int \<Rightarrow> uint64_t option" where
  "extract64 val pos len =
     (if \<not> (0 \<le> pos \<and> 0 < len \<and> len \<le> 64 - pos) then None
      else Some (drop_bit (nat pos) val AND drop_bit (nat (64 - len)) (NOT 0)))"

definition make_mask64 :: "int \<Rightarrow> int \<Rightarrow> uint64_t option" where
  "make_mask64 pos len =
     (if \<not> (0 \<le> pos \<and> 0 < len \<and> pos < 64 \<and> len \<le> 64) then None
      else Some (push_bit (nat pos) (drop_bit (nat (64 - len)) 0xFFFFFFFFFFFFFFFF)))"

definition popcount :: "uint64_t \<Rightarrow> uint64_t" where
  "popcount val =
     (let val = (val AND 0x5555555555555555) + (drop_bit 1 val AND 0x5555555555555555);
          val = (val AND 0x3333333333333333) + (drop_bit 2 val AND 0x3333333333333333);
          val = (val AND 0x0f0f0f0f0f0f0f0f) + (drop_bit 4 val AND 0x0f0f0f0f0f0f0f0f);
          val = (val AND 0x00ff00ff00ff00ff) + (drop_bit 8 val AND 0x00ff00ff00ff00ff);
          val = (val AND 0x0000ffff0000ffff) + (drop_bit 16 val AND 0x0000ffff0000ffff)
      in (val AND 0x00000000ffffffff) + (drop_bit 32 val AND 0x00000000ffffffff))"

definition ctz_step :: "nat \<Rightarrow> nat \<times> uint64_t \<Rightarrow> nat \<times> uint64_t" where
  "ctz_step k p = (let (res, val) = p in if push_bit (64 - k) val = 0 then (res + k, drop_bit k val) else (res, val))"

definition ctz :: "uint64_t \<Rightarrow> nat" where
  "ctz val =
     (if val = 0 then 0
      else fst (ctz_step 1 (ctz_step 2 (ctz_step 4 (ctz_step 8 (ctz_step 16 (ctz_step 32 (0, val))))))))"

definition clz_step :: "nat \<Rightarrow> nat \<times> uint64_t \<Rightarrow> nat \<times> uint64_t" where
  "clz_step k p = (let (res, val) = p in if drop_bit (64 - k) val = 0 then (res + k, push_bit k val) else (res, val))"

definition clz :: "uint64_t \<Rightarrow> nat" where
  "clz val =
     (if val = 0 then 0
      else fst (clz_step 1 (clz_step 2 (clz_step 4 (clz_step 8 (clz_step 16 (clz_step 32 (0, val))))))))"

function cto_loop :: "uint64_t \<Rightarrow> nat \<Rightarrow> nat" where
  "cto_loop val res = (if val AND 1 = 1 then cto_loop (drop_bit 1 val) (res + 1) else res)"
  by pat_completeness auto
termination
proof (relation "measure (\<lambda>(val, res). unat val)")
  fix val :: uint64_t and res :: nat
  assume "val AND 1 = 1"
  then have "unat val \<noteq> 0" by (auto simp: unat_eq_zero)
  then show "((drop_bit 1 val, res + 1), (val, res)) \<in> measure (\<lambda>(val, res). unat val)"
    by (simp add: unat_drop_bit_div)
qed simp

declare cto_loop.simps [simp del]

definition cto :: "uint64_t \<Rightarrow> nat" where
  "cto val = cto_loop val 0"

definition log2 :: "uint64_t \<Rightarrow> nat" where
  "log2 val = (if val = 0 then 0 else 63 - clz val)"

definition rotate_right :: "'a::len word \<Rightarrow> uint64_t \<Rightarrow> 'a word" where
  "rotate_right x shiftamt =
     (let mask = of_nat LENGTH('a) - 1;
          rshift = shiftamt AND mask;
          lshift = - rshift AND mask
      in push_bit (unat lshift) x OR drop_bit (unat rshift) x)"

definition rotate_left :: "'a::len word \<Rightarrow> uint64_t \<Rightarrow> 'a word" where
  "rotate_left x shiftamt =
     (let mask = of_nat LENGTH('a) - 1;
          lshift = shiftamt AND mask;
          rshift = - lshift AND mask
      in push_bit (unat lshift) x OR drop_bit (unat rshift) x)"

section \<open>Products\<close>

lemma unat_low32: "unat (ucast (ucast a :: uint32_t) :: uint64_t) = unat a mod 2 ^ 32"
  by (simp add: unat_ucast_mod)

lemma unat_high32: "unat (ucast (ucast (drop_bit 32 a) :: uint32_t) :: uint64_t) = unat (a :: uint64_t) div 2 ^ 32"
  using unat_less_pow2 [of a] by (simp add: unat_ucast_mod unat_drop_bit_div)

lemma join_halves: "push_bit 32 (ucast (ucast (drop_bit 32 t) :: uint32_t)) OR ucast (ucast t :: uint32_t) = (t :: uint64_t)"
  by (rule bit_word_eqI) (auto simp: bit_simps)

lemma product_high:
  fixes a0 a1 b0 b1 :: nat
  defines "t1 \<equiv> a1 * b0 + a0 * b0 div 2 ^ 32"
  defines "t2 \<equiv> a0 * b1 + t1 mod 2 ^ 32"
  shows "(a1 * 2 ^ 32 + a0) * (b1 * 2 ^ 32 + b0) div 2 ^ 64 = a1 * b1 + t1 div 2 ^ 32 + t2 div 2 ^ 32"
proof -
  define q0 r0 where "q0 = a0 * b0 div 2 ^ 32" and "r0 = a0 * b0 mod 2 ^ 32"
  define q1 r1 where "q1 = t1 div 2 ^ 32" and "r1 = t1 mod 2 ^ 32"
  define q2 r2 where "q2 = t2 div 2 ^ 32" and "r2 = t2 mod 2 ^ 32"
  have e: "a0 * b0 = q0 * 2 ^ 32 + r0" "t1 = q1 * 2 ^ 32 + r1" "t2 = q2 * 2 ^ 32 + r2"
    unfolding q0_def r0_def q1_def r1_def q2_def r2_def by (rule div_mult_mod_eq [symmetric])+
  have t: "t1 = a1 * b0 + q0" "t2 = a0 * b1 + r1" by (simp_all add: t1_def t2_def q0_def r1_def)
  have "(a1 * 2 ^ 32 + a0) * (b1 * 2 ^ 32 + b0) = a1 * b1 * 2 ^ 64 + (a1 * b0 + a0 * b1) * 2 ^ 32 + a0 * b0"
    by (simp add: algebra_simps)
  also have "\<dots> = (a1 * b1 + q1 + q2) * 2 ^ 64 + (r2 * 2 ^ 32 + r0)"
    using e t by simp
  finally have eq: "(a1 * 2 ^ 32 + a0) * (b1 * 2 ^ 32 + b0) = (a1 * b1 + q1 + q2) * 2 ^ 64 + (r2 * 2 ^ 32 + r0)" .
  have "r0 < 2 ^ 32" "r2 < 2 ^ 32" by (simp_all add: r0_def r2_def)
  then have "r2 * 2 ^ 32 + r0 < 2 ^ 64" by simp
  then show ?thesis unfolding eq q1_def [symmetric] q2_def [symmetric] by simp
qed

lemma mulhu_unat: "unat (mulhu a b) = unat a * unat b div 2 ^ 64"
proof -
  define a0 a1 b0 b1 where "a0 = unat a mod 2 ^ 32" and "a1 = unat a div 2 ^ 32"
    and "b0 = unat b mod 2 ^ 32" and "b1 = unat b div 2 ^ 32"
  have ab: "unat a = a1 * 2 ^ 32 + a0" "unat b = b1 * 2 ^ 32 + b0"
    unfolding a0_def a1_def b0_def b1_def by (rule div_mult_mod_eq [symmetric])+
  have less: "a0 \<le> 2 ^ 32 - 1" "a1 \<le> 2 ^ 32 - 1" "b0 \<le> 2 ^ 32 - 1" "b1 \<le> 2 ^ 32 - 1"
    using unat_less_pow2 [of a] unat_less_pow2 [of b] unfolding a0_def a1_def b0_def b1_def
    by (simp_all add: less_Suc_eq_le [symmetric])
  note small = mult_le_mono [OF less(1,3)] mult_le_mono [OF less(2,3)] mult_le_mono [OF less(1,4)] mult_le_mono [OF less(2,4)]
  define t1 where "t1 = a1 * b0 + a0 * b0 div 2 ^ 32"
  define t2 where "t2 = a0 * b1 + t1 mod 2 ^ 32"
  let ?a0 = "ucast (ucast a :: uint32_t) :: uint64_t" and ?a1 = "drop_bit 32 a"
  let ?b0 = "ucast (ucast b :: uint32_t) :: uint64_t" and ?b1 = "drop_bit 32 b"
  define w1 where "w1 = ?a1 * ?b0 + drop_bit 32 (?a0 * ?b0)"
  define w2 where "w2 = ?a0 * ?b1 + ucast (ucast w1 :: uint32_t)"
  define w3 where "w3 = ?a1 * ?b1 + ucast (ucast (drop_bit 32 w1) :: uint32_t) + drop_bit 32 w2"
  have u: "unat ?a0 = a0" "unat ?a1 = a1" "unat ?b0 = b0" "unat ?b1 = b1"
    unfolding unat_low32 unat_drop_bit_div a0_def a1_def b0_def b1_def by (rule refl)+
  have m: "unat (?a0 * ?b0) = a0 * b0" "unat (?a1 * ?b0) = a1 * b0" "unat (?a0 * ?b1) = a0 * b1" "unat (?a1 * ?b1) = a1 * b1"
    using small by (simp_all add: unat_mult_nowrap u)
  have u1: "unat w1 = t1"
    unfolding w1_def t1_def using small by (subst unat_add_nowrap) (simp_all add: m unat_drop_bit_div)
  have u2: "unat w2 = t2"
    unfolding w2_def t2_def using small by (subst unat_add_nowrap) (simp_all add: m unat_low32 u1)
  have t12: "t1 div 2 ^ 32 \<le> 2 ^ 32 - 1" "t2 div 2 ^ 32 \<le> 2 ^ 32 - 1"
    using unat_less_pow2 [of w1] unat_less_pow2 [of w2] unfolding u1 u2 by (simp_all add: less_Suc_eq_le [symmetric])
  have "unat w3 = a1 * b1 + t1 div 2 ^ 32 + t2 div 2 ^ 32"
    unfolding w3_def using small t12 by (simp add: unat_add_nowrap m unat_high32 u1 unat_drop_bit_div u2)
  moreover have "mulhu a b = w3"
    unfolding mulhu_def Let_def w1_def [symmetric] w2_def [symmetric] w3_def [symmetric] by (rule join_halves)
  ultimately show ?thesis
    unfolding ab using product_high [of a1 a0 b1 b0] by (simp only: t1_def t2_def)
qed

lemma neg_div_high:
  fixes P :: int
  assumes "0 < M"
  shows "- P div M = (if P mod M = 0 then - (P div M) else - (P div M) - 1)"
  using zdiv_zminus1_eq_if [of M P] assms by simp

lemma sint_NOT_plus:
  fixes res :: uint64_t
  assumes "unat res < 2 ^ 63 \<or> unat res = 2 ^ 63 \<and> e"
  shows "sint (NOT res + of_bool e) = - int (unat res) - 1 + of_bool e"
proof (rule sint_eqI)
  show "NOT res + of_bool e = word_of_int (- int (unat res) - 1 + of_bool e)"
    by (simp add: not_eq_complement)
  obtain n where n: "n = unat res" by simp
  show "- (2 ^ (LENGTH(64) - 1)) \<le> - int (unat res) - 1 + of_bool e" "- int (unat res) - 1 + of_bool e < 2 ^ (LENGTH(64) - 1)"
    using assms unfolding n [symmetric] by (auto split: split_of_bool)
qed

lemma word_prod_zero_iff:
  fixes a b :: uint64_t
  shows "a * b = 0 \<longleftrightarrow> (unat a * unat b) mod 2 ^ 64 = 0"
  unfolding word_unat_eq_iff by (simp add: unat_word_ariths)

lemma signed_high:
  fixes res :: uint64_t and P :: nat
  assumes P: "P < 2 ^ 127" and res: "unat res = P div 2 ^ 64"
  shows "sint (NOT res + of_bool (P mod 2 ^ 64 = 0)) = - int P div 2 ^ 64" and "sint res = int P div 2 ^ 64"
proof -
  have H: "unat res < 2 ^ 63" unfolding res using P by (simp add: less_mult_imp_div_less)
  have d: "int (unat res) = int P div 2 ^ 64" unfolding res using zdiv_int [of P "2 ^ 64"] by simp
  have "int P mod 2 ^ 64 = int (P mod 2 ^ 64)" using zmod_int [of P "2 ^ 64"] by simp
  then have m: "(int P mod 2 ^ 64 = 0) = (P mod 2 ^ 64 = 0)" by (simp only: of_nat_eq_0_iff)
  have "sint (NOT res + of_bool (P mod 2 ^ 64 = 0)) = - int (unat res) - 1 + of_bool (P mod 2 ^ 64 = 0)"
    using H by (intro sint_NOT_plus) simp
  then show "sint (NOT res + of_bool (P mod 2 ^ 64 = 0)) = - int P div 2 ^ 64"
    using neg_div_high [of "2 ^ 64" "int P"] m unfolding d by simp
  show "sint res = int P div 2 ^ 64" using sint_unat [of res] H d by simp
qed

lemma mulh_sint: "sint (mulh a b) = sint a * sint b div 2 ^ 64"
proof -
  define wa where "wa = (if sint a < 0 then - a else a)"
  define wb where "wb = (if sint b < 0 then - b else b)"
  obtain A B where A: "A = nat \<bar>sint a\<bar>" and B: "B = nat \<bar>sint b\<bar>" by simp
  have w: "unat wa = A" "unat wb = B" unfolding wa_def wb_def A B by (rule abs_word64)+
  have "A * B \<le> 2 ^ 63 * 2 ^ 63" unfolding A B by (intro mult_le_mono abs_word64)
  then have P: "A * B < 2 ^ 127" by simp
  have u: "unat (mulhu wa wb) = A * B div 2 ^ 64" by (simp add: mulhu_unat w)
  have s: "sint a = (if sint a < 0 then - int A else int A)" "sint b = (if sint b < 0 then - int B else int B)"
    by (simp_all add: A B)
  have "a * b = 0 \<longleftrightarrow> wa * wb = 0" by (simp add: wa_def wb_def)
  then have z: "(a * b = 0) = (A * B mod 2 ^ 64 = 0)" by (simp add: word_prod_zero_iff w)
  show ?thesis
  proof (cases "(sint a < 0) \<noteq> (sint b < 0)")
    case True
    then have "sint a * sint b = - int (A * B)" by (subst s(1), subst s(2)) auto
    moreover have "mulh a b = NOT (mulhu wa wb) + of_bool (a * b = 0)"
      using True unfolding mulh_def Let_def wa_def wb_def by (simp only: if_True simp_thms)
    ultimately show ?thesis using signed_high(1) [OF P u] by (simp only: z)
  next
    case False
    then have "sint a * sint b = int (A * B)" by (subst s(1), subst s(2)) auto
    moreover have "mulh a b = mulhu wa wb"
      using False unfolding mulh_def Let_def wa_def wb_def by (simp only: if_False simp_thms)
    ultimately show ?thesis using signed_high(2) [OF P u] by (simp only:)
  qed
qed

lemma mulhsu_sint: "sint (mulhsu a b) = sint a * int (unat b) div 2 ^ 64"
proof -
  define wa where "wa = (if sint a < 0 then - a else a)"
  obtain A B where A: "A = nat \<bar>sint a\<bar>" and B: "B = unat b" by simp
  have w: "unat wa = A" unfolding wa_def A by (rule abs_word64)
  have "B \<le> 2 ^ 64 - 1" unfolding B using unat_less_pow2 [of b] by simp
  then have "A * B \<le> 2 ^ 63 * (2 ^ 64 - 1)" unfolding A by (intro mult_le_mono abs_word64)
  then have P: "A * B < 2 ^ 127" by simp
  have u: "unat (mulhu wa b) = A * B div 2 ^ 64" by (simp add: mulhu_unat w B)
  have s: "sint a = (if sint a < 0 then - int A else int A)" by (simp add: A)
  have "a * b = 0 \<longleftrightarrow> wa * b = 0" by (simp add: wa_def)
  then have z: "(a * b = 0) = (A * B mod 2 ^ 64 = 0)" by (simp add: word_prod_zero_iff w B)
  show ?thesis
  proof (cases "sint a < 0")
    case True
    then have "sint a * int (unat b) = - int (A * B)" by (subst s) (simp add: B)
    moreover have "mulhsu a b = NOT (mulhu wa b) + of_bool (a * b = 0)"
      using True unfolding mulhsu_def Let_def wa_def by (simp only: if_True)
    ultimately show ?thesis using signed_high(1) [OF P u] by (simp only: z)
  next
    case False
    then have "sint a * int (unat b) = int (A * B)" by (subst s) (simp add: B)
    moreover have "mulhsu a b = mulhu wa b"
      using False unfolding mulhsu_def Let_def wa_def by (simp only: if_False simp_thms)
    ultimately show ?thesis using signed_high(2) [OF P u] by (simp only:)
  qed
qed

section \<open>Saturation\<close>

lemma sint_nonneg_iff: "0 \<le> sint a \<longleftrightarrow> \<not> bit a (LENGTH('a) - 1)" for a :: "'a::len word"
  by (simp add: bit_last_iff not_less)

definition clamp :: "int \<Rightarrow> int \<Rightarrow> int \<Rightarrow> int" where
  "clamp lo hi i = (if i < lo then lo else if hi < i then hi else i)"

lemma word_of_int_pow_length: "(word_of_int (i + 2 * 2 ^ (LENGTH('a) - 1)) :: 'a::len word) = word_of_int i"
proof -
  have "(2::int) * 2 ^ (LENGTH('a) - 1) = 2 ^ LENGTH('a)" by (simp add: power_eq_if)
  then show ?thesis by (simp add: word_of_int_eq_iff take_bit_eq_mod)
qed

lemma sint_word_of_int_wrap:
  fixes i :: int
  defines "N \<equiv> 2 ^ (LENGTH('a::len) - 1) :: int"
  assumes "- 2 * N \<le> i" "i < 2 * N"
  shows "sint (word_of_int i :: 'a word) = (if i < - N then i + 2 * N else if N \<le> i then i - 2 * N else i)"
proof (rule sint_eqI)
  show "(word_of_int i :: 'a word) = word_of_int (if i < - N then i + 2 * N else if N \<le> i then i - 2 * N else i)"
    using word_of_int_pow_length [of i, where 'a = 'a] word_of_int_pow_length [of "i - 2 * N", where 'a = 'a] by (simp add: N_def)
qed (use assms in \<open>auto simp: N_def\<close>)

lemma sat_limit:
  fixes x :: "'a::len word"
  defines "N \<equiv> 2 ^ (LENGTH('a) - 1) :: int"
  shows "sint (drop_bit (LENGTH('a) - 1) x + (push_bit (LENGTH('a) - 1) 1 - 1)) = (if sint x < 0 then - N else N - 1)"
proof -
  have N: "0 < N" by (simp add: N_def)
  have d: "drop_bit (LENGTH('a) - 1) x = of_bool (bit x (LENGTH('a) - 1))"
  proof (rule bit_word_eqI)
    fix n
    show "bit (drop_bit (LENGTH('a) - 1) x) n = bit (of_bool (bit x (LENGTH('a) - 1)) :: 'a word) n"
      using bit_imp_le_length [of x "LENGTH('a) - 1 + n"] by (cases n) (auto simp: bit_simps bit_1_iff)
  qed
  have "drop_bit (LENGTH('a) - 1) x + (push_bit (LENGTH('a) - 1) 1 - 1) = word_of_int (if sint x < 0 then - N else N - 1)"
    unfolding d using word_of_int_pow_length [of "- N", where 'a = 'a] by (simp add: N_def bit_last_iff push_bit_eq_mult)
  moreover have "sint (word_of_int (if sint x < 0 then - N else N - 1) :: 'a word) = (if sint x < 0 then - N else N - 1)"
    using N unfolding N_def by (intro sint_eqI refl) auto
  ultimately show ?thesis by simp
qed

lemma sat_add_correct:
  fixes x y :: "'a::len word"
  defines "N \<equiv> 2 ^ (LENGTH('a) - 1) :: int"
  shows "sint (fst (sat_add x y)) = clamp (- N) (N - 1) (sint x + sint y)"
    and "snd (sat_add x y) \<longleftrightarrow> sint x + sint y < - N \<or> N - 1 < sint x + sint y"
proof -
  have b: "- N \<le> sint x" "sint x < N" "- N \<le> sint y" "sint y < N"
    unfolding N_def by (rule sint_ge sint_lt)+
  define ux where "ux = drop_bit (LENGTH('a) - 1) x + (push_bit (LENGTH('a) - 1) 1 - 1)"
  have ux: "sint ux = (if sint x < 0 then - N else N - 1)" unfolding ux_def N_def by (rule sat_limit)
  have res: "sint (x + y) = (if sint x + sint y < - N then sint x + sint y + 2 * N
      else if N \<le> sint x + sint y then sint x + sint y - 2 * N else sint x + sint y)"
    using sint_word_of_int_wrap [of "sint x + sint y", where 'a = 'a] b by (simp add: N_def)
  have c: "0 \<le> sint ((ux XOR y) OR NOT (y XOR (x + y))) \<longleftrightarrow> (sint ux < 0) = (sint y < 0) \<and> (sint y < 0) \<noteq> (sint (x + y) < 0)"
    by (simp add: sint_nonneg_iff bit_simps bit_last_iff [symmetric]) 
  have "sat_add x y = (if (sint ux < 0) = (sint y < 0) \<and> (sint y < 0) \<noteq> (sint (x + y) < 0) then (ux, True) else (x + y, False))"
    unfolding sat_add_def Let_def ux_def [symmetric] c ..
  then show "sint (fst (sat_add x y)) = clamp (- N) (N - 1) (sint x + sint y)"
    "snd (sat_add x y) \<longleftrightarrow> sint x + sint y < - N \<or> N - 1 < sint x + sint y"
    using ux res b by (auto simp: clamp_def split: if_splits)
qed


lemma sat_sub_correct:
  fixes x y :: "'a::len word"
  defines "N \<equiv> 2 ^ (LENGTH('a) - 1) :: int"
  shows "sint (fst (sat_sub x y)) = clamp (- N) (N - 1) (sint x - sint y)"
    and "snd (sat_sub x y) \<longleftrightarrow> sint x - sint y < - N \<or> N - 1 < sint x - sint y"
proof -
  have b: "- N \<le> sint x" "sint x < N" "- N \<le> sint y" "sint y < N"
    unfolding N_def by (rule sint_ge sint_lt)+
  define ux where "ux = drop_bit (LENGTH('a) - 1) x + (push_bit (LENGTH('a) - 1) 1 - 1)"
  have ux: "sint ux = (if sint x < 0 then - N else N - 1)" unfolding ux_def N_def by (rule sat_limit)
  have res: "sint (x - y) = (if sint x - sint y < - N then sint x - sint y + 2 * N
      else if N \<le> sint x - sint y then sint x - sint y - 2 * N else sint x - sint y)"
    using sint_word_of_int_wrap [of "sint x - sint y", where 'a = 'a] b by (simp add: N_def)
  have c: "sint ((ux XOR y) AND (ux XOR (x - y))) < 0 \<longleftrightarrow> (sint ux < 0) \<noteq> (sint y < 0) \<and> (sint ux < 0) \<noteq> (sint (x - y) < 0)"
    by (simp add: bit_last_iff [symmetric] bit_simps)
  have "sat_sub x y = (if (sint ux < 0) \<noteq> (sint y < 0) \<and> (sint ux < 0) \<noteq> (sint (x - y) < 0) then (ux, True) else (x - y, False))"
    unfolding sat_sub_def Let_def ux_def [symmetric] c ..
  then show "sint (fst (sat_sub x y)) = clamp (- N) (N - 1) (sint x - sint y)"
    "snd (sat_sub x y) \<longleftrightarrow> sint x - sint y < - N \<or> N - 1 < sint x - sint y"
    using ux res b by (auto simp: clamp_def split: if_splits)
qed

lemma sat_addu_correct:
  fixes x y :: "'a::len word"
  shows "unat (fst (sat_addu x y)) = min (2 ^ LENGTH('a) - 1) (unat x + unat y)"
    and "snd (sat_addu x y) \<longleftrightarrow> 2 ^ LENGTH('a) \<le> unat x + unat y"
proof -
  have lt: "unat x < 2 ^ LENGTH('a)" "unat y < 2 ^ LENGTH('a)" by (rule unat_less_pow2)+
  have c: "x + y < x \<longleftrightarrow> 2 ^ LENGTH('a) \<le> unat x + unat y"
  proof (cases "2 ^ LENGTH('a) \<le> unat x + unat y")
    case True
    then have "unat (x + y) = unat x + unat y - 2 ^ LENGTH('a)" by (subst unat_plus_if') simp
    with lt True show ?thesis unfolding word_less_nat_alt by linarith
  next
    case False
    then have "unat (x + y) = unat x + unat y" by (simp add: unat_add_nowrap)
    with lt False show ?thesis unfolding word_less_nat_alt by linarith
  qed
  then show "snd (sat_addu x y) \<longleftrightarrow> 2 ^ LENGTH('a) \<le> unat x + unat y" by (simp add: sat_addu_def Let_def)
  show "unat (fst (sat_addu x y)) = min (2 ^ LENGTH('a) - 1) (unat x + unat y)"
  proof (cases "2 ^ LENGTH('a) \<le> unat x + unat y")
    case True
    then have "fst (sat_addu x y) = - 1" using c by (simp add: sat_addu_def Let_def)
    with True show ?thesis by (simp add: unsigned_minus_1_eq_mask mask_eq_exp_minus_1)
  next
    case False
    then have "fst (sat_addu x y) = x + y" using c by (simp add: sat_addu_def Let_def)
    with False show ?thesis by (simp add: unat_add_nowrap)
  qed
qed

lemma sat_subu_correct:
  fixes x y :: "'a::len word"
  shows "unat (fst (sat_subu x y)) = unat x - unat y" and "snd (sat_subu x y) \<longleftrightarrow> unat x < unat y"
proof -
  have lt: "unat x < 2 ^ LENGTH('a)" "unat y < 2 ^ LENGTH('a)" by (rule unat_less_pow2)+
  have c: "x - y \<le> x \<longleftrightarrow> unat y \<le> unat x"
  proof (cases "unat y \<le> unat x")
    case True
    then have "unat (x - y) = unat x - unat y" by (simp add: unat_diff_nowrap)
    with True show ?thesis unfolding word_le_nat_alt by linarith
  next
    case False
    then have "unat (x - y) = 2 ^ LENGTH('a) + unat x - unat y" by (subst unat_sub_if') simp
    with lt False show ?thesis unfolding word_le_nat_alt by linarith
  qed
  then show "snd (sat_subu x y) \<longleftrightarrow> unat x < unat y" unfolding sat_subu_def Let_def snd_conv by (simp only: not_le)
  show "unat (fst (sat_subu x y)) = unat x - unat y"
    using c by (cases "unat y \<le> unat x") (simp_all add: sat_subu_def Let_def unat_diff_nowrap)
qed

lemma sat_add3_correct:
  fixes x y z :: "'a::len word"
  defines "N \<equiv> 2 ^ (LENGTH('a) - 1) :: int"
  shows "sint (fst (sat_add3 x y z)) = clamp (- N) (N - 1) (sint x + sint y + sint z)"
    and "snd (sat_add3 x y z) \<longleftrightarrow> sint x + sint y + sint z < - N \<or> N - 1 < sint x + sint y + sint z"
proof -
  define a where "a = (if sint ((y XOR z) AND (x XOR z)) < 0 then z else y)"
  define b where "b = (if sint ((y XOR z) AND (x XOR z)) < 0 then y else z)"
  have bnd: "- N \<le> sint x" "sint x < N" "- N \<le> sint y" "sint y < N" "- N \<le> sint z" "sint z < N"
    unfolding N_def by (rule sint_ge sint_lt)+
  have c: "sint ((y XOR z) AND (x XOR z)) < 0 \<longleftrightarrow> (sint y < 0) \<noteq> (sint z < 0) \<and> (sint x < 0) \<noteq> (sint z < 0)"
    by (simp add: bit_last_iff [symmetric] bit_simps)
  have ab: "sint a = (if (sint y < 0) \<noteq> (sint z < 0) \<and> (sint x < 0) \<noteq> (sint z < 0) then sint z else sint y)"
    "sint b = (if (sint y < 0) \<noteq> (sint z < 0) \<and> (sint x < 0) \<noteq> (sint z < 0) then sint y else sint z)"
    unfolding a_def b_def c by simp_all
  have e: "sat_add3 x y z = (fst (sat_add (fst (sat_add x a)) b), snd (sat_add x a) \<or> snd (sat_add (fst (sat_add x a)) b))"
    by (simp add: sat_add3_def a_def b_def split: prod.split)
  show "sint (fst (sat_add3 x y z)) = clamp (- N) (N - 1) (sint x + sint y + sint z)"
    "snd (sat_add3 x y z) \<longleftrightarrow> sint x + sint y + sint z < - N \<or> N - 1 < sint x + sint y + sint z"
    unfolding e fst_conv snd_conv sat_add_correct N_def [symmetric] ab clamp_def using bnd by (auto split: if_splits)
qed

section \<open>Bit counts\<close>

definition lowest_below :: "nat \<Rightarrow> uint64_t \<Rightarrow> nat \<times> uint64_t \<Rightarrow> bool" where
  "lowest_below k v p \<longleftrightarrow> snd p = drop_bit (fst p) v \<and> take_bit (fst p) v = 0 \<and> (\<exists>j<k. bit (snd p) j)"

lemma ctz_step_lowest:
  assumes "lowest_below (2 * k) v p" "k \<le> 32" "0 < k"
  shows "lowest_below k v (ctz_step k p)"
proof -
  obtain res val where p: "p = (res, val)" by (cases p)
  have val: "val = drop_bit res v" and low: "take_bit res v = 0" and ex: "\<exists>j<2 * k. bit val j"
    using assms unfolding lowest_below_def p fst_conv snd_conv by blast+
  show ?thesis
  proof (cases "push_bit (64 - k) val = 0")
    case True
    have z: "\<not> bit val j" if "j < k" for j
    proof
      assume "bit val j"
      then have "bit (push_bit (64 - k) val) (j + (64 - k))" using that assms by (simp add: bit_push_bit_iff) linarith
      with True show False by simp
    qed
    with ex obtain j where "j < 2 * k" "bit val j" "k \<le> j" by (metis not_less)
    then have "j - k < k" "bit (drop_bit k val) (j - k)" by (auto simp: bit_simps)
    moreover have "take_bit (res + k) v = 0"
    proof (rule bit_word_eqI)
      fix n
      have "\<not> bit v n" if "n < res" using low that by (metis bit_take_bit_iff bit_0_eq bot_apply bot_bool_def)
      moreover have "\<not> bit v n" if "res \<le> n" "n < res + k" using z [of "n - res"] that by (simp add: val bit_simps)
      ultimately show "bit (take_bit (res + k) v) n = bit 0 n" by (cases "n < res") (auto simp: bit_take_bit_iff)
    qed
    ultimately show ?thesis using True by (auto simp: lowest_below_def ctz_step_def p val add.commute)
  next
    case False
    then obtain n where "bit (push_bit (64 - k) val) n" by (metis bit_eqI bit_0_eq bot_apply bot_bool_def)
    then have "n - (64 - k) < k" "bit val (n - (64 - k))" using assms by (auto simp: bit_simps)
    with False low show ?thesis by (auto simp: lowest_below_def ctz_step_def p val)
  qed
qed

lemma ctz_bit:
  assumes "val \<noteq> 0"
  shows "bit val (ctz val)" and "take_bit (ctz val) val = 0"
proof -
  obtain j where "bit val j" using assms by (metis bit_eqI bit_0_eq bot_apply bot_bool_def)
  then have "lowest_below (2 * 32) val (0, val)" using bit_imp_le_length [of val j] by (auto simp: lowest_below_def)
  note ctz_step_lowest [OF this]
  then have "lowest_below (2 * 16) val (ctz_step 32 (0, val))" by simp
  from ctz_step_lowest [OF this] have "lowest_below (2 * 8) val (ctz_step 16 (ctz_step 32 (0, val)))" by simp
  from ctz_step_lowest [OF this] have "lowest_below (2 * 4) val (ctz_step 8 (ctz_step 16 (ctz_step 32 (0, val))))" by simp
  from ctz_step_lowest [OF this] have "lowest_below (2 * 2) val (ctz_step 4 (ctz_step 8 (ctz_step 16 (ctz_step 32 (0, val)))))" by simp
  from ctz_step_lowest [OF this] have "lowest_below (2 * 1) val (ctz_step 2 (ctz_step 4 (ctz_step 8 (ctz_step 16 (ctz_step 32 (0, val))))))" by simp
  from ctz_step_lowest [OF this] have "lowest_below 1 val (ctz_step 1 (ctz_step 2 (ctz_step 4 (ctz_step 8 (ctz_step 16 (ctz_step 32 (0, val)))))))" by simp
  then show "bit val (ctz val)" "take_bit (ctz val) val = 0"
    using assms by (auto simp: ctz_def lowest_below_def bit_drop_bit_eq)
qed

definition highest_within :: "nat \<Rightarrow> uint64_t \<Rightarrow> nat \<times> uint64_t \<Rightarrow> bool" where
  "highest_within k v p \<longleftrightarrow> snd p = push_bit (fst p) v \<and> fst p \<le> 64 - k \<and> drop_bit (64 - fst p) v = 0 \<and> (\<exists>j<k. bit (snd p) (63 - j))"

lemma clz_step_highest:
  assumes "highest_within (2 * k) v p" "k \<le> 32" "0 < k"
  shows "highest_within k v (clz_step k p)"
proof -
  obtain res val where p: "p = (res, val)" by (cases p)
  have val: "val = push_bit res v" and hi: "drop_bit (64 - res) v = 0" and le: "res \<le> 64 - 2 * k" and ex: "\<exists>j<2 * k. bit val (63 - j)"
    using assms unfolding highest_within_def p fst_conv snd_conv by blast+
  show ?thesis
  proof (cases "drop_bit (64 - k) val = 0")
    case True
    have z: "\<not> bit val (64 - k + j)" for j
    proof -
      have "\<not> bit (drop_bit (64 - k) val) j" unfolding True by simp
      then show ?thesis by (simp add: bit_drop_bit_eq)
    qed
    obtain j where j: "j < 2 * k" "bit val (63 - j)" using ex by blast
    have "k \<le> j"
    proof (rule ccontr)
      assume "\<not> k \<le> j"
      then have "63 - j = 64 - k + (k - 1 - j)" using assms by simp
      with j z show False by metis
    qed
    note j = j this
    have "bit (push_bit k val) (63 - (j - k))" using j assms by (simp add: bit_push_bit_iff) linarith
    moreover have "drop_bit (64 - (res + k)) v = 0"
    proof (rule bit_word_eqI)
      fix n
      have "\<not> bit v (64 - (res + k) + n)"
      proof (cases "n < k")
        case True
        then have i: "res \<le> 64 - k + n" "64 - k + n < 64" "64 - k + n - res = 64 - (res + k) + n" using le assms by linarith+
        show ?thesis using z [of n] i unfolding val bit_push_bit_iff i(3) by simp
      next
        case False
        then have i: "64 - (res + k) + n = 64 - res + (n - k)" using le assms by linarith
        have "\<not> bit (drop_bit (64 - res) v) (n - k)" unfolding hi by simp
        then show ?thesis unfolding i by (simp add: bit_drop_bit_eq)
      qed
      then show "bit (drop_bit (64 - (res + k)) v) n = bit 0 n" by (simp add: bit_drop_bit_eq)
    qed
    moreover have "j - k < k" "res + k \<le> 64 - k" using j le assms by linarith+
    moreover have "clz_step k p = (res + k, push_bit k val)" using True by (simp add: clz_step_def p)
    ultimately show ?thesis unfolding highest_within_def by (auto simp: val add.commute)
  next
    case False
    then obtain n where "bit (drop_bit (64 - k) val) n" using bit_word_eqI [of "drop_bit (64 - k) val" 0] by auto
    then have n: "bit val (64 - k + n)" by (simp add: bit_drop_bit_eq)
    then have "n < k" using bit_imp_le_length [of val "64 - k + n"] assms by simp
    then have "k - 1 - n < k" "bit val (63 - (k - 1 - n))" using n assms by (simp_all add: add.commute)
    with False hi le show ?thesis by (auto simp: highest_within_def clz_step_def p val)
  qed
qed

lemma clz_bit:
  assumes "val \<noteq> 0"
  shows "clz val \<le> 63" and "bit val (63 - clz val)" and "drop_bit (64 - clz val) val = 0"
proof -
  obtain j where "bit val j" using assms by (metis bit_eqI bit_0_eq bot_apply bot_bool_def)
  then have "bit val (63 - (63 - j))" using bit_imp_le_length [of val j] by simp
  then have "highest_within (2 * 32) val (0, val)" by (auto simp: highest_within_def intro!: exI [of _ "63 - j"])
  from clz_step_highest [OF this] have "highest_within (2 * 16) val (clz_step 32 (0, val))" by simp
  from clz_step_highest [OF this] have "highest_within (2 * 8) val (clz_step 16 (clz_step 32 (0, val)))" by simp
  from clz_step_highest [OF this] have "highest_within (2 * 4) val (clz_step 8 (clz_step 16 (clz_step 32 (0, val))))" by simp
  from clz_step_highest [OF this] have "highest_within (2 * 2) val (clz_step 4 (clz_step 8 (clz_step 16 (clz_step 32 (0, val)))))" by simp
  from clz_step_highest [OF this] have "highest_within (2 * 1) val (clz_step 2 (clz_step 4 (clz_step 8 (clz_step 16 (clz_step 32 (0, val))))))" by simp
  from clz_step_highest [OF this] have "highest_within 1 val (clz_step 1 (clz_step 2 (clz_step 4 (clz_step 8 (clz_step 16 (clz_step 32 (0, val)))))))" by simp
  then show "clz val \<le> 63" "bit val (63 - clz val)" "drop_bit (64 - clz val) val = 0"
    using assms by (auto simp: clz_def highest_within_def bit_push_bit_iff)
qed

lemma log2_bounds:
  assumes "val \<noteq> 0"
  shows "2 ^ log2 val \<le> unat val" and "unat val < 2 ^ (log2 val + 1)"
proof -
  obtain n where n: "n = unat val" by simp
  have l: "log2 val = 63 - clz val" "64 - clz val = log2 val + 1" using assms clz_bit(1) [OF assms] by (simp_all add: log2_def)
  have "unat (drop_bit (log2 val + 1) val) = 0" using clz_bit(3) [OF assms] l by simp
  then have "n div 2 ^ (log2 val + 1) = 0" unfolding unat_drop_bit_div n [symmetric] .
  then show "unat val < 2 ^ (log2 val + 1)" unfolding n [symmetric] by (simp add: div_eq_0_iff)
  have "bit n (log2 val)" using clz_bit(2) [OF assms] by (simp add: l n bit_unsigned_iff)
  then show "2 ^ log2 val \<le> unat val" unfolding n [symmetric] bit_nat_def bit_iff_odd by (metis div_less even_zero not_less)
qed

lemma cto_loop_bits:
  "res \<le> cto_loop val res \<and> (\<forall>j < cto_loop val res - res. bit val j) \<and> \<not> bit val (cto_loop val res - res)"
proof (induction val res rule: cto_loop.induct)
  case (1 val res)
  show ?case
  proof (cases "val AND 1 = 1")
    case True
    then have b0: "bit val 0" by (simp add: and_one_eq bit_0 odd_iff_mod_2_eq_one)
    let ?c = "cto_loop (drop_bit 1 val) (res + 1)"
    have e: "cto_loop val res = ?c" using True by (simp add: cto_loop.simps [of val])
    note IH = 1 [OF True]
    have "bit val j" if "j < ?c - res" for j
      using IH b0 that by (cases j) (auto simp: bit_drop_bit_eq)
    moreover have "\<not> bit val (?c - res)" using IH Suc_diff_Suc [of res ?c] by (auto simp: bit_drop_bit_eq Suc_le_eq)
    ultimately show ?thesis unfolding e using IH by auto
  next
    case False
    then have "\<not> bit val 0" by (simp add: and_one_eq bit_0 odd_iff_mod_2_eq_one)
    then show ?thesis using False by (simp add: cto_loop.simps [of val])
  qed
qed

lemma cto_bits: "(\<forall>j<cto val. bit val j) \<and> \<not> bit val (cto val)"
  using cto_loop_bits [of 0 val] by (simp add: cto_def)

text \<open>
  The population count adds neighbouring digits in base \<open>2 ^ w\<close>, doubling \<open>w\<close> at each line: the sum of the
  digits never changes, from the 64 binary digits to the one digit of base \<open>2 ^ 64\<close>.
\<close>

primrec digit_sum :: "nat \<Rightarrow> nat \<Rightarrow> nat \<Rightarrow> nat" where
  "digit_sum B 0 n = 0"
| "digit_sum B (Suc k) n = n mod B + digit_sum B k (n div B)"

primrec pair_sums :: "nat \<Rightarrow> nat \<Rightarrow> nat \<Rightarrow> nat" where
  "pair_sums w 0 n = 0"
| "pair_sums w (Suc k) n = n mod 2 ^ w + n div 2 ^ w mod 2 ^ w + 2 ^ (2 * w) * pair_sums w k (n div 2 ^ (2 * w))"

primrec pair_mask :: "nat \<Rightarrow> nat \<Rightarrow> nat" where
  "pair_mask w 0 = 0"
| "pair_mask w (Suc k) = 2 ^ w - 1 + 2 ^ (2 * w) * pair_mask w k"

lemma nat_and_concat:
  fixes n a b :: nat
  assumes "a < 2 ^ m"
  shows "n AND (a + 2 ^ m * b) = (n AND a) + 2 ^ m * (n div 2 ^ m AND b)"
proof -
  let ?x = "n AND (a + 2 ^ m * b)"
  have "take_bit m (a + 2 ^ m * b) = a" "drop_bit m (a + 2 ^ m * b) = b"
    using assms by (simp_all add: take_bit_eq_mod drop_bit_eq_div)
  moreover have "take_bit m n AND a = n AND a"
    using take_bit_nat_eq_self [OF assms] bit_eqI [of "take_bit m n AND a" "n AND a"] by (metis bit_and_iff bit_take_bit_iff)
  ultimately have "take_bit m ?x = n AND a" "drop_bit m ?x = n div 2 ^ m AND b"
    unfolding take_bit_and drop_bit_and by (simp_all only: drop_bit_eq_div)
  then show ?thesis using bits_ident [of m ?x] unfolding push_bit_eq_mult by (simp only: add.commute mult.commute)
qed

lemma pair_mask_sums:
  assumes "0 < w"
  shows "(n AND pair_mask w k) + (n div 2 ^ w AND pair_mask w k) = pair_sums w k n"
proof (induction k arbitrary: n)
  case (Suc k)
  have a: "(2::nat) ^ w - 1 < 2 ^ (2 * w)"
    using power_increasing [of w "2 * w" "2::nat"] zero_less_power [of "2::nat" w] by linarith
  have m: "x AND (2 ^ w - 1) = x mod 2 ^ w" for x :: nat by (rule nat_and_mask) simp
  have "n div 2 ^ w div 2 ^ (2 * w) = n div 2 ^ (2 * w) div 2 ^ w" by (simp add: div_mult2_eq [symmetric] mult.commute)
  then show ?case unfolding pair_mask.simps pair_sums.simps nat_and_concat [OF a] m Suc [symmetric]
    by (simp only: distrib_left add.assoc add.commute add.left_commute)
qed simp

lemma pair_small:
  assumes "0 < w"
  shows "n mod 2 ^ w + n div 2 ^ w mod 2 ^ w < (2::nat) ^ (2 * w)"
proof -
  have "n mod 2 ^ w < 2 ^ w" "n div 2 ^ w mod 2 ^ w < (2::nat) ^ w" by simp_all
  moreover have "2 * 2 ^ w \<le> (2::nat) ^ (2 * w)" using power_increasing [of "Suc w" "2 * w" "2::nat"] assms by simp
  ultimately show ?thesis by linarith
qed

lemma digit_sum_pairs:
  assumes "0 < w"
  shows "digit_sum (2 ^ (2 * w)) k (pair_sums w k n) = digit_sum (2 ^ w) (2 * k) n"
proof (induction k arbitrary: n)
  case (Suc k)
  have "n div 2 ^ w div 2 ^ w = n div 2 ^ (2 * w)" by (simp add: div_mult2_eq [symmetric] power_add [symmetric] mult_2)
  then show ?case using Suc pair_small [OF assms, of n] by simp
qed simp

lemma pair_sums_less:
  assumes "0 < w"
  shows "pair_sums w k n < 2 ^ (2 * w * k)"
proof (induction k arbitrary: n)
  case (Suc k)
  have "pair_sums w (Suc k) n < 2 ^ (2 * w) + 2 ^ (2 * w) * pair_sums w k (n div 2 ^ (2 * w))"
    using pair_small [OF assms, of n] by simp
  also have "\<dots> = 2 ^ (2 * w) * (1 + pair_sums w k (n div 2 ^ (2 * w)))" by (simp add: algebra_simps)
  also have "\<dots> \<le> 2 ^ (2 * w) * 2 ^ (2 * w * k)" using Suc [of "n div 2 ^ (2 * w)"] by (intro mult_le_mono) simp_all
  finally show ?case by (simp add: power_add [symmetric])
qed simp

lemma popcount_step:
  fixes val m :: uint64_t
  assumes "0 < w" "w * k = 32" "unat m = pair_mask w k"
  shows "digit_sum (2 ^ (2 * w)) k (unat ((val AND m) + (drop_bit w val AND m))) = digit_sum (2 ^ w) (2 * k) (unat val)"
proof -
  obtain n where n: "n = unat val" by simp
  have u: "unat (val AND m) = n AND pair_mask w k" "unat (drop_bit w val AND m) = n div 2 ^ w AND pair_mask w k"
    by (simp_all add: unat_and_distrib assms n unat_drop_bit_div)
  have "unat ((val AND m) + (drop_bit w val AND m)) = pair_sums w k n"
    using pair_sums_less [OF assms(1), of k n] assms(2) pair_mask_sums [OF assms(1), of n k] u
    by (subst unat_add_nowrap) (simp_all add: mult.assoc)
  then show ?thesis unfolding n [symmetric] by (simp add: digit_sum_pairs [OF assms(1)])
qed

lemma digit_sum_binary: "digit_sum 2 k n = card {i. i < k \<and> bit n i}"
proof -
  have "digit_sum 2 k n = (\<Sum>i<k. of_bool (bit n i))"
    by (induction k arbitrary: n) (simp_all add: sum.lessThan_Suc_shift bit_Suc bit_0 mod2_eq_if del: sum.lessThan_Suc)
  then show ?thesis by (simp add: sum_of_bool_eq lessThan_def Collect_conj_eq)
qed

lemma pair_mask_numeral: "pair_mask w (numeral k) = 2 ^ w - 1 + 2 ^ (2 * w) * pair_mask w (pred_numeral k)"
  by (simp add: numeral_eq_Suc)

lemma pair_masks:
  "pair_mask (Suc 0) 32 = 0x5555555555555555" "pair_mask 2 16 = 0x3333333333333333" "pair_mask 4 8 = 0x0f0f0f0f0f0f0f0f"
  "pair_mask 8 4 = 0x00ff00ff00ff00ff" "pair_mask 16 2 = 0x0000ffff0000ffff" "pair_mask 32 (Suc 0) = 0x00000000ffffffff"
  by (simp_all add: pair_mask_numeral)

lemma popcount_card: "unat (popcount val) = card {i. bit val i}"
proof -
  define step where "step w m v = (v AND m) + (drop_bit w v AND m)" for w and m v :: uint64_t
  define v1 where "v1 = step 1 0x5555555555555555 val"
  define v2 where "v2 = step 2 0x3333333333333333 v1"
  define v3 where "v3 = step 4 0x0f0f0f0f0f0f0f0f v2"
  define v4 where "v4 = step 8 0x00ff00ff00ff00ff v3"
  define v5 where "v5 = step 16 0x0000ffff0000ffff v4"
  define v6 where "v6 = step 32 0x00000000ffffffff v5"
  note steps = v1_def v2_def v3_def v4_def v5_def v6_def step_def
  have e: "digit_sum (2 ^ (2 * 32)) 1 (unat v6) = digit_sum (2 ^ 32) (2 * 1) (unat v5)"
    "digit_sum (2 ^ (2 * 16)) 2 (unat v5) = digit_sum (2 ^ 16) (2 * 2) (unat v4)"
    "digit_sum (2 ^ (2 * 8)) 4 (unat v4) = digit_sum (2 ^ 8) (2 * 4) (unat v3)"
    "digit_sum (2 ^ (2 * 4)) 8 (unat v3) = digit_sum (2 ^ 4) (2 * 8) (unat v2)"
    "digit_sum (2 ^ (2 * 2)) 16 (unat v2) = digit_sum (2 ^ 2) (2 * 16) (unat v1)"
    "digit_sum (2 ^ (2 * 1)) 32 (unat v1) = digit_sum (2 ^ 1) (2 * 32) (unat val)"
    unfolding steps by (rule popcount_step; simp add: pair_masks)+
  have "unat (popcount val) = unat v6" unfolding popcount_def Let_def steps by (rule refl)
  also have "\<dots> = digit_sum (2 ^ (2 * 32)) 1 (unat v6)" using unat_less_pow2 [of v6] by simp
  also have "\<dots> = digit_sum 2 64 (unat val)" using e by simp
  also have "\<dots> = card {i. bit val i}"
    unfolding digit_sum_binary using bit_imp_le_length [of val] by (intro arg_cong [of _ _ card]) (auto simp: bit_unsigned_iff)
  finally show ?thesis .
qed

section \<open>Bit fields\<close>

lemma extract64_bits:
  assumes "extract64 val pos len = Some r"
  shows "bit r n \<longleftrightarrow> n < nat len \<and> bit val (nat pos + n)"
  using assms by (auto simp: extract64_def bit_simps split: if_splits)

lemma minus_1_64: "0xFFFFFFFFFFFFFFFF = (- 1 :: uint64_t)"
  by simp

lemma make_mask64_bits:
  assumes "make_mask64 pos len = Some r"
  shows "bit r n \<longleftrightarrow> n < 64 \<and> nat pos \<le> n \<and> n < nat pos + nat len"
proof -
  have "0 \<le> pos" "0 < len" "pos < 64" "len \<le> 64"
    and r: "r = push_bit (nat pos) (drop_bit (nat (64 - len)) 0xFFFFFFFFFFFFFFFF)"
    using assms unfolding make_mask64_def by (metis option.distinct(1) option.inject)+
  then show ?thesis unfolding r minus_1_64 by (auto simp: bit_simps)
qed

section \<open>Rotations\<close>

lemma unat_of_nat_small: "n < 2 ^ 64 \<Longrightarrow> unat (of_nat n :: uint64_t) = n"
  by (simp add: unat_of_nat take_bit_eq_mod)

lemma rotate_amount:
  fixes s :: uint64_t
  assumes L: "LENGTH('a::len) = 2 ^ k" and k: "k \<le> 6"
  defines "m \<equiv> of_nat LENGTH('a) - 1 :: uint64_t"
  shows "unat (s AND m) = unat s mod LENGTH('a)" and "unat (- (s AND m) AND m) = (LENGTH('a) - unat s mod LENGTH('a)) mod LENGTH('a)"
proof -
  have "(2::nat) ^ k \<le> 2 ^ 6" using k by (intro power_increasing) simp_all
  then have "unat (of_nat (2 ^ k) :: uint64_t) = 2 ^ k" by (intro unat_of_nat_small) simp
  then have um: "unat m = 2 ^ k - 1" unfolding m_def L by (simp add: unat_diff_nowrap)
  have a: "unat (x AND m) = unat x mod LENGTH('a)" for x :: uint64_t
    unfolding L by (rule unat_and_mask) (use um in simp)
  show "unat (s AND m) = unat s mod LENGTH('a)" by (rule a)
  obtain n where n: "n = unat s mod LENGTH('a)" by simp
  have nlt: "n < 2 ^ k" unfolding n L by simp
  have d: "(2::nat) ^ k dvd 2 ^ 64" using k by (intro le_imp_power_dvd) simp
  have "unat (- (s AND m)) mod 2 ^ k = (2 ^ k - n) mod 2 ^ k"
  proof (cases "n = 0")
    case True
    then have "s AND m = 0" using a [of s] n by (simp add: unat_eq_zero)
    then show ?thesis using True by simp
  next
    case False
    then have "unat (- (s AND m)) = 2 ^ 64 - n" using a [of s] n by (subst unat_neg) auto
    also have "\<dots> = (2 ^ k - n) + (2 ^ 64 - 2 ^ k)" using nlt dvd_imp_le [OF d] by simp
    finally show ?thesis using d by (simp add: mod_add_right_eq [symmetric] dvd_imp_mod_0 dvd_diff_nat)
  qed
  then show "unat (- (s AND m) AND m) = (LENGTH('a) - unat s mod LENGTH('a)) mod LENGTH('a)"
    unfolding a n L by simp
qed

lemma rotate_right_rotr:
  fixes x :: "'a::len word"
  assumes L: "LENGTH('a::len) = 2 ^ k" and k: "k \<le> 6"
  shows "rotate_right x s = word_rotr (unat s) x"
proof (rule bit_word_eqI)
  fix n assume n: "n < LENGTH('a)"
  define r where "r = unat s mod LENGTH('a)"
  have r: "r < LENGTH('a)" by (simp add: r_def)
  have am: "unat (s AND (of_nat LENGTH('a) - 1)) = r" "unat (- (s AND (of_nat LENGTH('a) - 1)) AND (of_nat LENGTH('a) - 1)) = (LENGTH('a) - r) mod LENGTH('a)"
    unfolding r_def by (rule rotate_amount [OF assms])+
  have "bit (rotate_right x s) n \<longleftrightarrow> ((LENGTH('a) - r) mod LENGTH('a) \<le> n \<and> bit x (n - (LENGTH('a) - r) mod LENGTH('a))) \<or> bit x (r + n)"
    unfolding rotate_right_def Let_def bit_or_iff bit_push_bit_iff bit_drop_bit_eq comp_apply am
    using n by simp
  also have "\<dots> \<longleftrightarrow> bit x ((n + r) mod LENGTH('a))"
    using n r bit_imp_le_length [of x "r + n"] by (cases "r = 0") (auto simp: mod_if le_mod_geq add.commute)
  finally show "bit (rotate_right x s) n = bit (word_rotr (unat s) x) n"
    using n by (simp add: bit_word_rotr_iff r_def mod_simps)
qed

lemma rotate_left_rotl:
  fixes x :: "'a::len word"
  assumes L: "LENGTH('a::len) = 2 ^ k" and k: "k \<le> 6"
  shows "rotate_left x s = word_rotl (unat s) x"
proof (rule bit_word_eqI)
  fix n assume n: "n < LENGTH('a)"
  define r where "r = unat s mod LENGTH('a)"
  have r: "r < LENGTH('a)" by (simp add: r_def)
  have am: "unat (s AND (of_nat LENGTH('a) - 1)) = r" "unat (- (s AND (of_nat LENGTH('a) - 1)) AND (of_nat LENGTH('a) - 1)) = (LENGTH('a) - r) mod LENGTH('a)"
    unfolding r_def by (rule rotate_amount [OF assms])+
  have "bit (rotate_left x s) n \<longleftrightarrow> (r \<le> n \<and> bit x (n - r)) \<or> bit x ((LENGTH('a) - r) mod LENGTH('a) + n)"
    unfolding rotate_left_def Let_def bit_or_iff bit_push_bit_iff bit_drop_bit_eq comp_apply am using n by simp
  also have "\<dots> \<longleftrightarrow> bit x ((n + (LENGTH('a) - r)) mod LENGTH('a))"
    using n r bit_imp_le_length [of x "LENGTH('a) - r + n"] by (cases "r = 0") (auto simp: mod_if le_mod_geq add.commute)
  finally show "bit (rotate_left x s) n = bit (word_rotl (unat s) x) n"
    using n by (simp add: bit_word_rotl_iff r_def mod_simps)
qed

section \<open>Reference definitions\<close>

lemma bits_finite: "finite {i. bit (val :: uint64_t) i}"
  by (rule finite_subset [of _ "{..<64}"]) (use bit_imp_le_length [of val] in auto)

lemma ctz_Min:
  assumes "val \<noteq> 0"
  shows "ctz val = Min {i. bit val i}"
proof (rule Min_eqI [OF bits_finite, symmetric])
  fix i assume "i \<in> {i. bit val i}"
  show "ctz val \<le> i"
  proof (rule ccontr)
    assume "\<not> ctz val \<le> i"
    then have "bit (take_bit (ctz val) val) i" using \<open>i \<in> _\<close> by (simp add: bit_take_bit_iff)
    then show False unfolding ctz_bit(2) [OF assms] by simp
  qed
qed (use ctz_bit(1) [OF assms] in simp)

lemma clz_Max:
  assumes "val \<noteq> 0"
  shows "63 - clz val = Max {i. bit val i}"
proof (rule Max_eqI [OF bits_finite, symmetric])
  fix i assume i: "i \<in> {i. bit val i}"
  show "i \<le> 63 - clz val"
  proof (rule ccontr)
    assume "\<not> i \<le> 63 - clz val"
    then have "64 - clz val + (i - (64 - clz val)) = i" using clz_bit(1) [OF assms] by simp
    then have "bit (drop_bit (64 - clz val) val) (i - (64 - clz val))" using i by (simp add: bit_drop_bit_eq)
    then show False unfolding clz_bit(3) [OF assms] by simp
  qed
qed (use clz_bit(2) [OF assms] in simp)

lemma cto_Least: "cto val = (LEAST i. \<not> bit val i)"
  by (rule Least_equality [symmetric]) (use cto_bits [of val] in \<open>auto simp: not_less [symmetric]\<close>)

section \<open>Properties\<close>

text \<open>C30. The saturating helpers return the exact result clamped to the range of the type, and report
  saturation exactly when the exact result is out of range, for operands of any width: two and three
  signed summands, a signed difference, an unsigned sum and an unsigned difference.\<close>

theorem saturation_correct:
  fixes x y z :: "'a::len word"
  shows "let N = 2 ^ (LENGTH('a) - 1) :: int; sat = \<lambda>i. (clamp (- N) (N - 1) i, i < - N \<or> N - 1 < i)
     in map_prod sint id (sat_add x y) = sat (sint x + sint y) \<and>
        map_prod sint id (sat_add3 x y z) = sat (sint x + sint y + sint z) \<and>
        map_prod sint id (sat_sub x y) = sat (sint x - sint y) \<and>
        map_prod unat id (sat_addu x y) = (min (2 ^ LENGTH('a) - 1) (unat x + unat y), 2 ^ LENGTH('a) \<le> unat x + unat y) \<and>
        map_prod unat id (sat_subu x y) = (unat x - unat y, unat x < unat y)"
  unfolding Let_def prod_eq_iff fst_map_prod snd_map_prod fst_conv snd_conv id_apply
  by (simp only: sat_add_correct sat_add3_correct sat_sub_correct sat_addu_correct sat_subu_correct)

text \<open>C31. The branch-free population count and the bisecting bit scans equal their defining
  counts: the number of set bits, the position of the lowest and of the highest set bit, and the length of
  the run of ones at the bottom (the scans return 0 for a zero argument, as the code does).\<close>

theorem bit_counts_correct:
  "unat (popcount val) = card {i. bit val i} \<and>
   ctz val = (if val = 0 then 0 else Min {i. bit val i}) \<and>
   clz val = (if val = 0 then 0 else 63 - Max {i. bit val i}) \<and>
   log2 val = (if val = 0 then 0 else Max {i. bit val i}) \<and>
   cto val = (LEAST i. \<not> bit val i)"
proof -
  have "clz val = 63 - Max {i. bit val i}" if "val \<noteq> 0"
    unfolding clz_Max [OF that, symmetric] using clz_bit(1) [OF that] by simp
  moreover have "log2 val = Max {i. bit val i}" if "val \<noteq> 0"
    using clz_Max [OF that] that by (simp add: log2_def)
  ultimately show ?thesis using popcount_card cto_Least ctz_Min by (simp add: ctz_def clz_def log2_def)
qed

text \<open>On the unsigned types of the code (a width that is a power of two, at most 64), \<open>rotate_right\<close> and \<open>rotate_left\<close> are the rotations, the
  shift amount counts modulo the width, and each undoes the other.\<close>

lemma rotate_roundtrip:
  fixes x :: "'a::len word"
  assumes "LENGTH('a) = 2 ^ k" and "k \<le> 6"
  shows "rotate_right x s = word_rotr (unat s) x \<and> rotate_left x s = word_rotl (unat s) x \<and>
    rotate_left (rotate_right x s) s = x \<and> rotate_right (rotate_left x s) s = x"
  by (simp add: rotate_right_rotr [OF assms] rotate_left_rotl [OF assms])

end
