(* ===== verification/PMP.thy ===== *)
theory PMP
  imports Arith
begin

text \<open>
  Physical memory protection (\<^verbatim>\<open>riscv/csrs.cc\<close>, classes \<open>pmpaddr_csr_t\<close>, \<open>pmpcfg_csr_t\<close> and \<open>mseccfg_csr_t\<close>;
  \<^verbatim>\<open>riscv/mmu.cc\<close>, \<open>pmp_ok\<close> and \<open>pmp_homogeneous\<close>; \<^verbatim>\<open>riscv/processor.cc\<close>, \<open>reset\<close>). The registers are a list
  of entries, each an address and a configuration byte, and the security configuration register. Writes
  return the new state and whether the write took effect. The parameters of the hart that the code
  reads (number of entries, granularity, widths, extensions) are fields of the state that no write
  changes.

  The lemmas show which addresses an entry matches, that a locked entry is out of reach of every
  sequence of register writes, which configurations are reachable, and that the check the TLB refill
  makes before it caches a translation is sound.
\<close>

type_synonym reg_t = uint64_t

section \<open>Constants\<close>

definition PMP_R :: uint8_t where "PMP_R = 0x01"
definition PMP_W :: uint8_t where "PMP_W = 0x02"
definition PMP_X :: uint8_t where "PMP_X = 0x04"
definition PMP_A :: uint8_t where "PMP_A = 0x18"
definition PMP_L :: uint8_t where "PMP_L = 0x80"
definition PMP_SHIFT :: nat where "PMP_SHIFT = 2"
definition PMP_TOR :: uint8_t where "PMP_TOR = 0x08"
definition PMP_NA4 :: uint8_t where "PMP_NA4 = 0x10"
definition PMP_NAPOT :: uint8_t where "PMP_NAPOT = 0x18"

definition MSECCFG_MML :: reg_t where "MSECCFG_MML = 0x1"
definition MSECCFG_MMWP :: reg_t where "MSECCFG_MMWP = 0x2"
definition MSECCFG_RLB :: reg_t where "MSECCFG_RLB = 0x4"
definition MSECCFG_USEED :: reg_t where "MSECCFG_USEED = 0x100"
definition MSECCFG_SSEED :: reg_t where "MSECCFG_SSEED = 0x200"
definition MSECCFG_MLPE :: reg_t where "MSECCFG_MLPE = 0x400"
definition MSECCFG_PMM :: reg_t where "MSECCFG_PMM = 0x0000000300000000"

definition PRV_U :: reg_t where "PRV_U = 0"
definition PRV_S :: reg_t where "PRV_S = 1"
definition PRV_M :: reg_t where "PRV_M = 3"
definition PRV_HS :: reg_t where "PRV_HS = PRV_S + 1"

lemmas pmp_consts =
  PMP_R_def PMP_W_def PMP_X_def PMP_A_def PMP_L_def PMP_SHIFT_def PMP_TOR_def PMP_NA4_def PMP_NAPOT_def
lemmas mseccfg_consts =
  MSECCFG_MML_def MSECCFG_MMWP_def MSECCFG_RLB_def MSECCFG_USEED_def MSECCFG_SSEED_def MSECCFG_MLPE_def MSECCFG_PMM_def
lemmas prv_consts = PRV_U_def PRV_S_def PRV_M_def PRV_HS_def

definition get_field :: "reg_t \<Rightarrow> reg_t \<Rightarrow> reg_t" where
  "get_field reg msk = (reg AND msk) div (msk AND NOT (push_bit 1 msk))"

definition set_field :: "reg_t \<Rightarrow> reg_t \<Rightarrow> reg_t \<Rightarrow> reg_t" where
  "set_field reg msk val = (reg AND NOT msk) OR ((val * (msk AND NOT (push_bit 1 msk))) AND msk)"

datatype access_type = LOAD | STORE | FETCH

section \<open>State\<close>

record pmpaddr_csr_t =
  pmp_val :: reg_t
  pmp_cfg :: uint8_t

definition max_pmp :: nat where "max_pmp = 64"

record pmp_state =
  pmpaddr :: "pmpaddr_csr_t list"
  mseccfg :: reg_t
  n_pmp :: nat
  lg_pmp_granularity :: nat
  max_xlen :: nat
  cur_xlen :: nat
  ext_zkr :: bool
  ext_zicfilp :: bool
  ext_smmpm :: bool

definition pmp_tor_mask :: "pmp_state \<Rightarrow> reg_t" where
  "pmp_tor_mask s = - (push_bit (lg_pmp_granularity s - PMP_SHIFT) 1)"

definition paddr_bits :: "pmp_state \<Rightarrow> nat" where
  "paddr_bits s = (if max_xlen s = 64 then 56 else 34)"

definition get_mml :: "pmp_state \<Rightarrow> bool" where
  "get_mml s \<longleftrightarrow> mseccfg s AND MSECCFG_MML \<noteq> 0"

definition get_mmwp :: "pmp_state \<Rightarrow> bool" where
  "get_mmwp s \<longleftrightarrow> mseccfg s AND MSECCFG_MMWP \<noteq> 0"

definition get_rlb :: "pmp_state \<Rightarrow> bool" where
  "get_rlb s \<longleftrightarrow> mseccfg s AND MSECCFG_RLB \<noteq> 0"

definition is_locked :: "pmpaddr_csr_t \<Rightarrow> bool" where
  "is_locked e \<longleftrightarrow> pmp_cfg e AND PMP_L \<noteq> 0"

section \<open>Access to the registers\<close>

datatype csr_trap = trap_illegal_instruction | trap_virtual_instruction

definition csr_verify_permissions ::
  "reg_t \<Rightarrow> reg_t \<Rightarrow> bool \<Rightarrow> bool \<Rightarrow> bool \<Rightarrow> bool \<Rightarrow> csr_trap option" where
  "csr_verify_permissions address prv v ext_S ext_H write =
     (let csr_priv = get_field address 0x300;
          csr_read_only = (get_field address 0xC00 = 3);
          priv = (if prv = PRV_S \<and> \<not> v then PRV_HS else prv)
      in if csr_priv = PRV_S \<and> \<not> ext_S \<or> csr_priv = PRV_HS \<and> \<not> ext_H then Some trap_illegal_instruction
         else if write \<and> csr_read_only then Some trap_illegal_instruction
         else if priv < csr_priv then
           if v \<and> csr_priv \<le> PRV_HS then Some trap_virtual_instruction else Some trap_illegal_instruction
         else None)"

definition pmp_verify_permissions ::
  "pmp_state \<Rightarrow> reg_t \<Rightarrow> reg_t \<Rightarrow> bool \<Rightarrow> bool \<Rightarrow> bool \<Rightarrow> bool \<Rightarrow> csr_trap option" where
  "pmp_verify_permissions s address prv v ext_S ext_H write =
     (case csr_verify_permissions address prv v ext_S ext_H write of
        Some t \<Rightarrow> Some t
      | None \<Rightarrow> if n_pmp s = 0 then Some trap_illegal_instruction else None)"

section \<open>Address registers\<close>

definition pmpaddr_read :: "pmp_state \<Rightarrow> nat \<Rightarrow> reg_t" where
  "pmpaddr_read s i =
     (let e = pmpaddr s ! i
      in if PMP_NAPOT \<le> pmp_cfg e AND PMP_A
         then pmp_val e OR drop_bit 1 (NOT (pmp_tor_mask s))
         else pmp_val e AND pmp_tor_mask s)"

definition next_locked_and_tor :: "pmp_state \<Rightarrow> nat \<Rightarrow> bool" where
  "next_locked_and_tor s i =
     (if max_pmp \<le> i + 1 then False
      else
        let lock_bypass = get_rlb s;
            next_locked = (\<not> lock_bypass \<and> pmp_cfg (pmpaddr s ! (i + 1)) AND PMP_L \<noteq> 0);
            next_tor = (pmp_cfg (pmpaddr s ! (i + 1)) AND PMP_A = PMP_TOR)
        in next_locked \<and> next_tor)"

definition pmpaddr_write :: "nat \<Rightarrow> reg_t \<Rightarrow> pmp_state \<Rightarrow> bool \<times> pmp_state" where
  "pmpaddr_write i v s =
     (if n_pmp s = 0 then (False, s)
      else
        let lock_bypass = get_rlb s;
            locked = (\<not> lock_bypass \<and> pmp_cfg (pmpaddr s ! i) AND PMP_L \<noteq> 0)
        in if i < n_pmp s \<and> \<not> locked \<and> \<not> next_locked_and_tor s i
           then (True, s\<lparr>pmpaddr := (pmpaddr s)[i := (pmpaddr s ! i)\<lparr>pmp_val :=
                          v AND (push_bit (paddr_bits s - PMP_SHIFT) 1 - 1)\<rparr>]\<rparr>)
           else (False, s))"

definition tor_paddr :: "pmp_state \<Rightarrow> nat \<Rightarrow> reg_t" where
  "tor_paddr s i = push_bit PMP_SHIFT (pmp_val (pmpaddr s ! i) AND pmp_tor_mask s)"

definition tor_base_paddr :: "pmp_state \<Rightarrow> nat \<Rightarrow> reg_t" where
  "tor_base_paddr s i = (if i = 0 then 0 else tor_paddr s (i - 1))"

definition napot_mask :: "pmp_state \<Rightarrow> nat \<Rightarrow> reg_t" where
  "napot_mask s i =
     (let e = pmpaddr s ! i;
          is_na4 = (pmp_cfg e AND PMP_A = PMP_NA4);
          msk = push_bit 1 (pmp_val e) OR of_bool (\<not> is_na4) OR NOT (pmp_tor_mask s)
      in push_bit PMP_SHIFT (NOT (msk AND NOT (msk + 1))))"

definition match4 :: "pmp_state \<Rightarrow> nat \<Rightarrow> reg_t \<Rightarrow> bool" where
  "match4 s i addr =
     (let e = pmpaddr s ! i
      in if pmp_cfg e AND PMP_A = 0 then False
         else if pmp_cfg e AND PMP_A = PMP_TOR then tor_base_paddr s i \<le> addr \<and> addr < tor_paddr s i
         else (addr XOR tor_paddr s i) AND napot_mask s i = 0)"

definition subset_match :: "pmp_state \<Rightarrow> nat \<Rightarrow> reg_t \<Rightarrow> reg_t \<Rightarrow> bool option" where
  "subset_match s i addr len =
     (if (addr OR len) AND (len - 1) \<noteq> 0 then None
      else
        let base = tor_base_paddr s i;
            tor = tor_paddr s i
        in if pmp_cfg (pmpaddr s ! i) AND PMP_A = 0 then Some False
           else
             let is_tor = (pmp_cfg (pmpaddr s ! i) AND PMP_A = PMP_TOR);
                 begins_after_lower = (base \<le> addr);
                 begins_after_upper = (tor \<le> addr);
                 ends_before_lower = (addr AND - len < base AND - len);
                 ends_before_upper = (addr AND - len < tor AND - len);
                 tor_homogeneous = (ends_before_lower \<or> begins_after_upper \<or> (begins_after_lower \<and> ends_before_upper));
                 mask_homogeneous = (NOT (push_bit 1 (napot_mask s i)) AND len \<noteq> 0);
                 napot_homogeneous = (mask_homogeneous \<or> (addr XOR tor) div len \<noteq> 0)
             in Some (\<not> (if is_tor then tor_homogeneous else napot_homogeneous)))"

definition access_ok :: "pmp_state \<Rightarrow> nat \<Rightarrow> access_type \<Rightarrow> reg_t \<Rightarrow> bool \<Rightarrow> bool" where
  "access_ok s i type mode hlvx =
     (let cfg = pmp_cfg (pmpaddr s ! i);
          cfgx = (cfg AND PMP_X \<noteq> 0);
          cfgw = (cfg AND PMP_W \<noteq> 0);
          cfgr = (cfg AND PMP_R \<noteq> 0);
          cfgl = (cfg AND PMP_L \<noteq> 0);
          prvm = (mode = PRV_M);
          typer = (type = LOAD);
          typex = (type = FETCH);
          typew = (type = STORE);
          normal_rwx = (typer \<and> cfgr \<and> (\<not> hlvx \<or> cfgx) \<or> typew \<and> cfgw \<or> typex \<and> cfgx);
          mseccfg_mml = get_mml s
      in if mseccfg_mml then
           if cfgx \<and> cfgw \<and> cfgr \<and> cfgl then typer \<and> \<not> hlvx
           else
             let mml_shared_region = (\<not> cfgr \<and> cfgw);
                 mml_chk_normal = ((prvm = cfgl) \<and> normal_rwx);
                 mml_chk_shared =
                   (\<not> cfgl \<and> cfgx \<and> (typer \<and> \<not> hlvx \<or> typew) \<or>
                    \<not> cfgl \<and> \<not> cfgx \<and> (typer \<and> \<not> hlvx \<or> typew \<and> prvm) \<or>
                    cfgl \<and> typex \<or>
                    cfgl \<and> typer \<and> cfgx \<and> prvm)
             in if mml_shared_region then mml_chk_shared else mml_chk_normal
         else
           let m_bypass = (prvm \<and> \<not> cfgl)
           in m_bypass \<or> normal_rwx)"

section \<open>Configuration registers\<close>

definition pmpcfg_read :: "pmp_state \<Rightarrow> nat \<Rightarrow> reg_t" where
  "pmpcfg_read s k =
     (let i0 = k * 4
      in foldl (\<lambda>cfg_res i. cfg_res OR push_bit (8 * (i - i0)) (ucast (pmp_cfg (pmpaddr s ! i))))
           0 (filter (\<lambda>i. i < max_pmp) [i0..<i0 + cur_xlen s div 8]))"

definition pmpcfg_legalize :: "pmp_state \<Rightarrow> uint8_t \<Rightarrow> uint8_t" where
  "pmpcfg_legalize s cfg =
     (let cfg = (if \<not> get_mml s then cfg AND (NOT PMP_W OR (if cfg AND PMP_R \<noteq> 0 then PMP_W else 0)) else cfg)
      in if lg_pmp_granularity s \<noteq> PMP_SHIFT \<and> cfg AND PMP_A = PMP_NA4 then cfg OR PMP_NAPOT else cfg)"

definition pmpcfg_entry_write :: "reg_t \<Rightarrow> nat \<Rightarrow> nat \<Rightarrow> pmp_state \<Rightarrow> pmp_state" where
  "pmpcfg_entry_write v i0 i s =
     (let rlb = get_rlb s;
          mml = get_mml s;
          locked = (pmp_cfg (pmpaddr s ! i) AND PMP_L \<noteq> 0)
      in if rlb \<or> \<not> locked then
           let cfg = ucast (drop_bit (8 * (i - i0)) v) AND (PMP_R OR PMP_W OR PMP_X OR PMP_A OR PMP_L);
               cfg = pmpcfg_legalize s cfg;
               cfgx = (cfg AND PMP_X \<noteq> 0);
               cfgw = (cfg AND PMP_W \<noteq> 0);
               cfgr = (cfg AND PMP_R \<noteq> 0)
           in if rlb \<or> \<not> (mml \<and> (cfg AND PMP_L \<noteq> 0 \<and> \<not> (cfgx \<and> cfgw \<and> cfgr) \<and> (cfgx \<or> (cfgw \<and> \<not> cfgr))))
              then s\<lparr>pmpaddr := (pmpaddr s)[i := (pmpaddr s ! i)\<lparr>pmp_cfg := cfg\<rparr>]\<rparr>
              else s
         else s)"

definition pmpcfg_write :: "nat \<Rightarrow> reg_t \<Rightarrow> pmp_state \<Rightarrow> bool \<times> pmp_state" where
  "pmpcfg_write k v s =
     (if n_pmp s = 0 then (False, s)
      else
        let i0 = k * 4
        in foldl (\<lambda>(write_success, s) i. if i < n_pmp s then (True, pmpcfg_entry_write v i0 i s) else (write_success, s))
             (False, s) [i0..<i0 + cur_xlen s div 8])"

definition mseccfg_write :: "reg_t \<Rightarrow> pmp_state \<Rightarrow> bool \<times> pmp_state" where
  "mseccfg_write v s =
     (let new_val = mseccfg s;
          new_val =
            (if n_pmp s \<noteq> 0 then
               let pmplock_recorded = list_ex is_locked (take (n_pmp s) (pmpaddr s));
                   new_val = (if \<not> (pmplock_recorded \<and> mseccfg s AND MSECCFG_RLB = 0)
                              then (new_val AND NOT MSECCFG_RLB) OR (v AND MSECCFG_RLB) else new_val);
                   new_val = new_val OR (v AND MSECCFG_MMWP)
               in new_val OR (v AND MSECCFG_MML)
             else new_val);
          new_val =
            (if ext_zkr s
             then (new_val AND NOT (MSECCFG_USEED OR MSECCFG_SSEED)) OR (v AND (MSECCFG_USEED OR MSECCFG_SSEED))
             else new_val);
          new_val =
            (if ext_zicfilp s then (new_val AND NOT MSECCFG_MLPE) OR (v AND MSECCFG_MLPE) else new_val);
          new_val =
            (if ext_smmpm s then
               let pmm_reserved = 1;
                   pmm = get_field v MSECCFG_PMM
               in set_field new_val MSECCFG_PMM (if pmm \<noteq> pmm_reserved then pmm else 0)
             else new_val)
      in (True, s\<lparr>mseccfg := new_val\<rparr>))"

section \<open>Checks of the memory management unit\<close>

fun pmp_match_scan :: "pmp_state \<Rightarrow> nat \<Rightarrow> reg_t list \<Rightarrow> bool \<Rightarrow> bool \<Rightarrow> bool \<times> bool" where
  "pmp_match_scan s i [] any_match all_match = (any_match, all_match)"
| "pmp_match_scan s i (cur_addr # as) any_match all_match =
     (let match = match4 s i cur_addr
      in pmp_match_scan s i as (any_match \<or> match) (all_match \<and> match))"

definition pmp_sectors :: "reg_t \<Rightarrow> reg_t \<Rightarrow> reg_t list" where
  "pmp_sectors addr len = map (\<lambda>k. addr + of_nat (4 * k)) [0..<(unat len + 3) div 4]"

fun pmp_ok_from :: "pmp_state \<Rightarrow> nat list \<Rightarrow> reg_t \<Rightarrow> reg_t \<Rightarrow> access_type \<Rightarrow> reg_t \<Rightarrow> bool \<Rightarrow> bool" where
  "pmp_ok_from s [] addr len type mode hlvx =
     (mode = PRV_M \<and> \<not> get_mmwp s \<and> (\<not> get_mml s \<or> type = LOAD \<or> type = STORE))"
| "pmp_ok_from s (i # is) addr len type mode hlvx =
     (let (any_match, all_match) = pmp_match_scan s i (pmp_sectors addr len) False True
      in if any_match then
           if \<not> all_match then False else access_ok s i type mode hlvx
         else pmp_ok_from s is addr len type mode hlvx)"

definition pmp_ok :: "pmp_state \<Rightarrow> reg_t \<Rightarrow> reg_t \<Rightarrow> access_type \<Rightarrow> reg_t \<Rightarrow> bool \<Rightarrow> bool" where
  "pmp_ok s addr len type mode hlvx =
     (if n_pmp s = 0 then True else pmp_ok_from s [0..<n_pmp s] addr len type mode hlvx)"

fun pmp_homogeneous_from :: "pmp_state \<Rightarrow> nat list \<Rightarrow> reg_t \<Rightarrow> reg_t \<Rightarrow> bool option" where
  "pmp_homogeneous_from s [] addr len = Some True"
| "pmp_homogeneous_from s (i # is) addr len =
     (case subset_match s i addr len of
        None \<Rightarrow> None
      | Some True \<Rightarrow> Some False
      | Some False \<Rightarrow> pmp_homogeneous_from s is addr len)"

definition pmp_homogeneous :: "pmp_state \<Rightarrow> reg_t \<Rightarrow> reg_t \<Rightarrow> bool option" where
  "pmp_homogeneous s addr len =
     (if (addr OR len) AND (len - 1) \<noteq> 0 then None else pmp_homogeneous_from s [0..<n_pmp s] addr len)"

section \<open>Reset\<close>

definition pmp_reset :: "pmp_state \<Rightarrow> pmp_state" where
  "pmp_reset s =
     (let s = s\<lparr>pmpaddr := replicate max_pmp \<lparr>pmp_val = 0, pmp_cfg = 0\<rparr>, mseccfg := 0, cur_xlen := max_xlen s\<rparr>
      in if 0 < n_pmp s then
           let s = snd (pmpaddr_write 0 (NOT 0) s)
           in snd (pmpcfg_write 0 (ucast (PMP_R OR PMP_W OR PMP_X OR PMP_NAPOT)) s)
         else s)"

definition set_pmp_num :: "reg_t \<Rightarrow> pmp_state \<Rightarrow> pmp_state option" where
  "set_pmp_num n s = (if max_pmp < unat n then None else Some (s\<lparr>n_pmp := unat n\<rparr>))"

definition set_pmp_granularity :: "reg_t \<Rightarrow> pmp_state \<Rightarrow> pmp_state option" where
  "set_pmp_granularity gran s =
     (let min = push_bit PMP_SHIFT 1
      in if gran < min \<or> gran AND (gran - 1) \<noteq> 0 then None
         else Some (s\<lparr>lg_pmp_granularity := ctz gran\<rparr>))"

section \<open>Regions\<close>

lemma not_bit_of_less:
  fixes a :: "'a::len word"
  assumes "unat a < 2 ^ n"
  shows "\<not> bit a n"
proof
  assume "bit a n"
  then have "bit (unat a) n" by (simp add: bit_unsigned_iff)
  moreover have "unat a div 2 ^ n = 0" using assms by simp
  ultimately show False by (simp add: bit_iff_odd)
qed

lemma unat_mask_plus: "n < 64 \<Longrightarrow> unat (mask n :: uint64_t) + 1 = 2 ^ n"
proof -
  assume "n < 64"
  then have "(2::nat) ^ n < 2 ^ 64" by (intro power_strict_increasing) simp_all
  then have "unat (of_nat (2 ^ n - 1) :: uint64_t) = 2 ^ n - 1" by (intro unat_of_nat_small) simp
  moreover have "(mask n :: uint64_t) = of_nat (2 ^ n - 1)" by (simp add: mask_eq_exp_minus_1 of_nat_diff)
  ultimately show ?thesis by simp
qed

lemma low_ones: "x AND NOT (x + 1) = mask (cto x)"
proof (cases "cto x < 64")
  case True
  obtain c k where c: "c = cto x" and k: "k = c + 1" by simp
  have b: "\<And>n. n < c \<Longrightarrow> bit x n" "\<not> bit x c" using cto_bits [of x] by (auto simp: c)
  have nc: "n < c \<or> n = c \<or> k \<le> n" for n by (auto simp: k)
  have ck: "c < k" by (simp add: k)
  have "x = push_bit k (drop_bit k x) OR mask c"
  proof (rule bit_word_eqI)
    fix n show "bit x n = bit (push_bit k (drop_bit k x) OR mask c) n" if "n < LENGTH(64)"
      using nc [of n] b that ck by (auto simp: bit_simps)
  qed
  also have "\<dots> = push_bit k (drop_bit k x) + mask c"
    by (rule disjunctive_add [symmetric]) (use ck in \<open>auto simp: bit_simps\<close>)
  finally have "x + 1 = push_bit k (drop_bit k x) + mask c + 1" by (rule arg_cong [of _ _ "\<lambda>t. t + 1"])
  also have "\<dots> = push_bit k (drop_bit k x) + 2 ^ c" by (simp add: mask_eq_exp_minus_1)
  also have "\<dots> = push_bit k (drop_bit k x) OR 2 ^ c"
    by (rule disjunctive_add) (use ck in \<open>auto simp: bit_simps\<close>)
  finally have s: "x + 1 = push_bit k (drop_bit k x) OR 2 ^ c" .
  show ?thesis
    unfolding s c [symmetric]
  proof (rule bit_word_eqI)
    fix n show "bit (x AND NOT (push_bit k (drop_bit k x) OR 2 ^ c)) n = bit (mask c :: uint64_t) n" if "n < LENGTH(64)"
      using nc [of n] b that ck by (auto simp: bit_simps)
  qed
next
  case False
  then have "x = - 1" using cto_bits [of x] by (intro bit_word_eqI) auto
  with False show ?thesis by (intro bit_word_eqI) (auto simp: bit_simps)
qed

definition napot_lg :: "pmp_state \<Rightarrow> nat \<Rightarrow> nat" where
  "napot_lg s i =
     (let e = pmpaddr s ! i
      in cto (push_bit 1 (pmp_val e) OR of_bool (pmp_cfg e AND PMP_A \<noteq> PMP_NA4) OR NOT (pmp_tor_mask s)) + PMP_SHIFT)"

lemma napot_mask_eq: "napot_mask s i = NOT (mask (napot_lg s i))"
  unfolding napot_mask_def napot_lg_def Let_def low_ones PMP_SHIFT_def
  by (rule bit_word_eqI) (auto simp: bit_simps)

lemma and_not_mask_zero: "(a XOR b) AND NOT (mask k) = 0 \<longleftrightarrow> drop_bit k a = drop_bit k b" for a b :: uint64_t
proof -
  have "(a XOR b) AND NOT (mask k) = push_bit k (drop_bit k (a XOR b))"
    by (rule bit_word_eqI) (auto simp: bit_simps)
  moreover have "drop_bit k (push_bit k (drop_bit k (a XOR b))) = drop_bit k (a XOR b)"
    by (rule bit_word_eqI) (auto simp: bit_simps dest: bit_imp_le_length)
  ultimately have "(a XOR b) AND NOT (mask k) = 0 \<longleftrightarrow> drop_bit k (a XOR b) = 0"
    by (metis drop_bit_of_0 push_bit_of_0)
  then show ?thesis by (simp add: drop_bit_xor)
qed

lemma pmp_A_distinct [simp]:
  "PMP_TOR \<noteq> 0" "PMP_NA4 \<noteq> 0" "PMP_NAPOT \<noteq> 0" "PMP_TOR \<noteq> PMP_NA4" "PMP_TOR \<noteq> PMP_NAPOT" "PMP_NA4 \<noteq> PMP_NAPOT"
  "PMP_NA4 \<noteq> PMP_TOR" "PMP_NAPOT \<noteq> PMP_TOR" "PMP_NAPOT \<noteq> PMP_NA4" "\<not> PMP_NAPOT \<le> PMP_TOR" "\<not> PMP_NAPOT \<le> PMP_NA4"
  by (simp_all add: pmp_consts)

lemma match4_cases:
  "match4 s i addr =
     (let a = pmp_cfg (pmpaddr s ! i) AND PMP_A
      in if a = 0 then False
         else if a = PMP_TOR then tor_base_paddr s i \<le> addr \<and> addr < tor_paddr s i
         else drop_bit (napot_lg s i) addr = drop_bit (napot_lg s i) (tor_paddr s i))"
  by (simp add: match4_def Let_def napot_mask_eq and_not_mask_zero)

text \<open>Naturally aligned regions, in terms of the value software reads back from the address register.\<close>

lemma granule_ones: "NOT (pmp_tor_mask s) = mask (lg_pmp_granularity s - PMP_SHIFT)"
  by (simp add: pmp_tor_mask_def mask_eq_exp_minus_1 not_eq_complement push_bit_eq_mult)

lemma cto_unique:
  assumes "\<And>j. j < n \<Longrightarrow> bit x j" "\<not> bit x n"
  shows "cto x = n"
  unfolding cto_Least using assms by (intro Least_equality) (auto simp: not_less [symmetric])

lemma napot_lg_read:
  assumes "pmp_cfg (pmpaddr s ! i) AND PMP_A = PMP_NAPOT"
  shows "napot_lg s i = cto (push_bit 1 (pmpaddr_read s i) OR 1) + 2"
proof -
  let ?g = "lg_pmp_granularity s - PMP_SHIFT" and ?v = "pmp_val (pmpaddr s ! i)"
  have r: "pmpaddr_read s i = ?v OR drop_bit 1 (mask ?g)" using assms by (simp add: pmpaddr_read_def granule_ones)
  have "push_bit 1 ?v OR 1 OR mask ?g = push_bit 1 (?v OR drop_bit 1 (mask ?g)) OR (1 :: uint64_t)"
  proof (rule bit_word_eqI)
    fix n assume "n < LENGTH(64)"
    then show "bit (push_bit 1 ?v OR 1 OR mask ?g) n = bit (push_bit 1 (?v OR drop_bit 1 (mask ?g)) OR (1 :: uint64_t)) n"
      unfolding bit_or_iff bit_push_bit_iff bit_drop_bit_eq comp_apply bit_mask_iff bit_1_iff by (cases n) auto
  qed
  moreover have "of_bool (pmp_cfg (pmpaddr s ! i) AND PMP_A \<noteq> PMP_NA4) = (1 :: uint64_t)"
    using assms by (simp add: pmp_consts)
  ultimately show ?thesis unfolding napot_lg_def Let_def granule_ones r by (simp add: PMP_SHIFT_def)
qed

lemma cto_shift_in: "cto (push_bit 1 x OR 1) = (if cto x < 64 then cto x + 1 else 64)"
proof -
  have b: "bit (push_bit 1 x OR 1) n \<longleftrightarrow> n < 64 \<and> (n = 0 \<or> bit x (n - 1))" for n
    unfolding bit_or_iff bit_push_bit_iff bit_1_iff by auto
  show ?thesis
  proof (cases "cto x < 64")
    case True
    then have "cto (push_bit 1 x OR 1) = cto x + 1"
    proof (intro cto_unique)
      fix j assume "j < cto x + 1"
      then show "bit (push_bit 1 x OR 1) j" unfolding b using cto_bits [of x] True by (cases j) auto
    next
      show "\<not> bit (push_bit 1 x OR 1) (cto x + 1)" unfolding b using cto_bits [of x] by simp
    qed
    with True show ?thesis by simp
  next
    case False
    have "cto (push_bit 1 x OR 1) = 64"
    proof (intro cto_unique)
      fix j :: nat assume "j < 64"
      then show "bit (push_bit 1 x OR 1) j" unfolding b using cto_bits [of x] False by (cases j) auto
    next
      show "\<not> bit (push_bit 1 x OR 1) 64" unfolding b by simp
    qed
    with False show ?thesis by simp
  qed
qed

lemma tor_paddr_high:
  assumes "lg_pmp_granularity s - PMP_SHIFT \<le> k"
  shows "drop_bit (k + 2) (tor_paddr s i) = drop_bit k (take_bit 62 (pmp_val (pmpaddr s ! i)))"
proof -
  have t: "pmp_tor_mask s = NOT (mask (lg_pmp_granularity s - PMP_SHIFT))" by (simp flip: granule_ones)
  show ?thesis
    unfolding tor_paddr_def t PMP_SHIFT_def
    by (rule bit_word_eqI) (use assms in \<open>auto simp: bit_simps PMP_SHIFT_def\<close>)
qed

definition pmp_wf :: "pmp_state \<Rightarrow> bool" where
  "pmp_wf s \<longleftrightarrow>
     length (pmpaddr s) = max_pmp \<and> n_pmp s \<le> max_pmp \<and> PMP_SHIFT \<le> lg_pmp_granularity s \<and> lg_pmp_granularity s < 64 \<and>
     list_all (\<lambda>e. unat (pmp_val e) < 2 ^ (paddr_bits s - PMP_SHIFT)) (pmpaddr s)"

definition pmp_legal :: "pmp_state \<Rightarrow> bool" where
  "pmp_legal s \<longleftrightarrow>
     list_all (\<lambda>e. (get_mml s \<or> pmp_cfg e AND PMP_W = 0 \<or> pmp_cfg e AND PMP_R \<noteq> 0) \<and>
                   (lg_pmp_granularity s = PMP_SHIFT \<or> pmp_cfg e AND PMP_A \<noteq> PMP_NA4)) (pmpaddr s)"

lemma pmp_wf_lg: "pmp_wf s \<Longrightarrow> lg_pmp_granularity s - PMP_SHIFT < 62"
  unfolding pmp_wf_def PMP_SHIFT_def by linarith

lemma pmp_wf_entry:
  assumes "pmp_wf s" "i < max_pmp"
  shows "unat (pmp_val (pmpaddr s ! i)) < 2 ^ 54"
proof -
  have "unat (pmp_val (pmpaddr s ! i)) < 2 ^ (paddr_bits s - PMP_SHIFT)"
    using assms by (auto simp: pmp_wf_def list_all_length)
  also have "\<dots> \<le> (2::nat) ^ 54" by (rule power_increasing) (simp_all add: paddr_bits_def PMP_SHIFT_def)
  finally show ?thesis .
qed

definition granule_floor :: "pmp_state \<Rightarrow> nat \<Rightarrow> nat" where
  "granule_floor s n = n div 2 ^ (lg_pmp_granularity s - PMP_SHIFT) * 2 ^ (lg_pmp_granularity s - PMP_SHIFT)"

definition pmp_region :: "pmp_state \<Rightarrow> nat \<Rightarrow> nat set" where
  "pmp_region s i =
     (let a = pmp_cfg (pmpaddr s ! i) AND PMP_A; r = unat (pmpaddr_read s i); j = cto (pmpaddr_read s i)
      in if a = 0 then {}
         else if a = PMP_TOR
         then {(if i = 0 then 0 else 4 * granule_floor s (unat (pmp_val (pmpaddr s ! (i - 1))))) ..< 4 * r}
         else if a = PMP_NA4 then {4 * r ..< 4 * r + 4}
         else {r div 2 ^ (j + 1) * 2 ^ (j + 3) ..< r div 2 ^ (j + 1) * 2 ^ (j + 3) + 2 ^ (j + 3)})"

lemma cfg_A_cases: "cfg AND PMP_A = 0 \<or> cfg AND PMP_A = PMP_TOR \<or> cfg AND PMP_A = PMP_NA4 \<or> cfg AND PMP_A = PMP_NAPOT"
  for cfg :: uint8_t
proof -
  have "cfg AND PMP_A = (if bit cfg 3 then 0x08 else 0) OR (if bit cfg 4 then 0x10 else 0)"
    unfolding PMP_A_def by (rule bit_word_eqI) (auto simp: bit_simps numeral_eq_Suc bit_Suc less_Suc_eq)
  then show ?thesis by (simp add: pmp_consts)
qed

lemma unat_tor_paddr:
  assumes "pmp_wf s" "i < max_pmp"
  shows "unat (tor_paddr s i) = 4 * granule_floor s (unat (pmp_val (pmpaddr s ! i)))"
    and "unat (pmp_val (pmpaddr s ! i) AND pmp_tor_mask s) = granule_floor s (unat (pmp_val (pmpaddr s ! i)))"
proof -
  let ?v = "pmp_val (pmpaddr s ! i)" and ?g = "lg_pmp_granularity s - PMP_SHIFT"
  have t: "pmp_tor_mask s = NOT (mask ?g)" by (simp flip: granule_ones)
  have g: "?g < 64" using pmp_wf_lg [OF assms(1)] by simp
  have m: "unat (mask ?g :: uint64_t) + 1 = 2 ^ ?g"
    using g by (intro unat_mask_plus) simp
  obtain n where n: "n = unat ?v" by simp
  have n54: "n < 2 ^ 54" unfolding n by (rule pmp_wf_entry [OF assms])
  have u: "unat (?v AND pmp_tor_mask s) = granule_floor s n"
    unfolding t granule_floor_def using unat_and_not_mask [OF m, of ?v] by (simp add: n [symmetric] minus_mod_eq_div_mult)
  moreover have "granule_floor s n \<le> n" unfolding granule_floor_def by simp
  ultimately show "unat (tor_paddr s i) = 4 * granule_floor s (unat ?v)"
    unfolding tor_paddr_def PMP_SHIFT_def n [symmetric] using n54 by (subst unat_push_bit_nowrap) simp_all
  show "unat (?v AND pmp_tor_mask s) = granule_floor s (unat ?v)" using u n by simp
qed

lemma match4_na4:
  assumes wf: "pmp_wf s" "i < max_pmp" and A: "pmp_cfg (pmpaddr s ! i) AND PMP_A = PMP_NA4" and g: "lg_pmp_granularity s = PMP_SHIFT"
  shows "match4 s i addr \<longleftrightarrow> unat addr div 4 = unat (pmpaddr_read s i)"
proof -
  have "cto (push_bit 1 (pmp_val (pmpaddr s ! i))) = 0"
    by (rule cto_unique) (simp, subst bit_push_bit_iff, simp)
  then have l: "napot_lg s i = 2" unfolding napot_lg_def Let_def granule_ones using A g by (simp add: PMP_SHIFT_def)
  have r: "pmpaddr_read s i = pmp_val (pmpaddr s ! i) AND pmp_tor_mask s"
    using A by (simp add: pmpaddr_read_def pmp_consts)
  have "unat (drop_bit 2 (tor_paddr s i)) = unat (pmpaddr_read s i)"
    unfolding unat_drop_bit_div unat_tor_paddr(1) [OF wf] r unat_tor_paddr(2) [OF wf] by simp
  moreover have "match4 s i addr \<longleftrightarrow> drop_bit 2 addr = drop_bit 2 (tor_paddr s i)"
    unfolding match4_cases l using A by (simp add: pmp_consts)
  ultimately show ?thesis unfolding word_unat_eq_iff by (simp add: unat_drop_bit_div)
qed

lemma match4_napot:
  assumes wf: "pmp_wf s" "i < max_pmp" and A: "pmp_cfg (pmpaddr s ! i) AND PMP_A = PMP_NAPOT"
  defines "r \<equiv> pmpaddr_read s i"
  shows "match4 s i addr \<longleftrightarrow> unat addr div 2 ^ (cto r + 3) = unat r div 2 ^ (cto r + 1)"
proof -
  let ?v = "pmp_val (pmpaddr s ! i)" and ?g = "lg_pmp_granularity s - PMP_SHIFT"
  have r: "r = ?v OR drop_bit 1 (mask ?g)" using A by (simp add: r_def pmpaddr_read_def granule_ones)
  have g: "?g < 62" by (rule pmp_wf_lg [OF wf(1)])
  have v: "\<not> bit ?v n" if "54 \<le> n" for n
  proof -
    have "unat ?v < 2 ^ n" using pmp_wf_entry [OF wf] power_increasing [OF that, of "2 :: nat"] by simp
    then show ?thesis by (rule not_bit_of_less)
  qed
  then have v': "m < 62" if "bit ?v m" for m using that not_less [of m 62] by force
  have "\<not> bit r 62" unfolding r using v g by (simp add: bit_simps)
  then have j62: "cto r \<le> 62" using cto_bits [of r] not_less by blast
  have gj: "?g \<le> cto r + 1"
  proof (rule ccontr)
    assume "\<not> ?thesis"
    then have "bit r (cto r)" using g by (subst r) (simp add: bit_simps)
    then show False using cto_bits [of r] by blast
  qed
  have l: "napot_lg s i = (cto r + 1) + 2" unfolding napot_lg_read [OF A] r_def [symmetric] cto_shift_in using j62 by simp
  have "drop_bit ((cto r + 1) + 2) (tor_paddr s i) = drop_bit (cto r + 1) r"
    unfolding tor_paddr_high [OF gj]
  proof (rule bit_word_eqI)
    fix n
    show "bit (drop_bit (cto r + 1) (take_bit 62 ?v)) n = bit (drop_bit (cto r + 1) r) n"
      using v' [of "cto r + 1 + n"] gj g unfolding bit_drop_bit_eq comp_apply bit_take_bit_iff
      by (subst (3) r) (auto simp: bit_simps)
  qed
  moreover have "cto r + 1 + 2 = cto r + 3" by simp
  ultimately have "match4 s i addr \<longleftrightarrow> drop_bit (cto r + 3) addr = drop_bit (cto r + 1) r"
    unfolding match4_cases l using A by (simp only: Let_def pmp_A_distinct if_False)
  then show ?thesis unfolding word_unat_eq_iff unat_drop_bit_div .
qed

lemma div_eq_interval: "(n div m = q) \<longleftrightarrow> n \<in> {q * m ..< q * m + m}" if "0 < m" for n m q :: nat
proof
  assume "n div m = q"
  then show "n \<in> {q * m ..< q * m + m}" using dividend_less_div_times [OF that, of n] by auto
qed (auto intro!: div_nat_eqI simp: mult.commute)

lemma pmp_legal_na4:
  assumes "pmp_legal s" "pmp_wf s" "i < max_pmp" "pmp_cfg (pmpaddr s ! i) AND PMP_A = PMP_NA4"
  shows "lg_pmp_granularity s = PMP_SHIFT"
  using assms unfolding pmp_legal_def pmp_wf_def list_all_length by metis

lemma match4_region:
  assumes wf: "pmp_wf s" "i < max_pmp" and legal: "pmp_legal s"
  shows "match4 s i addr \<longleftrightarrow> unat addr \<in> pmp_region s i"
proof -
  consider "pmp_cfg (pmpaddr s ! i) AND PMP_A = 0" | "pmp_cfg (pmpaddr s ! i) AND PMP_A = PMP_TOR"
    | "pmp_cfg (pmpaddr s ! i) AND PMP_A = PMP_NA4" | "pmp_cfg (pmpaddr s ! i) AND PMP_A = PMP_NAPOT"
    using cfg_A_cases by blast
  then show ?thesis
  proof cases
    case 1
    then show ?thesis by (simp add: match4_cases pmp_region_def)
  next
    case 2
    have r: "pmpaddr_read s i = pmp_val (pmpaddr s ! i) AND pmp_tor_mask s"
      using 2 by (simp add: pmpaddr_read_def)
    have b: "unat (tor_base_paddr s i) = (if i = 0 then 0 else 4 * granule_floor s (unat (pmp_val (pmpaddr s ! (i - 1)))))"
      using unat_tor_paddr(1) [OF wf(1), of "i - 1"] wf(2) by (simp add: tor_base_paddr_def)
    have t: "unat (tor_paddr s i) = 4 * unat (pmpaddr_read s i)" unfolding r unat_tor_paddr [OF wf] ..
    have "match4 s i addr \<longleftrightarrow> unat (tor_base_paddr s i) \<le> unat addr \<and> unat addr < unat (tor_paddr s i)"
      using 2 by (simp add: match4_cases word_le_nat_alt word_less_nat_alt)
    then show ?thesis unfolding b t using 2 by (simp add: pmp_region_def)
  next
    case 3
    have "match4 s i addr \<longleftrightarrow> unat addr div 4 = unat (pmpaddr_read s i)"
      by (rule match4_na4 [OF wf 3 pmp_legal_na4 [OF legal wf 3]])
    moreover have "pmp_region s i = {unat (pmpaddr_read s i) * 4 ..< unat (pmpaddr_read s i) * 4 + 4}"
      unfolding pmp_region_def Let_def 3 mult.commute [of _ 4] by (simp only: pmp_A_distinct if_False if_True refl)
    ultimately show ?thesis using div_eq_interval [of 4] by simp
  next
    case 4
    show ?thesis
      unfolding match4_napot [OF wf 4] div_eq_interval [OF zero_less_power [OF zero_less_numeral]] pmp_region_def Let_def 4
      by (simp only: pmp_A_distinct if_False)
  qed
qed

section \<open>Homogeneous pages\<close>

lemma page_iff: "unat a \<le> unat x \<and> unat x < unat a + 2 ^ l \<longleftrightarrow> drop_bit l x = drop_bit l a"
  if "take_bit l a = 0" "l < 64" for a x :: uint64_t
proof -
  obtain n where n: "n = unat a" by simp
  have "n mod 2 ^ l = 0" using that(1) unat_take_bit_mod [of l a] by (simp add: n)
  then have "n div 2 ^ l * 2 ^ l = n" by auto
  moreover have "drop_bit l x = drop_bit l a \<longleftrightarrow> unat x div 2 ^ l = n div 2 ^ l"
    unfolding word_unat_eq_iff unat_drop_bit_div n ..
  ultimately show ?thesis unfolding n [symmetric] by (simp add: div_eq_interval)
qed

lemma drop_bit_mono_eq: "drop_bit l x = drop_bit l y \<Longrightarrow> l \<le> k \<Longrightarrow> drop_bit k x = drop_bit k y" for x y :: uint64_t
  by (metis drop_bit_drop_bit le_add_diff_inverse2)

lemma and_neg_pow: "a AND - (2 ^ l) = push_bit l (drop_bit l a)" for a :: uint64_t
proof -
  have "- (2 ^ l) = NOT (mask l :: uint64_t)" by (simp add: mask_eq_exp_minus_1 not_eq_complement)
  then show ?thesis by (simp only:) (rule bit_word_eqI, auto simp: bit_simps)
qed

lemma unat_push_drop: "unat (push_bit l (drop_bit l a)) = unat a div 2 ^ l * 2 ^ l" for a :: uint64_t
proof -
  have "unat a div 2 ^ l * 2 ^ l \<le> unat a" by (rule div_times_less_eq_dividend)
  also have "unat a < 2 ^ LENGTH(64)" by (rule unat_less_pow2)
  finally show ?thesis unfolding unat_drop_bit_div [symmetric] by (rule unat_push_bit_nowrap)
qed

lemma page_less:
  fixes a b :: uint64_t
  assumes "a AND - (2 ^ l) < b AND - (2 ^ l)"
  shows "unat a div 2 ^ l < unat b div 2 ^ l"
  using assms unfolding and_neg_pow word_less_nat_alt unat_push_drop by simp

lemma div_less_imp: "x < y" if "x div m < y div m" for x y m :: nat
  using that div_le_mono [of y x m] by (metis not_less)

lemma subset_match_tor:
  assumes "(addr AND - (2 ^ l) < base AND - (2 ^ l)) \<or> tor \<le> addr \<or> (base \<le> addr \<and> addr AND - (2 ^ l) < tor AND - (2 ^ l))"
    and al: "unat addr mod 2 ^ l = 0" and x: "unat x div 2 ^ l = unat addr div 2 ^ l" and y: "unat y div 2 ^ l = unat addr div 2 ^ l"
  shows "(base \<le> x \<and> x < tor) = (base \<le> y \<and> y < (tor :: uint64_t))"
proof -
  have "unat addr \<le> unat z" if "unat z div 2 ^ l = unat addr div 2 ^ l" for z :: uint64_t
    using that al div_times_less_eq_dividend [of "unat z" "2 ^ l"] by (metis add.right_neutral div_mult_mod_eq)
  then have ge: "addr \<le> x" "addr \<le> y" using x y by (simp_all add: word_le_nat_alt)
  from assms(1) consider "unat addr div 2 ^ l < unat base div 2 ^ l" | "tor \<le> addr"
    | "base \<le> addr" "unat addr div 2 ^ l < unat tor div 2 ^ l" using page_less by blast
  then show ?thesis
  proof cases
    case 1
    then have "x < base" "y < base" unfolding word_less_nat_alt using x y div_less_imp by metis+
    then show ?thesis by auto
  next
    case 2
    then show ?thesis using ge by auto
  next
    case 3
    then have "x < tor" "y < tor" unfolding word_less_nat_alt using x y div_less_imp by metis+
    then show ?thesis using 3 ge by auto
  qed
qed

lemma subset_match_napot:
  assumes "l < 64" and c: "NOT (push_bit 1 (NOT (mask k))) AND 2 ^ l \<noteq> (0 :: uint64_t) \<or> (addr XOR tor) div 2 ^ l \<noteq> (0 :: uint64_t)"
    and x: "drop_bit l x = drop_bit l addr" and y: "drop_bit l y = drop_bit l addr"
  shows "(drop_bit k x = drop_bit k tor) = (drop_bit k y = drop_bit k tor)"
proof (cases "l \<le> k")
  case True
  then show ?thesis using drop_bit_mono_eq [of l x y k] x y by simp
next
  case False
  have "NOT (push_bit 1 (NOT (mask k))) AND (2 ^ l :: uint64_t) = 0"
  proof (rule bit_word_eqI)
    fix n
    show "bit (NOT (push_bit 1 (NOT (mask k))) AND (2 ^ l :: uint64_t)) n = bit 0 n" if "n < LENGTH(64)"
      unfolding bit_and_iff bit_not_iff bit_push_bit_iff bit_mask_iff bit_exp_iff using False that by auto
  qed
  then have "drop_bit l (addr XOR tor) \<noteq> 0" using c by (simp add: drop_bit_eq_div)
  then have "drop_bit l addr \<noteq> drop_bit l tor" by (simp add: drop_bit_xor)
  then show ?thesis using x y False drop_bit_mono_eq [of k x tor l] drop_bit_mono_eq [of k y tor l] by auto
qed

lemma page_aligned:
  assumes "(addr OR 2 ^ l) AND (2 ^ l - 1) = (0 :: uint64_t)" "l < 64"
  shows "unat addr mod 2 ^ l = 0"
proof -
  have "take_bit l addr = (addr OR 2 ^ l) AND mask l" by (rule bit_word_eqI) (auto simp: bit_simps)
  then have "take_bit l addr = 0" using assms(1) by (simp add: mask_eq_exp_minus_1)
  then show ?thesis using unat_take_bit_mod [of l addr] by simp
qed

lemma subset_match_sound:
  assumes sm: "subset_match s i addr (2 ^ l) = Some False" and l: "l < 64"
    and x: "drop_bit l x = drop_bit l addr" and y: "drop_bit l y = drop_bit l addr"
  shows "match4 s i x = match4 s i y"
proof -
  have al: "(addr OR 2 ^ l) AND (2 ^ l - 1) = 0" using sm by (simp add: subset_match_def split: if_splits)
  let ?a = "pmp_cfg (pmpaddr s ! i) AND PMP_A"
  consider "?a = 0" | "?a = PMP_TOR" | "?a \<noteq> 0" "?a \<noteq> PMP_TOR" by blast
  then show ?thesis
  proof cases
    case 1
    then show ?thesis by (simp add: match4_cases)
  next
    case 2
    have c: "(addr AND - (2 ^ l) < tor_base_paddr s i AND - (2 ^ l)) \<or> tor_paddr s i \<le> addr \<or>
        (tor_base_paddr s i \<le> addr \<and> addr AND - (2 ^ l) < tor_paddr s i AND - (2 ^ l))"
      using sm al 2 unfolding subset_match_def Let_def by (simp split: if_splits)
    have "unat x div 2 ^ l = unat addr div 2 ^ l" "unat y div 2 ^ l = unat addr div 2 ^ l"
      using x y unfolding word_unat_eq_iff unat_drop_bit_div by simp_all
    from subset_match_tor [OF c page_aligned [OF al l] this] show ?thesis using 2 by (simp add: match4_cases)
  next
    case 3
    have c: "NOT (push_bit 1 (NOT (mask (napot_lg s i)))) AND 2 ^ l \<noteq> (0 :: uint64_t) \<or> (addr XOR tor_paddr s i) div 2 ^ l \<noteq> 0"
      using sm al 3 unfolding subset_match_def Let_def napot_mask_eq by (simp split: if_splits)
    from subset_match_napot [OF l c x y] show ?thesis using 3 by (simp add: match4_cases)
  qed
qed

lemma pmp_homogeneous_from_sound:
  "pmp_homogeneous_from s is addr len = Some True \<Longrightarrow> i \<in> set is \<Longrightarrow> subset_match s i addr len = Some False"
  by (induction s "is" addr len rule: pmp_homogeneous_from.induct) (auto split: option.splits bool.splits)

lemma pmp_homogeneous_sound:
  assumes "pmp_homogeneous s addr (2 ^ l) = Some True" "l < 64" "i < n_pmp s"
    and "drop_bit l x = drop_bit l addr" "drop_bit l y = drop_bit l addr"
  shows "match4 s i x = match4 s i y"
proof -
  have "subset_match s i addr (2 ^ l) = Some False"
    using assms(1,3) by (intro pmp_homogeneous_from_sound [of s "[0..<n_pmp s]"]) (auto simp: pmp_homogeneous_def split: if_splits)
  from subset_match_sound [OF this assms(2,4,5)] show ?thesis .
qed

section \<open>The access check\<close>

lemma pmp_match_scan_eq: "pmp_match_scan s i as any all = (any \<or> list_ex (match4 s i) as, all \<and> list_all (match4 s i) as)"
  by (induction "as" arbitrary: any all) (auto simp: Let_def)

lemma pmp_ok_from_Cons:
  "pmp_ok_from s (i # is) addr len type mode hlvx =
     (if list_ex (match4 s i) (pmp_sectors addr len)
      then list_all (match4 s i) (pmp_sectors addr len) \<and> access_ok s i type mode hlvx
      else pmp_ok_from s is addr len type mode hlvx)"
  by (simp add: pmp_match_scan_eq)

lemmas pmp_ok_from_simps [simp] = pmp_ok_from.simps(1) pmp_ok_from_Cons

declare pmp_ok_from.simps(2) [simp del]

lemma pmp_ok_from_uniform:
  assumes same: "\<And>i u v. i \<in> set is \<Longrightarrow> u \<in> U \<Longrightarrow> v \<in> U \<Longrightarrow> match4 s i u = match4 s i v"
    and U: "set (pmp_sectors a1 len1) \<subseteq> U" "set (pmp_sectors a2 len2) \<subseteq> U"
    and ne: "pmp_sectors a1 len1 \<noteq> []" "pmp_sectors a2 len2 \<noteq> []"
  shows "pmp_ok_from s is a1 len1 type mode hlvx = pmp_ok_from s is a2 len2 type mode hlvx"
  using same
proof (induction "is")
  case (Cons i "is")
  obtain u where u: "u \<in> U" using ne(1) U(1) by (meson last_in_set subsetD)
  have e: "list_ex (match4 s i) (pmp_sectors a l) = match4 s i u \<and> list_all (match4 s i) (pmp_sectors a l) = match4 s i u"
    if sub: "set (pmp_sectors a l) \<subseteq> U" and nonempty: "pmp_sectors a l \<noteq> []" for a l
  proof -
    obtain v where "v \<in> set (pmp_sectors a l)" using last_in_set [OF nonempty] by blast
    moreover have "match4 s i w = match4 s i u" if "w \<in> set (pmp_sectors a l)" for w
      using Cons.prems [of i w u] u sub that by auto
    ultimately show ?thesis unfolding list_ex_iff list_all_iff by blast
  qed
  have "pmp_ok_from s is a1 len1 type mode hlvx = pmp_ok_from s is a2 len2 type mode hlvx"
    by (rule Cons.IH) (rule Cons.prems, simp_all)
  then show ?case using e [OF U(1) ne(1)] e [OF U(2) ne(2)] by simp
qed simp

lemma set_pmp_sectors:
  assumes "u \<in> set (pmp_sectors a len)" "unat a + unat len \<le> 2 ^ 64"
  shows "unat a \<le> unat u \<and> unat u < unat a + unat len"
proof -
  obtain k where k: "k < (unat len + 3) div 4" and u: "u = a + of_nat (4 * k)" using assms(1) by (auto simp: pmp_sectors_def)
  have lt: "4 * k < unat len" using k by linarith
  then have "unat (of_nat (4 * k) :: uint64_t) = 4 * k" using unat_less_pow2 [of len] by (intro unat_of_nat_small) simp
  moreover have "unat a + 4 * k < 2 ^ 64" using lt assms(2) by linarith
  ultimately have "unat u = unat a + 4 * k" unfolding u by (subst unat_add_nowrap) simp_all
  with lt show ?thesis by simp
qed

lemma pmp_sectors_nonempty: "0 < unat len \<Longrightarrow> pmp_sectors a len \<noteq> []"
  by (simp add: pmp_sectors_def)

lemma pmp_ok_page:
  assumes hom: "pmp_homogeneous s addr (2 ^ l) = Some True" and l: "l < 64"
    and a1: "unat addr \<le> unat a1" "unat a1 + unat len1 \<le> unat addr + 2 ^ l" "0 < unat len1"
    and a2: "unat addr \<le> unat a2" "unat a2 + unat len2 \<le> unat addr + 2 ^ l" "0 < unat len2"
  shows "pmp_ok s a1 len1 type mode hlvx = pmp_ok s a2 len2 type mode hlvx"
proof -
  have "(addr OR 2 ^ l) AND (2 ^ l - 1) = 0" using hom by (simp add: pmp_homogeneous_def split: if_splits)
  from page_aligned [OF this l] have al: "unat addr mod 2 ^ l = 0" .
  have top: "unat addr + 2 ^ l \<le> 2 ^ 64"
  proof -
    have "2 ^ l dvd (2::nat) ^ 64" using l by (intro le_imp_power_dvd) simp
    then obtain q where q: "(2::nat) ^ 64 = 2 ^ l * q" by (auto elim: dvdE)
    obtain p where p: "unat addr = 2 ^ l * p" using al by (auto elim: dvdE simp: mod_eq_0_iff_dvd)
    have "2 ^ l * p < 2 ^ l * q" using unat_less_pow2 [of addr] unfolding p [symmetric] q [symmetric] by simp
    then have "Suc p \<le> q" by simp
    then show ?thesis unfolding p q by (metis mult_Suc_right add.commute mult_le_mono2)
  qed
  define U where "U = {u :: uint64_t. unat addr \<le> unat u \<and> unat u < unat addr + 2 ^ l}"
  have ta: "take_bit l addr = 0" using unat_take_bit_mod [of l addr] al by (simp add: unat_eq_zero)
  have U: "u \<in> U \<longleftrightarrow> drop_bit l u = drop_bit l addr" for u unfolding U_def using page_iff [OF ta l, of u] by simp
  have sec: "set (pmp_sectors a len) \<subseteq> U" if "unat addr \<le> unat a" "unat a + unat len \<le> unat addr + 2 ^ l" for a len
    using set_pmp_sectors [of _ a len] that top unfolding U_def by (auto intro: order_trans less_le_trans)
  have "pmp_ok_from s [0..<n_pmp s] a1 len1 type mode hlvx = pmp_ok_from s [0..<n_pmp s] a2 len2 type mode hlvx"
  proof (rule pmp_ok_from_uniform [where U = U])
    fix i u v assume "i \<in> set [0..<n_pmp s]" "u \<in> U" "v \<in> U"
    then show "match4 s i u = match4 s i v" unfolding U by (intro pmp_homogeneous_sound [OF hom l]) simp_all
  qed (intro sec a1 a2 pmp_sectors_nonempty)+
  then show ?thesis by (simp add: pmp_ok_def)
qed

text \<open>
  Byte by byte: the entry that decides is the first one whose region meets the access, and it must
  contain the whole access.
\<close>

definition pmp_spec :: "pmp_state \<Rightarrow> nat \<Rightarrow> nat \<Rightarrow> access_type \<Rightarrow> reg_t \<Rightarrow> bool \<Rightarrow> bool" where
  "pmp_spec s a n type mode hlvx =
     (case filter (\<lambda>i. pmp_region s i \<inter> {a ..< a + n} \<noteq> {}) [0..<n_pmp s] of
        [] \<Rightarrow> n_pmp s = 0 \<or> mode = PRV_M \<and> \<not> get_mmwp s \<and> (get_mml s \<longrightarrow> type \<noteq> FETCH)
      | i # _ \<Rightarrow> {a ..< a + n} \<subseteq> pmp_region s i \<and> access_ok s i type mode hlvx)"

lemma granule_bytes: "n \<in> pmp_region s i \<longleftrightarrow> 4 * (n div 4) \<in> pmp_region s i"
proof -
  have div4: "4 * k \<le> n \<longleftrightarrow> 4 * k \<le> 4 * (n div 4)" "n < 4 * k \<longleftrightarrow> 4 * (n div 4) < 4 * k" for k
    by presburger+
  have p: "r div 2 ^ (j + 1) * 2 ^ (j + 3) = 4 * (r div 2 ^ (j + 1) * 2 ^ (j + 1))" 
    "r div 2 ^ (j + 1) * 2 ^ (j + 3) + 2 ^ (j + 3) = 4 * (r div 2 ^ (j + 1) * 2 ^ (j + 1) + 2 ^ (j + 1))" for r j :: nat
    by (simp_all add: power_add)
  have i: "n \<in> {4 * k ..< 4 * m} \<longleftrightarrow> 4 * (n div 4) \<in> {4 * k ..< 4 * m}" for k m :: nat
    using div4 by auto
  define a where "a = pmp_cfg (pmpaddr s ! i) AND PMP_A"
  obtain r j where rj: "r = unat (pmpaddr_read s i)" "j = cto (pmpaddr_read s i)" by simp
  show ?thesis
    using i [of 0 r] i [of "granule_floor s (unat (pmp_val (pmpaddr s ! (i - 1))))" r] i [of r "r + 1"]
      i [of "r div 2 ^ (j + 1) * 2 ^ (j + 1)" "r div 2 ^ (j + 1) * 2 ^ (j + 1) + 2 ^ (j + 1)", folded p]
    unfolding pmp_region_def Let_def rj [symmetric] a_def [symmetric] by (cases "i = 0") (simp_all add: algebra_simps)
qed

lemma access_bytes:
  assumes al: "4 dvd a \<or> a mod 4 + n \<le> 4" and n: "0 < n"
  shows "pmp_region s i \<inter> {a ..< a + n} \<noteq> {} \<longleftrightarrow> (\<exists>k < (n + 3) div 4. a + 4 * k \<in> pmp_region s i)"
    and "{a ..< a + n} \<subseteq> pmp_region s i \<longleftrightarrow> (\<forall>k < (n + 3) div 4. a + 4 * k \<in> pmp_region s i)"
proof -
  have lt: "a + 4 * k < a + n \<longleftrightarrow> k < (n + 3) div 4" for k by presburger
  have sector: "\<exists>k < (n + 3) div 4. (b \<in> pmp_region s i) = (a + 4 * k \<in> pmp_region s i)" if b: "b \<in> {a ..< a + n}" for b
  proof -
    obtain k where k: "b div 4 = (a + 4 * k) div 4" "a + 4 * k < a + n"
    proof (cases "4 dvd a")
      case True
      then have "b div 4 = (a + 4 * ((b - a) div 4)) div 4" "a + 4 * ((b - a) div 4) < a + n" using b by (auto elim!: dvdE)
      then show ?thesis using that by blast
    next
      case False
      define q r where "q = a div 4" and "r = a mod 4"
      have f: "a = 4 * q + r" "r < 4" "b < a + n" "r + n \<le> 4" "a \<le> b" using False al b by (simp_all add: q_def r_def)
      have "4 * q \<le> b" using f by linarith
      moreover have "b < 4 * q + 4" using f by linarith
      ultimately have "b div 4 = a div 4" unfolding q_def [symmetric] by (intro div_nat_eqI) simp_all
      then have "b div 4 = (a + 4 * 0) div 4" by simp
      moreover have "a + 4 * 0 < a + n" using n by simp
      moreover note calculation
      then show ?thesis using that by blast
    qed
    then show ?thesis using granule_bytes [of b s i] granule_bytes [of "a + 4 * k" s i] lt by metis
  qed
  have mem: "a + 4 * k \<in> {a ..< a + n}" if "k < (n + 3) div 4" for k using lt [of k] that by simp
  show "pmp_region s i \<inter> {a ..< a + n} \<noteq> {} \<longleftrightarrow> (\<exists>k < (n + 3) div 4. a + 4 * k \<in> pmp_region s i)"
    using sector mem by blast
  show "{a ..< a + n} \<subseteq> pmp_region s i \<longleftrightarrow> (\<forall>k < (n + 3) div 4. a + 4 * k \<in> pmp_region s i)"
    using sector mem by blast
qed

lemma sectors_region:
  assumes "pmp_wf s" "i < max_pmp" "pmp_legal s" and fit: "unat addr + unat len \<le> 2 ^ 64"
  shows "list_ex (match4 s i) (pmp_sectors addr len) \<longleftrightarrow> (\<exists>k < (unat len + 3) div 4. unat addr + 4 * k \<in> pmp_region s i)"
    and "list_all (match4 s i) (pmp_sectors addr len) \<longleftrightarrow> (\<forall>k < (unat len + 3) div 4. unat addr + 4 * k \<in> pmp_region s i)"
proof -
  have "match4 s i (addr + of_nat (4 * k)) \<longleftrightarrow> unat addr + 4 * k \<in> pmp_region s i" if k: "k < (unat len + 3) div 4" for k
  proof -
    have lt: "4 * k < unat len" using k by linarith
    then have "unat (of_nat (4 * k) :: uint64_t) = 4 * k" using unat_less_pow2 [of len] by (intro unat_of_nat_small) simp
    moreover have "unat addr + 4 * k < 2 ^ 64" using lt fit by linarith
    ultimately have "unat (addr + of_nat (4 * k)) = unat addr + 4 * k" by (subst unat_add_nowrap) simp_all
    then show ?thesis unfolding match4_region [OF assms(1-3)] by simp
  qed
  then show "list_ex (match4 s i) (pmp_sectors addr len) \<longleftrightarrow> (\<exists>k < (unat len + 3) div 4. unat addr + 4 * k \<in> pmp_region s i)"
    "list_all (match4 s i) (pmp_sectors addr len) \<longleftrightarrow> (\<forall>k < (unat len + 3) div 4. unat addr + 4 * k \<in> pmp_region s i)"
    unfolding list_ex_iff list_all_iff pmp_sectors_def by auto
qed

lemma access_sectors:
  assumes n: "0 < n"
  shows "pmp_region s i \<inter> {4 * (a div 4) ..< 4 * (a div 4) + 4 * ((n + 3) div 4)} \<noteq> {} \<longleftrightarrow> (\<exists>k < (n + 3) div 4. a + 4 * k \<in> pmp_region s i)"
    and "{4 * (a div 4) ..< 4 * (a div 4) + 4 * ((n + 3) div 4)} \<subseteq> pmp_region s i \<longleftrightarrow> (\<forall>k < (n + 3) div 4. a + 4 * k \<in> pmp_region s i)"
proof -
  have m: "0 < 4 * ((n + 3) div 4)" and count: "(4 * ((n + 3) div 4) + 3) div 4 = (n + 3) div 4"
    using n by presburger+
  have "(4 * (a div 4) + 4 * k) div 4 = (a + 4 * k) div 4" for k
    by presburger
  then have same: "4 * (a div 4) + 4 * k \<in> pmp_region s i \<longleftrightarrow> a + 4 * k \<in> pmp_region s i" for k
    using granule_bytes [of "4 * (a div 4) + 4 * k" s i] granule_bytes [of "a + 4 * k" s i] by (simp add: add.commute)
  note bytes = access_bytes [OF disjI1 m, of "4 * (a div 4)" s i, unfolded count same, OF dvd_triv_left]
  show "pmp_region s i \<inter> {4 * (a div 4) ..< 4 * (a div 4) + 4 * ((n + 3) div 4)} \<noteq> {} \<longleftrightarrow> (\<exists>k < (n + 3) div 4. a + 4 * k \<in> pmp_region s i)"
    "{4 * (a div 4) ..< 4 * (a div 4) + 4 * ((n + 3) div 4)} \<subseteq> pmp_region s i \<longleftrightarrow> (\<forall>k < (n + 3) div 4. a + 4 * k \<in> pmp_region s i)"
    by (rule bytes)+
qed

text \<open>The decision about a range of bytes that meets, and lies in, the same regions as the sampled sectors.\<close>

lemma pmp_ok_from_spec:
  assumes wf: "pmp_wf s" "pmp_legal s" and fit: "unat addr + unat len \<le> 2 ^ 64" and ne: "0 < n_pmp s"
    and meets: "\<And>i. pmp_region s i \<inter> {a ..< a + n} \<noteq> {} \<longleftrightarrow> (\<exists>k < (unat len + 3) div 4. unat addr + 4 * k \<in> pmp_region s i)"
    and inside: "\<And>i. {a ..< a + n} \<subseteq> pmp_region s i \<longleftrightarrow> (\<forall>k < (unat len + 3) div 4. unat addr + 4 * k \<in> pmp_region s i)"
    and "set is \<subseteq> {..<max_pmp}"
  shows "pmp_ok_from s is addr len type mode hlvx =
     (case filter (\<lambda>i. pmp_region s i \<inter> {a ..< a + n} \<noteq> {}) is of
        [] \<Rightarrow> n_pmp s = 0 \<or> mode = PRV_M \<and> \<not> get_mmwp s \<and> (get_mml s \<longrightarrow> type \<noteq> FETCH)
      | i # _ \<Rightarrow> {a ..< a + n} \<subseteq> pmp_region s i \<and> access_ok s i type mode hlvx)"
  using assms(7)
proof (induction "is")
  case Nil
  then show ?case using ne by (cases type) auto
next
  case (Cons i "is")
  then have "i < max_pmp" by simp
  note sectors = sectors_region [OF wf(1) this wf(2) fit]
  show ?case
    unfolding pmp_ok_from_Cons sectors meets [symmetric] inside [symmetric] using Cons by simp
qed

lemma pmp_ok_range:
  assumes wf: "pmp_wf s" "pmp_legal s" and fit: "unat addr + unat len \<le> 2 ^ 64"
    and meets: "\<And>i. pmp_region s i \<inter> {a ..< a + n} \<noteq> {} \<longleftrightarrow> (\<exists>k < (unat len + 3) div 4. unat addr + 4 * k \<in> pmp_region s i)"
    and inside: "\<And>i. {a ..< a + n} \<subseteq> pmp_region s i \<longleftrightarrow> (\<forall>k < (unat len + 3) div 4. unat addr + 4 * k \<in> pmp_region s i)"
  shows "pmp_ok s addr len type mode hlvx = pmp_spec s a n type mode hlvx"
proof (cases "n_pmp s = 0")
  case True
  then show ?thesis by (simp add: pmp_ok_def pmp_spec_def)
next
  case False
  have "set [0..<n_pmp s] \<subseteq> {..<max_pmp}" using wf by (auto simp: pmp_wf_def)
  from pmp_ok_from_spec [OF wf fit _ meets inside this] False show ?thesis by (simp add: pmp_ok_def pmp_spec_def)
qed

lemma pmp_ok_bytes:
  assumes wf: "pmp_wf s" "pmp_legal s" and fit: "unat addr + unat len \<le> 2 ^ 64" "0 < unat len"
    and al: "4 dvd unat addr \<or> unat addr mod 4 + unat len \<le> 4"
  shows "pmp_ok s addr len type mode hlvx = pmp_spec s (unat addr) (unat len) type mode hlvx"
  by (rule pmp_ok_range [OF wf fit(1) access_bytes [OF al fit(2)]])

section \<open>Register writes\<close>

inductive pmp_step :: "pmp_state \<Rightarrow> pmp_state \<Rightarrow> bool" where
  pmpaddr: "i < max_pmp \<Longrightarrow> pmp_step s (snd (pmpaddr_write i v s))"
| pmpcfg: "pmp_step s (snd (pmpcfg_write k v s))"
| mseccfg: "pmp_step s (snd (mseccfg_write v s))"

text \<open>A configuration write is a sequence of writes to implemented entries.\<close>

lemma pmpcfg_write_induct:
  assumes "P s" and step: "\<And>s i. P s \<Longrightarrow> i < n_pmp s \<Longrightarrow> P (pmpcfg_entry_write v (k * 4) i s)"
  shows "P (snd (pmpcfg_write k v s))"
proof -
  have "P (snd (foldl (\<lambda>(write_success, s) i. if i < n_pmp s then (True, pmpcfg_entry_write v (k * 4) i s) else (write_success, s)) (b, s) is))"
    if "P s" for b s "is"
    using that by (induction "is" arbitrary: b s) (auto simp: step)
  then show ?thesis using assms(1) by (simp add: pmpcfg_write_def Let_def)
qed

definition pmp_params :: "pmp_state \<Rightarrow> pmp_state \<Rightarrow> bool" where
  "pmp_params s s' \<longleftrightarrow> length (pmpaddr s') = length (pmpaddr s) \<and> n_pmp s' = n_pmp s \<and> lg_pmp_granularity s' = lg_pmp_granularity s \<and>
     max_xlen s' = max_xlen s \<and> cur_xlen s' = cur_xlen s \<and> ext_zkr s' = ext_zkr s \<and> ext_zicfilp s' = ext_zicfilp s \<and> ext_smmpm s' = ext_smmpm s"

lemma pmpcfg_entry_params: "pmp_params s (pmpcfg_entry_write v i0 i s) \<and> mseccfg (pmpcfg_entry_write v i0 i s) = mseccfg s"
  by (simp add: pmpcfg_entry_write_def pmp_params_def Let_def)

lemma pmp_params_trans: "pmp_params s t \<Longrightarrow> pmp_params t u \<Longrightarrow> pmp_params s u"
  by (simp add: pmp_params_def)

lemma pmpcfg_write_params: "pmp_params s (snd (pmpcfg_write k v s)) \<and> mseccfg (snd (pmpcfg_write k v s)) = mseccfg s"
proof (rule pmpcfg_write_induct)
  fix t i assume "pmp_params s t \<and> mseccfg t = mseccfg s"
  then show "pmp_params s (pmpcfg_entry_write v (k * 4) i t) \<and> mseccfg (pmpcfg_entry_write v (k * 4) i t) = mseccfg s"
    using pmpcfg_entry_params [of t v "k * 4" i] pmp_params_trans by metis
qed (simp add: pmp_params_def)

lemma pmp_step_params: "pmp_step s s' \<Longrightarrow> pmp_params s s'"
proof (induction rule: pmp_step.induct)
  case (pmpaddr i s v)
  then show ?case by (simp add: pmpaddr_write_def pmp_params_def Let_def)
next
  case (pmpcfg s k v)
  then show ?case by (simp add: pmpcfg_write_params)
next
  case (mseccfg s v)
  then show ?case by (simp add: mseccfg_write_def pmp_params_def Let_def)
qed

text \<open>The security configuration register, bit by bit.\<close>

lemma and_pow_bit: "x AND 2 ^ n \<noteq> 0 \<longleftrightarrow> bit x n" for x :: "'a::len word"
  by (simp add: and_exp_eq_0_iff_not_bit)

lemma mseccfg_bits:
  "get_mml s \<longleftrightarrow> bit (mseccfg s) 0" "get_mmwp s \<longleftrightarrow> bit (mseccfg s) 1" "get_rlb s \<longleftrightarrow> bit (mseccfg s) 2"
  using and_pow_bit [of "mseccfg s" 0] and_pow_bit [of "mseccfg s" 1] and_pow_bit [of "mseccfg s" 2]
  by (simp_all add: get_mml_def get_mmwp_def get_rlb_def mseccfg_consts bit_0)

lemma set_field_pmm: "n < 32 \<Longrightarrow> bit (set_field reg MSECCFG_PMM val) n = bit reg n"
proof -
  assume "n < 32"
  have "MSECCFG_PMM = push_bit 32 3" by (simp add: MSECCFG_PMM_def)
  then have "\<not> bit MSECCFG_PMM n" using \<open>n < 32\<close> using bit_push_bit_iff [of 32 "3 :: reg_t" n] by presburger
  then show ?thesis using \<open>n < 32\<close> by (simp add: set_field_def bit_simps)
qed

definition pmplock_recorded :: "pmp_state \<Rightarrow> bool" where
  "pmplock_recorded s = list_ex is_locked (take (n_pmp s) (pmpaddr s))"

lemma mseccfg_write_bit:
  fixes n :: nat and v :: reg_t and s :: pmp_state
  assumes n: "n < 3"
  defines "m \<equiv> mseccfg (snd (mseccfg_write v s))"
  shows "bit m n \<longleftrightarrow>
    (if n_pmp s = 0 then bit (mseccfg s) n
     else if n = 2 then (if pmplock_recorded s \<and> \<not> bit (mseccfg s) 2 then False else bit v 2)
     else bit (mseccfg s) n \<or> bit v n)"
proof -
  have c: "\<not> bit MSECCFG_MLPE n" "\<not> bit (MSECCFG_USEED OR MSECCFG_SSEED) n"
    "bit MSECCFG_MML n \<longleftrightarrow> n = 0" "bit MSECCFG_MMWP n \<longleftrightarrow> n = 1" "bit MSECCFG_RLB n \<longleftrightarrow> n = 2"
    using n by (auto simp: mseccfg_consts less_Suc_eq numeral_eq_Suc bit_Suc bit_0 bit_1_iff)
  have r: "(mseccfg s AND MSECCFG_RLB = 0) \<longleftrightarrow> \<not> bit (mseccfg s) 2"
    using and_pow_bit [of "mseccfg s" 2] unfolding MSECCFG_RLB_def by auto
  show ?thesis
    using n c unfolding m_def mseccfg_write_def Let_def snd_conv pmp_state.select_convs pmp_state.update_convs r pmplock_recorded_def [symmetric]
    by (auto simp: set_field_pmm bit_or_iff bit_and_iff bit_not_iff)
qed

lemma locked_recorded:
  "is_locked (pmpaddr s ! i) \<Longrightarrow> i < n_pmp s \<Longrightarrow> n_pmp s \<le> length (pmpaddr s) \<Longrightarrow> pmplock_recorded s"
  by (auto simp: pmplock_recorded_def list_ex_iff in_set_conv_nth intro!: bexI [of _ "pmpaddr s ! i"] exI [of _ i])

definition m_mode_executable :: "uint8_t \<Rightarrow> bool" where
  "m_mode_executable cfg \<longleftrightarrow>
     (let cfgx = (cfg AND PMP_X \<noteq> 0); cfgw = (cfg AND PMP_W \<noteq> 0); cfgr = (cfg AND PMP_R \<noteq> 0)
      in cfg AND PMP_L \<noteq> 0 \<and> \<not> (cfgx \<and> cfgw \<and> cfgr) \<and> (cfgx \<or> (cfgw \<and> \<not> cfgr)))"

text \<open>A locked entry, and the bottom of its range when it is a top-of-range entry.\<close>

definition same_entry :: "pmp_state \<Rightarrow> pmp_state \<Rightarrow> nat \<Rightarrow> bool" where
  "same_entry s s' i \<longleftrightarrow>
     pmpaddr s' ! i = pmpaddr s ! i \<and>
     (pmp_cfg (pmpaddr s ! i) AND PMP_A = PMP_TOR \<and> 0 < i \<longrightarrow> pmp_val (pmpaddr s' ! (i - 1)) = pmp_val (pmpaddr s ! (i - 1)))"

definition pmp_locked :: "pmp_state \<Rightarrow> nat \<Rightarrow> bool" where
  "pmp_locked s i \<longleftrightarrow> length (pmpaddr s) = max_pmp \<and> n_pmp s \<le> max_pmp \<and> i < n_pmp s \<and> is_locked (pmpaddr s ! i) \<and> \<not> get_rlb s"

lemma pmpaddr_write_locked:
  assumes "pmp_locked s i" "j < max_pmp"
  shows "same_entry s (snd (pmpaddr_write j v s)) i"
  using assms
  by (auto simp: pmpaddr_write_def pmp_locked_def same_entry_def is_locked_def next_locked_and_tor_def Let_def nth_list_update)

lemma pmpcfg_entry_write_cases:
  obtains cfg where "get_rlb s \<or> \<not> is_locked (pmpaddr s ! i)"
    "get_rlb s \<or> \<not> (get_mml s \<and> m_mode_executable (pmpcfg_legalize s cfg))"
    "pmpcfg_entry_write v i0 i s = s\<lparr>pmpaddr := (pmpaddr s)[i := (pmpaddr s ! i)\<lparr>pmp_cfg := pmpcfg_legalize s cfg\<rparr>]\<rparr>"
  | "pmpcfg_entry_write v i0 i s = s"
proof -
  define cfg where "cfg = (ucast (drop_bit (8 * (i - i0)) v) AND (PMP_R OR PMP_W OR PMP_X OR PMP_A OR PMP_L) :: uint8_t)"
  have "pmpcfg_entry_write v i0 i s =
    (if get_rlb s \<or> \<not> is_locked (pmpaddr s ! i)
     then if get_rlb s \<or> \<not> (get_mml s \<and> m_mode_executable (pmpcfg_legalize s cfg))
       then s\<lparr>pmpaddr := (pmpaddr s)[i := (pmpaddr s ! i)\<lparr>pmp_cfg := pmpcfg_legalize s cfg\<rparr>]\<rparr> else s
     else s)"
    unfolding pmpcfg_entry_write_def Let_def is_locked_def m_mode_executable_def cfg_def ..
  then show thesis using that by (metis (full_types))
qed

lemma pmpcfg_entry_locked:
  assumes "pmp_locked s i"
  shows "same_entry s (pmpcfg_entry_write v i0 j s) i"
proof (cases rule: pmpcfg_entry_write_cases [of s j v i0])
  case (1 cfg)
  then have "i \<noteq> j" using assms by (auto simp: pmp_locked_def)
  then show ?thesis unfolding 1 same_entry_def
    by (cases "j < length (pmpaddr s)") (auto simp: nth_list_update list_update_beyond not_less)
qed (simp add: same_entry_def)

lemma pmp_locked_transfer:
  "pmp_locked s i \<Longrightarrow> same_entry s s' i \<Longrightarrow> pmp_params s s' \<Longrightarrow> \<not> get_rlb s' \<Longrightarrow> pmp_locked s' i"
  by (simp add: pmp_locked_def same_entry_def pmp_params_def)

lemma same_entry_trans: "same_entry s t i \<Longrightarrow> same_entry t u i \<Longrightarrow> same_entry s u i"
  by (simp add: same_entry_def)

lemma pmpcfg_write_locked:
  assumes "pmp_locked s i"
  shows "same_entry s (snd (pmpcfg_write k v s)) i \<and> pmp_locked (snd (pmpcfg_write k v s)) i"
proof (rule pmpcfg_write_induct)
  fix t j assume t: "same_entry s t i \<and> pmp_locked t i"
  have "same_entry t (pmpcfg_entry_write v (k * 4) j t) i" using t pmpcfg_entry_locked by blast
  moreover have "\<not> get_rlb (pmpcfg_entry_write v (k * 4) j t)"
    using t pmpcfg_entry_params [of t v "k * 4" j] by (simp add: pmp_locked_def get_rlb_def)
  ultimately show "same_entry s (pmpcfg_entry_write v (k * 4) j t) i \<and> pmp_locked (pmpcfg_entry_write v (k * 4) j t) i"
    using t pmpcfg_entry_params pmp_locked_transfer same_entry_trans by blast
qed (use assms in \<open>simp add: same_entry_def\<close>)

lemma pmp_step_locked:
  assumes "pmp_step s s'" and l: "pmp_locked s i"
  shows "same_entry s s' i \<and> pmp_locked s' i"
  using assms(1)
proof cases
  case (pmpaddr j v)
  then have e: "same_entry s s' i" using pmpaddr_write_locked [OF l] by simp
  moreover have "\<not> get_rlb s'" using l pmpaddr by (simp add: pmpaddr_write_def Let_def pmp_locked_def get_rlb_def)
  ultimately show ?thesis using pmp_locked_transfer [OF l] pmp_step_params [OF assms(1)] by blast
next
  case (pmpcfg k v)
  then show ?thesis using pmpcfg_write_locked [OF l] by simp
next
  case (mseccfg v)
  have e: "same_entry s s' i" using mseccfg by (simp add: mseccfg_write_def Let_def same_entry_def)
  have "pmplock_recorded s" "n_pmp s \<noteq> 0" "\<not> bit (mseccfg s) 2"
    using l locked_recorded [of s i] by (auto simp: pmp_locked_def mseccfg_bits)
  then have "\<not> get_rlb s'" using mseccfg_write_bit [of 2 v s] mseccfg by (simp add: mseccfg_bits)
  then show ?thesis using e pmp_locked_transfer [OF l] pmp_step_params [OF assms(1)] by blast
qed

lemma pmp_steps_locked:
  assumes "pmp_step\<^sup>*\<^sup>* s s'" "pmp_locked s i"
  shows "same_entry s s' i \<and> pmp_locked s' i \<and> pmp_params s s'"
  using assms(1)
proof induction
  case base
  then show ?case using assms(2) by (simp add: same_entry_def pmp_params_def)
next
  case (step t u)
  then show ?case using pmp_step_locked pmp_step_params same_entry_trans pmp_params_trans by blast
qed

lemma same_entry_match:
  assumes "same_entry s s' i" "pmp_params s s'"
  shows "match4 s' i a = match4 s i a"
proof -
  have t: "pmp_tor_mask s' = pmp_tor_mask s" using assms(2) by (simp add: pmp_tor_mask_def pmp_params_def)
  have e: "pmpaddr s' ! i = pmpaddr s ! i" using assms(1) by (simp add: same_entry_def)
  have b: "tor_base_paddr s' i = tor_base_paddr s i" if "pmp_cfg (pmpaddr s ! i) AND PMP_A = PMP_TOR"
    using assms(1) that t by (simp add: same_entry_def tor_base_paddr_def tor_paddr_def)
  show ?thesis unfolding match4_def Let_def e by (auto simp: b tor_paddr_def napot_mask_def Let_def e t)
qed

lemma pmp_ok_from_prefix:
  assumes "\<And>j. j \<in> set is \<Longrightarrow> match4 s' j = match4 s j \<and> access_ok s' j = access_ok s j"
    and "\<exists>j \<in> set is. list_ex (match4 s j) (pmp_sectors addr len)"
  shows "pmp_ok_from s' (is @ rest') addr len type mode hlvx = pmp_ok_from s (is @ rest) addr len type mode hlvx"
  using assms by (induction "is") auto

lemma pmp_ok_locked:
  assumes steps: "pmp_step\<^sup>*\<^sup>* s s'" and mml: "get_mml s' = get_mml s" and locked: "\<And>j. j \<le> i \<Longrightarrow> pmp_locked s j"
    and hit: "list_ex (match4 s i) (pmp_sectors addr len)"
  shows "pmp_ok s' addr len type mode hlvx = pmp_ok s addr len type mode hlvx"
proof -
  have same: "match4 s' j = match4 s j \<and> access_ok s' j = access_ok s j" if "j \<in> set [0..<Suc i]" for j
  proof -
    from that have e: "same_entry s s' j" "pmp_params s s'" using pmp_steps_locked [OF steps locked] by auto
    then have "access_ok s' j = access_ok s j" using mml by (intro ext) (simp add: access_ok_def same_entry_def)
    then show ?thesis using same_entry_match [OF e] by (simp add: fun_eq_iff)
  qed
  have n: "i < n_pmp s" "n_pmp s' = n_pmp s" using locked [of i] pmp_steps_locked [OF steps locked, of i] by (simp_all add: pmp_locked_def pmp_params_def)
  then have sp: "[0..<n_pmp s] = [0..<Suc i] @ [Suc i..<n_pmp s]" using upt_add_eq_append [of 0 "Suc i" "n_pmp s - Suc i"] by simp
  have "\<exists>j \<in> set [0..<Suc i]. list_ex (match4 s j) (pmp_sectors addr len)" using hit by (intro bexI [of _ i]) auto
  from pmp_ok_from_prefix [OF same this] show ?thesis unfolding pmp_ok_def n(2) sp using n(1) by simp
qed

section \<open>Reachable configurations\<close>

lemma cfg_bits:
  "cfg AND PMP_R \<noteq> 0 \<longleftrightarrow> bit cfg 0" "cfg AND PMP_W \<noteq> 0 \<longleftrightarrow> bit cfg 1" "cfg AND PMP_X \<noteq> 0 \<longleftrightarrow> bit cfg 2" "cfg AND PMP_L \<noteq> 0 \<longleftrightarrow> bit cfg 7"
  for cfg :: uint8_t
  using and_pow_bit [of cfg 0] and_pow_bit [of cfg 1] and_pow_bit [of cfg 2] and_pow_bit [of cfg 7] by (simp_all add: pmp_consts bit_0)

lemma cfg_A_bits: "cfg AND PMP_A = PMP_NA4 \<longleftrightarrow> bit cfg 4 \<and> \<not> bit cfg 3" for cfg :: uint8_t
proof -
  have "cfg AND PMP_A = (if bit cfg 3 then 0x08 else 0) OR (if bit cfg 4 then 0x10 else 0)"
    unfolding PMP_A_def by (rule bit_word_eqI) (auto simp: bit_simps numeral_eq_Suc bit_Suc less_Suc_eq)
  then show ?thesis by (simp add: pmp_consts)
qed

definition cfg_legal :: "pmp_state \<Rightarrow> uint8_t \<Rightarrow> bool" where
  "cfg_legal s cfg \<longleftrightarrow> (get_mml s \<or> cfg AND PMP_W = 0 \<or> cfg AND PMP_R \<noteq> 0) \<and> (lg_pmp_granularity s = PMP_SHIFT \<or> cfg AND PMP_A \<noteq> PMP_NA4)"

lemma pmp_legal_cfg: "pmp_legal s = list_all (\<lambda>e. cfg_legal s (pmp_cfg e)) (pmpaddr s)"
  by (simp add: pmp_legal_def cfg_legal_def)

lemma pmpcfg_legalize_legal: "cfg_legal s (pmpcfg_legalize s cfg)"
proof -
  define c1 where "c1 = (if \<not> get_mml s then cfg AND (NOT PMP_W OR (if cfg AND PMP_R \<noteq> 0 then PMP_W else 0)) else cfg)"
  have w: "get_mml s \<or> \<not> bit c1 1 \<or> bit c1 0"
    unfolding c1_def cfg_bits by (auto simp: bit_simps pmp_consts bit_0 bit_1_iff)
  have l: "pmpcfg_legalize s cfg = (if lg_pmp_granularity s \<noteq> PMP_SHIFT \<and> c1 AND PMP_A = PMP_NA4 then c1 OR PMP_NAPOT else c1)"
    by (simp add: pmpcfg_legalize_def c1_def Let_def)
  have n: "bit (c1 OR PMP_NAPOT) 0 = bit c1 0" "bit (c1 OR PMP_NAPOT) 1 = bit c1 1" "bit (c1 OR PMP_NAPOT) 3"
    unfolding bit_or_iff by (simp_all add: PMP_NAPOT_def bit_0)
  have wz: "c AND PMP_W = 0 \<longleftrightarrow> \<not> bit c 1" for c :: uint8_t using cfg_bits(2) [of c] by blast
  show ?thesis unfolding cfg_legal_def l cfg_A_bits cfg_bits wz using w n by auto
qed

lemma pmp_wf_params:
  "pmp_params s s' \<Longrightarrow> pmp_wf s \<Longrightarrow> list_all (\<lambda>e. unat (pmp_val e) < 2 ^ (paddr_bits s - PMP_SHIFT)) (pmpaddr s') \<Longrightarrow> pmp_wf s'"
  by (simp add: pmp_wf_def pmp_params_def paddr_bits_def)

lemma list_all_update: "list_all P xs \<Longrightarrow> P y \<Longrightarrow> list_all P (xs[i := y])"
  by (auto simp: list_all_iff dest: set_update_subset_insert [THEN subsetD])

lemma pmpcfg_write_wf:
  assumes "pmp_wf s" "pmp_legal s"
  shows "pmp_wf (snd (pmpcfg_write k v s)) \<and> pmp_legal (snd (pmpcfg_write k v s))"
proof (rule pmpcfg_write_induct)
  fix t i assume t: "pmp_wf t \<and> pmp_legal t" and i: "i < n_pmp t"
  show "pmp_wf (pmpcfg_entry_write v (k * 4) i t) \<and> pmp_legal (pmpcfg_entry_write v (k * 4) i t)"
  proof (cases rule: pmpcfg_entry_write_cases [of t i v "k * 4"])
    case (1 cfg)
    have len: "i < length (pmpaddr t)" using t i by (simp add: pmp_wf_def)
    then have "list_all (\<lambda>e. unat (pmp_val e) < 2 ^ (paddr_bits t - PMP_SHIFT)) ((pmpaddr t)[i := (pmpaddr t ! i)\<lparr>pmp_cfg := pmpcfg_legalize t cfg\<rparr>])"
      using t by (intro list_all_update) (simp_all add: pmp_wf_def list_all_length)
    moreover have "list_all (\<lambda>e. cfg_legal t (pmp_cfg e)) ((pmpaddr t)[i := (pmpaddr t ! i)\<lparr>pmp_cfg := pmpcfg_legalize t cfg\<rparr>])"
      using t by (intro list_all_update) (simp_all add: pmp_legal_cfg pmpcfg_legalize_legal)
    ultimately show ?thesis using t unfolding 1
      by (simp add: pmp_wf_def pmp_legal_cfg paddr_bits_def cfg_legal_def get_mml_def)
  qed (use t in simp)
qed (use assms in simp)

lemma pmp_step_wf:
  assumes "pmp_step s s'" "pmp_wf s" "pmp_legal s"
  shows "pmp_wf s' \<and> pmp_legal s'"
  using assms(1)
proof cases
  case (pmpaddr i v)
  define e where "e = (pmpaddr s ! i)\<lparr>pmp_val := v AND (push_bit (paddr_bits s - PMP_SHIFT) 1 - 1)\<rparr>"
  have s': "s' = s \<or> s' = s\<lparr>pmpaddr := (pmpaddr s)[i := e]\<rparr>" using pmpaddr by (simp add: pmpaddr_write_def Let_def e_def)
  have len: "i < length (pmpaddr s)" using pmpaddr assms by (simp add: pmp_wf_def)
  have "unat (v AND mask (paddr_bits s - PMP_SHIFT)) = unat v mod 2 ^ (paddr_bits s - PMP_SHIFT)"
    by (intro unat_and_mask unat_mask_plus) (simp add: paddr_bits_def PMP_SHIFT_def)
  then have "unat (pmp_val e) < 2 ^ (paddr_bits s - PMP_SHIFT)" by (simp add: e_def mask_eq_exp_minus_1 push_bit_eq_mult)
  then have "list_all (\<lambda>e. unat (pmp_val e) < 2 ^ (paddr_bits s - PMP_SHIFT)) ((pmpaddr s)[i := e])"
    using assms(2) by (intro list_all_update) (simp_all add: pmp_wf_def)
  moreover have "list_all (\<lambda>e. cfg_legal s (pmp_cfg e)) ((pmpaddr s)[i := e])"
    using assms(3) len by (intro list_all_update) (simp_all add: pmp_legal_cfg list_all_length e_def)
  ultimately show ?thesis using s' assms(2,3)
    by (auto simp: pmp_wf_def pmp_legal_cfg paddr_bits_def cfg_legal_def get_mml_def)
next
  case (pmpcfg k v)
  then show ?thesis using pmpcfg_write_wf assms by simp
next
  case (mseccfg v)
  have p: "pmpaddr s' = pmpaddr s" using mseccfg by (simp add: mseccfg_write_def Let_def)
  have "get_mml s \<Longrightarrow> get_mml s'" using mseccfg mseccfg_write_bit [of 0 v s] by (simp add: mseccfg_bits)
  moreover have "lg_pmp_granularity s' = lg_pmp_granularity s" using pmp_step_params [OF assms(1)] by (simp add: pmp_params_def)
  ultimately have "pmp_legal s'" using assms(3) by (auto simp: pmp_legal_cfg cfg_legal_def p list_all_length)
  then show ?thesis using pmp_wf_params [OF pmp_step_params [OF assms(1)] assms(2)] assms(2) by (simp add: p pmp_wf_def)
qed

lemma pmp_steps_wf: "pmp_step\<^sup>*\<^sup>* s s' \<Longrightarrow> pmp_wf s \<Longrightarrow> pmp_legal s \<Longrightarrow> pmp_wf s' \<and> pmp_legal s'"
  by (induction rule: rtranclp_induct) (use pmp_step_wf in blast)+

lemma pmp_reset_steps:
  assumes "n_pmp s \<le> max_pmp" "PMP_SHIFT \<le> lg_pmp_granularity s" "lg_pmp_granularity s < 64"
  shows "pmp_wf (pmp_reset s) \<and> pmp_legal (pmp_reset s)"
proof -
  define t where "t = s\<lparr>pmpaddr := replicate max_pmp \<lparr>pmp_val = 0, pmp_cfg = 0\<rparr>, mseccfg := 0, cur_xlen := max_xlen s\<rparr>"
  have "pmp_wf t" "pmp_legal t"
    using assms by (auto simp: t_def pmp_wf_def pmp_legal_cfg cfg_legal_def list_all_iff PMP_NA4_def)
  moreover have "pmp_step\<^sup>*\<^sup>* t (pmp_reset s)"
  proof (cases "0 < n_pmp t")
    case True
    have "pmp_reset s = snd (pmpcfg_write 0 (ucast (PMP_R OR PMP_W OR PMP_X OR PMP_NAPOT)) (snd (pmpaddr_write 0 (NOT 0) t)))"
      using True unfolding pmp_reset_def Let_def t_def [symmetric] by simp
    then show ?thesis
      using pmp_step.pmpaddr [of 0 t "NOT 0"] pmp_step.pmpcfg by (simp add: max_pmp_def) (metis converse_rtranclp_into_rtranclp r_into_rtranclp)
  next
    case False
    then show ?thesis unfolding pmp_reset_def Let_def t_def [symmetric] by simp
  qed
  ultimately show ?thesis using pmp_steps_wf by blast
qed

lemma mml_sticky: "pmp_step\<^sup>*\<^sup>* s s' \<Longrightarrow> (get_mml s \<longrightarrow> get_mml s') \<and> (get_mmwp s \<longrightarrow> get_mmwp s')"
proof (induction rule: rtranclp_induct)
  case (step t u)
  have "(get_mml t \<longrightarrow> get_mml u) \<and> (get_mmwp t \<longrightarrow> get_mmwp u)"
    using step(2)
  proof cases
    case (pmpaddr i v)
    then show ?thesis by (simp add: pmpaddr_write_def Let_def get_mml_def get_mmwp_def)
  next
    case (pmpcfg k v)
    then show ?thesis using pmpcfg_write_params [of t k v] by (simp add: get_mml_def get_mmwp_def)
  next
    case (mseccfg v)
    then show ?thesis using mseccfg_write_bit [of 0 v t] mseccfg_write_bit [of 1 v t] by (simp add: mseccfg_bits)
  qed
  with step show ?case by blast
qed simp

section \<open>After reset\<close>

lemma foldl_entry0:
  assumes "pmpaddr s ! 0 = e" "list_all (\<lambda>i. 0 < i) is"
  shows "pmpaddr (snd (foldl (\<lambda>(write_success, s) i. if i < n_pmp s then (True, pmpcfg_entry_write v i0 i s) else (write_success, s)) (b, s) is)) ! 0 = e"
  using assms
proof (induction "is" arbitrary: b s)
  case (Cons i "is")
  have "pmpaddr (pmpcfg_entry_write v i0 i s) ! 0 = e"
    using Cons.prems by (cases rule: pmpcfg_entry_write_cases [of s i v i0]) simp_all
  then show ?case using Cons by simp
qed simp

lemma pmp_reset_entry0:
  assumes "0 < n_pmp s" "8 \<le> max_xlen s"
  shows "pmpaddr (pmp_reset s) ! 0 = \<lparr>pmp_val = mask (paddr_bits s - PMP_SHIFT), pmp_cfg = 0x1F\<rparr>"
proof -
  define t where "t = s\<lparr>pmpaddr := replicate max_pmp \<lparr>pmp_val = 0, pmp_cfg = 0\<rparr>, mseccfg := 0, cur_xlen := max_xlen s\<rparr>"
  define u where "u = snd (pmpaddr_write 0 (NOT 0) t)"
  have u: "pmpaddr u ! 0 = \<lparr>pmp_val = mask (paddr_bits s - PMP_SHIFT), pmp_cfg = 0\<rparr>" "n_pmp u = n_pmp s" "mseccfg u = 0" "cur_xlen u = max_xlen s"
    "lg_pmp_granularity u = lg_pmp_granularity s"  "length (pmpaddr u) = max_pmp"
    using assms by (simp_all add: u_def t_def pmpaddr_write_def Let_def next_locked_and_tor_def max_pmp_def paddr_bits_def mask_eq_exp_minus_1 push_bit_eq_mult)
  have up: "[0..<max_xlen s div 8] = 0 # [1..<max_xlen s div 8]" using assms by (simp add: upt_rec)
  have c: "pmpcfg_legalize u (ucast (ucast (PMP_R OR PMP_W OR PMP_X OR PMP_NAPOT) :: reg_t) AND (PMP_R OR PMP_W OR PMP_X OR PMP_A OR PMP_L)) = 0x1F"
    using u by (simp add: pmpcfg_legalize_def pmp_consts get_mml_def)
  have e: "pmpaddr (pmpcfg_entry_write (ucast (PMP_R OR PMP_W OR PMP_X OR PMP_NAPOT)) 0 0 u) ! 0 = \<lparr>pmp_val = mask (paddr_bits s - PMP_SHIFT), pmp_cfg = 0x1F\<rparr>"
    unfolding pmpcfg_entry_write_def Let_def using u c by (simp add: get_rlb_def get_mml_def max_pmp_def)
  have "pmp_reset s = snd (pmpcfg_write 0 (ucast (PMP_R OR PMP_W OR PMP_X OR PMP_NAPOT)) u)"
    using assms unfolding pmp_reset_def Let_def t_def [symmetric] u_def by (simp add: t_def)
  then show ?thesis unfolding pmpcfg_write_def Let_def using u(2,4) assms(1) up foldl_entry0 [OF e] by (simp add: list_all_iff)
qed

lemma pmp_reset_params: "n_pmp (pmp_reset s) = n_pmp s" "paddr_bits (pmp_reset s) = paddr_bits s" "mseccfg (pmp_reset s) = 0"
proof -
  define t where "t = s\<lparr>pmpaddr := replicate max_pmp \<lparr>pmp_val = 0, pmp_cfg = 0\<rparr>, mseccfg := 0, cur_xlen := max_xlen s\<rparr>"
  define u where "u = snd (pmpaddr_write 0 (NOT 0) t)"
  have u: "pmp_params t u \<and> mseccfg u = 0" by (simp add: u_def pmpaddr_write_def Let_def pmp_params_def t_def)
  have "pmp_reset s = (if 0 < n_pmp t then snd (pmpcfg_write 0 (ucast (PMP_R OR PMP_W OR PMP_X OR PMP_NAPOT)) u) else t)"
    unfolding pmp_reset_def Let_def t_def [symmetric] u_def ..
  then have "pmp_params t (pmp_reset s) \<and> mseccfg (pmp_reset s) = 0"
    using u pmpcfg_write_params [of u 0 "ucast (PMP_R OR PMP_W OR PMP_X OR PMP_NAPOT)"] pmp_params_trans [of t u]
    by (auto simp: pmp_params_def t_def)
  then show "n_pmp (pmp_reset s) = n_pmp s" "paddr_bits (pmp_reset s) = paddr_bits s" "mseccfg (pmp_reset s) = 0"
    by (simp_all add: pmp_params_def paddr_bits_def t_def)
qed

lemma cto_mask: "m \<le> 64 \<Longrightarrow> cto (mask m :: uint64_t) = m"
  by (intro cto_unique) (auto simp: bit_mask_iff)

lemma pmp_reset_matches:
  assumes "0 < n_pmp s" "8 \<le> max_xlen s" "n_pmp s \<le> max_pmp" "PMP_SHIFT \<le> lg_pmp_granularity s" "lg_pmp_granularity s < 64"
    and a: "unat a < 2 ^ paddr_bits s"
  shows "match4 (pmp_reset s) 0 a"
proof -
  let ?t = "pmp_reset s"
  have wf: "pmp_wf ?t" "0 < max_pmp" using pmp_reset_steps [OF assms(3-5)] by (simp_all add: max_pmp_def)
  have e: "pmpaddr ?t ! 0 = \<lparr>pmp_val = mask (paddr_bits s - PMP_SHIFT), pmp_cfg = 0x1F\<rparr>" by (rule pmp_reset_entry0 [OF assms(1,2)])
  then have A: "pmp_cfg (pmpaddr ?t ! 0) AND PMP_A = PMP_NAPOT" by (simp add: pmp_consts)
  define m where "m = max (paddr_bits s - PMP_SHIFT) (lg_pmp_granularity ?t - PMP_SHIFT - 1)"
  have m: "m \<le> 62" "paddr_bits s \<le> m + 2" unfolding m_def
    using pmp_wf_lg [OF wf(1)] by (auto simp: paddr_bits_def PMP_SHIFT_def max_def)
  have "pmpaddr_read ?t 0 = mask (paddr_bits s - PMP_SHIFT) OR drop_bit 1 (mask (lg_pmp_granularity ?t - PMP_SHIFT))"
    using A unfolding pmpaddr_read_def Let_def granule_ones by (simp add: e)
  also have "\<dots> = mask m"
    unfolding m_def using pmp_wf_lg [OF wf(1)] by (intro bit_word_eqI) (auto simp: bit_simps max_def)
  finally have r: "pmpaddr_read ?t 0 = mask m" .
  have "unat (mask m :: uint64_t) < 2 ^ (m + 1)" using unat_mask_plus [of m] m(1) by simp
  moreover have "unat a < 2 ^ (m + 3)" 
  proof -
    have "(2::nat) ^ paddr_bits s \<le> 2 ^ (m + 3)" using m(2) by (intro power_increasing) simp_all
    with a show ?thesis by linarith
  qed
  ultimately show ?thesis unfolding match4_napot [OF wf A] r using cto_mask [of m] m(1) by simp
qed

lemma pmp_reset_open:
  assumes "n_pmp s \<le> max_pmp" "8 \<le> max_xlen s" "PMP_SHIFT \<le> lg_pmp_granularity s" "lg_pmp_granularity s < 64"
    and a: "unat addr + unat len \<le> 2 ^ paddr_bits s" "0 < unat len"
  shows "pmp_ok (pmp_reset s) addr len type mode hlvx"
proof (cases "n_pmp s = 0")
  case True
  then show ?thesis by (simp add: pmp_ok_def pmp_reset_params)
next
  case False
  have "(2::nat) ^ paddr_bits s \<le> 2 ^ 64" by (rule power_increasing) (simp_all add: paddr_bits_def)
  then have "match4 (pmp_reset s) 0 u" if "u \<in> set (pmp_sectors addr len)" for u
    using set_pmp_sectors [OF that] False assms by (intro pmp_reset_matches) auto
  then have all: "list_all (match4 (pmp_reset s) 0) (pmp_sectors addr len)" by (simp add: list_all_iff)
  moreover have "list_ex (match4 (pmp_reset s) 0) (pmp_sectors addr len)"
    using all pmp_sectors_nonempty [OF a(2)] by (cases "pmp_sectors addr len") auto
  moreover have "access_ok (pmp_reset s) 0 type mode hlvx"
    using False assms(2) by (cases type) (simp_all add: access_ok_def pmp_reset_entry0 pmp_reset_params get_mml_def pmp_consts)
  moreover have "[0..<n_pmp (pmp_reset s)] = 0 # [1..<n_pmp s]" using False by (simp add: pmp_reset_params upt_rec)
  ultimately show ?thesis using False by (simp add: pmp_ok_def pmp_reset_params)
qed

section \<open>Privilege\<close>

lemma get_field_priv:
  assumes "unat address div 256 = 3"
  shows "get_field address 0x300 = 3" "get_field address 0xC00 = 0"
proof -
  have "unat address div 2 ^ 10 = unat address div 256 div 4" by (simp add: div_mult2_eq [symmetric])
  then have "unat (address AND 0x300) = unat (0x300 :: reg_t)" "unat (address AND 0xC00) = unat (0 :: reg_t)"
    using unat_and_field [of "0x300" 2 8 address] unat_and_field [of "0xC00" 2 10 address] assms by simp_all
  then have "address AND 0x300 = 0x300" "address AND 0xC00 = 0" unfolding word_unat_eq_iff .
  then show "get_field address 0x300 = 3" "get_field address 0xC00 = 0" by (simp_all add: get_field_def)
qed

lemma pmp_csr_permission:
  assumes a: "0x3A0 \<le> unat address" "unat address \<le> 0x3EF" and "prv \<in> {PRV_U, PRV_S, PRV_M}"
  shows "pmp_verify_permissions s address prv v ext_S ext_H write = None \<longleftrightarrow> prv = PRV_M \<and> n_pmp s \<noteq> 0"
proof -
  have "unat address div 256 = 3" using a by simp
  note f = get_field_priv [OF this]
  show ?thesis using assms(3) unfolding pmp_verify_permissions_def csr_verify_permissions_def Let_def f
    by (auto simp: prv_consts)
qed

section \<open>Configuration of the hart\<close>

lemma power_of_two_ctz:
  assumes "gran AND (gran - 1) = 0" "gran \<noteq> 0"
  shows "gran = 2 ^ ctz gran"
proof -
  obtain c k where c: "c = ctz gran" and k: "k = c + 1" by simp
  have ck: "c < k" by (simp add: k)
  have b: "bit gran c" using ctz_bit(1) [OF assms(2)] by (simp add: c)
  have low: "\<not> bit gran n" if "n < c" for n
  proof
    assume "bit gran n"
    then have "bit (take_bit c gran) n" using that by (simp add: bit_take_bit_iff)
    then show False using ctz_bit(2) [OF assms(2)] by (simp add: c)
  qed
  have nc: "n < c \<or> n = c \<or> k \<le> n" for n by (auto simp: k)
  have "gran = push_bit k (drop_bit k gran) OR 2 ^ c"
  proof (rule bit_word_eqI)
    fix n show "bit gran n = bit (push_bit k (drop_bit k gran) OR 2 ^ c) n" if "n < LENGTH(64)"
      using nc [of n] b low [of n] that ck by (auto simp: bit_simps)
  qed
  also have "\<dots> = push_bit k (drop_bit k gran) + 2 ^ c"
    by (rule disjunctive_add [symmetric]) (use ck in \<open>auto simp: bit_simps\<close>)
  finally have g: "gran = push_bit k (drop_bit k gran) + 2 ^ c" .
  then have "gran - 1 = push_bit k (drop_bit k gran) + 2 ^ c - 1" by (rule arg_cong [of _ _ "\<lambda>t. t - 1"])
  also have "\<dots> = push_bit k (drop_bit k gran) + mask c" by (simp add: mask_eq_exp_minus_1)
  also have "\<dots> = push_bit k (drop_bit k gran) OR mask c"
    by (rule disjunctive_add) (use ck in \<open>auto simp: bit_simps\<close>)
  finally have "gran AND (push_bit k (drop_bit k gran) OR mask c) = 0" using assms(1) by simp
  then have "\<not> bit (gran AND (push_bit k (drop_bit k gran) OR mask c)) n" for n by simp
  then have "push_bit k (drop_bit k gran) = 0"
    by (intro bit_word_eqI) (auto simp: bit_simps)
  with g c show ?thesis by simp
qed

lemma set_pmp_granularity_lg:
  assumes "set_pmp_granularity gran s = Some s'"
  shows "gran = 2 ^ lg_pmp_granularity s'" "PMP_SHIFT \<le> lg_pmp_granularity s'" "lg_pmp_granularity s' < 64" "n_pmp s' = n_pmp s"
proof -
  have g: "\<not> gran < 4" "gran AND (gran - 1) = 0" and s': "s' = s\<lparr>lg_pmp_granularity := ctz gran\<rparr>"
    using assms by (auto simp: set_pmp_granularity_def PMP_SHIFT_def split: if_splits)
  have "gran \<noteq> 0" using g(1) by auto
  then have e: "gran = 2 ^ ctz gran" and b: "bit gran (ctz gran)" using power_of_two_ctz [OF g(2)] ctz_bit(1) by auto
  show "gran = 2 ^ lg_pmp_granularity s'" "n_pmp s' = n_pmp s" using e by (simp_all add: s')
  show "lg_pmp_granularity s' < 64" using bit_imp_le_length [OF b] by (simp add: s')
  show "PMP_SHIFT \<le> lg_pmp_granularity s'"
  proof (rule ccontr)
    assume "\<not> ?thesis"
    then have "ctz gran = 0 \<or> ctz gran = 1" by (auto simp: s' PMP_SHIFT_def)
    with e have "gran = 1 \<or> gran = 2" by auto
    with g(1) show False by auto
  qed
qed

section \<open>Properties\<close>

definition example_hart :: pmp_state where
  "example_hart = \<lparr>pmpaddr = [], mseccfg = 0, n_pmp = 16, lg_pmp_granularity = 2, max_xlen = 64, cur_xlen = 64,
     ext_zkr = False, ext_zicfilp = False, ext_smmpm = False\<rparr>"

text \<open>C24. Lock safety. Once an entry is locked while rule locking is not bypassed, no sequence of writes to the
  address, configuration and security registers, in any order and with any values, changes the entry, its
  lock, or the set of addresses it matches (the bottom of a top-of-range entry included), and the
  bypass bit can never be set again.\<close>

theorem pmp_lock_safe:
  assumes "pmp_step\<^sup>*\<^sup>* s s'" and "pmp_locked s i"
  shows "pmpaddr s' ! i = pmpaddr s ! i \<and> pmp_locked s' i \<and> \<not> get_rlb s' \<and> (\<forall>a. match4 s' i a = match4 s i a)"
  using pmp_steps_locked [OF assms] same_entry_match by (auto simp: same_entry_def pmp_locked_def)

theorem pmp_lock_safe_witness:
  "let s = snd (pmpcfg_write 0 0x9F (pmp_reset example_hart)); s' = snd (pmpaddr_write 0 5 s)
   in pmp_locked s 0 \<and> pmpaddr s' ! 0 = pmpaddr s ! 0"
proof -
  let ?s = "snd (pmpcfg_write 0 0x9F (pmp_reset example_hart))"
  have l: "pmp_locked ?s 0" by code_simp
  have "pmp_step\<^sup>*\<^sup>* ?s (snd (pmpaddr_write 0 5 ?s))" by (intro r_into_rtranclp pmp_step.pmpaddr) (simp add: max_pmp_def)
  from pmp_lock_safe [OF this l] l show ?thesis by (simp add: Let_def)
qed

text \<open>C25. Decisions of a locked prefix are final: when all entries up to the one that decides an access are
  locked, the outcome of the access check is the same after any sequence of register writes that keeps
  the lockdown mode bit as it is.\<close>

theorem pmp_locked_decision:
  assumes "pmp_step\<^sup>*\<^sup>* s s'" and "get_mml s' = get_mml s" and "\<And>j. j \<le> i \<Longrightarrow> pmp_locked s j"
    and "list_ex (match4 s i) (pmp_sectors addr len)"
  shows "pmp_ok s' addr len type mode hlvx = pmp_ok s addr len type mode hlvx"
  using assms by (rule pmp_ok_locked)

theorem pmp_locked_decision_witness:
  "let s = snd (pmpcfg_write 0 0x9D (pmp_reset example_hart)); s' = snd (pmpcfg_write 0 0x1F s)
   in \<not> pmp_ok s 0x1000 8 STORE PRV_M False \<and> \<not> pmp_ok s' 0x1000 8 STORE PRV_M False"
proof -
  let ?s = "snd (pmpcfg_write 0 0x9D (pmp_reset example_hart))" and ?v = "0x1F :: reg_t"
  have l: "pmp_locked ?s 0" and h: "list_ex (match4 ?s 0) (pmp_sectors 0x1000 8)" and n: "\<not> pmp_ok ?s 0x1000 8 STORE PRV_M False"
    by code_simp+
  have st: "pmp_step\<^sup>*\<^sup>* ?s (snd (pmpcfg_write 0 ?v ?s))" by (intro r_into_rtranclp pmp_step.pmpcfg)
  have m: "get_mml (snd (pmpcfg_write 0 ?v ?s)) = get_mml ?s" using pmpcfg_write_params [of ?s 0 ?v] by (simp add: get_mml_def)
  have "pmp_ok (snd (pmpcfg_write 0 ?v ?s)) 0x1000 8 STORE PRV_M False = pmp_ok ?s 0x1000 8 STORE PRV_M False"
    by (rule pmp_locked_decision [OF st m _ h]) (use l in simp)
  with n show ?thesis by (simp add: Let_def)
qed

text \<open>The sampling starts at the address itself, so the last sector of a misaligned access that crosses a sector boundary may go unchecked: here a user stores four bytes of
  which two lie behind the only region that user mode may write.\<close>

lemma pmp_misaligned_tail_unchecked:
  "let s = snd (pmpaddr_write 0 0x1FF (snd (pmpcfg_write 0 0x1F (pmp_reset example_hart))))
   in pmp_ok s 0xFFE 4 STORE PRV_U False \<and> \<not> pmp_ok s 0x1000 2 STORE PRV_U False"
  by code_simp

text \<open>C26. The access check refines a byte-level meaning: the first implemented entry whose region meets any of the bytes it is about decides; it grants the access when it contains
  all of them and its permissions allow the access, and with no such entry only machine mode may proceed, as the security register says. The regions are the ones the
  architecture gives for off, top-of-range, 4-byte and power-of-two entries, in terms of the register values. For an access that is aligned to a 4-byte sector or lies within
  one these bytes are its own; in general they are those of as many sectors as its length fills, from the sector of its address on, which for a misaligned access that crosses
  sectors may leave out its last bytes.\<close>

theorem pmp_ok_refines_spec:
  assumes "pmp_wf s" and "pmp_legal s" and "unat addr + unat len \<le> 2 ^ 64" and "0 < unat len"
  shows "(4 dvd unat addr \<or> unat addr mod 4 + unat len \<le> 4 \<longrightarrow>
      pmp_ok s addr len type mode hlvx = pmp_spec s (unat addr) (unat len) type mode hlvx) \<and>
    pmp_ok s addr len type mode hlvx = pmp_spec s (4 * (unat addr div 4)) (4 * ((unat len + 3) div 4)) type mode hlvx"
  using pmp_ok_bytes [OF assms] pmp_ok_range [OF assms(1-3) access_sectors [OF assms(4)]] by blast

theorem pmp_ok_refines_spec_witness:
  "let s = pmp_reset example_hart in pmp_spec s 0x80000000 8 STORE PRV_U False"
proof -
  have "pmp_wf (pmp_reset example_hart) \<and> pmp_legal (pmp_reset example_hart)"
    by (rule pmp_reset_steps) (simp_all add: example_hart_def max_pmp_def PMP_SHIFT_def)
  moreover have "pmp_ok (pmp_reset example_hart) 0x80000000 8 STORE PRV_U False" by code_simp
  ultimately show ?thesis
    using pmp_ok_refines_spec [of "pmp_reset example_hart" "0x80000000" 8 STORE PRV_U False] by simp
qed

text \<open>C27. The test that lets the TLB keep a translation is sound: when \<open>pmp_homogeneous\<close> accepts an aligned
  block of \<open>2 ^ l\<close> bytes, all accesses inside the block get the same decision.\<close>

theorem pmp_homogeneous_page:
  assumes "pmp_homogeneous s addr (2 ^ l) = Some True" and "l < 64"
    and "unat addr \<le> unat a1" and "unat a1 + unat len1 \<le> unat addr + 2 ^ l" and "0 < unat len1"
    and "unat addr \<le> unat a2" and "unat a2 + unat len2 \<le> unat addr + 2 ^ l" and "0 < unat len2"
  shows "pmp_ok s a1 len1 type mode hlvx = pmp_ok s a2 len2 type mode hlvx"
  using assms by (rule pmp_ok_page)

theorem pmp_homogeneous_page_witness:
  "let s = snd (pmpcfg_write 0 0x9D (pmp_reset example_hart))
   in pmp_homogeneous s 0x1000 4096 = Some True \<and> pmp_ok s 0x1000 1 STORE PRV_M False = pmp_ok s 0x1ff8 8 STORE PRV_M False"
proof -
  let ?s = "snd (pmpcfg_write 0 0x9D (pmp_reset example_hart))"
  have h: "pmp_homogeneous ?s 0x1000 4096 = Some True" by code_simp
  then have "pmp_homogeneous ?s 0x1000 (2 ^ 12) = Some True" by simp
  from pmp_homogeneous_page [OF this, of "0x1000" 1 "0x1ff8" 8 STORE PRV_M False] h show ?thesis by (simp add: Let_def)
qed

text \<open>C28. Every configuration reachable from reset on a hart whose number of entries and granularity were accepted is
  legal: the granularity is the power of two that was asked for, address registers hold at most the implemented
  bits, write without read appears only in lockdown mode, 4-byte entries only at the finest granularity, and lockdown
  and whitelist policy are sticky.\<close>

theorem pmp_reachable_legal:
  assumes "set_pmp_num n s0 = Some s1" and "set_pmp_granularity gran s1 = Some s2"
    and "pmp_step\<^sup>*\<^sup>* (pmp_reset s2) t" and "pmp_step\<^sup>*\<^sup>* t t'"
  shows "gran = 2 ^ lg_pmp_granularity s2 \<and> pmp_wf t \<and> pmp_legal t \<and> (get_mml t \<longrightarrow> get_mml t') \<and> (get_mmwp t \<longrightarrow> get_mmwp t')"
proof -
  have "n_pmp s2 \<le> max_pmp" using assms(1) set_pmp_granularity_lg(4) [OF assms(2)] by (auto simp: set_pmp_num_def split: if_splits)
  from pmp_reset_steps [OF this set_pmp_granularity_lg(2,3) [OF assms(2)]]
  show ?thesis using pmp_steps_wf [OF assms(3)] mml_sticky [OF assms(4)] set_pmp_granularity_lg(1) [OF assms(2)] by blast
qed

theorem pmp_reachable_legal_witness:
  "let t = snd (pmpcfg_write 0 0x02 (pmp_reset (example_hart\<lparr>lg_pmp_granularity := 12\<rparr>))) in pmp_legal t \<and> pmp_cfg (pmpaddr t ! 0) = 0"
proof -
  let ?h = "example_hart\<lparr>lg_pmp_granularity := 12\<rparr>"
  let ?t = "snd (pmpcfg_write 0 0x02 (pmp_reset ?h))"
  have "set_pmp_num 16 example_hart = Some example_hart" by (simp add: set_pmp_num_def example_hart_def max_pmp_def)
  moreover have "set_pmp_granularity 4096 example_hart = Some ?h" by code_simp
  moreover have "pmp_step\<^sup>*\<^sup>* (pmp_reset ?h) ?t" by (intro r_into_rtranclp pmp_step.pmpcfg)
  moreover have "pmp_cfg (pmpaddr ?t ! 0) = 0" by code_simp
  ultimately show ?thesis
    using pmp_reachable_legal [of 16 example_hart example_hart 4096 ?h ?t ?t] by (simp add: Let_def)
qed

text \<open>C29. The protection registers belong to machine mode: an access to any address or configuration register is
  permitted exactly in machine mode of a hart that implements entries.\<close>

theorem pmp_csr_machine_only:
  assumes "0x3A0 \<le> unat address" and "unat address \<le> 0x3EF" and "prv \<in> {PRV_U, PRV_S, PRV_M}"
  shows "pmp_verify_permissions s address prv v ext_S ext_H write = None \<longleftrightarrow> prv = PRV_M \<and> n_pmp s \<noteq> 0"
  using assms by (rule pmp_csr_permission)

theorem pmp_csr_machine_only_witness:
  "pmp_verify_permissions example_hart 0x3B0 PRV_S False True True True \<noteq> None"
  using pmp_csr_machine_only [of "0x3B0" PRV_S example_hart False True True True] by (simp add: prv_consts)

end
