(* ===== verification/Memory_Device.thy ===== *)
theory Memory_Device
  imports PMP
begin

text \<open>
  The main memory and the boot ROM (\<^verbatim>\<open>riscv/devices.cc\<close>, class \<open>mem_t\<close>; \<^verbatim>\<open>riscv/rom.cc\<close>, class \<open>rom_device_t\<close>) and the
  byte-lane access to device registers (\<^verbatim>\<open>riscv/devices.h\<close>, \<open>read_little_endian_reg\<close> and
  \<open>write_little_endian_reg\<close>). The memory allocates its pages on first touch, loads included; a page is
  the function from offsets to bytes.

  The locales state what a client of \<open>abstract_device_t\<close> relies on: a readable device delivers its bytes, a
  writable one also changes exactly the bytes stored. The memory is shown to implement both over
  a flat array of bytes, so that allocation is invisible, and the ROM the first.
\<close>

section \<open>Sparse memory\<close>

definition PGSHIFT :: nat where "PGSHIFT = 12"
definition PGSIZE :: nat where "PGSIZE = 4096"

type_synonym page = "nat \<Rightarrow> uint8_t"

record mem_t =
  sparse_memory_map :: "reg_t \<Rightarrow> page option"
  sz :: reg_t

definition new_mem :: "reg_t \<Rightarrow> mem_t option" where
  "new_mem bytes =
     (if bytes = 0 \<or> bytes mod of_nat PGSIZE \<noteq> 0 then None else Some \<lparr>sparse_memory_map = (\<lambda>_. None), sz = bytes\<rparr>)"

definition contents :: "mem_t \<Rightarrow> reg_t \<Rightarrow> mem_t \<times> page \<times> nat" where
  "contents m addr =
     (let ppn = drop_bit PGSHIFT addr; pgoff = unat (addr mod of_nat PGSIZE)
      in case sparse_memory_map m ppn of
           None \<Rightarrow> (m\<lparr>sparse_memory_map := (sparse_memory_map m)(ppn \<mapsto> (\<lambda>_. 0))\<rparr>, (\<lambda>_. 0), pgoff)
         | Some res \<Rightarrow> (m, res, pgoff))"

definition copy_in :: "page \<Rightarrow> nat \<Rightarrow> uint8_t list \<Rightarrow> page" where
  "copy_in p off bytes = (\<lambda>i. if off \<le> i \<and> i < off + length bytes then bytes ! (i - off) else p i)"

definition chunk :: "reg_t \<Rightarrow> nat \<Rightarrow> nat" where
  "chunk addr len = min (PGSIZE - unat (addr mod of_nat PGSIZE)) len"

lemma page_offset: "unat (addr mod of_nat PGSIZE :: reg_t) = unat addr mod PGSIZE"
  by (simp add: PGSIZE_def unat_mod)

lemma PGSIZE_pos [simp]: "0 < PGSIZE"
  by (simp add: PGSIZE_def)

lemma chunk_pos: "0 < len \<Longrightarrow> 0 < chunk addr len"
  unfolding chunk_def page_offset using mod_less_divisor [OF PGSIZE_pos, of "unat addr"] by linarith

function load_loop :: "mem_t \<Rightarrow> reg_t \<Rightarrow> nat \<Rightarrow> mem_t \<times> uint8_t list" where
  "load_loop m addr len =
     (if len = 0 then (m, [])
      else
        let n = chunk addr len;
            (m, res, pgoff) = contents m addr;
            bytes = map (\<lambda>i. res (pgoff + i)) [0..<n];
            (m, rest) = load_loop m (addr + of_nat n) (len - n)
        in (m, bytes @ rest))"
  by pat_completeness auto
termination
  by (relation "measure (\<lambda>(m, addr, len). len)") (use chunk_pos in auto)

function store_loop :: "mem_t \<Rightarrow> reg_t \<Rightarrow> uint8_t list \<Rightarrow> mem_t" where
  "store_loop m addr bytes =
     (if bytes = [] then m
      else
        let n = chunk addr (length bytes);
            (m, res, pgoff) = contents m addr;
            m = m\<lparr>sparse_memory_map := (sparse_memory_map m)(drop_bit PGSHIFT addr \<mapsto> copy_in res pgoff (take n bytes))\<rparr>
        in store_loop m (addr + of_nat n) (drop n bytes))"
  by pat_completeness auto
termination
  by (relation "measure (\<lambda>(m, addr, bytes). length bytes)") (use chunk_pos in auto)

declare load_loop.simps [simp del] store_loop.simps [simp del]

definition mem_load :: "mem_t \<Rightarrow> reg_t \<Rightarrow> nat \<Rightarrow> uint8_t list option \<times> mem_t" where
  "mem_load m addr len =
     (if addr + of_nat len < addr \<or> sz m < addr + of_nat len then (None, m)
      else case load_loop m addr len of (m, bytes) \<Rightarrow> (Some bytes, m))"

definition mem_store :: "mem_t \<Rightarrow> reg_t \<Rightarrow> uint8_t list \<Rightarrow> bool \<times> mem_t" where
  "mem_store m addr bytes =
     (if addr + of_nat (length bytes) < addr \<or> sz m < addr + of_nat (length bytes) then (False, m)
      else (True, store_loop m addr bytes))"

section \<open>ROM\<close>

definition rom_load :: "uint8_t list \<Rightarrow> reg_t \<Rightarrow> nat \<Rightarrow> uint8_t list option \<times> uint8_t list" where
  "rom_load data addr len =
     (if of_nat (length data) < addr + of_nat len then (None, data)
      else (Some (take len (drop (unat addr) data)), data))"

definition rom_store :: "uint8_t list \<Rightarrow> reg_t \<Rightarrow> uint8_t list \<Rightarrow> bool \<times> uint8_t list" where
  "rom_store data addr bytes = (False, data)"

section \<open>Byte lanes of device registers\<close>

definition read_little_endian_reg :: "'a::len word \<Rightarrow> reg_t \<Rightarrow> nat \<Rightarrow> uint8_t list option" where
  "read_little_endian_reg word addr len =
     (if LENGTH('a) div 8 < len then None
      else Some (map (\<lambda>i. ucast (drop_bit (8 * unat ((addr + of_nat i) mod of_nat (LENGTH('a) div 8))) word)) [0..<len]))"

fun write_lanes :: "'a::len word \<Rightarrow> reg_t \<Rightarrow> nat \<Rightarrow> uint8_t list \<Rightarrow> 'a word" where
  "write_lanes word addr i [] = word"
| "write_lanes word addr i (b # bytes) =
     (let shift = 8 * unat ((addr + of_nat i) mod of_nat (LENGTH('a) div 8))
      in write_lanes ((word AND NOT (push_bit shift 0xFF)) OR push_bit shift (ucast b)) addr (i + 1) bytes)"

definition write_little_endian_reg :: "'a::len word \<Rightarrow> reg_t \<Rightarrow> uint8_t list \<Rightarrow> 'a word option" where
  "write_little_endian_reg word addr bytes =
     (if LENGTH('a) div 8 < length bytes then None else Some (write_lanes word addr 0 bytes))"

section \<open>What clients rely on\<close>

locale readable_device =
  fixes extent :: "'d \<Rightarrow> nat"
    and byte :: "'d \<Rightarrow> nat \<Rightarrow> uint8_t"
    and load :: "'d \<Rightarrow> reg_t \<Rightarrow> nat \<Rightarrow> uint8_t list option \<times> 'd"
    and invar :: "'d \<Rightarrow> bool"
  assumes load_inside: "invar d \<Longrightarrow> unat a + n \<le> extent d \<Longrightarrow> fst (load d a n) = Some (map (\<lambda>i. byte d (unat a + i)) [0..<n])"
    and load_outside: "invar d \<Longrightarrow> n < 2 ^ 64 \<Longrightarrow> extent d < unat a + n \<Longrightarrow> unat a + n < 2 ^ 64 \<Longrightarrow> fst (load d a n) = None"
    and load_keeps: "invar d \<Longrightarrow> n < 2 ^ 64 \<Longrightarrow> byte (snd (load d a n)) = byte d \<and> extent (snd (load d a n)) = extent d \<and> invar (snd (load d a n))"
begin

lemma load_repeatable:
  "invar d \<Longrightarrow> k < 2 ^ 64 \<Longrightarrow> unat a + n \<le> extent d \<Longrightarrow> fst (load (snd (load d b k)) a n) = fst (load d a n)"
  using load_keeps [of d k b] load_inside [of d a n] load_inside [of "snd (load d b k)" a n] by simp

end

locale writable_device = readable_device extent byte load invar
  for extent :: "'d \<Rightarrow> nat" and byte :: "'d \<Rightarrow> nat \<Rightarrow> uint8_t"
    and load :: "'d \<Rightarrow> reg_t \<Rightarrow> nat \<Rightarrow> uint8_t list option \<times> 'd" and invar :: "'d \<Rightarrow> bool" +
  fixes store :: "'d \<Rightarrow> reg_t \<Rightarrow> uint8_t list \<Rightarrow> bool \<times> 'd"
  assumes store_inside: "invar d \<Longrightarrow> unat a + length bs \<le> extent d \<Longrightarrow> fst (store d a bs)"
    and store_bytes: "invar d \<Longrightarrow> unat a + length bs \<le> extent d \<Longrightarrow>
      byte (snd (store d a bs)) = (\<lambda>i. if unat a \<le> i \<and> i < unat a + length bs then bs ! (i - unat a) else byte d i)"
    and store_keeps: "invar d \<Longrightarrow> unat a + length bs \<le> extent d \<Longrightarrow> extent (snd (store d a bs)) = extent d \<and> invar (snd (store d a bs))"
begin

lemma load_after_store:
  assumes "invar d" "unat a + length bs \<le> extent d"
  shows "fst (load (snd (store d a bs)) a (length bs)) = Some bs"
proof -
  have "map (\<lambda>i. byte (snd (store d a bs)) (unat a + i)) [0..<length bs] = map ((!) bs) [0..<length bs]"
    unfolding store_bytes [OF assms] by (rule map_cong) simp_all
  then show ?thesis using load_inside [of "snd (store d a bs)" a "length bs"] store_keeps [OF assms] assms by (simp add: map_nth)
qed

lemma load_elsewhere:
  assumes "invar d" "unat a + length bs \<le> extent d" "unat b + n \<le> extent d" "unat b + n \<le> unat a \<or> unat a + length bs \<le> unat b"
  shows "fst (load (snd (store d a bs)) b n) = fst (load d b n)"
proof -
  have "map (\<lambda>i. byte (snd (store d a bs)) (unat b + i)) [0..<n] = map (\<lambda>i. byte d (unat b + i)) [0..<n]"
    unfolding store_bytes [OF assms(1,2)] using assms(4) by (intro map_cong) auto
  then show ?thesis using load_inside [of "snd (store d a bs)" b n] load_inside [OF assms(1,3)] store_keeps [OF assms(1,2)] assms by simp
qed

end

section \<open>The memory is a flat array of bytes\<close>

definition mem_byte :: "mem_t \<Rightarrow> nat \<Rightarrow> uint8_t" where
  "mem_byte m i = (case sparse_memory_map m (of_nat (i div PGSIZE)) of None \<Rightarrow> 0 | Some p \<Rightarrow> p (i mod PGSIZE))"

lemma page_number: "unat (drop_bit PGSHIFT addr) = unat addr div PGSIZE" for addr :: reg_t
  by (simp add: unat_drop_bit_div PGSHIFT_def PGSIZE_def)

lemma of_nat_page_number: "of_nat (unat addr div PGSIZE) = drop_bit PGSHIFT addr" for addr :: reg_t
  by (simp flip: page_number)

lemma page_of_eq_iff:
  fixes addr :: reg_t
  assumes "i < 2 ^ 64"
  shows "of_nat (i div PGSIZE) = drop_bit PGSHIFT addr \<longleftrightarrow> i div PGSIZE = unat addr div PGSIZE"
proof -
  have "i div PGSIZE \<le> i" by (rule div_le_dividend)
  with assms have "unat (of_nat (i div PGSIZE) :: reg_t) = i div PGSIZE" by (intro unat_of_nat_small) linarith
  then show ?thesis unfolding word_unat_eq_iff page_number by simp
qed

lemma contents_keeps: "mem_byte (fst (contents m addr)) = mem_byte m" "sz (fst (contents m addr)) = sz m"
  by (auto simp: contents_def Let_def mem_byte_def fun_eq_iff split: option.split)

lemma contents_page:
  assumes "unat addr mod PGSIZE + i < PGSIZE"
  shows "fst (snd (contents m addr)) (snd (snd (contents m addr)) + i) = mem_byte m (unat addr + i)"
proof -
  define q r where "q = unat addr div PGSIZE" and "r = unat addr mod PGSIZE"
  have e: "unat addr + i = q * PGSIZE + (r + i)" unfolding q_def r_def by (simp add: div_mult_mod_eq)
  have "(unat addr + i) div PGSIZE = unat addr div PGSIZE" "(unat addr + i) mod PGSIZE = unat addr mod PGSIZE + i"
    using assms unfolding e q_def [symmetric] r_def [symmetric] by simp_all
  then show ?thesis by (simp add: contents_def Let_def mem_byte_def page_offset of_nat_page_number split: option.split)
qed

lemma chunk_bounds: "chunk addr len \<le> len" "unat addr mod PGSIZE + chunk addr len \<le> PGSIZE"
  using mod_less_divisor [of PGSIZE "unat addr"] by (auto simp: chunk_def page_offset simp del: mod_less_divisor)

lemma unat_add_chunk:
  fixes addr :: reg_t
  assumes "unat addr + len < 2 ^ 64" "n \<le> len"
  shows "unat (addr + of_nat n) = unat addr + n"
  using assms by (subst unat_add_nowrap) (simp_all add: unat_of_nat_small)

lemma load_loop_flat:
  assumes "unat addr + len < 2 ^ 64"
  shows "snd (load_loop m addr len) = map (\<lambda>i. mem_byte m (unat addr + i)) [0..<len] \<and>
    mem_byte (fst (load_loop m addr len)) = mem_byte m \<and> sz (fst (load_loop m addr len)) = sz m"
  using assms
proof (induction m addr len rule: load_loop.induct)
  case (1 m addr len)
  show ?case
  proof (cases "len = 0")
    case True
    then show ?thesis by (simp add: load_loop.simps)
  next
    case False
    define n where "n = chunk addr len"
    obtain m1 res off where c: "contents m addr = (m1, res, off)" by (cases "contents m addr")
    obtain m2 rest where r: "load_loop m1 (addr + of_nat n) (len - n) = (m2, rest)" by (cases "load_loop m1 (addr + of_nat n) (len - n)")
    have n: "n \<le> len" "unat addr mod PGSIZE + n \<le> PGSIZE" using chunk_bounds by (simp_all add: n_def)
    have u: "unat (addr + of_nat n) = unat addr + n" using 1(2) n(1) by (rule unat_add_chunk)
    have m1: "mem_byte m1 = mem_byte m" "sz m1 = sz m" using contents_keeps [of m addr] c by simp_all
    have "snd (m2, rest) = map (\<lambda>i. mem_byte m1 (unat (addr + of_nat n) + i)) [0..<len - n] \<and>
        mem_byte (fst (m2, rest)) = mem_byte m1 \<and> sz (fst (m2, rest)) = sz m1"
      using 1(1) [OF False n_def c [symmetric] refl refl] 1(2) n(1) u r by simp
    then have IH: "rest = map (\<lambda>i. mem_byte m (unat addr + n + i)) [0..<len - n]" "mem_byte m2 = mem_byte m" "sz m2 = sz m"
      by (simp_all add: u m1)
    have "map (\<lambda>i. res (off + i)) [0..<n] = map (\<lambda>i. mem_byte m (unat addr + i)) [0..<n]"
      using contents_page [of addr _ m] c n by (intro map_cong) auto
    moreover have "load_loop m addr len = (m2, map (\<lambda>i. res (off + i)) [0..<n] @ rest)"
      using False by (subst load_loop.simps) (simp add: n_def [symmetric] c r)
    moreover have "[0..<len] = [0..<n] @ map (\<lambda>i. n + i) [0..<len - n]"
      using n(1) upt_add_eq_append [of 0 n "len - n"] map_add_upt [of n "len - n"] by (simp add: add.commute)
    ultimately show ?thesis using IH by (simp add: comp_def add.assoc)
  qed
qed

lemma store_page_flat:
  fixes addr :: reg_t
  assumes c: "contents m addr = (m1, res, off)" and n: "unat addr mod PGSIZE + length bs \<le> PGSIZE" "unat addr + length bs < 2 ^ 64" and i: "i < 2 ^ 64"
  shows "mem_byte (m1\<lparr>sparse_memory_map := (sparse_memory_map m1)(drop_bit PGSHIFT addr \<mapsto> copy_in res off bs)\<rparr>) i =
    (if unat addr \<le> i \<and> i < unat addr + length bs then bs ! (i - unat addr) else mem_byte m i)"
proof -
  define q r where "q = unat addr div PGSIZE" and "r = unat addr mod PGSIZE"
  have e: "unat addr = q * PGSIZE + r" unfolding q_def r_def by (simp add: div_mult_mod_eq)
  have off: "off = r" using c by (auto simp: contents_def Let_def page_offset r_def split: option.splits)
  show ?thesis
  proof (cases "i div PGSIZE = q")
    case True
    have ie: "i = q * PGSIZE + i mod PGSIZE" using div_mult_mod_eq [of i PGSIZE] True by simp
    have p: "of_nat (i div PGSIZE) = drop_bit PGSHIFT addr" using page_of_eq_iff [OF i, of addr] True q_def by simp
    have "res (i mod PGSIZE) = mem_byte m i"
      using c p by (auto simp: contents_def Let_def mem_byte_def split: option.splits)
    then have "mem_byte (m1\<lparr>sparse_memory_map := (sparse_memory_map m1)(drop_bit PGSHIFT addr \<mapsto> copy_in res off bs)\<rparr>) i =
        (if r \<le> i mod PGSIZE \<and> i mod PGSIZE < r + length bs then bs ! (i mod PGSIZE - r) else mem_byte m i)"
      unfolding mem_byte_def by (simp add: p copy_in_def off)
    moreover have "r \<le> i mod PGSIZE \<longleftrightarrow> unat addr \<le> i" "i mod PGSIZE < r + length bs \<longleftrightarrow> i < unat addr + length bs" "i mod PGSIZE - r = i - unat addr"
      using ie e by linarith+
    ultimately show ?thesis by simp
  next
    case False
    then have "\<not> (unat addr \<le> i \<and> i < unat addr + length bs)"
    proof (rule contrapos_nn)
      assume "unat addr \<le> i \<and> i < unat addr + length bs"
      then have "q * PGSIZE \<le> i" "i < q * PGSIZE + PGSIZE" using e n(1) r_def by linarith+
      then show "i div PGSIZE = q" by (intro div_nat_eqI) (simp_all add: mult.commute)
    qed
    moreover have "of_nat (i div PGSIZE) \<noteq> drop_bit PGSHIFT addr" using page_of_eq_iff [OF i, of addr] False q_def by simp
    moreover have "mem_byte m1 i = mem_byte m i" using contents_keeps(1) [of m addr] c by simp
    ultimately show ?thesis by (auto simp: mem_byte_def)
  qed
qed

lemma store_loop_flat:
  assumes "unat addr + length bs < 2 ^ 64"
  shows "(\<forall>i < 2 ^ 64. mem_byte (store_loop m addr bs) i = (if unat addr \<le> i \<and> i < unat addr + length bs then bs ! (i - unat addr) else mem_byte m i)) \<and>
    sz (store_loop m addr bs) = sz m"
  using assms
proof (induction m addr bs rule: store_loop.induct)
  case (1 m addr bs)
  show ?case
  proof (cases "bs = []")
    case True
    then show ?thesis by (auto simp: store_loop.simps)
  next
    case False
    define n where "n = chunk addr (length bs)"
    obtain m1 res off where c: "contents m addr = (m1, res, off)" by (cases "contents m addr")
    define m2 where "m2 = m1\<lparr>sparse_memory_map := (sparse_memory_map m1)(drop_bit PGSHIFT addr \<mapsto> copy_in res off (take n bs))\<rparr>"
    have n: "n \<le> length bs" "unat addr mod PGSIZE + n \<le> PGSIZE" using chunk_bounds by (simp_all add: n_def)
    have u: "unat (addr + of_nat n) = unat addr + n" using 1(2) n(1) by (rule unat_add_chunk)
    have m2: "mem_byte m2 i = (if unat addr \<le> i \<and> i < unat addr + n then bs ! (i - unat addr) else mem_byte m i)" if "i < 2 ^ 64" for i
      unfolding m2_def using store_page_flat [OF c, of "take n bs" i] n 1(2) that by auto
    have st: "store_loop m addr bs = store_loop m2 (addr + of_nat n) (drop n bs)"
      using False by (subst store_loop.simps) (simp add: n_def [symmetric] c m2_def)
    have IH: "(\<forall>i < 2 ^ 64. mem_byte (store_loop m2 (addr + of_nat n) (drop n bs)) i =
        (if unat addr + n \<le> i \<and> i < unat addr + length bs then bs ! (n + (i - (unat addr + n))) else mem_byte m2 i)) \<and>
        sz (store_loop m2 (addr + of_nat n) (drop n bs)) = sz m2"
      using 1(1) [OF False n_def c [symmetric] refl refl m2_def] 1(2) n(1) by (simp add: u)
    have "sz m2 = sz m" using contents_keeps(2) [of m addr] c by (simp add: m2_def)
    then have "sz (store_loop m addr bs) = sz m" using IH st by simp
    moreover have "mem_byte (store_loop m addr bs) i = (if unat addr \<le> i \<and> i < unat addr + length bs then bs ! (i - unat addr) else mem_byte m i)"
      if "i < 2 ^ 64" for i
      using IH that m2 [OF that] n(1) unfolding st by auto
    ultimately show ?thesis by blast
  qed
qed

definition mem_flat :: "mem_t \<Rightarrow> nat \<Rightarrow> uint8_t" where
  "mem_flat m i = (if i < unat (sz m) then mem_byte m i else 0)"

definition mem_extent :: "mem_t \<Rightarrow> nat" where
  "mem_extent m = unat (sz m)"

lemma range_check:
  fixes a b :: reg_t
  assumes "unat a + n < 2 ^ 64"
  shows "a + of_nat n < a \<or> b < a + of_nat n \<longleftrightarrow> unat b < unat a + n"
  using unat_add_chunk [OF assms order_refl] by (auto simp: word_less_nat_alt)

lemma mem_extent_less: "mem_extent m < 2 ^ 64"
  using unat_less_pow2 [of "sz m"] by (simp add: mem_extent_def)

lemma mem_load_inside:
  assumes "unat a + n \<le> mem_extent m"
  shows "fst (mem_load m a n) = Some (map (\<lambda>i. mem_flat m (unat a + i)) [0..<n])"
proof -
  have l: "unat a + n < 2 ^ 64" using assms mem_extent_less [of m] by linarith
  have "fst (mem_load m a n) = Some (snd (load_loop m a n))"
    using range_check [OF l, of "sz m"] assms by (simp add: mem_load_def mem_extent_def case_prod_unfold)
  also have "\<dots> = Some (map (\<lambda>i. mem_flat m (unat a + i)) [0..<n])"
    using load_loop_flat [OF l, of m] assms by (auto simp: mem_flat_def mem_extent_def)
  finally show ?thesis .
qed

lemma no_wrap:
  fixes a :: reg_t
  assumes "\<not> a + of_nat n < a" "n < 2 ^ 64"
  shows "unat a + n < 2 ^ 64"
proof (rule ccontr)
  assume "\<not> ?thesis"
  then have "unat (a + of_nat n) = unat a + n - 2 ^ 64" using assms(2) by (subst unat_plus_if') (simp add: unat_of_nat_small)
  with assms unat_less_pow2 [of a] \<open>\<not> ?thesis\<close> show False by (simp add: word_less_nat_alt)
qed

lemma mem_load_keeps:
  assumes "n < 2 ^ 64"
  shows "mem_flat (snd (mem_load m a n)) = mem_flat m \<and> mem_extent (snd (mem_load m a n)) = mem_extent m"
proof (cases "a + of_nat n < a \<or> sz m < a + of_nat n")
  case False
  then have "unat a + n < 2 ^ 64" using no_wrap assms by blast
  from load_loop_flat [OF this, of m] False show ?thesis by (simp add: mem_load_def mem_flat_def mem_extent_def case_prod_unfold fun_eq_iff)
qed (simp add: mem_load_def)

lemma mem_store_inside:
  assumes "unat a + length bs \<le> mem_extent m"
  shows "fst (mem_store m a bs)" and "mem_extent (snd (mem_store m a bs)) = mem_extent m"
    and "mem_flat (snd (mem_store m a bs)) = (\<lambda>i. if unat a \<le> i \<and> i < unat a + length bs then bs ! (i - unat a) else mem_flat m i)"
proof -
  have l: "unat a + length bs < 2 ^ 64" using assms mem_extent_less [of m] by linarith
  have st: "mem_store m a bs = (True, store_loop m a bs)"
    using range_check [OF l, of "sz m"] assms by (simp add: mem_store_def mem_extent_def)
  note f = store_loop_flat [OF l, of m]
  show "fst (mem_store m a bs)" "mem_extent (snd (mem_store m a bs)) = mem_extent m" using st f by (simp_all add: mem_extent_def)
  show "mem_flat (snd (mem_store m a bs)) = (\<lambda>i. if unat a \<le> i \<and> i < unat a + length bs then bs ! (i - unat a) else mem_flat m i)"
  proof
    fix i
    have "i < 2 ^ 64" if "i < unat (sz m)" using that unat_less_pow2 [of "sz m"] by simp
    then show "mem_flat (snd (mem_store m a bs)) i = (if unat a \<le> i \<and> i < unat a + length bs then bs ! (i - unat a) else mem_flat m i)"
      using f st assms by (auto simp: mem_flat_def mem_extent_def)
  qed
qed

interpretation mem: writable_device mem_extent mem_flat mem_load "\<lambda>_. True" mem_store
proof unfold_locales
  fix d and a :: reg_t and n :: nat assume "mem_extent d < unat a + n" "unat a + n < 2 ^ 64"
  then show "fst (mem_load d a n) = None"
    using range_check [of a n "sz d"] by (auto simp: mem_load_def mem_extent_def)
qed (simp_all add: mem_load_inside mem_load_keeps mem_store_inside)

definition rom_byte :: "uint8_t list \<Rightarrow> nat \<Rightarrow> uint8_t" where
  "rom_byte data i = (if i < length data then data ! i else 0)"

interpretation rom: readable_device length rom_byte rom_load "\<lambda>data. length data < 2 ^ 64"
proof unfold_locales
  fix d :: "uint8_t list" and a :: reg_t and n :: nat
  assume d: "length d < 2 ^ 64"
  show "fst (rom_load d a n) = Some (map (\<lambda>i. rom_byte d (unat a + i)) [0..<n])" if "unat a + n \<le> length d"
  proof -
    have l: "unat a + n < 2 ^ 64" using that d by linarith
    have "\<not> of_nat (length d) < a + of_nat n"
      using unat_add_chunk [OF l order_refl] unat_of_nat_small [OF d] that by (simp add: word_less_nat_alt)
    moreover have "take n (drop (unat a) d) = map (\<lambda>i. rom_byte d (unat a + i)) [0..<n]"
      using that by (intro nth_equalityI) (auto simp: rom_byte_def)
    ultimately show ?thesis by (simp add: rom_load_def)
  qed
  show "fst (rom_load d a n) = None" if "length d < unat a + n" "unat a + n < 2 ^ 64"
    using unat_add_chunk [OF that(2) order_refl] unat_of_nat_small [OF d] that by (simp add: rom_load_def word_less_nat_alt)
  show "rom_byte (snd (rom_load d a n)) = rom_byte d \<and> length (snd (rom_load d a n)) = length d \<and> length (snd (rom_load d a n)) < 2 ^ 64"
    using d by (simp add: rom_load_def)
qed

section \<open>Byte lanes round trip\<close>

definition lane :: "nat \<Rightarrow> reg_t \<Rightarrow> nat \<Rightarrow> nat" where
  "lane S addr i = (unat addr + i) mod S"

lemma lane_word:
  assumes "S dvd 2 ^ 64" "S < 2 ^ 64" "0 < S"
  shows "unat ((addr + of_nat i) mod of_nat S :: reg_t) = lane S addr i"
proof -
  have s: "unat (of_nat S :: reg_t) = S" using assms(2) by (rule unat_of_nat_small)
  have "unat (addr + of_nat i) = (unat addr + i) mod 2 ^ 64" by (simp add: unat_word_ariths unat_of_nat take_bit_eq_mod mod_simps)
  then show ?thesis unfolding unat_mod s lane_def by (simp only: mod_mod_cancel [OF assms(1)])
qed

lemma lane_inj:
  assumes "lane S addr i = lane S addr j" "i < j + S" "j < i + S"
  shows "i = j"
proof -
  obtain a where a: "a = unat addr" by simp
  have "(a + i) mod S = (a + j) mod S" using assms(1) by (simp add: lane_def a)
  then have "S dvd (a + j) - (a + i)" "S dvd (a + i) - (a + j)" by (metis mod_eq_dvd_iff_nat nat_le_linear diff_is_0_eq dvd_0_right)+
  then have "S dvd j - i" "S dvd i - j" by simp_all
  then show ?thesis using assms(2,3) by (cases i j rule: linorder_cases) (auto dest!: dvd_imp_le)
qed

lemma bit_put_byte:
  fixes w :: "'a::len word"
  assumes "8 * l + 8 \<le> LENGTH('a)"
  shows "bit ((w AND NOT (push_bit (8 * l) 0xFF)) OR push_bit (8 * l) (ucast b)) n \<longleftrightarrow>
    (if n div 8 = l then bit (b :: uint8_t) (n mod 8) else bit w n)"
proof -
  have ff: "(0xFF :: 'a word) = mask 8" by (simp add: mask_eq_exp_minus_1)
  have m: "bit (0xFF :: 'a word) k \<longleftrightarrow> k < 8" for k unfolding ff using assms by (auto simp: bit_mask_iff)
  show ?thesis
  proof (cases "n div 8 = l")
    case True
    then have n: "n = 8 * l + n mod 8" "n mod 8 < 8" using div_mult_mod_eq [of n 8] by auto
    obtain r where r: "r = n mod 8" by simp
    have "n = 8 * l + r" "r < 8" using n r by simp_all
    then show ?thesis using assms True m unfolding r [symmetric]
      by (auto simp: bit_simps dest: bit_imp_le_length)
  next
    case False
    then have "n < 8 * l \<or> 8 * l + 8 \<le> n" by auto
    then have c: "\<not> (8 * l \<le> n \<and> n - 8 * l < 8)" by auto
    have "\<not> bit (ucast b :: 'a word) (n - 8 * l)" if "8 * l \<le> n" using c that by (auto simp: bit_simps dest: bit_imp_le_length)
    then show ?thesis
      using False c bit_imp_le_length [of w n] unfolding bit_or_iff bit_and_iff bit_not_iff bit_push_bit_iff m by auto
  qed
qed

lemma write_lanes_Cons:
  fixes w :: "'a::len word"
  defines "S \<equiv> LENGTH('a) div 8"
  assumes S: "S dvd 2 ^ 64" "S < 2 ^ 64" "0 < S" "LENGTH('a) = 8 * S"
  obtains w' where "write_lanes w addr i (b # bs) = write_lanes w' addr (i + 1) bs"
    and "\<And>n. bit w' n \<longleftrightarrow> (if n div 8 = lane S addr i then bit b (n mod 8) else bit w n)"
proof
  let ?w = "(w AND NOT (push_bit (8 * lane S addr i) 0xFF)) OR push_bit (8 * lane S addr i) (ucast b)"
  show "write_lanes w addr i (b # bs) = write_lanes ?w addr (i + 1) bs"
    using lane_word [OF S(1-3), of addr i] by (simp add: S_def [symmetric] Let_def)
  have "lane S addr i < S" using S(3) by (simp add: lane_def)
  then show "bit ?w n \<longleftrightarrow> (if n div 8 = lane S addr i then bit b (n mod 8) else bit w n)" for n
    using S(4) by (intro bit_put_byte) simp
qed

lemma write_lanes_miss:
  fixes w :: "'a::len word"
  defines "S \<equiv> LENGTH('a) div 8"
  assumes S: "S dvd 2 ^ 64" "S < 2 ^ 64" "0 < S" "LENGTH('a) = 8 * S"
  shows "(\<And>k. k < length bs \<Longrightarrow> lane S addr (i + k) \<noteq> n div 8) \<Longrightarrow> bit (write_lanes w addr i bs) n = bit w n"
proof (induction bs arbitrary: w i)
  case (Cons b bs)
  obtain w' where e: "write_lanes w addr i (b # bs) = write_lanes w' addr (i + 1) bs"
    and w': "bit w' n \<longleftrightarrow> (if n div 8 = lane S addr i then bit b (n mod 8) else bit w n)"
    using write_lanes_Cons [OF S [unfolded S_def]] S_def by metis
  have "bit (write_lanes w' addr (i + 1) bs) n = bit w' n" using Cons.prems [of "Suc _"] by (intro Cons.IH) simp
  then show ?case unfolding e using w' Cons.prems [of 0] by auto
qed simp

lemma write_lanes_hit:
  fixes w :: "'a::len word"
  defines "S \<equiv> LENGTH('a) div 8"
  assumes S: "S dvd 2 ^ 64" "S < 2 ^ 64" "0 < S" "LENGTH('a) = 8 * S"
  shows "length bs \<le> S \<Longrightarrow> k < length bs \<Longrightarrow> lane S addr (i + k) = n div 8 \<Longrightarrow> bit (write_lanes w addr i bs) n = bit (bs ! k) (n mod 8)"
proof (induction bs arbitrary: w i k)
  case (Cons b bs)
  obtain w' where e: "write_lanes w addr i (b # bs) = write_lanes w' addr (i + 1) bs"
    and w': "bit w' n \<longleftrightarrow> (if n div 8 = lane S addr i then bit b (n mod 8) else bit w n)"
    using write_lanes_Cons [OF S [unfolded S_def]] S_def by metis
  show ?case
  proof (cases k)
    case 0
    have "lane S addr (i + 1 + j) \<noteq> n div 8" if "j < length bs" for j
      using lane_inj [of S addr "i + 1 + j" i] Cons.prems 0 that by auto
    then have "bit (write_lanes w' addr (i + 1) bs) n = bit w' n" unfolding S_def by (rule write_lanes_miss [OF S [unfolded S_def]])
    then show ?thesis unfolding e using w' 0 Cons.prems by simp
  next
    case (Suc j)
    then show ?thesis unfolding e using Cons.IH [of j "i + 1" w'] Cons.prems by simp
  qed
qed simp

lemma little_endian_roundtrip:
  fixes w :: "'a::len word"
  defines "S \<equiv> LENGTH('a) div 8"
  assumes S: "S dvd 2 ^ 64" "S < 2 ^ 64" "0 < S" "LENGTH('a) = 8 * S" and len: "length bs \<le> S"
  shows "\<exists>v. write_little_endian_reg w addr bs = Some v \<and> read_little_endian_reg v addr (length bs) = Some bs"
proof -
  let ?v = "write_lanes w addr 0 bs"
  have "ucast (drop_bit (8 * lane S addr i) ?v) = bs ! i" if i: "i < length bs" for i
  proof (rule bit_word_eqI)
    fix n assume n: "n < LENGTH(8)"
    then have "(8 * lane S addr i + n) div 8 = lane S addr i" "(8 * lane S addr i + n) mod 8 = n" by simp_all
    then have "bit ?v (8 * lane S addr i + n) = bit (bs ! i) n"
      using write_lanes_hit [OF S [unfolded S_def] len [unfolded S_def] i, of addr 0 "8 * lane S addr i + n" w] by (simp add: S_def)
    then show "bit (ucast (drop_bit (8 * lane S addr i) ?v) :: uint8_t) n = bit (bs ! i) n" using n by (simp add: bit_simps)
  qed
  then have "map (\<lambda>i. ucast (drop_bit (8 * unat ((addr + of_nat i) mod of_nat S :: reg_t)) ?v)) [0..<length bs] = bs"
    unfolding lane_word [OF S(1-3)] by (intro nth_equalityI) simp_all
  then show ?thesis using len by (simp add: write_little_endian_reg_def read_little_endian_reg_def S_def [symmetric])
qed

section \<open>Properties\<close>

text \<open>C32. The sparse memory behaves as a flat array of bytes: a store inside the memory succeeds, a load of the same
  range returns the bytes stored, a load of any disjoint range returns what it returned before, whatever page
  boundaries the ranges cross and whatever pages were already allocated, and an access that leaves the memory fails and
  changes nothing.\<close>

theorem memory_read_write:
  assumes "unat a + length bs \<le> unat (sz m)" and "unat b + n \<le> unat (sz m)"
    and "unat b + n \<le> unat a \<or> unat a + length bs \<le> unat b"
    and "unat (sz m) < unat c + length cs" and "unat c + length cs < 2 ^ 64"
  shows "fst (mem_store m a bs) \<and> fst (mem_load (snd (mem_store m a bs)) a (length bs)) = Some bs \<and>
    fst (mem_load (snd (mem_store m a bs)) b n) = fst (mem_load m b n) \<and>
    mem_store m c cs = (False, m) \<and> mem_load m c (length cs) = (None, m)"
proof -
  have i: "unat a + length bs \<le> mem_extent m" "unat b + n \<le> mem_extent m" using assms(1,2) by (simp_all add: mem_extent_def)
  have "mem_store m c cs = (False, m)" "mem_load m c (length cs) = (None, m)"
    using range_check [OF assms(5), of "sz m"] assms(4) by (auto simp: mem_store_def mem_load_def)
  then show ?thesis
    using mem.store_inside [OF TrueI i(1)] mem.load_after_store [OF TrueI i(1)] mem.load_elsewhere [OF TrueI i assms(3)] by blast
qed

theorem memory_read_write_witness:
  "\<exists>m. new_mem 0x10000 = Some m \<and> fst (mem_load (snd (mem_store m 0xFFE [1, 2, 3, 4])) 0xFFE 4) = Some [1, 2, 3, 4] \<and>
     fst (mem_load (snd (mem_store m 0xFFE [1, 2, 3, 4])) 0x2000 2) = fst (mem_load m 0x2000 2) \<and> mem_store m 0xFFFF [1, 2] = (False, m)"
proof -
  define m where "m = \<lparr>sparse_memory_map = (\<lambda>_. None), sz = 0x10000\<rparr>"
  have "new_mem 0x10000 = Some m" by (simp add: new_mem_def PGSIZE_def m_def)
  moreover have "unat (sz m) = 0x10000" by (simp add: m_def)
  moreover have l: "length [1, 2, 3, 4 :: uint8_t] = 4" "length [1, 2 :: uint8_t] = 2" by simp_all
  ultimately show ?thesis
    using memory_read_write [of "0xFFE" "[1, 2, 3, 4]" m "0x2000" 2 "0xFFFF" "[1, 2]", unfolded l] by (intro exI [of _ m]) simp
qed

end
