(* ===== verification/Bus.thy ===== *)
theory Bus
  imports Memory_Device
begin

text \<open>
  The system bus (\<^verbatim>\<open>riscv/devices.cc\<close>, class \<open>bus_t\<close>): devices are added at base addresses and an access is passed to the
  device that contains it. The virtual methods of \<open>abstract_device_t\<close> are dispatched over the modelled devices, memory
  and ROM. The map from bases to devices is the list of its entries in key order, as the code
  iterates over it.

  The lemmas show that a bus is well formed however it was put together, which device an access reaches, and that memory
  behaves the same through the bus as on its own.
\<close>

section \<open>Devices\<close>

datatype abstract_device_t = Mem mem_t | Rom "uint8_t list"

fun device_size :: "abstract_device_t \<Rightarrow> reg_t" where
  "device_size (Mem m) = sz m"
| "device_size (Rom data) = of_nat (length data)"

fun device_load :: "abstract_device_t \<Rightarrow> reg_t \<Rightarrow> nat \<Rightarrow> uint8_t list option \<times> abstract_device_t" where
  "device_load (Mem m) addr len = (case mem_load m addr len of (r, m) \<Rightarrow> (r, Mem m))"
| "device_load (Rom data) addr len = (case rom_load data addr len of (r, data) \<Rightarrow> (r, Rom data))"

fun device_store :: "abstract_device_t \<Rightarrow> reg_t \<Rightarrow> uint8_t list \<Rightarrow> bool \<times> abstract_device_t" where
  "device_store (Mem m) addr bytes = (case mem_store m addr bytes of (r, m) \<Rightarrow> (r, Mem m))"
| "device_store (Rom data) addr bytes = (case rom_store data addr bytes of (r, data) \<Rightarrow> (r, Rom data))"

section \<open>The bus\<close>

record bus_t =
  devices :: "(reg_t \<times> abstract_device_t) list"
  fallback :: abstract_device_t

definition new_bus :: bus_t where
  "new_bus = \<lparr>devices = [], fallback = Rom []\<rparr>"

definition below :: "bus_t \<Rightarrow> reg_t \<Rightarrow> (reg_t \<times> abstract_device_t) list" where
  "below bus addr = takeWhile (\<lambda>(base, dev). base \<le> addr) (devices bus)"

definition upper_bound :: "bus_t \<Rightarrow> reg_t \<Rightarrow> (reg_t \<times> abstract_device_t) list" where
  "upper_bound bus addr = dropWhile (\<lambda>(base, dev). base \<le> addr) (devices bus)"

definition add_device :: "reg_t \<Rightarrow> abstract_device_t \<Rightarrow> bus_t \<Rightarrow> bus_t option" where
  "add_device addr dev bus =
     (let size = device_size dev
      in if size = 0 then Some bus
         else if addr + size - 1 < addr then None
         else if upper_bound bus addr \<noteq> [] \<and> fst (hd (upper_bound bus addr)) \<le> addr + size - 1 \<or>
                 below bus addr \<noteq> [] \<and>
                   addr \<le> fst (last (below bus addr)) + device_size (snd (last (below bus addr))) - 1
              then None
         else Some (bus\<lparr>devices := below bus addr @ (addr, dev) # upper_bound bus addr\<rparr>))"

datatype found = No_Device | Device reg_t | Fallback

definition find_device :: "bus_t \<Rightarrow> reg_t \<Rightarrow> reg_t \<Rightarrow> found" where
  "find_device bus addr len =
     (if len = 0 \<or> addr + len - 1 < addr then No_Device
      else
        let it_after = upper_bound bus addr;
            it = last (below bus addr);
            base = fst it;
            size = device_size (snd it)
        in if below bus addr \<noteq> [] \<and> addr - base + len - 1 < size then Device base
           else if it_after \<noteq> [] \<and> fst (hd it_after) \<le> addr + len - 1 \<or> below bus addr \<noteq> [] \<and> addr - base < size
           then No_Device
           else Fallback)"

definition device_at :: "bus_t \<Rightarrow> reg_t \<Rightarrow> abstract_device_t" where
  "device_at bus base = the (map_of (devices bus) base)"

definition update_device :: "reg_t \<Rightarrow> abstract_device_t \<Rightarrow> bus_t \<Rightarrow> bus_t" where
  "update_device base dev bus = bus\<lparr>devices := map (\<lambda>(b, d). if b = base then (b, dev) else (b, d)) (devices bus)\<rparr>"

definition bus_load :: "bus_t \<Rightarrow> reg_t \<Rightarrow> nat \<Rightarrow> uint8_t list option \<times> bus_t" where
  "bus_load bus addr len =
     (case find_device bus addr (of_nat len) of
        No_Device \<Rightarrow> (None, bus)
      | Device base \<Rightarrow> (case device_load (device_at bus base) (addr - base) len of (r, dev) \<Rightarrow> (r, update_device base dev bus))
      | Fallback \<Rightarrow> (case device_load (fallback bus) addr len of (r, dev) \<Rightarrow> (r, bus\<lparr>fallback := dev\<rparr>)))"

definition bus_store :: "bus_t \<Rightarrow> reg_t \<Rightarrow> uint8_t list \<Rightarrow> bool \<times> bus_t" where
  "bus_store bus addr bytes =
     (case find_device bus addr (of_nat (length bytes)) of
        No_Device \<Rightarrow> (False, bus)
      | Device base \<Rightarrow> (case device_store (device_at bus base) (addr - base) bytes of (r, dev) \<Rightarrow> (r, update_device base dev bus))
      | Fallback \<Rightarrow> (case device_store (fallback bus) addr bytes of (r, dev) \<Rightarrow> (r, bus\<lparr>fallback := dev\<rparr>)))"

section \<open>Well-formed buses\<close>

definition range_of :: "reg_t \<times> abstract_device_t \<Rightarrow> nat set" where
  "range_of e = {unat (fst e) ..< unat (fst e) + unat (device_size (snd e))}"

definition device_ok :: "reg_t \<times> abstract_device_t \<Rightarrow> bool" where
  "device_ok e \<longleftrightarrow> 0 < unat (device_size (snd e)) \<and> unat (fst e) + unat (device_size (snd e)) \<le> 2 ^ 64"

definition precedes :: "reg_t \<times> abstract_device_t \<Rightarrow> reg_t \<times> abstract_device_t \<Rightarrow> bool" where
  "precedes e e' \<longleftrightarrow> unat (fst e) + unat (device_size (snd e)) \<le> unat (fst e')"

definition bus_wf :: "bus_t \<Rightarrow> bool" where
  "bus_wf bus \<longleftrightarrow> list_all device_ok (devices bus) \<and> sorted_wrt precedes (devices bus)"

inductive bus_built :: "bus_t \<Rightarrow> bool" where
  empty: "bus_built new_bus"
| add: "bus_built bus \<Longrightarrow> add_device addr dev bus = Some bus' \<Longrightarrow> bus_built bus'"

lemma devices_split: "devices bus = below bus addr @ upper_bound bus addr"
  by (simp add: below_def upper_bound_def)

lemma below_le: "e \<in> set (below bus addr) \<Longrightarrow> unat (fst e) \<le> unat addr"
  by (auto simp: below_def word_le_nat_alt dest: set_takeWhileD)

lemma above_gr:
  assumes "bus_wf bus" "e \<in> set (upper_bound bus addr)"
  shows "unat addr < unat (fst e)"
proof -
  obtain x xs where x: "upper_bound bus addr = x # xs" using assms(2) by (cases "upper_bound bus addr") auto
  have "\<not> fst x \<le> addr" using x hd_dropWhile [of "\<lambda>(base, dev). base \<le> addr" "devices bus"] by (auto simp: upper_bound_def)
  moreover have "e = x \<or> precedes x e"
    using assms x devices_split [of bus addr] by (auto simp: bus_wf_def sorted_wrt_append)
  ultimately show ?thesis by (auto simp: precedes_def word_le_nat_alt)
qed

lemma last_word_minus:
  fixes a n :: reg_t
  assumes "0 < unat n" "unat a + unat n \<le> 2 ^ 64"
  shows "unat (a + n - 1) = unat a + unat n - 1" and "\<not> a + n - 1 < a"
proof -
  have n: "unat (n - 1) = unat n - 1" using assms(1) by (subst unat_diff_nowrap) simp_all
  have "unat a + unat (n - 1) < 2 ^ 64" using n assms by linarith
  then have "unat (a + (n - 1)) = unat a + unat n - 1" using n assms(1) by (subst unat_add_nowrap) simp_all
  then show u: "unat (a + n - 1) = unat a + unat n - 1" by (simp add: algebra_simps)
  show "\<not> a + n - 1 < a" using u assms(1) by (simp add: word_less_nat_alt)
qed

lemma overflow_iff:
  fixes a n :: reg_t
  assumes "0 < unat n"
  shows "a + n - 1 < a \<longleftrightarrow> 2 ^ 64 < unat a + unat n"
proof (cases "unat a + unat n \<le> 2 ^ 64")
  case True
  then show ?thesis using last_word_minus [OF assms True] by simp
next
  case False
  have n: "unat (n - 1) = unat n - 1" using assms by (subst unat_diff_nowrap) simp_all
  have "\<not> unat a + unat (n - 1) < 2 ^ LENGTH(64)" using False assms n by simp
  then have "unat (a + (n - 1)) = unat a + unat (n - 1) - 2 ^ LENGTH(64)" by (subst unat_plus_if') (simp only: if_False)
  then have "unat (a + (n - 1)) = unat a + (unat n - 1) - 2 ^ 64" using n by simp
  then have "unat (a + n - 1) = unat a + (unat n - 1) - 2 ^ 64" by (simp add: algebra_simps)
  with False unat_less_pow2 [of n] show ?thesis by (simp add: word_less_nat_alt)
qed

lemma last_below:
  assumes "bus_wf bus" "e \<in> set (below bus addr)" "e \<noteq> last (below bus addr)"
  shows "unat (fst e) + unat (device_size (snd e)) \<le> unat (fst (last (below bus addr)))"
proof -
  have "below bus addr = butlast (below bus addr) @ [last (below bus addr)]" using assms(2) by (intro append_butlast_last_id [symmetric]) auto
  moreover from this have "e \<in> set (butlast (below bus addr))" using assms(2,3) by (metis Un_iff empty_iff empty_set set_append set_ConsD)
  moreover have "sorted_wrt precedes (below bus addr)"
    using assms(1) devices_split [of bus addr] by (simp add: bus_wf_def sorted_wrt_append)
  ultimately have "precedes e (last (below bus addr))" by (metis list.set_intros(1) sorted_wrt_append)
  then show ?thesis by (simp add: precedes_def)
qed

lemma add_device_wf:
  assumes wf: "bus_wf bus" and add: "add_device addr dev bus = Some bus'"
  shows "bus_wf bus'"
proof (cases "device_size dev = 0")
  case True
  then show ?thesis using add wf by (simp add: add_device_def)
next
  case False
  let ?b = "below bus addr" and ?u = "upper_bound bus addr"
  have pos: "0 < unat (device_size dev)" using False by (simp add: unat_gt_0)
  have bus': "devices bus' = ?b @ (addr, dev) # ?u"
    and no: "\<not> addr + device_size dev - 1 < addr" "?u = [] \<or> \<not> fst (hd ?u) \<le> addr + device_size dev - 1"
      "?b = [] \<or> \<not> addr \<le> fst (last ?b) + device_size (snd (last ?b)) - 1"
    using add False by (auto simp: add_device_def Let_def split: if_splits)
  have ok: "device_ok (addr, dev)" using no(1) overflow_iff [OF pos, of addr] pos by (simp add: device_ok_def)
  have all: "list_all device_ok ?b" "list_all device_ok ?u" and srt: "sorted_wrt precedes ?b" "sorted_wrt precedes ?u" "\<forall>x\<in>set ?b. \<forall>y\<in>set ?u. precedes x y"
    using wf devices_split [of bus addr] by (auto simp: bus_wf_def sorted_wrt_append)
  have before: "precedes e (addr, dev)" if e: "e \<in> set ?b" for e
  proof -
    have ne: "?b \<noteq> []" using e by auto
    let ?l = "last ?b"
    have l: "device_ok ?l" using all(1) ne by (simp add: list_all_iff)
    then have "unat (fst ?l + device_size (snd ?l) - 1) = unat (fst ?l) + unat (device_size (snd ?l)) - 1"
      by (intro last_word_minus) (simp_all add: device_ok_def)
    then have "unat (fst ?l) + unat (device_size (snd ?l)) \<le> unat addr" using no(3) ne l by (simp add: word_le_nat_alt device_ok_def)
    moreover have "e = ?l \<or> unat (fst e) + unat (device_size (snd e)) \<le> unat (fst ?l)" using last_below [OF wf e] by blast
    ultimately show ?thesis using l by (auto simp: precedes_def device_ok_def)
  qed
  have after: "precedes (addr, dev) e" if e: "e \<in> set ?u" for e
  proof -
    obtain x xs where x: "?u = x # xs" using e by (cases ?u) auto
    have "unat (addr + device_size dev - 1) = unat addr + unat (device_size dev) - 1"
      using ok pos by (intro last_word_minus) (simp_all add: device_ok_def)
    then have "unat addr + unat (device_size dev) \<le> unat (fst x)" using no(2) x pos by (simp add: word_le_nat_alt)
    moreover have "e = x \<or> unat (fst x) \<le> unat (fst e)" using srt(2) e x by (auto simp: precedes_def)
    ultimately show ?thesis by (auto simp: precedes_def)
  qed
  show ?thesis unfolding bus_wf_def bus' using all ok srt before after by (simp add: sorted_wrt_append)
qed

lemma bus_built_wf: "bus_built bus \<Longrightarrow> bus_wf bus"
proof (induction rule: bus_built.induct)
  case empty
  then show ?case by (simp add: bus_wf_def new_bus_def)
next
  case (add bus addr dev bus')
  then show ?case by (simp add: add_device_wf)
qed

section \<open>Which device an access reaches\<close>

lemma wf_disjoint_unique:
  assumes "bus_wf bus" "e \<in> set (devices bus)" "e' \<in> set (devices bus)" "i \<in> range_of e" "i \<in> range_of e'"
  shows "e = e'"
proof -
  obtain j k where jk: "j < length (devices bus)" "devices bus ! j = e" "k < length (devices bus)" "devices bus ! k = e'"
    using assms(2,3) by (metis in_set_conv_nth)
  have "\<not> j < k" "\<not> k < j"
    using assms(1,4,5) jk unfolding bus_wf_def sorted_wrt_iff_nth_less by (auto simp: precedes_def range_of_def) (meson leD le_trans)+
  then show ?thesis using jk by simp
qed

definition access_range :: "reg_t \<Rightarrow> reg_t \<Rightarrow> nat set" where
  "access_range addr len = {unat addr ..< unat addr + unat len}"

definition find_spec :: "bus_t \<Rightarrow> reg_t \<Rightarrow> reg_t \<Rightarrow> found \<Rightarrow> bool" where
  "find_spec bus addr len r \<longleftrightarrow>
     (case r of
        Device base \<Rightarrow> \<exists>dev. (base, dev) \<in> set (devices bus) \<and> len \<noteq> 0 \<and> access_range addr len \<subseteq> range_of (base, dev)
      | Fallback \<Rightarrow> len \<noteq> 0 \<and> unat addr + unat len \<le> 2 ^ 64 \<and> (\<forall>e \<in> set (devices bus). access_range addr len \<inter> range_of e = {})
      | No_Device \<Rightarrow> len = 0 \<or> 2 ^ 64 < unat addr + unat len \<or>
          (\<exists>e \<in> set (devices bus). access_range addr len \<inter> range_of e \<noteq> {} \<and> \<not> access_range addr len \<subseteq> range_of e))"

lemma below_last:
  assumes "bus_wf bus" "below bus addr \<noteq> []"
  defines "l \<equiv> last (below bus addr)"
  shows "unat (fst l) \<le> unat addr" "l \<in> set (devices bus)" "device_ok l" "unat (addr - fst l) = unat addr - unat (fst l)"
proof -
  have m: "l \<in> set (below bus addr)" using assms(2) by (simp add: l_def)
  then show le: "unat (fst l) \<le> unat addr" by (rule below_le)
  then show "unat (addr - fst l) = unat addr - unat (fst l)" by (simp add: unat_diff_nowrap)
  show d: "l \<in> set (devices bus)" using m devices_split [of bus addr] by (metis Un_iff set_append)
  then show "device_ok l" using assms(1) by (simp add: bus_wf_def list_all_iff)
qed

lemma below_last_start:
  assumes "bus_wf bus" "below bus addr \<noteq> []"
  shows "addr - fst (last (below bus addr)) < device_size (snd (last (below bus addr))) \<longleftrightarrow> unat addr \<in> range_of (last (below bus addr))"
  using below_last [OF assms] by (auto simp: word_less_nat_alt range_of_def)

lemma below_last_inside:
  assumes "bus_wf bus" "below bus addr \<noteq> []" "0 < unat len" "unat addr + unat len \<le> 2 ^ 64"
  shows "addr - fst (last (below bus addr)) + len - 1 < device_size (snd (last (below bus addr))) \<longleftrightarrow>
    access_range addr len \<subseteq> range_of (last (below bus addr))"
proof -
  let ?l = "last (below bus addr)"
  obtain A B N S where o: "A = unat addr" "B = unat (fst ?l)" "N = unat len" "S = unat (device_size (snd ?l))" by simp
  have "unat (addr - fst ?l + len - 1) = (A - B) + N - 1"
    using last_word_minus(1) [OF assms(3), of "addr - fst ?l"] below_last [OF assms(1,2)] assms(4) by (simp add: o)
  then have "addr - fst ?l + len - 1 < device_size (snd ?l) \<longleftrightarrow> (A - B) + N - 1 < S" by (simp add: word_less_nat_alt o)
  also have "\<dots> \<longleftrightarrow> {A ..< A + N} \<subseteq> {B ..< B + S}"
    using below_last(1) [OF assms(1,2)] assms(3) unfolding o [symmetric] by (simp add: ivl_subset) linarith
  finally show ?thesis by (simp add: access_range_def range_of_def o)
qed

lemma above_first:
  assumes wf: "bus_wf bus" and len: "0 < unat len" "unat addr + unat len \<le> 2 ^ 64"
  shows "upper_bound bus addr \<noteq> [] \<and> fst (hd (upper_bound bus addr)) \<le> addr + len - 1 \<longleftrightarrow>
    (\<exists>e \<in> set (upper_bound bus addr). access_range addr len \<inter> range_of e \<noteq> {})"
proof (cases "upper_bound bus addr")
  case (Cons x xs)
  have pos: "0 < unat (device_size (snd e))" if "e \<in> set (x # xs)" for e
    using wf devices_split [of bus addr] that Cons by (auto simp: bus_wf_def device_ok_def list_all_iff)
  have ge: "unat (fst x) \<le> unat (fst e)" if "e \<in> set (x # xs)" for e
    using wf devices_split [of bus addr] that Cons by (auto simp: bus_wf_def sorted_wrt_append precedes_def)
  have gr: "unat addr < unat (fst x)" using above_gr [OF wf, of x addr] Cons by simp
  have "fst x \<le> addr + len - 1 \<longleftrightarrow> unat (fst x) < unat addr + unat len"
    using last_word_minus(1) [OF len] len(1) by (auto simp: word_le_nat_alt)
  also have "\<dots> \<longleftrightarrow> (\<exists>e \<in> set (x # xs). access_range addr len \<inter> range_of e \<noteq> {})"
  proof
    assume "unat (fst x) < unat addr + unat len"
    then have "unat (fst x) \<in> access_range addr len \<inter> range_of x" using gr pos [of x] by (auto simp: access_range_def range_of_def)
    then show "\<exists>e \<in> set (x # xs). access_range addr len \<inter> range_of e \<noteq> {}" by auto
  next
    assume "\<exists>e \<in> set (x # xs). access_range addr len \<inter> range_of e \<noteq> {}"
    then obtain e i where "e \<in> set (x # xs)" "i \<in> access_range addr len" "i \<in> range_of e" by blast
    then show "unat (fst x) < unat addr + unat len" using ge [of e] by (auto simp: access_range_def range_of_def)
  qed
  finally show ?thesis using Cons by simp
qed simp

lemma find_device_correct:
  assumes wf: "bus_wf bus"
  shows "find_spec bus addr len (find_device bus addr len)"
proof (cases "len = 0 \<or> addr + len - 1 < addr")
  case True
  then show ?thesis using overflow_iff [of len addr] by (cases "len = 0") (auto simp: find_device_def find_spec_def unat_gt_0)
next
  case False
  let ?b = "below bus addr" and ?u = "upper_bound bus addr" and ?acc = "access_range addr len"
  have pos: "0 < unat len" and fit: "unat addr + unat len \<le> 2 ^ 64"
    using False overflow_iff [of len addr] by (auto simp: unat_gt_0)
  have start: "unat addr \<in> ?acc" using pos by (simp add: access_range_def)
  have split: "set (devices bus) = set ?b \<union> set ?u" using devices_split [of bus addr] by (metis set_append)
  have other: "?acc \<inter> range_of e = {}" if "e \<in> set ?b" "e \<noteq> last ?b" for e
  proof -
    have "?b \<noteq> []" using that(1) by auto
    then show ?thesis using last_below [OF wf that] below_last(1) [OF wf, of addr] by (auto simp: access_range_def range_of_def)
  qed
  have lb: "?acc \<inter> range_of (last ?b) \<noteq> {} \<longleftrightarrow> unat addr \<in> range_of (last ?b)" if "?b \<noteq> []"
    using below_last(1) [OF wf that] start by (auto simp: access_range_def range_of_def)
  have ub: "\<not> ?acc \<subseteq> range_of e" if "e \<in> set ?u" for e using above_gr [OF wf that] start by (auto simp: range_of_def)
  have find: "find_device bus addr len =
      (if ?b \<noteq> [] \<and> ?acc \<subseteq> range_of (last ?b) then Device (fst (last ?b))
       else if (\<exists>e \<in> set ?u. ?acc \<inter> range_of e \<noteq> {}) \<or> ?b \<noteq> [] \<and> unat addr \<in> range_of (last ?b) then No_Device else Fallback)"
    using False below_last_start [OF wf] below_last_inside [OF wf _ pos fit] above_first [OF wf pos fit]
    unfolding find_device_def Let_def by (cases "?b = []") simp_all
  show ?thesis
  proof (cases "?b \<noteq> [] \<and> ?acc \<subseteq> range_of (last ?b)")
    case True
    then show ?thesis using below_last(2) [OF wf] pos by (auto simp: find find_spec_def intro!: exI [of _ "snd (last ?b)"])
  next
    case out: False
    then show ?thesis
    proof (cases "(\<exists>e \<in> set ?u. ?acc \<inter> range_of e \<noteq> {}) \<or> ?b \<noteq> [] \<and> unat addr \<in> range_of (last ?b)")
      case True
      then have "\<exists>e \<in> set (devices bus). ?acc \<inter> range_of e \<noteq> {} \<and> \<not> ?acc \<subseteq> range_of e"
        using out start ub split below_last(2) [OF wf] by blast
      then show ?thesis unfolding find if_not_P [OF out] if_P [OF True] by (simp add: find_spec_def)
    next
      case none: False
      have "?acc \<inter> range_of e = {}" if "e \<in> set (devices bus)" for e
      proof (cases "e \<in> set ?b")
        case True
        then have "?b \<noteq> []" by auto
        then show ?thesis using other [OF True] lb none by (cases "e = last ?b") blast+
      qed (use none split that in blast)
      then show ?thesis unfolding find if_not_P [OF out] if_not_P [OF none] using pos fit by (auto simp: find_spec_def)
    qed
  qed
qed

section \<open>Memory through the bus\<close>

lemma find_device_inside:
  assumes wf: "bus_wf bus" and e: "(base, dev) \<in> set (devices bus)" and len: "len \<noteq> 0"
    and sub: "access_range addr len \<subseteq> range_of (base, dev)"
  shows "find_device bus addr len = Device base"
proof -
  have a: "unat addr \<in> access_range addr len" "unat addr + unat len - 1 \<in> access_range addr len"
  proof -
    have "0 < unat len" using len by (simp add: unat_gt_0)
    then show "unat addr \<in> access_range addr len" "unat addr + unat len - 1 \<in> access_range addr len"
      by (auto simp: access_range_def)
  qed
  have "unat base + unat (device_size dev) \<le> 2 ^ 64" using wf e by (auto simp: bus_wf_def list_all_iff device_ok_def)
  moreover have "unat addr + unat len - 1 < unat base + unat (device_size dev)" using sub a(2) by (auto simp: range_of_def)
  ultimately have fit: "unat addr + unat len \<le> 2 ^ 64" by linarith
  have uniq: "e' = (base, dev)" if "e' \<in> set (devices bus)" "i \<in> range_of e'" "i \<in> access_range addr len" for e' i
    using wf_disjoint_unique [OF wf that(1) e that(2)] sub that(3) by blast
  show ?thesis
  proof (cases "find_device bus addr len")
    case No_Device
    then show ?thesis using find_device_correct [OF wf, of addr len] len fit sub uniq by (auto simp: find_spec_def)
  next
    case (Device b)
    then obtain d where "(b, d) \<in> set (devices bus)" "access_range addr len \<subseteq> range_of (b, d)"
      using find_device_correct [OF wf, of addr len] by (auto simp: find_spec_def)
    then have "(b, d) = (base, dev)" using uniq a(1) by blast
    then show ?thesis using Device by simp
  next
    case Fallback
    then show ?thesis using find_device_correct [OF wf, of addr len] e sub a(1) by (auto simp: find_spec_def)
  qed
qed

lemma wf_device_at:
  assumes wf: "bus_wf bus" and e: "(base, dev) \<in> set (devices bus)"
  shows "map_of (devices bus) base = Some dev"
proof -
  obtain d where d: "map_of (devices bus) base = Some d" using weak_map_of_SomeI [OF e] by blast
  then have m: "(base, d) \<in> set (devices bus)" by (rule map_of_SomeD)
  have "unat base \<in> range_of (base, d)" "unat base \<in> range_of (base, dev)"
    using wf e m by (auto simp: bus_wf_def list_all_iff device_ok_def range_of_def)
  then show ?thesis using wf_disjoint_unique [OF wf m e] d by blast
qed

lemma update_device_entry:
  assumes wf: "bus_wf bus" and e: "(base, dev) \<in> set (devices bus)" and sz: "device_size dev' = device_size dev"
  shows "bus_wf (update_device base dev' bus)" and "(base, dev') \<in> set (devices (update_device base dev' bus))"
    and "b \<noteq> base \<Longrightarrow> (b, d) \<in> set (devices (update_device base dev' bus)) \<longleftrightarrow> (b, d) \<in> set (devices bus)"
proof -
  let ?f = "\<lambda>(b, d). if b = base then (b, dev') else (b, d)"
  have f: "fst (?f x) = fst x \<and> device_size (snd (?f x)) = device_size (snd x)" if "x \<in> set (devices bus)" for x
  proof (cases x)
    case (Pair b d)
    have "d = dev" if "b = base" using wf_device_at [OF wf e] wf_device_at [OF wf, of b d] that \<open>x \<in> _\<close> Pair by simp
    then show ?thesis using Pair sz by auto
  qed
  have "list_all device_ok (map ?f (devices bus))" using wf f by (simp add: bus_wf_def list_all_iff device_ok_def)
  moreover have "sorted_wrt precedes (map ?f (devices bus))"
    using wf f unfolding bus_wf_def sorted_wrt_map by (auto intro: sorted_wrt_mono_rel [of _ precedes] simp: precedes_def)
  ultimately show "bus_wf (update_device base dev' bus)" by (simp add: bus_wf_def update_device_def)
  show "(base, dev') \<in> set (devices (update_device base dev' bus))" using e by (force simp: update_device_def)
  show "b \<noteq> base \<Longrightarrow> (b, d) \<in> set (devices (update_device base dev' bus)) \<longleftrightarrow> (b, d) \<in> set (devices bus)"
    by (force simp: update_device_def split: if_splits)
qed

lemma bus_memory:
  assumes wf: "bus_wf bus" and e: "(base, Mem m) \<in> set (devices bus)" and n: "0 < n"
    and fit: "unat base \<le> unat addr" "unat addr + n \<le> unat base + mem_extent m"
  shows "find_device bus addr (of_nat n) = Device base" and "device_at bus base = Mem m"
    and "unat (addr - base) + n \<le> mem_extent m"
proof -
  have sub: "unat (addr - base) = unat addr - unat base" using fit(1) by (simp add: unat_diff_nowrap)
  then show le: "unat (addr - base) + n \<le> mem_extent m" using fit by linarith
  then have "n < 2 ^ 64" using mem_extent_less [of m] by linarith
  then have u: "unat (of_nat n :: reg_t) = n" by (rule unat_of_nat_small)
  then have "of_nat n \<noteq> (0 :: reg_t)" using n by (metis unat_0 less_irrefl)
  moreover have "access_range addr (of_nat n) \<subseteq> range_of (base, Mem m)" using fit u by (auto simp: access_range_def range_of_def mem_extent_def)
  ultimately show "find_device bus addr (of_nat n) = Device base" using find_device_inside [OF wf e] by blast
  show "device_at bus base = Mem m" using wf_device_at [OF wf e] by (simp add: device_at_def)
qed

lemma bus_read_write:
  assumes wf: "bus_wf bus" and e: "(base, Mem m) \<in> set (devices bus)" and n: "bs \<noteq> []"
    and fit: "unat base \<le> unat addr" "unat addr + length bs \<le> unat base + mem_extent m"
  shows "fst (bus_store bus addr bs)" and "fst (bus_load (snd (bus_store bus addr bs)) addr (length bs)) = Some bs"
    and "b \<noteq> base \<Longrightarrow> (b, d) \<in> set (devices (snd (bus_store bus addr bs))) \<longleftrightarrow> (b, d) \<in> set (devices bus)"
proof -
  let ?a = "addr - base"
  let ?m = "snd (mem_store m ?a bs)"
  note bm = bus_memory [OF wf e _ fit]
  have in_m: "unat ?a + length bs \<le> mem_extent m" using bm(3) n by simp
  have st: "bus_store bus addr bs = (True, update_device base (Mem ?m) bus)"
    using bm(1,2) n mem.store_inside [OF TrueI in_m] by (simp add: bus_store_def case_prod_unfold)
  then show "fst (bus_store bus addr bs)" by simp
  have sz: "device_size (Mem ?m) = device_size (Mem m)"
    using mem.store_keeps [OF TrueI in_m] by (simp add: mem_extent_def word_unat_eq_iff)
  note u = update_device_entry [OF wf e sz]
  have "unat addr + length bs \<le> unat base + mem_extent ?m" using fit(2) mem.store_keeps [OF TrueI in_m] by simp
  note bm' = bus_memory [OF u(1,2) _ fit(1) this]
  have "fst (bus_load (update_device base (Mem ?m) bus) addr (length bs)) = fst (mem_load ?m ?a (length bs))"
    using bm'(1,2) n by (simp add: bus_load_def case_prod_unfold)
  then show "fst (bus_load (snd (bus_store bus addr bs)) addr (length bs)) = Some bs"
    using mem.load_after_store [OF TrueI in_m] by (simp add: st)
  show "b \<noteq> base \<Longrightarrow> (b, d) \<in> set (devices (snd (bus_store bus addr bs))) \<longleftrightarrow> (b, d) \<in> set (devices bus)"
    using u(3) by (simp add: st)
qed

section \<open>Properties\<close>

text \<open>C33. However a bus was put together, an access is passed to the device that contains all of it, to the fallback
  device exactly when it touches no device, and is refused exactly when it is empty, leaves the address space, or
  straddles the border of a device; devices never overlap, so the choice is unique.\<close>

theorem bus_find_device_correct:
  assumes "bus_built bus"
  shows "find_spec bus addr len (find_device bus addr len) \<and>
    (\<forall>e \<in> set (devices bus). \<forall>e' \<in> set (devices bus). e \<noteq> e' \<longrightarrow> range_of e \<inter> range_of e' = {})"
  using find_device_correct [OF bus_built_wf [OF assms], of addr len] wf_disjoint_unique [OF bus_built_wf [OF assms]] by blast

text \<open>C34. Memory read back through the bus: on any bus that was put together by adding devices, a store that lies inside a memory
  succeeds, a load of the same addresses returns the stored bytes, and no other device changes.\<close>

theorem bus_memory_roundtrip:
  assumes "bus_built bus" and "(base, Mem m) \<in> set (devices bus)" and "bs \<noteq> []"
    and "unat base \<le> unat addr" and "unat addr + length bs \<le> unat base + unat (sz m)"
  shows "fst (bus_store bus addr bs) \<and> fst (bus_load (snd (bus_store bus addr bs)) addr (length bs)) = Some bs \<and>
    (\<forall>b d. b \<noteq> base \<longrightarrow> (b, d) \<in> set (devices (snd (bus_store bus addr bs))) \<longleftrightarrow> (b, d) \<in> set (devices bus))"
  using bus_read_write [OF bus_built_wf [OF assms(1)] assms(2-4)] assms(5) by (simp add: mem_extent_def)

definition example_mem :: mem_t where
  "example_mem = \<lparr>sparse_memory_map = (\<lambda>_. None), sz = 0x10000\<rparr>"

definition example_bus :: bus_t where
  "example_bus = \<lparr>devices = [(0x1000, Rom [0x13, 0, 0, 0]), (0x80000000, Mem example_mem)], fallback = Rom []\<rparr>"

lemma example_bus_built: "bus_built example_bus"
proof -
  have r: "add_device 0x1000 (Rom [0x13, 0, 0, 0]) new_bus = Some \<lparr>devices = [(0x1000, Rom [0x13, 0, 0, 0])], fallback = Rom []\<rparr>"
    by (simp add: add_device_def new_bus_def upper_bound_def below_def)
  have m: "add_device 0x80000000 (Mem example_mem) \<lparr>devices = [(0x1000, Rom [0x13, 0, 0, 0])], fallback = Rom []\<rparr> = Some example_bus"
    by (simp add: add_device_def example_bus_def example_mem_def upper_bound_def below_def)
  show ?thesis by (rule bus_built.add [OF bus_built.add [OF bus_built.empty r] m])
qed

theorem bus_find_device_correct_witness:
  "find_device example_bus 0x80000FF0 8 = Device 0x80000000 \<and> find_spec example_bus 0x80000FF0 8 (Device 0x80000000)"
proof -
  have "find_device example_bus 0x80000FF0 8 = Device 0x80000000"
    by (simp add: find_device_def example_bus_def example_mem_def upper_bound_def below_def)
  with bus_find_device_correct [OF example_bus_built, of "0x80000FF0" 8] show ?thesis by simp
qed

theorem bus_memory_roundtrip_witness:
  "fst (bus_load (snd (bus_store example_bus 0x80000FFF [7, 8])) 0x80000FFF 2) = Some [7, 8]"
proof -
  have l: "length [7, 8 :: uint8_t] = 2" by simp
  show ?thesis
    using bus_memory_roundtrip [OF example_bus_built, of "0x80000000" example_mem "[7, 8]" "0x80000FFF", unfolded l]
    by (simp add: example_bus_def example_mem_def)
qed

end
