(* ===== verification/Hart_Interrupts.thy ===== *)
theory Hart_Interrupts
  imports Memory_Device
begin

text \<open>
  The part of a hart that the interrupt devices touch: the interrupt-pending register and the time counter
  (\<^verbatim>\<open>riscv/csrs.cc\<close>, \<open>mip_csr_t::backdoor_write_with_mask\<close> and \<open>time_counter_csr_t::sync\<close>). The registers that \<open>sync\<close>
  reads are fields with the value their \<open>read\<close> returns.
\<close>

definition MIP_MSIP :: reg_t where "MIP_MSIP = push_bit 3 1"
definition MIP_STIP :: reg_t where "MIP_STIP = push_bit 5 1"
definition MIP_VSTIP :: reg_t where "MIP_VSTIP = push_bit 6 1"
definition MIP_MTIP :: reg_t where "MIP_MTIP = push_bit 7 1"
definition MIP_SEIP :: reg_t where "MIP_SEIP = push_bit 9 1"
definition MIP_MEIP :: reg_t where "MIP_MEIP = push_bit 11 1"
definition MENVCFG_STCE :: reg_t where "MENVCFG_STCE = 0x8000000000000000"
definition HENVCFG_STCE :: reg_t where "HENVCFG_STCE = 0x8000000000000000"

record hart =
  mip :: reg_t
  shadow_val :: reg_t
  ext_sstc :: bool
  stimecmp :: reg_t
  vstimecmp :: reg_t
  htimedelta :: reg_t
  menvcfg :: reg_t
  henvcfg :: reg_t

definition backdoor_write_with_mask :: "reg_t \<Rightarrow> reg_t \<Rightarrow> hart \<Rightarrow> hart" where
  "backdoor_write_with_mask msk val h = h\<lparr>mip := (mip h AND NOT msk) OR (val AND msk)\<rparr>"

definition sync :: "reg_t \<Rightarrow> hart \<Rightarrow> hart" where
  "sync val h =
     (let h = h\<lparr>shadow_val := val\<rparr>
      in if ext_sstc h then
           let mip_val = (if stimecmp h \<le> shadow_val h then MIP_STIP else 0) OR
                         (if vstimecmp h \<le> shadow_val h + htimedelta h then MIP_VSTIP else 0);
               msk = (if menvcfg h AND MENVCFG_STCE \<noteq> 0 then MIP_STIP else 0) OR
                     (if henvcfg h AND HENVCFG_STCE \<noteq> 0 then MIP_VSTIP else 0)
           in backdoor_write_with_mask msk mip_val h
         else h)"

lemmas mip_bits = MIP_MSIP_def MIP_STIP_def MIP_VSTIP_def MIP_MTIP_def MIP_SEIP_def MIP_MEIP_def

lemma bit_MIP:
  "bit MIP_MSIP n \<longleftrightarrow> n = 3" "bit MIP_STIP n \<longleftrightarrow> n = 5" "bit MIP_VSTIP n \<longleftrightarrow> n = 6" "bit MIP_MTIP n \<longleftrightarrow> n = 7"
  "bit MIP_SEIP n \<longleftrightarrow> n = 9" "bit MIP_MEIP n \<longleftrightarrow> n = 11"
  unfolding mip_bits bit_push_bit_iff bit_1_iff by auto

lemma bit_backdoor:
  "bit (mip (backdoor_write_with_mask msk val h)) n \<longleftrightarrow> (if bit msk n then bit val n else bit (mip h) n)"
  by (auto simp: backdoor_write_with_mask_def bit_simps dest: bit_imp_le_length)

lemma sync_shadow [simp]: "shadow_val (sync val h) = val"
  by (simp add: sync_def Let_def backdoor_write_with_mask_def)

lemma sync_mip: "n \<noteq> 5 \<Longrightarrow> n \<noteq> 6 \<Longrightarrow> bit (mip (sync val h)) n = bit (mip h) n"
  unfolding sync_def Let_def by (auto simp: bit_backdoor bit_or_iff bit_MIP)

end
