(* ===== verification/Clint.thy ===== *)
theory Clint
  imports Hart_Interrupts
begin

text \<open>
  The core-local interruptor (\<^verbatim>\<open>riscv/clint.cc\<close>, class \<open>clint_t\<close>): software-interrupt bits, a timer and one compare register
  per hart, behind a byte-addressed register file. The wall clock that \<open>gettimeofday\<close> reads is an argument of every
  operation. An access ends with a value, is refused, or trips the width assertion of the register access.
\<close>

section \<open>State\<close>

record clint_t =
  freq_hz :: uint64_t
  real_time :: bool
  real_time_ref_secs :: uint64_t
  real_time_ref_usecs :: uint64_t
  mtime :: uint64_t
  mtimecmp :: "reg_t \<Rightarrow> uint64_t"
  harts :: "(reg_t \<times> hart) list"

type_synonym timeval = "uint64_t \<times> uint64_t"

datatype 'a access = Done 'a | Refused | Assertion_Failed

definition CLINT_SIZE :: reg_t where "CLINT_SIZE = 0x000c0000"
definition MSIP_BASE :: reg_t where "MSIP_BASE = 0x0"
definition MTIMECMP_BASE :: reg_t where "MTIMECMP_BASE = 0x4000"
definition MTIME_BASE :: reg_t where "MTIME_BASE = 0xbff8"

lemmas clint_consts = CLINT_SIZE_def MSIP_BASE_def MTIMECMP_BASE_def MTIME_BASE_def

section \<open>Operations\<close>

definition tick :: "timeval \<Rightarrow> reg_t \<Rightarrow> clint_t \<Rightarrow> clint_t" where
  "tick now rtc_ticks c =
     (let c = (if real_time c then
                 let diff_usecs = (fst now - real_time_ref_secs c) * 1000000 + (snd now - real_time_ref_usecs c)
                 in c\<lparr>mtime := diff_usecs * freq_hz c div 1000000\<rparr>
               else c\<lparr>mtime := mtime c + rtc_ticks\<rparr>)
      in c\<lparr>harts := map (\<lambda>(hart_id, h).
             (hart_id, backdoor_write_with_mask MIP_MTIP (if mtimecmp c hart_id \<le> mtime c then MIP_MTIP else 0) (sync (mtime c) h)))
           (harts c)\<rparr>)"

definition new_clint :: "timeval \<Rightarrow> uint64_t \<Rightarrow> bool \<Rightarrow> (reg_t \<times> hart) list \<Rightarrow> clint_t" where
  "new_clint now freq rt hs =
     tick now 0 \<lparr>freq_hz = freq, real_time = rt, real_time_ref_secs = fst now, real_time_ref_usecs = snd now,
                  mtime = 0, mtimecmp = (\<lambda>_. 0), harts = hs\<rparr>"

definition read_reg :: "'a::len word \<Rightarrow> reg_t \<Rightarrow> nat \<Rightarrow> uint8_t list access" where
  "read_reg word addr len = (case read_little_endian_reg word addr len of None \<Rightarrow> Assertion_Failed | Some bytes \<Rightarrow> Done bytes)"

definition load_part :: "timeval \<Rightarrow> clint_t \<Rightarrow> reg_t \<Rightarrow> nat \<Rightarrow> uint8_t list access \<times> clint_t" where
  "load_part now c addr len =
     (let c = tick now 0 c
      in if addr < MTIMECMP_BASE then
           let hart_id = (addr - MSIP_BASE) div 4;
               res = (case map_of (harts c) hart_id of None \<Rightarrow> 0 | Some h \<Rightarrow> of_bool (mip h AND MIP_MSIP \<noteq> 0)) :: uint32_t
           in (read_reg res addr len, c)
         else if MTIMECMP_BASE \<le> addr \<and> addr < MTIME_BASE then
           let hart_id = (addr - MTIMECMP_BASE) div 8;
               res = (if map_of (harts c) hart_id \<noteq> None then mtimecmp c hart_id else 0)
           in (read_reg res addr len, c)
         else if MTIME_BASE \<le> addr \<and> addr < MTIME_BASE + 8 then (read_reg (mtime c) addr len, c)
         else if addr + of_nat len \<le> CLINT_SIZE then (Done (replicate len 0), c)
         else (Refused, c))"

definition clint_load :: "timeval \<Rightarrow> clint_t \<Rightarrow> reg_t \<Rightarrow> nat \<Rightarrow> uint8_t list access \<times> clint_t" where
  "clint_load now c addr len =
     (if 8 < len then (Refused, c)
      else if addr < MTIMECMP_BASE \<and> len = 8 then
        (case load_part now (tick now 0 c) addr 4 of
           (Done lo, c) \<Rightarrow>
             (case load_part now c (addr + 4) 4 of
                (Done hi, c) \<Rightarrow> (Done (lo @ hi), c)
              | r \<Rightarrow> r)
         | r \<Rightarrow> r)
      else load_part now c addr len)"

definition store_part :: "timeval \<Rightarrow> clint_t \<Rightarrow> reg_t \<Rightarrow> uint8_t list \<Rightarrow> unit access \<times> clint_t" where
  "store_part now c addr bytes =
     (if addr < MTIMECMP_BASE then
        if addr mod 4 = 0 then
          (case write_little_endian_reg (0 :: uint32_t) addr bytes of
             None \<Rightarrow> (Assertion_Failed, c)
           | Some msip \<Rightarrow>
               let hart_id = (addr - MSIP_BASE) div 4;
                   hs = map (\<lambda>(i, h). if i = hart_id
                               then (i, backdoor_write_with_mask MIP_MSIP (if msip AND 1 \<noteq> 0 then MIP_MSIP else 0) h) else (i, h)) (harts c)
               in (Done (), tick now 0 (c\<lparr>harts := hs\<rparr>)))
        else (Done (), tick now 0 c)
      else if MTIMECMP_BASE \<le> addr \<and> addr < MTIME_BASE then
        let hart_id = (addr - MTIMECMP_BASE) div 8
        in if map_of (harts c) hart_id \<noteq> None then
             (case write_little_endian_reg (mtimecmp c hart_id) addr bytes of
                None \<Rightarrow> (Assertion_Failed, c)
              | Some val \<Rightarrow> (Done (), tick now 0 (c\<lparr>mtimecmp := (mtimecmp c)(hart_id := val)\<rparr>)))
           else (Done (), tick now 0 c)
      else if MTIME_BASE \<le> addr \<and> addr < MTIME_BASE + 8 then
        (case write_little_endian_reg (mtime c) addr bytes of
           None \<Rightarrow> (Assertion_Failed, c)
         | Some val \<Rightarrow> (Done (), tick now 0 (c\<lparr>mtime := val\<rparr>)))
      else if addr + of_nat (length bytes) \<le> CLINT_SIZE then (Done (), tick now 0 c)
      else (Refused, c))"

definition clint_store :: "timeval \<Rightarrow> clint_t \<Rightarrow> reg_t \<Rightarrow> uint8_t list \<Rightarrow> unit access \<times> clint_t" where
  "clint_store now c addr bytes =
     (if 8 < length bytes then (Refused, c)
      else if addr < MTIMECMP_BASE \<and> length bytes = 8 then
        (case store_part now c addr (take 4 bytes) of
           (Done _, c) \<Rightarrow> store_part now c (addr + 4) (drop 4 bytes)
         | r \<Rightarrow> r)
      else store_part now c addr bytes)"

section \<open>Checkpoints\<close>

record clint_json =
  j_freq_hz :: uint64_t
  j_real_time :: bool
  j_real_time_ref_secs :: uint64_t
  j_real_time_ref_usecs :: uint64_t
  j_mtime :: uint64_t
  j_mtimecmp :: uint64_t

definition clint_checkpoint :: "clint_t \<Rightarrow> clint_json" where
  "clint_checkpoint c =
     \<lparr>j_freq_hz = freq_hz c, j_real_time = real_time c, j_real_time_ref_secs = real_time_ref_secs c,
      j_real_time_ref_usecs = real_time_ref_usecs c, j_mtime = mtime c, j_mtimecmp = mtimecmp c 0\<rparr>"

definition clint_checkpoint_restore :: "clint_json \<Rightarrow> clint_t \<Rightarrow> clint_t" where
  "clint_checkpoint_restore j c =
     c\<lparr>freq_hz := j_freq_hz j, real_time := j_real_time j, real_time_ref_secs := j_real_time_ref_secs j,
       real_time_ref_usecs := j_real_time_ref_usecs j, mtime := j_mtime j, mtimecmp := (mtimecmp c)(0 := j_mtimecmp j)\<rparr>"

text \<open>A checkpoint keeps the timer and the compare register of hart 0 but loses those of the other harts.\<close>

lemma clint_checkpoint_hart0:
  "mtime (clint_checkpoint_restore (clint_checkpoint c) d) = mtime c \<and>
   mtimecmp (clint_checkpoint_restore (clint_checkpoint c) d) 0 = mtimecmp c 0"
  by (simp add: clint_checkpoint_restore_def clint_checkpoint_def)

lemma clint_checkpoint_loses_harts:
  "i \<noteq> 0 \<Longrightarrow> mtimecmp (clint_checkpoint_restore (clint_checkpoint c) d) i = mtimecmp d i"
  by (simp add: clint_checkpoint_restore_def)

section \<open>The timer interrupt follows the timer\<close>

text \<open>
  Histories of the interruptor. Besides register accesses, ticks and restored checkpoints, the harts themselves change their state between the steps; only the interruptor
  writes the timer bit and the shadow of the timer. The flag says whether a tick or a completed access has come since the last restored checkpoint, which
  changes the timer without updating the harts.
\<close>

definition same_timer :: "reg_t \<times> hart \<Rightarrow> reg_t \<times> hart \<Rightarrow> bool" where
  "same_timer p q \<longleftrightarrow> fst p = fst q \<and> bit (mip (snd p)) 7 = bit (mip (snd q)) 7 \<and> shadow_val (snd p) = shadow_val (snd q)"

inductive clint_reachable :: "bool \<Rightarrow> clint_t \<Rightarrow> bool" where
  new: "clint_reachable True (new_clint now freq rt hs)"
| tick: "clint_reachable u c \<Longrightarrow> clint_reachable True (tick now n c)"
| load: "clint_reachable u c \<Longrightarrow> clint_load now c addr len = (Done bytes, c') \<Longrightarrow> clint_reachable True c'"
| load_failed: "clint_reachable u c \<Longrightarrow> clint_reachable u (snd (clint_load now c addr len))"
| store: "clint_reachable u c \<Longrightarrow> clint_store now c addr bytes = (Done (), c') \<Longrightarrow> clint_reachable True c'"
| store_failed: "clint_reachable u c \<Longrightarrow> clint_reachable u (snd (clint_store now c addr bytes))"
| harts: "clint_reachable u c \<Longrightarrow> list_all2 same_timer (harts c) hs \<Longrightarrow> clint_reachable u (c\<lparr>harts := hs\<rparr>)"
| restore: "clint_reachable u c \<Longrightarrow> clint_reachable False (clint_checkpoint_restore j c)"

definition timer_synced :: "clint_t \<Rightarrow> bool" where
  "timer_synced c \<longleftrightarrow> (\<forall>(i, h) \<in> set (harts c). (bit (mip h) 7 \<longleftrightarrow> mtimecmp c i \<le> mtime c) \<and> shadow_val h = mtime c)"

lemma backdoor_shadow [simp]: "shadow_val (backdoor_write_with_mask msk val h) = shadow_val h"
  by (simp add: backdoor_write_with_mask_def)

lemma tick_synced: "timer_synced (tick now n c)"
  by (auto simp: timer_synced_def tick_def Let_def bit_backdoor bit_MIP split: if_splits)

lemma load_part_synced: "timer_synced (snd (load_part now c addr len))"
  using tick_synced [of now 0 c] by (simp add: load_part_def Let_def)

lemma load_part_result: "load_part now c addr len = (r, c') \<Longrightarrow> timer_synced c'"
  using load_part_synced [of now c addr len] by simp

lemma clint_load_synced: "timer_synced c \<Longrightarrow> timer_synced (snd (clint_load now c addr len))"
  unfolding clint_load_def
  by (auto split: access.split prod.split simp: load_part_synced intro: load_part_result)

lemma store_part_synced: "timer_synced c \<Longrightarrow> timer_synced (snd (store_part now c addr bytes))"
  unfolding store_part_def Let_def using tick_synced by (auto split: option.split)

lemma store_part_result: "store_part now c addr bytes = (r, c') \<Longrightarrow> timer_synced c \<Longrightarrow> timer_synced c'"
  using store_part_synced [of c now addr bytes] by simp

lemma clint_store_synced: "timer_synced c \<Longrightarrow> timer_synced (snd (clint_store now c addr bytes))"
  unfolding clint_store_def
  by (auto split: access.split prod.split intro: store_part_synced store_part_result)

lemma load_done_synced: "clint_load now c addr len = (Done bytes, c') \<Longrightarrow> timer_synced c'"
  unfolding clint_load_def by (auto split: access.splits prod.splits if_splits intro: load_part_result)

lemma store_part_done_synced: "store_part now c addr bytes = (Done (), c') \<Longrightarrow> timer_synced c'"
  unfolding store_part_def Let_def by (auto simp: tick_synced split: option.splits if_splits)

lemma store_done_synced: "clint_store now c addr bytes = (Done (), c') \<Longrightarrow> timer_synced c'"
  unfolding clint_store_def by (auto split: access.splits prod.splits if_splits intro: store_part_done_synced)

lemma timer_synced_all: "timer_synced c \<longleftrightarrow> list_all (\<lambda>(i, h). (bit (mip h) 7 \<longleftrightarrow> mtimecmp c i \<le> mtime c) \<and> shadow_val h = mtime c) (harts c)"
  by (simp add: timer_synced_def list_all_iff)

lemma harts_synced:
  assumes "list_all2 same_timer (harts c) hs" "timer_synced c"
  shows "timer_synced (c\<lparr>harts := hs\<rparr>)"
proof -
  have "list_all (\<lambda>(i, h). (bit (mip h) 7 \<longleftrightarrow> mtimecmp c i \<le> mtime c) \<and> shadow_val h = mtime c) hs"
    using assms unfolding timer_synced_all by (induction rule: list_all2_induct) (auto simp: same_timer_def)
  then show ?thesis
    by (simp add: timer_synced_all)
qed

lemma clint_reachable_synced: "clint_reachable u c \<Longrightarrow> u \<Longrightarrow> timer_synced c"
  by (induction rule: clint_reachable.induct)
    (simp_all add: new_clint_def tick_synced clint_load_synced clint_store_synced load_done_synced store_done_synced harts_synced)

section \<open>Registers read back\<close>

lemma tick_frame [simp]:
  "mtimecmp (tick now n c) = mtimecmp c" "map fst (harts (tick now n c)) = map fst (harts c)"
  by (auto simp: tick_def Let_def)

lemma map_of_None_fst: "map fst xs = map fst ys \<Longrightarrow> map_of xs k = None \<longleftrightarrow> map_of ys k = None"
  by (simp add: map_of_eq_None_iff) (metis list.set_map)

lemma tick_map_of: "map_of (harts (tick now n c)) i = None \<longleftrightarrow> map_of (harts c) i = None"
  by (rule map_of_None_fst) simp

lemma mtimecmp_readback:
  assumes h: "map_of (harts c) i \<noteq> None" and i: "unat i < 4095" and bs: "length bs \<le> 8"
  defines "addr \<equiv> MTIMECMP_BASE + 8 * i"
  shows "fst (clint_load now' (snd (clint_store now c addr bs)) addr (length bs)) = Done bs"
    and "fst (clint_store now c addr bs) = Done ()"
proof -
  have u8: "unat (8 * i) = 8 * unat i" using i by (subst unat_mult_nowrap) simp_all
  have ua: "unat addr = 0x4000 + 8 * unat i" unfolding addr_def MTIMECMP_BASE_def using i u8 by (subst unat_add_nowrap) simp_all
  have r: "\<not> addr < MTIMECMP_BASE" "MTIMECMP_BASE \<le> addr \<and> addr < MTIME_BASE"
    using ua i by (auto simp: word_less_nat_alt word_le_nat_alt clint_consts)
  have "unat ((addr - MTIMECMP_BASE) div 8) = unat i" using u8 by (simp add: addr_def unat_div)
  then have hid: "(addr - MTIMECMP_BASE) div 8 = i" by (simp add: word_unat_eq_iff)
  obtain v where w: "write_little_endian_reg (mtimecmp c i) addr bs = Some v" and rd: "read_little_endian_reg v addr (length bs) = Some bs"
    using little_endian_roundtrip [of bs "mtimecmp c i" addr] bs by auto
  let ?c = "tick now 0 (c\<lparr>mtimecmp := (mtimecmp c)(i := v)\<rparr>)"
  have st: "clint_store now c addr bs = (Done (), ?c)"
    using r bs h w unfolding clint_store_def store_part_def Let_def hid by simp
  then show "fst (clint_store now c addr bs) = Done ()" by simp
  have "map_of (harts (tick now' 0 ?c)) i \<noteq> None" using h by (simp add: tick_map_of)
  then show "fst (clint_load now' (snd (clint_store now c addr bs)) addr (length bs)) = Done bs"
    using r bs rd unfolding st clint_load_def load_part_def Let_def hid snd_conv by (simp add: read_reg_def)
qed

section \<open>Properties\<close>

definition example_harts :: "(reg_t \<times> hart) list" where
  "example_harts = [(0, \<lparr>mip = 0, shadow_val = 0, ext_sstc = True, stimecmp = 0, vstimecmp = 0, htimedelta = 0,
     menvcfg = 0, henvcfg = 0\<rparr>)]"

text \<open>Right after a checkpoint is restored the interrupt may lag behind the timer.\<close>

lemma clint_restore_leaves_interrupt:
  "let c = tick (0, 0) 5 (snd (clint_store (0, 0) (new_clint (0, 0) 1000000 False example_harts) 0x4000 [6, 0, 0, 0, 0, 0, 0, 0]));
       d = clint_checkpoint_restore ((clint_checkpoint c)\<lparr>j_mtime := 7\<rparr>) c
   in mtimecmp d 0 \<le> mtime d \<and> (\<forall>(i, h) \<in> set (harts d). \<not> bit (mip h) 7)"
  by code_simp

text \<open>C35. After any history of register loads and stores of any width, ticks, changes of the wall clock, restored checkpoints and changes that the harts make to their own
  state that keep the timer bit (everything but a reset), each hart has its timer interrupt pending exactly when the timer has reached the hart's compare register, and its time counter shows the timer, provided
  that a tick or a completed access has come since the last restored checkpoint.\<close>

theorem clint_timer_interrupt:
  assumes "clint_reachable True c" and "(i, h) \<in> set (harts c)"
  shows "(bit (mip h) 7 \<longleftrightarrow> mtimecmp c i \<le> mtime c) \<and> shadow_val h = mtime c"
  using clint_reachable_synced [OF assms(1)] assms(2) by (auto simp: timer_synced_def)

theorem clint_timer_interrupt_witness:
  "let c = tick (0, 0) 5 (snd (clint_store (0, 0) (new_clint (0, 0) 1000000 False example_harts) 0x4000 [6, 0, 0, 0, 0, 0, 0, 0]))
   in mtime c = 5 \<and> mtimecmp c 0 = 6 \<and> (\<forall>(i, h) \<in> set (harts c). \<not> bit (mip h) 7 \<and> shadow_val h = 5)"
proof -
  let ?c = "tick (0, 0) 5 (snd (clint_store (0, 0) (new_clint (0, 0) 1000000 False example_harts) 0x4000 [6, 0, 0, 0, 0, 0, 0, 0]))"
  obtain c where c: "c = ?c" by simp
  have r: "clint_reachable True c" unfolding c by (rule clint_reachable.tick [OF clint_reachable.store_failed [OF clint_reachable.new]])
  have m: "mtime c = 5" "mtimecmp c 0 = 6" "map fst (harts c) = [0]"
    unfolding c by (simp_all add: clint_store_def store_part_def new_clint_def write_little_endian_reg_def clint_consts example_harts_def tick_def Let_def)
  have "\<not> bit (mip h) 7 \<and> shadow_val h = 5" if "(i, h) \<in> set (harts c)" for i h
  proof -
    have "i \<in> set (map fst (harts c))" using that by force
    then have "i = 0" unfolding m(3) by simp
    then show ?thesis using clint_timer_interrupt [OF r that] m by simp
  qed
  with m show ?thesis unfolding Let_def c [symmetric] by auto
qed

end
