(* ===== verification/Plic.thy ===== *)
theory Plic
  imports Hart_Interrupts
begin

text \<open>
  The platform-level interrupt controller (\<^verbatim>\<open>riscv/plic.cc\<close>, class \<open>plic_t\<close>): interrupt sources with levels and priorities, and contexts, one
  per hart and privilege mode, with enable, pending and claimed bits. A C array of the class is the function from indices
  to cells; a pointer to a context is its index. The registers of the harts are part of the state, since every change of a context
  is followed by an update of the hart's external-interrupt bit.
\<close>

section \<open>State\<close>

record plic_context_t =
  proc :: nat
  mmode :: bool
  priority_threshold :: uint8_t
  enable :: "nat \<Rightarrow> uint32_t"
  pending :: "nat \<Rightarrow> uint32_t"
  pending_priority :: "nat \<Rightarrow> uint8_t"
  claimed :: "nat \<Rightarrow> uint32_t"

record plic_t =
  contexts :: "plic_context_t list"
  num_ids :: nat
  num_ids_word :: nat
  max_prio :: uint32_t
  priority :: "nat \<Rightarrow> uint8_t"
  level :: "nat \<Rightarrow> uint32_t"
  procs :: "hart list"

definition PLIC_MAX_DEVICES :: nat where "PLIC_MAX_DEVICES = 1024"
definition PLIC_PRIO_BITS :: nat where "PLIC_PRIO_BITS = 4"
definition PENDING_BASE :: reg_t where "PENDING_BASE = 0x1000"
definition ENABLE_BASE :: reg_t where "ENABLE_BASE = 0x2000"
definition ENABLE_PER_HART :: reg_t where "ENABLE_PER_HART = 0x80"
definition CONTEXT_BASE :: reg_t where "CONTEXT_BASE = 0x200000"
definition CONTEXT_PER_HART :: reg_t where "CONTEXT_PER_HART = 0x1000"
definition CONTEXT_THRESHOLD :: reg_t where "CONTEXT_THRESHOLD = 0"
definition CONTEXT_CLAIM :: reg_t where "CONTEXT_CLAIM = 4"
definition REG_SIZE :: reg_t where "REG_SIZE = 0x1000000"

lemmas plic_consts = PENDING_BASE_def ENABLE_BASE_def ENABLE_PER_HART_def CONTEXT_BASE_def CONTEXT_PER_HART_def
  CONTEXT_THRESHOLD_def CONTEXT_CLAIM_def REG_SIZE_def PLIC_PRIO_BITS_def PLIC_MAX_DEVICES_def

definition new_context :: "nat \<Rightarrow> bool \<Rightarrow> plic_context_t" where
  "new_context p m = \<lparr>proc = p, mmode = m, priority_threshold = 0, enable = (\<lambda>_. 0), pending = (\<lambda>_. 0),
     pending_priority = (\<lambda>_. 0), claimed = (\<lambda>_. 0)\<rparr>"

text \<open>The constructor, given for each hart whether it has supervisor mode.\<close>

definition new_plic :: "bool list \<Rightarrow> hart list \<Rightarrow> nat \<Rightarrow> plic_t" where
  "new_plic ext_S hs ndev =
     \<lparr>contexts = concat (map (\<lambda>i. new_context i True # (if ext_S ! i then [new_context i False] else [])) [0..<length ext_S]),
      num_ids = ndev + 1, num_ids_word = ((ndev + 1) + (32 - 1)) div 32, max_prio = push_bit PLIC_PRIO_BITS 1 - 1,
      priority = (\<lambda>_. 0), level = (\<lambda>_. 0), procs = hs\<rparr>"

section \<open>Selecting an interrupt\<close>

definition best_step :: "plic_t \<Rightarrow> plic_context_t \<Rightarrow> nat \<Rightarrow> nat \<times> uint8_t \<Rightarrow> nat \<Rightarrow> nat \<times> uint8_t" where
  "best_step p c i best j =
     (let (best_id, best_id_prio) = best; id = i * 32 + j
      in if num_ids p \<le> id \<or> pending c i AND push_bit j 1 = 0 \<or> claimed c i AND push_bit j 1 \<noteq> 0 then best
         else if best_id = 0 \<or> best_id_prio < pending_priority c id then (id, pending_priority c id)
         else best)"

definition best_word :: "plic_t \<Rightarrow> plic_context_t \<Rightarrow> nat \<times> uint8_t \<Rightarrow> nat \<Rightarrow> nat \<times> uint8_t" where
  "best_word p c best i = (if pending c i = 0 then best else foldl (best_step p c i) best [0..<32])"

definition context_best_pending :: "plic_t \<Rightarrow> plic_context_t \<Rightarrow> nat" where
  "context_best_pending p c =
     (let (best_id, best_id_prio) = foldl (best_word p c) (0, 0) [0..<num_ids_word p]
      in if best_id_prio \<le> priority_threshold c then 0 else best_id)"

definition context_update :: "nat \<Rightarrow> plic_t \<Rightarrow> plic_t" where
  "context_update k p =
     (let c = contexts p ! k;
          best_id = context_best_pending p c;
          msk = (if mmode c then MIP_MEIP else MIP_SEIP)
      in p\<lparr>procs := (procs p)[proc c := backdoor_write_with_mask msk (if best_id \<noteq> 0 then msk else 0) (procs p ! proc c)]\<rparr>)"

definition context_claim :: "nat \<Rightarrow> plic_t \<Rightarrow> nat \<times> plic_t" where
  "context_claim k p =
     (let c = contexts p ! k;
          best_id = context_best_pending p c;
          best_id_word = best_id div 32;
          best_id_mask = push_bit (best_id mod 32) 1;
          p = (if best_id \<noteq> 0
               then p\<lparr>contexts := (contexts p)[k := c\<lparr>claimed := (claimed c)(best_id_word := claimed c best_id_word OR best_id_mask)\<rparr>]\<rparr>
               else p)
      in (best_id, context_update k p))"

section \<open>Registers\<close>

definition priority_read :: "plic_t \<Rightarrow> reg_t \<Rightarrow> uint32_t" where
  "priority_read p offset =
     (let id = unat (ucast (drop_bit 2 offset) :: uint32_t)
      in if 0 < id \<and> id < num_ids p then ucast (priority p id) else 0)"

definition priority_write :: "reg_t \<Rightarrow> uint32_t \<Rightarrow> plic_t \<Rightarrow> plic_t" where
  "priority_write offset val p =
     (let id = unat (ucast (drop_bit 2 offset) :: uint32_t)
      in if 0 < id \<and> id < num_ids p
         then let val = val AND (push_bit PLIC_PRIO_BITS 1 - 1) in p\<lparr>priority := (priority p)(id := ucast val)\<rparr>
         else p)"

definition pending_read :: "plic_t \<Rightarrow> reg_t \<Rightarrow> uint32_t" where
  "pending_read p offset =
     (let id_word = unat (ucast (drop_bit 2 offset) :: uint32_t)
      in if id_word < num_ids_word p then foldl (\<lambda>val c. val OR pending c id_word) 0 (contexts p) else 0)"

definition context_enable_read :: "plic_t \<Rightarrow> nat \<Rightarrow> reg_t \<Rightarrow> uint32_t" where
  "context_enable_read p k offset =
     (let id_word = unat (ucast (drop_bit 2 offset) :: uint32_t)
      in if id_word < num_ids_word p then enable (contexts p ! k) id_word else 0)"

definition enable_step :: "plic_t \<Rightarrow> nat \<Rightarrow> uint32_t \<Rightarrow> uint32_t \<Rightarrow> plic_context_t \<Rightarrow> nat \<Rightarrow> plic_context_t" where
  "enable_step p id_word xor_val new_val c i =
     (let id = id_word * 32 + i;
          id_mask = push_bit i 1;
          id_prio = priority p id
      in if xor_val AND id_mask = 0 then c
         else if new_val AND id_mask \<noteq> 0 \<and> level p id_word AND id_mask \<noteq> 0 then
           c\<lparr>pending := (pending c)(id_word := pending c id_word OR id_mask), pending_priority := (pending_priority c)(id := id_prio)\<rparr>
         else if new_val AND id_mask = 0 then
           c\<lparr>pending := (pending c)(id_word := pending c id_word AND NOT id_mask), pending_priority := (pending_priority c)(id := 0),
             claimed := (claimed c)(id_word := claimed c id_word AND NOT id_mask)\<rparr>
         else c)"

definition context_enable_write :: "nat \<Rightarrow> reg_t \<Rightarrow> uint32_t \<Rightarrow> plic_t \<Rightarrow> plic_t" where
  "context_enable_write k offset val p =
     (let id_word = unat (ucast (drop_bit 2 offset) :: uint32_t)
      in if num_ids_word p \<le> id_word then p
         else
           let c = contexts p ! k;
               old_val = enable c id_word;
               new_val = (if id_word = 0 then val AND NOT 1 else val);
               xor_val = old_val XOR new_val;
               c = c\<lparr>enable := (enable c)(id_word := new_val)\<rparr>;
               c = foldl (enable_step p id_word xor_val new_val) c [0..<32]
           in context_update k (p\<lparr>contexts := (contexts p)[k := c]\<rparr>))"

definition context_read :: "nat \<Rightarrow> reg_t \<Rightarrow> plic_t \<Rightarrow> uint32_t \<times> plic_t" where
  "context_read k offset p =
     (if offset = CONTEXT_THRESHOLD then (ucast (priority_threshold (contexts p ! k)), p)
      else if offset = CONTEXT_CLAIM then (case context_claim k p of (val, p) \<Rightarrow> (of_nat val, p))
      else (0, p))"

definition context_write :: "nat \<Rightarrow> reg_t \<Rightarrow> uint32_t \<Rightarrow> plic_t \<Rightarrow> bool \<times> plic_t" where
  "context_write k offset val p =
     (let c = contexts p ! k
      in if offset = CONTEXT_THRESHOLD then
           let val = val AND (push_bit PLIC_PRIO_BITS 1 - 1)
           in if val \<le> max_prio p
              then (True, context_update k (p\<lparr>contexts := (contexts p)[k := c\<lparr>priority_threshold := ucast val\<rparr>]\<rparr>))
              else (False, p)
         else if offset = CONTEXT_CLAIM then
           let id_word = unat val div 32;
               id_mask = push_bit (unat val mod 32) 1
           in if unat val < num_ids p \<and> enable c id_word AND id_mask \<noteq> 0
              then (True, context_update k (p\<lparr>contexts := (contexts p)[k := c\<lparr>claimed := (claimed c)(id_word := claimed c id_word AND NOT id_mask)\<rparr>]\<rparr>))
              else (True, p)
         else (False, p))"

section \<open>Interrupt lines\<close>

definition level_context :: "uint32_t \<Rightarrow> nat \<Rightarrow> bool \<Rightarrow> uint8_t \<Rightarrow> plic_context_t \<Rightarrow> plic_context_t" where
  "level_context id_mask irq lvl id_prio c =
     (let id_word = irq div 32
      in if lvl then
           c\<lparr>pending := (pending c)(id_word := pending c id_word OR id_mask), pending_priority := (pending_priority c)(irq := id_prio)\<rparr>
         else
           c\<lparr>pending := (pending c)(id_word := pending c id_word AND NOT id_mask), pending_priority := (pending_priority c)(irq := 0),
             claimed := (claimed c)(id_word := claimed c id_word AND NOT id_mask)\<rparr>)"

definition set_interrupt_level :: "nat \<Rightarrow> bool \<Rightarrow> plic_t \<Rightarrow> plic_t" where
  "set_interrupt_level irq lvl p =
     (if irq = 0 \<or> num_ids p \<le> irq then p
      else
        let id_prio = priority p irq;
            id_word = irq div 32;
            id_mask = push_bit (irq mod 32) 1;
            p = p\<lparr>level := (level p)(id_word := if lvl then level p id_word OR id_mask else level p id_word AND NOT id_mask)\<rparr>
        in case find (\<lambda>k. enable (contexts p ! k) id_word AND id_mask \<noteq> 0) [0..<length (contexts p)] of
             None \<Rightarrow> p
           | Some k \<Rightarrow> context_update k (p\<lparr>contexts := (contexts p)[k := level_context id_mask irq lvl id_prio (contexts p ! k)]\<rparr>))"

section \<open>Memory-mapped accesses\<close>

definition plic_load_word :: "plic_t \<Rightarrow> reg_t \<Rightarrow> uint8_t list option \<times> plic_t" where
  "plic_load_word p addr =
     (if addr < PENDING_BASE then (read_little_endian_reg (priority_read p addr) addr 4, p)
      else if PENDING_BASE \<le> addr \<and> addr < ENABLE_BASE then
        (read_little_endian_reg (pending_read p (addr - PENDING_BASE)) addr 4, p)
      else if ENABLE_BASE \<le> addr \<and> addr < CONTEXT_BASE then
        let cntx = (addr - ENABLE_BASE) div ENABLE_PER_HART;
            addr = addr - (cntx * ENABLE_PER_HART + ENABLE_BASE)
        in if unat cntx < length (contexts p)
           then (read_little_endian_reg (context_enable_read p (unat cntx) addr) addr 4, p)
           else (None, p)
      else if CONTEXT_BASE \<le> addr \<and> addr < REG_SIZE then
        let cntx = (addr - CONTEXT_BASE) div CONTEXT_PER_HART;
            addr = addr - (cntx * CONTEXT_PER_HART + CONTEXT_BASE)
        in if unat cntx < length (contexts p)
           then (case context_read (unat cntx) addr p of (val, p) \<Rightarrow> (read_little_endian_reg val addr 4, p))
           else (None, p)
      else (None, p))"

definition plic_load :: "plic_t \<Rightarrow> reg_t \<Rightarrow> nat \<Rightarrow> uint8_t list option \<times> plic_t" where
  "plic_load p addr len =
     (if len = 4 then plic_load_word p addr
      else if len = 8 then
        (case plic_load_word p addr of
           (None, p) \<Rightarrow> (None, p)
         | (Some lo, p) \<Rightarrow> (case plic_load_word p (addr + 4) of (hi, p) \<Rightarrow> (map_option (\<lambda>hi. lo @ hi) hi, p)))
      else (None, p))"

definition plic_store_word :: "plic_t \<Rightarrow> reg_t \<Rightarrow> uint8_t list \<Rightarrow> bool \<times> plic_t" where
  "plic_store_word p addr bytes =
     (let val = the (write_little_endian_reg (0 :: uint32_t) addr bytes)
      in if addr < ENABLE_BASE then (True, priority_write addr val p)
         else if ENABLE_BASE \<le> addr \<and> addr < CONTEXT_BASE then
           let cntx = (addr - ENABLE_BASE) div ENABLE_PER_HART;
               addr = addr - (cntx * ENABLE_PER_HART + ENABLE_BASE)
           in if unat cntx < length (contexts p) then (True, context_enable_write (unat cntx) addr val p) else (False, p)
         else if CONTEXT_BASE \<le> addr \<and> addr < REG_SIZE then
           let cntx = (addr - CONTEXT_BASE) div CONTEXT_PER_HART;
               addr = addr - (cntx * CONTEXT_PER_HART + CONTEXT_BASE)
           in if unat cntx < length (contexts p) then context_write (unat cntx) addr val p else (False, p)
         else (False, p))"

definition plic_store :: "plic_t \<Rightarrow> reg_t \<Rightarrow> uint8_t list \<Rightarrow> bool \<times> plic_t" where
  "plic_store p addr bytes =
     (if length bytes = 4 then plic_store_word p addr bytes
      else if length bytes = 8 then
        (case plic_store_word p addr (take 4 bytes) of
           (False, p) \<Rightarrow> (False, p)
         | (True, p) \<Rightarrow> plic_store_word p (addr + 4) (drop 4 bytes))
      else (False, p))"

section \<open>Checkpoints\<close>

record context_json =
  j_mmode :: bool
  j_priority_threshold :: uint8_t
  j_enable :: "uint32_t list"
  j_pending :: "uint32_t list"
  j_pending_priority :: "uint8_t list"
  j_claimed :: "uint32_t list"

record plic_json =
  j_contexts :: "context_json list"
  j_num_ids :: nat
  j_num_ids_word :: nat
  j_max_prio :: uint32_t
  j_priority :: "uint8_t list"
  j_level :: "uint32_t list"

definition vec :: "(nat \<Rightarrow> 'a) \<Rightarrow> nat \<Rightarrow> 'a list" where
  "vec a n = map a [0..<n]"

definition copy_to :: "'a list \<Rightarrow> (nat \<Rightarrow> 'a) \<Rightarrow> nat \<Rightarrow> 'a" where
  "copy_to v a = (\<lambda>i. if i < length v then v ! i else a i)"

definition context_checkpoint :: "plic_context_t \<Rightarrow> context_json" where
  "context_checkpoint c =
     \<lparr>j_mmode = mmode c, j_priority_threshold = priority_threshold c, j_enable = vec (enable c) (PLIC_MAX_DEVICES div 32),
      j_pending = vec (pending c) (PLIC_MAX_DEVICES div 32), j_pending_priority = vec (pending_priority c) PLIC_MAX_DEVICES,
      j_claimed = vec (claimed c) (PLIC_MAX_DEVICES div 32)\<rparr>"

definition context_checkpoint_restore :: "context_json \<Rightarrow> plic_context_t \<Rightarrow> plic_context_t" where
  "context_checkpoint_restore j c =
     c\<lparr>mmode := j_mmode j, priority_threshold := j_priority_threshold j, enable := copy_to (j_enable j) (enable c),
       pending := copy_to (j_pending j) (pending c), pending_priority := copy_to (j_pending_priority j) (pending_priority c),
       claimed := copy_to (j_claimed j) (claimed c)\<rparr>"

definition plic_checkpoint :: "plic_t \<Rightarrow> plic_json" where
  "plic_checkpoint p =
     \<lparr>j_contexts = map context_checkpoint (contexts p), j_num_ids = num_ids p, j_num_ids_word = num_ids_word p,
      j_max_prio = max_prio p, j_priority = vec (priority p) PLIC_MAX_DEVICES, j_level = vec (level p) (PLIC_MAX_DEVICES div 32)\<rparr>"

definition plic_checkpoint_restore :: "plic_json \<Rightarrow> plic_t \<Rightarrow> plic_t" where
  "plic_checkpoint_restore j p =
     p\<lparr>contexts := map (\<lambda>i. context_checkpoint_restore (j_contexts j ! i) (contexts p ! i)) [0..<length (contexts p)],
       num_ids := j_num_ids j, num_ids_word := j_num_ids_word j, max_prio := j_max_prio j,
       priority := copy_to (j_priority j) (priority p), level := copy_to (j_level j) (level p)\<rparr>"

section \<open>The selected interrupt\<close>

definition candidate :: "plic_t \<Rightarrow> plic_context_t \<Rightarrow> nat \<Rightarrow> bool" where
  "candidate p c irq \<longleftrightarrow> irq < num_ids p \<and> bit (pending c (irq div 32)) (irq mod 32) \<and> \<not> bit (claimed c (irq div 32)) (irq mod 32)"

lemma and_mask_bit: "w AND push_bit j 1 = 0 \<longleftrightarrow> \<not> bit w j" for w :: "'a::len word"
  by (simp add: and_exp_eq_0_iff_not_bit push_bit_eq_mult)

definition flat_step :: "plic_t \<Rightarrow> plic_context_t \<Rightarrow> nat \<times> uint8_t \<Rightarrow> nat \<Rightarrow> nat \<times> uint8_t" where
  "flat_step p c best irq =
     (if candidate p c irq \<and> (fst best = 0 \<or> snd best < pending_priority c irq) then (irq, pending_priority c irq) else best)"

lemma best_step_flat: "j < 32 \<Longrightarrow> best_step p c i best j = flat_step p c best (i * 32 + j)"
proof -
  assume j: "j < 32"
  then have e: "(i * 32 + j) div 32 = i" "(i * 32 + j) mod 32 = j" by simp_all
  show ?thesis unfolding best_step_def flat_step_def candidate_def and_mask_bit e Let_def by (cases best) auto
qed

lemma foldl_flat: "foldl (flat_step p c) best (map (\<lambda>j. i * 32 + j) [0..<n]) = foldl (best_step p c i) best [0..<n]" if "n \<le> 32"
  using that by (induction n) (simp_all add: best_step_flat)

lemma flat_skip:
  assumes "\<And>irq. irq \<in> set is \<Longrightarrow> \<not> candidate p c irq"
  shows "foldl (flat_step p c) best is = best"
  using assms by (induction "is" arbitrary: best) (simp_all add: flat_step_def)

lemma best_word_flat: "best_word p c best i = foldl (flat_step p c) best [i * 32 ..< i * 32 + 32]"
proof -
  have m: "[i * 32 ..< i * 32 + 32] = map (\<lambda>j. i * 32 + j) [0..<32]" using map_add_upt [of "i * 32" 32] by (simp add: add.commute)
  show ?thesis
  proof (cases "pending c i = 0")
    case True
    then have "\<not> candidate p c irq" if "irq \<in> set [i * 32 ..< i * 32 + 32]" for irq
    proof -
      have "irq div 32 = i" using that by (auto intro: div_nat_eqI)
      then show ?thesis using True by (simp add: candidate_def)
    qed
    then show ?thesis using True flat_skip [of "[i * 32 ..< i * 32 + 32]" p c best] by (simp add: best_word_def)
  next
    case False
    then show ?thesis unfolding m foldl_flat [OF order_refl] by (simp add: best_word_def)
  qed
qed

lemma foldl_best_word: "foldl (best_word p c) best [0..<n] = foldl (flat_step p c) best [0..<n * 32]"
proof (induction n)
  case (Suc n)
  have "[0..<Suc n * 32] = [0..<n * 32] @ [n * 32 ..< n * 32 + 32]"
    using upt_add_eq_append [of 0 "n * 32" 32] by (simp add: add.commute)
  then show ?case using Suc by (simp add: best_word_flat)
qed simp

definition best_among :: "plic_t \<Rightarrow> plic_context_t \<Rightarrow> nat \<Rightarrow> nat \<times> uint8_t \<Rightarrow> bool" where
  "best_among p c n best \<longleftrightarrow>
     (if fst best = 0 then snd best = 0 \<and> (\<forall>irq<n. \<not> candidate p c irq)
      else candidate p c (fst best) \<and> fst best < n \<and> snd best = pending_priority c (fst best) \<and>
        (\<forall>irq<n. candidate p c irq \<longrightarrow> pending_priority c irq \<le> snd best \<and> (pending_priority c irq = snd best \<longrightarrow> fst best \<le> irq)))"

lemma best_among_step:
  assumes "best_among p c n best" "candidate p c n \<Longrightarrow> n \<noteq> 0"
  shows "best_among p c (Suc n) (flat_step p c best n)"
proof (cases "candidate p c n")
  case False
  then have "flat_step p c best n = best" by (simp add: flat_step_def)
  then show ?thesis using assms(1) False by (auto simp: best_among_def less_Suc_eq split: if_splits)
next
  case cand: True
  show ?thesis
  proof (cases "fst best = 0 \<or> snd best < pending_priority c n")
    case True
    then have "flat_step p c best n = (n, pending_priority c n)" using cand by (simp add: flat_step_def)
    moreover have lt: "pending_priority c irq < pending_priority c n" if "irq < n" "candidate p c irq" for irq
      using True that assms(1) by (auto simp: best_among_def split: if_splits intro: le_less_trans)
    moreover have "pending_priority c irq \<noteq> pending_priority c n" if "irq < n" "candidate p c irq" for irq
      using lt [OF that] by simp
    ultimately show ?thesis using cand assms(2) by (auto simp: best_among_def less_Suc_eq intro: less_imp_le)
  next
    case False
    then have "flat_step p c best n = best" by (simp add: flat_step_def)
    then show ?thesis using assms(1) False by (auto simp: best_among_def less_Suc_eq not_less)
  qed
qed

lemma best_among_flat:
  assumes "\<not> candidate p c 0"
  shows "best_among p c n (foldl (flat_step p c) (0, 0) [0..<n])"
proof (induction n)
  case (Suc n)
  have "n \<noteq> 0" if "candidate p c n" using assms that by (cases n) auto
  then show ?case using best_among_step [OF Suc] by simp
qed (simp add: best_among_def)

text \<open>What the arbitration promises: the interrupt selected is a candidate above the threshold, of the highest priority and,
  among those, of the lowest number; none is selected only if no candidate is above the threshold.\<close>

definition selects :: "plic_t \<Rightarrow> plic_context_t \<Rightarrow> nat \<Rightarrow> bool" where
  "selects p c irq \<longleftrightarrow> candidate p c irq \<and> priority_threshold c < pending_priority c irq \<and>
     (\<forall>i. candidate p c i \<longrightarrow> pending_priority c i \<le> pending_priority c irq \<and> (pending_priority c i = pending_priority c irq \<longrightarrow> irq \<le> i))"

lemma context_best_pending_spec:
  assumes "\<not> candidate p c 0" "num_ids p \<le> num_ids_word p * 32"
  shows "context_best_pending p c = 0 \<longleftrightarrow> (\<forall>irq. candidate p c irq \<longrightarrow> pending_priority c irq \<le> priority_threshold c)" (is ?zero)
    and "context_best_pending p c \<noteq> 0 \<Longrightarrow> selects p c (context_best_pending p c)"
proof -
  obtain b q where bq: "foldl (best_word p c) (0, 0) [0..<num_ids_word p] = (b, q)" by fastforce
  then have best: "best_among p c (num_ids_word p * 32) (b, q)"
    using best_among_flat [OF assms(1)] unfolding foldl_best_word by metis
  have lim: "irq < num_ids_word p * 32" if "candidate p c irq" for irq
    using that assms(2) by (simp add: candidate_def)
  have r: "context_best_pending p c = (if q \<le> priority_threshold c then 0 else b)"
    by (simp add: context_best_pending_def bq)
  show ?zero
  proof (cases "b = 0")
    case True
    then show ?thesis using best lim by (auto simp: best_among_def r)
  next
    case False
    then show ?thesis using best lim by (auto simp: best_among_def r dest: order_trans)
  qed
  show "selects p c (context_best_pending p c)" if "context_best_pending p c \<noteq> 0"
    using that best lim by (auto simp: best_among_def r selects_def split: if_splits)
qed

section \<open>The invariant\<close>

definition ctx_ok :: "plic_context_t \<Rightarrow> bool" where
  "ctx_ok c \<longleftrightarrow> (\<forall>w n. bit (claimed c w) n \<longrightarrow> bit (pending c w) n) \<and> (\<forall>w n. bit (pending c w) n \<longrightarrow> bit (enable c w) n) \<and>
     \<not> bit (enable c 0) 0"

definition ext_bit :: "plic_context_t \<Rightarrow> nat" where
  "ext_bit c = (if mmode c then 11 else 9)"

definition signalled :: "plic_t \<Rightarrow> plic_context_t \<Rightarrow> bool" where
  "signalled p c \<longleftrightarrow> bit (mip (procs p ! proc c)) (ext_bit c)"

definition plic_ok :: "plic_t \<Rightarrow> bool" where
  "plic_ok p \<longleftrightarrow> num_ids p \<le> PLIC_MAX_DEVICES \<and> num_ids p \<le> num_ids_word p * 32 \<and> max_prio p = 15 \<and>
     distinct (map (\<lambda>c. (proc c, mmode c)) (contexts p)) \<and>
     (\<forall>c \<in> set (contexts p). proc c < length (procs p) \<and> ctx_ok c \<and> (signalled p c \<longleftrightarrow> context_best_pending p c \<noteq> 0))"

lemma ctx_ok_no_zero: "ctx_ok c \<Longrightarrow> \<not> candidate p c 0"
  by (auto simp: ctx_ok_def candidate_def)

lemma best_pending_cong:
  "num_ids p' = num_ids p \<Longrightarrow> num_ids_word p' = num_ids_word p \<Longrightarrow> context_best_pending p' = context_best_pending p"
proof -
  assume n: "num_ids p' = num_ids p" "num_ids_word p' = num_ids_word p"
  have "best_step p' = best_step p" by (intro ext) (simp only: best_step_def n)
  then have "best_word p' = best_word p" by (intro ext) (simp only: best_word_def)
  then show "context_best_pending p' = context_best_pending p" by (intro ext) (simp only: context_best_pending_def n)
qed

lemma bit_of_mode: "bit (if mmode c then MIP_MEIP else MIP_SEIP) n \<longleftrightarrow> n = ext_bit c"
  by (simp add: bit_MIP ext_bit_def)

lemma update_signalled:
  assumes "proc (contexts p ! k) < length (procs p)"
  shows "signalled (context_update k p) c \<longleftrightarrow>
    (if proc c = proc (contexts p ! k) \<and> mmode c = mmode (contexts p ! k) then context_best_pending p (contexts p ! k) \<noteq> 0
     else signalled p c)"
proof -
  have "ext_bit c = ext_bit (contexts p ! k) \<longleftrightarrow> mmode c = mmode (contexts p ! k)" by (simp add: ext_bit_def)
  then show ?thesis using assms
    by (cases "proc c = proc (contexts p ! k)")
      (auto simp: signalled_def context_update_def Let_def bit_backdoor bit_of_mode)
qed

lemma context_update_simps [simp]:
  "contexts (context_update k p) = contexts p" "num_ids (context_update k p) = num_ids p"
  "num_ids_word (context_update k p) = num_ids_word p" "max_prio (context_update k p) = max_prio p"
  "length (procs (context_update k p)) = length (procs p)"
  "priority (context_update k p) = priority p" "level (context_update k p) = level p"
  by (simp_all add: context_update_def Let_def)

lemma replace_ok:
  assumes p: "plic_ok p" and k: "k < length (contexts p)"
    and c': "ctx_ok c'" "proc c' = proc (contexts p ! k)" "mmode c' = mmode (contexts p ! k)"
  shows "plic_ok (context_update k (p\<lparr>contexts := (contexts p)[k := c']\<rparr>))"
proof -
  let ?q = "p\<lparr>contexts := (contexts p)[k := c']\<rparr>"
  let ?id = "\<lambda>c. (proc c, mmode c)"
  have same: "map ?id (contexts ?q) = map ?id (contexts p)"
    using k c' by (intro nth_equalityI) (auto simp: nth_list_update)
  have qk: "contexts ?q ! k = c'" using k by simp
  have best: "context_best_pending ?q = context_best_pending p" "context_best_pending (context_update k ?q) = context_best_pending p"
    by (rule best_pending_cong; simp)+
  have ctx: "proc (contexts p ! i) < length (procs p) \<and> ctx_ok (contexts p ! i) \<and>
      (signalled p (contexts p ! i) \<longleftrightarrow> context_best_pending p (contexts p ! i) \<noteq> 0)" if "i < length (contexts p)" for i
    using p that by (simp add: plic_ok_def)
  have "proc (contexts ?q ! i) < length (procs p) \<and> ctx_ok (contexts ?q ! i) \<and>
      (signalled (context_update k ?q) (contexts ?q ! i) \<longleftrightarrow> context_best_pending p (contexts ?q ! i) \<noteq> 0)"
    if i: "i < length (contexts p)" for i
  proof (cases "i = k")
    case True
    then show ?thesis using c' ctx [OF k] k update_signalled [of ?q k c'] by (simp add: best)
  next
    case False
    have "distinct (map ?id (contexts p))" using p by (simp add: plic_ok_def)
    then have "map ?id (contexts p) ! i \<noteq> map ?id (contexts p) ! k" using i k False by (subst nth_eq_iff_index_eq) simp_all
    then have "?id (contexts p ! i) \<noteq> ?id (contexts p ! k)" using i k by (simp only: nth_map not_False_eq_True)
    then have "\<not> (proc (contexts p ! i) = proc c' \<and> mmode (contexts p ! i) = mmode c')" using c' by simp
    moreover have "signalled ?q c = signalled p c" for c by (simp add: signalled_def)
    ultimately have "signalled (context_update k ?q) (contexts p ! i) = signalled p (contexts p ! i)"
      using update_signalled [of ?q k "contexts p ! i"] ctx [OF k] k c'(2) by auto
    then show ?thesis using False ctx [OF i] by simp
  qed
  then show ?thesis using p same by (simp add: plic_ok_def best all_set_conv_all_nth)
qed

lemma level_ok: "plic_ok p \<Longrightarrow> plic_ok (p\<lparr>level := l\<rparr>)"
  using best_pending_cong [of "p\<lparr>level := l\<rparr>" p] by (simp add: plic_ok_def signalled_def)

lemma priority_write_ok: "plic_ok p \<Longrightarrow> plic_ok (priority_write offset val p)"
  using best_pending_cong [of "priority_write offset val p" p] by (simp add: plic_ok_def signalled_def priority_write_def Let_def)

lemma enable_step_simps:
  "proc (enable_step p w x v c i) = proc c" "mmode (enable_step p w x v c i) = mmode c" "enable (enable_step p w x v c i) = enable c"
  by (simp_all add: enable_step_def Let_def)

text \<open>The enable loop keeps pending inside the enabled sources: the bits it has not reached yet are those of the old value.\<close>

definition enabling :: "nat \<Rightarrow> uint32_t \<Rightarrow> nat \<Rightarrow> plic_context_t \<Rightarrow> bool" where
  "enabling w old i c \<longleftrightarrow> (\<forall>u n. bit (claimed c u) n \<longrightarrow> bit (pending c u) n) \<and>
     (\<forall>u n. bit (pending c u) n \<longrightarrow> bit (enable c u) n \<or> (u = w \<and> i \<le> n \<and> bit old n))"

lemma bit_set_mask: "bit (w OR push_bit i 1) n \<longleftrightarrow> bit w n \<or> (n = i \<and> n < LENGTH('a))" for w :: "'a::len word"
  unfolding bit_or_iff bit_push_bit_iff bit_1_iff by (auto dest: bit_imp_le_length)

lemma bit_clear_mask: "bit (w AND NOT (push_bit i 1)) n \<longleftrightarrow> bit w n \<and> n \<noteq> i" for w :: "'a::len word"
  unfolding bit_and_iff bit_not_iff bit_push_bit_iff bit_1_iff by (auto dest: bit_imp_le_length)

lemmas mask_bits = bit_set_mask bit_set_mask [unfolded push_bit_eq_mult mult_1]
  bit_clear_mask bit_clear_mask [unfolded push_bit_eq_mult mult_1] and_mask_bit and_mask_bit [unfolded push_bit_eq_mult mult_1]

lemma enable_step_enabling:
  assumes "enabling w old i c" "i < 32" "enable c w = new"
  shows "enabling w old (Suc i) (enable_step p w (old XOR new) new c i)"
proof -
  consider (same) "bit old i = bit new i" | (on) "\<not> bit old i" "bit new i" | (off) "bit old i" "\<not> bit new i" by blast
  then show ?thesis
  proof cases
    case same
    then have "enable_step p w (old XOR new) new c i = c" unfolding enable_step_def Let_def and_mask_bit bit_xor_iff by simp
    then show ?thesis using assms same unfolding enabling_def by (metis Suc_leI le_neq_implies_less)
  next
    case on
    then show ?thesis using assms unfolding enabling_def enable_step_def Let_def and_mask_bit bit_xor_iff
      by (auto simp: mask_bits Suc_le_eq order.strict_iff_order)
  next
    case off
    then show ?thesis using assms unfolding enabling_def enable_step_def Let_def and_mask_bit bit_xor_iff
      by (auto simp: mask_bits Suc_le_eq order.strict_iff_order)
  qed
qed

lemma enable_loop:
  assumes "enabling w old 0 c" "enable c w = new" "n \<le> 32"
  shows "enabling w old n (foldl (enable_step p w (old XOR new) new) c [0..<n]) \<and>
    enable (foldl (enable_step p w (old XOR new) new) c [0..<n]) = enable c \<and>
    proc (foldl (enable_step p w (old XOR new) new) c [0..<n]) = proc c \<and>
    mmode (foldl (enable_step p w (old XOR new) new) c [0..<n]) = mmode c"
  using assms(3)
proof (induction n)
  case (Suc n)
  then show ?case using assms(2) enable_step_enabling [of w old n "foldl (enable_step p w (old XOR new) new) c [0..<n]" new p]
    by (simp add: enable_step_simps)
qed (use assms in simp)

lemma context_ok: "plic_ok p \<Longrightarrow> k < length (contexts p) \<Longrightarrow> ctx_ok (contexts p ! k)"
  by (simp add: plic_ok_def)

lemma enabling_done: "enabling w old 32 c \<Longrightarrow> \<not> bit (enable c 0) 0 \<Longrightarrow> ctx_ok c"
  unfolding enabling_def ctx_ok_def using bit_imp_le_length [of old] by fastforce

lemma context_enable_write_ok:
  assumes p: "plic_ok p" and k: "k < length (contexts p)"
  shows "plic_ok (context_enable_write k offset val p)"
proof -
  let ?w = "unat (ucast (drop_bit 2 offset) :: uint32_t)"
  let ?c = "contexts p ! k"
  let ?new = "if ?w = 0 then val AND NOT 1 else val"
  let ?c1 = "?c\<lparr>enable := (enable ?c)(?w := ?new)\<rparr>"
  let ?c2 = "foldl (enable_step p ?w (enable ?c ?w XOR ?new) ?new) ?c1 [0..<32]"
  have c: "ctx_ok ?c" using context_ok [OF p k] .
  then have "enabling ?w (enable ?c ?w) 0 ?c1" by (auto simp: enabling_def ctx_ok_def)
  then have l: "enabling ?w (enable ?c ?w) 32 ?c2" "enable ?c2 = enable ?c1" "proc ?c2 = proc ?c" "mmode ?c2 = mmode ?c"
    using enable_loop [of ?w "enable ?c ?w" ?c1 ?new 32 p] by simp_all
  have "\<not> bit (enable ?c2 0) 0" using c unfolding l by (simp add: ctx_ok_def bit_simps)
  then have "ctx_ok ?c2" by (rule enabling_done [OF l(1)])
  then show ?thesis using p replace_ok [OF p k _ l(3,4)] by (simp add: context_enable_write_def Let_def)
qed

lemma ctx_ok_claim: "ctx_ok c \<Longrightarrow> bit (pending c w) n \<Longrightarrow> ctx_ok (c\<lparr>claimed := (claimed c)(w := claimed c w OR push_bit n 1)\<rparr>)"
  by (auto simp: ctx_ok_def mask_bits)

lemma ctx_ok_complete: "ctx_ok c \<Longrightarrow> ctx_ok (c\<lparr>claimed := (claimed c)(w := claimed c w AND NOT (push_bit n 1))\<rparr>)"
  by (auto simp: ctx_ok_def mask_bits)

lemma ctx_ok_threshold: "ctx_ok c \<Longrightarrow> ctx_ok (c\<lparr>priority_threshold := t\<rparr>)"
  by (simp add: ctx_ok_def)

lemma ctx_ok_level:
  "ctx_ok c \<Longrightarrow> enable c (irq div 32) AND push_bit (irq mod 32) 1 \<noteq> 0 \<Longrightarrow>
   ctx_ok (level_context (push_bit (irq mod 32) 1) irq lvl prio c)"
  by (auto simp: ctx_ok_def level_context_def Let_def mask_bits)

lemma best_pending_selects:
  assumes "plic_ok p" "k < length (contexts p)" "context_best_pending p (contexts p ! k) \<noteq> 0"
  shows "selects p (contexts p ! k) (context_best_pending p (contexts p ! k))"
  using assms context_best_pending_spec(2) [of p "contexts p ! k"] ctx_ok_no_zero context_ok by (simp add: plic_ok_def)

lemma context_update_same_ok: "plic_ok p \<Longrightarrow> k < length (contexts p) \<Longrightarrow> plic_ok (context_update k p)"
  using replace_ok [of p k "contexts p ! k"] context_ok by simp

lemma context_claim_ok:
  assumes "plic_ok p" "k < length (contexts p)"
  shows "plic_ok (snd (context_claim k p))"
proof (cases "context_best_pending p (contexts p ! k) = 0")
  case True
  then show ?thesis using assms context_update_same_ok by (simp add: context_claim_def)
next
  case False
  then have "bit (pending (contexts p ! k) (context_best_pending p (contexts p ! k) div 32)) (context_best_pending p (contexts p ! k) mod 32)"
    using best_pending_selects [OF assms] by (simp add: selects_def candidate_def)
  then show ?thesis using False ctx_ok_claim [OF context_ok [OF assms]] replace_ok [OF assms] by (simp add: context_claim_def Let_def)
qed

lemma context_read_ok: "plic_ok p \<Longrightarrow> k < length (contexts p) \<Longrightarrow> plic_ok (snd (context_read k offset p))"
  using context_claim_ok [of p k] by (auto simp: context_read_def split: prod.split)

lemma context_write_ok:
  assumes "plic_ok p" "k < length (contexts p)"
  shows "plic_ok (snd (context_write k offset val p))"
  using assms replace_ok [OF assms ctx_ok_threshold [OF context_ok [OF assms]]] replace_ok [OF assms ctx_ok_complete [OF context_ok [OF assms]]]
  by (simp add: context_write_def Let_def)

lemma set_interrupt_level_ok:
  assumes "plic_ok p"
  shows "plic_ok (set_interrupt_level irq lvl p)"
proof -
  let ?l = "(level p)(irq div 32 := if lvl then level p (irq div 32) OR push_bit (irq mod 32) 1 else level p (irq div 32) AND NOT (push_bit (irq mod 32) 1))"
  let ?p = "p\<lparr>level := ?l\<rparr>"
  let ?en = "\<lambda>k. enable (contexts ?p ! k) (irq div 32) AND push_bit (irq mod 32) 1 \<noteq> 0"
  have ok: "plic_ok ?p" using level_ok [OF assms] .
  have "plic_ok (context_update k (?p\<lparr>contexts := (contexts ?p)[k := level_context (push_bit (irq mod 32) 1) irq lvl (priority p irq) (contexts ?p ! k)]\<rparr>))"
    if f: "find ?en [0..<length (contexts ?p)] = Some k" for k
  proof -
    have k: "k < length (contexts ?p)" "?en k" using f by (auto simp: find_Some_iff)
    show ?thesis using replace_ok [OF ok k(1) ctx_ok_level [OF context_ok [OF ok k(1)] k(2)]] by (simp add: level_context_def Let_def)
  qed
  then show ?thesis using assms ok
    by (cases "irq = 0 \<or> num_ids p \<le> irq"; cases "find ?en [0..<length (contexts ?p)]")
      (simp_all only: set_interrupt_level_def Let_def if_True if_False option.case plic_t.simps cong: if_cong)
qed

lemma plic_load_word_ok: "plic_ok p \<Longrightarrow> plic_ok (snd (plic_load_word p addr))"
  using context_read_ok [of p] by (auto simp: plic_load_word_def Let_def split: prod.split) (metis snd_conv)

lemma plic_load_ok:
  assumes "plic_ok p"
  shows "plic_ok (snd (plic_load p addr len))"
proof -
  obtain r p1 where "plic_load_word p addr = (r, p1)" by fastforce
  moreover obtain r2 p2 where "plic_load_word p1 (addr + 4) = (r2, p2)" by fastforce
  ultimately show ?thesis using assms plic_load_word_ok [of p addr] plic_load_word_ok [of p1 "addr + 4"]
    by (simp add: plic_load_def split: option.split)
qed

lemma plic_store_word_ok: "plic_ok p \<Longrightarrow> plic_ok (snd (plic_store_word p addr bytes))"
  by (simp add: plic_store_word_def Let_def priority_write_ok context_enable_write_ok context_write_ok)

lemma plic_store_ok:
  assumes "plic_ok p"
  shows "plic_ok (snd (plic_store p addr bytes))"
proof -
  obtain r p1 where "plic_store_word p addr (take 4 bytes) = (r, p1)" by fastforce
  then show ?thesis using assms plic_store_word_ok [of p addr] plic_store_word_ok [of p addr "take 4 bytes"] plic_store_word_ok [of p1 "addr + 4"]
    by (cases r) (simp_all add: plic_store_def)
qed

section \<open>Checkpoint and restore\<close>

lemma vec_copy_to: "vec (copy_to (vec a n) b) n = vec a n"
  by (auto simp: vec_def copy_to_def)

lemma context_checkpoint_restore: "context_checkpoint (context_checkpoint_restore (context_checkpoint c) d) = context_checkpoint c"
  by (simp add: context_checkpoint_def context_checkpoint_restore_def vec_copy_to)

text \<open>A restored controller carries the checkpointed registers, whatever it held before.\<close>

lemma plic_checkpoint_roundtrip:
  assumes "length (contexts d) = length (contexts p)"
  shows "plic_checkpoint (plic_checkpoint_restore (plic_checkpoint p) d) = plic_checkpoint p"
proof -
  have "map context_checkpoint (contexts (plic_checkpoint_restore (plic_checkpoint p) d)) = map context_checkpoint (contexts p)"
    using assms by (intro nth_equalityI) (simp_all add: plic_checkpoint_restore_def plic_checkpoint_def context_checkpoint_restore)
  then show ?thesis by (simp add: plic_checkpoint_def plic_checkpoint_restore_def vec_copy_to)
qed

text \<open>The registers a checkpoint keeps determine the arbitration.\<close>

lemma vec_nth: "vec a n = vec b n \<Longrightarrow> i < n \<Longrightarrow> a i = b i"
  by (simp add: vec_def)

lemma checkpoint_candidate:
  assumes "context_checkpoint c = context_checkpoint d" "num_ids p = num_ids q" "num_ids p \<le> PLIC_MAX_DEVICES"
  shows "candidate p c irq = candidate q d irq"
proof (cases "irq < PLIC_MAX_DEVICES")
  case True
  then have "irq div 32 < PLIC_MAX_DEVICES div 32" by (auto simp: PLIC_MAX_DEVICES_def)
  then have "pending c (irq div 32) = pending d (irq div 32)" "claimed c (irq div 32) = claimed d (irq div 32)"
    using assms(1) by (auto simp: context_checkpoint_def intro: vec_nth)
  then show ?thesis using assms by (simp add: candidate_def)
next
  case False
  then show ?thesis using assms by (simp add: candidate_def)
qed

lemma flat_step_checkpoint:
  assumes "context_checkpoint c = context_checkpoint d" "num_ids p = num_ids q" "num_ids p \<le> PLIC_MAX_DEVICES"
  shows "flat_step p c = flat_step q d"
proof (intro ext)
  fix best irq
  have "pending_priority c irq = pending_priority d irq" if "candidate q d irq"
    using that assms vec_nth [of "pending_priority c" PLIC_MAX_DEVICES "pending_priority d" irq]
    by (simp add: candidate_def context_checkpoint_def)
  then show "flat_step p c best irq = flat_step q d best irq"
    by (auto simp: flat_step_def checkpoint_candidate [OF assms])
qed

lemma best_pending_checkpoint:
  assumes "plic_checkpoint p = plic_checkpoint q" "num_ids p \<le> PLIC_MAX_DEVICES" "k < length (contexts p)"
  shows "context_best_pending p (contexts p ! k) = context_best_pending q (contexts q ! k)"
proof -
  have l: "map context_checkpoint (contexts p) = map context_checkpoint (contexts q)" "num_ids p = num_ids q" "num_ids_word p = num_ids_word q"
    using assms(1) by (simp_all add: plic_checkpoint_def)
  then have c: "context_checkpoint (contexts p ! k) = context_checkpoint (contexts q ! k)"
    using assms(3) by (metis length_map nth_map)
  then have "priority_threshold (contexts p ! k) = priority_threshold (contexts q ! k)" by (simp add: context_checkpoint_def)
  then show ?thesis using flat_step_checkpoint [OF c l(2) assms(2)] l(3) by (simp add: context_best_pending_def foldl_best_word)
qed

section \<open>Reachable states\<close>

lemma new_contexts_distinct:
  "distinct (map (\<lambda>c. (proc c, mmode c)) (concat (map (\<lambda>i. new_context i True # (if s i then [new_context i False] else [])) [0..<n])))"
proof (induction n)
  case (Suc n)
  have "proc c < n" if "c \<in> set (concat (map (\<lambda>i. new_context i True # (if s i then [new_context i False] else [])) [0..<n]))" for c
    using that by (auto simp: new_context_def split: if_splits)
  then show ?case using Suc by (auto simp: new_context_def)
qed simp

lemma new_plic_ok:
  assumes "length ext_S = length hs" "ndev < 1024" "\<forall>h \<in> set hs. \<not> bit (mip h) 9 \<and> \<not> bit (mip h) 11"
  shows "plic_ok (new_plic ext_S hs ndev)"
proof -
  let ?p = "new_plic ext_S hs ndev"
  have c: "ctx_ok c \<and> proc c < length hs \<and> \<not> candidate ?p c i" if "c \<in> set (contexts ?p)" for c i
    using that assms(1) by (auto simp: new_plic_def new_context_def ctx_ok_def candidate_def split: if_splits)
  have ids: "num_ids ?p \<le> num_ids_word ?p * 32" by (simp add: new_plic_def)
  have "context_best_pending ?p c = 0" if "c \<in> set (contexts ?p)" for c
    using context_best_pending_spec(1) [OF _ ids] c [OF that] by blast
  moreover have "\<not> signalled ?p c" if "c \<in> set (contexts ?p)" for c
    using c [OF that] assms(3) by (simp add: signalled_def ext_bit_def new_plic_def)
  moreover have "distinct (map (\<lambda>c. (proc c, mmode c)) (contexts ?p))"
    using new_contexts_distinct by (simp add: new_plic_def)
  moreover have "max_prio ?p = 15" "num_ids ?p \<le> PLIC_MAX_DEVICES" "procs ?p = hs"
    using assms(2) by (simp_all add: new_plic_def plic_consts)
  ultimately show ?thesis using c ids by (simp add: plic_ok_def)
qed

lemma copy_to_vec: "copy_to (vec a n) b i = (if i < n then a i else b i)"
  by (simp add: copy_to_def vec_def)

lemma context_restore_fields [simp]:
  "proc (context_checkpoint_restore (context_checkpoint c) d) = proc d" "mmode (context_checkpoint_restore (context_checkpoint c) d) = mmode c"
  "priority_threshold (context_checkpoint_restore (context_checkpoint c) d) = priority_threshold c"
  by (simp_all add: context_checkpoint_restore_def context_checkpoint_def)

lemma context_restore_words [simp]:
  "enable (context_checkpoint_restore (context_checkpoint c) d) w = (if w < 32 then enable c w else enable d w)"
  "pending (context_checkpoint_restore (context_checkpoint c) d) w = (if w < 32 then pending c w else pending d w)"
  "claimed (context_checkpoint_restore (context_checkpoint c) d) w = (if w < 32 then claimed c w else claimed d w)"
  "pending_priority (context_checkpoint_restore (context_checkpoint c) d) n = (if n < 1024 then pending_priority c n else pending_priority d n)"
  by (simp_all add: context_checkpoint_restore_def context_checkpoint_def copy_to_vec PLIC_MAX_DEVICES_def)

lemma plic_restore_fields [simp]:
  "num_ids (plic_checkpoint_restore (plic_checkpoint p) d) = num_ids p"
  "num_ids_word (plic_checkpoint_restore (plic_checkpoint p) d) = num_ids_word p"
  "max_prio (plic_checkpoint_restore (plic_checkpoint p) d) = max_prio p" "procs (plic_checkpoint_restore j d) = procs d"
  "length (contexts (plic_checkpoint_restore j d)) = length (contexts d)"
  by (simp_all add: plic_checkpoint_restore_def plic_checkpoint_def)

lemma plic_restore_arrays [simp]:
  "priority (plic_checkpoint_restore (plic_checkpoint p) d) n = (if n < 1024 then priority p n else priority d n)"
  "level (plic_checkpoint_restore (plic_checkpoint p) d) w = (if w < 32 then level p w else level d w)"
  by (simp_all add: plic_checkpoint_restore_def plic_checkpoint_def copy_to_vec PLIC_MAX_DEVICES_def)

lemma plic_restore_context:
  assumes "k < length (contexts d)" "length (contexts d) = length (contexts p)"
  shows "contexts (plic_checkpoint_restore (plic_checkpoint p) d) ! k = context_checkpoint_restore (context_checkpoint (contexts p ! k)) (contexts d ! k)"
  using assms by (simp add: plic_checkpoint_restore_def plic_checkpoint_def)

text \<open>What a hart may change of its pending register without the controller noticing: everything but the two external-interrupt bits.\<close>

definition same_external :: "hart \<Rightarrow> hart \<Rightarrow> bool" where
  "same_external h h' \<longleftrightarrow> bit (mip h) 9 = bit (mip h') 9 \<and> bit (mip h) 11 = bit (mip h') 11"

lemma same_external_signalled:
  assumes "list_all2 same_external (procs p) (procs q)" "proc c < length (procs p)" "proc c' = proc c" "mmode c' = mmode c"
  shows "signalled q c' = signalled p c"
  using list_all2_nthD [OF assms(1,2)] assms(3,4) by (auto simp: signalled_def ext_bit_def same_external_def)

lemma harts_ok:
  assumes p: "plic_ok p" and h: "list_all2 same_external (procs p) hs"
  shows "plic_ok (p\<lparr>procs := hs\<rparr>)"
proof -
  have "context_best_pending (p\<lparr>procs := hs\<rparr>) = context_best_pending p" by (rule best_pending_cong) simp_all
  moreover have "signalled (p\<lparr>procs := hs\<rparr>) c = signalled p c" if "proc c < length (procs p)" for c
    by (rule same_external_signalled) (simp_all add: h that)
  ultimately show ?thesis using p list_all2_lengthD [OF h] by (simp add: plic_ok_def)
qed

lemma ctx_ok_restore:
  assumes "ctx_ok c" "ctx_ok d"
  shows "ctx_ok (context_checkpoint_restore (context_checkpoint c) d)"
  using assms by (simp add: ctx_ok_def)

lemma restore_ok:
  assumes p: "plic_ok p" and d: "plic_ok d" and topo: "map proc (contexts d) = map proc (contexts p)"
    and h: "list_all2 same_external (procs p) hs"
  shows "plic_ok (plic_checkpoint_restore (plic_checkpoint p) (d\<lparr>procs := hs\<rparr>))"
proof -
  let ?d = "d\<lparr>procs := hs\<rparr>"
  let ?q = "plic_checkpoint_restore (plic_checkpoint p) ?d"
  have len: "length (contexts d) = length (contexts p)" using topo by (metis length_map)
  have ctx: "contexts ?q ! k = context_checkpoint_restore (context_checkpoint (contexts p ! k)) (contexts d ! k)" if "k < length (contexts p)" for k
    using plic_restore_context [of k ?d p] that len by simp
  have proc: "proc (contexts d ! k) = proc (contexts p ! k)" if "k < length (contexts p)" for k
    using arg_cong [OF topo, of "\<lambda>xs. xs ! k"] that len by simp
  have ids: "map (\<lambda>c. (proc c, mmode c)) (contexts ?q) = map (\<lambda>c. (proc c, mmode c)) (contexts p)"
    using len by (intro nth_equalityI) (simp_all add: ctx proc)
  have each: "proc c < length hs \<and> ctx_ok c \<and> (signalled ?q c \<longleftrightarrow> context_best_pending ?q c \<noteq> 0)" if c: "c \<in> set (contexts ?q)" for c
  proof -
    have "length (contexts ?q) = length (contexts p)" using len by simp
    then obtain k where k: "k < length (contexts p)" "c = contexts ?q ! k" using c unfolding in_set_conv_nth by auto
    have ok: "proc (contexts p ! k) < length (procs p)" "ctx_ok (contexts p ! k)" "ctx_ok (contexts d ! k)"
      "signalled p (contexts p ! k) \<longleftrightarrow> context_best_pending p (contexts p ! k) \<noteq> 0"
      using p d k(1) len by (simp_all add: plic_ok_def)
    have "context_best_pending ?q c = context_best_pending p (contexts p ! k)"
      using best_pending_checkpoint [of p ?q k] plic_checkpoint_roundtrip [of ?d p] p k len by (simp add: plic_ok_def)
    moreover have "signalled ?q c = signalled p (contexts p ! k)"
      using same_external_signalled [of p ?q "contexts p ! k" c] h ok(1) ctx [OF k(1)] k proc [OF k(1)] by simp
    ultimately show ?thesis
      using ok ctx [OF k(1)] k(2) proc [OF k(1)] list_all2_lengthD [OF h] ctx_ok_restore by simp
  qed
  have "distinct (map (\<lambda>c. (proc c, mmode c)) (contexts ?q))" using p unfolding ids by (simp add: plic_ok_def)
  then show ?thesis using p each by (simp add: plic_ok_def)
qed

text \<open>The states a platform can bring the controller to: construction over harts without an external interrupt, then register
  accesses by the harts, changes of the interrupt lines by the devices, and what the harts do to their own state, in any order. A checkpoint of the simulation is restored
  with the harts (\<open>sim_t::checkpoint_restore\<close> restores the bus and then the pending register of every hart).\<close>

inductive plic_reachable :: "plic_t \<Rightarrow> bool" where
  new: "length ext_S = length hs \<Longrightarrow> ndev < 1024 \<Longrightarrow> \<forall>h \<in> set hs. \<not> bit (mip h) 9 \<and> \<not> bit (mip h) 11 \<Longrightarrow>
    plic_reachable (new_plic ext_S hs ndev)"
| load: "plic_reachable p \<Longrightarrow> plic_reachable (snd (plic_load p addr len))"
| store: "plic_reachable p \<Longrightarrow> plic_reachable (snd (plic_store p addr bytes))"
| line: "plic_reachable p \<Longrightarrow> plic_reachable (set_interrupt_level irq lvl p)"
| harts: "plic_reachable p \<Longrightarrow> list_all2 same_external (procs p) hs \<Longrightarrow> plic_reachable (p\<lparr>procs := hs\<rparr>)"
| restore: "plic_reachable p \<Longrightarrow> plic_reachable d \<Longrightarrow> map proc (contexts d) = map proc (contexts p) \<Longrightarrow>
    list_all2 same_external (procs p) hs \<Longrightarrow> plic_reachable (plic_checkpoint_restore (plic_checkpoint p) (d\<lparr>procs := hs\<rparr>))"

lemma reachable_ok: "plic_reachable p \<Longrightarrow> plic_ok p"
  by (induction rule: plic_reachable.induct)
    (simp_all add: new_plic_ok plic_load_ok plic_store_ok set_interrupt_level_ok harts_ok restore_ok)

section \<open>Claim and completion\<close>

lemma backdoor_same: "(\<And>n. bit msk n \<Longrightarrow> bit val n = bit (mip h) n) \<Longrightarrow> backdoor_write_with_mask msk val h = h"
proof -
  assume m: "\<And>n. bit msk n \<Longrightarrow> bit val n = bit (mip h) n"
  have "mip (backdoor_write_with_mask msk val h) = mip h" by (rule bit_word_eqI) (simp add: bit_backdoor m)
  then show ?thesis by (simp add: backdoor_write_with_mask_def)
qed

lemma backdoor_backdoor: "backdoor_write_with_mask msk v (backdoor_write_with_mask msk u h) = backdoor_write_with_mask msk v h"
proof -
  have "mip (backdoor_write_with_mask msk v (backdoor_write_with_mask msk u h)) = mip (backdoor_write_with_mask msk v h)"
    by (rule bit_word_eqI) (simp add: bit_backdoor)
  then show ?thesis by (simp add: backdoor_write_with_mask_def)
qed

lemma context_update_idem:
  assumes "plic_ok p" "k < length (contexts p)"
  shows "context_update k p = p"
proof -
  let ?c = "contexts p ! k"
  let ?m = "if mmode ?c then MIP_MEIP else MIP_SEIP"
  have "signalled p ?c \<longleftrightarrow> context_best_pending p ?c \<noteq> 0" using assms by (simp add: plic_ok_def)
  then have "bit (if context_best_pending p ?c \<noteq> 0 then ?m else 0) n = bit (mip (procs p ! proc ?c)) n" if "bit ?m n" for n
    using that by (auto simp: bit_of_mode signalled_def)
  then have "backdoor_write_with_mask ?m (if context_best_pending p ?c \<noteq> 0 then ?m else 0) (procs p ! proc ?c) = procs p ! proc ?c"
    by (rule backdoor_same)
  then show ?thesis unfolding context_update_def Let_def by (simp del: bot_nat_0.not_eq_extremum)
qed

lemma context_update_twice:
  assumes "proc (cs ! k) = proc (contexts q ! k)" "mmode (cs ! k) = mmode (contexts q ! k)" "proc (contexts q ! k) < length (procs q)"
  shows "context_update k ((context_update k q)\<lparr>contexts := cs\<rparr>) = context_update k (q\<lparr>contexts := cs\<rparr>)"
proof -
  have "context_best_pending ((context_update k q)\<lparr>contexts := cs\<rparr>) = context_best_pending (q\<lparr>contexts := cs\<rparr>)"
    by (rule best_pending_cong) simp_all
  then show ?thesis using assms
    by (simp add: context_update_def [of k "(context_update k q)\<lparr>contexts := cs\<rparr>"] context_update_def [of k "q\<lparr>contexts := cs\<rparr>"])
      (simp add: context_update_def Let_def backdoor_backdoor)
qed

lemma claim_clear: "\<not> bit w n \<Longrightarrow> (w OR push_bit n 1) AND NOT (push_bit n 1) = w" for w :: "'a::len word"
  by (rule bit_word_eqI) (auto simp: mask_bits)

lemma claim_complete:
  assumes p: "plic_ok p" and k: "k < length (contexts p)" and b: "context_best_pending p (contexts p ! k) \<noteq> 0"
  shows "context_write k CONTEXT_CLAIM (of_nat (fst (context_claim k p))) (snd (context_claim k p)) = (True, p)"
    and "\<not> candidate (snd (context_claim k p)) (contexts (snd (context_claim k p)) ! k) (fst (context_claim k p))"
proof -
  let ?c = "contexts p ! k"
  let ?b = "context_best_pending p ?c"
  let ?c' = "?c\<lparr>claimed := (claimed ?c)(?b div 32 := claimed ?c (?b div 32) OR push_bit (?b mod 32) 1)\<rparr>"
  let ?q = "p\<lparr>contexts := (contexts p)[k := ?c']\<rparr>"
  have claim: "context_claim k p = (?b, context_update k ?q)" unfolding context_claim_def Let_def if_P [OF b] ..
  have cand: "?b < num_ids p" "bit (pending ?c (?b div 32)) (?b mod 32)" "\<not> bit (claimed ?c (?b div 32)) (?b mod 32)"
    using best_pending_selects [OF p k b] by (simp_all add: selects_def candidate_def)
  then have en: "bit (enable ?c (?b div 32)) (?b mod 32)" using context_ok [OF p k] by (simp add: ctx_ok_def)
  have u: "unat (of_nat ?b :: uint32_t) = ?b"
    using cand(1) p by (simp add: unat_of_nat plic_ok_def PLIC_MAX_DEVICES_def)
  have restored: "?c'\<lparr>claimed := (claimed ?c')(?b div 32 := claimed ?c' (?b div 32) AND NOT (push_bit (?b mod 32) 1))\<rparr> = ?c"
    using claim_clear [OF cand(3)] by simp
  have "context_update k ((context_update k ?q)\<lparr>contexts := contexts p\<rparr>) = context_update k (?q\<lparr>contexts := contexts p\<rparr>)"
    using k p by (intro context_update_twice) (simp_all add: plic_ok_def)
  also have "?q\<lparr>contexts := contexts p\<rparr> = p" by simp
  finally have again: "context_update k ((context_update k ?q)\<lparr>contexts := contexts p\<rparr>) = p"
    unfolding context_update_idem [OF p k] .
  have "(contexts ?q)[k := ?c] = contexts p" by simp
  then show "context_write k CONTEXT_CLAIM (of_nat (fst (context_claim k p))) (snd (context_claim k p)) = (True, p)"
    using restored again en cand(1) k unfolding claim context_write_def Let_def fst_conv snd_conv u
    by (simp add: CONTEXT_CLAIM_def CONTEXT_THRESHOLD_def mask_bits)
  show "\<not> candidate (snd (context_claim k p)) (contexts (snd (context_claim k p)) ! k) (fst (context_claim k p))"
    using k unfolding claim by (simp add: candidate_def mask_bits)
qed

section \<open>Properties\<close>

text \<open>A controller with one hart and two sources of priorities 3 and 5, both enabled in the machine context and raised.\<close>

definition demo_hart :: hart where
  "demo_hart = \<lparr>mip = 0, shadow_val = 0, ext_sstc = False, stimecmp = 0, vstimecmp = 0, htimedelta = 0, menvcfg = 0, henvcfg = 0\<rparr>"

definition demo_plic :: plic_t where
  "demo_plic = set_interrupt_level 2 True (set_interrupt_level 1 True
     (snd (plic_store (snd (plic_store (snd (plic_store (new_plic [True] [demo_hart] 2) 4 [3, 0, 0, 0])) 8 [5, 0, 0, 0])) 0x2000 [6, 0, 0, 0])))"

lemma demo_plic_reachable: "plic_reachable demo_plic"
  unfolding demo_plic_def by (intro plic_reachable.intros) (simp_all add: demo_hart_def)

lemma demo_facts:
  "let p = demo_plic; c = contexts p ! 0
   in length (contexts p) = 2 \<and> proc c = 0 \<and> mmode c \<and> candidate p c 2 \<and> bit (enable c 0) 2 \<and> priority_threshold c < pending_priority c 2 \<and>
      context_best_pending p c = 2"
  by code_simp

text \<open>C36. After any sequence of register accesses, line changes, changes of the harts' own state and restored simulation checkpoints, the external-interrupt bit of a
  context (machine or supervisor) is set in the hart's pending register exactly when the context has an enabled, pending and unclaimed source whose latched priority is
  above the context's threshold. The harts start without these bits and do not write them themselves (software can write the supervisor one), and a checkpoint restores
  the harts' bits together with the controller: \<open>plic_checkpoint_restore\<close> alone does not update them (\<open>plic_restore_leaves_interrupt\<close>).\<close>

theorem plic_signals_pending:
  assumes "plic_reachable p" "c \<in> set (contexts p)"
  shows "bit (mip (procs p ! proc c)) (if mmode c then 11 else 9) \<longleftrightarrow>
    (\<exists>irq. candidate p c irq \<and> bit (enable c (irq div 32)) (irq mod 32) \<and> priority_threshold c < pending_priority c irq)"
proof -
  have ok: "plic_ok p" using reachable_ok assms(1) .
  then have c: "ctx_ok c" "signalled p c \<longleftrightarrow> context_best_pending p c \<noteq> 0" "num_ids p \<le> num_ids_word p * 32"
    using assms(2) by (simp_all add: plic_ok_def)
  have "signalled p c \<longleftrightarrow> (\<exists>irq. candidate p c irq \<and> priority_threshold c < pending_priority c irq)"
    using context_best_pending_spec(1) [OF ctx_ok_no_zero [OF c(1)] c(3)] c(2) by (simp add: not_le)
  then show ?thesis using c(1) by (auto simp: signalled_def ext_bit_def candidate_def ctx_ok_def)
qed

theorem plic_signals_pending_witness:
  "plic_reachable demo_plic \<and> bit (mip (procs demo_plic ! 0)) 11"
proof -
  have "contexts demo_plic ! 0 \<in> set (contexts demo_plic)" using demo_facts by (simp add: Let_def)
  from plic_signals_pending [OF demo_plic_reachable this] demo_plic_reachable show ?thesis
    using demo_facts by (auto simp: Let_def intro: exI [of _ 2])
qed

text \<open>C37. A claim in a reachable state returns the pending source of the highest priority above the threshold, the lowest-numbered
  of several; the source is hidden from then on, and writing its number back completes it and restores exactly the state before the claim,
  the hart's interrupt bit included. When no source is above the threshold the claim returns 0 and changes nothing.\<close>

theorem plic_claim_roundtrip:
  assumes "plic_reachable p" "k < length (contexts p)" "context_claim k p = (irq, p')"
  shows "if irq = 0 then p' = p \<and> (\<forall>i. candidate p (contexts p ! k) i \<longrightarrow> pending_priority (contexts p ! k) i \<le> priority_threshold (contexts p ! k))
    else selects p (contexts p ! k) irq \<and> \<not> candidate p' (contexts p' ! k) irq \<and> context_write k CONTEXT_CLAIM (of_nat irq) p' = (True, p)"
proof -
  have ok: "plic_ok p" using reachable_ok assms(1) .
  have irq: "irq = context_best_pending p (contexts p ! k)" using assms(3) by (auto simp: context_claim_def Let_def)
  show ?thesis
  proof (cases "irq = 0")
    case True
    then have "p' = context_update k p" using assms(3) irq by (auto simp: context_claim_def Let_def)
    then show ?thesis using True irq context_update_idem [OF ok assms(2)] ok
        context_best_pending_spec(1) [OF ctx_ok_no_zero [OF context_ok [OF ok assms(2)]]] by (simp add: plic_ok_def)
  next
    case False
    then show ?thesis using claim_complete [OF ok assms(2)] best_pending_selects [OF ok assms(2)] irq assms(3) by simp
  qed
qed

theorem plic_claim_roundtrip_witness:
  "selects demo_plic (contexts demo_plic ! 0) 2 \<and>
   context_write 0 CONTEXT_CLAIM 2 (snd (context_claim 0 demo_plic)) = (True, demo_plic)"
proof -
  have "context_claim 0 demo_plic = (2, snd (context_claim 0 demo_plic))" using demo_facts by (simp add: context_claim_def Let_def)
  moreover have "0 < length (contexts demo_plic)" using demo_facts by (simp add: Let_def)
  ultimately show ?thesis using plic_claim_roundtrip [OF demo_plic_reachable, of 0 2 "snd (context_claim 0 demo_plic)"] by simp
qed

text \<open>Restoring the controller without its harts leaves the interrupt bit of the hart as it was.\<close>

lemma plic_restore_leaves_interrupt:
  "let q = plic_checkpoint_restore (plic_checkpoint demo_plic) (new_plic [True] [demo_hart] 2)
   in context_best_pending q (contexts q ! 0) = 2 \<and> \<not> bit (mip (procs q ! 0)) 11"
proof -
  let ?d = "new_plic [True] [demo_hart] 2"
  have n: "num_ids demo_plic \<le> PLIC_MAX_DEVICES" using reachable_ok [OF demo_plic_reachable] by (simp add: plic_ok_def)
  have "length (contexts ?d) = length (contexts demo_plic)" using demo_facts by (simp add: Let_def new_plic_def)
  from plic_checkpoint_roundtrip [OF this] have e: "plic_checkpoint demo_plic = plic_checkpoint (plic_checkpoint_restore (plic_checkpoint demo_plic) ?d)" by (rule sym)
  have "0 < length (contexts demo_plic)" using demo_facts by (auto simp: Let_def)
  from best_pending_checkpoint [OF e n this] have "context_best_pending (plic_checkpoint_restore (plic_checkpoint demo_plic) ?d)
      (contexts (plic_checkpoint_restore (plic_checkpoint demo_plic) ?d) ! 0) = 2"
    using demo_facts by (simp add: Let_def)
  moreover have "\<not> bit (mip (procs ?d ! 0)) 11" by (simp add: new_plic_def demo_hart_def)
  ultimately show ?thesis by (simp add: Let_def)
qed

text \<open>C38. Restoring a checkpoint into a controller with as many contexts brings back every register of the checkpointed controller, whatever the target held: the
  geometry, the priorities and levels of all sources, and per context its mode, threshold, enable, pending and claimed bits and latched priorities; and every context
  selects the interrupt it selected when the checkpoint was taken.\<close>

theorem plic_checkpoint_restores:
  assumes "length (contexts d) = length (contexts p)" "num_ids p \<le> PLIC_MAX_DEVICES"
  defines "q \<equiv> plic_checkpoint_restore (plic_checkpoint p) d"
  shows "num_ids q = num_ids p \<and> num_ids_word q = num_ids_word p \<and> max_prio q = max_prio p \<and> length (contexts q) = length (contexts p) \<and>
    (\<forall>i<1024. priority q i = priority p i) \<and> (\<forall>w<32. level q w = level p w) \<and>
    (\<forall>k<length (contexts p). let c = contexts p ! k; c' = contexts q ! k
       in mmode c' = mmode c \<and> priority_threshold c' = priority_threshold c \<and>
          (\<forall>w<32. enable c' w = enable c w \<and> pending c' w = pending c w \<and> claimed c' w = claimed c w) \<and>
          (\<forall>i<1024. pending_priority c' i = pending_priority c i) \<and> context_best_pending q c' = context_best_pending p c)"
proof -
  have "plic_checkpoint p = plic_checkpoint q" unfolding q_def by (rule plic_checkpoint_roundtrip [OF assms(1), symmetric])
  then have best: "context_best_pending q (contexts q ! k) = context_best_pending p (contexts p ! k)" if "k < length (contexts p)" for k
    using best_pending_checkpoint [of p q k] that assms(2) by simp
  have "contexts q ! k = context_checkpoint_restore (context_checkpoint (contexts p ! k)) (contexts d ! k)" if "k < length (contexts p)" for k
    unfolding q_def by (rule plic_restore_context) (use that assms(1) in simp_all)
  then show ?thesis using best assms(1) by (simp add: Let_def) (simp add: q_def)
qed

theorem plic_checkpoint_restores_witness:
  "let q = plic_checkpoint_restore (plic_checkpoint demo_plic) (new_plic [True] [demo_hart] 7)
   in context_best_pending q (contexts q ! 0) = 2 \<and> level q 0 = level demo_plic 0 \<and> enable (contexts q ! 0) 0 = enable (contexts demo_plic ! 0) 0"
proof -
  have "num_ids demo_plic \<le> PLIC_MAX_DEVICES" using reachable_ok [OF demo_plic_reachable] by (simp add: plic_ok_def)
  moreover have "length (contexts (new_plic [True] [demo_hart] 7)) = length (contexts demo_plic)"
    using demo_facts by (simp add: Let_def new_plic_def)
  ultimately show ?thesis using plic_checkpoint_restores [of "new_plic [True] [demo_hart] 7" demo_plic] demo_facts by (simp add: Let_def)
qed

text \<open>The sources are level-triggered, but a change of a line reaches only the first context that enables the source: with two contexts
  enabling it, lowering the line leaves the second one pending and its hart interrupted.\<close>

definition two_contexts :: plic_t where
  "two_contexts = snd (plic_store (set_interrupt_level 1 True
     (snd (plic_store (snd (plic_store (new_plic [True] [demo_hart] 2) 4 [3, 0, 0, 0])) 0x2000 [2, 0, 0, 0]))) 0x2080 [2, 0, 0, 0])"

lemma set_interrupt_level_stale_pending:
  "let p = set_interrupt_level 1 False two_contexts
   in \<not> bit (level p 0) 1 \<and> \<not> candidate p (contexts p ! 0) 1 \<and> candidate p (contexts p ! 1) 1 \<and> bit (mip (procs p ! 0)) 9"
  by code_simp

end
