(* ===== verification/Cache_Sim.thy ===== *)
theory Cache_Sim
  imports PMP
begin

text \<open>
  The cache simulator (\<^verbatim>\<open>riscv/cachesim.cc\<close>): a set-associative cache whose tags are an array (\<open>cache_sim_t\<close>) and a
  fully associative one whose tags are an ordered map (\<open>fa_cache_sim_t\<close>), with random replacement by a linear-feedback shift register,
  counters and a chain of caches that handle misses. A pointer to a tag is its position. A cache and its miss handlers
  are the list of the chain. An access yields no state when the code would divide by zero or dereference a null
  pointer; the log of misses is output and not modelled.
\<close>

section \<open>State\<close>

datatype tag_store = Set_Assoc "uint64_t list" | Fully_Assoc "(uint64_t \<times> uint64_t) list"

record cache_sim_t =
  lfsr :: uint32_t
  sets :: uint64_t
  ways :: uint64_t
  linesz :: uint64_t
  idx_shift :: nat
  tags :: tag_store
  read_accesses :: uint64_t
  read_misses :: uint64_t
  bytes_read :: uint64_t
  write_accesses :: uint64_t
  write_misses :: uint64_t
  bytes_written :: uint64_t
  writebacks :: uint64_t

definition VALID :: uint64_t where "VALID = push_bit 63 1"
definition DIRTY :: uint64_t where "DIRTY = push_bit 62 1"

definition lfsr_next :: "uint32_t \<Rightarrow> uint32_t" where
  "lfsr_next reg = drop_bit 1 reg XOR (- (reg AND 1) AND 0xd0000001)"

section \<open>Construction\<close>

fun shift_of :: "nat \<Rightarrow> nat" where
  "shift_of x = (if 1 < x then Suc (shift_of (x div 2)) else 0)"

declare shift_of.simps [simp del]

definition init_cache :: "uint64_t \<Rightarrow> uint64_t \<Rightarrow> uint64_t \<Rightarrow> tag_store \<Rightarrow> cache_sim_t option" where
  "init_cache n_sets n_ways line tg =
     (if n_sets = 0 \<or> n_sets AND (n_sets - 1) \<noteq> 0 then None
      else if line < 8 \<or> line AND (line - 1) \<noteq> 0 then None
      else Some \<lparr>lfsr = 1, sets = n_sets, ways = n_ways, linesz = line, idx_shift = shift_of (unat line), tags = tg,
                 read_accesses = 0, read_misses = 0, bytes_read = 0, write_accesses = 0, write_misses = 0,
                 bytes_written = 0, writebacks = 0\<rparr>)"

definition new_cache_sim :: "uint64_t \<Rightarrow> uint64_t \<Rightarrow> uint64_t \<Rightarrow> cache_sim_t option" where
  "new_cache_sim n_sets n_ways line =
     (if 2 ^ 60 \<le> uint n_sets * uint n_ways then None
      else init_cache n_sets n_ways line (Set_Assoc (replicate (unat n_sets * unat n_ways) 0)))"

definition new_fa_cache_sim :: "uint64_t \<Rightarrow> uint64_t \<Rightarrow> cache_sim_t option" where
  "new_fa_cache_sim n_ways line = init_cache 1 n_ways line (Fully_Assoc [])"

definition is_digit :: "char \<Rightarrow> bool" where
  "is_digit ch \<longleftrightarrow> 48 \<le> (of_char ch :: nat) \<and> (of_char ch :: nat) \<le> 57"

definition is_space :: "char \<Rightarrow> bool" where
  "is_space ch \<longleftrightarrow> ch = CHR '' '' \<or> 9 \<le> (of_char ch :: nat) \<and> (of_char ch :: nat) \<le> 13"

definition digits_value :: "string \<Rightarrow> int" where
  "digits_value s = foldl (\<lambda>n ch. 10 * n + (of_char ch - 48)) 0 (takeWhile is_digit s)"

definition atoi :: "string \<Rightarrow> int" where
  "atoi s =
     (case dropWhile is_space s of
        CHR ''-'' # t \<Rightarrow> - digits_value t
      | CHR ''+'' # t \<Rightarrow> digits_value t
      | t \<Rightarrow> digits_value t)"

definition strchr :: "string \<Rightarrow> char \<Rightarrow> string option" where
  "strchr s ch = (case dropWhile (\<lambda>d. d \<noteq> ch) s of [] \<Rightarrow> None | t \<Rightarrow> Some t)"

definition construct :: "string \<Rightarrow> cache_sim_t option" where
  "construct config =
     (case strchr config (CHR '':'') of
        None \<Rightarrow> None
      | Some wp \<Rightarrow>
          (case strchr (tl wp) (CHR '':'') of
             None \<Rightarrow> None
           | Some bp \<Rightarrow>
               let n_sets = of_int (atoi config); n_ways = of_int (atoi (tl wp)); line = of_int (atoi (tl bp))
               in if 4 < n_ways \<and> n_sets = 1 then new_fa_cache_sim n_ways line
                  else new_cache_sim n_sets n_ways line))"

section \<open>Tags\<close>

definition cache_check_tag :: "cache_sim_t \<Rightarrow> uint64_t list \<Rightarrow> uint64_t \<Rightarrow> nat option" where
  "cache_check_tag c a addr =
     (let idx = unat (drop_bit (idx_shift c) addr AND (sets c - 1));
          tag = drop_bit (idx_shift c) addr OR VALID
      in find (\<lambda>j. tag = a ! j AND NOT DIRTY) [idx * unat (ways c) ..< idx * unat (ways c) + unat (ways c)])"

definition fa_check_tag :: "cache_sim_t \<Rightarrow> (uint64_t \<times> uint64_t) list \<Rightarrow> uint64_t \<Rightarrow> nat option" where
  "fa_check_tag c m addr = find (\<lambda>j. fst (m ! j) = drop_bit (idx_shift c) addr) [0..<length m]"

definition check_tag :: "cache_sim_t \<Rightarrow> uint64_t \<Rightarrow> nat option" where
  "check_tag c addr = (case tags c of Set_Assoc a \<Rightarrow> cache_check_tag c a addr | Fully_Assoc m \<Rightarrow> fa_check_tag c m addr)"

definition get_way :: "cache_sim_t \<Rightarrow> nat \<Rightarrow> uint64_t" where
  "get_way c j = (case tags c of Set_Assoc a \<Rightarrow> a ! j | Fully_Assoc m \<Rightarrow> snd (m ! j))"

definition set_way :: "cache_sim_t \<Rightarrow> nat \<Rightarrow> uint64_t \<Rightarrow> cache_sim_t" where
  "set_way c j v =
     (case tags c of
        Set_Assoc a \<Rightarrow> c\<lparr>tags := Set_Assoc (a[j := v])\<rparr>
      | Fully_Assoc m \<Rightarrow> c\<lparr>tags := Fully_Assoc (m[j := (fst (m ! j), v)])\<rparr>)"

definition cache_victimize :: "cache_sim_t \<Rightarrow> uint64_t list \<Rightarrow> uint64_t \<Rightarrow> uint64_t \<times> cache_sim_t" where
  "cache_victimize c a addr =
     (let idx = unat (drop_bit (idx_shift c) addr AND (sets c - 1));
          r = lfsr_next (lfsr c);
          way = unat (ucast r mod ways c);
          victim = a ! (idx * unat (ways c) + way)
      in (victim, c\<lparr>lfsr := r, tags := Set_Assoc (a[idx * unat (ways c) + way := drop_bit (idx_shift c) addr OR VALID])\<rparr>))"

definition map_put :: "uint64_t \<Rightarrow> uint64_t \<Rightarrow> (uint64_t \<times> uint64_t) list \<Rightarrow> (uint64_t \<times> uint64_t) list" where
  "map_put k v m = takeWhile (\<lambda>e. fst e < k) m @ (k, v) # dropWhile (\<lambda>e. fst e \<le> k) m"

definition fa_victimize :: "cache_sim_t \<Rightarrow> (uint64_t \<times> uint64_t) list \<Rightarrow> uint64_t \<Rightarrow> uint64_t \<times> cache_sim_t" where
  "fa_victimize c m addr =
     (let line = drop_bit (idx_shift c) addr
      in if of_nat (length m) = ways c then
           let r = lfsr_next (lfsr c);
               i = unat (ucast r mod ways c)
           in (snd (m ! i), c\<lparr>lfsr := r, tags := Fully_Assoc (map_put line (line OR VALID) (take i m @ drop (Suc i) m))\<rparr>)
         else (0, c\<lparr>tags := Fully_Assoc (map_put line (line OR VALID) m)\<rparr>))"

definition victimize :: "cache_sim_t \<Rightarrow> uint64_t \<Rightarrow> (uint64_t \<times> cache_sim_t) option" where
  "victimize c addr =
     (if ways c = 0 then None
      else case tags c of Set_Assoc a \<Rightarrow> Some (cache_victimize c a addr) | Fully_Assoc m \<Rightarrow> Some (fa_victimize c m addr))"

section \<open>Accesses\<close>

definition count_access :: "uint64_t \<Rightarrow> bool \<Rightarrow> cache_sim_t \<Rightarrow> cache_sim_t" where
  "count_access n store c =
     (if store then c\<lparr>write_accesses := write_accesses c + 1, bytes_written := bytes_written c + n\<rparr>
      else c\<lparr>read_accesses := read_accesses c + 1, bytes_read := bytes_read c + n\<rparr>)"

definition count_miss :: "bool \<Rightarrow> cache_sim_t \<Rightarrow> cache_sim_t" where
  "count_miss store c = (if store then c\<lparr>write_misses := write_misses c + 1\<rparr> else c\<lparr>read_misses := read_misses c + 1\<rparr>)"

function access :: "cache_sim_t list \<Rightarrow> uint64_t \<Rightarrow> uint64_t \<Rightarrow> bool \<Rightarrow> cache_sim_t list option" where
  "access [] addr n store = Some []"
| "access (c # miss_handler) addr n store =
     (let c = count_access n store c
      in case check_tag c addr of
           Some hit_way \<Rightarrow> Some ((if store then set_way c hit_way (get_way c hit_way OR DIRTY) else c) # miss_handler)
         | None \<Rightarrow>
             (case victimize (count_miss store c) addr of
                None \<Rightarrow> None
              | Some (victim, c) \<Rightarrow>
                  let dirty = victim AND (VALID OR DIRTY) = VALID OR DIRTY;
                      dirty_addr = push_bit (idx_shift c) (victim AND NOT (VALID OR DIRTY))
                  in case (if dirty then access miss_handler dirty_addr (linesz c) True else Some miss_handler) of
                       None \<Rightarrow> None
                     | Some miss_handler \<Rightarrow>
                         let c = (if dirty then c\<lparr>writebacks := writebacks c + 1\<rparr> else c)
                         in case access miss_handler (addr AND NOT (linesz c - 1)) (linesz c) False of
                              None \<Rightarrow> None
                            | Some miss_handler \<Rightarrow>
                                if store then
                                  (case check_tag c addr of
                                     None \<Rightarrow> None
                                   | Some way \<Rightarrow> Some (set_way c way (get_way c way OR DIRTY) # miss_handler))
                                else Some (c # miss_handler)))"

  by pat_completeness auto

termination
proof -
  txt \<open>The second request of a miss goes to the miss handlers as the first one left them: the recursion is nested, and ends because
    a chain keeps its length.\<close>
  have len: "access_dom (cs, addr, n, store) \<Longrightarrow> access cs addr n store = Some cs' \<Longrightarrow> length cs' = length cs" for cs addr n store cs'
  proof (induction arbitrary: cs' rule: access.pinduct)
    case (1 addr n store)
    then show ?case by (simp add: access.psimps)
  next
    case (2 c mh addr n store)
    note eq = 2(4) [unfolded access.psimps(2) [OF 2(1)] Let_def]
    show ?case
    proof (cases "check_tag (count_access n store c) addr")
      case (Some j)
      then show ?thesis using eq by auto
    next
      case None
      then obtain v d where v: "victimize (count_miss store (count_access n store c)) addr = Some (v, d)"
        using eq by (auto split: option.splits)
      let ?dirty = "v AND (VALID OR DIRTY) = VALID OR DIRTY"
      let ?first = "if ?dirty then access mh (push_bit (idx_shift d) (v AND NOT (VALID OR DIRTY))) (linesz d) True else Some mh"
      obtain mh1 where first: "?first = Some mh1" using eq None v by (auto split: option.splits)
      have "length mh1 = length mh"
        using first 2(2) [OF refl None v refl refl refl] by (cases ?dirty) simp_all
      moreover have "length cs' = Suc (length mh1)"
        using eq None v first 2(3) [OF refl None v refl refl refl first refl] by (auto split: option.splits if_splits)
      ultimately show ?thesis by simp
    qed
  qed
  show ?thesis
    by (relation "measure (\<lambda>(cs, addr, n, store). length cs)") (auto split: if_splits dest: len)
qed

definition clean_invalidate_line :: "bool \<Rightarrow> bool \<Rightarrow> uint64_t \<Rightarrow> cache_sim_t \<Rightarrow> cache_sim_t" where
  "clean_invalidate_line clean inval cur_addr c =
     (case check_tag c cur_addr of
        None \<Rightarrow> c
      | Some j \<Rightarrow>
          let c = (if clean \<and> get_way c j AND DIRTY \<noteq> 0
                   then set_way (c\<lparr>writebacks := writebacks c + 1\<rparr>) j (get_way c j AND NOT DIRTY) else c)
          in if inval then set_way c j (get_way c j AND NOT VALID) else c)"

partial_function (option) clean_invalidate_loop :: "bool \<Rightarrow> bool \<Rightarrow> uint64_t \<Rightarrow> uint64_t \<Rightarrow> cache_sim_t \<Rightarrow> cache_sim_t option" where
  "clean_invalidate_loop clean inval end_addr cur_addr c =
     (if cur_addr < end_addr
      then clean_invalidate_loop clean inval end_addr (cur_addr + linesz c) (clean_invalidate_line clean inval cur_addr c)
      else Some c)"

fun clean_invalidate :: "cache_sim_t list \<Rightarrow> uint64_t \<Rightarrow> uint64_t \<Rightarrow> bool \<Rightarrow> bool \<Rightarrow> cache_sim_t list option" where
  "clean_invalidate [] addr n clean inval = Some []"
| "clean_invalidate (c # miss_handler) addr n clean inval =
     (let start_addr = addr AND NOT (linesz c - 1);
          end_addr = (addr + n + linesz c - 1) AND NOT (linesz c - 1)
      in case clean_invalidate_loop clean inval end_addr start_addr c of
           None \<Rightarrow> None
         | Some c \<Rightarrow> map_option (\<lambda>mh. c # mh) (clean_invalidate miss_handler addr n clean inval))"

definition icache_trace :: "cache_sim_t list \<Rightarrow> uint64_t \<Rightarrow> uint64_t \<Rightarrow> access_type \<Rightarrow> cache_sim_t list option" where
  "icache_trace cs addr n type = (if type = FETCH then access cs addr n False else Some cs)"

definition dcache_trace :: "cache_sim_t list \<Rightarrow> uint64_t \<Rightarrow> uint64_t \<Rightarrow> access_type \<Rightarrow> cache_sim_t list option" where
  "dcache_trace cs addr n type = (if type = LOAD \<or> type = STORE then access cs addr n (type = STORE) else Some cs)"

section \<open>Tag words\<close>

definition tag_line :: "uint64_t \<Rightarrow> uint64_t" where
  "tag_line e = e AND NOT (VALID OR DIRTY)"

definition line_of :: "cache_sim_t \<Rightarrow> uint64_t \<Rightarrow> uint64_t" where
  "line_of c addr = drop_bit (idx_shift c) addr"

lemma bit_VALID: "bit VALID n \<longleftrightarrow> n = 63"
  unfolding VALID_def bit_push_bit_iff bit_1_iff by auto

lemma bit_DIRTY: "bit DIRTY n \<longleftrightarrow> n = 62"
  unfolding DIRTY_def bit_push_bit_iff bit_1_iff by auto

lemma bit_tag_line: "bit (tag_line e) n \<longleftrightarrow> bit e n \<and> n \<noteq> 62 \<and> n \<noteq> 63"
  unfolding tag_line_def bit_and_iff bit_not_iff bit_or_iff bit_VALID bit_DIRTY by (auto dest: bit_imp_le_length)

lemma bit_valid_tag: "bit (l OR VALID) n \<longleftrightarrow> bit l n \<or> n = 63"
  by (simp add: bit_or_iff bit_VALID)

lemma bit_dirty_tag: "bit (e OR DIRTY) n \<longleftrightarrow> bit e n \<or> n = 62"
  by (simp add: bit_or_iff bit_DIRTY)

lemma bit_clean_tag: "bit (e AND NOT DIRTY) n \<longleftrightarrow> bit e n \<and> n \<noteq> 62"
  unfolding bit_and_iff bit_not_iff bit_DIRTY by (auto dest: bit_imp_le_length)

lemma bit_inval_tag: "bit (e AND NOT VALID) n \<longleftrightarrow> bit e n \<and> n \<noteq> 63"
  unfolding bit_and_iff bit_not_iff bit_VALID by (auto dest: bit_imp_le_length)

lemmas tag_bits = bit_VALID bit_DIRTY bit_tag_line bit_valid_tag bit_dirty_tag bit_clean_tag bit_inval_tag

lemma tag_line_simps [simp]: "tag_line (e OR DIRTY) = tag_line e" "tag_line (e AND NOT DIRTY) = tag_line e" "tag_line (e AND NOT VALID) = tag_line e"
  by (rule bit_word_eqI; auto simp: tag_bits)+

lemma dirty_victim: "v AND (VALID OR DIRTY) = VALID OR DIRTY \<longleftrightarrow> bit v 63 \<and> bit v 62"
proof
  assume "v AND (VALID OR DIRTY) = VALID OR DIRTY"
  then have "bit (v AND (VALID OR DIRTY)) n = bit (VALID OR DIRTY) n" for n by simp
  from this [of 63] this [of 62] show "bit v 63 \<and> bit v 62" by (simp add: bit_and_iff bit_or_iff tag_bits)
next
  assume "bit v 63 \<and> bit v 62"
  then show "v AND (VALID OR DIRTY) = VALID OR DIRTY" by (intro bit_word_eqI) (auto simp: bit_and_iff bit_or_iff tag_bits)
qed

lemma tag_match:
  assumes "\<not> bit l 62" "\<not> bit l 63"
  shows "l OR VALID = e AND NOT DIRTY \<longleftrightarrow> bit e 63 \<and> tag_line e = l"
proof
  assume eq: "l OR VALID = e AND NOT DIRTY"
  have b: "bit (l OR VALID) n = bit (e AND NOT DIRTY) n" for n using eq by simp
  have "tag_line e = l"
  proof (rule bit_word_eqI)
    fix n
    show "bit (tag_line e) n = bit l n" using b [of n] assms by (auto simp: tag_bits)
  qed
  then show "bit e 63 \<and> tag_line e = l" using b [of 63] by (simp add: tag_bits)
next
  assume e: "bit e 63 \<and> tag_line e = l"
  show "l OR VALID = e AND NOT DIRTY" using e assms by (intro bit_word_eqI) (auto simp: tag_bits)
qed

lemma tag_line_fresh: "\<not> bit l 62 \<Longrightarrow> \<not> bit l 63 \<Longrightarrow> tag_line (l OR VALID) = l"
  by (intro bit_word_eqI) (auto simp: tag_bits)

section \<open>What a cache relies on\<close>

text \<open>The contract of the two tag stores. A cache holds a set of tag words; the lookup finds the word of the line of an address,
  words are replaced in place, and a replacement exchanges at most one word for the line asked for. The words of a set-associative cache are
  its valid tags; the fully associative one finds a tag by its key and does not look at the valid bit.\<close>

locale tag_memory =
  fixes ok :: "'c \<Rightarrow> bool"
    and entries :: "'c \<Rightarrow> uint64_t set"
    and line :: "'c \<Rightarrow> uint64_t \<Rightarrow> uint64_t"
    and lookup :: "'c \<Rightarrow> uint64_t \<Rightarrow> nat option"
    and get :: "'c \<Rightarrow> nat \<Rightarrow> uint64_t"
    and put :: "'c \<Rightarrow> nat \<Rightarrow> uint64_t \<Rightarrow> 'c"
    and evict :: "'c \<Rightarrow> uint64_t \<Rightarrow> (uint64_t \<times> 'c) option"
  assumes entry_unique: "ok c \<Longrightarrow> e \<in> entries c \<Longrightarrow> e' \<in> entries c \<Longrightarrow> tag_line e = tag_line e' \<Longrightarrow> e = e'"
    and line_bits: "ok c \<Longrightarrow> \<not> bit (line c addr) 62 \<and> \<not> bit (line c addr) 63"
    and lookup_None: "ok c \<Longrightarrow> lookup c addr = None \<Longrightarrow> e \<in> entries c \<Longrightarrow> tag_line e \<noteq> line c addr"
    and lookup_Some: "ok c \<Longrightarrow> lookup c addr = Some j \<Longrightarrow> get c j \<in> entries c \<and> tag_line (get c j) = line c addr"
    and put_entry: "ok c \<Longrightarrow> lookup c addr = Some j \<Longrightarrow> bit v 63 = bit (get c j) 63 \<Longrightarrow> tag_line v = line c addr \<Longrightarrow>
      ok (put c j v) \<and> entries (put c j v) = insert v (entries c - {get c j}) \<and> line (put c j v) = line c"
    and evict_entry: "ok c \<Longrightarrow> lookup c addr = None \<Longrightarrow>
      \<exists>v c' out. evict c addr = Some (v, c') \<and> ok c' \<and> entries c' = insert (line c addr OR VALID) (entries c - out) \<and>
        out \<subseteq> {v} \<inter> entries c \<and> (bit v 63 \<longrightarrow> out = {v}) \<and> line c' = line c"
begin

definition resident :: "'c \<Rightarrow> uint64_t \<Rightarrow> bool" where
  "resident c addr \<longleftrightarrow> (\<exists>e \<in> entries c. tag_line e = line c addr)"

definition dirty :: "'c \<Rightarrow> uint64_t \<Rightarrow> bool" where
  "dirty c addr \<longleftrightarrow> (\<exists>e \<in> entries c. tag_line e = line c addr \<and> bit e 62)"

lemma lookup_resident: "ok c \<Longrightarrow> lookup c addr \<noteq> None \<longleftrightarrow> resident c addr"
  using lookup_None lookup_Some unfolding resident_def by (metis not_None_eq)

lemma lookup_dirty: "ok c \<Longrightarrow> lookup c addr = Some j \<Longrightarrow> dirty c addr \<longleftrightarrow> bit (get c j) 62"
  using lookup_Some entry_unique unfolding dirty_def by metis

lemma fresh_resident:
  assumes "ok c" "lookup c addr = None" "evict c addr = Some (v, c')"
  shows "ok c'" "line c' = line c" "lookup c' addr \<noteq> None"
    and "\<exists>out. entries c' = insert (line c addr OR VALID) (entries c - out) \<and> out \<subseteq> {v} \<inter> entries c \<and> (bit v 63 \<longrightarrow> out = {v})"
proof -
  show c': "ok c'" "line c' = line c"
    and e: "\<exists>out. entries c' = insert (line c addr OR VALID) (entries c - out) \<and> out \<subseteq> {v} \<inter> entries c \<and> (bit v 63 \<longrightarrow> out = {v})"
    using evict_entry [OF assms(1,2)] assms(3) by auto
  have "tag_line (line c addr OR VALID) = line c' addr"
    using line_bits [OF assms(1)] c'(2) tag_line_fresh by simp
  then have "resident c' addr" using e unfolding resident_def by blast
  then show "lookup c' addr \<noteq> None" using lookup_resident [OF c'(1)] by simp
qed

lemma mark_dirty:
  assumes "ok c" "lookup c addr = Some j"
  shows "ok (put c j (get c j OR DIRTY))" "line (put c j (get c j OR DIRTY)) = line c"
    and "entries (put c j (get c j OR DIRTY)) = insert (get c j OR DIRTY) (entries c - {get c j})"
    and "dirty (put c j (get c j OR DIRTY)) addr"
proof -
  have g: "get c j \<in> entries c" "tag_line (get c j) = line c addr" using lookup_Some [OF assms] by simp_all
  then have v: "bit (get c j OR DIRTY) 63 = bit (get c j) 63" "tag_line (get c j OR DIRTY) = line c addr"
    by (simp_all add: tag_bits)
  show p: "ok (put c j (get c j OR DIRTY))" "line (put c j (get c j OR DIRTY)) = line c"
    "entries (put c j (get c j OR DIRTY)) = insert (get c j OR DIRTY) (entries c - {get c j})"
    using put_entry [OF assms v] by simp_all
  show "dirty (put c j (get c j OR DIRTY)) addr" unfolding dirty_def p using v(2) by (auto simp: tag_bits)
qed

end

section \<open>The set-associative tags\<close>

definition geometry_ok :: "cache_sim_t \<Rightarrow> bool" where
  "geometry_ok c \<longleftrightarrow> sets c \<noteq> 0 \<and> sets c AND (sets c - 1) = 0 \<and> ways c \<noteq> 0 \<and> linesz c = 2 ^ idx_shift c \<and> 3 \<le> idx_shift c \<and> idx_shift c < 64"

definition set_index :: "cache_sim_t \<Rightarrow> uint64_t \<Rightarrow> nat" where
  "set_index c l = unat (l AND (sets c - 1))"

definition array_ok :: "cache_sim_t \<Rightarrow> uint64_t list \<Rightarrow> bool" where
  "array_ok c a \<longleftrightarrow> length a = unat (sets c) * unat (ways c) \<and>
     (\<forall>j<length a. bit (a ! j) 63 \<longrightarrow> set_index c (tag_line (a ! j)) = j div unat (ways c)) \<and>
     (\<forall>i<length a. \<forall>j<length a. bit (a ! i) 63 \<longrightarrow> bit (a ! j) 63 \<longrightarrow> tag_line (a ! i) = tag_line (a ! j) \<longrightarrow> i = j)"

definition array_entries :: "uint64_t list \<Rightarrow> uint64_t set" where
  "array_entries a = {e \<in> set a. bit e 63}"

lemma ways_pos: "geometry_ok c \<Longrightarrow> 0 < unat (ways c)"
  by (simp add: geometry_ok_def unat_gt_0)

lemma set_index_less: "geometry_ok c \<Longrightarrow> set_index c l < unat (sets c)"
proof -
  assume g: "geometry_ok c"
  have "unat (l AND (sets c - 1)) \<le> unat (sets c - 1)" by (simp add: word_and_le1 flip: word_le_nat_alt)
  also have "\<dots> < unat (sets c)" using g by (simp add: geometry_ok_def unat_minus_one unat_gt_0)
  finally show ?thesis by (simp add: set_index_def)
qed

lemma window_bound:
  assumes "geometry_ok c" "j < set_index c l * unat (ways c) + unat (ways c)"
  shows "j < unat (sets c) * unat (ways c)"
proof -
  have "Suc (set_index c l) * unat (ways c) \<le> unat (sets c) * unat (ways c)"
    using set_index_less [OF assms(1), of l] by (intro mult_le_mono1) simp
  then show ?thesis using assms(2) by simp
qed

lemma in_window: "geometry_ok c \<Longrightarrow> i * unat (ways c) \<le> j \<and> j < i * unat (ways c) + unat (ways c) \<longleftrightarrow> j div unat (ways c) = i"
proof
  assume "geometry_ok c" "j div unat (ways c) = i"
  then show "i * unat (ways c) \<le> j \<and> j < i * unat (ways c) + unat (ways c)"
    using div_times_less_eq_dividend [of j "unat (ways c)"] dividend_less_div_times [OF ways_pos, of c j] by auto
qed (auto intro: div_nat_eqI simp: mult.commute add.commute)

lemma array_index: "array_ok c a \<Longrightarrow> j < length a \<Longrightarrow> bit (a ! j) 63 \<Longrightarrow> j div unat (ways c) = set_index c (tag_line (a ! j))"
  by (simp add: array_ok_def)

lemma array_unique:
  "array_ok c a \<Longrightarrow> i < length a \<Longrightarrow> j < length a \<Longrightarrow> bit (a ! i) 63 \<Longrightarrow> bit (a ! j) 63 \<Longrightarrow> tag_line (a ! i) = tag_line (a ! j) \<Longrightarrow> i = j"
  by (simp add: array_ok_def)

lemma line_of_bits: "geometry_ok c \<Longrightarrow> \<not> bit (line_of c addr) 62 \<and> \<not> bit (line_of c addr) 63"
  by (auto simp: line_of_def bit_drop_bit_eq geometry_ok_def dest: bit_imp_le_length)

lemma cache_check_tag_iff:
  assumes g: "geometry_ok c" and a: "array_ok c a"
  shows "cache_check_tag c a addr = Some j \<longleftrightarrow> j < length a \<and> bit (a ! j) 63 \<and> tag_line (a ! j) = line_of c addr" (is "_ = ?r")
proof -
  let ?l = "line_of c addr"
  let ?w = "unat (ways c)"
  let ?P = "\<lambda>j. bit (a ! j) 63 \<and> tag_line (a ! j) = ?l"
  have def: "cache_check_tag c a addr = find ?P [set_index c ?l * ?w ..< set_index c ?l * ?w + ?w]"
    using tag_match line_of_bits [OF g, of addr]
    by (simp add: cache_check_tag_def Let_def set_index_def flip: line_of_def)
  have in_w: "j \<in> set [set_index c ?l * ?w ..< set_index c ?l * ?w + ?w]" if "j < length a" "?P j" for j
    using that array_index [OF a] in_window [OF g, of "set_index c ?l" j] by simp
  show ?thesis
  proof
    assume "cache_check_tag c a addr = Some j"
    then have "?P j" "j \<in> set [set_index c ?l * ?w ..< set_index c ?l * ?w + ?w]"
      unfolding def by (auto simp: find_Some_iff2 in_set_conv_nth find_Some_iff)
    then show ?r using window_bound [OF g, of j ?l] a by (simp add: array_ok_def)
  next
    assume r: ?r
    then have "find ?P [set_index c ?l * ?w ..< set_index c ?l * ?w + ?w] \<noteq> None" using in_w [of j] by (auto simp: find_None_iff)
    then obtain i where i: "find ?P [set_index c ?l * ?w ..< set_index c ?l * ?w + ?w] = Some i" by auto
    then have "?P i" "i \<in> set [set_index c ?l * ?w ..< set_index c ?l * ?w + ?w]"
      by (auto simp: find_Some_iff in_set_conv_nth)
    then have "i < length a" "?P i" using window_bound [OF g, of i ?l] a by (simp_all add: array_ok_def)
    then have "i = j" using r array_unique [OF a] by simp
    then show "cache_check_tag c a addr = Some j" using i def by simp
  qed
qed

lemma cache_check_tag_None:
  "geometry_ok c \<Longrightarrow> array_ok c a \<Longrightarrow> cache_check_tag c a addr = None \<longleftrightarrow> (\<forall>e \<in> array_entries a. tag_line e \<noteq> line_of c addr)"
proof -
  assume ga: "geometry_ok c" "array_ok c a"
  have "cache_check_tag c a addr = None \<longleftrightarrow> (\<forall>j. \<not> (j < length a \<and> bit (a ! j) 63 \<and> tag_line (a ! j) = line_of c addr))"
    using cache_check_tag_iff [OF ga, of addr] by (cases "cache_check_tag c a addr") auto
  then show ?thesis by (auto simp: array_entries_def in_set_conv_nth)
qed

lemma array_put_ok:
  assumes a: "array_ok c a" and j: "j < length a"
    and v: "bit v 63 \<Longrightarrow> set_index c (tag_line v) = j div unat (ways c)"
      "\<And>i. bit v 63 \<Longrightarrow> i < length a \<Longrightarrow> i \<noteq> j \<Longrightarrow> bit (a ! i) 63 \<Longrightarrow> tag_line (a ! i) \<noteq> tag_line v"
  shows "array_ok c (a[j := v])"
proof -
  have "i = k" if "i < length a" "k < length a" "bit (a[j := v] ! i) 63" "bit (a[j := v] ! k) 63"
      "tag_line (a[j := v] ! i) = tag_line (a[j := v] ! k)" for i k
    using that v(2) [of i] v(2) [of k] array_unique [OF a, of i k] by (cases "i = j"; cases "k = j") auto
  moreover have "set_index c (tag_line (a[j := v] ! i)) = i div unat (ways c)" if "i < length a" "bit (a[j := v] ! i) 63" for i
    using that v(1) array_index [OF a, of i] by (cases "i = j") auto
  ultimately show ?thesis using a unfolding array_ok_def by simp
qed

lemma array_put_entries:
  assumes a: "array_ok c a" and j: "j < length a" and v: "bit v 63"
  shows "array_entries (a[j := v]) = insert v (array_entries a - {a ! j})"
proof (rule set_eqI)
  fix e
  have "e \<in> array_entries (a[j := v]) \<longleftrightarrow> (\<exists>i<length a. i \<noteq> j \<and> e = a ! i \<and> bit e 63) \<or> e = v"
    using j v by (auto simp: array_entries_def in_set_conv_nth nth_list_update)
  also have "(\<exists>i<length a. i \<noteq> j \<and> e = a ! i \<and> bit e 63) \<longleftrightarrow> e \<in> array_entries a - {a ! j}"
    using array_unique [OF a] j by (auto simp: array_entries_def in_set_conv_nth)
  finally show "e \<in> array_entries (a[j := v]) \<longleftrightarrow> e \<in> insert v (array_entries a - {a ! j})" by blast
qed

lemma array_put_invalid:
  assumes a: "array_ok c a" and j: "j < length a" and v: "\<not> bit v 63"
  shows "array_entries (a[j := v]) = array_entries a - {a ! j}"
proof (rule set_eqI)
  fix e
  have "e \<in> array_entries (a[j := v]) \<longleftrightarrow> (\<exists>i<length a. i \<noteq> j \<and> e = a ! i \<and> bit e 63)"
    using j v by (auto simp: array_entries_def in_set_conv_nth nth_list_update)
  also have "\<dots> \<longleftrightarrow> e \<in> array_entries a - {a ! j}"
    using array_unique [OF a] j by (auto simp: array_entries_def in_set_conv_nth)
  finally show "e \<in> array_entries (a[j := v]) \<longleftrightarrow> e \<in> array_entries a - {a ! j}" .
qed

lemma cache_put_ok:
  assumes g: "geometry_ok c" and a: "array_ok c a" and hit: "cache_check_tag c a addr = Some j"
    and v: "bit v 63 \<Longrightarrow> tag_line v = line_of c addr"
  shows "array_ok c (a[j := v])"
proof -
  have j: "j < length a" "bit (a ! j) 63" "tag_line (a ! j) = line_of c addr" using hit cache_check_tag_iff [OF g a] by simp_all
  show ?thesis
  proof (rule array_put_ok [OF a j(1)])
    show "set_index c (tag_line v) = j div unat (ways c)" if "bit v 63" using v [OF that] j(3) array_index [OF a j(1,2)] by simp
    show "tag_line (a ! i) \<noteq> tag_line v" if "bit v 63" "i < length a" "i \<noteq> j" "bit (a ! i) 63" for i
      using array_unique [OF a that(2) j(1) that(4) j(2)] v [OF that(1)] that(3) j(3) by auto
  qed
qed

lemma cache_victimize_ok:
  assumes g: "geometry_ok c" and a: "array_ok c a" and miss: "cache_check_tag c a addr = None"
  defines "k \<equiv> set_index c (line_of c addr) * unat (ways c) + unat (ucast (lfsr_next (lfsr c)) mod ways c)"
  shows "cache_victimize c a addr = (a ! k, c\<lparr>lfsr := lfsr_next (lfsr c), tags := Set_Assoc (a[k := line_of c addr OR VALID])\<rparr>)"
    and "k < length a" "array_ok c (a[k := line_of c addr OR VALID])"
    and "array_entries (a[k := line_of c addr OR VALID]) = insert (line_of c addr OR VALID) (array_entries a - {a ! k})"
proof -
  show "cache_victimize c a addr = (a ! k, c\<lparr>lfsr := lfsr_next (lfsr c), tags := Set_Assoc (a[k := line_of c addr OR VALID])\<rparr>)"
    by (simp add: cache_victimize_def Let_def k_def set_index_def flip: line_of_def)
  have "unat (ucast (lfsr_next (lfsr c)) mod ways c) < unat (ways c)" using ways_pos [OF g] by (simp add: unat_mod)
  then have w: "set_index c (line_of c addr) * unat (ways c) \<le> k" "k < set_index c (line_of c addr) * unat (ways c) + unat (ways c)"
    by (simp_all add: k_def)
  then have kd: "k div unat (ways c) = set_index c (line_of c addr)" using in_window [OF g] by blast
  show k: "k < length a" using window_bound [OF g w(2)] a by (simp add: array_ok_def)
  have t: "tag_line (line_of c addr OR VALID) = line_of c addr" "bit (line_of c addr OR VALID) 63"
    using tag_line_fresh line_of_bits [OF g] by (simp_all add: tag_bits)
  have "tag_line (a ! i) \<noteq> line_of c addr" if "i < length a" "bit (a ! i) 63" for i
    using miss that cache_check_tag_None [OF g a] by (simp add: array_entries_def)
  then show "array_ok c (a[k := line_of c addr OR VALID])" using t kd by (intro array_put_ok [OF a k]) auto
  show "array_entries (a[k := line_of c addr OR VALID]) = insert (line_of c addr OR VALID) (array_entries a - {a ! k})"
    by (rule array_put_entries [OF a k t(2)])
qed

section \<open>The fully associative tags\<close>

definition map_ok :: "cache_sim_t \<Rightarrow> (uint64_t \<times> uint64_t) list \<Rightarrow> bool" where
  "map_ok c m \<longleftrightarrow> length m \<le> unat (ways c) \<and> sorted_wrt (<) (map fst m) \<and> (\<forall>e \<in> set m. tag_line (snd e) = fst e)"

definition map_entries :: "(uint64_t \<times> uint64_t) list \<Rightarrow> uint64_t set" where
  "map_entries m = snd ` set m"

lemma map_ok_entry: "map_ok c m \<Longrightarrow> e \<in> set m \<Longrightarrow> tag_line (snd e) = fst e"
  by (simp add: map_ok_def)

lemma map_ok_keys: "map_ok c m \<Longrightarrow> distinct (map fst m)"
  by (simp add: map_ok_def strict_sorted_iff)

lemma map_ok_distinct: "map_ok c m \<Longrightarrow> distinct m"
  using map_ok_keys by (simp add: distinct_map)

lemma map_ok_inj: "map_ok c m \<Longrightarrow> inj_on snd (set m)"
  by (rule inj_onI) (metis map_ok_entry prod_eqI)

lemma map_entry_unique: "map_ok c m \<Longrightarrow> e \<in> map_entries m \<Longrightarrow> e' \<in> map_entries m \<Longrightarrow> tag_line e = tag_line e' \<Longrightarrow> e = e'"
  unfolding map_entries_def using map_ok_keys [of c m] map_ok_entry [of c m]
  by (auto simp: distinct_map inj_on_def) (metis fst_conv snd_conv)

lemma fa_check_tag_Some:
  assumes "map_ok c m" "fa_check_tag c m addr = Some j"
  shows "j < length m" "fst (m ! j) = line_of c addr" "snd (m ! j) \<in> map_entries m" "tag_line (snd (m ! j)) = line_of c addr"
proof -
  show j: "j < length m" "fst (m ! j) = line_of c addr"
    using assms(2) by (auto simp: fa_check_tag_def find_Some_iff line_of_def)
  then show "snd (m ! j) \<in> map_entries m" "tag_line (snd (m ! j)) = line_of c addr"
    using map_ok_entry [OF assms(1), of "m ! j"] by (simp_all add: map_entries_def)
qed

lemma fa_check_tag_None: "fa_check_tag c m addr = None \<longleftrightarrow> (\<forall>e \<in> set m. fst e \<noteq> line_of c addr)"
  unfolding fa_check_tag_def find_None_iff line_of_def by (simp add: all_set_conv_all_nth)

lemma fa_put_ok:
  assumes m: "map_ok c m" and j: "j < length m" and v: "tag_line v = fst (m ! j)"
  shows "map_ok c (m[j := (fst (m ! j), v)])"
    and "map_entries (m[j := (fst (m ! j), v)]) = insert v (map_entries m - {snd (m ! j)})"
proof -
  have s: "set (m[j := (fst (m ! j), v)]) = insert (fst (m ! j), v) (set m - {m ! j})"
    by (rule set_update_distinct [OF map_ok_distinct [OF m] j])
  have "map fst (m[j := (fst (m ! j), v)]) = map fst m" using j by (simp add: map_update list_update_same_conv)
  then show "map_ok c (m[j := (fst (m ! j), v)])" using m v unfolding map_ok_def s by simp
  have "snd ` (set m - {m ! j}) = map_entries m - {snd (m ! j)}"
    using inj_on_image_set_diff [OF map_ok_inj [OF m], of "set m" "{m ! j}"] j by (simp add: map_entries_def)
  then show "map_entries (m[j := (fst (m ! j), v)]) = insert v (map_entries m - {snd (m ! j)})"
    unfolding map_entries_def [of "m[j := (fst (m ! j), v)]"] s by simp
qed

lemma map_put_ok:
  assumes m: "sorted_wrt (<) (map fst m)" "k \<notin> fst ` set m"
  shows "sorted_wrt (<) (map fst (map_put k v m))" "set (map_put k v m) = insert (k, v) (set m)" "length (map_put k v m) = Suc (length m)"
proof -
  have d: "dropWhile (\<lambda>e. fst e \<le> k) m = dropWhile (\<lambda>e. fst e < k) m"
    using m(2) by (intro dropWhile_cong) (auto simp: le_less image_iff)
  have split: "takeWhile (\<lambda>e. fst e < k) m @ dropWhile (\<lambda>e. fst e < k) m = m" by simp
  have "set m = set (takeWhile (\<lambda>e. fst e < k) m) \<union> set (dropWhile (\<lambda>e. fst e < k) m)"
    using arg_cong [OF split, of set] unfolding set_append by (rule sym)
  then show "set (map_put k v m) = insert (k, v) (set m)" by (simp add: map_put_def d)
  have "length m = length (takeWhile (\<lambda>e. fst e < k) m) + length (dropWhile (\<lambda>e. fst e < k) m)"
    using arg_cong [OF split, of length] unfolding length_append by (rule sym)
  then show "length (map_put k v m) = Suc (length m)" by (simp add: map_put_def d)
  have "sorted_wrt (<) (map fst (takeWhile (\<lambda>e. fst e < k) m @ dropWhile (\<lambda>e. fst e < k) m))" using m(1) by simp
  then have parts: "sorted_wrt (<) (map fst (takeWhile (\<lambda>e. fst e < k) m))" "sorted_wrt (<) (map fst (dropWhile (\<lambda>e. fst e < k) m))"
    "\<forall>x \<in> set (takeWhile (\<lambda>e. fst e < k) m). \<forall>y \<in> set (dropWhile (\<lambda>e. fst e < k) m). fst x < fst y"
    unfolding map_append sorted_wrt_append by auto
  have "k < fst y" if y: "y \<in> set (dropWhile (\<lambda>e. fst e < k) m)" for y
  proof -
    obtain h t where ht: "dropWhile (\<lambda>e. fst e < k) m = h # t" using y by (cases "dropWhile (\<lambda>e. fst e < k) m") auto
    then have "\<not> fst h < k" "h \<in> set m" using hd_dropWhile [of "\<lambda>e. fst e < k" m] set_dropWhileD [of h "\<lambda>e. fst e < k" m] by auto
    then have "k < fst h" using m(2) by (metis image_eqI linorder_neqE)
    then show ?thesis using y parts(2) unfolding ht by (auto dest: less_trans)
  qed
  moreover have "fst x < k" if "x \<in> set (takeWhile (\<lambda>e. fst e < k) m)" for x using that by (rule set_takeWhileD [THEN conjunct2])
  ultimately show "sorted_wrt (<) (map fst (map_put k v m))"
    unfolding map_put_def d using parts by (auto simp: sorted_wrt_append dest: less_trans)
qed

lemma map_remove_ok:
  assumes m: "map_ok c m" and i: "i < length m"
  shows "sorted_wrt (<) (map fst (take i m @ drop (Suc i) m))" "set (take i m @ drop (Suc i) m) = set m - {m ! i}"
proof -
  have e: "m = take i m @ m ! i # drop (Suc i) m" using id_take_nth_drop [OF i] .
  have "sorted_wrt (<) (map fst (take i m @ m ! i # drop (Suc i) m))" using m e by (simp add: map_ok_def)
  then show "sorted_wrt (<) (map fst (take i m @ drop (Suc i) m))" by (auto simp: sorted_wrt_append)
  have "distinct (take i m @ m ! i # drop (Suc i) m)" using map_ok_distinct [OF m] e by simp
  moreover have "set m = insert (m ! i) (set (take i m @ drop (Suc i) m))" using arg_cong [OF e, of set] by simp
  ultimately show "set (take i m @ drop (Suc i) m) = set m - {m ! i}" by auto
qed

lemma map_put_map_ok:
  assumes g: "geometry_ok c" and m: "sorted_wrt (<) (map fst m)" "\<forall>e \<in> set m. tag_line (snd e) = fst e"
    "length m < unat (ways c)" and miss: "\<forall>e \<in> set m. fst e \<noteq> line_of c addr"
  shows "map_ok c (map_put (line_of c addr) (line_of c addr OR VALID) m)"
    and "map_entries (map_put (line_of c addr) (line_of c addr OR VALID) m) = insert (line_of c addr OR VALID) (map_entries m)"
proof -
  have k: "line_of c addr \<notin> fst ` set m" using miss by auto
  have t: "tag_line (line_of c addr OR VALID) = line_of c addr"
    using tag_line_fresh line_of_bits [OF g] by simp
  note p = map_put_ok [OF m(1) k, of "line_of c addr OR VALID"]
  show "map_ok c (map_put (line_of c addr) (line_of c addr OR VALID) m)"
    using p(1,3) m(2,3) t unfolding map_ok_def p(2) by simp
  show "map_entries (map_put (line_of c addr) (line_of c addr OR VALID) m) = insert (line_of c addr OR VALID) (map_entries m)"
    unfolding map_entries_def p(2) by simp
qed

lemma fa_victimize_ok:
  assumes g: "geometry_ok c" and m: "map_ok c m" and miss: "fa_check_tag c m addr = None"
  shows "\<exists>v r m' out. fa_victimize c m addr = (v, c\<lparr>lfsr := r, tags := Fully_Assoc m'\<rparr>) \<and> map_ok c m' \<and>
    map_entries m' = insert (line_of c addr OR VALID) (map_entries m - out) \<and> out \<subseteq> {v} \<inter> map_entries m \<and> (bit v 63 \<longrightarrow> out = {v})"
proof (cases "of_nat (length m) = ways c")
  case True
  have "unat (ways c) < 2 ^ 64" using unsigned_less [of "ways c", where ?'a = nat] by simp
  then have "length m < 2 ^ 64" using m by (simp add: map_ok_def)
  then have "unat (of_nat (length m) :: uint64_t) = length m" by (simp add: unat_of_nat)
  then have len: "length m = unat (ways c)" using True by simp
  let ?i = "unat (ucast (lfsr_next (lfsr c)) mod ways c)"
  let ?r = "take ?i m @ drop (Suc ?i) m"
  have i: "?i < length m" using ways_pos [OF g] len by (simp add: unat_mod)
  note rm = map_remove_ok [OF m i]
  have ent: "map_entries ?r = map_entries m - {snd (m ! ?i)}"
    using inj_on_image_set_diff [OF map_ok_inj [OF m], of "set m" "{m ! ?i}"] i unfolding map_entries_def rm(2) by simp
  have "map_ok c (map_put (line_of c addr) (line_of c addr OR VALID) ?r)"
    "map_entries (map_put (line_of c addr) (line_of c addr OR VALID) ?r) = insert (line_of c addr OR VALID) (map_entries ?r)"
    using rm m i miss len ways_pos [OF g]
    by (intro map_put_map_ok [OF g]; simp add: map_ok_def fa_check_tag_None del: set_append)+
  moreover have "snd (m ! ?i) \<in> map_entries m" using i by (simp add: map_entries_def)
  ultimately show ?thesis using True ent
    by (intro exI [of _ "snd (m ! ?i)"] exI [of _ "lfsr_next (lfsr c)"]
        exI [of _ "map_put (line_of c addr) (line_of c addr OR VALID) ?r"] exI [of _ "{snd (m ! ?i)}"])
      (simp add: fa_victimize_def Let_def flip: line_of_def)
next
  case False
  then have "length m \<noteq> unat (ways c)" by auto
  then have len: "length m < unat (ways c)" using m by (simp add: map_ok_def)
  have "map_ok c (map_put (line_of c addr) (line_of c addr OR VALID) m)"
    "map_entries (map_put (line_of c addr) (line_of c addr OR VALID) m) = insert (line_of c addr OR VALID) (map_entries m)"
    using m miss len by (intro map_put_map_ok [OF g]; simp add: map_ok_def fa_check_tag_None)+
  then show ?thesis using False
    by (intro exI [of _ 0] exI [of _ "lfsr c"] exI [of _ "map_put (line_of c addr) (line_of c addr OR VALID) m"] exI [of _ "{}"])
      (simp add: fa_victimize_def Let_def flip: line_of_def)
qed

section \<open>Both stores keep the contract\<close>

definition cache_ok :: "cache_sim_t \<Rightarrow> bool" where
  "cache_ok c \<longleftrightarrow> geometry_ok c \<and> (case tags c of Set_Assoc a \<Rightarrow> array_ok c a | Fully_Assoc m \<Rightarrow> map_ok c m)"

definition cache_entries :: "cache_sim_t \<Rightarrow> uint64_t set" where
  "cache_entries c = (case tags c of Set_Assoc a \<Rightarrow> array_entries a | Fully_Assoc m \<Rightarrow> map_entries m)"

lemma store_frame [simp]:
  "geometry_ok (c\<lparr>tags := t\<rparr>) = geometry_ok c" "geometry_ok (c\<lparr>lfsr := r\<rparr>) = geometry_ok c"
  "array_ok (c\<lparr>tags := t\<rparr>) = array_ok c" "array_ok (c\<lparr>lfsr := r\<rparr>) = array_ok c"
  "map_ok (c\<lparr>tags := t\<rparr>) = map_ok c" "map_ok (c\<lparr>lfsr := r\<rparr>) = map_ok c"
  "line_of (c\<lparr>tags := t\<rparr>) = line_of c" "line_of (c\<lparr>lfsr := r\<rparr>) = line_of c"
  by (simp_all add: geometry_ok_def array_ok_def map_ok_def set_index_def line_of_def fun_eq_iff)

lemma array_entry_unique:
  "array_ok c a \<Longrightarrow> e \<in> array_entries a \<Longrightarrow> e' \<in> array_entries a \<Longrightarrow> tag_line e = tag_line e' \<Longrightarrow> e = e'"
  using array_unique [of c a] by (auto simp: array_entries_def in_set_conv_nth)

lemma cache_put_entry:
  assumes ok: "cache_ok c" and hit: "check_tag c addr = Some j" and v: "bit v 63 = bit (get_way c j) 63" "tag_line v = line_of c addr"
  shows "cache_ok (set_way c j v) \<and> cache_entries (set_way c j v) = insert v (cache_entries c - {get_way c j}) \<and>
    line_of (set_way c j v) = line_of c"
proof (cases "tags c")
  case (Set_Assoc a)
  then have a: "geometry_ok c" "array_ok c a" "cache_check_tag c a addr = Some j" using ok hit by (simp_all add: cache_ok_def check_tag_def)
  have j: "j < length a" "bit (a ! j) 63" using a cache_check_tag_iff by blast+
  then have "bit v 63" using v(1) Set_Assoc by (simp add: get_way_def)
  then show ?thesis using Set_Assoc a v cache_put_ok [OF a] array_put_entries [OF a(2) j(1)]
    by (simp add: cache_ok_def cache_entries_def set_way_def get_way_def)
next
  case (Fully_Assoc m)
  then have m: "geometry_ok c" "map_ok c m" "fa_check_tag c m addr = Some j" using ok hit by (simp_all add: cache_ok_def check_tag_def)
  show ?thesis using Fully_Assoc m v fa_put_ok [OF m(2) fa_check_tag_Some(1) [OF m(2,3)]] fa_check_tag_Some(2) [OF m(2,3)]
    by (simp add: cache_ok_def cache_entries_def set_way_def get_way_def)
qed

lemma cache_evict_entry:
  assumes ok: "cache_ok c" and miss: "check_tag c addr = None"
  shows "\<exists>v c' out. victimize c addr = Some (v, c') \<and> cache_ok c' \<and> cache_entries c' = insert (line_of c addr OR VALID) (cache_entries c - out) \<and>
    out \<subseteq> {v} \<inter> cache_entries c \<and> (bit v 63 \<longrightarrow> out = {v}) \<and> line_of c' = line_of c"
proof -
  have w: "ways c \<noteq> 0" using ok by (simp add: cache_ok_def geometry_ok_def)
  show ?thesis
  proof (cases "tags c")
    case (Set_Assoc a)
    then have a: "geometry_ok c" "array_ok c a" "cache_check_tag c a addr = None" using ok miss by (simp_all add: cache_ok_def check_tag_def)
    note v = cache_victimize_ok [OF a]
    let ?k = "set_index c (line_of c addr) * unat (ways c) + unat (ucast (lfsr_next (lfsr c)) mod ways c)"
    have e: "cache_entries c = array_entries a" using Set_Assoc by (simp add: cache_entries_def)
    have m: "a ! ?k \<in> array_entries a \<longleftrightarrow> bit (a ! ?k) 63" using v(2) by (simp add: array_entries_def)
    show ?thesis unfolding e using Set_Assoc w a v m
      by (intro exI [of _ "a ! ?k"] exI [of _ "c\<lparr>lfsr := lfsr_next (lfsr c), tags := Set_Assoc (a[?k := line_of c addr OR VALID])\<rparr>"]
          exI [of _ "{a ! ?k} \<inter> array_entries a"]) (auto simp: victimize_def cache_ok_def cache_entries_def)
  next
    case (Fully_Assoc m)
    then have m: "geometry_ok c" "map_ok c m" "fa_check_tag c m addr = None" using ok miss by (simp_all add: cache_ok_def check_tag_def)
    obtain v r m' out where f: "fa_victimize c m addr = (v, c\<lparr>lfsr := r, tags := Fully_Assoc m'\<rparr>)" "map_ok c m'"
        "map_entries m' = insert (line_of c addr OR VALID) (map_entries m - out)" "out \<subseteq> {v} \<inter> map_entries m" "bit v 63 \<longrightarrow> out = {v}"
      using fa_victimize_ok [OF m] by blast
    have e: "cache_entries c = map_entries m" using Fully_Assoc by (simp add: cache_entries_def)
    show ?thesis unfolding e using Fully_Assoc w m f
      by (intro exI [of _ v] exI [of _ "c\<lparr>lfsr := r, tags := Fully_Assoc m'\<rparr>"] exI [of _ out]) (simp add: victimize_def cache_ok_def cache_entries_def)
  qed
qed

lemma cache_lookup_None:
  "cache_ok c \<Longrightarrow> check_tag c addr = None \<Longrightarrow> e \<in> cache_entries c \<Longrightarrow> tag_line e \<noteq> line_of c addr"
  using cache_check_tag_None [of c _ addr] fa_check_tag_None [of c _ addr] map_ok_entry [of c]
  by (auto simp: cache_ok_def cache_entries_def check_tag_def map_entries_def split: tag_store.splits)

lemma cache_lookup_Some:
  "cache_ok c \<Longrightarrow> check_tag c addr = Some j \<Longrightarrow> get_way c j \<in> cache_entries c \<and> tag_line (get_way c j) = line_of c addr"
  using cache_check_tag_iff [of c _ addr j] fa_check_tag_Some [of c _ addr j]
  by (auto simp: cache_ok_def cache_entries_def check_tag_def get_way_def array_entries_def split: tag_store.splits)

interpretation cache: tag_memory cache_ok cache_entries line_of check_tag get_way set_way victimize
proof
  show "e = e'" if "cache_ok c" "e \<in> cache_entries c" "e' \<in> cache_entries c" "tag_line e = tag_line e'" for c e e'
    using that array_entry_unique [of c] map_entry_unique [of c] by (auto simp: cache_ok_def cache_entries_def split: tag_store.splits)
  show "\<not> bit (line_of c addr) 62 \<and> \<not> bit (line_of c addr) 63" if "cache_ok c" for c addr
    using that line_of_bits by (simp add: cache_ok_def)
  show "cache_ok (set_way c j v) \<and> cache_entries (set_way c j v) = insert v (cache_entries c - {get_way c j}) \<and> line_of (set_way c j v) = line_of c"
    if "cache_ok c" "check_tag c addr = Some j" "bit v 63 = bit (get_way c j) 63" "tag_line v = line_of c addr" for c addr j v
    by (rule cache_put_entry [OF that])
  show "\<exists>v c' out. victimize c addr = Some (v, c') \<and> cache_ok c' \<and> cache_entries c' = insert (line_of c addr OR VALID) (cache_entries c - out) \<and>
      out \<subseteq> {v} \<inter> cache_entries c \<and> (bit v 63 \<longrightarrow> out = {v}) \<and> line_of c' = line_of c"
    if "cache_ok c" "check_tag c addr = None" for c addr
    by (rule cache_evict_entry [OF that])
qed (use cache_lookup_None cache_lookup_Some in blast)+

section \<open>Accesses through a chain\<close>

lemma counters_frame [simp]:
  "cache_ok (count_access n st c) = cache_ok c" "cache_ok (count_miss st c) = cache_ok c" "cache_ok (c\<lparr>writebacks := w\<rparr>) = cache_ok c"
  "cache_entries (count_access n st c) = cache_entries c" "cache_entries (count_miss st c) = cache_entries c"
  "cache_entries (c\<lparr>writebacks := w\<rparr>) = cache_entries c"
  "line_of (count_access n st c) = line_of c" "line_of (count_miss st c) = line_of c" "line_of (c\<lparr>writebacks := w\<rparr>) = line_of c"
  "check_tag (count_access n st c) = check_tag c" "check_tag (count_miss st c) = check_tag c" "check_tag (c\<lparr>writebacks := w\<rparr>) = check_tag c"
  "get_way (count_access n st c) = get_way c" "get_way (c\<lparr>writebacks := w\<rparr>) = get_way c"
  by (simp_all add: cache_ok_def geometry_ok_def array_ok_def map_ok_def set_index_def cache_entries_def line_of_def check_tag_def
      cache_check_tag_def fa_check_tag_def get_way_def count_access_def count_miss_def fun_eq_iff split: tag_store.split)

text \<open>The transition of the first cache of a chain: what it holds afterwards, and the requests it passes on.\<close>

definition first_request :: "cache_sim_t list \<Rightarrow> uint64_t \<Rightarrow> nat \<Rightarrow> uint64_t \<Rightarrow> cache_sim_t list option" where
  "first_request mh v shift line =
     (if bit v 63 \<and> bit v 62 then access mh (push_bit shift (tag_line v)) line True else Some mh)"

lemma access_hit:
  fixes c :: cache_sim_t and n :: uint64_t and st :: bool
  assumes "cache_ok c" "check_tag c addr = Some j"
  defines "c' \<equiv> (if st then set_way (count_access n st c) j (get_way c j OR DIRTY) else count_access n st c)"
  shows "access (c # mh) addr n st = Some (c' # mh)" "cache_ok c'" "line_of c' = line_of c" "cache.resident c' addr"
    and "st \<Longrightarrow> cache.dirty c' addr"
    and "cache_entries c' = (if st then insert (get_way c j OR DIRTY) (cache_entries c - {get_way c j}) else cache_entries c)"
proof -
  let ?c = "count_access n st c"
  have ok: "cache_ok ?c" "check_tag ?c addr = Some j" using assms by simp_all
  show "access (c # mh) addr n st = Some (c' # mh)" using assms by (simp add: Let_def)
  show "cache_ok c'" "line_of c' = line_of c" using cache.mark_dirty(1,2) [OF ok] ok by (cases st; simp add: c'_def)+
  show "cache_entries c' = (if st then insert (get_way c j OR DIRTY) (cache_entries c - {get_way c j}) else cache_entries c)"
    using cache.mark_dirty(3) [OF ok] by (cases st) (simp_all add: c'_def)
  show "cache.dirty c' addr" if st using cache.mark_dirty(4) [OF ok] that by (simp add: c'_def)
  then show "cache.resident c' addr" using cache.lookup_resident [OF ok(1)] ok(2)
    by (cases st) (auto simp: cache.dirty_def cache.resident_def c'_def)
qed

lemma access_miss:
  assumes "cache_ok c" "check_tag c addr = None"
  shows "\<exists>v d j out. victimize (count_miss st (count_access n st c)) addr = Some (v, d) \<and> cache_ok d \<and> line_of d = line_of c \<and>
    check_tag d addr = Some j \<and> get_way d j = line_of c addr OR VALID \<and>
    cache_entries d = insert (line_of c addr OR VALID) (cache_entries c - out) \<and> out \<subseteq> {v} \<inter> cache_entries c \<and> (bit v 63 \<longrightarrow> out = {v})"
proof -
  let ?c = "count_miss st (count_access n st c)"
  have ok: "cache_ok ?c" "check_tag ?c addr = None" using assms by simp_all
  obtain v d where v: "victimize ?c addr = Some (v, d)" using cache.evict_entry [OF ok] by blast
  note f = cache.fresh_resident [OF ok v]
  obtain j where j: "check_tag d addr = Some j" using f(3) by blast
  obtain out where out: "cache_entries d = insert (line_of c addr OR VALID) (cache_entries c - out)" "out \<subseteq> {v} \<inter> cache_entries c" "bit v 63 \<longrightarrow> out = {v}"
    using f(4) by auto
  have "get_way d j \<in> cache_entries d" "tag_line (get_way d j) = line_of c addr"
    using cache.lookup_Some [OF f(1) j] f(2) by simp_all
  moreover have "line_of c addr OR VALID \<in> cache_entries d" "tag_line (line_of c addr OR VALID) = line_of c addr"
    using out(1) cache.line_bits [OF assms(1)] tag_line_fresh by simp_all
  ultimately have "get_way d j = line_of c addr OR VALID" using cache.entry_unique [OF f(1)] by metis
  then show ?thesis using v f(1,2) j out
    by (intro exI [of _ v] exI [of _ d] exI [of _ j] exI [of _ out]) simp
qed

lemma victimize_frame: "victimize c addr = Some (v, d) \<Longrightarrow> idx_shift d = idx_shift c \<and> linesz d = linesz c"
  by (auto simp: victimize_def cache_victimize_def fa_victimize_def Let_def split: if_splits tag_store.splits)

lemma set_way_frame [simp]: "idx_shift (set_way c j v) = idx_shift c" "linesz (set_way c j v) = linesz c"
  by (simp_all add: set_way_def split: tag_store.split)

lemma count_frame [simp]: "idx_shift (count_miss st (count_access n st c)) = idx_shift c" "linesz (count_miss st (count_access n st c)) = linesz c"
  by (simp_all add: count_miss_def count_access_def)

lemma miss_step:
  assumes ok: "cache_ok c" and miss: "check_tag c addr = None"
    and first: "\<And>v. \<exists>mh1. first_request mh v (idx_shift c) (linesz c) = Some mh1 \<and> P mh1"
    and second: "\<And>mh1. P mh1 \<Longrightarrow> \<exists>mh2. access mh1 (addr AND NOT (linesz c - 1)) (linesz c) False = Some mh2 \<and> Q mh2"
  shows "\<exists>c' v out mh1 mh2. access (c # mh) addr n st = Some (c' # mh2) \<and> cache_ok c' \<and> line_of c' = line_of c \<and>
    out \<subseteq> {v} \<inter> cache_entries c \<and> (bit v 63 \<longrightarrow> out = {v}) \<and>
    cache_entries c' = insert (if st then line_of c addr OR VALID OR DIRTY else line_of c addr OR VALID) (cache_entries c - out - {line_of c addr OR VALID}) \<and>
    first_request mh v (idx_shift c) (linesz c) = Some mh1 \<and> access mh1 (addr AND NOT (linesz c - 1)) (linesz c) False = Some mh2 \<and> Q mh2"
proof -
  obtain v d j out where v: "victimize (count_miss st (count_access n st c)) addr = Some (v, d)" and d: "cache_ok d" "line_of d = line_of c"
      "check_tag d addr = Some j" "get_way d j = line_of c addr OR VALID"
      "cache_entries d = insert (line_of c addr OR VALID) (cache_entries c - out)" and out: "out \<subseteq> {v} \<inter> cache_entries c" "bit v 63 \<longrightarrow> out = {v}"
    using access_miss [OF ok miss] by metis
  have fr: "idx_shift d = idx_shift c" "linesz d = linesz c" using victimize_frame [OF v] by simp_all
  obtain mh1 where mh1: "first_request mh v (idx_shift c) (linesz c) = Some mh1" "P mh1" using first by blast
  obtain mh2 where mh2: "access mh1 (addr AND NOT (linesz c - 1)) (linesz c) False = Some mh2" "Q mh2" using second [OF mh1(2)] by blast
  let ?d = "if v AND (VALID OR DIRTY) = VALID OR DIRTY then d\<lparr>writebacks := writebacks d + 1\<rparr> else d"
  have req: "(if v AND (VALID OR DIRTY) = VALID OR DIRTY
      then access mh (push_bit (idx_shift d) (v AND NOT (VALID OR DIRTY))) (linesz d) True else Some mh) = Some mh1"
    using mh1(1) unfolding dirty_victim fr first_request_def tag_line_def .
  have d': "cache_ok ?d" "check_tag ?d addr = Some j" "get_way ?d j = line_of c addr OR VALID" "linesz ?d = linesz c"
      "line_of ?d = line_of c" "cache_entries ?d = cache_entries d"
    using d fr by simp_all
  let ?c' = "if st then set_way ?d j (get_way ?d j OR DIRTY) else ?d"
  have eq: "access (c # mh) addr n st = Some (?c' # mh2)"
    using miss v req mh2(1) d'(2,4) unfolding access.simps Let_def by (simp del: access.simps)
  have "cache_ok ?c'" "line_of ?c' = line_of c"
    using cache.mark_dirty(1,2) [OF d'(1,2)] d' by simp_all
  moreover have "cache_entries ?c' = insert (if st then line_of c addr OR VALID OR DIRTY else line_of c addr OR VALID)
      (cache_entries c - out - {line_of c addr OR VALID})"
    using cache.mark_dirty(3) [OF d'(1,2)] d' d(5) by (auto simp: or.assoc)
  ultimately have "access (c # mh) addr n st = Some (?c' # mh2) \<and> cache_ok ?c' \<and> line_of ?c' = line_of c \<and> out \<subseteq> {v} \<inter> cache_entries c \<and>
      (bit v 63 \<longrightarrow> out = {v}) \<and>
      cache_entries ?c' = insert (if st then line_of c addr OR VALID OR DIRTY else line_of c addr OR VALID) (cache_entries c - out - {line_of c addr OR VALID}) \<and>
      first_request mh v (idx_shift c) (linesz c) = Some mh1 \<and> access mh1 (addr AND NOT (linesz c - 1)) (linesz c) False = Some mh2 \<and> Q mh2"
    using eq out mh1(1) mh2 by (intro conjI)
  then show ?thesis by (intro exI)
qed

lemma access_chain:
  "list_all cache_ok cs \<Longrightarrow> \<exists>cs'. access cs addr n st = Some cs' \<and> list_all cache_ok cs' \<and> length cs' = length cs"
proof (induction "length cs" arbitrary: cs addr n st)
  case (Suc k)
  from Suc.hyps(2) Suc.prems obtain c mh where cs: "cs = c # mh" "cache_ok c" "list_all cache_ok mh" "length mh = k" by (cases cs) auto
  show ?case
  proof (cases "check_tag c addr")
    case (Some j)
    show ?thesis using access_hit(1) [OF cs(2) Some] access_hit(2) [OF cs(2) Some] cs by auto
  next
    case None
    let ?P = "\<lambda>m. list_all cache_ok m \<and> length m = k"
    have IH: "\<exists>m'. access m addr n st = Some m' \<and> ?P m'" if "?P m" for m addr n st
      using Suc.hyps(1) [of m addr n st] that by blast
    have "\<exists>mh1. first_request mh v (idx_shift c) (linesz c) = Some mh1 \<and> ?P mh1" for v
      using IH [of mh] cs by (auto simp: first_request_def)
    from miss_step [OF cs(2) None, of _ ?P ?P, OF this IH] show ?thesis using cs by fastforce
  qed
qed simp

section \<open>Cleaning and invalidating\<close>

text \<open>A cache that holds no more than another: its words are words of the other, possibly cleaned or invalidated.\<close>

definition subsumed :: "cache_sim_t \<Rightarrow> cache_sim_t \<Rightarrow> bool" where
  "subsumed c' c \<longleftrightarrow> (\<forall>e' \<in> cache_entries c'. \<exists>e \<in> cache_entries c. tag_line e' = tag_line e \<and> (bit e' 62 \<longrightarrow> bit e 62) \<and> (bit e' 63 \<longrightarrow> bit e 63))"

definition flushed :: "bool \<Rightarrow> bool \<Rightarrow> cache_sim_t \<Rightarrow> uint64_t \<Rightarrow> bool" where
  "flushed clean inval c l \<longleftrightarrow> (\<forall>e \<in> cache_entries c. tag_line e = l \<longrightarrow> (inval \<longrightarrow> \<not> bit e 63) \<and> (clean \<longrightarrow> \<not> bit e 62))"

lemma subsumed_refl [simp]: "subsumed c c"
  by (auto simp: subsumed_def)

lemma subsumed_trans: "subsumed c2 c1 \<Longrightarrow> subsumed c1 c \<Longrightarrow> subsumed c2 c"
  unfolding subsumed_def by metis

lemma flushed_mono: "subsumed c' c \<Longrightarrow> flushed clean inval c l \<Longrightarrow> flushed clean inval c' l"
  unfolding subsumed_def flushed_def by metis

lemma set_way_invalid:
  assumes ok: "cache_ok c" and hit: "check_tag c addr = Some j" and v: "\<not> bit v 63" "tag_line v = line_of c addr"
  shows "cache_ok (set_way c j v) \<and> line_of (set_way c j v) = line_of c \<and>
    cache_entries (set_way c j v) \<subseteq> insert v (cache_entries c - {get_way c j})"
proof (cases "tags c")
  case (Set_Assoc a)
  then have a: "geometry_ok c" "array_ok c a" "cache_check_tag c a addr = Some j" using ok hit by (simp_all add: cache_ok_def check_tag_def)
  have j: "j < length a" using a cache_check_tag_iff by blast
  show ?thesis using Set_Assoc a v cache_put_ok [OF a, of v] array_put_invalid [OF a(2) j v(1)]
    by (auto simp: cache_ok_def cache_entries_def set_way_def get_way_def)
next
  case (Fully_Assoc m)
  then have m: "geometry_ok c" "map_ok c m" "fa_check_tag c m addr = Some j" using ok hit by (simp_all add: cache_ok_def check_tag_def)
  show ?thesis using Fully_Assoc m v fa_put_ok [OF m(2) fa_check_tag_Some(1) [OF m(2,3)]] fa_check_tag_Some(2) [OF m(2,3)]
    by (simp add: cache_ok_def cache_entries_def set_way_def get_way_def)
qed

lemma get_set_way: "check_tag c addr = Some j \<Longrightarrow> cache_ok c \<Longrightarrow> get_way (set_way c j v) j = v"
  using cache_check_tag_iff [of c _ addr j] fa_check_tag_Some(1) [of c _ addr j]
  by (auto simp: get_way_def set_way_def check_tag_def cache_ok_def split: tag_store.splits)

lemma check_set_way:
  assumes "cache_ok c" "check_tag c addr = Some j" "bit v 63 = bit (get_way c j) 63" "tag_line v = line_of c addr"
  shows "check_tag (set_way c j v) addr = Some j"
proof (cases "tags c")
  case (Set_Assoc a)
  then have a: "geometry_ok c" "array_ok c a" "cache_check_tag c a addr = Some j" using assms by (simp_all add: cache_ok_def check_tag_def)
  have j: "j < length a" "bit (a ! j) 63" using a cache_check_tag_iff by blast+
  then have "cache_check_tag c (a[j := v]) addr = Some j"
    using cache_check_tag_iff [OF a(1) cache_put_ok [OF a]] assms(3,4) Set_Assoc by (simp add: get_way_def)
  then show ?thesis using Set_Assoc by (simp add: check_tag_def set_way_def cache_check_tag_def)
next
  case (Fully_Assoc m)
  have "fst (m[j := (fst (m ! j), v)] ! i) = fst (m ! i)" for i
    by (cases "j < length m") (simp_all add: nth_list_update list_update_beyond)
  then show ?thesis using assms(2) Fully_Assoc by (simp add: check_tag_def set_way_def fa_check_tag_def)
qed

lemma clean_entry: "bit (e AND NOT DIRTY) 63 = bit e 63"
  by (simp add: tag_bits)

lemma clean_invalidate_line_ok:
  fixes c :: cache_sim_t and clean inval :: bool and addr :: uint64_t
  assumes ok: "cache_ok c"
  defines "c' \<equiv> clean_invalidate_line clean inval addr c"
  shows "cache_ok c' \<and> line_of c' = line_of c \<and> linesz c' = linesz c \<and> idx_shift c' = idx_shift c \<and>
    subsumed c' c \<and> flushed clean inval c' (line_of c addr)"
proof (cases "check_tag c addr")
  case None
  then show ?thesis using ok cache.lookup_None [OF ok None] by (auto simp: c'_def clean_invalidate_line_def flushed_def)
next
  case (Some j)
  have g: "get_way c j \<in> cache_entries c" "tag_line (get_way c j) = line_of c addr"
    using cache.lookup_Some [OF ok Some] by auto
  have u: "e = get_way c j" if "e \<in> cache_entries c" "tag_line e = line_of c addr" for e
    using cache.entry_unique [OF ok that(1) g(1)] that(2) g(2) by simp
  let ?b = "clean \<and> get_way c j AND DIRTY \<noteq> 0"
  let ?d = "if ?b then set_way (c\<lparr>writebacks := writebacks c + 1\<rparr>) j (get_way c j AND NOT DIRTY) else c"
  have db: "get_way c j AND DIRTY = 0 \<longleftrightarrow> \<not> bit (get_way c j) 62"
    unfolding DIRTY_def push_bit_eq_mult mult_1 by (rule and_exp_eq_0_iff_not_bit)
  have okw: "cache_ok (c\<lparr>writebacks := w\<rparr>)" "check_tag (c\<lparr>writebacks := w\<rparr>) addr = Some j" for w using ok Some by simp_all
  have p: "cache_ok (set_way (c\<lparr>writebacks := w\<rparr>) j (get_way c j AND NOT DIRTY)) \<and>
      cache_entries (set_way (c\<lparr>writebacks := w\<rparr>) j (get_way c j AND NOT DIRTY)) = insert (get_way c j AND NOT DIRTY) (cache_entries c - {get_way c j}) \<and>
      line_of (set_way (c\<lparr>writebacks := w\<rparr>) j (get_way c j AND NOT DIRTY)) = line_of c \<and>
      check_tag (set_way (c\<lparr>writebacks := w\<rparr>) j (get_way c j AND NOT DIRTY)) addr = Some j" for w
    using cache_put_entry [OF okw, of "get_way c j AND NOT DIRTY"] check_set_way [OF okw, of "get_way c j AND NOT DIRTY"] g
    by (simp add: clean_entry)
  have d: "cache_ok ?d" "line_of ?d = line_of c" "linesz ?d = linesz c" "idx_shift ?d = idx_shift c" "check_tag ?d addr = Some j"
    using p ok Some by simp_all
  have sub: "subsumed ?d c" using p g by (auto simp: subsumed_def tag_bits intro: bexI [of _ "get_way c j"])
  have fl: "flushed clean False ?d (line_of c addr)"
    using p g db by (auto simp: flushed_def tag_bits dest: u)
  have c': "c' = (if inval then set_way ?d j (get_way ?d j AND NOT VALID) else ?d)"
    by (simp add: c'_def clean_invalidate_line_def Some Let_def)
  show ?thesis
  proof (cases inval)
    case True
    let ?v = "get_way ?d j AND NOT VALID"
    have gd: "get_way ?d j \<in> cache_entries ?d" "tag_line (get_way ?d j) = line_of c addr" using cache.lookup_Some [OF d(1,5)] d(2) by simp_all
    have i: "cache_ok c'" "line_of c' = line_of c" "cache_entries c' \<subseteq> insert ?v (cache_entries ?d - {get_way ?d j})"
      using set_way_invalid [OF d(1,5), of ?v] gd(2) d(2) True c' by (simp_all add: tag_bits)
    have sub': "subsumed c' ?d"
      unfolding subsumed_def
    proof
      fix e
      assume "e \<in> cache_entries c'"
      then have "e = ?v \<or> e \<in> cache_entries ?d" using i(3) by blast
      then show "\<exists>e0 \<in> cache_entries ?d. tag_line e = tag_line e0 \<and> (bit e 62 \<longrightarrow> bit e0 62) \<and> (bit e 63 \<longrightarrow> bit e0 63)"
        using gd(1) by (auto simp: tag_bits)
    qed
    have "\<not> bit e 63" if e: "e \<in> cache_entries c'" "tag_line e = line_of c addr" for e
    proof -
      have "e = get_way ?d j" if "e \<in> cache_entries ?d" using cache.entry_unique [OF d(1) that gd(1)] e(2) gd(2) by simp
      then have "e = ?v" using e(1) i(3) by blast
      then show ?thesis by (simp add: tag_bits)
    qed
    then have "flushed clean inval c' (line_of c addr)" using flushed_mono [OF sub' fl] unfolding flushed_def by auto
    moreover have "linesz c' = linesz c" "idx_shift c' = idx_shift c" using True c' d(3,4) by simp_all
    ultimately show ?thesis using i(1,2) subsumed_trans [OF sub' sub] by simp
  next
    case False
    then show ?thesis using d sub fl c' by simp
  qed
qed

lemma clean_invalidate_loop_ok:
  assumes "cache_ok c" "unat end_addr = unat cur + k * unat (linesz c)"
  shows "\<exists>c'. clean_invalidate_loop clean inval end_addr cur c = Some c' \<and> cache_ok c' \<and> line_of c' = line_of c \<and> linesz c' = linesz c \<and>
    subsumed c' c \<and> (\<forall>i<k. flushed clean inval c' (line_of c (cur + of_nat i * linesz c)))"
  using assms
proof (induction k arbitrary: c cur)
  case 0
  then show ?case by (subst clean_invalidate_loop.simps) (simp add: word_less_nat_alt)
next
  case (Suc k)
  let ?d = "clean_invalidate_line clean inval cur c"
  note d = clean_invalidate_line_ok [OF Suc.prems(1), where clean = clean and addr = cur]
  have l: "0 < unat (linesz c)" using Suc.prems(1) by (auto simp: cache_ok_def geometry_ok_def unat_gt_0)
  have lt: "cur < end_addr" using Suc.prems(2) l by (simp add: word_less_nat_alt)
  have "unat cur + unat (linesz c) \<le> unat end_addr" using Suc.prems(2) by simp
  then have "unat cur + unat (linesz c) < 2 ^ 64" using unsigned_less [of end_addr, where ?'a = nat] by simp
  then have u: "unat (cur + linesz c) = unat cur + unat (linesz c)" by (simp add: unat_add_nowrap)
  have "unat end_addr = unat (cur + linesz c) + k * unat (linesz ?d)" using Suc.prems(2) d u by simp
  then have "\<exists>c'. clean_invalidate_loop clean inval end_addr (cur + linesz c) ?d = Some c' \<and> cache_ok c' \<and> line_of c' = line_of c \<and>
      linesz c' = linesz c \<and> subsumed c' ?d \<and>
      (\<forall>i<k. flushed clean inval c' (line_of c (cur + linesz c + of_nat i * linesz c)))"
    using Suc.IH [of ?d "cur + linesz c"] d by simp
  then obtain c' where c': "clean_invalidate_loop clean inval end_addr (cur + linesz c) ?d = Some c'"
      "cache_ok c'" "line_of c' = line_of c" "linesz c' = linesz c" "subsumed c' ?d"
      "\<forall>i<k. flushed clean inval c' (line_of c (cur + linesz c + of_nat i * linesz c))"
    by blast
  have "flushed clean inval c' (line_of c (cur + of_nat i * linesz c))" if "i < Suc k" for i
  proof (cases i)
    case 0
    then show ?thesis using flushed_mono [OF c'(5)] d by simp
  next
    case (Suc m)
    then show ?thesis using c'(6) that by (auto simp: algebra_simps)
  qed
  then show ?case using lt c' d subsumed_trans [OF c'(5)] by (subst clean_invalidate_loop.simps) auto
qed

lemma unat_align:
  assumes "geometry_ok c"
  shows "unat (x AND NOT (linesz c - 1)) = unat x div unat (linesz c) * unat (linesz c)" "unat (linesz c) = 2 ^ idx_shift c"
proof -
  have s: "linesz c = 2 ^ idx_shift c" "idx_shift c < 64" using assms by (simp_all add: geometry_ok_def)
  have "linesz c = push_bit (idx_shift c) 1" using s(1) by (simp add: push_bit_eq_mult)
  moreover have "(2 :: nat) ^ idx_shift c < 2 ^ 64" using s(2) by (rule power_strict_increasing) simp
  ultimately show l: "unat (linesz c) = 2 ^ idx_shift c"
    using unat_push_bit_nowrap [of "1 :: uint64_t" "idx_shift c"] by (simp del: push_bit_of_1)
  then have "linesz c \<noteq> 0" by auto
  then have "unat (linesz c - 1) + 1 = 2 ^ idx_shift c" using l by (simp add: unat_minus_one)
  then have "unat (x AND NOT (linesz c - 1)) = unat x - unat x mod 2 ^ idx_shift c" by (rule unat_and_not_mask)
  then show "unat (x AND NOT (linesz c - 1)) = unat x div unat (linesz c) * unat (linesz c)" by (simp add: l minus_mod_eq_div_mult)
qed

lemma line_of_nat: "unat (line_of c x) = unat x div 2 ^ idx_shift c"
  unfolding line_of_def by (rule unat_drop_bit_div)

text \<open>Every byte of the range lies in a line the loop visits, unless the end of the range overflows.\<close>

lemma range_line:
  fixes c :: cache_sim_t and addr n x :: uint64_t
  defines "L \<equiv> unat (linesz c)" and "s \<equiv> addr AND NOT (linesz c - 1)" and "e \<equiv> (addr + n + linesz c - 1) AND NOT (linesz c - 1)"
  assumes g: "geometry_ok c" and nw: "unat addr + unat n + L \<le> 2 ^ 64" and x: "unat addr \<le> unat x" "unat x < unat addr + unat n"
  shows "\<exists>i. unat s + i * L < unat e \<and> line_of c (s + of_nat i * linesz c) = line_of c x"
proof -
  have L: "L = 2 ^ idx_shift c" "0 < L" using unat_align(2) [OF g] by (simp_all add: L_def)
  have "linesz c \<noteq> 0" using L(2) by (auto simp: L_def)
  then have "unat (linesz c - 1) = L - 1" by (simp add: unat_minus_one L_def)
  moreover have "unat (addr + n) = unat addr + unat n" using nw L(2) by (intro unat_add_nowrap) simp
  ultimately have "unat (addr + n + (linesz c - 1)) = unat addr + unat n + (L - 1)"
    using nw L(2) by (subst unat_add_nowrap) simp_all
  then have us: "unat s = unat addr div L * L" and ue: "unat e = (unat addr + unat n + (L - 1)) div L * L"
    using unat_align(1) [OF g] by (simp_all add: s_def e_def L_def add_diff_eq)
  obtain i where i: "unat x div L = unat addr div L + i" using div_le_mono [OF x(1), of L] le_Suc_ex by blast
  have "(unat x + L) div L \<le> (unat addr + unat n + (L - 1)) div L" using x(2) L(2) by (intro div_le_mono) simp
  then have "unat x div L < (unat addr + unat n + (L - 1)) div L" using L(2) by simp
  then have lt: "unat s + i * L < unat e" unfolding us ue i using L(2) by (metis add_mult_distrib mult_less_cancel2)
  have ux: "unat s + i * L = unat x div L * L" unfolding us i by (simp add: add_mult_distrib)
  have b: "unat s + i * L < 2 ^ 64" using lt unat_less_pow2 [of e] by simp
  have "i \<le> i * L" using L(2) by simp
  then have "i < 2 ^ 64" using b by linarith
  then have "unat (of_nat i :: uint64_t) = i" by (simp add: unat_of_nat)
  then have "unat (of_nat i * linesz c) = i * L" using b unat_mult_nowrap [of "of_nat i" "linesz c"] by (simp add: L_def)
  then have "unat (s + of_nat i * linesz c) = unat x div L * L" using b ux by (subst unat_add_nowrap) simp_all
  then have "unat (line_of c (s + of_nat i * linesz c)) = unat (line_of c x)" using L by (simp add: line_of_nat)
  then show ?thesis using lt by (auto simp: word_unat_eq_iff)
qed

lemma clean_invalidate_one:
  fixes c :: cache_sim_t and addr n :: uint64_t and clean inval :: bool
  assumes ok: "cache_ok c"
  defines "s \<equiv> addr AND NOT (linesz c - 1)" and "e \<equiv> (addr + n + linesz c - 1) AND NOT (linesz c - 1)"
  shows "\<exists>c'. clean_invalidate_loop clean inval e s c = Some c' \<and> cache_ok c' \<and> line_of c' = line_of c \<and> linesz c' = linesz c \<and>
    (unat addr + unat n + unat (linesz c) \<le> 2 ^ 64 \<longrightarrow>
      (\<forall>x. unat addr \<le> unat x \<and> unat x < unat addr + unat n \<longrightarrow> flushed clean inval c' (line_of c x)))"
proof -
  have g: "geometry_ok c" using ok by (simp add: cache_ok_def)
  let ?L = "unat (linesz c)"
  obtain q r where q: "unat s = q * ?L" "unat e = r * ?L" using unat_align(1) [OF g] by (auto simp: s_def e_def)
  have "unat e = unat s + (r - q) * ?L" if "unat s \<le> unat e"
    using that unfolding q by (simp add: diff_mult_distrib)
  moreover have "clean_invalidate_loop clean inval e s c = Some c" if "\<not> unat s \<le> unat e"
    using that by (subst clean_invalidate_loop.simps) (simp add: word_less_nat_alt)
  ultimately obtain c' where c': "clean_invalidate_loop clean inval e s c = Some c'" "cache_ok c'" "line_of c' = line_of c" "linesz c' = linesz c"
      and fl: "unat s \<le> unat e \<longrightarrow> (\<forall>i<r - q. flushed clean inval c' (line_of c (s + of_nat i * linesz c)))"
    using clean_invalidate_loop_ok [OF ok, where end_addr = e and cur = s and k = "r - q" and clean = clean] ok by (cases "unat s \<le> unat e") auto
  have "flushed clean inval c' (line_of c x)"
    if x: "unat addr + unat n + ?L \<le> 2 ^ 64" "unat addr \<le> unat x" "unat x < unat addr + unat n" for x
  proof -
    obtain i where i: "unat s + i * ?L < unat e" "line_of c (s + of_nat i * linesz c) = line_of c x"
      using range_line [OF g x] by (auto simp: s_def e_def)
    then have "(q + i) * ?L < r * ?L" unfolding q by (simp add: add_mult_distrib)
    then have "i < r - q" "unat s \<le> unat e" using i(1) by auto
    then show ?thesis using fl i(2) by metis
  qed
  then show ?thesis using c' by blast
qed

lemma clean_invalidate_chain:
  assumes "list_all cache_ok cs"
  shows "\<exists>cs'. clean_invalidate cs addr n clean inval = Some cs' \<and> list_all cache_ok cs' \<and>
    (\<forall>c \<in> set cs'. \<forall>x. unat addr + unat n + unat (linesz c) \<le> 2 ^ 64 \<longrightarrow> unat addr \<le> unat x \<longrightarrow> unat x < unat addr + unat n \<longrightarrow>
       flushed clean inval c (line_of c x))"
  using assms
proof (induction cs)
  case (Cons c mh)
  obtain c' where c': "clean_invalidate_loop clean inval ((addr + n + linesz c - 1) AND NOT (linesz c - 1)) (addr AND NOT (linesz c - 1)) c = Some c'"
      "cache_ok c'" "line_of c' = line_of c" "linesz c' = linesz c"
      "unat addr + unat n + unat (linesz c) \<le> 2 ^ 64 \<longrightarrow> (\<forall>x. unat addr \<le> unat x \<and> unat x < unat addr + unat n \<longrightarrow> flushed clean inval c' (line_of c x))"
    using clean_invalidate_one [of c clean inval addr n] Cons.prems by auto
  moreover obtain mh' where "clean_invalidate mh addr n clean inval = Some mh'" "list_all cache_ok mh'"
      "\<forall>c \<in> set mh'. \<forall>x. unat addr + unat n + unat (linesz c) \<le> 2 ^ 64 \<longrightarrow> unat addr \<le> unat x \<longrightarrow> unat x < unat addr + unat n \<longrightarrow> flushed clean inval c (line_of c x)"
    using Cons by auto
  ultimately show ?case by (auto simp: Let_def)
qed simp

section \<open>Constructed caches\<close>

lemma shift_of_bounds: "0 < n \<Longrightarrow> 2 ^ shift_of n \<le> n \<and> n < 2 * 2 ^ shift_of n"
proof (induction n rule: shift_of.induct)
  case (1 n)
  show ?case
  proof (cases "1 < n")
    case True
    then have "shift_of n = Suc (shift_of (n div 2))" by (subst shift_of.simps) simp
    then show ?thesis using 1 True by auto
  next
    case False
    then have "shift_of n = 0" by (subst shift_of.simps) simp
    then show ?thesis using False 1 by simp
  qed
qed

lemma bit_top:
  assumes "2 ^ k \<le> unat x" "unat x < 2 * 2 ^ k"
  shows "bit x k"
proof -
  have "unat x div 2 ^ k = 1" using assms by (intro div_nat_eqI) simp_all
  then have "bit (unat x) k" by (simp add: bit_iff_odd)
  then show ?thesis by (simp add: bit_unsigned_iff)
qed

lemma power_of_two:
  fixes x :: uint64_t
  assumes "x \<noteq> 0" "x AND (x - 1) = 0"
  shows "x = 2 ^ shift_of (unat x)" "shift_of (unat x) < 64"
proof -
  let ?k = "shift_of (unat x)"
  have b: "2 ^ ?k \<le> unat x" "unat x < 2 * 2 ^ ?k" using shift_of_bounds [of "unat x"] assms(1) by (simp_all add: unat_gt_0)
  then have "(2 :: nat) ^ ?k < 2 ^ 64" using unat_less_pow2 [of x] by simp
  then show k: "?k < 64" by (rule power_less_imp_less_exp [rotated]) simp
  have "unat x = 2 ^ ?k"
  proof (rule ccontr)
    assume "unat x \<noteq> 2 ^ ?k"
    then have "2 ^ ?k \<le> unat (x - 1)" "unat (x - 1) < 2 * 2 ^ ?k" using b assms(1) by (simp_all add: unat_minus_one)
    then have "bit (x AND (x - 1)) ?k" using bit_top [OF b] bit_top [of ?k "x - 1"] by (simp add: bit_and_iff)
    then show False using assms(2) by simp
  qed
  moreover have "unat (2 ^ ?k :: uint64_t) = 2 ^ ?k"
    using unat_push_bit_nowrap [of "1 :: uint64_t" ?k] \<open>(2 :: nat) ^ ?k < 2 ^ 64\<close> by simp
  ultimately show "x = 2 ^ ?k" by (simp add: word_unat_eq_iff)
qed

lemma init_cache_geometry:
  assumes "init_cache n_sets n_ways line t = Some c" "n_ways \<noteq> 0"
  shows "geometry_ok c" "sets c = n_sets" "ways c = n_ways" "tags c = t"
proof -
  have i: "n_sets \<noteq> 0" "n_sets AND (n_sets - 1) = 0" "\<not> line < 8" "line AND (line - 1) = 0" "c = \<lparr>lfsr = 1, sets = n_sets, ways = n_ways,
      linesz = line, idx_shift = shift_of (unat line), tags = t, read_accesses = 0, read_misses = 0, bytes_read = 0, write_accesses = 0,
      write_misses = 0, bytes_written = 0, writebacks = 0\<rparr>"
    using assms(1) by (auto simp: init_cache_def split: if_splits)
  have l: "8 \<le> unat line" "line \<noteq> 0" using i(3) by (auto simp: word_less_nat_alt not_less)
  have "3 \<le> shift_of (unat line)"
  proof (rule ccontr)
    assume "\<not> ?thesis"
    then have "(2 :: nat) ^ Suc (shift_of (unat line)) \<le> 2 ^ 3" by (intro power_increasing) simp_all
    then show False using shift_of_bounds [of "unat line"] l(1) by simp
  qed
  then show "geometry_ok c" "sets c = n_sets" "ways c = n_ways" "tags c = t"
    using power_of_two [OF l(2) i(4)] i assms(2) by (simp_all add: geometry_ok_def)
qed

lemma construct_ok:
  assumes "construct config = Some c" "ways c \<noteq> 0"
  shows "cache_ok c"
proof -
  have n: "cache_ok c" if nc: "new_cache_sim s w l = Some c" "ways c \<noteq> 0" for s w l
  proof -
    have i: "init_cache s w l (Set_Assoc (replicate (unat s * unat w) 0)) = Some c"
      using nc(1) by (simp add: new_cache_sim_def split: if_splits)
    have "w \<noteq> 0" using i nc(2) by (auto simp: init_cache_def split: if_splits)
    from init_cache_geometry [OF i this] show ?thesis by (simp add: cache_ok_def array_ok_def)
  qed
  have f: "cache_ok c" if fc: "new_fa_cache_sim w l = Some c" "ways c \<noteq> 0" for w l
  proof -
    have "w \<noteq> 0" using fc by (auto simp: new_fa_cache_sim_def init_cache_def split: if_splits)
    from init_cache_geometry [OF fc(1) [unfolded new_fa_cache_sim_def] this] show ?thesis by (simp add: cache_ok_def map_ok_def)
  qed
  show ?thesis using assms n f by (auto simp: construct_def Let_def split: option.splits if_splits)
qed

section \<open>Reachable hierarchies\<close>

text \<open>No operation changes the number of ways.\<close>

lemma set_way_ways [simp]: "ways (set_way c j v) = ways c"
  by (simp add: set_way_def split: tag_store.split)

lemma count_ways [simp]: "ways (count_access n st c) = ways c" "ways (count_miss st c) = ways c"
  by (simp_all add: count_access_def count_miss_def)

lemma victimize_ways: "victimize c addr = Some (v, d) \<Longrightarrow> ways d = ways c"
  by (auto simp: victimize_def cache_victimize_def fa_victimize_def Let_def split: if_splits tag_store.splits)

lemma access_ways: "access cs addr n st = Some cs' \<Longrightarrow> map ways cs' = map ways cs"
proof (induction cs addr n st arbitrary: cs' rule: access.induct)
  case (2 c mh addr n st)
  note eq = 2(3) [unfolded access.simps(2) Let_def]
  show ?case
  proof (cases "check_tag (count_access n st c) addr")
    case (Some j)
    then show ?thesis using eq by auto
  next
    case None
    then obtain v d where v: "victimize (count_miss st (count_access n st c)) addr = Some (v, d)"
      using eq by (auto split: option.splits)
    let ?dirty = "v AND (VALID OR DIRTY) = VALID OR DIRTY"
    let ?first = "if ?dirty then access mh (push_bit (idx_shift d) (v AND NOT (VALID OR DIRTY))) (linesz d) True else Some mh"
    obtain mh1 where first: "?first = Some mh1" using eq None v by (cases ?first) simp_all
    have "map ways mh1 = map ways mh"
      using first 2(1) [OF refl None v refl refl refl] by (cases ?dirty) simp_all
    moreover have "map ways cs' = ways c # map ways mh1"
      using eq None v victimize_ways [OF v] first 2(2) [OF refl None v refl refl refl first refl] by (auto split: option.splits if_splits)
    ultimately show ?thesis by simp
  qed
qed simp

lemma clean_invalidate_line_ways: "ways (clean_invalidate_line clean inval addr c) = ways c"
  by (simp add: clean_invalidate_line_def Let_def split: option.split)

lemma clean_invalidate_loop_ways: "clean_invalidate_loop clean inval end_addr cur c = Some c' \<Longrightarrow> ways c' = ways c"
proof (rule clean_invalidate_loop.raw_induct [where P = "\<lambda>_ _ _ _ c c'. ways c' = ways c"])
  fix loop :: "bool \<Rightarrow> bool \<Rightarrow> uint64_t \<Rightarrow> uint64_t \<Rightarrow> cache_sim_t \<Rightarrow> cache_sim_t option" and clean inval end_addr cur c c'
  assume IH: "\<And>clean inval end_addr cur c c'. loop clean inval end_addr cur c = Some c' \<Longrightarrow> ways c' = ways c"
    and "(if cur < end_addr then loop clean inval end_addr (cur + linesz c) (clean_invalidate_line clean inval cur c) else Some c) = Some c'"
  then show "ways c' = ways c" using clean_invalidate_line_ways by (auto split: if_splits dest!: IH)
qed

lemma clean_invalidate_ways: "clean_invalidate cs addr n clean inval = Some cs' \<Longrightarrow> map ways cs' = map ways cs"
  by (induction cs arbitrary: cs') (auto simp: Let_def split: option.splits dest: clean_invalidate_loop_ways)

text \<open>Chains of constructed caches, after any sequence of accesses and maintenance operations. The configuration check accepts a cache without ways
  (see \<open>zero_ways_accepted\<close>); a chain without such a cache is well formed.\<close>

inductive cache_reachable :: "cache_sim_t list \<Rightarrow> bool" where
  new: "(\<And>c. c \<in> set cs \<Longrightarrow> \<exists>config. construct config = Some c) \<Longrightarrow> cache_reachable cs"
| access: "cache_reachable cs \<Longrightarrow> access cs addr n st = Some cs' \<Longrightarrow> cache_reachable cs'"
| clean_invalidate: "cache_reachable cs \<Longrightarrow> clean_invalidate cs addr n clean inval = Some cs' \<Longrightarrow> cache_reachable cs'"

definition with_ways :: "cache_sim_t list \<Rightarrow> bool" where
  "with_ways cs \<longleftrightarrow> (\<forall>c \<in> set cs. ways c \<noteq> 0)"

lemma with_ways_map: "with_ways cs \<longleftrightarrow> (\<forall>w \<in> set (map ways cs). w \<noteq> 0)"
  by (simp add: with_ways_def)

lemma with_ways_cong: "map ways cs = map ways cs' \<Longrightarrow> with_ways cs = with_ways cs'"
  by (simp only: with_ways_map)

lemma cache_reachable_ok: "cache_reachable cs \<Longrightarrow> with_ways cs \<Longrightarrow> list_all cache_ok cs"
proof (induction rule: cache_reachable.induct)
  case (new cs)
  then show ?case using construct_ok by (auto simp: list_all_iff with_ways_def)
next
  case (access cs addr n st cs')
  then show ?case using access_chain [of cs addr n st] with_ways_cong [OF access_ways [OF access.hyps(2)]] by auto
next
  case (clean_invalidate cs addr n clean inval cs')
  then show ?case using clean_invalidate_chain [of cs addr n clean inval] with_ways_cong [OF clean_invalidate_ways [OF clean_invalidate.hyps(2)]] by auto
qed

lemma fa_set_way_check: "tags c = Fully_Assoc m \<Longrightarrow> check_tag (set_way c k v) a = check_tag c a"
proof -
  assume m: "tags c = Fully_Assoc m"
  have "fst (m[k := (fst (m ! k), v)] ! i) = fst (m ! i)" for i
    by (cases "k < length m") (simp_all add: nth_list_update list_update_beyond)
  then show ?thesis using m by (simp add: check_tag_def set_way_def fa_check_tag_def)
qed

text \<open>The fully associative cache does not look at the valid bit: an invalidated line still hits.\<close>

lemma fa_invalidated_line_hits:
  assumes "tags c = Fully_Assoc m" "check_tag c addr = Some j"
  shows "check_tag (clean_invalidate_line clean True addr c) addr = Some j"
proof -
  have t: "\<exists>m'. tags (set_way d k v) = Fully_Assoc m'" if "tags d = Fully_Assoc m" for d k v m using that by (simp add: set_way_def)
  obtain m' where "tags (set_way (c\<lparr>writebacks := writebacks c + 1\<rparr>) j (get_way c j AND NOT DIRTY)) = Fully_Assoc m'"
    using t [of "c\<lparr>writebacks := writebacks c + 1\<rparr>" m] assms(1) by auto
  then show ?thesis using assms fa_set_way_check by (simp add: clean_invalidate_line_def Let_def)
qed

section \<open>Properties\<close>

text \<open>C39. In every cache hierarchy that comes from configured caches with at least one way by any accesses and maintenance operations, an access returns: it neither
  divides by zero nor dereferences a null pointer, and the next access is in such a hierarchy again. Afterwards the first cache holds a tag for the line of the address,
  dirty after a store, and no line twice. A hit touches nothing else; a miss replaces at most one tag, writes the replaced line to the
  next level exactly when the tag was valid and dirty, and then fetches the missing line from there. The tags of a set-associative cache are the valid ones; a
  fully associative cache also keeps, and hits on, tags that an invalidation has marked (\<open>fa_invalidated_line_hits\<close>). A cache without ways is
  accepted by the configuration check and its first miss divides by zero (\<open>zero_ways_accepted\<close>).\<close>

theorem cache_access_correct:
  assumes "cache_reachable (c # mh)" "with_ways (c # mh)"
  shows "\<exists>c' mh'. access (c # mh) addr n st = Some (c' # mh') \<and> cache_reachable (c' # mh') \<and> with_ways (c' # mh') \<and>
    inj_on tag_line (cache_entries c') \<and> (\<exists>e \<in> cache_entries c'. tag_line e = line_of c addr \<and> (st \<longrightarrow> bit e 62)) \<and>
    (if \<exists>e \<in> cache_entries c. tag_line e = line_of c addr
     then mh' = mh \<and> (\<forall>e. tag_line e \<noteq> line_of c addr \<longrightarrow> (e \<in> cache_entries c' \<longleftrightarrow> e \<in> cache_entries c))
     else \<exists>v out mh1. out \<subseteq> {v} \<inter> cache_entries c \<and> (bit v 63 \<longrightarrow> out = {v}) \<and> first_request mh v (idx_shift c) (linesz c) = Some mh1 \<and>
       access mh1 (addr AND NOT (linesz c - 1)) (linesz c) False = Some mh' \<and>
       (\<forall>e. tag_line e \<noteq> line_of c addr \<longrightarrow> (e \<in> cache_entries c' \<longleftrightarrow> e \<in> cache_entries c \<and> e \<notin> out)))"
proof -
  have ok: "cache_ok c" "list_all cache_ok mh" using cache_reachable_ok [OF assms] by simp_all
  have w: "with_ways cs'" if "access (c # mh) addr n st = Some cs'" for cs' using with_ways_cong [OF access_ways [OF that]] assms(2) by simp
  have inj: "inj_on tag_line (cache_entries d)" if "cache_ok d" for d using cache.entry_unique [OF that] by (auto intro: inj_onI)
  show ?thesis
  proof (cases "check_tag c addr")
    case (Some j)
    let ?c = "if st then set_way (count_access n st c) j (get_way c j OR DIRTY) else count_access n st c"
    have g: "get_way c j \<in> cache_entries c" "tag_line (get_way c j) = line_of c addr" using cache.lookup_Some [OF ok(1) Some] by simp_all
    note h = access_hit [OF ok(1) Some, where n = n and st = st]
    have "\<exists>e \<in> cache_entries ?c. tag_line e = line_of c addr \<and> (st \<longrightarrow> bit e 62)" using h(6) g by (auto simp: tag_bits)
    then show ?thesis using h(1) [of mh] cache_reachable.access [OF assms(1) h(1)] w [OF h(1)] inj [OF h(2)] h(6) g by (intro exI [of _ ?c] exI [of _ mh]) auto
  next
    case None
    let ?t = "if st then line_of c addr OR VALID OR DIRTY else line_of c addr OR VALID"
    have t: "tag_line ?t = line_of c addr" "st \<longrightarrow> bit ?t 62"
      using tag_line_fresh cache.line_bits [OF ok(1)] tag_line_simps(1) [of "line_of c addr OR VALID"] by (auto simp: or.assoc bit_or_iff tag_bits)
    have P: "\<exists>m'. access m a k b = Some m' \<and> list_all cache_ok m'" if "list_all cache_ok m" for m a k b using access_chain [OF that] by blast
    have "\<exists>mh1. first_request mh v (idx_shift c) (linesz c) = Some mh1 \<and> list_all cache_ok mh1" for v
      using P ok(2) by (auto simp: first_request_def)
    from miss_step [OF ok(1) None this, where n = n and st = st and Q = "list_all cache_ok"] P obtain c' v out mh1 mh2 where
      s: "access (c # mh) addr n st = Some (c' # mh2)" "cache_ok c'" "out \<subseteq> {v} \<inter> cache_entries c" "bit v 63 \<longrightarrow> out = {v}"
        "cache_entries c' = insert ?t (cache_entries c - out - {line_of c addr OR VALID})"
        "first_request mh v (idx_shift c) (linesz c) = Some mh1" "access mh1 (addr AND NOT (linesz c - 1)) (linesz c) False = Some mh2"
      by metis
    have "tag_line (line_of c addr OR VALID) = line_of c addr" using tag_line_fresh cache.line_bits [OF ok(1)] by simp
    then have "\<forall>e. tag_line e \<noteq> line_of c addr \<longrightarrow> (e \<in> cache_entries c' \<longleftrightarrow> e \<in> cache_entries c \<and> e \<notin> out)" using s(5) t by auto
    moreover have "\<exists>e \<in> cache_entries c'. tag_line e = line_of c addr \<and> (st \<longrightarrow> bit e 62)" using s(5) t by blast
    moreover have "\<not> (\<exists>e \<in> cache_entries c. tag_line e = line_of c addr)" using cache.lookup_None [OF ok(1) None] by blast
    ultimately show ?thesis using s(1,3,4,6,7) cache_reachable.access [OF assms(1) s(1)] w [OF s(1)] inj [OF s(2)]
      by (intro exI [of _ c'] exI [of _ mh2]) (simp, blast)
  qed
qed

definition demo_cache :: cache_sim_t where
  "demo_cache = the (construct ''4:2:16'')"

lemma demo_cache_reachable: "cache_reachable [demo_cache]" "with_ways [demo_cache]" "linesz demo_cache = 16"
proof -
  have c: "construct ''4:2:16'' \<noteq> None" by code_simp
  then have "construct ''4:2:16'' = Some demo_cache" unfolding demo_cache_def by (rule option.collapse [symmetric])
  then show "cache_reachable [demo_cache]" by (intro cache_reachable.new) auto
  have "ways demo_cache \<noteq> 0" by code_simp
  then show "with_ways [demo_cache]" by (simp add: with_ways_def)
  show "linesz demo_cache = 16" by code_simp
qed

theorem cache_access_correct_witness:
  "cache_reachable [demo_cache] \<and> (\<exists>c' mh'. access [demo_cache] 0x40 8 True = Some (c' # mh') \<and>
     (\<exists>e \<in> cache_entries c'. tag_line e = line_of demo_cache 0x40 \<and> bit e 62))"
  using cache_access_correct [OF demo_cache_reachable(1,2), of "0x40" 8 True] demo_cache_reachable(1) by blast

text \<open>C40. Cleaning or invalidating an address range always ends, in every hierarchy that comes from configured caches with at least one way by any accesses and maintenance
  operations, for every range, and leaves such a hierarchy. When the range, rounded up to whole lines, does not wrap around the address space, afterwards no level holds a tag
  of the range dirty (clean) or marked valid (invalidate). A set-associative cache then misses on the range; a fully associative one does not look at the mark
  (\<open>fa_invalidated_line_hits\<close>).\<close>

theorem cache_clean_invalidate_ends:
  assumes "cache_reachable cs" "with_ways cs"
  shows "\<exists>cs'. clean_invalidate cs addr n clean inval = Some cs' \<and> cache_reachable cs' \<and> with_ways cs' \<and>
    (\<forall>c \<in> set cs'. \<forall>x. unat addr + unat n + unat (linesz c) \<le> 2 ^ 64 \<longrightarrow> unat addr \<le> unat x \<longrightarrow> unat x < unat addr + unat n \<longrightarrow>
       (\<forall>e \<in> cache_entries c. tag_line e = line_of c x \<longrightarrow> (inval \<longrightarrow> \<not> bit e 63) \<and> (clean \<longrightarrow> \<not> bit e 62)) \<and>
       (inval \<and> (\<forall>m. tags c \<noteq> Fully_Assoc m) \<longrightarrow> check_tag c x = None))"
proof -
  obtain cs' where cs': "clean_invalidate cs addr n clean inval = Some cs'" "list_all cache_ok cs'"
      "\<forall>c \<in> set cs'. \<forall>x. unat addr + unat n + unat (linesz c) \<le> 2 ^ 64 \<longrightarrow> unat addr \<le> unat x \<longrightarrow> unat x < unat addr + unat n \<longrightarrow>
         flushed clean inval c (line_of c x)"
    using clean_invalidate_chain [OF cache_reachable_ok [OF assms], where addr = addr and n = n and clean = clean and inval = inval] by blast
  have "check_tag c x = None" if c: "c \<in> set cs'" "flushed clean True c (line_of c x)" "\<forall>m. tags c \<noteq> Fully_Assoc m" for c x
  proof (rule ccontr)
    assume "check_tag c x \<noteq> None"
    then obtain j where j: "check_tag c x = Some j" by auto
    obtain a where a: "tags c = Set_Assoc a" using c(3) by (cases "tags c") auto
    have "get_way c j \<in> cache_entries c" "tag_line (get_way c j) = line_of c x"
      using cache.lookup_Some [OF _ j] cs'(2) c(1) by (auto simp: list_all_iff)
    then show False using c(2) a by (auto simp: flushed_def cache_entries_def array_entries_def)
  qed
  then show ?thesis using cs'(1,3) cache_reachable.clean_invalidate [OF assms(1) cs'(1)] with_ways_cong [OF clean_invalidate_ways [OF cs'(1)]] assms(2)
    unfolding flushed_def by blast
qed

theorem cache_clean_invalidate_ends_witness:
  "cache_reachable [demo_cache] \<and> with_ways [demo_cache] \<and>
   (\<exists>cs'. clean_invalidate [demo_cache] 0x40 8 True True = Some cs' \<and> cache_reachable cs')"
  using cache_clean_invalidate_ends [OF demo_cache_reachable(1,2), where inval = True and addr = "0x40" and n = 8 and clean = True] demo_cache_reachable by blast

text \<open>The configuration check does not reject a cache without ways, and its first access divides by zero.\<close>

lemma zero_ways_accepted: "\<exists>c. construct ''2:0:8'' = Some c \<and> access [c] 0 1 False = None"
proof -
  have "(case construct ''2:0:8'' of None \<Rightarrow> False | Some c \<Rightarrow> access [c] 0 1 False = None)" by code_simp
  then show ?thesis by (auto split: option.splits)
qed

end
