(* ===== verification/Radix_Walk.thy ===== *)
theory Radix_Walk
  imports Main
begin

text \<open>
  Walks through a radix tree of tables that are read from a mutable state, the shape that both stages of the address translation share: a path of pointer
  entries down to an entry, and the contract of a loop that follows such a path, stops with no result at a bad entry and finishes at a leaf.
\<close>

inductive radix_path :: "(nat \<Rightarrow> 'k \<Rightarrow> 's \<Rightarrow> ('t + 'e) \<times> 's) \<Rightarrow> ('e \<Rightarrow> bool) \<Rightarrow> ('e \<Rightarrow> 'k) \<Rightarrow> nat \<Rightarrow> 'k \<Rightarrow> 's \<Rightarrow> nat \<Rightarrow> 'e \<Rightarrow> 's \<Rightarrow> bool"
  for rd tab nxt where
  here: "rd i base s = (Inr e, s') \<Longrightarrow> radix_path rd tab nxt (Suc i) base s i e s'"
| down: "rd i base s = (Inr e, s1) \<Longrightarrow> tab e \<Longrightarrow> radix_path rd tab nxt i (nxt e) s1 j l s' \<Longrightarrow> radix_path rd tab nxt (Suc i) base s j l s'"

inductive_cases radix_path_0E: "radix_path rd tab nxt 0 base s j l s'"
inductive_simps radix_path_Suc: "radix_path rd tab nxt (Suc i) base s j l s'"

lemma radix_path_level: "radix_path rd tab nxt n base s i e s' \<Longrightarrow> i < n"
  by (induction rule: radix_path.induct) auto

lemma radix_path_read: "radix_path rd tab nxt n base s i e s' \<Longrightarrow> \<exists>base s1. rd i base s1 = (Inr e, s')"
  by (induction rule: radix_path.induct) auto

text \<open>The table that pointer entries lead to, with the levels left from there on; an entry that a path reaches is an entry of such a table.\<close>

inductive radix_table :: "(nat \<Rightarrow> 'k \<Rightarrow> 's \<Rightarrow> ('t + 'e) \<times> 's) \<Rightarrow> ('e \<Rightarrow> bool) \<Rightarrow> ('e \<Rightarrow> 'k) \<Rightarrow> nat \<Rightarrow> 'k \<Rightarrow> 's \<Rightarrow> nat \<Rightarrow> 'k \<Rightarrow> 's \<Rightarrow> bool"
  for rd tab nxt where
  root: "radix_table rd tab nxt n base s n base s"
| next_level: "rd i base s = (Inr e, s1) \<Longrightarrow> tab e \<Longrightarrow> radix_table rd tab nxt i (nxt e) s1 m base' s' \<Longrightarrow> radix_table rd tab nxt (Suc i) base s m base' s'"

inductive_cases radix_table_0E: "radix_table rd tab nxt 0 base s m base' s'"
inductive_simps radix_table_Suc: "radix_table rd tab nxt (Suc i) base s m base' s'"

lemma radix_table_0: "radix_table rd tab nxt 0 base s m base' s' \<longleftrightarrow> m = 0 \<and> base' = base \<and> s' = s"
  by (auto intro: radix_table.root elim: radix_table_0E)

lemma radix_table_level: "radix_table rd tab nxt n base s m base' s' \<Longrightarrow> m \<le> n"
  by (induction rule: radix_table.induct) auto

locale radix_walk =
  fixes rd :: "nat \<Rightarrow> 'k \<Rightarrow> 's \<Rightarrow> ('t + 'e) \<times> 's"
    and tab :: "'e \<Rightarrow> bool"
    and nxt :: "'e \<Rightarrow> 'k"
    and leaf :: "nat \<Rightarrow> 'e \<Rightarrow> bool"
    and finish :: "nat \<Rightarrow> 'e \<Rightarrow> 's \<Rightarrow> ('t + 'r option) \<times> 's"
    and loop :: "nat \<Rightarrow> 'k \<Rightarrow> 's \<Rightarrow> ('t + 'r option) \<times> 's"
    and stop :: "nat \<Rightarrow> 'e \<Rightarrow> 't option"
  assumes loop_0: "loop 0 base s = (Inr None, s)"
    and loop_fail: "rd i base s = (Inl t, s1) \<Longrightarrow> loop (Suc i) base s = (Inl t, s1)"
    and loop_table: "rd i base s = (Inr e, s1) \<Longrightarrow> tab e \<Longrightarrow> loop (Suc i) base s = loop i (nxt e) s1"
    and loop_leaf: "rd i base s = (Inr e, s1) \<Longrightarrow> leaf i e \<Longrightarrow> loop (Suc i) base s = finish i e s1"
    and loop_stop: "rd i base s = (Inr e, s1) \<Longrightarrow> \<not> tab e \<Longrightarrow> \<not> leaf i e \<Longrightarrow>
      loop (Suc i) base s = (case stop i e of None \<Rightarrow> (Inr None, s1) | Some t \<Rightarrow> (Inl t, s1))"
    and tab_not_leaf: "tab e \<Longrightarrow> \<not> leaf i e"
begin

text \<open>The loop returns a result exactly when a path leads to a leaf at which it finishes with that result.\<close>

lemma loop_iff:
  "loop n base s = (Inr (Some r), s') \<longleftrightarrow>
     (\<exists>i e s1. radix_path rd tab nxt n base s i e s1 \<and> leaf i e \<and> finish i e s1 = (Inr (Some r), s'))"
proof (induction n arbitrary: base s)
  case 0
  show ?case by (auto simp: loop_0 elim: radix_path_0E)
next
  case (Suc n)
  obtain x s1 where rd: "rd n base s = (x, s1)" by fastforce
  show ?case
  proof (cases x)
    case (Inl t)
    then show ?thesis using loop_fail rd by (simp add: radix_path_Suc)
  next
    case (Inr e)
    note rd = rd [unfolded Inr]
    consider "tab e" | "\<not> tab e" "leaf n e" | "\<not> tab e" "\<not> leaf n e" by blast
    then show ?thesis
    proof cases
      case 1
      then have "\<not> leaf n e" using tab_not_leaf by blast
      then show ?thesis using loop_table [OF rd 1] rd 1 by (auto simp: radix_path_Suc Suc.IH)
    next
      case 2
      then show ?thesis using loop_leaf [OF rd 2(2)] rd by (auto simp: radix_path_Suc)
    next
      case 3
      then show ?thesis using loop_stop [OF rd 3] rd by (cases "stop n e") (auto simp: radix_path_Suc)
    qed
  qed
qed

text \<open>A trap of the loop comes from a read, from the finish or is one of the traps of a bad entry.\<close>

lemma loop_trap:
  "loop n base s = (Inl t, s') \<Longrightarrow> (\<exists>i e. stop i e = Some t) \<or> (\<exists>i base s. fst (rd i base s) = Inl t) \<or> (\<exists>i e s. leaf i e \<and> fst (finish i e s) = Inl t)"
proof (induction n arbitrary: base s)
  case 0
  then show ?case by (simp add: loop_0)
next
  case (Suc n)
  obtain x s1 where rd: "rd n base s = (x, s1)" by fastforce
  show ?case
  proof (cases x)
    case (Inl u)
    then show ?thesis using loop_fail rd Suc.prems by (metis fst_conv prod.inject sum.inject(1))
  next
    case (Inr e)
    note rd = rd [unfolded Inr]
    consider "tab e" | "leaf n e" | "\<not> tab e" "\<not> leaf n e" by blast
    then show ?thesis
    proof cases
      case 1 then show ?thesis using Suc loop_table [OF rd] by simp
    next
      case 2 then show ?thesis using Suc.prems loop_leaf [OF rd] by (metis fst_conv)
    next
      case 3 then show ?thesis using Suc.prems loop_stop [OF rd 3] by (cases "stop n e") auto
    qed
  qed
qed

text \<open>Where a loop that fails has got to, and why it fails there.\<close>

definition fails :: "nat \<Rightarrow> 'k \<Rightarrow> 's \<Rightarrow> 't \<Rightarrow> 's \<Rightarrow> bool" where
  "fails i base s t s' \<longleftrightarrow> rd i base s = (Inl t, s') \<or>
     (\<exists>e s1. rd i base s = (Inr e, s1) \<and> (leaf i e \<and> finish i e s1 = (Inl t, s') \<or> \<not> tab e \<and> \<not> leaf i e \<and> stop i e = Some t \<and> s' = s1))"

lemma loop_trap_iff:
  "loop n base s = (Inl t, s') \<longleftrightarrow> (\<exists>i base' s1. radix_table rd tab nxt n base s (Suc i) base' s1 \<and> fails i base' s1 t s')"
proof (induction n arbitrary: base s)
  case 0
  show ?case by (simp add: loop_0 radix_table_0)
next
  case (Suc n)
  obtain x s1 where rd: "rd n base s = (x, s1)" by fastforce
  have here: "(\<exists>i base' s1. radix_table rd tab nxt (Suc n) base s (Suc i) base' s1 \<and> fails i base' s1 t s') \<longleftrightarrow>
      fails n base s t s' \<or> (\<exists>e s1 i base' s2. rd n base s = (Inr e, s1) \<and> tab e \<and> radix_table rd tab nxt n (nxt e) s1 (Suc i) base' s2 \<and> fails i base' s2 t s')"
    unfolding radix_table_Suc by blast
  show ?case
  proof (cases x)
    case (Inl u)
    then show ?thesis unfolding here using loop_fail rd by (auto simp: fails_def)
  next
    case (Inr e)
    note rd = rd [unfolded Inr]
    consider "tab e" "\<not> leaf n e" | "\<not> tab e" "leaf n e" | "\<not> tab e" "\<not> leaf n e" using tab_not_leaf by blast
    then show ?thesis
    proof cases
      case 1
      then show ?thesis unfolding here using loop_table [OF rd 1(1)] rd by (auto simp: fails_def Suc.IH)
    next
      case 2
      then show ?thesis unfolding here using loop_leaf [OF rd 2(2)] rd by (auto simp: fails_def)
    next
      case 3
      then show ?thesis unfolding here using loop_stop [OF rd 3] rd by (cases "stop n e") (auto simp: fails_def)
    qed
  qed
qed

text \<open>The loop ends without a result when pointer entries lead past the last level, at a bad entry, or at a leaf that yields none.\<close>

lemma loop_none_iff:
  "loop n base s = (Inr None, s') \<longleftrightarrow> (\<exists>base'. radix_table rd tab nxt n base s 0 base' s') \<or>
     (\<exists>i e s1. radix_path rd tab nxt n base s i e s1 \<and>
        (leaf i e \<and> finish i e s1 = (Inr None, s') \<or> \<not> tab e \<and> \<not> leaf i e \<and> stop i e = None \<and> s' = s1))"
proof (induction n arbitrary: base s)
  case 0
  show ?case by (auto simp: loop_0 radix_table_0 elim: radix_path_0E)
next
  case (Suc n)
  obtain x s1 where rd: "rd n base s = (x, s1)" by fastforce
  show ?case
  proof (cases x)
    case (Inl u)
    then show ?thesis using loop_fail rd by (simp add: radix_path_Suc radix_table_Suc)
  next
    case (Inr e)
    note rd = rd [unfolded Inr]
    consider "tab e" "\<not> leaf n e" | "\<not> tab e" "leaf n e" | "\<not> tab e" "\<not> leaf n e" using tab_not_leaf by blast
    then show ?thesis
    proof cases
      case 1
      then show ?thesis using loop_table [OF rd 1(1)] rd by (auto simp: radix_path_Suc radix_table_Suc Suc.IH)
    next
      case 2
      then show ?thesis using loop_leaf [OF rd 2(2)] rd by (auto simp: radix_path_Suc radix_table_Suc)
    next
      case 3
      then show ?thesis using loop_stop [OF rd 3] rd by (cases "stop n e") (auto simp: radix_path_Suc radix_table_Suc)
    qed
  qed
qed

end

end
