(* ===== verification/MMU.thy ===== *)
theory MMU
  imports Radix_Walk Bus Arith
begin

text \<open>
  The memory management unit (\<^verbatim>\<open>riscv/mmu.cc\<close> and \<^verbatim>\<open>riscv/mmu.h\<close>, class \<open>mmu_t\<close>): the effective privilege and address of an access, decoding of the
  translation mode, the two-stage page-table walk with its permission checks and updates of the accessed and dirty bits, and the translation with its
  physical memory protection check. The registers that the walk reads are the fields of a record, each with the value its \<open>read\<close> or
  \<open>readvirt\<close> returns; page tables live on the system bus. A trap is a value, with the state as it was when it was raised; an \<open>abort\<close> is a trap of its own.
  The target is little-endian, as in a build without dual endianness. Both loops are interpretations of the walk of theory \<open>Radix_Walk\<close>.
\<close>

unbundle bit_operations_syntax

section \<open>Encodings\<close>

definition PTE_V :: reg_t where "PTE_V = 0x001"
definition PTE_R :: reg_t where "PTE_R = 0x002"
definition PTE_W :: reg_t where "PTE_W = 0x004"
definition PTE_X :: reg_t where "PTE_X = 0x008"
definition PTE_U :: reg_t where "PTE_U = 0x010"
definition PTE_A :: reg_t where "PTE_A = 0x040"
definition PTE_D :: reg_t where "PTE_D = 0x080"
definition PTE_RSVD :: reg_t where "PTE_RSVD = 0x1FC0000000000000"
definition PTE_PBMT :: reg_t where "PTE_PBMT = 0x6000000000000000"
definition PTE_N :: reg_t where "PTE_N = 0x8000000000000000"
definition PTE_ATTR :: reg_t where "PTE_ATTR = 0xFFC0000000000000"
definition PTE_PPN_SHIFT :: nat where "PTE_PPN_SHIFT = 10"

definition PTE_TABLE :: "reg_t \<Rightarrow> bool" where
  "PTE_TABLE pte \<longleftrightarrow> pte AND (PTE_V OR PTE_R OR PTE_W OR PTE_X) = PTE_V"

definition SATP32_MODE :: reg_t where "SATP32_MODE = 0x80000000"
definition SATP32_PPN :: reg_t where "SATP32_PPN = 0x003FFFFF"
definition SATP64_MODE :: reg_t where "SATP64_MODE = 0xF000000000000000"
definition SATP64_PPN :: reg_t where "SATP64_PPN = 0x00000FFFFFFFFFFF"
definition SATP_MODE_OFF :: reg_t where "SATP_MODE_OFF = 0"
definition SATP_MODE_SV32 :: reg_t where "SATP_MODE_SV32 = 1"
definition SATP_MODE_SV39 :: reg_t where "SATP_MODE_SV39 = 8"
definition SATP_MODE_SV48 :: reg_t where "SATP_MODE_SV48 = 9"
definition SATP_MODE_SV57 :: reg_t where "SATP_MODE_SV57 = 10"
definition SATP_MODE_SV64 :: reg_t where "SATP_MODE_SV64 = 11"
definition HGATP32_MODE :: reg_t where "HGATP32_MODE = 0x80000000"
definition HGATP32_PPN :: reg_t where "HGATP32_PPN = 0x003FFFFF"
definition HGATP64_MODE :: reg_t where "HGATP64_MODE = 0xF000000000000000"
definition HGATP64_PPN :: reg_t where "HGATP64_PPN = 0x00000FFFFFFFFFFF"
definition HGATP_MODE_OFF :: reg_t where "HGATP_MODE_OFF = 0"
definition HGATP_MODE_SV32X4 :: reg_t where "HGATP_MODE_SV32X4 = 1"
definition HGATP_MODE_SV39X4 :: reg_t where "HGATP_MODE_SV39X4 = 8"
definition HGATP_MODE_SV48X4 :: reg_t where "HGATP_MODE_SV48X4 = 9"
definition HGATP_MODE_SV57X4 :: reg_t where "HGATP_MODE_SV57X4 = 10"
definition MSTATUS_MPP :: reg_t where "MSTATUS_MPP = 0x00001800"
definition MSTATUS_MPRV :: reg_t where "MSTATUS_MPRV = 0x00020000"
definition MSTATUS_SUM :: reg_t where "MSTATUS_SUM = 0x00040000"
definition MSTATUS_MXR :: reg_t where "MSTATUS_MXR = 0x00080000"
definition MSTATUS_MPV :: reg_t where "MSTATUS_MPV = 0x0000008000000000"
definition MENVCFG_SSE :: reg_t where "MENVCFG_SSE = 0x00000008"
definition MENVCFG_PMM :: reg_t where "MENVCFG_PMM = 0x0000000300000000"
definition MENVCFG_ADUE :: reg_t where "MENVCFG_ADUE = 0x2000000000000000"
definition MENVCFG_PBMTE :: reg_t where "MENVCFG_PBMTE = 0x4000000000000000"
definition HENVCFG_SSE :: reg_t where "HENVCFG_SSE = 0x00000008"
definition HENVCFG_PMM :: reg_t where "HENVCFG_PMM = 0x0000000300000000"
definition HENVCFG_ADUE :: reg_t where "HENVCFG_ADUE = 0x2000000000000000"
definition HENVCFG_PBMTE :: reg_t where "HENVCFG_PBMTE = 0x4000000000000000"
definition SENVCFG_PMM :: reg_t where "SENVCFG_PMM = 0x0000000300000000"
definition HSTATUS_SPVP :: reg_t where "HSTATUS_SPVP = 0x00000100"
definition HSTATUS_HUPMM :: reg_t where "HSTATUS_HUPMM = 0x0003000000000000"
definition MNSTATUS_NMIE :: reg_t where "MNSTATUS_NMIE = 0x00000008"
definition DCSR_MPRVEN :: reg_t where "DCSR_MPRVEN = 0x10"
definition DEBUG_START :: reg_t where "DEBUG_START = 0x0"
definition DEBUG_SIZE :: reg_t where "DEBUG_SIZE = 0x1000"

section \<open>State\<close>

record mmu_proc =
  xlen :: nat
  const_xlen :: nat
  ext_svnapot :: bool
  ext_S :: bool
  satp :: "bool \<Rightarrow> reg_t"
  hgatp :: reg_t
  sstatus :: "bool \<Rightarrow> reg_t"
  mstatus :: reg_t
  hstatus :: reg_t
  menvcfg :: reg_t
  henvcfg :: reg_t
  senvcfg :: reg_t
  mnstatus :: "reg_t option"
  dcsr :: reg_t
  debug_mode :: bool
  prv :: reg_t
  state_v :: bool
  pmp :: pmp_state

record xlate_flags_t =
  forced_virt :: bool
  hlvx :: bool
  lr :: bool
  ss_access :: bool
  clean_inval :: bool

record mem_access_info_t =
  vaddr :: reg_t
  transformed_vaddr :: reg_t
  effective_priv :: reg_t
  effective_virt :: bool
  flags :: xlate_flags_t
  access_kind :: access_type

record vm_info =
  levels :: nat
  idxbits :: nat
  widenbits :: nat
  ptesize :: nat
  ptbase :: reg_t

text \<open>The traps of the memory path: access and page faults with the faulting address and whether it is a guest virtual address, and the
  guest page fault with the guest physical address and the pseudoinstruction.\<close>

datatype mem_trap =
    Access_Fault access_type bool reg_t
  | Page_Fault access_type bool reg_t
  | Guest_Page_Fault access_type reg_t reg_t reg_t
  | Aborted

type_synonym 'a mmu_result = "(mem_trap + 'a) \<times> bus_t"

definition is_special_access :: "xlate_flags_t \<Rightarrow> bool" where
  "is_special_access f \<longleftrightarrow> forced_virt f \<or> hlvx f \<or> lr f \<or> ss_access f \<or> clean_inval f"

definition no_flags :: xlate_flags_t where
  "no_flags = \<lparr>forced_virt = False, hlvx = False, lr = False, ss_access = False, clean_inval = False\<rparr>"

section \<open>Translation modes\<close>

definition decode_vm_info :: "nat \<Rightarrow> bool \<Rightarrow> reg_t \<Rightarrow> reg_t \<Rightarrow> vm_info option" where
  "decode_vm_info xl stage2 priv atp =
     (let none = \<lparr>levels = 0, idxbits = 0, widenbits = 0, ptesize = 0, ptbase = 0\<rparr>
      in if priv = PRV_M then Some none
         else if \<not> stage2 \<and> priv \<le> PRV_S \<and> xl = 32 then
           if get_field atp SATP32_MODE = SATP_MODE_OFF then Some none
           else if get_field atp SATP32_MODE = SATP_MODE_SV32
                then Some \<lparr>levels = 2, idxbits = 10, widenbits = 0, ptesize = 4, ptbase = push_bit PGSHIFT (atp AND SATP32_PPN)\<rparr>
           else None
         else if \<not> stage2 \<and> priv \<le> PRV_S \<and> xl = 64 then
           let base = push_bit PGSHIFT (atp AND SATP64_PPN); m = get_field atp SATP64_MODE
           in if m = SATP_MODE_OFF then Some none
              else if m = SATP_MODE_SV39 then Some \<lparr>levels = 3, idxbits = 9, widenbits = 0, ptesize = 8, ptbase = base\<rparr>
              else if m = SATP_MODE_SV48 then Some \<lparr>levels = 4, idxbits = 9, widenbits = 0, ptesize = 8, ptbase = base\<rparr>
              else if m = SATP_MODE_SV57 then Some \<lparr>levels = 5, idxbits = 9, widenbits = 0, ptesize = 8, ptbase = base\<rparr>
              else if m = SATP_MODE_SV64 then Some \<lparr>levels = 6, idxbits = 9, widenbits = 0, ptesize = 8, ptbase = base\<rparr>
              else None
         else if stage2 \<and> xl = 32 then
           if get_field atp HGATP32_MODE = HGATP_MODE_OFF then Some none
           else if get_field atp HGATP32_MODE = HGATP_MODE_SV32X4
                then Some \<lparr>levels = 2, idxbits = 10, widenbits = 2, ptesize = 4, ptbase = push_bit PGSHIFT (atp AND HGATP32_PPN)\<rparr>
           else None
         else if stage2 \<and> xl = 64 then
           let base = push_bit PGSHIFT (atp AND HGATP64_PPN); m = get_field atp HGATP64_MODE
           in if m = HGATP_MODE_OFF then Some none
              else if m = HGATP_MODE_SV39X4 then Some \<lparr>levels = 3, idxbits = 9, widenbits = 2, ptesize = 8, ptbase = base\<rparr>
              else if m = HGATP_MODE_SV48X4 then Some \<lparr>levels = 4, idxbits = 9, widenbits = 2, ptesize = 8, ptbase = base\<rparr>
              else if m = HGATP_MODE_SV57X4 then Some \<lparr>levels = 5, idxbits = 9, widenbits = 2, ptesize = 8, ptbase = base\<rparr>
              else None
         else None)"

section \<open>The effective privilege and address of an access\<close>

definition zext :: "reg_t \<Rightarrow> nat \<Rightarrow> reg_t" where
  "zext x pos = drop_bit (64 - pos) (push_bit (64 - pos) x)"

definition sext :: "reg_t \<Rightarrow> nat \<Rightarrow> reg_t" where
  "sext x pos = signed_drop_bit (64 - pos) (push_bit (64 - pos) x)"

definition in_mprv :: "mmu_proc \<Rightarrow> bool" where
  "in_mprv p \<longleftrightarrow>
     \<not> (case mnstatus p of None \<Rightarrow> False | Some m \<Rightarrow> get_field m MNSTATUS_NMIE = 0) \<and>
     (\<not> debug_mode p \<or> get_field (dcsr p) DCSR_MPRVEN \<noteq> 0) \<and>
     get_field (mstatus p) MSTATUS_MPRV \<noteq> 0"

text \<open>The number of masked bits; no result stands for the failed assertion on a reserved privilege level.\<close>

definition get_pmlen :: "mmu_proc \<Rightarrow> bool \<Rightarrow> reg_t \<Rightarrow> xlate_flags_t \<Rightarrow> nat option" where
  "get_pmlen p eff_virt eff_priv f =
     (let pmlen = (\<lambda>pmm :: reg_t. Some (if pmm = 2 then 7 else if pmm = 3 then 16 else 0))
      in if xlen p \<noteq> 64 \<or> hlvx f then Some 0
         else if eff_priv = PRV_M then pmlen (get_field (mseccfg (pmp p)) MSECCFG_PMM)
         else if (sstatus p False OR sstatus p eff_virt) AND MSTATUS_MXR \<noteq> 0 then pmlen 0
         else if \<not> eff_virt \<and> (eff_priv = PRV_S \<or> \<not> ext_S p \<and> eff_priv = PRV_U) then pmlen (get_field (menvcfg p) MENVCFG_PMM)
         else if eff_virt \<and> eff_priv = PRV_S then pmlen (get_field (henvcfg p) HENVCFG_PMM)
         else if prv p = PRV_U \<and> forced_virt f then pmlen (get_field (hstatus p) HSTATUS_HUPMM)
         else if eff_priv = PRV_U then pmlen (get_field (senvcfg p) SENVCFG_PMM)
         else None)"

definition effective_mode :: "mmu_proc \<Rightarrow> access_type \<Rightarrow> xlate_flags_t \<Rightarrow> bool \<times> reg_t" where
  "effective_mode p type f =
     (if type = FETCH then (state_v p, prv p)
      else if forced_virt f then (True, get_field (hstatus p) HSTATUS_SPVP)
      else if in_mprv p then
        let mode = get_field (mstatus p) MSTATUS_MPP
        in (state_v p \<or> get_field (mstatus p) MSTATUS_MPV \<noteq> 0 \<and> mode \<noteq> PRV_M, mode)
      else (state_v p, prv p))"

definition generate_access_info :: "mmu_proc \<Rightarrow> reg_t \<Rightarrow> access_type \<Rightarrow> xlate_flags_t \<Rightarrow> mem_access_info_t option" where
  "generate_access_info p addr type f =
     (let (virt, mode) = effective_mode p type f;
          info = \<lparr>vaddr = addr, transformed_vaddr = addr, effective_priv = mode, effective_virt = virt, flags = f, access_kind = type\<rparr>
      in if type = FETCH then Some info
         else case get_pmlen p virt mode f of
                None \<Rightarrow> None
              | Some pmlen \<Rightarrow>
                  let is_physical_addr = (mode = PRV_M \<or> get_field (satp p virt) SATP64_MODE = SATP_MODE_OFF);
                      pos = const_xlen p - pmlen
                  in Some (info\<lparr>transformed_vaddr := (if is_physical_addr then zext addr pos else sext addr pos)\<rparr>))"

section \<open>Page-table accesses\<close>

definition mmio_ok :: "mmu_proc \<Rightarrow> reg_t \<Rightarrow> bool" where
  "mmio_ok p paddr \<longleftrightarrow> \<not> (DEBUG_START \<le> paddr \<and> paddr - DEBUG_START < DEBUG_SIZE \<and> \<not> debug_mode p)"

definition sim_mmio_load :: "bus_t \<Rightarrow> reg_t \<Rightarrow> nat \<Rightarrow> uint8_t list option \<times> bus_t" where
  "sim_mmio_load b paddr len = (if paddr + of_nat len < paddr then (None, b) else bus_load b paddr len)"

definition sim_mmio_store :: "bus_t \<Rightarrow> reg_t \<Rightarrow> uint8_t list \<Rightarrow> bool \<times> bus_t" where
  "sim_mmio_store b paddr bytes = (if paddr + of_nat (length bytes) < paddr then (False, b) else bus_store b paddr bytes)"

fun mmio_load_bytes :: "mmu_proc \<Rightarrow> bus_t \<Rightarrow> reg_t \<Rightarrow> nat \<Rightarrow> uint8_t list option \<times> bus_t" where
  "mmio_load_bytes p b paddr 0 = (Some [], b)"
| "mmio_load_bytes p b paddr (Suc n) =
     (if \<not> mmio_ok p paddr then (None, b)
      else case sim_mmio_load b paddr 1 of
             (None, b) \<Rightarrow> (None, b)
           | (Some bs, b) \<Rightarrow> (case mmio_load_bytes p b (paddr + 1) n of (r, b) \<Rightarrow> (map_option (\<lambda>rest. bs @ rest) r, b)))"

fun mmio_store_bytes :: "mmu_proc \<Rightarrow> bus_t \<Rightarrow> reg_t \<Rightarrow> uint8_t list \<Rightarrow> bool \<times> bus_t" where
  "mmio_store_bytes p b paddr [] = (True, b)"
| "mmio_store_bytes p b paddr (x # xs) =
     (if \<not> mmio_ok p paddr then (False, b)
      else case sim_mmio_store b paddr [x] of
             (False, b) \<Rightarrow> (False, b)
           | (True, b) \<Rightarrow> mmio_store_bytes p b (paddr + 1) xs)"

definition mmio_load :: "mmu_proc \<Rightarrow> bus_t \<Rightarrow> reg_t \<Rightarrow> nat \<Rightarrow> uint8_t list option \<times> bus_t" where
  "mmio_load p b paddr len =
     (let power_of_2 = (of_nat len AND (of_nat len - 1 :: reg_t) = 0);
          naturally_aligned = (paddr AND (of_nat len - 1) = 0)
      in if power_of_2 \<and> naturally_aligned then if mmio_ok p paddr then sim_mmio_load b paddr len else (None, b)
         else mmio_load_bytes p b paddr len)"

definition mmio_store :: "mmu_proc \<Rightarrow> bus_t \<Rightarrow> reg_t \<Rightarrow> uint8_t list \<Rightarrow> bool \<times> bus_t" where
  "mmio_store p b paddr bytes =
     (let len = of_nat (length bytes) :: reg_t;
          power_of_2 = (len AND (len - 1) = 0);
          naturally_aligned = (paddr AND (len - 1) = 0)
      in if power_of_2 \<and> naturally_aligned then if mmio_ok p paddr then sim_mmio_store b paddr bytes else (False, b)
         else mmio_store_bytes p b paddr bytes)"

text \<open>The memory that holds a page, with the offset in it; \<open>set_memory\<close> stores its new contents back.\<close>

definition addr_to_mem :: "bus_t \<Rightarrow> reg_t \<Rightarrow> (mem_t \<times> reg_t) option" where
  "addr_to_mem b paddr =
     (case find_device b (push_bit PGSHIFT (drop_bit PGSHIFT paddr)) (of_nat PGSIZE) of
        No_Device \<Rightarrow> None
      | Device base \<Rightarrow> (case device_at b base of Mem m \<Rightarrow> Some (m, paddr - base) | Rom data \<Rightarrow> None)
      | Fallback \<Rightarrow> (case fallback b of Mem m \<Rightarrow> Some (m, paddr) | Rom data \<Rightarrow> None))"

definition set_memory :: "bus_t \<Rightarrow> reg_t \<Rightarrow> mem_t \<Rightarrow> bus_t" where
  "set_memory b paddr m =
     (case find_device b (push_bit PGSHIFT (drop_bit PGSHIFT paddr)) (of_nat PGSIZE) of
        No_Device \<Rightarrow> b
      | Device base \<Rightarrow> update_device base (Mem m) b
      | Fallback \<Rightarrow> b\<lparr>fallback := Mem m\<rparr>)"

fun from_le :: "uint8_t list \<Rightarrow> reg_t" where
  "from_le [] = 0"
| "from_le (b # bs) = ucast b OR push_bit 8 (from_le bs)"

definition to_le :: "nat \<Rightarrow> reg_t \<Rightarrow> uint8_t list" where
  "to_le n w = map (\<lambda>i. ucast (drop_bit (8 * i) w)) [0..<n]"

definition pte_load :: "mmu_proc \<Rightarrow> reg_t \<Rightarrow> reg_t \<Rightarrow> bool \<Rightarrow> access_type \<Rightarrow> nat \<Rightarrow> bus_t \<Rightarrow> reg_t mmu_result" where
  "pte_load p pte_paddr addr virt trap_type n b =
     (if \<not> pmp_ok (pmp p) pte_paddr (of_nat n) LOAD PRV_S False then (Inl (Access_Fault trap_type virt addr), b)
      else case addr_to_mem b pte_paddr of
             Some (m, a) \<Rightarrow>
               (case contents m a of (m, page, off) \<Rightarrow> (Inr (from_le (map (\<lambda>i. page (off + i)) [0..<n])), set_memory b pte_paddr m))
           | None \<Rightarrow>
               (case mmio_load p b pte_paddr n of
                  (None, b) \<Rightarrow> (Inl (Access_Fault trap_type virt addr), b)
                | (Some bytes, b) \<Rightarrow> (Inr (from_le bytes), b)))"

definition pte_store :: "mmu_proc \<Rightarrow> reg_t \<Rightarrow> reg_t \<Rightarrow> reg_t \<Rightarrow> bool \<Rightarrow> access_type \<Rightarrow> nat \<Rightarrow> bus_t \<Rightarrow> unit mmu_result" where
  "pte_store p pte_paddr new_pte addr virt trap_type n b =
     (if \<not> pmp_ok (pmp p) pte_paddr (of_nat n) STORE PRV_S False then (Inl (Access_Fault trap_type virt addr), b)
      else case addr_to_mem b pte_paddr of
             Some (m, a) \<Rightarrow>
               (case contents m a of
                  (m, page, off) \<Rightarrow>
                    (Inr (), set_memory b pte_paddr
                       (m\<lparr>sparse_memory_map := (sparse_memory_map m)(drop_bit PGSHIFT a \<mapsto> copy_in page off (to_le n new_pte))\<rparr>)))
           | None \<Rightarrow>
               (case mmio_store p b pte_paddr (to_le n new_pte) of
                  (False, b) \<Rightarrow> (Inl (Access_Fault trap_type virt addr), b)
                | (True, b) \<Rightarrow> (Inr (), b)))"

section \<open>Second stage\<close>

definition pte_ppn :: "reg_t \<Rightarrow> reg_t" where
  "pte_ppn pte = drop_bit PTE_PPN_SHIFT (pte AND NOT PTE_ATTR)"

definition napot_bits :: "reg_t \<Rightarrow> nat" where
  "napot_bits pte = (if pte AND PTE_N \<noteq> 0 then ctz (pte_ppn pte) + 1 else 0)"

definition page_mask :: reg_t where
  "page_mask = push_bit PGSHIFT 1 - 1"

definition leaf_page :: "reg_t \<Rightarrow> nat \<Rightarrow> reg_t \<Rightarrow> reg_t" where
  "leaf_page pte ptshift a =
     (let vpn = drop_bit PGSHIFT a
      in push_bit PGSHIFT ((pte_ppn pte AND NOT (push_bit (napot_bits pte) 1 - 1)) OR
                           (vpn AND (push_bit (napot_bits pte) 1 - 1)) OR
                           (vpn AND (push_bit ptshift 1 - 1))) OR (a AND page_mask))"

text \<open>The chain of tests on an entry: \<open>Break\<close> leaves the loop with a fault, \<open>Descend\<close> goes to the next level.\<close>

datatype verdict = Break | Descend | Raise mem_trap | Grant

definition classify_s2_pte :: "mmu_proc \<Rightarrow> vm_info \<Rightarrow> access_type \<Rightarrow> bool \<Rightarrow> bool \<Rightarrow> nat \<Rightarrow> reg_t \<Rightarrow> verdict" where
  "classify_s2_pte p vm type hl mxr i pte =
     (let ptshift = i * idxbits vm;
          ppn = pte_ppn pte;
          pbmte = (menvcfg p AND MENVCFG_PBMTE \<noteq> 0)
      in if pte AND PTE_RSVD \<noteq> 0 then Break
         else if \<not> ext_svnapot p \<and> pte AND PTE_N \<noteq> 0 then Break
         else if \<not> pbmte \<and> pte AND PTE_PBMT \<noteq> 0 then Break
         else if pte AND PTE_PBMT = PTE_PBMT then Break
         else if PTE_TABLE pte then
           if pte AND (PTE_D OR PTE_A OR PTE_U OR PTE_N OR PTE_PBMT) \<noteq> 0 then Break else Descend
         else if pte AND PTE_V = 0 \<or> pte AND PTE_R = 0 \<and> pte AND PTE_W \<noteq> 0 then Break
         else if pte AND PTE_N \<noteq> 0 \<and> (ppn = 0 \<or> i \<noteq> 0) \<or> napot_bits pte \<noteq> 0 \<and> napot_bits pte \<noteq> 4 then Break
         else if pte AND PTE_U = 0 then Break
         else if (if type = FETCH \<or> hl then pte AND PTE_X = 0
                  else if type = LOAD then pte AND PTE_R = 0 \<and> \<not> (mxr \<and> pte AND PTE_X \<noteq> 0)
                  else \<not> (pte AND PTE_R \<noteq> 0 \<and> pte AND PTE_W \<noteq> 0)) then Break
         else if ppn AND (push_bit ptshift 1 - 1) \<noteq> 0 then Break
         else Grant)"

definition needs_ad :: "access_type \<Rightarrow> reg_t" where
  "needs_ad type = PTE_A OR (if type = STORE then PTE_D else 0)"

definition s2_finish :: "mmu_proc \<Rightarrow> vm_info \<Rightarrow> reg_t \<Rightarrow> reg_t \<Rightarrow> access_type \<Rightarrow> bool \<Rightarrow> nat \<Rightarrow> reg_t \<times> reg_t \<Rightarrow> bus_t \<Rightarrow> reg_t option mmu_result" where
  "s2_finish p vm gva gpa type virt i e b =
     (let (pte_paddr, pte) = e; ad = needs_ad type
      in if pte AND ad \<noteq> ad then
           if menvcfg p AND MENVCFG_ADUE \<noteq> 0 then
             (case pte_store p pte_paddr (pte OR ad) gva virt type (ptesize vm) b of
                (Inl t, b) \<Rightarrow> (Inl t, b)
              | (Inr _, b) \<Rightarrow> (Inr (Some (leaf_page pte (i * idxbits vm) gpa)), b))
           else (Inr None, b)
         else (Inr (Some (leaf_page pte (i * idxbits vm) gpa)), b))"

definition s2_read :: "mmu_proc \<Rightarrow> vm_info \<Rightarrow> reg_t \<Rightarrow> reg_t \<Rightarrow> access_type \<Rightarrow> bool \<Rightarrow> nat \<Rightarrow> reg_t \<Rightarrow> bus_t \<Rightarrow> (reg_t \<times> reg_t) mmu_result" where
  "s2_read p vm gva gpa trap_type virt i base b =
     (let bits = (if i = levels vm - 1 then idxbits vm + widenbits vm else idxbits vm);
          idx = drop_bit (PGSHIFT + i * idxbits vm) gpa AND (push_bit bits 1 - 1);
          pte_paddr = base + idx * of_nat (ptesize vm)
      in case pte_load p pte_paddr gva virt trap_type (ptesize vm) b of
           (Inl t, b) \<Rightarrow> (Inl t, b)
         | (Inr pte, b) \<Rightarrow> (Inr (pte_paddr, pte), b))"

fun s2_loop :: "mmu_proc \<Rightarrow> vm_info \<Rightarrow> reg_t \<Rightarrow> reg_t \<Rightarrow> access_type \<Rightarrow> access_type \<Rightarrow> bool \<Rightarrow> bool \<Rightarrow> bool \<Rightarrow> nat \<Rightarrow> reg_t \<Rightarrow> bus_t \<Rightarrow>
    reg_t option mmu_result" where
  "s2_loop p vm gva gpa type trap_type virt hl mxr 0 base b = (Inr None, b)"
| "s2_loop p vm gva gpa type trap_type virt hl mxr (Suc i) base b =
     (case s2_read p vm gva gpa trap_type virt i base b of
        (Inl t, b) \<Rightarrow> (Inl t, b)
      | (Inr e, b) \<Rightarrow>
          (case classify_s2_pte p vm type hl mxr i (snd e) of
             Break \<Rightarrow> (Inr None, b)
           | Descend \<Rightarrow> s2_loop p vm gva gpa type trap_type virt hl mxr i (push_bit PGSHIFT (pte_ppn (snd e))) b
           | Raise t \<Rightarrow> (Inl t, b)
           | Grant \<Rightarrow> s2_finish p vm gva gpa type virt i e b))"

definition s2xlate :: "mmu_proc \<Rightarrow> reg_t \<Rightarrow> reg_t \<Rightarrow> access_type \<Rightarrow> access_type \<Rightarrow> bool \<Rightarrow> bool \<Rightarrow> bool \<Rightarrow> bus_t \<Rightarrow> reg_t mmu_result" where
  "s2xlate p gva gpa type trap_type virt hl is_for_vs_pt_addr b =
     (if \<not> virt then (Inr gpa, b)
      else case decode_vm_info (const_xlen p) True 0 (hgatp p) of
             None \<Rightarrow> (Inl Aborted, b)
           | Some vm \<Rightarrow>
               if levels vm = 0 then (Inr gpa, b)
               else
                 let maxgpabits = levels vm * idxbits vm + widenbits vm + PGSHIFT;
                     maxgpa = push_bit maxgpabits 1 - 1;
                     mxr = (\<not> is_for_vs_pt_addr \<and> sstatus p False AND MSTATUS_MXR \<noteq> 0);
                     tinst = (if is_for_vs_pt_addr then 0x2000 else 0) OR
                             (if const_xlen p = 64 \<and> is_for_vs_pt_addr then 0x1000 else 0) OR
                             (if type = STORE \<and> is_for_vs_pt_addr then 0x0020 else 0);
                     fault = Guest_Page_Fault trap_type gva (drop_bit 2 gpa) tinst
                 in if gpa AND NOT maxgpa \<noteq> 0 then (Inl fault, b)
                    else case s2_loop p vm gva gpa type trap_type virt hl mxr (levels vm) (ptbase vm) b of
                           (Inl t, b) \<Rightarrow> (Inl t, b)
                         | (Inr None, b) \<Rightarrow> (Inl fault, b)
                         | (Inr (Some pa), b) \<Rightarrow> (Inr pa, b))"

section \<open>The walk\<close>

record walk_ctx =
  w_vm :: vm_info
  w_type :: access_type
  w_addr :: reg_t
  w_virt :: bool
  w_hlvx :: bool
  w_s_mode :: bool
  w_ss_access :: bool
  w_clean_inval :: bool
  w_sum :: bool
  w_mxr :: bool

definition pte_address :: "walk_ctx \<Rightarrow> nat \<Rightarrow> reg_t \<Rightarrow> reg_t" where
  "pte_address w i base =
     base + (drop_bit (PGSHIFT + i * idxbits (w_vm w)) (w_addr w) AND (push_bit (idxbits (w_vm w)) 1 - 1)) * of_nat (ptesize (w_vm w))"

definition env_bit :: "mmu_proc \<Rightarrow> bool \<Rightarrow> reg_t \<Rightarrow> reg_t \<Rightarrow> bool" where
  "env_bit p virt hbit mbit = (if virt then henvcfg p AND hbit \<noteq> 0 else menvcfg p AND mbit \<noteq> 0)"

definition classify_pte :: "mmu_proc \<Rightarrow> walk_ctx \<Rightarrow> nat \<Rightarrow> reg_t \<Rightarrow> verdict" where
  "classify_pte p w i pte =
     (let type = w_type w; addr = w_addr w; virt = w_virt w;
          ptshift = i * idxbits (w_vm w);
          ppn = pte_ppn pte;
          pbmte = env_bit p virt HENVCFG_PBMTE MENVCFG_PBMTE;
          sse = env_bit p virt HENVCFG_SSE MENVCFG_SSE;
          ss_page = (pte AND PTE_R = 0 \<and> pte AND PTE_W \<noteq> 0 \<and> pte AND PTE_X = 0)
      in if pte AND PTE_RSVD \<noteq> 0 then Break
         else if \<not> ext_svnapot p \<and> pte AND PTE_N \<noteq> 0 then Break
         else if \<not> pbmte \<and> pte AND PTE_PBMT \<noteq> 0 then Break
         else if pte AND PTE_PBMT = PTE_PBMT then Break
         else if PTE_TABLE pte then
           if pte AND (PTE_D OR PTE_A OR PTE_U OR PTE_N OR PTE_PBMT) \<noteq> 0 then Break else Descend
         else if (if pte AND PTE_U \<noteq> 0 then w_s_mode w \<and> (type = FETCH \<or> \<not> w_sum w) else \<not> w_s_mode w) then Break
         else if pte AND PTE_V = 0 \<or>
                 pte AND PTE_R = 0 \<and> pte AND PTE_W \<noteq> 0 \<and> (\<not> sse \<and> pte AND PTE_X = 0 \<or> pte AND PTE_X \<noteq> 0) then Break
         else if pte AND PTE_N \<noteq> 0 \<and> (ppn = 0 \<or> i \<noteq> 0) \<or> napot_bits pte \<noteq> 0 \<and> napot_bits pte \<noteq> 4 then Break
         else if ppn AND (push_bit ptshift 1 - 1) \<noteq> 0 then Break
         else if ss_page \<and> (type = STORE \<and> \<not> w_ss_access w \<or> w_clean_inval w) then Raise (Access_Fault STORE virt addr)
         else if ss_page \<and> type = FETCH then Raise (Access_Fault FETCH virt addr)
         else if (pte AND PTE_R \<noteq> 0 \<and> pte AND PTE_W \<noteq> 0 \<or> pte AND PTE_X \<noteq> 0) \<and> w_ss_access w
         then Raise (Access_Fault STORE virt addr)
         else if (if type = FETCH \<or> w_hlvx w then pte AND PTE_X = 0
                  else if type = LOAD then \<not> (sse \<and> ss_page) \<and> pte AND PTE_R = 0 \<and> \<not> (w_mxr w \<and> pte AND PTE_X \<noteq> 0)
                  else pte AND PTE_W = 0) then Break
         else Grant)"

definition walk_update :: "mmu_proc \<Rightarrow> walk_ctx \<Rightarrow> reg_t \<Rightarrow> reg_t \<Rightarrow> reg_t \<Rightarrow> bus_t \<Rightarrow> bool mmu_result" where
  "walk_update p w pte_gpa pte_paddr pte b =
     (let type = w_type w; addr = w_addr w; virt = w_virt w; ad = needs_ad type
      in if pte AND ad \<noteq> ad then
           if env_bit p virt HENVCFG_ADUE MENVCFG_ADUE then
             (case s2xlate p addr pte_gpa STORE type virt False True b of
                (Inl t, b) \<Rightarrow> (Inl t, b)
              | (Inr _, b) \<Rightarrow>
                  (case pte_store p pte_paddr (pte OR ad) addr virt type (ptesize (w_vm w)) b of
                     (Inl t, b) \<Rightarrow> (Inl t, b)
                   | (Inr _, b) \<Rightarrow> (Inr True, b)))
           else (Inr False, b)
         else (Inr True, b))"

definition walk_read :: "mmu_proc \<Rightarrow> walk_ctx \<Rightarrow> nat \<Rightarrow> reg_t \<Rightarrow> bus_t \<Rightarrow> (reg_t \<times> reg_t \<times> reg_t) mmu_result" where
  "walk_read p w i base b =
     (let pte_gpa = pte_address w i base
      in case s2xlate p (w_addr w) pte_gpa LOAD (w_type w) (w_virt w) False True b of
           (Inl t, b) \<Rightarrow> (Inl t, b)
         | (Inr pte_paddr, b) \<Rightarrow>
             (case pte_load p pte_paddr (w_addr w) (w_virt w) (w_type w) (ptesize (w_vm w)) b of
                (Inl t, b) \<Rightarrow> (Inl t, b)
              | (Inr pte, b) \<Rightarrow> (Inr (pte_gpa, pte_paddr, pte), b)))"

definition walk_finish :: "mmu_proc \<Rightarrow> walk_ctx \<Rightarrow> nat \<Rightarrow> reg_t \<times> reg_t \<times> reg_t \<Rightarrow> bus_t \<Rightarrow> reg_t option mmu_result" where
  "walk_finish p w i e b =
     (let (pte_gpa, pte_paddr, pte) = e
      in case walk_update p w pte_gpa pte_paddr pte b of
           (Inl t, b) \<Rightarrow> (Inl t, b)
         | (Inr False, b) \<Rightarrow> (Inr None, b)
         | (Inr True, b) \<Rightarrow>
             (case s2xlate p (w_addr w) (leaf_page pte (i * idxbits (w_vm w)) (w_addr w)) (w_type w) (w_type w) (w_virt w) (w_hlvx w) False b of
                (Inl t, b) \<Rightarrow> (Inl t, b)
              | (Inr pa, b) \<Rightarrow> (Inr (Some (pa AND NOT page_mask)), b)))"

fun walk_loop :: "mmu_proc \<Rightarrow> walk_ctx \<Rightarrow> nat \<Rightarrow> reg_t \<Rightarrow> bus_t \<Rightarrow> reg_t option mmu_result" where
  "walk_loop p w 0 base b = (Inr None, b)"
| "walk_loop p w (Suc i) base b =
     (case walk_read p w i base b of
        (Inl t, b) \<Rightarrow> (Inl t, b)
      | (Inr e, b) \<Rightarrow>
          (case classify_pte p w i (snd (snd e)) of
             Break \<Rightarrow> (Inr None, b)
           | Descend \<Rightarrow> walk_loop p w i (push_bit PGSHIFT (pte_ppn (snd (snd e)))) b
           | Raise t \<Rightarrow> (Inl t, b)
           | Grant \<Rightarrow> walk_finish p w i e b))"

definition walk_context :: "mmu_proc \<Rightarrow> mem_access_info_t \<Rightarrow> vm_info \<Rightarrow> walk_ctx" where
  "walk_context p info vm =
     (let virt = effective_virt info; ss = ss_access (flags info)
      in \<lparr>w_vm = vm, w_type = (if ss then STORE else access_kind info), w_addr = transformed_vaddr info, w_virt = virt,
          w_hlvx = hlvx (flags info), w_s_mode = (effective_priv info = PRV_S), w_ss_access = ss, w_clean_inval = clean_inval (flags info),
          w_sum = (sstatus p virt AND MSTATUS_SUM \<noteq> 0),
          w_mxr = ((sstatus p False OR sstatus p virt) AND MSTATUS_MXR \<noteq> 0)\<rparr>)"

definition canonical_msbs :: "nat \<Rightarrow> vm_info \<Rightarrow> reg_t \<Rightarrow> bool" where
  "canonical_msbs xl vm addr =
     (let va_bits = PGSHIFT + levels vm * idxbits vm;
          msk = push_bit (xl - (va_bits - 1)) 1 - 1;
          masked_msbs = drop_bit (va_bits - 1) addr AND msk
      in masked_msbs = 0 \<or> masked_msbs = msk)"

definition walk :: "mmu_proc \<Rightarrow> mem_access_info_t \<Rightarrow> bus_t \<Rightarrow> reg_t mmu_result" where
  "walk p info b =
     (let addr = transformed_vaddr info;
          virt = effective_virt info;
          mode = effective_priv info;
          ss = ss_access (flags info);
          type = (if ss then STORE else access_kind info)
      in case decode_vm_info (const_xlen p) False mode (satp p virt) of
           None \<Rightarrow> (Inl Aborted, b)
         | Some vm \<Rightarrow>
             if levels vm = 0 then
               if ss then (Inl (Access_Fault STORE virt addr), b)
               else (case s2xlate p addr (addr AND (push_bit (xlen p - 1) 2 - 1)) type type virt (hlvx (flags info)) False b of
                       (Inl t, b) \<Rightarrow> (Inl t, b)
                     | (Inr pa, b) \<Rightarrow> (Inr (pa AND NOT page_mask), b))
             else
               let n = (if canonical_msbs (xlen p) vm addr then levels vm else 0)
               in case walk_loop p (walk_context p info vm) n (ptbase vm) b of
                    (Inl t, b) \<Rightarrow> (Inl t, b)
                  | (Inr None, b) \<Rightarrow> (Inl (Page_Fault type virt addr), b)
                  | (Inr (Some pa), b) \<Rightarrow> (Inr pa, b))"

definition translate :: "mmu_proc \<Rightarrow> mem_access_info_t \<Rightarrow> reg_t \<Rightarrow> bus_t \<Rightarrow> reg_t mmu_result" where
  "translate p info len b =
     (let addr = transformed_vaddr info;
          type = (if ss_access (flags info) then STORE else access_kind info)
      in case walk p info b of
           (Inl t, b) \<Rightarrow> (Inl t, b)
         | (Inr base, b) \<Rightarrow>
             let paddr = base OR (addr AND (of_nat PGSIZE - 1))
             in if \<not> pmp_ok (pmp p) paddr len type (effective_priv info) (hlvx (flags info))
                then (Inl (Access_Fault type (effective_virt info) addr), b)
                else (Inr paddr, b))"

declare s2_loop.simps [simp del] walk_loop.simps [simp del]

lemma zext_take_bit: "pos \<le> 64 \<Longrightarrow> zext x pos = take_bit pos x"
  unfolding zext_def by (rule bit_word_eqI) (auto simp: bit_drop_bit_eq bit_push_bit_iff bit_take_bit_iff)

lemma bit_sext: "0 < pos \<Longrightarrow> pos \<le> 64 \<Longrightarrow> bit (sext x pos) n \<longleftrightarrow> n < 64 \<and> bit x (min n (pos - 1))"
  unfolding sext_def by (cases "n < pos") (auto simp: bit_signed_drop_bit_iff bit_push_bit_iff min_def)

lemma get_pmlen_values: "get_pmlen p v m f = Some n \<Longrightarrow> n \<in> {0, 7, 16}"
  by (auto simp: get_pmlen_def Let_def split: if_splits)

text \<open>The page offset of an access is not affected by the pointer masking.\<close>

lemma access_info_offset:
  assumes "generate_access_info p addr type f = Some info" "32 \<le> const_xlen p" "const_xlen p \<le> 64"
  shows "take_bit 12 (transformed_vaddr info) = take_bit 12 addr"
proof (cases "type = FETCH")
  case True
  then show ?thesis using assms(1) by (auto simp: generate_access_info_def split: prod.splits)
next
  case False
  have z: "take_bit 12 (zext addr pos) = take_bit 12 addr" "take_bit 12 (sext addr pos) = take_bit 12 addr" if "12 < pos" "pos \<le> 64" for pos
  proof -
    show "take_bit 12 (zext addr pos) = take_bit 12 addr" using that by (simp add: zext_take_bit)
    show "take_bit 12 (sext addr pos) = take_bit 12 addr"
      by (rule bit_word_eqI) (use that in \<open>auto simp: bit_take_bit_iff bit_sext\<close>)
  qed
  obtain v m where em: "effective_mode p type f = (v, m)" by fastforce
  obtain pmlen where g: "get_pmlen p v m f = Some pmlen"
    using assms(1) False em by (cases "get_pmlen p v m f") (auto simp: generate_access_info_def)
  have pl: "pmlen \<in> {0, 7, 16}" "transformed_vaddr info \<in> {zext addr (const_xlen p - pmlen), sext addr (const_xlen p - pmlen)}"
    using get_pmlen_values [OF g] assms(1) False em g by (auto simp: generate_access_info_def Let_def)
  then have "12 < const_xlen p - pmlen" "const_xlen p - pmlen \<le> 64" using assms(2,3) by auto
  then show ?thesis using pl z by auto
qed

lemma access_info_sel:
  assumes "generate_access_info p addr type f = Some info"
  shows "vaddr info = addr" "flags info = f" "access_kind info = type"
    "effective_virt info = fst (effective_mode p type f)" "effective_priv info = snd (effective_mode p type f)"
  using assms by (auto simp: generate_access_info_def Let_def split: prod.splits option.splits if_splits)

lemma effective_mode_plain: "\<not> in_mprv p \<Longrightarrow> \<not> forced_virt f \<Longrightarrow> effective_mode p type f = (state_v p, prv p)"
  by (simp add: effective_mode_def)

section \<open>What a page-table entry grants\<close>

definition pte_legal :: "mmu_proc \<Rightarrow> bool \<Rightarrow> reg_t \<Rightarrow> bool" where
  "pte_legal p pbmte pte \<longleftrightarrow> pte AND PTE_RSVD = 0 \<and> (pte AND PTE_N \<noteq> 0 \<longrightarrow> ext_svnapot p) \<and>
     (pte AND PTE_PBMT \<noteq> 0 \<longrightarrow> pbmte) \<and> pte AND PTE_PBMT \<noteq> PTE_PBMT"

definition table_ok :: "mmu_proc \<Rightarrow> bool \<Rightarrow> reg_t \<Rightarrow> bool" where
  "table_ok p pbmte pte \<longleftrightarrow> pte_legal p pbmte pte \<and> PTE_TABLE pte \<and> pte AND (PTE_D OR PTE_A OR PTE_U OR PTE_N OR PTE_PBMT) = 0"

definition leaf_aligned :: "vm_info \<Rightarrow> nat \<Rightarrow> reg_t \<Rightarrow> bool" where
  "leaf_aligned vm i pte \<longleftrightarrow> pte_ppn pte AND (push_bit (i * idxbits vm) 1 - 1) = 0 \<and>
     (pte AND PTE_N \<noteq> 0 \<longrightarrow> i = 0 \<and> pte_ppn pte \<noteq> 0 \<and> ctz (pte_ppn pte) = 3)"

definition shadow_stack_page :: "reg_t \<Rightarrow> bool" where
  "shadow_stack_page pte \<longleftrightarrow> pte AND PTE_R = 0 \<and> pte AND PTE_W \<noteq> 0 \<and> pte AND PTE_X = 0"

text \<open>The rights of a leaf entry of the first stage as the privileged architecture states them: user pages are for user mode, and for supervisor data accesses
  under SUM; a fetch needs X, a load R (or X under MXR, or a shadow-stack page), a store R and W.\<close>

definition leaf_grants :: "mmu_proc \<Rightarrow> walk_ctx \<Rightarrow> reg_t \<Rightarrow> bool" where
  "leaf_grants p w pte \<longleftrightarrow> pte AND PTE_V \<noteq> 0 \<and>
     (if pte AND PTE_U \<noteq> 0 then w_s_mode w \<longrightarrow> w_sum w \<and> w_type w \<noteq> FETCH else w_s_mode w) \<and>
     (if w_type w = FETCH \<or> w_hlvx w then pte AND PTE_X \<noteq> 0 \<and> (pte AND PTE_W \<noteq> 0 \<longrightarrow> pte AND PTE_R \<noteq> 0)
      else if w_type w = LOAD
      then (pte AND PTE_W \<noteq> 0 \<longrightarrow> pte AND PTE_R \<noteq> 0) \<and> (pte AND PTE_R \<noteq> 0 \<or> w_mxr w \<and> pte AND PTE_X \<noteq> 0) \<or>
           env_bit p (w_virt w) HENVCFG_SSE MENVCFG_SSE \<and> shadow_stack_page pte
      else pte AND PTE_R \<noteq> 0 \<and> pte AND PTE_W \<noteq> 0)"

text \<open>The rights of a leaf of the second stage: every access of the guest is a user access.\<close>

definition s2_grants :: "access_type \<Rightarrow> bool \<Rightarrow> bool \<Rightarrow> reg_t \<Rightarrow> bool" where
  "s2_grants type hl mxr pte \<longleftrightarrow> pte AND PTE_V \<noteq> 0 \<and> pte AND PTE_U \<noteq> 0 \<and> (pte AND PTE_W \<noteq> 0 \<longrightarrow> pte AND PTE_R \<noteq> 0) \<and>
     (if type = FETCH \<or> hl then pte AND PTE_X \<noteq> 0
      else if type = LOAD then pte AND PTE_R \<noteq> 0 \<or> mxr \<and> pte AND PTE_X \<noteq> 0
      else pte AND PTE_R \<noteq> 0 \<and> pte AND PTE_W \<noteq> 0)"

abbreviation "s1_pbmte p w \<equiv> env_bit p (w_virt w) HENVCFG_PBMTE MENVCFG_PBMTE"
abbreviation "s2_pbmte p \<equiv> menvcfg p AND MENVCFG_PBMTE \<noteq> 0"

definition leaf_ok :: "mmu_proc \<Rightarrow> walk_ctx \<Rightarrow> nat \<Rightarrow> reg_t \<Rightarrow> bool" where
  "leaf_ok p w i pte \<longleftrightarrow> pte_legal p (s1_pbmte p w) pte \<and> \<not> PTE_TABLE pte \<and> leaf_grants p w pte \<and> leaf_aligned (w_vm w) i pte"

definition s2_leaf_ok :: "mmu_proc \<Rightarrow> vm_info \<Rightarrow> access_type \<Rightarrow> bool \<Rightarrow> bool \<Rightarrow> nat \<Rightarrow> reg_t \<Rightarrow> bool" where
  "s2_leaf_ok p vm type hl mxr i pte \<longleftrightarrow> pte_legal p (s2_pbmte p) pte \<and> \<not> PTE_TABLE pte \<and> s2_grants type hl mxr pte \<and> leaf_aligned vm i pte"

lemma entry_cascade:
  "(if pte AND PTE_RSVD \<noteq> 0 then Break
    else if \<not> ext_svnapot p \<and> pte AND PTE_N \<noteq> 0 then Break
    else if \<not> pbmte \<and> pte AND PTE_PBMT \<noteq> 0 then Break
    else if pte AND PTE_PBMT = PTE_PBMT then Break
    else if PTE_TABLE pte then if pte AND (PTE_D OR PTE_A OR PTE_U OR PTE_N OR PTE_PBMT) \<noteq> 0 then Break else Descend
    else rest) =
   (if table_ok p pbmte pte then Descend else if pte_legal p pbmte pte \<and> \<not> PTE_TABLE pte then rest else Break)"
  unfolding table_ok_def pte_legal_def by (simp only: split: if_split) blast

lemma pte_bit:
  "pte AND PTE_V = 0 \<longleftrightarrow> \<not> bit pte 0" "pte AND PTE_R = 0 \<longleftrightarrow> \<not> bit pte 1" "pte AND PTE_W = 0 \<longleftrightarrow> \<not> bit pte 2"
  "pte AND PTE_X = 0 \<longleftrightarrow> \<not> bit pte 3" "pte AND PTE_U = 0 \<longleftrightarrow> \<not> bit pte 4"
  using and_exp_eq_0_iff_not_bit [of pte 0] and_exp_eq_0_iff_not_bit [of pte 1] and_exp_eq_0_iff_not_bit [of pte 2]
    and_exp_eq_0_iff_not_bit [of pte 3] and_exp_eq_0_iff_not_bit [of pte 4]
  by (simp_all add: PTE_V_def PTE_R_def PTE_W_def PTE_X_def PTE_U_def)

lemma PTE_TABLE_iff: "PTE_TABLE pte \<longleftrightarrow> bit pte 0 \<and> \<not> bit pte 1 \<and> \<not> bit pte 2 \<and> \<not> bit pte 3"
proof -
  have m: "PTE_V OR PTE_R OR PTE_W OR PTE_X = mask 4" by (simp add: PTE_V_def PTE_R_def PTE_W_def PTE_X_def mask_eq_exp_minus_1)
  have t: "take_bit 4 pte = 1 \<longleftrightarrow> (\<forall>n<4. bit pte n \<longleftrightarrow> n = 0)" (is "?L \<longleftrightarrow> ?R")
  proof
    assume l: ?L
    have "bit (take_bit 4 pte) n \<longleftrightarrow> n = 0" for n unfolding l by (simp add: bit_1_iff)
    then show ?R unfolding bit_take_bit_iff by blast
  next
    assume r: ?R
    have "bit (take_bit 4 pte) n \<longleftrightarrow> bit 1 n" for n
      using r by (cases "n < 4") (auto simp: bit_take_bit_iff bit_1_iff)
    then show ?L by (rule bit_eqI)
  qed
  have "PTE_TABLE pte \<longleftrightarrow> take_bit 4 pte = 1" unfolding PTE_TABLE_def m by (simp add: PTE_V_def take_bit_eq_mask)
  also note t
  also have "(\<forall>n<4. bit pte n \<longleftrightarrow> n = 0) \<longleftrightarrow> bit pte 0 \<and> \<not> bit pte 1 \<and> \<not> bit pte 2 \<and> \<not> bit pte 3"
  proof -
    have "n < 4 \<longleftrightarrow> n = 0 \<or> n = 1 \<or> n = 2 \<or> n = 3" for n :: nat by linarith
    then show ?thesis by auto
  qed
  finally show ?thesis .
qed

text \<open>An access without the shadow-stack and cache-block flags; the flag of a guest load that needs execute permission comes with loads.\<close>

definition ordinary :: "walk_ctx \<Rightarrow> bool" where
  "ordinary w \<longleftrightarrow> \<not> w_ss_access w \<and> \<not> w_clean_inval w \<and> (w_hlvx w \<longrightarrow> w_type w = LOAD)"

lemma if_cascade: "(if a then x else if c then x else y) = (if a \<or> c then x else y)" by simp

lemma if_flip: "(P \<longleftrightarrow> \<not> Q) \<Longrightarrow> (if P then x else y) = (if Q then y else x)" by simp

lemma napot_ok: "pte AND PTE_N \<noteq> 0 \<and> (ppn = 0 \<or> i \<noteq> 0) \<or> napot_bits pte \<noteq> 0 \<and> napot_bits pte \<noteq> 4 \<longleftrightarrow>
    \<not> (pte AND PTE_N \<noteq> 0 \<longrightarrow> i = 0 \<and> ppn \<noteq> 0 \<and> ctz (pte_ppn pte) = 3)"
  by (auto simp: napot_bits_def)

lemma classify_s2_spec:
  "classify_s2_pte p vm type hl mxr i pte =
     (if table_ok p (s2_pbmte p) pte then Descend else if s2_leaf_ok p vm type hl mxr i pte then Grant else Break)"
proof -
  have leaf: "\<not> PTE_TABLE pte \<Longrightarrow> s2_leaf_ok p vm type hl mxr i pte \<longleftrightarrow>
      pte_legal p (s2_pbmte p) pte \<and> \<not> (pte AND PTE_V = 0 \<or> pte AND PTE_R = 0 \<and> pte AND PTE_W \<noteq> 0) \<and>
      \<not> \<not> (pte AND PTE_N \<noteq> 0 \<longrightarrow> i = 0 \<and> pte_ppn pte \<noteq> 0 \<and> ctz (pte_ppn pte) = 3) \<and> pte AND PTE_U \<noteq> 0 \<and>
      \<not> (if type = FETCH \<or> hl then pte AND PTE_X = 0 else if type = LOAD then pte AND PTE_R = 0 \<and> \<not> (mxr \<and> pte AND PTE_X \<noteq> 0)
         else \<not> (pte AND PTE_R \<noteq> 0 \<and> pte AND PTE_W \<noteq> 0)) \<and> pte_ppn pte AND (push_bit (i * idxbits vm) 1 - 1) = 0"
    unfolding s2_leaf_ok_def s2_grants_def leaf_aligned_def by (simp only: split: if_split) blast
  show ?thesis
  proof (cases "pte_legal p (s2_pbmte p) pte \<and> \<not> PTE_TABLE pte")
    case True
    then have "\<not> table_ok p (s2_pbmte p) pte" by (simp add: table_ok_def)
    then have c: "(if table_ok p (s2_pbmte p) pte then x else if pte_legal p (s2_pbmte p) pte \<and> \<not> PTE_TABLE pte then y else z) = y"
      "(if table_ok p (s2_pbmte p) pte then x else y) = y" for x y z using True by simp_all
    show ?thesis unfolding classify_s2_pte_def Let_def entry_cascade unfolding napot_ok c(1) unfolding c(2) unfolding if_cascade
      by (rule if_flip) (use leaf True in blast)
  next
    case False
    then have "\<not> s2_leaf_ok p vm type hl mxr i pte" by (auto simp: s2_leaf_ok_def)
    then show ?thesis unfolding classify_s2_pte_def Let_def entry_cascade using False by (simp only: if_False)
  qed
qed

text \<open>The first stage: the verdict on an entry. A shadow-stack page makes an ordinary store or fetch an access fault.\<close>

lemma classify_descend: "classify_pte p w i pte = Descend \<longleftrightarrow> table_ok p (s1_pbmte p w) pte"
  unfolding classify_pte_def Let_def entry_cascade by (simp only: split: if_split) blast

text \<open>Zicfiss: an ordinary store to a shadow-stack page, or a fetch from one, that the entry otherwise permits.\<close>

definition shadow_violation :: "mmu_proc \<Rightarrow> walk_ctx \<Rightarrow> nat \<Rightarrow> reg_t \<Rightarrow> bool" where
  "shadow_violation p w i pte \<longleftrightarrow> pte_legal p (s1_pbmte p w) pte \<and> pte AND PTE_V \<noteq> 0 \<and> env_bit p (w_virt w) HENVCFG_SSE MENVCFG_SSE \<and>
     shadow_stack_page pte \<and> (if pte AND PTE_U \<noteq> 0 then w_s_mode w \<longrightarrow> w_sum w \<and> w_type w \<noteq> FETCH else w_s_mode w) \<and>
     leaf_aligned (w_vm w) i pte \<and> w_type w \<in> {STORE, FETCH}"

lemma classify_leaf:
  assumes l: "pte_legal p (s1_pbmte p w) pte" "\<not> PTE_TABLE pte" and "ordinary w"
  shows "if leaf_grants p w pte \<and> leaf_aligned (w_vm w) i pte then classify_pte p w i pte = Grant
    else classify_pte p w i pte = (if shadow_violation p w i pte then Raise (Access_Fault (w_type w) (w_virt w) (w_addr w)) else Break)"
proof -
  obtain V R W X U where b: "V = bit pte 0" "R = bit pte 1" "W = bit pte 2" "X = bit pte 3" "U = bit pte 4" by simp
  obtain al na sse where al: "al = (pte_ppn pte AND (push_bit (i * idxbits (w_vm w)) 1 - 1) = 0)"
      and na: "na = (pte AND PTE_N \<noteq> 0 \<longrightarrow> i = 0 \<and> pte_ppn pte \<noteq> 0 \<and> ctz (pte_ppn pte) = 3)"
      and sse: "sse = env_bit p (w_virt w) HENVCFG_SSE MENVCFG_SSE" by simp
  have v: "w_ss_access w = False" "w_clean_inval w = False" and hl: "w_hlvx w \<longrightarrow> w_type w = LOAD"
    using assms(3) by (simp_all add: ordinary_def)
  have "\<not> table_ok p (s1_pbmte p w) pte" using l(2) by (simp add: table_ok_def)
  then have lt: "(if table_ok p (s1_pbmte p w) pte then x else if pte_legal p (s1_pbmte p w) pte \<and> \<not> PTE_TABLE pte then y else z) = y" for x y z
    using l by simp
  have t: "V \<longrightarrow> R \<or> W \<or> X" using assms(2) by (simp add: PTE_TABLE_iff b)
  have c: "classify_pte p w i pte =
     (if (if U then w_s_mode w \<and> (w_type w = FETCH \<or> \<not> w_sum w) else \<not> w_s_mode w) then Break
      else if \<not> V \<or> \<not> R \<and> W \<and> (\<not> sse \<and> \<not> X \<or> X) then Break
      else if \<not> na then Break else if \<not> al then Break
      else if (\<not> R \<and> W \<and> \<not> X) \<and> w_type w = STORE then Raise (Access_Fault STORE (w_virt w) (w_addr w))
      else if (\<not> R \<and> W \<and> \<not> X) \<and> w_type w = FETCH then Raise (Access_Fault FETCH (w_virt w) (w_addr w))
      else if (if w_type w = FETCH \<or> w_hlvx w then \<not> X
               else if w_type w = LOAD then \<not> (sse \<and> (\<not> R \<and> W \<and> \<not> X)) \<and> \<not> R \<and> \<not> (w_mxr w \<and> X)
               else \<not> W) then Break
      else Grant)"
    unfolding classify_pte_def Let_def entry_cascade lt unfolding napot_ok v al na b sse by (simp add: pte_bit)
  have g: "leaf_grants p w pte \<longleftrightarrow> V \<and> (if U then w_s_mode w \<longrightarrow> w_sum w \<and> w_type w \<noteq> FETCH else w_s_mode w) \<and>
     (if w_type w = FETCH \<or> w_hlvx w then X \<and> (W \<longrightarrow> R)
      else if w_type w = LOAD then (W \<longrightarrow> R) \<and> (R \<or> w_mxr w \<and> X) \<or> sse \<and> \<not> R \<and> W \<and> \<not> X
      else R \<and> W)"
    unfolding leaf_grants_def shadow_stack_page_def b sse by (simp add: pte_bit)
  have a: "leaf_aligned (w_vm w) i pte \<longleftrightarrow> al \<and> na" unfolding leaf_aligned_def al na ..
  have sv: "shadow_violation p w i pte \<longleftrightarrow> V \<and> sse \<and> (\<not> R \<and> W \<and> \<not> X) \<and>
     (if U then w_s_mode w \<longrightarrow> w_sum w \<and> w_type w \<noteq> FETCH else w_s_mode w) \<and> (al \<and> na) \<and> w_type w \<in> {STORE, FETCH}"
    unfolding shadow_violation_def shadow_stack_page_def a b sse using l(1) by (simp add: pte_bit)
  show ?thesis unfolding c g a sv using t hl by (cases "w_type w") auto
qed

lemma classify_grant_iff:
  assumes "ordinary w"
  shows "classify_pte p w i pte = Grant \<longleftrightarrow> leaf_ok p w i pte"
proof (cases "pte_legal p (s1_pbmte p w) pte \<and> \<not> PTE_TABLE pte")
  case True
  then show ?thesis using classify_leaf [OF _ _ assms, of p pte i] by (auto simp: leaf_ok_def split: if_splits)
next
  case False
  then have "classify_pte p w i pte \<in> {Descend, Break}" unfolding classify_pte_def Let_def entry_cascade by (simp only: if_False) simp
  then show ?thesis using False by (auto simp: leaf_ok_def)
qed

text \<open>The verdict on an entry that is neither a pointer nor a leaf that grants the access.\<close>

lemma classify_bad:
  assumes o: "ordinary w" and n: "\<not> table_ok p (s1_pbmte p w) pte" "\<not> leaf_ok p w i pte"
  shows "classify_pte p w i pte = (if shadow_violation p w i pte then Raise (Access_Fault (w_type w) (w_virt w) (w_addr w)) else Break)"
proof (cases "pte_legal p (s1_pbmte p w) pte \<and> \<not> PTE_TABLE pte")
  case True
  then show ?thesis using classify_leaf [OF _ _ o, of p pte i] n(2) by (simp add: leaf_ok_def split: if_splits)
next
  case False
  have "\<not> shadow_violation p w i pte"
    using False by (auto simp: shadow_violation_def shadow_stack_page_def PTE_TABLE_iff pte_bit)
  moreover have "classify_pte p w i pte = Break" unfolding classify_pte_def Let_def entry_cascade using False n(1) by (simp only: if_False)
  ultimately show ?thesis by simp
qed

section \<open>Both stages are walks through tables\<close>

definition s1_entry :: "mmu_proc \<Rightarrow> walk_ctx \<Rightarrow> nat \<Rightarrow> reg_t \<Rightarrow> bus_t \<Rightarrow> nat \<Rightarrow> reg_t \<times> reg_t \<times> reg_t \<Rightarrow> bus_t \<Rightarrow> bool" where
  "s1_entry p w = radix_path (walk_read p w) (\<lambda>e. table_ok p (s1_pbmte p w) (snd (snd e))) (\<lambda>e. push_bit PGSHIFT (pte_ppn (snd (snd e))))"

definition s2_entry :: "mmu_proc \<Rightarrow> vm_info \<Rightarrow> reg_t \<Rightarrow> reg_t \<Rightarrow> access_type \<Rightarrow> nat \<Rightarrow> reg_t \<Rightarrow> bus_t \<Rightarrow> nat \<Rightarrow> reg_t \<times> reg_t \<Rightarrow> bus_t \<Rightarrow> bool" where
  "s2_entry p vm gva gpa trap_type =
     radix_path (s2_read p vm gva gpa trap_type True) (\<lambda>e. table_ok p (s2_pbmte p) (snd e)) (\<lambda>e. push_bit PGSHIFT (pte_ppn (snd e)))"

interpretation stage1: radix_walk "walk_read p w" "\<lambda>e. table_ok p (s1_pbmte p w) (snd (snd e))" "\<lambda>e. push_bit PGSHIFT (pte_ppn (snd (snd e)))"
  "\<lambda>i e. classify_pte p w i (snd (snd e)) = Grant" "walk_finish p w" "walk_loop p w" "\<lambda>i e. case classify_pte p w i (snd (snd e)) of Raise t \<Rightarrow> Some t | _ \<Rightarrow> None" for p w
proof
  fix i base s e s1
  assume rd: "walk_read p w i base s = (Inr e, s1)"
    and n: "\<not> table_ok p (s1_pbmte p w) (snd (snd e))" "classify_pte p w i (snd (snd e)) \<noteq> Grant"
  have "classify_pte p w i (snd (snd e)) \<noteq> Descend" using n(1) classify_descend by blast
  then show "walk_loop p w (Suc i) base s =
      (case case classify_pte p w i (snd (snd e)) of Raise t \<Rightarrow> Some t | _ \<Rightarrow> None of None \<Rightarrow> (Inr None, s1) | Some t \<Rightarrow> (Inl t, s1))"
    using rd n(2) by (cases "classify_pte p w i (snd (snd e))") (auto simp: walk_loop.simps)
next
  fix e i assume "table_ok p (s1_pbmte p w) (snd (snd e))"
  then show "classify_pte p w i (snd (snd e)) \<noteq> Grant" using classify_descend [of p w i "snd (snd e)"] by simp
next
  fix i base s e s1
  assume "walk_read p w i base s = (Inr e, s1)" "table_ok p (s1_pbmte p w) (snd (snd e))"
  then show "walk_loop p w (Suc i) base s = walk_loop p w i (push_bit PGSHIFT (pte_ppn (snd (snd e)))) s1"
    using classify_descend [of p w i "snd (snd e)"] by (simp add: walk_loop.simps)
qed (simp_all add: walk_loop.simps)

interpretation stage2: radix_walk "s2_read p vm gva gpa trap_type virt" "\<lambda>e. table_ok p (s2_pbmte p) (snd e)" "\<lambda>e. push_bit PGSHIFT (pte_ppn (snd e))"
  "\<lambda>i e. s2_leaf_ok p vm type hl mxr i (snd e)" "s2_finish p vm gva gpa type virt" "s2_loop p vm gva gpa type trap_type virt hl mxr" "\<lambda>_ _. None"
  for p vm gva gpa type trap_type virt hl mxr
proof
  fix e i assume "table_ok p (s2_pbmte p) (snd e)"
  then show "\<not> s2_leaf_ok p vm type hl mxr i (snd e)" by (simp add: table_ok_def s2_leaf_ok_def)
next
  fix i base s e s1
  assume "s2_read p vm gva gpa trap_type virt i base s = (Inr e, s1)" "s2_leaf_ok p vm type hl mxr i (snd e)"
  moreover from this have "\<not> table_ok p (s2_pbmte p) (snd e)" by (simp add: table_ok_def s2_leaf_ok_def)
  ultimately show "s2_loop p vm gva gpa type trap_type virt hl mxr (Suc i) base s = s2_finish p vm gva gpa type virt i e s1"
    by (simp add: s2_loop.simps classify_s2_spec)
qed (simp_all add: s2_loop.simps classify_s2_spec)

section \<open>Addresses\<close>

lemma push_bit_1_minus_1: "(push_bit n 1 - 1 :: reg_t) = mask n"
  by (simp add: mask_eq_exp_minus_1)

text \<open>The size of the page that a leaf maps: 64 KiB for a NAPOT entry, and otherwise by its level.\<close>

definition leaf_bits :: "vm_info \<Rightarrow> nat \<Rightarrow> reg_t \<Rightarrow> nat" where
  "leaf_bits vm i pte = (if pte AND PTE_N \<noteq> 0 then 16 else PGSHIFT + i * idxbits vm)"

text \<open>The entry maps the address: the offset in the page is kept, the rest is the entry's physical page number.\<close>

definition maps_to :: "vm_info \<Rightarrow> nat \<Rightarrow> reg_t \<Rightarrow> reg_t \<Rightarrow> reg_t \<Rightarrow> bool" where
  "maps_to vm i pte addr pa \<longleftrightarrow> (let k = leaf_bits vm i pte
     in take_bit k pa = take_bit k addr \<and> drop_bit k pa = drop_bit (k - PGSHIFT) (pte_ppn pte))"

lemma bit_ppn_bound: "bit (pte_ppn pte) n \<Longrightarrow> n < 44"
proof -
  assume "bit (pte_ppn pte) n"
  then have "bit (NOT PTE_ATTR) (10 + n)" "10 + n < 64" by (auto simp: pte_ppn_def PTE_PPN_SHIFT_def bit_simps dest: bit_imp_le_length)
  moreover have e: "PTE_ATTR = push_bit 54 (mask 10)" by (simp add: PTE_ATTR_def push_bit_eq_mult mask_eq_exp_minus_1)
  have "bit PTE_ATTR (10 + n)" if "44 \<le> n" "10 + n < 64" unfolding e bit_push_bit_iff bit_mask_iff using that by simp linarith
  ultimately show "n < 44" unfolding bit_not_iff using not_le_imp_less by blast
qed

lemma bit_leaf_page_raw: "bit (leaf_page pte s a) n \<longleftrightarrow> n < 64 \<and>
    (if n < 12 then bit a n
     else bit (pte_ppn pte) (n - 12) \<and> napot_bits pte \<le> n - 12 \<or> bit a n \<and> n - 12 < napot_bits pte \<or> bit a n \<and> n - 12 < s)"
proof -
  have d: "\<not> n < 12 \<Longrightarrow> 12 + (n - 12) = n" by simp
  show ?thesis
    unfolding leaf_page_def page_mask_def push_bit_1_minus_1 Let_def PGSHIFT_def bit_or_iff bit_push_bit_iff bit_and_iff bit_not_iff bit_mask_iff
      bit_drop_bit_eq comp_def
    using d by (auto dest: bit_imp_le_length)
qed

lemma bit_leaf_page:
  assumes al: "leaf_aligned vm i pte" and k: "PGSHIFT + i * idxbits vm < 64"
  shows "bit (leaf_page pte (i * idxbits vm) a) n \<longleftrightarrow>
    (if n < leaf_bits vm i pte then bit a n else bit (pte_ppn pte) (n - PGSHIFT))"
proof (cases "n < 64")
  case False
  then show ?thesis using bit_ppn_bound [of pte "n - PGSHIFT"] k by (auto simp: leaf_bits_def PGSHIFT_def dest: bit_imp_le_length)
next
  case True
  have low: "m < i * idxbits vm \<Longrightarrow> \<not> bit (pte_ppn pte) m" for m
  proof -
    assume "m < i * idxbits vm"
    moreover have "bit (pte_ppn pte AND mask (i * idxbits vm)) m = False"
      using al unfolding leaf_aligned_def push_bit_1_minus_1 by simp
    ultimately show ?thesis by (auto simp: bit_simps dest: bit_ppn_bound)
  qed
  have nb: "napot_bits pte = (if pte AND PTE_N \<noteq> 0 then 4 else 0)" "pte AND PTE_N \<noteq> 0 \<Longrightarrow> i = 0"
    using al by (auto simp: leaf_aligned_def napot_bits_def)
  show ?thesis unfolding bit_leaf_page_raw leaf_bits_def PGSHIFT_def nb(1)
    using True low [of "n - 12"] nb(2) by auto
qed

lemma word_split_eqI:
  fixes x y :: reg_t
  assumes "take_bit k x = take_bit k y" "drop_bit k x = drop_bit k y"
  shows "x = y"
  using assms bits_ident [of k x] bits_ident [of k y] by metis

lemma maps_to_iff:
  assumes al: "leaf_aligned vm i pte" and k: "PGSHIFT + i * idxbits vm < 64"
  shows "maps_to vm i pte a pa \<longleftrightarrow> pa = leaf_page pte (i * idxbits vm) a"
proof -
  let ?k = "leaf_bits vm i pte" and ?l = "leaf_page pte (i * idxbits vm) a"
  note b = bit_leaf_page [OF al k, of a]
  have k12: "PGSHIFT \<le> ?k" by (simp add: leaf_bits_def PGSHIFT_def)
  have "take_bit ?k ?l = take_bit ?k a" by (rule bit_word_eqI) (auto simp: bit_take_bit_iff b)
  moreover have "drop_bit ?k ?l = drop_bit (?k - PGSHIFT) (pte_ppn pte)"
    by (rule bit_word_eqI) (use k12 in \<open>auto simp: bit_drop_bit_eq b\<close>)
  ultimately show ?thesis unfolding maps_to_def Let_def using word_split_eqI [of ?k pa ?l] by auto
qed

lemma page_mask_is_mask: "page_mask = mask 12" "(of_nat PGSIZE - 1 :: reg_t) = mask 12"
  by (simp_all add: page_mask_def PGSHIFT_def PGSIZE_def mask_eq_exp_minus_1 push_bit_eq_mult)

lemma page_recombine:
  assumes "take_bit 12 x = take_bit 12 (a :: reg_t)"
  shows "(x AND NOT page_mask) OR (a AND (of_nat PGSIZE - 1)) = x"
  unfolding page_mask_is_mask take_bit_eq_mask [symmetric] assms [symmetric]
  by (rule bit_word_eqI) (auto simp: bit_or_iff bit_and_iff bit_not_iff bit_mask_iff bit_take_bit_iff)

lemma maps_to_offset: "maps_to vm i pte a pa \<Longrightarrow> take_bit 12 pa = take_bit 12 a"
proof -
  assume "maps_to vm i pte a pa"
  then have t: "take_bit (leaf_bits vm i pte) pa = take_bit (leaf_bits vm i pte) a" by (simp add: maps_to_def Let_def)
  have "min 12 (leaf_bits vm i pte) = 12" by (simp add: leaf_bits_def PGSHIFT_def)
  then show ?thesis using arg_cong [OF t, of "take_bit 12"] unfolding take_bit_take_bit by simp
qed

text \<open>The leaf that a path reaches maps the address to the one that the code computes.\<close>

lemma leaf_level:
  assumes "i < levels vm" "PGSHIFT + levels vm * idxbits vm \<le> 64"
  shows "PGSHIFT + i * idxbits vm < 64"
proof (cases "idxbits vm = 0")
  case True
  then show ?thesis by (simp add: PGSHIFT_def)
next
  case False
  then have "i * idxbits vm < levels vm * idxbits vm" using assms(1) by simp
  then show ?thesis using assms(2) by linarith
qed

section \<open>The second stage\<close>

lemma decode_s2_bounds: "decode_vm_info xl True 0 atp = Some vm \<Longrightarrow> PGSHIFT + (levels vm * idxbits vm + widenbits vm) < 64"
  by (auto simp: decode_vm_info_def Let_def PGSHIFT_def PRV_M_def split: if_splits)

lemma pte_load_fault: "pte_load p a addr virt type n b = (Inl t, b') \<Longrightarrow> t = Access_Fault type virt addr"
  by (auto simp: pte_load_def split: prod.splits option.splits if_splits)

lemma pte_store_fault: "pte_store p a x addr virt type n b = (Inl t, b') \<Longrightarrow> t = Access_Fault type virt addr"
  by (auto simp: pte_store_def split: prod.splits option.splits if_splits bool.splits)

lemma s2_read_fault: "fst (s2_read p vm gva gpa tt virt i base b) = Inl t \<Longrightarrow> t = Access_Fault tt virt gva"
  by (auto simp: s2_read_def Let_def split: prod.splits sum.splits dest: pte_load_fault)

lemma s2_finish_fault: "fst (s2_finish p vm gva gpa type virt i e b) = Inl t \<Longrightarrow> t = Access_Fault type virt gva"
  by (auto simp: s2_finish_def Let_def split: prod.splits sum.splits if_splits dest: pte_store_fault)

text \<open>The accessed bit, and the dirty bit of a store, are set already or are set by the hardware.\<close>

definition s2_ad_updated :: "mmu_proc \<Rightarrow> vm_info \<Rightarrow> reg_t \<Rightarrow> access_type \<Rightarrow> reg_t \<Rightarrow> reg_t \<Rightarrow> bus_t \<Rightarrow> bus_t \<Rightarrow> bool" where
  "s2_ad_updated p vm gva type a pte b b' \<longleftrightarrow>
     (if pte AND needs_ad type = needs_ad type then b' = b
      else menvcfg p AND MENVCFG_ADUE \<noteq> 0 \<and> pte_store p a (pte OR needs_ad type) gva True type (ptesize vm) b = (Inr (), b'))"

lemma s2_finish_iff:
  "s2_finish p vm gva gpa type True i (a, pte) b = (Inr (Some r), b') \<longleftrightarrow>
     s2_ad_updated p vm gva type a pte b b' \<and> r = leaf_page pte (i * idxbits vm) gpa"
  by (auto simp: s2_finish_def s2_ad_updated_def Let_def split: prod.splits sum.splits)

lemma gpa_bound: "k < 64 \<Longrightarrow> gpa AND NOT (push_bit k 1 - 1) = 0 \<longleftrightarrow> unat (gpa :: reg_t) < 2 ^ k"
proof -
  assume k: "k < 64"
  have "(2 :: nat) ^ k < 2 ^ 64" using k by (rule power_strict_increasing) simp
  then have u: "unat (2 ^ k :: reg_t) = 2 ^ k" using unat_push_bit_nowrap [of "1 :: reg_t" k] by simp
  then have "(2 ^ k :: reg_t) \<noteq> 0" by (metis power_eq_0_iff unat_0 zero_neq_numeral)
  then have "unat (push_bit k 1 - 1 :: reg_t) + 1 = 2 ^ k" using u by (simp add: unat_minus_one)
  from unat_and_not_mask [OF this, of gpa] have "unat (gpa AND NOT (push_bit k 1 - 1)) = unat gpa - unat gpa mod 2 ^ k" .
  also have "\<dots> = 0 \<longleftrightarrow> unat gpa < 2 ^ k" by (metis diff_is_0_eq mod_less mod_less_eq_dividend le_antisym mod_less_divisor zero_less_numeral zero_less_power)
  finally show ?thesis by (simp add: unat_eq_0)
qed

lemma s2xlate_off [simp]: "s2xlate p gva gpa type trap_type False hl is_pt b = (Inr gpa, b)"
  by (simp add: s2xlate_def)

lemma s2_loop_iff:
  assumes "PGSHIFT + levels vm * idxbits vm \<le> 64"
  shows "s2_loop p vm gva gpa type tt True hl mxr (levels vm) (ptbase vm) b = (Inr (Some pa), b') \<longleftrightarrow>
    (\<exists>i a pte b1. s2_entry p vm gva gpa tt (levels vm) (ptbase vm) b i (a, pte) b1 \<and> s2_leaf_ok p vm type hl mxr i pte \<and>
       s2_ad_updated p vm gva type a pte b1 b' \<and> maps_to vm i pte gpa pa)"
proof -
  have m: "maps_to vm i pte gpa pa \<longleftrightarrow> pa = leaf_page pte (i * idxbits vm) gpa"
    if "s2_entry p vm gva gpa tt (levels vm) (ptbase vm) b i (a, pte) b1" "s2_leaf_ok p vm type hl mxr i pte" for i a pte b1
    using that(2) leaf_level [OF radix_path_level [OF that(1) [unfolded s2_entry_def]] assms] by (intro maps_to_iff) (simp_all add: s2_leaf_ok_def)
  show ?thesis unfolding stage2.loop_iff s2_entry_def [symmetric] split_paired_Ex snd_conv s2_finish_iff using m by blast
qed

lemma s2_loop_trap:
  "s2_loop p vm gva gpa type tt True hl mxr n base b = (Inl t, b') \<Longrightarrow> t \<in> {Access_Fault tt True gva, Access_Fault type True gva}"
  by (drule stage2.loop_trap) (auto dest: s2_read_fault s2_finish_fault)

definition s2_tinst :: "mmu_proc \<Rightarrow> access_type \<Rightarrow> bool \<Rightarrow> reg_t" where
  "s2_tinst p type is_pt = (if is_pt then (if const_xlen p = 64 then 0x3000 else 0x2000) + (if type = STORE then 0x20 else 0) else 0)"

text \<open>C10. The second stage of the translation, which takes the guest physical addresses of a virtual machine to physical ones, page-table accesses of the guest
  included: it yields an address exactly when the guest physical address is within the width of the mode and a path of well-formed pointer entries leads to a
  legal, aligned leaf entry that allows user accesses and grants this one, whose accessed and dirty bits are set or could be updated, and which maps the
  address. A failure is a guest page fault that reports the address and the pseudoinstruction for an implicit access, or an access fault.\<close>

theorem s2xlate_walks_tables:
  assumes "decode_vm_info (const_xlen p) True 0 (hgatp p) = Some vm" "0 < levels vm"
  shows "(s2xlate p gva gpa type tt True hl is_pt b = (Inr pa, b') \<longleftrightarrow>
       unat gpa < 2 ^ (levels vm * idxbits vm + widenbits vm + PGSHIFT) \<and>
       (\<exists>i a pte b1. s2_entry p vm gva gpa tt (levels vm) (ptbase vm) b i (a, pte) b1 \<and>
          s2_leaf_ok p vm type hl (\<not> is_pt \<and> sstatus p False AND MSTATUS_MXR \<noteq> 0) i pte \<and>
          s2_ad_updated p vm gva type a pte b1 b' \<and> maps_to vm i pte gpa pa)) \<and>
     (s2xlate p gva gpa type tt True hl is_pt b = (Inl t, b') \<longrightarrow>
       t \<in> {Guest_Page_Fault tt gva (drop_bit 2 gpa) (s2_tinst p type is_pt), Access_Fault tt True gva, Access_Fault type True gva})"
proof -
  let ?k = "levels vm * idxbits vm + widenbits vm + PGSHIFT" and ?mxr = "\<not> is_pt \<and> sstatus p False AND MSTATUS_MXR \<noteq> 0"
  have k: "?k < 64" "PGSHIFT + levels vm * idxbits vm \<le> 64" using decode_s2_bounds [OF assms(1)] by simp_all
  have ti: "(if is_pt then 0x2000 else 0) OR (if const_xlen p = 64 \<and> is_pt then 0x1000 else 0) OR (if type = STORE \<and> is_pt then 0x0020 else 0) =
      s2_tinst p type is_pt" by (simp add: s2_tinst_def)
  have s: "s2xlate p gva gpa type tt True hl is_pt b =
    (if \<not> unat gpa < 2 ^ ?k then (Inl (Guest_Page_Fault tt gva (drop_bit 2 gpa) (s2_tinst p type is_pt)), b)
     else case s2_loop p vm gva gpa type tt True hl ?mxr (levels vm) (ptbase vm) b of
            (Inl t, b) \<Rightarrow> (Inl t, b)
          | (Inr None, b) \<Rightarrow> (Inl (Guest_Page_Fault tt gva (drop_bit 2 gpa) (s2_tinst p type is_pt)), b)
          | (Inr (Some pa), b) \<Rightarrow> (Inr pa, b))"
    unfolding s2xlate_def Let_def ti using assms gpa_bound [OF k(1), of gpa] by simp
  obtain r b1 where l: "s2_loop p vm gva gpa type tt True hl ?mxr (levels vm) (ptbase vm) b = (r, b1)" by fastforce
  have "s2xlate p gva gpa type tt True hl is_pt b = (Inr pa, b') \<longleftrightarrow> unat gpa < 2 ^ ?k \<and> (r, b1) = (Inr (Some pa), b')"
    unfolding s l by (auto split: sum.splits option.splits)
  moreover have "r = Inl t \<Longrightarrow> t \<in> {Access_Fault tt True gva, Access_Fault type True gva}" for t using s2_loop_trap l by blast
  then have "s2xlate p gva gpa type tt True hl is_pt b = (Inl t, b') \<longrightarrow>
       t \<in> {Guest_Page_Fault tt gva (drop_bit 2 gpa) (s2_tinst p type is_pt), Access_Fault tt True gva, Access_Fault type True gva}"
    unfolding s l by (auto split: sum.splits option.splits if_splits)
  ultimately show ?thesis unfolding s2_loop_iff [OF k(2), symmetric] l by blast
qed

section \<open>The first stage\<close>

definition s1_ad_updated :: "mmu_proc \<Rightarrow> walk_ctx \<Rightarrow> reg_t \<Rightarrow> reg_t \<Rightarrow> reg_t \<Rightarrow> bus_t \<Rightarrow> bus_t \<Rightarrow> bool" where
  "s1_ad_updated p w g a pte b b' \<longleftrightarrow>
     (if pte AND needs_ad (w_type w) = needs_ad (w_type w) then b' = b
      else env_bit p (w_virt w) HENVCFG_ADUE MENVCFG_ADUE \<and>
           (\<exists>x b1. s2xlate p (w_addr w) g STORE (w_type w) (w_virt w) False True b = (Inr x, b1) \<and>
              pte_store p a (pte OR needs_ad (w_type w)) (w_addr w) (w_virt w) (w_type w) (ptesize (w_vm w)) b1 = (Inr (), b')))"

lemma walk_update_iff: "walk_update p w g a pte b = (Inr True, b') \<longleftrightarrow> s1_ad_updated p w g a pte b b'"
  by (auto simp: walk_update_def s1_ad_updated_def Let_def split: prod.splits sum.splits)

lemma walk_finish_iff:
  "walk_finish p w i (g, a, pte) b = (Inr (Some r), b') \<longleftrightarrow>
     (\<exists>b1 pa. s1_ad_updated p w g a pte b b1 \<and>
        s2xlate p (w_addr w) (leaf_page pte (i * idxbits (w_vm w)) (w_addr w)) (w_type w) (w_type w) (w_virt w) (w_hlvx w) False b1 = (Inr pa, b') \<and>
        r = pa AND NOT page_mask)"
  unfolding walk_finish_def walk_update_iff [symmetric] Let_def
  by (cases "walk_update p w g a pte b") (auto split: prod.splits sum.splits bool.splits)

lemma s2_finish_page: "s2_finish p vm gva gpa type virt i e b = (Inr (Some r), b') \<Longrightarrow> \<exists>pte s. r = leaf_page pte s gpa"
  by (cases e) (auto simp: s2_finish_def Let_def split: prod.splits sum.splits if_splits)

lemma s2_loop_page: "s2_loop p vm gva gpa type tt virt hl mxr n base b = (Inr (Some r), b') \<Longrightarrow> \<exists>pte s. r = leaf_page pte s gpa"
  unfolding stage2.loop_iff using s2_finish_page by blast

lemma s2xlate_offset:
  assumes "s2xlate p gva gpa type tt virt hl is_pt b = (Inr pa, b')"
  shows "take_bit 12 pa = take_bit 12 gpa"
proof -
  have lp: "take_bit 12 (leaf_page pte s gpa) = take_bit 12 gpa" for pte s
    by (rule bit_word_eqI) (auto simp: bit_take_bit_iff bit_leaf_page_raw)
  show ?thesis using assms unfolding s2xlate_def Let_def
    by (auto split: if_splits option.splits prod.splits sum.splits dest!: s2_loop_page simp: lp)
qed

text \<open>When an access to a page table fails: the physical memory protection denies it to the supervisor, or nothing on the bus answers.\<close>

definition pte_unreadable :: "mmu_proc \<Rightarrow> reg_t \<Rightarrow> nat \<Rightarrow> bus_t \<Rightarrow> bus_t \<Rightarrow> bool" where
  "pte_unreadable p a n b b' \<longleftrightarrow>
     (if pmp_ok (pmp p) a (of_nat n) LOAD PRV_S False then addr_to_mem b a = None \<and> mmio_load p b a n = (None, b') else b' = b)"

definition pte_unwritable :: "mmu_proc \<Rightarrow> reg_t \<Rightarrow> reg_t \<Rightarrow> nat \<Rightarrow> bus_t \<Rightarrow> bus_t \<Rightarrow> bool" where
  "pte_unwritable p a pte n b b' \<longleftrightarrow>
     (if pmp_ok (pmp p) a (of_nat n) STORE PRV_S False then addr_to_mem b a = None \<and> mmio_store p b a (to_le n pte) = (False, b') else b' = b)"

lemma pte_load_fails: "pte_load p a addr virt type n b = (Inl t, b') \<longleftrightarrow> t = Access_Fault type virt addr \<and> pte_unreadable p a n b b'"
  by (auto simp: pte_load_def pte_unreadable_def split: prod.splits option.splits)

lemma pte_store_fails: "pte_store p a x addr virt type n b = (Inl t, b') \<longleftrightarrow> t = Access_Fault type virt addr \<and> pte_unwritable p a x n b b'"
  by (auto simp: pte_store_def pte_unwritable_def split: prod.splits option.splits bool.splits)

text \<open>The table at a level of the walk, and the three ways in which an ordinary access fails. A page fault: pointers past the last level; an entry that is
  neither a well-formed pointer nor a legal, aligned leaf that grants the access; accessed or dirty bits that would have to be updated while the update is off.\<close>

definition s1_table :: "mmu_proc \<Rightarrow> walk_ctx \<Rightarrow> nat \<Rightarrow> reg_t \<Rightarrow> bus_t \<Rightarrow> nat \<Rightarrow> reg_t \<Rightarrow> bus_t \<Rightarrow> bool" where
  "s1_table p w = radix_table (walk_read p w) (\<lambda>e. table_ok p (s1_pbmte p w) (snd (snd e))) (\<lambda>e. push_bit PGSHIFT (pte_ppn (snd (snd e))))"

definition ad_needed :: "walk_ctx \<Rightarrow> reg_t \<Rightarrow> bool" where
  "ad_needed w pte \<longleftrightarrow> pte AND needs_ad (w_type w) \<noteq> needs_ad (w_type w)"

abbreviation "s1_adue p w \<equiv> env_bit p (w_virt w) HENVCFG_ADUE MENVCFG_ADUE"

definition page_fault_due :: "mmu_proc \<Rightarrow> walk_ctx \<Rightarrow> bus_t \<Rightarrow> bus_t \<Rightarrow> bool" where
  "page_fault_due p w b b' \<longleftrightarrow> (let n = levels (w_vm w); root = ptbase (w_vm w)
     in (\<exists>base. s1_table p w n root b 0 base b') \<or>
        (\<exists>i g a pte. s1_entry p w n root b i (g, a, pte) b' \<and> \<not> table_ok p (s1_pbmte p w) pte \<and> \<not> leaf_ok p w i pte \<and> \<not> shadow_violation p w i pte) \<or>
        (\<exists>i g a pte. s1_entry p w n root b i (g, a, pte) b' \<and> leaf_ok p w i pte \<and> ad_needed w pte \<and> \<not> s1_adue p w))"

text \<open>An access fault: an entry that cannot be read, a store to or fetch from a shadow-stack page, or bits that cannot be written.\<close>

definition access_fault_due :: "mmu_proc \<Rightarrow> walk_ctx \<Rightarrow> bus_t \<Rightarrow> bus_t \<Rightarrow> bool" where
  "access_fault_due p w b b' \<longleftrightarrow> (let n = levels (w_vm w); root = ptbase (w_vm w); size = ptesize (w_vm w)
     in (\<exists>i base b1 a b2. s1_table p w n root b (Suc i) base b1 \<and>
           s2xlate p (w_addr w) (pte_address w i base) LOAD (w_type w) (w_virt w) False True b1 = (Inr a, b2) \<and> pte_unreadable p a size b2 b') \<or>
        (\<exists>i g a pte. s1_entry p w n root b i (g, a, pte) b' \<and> shadow_violation p w i pte) \<or>
        (\<exists>i g a pte b1 x b2. s1_entry p w n root b i (g, a, pte) b1 \<and> leaf_ok p w i pte \<and> ad_needed w pte \<and> s1_adue p w \<and>
           s2xlate p (w_addr w) g STORE (w_type w) (w_virt w) False True b1 = (Inr x, b2) \<and>
           pte_unwritable p a (pte OR needs_ad (w_type w)) size b2 b'))"

text \<open>A trap of the second stage: on the way to an entry, to its update, or for the guest physical address that the leaf maps to.\<close>

definition s2_trap_due :: "mmu_proc \<Rightarrow> walk_ctx \<Rightarrow> mem_trap \<Rightarrow> bus_t \<Rightarrow> bus_t \<Rightarrow> bool" where
  "s2_trap_due p w t b b' \<longleftrightarrow> (let n = levels (w_vm w); root = ptbase (w_vm w)
     in (\<exists>i base b1. s1_table p w n root b (Suc i) base b1 \<and>
           s2xlate p (w_addr w) (pte_address w i base) LOAD (w_type w) (w_virt w) False True b1 = (Inl t, b')) \<or>
        (\<exists>i g a pte b1. s1_entry p w n root b i (g, a, pte) b1 \<and> leaf_ok p w i pte \<and> ad_needed w pte \<and> s1_adue p w \<and>
           s2xlate p (w_addr w) g STORE (w_type w) (w_virt w) False True b1 = (Inl t, b')) \<or>
        (\<exists>i g a pte b1 b2 gpa. s1_entry p w n root b i (g, a, pte) b1 \<and> leaf_ok p w i pte \<and> s1_ad_updated p w g a pte b1 b2 \<and>
           maps_to (w_vm w) i pte (w_addr w) gpa \<and>
           s2xlate p (w_addr w) gpa (w_type w) (w_type w) (w_virt w) (w_hlvx w) False b2 = (Inl t, b')))"

lemma walk_read_fails:
  "walk_read p w i base b = (Inl t, b') \<longleftrightarrow>
     s2xlate p (w_addr w) (pte_address w i base) LOAD (w_type w) (w_virt w) False True b = (Inl t, b') \<or>
     (\<exists>a b1. s2xlate p (w_addr w) (pte_address w i base) LOAD (w_type w) (w_virt w) False True b = (Inr a, b1) \<and>
        t = Access_Fault (w_type w) (w_virt w) (w_addr w) \<and> pte_unreadable p a (ptesize (w_vm w)) b1 b')"
  unfolding walk_read_def Let_def pte_load_fails [symmetric] by (auto split: prod.splits sum.splits)

lemma walk_update_fails:
  "walk_update p w g a pte b = (Inl t, b') \<longleftrightarrow> ad_needed w pte \<and> s1_adue p w \<and>
     (s2xlate p (w_addr w) g STORE (w_type w) (w_virt w) False True b = (Inl t, b') \<or>
      (\<exists>x b1. s2xlate p (w_addr w) g STORE (w_type w) (w_virt w) False True b = (Inr x, b1) \<and>
         t = Access_Fault (w_type w) (w_virt w) (w_addr w) \<and> pte_unwritable p a (pte OR needs_ad (w_type w)) (ptesize (w_vm w)) b1 b'))"
  unfolding walk_update_def Let_def pte_store_fails [symmetric] ad_needed_def by (auto split: prod.splits sum.splits)

lemma walk_update_off: "walk_update p w g a pte b = (Inr False, b') \<longleftrightarrow> ad_needed w pte \<and> \<not> s1_adue p w \<and> b' = b"
  unfolding walk_update_def Let_def ad_needed_def by (auto split: prod.splits sum.splits)

lemma walk_finish_fails:
  "walk_finish p w i (g, a, pte) b = (Inl t, b') \<longleftrightarrow> walk_update p w g a pte b = (Inl t, b') \<or>
     (\<exists>b1. s1_ad_updated p w g a pte b b1 \<and>
        s2xlate p (w_addr w) (leaf_page pte (i * idxbits (w_vm w)) (w_addr w)) (w_type w) (w_type w) (w_virt w) (w_hlvx w) False b1 = (Inl t, b'))"
  unfolding walk_finish_def walk_update_iff [symmetric] Let_def
  by (cases "walk_update p w g a pte b") (auto split: prod.splits sum.splits bool.splits)

lemma walk_finish_none: "walk_finish p w i (g, a, pte) b = (Inr None, b') \<longleftrightarrow> ad_needed w pte \<and> \<not> s1_adue p w \<and> b' = b"
  unfolding walk_finish_def walk_update_off [of p w g a pte b b', symmetric] Let_def
  by (cases "walk_update p w g a pte b") (auto split: prod.splits sum.splits bool.splits)

lemma radix_entry:
  "radix_path rd tab nxt n base s i e s' \<longleftrightarrow> (\<exists>base' s1. radix_table rd tab nxt n base s (Suc i) base' s1 \<and> rd i base' s1 = (Inr e, s'))"
proof (induction n arbitrary: base s)
  case 0
  show ?case by (auto simp: radix_table_0 elim: radix_path_0E)
next
  case (Suc n)
  show ?case unfolding radix_path_Suc [of _ _ _ n] radix_table_Suc Suc.IH by auto
qed

lemma leaf_not_table: "leaf_ok p w i pte \<Longrightarrow> \<not> table_ok p (s1_pbmte p w) pte"
  by (simp add: leaf_ok_def table_ok_def)

lemma classify_stop:
  assumes "ordinary w"
  shows "\<not> table_ok p (s1_pbmte p w) pte \<and> \<not> leaf_ok p w i pte \<and> (case classify_pte p w i pte of Raise t \<Rightarrow> Some t | _ \<Rightarrow> None) = None \<and> X \<longleftrightarrow>
      \<not> table_ok p (s1_pbmte p w) pte \<and> \<not> leaf_ok p w i pte \<and> \<not> shadow_violation p w i pte \<and> X"
    and "\<not> table_ok p (s1_pbmte p w) pte \<and> \<not> leaf_ok p w i pte \<and> (case classify_pte p w i pte of Raise t \<Rightarrow> Some t | _ \<Rightarrow> None) = Some t \<and> X \<longleftrightarrow>
      \<not> table_ok p (s1_pbmte p w) pte \<and> \<not> leaf_ok p w i pte \<and> shadow_violation p w i pte \<and> t = Access_Fault (w_type w) (w_virt w) (w_addr w) \<and> X"
  using classify_bad [OF assms, of p pte i] by (cases "shadow_violation p w i pte"; auto)+

lemma shadow_not_good:
  "shadow_violation p w i pte \<Longrightarrow> ordinary w \<Longrightarrow> \<not> table_ok p (s1_pbmte p w) pte \<and> \<not> leaf_ok p w i pte"
  by (auto simp: shadow_violation_def shadow_stack_page_def table_ok_def leaf_ok_def leaf_grants_def PTE_TABLE_iff pte_bit ordinary_def)

text \<open>The walk ends in a page fault, and in another trap, exactly in the cases that are due.\<close>

lemma walk_loop_none_iff:
  assumes "ordinary w"
  shows "walk_loop p w (levels (w_vm w)) (ptbase (w_vm w)) b = (Inr None, b') \<longleftrightarrow> page_fault_due p w b b'"
  unfolding stage1.loop_none_iff page_fault_due_def Let_def s1_table_def [symmetric] s1_entry_def [symmetric] split_paired_Ex snd_conv
    classify_grant_iff [OF assms] walk_finish_none classify_stop(1) [OF assms] by blast

lemma leaf_maps:
  assumes "PGSHIFT + levels (w_vm w) * idxbits (w_vm w) \<le> 64" "s1_entry p w (levels (w_vm w)) base b i e b1" "leaf_ok p w i pte"
  shows "maps_to (w_vm w) i pte (w_addr w) gpa \<longleftrightarrow> gpa = leaf_page pte (i * idxbits (w_vm w)) (w_addr w)"
  using assms(3) leaf_level [OF radix_path_level [OF assms(2) [unfolded s1_entry_def]] assms(1)] by (intro maps_to_iff) (simp_all add: leaf_ok_def)

lemma walk_loop_iff:
  assumes "ordinary w" "PGSHIFT + levels (w_vm w) * idxbits (w_vm w) \<le> 64"
  shows "walk_loop p w (levels (w_vm w)) base b = (Inr (Some r), b') \<longleftrightarrow>
    (\<exists>i g a pte b1 b2 gpa pa. s1_entry p w (levels (w_vm w)) base b i (g, a, pte) b1 \<and> leaf_ok p w i pte \<and> s1_ad_updated p w g a pte b1 b2 \<and>
       maps_to (w_vm w) i pte (w_addr w) gpa \<and> s2xlate p (w_addr w) gpa (w_type w) (w_type w) (w_virt w) (w_hlvx w) False b2 = (Inr pa, b') \<and>
       r = pa AND NOT page_mask)"
proof -
  note m = leaf_maps [OF assms(2), of p base b _ "(_, _, _)"]
  have "s1_entry p w (levels (w_vm w)) base b i (g, a, pte) b1 \<and> leaf_ok p w i pte \<and> walk_finish p w i (g, a, pte) b1 = (Inr (Some r), b') \<longleftrightarrow>
    (\<exists>b2 gpa pa. s1_entry p w (levels (w_vm w)) base b i (g, a, pte) b1 \<and> leaf_ok p w i pte \<and> s1_ad_updated p w g a pte b1 b2 \<and>
       maps_to (w_vm w) i pte (w_addr w) gpa \<and> s2xlate p (w_addr w) gpa (w_type w) (w_type w) (w_virt w) (w_hlvx w) False b2 = (Inr pa, b') \<and>
       r = pa AND NOT page_mask)" for i g a pte b1
    unfolding walk_finish_iff using m [of i g a pte b1 pte] by auto
  then show ?thesis unfolding stage1.loop_iff s1_entry_def [symmetric] split_paired_Ex snd_conv classify_grant_iff [OF assms(1)] by simp
qed

lemma walk_loop_trap_iff:
  assumes o: "ordinary w" and k: "PGSHIFT + levels (w_vm w) * idxbits (w_vm w) \<le> 64"
  shows "walk_loop p w (levels (w_vm w)) (ptbase (w_vm w)) b = (Inl t, b') \<longleftrightarrow>
    t = Access_Fault (w_type w) (w_virt w) (w_addr w) \<and> access_fault_due p w b b' \<or> s2_trap_due p w t b b'"
proof -
  let ?n = "levels (w_vm w)" and ?root = "ptbase (w_vm w)" and ?af = "Access_Fault (w_type w) (w_virt w) (w_addr w)"
  have e: "(\<exists>base b1. s1_table p w ?n ?root b (Suc i) base b1 \<and> walk_read p w i base b1 = (Inr e, b2)) \<longleftrightarrow> s1_entry p w ?n ?root b i e b2" for i e b2
    unfolding s1_table_def s1_entry_def radix_entry [of "walk_read p w"] ..
  have "walk_loop p w ?n ?root b = (Inl t, b') \<longleftrightarrow>
      (\<exists>i base b1. s1_table p w ?n ?root b (Suc i) base b1 \<and> walk_read p w i base b1 = (Inl t, b')) \<or>
      (\<exists>i g a pte b1. s1_entry p w ?n ?root b i (g, a, pte) b1 \<and> leaf_ok p w i pte \<and> walk_finish p w i (g, a, pte) b1 = (Inl t, b')) \<or>
      (\<exists>i g a pte. s1_entry p w ?n ?root b i (g, a, pte) b' \<and> shadow_violation p w i pte \<and> t = ?af)"
    unfolding stage1.loop_trap_iff stage1.fails_def
    unfolding s1_table_def [symmetric] split_paired_Ex snd_conv classify_grant_iff [OF o] classify_stop(2) [OF o] e [symmetric]
    using shadow_not_good [OF _ o, of p] by blast
  also have "\<dots> \<longleftrightarrow> t = ?af \<and> access_fault_due p w b b' \<or> s2_trap_due p w t b b'"
  proof -
    have m: "s1_entry p w ?n ?root b i (g, a, pte) b1 \<and> leaf_ok p w i pte \<and> walk_finish p w i (g, a, pte) b1 = (Inl t, b') \<longleftrightarrow>
        s1_entry p w ?n ?root b i (g, a, pte) b1 \<and> leaf_ok p w i pte \<and> (walk_update p w g a pte b1 = (Inl t, b') \<or>
         (\<exists>b2 gpa. s1_ad_updated p w g a pte b1 b2 \<and> maps_to (w_vm w) i pte (w_addr w) gpa \<and>
            s2xlate p (w_addr w) gpa (w_type w) (w_type w) (w_virt w) (w_hlvx w) False b2 = (Inl t, b')))" for i g a pte b1
      unfolding walk_finish_fails using leaf_maps [OF k, of p ?root b i "(g, a, pte)" b1 pte] by auto
    have rd: "(\<exists>i base b1. s1_table p w ?n ?root b (Suc i) base b1 \<and> walk_read p w i base b1 = (Inl t, b')) \<longleftrightarrow>
        (\<exists>i base b1. s1_table p w ?n ?root b (Suc i) base b1 \<and>
           s2xlate p (w_addr w) (pte_address w i base) LOAD (w_type w) (w_virt w) False True b1 = (Inl t, b')) \<or>
        t = ?af \<and> (\<exists>i base b1 a b2. s1_table p w ?n ?root b (Suc i) base b1 \<and>
           s2xlate p (w_addr w) (pte_address w i base) LOAD (w_type w) (w_virt w) False True b1 = (Inr a, b2) \<and> pte_unreadable p a (ptesize (w_vm w)) b2 b')"
      unfolding walk_read_fails by blast
    have up: "(\<exists>i g a pte b1. s1_entry p w ?n ?root b i (g, a, pte) b1 \<and> leaf_ok p w i pte \<and> walk_finish p w i (g, a, pte) b1 = (Inl t, b')) \<longleftrightarrow>
        (\<exists>i g a pte b1. s1_entry p w ?n ?root b i (g, a, pte) b1 \<and> leaf_ok p w i pte \<and> walk_update p w g a pte b1 = (Inl t, b')) \<or>
        (\<exists>i g a pte b1 b2 gpa. s1_entry p w ?n ?root b i (g, a, pte) b1 \<and> leaf_ok p w i pte \<and> s1_ad_updated p w g a pte b1 b2 \<and>
           maps_to (w_vm w) i pte (w_addr w) gpa \<and> s2xlate p (w_addr w) gpa (w_type w) (w_type w) (w_virt w) (w_hlvx w) False b2 = (Inl t, b'))"
      unfolding m by blast
    have ad: "(\<exists>i g a pte b1. s1_entry p w ?n ?root b i (g, a, pte) b1 \<and> leaf_ok p w i pte \<and> walk_update p w g a pte b1 = (Inl t, b')) \<longleftrightarrow>
        (\<exists>i g a pte b1. s1_entry p w ?n ?root b i (g, a, pte) b1 \<and> leaf_ok p w i pte \<and> ad_needed w pte \<and> s1_adue p w \<and>
           s2xlate p (w_addr w) g STORE (w_type w) (w_virt w) False True b1 = (Inl t, b')) \<or>
        t = ?af \<and> (\<exists>i g a pte b1 x b2. s1_entry p w ?n ?root b i (g, a, pte) b1 \<and> leaf_ok p w i pte \<and> ad_needed w pte \<and> s1_adue p w \<and>
           s2xlate p (w_addr w) g STORE (w_type w) (w_virt w) False True b1 = (Inr x, b2) \<and>
           pte_unwritable p a (pte OR needs_ad (w_type w)) (ptesize (w_vm w)) b2 b')"
      unfolding walk_update_fails by blast
    have sh: "(\<exists>i g a pte. s1_entry p w ?n ?root b i (g, a, pte) b' \<and> shadow_violation p w i pte \<and> t = ?af) \<longleftrightarrow>
        t = ?af \<and> (\<exists>i g a pte. s1_entry p w ?n ?root b i (g, a, pte) b' \<and> shadow_violation p w i pte)"
      by blast
    have regroup: "(A1 \<or> T \<and> A2) \<or> ((B1 \<or> T \<and> B2) \<or> B3) \<or> T \<and> C \<longleftrightarrow> T \<and> (A2 \<or> C \<or> B2) \<or> (A1 \<or> B1 \<or> B3)" for A1 A2 B1 B2 B3 C T
      by blast
    show ?thesis
      unfolding rd up ad sh access_fault_due_def s2_trap_due_def Let_def by (rule regroup)
  qed
  finally show ?thesis .
qed

text \<open>Every address that a walk returns is the base of a page, for any access, so the translation keeps the page offset.\<close>

lemma walk_loop_page: "walk_loop p w n base b = (Inr (Some pa), b') \<Longrightarrow> \<exists>x. pa = x AND NOT page_mask"
  unfolding stage1.loop_iff split_paired_Ex walk_finish_iff by blast

lemma walk_page:
  assumes "walk p info b = (Inr pb, b')"
  shows "\<exists>x. pb = x AND NOT page_mask"
proof -
  obtain vm where vm: "decode_vm_info (const_xlen p) False (effective_priv info) (satp p (effective_virt info)) = Some vm"
    using assms by (cases "decode_vm_info (const_xlen p) False (effective_priv info) (satp p (effective_virt info))") (auto simp: walk_def Let_def)
  show ?thesis
  proof (cases "levels vm = 0")
    case True
    then show ?thesis using assms vm by (auto simp: walk_def Let_def split: prod.splits sum.splits if_splits)
  next
    case False
    obtain r b1 where wl: "walk_loop p (walk_context p info vm) (if canonical_msbs (xlen p) vm (transformed_vaddr info) then levels vm else 0)
      (ptbase vm) b = (r, b1)" by fastforce
    have "r = Inr (Some pb)" using assms vm False wl by (auto simp: walk_def Let_def split: sum.splits option.splits)
    then show ?thesis using walk_loop_page [OF wl [unfolded \<open>r = Inr (Some pb)\<close>]] by blast
  qed
qed

lemma translate_offset:
  assumes "translate p info len b = (Inr pa, b')"
  shows "take_bit 12 pa = take_bit 12 (transformed_vaddr info)"
proof -
  obtain r b1 where w: "walk p info b = (r, b1)" by fastforce
  then obtain pb where r: "r = Inr pb" using assms by (cases r) (auto simp: translate_def Let_def)
  obtain x where x: "pb = x AND NOT page_mask" using walk_page w r by blast
  have pa: "pa = pb OR (transformed_vaddr info AND (of_nat PGSIZE - 1))" using assms w r by (auto simp: translate_def Let_def split: if_splits)
  show ?thesis unfolding pa x page_mask_is_mask
    by (rule bit_word_eqI) (auto simp: bit_take_bit_iff bit_or_iff bit_and_iff bit_not_iff bit_mask_iff)
qed

lemma translate_pmp:
  assumes "translate p info len b = (Inr pa, b')"
  shows "pmp_ok (pmp p) pa len (if ss_access (flags info) then STORE else access_kind info) (effective_priv info) (hlvx (flags info))"
  using assms by (auto simp: translate_def Let_def split: prod.splits sum.splits if_splits)

text \<open>The address is the sign extension of its \<open>va_bits\<close> low bits, over the \<open>xlen\<close> bits of the hart.\<close>

definition canonical :: "nat \<Rightarrow> vm_info \<Rightarrow> reg_t \<Rightarrow> bool" where
  "canonical xl vm addr \<longleftrightarrow> (let va_bits = PGSHIFT + levels vm * idxbits vm
     in \<forall>n. va_bits \<le> n \<and> n < xl \<longrightarrow> bit addr n = bit addr (va_bits - 1))"

lemma canonical_msbs_iff:
  assumes "PGSHIFT + levels vm * idxbits vm \<le> xl" "xl \<le> 64"
  shows "canonical_msbs xl vm addr \<longleftrightarrow> canonical xl vm addr"
proof -
  define v where "v = PGSHIFT + levels vm * idxbits vm - 1"
  have v: "v < xl" "PGSHIFT + levels vm * idxbits vm = Suc v" using assms by (simp_all add: v_def PGSHIFT_def)
  let ?m = "drop_bit v addr AND mask (xl - v)"
  have b: "bit ?m j \<longleftrightarrow> j < xl - v \<and> bit addr (v + j)" for j
    by (auto simp: bit_and_iff bit_mask_iff bit_drop_bit_eq dest: bit_imp_le_length)
  have j64: "j < xl - v \<Longrightarrow> j < 64" for j using assms(2) by simp
  have z: "?m = 0 \<longleftrightarrow> (\<forall>j < xl - v. \<not> bit addr (v + j))"
    using assms(2) by (auto simp: bit_eq_iff b)
  have o: "?m = mask (xl - v) \<longleftrightarrow> (\<forall>j < xl - v. bit addr (v + j))"
    using j64 by (simp add: bit_eq_iff b bit_mask_iff) blast
  have "canonical_msbs xl vm addr \<longleftrightarrow> (\<forall>j < xl - v. \<not> bit addr (v + j)) \<or> (\<forall>j < xl - v. bit addr (v + j))"
    unfolding canonical_msbs_def Let_def v diff_Suc_1 push_bit_1_minus_1 z o ..
  also have "\<dots> \<longleftrightarrow> (\<forall>j < xl - v. bit addr (v + j) = bit addr v)" using v(1) by (metis add_0_right zero_less_diff)
  also have "\<dots> \<longleftrightarrow> canonical xl vm addr"
  proof
    assume h: "\<forall>j < xl - v. bit addr (v + j) = bit addr v"
    show "canonical xl vm addr" unfolding canonical_def Let_def v diff_Suc_1
    proof (intro allI impI)
      fix n assume "Suc v \<le> n \<and> n < xl" then show "bit addr n = bit addr v" using h [rule_format, of "n - v"] by fastforce
    qed
  next
    assume h: "canonical xl vm addr"
    show "\<forall>j < xl - v. bit addr (v + j) = bit addr v"
    proof (intro allI impI)
      fix j assume "j < xl - v"
      then show "bit addr (v + j) = bit addr v"
        using h [unfolded canonical_def Let_def v diff_Suc_1, rule_format, of "v + j"] by (cases j) auto
    qed
  qed
  finally show ?thesis .
qed

lemma ordinary_context:
  assumes "\<not> ss_access (flags info)" "\<not> clean_inval (flags info)" "hlvx (flags info) \<longrightarrow> access_kind info = LOAD"
  shows "ordinary (walk_context p info vm)"
  using assms by (simp add: ordinary_def walk_context_def Let_def)

lemma walk_context_sel [simp]:
  "w_vm (walk_context p info vm) = vm" "w_addr (walk_context p info vm) = transformed_vaddr info"
  "w_virt (walk_context p info vm) = effective_virt info" "w_hlvx (walk_context p info vm) = hlvx (flags info)"
  "w_type (walk_context p info vm) = (if ss_access (flags info) then STORE else access_kind info)"
  by (simp_all add: walk_context_def Let_def)

text \<open>A successful walk: the leaf that pointer entries lead to grants the access, its bits are set or could be updated, and the second stage takes the address that the
  leaf maps to the physical one.\<close>

definition s1_maps :: "mmu_proc \<Rightarrow> walk_ctx \<Rightarrow> bus_t \<Rightarrow> reg_t \<Rightarrow> bus_t \<Rightarrow> bool" where
  "s1_maps p w b pa b' \<longleftrightarrow> (\<exists>i g a pte b1 b2 gpa. s1_entry p w (levels (w_vm w)) (ptbase (w_vm w)) b i (g, a, pte) b1 \<and>
     leaf_ok p w i pte \<and> s1_ad_updated p w g a pte b1 b2 \<and> maps_to (w_vm w) i pte (w_addr w) gpa \<and>
     s2xlate p (w_addr w) gpa (w_type w) (w_type w) (w_virt w) (w_hlvx w) False b2 = (Inr pa, b'))"

lemma walk_loop_maps:
  assumes "ordinary w" "PGSHIFT + levels (w_vm w) * idxbits (w_vm w) \<le> 64"
  shows "walk_loop p w (levels (w_vm w)) (ptbase (w_vm w)) b = (Inr (Some r), b') \<longleftrightarrow> (\<exists>pa. s1_maps p w b pa b' \<and> r = pa AND NOT page_mask)"
  unfolding walk_loop_iff [OF assms] s1_maps_def by blast

lemma s1_maps_page:
  assumes "s1_maps p w b pa b'"
  shows "(pa AND NOT page_mask) OR (w_addr w AND (of_nat PGSIZE - 1)) = pa"
  using assms unfolding s1_maps_def by (intro page_recombine) (metis maps_to_offset s2xlate_offset)

text \<open>The translation in terms of the walk, for an ordinary access in a paged mode.\<close>

lemma translate_ordinary:
  assumes "\<not> ss_access (flags info)" "decode_vm_info (const_xlen p) False (effective_priv info) (satp p (effective_virt info)) = Some vm" "0 < levels vm"
    and "PGSHIFT + levels vm * idxbits vm \<le> xlen p" "xlen p \<le> 64"
  defines "a \<equiv> transformed_vaddr info" and "v \<equiv> effective_virt info" and "k \<equiv> access_kind info"
  shows "translate p info len b =
    (if canonical (xlen p) vm a then
       case walk_loop p (walk_context p info vm) (levels vm) (ptbase vm) b of
         (Inl t, b1) \<Rightarrow> (Inl t, b1)
       | (Inr None, b1) \<Rightarrow> (Inl (Page_Fault k v a), b1)
       | (Inr (Some pb), b1) \<Rightarrow>
           if pmp_ok (pmp p) (pb OR (a AND (of_nat PGSIZE - 1))) len k (effective_priv info) (hlvx (flags info))
           then (Inr (pb OR (a AND (of_nat PGSIZE - 1))), b1) else (Inl (Access_Fault k v a), b1)
     else (Inl (Page_Fault k v a), b))"
  using assms(1-3) canonical_msbs_iff [OF assms(4,5), of a]
  by (simp add: translate_def walk_def Let_def a_def v_def k_def walk_loop.simps(1) split: prod.splits sum.splits option.splits)

text \<open>C9. Address translation, for every access other than shadow-stack and cache-block accesses, in a paged mode. It yields a physical address exactly when the virtual address is
  canonical, a path of well-formed pointer entries leads from the root table to a leaf entry that is legal, aligned and grants the access at its privilege, the accessed
  and dirty bits of the entry are set or could be updated, the second stage takes the address that the leaf maps to the physical one (it is the identity
  outside a virtual machine), and the physical memory protection allows it. It ends in a page fault of this access with its address exactly when the address is not
  canonical, the pointers lead past the last level, the entry reached is neither a well-formed pointer nor a leaf that grants the access, or the bits would have to be updated
  while the update is off; in an access fault exactly when an entry cannot be read or its bits cannot be written (denied by the physical memory protection, or
  no device answers), a shadow-stack page is stored to or fetched from, or the protection denies the physical address; and in any other trap exactly when the second stage
  raises it (see C10) for the address of an entry, of its update or of the leaf's target.\<close>

theorem translate_walks_tables:
  assumes "\<not> ss_access (flags info)" "\<not> clean_inval (flags info)" "hlvx (flags info) \<longrightarrow> access_kind info = LOAD"
    and "decode_vm_info (const_xlen p) False (effective_priv info) (satp p (effective_virt info)) = Some vm" "0 < levels vm"
    and "PGSHIFT + levels vm * idxbits vm \<le> xlen p" "xlen p \<le> 64"
  defines "w \<equiv> walk_context p info vm" and "a \<equiv> transformed_vaddr info" and "v \<equiv> effective_virt info" and "k \<equiv> access_kind info"
  shows "(translate p info len b = (Inr pa, b') \<longleftrightarrow>
       canonical (xlen p) vm a \<and> s1_maps p w b pa b' \<and> pmp_ok (pmp p) pa len k (effective_priv info) (hlvx (flags info))) \<and>
     (translate p info len b = (Inl t, b') \<longleftrightarrow>
       t = Page_Fault k v a \<and> (if canonical (xlen p) vm a then page_fault_due p w b b' else b' = b) \<or>
       canonical (xlen p) vm a \<and>
         (t = Access_Fault k v a \<and> access_fault_due p w b b' \<or>
          t = Access_Fault k v a \<and> (\<exists>pa. s1_maps p w b pa b' \<and> \<not> pmp_ok (pmp p) pa len k (effective_priv info) (hlvx (flags info))) \<or>
          s2_trap_due p w t b b'))"
proof -
  have o: "ordinary w" unfolding w_def by (rule ordinary_context [OF assms(1-3)])
  have sel: "w_vm w = vm" "w_addr w = a" "w_type w = k" "w_virt w = v" using assms(1) by (simp_all add: w_def a_def k_def v_def)
  have bound: "PGSHIFT + levels (w_vm w) * idxbits (w_vm w) \<le> 64" using assms(6,7) by (simp add: sel)
  note tr = translate_ordinary [OF assms(1,4-7), of len b, folded a_def v_def k_def w_def]
  note none = walk_loop_none_iff [OF o, of p b b', unfolded sel]
  note trap = walk_loop_trap_iff [OF o bound, of p b t b', unfolded sel]
  note some = walk_loop_maps [OF o bound, of p b _ b', unfolded sel]
  note page = s1_maps_page [of p w b _ b', unfolded sel]
  show ?thesis
  proof (cases "canonical (xlen p) vm a")
    case False
    then show ?thesis unfolding tr by auto
  next
    case True
    obtain r b1 where l: "walk_loop p w (levels vm) (ptbase vm) b = (r, b1)" by fastforce
    show ?thesis
    proof (cases r)
      case (Inl u)
      then show ?thesis using none trap some unfolding tr l by (auto simp: True)
    next
      case (Inr x)
      show ?thesis
      proof (cases x)
        case None
        then show ?thesis using Inr none trap some unfolding tr l by (auto simp: True)
      next
        case (Some pb)
        have "s1_maps p w b pa b' \<longleftrightarrow> b1 = b' \<and> pa = pb OR (a AND (of_nat PGSIZE - 1))" for pa
        proof -
          have s: "pb = r \<and> b1 = b' \<longleftrightarrow> (\<exists>pa. s1_maps p w b pa b' \<and> r = pa AND NOT page_mask)" for r
            using some [of r] Inr Some unfolding l by simp
          then show ?thesis using page by metis
        qed
        then show ?thesis using Inr Some none trap unfolding tr l by (auto simp: True)
      qed
    qed
  qed
qed

section \<open>An example\<close>

text \<open>A supervisor with Sv39 translation whose root table, the first page of the memory at \<open>0x80000000\<close>, maps the gigabyte at that address to itself.\<close>

definition example_pmp :: pmp_state where
  "example_pmp = \<lparr>pmpaddr = [], mseccfg = 0, n_pmp = 0, lg_pmp_granularity = 2, max_xlen = 64, cur_xlen = 64, ext_zkr = False,
     ext_zicfilp = False, ext_smmpm = False\<rparr>"

definition example_proc :: mmu_proc where
  "example_proc = \<lparr>xlen = 64, const_xlen = 64, ext_svnapot = False, ext_S = True, satp = (\<lambda>virt. 0x8000000000080000), hgatp = 0, sstatus = (\<lambda>virt. 0),
     mstatus = 0, hstatus = 0, menvcfg = 0, henvcfg = 0, senvcfg = 0, mnstatus = None, dcsr = 0, debug_mode = False, prv = PRV_S,
     state_v = False, pmp = example_pmp\<rparr>"

definition example_root :: page where
  "example_root = (\<lambda>i. 0)(16 := 0xCF, 17 := 0, 18 := 0, 19 := 0x20)"

definition example_paged_bus :: bus_t where
  "example_paged_bus = \<lparr>devices = [(0x80000000, Mem \<lparr>sparse_memory_map = (\<lambda>ppn. None)(0 \<mapsto> example_root), sz = 0x10000\<rparr>)], fallback = Rom []\<rparr>"

definition example_access :: mem_access_info_t where
  "example_access = \<lparr>vaddr = 0x80001230, transformed_vaddr = 0x80001230, effective_priv = PRV_S, effective_virt = False, flags = no_flags,
     access_kind = LOAD\<rparr>"

definition example_vm :: vm_info where
  "example_vm = \<lparr>levels = 3, idxbits = 9, widenbits = 0, ptesize = 8, ptbase = 0x80000000\<rparr>"

lemma example_decode: "decode_vm_info (const_xlen example_proc) False (effective_priv example_access) (satp example_proc (effective_virt example_access)) = Some example_vm"
  by code_simp

lemma example_translate: "fst (translate example_proc example_access 8 example_paged_bus) = Inr 0x80001230"
  by code_simp

theorem translate_walks_tables_witness:
  "\<exists>b' i g a pte b1. translate example_proc example_access 8 example_paged_bus = (Inr 0x80001230, b') \<and>
     s1_entry example_proc (walk_context example_proc example_access example_vm) 3 0x80000000 example_paged_bus i (g, a, pte) b1 \<and>
     leaf_ok example_proc (walk_context example_proc example_access example_vm) i pte \<and> maps_to example_vm i pte 0x80001230 0x80001230"
proof -
  obtain b' where t: "translate example_proc example_access 8 example_paged_bus = (Inr 0x80001230, b')"
    using example_translate by (metis prod.collapse)
  have h: "\<not> ss_access (flags example_access)" "\<not> clean_inval (flags example_access)" "hlvx (flags example_access) \<longrightarrow> access_kind example_access = LOAD"
    "effective_virt example_access = False" "transformed_vaddr example_access = 0x80001230" by (simp_all add: example_access_def no_flags_def)
  have vm: "0 < levels example_vm" "PGSHIFT + levels example_vm * idxbits example_vm \<le> xlen example_proc" "xlen example_proc \<le> 64"
    "levels example_vm = 3" "ptbase example_vm = 0x80000000"
    by (simp_all add: example_vm_def example_proc_def PGSHIFT_def)
  show ?thesis
    using translate_walks_tables [OF h(1-3) example_decode vm(1-3), where len = 8 and b = example_paged_bus and pa = "0x80001230" and b' = b',
        THEN conjunct1, THEN iffD1, OF t] t unfolding s1_maps_def walk_context_sel vm(4,5) h(4,5) s2xlate_off prod.inject sum.inject by blast
qed

text \<open>A guest whose second stage maps the same gigabyte, as a user page.\<close>

definition example_guest :: mmu_proc where
  "example_guest = example_proc\<lparr>hgatp := 0x8000000000080000, menvcfg := MENVCFG_ADUE\<rparr>"

definition example_guest_vm :: vm_info where
  "example_guest_vm = \<lparr>levels = 3, idxbits = 9, widenbits = 2, ptesize = 8, ptbase = 0x80000000\<rparr>"

definition example_guest_bus :: bus_t where
  "example_guest_bus = \<lparr>devices = [(0x80000000, Mem \<lparr>sparse_memory_map = (\<lambda>ppn. None)(0 \<mapsto> example_root(16 := 0xDF)), sz = 0x10000\<rparr>)], fallback = Rom []\<rparr>"

theorem s2xlate_walks_tables_witness:
  "\<exists>b' i a pte b1. s2xlate example_guest 0x1230 0x80001230 LOAD LOAD True False False example_guest_bus = (Inr 0x80001230, b') \<and>
     s2_entry example_guest example_guest_vm 0x1230 0x80001230 LOAD 3 0x80000000 example_guest_bus i (a, pte) b1 \<and>
     maps_to example_guest_vm i pte 0x80001230 0x80001230"
proof -
  have "fst (s2xlate example_guest 0x1230 0x80001230 LOAD LOAD True False False example_guest_bus) = Inr 0x80001230" by code_simp
  then obtain b' where s: "s2xlate example_guest 0x1230 0x80001230 LOAD LOAD True False False example_guest_bus = (Inr 0x80001230, b')"
    by (metis prod.collapse)
  have d: "decode_vm_info (const_xlen example_guest) True 0 (hgatp example_guest) = Some example_guest_vm" by code_simp
  have vm: "0 < levels example_guest_vm" "levels example_guest_vm = 3" "ptbase example_guest_vm = 0x80000000" by (simp_all add: example_guest_vm_def)
  show ?thesis
    using s2xlate_walks_tables [OF d vm(1), THEN conjunct1, THEN iffD1, OF s] s unfolding vm(2,3) by blast
qed

text \<open>A second-stage update of the accessed bit that the bus refuses, here of an entry in a boot ROM, raises the access fault of the implicit load and not that of the
  instruction fetch on whose behalf the tables are read; a refused read of the same entry raises the fault of the fetch.\<close>

definition example_rom_bus :: bus_t where
  "example_rom_bus = \<lparr>devices = [(0x80000000, Rom (replicate 16 0 @ [0x9F, 0, 0, 0x20, 0, 0, 0, 0]))], fallback = Rom []\<rparr>"

lemma s2_update_fault_kind:
  "fst (s2xlate example_guest 0x1230 0x80001230 LOAD FETCH True False True example_rom_bus) = Inl (Access_Fault LOAD True 0x1230)"
  "fst (s2xlate example_guest 0x1230 0x80001230 LOAD FETCH True False True (example_rom_bus\<lparr>devices := []\<rparr>)) = Inl (Access_Fault FETCH True 0x1230)"
  by code_simp+

end
