(* ===== verification/TLB.thy ===== *)
theory TLB
  imports MMU
begin

text \<open>
  The translation lookaside buffers of the simulator (\<^verbatim>\<open>riscv/mmu.h\<close> and \<^verbatim>\<open>riscv/mmu.cc\<close>): three direct-mapped tables of 256 entries, for fetches, loads
  and stores, whose tags carry in their upper bits what still has to be checked on a hit. A host pointer is a 64-bit number, null for a page
  that is not memory. The tables are functions from the index. Of the instruction cache the state has the tags, which a flush clears.
\<close>

unbundle bit_operations_syntax

section \<open>State\<close>

definition TLB_ENTRIES :: reg_t where "TLB_ENTRIES = 256"
definition TLB_CHECK_TRIGGERS :: reg_t where "TLB_CHECK_TRIGGERS = push_bit 63 1"
definition TLB_CHECK_TRACER :: reg_t where "TLB_CHECK_TRACER = push_bit 62 1"
definition TLB_MMIO :: reg_t where "TLB_MMIO = push_bit 61 1"
definition TLB_FLAGS :: reg_t where "TLB_FLAGS = TLB_CHECK_TRIGGERS OR TLB_CHECK_TRACER OR TLB_MMIO"

type_synonym uintptr_t = "64 word"

record tlb_entry_t =
  host_addr :: uintptr_t
  target_addr :: reg_t

record dtlb_entry_t =
  data :: tlb_entry_t
  tag :: reg_t

type_synonym tlb_table = "reg_t \<Rightarrow> dtlb_entry_t"

record mmu_tlbs =
  tlb_insn :: tlb_table
  tlb_load :: tlb_table
  tlb_store :: tlb_table
  icache_tag :: "reg_t \<Rightarrow> reg_t"
  check_triggers_fetch :: bool
  check_triggers_load :: bool
  check_triggers_store :: bool
  tracers :: "(reg_t \<Rightarrow> reg_t \<Rightarrow> access_type \<Rightarrow> bool) list"
  log_commits :: bool

section \<open>Operations\<close>

definition interested_in_range :: "(reg_t \<Rightarrow> reg_t \<Rightarrow> access_type \<Rightarrow> bool) list \<Rightarrow> reg_t \<Rightarrow> reg_t \<Rightarrow> access_type \<Rightarrow> bool" where
  "interested_in_range ts begin_addr end_addr type = list_ex (\<lambda>t. t begin_addr end_addr type) ts"

definition flushed :: dtlb_entry_t where
  "flushed = \<lparr>data = \<lparr>host_addr = - 1, target_addr = - 1\<rparr>, tag = - 1\<rparr>"

definition flush_icache :: "mmu_tlbs \<Rightarrow> mmu_tlbs" where
  "flush_icache m = m\<lparr>icache_tag := (\<lambda>_. - 1)\<rparr>"

definition flush_tlb :: "mmu_tlbs \<Rightarrow> mmu_tlbs" where
  "flush_tlb m = flush_icache (m\<lparr>tlb_insn := (\<lambda>_. flushed), tlb_load := (\<lambda>_. flushed), tlb_store := (\<lambda>_. flushed)\<rparr>)"

definition access_tlb :: "tlb_table \<Rightarrow> reg_t \<Rightarrow> reg_t \<Rightarrow> reg_t \<Rightarrow> bool \<times> uintptr_t \<times> reg_t" where
  "access_tlb tlb va allowed_flags required_flags =
     (let vpn = va div of_nat PGSIZE; pgoff = va mod of_nat PGSIZE;
          entry = tlb (vpn mod TLB_ENTRIES);
          hit = (tag entry AND (NOT allowed_flags OR required_flags) = vpn OR required_flags);
          mmio = (allowed_flags AND TLB_MMIO AND tag entry \<noteq> 0)
      in (hit, if mmio then 0 else host_addr (data entry) + pgoff, target_addr (data entry) + pgoff))"

definition tlb_of :: "mmu_tlbs \<Rightarrow> access_type \<Rightarrow> tlb_table" where
  "tlb_of m type = (case type of FETCH \<Rightarrow> tlb_insn m | LOAD \<Rightarrow> tlb_load m | STORE \<Rightarrow> tlb_store m)"

text \<open>No result stands for the failed assertion of \<open>pmp_homogeneous\<close>, which does not happen on a page.\<close>

definition refill_tlb :: "mmu_proc \<Rightarrow> reg_t \<Rightarrow> reg_t \<Rightarrow> uintptr_t \<Rightarrow> access_type \<Rightarrow> mmu_tlbs \<Rightarrow> (tlb_entry_t \<times> mmu_tlbs) option" where
  "refill_tlb p va paddr host type m =
     (let idx = drop_bit PGSHIFT va mod TLB_ENTRIES;
          expected_tag = drop_bit PGSHIFT va;
          base_paddr = paddr AND NOT (of_nat PGSIZE - 1);
          entry = \<lparr>host_addr = host - va mod of_nat PGSIZE, target_addr = paddr - va mod of_nat PGSIZE\<rparr>
      in if in_mprv p then Some (entry, m)
         else case pmp_homogeneous (pmp p) base_paddr (of_nat PGSIZE) of
                None \<Rightarrow> None
              | Some homogeneous \<Rightarrow>
                  if \<not> homogeneous \<or> log_commits m then Some (entry, m)
                  else
                    let trace_flag = (if interested_in_range (tracers m) base_paddr (base_paddr + of_nat PGSIZE) type then TLB_CHECK_TRACER else 0);
                        mmio_flag = (if host \<noteq> 0 then 0 else TLB_MMIO);
                        new = (\<lambda>triggers. \<lparr>data = entry,
                           tag = expected_tag OR (if triggers then TLB_CHECK_TRIGGERS else 0) OR trace_flag OR mmio_flag\<rparr>)
                    in Some (entry, case type of
                         FETCH \<Rightarrow> m\<lparr>tlb_insn := (tlb_insn m)(idx := new (check_triggers_fetch m))\<rparr>
                       | LOAD \<Rightarrow> m\<lparr>tlb_load := (tlb_load m)(idx := new (check_triggers_load m))\<rparr>
                       | STORE \<Rightarrow> m\<lparr>tlb_store := (tlb_store m)(idx := new (check_triggers_store m))\<rparr>))"

definition register_memtracer :: "(reg_t \<Rightarrow> reg_t \<Rightarrow> access_type \<Rightarrow> bool) \<Rightarrow> mmu_tlbs \<Rightarrow> mmu_tlbs" where
  "register_memtracer t m = (let m = flush_tlb m in m\<lparr>tracers := tracers m @ [t]\<rparr>)"

section \<open>Runs of the translation path\<close>

text \<open>A fill: the hart that accessed, the access and its address and length, the physical address that the translation gave and the host pointer of its page;
  whether commits were being logged. An access of the slow path stays inside one page.\<close>

record fill =
  f_proc :: mmu_proc
  f_type :: access_type
  f_va :: reg_t
  f_len :: reg_t
  f_pa :: reg_t
  f_host :: uintptr_t
  f_logging :: bool

definition intrapage :: "reg_t \<Rightarrow> reg_t \<Rightarrow> bool" where
  "intrapage va len \<longleftrightarrow> 0 < unat len \<and> unat va mod PGSIZE + unat len \<le> PGSIZE"

definition translated :: "fill \<Rightarrow> bool" where
  "translated e \<longleftrightarrow> intrapage (f_va e) (f_len e) \<and> 32 \<le> const_xlen (f_proc e) \<and> const_xlen (f_proc e) \<le> 64 \<and>
     (\<exists>info b b'. generate_access_info (f_proc e) (f_va e) (f_type e) no_flags = Some info \<and>
        translate (f_proc e) info (f_len e) b = (Inr (f_pa e), b'))"

text \<open>The states of the buffers, with the fills since the last flush, the latest first.\<close>

inductive tlb_run :: "mmu_tlbs \<Rightarrow> fill list \<Rightarrow> bool" where
  flush: "tlb_run (flush_tlb m) []"
| tracer: "tlb_run (register_memtracer t m) []"
| fill: "tlb_run m h \<Longrightarrow> translated e \<Longrightarrow> f_logging e = log_commits m \<Longrightarrow>
    refill_tlb (f_proc e) (f_va e) (f_pa e) (f_host e) (f_type e) m = Some (r, m') \<Longrightarrow> tlb_run m' (e # h)"
| triggers: "tlb_run m h \<Longrightarrow> tlb_run (m\<lparr>check_triggers_fetch := f, check_triggers_load := l, check_triggers_store := s\<rparr>) h"
| logging: "tlb_run m h \<Longrightarrow> tlb_run (m\<lparr>log_commits := l\<rparr>) h"

definition slot :: "reg_t \<Rightarrow> reg_t" where
  "slot va = drop_bit PGSHIFT va mod TLB_ENTRIES"

definition page_base :: "reg_t \<Rightarrow> reg_t" where
  "page_base pa = pa AND NOT (of_nat PGSIZE - 1)"

definition cached :: "fill \<Rightarrow> bool" where
  "cached e \<longleftrightarrow> \<not> in_mprv (f_proc e) \<and> pmp_homogeneous (pmp (f_proc e)) (page_base (f_pa e)) (of_nat PGSIZE) = Some True \<and> \<not> f_logging e"

text \<open>The fill that a slot holds: the latest one that was kept.\<close>

definition latest :: "access_type \<Rightarrow> reg_t \<Rightarrow> fill list \<Rightarrow> fill option" where
  "latest type i h = find (\<lambda>e. f_type e = type \<and> slot (f_va e) = i \<and> cached e) h"

definition holds :: "fill \<Rightarrow> dtlb_entry_t \<Rightarrow> bool" where
  "holds e ent \<longleftrightarrow> data ent = \<lparr>host_addr = f_host e - f_va e mod of_nat PGSIZE, target_addr = f_pa e - f_va e mod of_nat PGSIZE\<rparr> \<and>
     (\<exists>fl. tag ent = drop_bit PGSHIFT (f_va e) OR fl \<and> (\<forall>n. bit fl n \<longrightarrow> 61 \<le> n) \<and> (bit fl 61 \<longleftrightarrow> f_host e = 0))"

definition represents :: "mmu_tlbs \<Rightarrow> fill list \<Rightarrow> bool" where
  "represents m h \<longleftrightarrow> (\<forall>type i. case latest type i h of None \<Rightarrow> tlb_of m type i = flushed | Some e \<Rightarrow> holds e (tlb_of m type i))"

lemma bit_flags:
  "bit TLB_CHECK_TRIGGERS n \<longleftrightarrow> n = 63" "bit TLB_CHECK_TRACER n \<longleftrightarrow> n = 62" "bit TLB_MMIO n \<longleftrightarrow> n = 61"
  unfolding TLB_CHECK_TRIGGERS_def TLB_CHECK_TRACER_def TLB_MMIO_def bit_push_bit_iff bit_1_iff by auto

lemma bit_TLB_FLAGS: "bit TLB_FLAGS n \<longleftrightarrow> n \<in> {61, 62, 63}"
  unfolding TLB_FLAGS_def bit_or_iff bit_flags by auto

text \<open>A fill that is not kept leaves the tables alone; one that is kept replaces its slot.\<close>

lemma refill_cases:
  assumes "refill_tlb (f_proc e) (f_va e) (f_pa e) (f_host e) (f_type e) m = Some (r, m')" "f_logging e = log_commits m"
  shows "\<not> cached e \<Longrightarrow> m' = m"
    and "cached e \<Longrightarrow> \<exists>ent. holds e ent \<and> (\<forall>type. tlb_of m' type = (if type = f_type e then (tlb_of m type)(slot (f_va e) := ent) else tlb_of m type))"
proof -
  show "\<not> cached e \<Longrightarrow> m' = m"
    using assms unfolding refill_tlb_def cached_def page_base_def Let_def by (auto split: if_splits option.splits)
  assume c: "cached e"
  let ?base = "page_base (f_pa e)"
  define fl where "fl tr = (if tr then TLB_CHECK_TRIGGERS else 0) OR
     (if interested_in_range (tracers m) ?base (?base + of_nat PGSIZE) (f_type e) then TLB_CHECK_TRACER else 0) OR
     (if f_host e \<noteq> 0 then 0 else TLB_MMIO)" for tr
  define ent where "ent tr = \<lparr>data = \<lparr>host_addr = f_host e - f_va e mod of_nat PGSIZE, target_addr = f_pa e - f_va e mod of_nat PGSIZE\<rparr>,
     tag = drop_bit PGSHIFT (f_va e) OR fl tr\<rparr>" for tr
  have h: "holds e (ent tr)" for tr
  proof -
    have "(\<forall>n. bit (fl tr) n \<longrightarrow> 61 \<le> n) \<and> (bit (fl tr) 61 \<longleftrightarrow> f_host e = 0)"
      unfolding fl_def by (simp add: bit_or_iff bit_flags split: if_split)
    then show ?thesis unfolding holds_def ent_def by auto
  qed
  have m': "m' = (case f_type e of
       FETCH \<Rightarrow> m\<lparr>tlb_insn := (tlb_insn m)(slot (f_va e) := ent (check_triggers_fetch m))\<rparr>
     | LOAD \<Rightarrow> m\<lparr>tlb_load := (tlb_load m)(slot (f_va e) := ent (check_triggers_load m))\<rparr>
     | STORE \<Rightarrow> m\<lparr>tlb_store := (tlb_store m)(slot (f_va e) := ent (check_triggers_store m))\<rparr>)"
    using assms(1) c assms(2) unfolding refill_tlb_def Let_def cached_def page_base_def [symmetric]
    by (cases "f_type e") (auto simp: ent_def fl_def slot_def or.assoc)
  show "\<exists>ent. holds e ent \<and> (\<forall>type. tlb_of m' type = (if type = f_type e then (tlb_of m type)(slot (f_va e) := ent) else tlb_of m type))"
    unfolding m' by (cases "f_type e") (use h in \<open>auto simp: tlb_of_def split: access_type.splits intro!: exI\<close>)
qed

lemma represents_step:
  assumes "represents m h" "refill_tlb (f_proc e) (f_va e) (f_pa e) (f_host e) (f_type e) m = Some (r, m')" "f_logging e = log_commits m"
  shows "represents m' (e # h)"
proof (cases "cached e")
  case False
  then have "latest type i (e # h) = latest type i h" for type i by (simp add: latest_def)
  then show ?thesis using assms(1) refill_cases(1) [OF assms(2,3) False] by (simp add: represents_def)
next
  case True
  then have l: "latest type i (e # h) = (if f_type e = type \<and> slot (f_va e) = i then Some e else latest type i h)" for type i
    by (simp add: latest_def)
  from refill_cases(2) [OF assms(2,3) True] obtain ent where ent: "holds e ent"
    "\<And>type. tlb_of m' type = (if type = f_type e then (tlb_of m type)(slot (f_va e) := ent) else tlb_of m type)" by blast
  show ?thesis unfolding represents_def
  proof (intro allI)
    fix type i
    show "case latest type i (e # h) of None \<Rightarrow> tlb_of m' type i = flushed | Some e \<Rightarrow> holds e (tlb_of m' type i)"
      using assms(1) [unfolded represents_def, rule_format, of type i] ent(1) by (auto simp: l ent(2) split: option.splits)
  qed
qed

lemma tlb_of_config [simp]:
  "tlb_of (m\<lparr>check_triggers_fetch := f\<rparr>) = tlb_of m" "tlb_of (m\<lparr>check_triggers_load := f\<rparr>) = tlb_of m"
  "tlb_of (m\<lparr>check_triggers_store := f\<rparr>) = tlb_of m"
  "tlb_of (m\<lparr>log_commits := g\<rparr>) = tlb_of m"
  by (auto simp: tlb_of_def fun_eq_iff split: access_type.splits)

lemma tlb_run_represents: "tlb_run m h \<Longrightarrow> represents m h"
proof (induction rule: tlb_run.induct)
  case (flush m)
  show ?case by (auto simp: represents_def latest_def flush_tlb_def flush_icache_def tlb_of_def split: access_type.splits)
next
  case (tracer t m)
  show ?case by (auto simp: represents_def latest_def register_memtracer_def flush_tlb_def flush_icache_def tlb_of_def Let_def split: access_type.splits)
next
  case (fill m h e r m')
  show ?case by (rule represents_step [OF fill.IH fill.hyps(4,3)])
next
  case (triggers m h f l s)
  then show ?case unfolding represents_def tlb_of_config by blast
next
  case (logging m h l)
  then show ?case unfolding represents_def tlb_of_config by blast
qed

lemma tlb_run_translated: "tlb_run m h \<Longrightarrow> e \<in> set h \<Longrightarrow> translated e"
  by (induction rule: tlb_run.induct) auto

lemma latest_SomeD: "latest type i h = Some e \<Longrightarrow> e \<in> set h \<and> f_type e = type \<and> slot (f_va e) = i \<and> cached e"
  unfolding latest_def by (auto simp: find_Some_iff)

section \<open>Hits\<close>

definition only_flags :: "reg_t \<Rightarrow> bool" where
  "only_flags f \<longleftrightarrow> f AND NOT TLB_FLAGS = 0"

lemma only_flags_bit: "only_flags f \<Longrightarrow> bit f n \<Longrightarrow> 61 \<le> n"
proof (rule ccontr)
  assume "only_flags f" "bit f n" "\<not> 61 \<le> n"
  then have "bit (f AND NOT TLB_FLAGS) n" by (auto simp: bit_and_iff bit_not_iff bit_TLB_FLAGS dest: bit_imp_le_length)
  then show False using \<open>only_flags f\<close> by (simp add: only_flags_def)
qed

lemma vpn: "va div of_nat PGSIZE = drop_bit PGSHIFT va" "va mod of_nat PGSIZE = take_bit 12 va" for va :: reg_t
  by (simp_all add: PGSIZE_def PGSHIFT_def drop_bit_eq_div take_bit_eq_mod)

lemma bit_vpn: "bit (drop_bit PGSHIFT (va :: reg_t)) n \<Longrightarrow> n < 52"
  by (auto simp: bit_drop_bit_eq PGSHIFT_def dest: bit_imp_le_length)

lemma hit_tag:
  assumes "only_flags allowed" "only_flags required" "tg AND (NOT allowed OR required) = drop_bit PGSHIFT va OR required" "n < 61"
  shows "bit tg n \<longleftrightarrow> bit (drop_bit PGSHIFT va) n"
proof -
  have z: "\<not> bit allowed n" "\<not> bit required n" using only_flags_bit assms(1,2,4) by (meson not_le)+
  have "bit (tg AND (NOT allowed OR required)) n \<longleftrightarrow> bit tg n" using z assms(4) by (simp add: bit_and_iff bit_or_iff bit_not_iff)
  moreover have "bit (drop_bit PGSHIFT va OR required) n \<longleftrightarrow> bit (drop_bit PGSHIFT va) n" using z by (simp add: bit_or_iff)
  ultimately show ?thesis using assms(3) by simp
qed

lemma flushed_misses:
  assumes "only_flags allowed" "only_flags required"
  shows "tag flushed AND (NOT allowed OR required) \<noteq> drop_bit PGSHIFT va OR required"
  using hit_tag [OF assms, of "tag flushed" va 60] bit_vpn [of va 60] by (auto simp: flushed_def)

lemma held_hit_page:
  assumes "only_flags allowed" "only_flags required" "holds e ent"
    and "tag ent AND (NOT allowed OR required) = drop_bit PGSHIFT va OR required"
  shows "drop_bit PGSHIFT (f_va e) = drop_bit PGSHIFT va"
proof (rule bit_word_eqI)
  fix n assume "n < LENGTH(64)"
  from assms(3) obtain fl where t: "tag ent = drop_bit PGSHIFT (f_va e) OR fl" "\<And>n. bit fl n \<Longrightarrow> 61 \<le> n" by (auto simp: holds_def)
  show "bit (drop_bit PGSHIFT (f_va e)) n \<longleftrightarrow> bit (drop_bit PGSHIFT va) n"
  proof (cases "n < 61")
    case True
    then have "bit (tag ent) n \<longleftrightarrow> bit (drop_bit PGSHIFT (f_va e)) n" using t(2) [of n] by (auto simp: t(1) bit_or_iff)
    then show ?thesis using hit_tag [OF assms(1,2,4) True] by simp
  next
    case False
    then show ?thesis using bit_vpn [of "f_va e" n] bit_vpn [of va n] by auto
  qed
qed

lemma and_MMIO_bit: "x AND TLB_MMIO = 0 \<longleftrightarrow> \<not> bit x 61"
  using and_exp_eq_0_iff_not_bit [of x 61] by (simp add: TLB_MMIO_def)

lemma held_not_null:
  assumes "holds e ent" "allowed AND TLB_MMIO = 0" "required AND TLB_MMIO = 0"
    and "tag ent AND (NOT allowed OR required) = drop_bit PGSHIFT va OR required"
  shows "f_host e \<noteq> 0"
proof
  assume "f_host e = 0"
  then have "bit (tag ent) 61" using assms(1) by (auto simp: holds_def bit_or_iff)
  then have "bit (tag ent AND (NOT allowed OR required)) 61" using assms(2) by (simp add: and_MMIO_bit bit_and_iff bit_or_iff bit_not_iff)
  then show False unfolding assms(4) using assms(3) bit_vpn [of va 61] by (auto simp: and_MMIO_bit bit_or_iff)
qed

lemma held_hits:
  assumes "holds e ent" "drop_bit PGSHIFT (f_va e) = drop_bit PGSHIFT va"
  shows "tag ent AND (NOT TLB_FLAGS OR 0) = drop_bit PGSHIFT va OR 0"
proof (rule bit_word_eqI)
  fix n assume n: "n < LENGTH(64)"
  from assms(1) obtain fl where t: "tag ent = drop_bit PGSHIFT (f_va e) OR fl" "\<And>n. bit fl n \<Longrightarrow> 61 \<le> n" by (auto simp: holds_def)
  show "bit (tag ent AND (NOT TLB_FLAGS OR 0)) n \<longleftrightarrow> bit (drop_bit PGSHIFT va OR 0) n"
    using n t(2) [of n] bit_vpn [of va n] by (auto simp: t(1) assms(2) bit_and_iff bit_or_iff bit_not_iff bit_TLB_FLAGS)
qed

lemma page_rebase:
  fixes va pa x :: reg_t
  assumes "take_bit 12 pa = take_bit 12 x"
  shows "drop_bit 12 (pa - take_bit 12 x + take_bit 12 va) = drop_bit 12 pa" "take_bit 12 (pa - take_bit 12 x + take_bit 12 va) = take_bit 12 va"
proof -
  have "pa - take_bit 12 x = push_bit 12 (drop_bit 12 pa)"
    unfolding assms [symmetric] using bits_ident [of 12 pa] by (metis add_diff_cancel_right')
  moreover have "push_bit 12 (drop_bit 12 pa) + take_bit 12 va = push_bit 12 (drop_bit 12 pa) OR take_bit 12 va"
    by (rule disjunctive_add) (auto simp: bit_push_bit_iff bit_take_bit_iff)
  ultimately have e: "pa - take_bit 12 x + take_bit 12 va = push_bit 12 (drop_bit 12 pa) OR take_bit 12 va" by simp
  show "drop_bit 12 (pa - take_bit 12 x + take_bit 12 va) = drop_bit 12 pa"
    unfolding e by (rule bit_word_eqI) (auto simp: bit_drop_bit_eq bit_or_iff bit_push_bit_iff bit_take_bit_iff dest: bit_imp_le_length)
  show "take_bit 12 (pa - take_bit 12 x + take_bit 12 va) = take_bit 12 va"
    unfolding e by (rule bit_word_eqI) (auto simp: bit_or_iff bit_push_bit_iff bit_take_bit_iff)
qed

text \<open>What a successful translation guarantees of the fill.\<close>

lemma translated_fill:
  assumes "translated e"
  shows "take_bit 12 (f_pa e) = take_bit 12 (f_va e)"
    and "cached e \<Longrightarrow> pmp_ok (pmp (f_proc e)) (f_pa e) (f_len e) (f_type e) (prv (f_proc e)) False"
proof -
  from assms obtain info b b' where i: "generate_access_info (f_proc e) (f_va e) (f_type e) no_flags = Some info"
    "translate (f_proc e) info (f_len e) b = (Inr (f_pa e), b')" by (auto simp: translated_def)
  show "take_bit 12 (f_pa e) = take_bit 12 (f_va e)"
    using translate_offset [OF i(2)] access_info_offset [OF i(1)] assms by (simp add: translated_def)
  assume "cached e"
  then have "effective_mode (f_proc e) (f_type e) no_flags = (state_v (f_proc e), prv (f_proc e))"
    by (intro effective_mode_plain) (simp_all add: cached_def no_flags_def)
  then show "pmp_ok (pmp (f_proc e)) (f_pa e) (f_len e) (f_type e) (prv (f_proc e)) False"
    using translate_pmp [OF i(2)] access_info_sel [OF i(1)] by (simp add: no_flags_def)
qed

lemma intrapage_bounds:
  assumes "intrapage x len" "drop_bit 12 x = drop_bit 12 y"
  shows "unat (page_base y) \<le> unat x" "unat x + unat len \<le> unat (page_base y) + 2 ^ 12" "0 < unat len"
proof -
  have d: "unat x div 2 ^ 12 = unat y div 2 ^ 12" using arg_cong [OF assms(2), of unat] by (simp only: unat_drop_bit_div)
  have "unat (of_nat PGSIZE - 1 :: reg_t) + 1 = 2 ^ 12" by (simp add: PGSIZE_def)
  then have b: "unat (page_base y) = unat y - unat y mod 2 ^ 12" unfolding page_base_def by (rule unat_and_not_mask)
  have x: "unat x = unat y div 2 ^ 12 * 2 ^ 12 + unat x mod 2 ^ 12" unfolding d [symmetric] by simp
  have "unat (page_base y) = unat y div 2 ^ 12 * 2 ^ 12" unfolding b by (simp add: minus_mod_eq_div_mult)
  then show "unat (page_base y) \<le> unat x" "unat x + unat len \<le> unat (page_base y) + 2 ^ 12" "0 < unat len"
    using x assms(1) by (simp_all add: intrapage_def PGSIZE_def)
qed

lemma intrapage_offset: "take_bit 12 x = take_bit 12 y \<Longrightarrow> intrapage x len \<longleftrightarrow> intrapage y len"
proof -
  assume t: "take_bit 12 x = take_bit 12 y"
  have "unat x mod 2 ^ 12 = unat y mod 2 ^ 12"
    using arg_cong [OF t, of unat] by (simp add: take_bit_eq_mod unat_mod)
  then show ?thesis by (simp add: intrapage_def PGSIZE_def)
qed

text \<open>The decision of the protection unit for a kept fill covers its whole page.\<close>

lemma cached_page_pmp:
  assumes "translated e" "cached e" "drop_bit 12 a = drop_bit 12 (f_pa e)" "intrapage a len"
  shows "pmp_ok (pmp (f_proc e)) a len (f_type e) (prv (f_proc e)) False"
proof -
  have "(of_nat PGSIZE :: reg_t) = 2 ^ 12" by (simp add: PGSIZE_def)
  then have hom: "pmp_homogeneous (pmp (f_proc e)) (page_base (f_pa e)) (2 ^ 12) = Some True" using assms(2) by (simp add: cached_def)
  have "intrapage (f_pa e) (f_len e)"
    using assms(1) intrapage_offset [OF translated_fill(1) [OF assms(1)]] by (simp add: translated_def)
  from pmp_ok_page [OF hom _ intrapage_bounds [OF assms(4,3)] intrapage_bounds [OF this refl], of "f_type e" "prv (f_proc e)" False]
  show ?thesis using translated_fill(2) [OF assms(1,2)] by simp
qed

text \<open>C11. The translation lookaside buffers are a faithful cache of the translation: a lookup hits only when the latest fill that was kept in the slot since the
  last flush is for the same kind of access and the same page; it returns that fill's physical page with the offset of the address (and, when memory-mapped
  devices are not admitted, the host address of a page of memory), and the physical memory protection that was in force allows every access within the
  page. Without restriction on the flags, such a fill always hits.\<close>

theorem tlb_hit_sound:
  assumes "tlb_run m h" and "only_flags allowed" "only_flags required"
    and "access_tlb (tlb_of m type) va allowed required = (hit, host, pa)"
  shows "(hit \<longrightarrow> (\<exists>e. latest type (slot va) h = Some e \<and> drop_bit 12 (f_va e) = drop_bit 12 va \<and>
        drop_bit 12 pa = drop_bit 12 (f_pa e) \<and> take_bit 12 pa = take_bit 12 va \<and>
        (allowed AND TLB_MMIO = 0 \<longrightarrow> host = f_host e - take_bit 12 (f_va e) + take_bit 12 va) \<and>
        (allowed AND TLB_MMIO = 0 \<and> required AND TLB_MMIO = 0 \<longrightarrow> f_host e \<noteq> 0) \<and>
        (\<forall>len. intrapage va len \<longrightarrow> pmp_ok (pmp (f_proc e)) pa len type (prv (f_proc e)) False))) \<and>
    (allowed = TLB_FLAGS \<and> required = 0 \<longrightarrow>
       (hit \<longleftrightarrow> (\<exists>e. latest type (slot va) h = Some e \<and> drop_bit 12 (f_va e) = drop_bit 12 va)))"
proof -
  let ?ent = "tlb_of m type (slot va)"
  note rep = tlb_run_represents [OF assms(1), unfolded represents_def, rule_format, of type "slot va"]
  note acc = assms(4) [unfolded access_tlb_def Let_def vpn slot_def [symmetric] prod.inject]
  have hit: "hit \<longleftrightarrow> tag ?ent AND (NOT allowed OR required) = drop_bit PGSHIFT va OR required" using acc by simp
  have sound: "\<exists>e. latest type (slot va) h = Some e \<and> holds e ?ent \<and> drop_bit 12 (f_va e) = drop_bit 12 va" if "hit"
    using that rep flushed_misses [OF assms(2,3), of va] held_hit_page [OF assms(2,3), of _ ?ent va]
    by (cases "latest type (slot va) h") (auto simp: hit PGSHIFT_def)
  have complete: "hit" if "latest type (slot va) h = Some e" "drop_bit 12 (f_va e) = drop_bit 12 va" "allowed = TLB_FLAGS" "required = 0" for e
    using rep that held_hits [of e ?ent va] by (simp add: hit PGSHIFT_def)
  have "drop_bit 12 pa = drop_bit 12 (f_pa e) \<and> take_bit 12 pa = take_bit 12 va \<and>
        (allowed AND TLB_MMIO = 0 \<longrightarrow> host = f_host e - take_bit 12 (f_va e) + take_bit 12 va) \<and>
        (allowed AND TLB_MMIO = 0 \<and> required AND TLB_MMIO = 0 \<longrightarrow> f_host e \<noteq> 0) \<and>
        (\<forall>len. intrapage va len \<longrightarrow> pmp_ok (pmp (f_proc e)) pa len type (prv (f_proc e)) False)"
    if h: "hit" and e: "latest type (slot va) h = Some e" "holds e ?ent" "drop_bit 12 (f_va e) = drop_bit 12 va" for e
  proof -
    note l = latest_SomeD [OF e(1)]
    have tr: "translated e" using tlb_run_translated [OF assms(1)] l by blast
    have pa: "pa = f_pa e - take_bit 12 (f_va e) + take_bit 12 va" using acc e(2) by (simp add: holds_def vpn)
    note pg = page_rebase [OF translated_fill(1) [OF tr], of va, folded pa]
    have "allowed AND TLB_MMIO = 0 \<longrightarrow> host = f_host e - take_bit 12 (f_va e) + take_bit 12 va"
    proof
      assume "allowed AND TLB_MMIO = 0"
      then have "allowed AND TLB_MMIO AND t = 0" for t unfolding and.assoc [symmetric] by simp
      then show "host = f_host e - take_bit 12 (f_va e) + take_bit 12 va" using acc e(2) by (simp add: holds_def vpn)
    qed
    moreover have "f_host e \<noteq> 0" if "allowed AND TLB_MMIO = 0" "required AND TLB_MMIO = 0"
      using held_not_null [OF e(2) that] h hit by blast
    moreover have "pmp_ok (pmp (f_proc e)) pa len type (prv (f_proc e)) False" if "intrapage va len" for len
      using cached_page_pmp [OF tr _ pg(1), of len] l that intrapage_offset [OF pg(2)] by auto
    ultimately show ?thesis using pg by blast
  qed
  then show ?thesis using sound complete by blast
qed

section \<open>An example\<close>

definition example_tlbs :: mmu_tlbs where
  "example_tlbs = flush_tlb \<lparr>tlb_insn = (\<lambda>_. flushed), tlb_load = (\<lambda>_. flushed), tlb_store = (\<lambda>_. flushed), icache_tag = (\<lambda>_. - 1), check_triggers_fetch = False,
     check_triggers_load = False, check_triggers_store = False, tracers = [], log_commits = False\<rparr>"

definition example_fill :: fill where
  "example_fill = \<lparr>f_proc = example_proc, f_type = LOAD, f_va = 0x80001230, f_len = 8, f_pa = 0x80001230, f_host = 0x7f0000001230, f_logging = False\<rparr>"

definition example_refilled :: mmu_tlbs where
  "example_refilled = snd (the (refill_tlb (f_proc example_fill) (f_va example_fill) (f_pa example_fill) (f_host example_fill) (f_type example_fill) example_tlbs))"

lemma example_fill_translated: "translated example_fill"
proof -
  have "generate_access_info example_proc 0x80001230 LOAD no_flags = Some example_access" by code_simp
  moreover obtain b' where "translate example_proc example_access 8 example_paged_bus = (Inr 0x80001230, b')"
    using example_translate by (metis prod.collapse)
  ultimately show ?thesis unfolding translated_def intrapage_def
    by (auto simp: example_fill_def PGSIZE_def example_proc_def [THEN arg_cong, of const_xlen])
qed

lemma example_run: "tlb_run example_refilled [example_fill]"
proof -
  have "\<not> Option.is_none (refill_tlb (f_proc example_fill) (f_va example_fill) (f_pa example_fill) (f_host example_fill) (f_type example_fill) example_tlbs)"
    by code_simp
  then obtain r where "refill_tlb (f_proc example_fill) (f_va example_fill) (f_pa example_fill) (f_host example_fill) (f_type example_fill) example_tlbs =
      Some (r, example_refilled)" by (auto simp: example_refilled_def Option.is_none_def)
  moreover have "tlb_run example_tlbs []" unfolding example_tlbs_def by (rule tlb_run.flush)
  moreover have "f_logging example_fill = log_commits example_tlbs" by (simp add: example_fill_def example_tlbs_def flush_tlb_def flush_icache_def)
  ultimately show ?thesis using example_fill_translated tlb_run.fill by blast
qed

theorem tlb_hit_sound_witness:
  "access_tlb (tlb_of example_refilled LOAD) 0x80001ff8 0 0 = (True, 0x7f0000001ff8, 0x80001ff8) \<and>
   (\<exists>e. latest LOAD (slot 0x80001ff8) [example_fill] = Some e \<and> drop_bit 12 (f_va e) = drop_bit 12 0x80001ff8 \<and> f_host e \<noteq> 0 \<and>
      (\<forall>len. intrapage 0x80001ff8 len \<longrightarrow> pmp_ok (pmp (f_proc e)) 0x80001ff8 len LOAD (prv (f_proc e)) False))"
proof -
  have a: "access_tlb (tlb_of example_refilled LOAD) 0x80001ff8 0 0 = (True, 0x7f0000001ff8, 0x80001ff8)" by code_simp
  have f: "only_flags 0" by (simp add: only_flags_def)
  show ?thesis using tlb_hit_sound [OF example_run f f a, THEN conjunct1] a by auto
qed

end
