(* ===== verification/Insn_Decode.thy ===== *)
theory Insn_Decode
  imports MMU
begin

text \<open>
  Instruction words (\<^verbatim>\<open>riscv/decode.h\<close>, class \<open>insn_t\<close>): the fields and immediates of 32-bit and compressed instructions, the register lists of the
  push and pop instructions, the register file, and the encoders with which the debug module writes its programs (\<^verbatim>\<open>riscv/opcodes.h\<close>).
\<close>

unbundle bit_operations_syntax

type_synonym insn_bits_t = "64 word"

section \<open>Fields\<close>

definition insn_x :: "nat \<Rightarrow> nat \<Rightarrow> insn_bits_t \<Rightarrow> uint64_t" where
  "insn_x lo len b = drop_bit lo b AND (push_bit len 1 - 1)"

definition insn_xs :: "nat \<Rightarrow> nat \<Rightarrow> insn_bits_t \<Rightarrow> uint64_t" where
  "insn_xs lo len b = signed_drop_bit (64 - len) (push_bit (64 - lo - len) b)"

definition imm_sign :: "insn_bits_t \<Rightarrow> uint64_t" where
  "imm_sign b = insn_xs 31 1 b"

definition insn_length :: "insn_bits_t \<Rightarrow> nat" where
  "insn_length b = (if b AND 0x03 < 0x03 then 2 else if b AND 0x1f < 0x1f then 4 else if b AND 0x3f < 0x3f then 6 else 8)"

definition opcode :: "insn_bits_t \<Rightarrow> uint64_t" where
  "opcode b = insn_x 0 7 b"

definition funct7 :: "insn_bits_t \<Rightarrow> uint64_t" where
  "funct7 b = insn_x 25 7 b"

definition funct3 :: "insn_bits_t \<Rightarrow> uint64_t" where
  "funct3 b = insn_x 12 3 b"

definition funct2 :: "insn_bits_t \<Rightarrow> uint64_t" where
  "funct2 b = insn_x 25 2 b"

definition i_imm :: "insn_bits_t \<Rightarrow> uint64_t" where
  "i_imm b = insn_xs 20 12 b"

definition shamt :: "insn_bits_t \<Rightarrow> uint64_t" where
  "shamt b = insn_x 20 6 b"

definition s_imm :: "insn_bits_t \<Rightarrow> uint64_t" where
  "s_imm b = insn_x 7 5 b + push_bit 5 (insn_xs 25 7 b)"

definition sb_imm :: "insn_bits_t \<Rightarrow> uint64_t" where
  "sb_imm b = push_bit 1 (insn_x 8 4 b) + push_bit 5 (insn_x 25 6 b) + push_bit 11 (insn_x 7 1 b) + push_bit 12 (imm_sign b)"

definition u_imm :: "insn_bits_t \<Rightarrow> uint64_t" where
  "u_imm b = push_bit 12 (insn_xs 12 20 b)"

definition uj_imm :: "insn_bits_t \<Rightarrow> uint64_t" where
  "uj_imm b = push_bit 1 (insn_x 21 10 b) + push_bit 11 (insn_x 20 1 b) + push_bit 12 (insn_x 12 8 b) + push_bit 20 (imm_sign b)"

definition insn_rd :: "insn_bits_t \<Rightarrow> uint64_t" where
  "insn_rd b = insn_x 7 5 b"

definition insn_rs1 :: "insn_bits_t \<Rightarrow> uint64_t" where
  "insn_rs1 b = insn_x 15 5 b"

definition insn_rs2 :: "insn_bits_t \<Rightarrow> uint64_t" where
  "insn_rs2 b = insn_x 20 5 b"

definition insn_rs3 :: "insn_bits_t \<Rightarrow> uint64_t" where
  "insn_rs3 b = insn_x 27 5 b"

definition insn_rm :: "insn_bits_t \<Rightarrow> uint64_t" where
  "insn_rm b = insn_x 12 3 b"

definition insn_csr :: "insn_bits_t \<Rightarrow> uint64_t" where
  "insn_csr b = insn_x 20 12 b"

definition rvc_imm :: "insn_bits_t \<Rightarrow> uint64_t" where
  "rvc_imm b = insn_x 2 5 b + push_bit 5 (insn_xs 12 1 b)"

definition rvc_zimm :: "insn_bits_t \<Rightarrow> uint64_t" where
  "rvc_zimm b = insn_x 2 5 b + push_bit 5 (insn_x 12 1 b)"

definition rvc_addi4spn_imm :: "insn_bits_t \<Rightarrow> uint64_t" where
  "rvc_addi4spn_imm b = push_bit 2 (insn_x 6 1 b) + push_bit 3 (insn_x 5 1 b) + push_bit 4 (insn_x 11 2 b) + push_bit 6 (insn_x 7 4 b)"

definition rvc_addi16sp_imm :: "insn_bits_t \<Rightarrow> uint64_t" where
  "rvc_addi16sp_imm b = push_bit 4 (insn_x 6 1 b) + push_bit 5 (insn_x 2 1 b) + push_bit 6 (insn_x 5 1 b) + push_bit 7 (insn_x 3 2 b) + push_bit 9 (insn_xs 12 1 b)"

definition rvc_lwsp_imm :: "insn_bits_t \<Rightarrow> uint64_t" where
  "rvc_lwsp_imm b = push_bit 2 (insn_x 4 3 b) + push_bit 5 (insn_x 12 1 b) + push_bit 6 (insn_x 2 2 b)"

definition rvc_ldsp_imm :: "insn_bits_t \<Rightarrow> uint64_t" where
  "rvc_ldsp_imm b = push_bit 3 (insn_x 5 2 b) + push_bit 5 (insn_x 12 1 b) + push_bit 6 (insn_x 2 3 b)"

definition rvc_swsp_imm :: "insn_bits_t \<Rightarrow> uint64_t" where
  "rvc_swsp_imm b = push_bit 2 (insn_x 9 4 b) + push_bit 6 (insn_x 7 2 b)"

definition rvc_sdsp_imm :: "insn_bits_t \<Rightarrow> uint64_t" where
  "rvc_sdsp_imm b = push_bit 3 (insn_x 10 3 b) + push_bit 6 (insn_x 7 3 b)"

definition rvc_lw_imm :: "insn_bits_t \<Rightarrow> uint64_t" where
  "rvc_lw_imm b = push_bit 2 (insn_x 6 1 b) + push_bit 3 (insn_x 10 3 b) + push_bit 6 (insn_x 5 1 b)"

definition rvc_ld_imm :: "insn_bits_t \<Rightarrow> uint64_t" where
  "rvc_ld_imm b = push_bit 3 (insn_x 10 3 b) + push_bit 6 (insn_x 5 2 b)"

definition rvc_j_imm :: "insn_bits_t \<Rightarrow> uint64_t" where
  "rvc_j_imm b = push_bit 1 (insn_x 3 3 b) + push_bit 4 (insn_x 11 1 b) + push_bit 5 (insn_x 2 1 b) + push_bit 6 (insn_x 7 1 b) + push_bit 7 (insn_x 6 1 b) + push_bit 8 (insn_x 9 2 b) +
     push_bit 10 (insn_x 8 1 b) + push_bit 11 (insn_xs 12 1 b)"

definition rvc_b_imm :: "insn_bits_t \<Rightarrow> uint64_t" where
  "rvc_b_imm b = push_bit 1 (insn_x 3 2 b) + push_bit 3 (insn_x 10 2 b) + push_bit 5 (insn_x 2 1 b) + push_bit 6 (insn_x 5 2 b) + push_bit 8 (insn_xs 12 1 b)"

definition rvc_rd :: "insn_bits_t \<Rightarrow> uint64_t" where
  "rvc_rd b = insn_rd b"

definition rvc_rs1 :: "insn_bits_t \<Rightarrow> uint64_t" where
  "rvc_rs1 b = insn_rd b"

definition rvc_rs2 :: "insn_bits_t \<Rightarrow> uint64_t" where
  "rvc_rs2 b = insn_x 2 5 b"

definition rvc_rs1s :: "insn_bits_t \<Rightarrow> uint64_t" where
  "rvc_rs1s b = 8 + insn_x 7 3 b"

definition rvc_rs2s :: "insn_bits_t \<Rightarrow> uint64_t" where
  "rvc_rs2s b = 8 + insn_x 2 3 b"

definition rvc_r1sc :: "insn_bits_t \<Rightarrow> uint64_t" where
  "rvc_r1sc b = insn_x 7 3 b"

definition rvc_r2sc :: "insn_bits_t \<Rightarrow> uint64_t" where
  "rvc_r2sc b = insn_x 2 3 b"

definition rvc_rlist :: "insn_bits_t \<Rightarrow> uint64_t" where
  "rvc_rlist b = insn_x 4 4 b"

definition rvc_spimm :: "insn_bits_t \<Rightarrow> uint64_t" where
  "rvc_spimm b = push_bit 4 (insn_x 2 2 b)"

definition rvc_index :: "insn_bits_t \<Rightarrow> uint64_t" where
  "rvc_index b = insn_x 2 8 b"

section \<open>Register lists of push and pop\<close>

definition X_RA :: uint64_t where "X_RA = 1"
definition X_SP :: uint64_t where "X_SP = 2"
definition X_S0 :: uint64_t where "X_S0 = 8"
definition X_Sn :: uint64_t where "X_Sn = 16"

definition Sn :: "uint64_t \<Rightarrow> uint64_t" where
  "Sn n = (if n < 2 then X_S0 + n else X_Sn + n)"

definition zcmp_regmask :: "insn_bits_t \<Rightarrow> uint32_t" where
  "zcmp_regmask b =
     (let rlist = rvc_rlist b;
          mask0 = (if 4 \<le> rlist then push_bit (unat X_RA) 1 else 0);
          mask1 = fold (\<lambda>i m. m OR push_bit (unat (Sn (of_nat i - 5))) 1) [5..<Suc (unat rlist)] mask0
      in if rlist = 15 then mask1 OR push_bit (unat (Sn 11)) 1 else mask1)"

text \<open>The cases of the switch fall through, so a list gets the sum of its own increment and of those below it.\<close>

definition zcmp_stack_adjustment :: "nat \<Rightarrow> insn_bits_t \<Rightarrow> uint64_t" where
  "zcmp_stack_adjustment xl b =
     (let rlist = rvc_rlist b;
          a = (\<lambda>c n :: uint64_t. if c then n else 0)
      in a (rlist = 15) 16 + a (14 \<le> rlist \<and> xl = 64) 16 + a (12 \<le> rlist) 16 + a (10 \<le> rlist \<and> xl = 64) 16 + a (8 \<le> rlist) 16 +
         a (6 \<le> rlist \<and> xl = 64) 16 + a (4 \<le> rlist) 16 + rvc_spimm b)"

section \<open>Register file\<close>

type_synonym regfile = "uint64_t \<Rightarrow> reg_t"

definition regfile_write :: "uint64_t \<Rightarrow> reg_t \<Rightarrow> regfile \<Rightarrow> regfile" where
  "regfile_write i v r = (if i \<noteq> 0 then r(i := v) else r)"

definition regfile_reset :: regfile where
  "regfile_reset = (\<lambda>_. 0)"

section \<open>Encoders\<close>

definition MATCH_ADDI :: uint32_t where "MATCH_ADDI = 0x13"
definition MATCH_CSRRS :: uint32_t where "MATCH_CSRRS = 0x2073"
definition MATCH_CSRRSI :: uint32_t where "MATCH_CSRRSI = 0x6073"
definition MATCH_CSRRW :: uint32_t where "MATCH_CSRRW = 0x1073"
definition MATCH_DRET :: uint32_t where "MATCH_DRET = 0x7b200073"
definition MATCH_EBREAK :: uint32_t where "MATCH_EBREAK = 0x100073"
definition MATCH_C_EBREAK :: uint32_t where "MATCH_C_EBREAK = 0x9002"
definition MATCH_FENCE_I :: uint32_t where "MATCH_FENCE_I = 0x100f"
definition MATCH_FLD :: uint32_t where "MATCH_FLD = 0x3007"
definition MATCH_FLW :: uint32_t where "MATCH_FLW = 0x2007"
definition MATCH_FSD :: uint32_t where "MATCH_FSD = 0x3027"
definition MATCH_FSW :: uint32_t where "MATCH_FSW = 0x2027"
definition MATCH_JAL :: uint32_t where "MATCH_JAL = 0x6f"
definition MATCH_LB :: uint32_t where "MATCH_LB = 0x3"
definition MATCH_LD :: uint32_t where "MATCH_LD = 0x3003"
definition MATCH_LH :: uint32_t where "MATCH_LH = 0x1003"
definition MATCH_LUI :: uint32_t where "MATCH_LUI = 0x37"
definition MATCH_LW :: uint32_t where "MATCH_LW = 0x2003"
definition MATCH_SB :: uint32_t where "MATCH_SB = 0x23"
definition MATCH_SD :: uint32_t where "MATCH_SD = 0x3023"
definition MATCH_SH :: uint32_t where "MATCH_SH = 0x1023"
definition MATCH_SRLI :: uint32_t where "MATCH_SRLI = 0x5013"
definition MATCH_SW :: uint32_t where "MATCH_SW = 0x2023"
definition MATCH_XORI :: uint32_t where "MATCH_XORI = 0x4013"

definition opc_bits :: "uint32_t \<Rightarrow> nat \<Rightarrow> nat \<Rightarrow> uint32_t" where
  "opc_bits value hi lo = drop_bit lo value AND (push_bit (hi + 1 - lo) 1 - 1)"

definition opc_bit :: "uint32_t \<Rightarrow> nat \<Rightarrow> uint32_t" where
  "opc_bit value n = drop_bit n value AND 1"

definition enc_jal :: "uint32_t \<Rightarrow> uint32_t \<Rightarrow> uint32_t" where
  "enc_jal rd imm = push_bit 31 (opc_bit imm 20) OR push_bit 21 (opc_bits imm 10 1) OR push_bit 20 (opc_bit imm 11) OR
     push_bit 12 (opc_bits imm 19 12) OR push_bit 7 rd OR MATCH_JAL"

definition enc_csrsi :: "uint32_t \<Rightarrow> uint16_t \<Rightarrow> uint32_t" where
  "enc_csrsi csr imm = push_bit 20 csr OR push_bit 15 (opc_bits (ucast imm) 4 0) OR MATCH_CSRRSI"

definition enc_sw :: "uint32_t \<Rightarrow> uint32_t \<Rightarrow> uint16_t \<Rightarrow> uint32_t" where
  "enc_sw src base offset = push_bit 25 (opc_bits (ucast offset) 11 5) OR push_bit 20 src OR push_bit 15 base OR
     push_bit 7 (opc_bits (ucast offset) 4 0) OR MATCH_SW"

definition enc_sd :: "uint32_t \<Rightarrow> uint32_t \<Rightarrow> uint16_t \<Rightarrow> uint32_t" where
  "enc_sd src base offset = push_bit 25 (opc_bits (ucast offset) 11 5) OR push_bit 20 src OR push_bit 15 base OR
     push_bit 7 (opc_bits (ucast offset) 4 0) OR MATCH_SD"

definition enc_sh :: "uint32_t \<Rightarrow> uint32_t \<Rightarrow> uint16_t \<Rightarrow> uint32_t" where
  "enc_sh src base offset = push_bit 25 (opc_bits (ucast offset) 11 5) OR push_bit 20 src OR push_bit 15 base OR
     push_bit 7 (opc_bits (ucast offset) 4 0) OR MATCH_SH"

definition enc_sb :: "uint32_t \<Rightarrow> uint32_t \<Rightarrow> uint16_t \<Rightarrow> uint32_t" where
  "enc_sb src base offset = push_bit 25 (opc_bits (ucast offset) 11 5) OR push_bit 20 src OR push_bit 15 base OR
     push_bit 7 (opc_bits (ucast offset) 4 0) OR MATCH_SB"

definition enc_ld :: "uint32_t \<Rightarrow> uint32_t \<Rightarrow> uint16_t \<Rightarrow> uint32_t" where
  "enc_ld dest base imm = push_bit 20 (opc_bits (ucast imm) 11 0) OR push_bit 15 base OR push_bit 7 (opc_bits dest 4 0) OR MATCH_LD"

definition enc_lw :: "uint32_t \<Rightarrow> uint32_t \<Rightarrow> uint16_t \<Rightarrow> uint32_t" where
  "enc_lw dest base imm = push_bit 20 (opc_bits (ucast imm) 11 0) OR push_bit 15 base OR push_bit 7 (opc_bits dest 4 0) OR MATCH_LW"

definition enc_lh :: "uint32_t \<Rightarrow> uint32_t \<Rightarrow> uint16_t \<Rightarrow> uint32_t" where
  "enc_lh dest base imm = push_bit 20 (opc_bits (ucast imm) 11 0) OR push_bit 15 base OR push_bit 7 (opc_bits dest 4 0) OR MATCH_LH"

definition enc_lb :: "uint32_t \<Rightarrow> uint32_t \<Rightarrow> uint16_t \<Rightarrow> uint32_t" where
  "enc_lb dest base imm = push_bit 20 (opc_bits (ucast imm) 11 0) OR push_bit 15 base OR push_bit 7 (opc_bits dest 4 0) OR MATCH_LB"

definition enc_csrw :: "uint32_t \<Rightarrow> uint32_t \<Rightarrow> uint32_t" where
  "enc_csrw src csr = push_bit 20 csr OR push_bit 15 src OR MATCH_CSRRW"

definition enc_addi :: "uint32_t \<Rightarrow> uint32_t \<Rightarrow> uint16_t \<Rightarrow> uint32_t" where
  "enc_addi dest base imm = push_bit 20 (opc_bits (ucast imm) 11 0) OR push_bit 15 base OR push_bit 7 dest OR MATCH_ADDI"

definition enc_csrr :: "uint32_t \<Rightarrow> uint32_t \<Rightarrow> uint32_t" where
  "enc_csrr rd csr = push_bit 20 csr OR push_bit 7 rd OR MATCH_CSRRS"

definition enc_csrrs :: "uint32_t \<Rightarrow> uint32_t \<Rightarrow> uint32_t \<Rightarrow> uint32_t" where
  "enc_csrrs rd rs1 csr = push_bit 20 csr OR push_bit 15 rs1 OR push_bit 7 rd OR MATCH_CSRRS"

definition enc_fsw :: "uint32_t \<Rightarrow> uint32_t \<Rightarrow> uint16_t \<Rightarrow> uint32_t" where
  "enc_fsw src base offset = push_bit 25 (opc_bits (ucast offset) 11 5) OR push_bit 20 (opc_bits src 4 0) OR push_bit 15 base OR
     push_bit 7 (opc_bits (ucast offset) 4 0) OR MATCH_FSW"

definition enc_fsd :: "uint32_t \<Rightarrow> uint32_t \<Rightarrow> uint16_t \<Rightarrow> uint32_t" where
  "enc_fsd src base offset = push_bit 25 (opc_bits (ucast offset) 11 5) OR push_bit 20 (opc_bits src 4 0) OR push_bit 15 base OR
     push_bit 7 (opc_bits (ucast offset) 4 0) OR MATCH_FSD"

definition enc_flw :: "uint32_t \<Rightarrow> uint32_t \<Rightarrow> uint16_t \<Rightarrow> uint32_t" where
  "enc_flw dest base imm = push_bit 20 (opc_bits (ucast imm) 11 0) OR push_bit 15 base OR push_bit 7 (opc_bits dest 4 0) OR MATCH_FLW"

definition enc_fld :: "uint32_t \<Rightarrow> uint32_t \<Rightarrow> uint16_t \<Rightarrow> uint32_t" where
  "enc_fld dest base imm = push_bit 20 (opc_bits (ucast imm) 11 0) OR push_bit 15 base OR push_bit 7 (opc_bits dest 4 0) OR MATCH_FLD"

definition enc_ebreak :: uint32_t where "enc_ebreak = MATCH_EBREAK"
definition enc_dret :: uint32_t where "enc_dret = MATCH_DRET"
definition enc_fence_i :: uint32_t where "enc_fence_i = MATCH_FENCE_I"
definition enc_ebreak_c :: uint32_t where "enc_ebreak_c = MATCH_C_EBREAK"

definition enc_lui :: "uint32_t \<Rightarrow> uint32_t \<Rightarrow> uint32_t" where
  "enc_lui dest imm = push_bit 12 (opc_bits imm 19 0) OR push_bit 7 dest OR MATCH_LUI"

definition enc_xori :: "uint32_t \<Rightarrow> uint32_t \<Rightarrow> uint16_t \<Rightarrow> uint32_t" where
  "enc_xori dest base imm = push_bit 20 (opc_bits (ucast imm) 11 0) OR push_bit 15 base OR push_bit 7 dest OR MATCH_XORI"

definition enc_srli :: "uint32_t \<Rightarrow> uint32_t \<Rightarrow> uint8_t \<Rightarrow> uint32_t" where
  "enc_srli dest src shift = push_bit 20 (opc_bits (ucast shift) 4 0) OR push_bit 15 src OR push_bit 7 dest OR MATCH_SRLI"

section \<open>Bits of fields and immediates\<close>

named_theorems field_bits

lemma bit_insn_x [field_bits]: "len \<le> 64 \<Longrightarrow> bit (insn_x lo len b) n \<longleftrightarrow> n < len \<and> bit b (lo + n)"
  unfolding insn_x_def push_bit_1_minus_1 by (auto simp: bit_and_iff bit_mask_iff bit_drop_bit_eq)

lemma bit_insn_xs [field_bits]: "0 < len \<Longrightarrow> lo + len \<le> 64 \<Longrightarrow> bit (insn_xs lo len b) n \<longleftrightarrow> n < 64 \<and> bit b (lo + min n (len - 1))"
  unfolding insn_xs_def by (cases "n < len") (auto simp: bit_signed_drop_bit_iff bit_push_bit_iff min_def add.commute)

lemma bit_imm_sign [field_bits]: "bit (imm_sign b) n \<longleftrightarrow> n < 64 \<and> bit b 31"
  by (simp add: imm_sign_def bit_insn_xs)

lemma bit_opc_bits [field_bits]: "hi < 32 \<Longrightarrow> bit (opc_bits v hi lo) n \<longleftrightarrow> n < hi + 1 - lo \<and> bit v (lo + n)"
proof -
  assume "hi < 32"
  have "(push_bit k 1 - 1 :: uint32_t) = mask k" for k by (simp add: mask_eq_exp_minus_1)
  then show ?thesis using \<open>hi < 32\<close> unfolding opc_bits_def by (auto simp: bit_and_iff bit_mask_iff bit_drop_bit_eq)
qed

lemma bit_opc_bit [field_bits]: "bit (opc_bit v k) n \<longleftrightarrow> n = 0 \<and> bit v k"
  unfolding opc_bit_def by (auto simp: bit_and_iff bit_drop_bit_eq bit_1_iff)

lemma bit_i_imm: "bit (i_imm b) n \<longleftrightarrow> n < 64 \<and> bit b (20 + min n 11)"
  by (simp add: i_imm_def field_bits)

lemma bit_s_imm: "bit (s_imm b) n \<longleftrightarrow> n < 64 \<and> bit b (if n < 5 then 7 + n else 20 + min n 11)"
proof -
  have "s_imm b = insn_x 7 5 b OR push_bit 5 (insn_xs 25 7 b)"
    unfolding s_imm_def by (rule disjunctive_add) (auto simp: field_bits bit_push_bit_iff)
  then show ?thesis by (cases "n < 5") (auto simp: field_bits bit_or_iff bit_push_bit_iff min_def)
qed

lemma bit_u_imm: "bit (u_imm b) n \<longleftrightarrow> n < 64 \<and> 12 \<le> n \<and> bit b (min n 31)"
  by (auto simp: u_imm_def field_bits bit_push_bit_iff min_def)

text \<open>Immediates are sums of fields at ascending places, each above all bits of the fields before it.\<close>

lemma bit_add_field:
  fixes a c :: uint64_t
  assumes "\<And>n. bit a n \<Longrightarrow> n < k"
  shows "bit (a + push_bit k c) n \<longleftrightarrow> bit a n \<or> n < 64 \<and> k \<le> n \<and> bit c (n - k)"
proof -
  have "a + push_bit k c = a OR push_bit k c" by (rule disjunctive_add) (use assms in \<open>force simp: bit_push_bit_iff\<close>)
  then show ?thesis by (auto simp: bit_or_iff bit_push_bit_iff)
qed

lemma bit_first_field: "bit (push_bit k c :: uint64_t) n \<longleftrightarrow> n < 64 \<and> k \<le> n \<and> bit c (n - k)"
  by (auto simp: bit_push_bit_iff)

text \<open>One more field: the bits of the sum, and the place above them.\<close>

lemma bit_next_x:
  assumes "\<And>n. bit a n \<longleftrightarrow> P n \<and> n < k" "0 < len" "k + len \<le> 64"
  shows "bit (a + push_bit k (insn_x lo len b)) n \<longleftrightarrow> (P n \<and> n < k \<or> k \<le> n \<and> bit b (lo + (n - k))) \<and> n < k + len"
proof -
  have "bit (a + push_bit k (insn_x lo len b)) n \<longleftrightarrow> bit a n \<or> n < 64 \<and> k \<le> n \<and> bit (insn_x lo len b) (n - k)"
    by (rule bit_add_field) (simp add: assms(1))
  also have "\<dots> \<longleftrightarrow> P n \<and> n < k \<or> n < 64 \<and> k \<le> n \<and> n - k < len \<and> bit b (lo + (n - k))"
    using assms(3) by (simp only: assms(1) bit_insn_x [of len])
  also have "\<dots> \<longleftrightarrow> (P n \<and> n < k \<or> k \<le> n \<and> bit b (lo + (n - k))) \<and> n < k + len"
    using assms(2,3) by (cases "n < k") (auto simp: less_diff_conv2)
  finally show ?thesis .
qed

lemma bit_next_sign:
  assumes "\<And>n. bit a n \<longleftrightarrow> P n \<and> n < k"
  shows "bit (a + push_bit k (imm_sign b)) n \<longleftrightarrow> n < 64 \<and> (P n \<and> n < k \<or> k \<le> n \<and> bit b 31)"
proof -
  have "bit (a + push_bit k (imm_sign b)) n \<longleftrightarrow> bit a n \<or> n < 64 \<and> k \<le> n \<and> bit (imm_sign b) (n - k)"
    by (rule bit_add_field) (simp add: assms)
  also have "\<dots> \<longleftrightarrow> n < 64 \<and> (P n \<and> n < k \<or> k \<le> n \<and> bit b 31)"
    using bit_imp_le_length [of a n] unfolding bit_imm_sign assms by (cases "n < 64") auto
  finally show ?thesis .
qed

lemma bit_first_x: "k + len \<le> 64 \<Longrightarrow> bit (push_bit k (insn_x lo len b)) n \<longleftrightarrow> (k \<le> n \<and> bit b (lo + (n - k))) \<and> n < k + len"
  unfolding bit_first_field by (auto simp: field_bits)

lemma bit_sb_imm: "bit (sb_imm b) n \<longleftrightarrow> n < 64 \<and> 0 < n \<and> bit b (if n < 5 then 7 + n else if n < 11 then 20 + n else if n = 11 then 7 else 31)"
proof -
  have a0: "bit (push_bit 1 (insn_x 8 4 b)) n \<longleftrightarrow> (1 \<le> n \<and> bit b (8 + (n - 1))) \<and> n < 5" for n
    by (rule trans [OF bit_first_x]) simp_all
  have a1: "bit (push_bit 1 (insn_x 8 4 b) + push_bit 5 (insn_x 25 6 b)) n \<longleftrightarrow> ((1 \<le> n \<and> bit b (8 + (n - 1))) \<and> n < 5 \<or> 5 \<le> n \<and> bit b (25 + (n - 5))) \<and> n < 11" for n
    by (rule trans [OF bit_next_x [OF a0]]) simp_all
  have a2: "bit (push_bit 1 (insn_x 8 4 b) + push_bit 5 (insn_x 25 6 b) + push_bit 11 (insn_x 7 1 b)) n \<longleftrightarrow> ((((1 \<le> n \<and> bit b (8 + (n - 1))) \<and> n < 5 \<or> 5 \<le> n \<and> bit b (25 + (n - 5)))) \<and> n < 11 \<or> 11 \<le> n \<and> bit b (7 + (n - 11))) \<and> n < 12" for n
    by (rule trans [OF bit_next_x [OF a1]]) simp_all
  have i: "0 < n \<Longrightarrow> 8 + (n - 1) = 7 + n" "5 \<le> n \<Longrightarrow> 25 + (n - 5) = 20 + n" by simp_all
  consider "n = 0" | "0 < n" "n < 5" | "5 \<le> n" "n < 11" | "n = 11" | "12 \<le> n" by linarith
  then show ?thesis unfolding sb_imm_def bit_next_sign [OF a2] by cases (use i in simp_all)
qed

lemma bit_uj_imm: "bit (uj_imm b) n \<longleftrightarrow> n < 64 \<and> 0 < n \<and> bit b (if n < 11 then 20 + n else if n = 11 then 20 else if n < 20 then n else 31)"
proof -
  have a0: "bit (push_bit 1 (insn_x 21 10 b)) n \<longleftrightarrow> (1 \<le> n \<and> bit b (21 + (n - 1))) \<and> n < 11" for n
    by (rule trans [OF bit_first_x]) simp_all
  have a1: "bit (push_bit 1 (insn_x 21 10 b) + push_bit 11 (insn_x 20 1 b)) n \<longleftrightarrow> ((1 \<le> n \<and> bit b (21 + (n - 1))) \<and> n < 11 \<or> 11 \<le> n \<and> bit b (20 + (n - 11))) \<and> n < 12" for n
    by (rule trans [OF bit_next_x [OF a0]]) simp_all
  have a2: "bit (push_bit 1 (insn_x 21 10 b) + push_bit 11 (insn_x 20 1 b) + push_bit 12 (insn_x 12 8 b)) n \<longleftrightarrow> ((((1 \<le> n \<and> bit b (21 + (n - 1))) \<and> n < 11 \<or> 11 \<le> n \<and> bit b (20 + (n - 11)))) \<and> n < 12 \<or> 12 \<le> n \<and> bit b (12 + (n - 12))) \<and> n < 20" for n
    by (rule trans [OF bit_next_x [OF a1]]) simp_all
  have i: "0 < n \<Longrightarrow> 21 + (n - 1) = 20 + n" "12 \<le> n \<Longrightarrow> 12 + (n - 12) = n" by simp_all
  consider "n = 0" | "0 < n" "n < 11" | "n = 11" | "12 \<le> n" "n < 20" | "20 \<le> n" by linarith
  then show ?thesis unfolding uj_imm_def bit_next_sign [OF a2] by cases (use i in simp_all)
qed

section \<open>Encoders and decoders agree\<close>

lemma reg_bit: "r < 32 \<Longrightarrow> bit (r :: uint32_t) n \<Longrightarrow> n < 5"
proof -
  assume r: "r < 32" and b: "bit r n"
  have "unat r < 2 ^ 5" using r by (simp add: word_less_nat_alt)
  then have "take_bit 5 r = r" by (simp add: word_unat_eq_iff unsigned_take_bit_eq take_bit_nat_eq_self)
  then show "n < 5" using b by (metis bit_take_bit_iff)
qed

lemma reg_fieldI:
  fixes r e :: uint32_t
  assumes "r < 32" "lo + 5 \<le> 32" "\<And>n. lo \<le> n \<Longrightarrow> n < lo + 5 \<Longrightarrow> bit e n \<longleftrightarrow> bit r (n - lo)"
  shows "insn_x lo 5 (ucast e) = ucast r"
proof (rule bit_word_eqI)
  fix n assume "n < LENGTH(64)"
  show "bit (insn_x lo 5 (ucast e)) n \<longleftrightarrow> bit (ucast r :: uint64_t) n"
    using assms(2) assms(3) [of "lo + n"] reg_bit [OF assms(1), of n] by (cases "n < 5") (auto simp: bit_insn_x bit_ucast_iff)
qed

definition i_type :: "uint32_t \<Rightarrow> uint32_t \<Rightarrow> uint32_t \<Rightarrow> uint16_t \<Rightarrow> uint32_t" where
  "i_type m dest base imm = push_bit 20 (opc_bits (ucast imm) 11 0) OR push_bit 15 base OR push_bit 7 dest OR m"

definition s_type :: "uint32_t \<Rightarrow> uint32_t \<Rightarrow> uint32_t \<Rightarrow> uint16_t \<Rightarrow> uint32_t" where
  "s_type m src base imm = push_bit 25 (opc_bits (ucast imm) 11 5) OR push_bit 20 src OR push_bit 15 base OR push_bit 7 (opc_bits (ucast imm) 4 0) OR m"

definition fits :: "uint32_t \<Rightarrow> bool" where
  "fits m \<longleftrightarrow> (\<forall>n. bit m n \<longrightarrow> n < 7 \<or> 12 \<le> n \<and> n < 15)"

lemma bit_0x707f:
  "bit (0x707f :: uint32_t) n \<longleftrightarrow> n < 7 \<or> 12 \<le> n \<and> n < 15" "bit (0x707f :: uint64_t) n \<longleftrightarrow> n < 7 \<or> 12 \<le> n \<and> n < 15"
proof -
  have e: "(0x707f :: uint32_t) = mask 7 OR push_bit 12 (mask 3)" "(0x707f :: uint64_t) = mask 7 OR push_bit 12 (mask 3)"
    by (simp_all add: mask_eq_exp_minus_1 push_bit_eq_mult)
  show "bit (0x707f :: uint32_t) n \<longleftrightarrow> n < 7 \<or> 12 \<le> n \<and> n < 15" "bit (0x707f :: uint64_t) n \<longleftrightarrow> n < 7 \<or> 12 \<le> n \<and> n < 15"
    unfolding e bit_or_iff bit_push_bit_iff bit_mask_iff by auto
qed

lemma fitsI: "m AND 0x707f = m \<Longrightarrow> fits m"
  unfolding fits_def by (metis bit_0x707f(1) bit_and_iff)

lemma match_fits [simp]:
  "fits MATCH_ADDI" "fits MATCH_XORI" "fits MATCH_LD" "fits MATCH_LW" "fits MATCH_LH" "fits MATCH_LB" "fits MATCH_FLW" "fits MATCH_FLD"
  "fits MATCH_SW" "fits MATCH_SD" "fits MATCH_SH" "fits MATCH_SB" "fits MATCH_FSW" "fits MATCH_FSD"
  by (rule fitsI, simp add: MATCH_ADDI_def MATCH_XORI_def MATCH_LD_def MATCH_LW_def MATCH_LH_def MATCH_LB_def MATCH_FLW_def MATCH_FLD_def
      MATCH_SW_def MATCH_SD_def MATCH_SH_def MATCH_SB_def MATCH_FSW_def MATCH_FSD_def)+

lemma bit_i_type:
  assumes "dest < 32" "base < 32" "fits m"
  shows "bit (i_type m dest base imm) n \<longleftrightarrow>
    n < 32 \<and> (if n < 7 \<or> 12 \<le> n \<and> n < 15 then bit m n else if n < 12 then bit dest (n - 7) else if n < 20 then bit base (n - 15) else bit imm (n - 20))"
proof (cases "n < 32")
  case True
  have d: "bit dest (n - 7) \<Longrightarrow> n < 12" "bit base (n - 15) \<Longrightarrow> n < 20" using reg_bit [OF assms(1), of "n - 7"] reg_bit [OF assms(2), of "n - 15"] by auto
  have m: "bit m n \<Longrightarrow> n < 7 \<or> 12 \<le> n \<and> n < 15" using assms(3) by (simp add: fits_def)
  show ?thesis unfolding i_type_def bit_or_iff bit_push_bit_iff using True d m by (auto simp: bit_opc_bits bit_ucast_iff)
qed (auto dest: bit_imp_le_length)

lemma bit_s_type:
  assumes "src < 32" "base < 32" "fits m"
  shows "bit (s_type m src base imm) n \<longleftrightarrow>
    n < 32 \<and> (if n < 7 \<or> 12 \<le> n \<and> n < 15 then bit m n else if n < 12 then bit imm (n - 7) else if n < 20 then bit base (n - 15)
      else if n < 25 then bit src (n - 20) else bit imm (n - 20))"
proof (cases "n < 32")
  case True
  have d: "bit src (n - 20) \<Longrightarrow> n < 25" "bit base (n - 15) \<Longrightarrow> n < 20" using reg_bit [OF assms(1), of "n - 20"] reg_bit [OF assms(2), of "n - 15"] by auto
  have m: "bit m n \<Longrightarrow> n < 7 \<or> 12 \<le> n \<and> n < 15" using assms(3) by (simp add: fits_def)
  have i: "25 \<le> n \<Longrightarrow> 5 + (n - 25) = n - 20" by simp
  show ?thesis unfolding s_type_def bit_or_iff bit_push_bit_iff using True d m i by (auto simp: bit_opc_bits bit_ucast_iff)
qed (auto dest: bit_imp_le_length)

lemma i_type_fields:
  fixes imm :: uint16_t
  assumes "dest < 32" "base < 32" "fits m"
  defines "b \<equiv> ucast (i_type m dest base imm) :: insn_bits_t"
  shows "b AND 0x707f = ucast m" "insn_rd b = ucast dest" "insn_rs1 b = ucast base" "i_imm b = sext (ucast imm) 12"
proof -
  note bt = bit_i_type [OF assms(1-3), of imm]
  show "b AND 0x707f = ucast m"
  proof (rule bit_word_eqI)
    fix n assume "n < LENGTH(64)"
    show "bit (b AND 0x707f) n \<longleftrightarrow> bit (ucast m :: uint64_t) n"
      unfolding bit_and_iff bit_0x707f b_def bit_ucast_iff bt using assms(3) by (auto simp: fits_def dest: bit_imp_le_length)
  qed
  show "insn_rd b = ucast dest" unfolding insn_rd_def b_def by (rule reg_fieldI) (use assms bt in auto)
  show "insn_rs1 b = ucast base" unfolding insn_rs1_def b_def by (rule reg_fieldI) (use assms bt in auto)
  show "i_imm b = sext (ucast imm) 12"
    by (rule bit_word_eqI) (auto simp: b_def bit_i_imm bit_sext bt bit_ucast_iff min_def)
qed

lemma s_type_fields:
  fixes imm :: uint16_t
  assumes "src < 32" "base < 32" "fits m"
  defines "b \<equiv> ucast (s_type m src base imm) :: insn_bits_t"
  shows "b AND 0x707f = ucast m" "insn_rs2 b = ucast src" "insn_rs1 b = ucast base" "s_imm b = sext (ucast imm) 12"
proof -
  note bt = bit_s_type [OF assms(1-3), of imm]
  show "b AND 0x707f = ucast m"
  proof (rule bit_word_eqI)
    fix n assume "n < LENGTH(64)"
    show "bit (b AND 0x707f) n \<longleftrightarrow> bit (ucast m :: uint64_t) n"
      unfolding bit_and_iff bit_0x707f b_def bit_ucast_iff bt using assms(3) by (auto simp: fits_def dest: bit_imp_le_length)
  qed
  show "insn_rs2 b = ucast src" unfolding insn_rs2_def b_def by (rule reg_fieldI) (use assms bt in auto)
  show "insn_rs1 b = ucast base" unfolding insn_rs1_def b_def by (rule reg_fieldI) (use assms bt in auto)
  show "s_imm b = sext (ucast imm) 12"
    by (rule bit_word_eqI) (auto simp: b_def bit_s_imm bit_sext bt bit_ucast_iff min_def)
qed

lemma reg_opc_bits: "r < 32 \<Longrightarrow> opc_bits r 4 0 = r"
  by (rule bit_word_eqI) (auto simp: bit_opc_bits dest: reg_bit)

lemma enc_i_type:
  "enc_addi dest base imm = i_type MATCH_ADDI dest base imm" "enc_xori dest base imm = i_type MATCH_XORI dest base imm"
  "dest < 32 \<Longrightarrow> enc_ld dest base imm = i_type MATCH_LD dest base imm" "dest < 32 \<Longrightarrow> enc_lw dest base imm = i_type MATCH_LW dest base imm"
  "dest < 32 \<Longrightarrow> enc_lh dest base imm = i_type MATCH_LH dest base imm" "dest < 32 \<Longrightarrow> enc_lb dest base imm = i_type MATCH_LB dest base imm"
  "dest < 32 \<Longrightarrow> enc_flw dest base imm = i_type MATCH_FLW dest base imm" "dest < 32 \<Longrightarrow> enc_fld dest base imm = i_type MATCH_FLD dest base imm"
  by (simp_all add: i_type_def reg_opc_bits enc_addi_def enc_xori_def enc_ld_def enc_lw_def enc_lh_def enc_lb_def enc_flw_def enc_fld_def)

lemma enc_s_type:
  "enc_sw src base imm = s_type MATCH_SW src base imm" "enc_sd src base imm = s_type MATCH_SD src base imm"
  "enc_sh src base imm = s_type MATCH_SH src base imm" "enc_sb src base imm = s_type MATCH_SB src base imm"
  "src < 32 \<Longrightarrow> enc_fsw src base imm = s_type MATCH_FSW src base imm" "src < 32 \<Longrightarrow> enc_fsd src base imm = s_type MATCH_FSD src base imm"
  by (simp_all add: s_type_def reg_opc_bits enc_sw_def enc_sd_def enc_sh_def enc_sb_def enc_fsw_def enc_fsd_def)

lemma opcode7:
  assumes "m AND 0x7f = m"
  shows "bit (m :: uint32_t) n \<Longrightarrow> n < 7" "ucast m AND 0x7f = (ucast m :: uint64_t)"
proof -
  have 7: "(0x7f :: uint32_t) = mask 7" "(0x7f :: uint64_t) = mask 7" by (simp_all add: mask_eq_exp_minus_1)
  show *: "bit m n \<Longrightarrow> n < 7" for n using assms unfolding 7 by (metis bit_and_iff bit_mask_iff)
  show "ucast m AND 0x7f = (ucast m :: uint64_t)" unfolding 7 by (rule bit_word_eqI) (auto simp: bit_and_iff bit_mask_iff bit_ucast_iff dest: *)
qed

lemma low7I:
  fixes e m :: uint32_t
  assumes "\<And>n. n < 7 \<Longrightarrow> bit e n \<longleftrightarrow> bit m n" "m AND 0x7f = m"
  shows "(ucast e AND 0x7f :: uint64_t) = ucast m"
proof -
  have 7: "(0x7f :: uint64_t) = mask 7" by (simp add: mask_eq_exp_minus_1)
  show ?thesis unfolding 7
    by (rule bit_word_eqI) (use assms(1) in \<open>auto simp: bit_and_iff bit_mask_iff bit_ucast_iff dest: opcode7(1) [OF assms(2)] bit_imp_le_length\<close>)
qed

lemma enc_jal_fields:
  fixes t :: uint32_t
  assumes "rd < 32"
  defines "b \<equiv> ucast (enc_jal rd t) :: insn_bits_t"
  shows "b AND 0x7f = ucast MATCH_JAL" "insn_rd b = ucast rd" "uj_imm b = sext (ucast t AND NOT 1) 21"
proof -
  have m: "MATCH_JAL AND 0x7f = MATCH_JAL" by (simp add: MATCH_JAL_def)
  have bt: "bit (enc_jal rd t) n \<longleftrightarrow> n < 32 \<and> (if n < 7 then bit MATCH_JAL n else if n < 12 then bit rd (n - 7) else if n < 20 then bit t n
      else if n = 20 then bit t 11 else if n < 31 then bit t (n - 20) else bit t 20)" for n
  proof (cases "n < 32")
    case True
    have d: "bit rd (n - 7) \<Longrightarrow> n < 12" using reg_bit [OF assms(1), of "n - 7"] by auto
    have i: "12 \<le> n \<Longrightarrow> 12 + (n - 12) = n" "21 \<le> n \<Longrightarrow> 1 + (n - 21) = n - 20" by simp_all
    have f: "bit (opc_bits t 10 1) k \<longleftrightarrow> k < 10 \<and> bit t (1 + k)" "bit (opc_bits t 19 12) k \<longleftrightarrow> k < 8 \<and> bit t (12 + k)" for k by (simp_all add: bit_opc_bits)
    show ?thesis unfolding enc_jal_def bit_or_iff bit_push_bit_iff bit_opc_bit f
      using True d i opcode7(1) [OF m, of n] by auto
  qed (auto dest: bit_imp_le_length)
  show "b AND 0x7f = ucast MATCH_JAL" unfolding b_def by (rule low7I) (use m bt in auto)
  show "insn_rd b = ucast rd" unfolding insn_rd_def b_def by (rule reg_fieldI) (use assms bt in auto)
  show "uj_imm b = sext (ucast t AND NOT 1) 21"
  proof (rule bit_word_eqI)
    fix n assume n: "n < LENGTH(64)"
    have t1: "bit (ucast t AND NOT 1 :: uint64_t) k \<longleftrightarrow> 0 < k \<and> bit t k" for k
      by (auto simp: bit_and_iff bit_not_iff bit_1_iff bit_ucast_iff dest: bit_imp_le_length)
    have "bit (sext (ucast t AND NOT 1) 21) n \<longleftrightarrow> 0 < min n 20 \<and> bit t (min n 20)" unfolding bit_sext [of 21, simplified] t1 using n by simp
    then show "bit (uj_imm b) n \<longleftrightarrow> bit (sext (ucast t AND NOT 1) 21) n"
      using n unfolding bit_uj_imm b_def bit_ucast_iff bt by (cases "n < 20") auto
  qed
qed

lemma enc_lui_fields:
  fixes t :: uint32_t
  assumes "rd < 32"
  defines "b \<equiv> ucast (enc_lui rd t) :: insn_bits_t"
  shows "b AND 0x7f = ucast MATCH_LUI" "insn_rd b = ucast rd" "u_imm b = sext (push_bit 12 (ucast t)) 32"
proof -
  have m: "MATCH_LUI AND 0x7f = MATCH_LUI" by (simp add: MATCH_LUI_def)
  have bt: "bit (enc_lui rd t) n \<longleftrightarrow> n < 32 \<and> (if n < 7 then bit MATCH_LUI n else if n < 12 then bit rd (n - 7) else bit t (n - 12))" for n
  proof (cases "n < 32")
    case True
    have d: "bit rd (n - 7) \<Longrightarrow> n < 12" using reg_bit [OF assms(1), of "n - 7"] by auto
    show ?thesis unfolding enc_lui_def bit_or_iff bit_push_bit_iff
      using True d opcode7(1) [OF m, of n] by (auto simp: bit_opc_bits)
  qed (auto dest: bit_imp_le_length)
  show "b AND 0x7f = ucast MATCH_LUI" unfolding b_def by (rule low7I) (use m bt in auto)
  show "insn_rd b = ucast rd" unfolding insn_rd_def b_def by (rule reg_fieldI) (use assms bt in auto)
  show "u_imm b = sext (push_bit 12 (ucast t)) 32"
  proof (rule bit_word_eqI)
    fix n assume n: "n < LENGTH(64)"
    have "bit (sext (push_bit 12 (ucast t)) 32) n \<longleftrightarrow> 12 \<le> min n 31 \<and> bit t (min n 31 - 12)"
      unfolding bit_sext [of 32, simplified] bit_first_field bit_ucast_iff using n by (auto simp: min_def dest: bit_imp_le_length)
    then show "bit (u_imm b) n \<longleftrightarrow> bit (sext (push_bit 12 (ucast t)) 32) n"
      using n unfolding bit_u_imm b_def bit_ucast_iff bt by (cases "n < 31") auto
  qed
qed

text \<open>A system instruction carries the register number in the place of the immediate.\<close>

lemma csr_fields:
  fixes c r d m :: uint32_t
  assumes "c < 4096" "r < 32" "d < 32" "m AND 0x707f = m"
  defines "b \<equiv> ucast (push_bit 20 c OR push_bit 15 r OR push_bit 7 d OR m) :: insn_bits_t"
  shows "b AND 0x707f = ucast m" "insn_rd b = ucast d" "insn_rs1 b = ucast r" "insn_csr b = ucast c"
proof -
  have c: "bit c n \<Longrightarrow> n < 12" for n
  proof -
    have "unat c < 2 ^ 12" using assms(1) by (simp add: word_less_nat_alt)
    then have "take_bit 12 c = c" by (simp add: word_unat_eq_iff unsigned_take_bit_eq take_bit_nat_eq_self)
    then show "bit c n \<Longrightarrow> n < 12" by (metis bit_take_bit_iff)
  qed
  have "push_bit 20 c OR push_bit 15 r OR push_bit 7 d OR m = i_type m d r (ucast c)"
  proof -
    have "opc_bits (ucast (ucast c :: uint16_t)) 11 0 = c"
      by (rule bit_word_eqI) (auto simp: bit_opc_bits bit_ucast_iff dest: c)
    then show ?thesis by (simp add: i_type_def)
  qed
  note e = this and i = i_type_fields [OF assms(3,2) fitsI [OF assms(4)], of "ucast c"]
  show "b AND 0x707f = ucast m" "insn_rd b = ucast d" "insn_rs1 b = ucast r" unfolding b_def e by (rule i)+
  show "insn_csr b = ucast c" unfolding b_def e insn_csr_def
    by (rule bit_word_eqI) (auto simp: bit_insn_x bit_ucast_iff bit_i_type [OF assms(3,2) fitsI [OF assms(4)]] dest: c)
qed

definition i_encoders :: "((uint32_t \<Rightarrow> uint32_t \<Rightarrow> uint16_t \<Rightarrow> uint32_t) \<times> uint32_t) list" where
  "i_encoders = [(enc_addi, MATCH_ADDI), (enc_xori, MATCH_XORI), (enc_ld, MATCH_LD), (enc_lw, MATCH_LW), (enc_lh, MATCH_LH), (enc_lb, MATCH_LB),
     (enc_flw, MATCH_FLW), (enc_fld, MATCH_FLD)]"

definition s_encoders :: "((uint32_t \<Rightarrow> uint32_t \<Rightarrow> uint16_t \<Rightarrow> uint32_t) \<times> uint32_t) list" where
  "s_encoders = [(enc_sw, MATCH_SW), (enc_sd, MATCH_SD), (enc_sh, MATCH_SH), (enc_sb, MATCH_SB), (enc_fsw, MATCH_FSW), (enc_fsd, MATCH_FSD)]"

text \<open>The operand of five bits that two encoders cut out of a wider argument.\<close>

lemma opc_bits_5: "opc_bits x 4 0 = x AND 31"
  by (simp add: opc_bits_def)

lemma and_31_less: "x AND 31 < (32 :: uint32_t)"
  using and_mask_less' [of 5 x] by (simp add: mask_eq_exp_minus_1)

lemma mask_5: "(31 :: 'a :: len word) = mask 5"
  by (simp add: mask_eq_exp_minus_1)

lemma enc_csrr_fields:
  assumes "d < 32" "c < 4096"
  defines "b \<equiv> ucast (enc_csrr d c) :: insn_bits_t"
  shows "b AND 0x707f = ucast MATCH_CSRRS" "insn_rd b = ucast d" "insn_rs1 b = 0" "insn_csr b = ucast c"
proof -
  have m: "MATCH_CSRRS AND 0x707f = MATCH_CSRRS" by (simp add: MATCH_CSRRS_def)
  have e: "enc_csrr d c = push_bit 20 c OR push_bit 15 0 OR push_bit 7 d OR MATCH_CSRRS" by (simp add: enc_csrr_def)
  note f = csr_fields [OF assms(2) _ assms(1) m, of 0]
  show "b AND 0x707f = ucast MATCH_CSRRS" "insn_rd b = ucast d" "insn_rs1 b = 0" "insn_csr b = ucast c"
    unfolding b_def e using f by simp_all
qed

lemma enc_csrsi_fields:
  fixes imm :: uint16_t
  assumes "c < 4096"
  defines "b \<equiv> ucast (enc_csrsi c imm) :: insn_bits_t"
  shows "b AND 0x707f = ucast MATCH_CSRRSI" "insn_rd b = 0" "insn_rs1 b = ucast imm AND 31" "insn_csr b = ucast c"
proof -
  have m: "MATCH_CSRRSI AND 0x707f = MATCH_CSRRSI" by (simp add: MATCH_CSRRSI_def)
  have e: "enc_csrsi c imm = push_bit 20 c OR push_bit 15 (ucast imm AND 31) OR push_bit 7 0 OR MATCH_CSRRSI"
    by (simp add: enc_csrsi_def opc_bits_5)
  have u: "ucast (ucast imm AND 31 :: uint32_t) = (ucast imm AND 31 :: insn_bits_t)"
    unfolding mask_5 by (rule bit_word_eqI) (auto simp: bit_simps)
  note f = csr_fields [OF assms(1) and_31_less [of "ucast imm"] _ m, of 0]
  show "b AND 0x707f = ucast MATCH_CSRRSI" "insn_rd b = 0" "insn_rs1 b = ucast imm AND 31" "insn_csr b = ucast c"
    unfolding b_def e using f u by simp_all
qed

lemma enc_srli_fields:
  fixes sh :: uint8_t
  assumes "d < 32" "s1 < 32"
  defines "b \<equiv> ucast (enc_srli d s1 sh) :: insn_bits_t"
  shows "b AND 0x707f = ucast MATCH_SRLI" "insn_rd b = ucast d" "insn_rs1 b = ucast s1" "i_imm b = ucast sh AND 31"
proof -
  have m: "fits MATCH_SRLI" by (rule fitsI) (simp add: MATCH_SRLI_def)
  have "opc_bits (ucast (ucast sh AND 31 :: uint16_t)) 11 0 = ucast sh AND 31"
    unfolding mask_5 by (rule bit_word_eqI) (auto simp: bit_opc_bits bit_simps)
  then have e: "enc_srli d s1 sh = i_type MATCH_SRLI d s1 (ucast sh AND 31)"
    by (simp add: enc_srli_def i_type_def opc_bits_5)
  have "sext (ucast (ucast sh AND 31 :: uint16_t)) 12 = ucast sh AND 31"
    unfolding mask_5 by (rule bit_word_eqI) (auto simp: bit_sext bit_simps)
  then show "b AND 0x707f = ucast MATCH_SRLI" "insn_rd b = ucast d" "insn_rs1 b = ucast s1" "i_imm b = ucast sh AND 31"
    unfolding b_def e using i_type_fields [OF assms(1,2) m, of "ucast sh AND 31"] by simp_all
qed

text \<open>C4. The instructions that the debug module assembles decode to what was assembled: for register numbers below 32 (and, for system instructions, a register number
  below 4096), every encoder with operands yields a word whose opcode bits select the instruction and whose register and immediate fields, as the decoder reads them, are the
  arguments. Immediates are sign-extended from the width of their field; \<open>srli\<close> and \<open>csrsi\<close> keep the low five bits of theirs, so that a shift by 32 or more cannot be
  assembled.\<close>

theorem opcodes_decode_roundtrip:
  fixes sh :: uint8_t
  assumes "d < 32" "s1 < 32" "c < 4096"
  shows "(\<forall>(enc, m) \<in> set i_encoders. let b = ucast (enc d s1 imm)
            in b AND 0x707f = ucast m \<and> insn_rd b = ucast d \<and> insn_rs1 b = ucast s1 \<and> i_imm b = sext (ucast imm) 12) \<and>
    (\<forall>(enc, m) \<in> set s_encoders. let b = ucast (enc d s1 imm)
            in b AND 0x707f = ucast m \<and> insn_rs2 b = ucast d \<and> insn_rs1 b = ucast s1 \<and> s_imm b = sext (ucast imm) 12) \<and>
    (let b = ucast (enc_jal d t) in b AND 0x7f = ucast MATCH_JAL \<and> insn_rd b = ucast d \<and> uj_imm b = sext (ucast t AND NOT 1) 21) \<and>
    (let b = ucast (enc_lui d t) in b AND 0x7f = ucast MATCH_LUI \<and> insn_rd b = ucast d \<and> u_imm b = sext (push_bit 12 (ucast t)) 32) \<and>
    (let b = ucast (enc_csrrs d s1 c)
     in b AND 0x707f = ucast MATCH_CSRRS \<and> insn_rd b = ucast d \<and> insn_rs1 b = ucast s1 \<and> insn_csr b = ucast c) \<and>
    (let b = ucast (enc_csrw s1 c) in b AND 0x707f = ucast MATCH_CSRRW \<and> insn_rd b = 0 \<and> insn_rs1 b = ucast s1 \<and> insn_csr b = ucast c) \<and>
    (let b = ucast (enc_csrr d c) in b AND 0x707f = ucast MATCH_CSRRS \<and> insn_rd b = ucast d \<and> insn_rs1 b = 0 \<and> insn_csr b = ucast c) \<and>
    (let b = ucast (enc_csrsi c imm)
     in b AND 0x707f = ucast MATCH_CSRRSI \<and> insn_rd b = 0 \<and> insn_rs1 b = ucast imm AND 31 \<and> insn_csr b = ucast c) \<and>
    (let b = ucast (enc_srli d s1 sh)
     in b AND 0x707f = ucast MATCH_SRLI \<and> insn_rd b = ucast d \<and> insn_rs1 b = ucast s1 \<and> i_imm b = ucast sh AND 31)"
proof -
  have i: "\<forall>(enc, m) \<in> set i_encoders. enc d s1 imm = i_type m d s1 imm \<and> fits m" using assms(1) by (simp add: i_encoders_def enc_i_type)
  have s: "\<forall>(enc, m) \<in> set s_encoders. enc d s1 imm = s_type m d s1 imm \<and> fits m" using assms(1) by (simp add: s_encoders_def enc_s_type)
  have m: "MATCH_CSRRS AND 0x707f = MATCH_CSRRS" "MATCH_CSRRW AND 0x707f = MATCH_CSRRW" by (simp_all add: MATCH_CSRRS_def MATCH_CSRRW_def)
  have w: "enc_csrw s1 c = push_bit 20 c OR push_bit 15 s1 OR push_bit 7 0 OR MATCH_CSRRW" by (simp add: enc_csrw_def)
  have 1: "\<forall>(enc, m) \<in> set i_encoders. let b = ucast (enc d s1 imm)
            in b AND 0x707f = ucast m \<and> insn_rd b = ucast d \<and> insn_rs1 b = ucast s1 \<and> i_imm b = sext (ucast imm) 12"
  proof
    fix e assume "e \<in> set i_encoders"
    from bspec [OF i this] obtain enc m where e: "e = (enc, m)" "enc d s1 imm = i_type m d s1 imm" "fits m" by (auto split: prod.splits)
    show "case e of (enc, m) \<Rightarrow> let b = ucast (enc d s1 imm)
            in b AND 0x707f = ucast m \<and> insn_rd b = ucast d \<and> insn_rs1 b = ucast s1 \<and> i_imm b = sext (ucast imm) 12"
      unfolding e(1) prod.case Let_def e(2) by (intro conjI i_type_fields [OF assms(1,2) e(3)])
  qed
  have 2: "\<forall>(enc, m) \<in> set s_encoders. let b = ucast (enc d s1 imm)
            in b AND 0x707f = ucast m \<and> insn_rs2 b = ucast d \<and> insn_rs1 b = ucast s1 \<and> s_imm b = sext (ucast imm) 12"
  proof
    fix e assume "e \<in> set s_encoders"
    from bspec [OF s this] obtain enc m where e: "e = (enc, m)" "enc d s1 imm = s_type m d s1 imm" "fits m" by (auto split: prod.splits)
    show "case e of (enc, m) \<Rightarrow> let b = ucast (enc d s1 imm)
            in b AND 0x707f = ucast m \<and> insn_rs2 b = ucast d \<and> insn_rs1 b = ucast s1 \<and> s_imm b = sext (ucast imm) 12"
      unfolding e(1) prod.case Let_def e(2) by (intro conjI s_type_fields [OF assms(1,2) e(3)])
  qed
  have 3: "insn_rd (ucast (enc_csrw s1 c)) = 0" using csr_fields(2) [OF assms(3,2) _ m(2), of 0] unfolding w by simp
  note jal = enc_jal_fields [OF assms(1), of t] and lui = enc_lui_fields [OF assms(1), of t]
    and rs = csr_fields [OF assms(3,2,1) m(1)] and rw = csr_fields(1,3,4) [OF assms(3,2) _ m(2), of 0, simplified]
  show ?thesis unfolding Let_def enc_csrrs_def
    by (intro conjI 1 [unfolded Let_def] 2 [unfolded Let_def] 3 jal lui rs enc_csrr_fields [OF assms(1,3)] enc_csrsi_fields [OF assms(3)]
        enc_srli_fields [OF assms(1,2)]) (use rw in \<open>simp_all only: enc_csrw_def\<close>)
qed

theorem opcodes_decode_roundtrip_witness:
  "insn_rd (ucast (enc_jal 1 0xFFFFF7FC)) = 1 \<and> uj_imm (ucast (enc_jal 1 0xFFFFF7FC)) = - 2052 \<and> insn_csr (ucast (enc_csrrs 1 2 0x7b2)) = 0x7b2"
proof -
  have h: "(1 :: uint32_t) < 32" "(2 :: uint32_t) < 32" "(0x7b2 :: uint32_t) < 4096" by simp_all
  have "sext (ucast (0xFFFFF7FC :: uint32_t) AND NOT 1) 21 = - 2052" by code_simp
  then show ?thesis using opcodes_decode_roundtrip [OF h, where t = "0xFFFFF7FC"] unfolding Let_def by simp
qed

end
