(* ===== verification/Insns.thy ===== *)
theory Insns
  imports Insn_Decode "HOL-Library.Signed_Division"
begin

text \<open>
  Integer instructions (\<^verbatim>\<open>riscv/insns/\<close>): the base integer computations, branches and jumps, multiplication and division, the bit-manipulation
  extensions, conditional zeroing, and the compressed forms of the computations and transfers. A source file is the body of a function of the processor, the
  instruction word and its address (\<^verbatim>\<open>riscv/insn_template.cc\<close>), compiled for each register width and for the embedded base with 16 registers; the
  function returns the next address. \<open>require\<close> raises the illegal-instruction trap. The model of an instruction reads like its file: registers are read in
  continuation style, which is where the embedded variants check register numbers. A trap carries no state: the only thing an instruction changes before it
  traps is the flag of taken branches.
\<close>

unbundle bit_operations_syntax

section \<open>State and macros\<close>

datatype isa_extension = EXT_M | EXT_ZMMUL | EXT_ZBA | EXT_ZBB | EXT_ZBKB | EXT_ZBS | EXT_ZBC | EXT_ZBKC | EXT_ZICOND | EXT_ZICFILP | EXT_ZCA | EXT_ZCB |
  EXT_ZBKX | EXT_ZIMOP | EXT_ZCMOP | EXT_ZCMP | EXT_S | EXT_U | EXT_H | EXT_F | EXT_ZFINX | EXT_SSDBLTRP | EXT_SMDBLTRP | EXT_SSAIA | EXT_SMRNMI |
  EXT_SSNPM | EXT_SSCOFPMF

record cpu =
  XPR :: regfile
  state_pc :: reg_t
  taken_branch_flag :: bool
  lp_expected :: bool
  extension_enabled :: "isa_extension \<Rightarrow> bool"
  proc :: mmu_proc

record variant =
  v_xlen :: nat
  rve :: bool

datatype insn_trap = Illegal_Instruction insn_bits_t | Instruction_Address_Misaligned bool reg_t | Insn_Aborted

type_synonym insn_result = "insn_trap + reg_t \<times> cpu"
type_synonym insn_fn = "variant \<Rightarrow> insn_bits_t \<Rightarrow> reg_t \<Rightarrow> cpu \<Rightarrow> insn_result"

definition require :: "insn_bits_t \<Rightarrow> bool \<Rightarrow> insn_result \<Rightarrow> insn_result" where
  "require insn c k = (if c then k else Inl (Illegal_Instruction insn))"

definition check_reg :: "variant \<Rightarrow> uint64_t \<Rightarrow> bool" where
  "check_reg v r \<longleftrightarrow> (rve v \<longrightarrow> r < 16)"

definition read_reg :: "variant \<Rightarrow> insn_bits_t \<Rightarrow> cpu \<Rightarrow> uint64_t \<Rightarrow> (reg_t \<Rightarrow> insn_result) \<Rightarrow> insn_result" where
  "read_reg v insn s r k = require insn (check_reg v r) (k (XPR s r))"

definition write_reg :: "variant \<Rightarrow> insn_bits_t \<Rightarrow> uint64_t \<Rightarrow> reg_t \<Rightarrow> reg_t \<Rightarrow> cpu \<Rightarrow> insn_result" where
  "write_reg v insn r value npc s = require insn (check_reg v r) (Inr (npc, s\<lparr>XPR := regfile_write r value (XPR s)\<rparr>))"

definition sext32 :: "reg_t \<Rightarrow> reg_t" where
  "sext32 w = scast (ucast w :: uint32_t)"

definition zext32 :: "reg_t \<Rightarrow> reg_t" where
  "zext32 w = ucast (ucast w :: uint32_t)"

definition SHAMT :: "insn_bits_t \<Rightarrow> reg_t" where
  "SHAMT insn = i_imm insn AND 0x3F"

text \<open>The prologue of the template.\<close>

definition first_npc :: "variant \<Rightarrow> reg_t \<Rightarrow> nat \<Rightarrow> reg_t" where
  "first_npc v pc len = sext (pc + of_nat len) (v_xlen v)"

definition prologue :: "cpu \<Rightarrow> cpu" where
  "prologue s = s\<lparr>taken_branch_flag := False\<rparr>"

definition pc_alignment_mask :: "cpu \<Rightarrow> reg_t" where
  "pc_alignment_mask s = NOT (if extension_enabled s EXT_ZCA then 0 else 2)"

definition set_pc :: "variant \<Rightarrow> reg_t \<Rightarrow> cpu \<Rightarrow> (reg_t \<Rightarrow> cpu \<Rightarrow> insn_result) \<Rightarrow> insn_result" where
  "set_pc v target s k =
     (if target AND NOT (pc_alignment_mask s) \<noteq> 0 then Inl (Instruction_Address_Misaligned (state_v (proc s)) target)
      else k (sext target (v_xlen v)) (s\<lparr>taken_branch_flag := True\<rparr>))"

definition PC_SERIALIZE_AFTER :: reg_t where "PC_SERIALIZE_AFTER = 5"

definition set_pc_and_serialize :: "reg_t \<Rightarrow> cpu \<Rightarrow> reg_t \<times> cpu" where
  "set_pc_and_serialize npc s = (PC_SERIALIZE_AFTER, s\<lparr>state_pc := npc AND pc_alignment_mask s, taken_branch_flag := True\<rparr>)"

definition serialize :: "reg_t \<Rightarrow> cpu \<Rightarrow> reg_t \<times> cpu" where
  "serialize npc s = (let (npc, s) = set_pc_and_serialize npc s in (npc, s\<lparr>taken_branch_flag := False\<rparr>))"

definition MENVCFG_LPE :: reg_t where "MENVCFG_LPE = 4"
definition HENVCFG_LPE :: reg_t where "HENVCFG_LPE = 4"
definition SENVCFG_LPE :: reg_t where "SENVCFG_LPE = 4"

definition ZICFILP_xLPE :: "cpu \<Rightarrow> bool option" where
  "ZICFILP_xLPE s =
     (let p = proc s
      in if \<not> extension_enabled s EXT_ZICFILP then Some False
         else if prv p = PRV_U then Some (if ext_S p then get_field (senvcfg p) SENVCFG_LPE \<noteq> 0 else get_field (menvcfg p) MENVCFG_LPE \<noteq> 0)
         else if prv p = PRV_S then Some (if state_v p then get_field (henvcfg p) HENVCFG_LPE \<noteq> 0 else get_field (menvcfg p) MENVCFG_LPE \<noteq> 0)
         else if prv p = PRV_M then Some (get_field (mseccfg (pmp p)) MSECCFG_MLPE \<noteq> 0)
         else None)"

definition ZICFILP_IS_LP_EXPECTED :: "uint64_t \<Rightarrow> bool" where
  "ZICFILP_IS_LP_EXPECTED r \<longleftrightarrow> r \<noteq> 1 \<and> r \<noteq> 5 \<and> r \<noteq> 7"

definition landing_pad :: "uint64_t \<Rightarrow> reg_t \<Rightarrow> cpu \<Rightarrow> insn_result" where
  "landing_pad r npc s =
     (case ZICFILP_xLPE s of
        None \<Rightarrow> Inl Insn_Aborted
      | Some False \<Rightarrow> Inr (npc, s)
      | Some True \<Rightarrow> Inr (serialize npc (s\<lparr>lp_expected := ZICFILP_IS_LP_EXPECTED r\<rparr>)))"

text \<open>The operands of the register and immediate forms, and the write of the destination.\<close>

definition r_form :: "(reg_t \<Rightarrow> reg_t \<Rightarrow> reg_t) \<Rightarrow> insn_fn" where
  "r_form f v insn pc s =
     (let s = prologue s
      in read_reg v insn s (insn_rs1 insn) (\<lambda>a. read_reg v insn s (insn_rs2 insn) (\<lambda>b.
           write_reg v insn (insn_rd insn) (f a b) (first_npc v pc 4) s)))"

definition i_form :: "(reg_t \<Rightarrow> reg_t) \<Rightarrow> insn_fn" where
  "i_form f v insn pc s =
     (let s = prologue s in read_reg v insn s (insn_rs1 insn) (\<lambda>a. write_reg v insn (insn_rd insn) (f a) (first_npc v pc 4) s))"

definition ext1 :: "isa_extension \<Rightarrow> insn_fn \<Rightarrow> insn_fn" where
  "ext1 e f v insn pc s = require insn (extension_enabled s e) (f v insn pc s)"

definition ext2 :: "isa_extension \<Rightarrow> isa_extension \<Rightarrow> insn_fn \<Rightarrow> insn_fn" where
  "ext2 e e' f v insn pc s = require insn (extension_enabled s e \<or> extension_enabled s e') (f v insn pc s)"

definition rv64_only :: "insn_fn \<Rightarrow> insn_fn" where
  "rv64_only f v insn pc s = require insn (v_xlen v = 64) (f v insn pc s)"

section \<open>Base integer computations\<close>

definition insn_add :: insn_fn where
  "insn_add v insn pc s = r_form (\<lambda>a b. sext (a + b) (v_xlen v)) v insn pc s"

definition insn_sub :: insn_fn where
  "insn_sub v insn pc s = r_form (\<lambda>a b. sext (a - b) (v_xlen v)) v insn pc s"

definition insn_sll :: insn_fn where
  "insn_sll v insn pc s = r_form (\<lambda>a b. sext (push_bit (unat (b AND of_nat (v_xlen v - 1))) a) (v_xlen v)) v insn pc s"

definition insn_slt :: insn_fn where
  "insn_slt v insn pc s = r_form (\<lambda>a b. of_bool (sint a < sint b)) v insn pc s"

definition insn_sltu :: insn_fn where
  "insn_sltu v insn pc s = r_form (\<lambda>a b. of_bool (a < b)) v insn pc s"

definition insn_xor :: insn_fn where
  "insn_xor v insn pc s = r_form (\<lambda>a b. a XOR b) v insn pc s"

definition insn_srl :: insn_fn where
  "insn_srl v insn pc s = r_form (\<lambda>a b. sext (drop_bit (unat (b AND of_nat (v_xlen v - 1))) (zext a (v_xlen v))) (v_xlen v)) v insn pc s"

definition insn_sra :: insn_fn where
  "insn_sra v insn pc s = r_form (\<lambda>a b. sext (signed_drop_bit (unat (b AND of_nat (v_xlen v - 1))) (sext a (v_xlen v))) (v_xlen v)) v insn pc s"

definition insn_or :: insn_fn where
  "insn_or v insn pc s = r_form (\<lambda>a b. a OR b) v insn pc s"

definition insn_and :: insn_fn where
  "insn_and v insn pc s = r_form (\<lambda>a b. a AND b) v insn pc s"

definition insn_addi :: insn_fn where
  "insn_addi v insn pc s = i_form (\<lambda>a. sext (a + i_imm insn) (v_xlen v)) v insn pc s"

definition insn_slti :: insn_fn where
  "insn_slti v insn pc s = i_form (\<lambda>a. of_bool (sint a < sint (i_imm insn))) v insn pc s"

definition insn_sltiu :: insn_fn where
  "insn_sltiu v insn pc s = i_form (\<lambda>a. of_bool (a < i_imm insn)) v insn pc s"

definition insn_xori :: insn_fn where
  "insn_xori v insn pc s = i_form (\<lambda>a. i_imm insn XOR a) v insn pc s"

definition insn_ori :: insn_fn where
  "insn_ori v insn pc s = i_form (\<lambda>a. i_imm insn OR a) v insn pc s"

definition insn_andi :: insn_fn where
  "insn_andi v insn pc s = i_form (\<lambda>a. i_imm insn AND a) v insn pc s"

definition insn_slli :: insn_fn where
  "insn_slli v insn pc s = require insn (SHAMT insn < of_nat (v_xlen v)) (i_form (\<lambda>a. sext (push_bit (unat (SHAMT insn)) a) (v_xlen v)) v insn pc s)"

definition insn_srli :: insn_fn where
  "insn_srli v insn pc s = require insn (SHAMT insn < of_nat (v_xlen v)) (i_form (\<lambda>a. sext (drop_bit (unat (SHAMT insn)) (zext a (v_xlen v))) (v_xlen v)) v insn pc s)"

definition insn_srai :: insn_fn where
  "insn_srai v insn pc s = require insn (SHAMT insn < of_nat (v_xlen v)) (i_form (\<lambda>a. sext (signed_drop_bit (unat (SHAMT insn)) (sext a (v_xlen v))) (v_xlen v)) v insn pc s)"

definition insn_lui :: insn_fn where
  "insn_lui v insn pc s = (let s = prologue s in write_reg v insn (insn_rd insn) (u_imm insn) (first_npc v pc 4) s)"

definition insn_auipc :: insn_fn where
  "insn_auipc v insn pc s = (let s = prologue s in write_reg v insn (insn_rd insn) (sext (u_imm insn + pc) (v_xlen v)) (first_npc v pc 4) s)"

text \<open>The word forms. The shift amounts of the immediate forms are below 32 in every word that is decoded as one of them.\<close>

definition insn_addiw :: insn_fn where
  "insn_addiw v insn pc s = rv64_only (i_form (\<lambda>a. sext32 (i_imm insn + a))) v insn pc s"

definition insn_slliw :: insn_fn where
  "insn_slliw v insn pc s = rv64_only (i_form (\<lambda>a. sext32 (push_bit (unat (SHAMT insn)) a))) v insn pc s"

definition insn_srliw :: insn_fn where
  "insn_srliw v insn pc s = rv64_only (i_form (\<lambda>a. scast (drop_bit (unat (SHAMT insn)) (ucast a :: uint32_t)))) v insn pc s"

definition insn_sraiw :: insn_fn where
  "insn_sraiw v insn pc s = rv64_only (i_form (\<lambda>a. scast (signed_drop_bit (unat (SHAMT insn)) (ucast a :: uint32_t)))) v insn pc s"

definition insn_addw :: insn_fn where
  "insn_addw v insn pc s = rv64_only (r_form (\<lambda>a b. sext32 (a + b))) v insn pc s"

definition insn_subw :: insn_fn where
  "insn_subw v insn pc s = rv64_only (r_form (\<lambda>a b. sext32 (a - b))) v insn pc s"

definition insn_sllw :: insn_fn where
  "insn_sllw v insn pc s = rv64_only (r_form (\<lambda>a b. sext32 (push_bit (unat (b AND 0x1F)) a))) v insn pc s"

definition insn_srlw :: insn_fn where
  "insn_srlw v insn pc s = rv64_only (r_form (\<lambda>a b. scast (drop_bit (unat (b AND 0x1F)) (ucast a :: uint32_t)))) v insn pc s"

definition insn_sraw :: insn_fn where
  "insn_sraw v insn pc s = rv64_only (r_form (\<lambda>a b. scast (signed_drop_bit (unat (b AND 0x1F)) (ucast a :: uint32_t)))) v insn pc s"

section \<open>Branches and jumps\<close>

definition b_form :: "(reg_t \<Rightarrow> reg_t \<Rightarrow> bool) \<Rightarrow> insn_fn" where
  "b_form f v insn pc s =
     (let s = prologue s
      in read_reg v insn s (insn_rs1 insn) (\<lambda>a. read_reg v insn s (insn_rs2 insn) (\<lambda>b.
           if f a b then set_pc v (pc + sb_imm insn) s (\<lambda>npc s. Inr (npc, s)) else Inr (first_npc v pc 4, s))))"

definition insn_beq :: insn_fn where
  "insn_beq v insn pc s = b_form (\<lambda>a b. a = b) v insn pc s"

definition insn_bne :: insn_fn where
  "insn_bne v insn pc s = b_form (\<lambda>a b. a \<noteq> b) v insn pc s"

definition insn_blt :: insn_fn where
  "insn_blt v insn pc s = b_form (\<lambda>a b. sint a < sint b) v insn pc s"

definition insn_bge :: insn_fn where
  "insn_bge v insn pc s = b_form (\<lambda>a b. sint b \<le> sint a) v insn pc s"

definition insn_bltu :: insn_fn where
  "insn_bltu v insn pc s = b_form (\<lambda>a b. a < b) v insn pc s"

definition insn_bgeu :: insn_fn where
  "insn_bgeu v insn pc s = b_form (\<lambda>a b. b \<le> a) v insn pc s"

definition insn_jal :: insn_fn where
  "insn_jal v insn pc s =
     (let s = prologue s; tmp = first_npc v pc 4
      in require insn (check_reg v (insn_rd insn))
           (set_pc v (pc + uj_imm insn) s (\<lambda>npc s. write_reg v insn (insn_rd insn) tmp npc s)))"

definition insn_jalr :: insn_fn where
  "insn_jalr v insn pc s =
     (let s = prologue s; tmp = first_npc v pc 4
      in require insn (check_reg v (insn_rd insn))
           (read_reg v insn s (insn_rs1 insn) (\<lambda>a.
              set_pc v ((a + i_imm insn) AND NOT 1) s (\<lambda>npc s.
                case write_reg v insn (insn_rd insn) tmp npc s of
                  Inl t \<Rightarrow> Inl t
                | Inr (npc, s) \<Rightarrow> landing_pad (insn_rs1 insn) npc s))))"

section \<open>Multiplication and division\<close>

definition c_div :: "reg_t \<Rightarrow> reg_t \<Rightarrow> reg_t" where
  "c_div a b = word_of_int (sint a sdiv sint b)"

definition c_rem :: "reg_t \<Rightarrow> reg_t \<Rightarrow> reg_t" where
  "c_rem a b = word_of_int (sint a smod sint b)"

definition INT64_MIN :: reg_t where "INT64_MIN = 0x8000000000000000"

definition insn_mul :: insn_fn where
  "insn_mul v insn pc s = ext2 EXT_M EXT_ZMMUL (r_form (\<lambda>a b. sext (a * b) (v_xlen v))) v insn pc s"

definition insn_mulh :: insn_fn where
  "insn_mulh v insn pc s = ext2 EXT_M EXT_ZMMUL (r_form (\<lambda>a b. if v_xlen v = 64 then mulh a b else sext32 (signed_drop_bit 32 (sext32 a * sext32 b)))) v insn pc s"

definition insn_mulhsu :: insn_fn where
  "insn_mulhsu v insn pc s = ext2 EXT_M EXT_ZMMUL (r_form (\<lambda>a b. if v_xlen v = 64 then mulhsu a b else sext32 (drop_bit 32 (sext32 a * zext32 b)))) v insn pc s"

definition insn_mulhu :: insn_fn where
  "insn_mulhu v insn pc s = ext2 EXT_M EXT_ZMMUL (r_form (\<lambda>a b. if v_xlen v = 64 then mulhu a b else sext32 (drop_bit 32 (zext32 a * zext32 b)))) v insn pc s"

definition insn_mulw :: insn_fn where
  "insn_mulw v insn pc s = ext2 EXT_M EXT_ZMMUL (rv64_only (r_form (\<lambda>a b. sext32 (a * b)))) v insn pc s"

definition insn_div :: insn_fn where
  "insn_div v insn pc s = ext1 EXT_M (r_form (\<lambda>a b. let lhs = sext a (v_xlen v); rhs = sext b (v_xlen v)
       in if rhs = 0 then - 1 else if lhs = INT64_MIN \<and> rhs = - 1 then lhs else sext (c_div lhs rhs) (v_xlen v))) v insn pc s"

definition insn_divu :: insn_fn where
  "insn_divu v insn pc s = ext1 EXT_M (r_form (\<lambda>a b. let lhs = zext a (v_xlen v); rhs = zext b (v_xlen v) in if rhs = 0 then - 1 else sext (lhs div rhs) (v_xlen v))) v insn pc s"

definition insn_rem :: insn_fn where
  "insn_rem v insn pc s = ext1 EXT_M (r_form (\<lambda>a b. let lhs = sext a (v_xlen v); rhs = sext b (v_xlen v)
       in if rhs = 0 then lhs else if lhs = INT64_MIN \<and> rhs = - 1 then 0 else sext (c_rem lhs rhs) (v_xlen v))) v insn pc s"

definition insn_remu :: insn_fn where
  "insn_remu v insn pc s = ext1 EXT_M (r_form (\<lambda>a b. let lhs = zext a (v_xlen v); rhs = zext b (v_xlen v) in if rhs = 0 then sext a (v_xlen v) else sext (lhs mod rhs) (v_xlen v))) v insn pc s"

definition insn_divw :: insn_fn where
  "insn_divw v insn pc s = ext1 EXT_M (rv64_only (r_form (\<lambda>a b. let lhs = sext32 a; rhs = sext32 b in if rhs = 0 then - 1 else sext32 (c_div lhs rhs)))) v insn pc s"

definition insn_divuw :: insn_fn where
  "insn_divuw v insn pc s = ext1 EXT_M (rv64_only (r_form (\<lambda>a b. let lhs = zext32 a; rhs = zext32 b in if rhs = 0 then - 1 else sext32 (lhs div rhs)))) v insn pc s"

definition insn_remw :: insn_fn where
  "insn_remw v insn pc s = ext1 EXT_M (rv64_only (r_form (\<lambda>a b. let lhs = sext32 a; rhs = sext32 b in if rhs = 0 then lhs else sext32 (c_rem lhs rhs)))) v insn pc s"

definition insn_remuw :: insn_fn where
  "insn_remuw v insn pc s = ext1 EXT_M (rv64_only (r_form (\<lambda>a b. let lhs = zext32 a; rhs = zext32 b in if rhs = 0 then sext32 lhs else sext32 (lhs mod rhs)))) v insn pc s"

section \<open>Bit manipulation\<close>

definition insn_sh1add :: insn_fn where
  "insn_sh1add v insn pc s = ext1 EXT_ZBA (r_form (\<lambda>a b. sext (push_bit 1 a + b) (v_xlen v))) v insn pc s"

definition insn_sh2add :: insn_fn where
  "insn_sh2add v insn pc s = ext1 EXT_ZBA (r_form (\<lambda>a b. sext (push_bit 2 a + b) (v_xlen v))) v insn pc s"

definition insn_sh3add :: insn_fn where
  "insn_sh3add v insn pc s = ext1 EXT_ZBA (r_form (\<lambda>a b. sext (push_bit 3 a + b) (v_xlen v))) v insn pc s"

definition insn_sh1add_uw :: insn_fn where
  "insn_sh1add_uw v insn pc s = rv64_only (ext1 EXT_ZBA (r_form (\<lambda>a b. sext (push_bit 1 (zext32 a) + b) (v_xlen v)))) v insn pc s"

definition insn_sh2add_uw :: insn_fn where
  "insn_sh2add_uw v insn pc s = rv64_only (ext1 EXT_ZBA (r_form (\<lambda>a b. sext (push_bit 2 (zext32 a) + b) (v_xlen v)))) v insn pc s"

definition insn_sh3add_uw :: insn_fn where
  "insn_sh3add_uw v insn pc s = rv64_only (ext1 EXT_ZBA (r_form (\<lambda>a b. sext (push_bit 3 (zext32 a) + b) (v_xlen v)))) v insn pc s"

definition insn_add_uw :: insn_fn where
  "insn_add_uw v insn pc s = rv64_only (ext1 EXT_ZBA (r_form (\<lambda>a b. sext (zext32 a + b) (v_xlen v)))) v insn pc s"

definition insn_slli_uw :: insn_fn where
  "insn_slli_uw v insn pc s = rv64_only (ext1 EXT_ZBA (i_form (\<lambda>a. sext (push_bit (unat (SHAMT insn)) (zext32 a)) (v_xlen v)))) v insn pc s"

definition insn_andn :: insn_fn where
  "insn_andn v insn pc s = ext2 EXT_ZBB EXT_ZBKB (r_form (\<lambda>a b. a AND NOT b)) v insn pc s"

definition insn_orn :: insn_fn where
  "insn_orn v insn pc s = ext2 EXT_ZBB EXT_ZBKB (r_form (\<lambda>a b. a OR NOT b)) v insn pc s"

definition insn_xnor :: insn_fn where
  "insn_xnor v insn pc s = ext2 EXT_ZBB EXT_ZBKB (r_form (\<lambda>a b. a XOR NOT b)) v insn pc s"

definition insn_max :: insn_fn where
  "insn_max v insn pc s = ext1 EXT_ZBB (r_form (\<lambda>a b. sext (if sint b < sint a then a else b) (v_xlen v))) v insn pc s"

definition insn_maxu :: insn_fn where
  "insn_maxu v insn pc s = ext1 EXT_ZBB (r_form (\<lambda>a b. sext (if b < a then a else b) (v_xlen v))) v insn pc s"

definition insn_min :: insn_fn where
  "insn_min v insn pc s = ext1 EXT_ZBB (r_form (\<lambda>a b. sext (if sint a < sint b then a else b) (v_xlen v))) v insn pc s"

definition insn_minu :: insn_fn where
  "insn_minu v insn pc s = ext1 EXT_ZBB (r_form (\<lambda>a b. sext (if a < b then a else b) (v_xlen v))) v insn pc s"

definition insn_sext_b :: insn_fn where
  "insn_sext_b v insn pc s = ext1 EXT_ZBB (i_form (\<lambda>a. scast (ucast a :: uint8_t))) v insn pc s"

definition insn_sext_h :: insn_fn where
  "insn_sext_h v insn pc s = ext1 EXT_ZBB (i_form (\<lambda>a. scast (ucast a :: uint16_t))) v insn pc s"

definition insn_rol :: insn_fn where
  "insn_rol v insn pc s = ext2 EXT_ZBB EXT_ZBKB (r_form (\<lambda>a b. sext (push_bit (unat (b AND of_nat (v_xlen v - 1))) a OR drop_bit (unat (- (b AND of_nat (v_xlen v - 1)) AND of_nat (v_xlen v - 1))) (zext a (v_xlen v))) (v_xlen v))) v insn pc s"

definition insn_ror :: insn_fn where
  "insn_ror v insn pc s = ext2 EXT_ZBB EXT_ZBKB (r_form (\<lambda>a b. sext (push_bit (unat (- (b AND of_nat (v_xlen v - 1)) AND of_nat (v_xlen v - 1))) a OR drop_bit (unat (b AND of_nat (v_xlen v - 1))) (zext a (v_xlen v))) (v_xlen v))) v insn pc s"

definition insn_rolw :: insn_fn where
  "insn_rolw v insn pc s = rv64_only (ext2 EXT_ZBB EXT_ZBKB (r_form (\<lambda>a b. sext32 (push_bit (unat (b AND 31)) a OR drop_bit (unat (- (b AND 31) AND 31)) (zext32 a))))) v insn pc s"

definition insn_rorw :: insn_fn where
  "insn_rorw v insn pc s = rv64_only (ext2 EXT_ZBB EXT_ZBKB (r_form (\<lambda>a b. sext32 (push_bit (unat (- (b AND 31) AND 31)) a OR drop_bit (unat (b AND 31)) (zext32 a))))) v insn pc s"

definition insn_bclr :: insn_fn where
  "insn_bclr v insn pc s = ext1 EXT_ZBS (r_form (\<lambda>a b. sext (a AND NOT (push_bit (unat (b AND of_nat (v_xlen v - 1))) 1)) (v_xlen v))) v insn pc s"

definition insn_bext :: insn_fn where
  "insn_bext v insn pc s = ext1 EXT_ZBS (r_form (\<lambda>a b. sext (1 AND drop_bit (unat (b AND of_nat (v_xlen v - 1))) a) (v_xlen v))) v insn pc s"

definition insn_binv :: insn_fn where
  "insn_binv v insn pc s = ext1 EXT_ZBS (r_form (\<lambda>a b. sext (a XOR push_bit (unat (b AND of_nat (v_xlen v - 1))) 1) (v_xlen v))) v insn pc s"

definition insn_bset :: insn_fn where
  "insn_bset v insn pc s = ext1 EXT_ZBS (r_form (\<lambda>a b. sext (a OR push_bit (unat (b AND of_nat (v_xlen v - 1))) 1) (v_xlen v))) v insn pc s"

definition insn_czero_eqz :: insn_fn where
  "insn_czero_eqz v insn pc s = ext1 EXT_ZICOND (r_form (\<lambda>a b. if b = 0 then 0 else a)) v insn pc s"

definition insn_czero_nez :: insn_fn where
  "insn_czero_nez v insn pc s = ext1 EXT_ZICOND (r_form (\<lambda>a b. if b \<noteq> 0 then 0 else a)) v insn pc s"

text \<open>The loops of the counting instructions: the first position whose bit is set, or the bound.\<close>

definition first_set :: "(nat \<Rightarrow> nat) \<Rightarrow> nat \<Rightarrow> reg_t \<Rightarrow> reg_t" where
  "first_set place n a = (case find (\<lambda>i. 1 AND drop_bit (place i) a \<noteq> 0) [0..<n] of None \<Rightarrow> of_nat n | Some i \<Rightarrow> of_nat i)"

definition count_set :: "nat \<Rightarrow> reg_t \<Rightarrow> reg_t" where
  "count_set n a = fold (\<lambda>i x. if 1 AND drop_bit i a \<noteq> 0 then x + 1 else x) [0..<n] 0"

definition insn_clz :: insn_fn where
  "insn_clz v insn pc s = ext1 EXT_ZBB (i_form (\<lambda>a. sext (first_set (\<lambda>i. v_xlen v - i - 1) (v_xlen v) a) (v_xlen v))) v insn pc s"

definition insn_ctz :: insn_fn where
  "insn_ctz v insn pc s = ext1 EXT_ZBB (i_form (\<lambda>a. sext (first_set (\<lambda>i. i) (v_xlen v) a) (v_xlen v))) v insn pc s"

definition insn_cpop :: insn_fn where
  "insn_cpop v insn pc s = ext1 EXT_ZBB (i_form (\<lambda>a. sext (count_set (v_xlen v) a) (v_xlen v))) v insn pc s"

definition insn_clzw :: insn_fn where
  "insn_clzw v insn pc s = rv64_only (ext1 EXT_ZBB (i_form (\<lambda>a. sext32 (first_set (\<lambda>i. 31 - i) 32 a)))) v insn pc s"

definition insn_ctzw :: insn_fn where
  "insn_ctzw v insn pc s = rv64_only (ext1 EXT_ZBB (i_form (\<lambda>a. sext32 (first_set (\<lambda>i. i) 32 a)))) v insn pc s"

definition insn_cpopw :: insn_fn where
  "insn_cpopw v insn pc s = rv64_only (ext1 EXT_ZBB (i_form (\<lambda>a. sext32 (count_set 32 a)))) v insn pc s"

section \<open>Compressed instructions\<close>

definition c_form1 :: "uint64_t \<Rightarrow> uint64_t \<Rightarrow> (reg_t \<Rightarrow> reg_t) \<Rightarrow> insn_fn" where
  "c_form1 d r f v insn pc s = (let s = prologue s in read_reg v insn s r (\<lambda>a. write_reg v insn d (f a) (first_npc v pc 2) s))"

definition c_form2 :: "uint64_t \<Rightarrow> uint64_t \<Rightarrow> uint64_t \<Rightarrow> (reg_t \<Rightarrow> reg_t \<Rightarrow> reg_t) \<Rightarrow> insn_fn" where
  "c_form2 d r1 r2 f v insn pc s =
     (let s = prologue s
      in read_reg v insn s r1 (\<lambda>a. read_reg v insn s r2 (\<lambda>b. write_reg v insn d (f a b) (first_npc v pc 2) s)))"

definition insn_c_add :: insn_fn where
  "insn_c_add v insn pc s = ext1 EXT_ZCA (\<lambda>v insn pc s. require insn (rvc_rs2 insn \<noteq> 0) (c_form2 (rvc_rd insn) (rvc_rs1 insn) (rvc_rs2 insn) (\<lambda>a b. sext (a + b) (v_xlen v)) v insn pc s)) v insn pc s"

definition insn_c_addi :: insn_fn where
  "insn_c_addi v insn pc s = ext1 EXT_ZCA (\<lambda>v insn pc s. c_form1 (rvc_rd insn) (rvc_rs1 insn) (\<lambda>a. sext (a + rvc_imm insn) (v_xlen v)) v insn pc s) v insn pc s"

definition insn_c_addi4spn :: insn_fn where
  "insn_c_addi4spn v insn pc s = ext1 EXT_ZCA (\<lambda>v insn pc s. require insn (rvc_addi4spn_imm insn \<noteq> 0) (c_form1 (rvc_rs2s insn) (X_SP) (\<lambda>a. sext (a + rvc_addi4spn_imm insn) (v_xlen v)) v insn pc s)) v insn pc s"

definition insn_c_addw :: insn_fn where
  "insn_c_addw v insn pc s = ext1 EXT_ZCA (\<lambda>v insn pc s. require insn (v_xlen v = 64) (c_form2 (rvc_rs1s insn) (rvc_rs1s insn) (rvc_rs2s insn) (\<lambda>a b. sext32 (a + b)) v insn pc s)) v insn pc s"

definition insn_c_subw :: insn_fn where
  "insn_c_subw v insn pc s = ext1 EXT_ZCA (\<lambda>v insn pc s. require insn (v_xlen v = 64) (c_form2 (rvc_rs1s insn) (rvc_rs1s insn) (rvc_rs2s insn) (\<lambda>a b. sext32 (a - b)) v insn pc s)) v insn pc s"

definition insn_c_and :: insn_fn where
  "insn_c_and v insn pc s = ext1 EXT_ZCA (\<lambda>v insn pc s. c_form2 (rvc_rs1s insn) (rvc_rs1s insn) (rvc_rs2s insn) (\<lambda>a b. a AND b) v insn pc s) v insn pc s"

definition insn_c_or :: insn_fn where
  "insn_c_or v insn pc s = ext1 EXT_ZCA (\<lambda>v insn pc s. c_form2 (rvc_rs1s insn) (rvc_rs1s insn) (rvc_rs2s insn) (\<lambda>a b. a OR b) v insn pc s) v insn pc s"

definition insn_c_xor :: insn_fn where
  "insn_c_xor v insn pc s = ext1 EXT_ZCA (\<lambda>v insn pc s. c_form2 (rvc_rs1s insn) (rvc_rs1s insn) (rvc_rs2s insn) (\<lambda>a b. a XOR b) v insn pc s) v insn pc s"

definition insn_c_sub :: insn_fn where
  "insn_c_sub v insn pc s = ext1 EXT_ZCA (\<lambda>v insn pc s. c_form2 (rvc_rs1s insn) (rvc_rs1s insn) (rvc_rs2s insn) (\<lambda>a b. sext (a - b) (v_xlen v)) v insn pc s) v insn pc s"

definition insn_c_andi :: insn_fn where
  "insn_c_andi v insn pc s = ext1 EXT_ZCA (\<lambda>v insn pc s. c_form1 (rvc_rs1s insn) (rvc_rs1s insn) (\<lambda>a. a AND rvc_imm insn) v insn pc s) v insn pc s"

definition insn_c_li :: insn_fn where
  "insn_c_li v insn pc s = ext1 EXT_ZCA (\<lambda>v insn pc s. (let s = prologue s in write_reg v insn (rvc_rd insn) (rvc_imm insn) (first_npc v pc 2) s)) v insn pc s"

definition insn_c_mv :: insn_fn where
  "insn_c_mv v insn pc s = ext1 EXT_ZCA (\<lambda>v insn pc s. require insn (rvc_rs2 insn \<noteq> 0) (c_form1 (rvc_rd insn) (rvc_rs2 insn) (\<lambda>a. a) v insn pc s)) v insn pc s"

definition insn_c_slli :: insn_fn where
  "insn_c_slli v insn pc s = ext1 EXT_ZCA (\<lambda>v insn pc s. require insn (rvc_zimm insn < of_nat (v_xlen v)) (c_form1 (rvc_rd insn) (rvc_rs1 insn) (\<lambda>a. sext (push_bit (unat (rvc_zimm insn)) a) (v_xlen v)) v insn pc s)) v insn pc s"

definition insn_c_srli :: insn_fn where
  "insn_c_srli v insn pc s = ext1 EXT_ZCA (\<lambda>v insn pc s. require insn (rvc_zimm insn < of_nat (v_xlen v)) (c_form1 (rvc_rs1s insn) (rvc_rs1s insn) (\<lambda>a. sext (drop_bit (unat (rvc_zimm insn)) (zext a (v_xlen v))) (v_xlen v)) v insn pc s)) v insn pc s"

definition insn_c_srai :: insn_fn where
  "insn_c_srai v insn pc s = ext1 EXT_ZCA (\<lambda>v insn pc s. require insn (rvc_zimm insn < of_nat (v_xlen v)) (c_form1 (rvc_rs1s insn) (rvc_rs1s insn) (\<lambda>a. sext (signed_drop_bit (unat (rvc_zimm insn)) (sext a (v_xlen v))) (v_xlen v)) v insn pc s)) v insn pc s"

definition insn_c_j :: insn_fn where
  "insn_c_j v insn pc s =
     ext1 EXT_ZCA (\<lambda>v insn pc s. set_pc v (pc + rvc_j_imm insn) (prologue s) (\<lambda>npc s. Inr (npc, s))) v insn pc s"

definition insn_c_beqz :: insn_fn where
  "insn_c_beqz v insn pc s =
     ext1 EXT_ZCA (\<lambda>v insn pc s. let s = prologue s in read_reg v insn s (rvc_rs1s insn) (\<lambda>a.
       if a = 0 then set_pc v (pc + rvc_b_imm insn) s (\<lambda>npc s. Inr (npc, s)) else Inr (first_npc v pc 2, s))) v insn pc s"

definition insn_c_bnez :: insn_fn where
  "insn_c_bnez v insn pc s =
     ext1 EXT_ZCA (\<lambda>v insn pc s. let s = prologue s in read_reg v insn s (rvc_rs1s insn) (\<lambda>a.
       if a \<noteq> 0 then set_pc v (pc + rvc_b_imm insn) s (\<lambda>npc s. Inr (npc, s)) else Inr (first_npc v pc 2, s))) v insn pc s"

definition insn_c_jr :: insn_fn where
  "insn_c_jr v insn pc s =
     ext1 EXT_ZCA (\<lambda>v insn pc s. require insn (rvc_rs1 insn \<noteq> 0) (let s = prologue s in read_reg v insn s (rvc_rs1 insn) (\<lambda>a.
       set_pc v (a AND NOT 1) s (\<lambda>npc s. landing_pad (rvc_rs1 insn) npc s)))) v insn pc s"

definition insn_c_jalr :: insn_fn where
  "insn_c_jalr v insn pc s =
     ext1 EXT_ZCA (\<lambda>v insn pc s. require insn (rvc_rs1 insn \<noteq> 0) (let s = prologue s; tmp = first_npc v pc 2 in read_reg v insn s (rvc_rs1 insn) (\<lambda>a.
       set_pc v (a AND NOT 1) s (\<lambda>npc s.
         case write_reg v insn X_RA tmp npc s of
           Inl t \<Rightarrow> Inl t
         | Inr (npc, s) \<Rightarrow> landing_pad (rvc_rs1 insn) npc s)))) v insn pc s"

end
