(* ===== verification/ALU_Spec.thy ===== *)
theory ALU_Spec
  imports Insns
begin

text \<open>
  What the integer computations of \<^verbatim>\<open>riscv/insns/\<close> compute, stated on words of the register width as the instruction set manual does. A source
  file computes on 64-bit host integers whatever the width: at 32 bits the registers hold sign-extended values, operands are cut or extended as each operation
  needs, and the result is sign-extended again. The specification has none of this: it is one polymorphic function, used at 32 and at 64 bits.
\<close>

unbundle bit_operations_syntax

section \<open>What the computations compute\<close>

datatype alu_op = Add | Sub | Sll | Slt | Sltu | Xor | Srl | Sra | Or | And | Mul | Mulh | Mulhsu | Mulhu | Div | Divu | Rem | Remu |
  Andn | Orn | Xnor | Max | Maxu | Min | Minu | Rol | Ror | Sh1add | Sh2add | Sh3add | Bclr | Bext | Binv | Bset | Czero_eqz | Czero_nez

text \<open>The operations on words of the register width, as the instruction set manual defines them.\<close>

definition shift_amount :: "'a::len word \<Rightarrow> nat" where
  "shift_amount b = unat b mod LENGTH('a)"

fun alu_spec :: "alu_op \<Rightarrow> 'a::len word \<Rightarrow> 'a word \<Rightarrow> 'a word" where
  "alu_spec Add a b = a + b"
| "alu_spec Sub a b = a - b"
| "alu_spec Sll a b = push_bit (shift_amount b) a"
| "alu_spec Slt a b = of_bool (sint a < sint b)"
| "alu_spec Sltu a b = of_bool (uint a < uint b)"
| "alu_spec Xor a b = a XOR b"
| "alu_spec Srl a b = drop_bit (shift_amount b) a"
| "alu_spec Sra a b = signed_drop_bit (shift_amount b) a"
| "alu_spec Or a b = a OR b"
| "alu_spec And a b = a AND b"
| "alu_spec Mul a b = a * b"
| "alu_spec Mulh a b = word_of_int (sint a * sint b div 2 ^ LENGTH('a))"
| "alu_spec Mulhsu a b = word_of_int (sint a * uint b div 2 ^ LENGTH('a))"
| "alu_spec Mulhu a b = word_of_int (uint a * uint b div 2 ^ LENGTH('a))"
| "alu_spec Div a b = (if b = 0 then - 1 else word_of_int (sint a sdiv sint b))"
| "alu_spec Divu a b = (if b = 0 then - 1 else word_of_int (uint a div uint b))"
| "alu_spec Rem a b = (if b = 0 then a else word_of_int (sint a smod sint b))"
| "alu_spec Remu a b = (if b = 0 then a else word_of_int (uint a mod uint b))"
| "alu_spec Andn a b = a AND NOT b"
| "alu_spec Orn a b = a OR NOT b"
| "alu_spec Xnor a b = NOT (a XOR b)"
| "alu_spec Max a b = (if sint b < sint a then a else b)"
| "alu_spec Maxu a b = (if uint b < uint a then a else b)"
| "alu_spec Min a b = (if sint a < sint b then a else b)"
| "alu_spec Minu a b = (if uint a < uint b then a else b)"
| "alu_spec Rol a b = word_rotl (shift_amount b) a"
| "alu_spec Ror a b = word_rotr (shift_amount b) a"
| "alu_spec Sh1add a b = 2 * a + b"
| "alu_spec Sh2add a b = 4 * a + b"
| "alu_spec Sh3add a b = 8 * a + b"
| "alu_spec Bclr a b = unset_bit (shift_amount b) a"
| "alu_spec Bext a b = of_bool (bit a (shift_amount b))"
| "alu_spec Binv a b = flip_bit (shift_amount b) a"
| "alu_spec Bset a b = set_bit (shift_amount b) a"
| "alu_spec Czero_eqz a b = (if b = 0 then 0 else a)"
| "alu_spec Czero_nez a b = (if b \<noteq> 0 then 0 else a)"

fun op_insn :: "alu_op \<Rightarrow> insn_fn" where
  "op_insn Add = insn_add"
| "op_insn Sub = insn_sub"
| "op_insn Sll = insn_sll"
| "op_insn Slt = insn_slt"
| "op_insn Sltu = insn_sltu"
| "op_insn Xor = insn_xor"
| "op_insn Srl = insn_srl"
| "op_insn Sra = insn_sra"
| "op_insn Or = insn_or"
| "op_insn And = insn_and"
| "op_insn Mul = insn_mul"
| "op_insn Mulh = insn_mulh"
| "op_insn Mulhsu = insn_mulhsu"
| "op_insn Mulhu = insn_mulhu"
| "op_insn Div = insn_div"
| "op_insn Divu = insn_divu"
| "op_insn Rem = insn_rem"
| "op_insn Remu = insn_remu"
| "op_insn Andn = insn_andn"
| "op_insn Orn = insn_orn"
| "op_insn Xnor = insn_xnor"
| "op_insn Max = insn_max"
| "op_insn Maxu = insn_maxu"
| "op_insn Min = insn_min"
| "op_insn Minu = insn_minu"
| "op_insn Rol = insn_rol"
| "op_insn Ror = insn_ror"
| "op_insn Sh1add = insn_sh1add"
| "op_insn Sh2add = insn_sh2add"
| "op_insn Sh3add = insn_sh3add"
| "op_insn Bclr = insn_bclr"
| "op_insn Bext = insn_bext"
| "op_insn Binv = insn_binv"
| "op_insn Bset = insn_bset"
| "op_insn Czero_eqz = insn_czero_eqz"
| "op_insn Czero_nez = insn_czero_nez"

fun op_enabled :: "alu_op \<Rightarrow> cpu \<Rightarrow> bool" where
  "op_enabled Mul s = (extension_enabled s EXT_M \<or> extension_enabled s EXT_ZMMUL)"
| "op_enabled Mulh s = (extension_enabled s EXT_M \<or> extension_enabled s EXT_ZMMUL)"
| "op_enabled Mulhsu s = (extension_enabled s EXT_M \<or> extension_enabled s EXT_ZMMUL)"
| "op_enabled Mulhu s = (extension_enabled s EXT_M \<or> extension_enabled s EXT_ZMMUL)"
| "op_enabled Div s = (extension_enabled s EXT_M)"
| "op_enabled Divu s = (extension_enabled s EXT_M)"
| "op_enabled Rem s = (extension_enabled s EXT_M)"
| "op_enabled Remu s = (extension_enabled s EXT_M)"
| "op_enabled Andn s = (extension_enabled s EXT_ZBB \<or> extension_enabled s EXT_ZBKB)"
| "op_enabled Orn s = (extension_enabled s EXT_ZBB \<or> extension_enabled s EXT_ZBKB)"
| "op_enabled Xnor s = (extension_enabled s EXT_ZBB \<or> extension_enabled s EXT_ZBKB)"
| "op_enabled Max s = (extension_enabled s EXT_ZBB)"
| "op_enabled Maxu s = (extension_enabled s EXT_ZBB)"
| "op_enabled Min s = (extension_enabled s EXT_ZBB)"
| "op_enabled Minu s = (extension_enabled s EXT_ZBB)"
| "op_enabled Rol s = (extension_enabled s EXT_ZBB \<or> extension_enabled s EXT_ZBKB)"
| "op_enabled Ror s = (extension_enabled s EXT_ZBB \<or> extension_enabled s EXT_ZBKB)"
| "op_enabled Sh1add s = (extension_enabled s EXT_ZBA)"
| "op_enabled Sh2add s = (extension_enabled s EXT_ZBA)"
| "op_enabled Sh3add s = (extension_enabled s EXT_ZBA)"
| "op_enabled Bclr s = (extension_enabled s EXT_ZBS)"
| "op_enabled Bext s = (extension_enabled s EXT_ZBS)"
| "op_enabled Binv s = (extension_enabled s EXT_ZBS)"
| "op_enabled Bset s = (extension_enabled s EXT_ZBS)"
| "op_enabled Czero_eqz s = (extension_enabled s EXT_ZICOND)"
| "op_enabled Czero_nez s = (extension_enabled s EXT_ZICOND)"
| "op_enabled _ s = True"

text \<open>The value that an instruction writes, by register width.\<close>

fun alu_val :: "alu_op \<Rightarrow> nat \<Rightarrow> reg_t \<Rightarrow> reg_t \<Rightarrow> reg_t" where
  "alu_val Add xl a b = (sext (a + b) xl)"
| "alu_val Sub xl a b = (sext (a - b) xl)"
| "alu_val Sll xl a b = (sext (push_bit (unat (b AND of_nat (xl - 1))) a) xl)"
| "alu_val Slt xl a b = (of_bool (sint a < sint b))"
| "alu_val Sltu xl a b = (of_bool (a < b))"
| "alu_val Xor xl a b = (a XOR b)"
| "alu_val Srl xl a b = (sext (drop_bit (unat (b AND of_nat (xl - 1))) (zext a xl)) xl)"
| "alu_val Sra xl a b = (sext (signed_drop_bit (unat (b AND of_nat (xl - 1))) (sext a xl)) xl)"
| "alu_val Or xl a b = (a OR b)"
| "alu_val And xl a b = (a AND b)"
| "alu_val Mul xl a b = (sext (a * b) xl)"
| "alu_val Mulh xl a b = (if xl = 64 then mulh a b else sext32 (signed_drop_bit 32 (sext32 a * sext32 b)))"
| "alu_val Mulhsu xl a b = (if xl = 64 then mulhsu a b else sext32 (drop_bit 32 (sext32 a * zext32 b)))"
| "alu_val Mulhu xl a b = (if xl = 64 then mulhu a b else sext32 (drop_bit 32 (zext32 a * zext32 b)))"
| "alu_val Div xl a b = (let lhs = sext a xl; rhs = sext b xl
       in if rhs = 0 then - 1 else if lhs = INT64_MIN \<and> rhs = - 1 then lhs else sext (c_div lhs rhs) xl)"
| "alu_val Divu xl a b = (let lhs = zext a xl; rhs = zext b xl in if rhs = 0 then - 1 else sext (lhs div rhs) xl)"
| "alu_val Rem xl a b = (let lhs = sext a xl; rhs = sext b xl
       in if rhs = 0 then lhs else if lhs = INT64_MIN \<and> rhs = - 1 then 0 else sext (c_rem lhs rhs) xl)"
| "alu_val Remu xl a b = (let lhs = zext a xl; rhs = zext b xl in if rhs = 0 then sext a xl else sext (lhs mod rhs) xl)"
| "alu_val Andn xl a b = (a AND NOT b)"
| "alu_val Orn xl a b = (a OR NOT b)"
| "alu_val Xnor xl a b = (a XOR NOT b)"
| "alu_val Max xl a b = (sext (if sint b < sint a then a else b) xl)"
| "alu_val Maxu xl a b = (sext (if b < a then a else b) xl)"
| "alu_val Min xl a b = (sext (if sint a < sint b then a else b) xl)"
| "alu_val Minu xl a b = (sext (if a < b then a else b) xl)"
| "alu_val Rol xl a b = (sext (push_bit (unat (b AND of_nat (xl - 1))) a OR drop_bit (unat (- (b AND of_nat (xl - 1)) AND of_nat (xl - 1))) (zext a xl)) xl)"
| "alu_val Ror xl a b = (sext (push_bit (unat (- (b AND of_nat (xl - 1)) AND of_nat (xl - 1))) a OR drop_bit (unat (b AND of_nat (xl - 1))) (zext a xl)) xl)"
| "alu_val Sh1add xl a b = (sext (push_bit 1 a + b) xl)"
| "alu_val Sh2add xl a b = (sext (push_bit 2 a + b) xl)"
| "alu_val Sh3add xl a b = (sext (push_bit 3 a + b) xl)"
| "alu_val Bclr xl a b = (sext (a AND NOT (push_bit (unat (b AND of_nat (xl - 1))) 1)) xl)"
| "alu_val Bext xl a b = (sext (1 AND drop_bit (unat (b AND of_nat (xl - 1))) a) xl)"
| "alu_val Binv xl a b = (sext (a XOR push_bit (unat (b AND of_nat (xl - 1))) 1) xl)"
| "alu_val Bset xl a b = (sext (a OR push_bit (unat (b AND of_nat (xl - 1))) 1) xl)"
| "alu_val Czero_eqz xl a b = (if b = 0 then 0 else a)"
| "alu_val Czero_nez xl a b = (if b \<noteq> 0 then 0 else a)"

lemmas op_defs = insn_add_def insn_sub_def insn_sll_def insn_slt_def insn_sltu_def insn_xor_def insn_srl_def insn_sra_def insn_or_def insn_and_def insn_mul_def insn_mulh_def insn_mulhsu_def insn_mulhu_def insn_div_def insn_divu_def insn_rem_def insn_remu_def insn_andn_def insn_orn_def insn_xnor_def insn_max_def insn_maxu_def insn_min_def insn_minu_def insn_rol_def insn_ror_def insn_sh1add_def insn_sh2add_def insn_sh3add_def insn_bclr_def insn_bext_def insn_binv_def insn_bset_def insn_czero_eqz_def insn_czero_nez_def

lemma op_insn_form: "op_insn op v insn pc s = require insn (op_enabled op s) (r_form (alu_val op (v_xlen v)) v insn pc s)"
  by (cases op) (simp_all add: op_defs ext1_def ext2_def require_def alu_val.simps [abs_def])

section \<open>Shift amounts and rotations\<close>

lemma sext_64 [simp]: "sext w 64 = w" and zext_64 [simp]: "zext w 64 = w"
  by (simp_all add: sext_def zext_def)

lemma and_mask_mod: "unat (b AND mask n :: 'a::len word) = unat b mod 2 ^ n"
  unfolding take_bit_eq_mask [symmetric] unsigned_take_bit_eq by (simp only: take_bit_eq_mod)

lemma mask_63: "(63 :: reg_t) = mask 6" and mask_31: "(31 :: reg_t) = mask 5"
  by (simp_all add: mask_eq_exp_minus_1)

lemma unat_and_63: "unat (b AND 63 :: reg_t) = unat b mod 64"
  unfolding mask_63 and_mask_mod by simp

lemma unat_and_31: "unat (b AND 31 :: reg_t) = unat b mod 32"
  unfolding mask_31 and_mask_mod by simp

lemma neg_and_mask_mod:
  assumes "n < LENGTH('a)"
  shows "unat (- (b AND mask n) AND mask n :: 'a::len word) = (2 ^ n - unat b mod 2 ^ n) mod 2 ^ n"
proof -
  define m where "m = unat b mod 2 ^ n"
  have m: "unat (b AND mask n) = m" by (simp only: and_mask_mod m_def)
  have lt: "m < 2 ^ n" by (simp add: m_def)
  have "2 ^ n dvd (2 :: nat) ^ LENGTH('a)" using assms by (simp add: le_imp_power_dvd)
  then obtain k where k: "2 ^ LENGTH('a) = 2 ^ n * (k :: nat)" by (elim dvdE)
  have k0: "0 < k" using k by (cases k) auto
  have "unat (- (b AND mask n)) mod 2 ^ n = (2 ^ n - m) mod 2 ^ n"
  proof (cases "m = 0")
    case True
    then have "b AND mask n = 0" using m by (simp only: unat_eq_0)
    then show ?thesis using True by simp
  next
    case False
    have "unat (- (b AND mask n)) = 2 ^ LENGTH('a) - m"
      using unat_sub_if_size [of 0 "b AND mask n"] False m by (simp add: word_size)
    moreover have "2 ^ LENGTH('a) - m = (2 ^ n - m) + 2 ^ n * (k - 1)" using k k0 lt by (cases k) auto
    ultimately show ?thesis by simp
  qed
  then show ?thesis unfolding and_mask_mod m_def .
qed

lemma unat_neg_and_63: "unat (- (b AND 63) AND 63 :: reg_t) = (64 - unat b mod 64) mod 64"
  unfolding mask_63 by (subst neg_and_mask_mod) simp_all

lemma unat_neg_and_31: "unat (- (b AND 31) AND 31 :: reg_t) = (32 - unat b mod 32) mod 32"
  unfolding mask_31 by (subst neg_and_mask_mod) simp_all

lemma rotl_shifts:
  fixes w :: "'a::len word"
  assumes "n < LENGTH('a)"
  shows "push_bit n w OR drop_bit ((LENGTH('a) - n) mod LENGTH('a)) w = word_rotl n w"
proof (cases "n = 0")
  case False
  then have r: "(LENGTH('a) - n) mod LENGTH('a) = LENGTH('a) - n" using assms by simp
  show ?thesis
  proof (rule bit_word_eqI)
    fix i assume i: "i < LENGTH('a)"
    show "bit (push_bit n w OR drop_bit ((LENGTH('a) - n) mod LENGTH('a)) w) i = bit (word_rotl n w) i"
    proof (cases "i < n")
      case True
      have "(i + (LENGTH('a) - n)) mod LENGTH('a) = i + (LENGTH('a) - n)" using True assms by simp
      then show ?thesis using True i assms False r
        by (simp add: bit_word_rotl_iff bit_or_iff bit_push_bit_iff bit_drop_bit_eq add.commute)
    next
      case ge: False
      have "i + (LENGTH('a) - n) = (i - n) + LENGTH('a)" using ge i assms by simp
      then have "(i + (LENGTH('a) - n)) mod LENGTH('a) = i - n" using i by (simp only: mod_add_self2 mod_less less_imp_diff_less)
      moreover have "\<not> bit w (LENGTH('a) - n + i)" using ge assms bit_imp_le_length [of w "LENGTH('a) - n + i"] by auto
      ultimately show ?thesis using ge i assms False r
        by (simp add: bit_word_rotl_iff bit_or_iff bit_push_bit_iff bit_drop_bit_eq)
    qed
  qed
qed (auto intro: bit_word_eqI simp: bit_word_rotl_iff)


lemma rotr_shifts:
  fixes w :: "'a::len word"
  assumes "n < LENGTH('a)"
  shows "push_bit ((LENGTH('a) - n) mod LENGTH('a)) w OR drop_bit n w = word_rotr n w"
proof (cases "n = 0")
  case False
  have "word_rotr n w = word_rotl (LENGTH('a) - n) w"
    by (rule bit_word_eqI) (use assms False in \<open>simp add: bit_word_rotl_iff bit_word_rotr_iff\<close>)
  then show ?thesis using rotl_shifts [of "LENGTH('a) - n" w] assms False by simp
qed (auto intro: bit_word_eqI simp: bit_word_rotr_iff)

lemma one_and_drop: "1 AND drop_bit n w = of_bool (bit w n)" for w :: "'a::len word"
  by (rule bit_word_eqI) (auto simp: bit_simps)

section \<open>The 64-bit computations\<close>

lemma alu_val_64_mul:
  "alu_val Mulh 64 a b = alu_spec Mulh a b" "alu_val Mulhsu 64 a b = alu_spec Mulhsu a b" "alu_val Mulhu 64 a b = alu_spec Mulhu a b"
proof -
  have "mulh a b = word_of_int (sint a * sint b div 2 ^ 64)" unfolding mulh_sint [symmetric] by simp
  then show "alu_val Mulh 64 a b = alu_spec Mulh a b" by simp
  have "mulhsu a b = word_of_int (sint a * int (unat b) div 2 ^ 64)" unfolding mulhsu_sint [symmetric] by simp
  then show "alu_val Mulhsu 64 a b = alu_spec Mulhsu a b" by simp
  have "mulhu a b = word_of_int (int (unat (mulhu a b)))" by simp
  then have "mulhu a b = word_of_int (int (unat a) * int (unat b) div 2 ^ 64)"
    unfolding mulhu_unat zdiv_int of_nat_mult by simp
  then show "alu_val Mulhu 64 a b = alu_spec Mulhu a b" by simp
qed

lemma alu_val_64_div: "alu_val Div 64 a b = alu_spec Div a b" "alu_val Rem 64 a b = alu_spec Rem a b"
proof -
  have m: "sint INT64_MIN = - (2 ^ 63)" by (simp add: INT64_MIN_def)
  have "word_of_int (sint INT64_MIN sdiv - 1) = INT64_MIN" "word_of_int (sint INT64_MIN smod - 1) = (0 :: reg_t)"
    unfolding m by (simp_all add: INT64_MIN_def signed_modulo_int_def)
  then show "alu_val Div 64 a b = alu_spec Div a b" "alu_val Rem 64 a b = alu_spec Rem a b"
    by (simp_all add: c_div_def c_rem_def Let_def)
qed

lemma alu_val_64: "alu_val op 64 a b = alu_spec op a b"
proof (cases op)
  case Rol then show ?thesis using rotl_shifts [of "unat b mod 64" a] unat_neg_and_63 [of b] by (simp add: shift_amount_def unat_and_63)
next
  case Ror then show ?thesis using rotr_shifts [of "unat b mod 64" a] unat_neg_and_63 [of b] by (simp add: shift_amount_def unat_and_63)
next
  case Mulh then show ?thesis by (simp only: alu_val_64_mul)
next
  case Mulhsu then show ?thesis by (simp only: alu_val_64_mul)
next
  case Mulhu then show ?thesis by (simp only: alu_val_64_mul)
next
  case Div then show ?thesis by (simp only: alu_val_64_div)
next
  case Rem then show ?thesis by (simp only: alu_val_64_div)
qed (simp_all add: shift_amount_def unat_and_63 word_less_def push_bit_eq_mult unset_bit_eq_and_not flip_bit_eq_xor set_bit_eq_or one_and_drop
      Let_def word_div_def word_mod_def)


section \<open>The 32-bit computations\<close>

abbreviation lo :: "reg_t \<Rightarrow> uint32_t" where "lo w \<equiv> ucast w"

abbreviation sx :: "uint32_t \<Rightarrow> reg_t" where "sx x \<equiv> scast x"

lemma bit_sx: "bit (sx x) n \<longleftrightarrow> n < 64 \<and> bit x (min n 31)"
  by (auto simp: bit_signed_iff min_def)

lemma bit_lo: "bit (lo w) n \<longleftrightarrow> n < 32 \<and> bit w n"
  by (auto simp: bit_unsigned_iff)

lemma sext_32: "sext w 32 = sx (lo w)"
  by (rule bit_word_eqI) (auto simp: bit_sext bit_sx bit_lo min_def)

lemma zext_32: "zext w 32 = ucast (lo w)"
  by (rule bit_word_eqI) (auto simp: zext_take_bit bit_take_bit_iff bit_lo bit_unsigned_iff)

lemma lo_sx [simp]: "lo (sx x) = x"
  by (rule bit_word_eqI) (auto simp: bit_lo bit_sx min_def)

lemma lo_ucast [simp]: "lo (ucast (x :: uint32_t)) = x"
  by (rule bit_word_eqI) (auto simp: bit_lo bit_unsigned_iff)

lemma sint_32_range: "- (2 ^ 31) \<le> sint (x :: uint32_t)" "sint x < 2 ^ 31"
  using sint_range_size [of x] by (simp_all add: word_size)

lemma sint_sx [simp]: "sint (sx x) = sint x"
  using sint_32_range [of x] by (simp add: signed_scast_eq signed_take_bit_int_eq_self_iff)

lemma lo_word_of_int: "lo (word_of_int k) = word_of_int k"
  by (rule bit_word_eqI) (simp add: bit_lo bit_word_of_int_iff)

lemma lo_arith: "lo (a + b) = lo a + lo b" "lo (a - b) = lo a - lo b" "lo (a * b) = lo a * lo b"
proof -
  have l: "lo w = word_of_int (uint w)" for w using lo_word_of_int [of "uint w"] by simp
  have "lo (word_of_int (uint a + uint b)) = lo a + lo b" "lo (word_of_int (uint a - uint b)) = lo a - lo b"
    "lo (word_of_int (uint a * uint b)) = lo a * lo b"
    unfolding lo_word_of_int l [of a] l [of b] by simp_all
  then show "lo (a + b) = lo a + lo b" "lo (a - b) = lo a - lo b" "lo (a * b) = lo a * lo b" by simp_all
qed

lemma lo_push: "lo (push_bit n a) = push_bit n (lo a)"
  by (rule bit_word_eqI) (auto simp: bit_lo bit_push_bit_iff)

lemma lo_bitwise: "lo (a AND b) = lo a AND lo b" "lo (a OR b) = lo a OR lo b" "lo (a XOR b) = lo a XOR lo b" "lo (NOT a) = NOT (lo a)"
  by (auto intro!: bit_word_eqI simp: bit_lo bit_and_iff bit_or_iff bit_xor_iff bit_not_iff)

lemma sx_bitwise: "sx (x AND y) = sx x AND sx y" "sx (x OR y) = sx x OR sx y" "sx (x XOR y) = sx x XOR sx y" "sx (NOT x) = NOT (sx x)"
  by (auto intro!: bit_word_eqI simp: bit_sx bit_and_iff bit_or_iff bit_xor_iff bit_not_iff)

lemma sx_eq [simp]: "sx x = sx y \<longleftrightarrow> x = y"
  using lo_sx [of x] lo_sx [of y] by metis

lemma uint_sx: "uint (sx x) = sint x mod 2 ^ 64" and uint_lo: "uint x = sint x mod 2 ^ 32" for x :: uint32_t
  using uint_sint [of "sx x"] uint_sint [of x] by (simp_all add: take_bit_eq_mod)

lemma sx_less: "sx x < sx y \<longleftrightarrow> x < y"
proof -
  have m: "sint z mod 2 ^ 64 = (if sint z < 0 then sint z + 2 ^ 64 else sint z)" "sint z mod 2 ^ 32 = (if sint z < 0 then sint z + 2 ^ 32 else sint z)"
    for z :: uint32_t using sint_32_range [of z] mod_pos_pos_trivial [of "sint z + 2 ^ 64" "2 ^ 64"] mod_pos_pos_trivial [of "sint z + 2 ^ 32" "2 ^ 32"] by auto
  show ?thesis unfolding word_less_def uint_sx uint_lo m using sint_32_range [of x] sint_32_range [of y] by auto
qed

lemma lo_drop_ucast: "lo (drop_bit n (ucast (x :: uint32_t))) = drop_bit n x"
  by (rule bit_word_eqI) (auto simp: bit_lo bit_drop_bit_eq bit_unsigned_iff dest: bit_imp_le_length)

lemma lo_signed_drop: "n < 32 \<Longrightarrow> lo (signed_drop_bit n (sx x)) = signed_drop_bit n x"
  by (rule bit_word_eqI) (auto simp: bit_lo bit_signed_drop_bit_iff bit_sx min_def)

lemma lo_high: "lo (drop_bit 32 (word_of_int k)) = word_of_int (k div 2 ^ 32)"
  by (rule bit_word_eqI) (simp add: bit_lo bit_drop_bit_eq bit_word_of_int_iff drop_bit_eq_div [of 32 k, symmetric, simplified])

lemma lo_signed_high: "lo (signed_drop_bit 32 w) = lo (drop_bit 32 w)"
  by (rule bit_word_eqI) (auto simp: bit_lo bit_drop_bit_eq bit_signed_drop_bit_iff)

lemma unat_lo_mod: "unat (lo b) mod 32 = unat b mod 32"
  by (simp add: unsigned_ucast_eq take_bit_eq_mod mod_mod_cancel)

lemma shift_amount_32: "unat (b AND 31) = shift_amount (lo b)"
  unfolding shift_amount_def unat_and_31 unat_lo_mod [symmetric] by simp

lemma neg_shift_amount_32: "shift_amount (lo (- (b AND 31))) = (32 - shift_amount (lo b)) mod 32"
  using unat_neg_and_31 [of b] unfolding shift_amount_32 unfolding shift_amount_def unat_lo_mod [symmetric] by simp

lemma shift_amount_32_less: "shift_amount (x :: uint32_t) < 32"
  by (simp add: shift_amount_def)

lemma sx_of_bool: "sx (of_bool c) = of_bool c" and sx_minus_1: "sx (- 1) = - 1" and sx_0: "sx 0 = 0" and sx_if: "sx (if c then x else y) = (if c then sx x else sx y)"
  by simp_all

lemmas alu_32 = sext_32 zext_32 sext32_def zext32_def shift_amount_32 neg_shift_amount_32 lo_arith lo_push lo_bitwise sx_less lo_drop_ucast

lemma sx_int: "sx z = word_of_int (sint z)" and ux_int: "ucast z = (word_of_int (uint z) :: reg_t)" for z :: uint32_t
  by (simp_all only: scast_eq ucast_eq)

lemma alu_val_32_mul:
  "alu_val Mulh 32 (sx x) (sx y) = sx (alu_spec Mulh x y)" "alu_val Mulhsu 32 (sx x) (sx y) = sx (alu_spec Mulhsu x y)"
  "alu_val Mulhu 32 (sx x) (sx y) = sx (alu_spec Mulhu x y)"
proof -
  have "lo (drop_bit 32 (sx x * sx y)) = word_of_int (sint x * sint y div 2 ^ 32)"
    unfolding sx_int of_int_mult [symmetric] by (rule lo_high)
  then show "alu_val Mulh 32 (sx x) (sx y) = sx (alu_spec Mulh x y)" by (simp add: sext32_def lo_signed_high)
  have "lo (drop_bit 32 (sx x * ucast y)) = word_of_int (sint x * uint y div 2 ^ 32)"
    unfolding sx_int ux_int of_int_mult [symmetric] by (rule lo_high)
  then show "alu_val Mulhsu 32 (sx x) (sx y) = sx (alu_spec Mulhsu x y)" by (simp add: sext32_def zext32_def)
  have "lo (drop_bit 32 (ucast x * ucast y)) = word_of_int (uint x * uint y div 2 ^ 32)"
    unfolding ux_int of_int_mult [symmetric] by (rule lo_high)
  then show "alu_val Mulhu 32 (sx x) (sx y) = sx (alu_spec Mulhu x y)" by (simp add: sext32_def zext32_def)
qed

lemma sx_eq_0: "sx z = 0 \<longleftrightarrow> z = 0"
  using sx_eq [of z 0] by (simp del: sx_eq)

lemma ux_eq_0: "ucast z = (0 :: reg_t) \<longleftrightarrow> z = 0" for z :: uint32_t
proof
  assume "ucast z = (0 :: reg_t)"
  then have "lo (ucast z) = lo 0" by (simp only:)
  then show "z = 0" by simp
qed simp

lemma lo_power: "lo (2 ^ n) = 2 ^ n"
  using lo_push [of n 1] by simp

lemma bit_sx_shift: "bit (sx x) (shift_amount y) = bit x (shift_amount y)" for y :: uint32_t
  using shift_amount_32_less [of y] by (simp add: bit_sx min_def)

lemma uint_ux: "uint (ucast z :: reg_t) = uint z" for z :: uint32_t
  by (simp add: unsigned_ucast_eq take_bit_int_eq_self_iff) (use uint_lt2p [of z] in simp)

lemma sx_not_min: "sx x \<noteq> INT64_MIN"
  using sint_sx [of x] sint_32_range [of x] by (auto simp: INT64_MIN_def simp del: sint_sx)

lemma alu_val_32_div: "alu_val Div 32 (sx x) (sx y) = sx (alu_spec Div x y)" "alu_val Rem 32 (sx x) (sx y) = sx (alu_spec Rem x y)"
  by (simp_all add: alu_32 c_div_def c_rem_def Let_def lo_word_of_int sx_not_min sx_eq_0)

lemmas alu_32_div = lo_word_of_int word_div_def word_mod_def ux_eq_0 uint_ux

lemma alu_val_32_divu: "alu_val Divu 32 (sx x) (sx y) = sx (alu_spec Divu x y)" "alu_val Remu 32 (sx x) (sx y) = sx (alu_spec Remu x y)"
  by (simp_all add: alu_32 Let_def alu_32_div)

lemma alu_val_32: "alu_val op 32 (sx x) (sx y) = sx (alu_spec op x y)"
proof (cases op)
  case Rol
  then show ?thesis using rotl_shifts [of "shift_amount y" x] shift_amount_32_less [of y] by (simp add: alu_32)
next
  case Ror
  then show ?thesis using rotr_shifts [of "shift_amount y" x] shift_amount_32_less [of y] by (simp add: alu_32)
next
  case Mulh then show ?thesis by (simp only: alu_val_32_mul)
next
  case Mulhsu then show ?thesis by (simp only: alu_val_32_mul)
next
  case Mulhu then show ?thesis by (simp only: alu_val_32_mul)
next
  case Div then show ?thesis by (simp only: alu_val_32_div)
next
  case Rem then show ?thesis by (simp only: alu_val_32_div)
next
  case Divu then show ?thesis by (simp only: alu_val_32_divu)
next
  case Remu then show ?thesis by (simp only: alu_val_32_divu)
next
  case Sra then show ?thesis by (simp add: alu_32 lo_signed_drop shift_amount_32_less)
qed (simp_all add: alu_32 sx_bitwise word_less_def [symmetric] push_bit_eq_mult unset_bit_eq_and_not flip_bit_eq_xor set_bit_eq_or one_and_drop
      sx_eq_0 lo_power bit_sx_shift)

section \<open>The register forms implement the specification\<close>

text \<open>The word forms of the 64-bit base compute at 32 bits.\<close>

fun opw_insn :: "alu_op \<Rightarrow> insn_fn option" where
  "opw_insn Add = Some insn_addw"
| "opw_insn Sub = Some insn_subw"
| "opw_insn Sll = Some insn_sllw"
| "opw_insn Srl = Some insn_srlw"
| "opw_insn Sra = Some insn_sraw"
| "opw_insn Mul = Some insn_mulw"
| "opw_insn Div = Some insn_divw"
| "opw_insn Divu = Some insn_divuw"
| "opw_insn Rem = Some insn_remw"
| "opw_insn Remu = Some insn_remuw"
| "opw_insn Rol = Some insn_rolw"
| "opw_insn Ror = Some insn_rorw"
| "opw_insn _ = None"

lemmas opw_defs = insn_addw_def insn_subw_def insn_sllw_def insn_srlw_def insn_sraw_def insn_mulw_def insn_divw_def insn_divuw_def insn_remw_def
  insn_remuw_def insn_rolw_def insn_rorw_def

lemma opw_insn_form:
  assumes "opw_insn op = Some f"
  shows "f v insn pc s = require insn (v_xlen v = 64 \<and> op_enabled op s) (r_form (\<lambda>a b. sx (alu_spec op (lo a) (lo b))) v insn pc s)"
proof -
  have r: "push_bit (shift_amount y) x OR drop_bit ((32 - shift_amount y) mod 32) x = word_rotl (shift_amount y) x"
      "push_bit ((32 - shift_amount y) mod 32) x OR drop_bit (shift_amount y) x = word_rotr (shift_amount y) x" for x y :: uint32_t
    using rotl_shifts [of "shift_amount y" x] rotr_shifts [of "shift_amount y" x] shift_amount_32_less [of y] by simp_all
  show ?thesis using assms
    by (cases op) (auto simp: opw_defs ext1_def ext2_def rv64_only_def require_def alu_32 alu_32_div r c_div_def c_rem_def Let_def sx_eq_0 sx_if cong: if_cong)
qed

text \<open>The immediate forms take the second operand from the instruction; those of the shifts require the amount to be below the width.\<close>

fun opi_insn :: "alu_op \<Rightarrow> insn_fn option" where
  "opi_insn Add = Some insn_addi"
| "opi_insn Slt = Some insn_slti"
| "opi_insn Sltu = Some insn_sltiu"
| "opi_insn Xor = Some insn_xori"
| "opi_insn Or = Some insn_ori"
| "opi_insn And = Some insn_andi"
| "opi_insn Sll = Some insn_slli"
| "opi_insn Srl = Some insn_srli"
| "opi_insn Sra = Some insn_srai"
| "opi_insn _ = None"

definition is_shift :: "alu_op \<Rightarrow> bool" where
  "is_shift op \<longleftrightarrow> op \<in> {Sll, Srl, Sra}"

lemmas opi_defs = insn_addi_def insn_slti_def insn_sltiu_def insn_xori_def insn_ori_def insn_andi_def insn_slli_def insn_srli_def insn_srai_def

lemma shamt_32: "SHAMT insn < 32 \<Longrightarrow> unat (SHAMT insn) = unat (i_imm insn AND 31)"
  unfolding word_less_nat_alt SHAMT_def unat_and_63 unat_and_31
  using mod_mod_cancel [of 32 64 "unat (i_imm insn)"] by simp

lemma opi_insn_form:
  assumes "opi_insn op = Some f" and "v_xlen v \<in> {32, 64}"
  shows "f v insn pc s = require insn (is_shift op \<longrightarrow> SHAMT insn < of_nat (v_xlen v)) (i_form (\<lambda>a. alu_val op (v_xlen v) a (i_imm insn)) v insn pc s)"
proof -
  have "SHAMT insn = i_imm insn AND 63" by (simp add: SHAMT_def)
  then show ?thesis using assms shamt_32 [of insn]
    by (cases op) (auto simp: opi_defs require_def is_shift_def xor.commute or.commute and.commute)
qed

lemma i_imm_canonical: "sx (lo (i_imm insn)) = i_imm insn"
  by (rule bit_word_eqI) (auto simp: i_imm_def insn_xs_def bit_sx bit_lo bit_signed_drop_bit_iff bit_push_bit_iff min_def)

text \<open>Registers of the width: the register file at 64 bits, the low halves of sign-extended registers at 32 bits.\<close>

definition canonical :: "variant \<Rightarrow> cpu \<Rightarrow> bool" where
  "canonical v s \<longleftrightarrow> (\<forall>r. XPR s r = sext (XPR s r) (v_xlen v))"

definition alu_write :: "uint64_t \<Rightarrow> 'a word \<Rightarrow> (uint64_t \<Rightarrow> 'a::len word) \<Rightarrow> uint64_t \<Rightarrow> 'a word" where
  "alu_write rd w R = (if rd = 0 then R else R(rd := w))"

definition regs_ok :: "variant \<Rightarrow> uint64_t list \<Rightarrow> bool" where
  "regs_ok v rs \<longleftrightarrow> (\<forall>r \<in> set rs. check_reg v r)"

lemma r_form_eq:
  "r_form f v insn pc s = require insn (regs_ok v [insn_rs1 insn, insn_rs2 insn, insn_rd insn])
     (Inr (first_npc v pc 4, (prologue s)\<lparr>XPR := alu_write (insn_rd insn) (f (XPR s (insn_rs1 insn)) (XPR s (insn_rs2 insn))) (XPR s)\<rparr>))"
  by (simp add: r_form_def read_reg_def write_reg_def require_def regs_ok_def Let_def prologue_def regfile_write_def alu_write_def)

lemma i_form_eq:
  "i_form f v insn pc s = require insn (regs_ok v [insn_rs1 insn, insn_rd insn])
     (Inr (first_npc v pc 4, (prologue s)\<lparr>XPR := alu_write (insn_rd insn) (f (XPR s (insn_rs1 insn))) (XPR s)\<rparr>))"
  by (simp add: i_form_def read_reg_def write_reg_def require_def regs_ok_def Let_def prologue_def regfile_write_def alu_write_def)

lemma canonical_32: "canonical v s \<Longrightarrow> v_xlen v = 32 \<Longrightarrow> XPR s r = sx (lo (XPR s r))"
  by (metis canonical_def sext_32)

lemma alu_write_sx: "alu_write rd (sx w) (\<lambda>r. sx (R r)) = (\<lambda>r. sx (alu_write rd w R r))"
  by (auto simp: alu_write_def)

lemma canonical_32_regs: "canonical v s \<Longrightarrow> v_xlen v = 32 \<Longrightarrow> XPR s = (\<lambda>r. sx (lo (XPR s r)))"
  by (rule ext) (rule canonical_32)

lemma first_npc_64: "v_xlen v = 64 \<Longrightarrow> first_npc v pc 4 = pc + 4"
  and first_npc_32: "v_xlen v = 32 \<Longrightarrow> first_npc v pc 4 = sx (lo pc + 4)"
  by (simp_all add: first_npc_def sext_32 lo_arith)

definition alu_done :: "variant \<Rightarrow> insn_bits_t \<Rightarrow> bool \<Rightarrow> uint64_t list \<Rightarrow> reg_t \<Rightarrow> regfile \<Rightarrow> cpu \<Rightarrow> insn_result" where
  "alu_done v insn enabled rs npc R s = require insn (enabled \<and> regs_ok v rs) (Inr (npc, s\<lparr>XPR := R, taken_branch_flag := False\<rparr>))"

lemma require_alu: "require insn c (require insn (regs_ok v rs) (Inr (npc, (prologue s)\<lparr>XPR := R\<rparr>))) = alu_done v insn c rs npc R s"
  by (simp add: require_def alu_done_def prologue_def)

text \<open>C1. The integer computations implement the manual's operations at both register widths. At 64 bits an enabled register-register instruction
  with allowed registers writes the operation applied to its two source registers to its destination (register 0 excepted), changes nothing else but the
  branch flag, and continues at the next word; any other is an illegal instruction. At 32 bits the same holds of the 32-bit registers that the
  sign-extended 64-bit ones stand for, and the result is sign-extended again. The immediate forms compute the same operation on the sign-extended immediate,
  and reject a shift amount that is not below the width; the word forms of the 64-bit base compute the 32-bit operation on the low halves.\<close>

theorem alu_refines:
  fixes v insn pc s op
  defines "rd \<equiv> insn_rd insn" and "r1 \<equiv> insn_rs1 insn" and "r2 \<equiv> insn_rs2 insn"
  shows
  "(v_xlen v = 64 \<longrightarrow>
      op_insn op v insn pc s =
        alu_done v insn (op_enabled op s) [r1, r2, rd] (pc + 4) (alu_write rd (alu_spec op (XPR s r1) (XPR s r2)) (XPR s)) s \<and>
      (\<forall>f. opi_insn op = Some f \<longrightarrow> f v insn pc s =
        alu_done v insn (is_shift op \<longrightarrow> SHAMT insn < 64) [r1, rd] (pc + 4) (alu_write rd (alu_spec op (XPR s r1) (i_imm insn)) (XPR s)) s) \<and>
      (\<forall>f. opw_insn op = Some f \<longrightarrow> f v insn pc s =
        alu_done v insn (op_enabled op s) [r1, r2, rd] (pc + 4)
          (alu_write rd (scast (alu_spec op (ucast (XPR s r1)) (ucast (XPR s r2) :: uint32_t))) (XPR s)) s)) \<and>
   (v_xlen v = 32 \<longrightarrow> canonical v s \<longrightarrow> (let R = \<lambda>r. ucast (XPR s r) :: uint32_t in
      op_insn op v insn pc s =
        alu_done v insn (op_enabled op s) [r1, r2, rd] (scast (ucast pc + 4 :: uint32_t)) (\<lambda>r. scast (alu_write rd (alu_spec op (R r1) (R r2)) R r)) s \<and>
      (\<forall>f. opi_insn op = Some f \<longrightarrow> f v insn pc s =
        alu_done v insn (is_shift op \<longrightarrow> SHAMT insn < 32) [r1, rd] (scast (ucast pc + 4 :: uint32_t))
          (\<lambda>r. scast (alu_write rd (alu_spec op (R r1) (ucast (i_imm insn))) R r)) s) \<and>
      (\<forall>f. opw_insn op = Some f \<longrightarrow> f v insn pc s = Inl (Illegal_Instruction insn))))"
proof (intro conjI impI)
  assume v: "v_xlen v = 64"
  show "op_insn op v insn pc s =
      alu_done v insn (op_enabled op s) [r1, r2, rd] (pc + 4) (alu_write rd (alu_spec op (XPR s r1) (XPR s r2)) (XPR s)) s"
    unfolding op_insn_form r_form_eq first_npc_64 [OF v] require_alu v alu_val_64 rd_def r1_def r2_def ..
  show "\<forall>f. opi_insn op = Some f \<longrightarrow> f v insn pc s =
      alu_done v insn (is_shift op \<longrightarrow> SHAMT insn < 64) [r1, rd] (pc + 4) (alu_write rd (alu_spec op (XPR s r1) (i_imm insn)) (XPR s)) s"
    using v by (auto simp: opi_insn_form i_form_eq first_npc_64 require_alu alu_val_64 rd_def r1_def)
  show "\<forall>f. opw_insn op = Some f \<longrightarrow> f v insn pc s =
      alu_done v insn (op_enabled op s) [r1, r2, rd] (pc + 4)
        (alu_write rd (scast (alu_spec op (ucast (XPR s r1)) (ucast (XPR s r2) :: uint32_t))) (XPR s)) s"
    using v by (auto simp: opw_insn_form r_form_eq first_npc_64 require_alu rd_def r1_def r2_def)
next
  assume v: "v_xlen v = 32" and c: "canonical v s"
  note R = canonical_32_regs [OF c v]
  have w: "alu_write rd (alu_val op 32 (XPR s r1) (sx y)) (XPR s) = (\<lambda>r. sx (alu_write rd (alu_spec op (lo (XPR s r1)) y) (\<lambda>r. lo (XPR s r)) r))" for y
    by (subst (1 2) R) (simp only: alu_val_32 alu_write_sx)
  have "op_insn op v insn pc s = alu_done v insn (op_enabled op s) [r1, r2, rd] (sx (lo pc + 4))
      (alu_write rd (alu_val op 32 (XPR s r1) (sx (lo (XPR s r2)))) (XPR s)) s"
    unfolding op_insn_form r_form_eq first_npc_32 [OF v] require_alu v rd_def r1_def r2_def canonical_32 [OF c v, of "insn_rs2 insn", symmetric] ..
  moreover have "f v insn pc s = alu_done v insn (is_shift op \<longrightarrow> SHAMT insn < 32) [r1, rd] (sx (lo pc + 4))
      (alu_write rd (alu_val op 32 (XPR s r1) (sx (lo (i_imm insn)))) (XPR s)) s" if "opi_insn op = Some f" for f
    using that v by (simp add: opi_insn_form i_form_eq first_npc_32 require_alu i_imm_canonical rd_def r1_def)
  moreover have "f v insn pc s = Inl (Illegal_Instruction insn)" if "opw_insn op = Some f" for f
    using opw_insn_form [OF that] v by (simp add: require_def)
  ultimately show "let R = \<lambda>r. lo (XPR s r) in
      op_insn op v insn pc s =
        alu_done v insn (op_enabled op s) [r1, r2, rd] (sx (lo pc + 4)) (\<lambda>r. sx (alu_write rd (alu_spec op (R r1) (R r2)) R r)) s \<and>
      (\<forall>f. opi_insn op = Some f \<longrightarrow> f v insn pc s =
        alu_done v insn (is_shift op \<longrightarrow> SHAMT insn < 32) [r1, rd] (sx (lo pc + 4))
          (\<lambda>r. sx (alu_write rd (alu_spec op (R r1) (lo (i_imm insn))) R r)) s) \<and>
      (\<forall>f. opw_insn op = Some f \<longrightarrow> f v insn pc s = Inl (Illegal_Instruction insn))"
    unfolding Let_def w by blast
qed

definition example_cpu :: cpu where
  "example_cpu = \<lparr>XPR = (\<lambda>r. if r = 1 then - 8 else if r = 2 then 1 else 0), state_pc = 0, taken_branch_flag = False, lp_expected = False,
     extension_enabled = (\<lambda>_. True), proc = example_proc\<rparr>"

definition example_width :: "nat \<Rightarrow> variant" where
  "example_width n = \<lparr>v_xlen = n, rve = False\<rparr>"

lemma example_canonical: "canonical (example_width 32) example_cpu"
  by (simp add: canonical_def example_cpu_def example_width_def sext_32)

text \<open>Arithmetic right shifts of register 1 by register 2 or by 1, into register 3.\<close>

theorem alu_refines_witness:
  "insn_sra (example_width 64) 0x4020d1b3 0x1000 example_cpu = Inr (0x1004, example_cpu\<lparr>XPR := (XPR example_cpu)(3 := - 4)\<rparr>) \<and>
   insn_srai (example_width 64) 0x4010d193 0x1000 example_cpu = Inr (0x1004, example_cpu\<lparr>XPR := (XPR example_cpu)(3 := - 4)\<rparr>) \<and>
   insn_sraw (example_width 64) 0x4020d1bb 0x1000 example_cpu = Inr (0x1004, example_cpu\<lparr>XPR := (XPR example_cpu)(3 := - 4)\<rparr>) \<and>
   insn_sra (example_width 32) 0x4020d1b3 0x1000 example_cpu = Inr (0x1004, example_cpu\<lparr>XPR := (XPR example_cpu)(3 := - 4)\<rparr>) \<and>
   insn_srai (example_width 32) 0x4010d193 0x1000 example_cpu = Inr (0x1004, example_cpu\<lparr>XPR := (XPR example_cpu)(3 := - 4)\<rparr>) \<and>
   insn_sraw (example_width 32) 0x4020d1bb 0x1000 example_cpu = Inl (Illegal_Instruction 0x4020d1bb)"
proof -
  have x: "v_xlen (example_width n) = n" for n by (simp add: example_width_def)
  have f: "insn_rd 0x4020d1b3 = 3" "insn_rs1 0x4020d1b3 = 1" "insn_rs2 0x4020d1b3 = 2"
    "insn_rd 0x4010d193 = 3" "insn_rs1 0x4010d193 = 1" "SHAMT 0x4010d193 = 1" "i_imm 0x4010d193 = 0x401"
    "insn_rd 0x4020d1bb = 3" "insn_rs1 0x4020d1bb = 1" "insn_rs2 0x4020d1bb = 2"
    by code_simp+
  have e: "alu_write 3 (- 4) (XPR example_cpu) = (XPR example_cpu)(3 := - 4)"
    "(\<lambda>r. sx (alu_write 3 (- 4) (\<lambda>r. lo (XPR example_cpu r)) r)) = (XPR example_cpu)(3 := - 4)"
    by (auto simp: alu_write_def example_cpu_def fun_eq_iff)
  have a: "alu_spec Sra (XPR example_cpu 1) (XPR example_cpu 2) = - 4" "alu_spec Sra (XPR example_cpu 1) 0x401 = - 4"
    "alu_spec Sra (lo (XPR example_cpu 1)) (lo (XPR example_cpu 2)) = - 4" "alu_spec Sra (lo (XPR example_cpu 1)) 0x401 = - 4" by code_simp+
  have d: "alu_done (example_width n) insn True rs npc R example_cpu = Inr (npc, example_cpu\<lparr>XPR := R\<rparr>)" for n insn rs npc R
    by (simp add: alu_done_def regs_ok_def check_reg_def require_def example_width_def example_cpu_def)
  note r = alu_refines [where op = Sra and s = example_cpu and pc = "0x1000"]
  show ?thesis
    using r [of "example_width 64" "0x4020d1b3"] r [of "example_width 64" "0x4010d193"] r [of "example_width 64" "0x4020d1bb"]
      r [of "example_width 32" "0x4020d1b3"] r [of "example_width 32" "0x4010d193"] r [of "example_width 32" "0x4020d1bb"] example_canonical
    by (simp add: x f a e d Let_def del: alu_spec.simps)
qed

end
