(* ===== verification/Insns_Bitmanip.thy ===== *)
theory Insns_Bitmanip
  imports ALU_Spec
begin

text \<open>
  More integer instructions (\<^verbatim>\<open>riscv/insns/\<close>): the immediate forms of the single-bit operations and rotations, the packing and permuting
  instructions of the scalar cryptography extensions, the carry-less products, the may-be-operations, and the extensions, product and call of the
  compressed instruction sets. The carry-less products are related to multiplication of polynomials over the two-element field, the permutations to maps on bit positions.
\<close>

unbundle bit_operations_syntax

section \<open>Immediate forms\<close>

definition shamt_ok :: "insn_fn \<Rightarrow> insn_fn" where
  "shamt_ok f v insn pc s = require insn (SHAMT insn < of_nat (v_xlen v)) (f v insn pc s)"

definition insn_bclri :: insn_fn where
  "insn_bclri v insn pc s = ext1 EXT_ZBS (shamt_ok (i_form (\<lambda>a. sext (a AND NOT (push_bit (unat (SHAMT insn AND of_nat (v_xlen v - 1))) 1)) (v_xlen v)))) v insn pc s"

definition insn_bexti :: insn_fn where
  "insn_bexti v insn pc s = ext1 EXT_ZBS (shamt_ok (i_form (\<lambda>a. sext (1 AND drop_bit (unat (SHAMT insn AND of_nat (v_xlen v - 1))) a) (v_xlen v)))) v insn pc s"

definition insn_binvi :: insn_fn where
  "insn_binvi v insn pc s = ext1 EXT_ZBS (shamt_ok (i_form (\<lambda>a. sext (a XOR push_bit (unat (SHAMT insn AND of_nat (v_xlen v - 1))) 1) (v_xlen v)))) v insn pc s"

definition insn_bseti :: insn_fn where
  "insn_bseti v insn pc s = ext1 EXT_ZBS (shamt_ok (i_form (\<lambda>a. sext (a OR push_bit (unat (SHAMT insn AND of_nat (v_xlen v - 1))) 1) (v_xlen v)))) v insn pc s"

definition insn_rori :: insn_fn where
  "insn_rori v insn pc s = ext2 EXT_ZBB EXT_ZBKB (shamt_ok (i_form (\<lambda>a. sext (push_bit (unat (- (SHAMT insn AND of_nat (v_xlen v - 1)) AND of_nat (v_xlen v - 1))) a OR drop_bit (unat (SHAMT insn AND of_nat (v_xlen v - 1))) (zext a (v_xlen v))) (v_xlen v)))) v insn pc s"

definition insn_roriw :: insn_fn where
  "insn_roriw v insn pc s =
     rv64_only (ext2 EXT_ZBB EXT_ZBKB (\<lambda>v insn pc s. require insn (SHAMT insn < 32)
       (i_form (\<lambda>a. sext32 (push_bit (unat (- (SHAMT insn AND 31) AND 31)) a OR drop_bit (unat (SHAMT insn AND 31)) (zext32 a))) v insn pc s))) v insn pc s"

section \<open>Packing and permuting\<close>

definition insn_pack :: insn_fn where
  "insn_pack v insn pc s =
     (let xl = v_xlen v
      in require insn (xl = 32 \<and> insn_rs2 insn = 0 \<and> extension_enabled s EXT_ZBB \<or> extension_enabled s EXT_ZBKB)
           (r_form (\<lambda>a b. sext (drop_bit (xl div 2) (zext (push_bit (xl div 2) a) xl) OR zext (push_bit (xl div 2) b) xl) xl) v insn pc s))"

definition insn_packh :: insn_fn where
  "insn_packh v insn pc s =
     (let xl = v_xlen v
      in ext1 EXT_ZBKB (r_form (\<lambda>a b. sext (drop_bit (xl - 8) (zext (push_bit (xl - 8) a) xl) OR drop_bit (xl - 16) (zext (push_bit (xl - 8) b) xl)) xl))
           v insn pc s)"

definition insn_packw :: insn_fn where
  "insn_packw v insn pc s =
     require insn (insn_rs2 insn = 0 \<and> extension_enabled s EXT_ZBB \<or> extension_enabled s EXT_ZBKB)
       (rv64_only (r_form (\<lambda>a b. sext32 (drop_bit 16 (zext32 (push_bit 16 a)) OR zext32 (push_bit 16 b)))) v insn pc s)"

text \<open>\<^verbatim>\<open>xperm\<close>: the loop runs over the fields of \<open>2 ^ sz_log2\<close> bits; a field whose index is out of range reads as zero.\<close>

definition xperm :: "uint64_t \<Rightarrow> uint64_t \<Rightarrow> nat \<Rightarrow> nat \<Rightarrow> uint64_t" where
  "xperm rs1 rs2 sz_log2 len =
     (let sz = 2 ^ sz_log2; m = push_bit sz 1 - 1
      in fold (\<lambda>k r. let i = k * sz; pos = push_bit sz_log2 (drop_bit i rs2 AND m)
                     in if pos < of_nat len then r OR push_bit i (drop_bit (unat pos) rs1 AND m) else r)
           [0..<(len + sz - 1) div sz] 0)"

definition insn_xperm4 :: insn_fn where
  "insn_xperm4 v insn pc s = ext1 EXT_ZBKX (r_form (\<lambda>a b. sext (xperm a b 2 (v_xlen v)) (v_xlen v))) v insn pc s"

definition insn_xperm8 :: insn_fn where
  "insn_xperm8 v insn pc s = ext1 EXT_ZBKX (r_form (\<lambda>a b. sext (xperm a b 3 (v_xlen v)) (v_xlen v))) v insn pc s"

text \<open>The stages of the generalized reversals and shuffles, each under its bit of the shift amount.\<close>

definition swap_stage :: "nat \<Rightarrow> reg_t \<Rightarrow> reg_t \<Rightarrow> reg_t \<Rightarrow> reg_t" where
  "swap_stage k lom him x = push_bit k (x AND lom) OR drop_bit k (x AND him)"

definition shuffle_stage :: "nat \<Rightarrow> reg_t \<Rightarrow> reg_t \<Rightarrow> reg_t \<Rightarrow> reg_t \<Rightarrow> reg_t" where
  "shuffle_stage k keep him lom x = x AND keep OR drop_bit k (x AND him) OR push_bit k (x AND lom)"

definition staged :: "reg_t \<Rightarrow> (reg_t \<times> (reg_t \<Rightarrow> reg_t)) list \<Rightarrow> reg_t \<Rightarrow> reg_t" where
  "staged sh stages x = fold (\<lambda>(b, f) x. if sh AND b \<noteq> 0 then f x else x) stages x"

definition swap_stages :: "(reg_t \<times> (reg_t \<Rightarrow> reg_t)) list" where
  "swap_stages =
     [(1, swap_stage 1 0x5555555555555555 0xAAAAAAAAAAAAAAAA),
      (2, swap_stage 2 0x3333333333333333 0xCCCCCCCCCCCCCCCC),
      (4, swap_stage 4 0x0F0F0F0F0F0F0F0F 0xF0F0F0F0F0F0F0F0),
      (8, swap_stage 8 0x00FF00FF00FF00FF 0xFF00FF00FF00FF00),
      (16, swap_stage 16 0x0000FFFF0000FFFF 0xFFFF0000FFFF0000),
      (32, swap_stage 32 0x00000000FFFFFFFF 0xFFFFFFFF00000000)]"

definition shuffle_stages :: "(reg_t \<times> (reg_t \<Rightarrow> reg_t)) list" where
  "shuffle_stages =
     [(16, shuffle_stage 16 0xFFFF00000000FFFF 0x0000FFFF00000000 0x00000000FFFF0000),
      (8, shuffle_stage 8 0xFF0000FFFF0000FF 0x00FF000000FF0000 0x0000FF000000FF00),
      (4, shuffle_stage 4 0xF00FF00FF00FF00F 0x0F000F000F000F00 0x00F000F000F000F0),
      (2, shuffle_stage 2 0xC3C3C3C3C3C3C3C3 0x3030303030303030 0x0C0C0C0C0C0C0C0C),
      (1, shuffle_stage 1 0x9999999999999999 0x4444444444444444 0x2222222222222222)]"

definition insn_grevi :: insn_fn where
  "insn_grevi v insn pc s =
     (let sh = SHAMT insn
      in require insn (sh = of_nat (v_xlen v - 8) \<and> (extension_enabled s EXT_ZBB \<or> extension_enabled s EXT_ZBKB) \<or> sh = 7 \<and> extension_enabled s EXT_ZBKB)
           (shamt_ok (i_form (\<lambda>a. sext (staged sh swap_stages a) (v_xlen v))) v insn pc s))"

definition insn_gorci :: insn_fn where
  "insn_gorci v insn pc s =
     (let sh = SHAMT insn
      in require insn (sh = 7 \<and> extension_enabled s EXT_ZBB)
           (shamt_ok (i_form (\<lambda>a. sext (staged sh (map (\<lambda>(b, f). (b, \<lambda>x. x OR f x)) swap_stages) a) (v_xlen v))) v insn pc s))"

definition zip_guard :: "insn_fn \<Rightarrow> insn_fn" where
  "zip_guard f v insn pc s =
     require insn (v_xlen v = 32)
       (require insn (insn_rs2 insn = of_nat (v_xlen v div 2 - 1) \<and> extension_enabled s EXT_ZBKB)
          (require insn (SHAMT insn < of_nat (v_xlen v div 2)) (f v insn pc s)))"

definition insn_shfli :: insn_fn where
  "insn_shfli v insn pc s =
     zip_guard (i_form (\<lambda>a. sext (staged (SHAMT insn AND of_nat ((v_xlen v - 1) div 2)) shuffle_stages a) (v_xlen v))) v insn pc s"

definition insn_unshfli :: insn_fn where
  "insn_unshfli v insn pc s =
     zip_guard (i_form (\<lambda>a. sext (staged (SHAMT insn AND of_nat ((v_xlen v - 1) div 2)) (rev shuffle_stages) a) (v_xlen v))) v insn pc s"

section \<open>Carry-less products\<close>

definition xor_loop :: "(nat \<Rightarrow> reg_t) \<Rightarrow> reg_t \<Rightarrow> nat list \<Rightarrow> reg_t" where
  "xor_loop term b is = fold (\<lambda>i x. if drop_bit i b AND 1 \<noteq> 0 then x XOR term i else x) is 0"

definition clmul_val :: "nat \<Rightarrow> reg_t \<Rightarrow> reg_t \<Rightarrow> reg_t" where
  "clmul_val xl a b = sext (xor_loop (\<lambda>i. push_bit i (zext a xl)) (zext b xl) [0..<xl]) xl"

definition clmulh_val :: "nat \<Rightarrow> reg_t \<Rightarrow> reg_t \<Rightarrow> reg_t" where
  "clmulh_val xl a b = sext (xor_loop (\<lambda>i. drop_bit (xl - i) (zext a xl)) (zext b xl) [1..<xl]) xl"

definition clmulr_val :: "nat \<Rightarrow> reg_t \<Rightarrow> reg_t \<Rightarrow> reg_t" where
  "clmulr_val xl a b = sext (xor_loop (\<lambda>i. drop_bit (xl - i - 1) (zext a xl)) (zext b xl) [0..<xl]) xl"

definition insn_clmul :: insn_fn where
  "insn_clmul v insn pc s = ext2 EXT_ZBC EXT_ZBKC (r_form (clmul_val (v_xlen v))) v insn pc s"

definition insn_clmulh :: insn_fn where
  "insn_clmulh v insn pc s = ext2 EXT_ZBC EXT_ZBKC (r_form (clmulh_val (v_xlen v))) v insn pc s"

definition insn_clmulr :: insn_fn where
  "insn_clmulr v insn pc s = ext1 EXT_ZBC (r_form (clmulr_val (v_xlen v))) v insn pc s"

section \<open>May-be-operations and compressed forms\<close>

definition insn_mop_r_N :: insn_fn where
  "insn_mop_r_N v insn pc s = require insn (extension_enabled s EXT_ZIMOP) (write_reg v insn (insn_rd insn) 0 (first_npc v pc 4) (prologue s))"

definition insn_mop_rr_N :: insn_fn where
  "insn_mop_rr_N v insn pc s = require insn (extension_enabled s EXT_ZIMOP) (write_reg v insn (insn_rd insn) 0 (first_npc v pc 4) (prologue s))"

definition insn_c_mop_N :: insn_fn where
  "insn_c_mop_N v insn pc s =
     require insn (extension_enabled s EXT_ZCA) (require insn (extension_enabled s EXT_ZCMOP) (Inr (first_npc v pc 2, prologue s)))"

definition insn_c_not :: insn_fn where
  "insn_c_not v insn pc s = ext1 EXT_ZCB (\<lambda>v insn pc s. c_form1 (rvc_rs1s insn) (rvc_rs1s insn) (\<lambda>a. sext (NOT a) (v_xlen v)) v insn pc s) v insn pc s"

definition insn_c_sext_b :: insn_fn where
  "insn_c_sext_b v insn pc s = ext1 EXT_ZCB (ext1 EXT_ZBB (\<lambda>v insn pc s. c_form1 (rvc_rs1s insn) (rvc_rs1s insn) (\<lambda>a. scast (ucast a :: uint8_t)) v insn pc s)) v insn pc s"

definition insn_c_sext_h :: insn_fn where
  "insn_c_sext_h v insn pc s = ext1 EXT_ZCB (ext1 EXT_ZBB (\<lambda>v insn pc s. c_form1 (rvc_rs1s insn) (rvc_rs1s insn) (\<lambda>a. scast (ucast a :: uint16_t)) v insn pc s)) v insn pc s"

definition insn_c_zext_b :: insn_fn where
  "insn_c_zext_b v insn pc s = ext1 EXT_ZCB (\<lambda>v insn pc s. c_form1 (rvc_rs1s insn) (rvc_rs1s insn) (\<lambda>a. ucast (ucast a :: uint8_t)) v insn pc s) v insn pc s"

definition insn_c_zext_h :: insn_fn where
  "insn_c_zext_h v insn pc s = ext1 EXT_ZCB (ext1 EXT_ZBB (\<lambda>v insn pc s. c_form1 (rvc_rs1s insn) (rvc_rs1s insn) (\<lambda>a. ucast (ucast a :: uint16_t)) v insn pc s)) v insn pc s"

definition insn_c_zext_w :: insn_fn where
  "insn_c_zext_w v insn pc s = ext1 EXT_ZCB (ext1 EXT_ZBA (rv64_only (\<lambda>v insn pc s. c_form1 (rvc_rs1s insn) (rvc_rs1s insn) (\<lambda>a. ucast (ucast a :: uint32_t)) v insn pc s))) v insn pc s"

definition insn_c_mul :: insn_fn where
  "insn_c_mul v insn pc s =
     ext1 EXT_ZCB (ext2 EXT_M EXT_ZMMUL (\<lambda>v insn pc s.
       c_form2 (rvc_rs1s insn) (rvc_rs1s insn) (rvc_rs2s insn) (\<lambda>a b. sext (a * b) (v_xlen v)) v insn pc s)) v insn pc s"

definition insn_c_jal :: insn_fn where
  "insn_c_jal v insn pc s =
     ext1 EXT_ZCA (\<lambda>v insn pc s.
       if v_xlen v = 32
       then let tmp = first_npc v pc 2 in set_pc v (pc + rvc_j_imm insn) (prologue s) (\<lambda>npc s. write_reg v insn X_RA tmp npc s)
       else require insn (rvc_rd insn \<noteq> 0) (c_form1 (rvc_rd insn) (rvc_rs1 insn) (\<lambda>a. sext32 (a + rvc_imm insn)) v insn pc s)) v insn pc s"

section \<open>The carry-less products multiply polynomials\<close>

text \<open>Coefficient \<open>k\<close> of the product of the polynomials over the two-element field whose coefficients are the low \<open>n\<close> bits of two words.\<close>

definition cl_coeff :: "nat \<Rightarrow> reg_t \<Rightarrow> reg_t \<Rightarrow> nat \<Rightarrow> bool" where
  "cl_coeff n a b k \<longleftrightarrow> odd (card {(i, j). i < n \<and> j < n \<and> i + j = k \<and> bit a i \<and> bit b j})"

lemma bit_xor_fold:
  "bit (fold (\<lambda>i x. if drop_bit i b AND 1 \<noteq> 0 then x XOR t i else x) is x) k \<longleftrightarrow>
     bit (x :: reg_t) k \<noteq> odd (length (filter (\<lambda>i. bit b i \<and> bit (t i) k) is))"
proof (induction "is" arbitrary: x)
  case (Cons i "is")
  have "drop_bit i b AND 1 \<noteq> 0 \<longleftrightarrow> bit b i" by (simp add: and_one_eq bit_iff_odd_drop_bit mod2_eq_if)
  then show ?case using Cons by (auto simp: bit_xor_iff)
qed simp

lemma bit_xor_loop:
  assumes "distinct is"
  shows "bit (xor_loop t b is) k \<longleftrightarrow> odd (card {i \<in> set is. bit b i \<and> bit (t i) k})"
  using assms by (simp add: xor_loop_def bit_xor_fold distinct_card [symmetric])

lemma cl_coeff_single:
  "cl_coeff n a b k \<longleftrightarrow> odd (card {j. j < n \<and> j \<le> k \<and> k - j < n \<and> bit b j \<and> bit a (k - j)})"
proof -
  have "{(i, j). i < n \<and> j < n \<and> i + j = k \<and> bit a i \<and> bit b j} = (\<lambda>j. (k - j, j)) ` {j. j < n \<and> j \<le> k \<and> k - j < n \<and> bit b j \<and> bit a (k - j)}"
    by force
  then show ?thesis unfolding cl_coeff_def by (simp add: card_image inj_on_def)
qed

lemma bit_sext_low: "k < n \<Longrightarrow> n \<le> 64 \<Longrightarrow> bit (sext w n) k \<longleftrightarrow> bit w k"
  by (auto simp: bit_sext min_def)

lemma bit_zext: "n \<le> 64 \<Longrightarrow> bit (zext w n) k \<longleftrightarrow> k < n \<and> bit w k"
  by (simp add: zext_take_bit bit_take_bit_iff)

lemma bit_clmul_val:
  assumes n: "0 < n" "n \<le> 64" and k: "k < n"
  shows "bit (clmul_val n a b) k \<longleftrightarrow> cl_coeff n a b k" "bit (clmulh_val n a b) k \<longleftrightarrow> cl_coeff n a b (n + k)"
    "bit (clmulr_val n a b) k \<longleftrightarrow> cl_coeff n a b (n - 1 + k)"
proof -
  have s: "P = Q \<Longrightarrow> odd (card P) = odd (card Q)" for P Q :: "nat set" by simp
  show "bit (clmul_val n a b) k \<longleftrightarrow> cl_coeff n a b k"
    unfolding clmul_val_def bit_sext_low [OF k n(2)] cl_coeff_single
    by (subst bit_xor_loop, simp, rule s) (use k n in \<open>auto simp: bit_zext bit_push_bit_iff\<close>)
  show "bit (clmulh_val n a b) k \<longleftrightarrow> cl_coeff n a b (n + k)"
    unfolding clmulh_val_def bit_sext_low [OF k n(2)] cl_coeff_single
    by (subst bit_xor_loop, simp, rule s) (use k n in \<open>auto simp: bit_zext bit_drop_bit_eq\<close>)
  show "bit (clmulr_val n a b) k \<longleftrightarrow> cl_coeff n a b (n - 1 + k)"
    unfolding clmulr_val_def bit_sext_low [OF k n(2)] cl_coeff_single
    by (subst bit_xor_loop, simp, rule s) (use k n in \<open>auto simp: bit_zext bit_drop_bit_eq\<close>)
qed

section \<open>The permutations\<close>

text \<open>A stage of a reversal moves the bit at position \<open>n\<close> to the position that differs in the stage's bit; a stage of a shuffle exchanges the middle
  quarters of each group.\<close>

definition swap_at :: "nat \<Rightarrow> nat \<Rightarrow> nat" where
  "swap_at k n = (if even (n div k) then n + k else n - k)"

definition shuffle_at :: "nat \<Rightarrow> nat \<Rightarrow> nat" where
  "shuffle_at k n = (if n div k mod 4 = 1 then n + k else if n div k mod 4 = 2 then n - k else n)"

definition swap_masks :: "nat \<Rightarrow> reg_t \<Rightarrow> reg_t \<Rightarrow> bool" where
  "swap_masks k lom him \<longleftrightarrow> 0 < k \<and> list_all (\<lambda>n. bit lom n = even (n div k) \<and> bit him n = odd (n div k)) [0..<64]"

definition shuffle_masks :: "nat \<Rightarrow> reg_t \<Rightarrow> reg_t \<Rightarrow> reg_t \<Rightarrow> bool" where
  "shuffle_masks k keep him lom \<longleftrightarrow> 0 < k \<and>
     list_all (\<lambda>n. bit keep n = (n div k mod 4 \<in> {0, 3}) \<and> bit him n = (n div k mod 4 = 2) \<and> bit lom n = (n div k mod 4 = 1)) [0..<64]"

lemma bit_swap_stage:
  assumes "swap_masks k lom him" and n: "n < 64"
  shows "bit (swap_stage k lom him x) n \<longleftrightarrow> bit x (swap_at k n)"
proof -
  have k: "0 < k" and m: "\<And>n. n < 64 \<Longrightarrow> bit lom n = even (n div k)" "\<And>n. n < 64 \<Longrightarrow> bit him n = odd (n div k)"
    using assms by (auto simp: swap_masks_def list_all_iff)
  have u: "bit x (n + k) \<Longrightarrow> n + k < 64" using bit_imp_le_length [of x "n + k"] by simp
  have "k \<le> n \<Longrightarrow> n div k = Suc ((n - k) div k)" using k le_div_geq by blast
  moreover have "(n + k) div k = Suc (n div k)" using k by simp
  moreover have "odd (n div k) \<Longrightarrow> k \<le> n" using k by (metis div_less dvd_0_right not_le)
  ultimately show ?thesis using n u m [of "n - k"] m [of "n + k"]
    by (auto simp: swap_stage_def swap_at_def bit_or_iff bit_push_bit_iff bit_drop_bit_eq bit_and_iff add.commute)
qed

lemma bit_shuffle_stage:
  assumes "shuffle_masks k keep him lom" and n: "n < 64"
  shows "bit (shuffle_stage k keep him lom x) n \<longleftrightarrow> bit x (shuffle_at k n)"
proof -
  have k: "0 < k" and m: "\<And>n. n < 64 \<Longrightarrow> bit keep n = (n div k mod 4 \<in> {0, 3})" "\<And>n. n < 64 \<Longrightarrow> bit him n = (n div k mod 4 = 2)"
    "\<And>n. n < 64 \<Longrightarrow> bit lom n = (n div k mod 4 = 1)"
    using assms by (auto simp: shuffle_masks_def list_all_iff)
  have u: "bit x (n + k) \<Longrightarrow> n + k < 64" using bit_imp_le_length [of x "n + k"] by simp
  have a: "k \<le> n \<Longrightarrow> (n - k) div k mod 4 = 1 \<longleftrightarrow> n div k mod 4 = 2" using k by (simp add: le_div_geq mod_Suc)
  have b: "(n + k) div k mod 4 = 2 \<longleftrightarrow> n div k mod 4 = 1" using k by (simp add: mod_Suc)
  have c: "n div k mod 4 = 2 \<Longrightarrow> k \<le> n" using k by (metis div_less mod_0 not_le zero_neq_numeral)
  define q where "q = n div k mod 4"
  have q: "q = 0 \<or> q = 1 \<or> q = 2 \<or> q = 3" unfolding q_def using mod_less_divisor [of 4 "n div k"] by arith
  have "bit (shuffle_stage k keep him lom x) n \<longleftrightarrow> bit x n \<and> q \<in> {0, 3} \<or> bit x (n + k) \<and> q = 1 \<or> bit x (n - k) \<and> q = 2"
    using n u m(1) [OF n] m(3) [of "n - k"] m(2) [of "n + k"] a b c unfolding q_def shuffle_stage_def bit_or_iff bit_push_bit_iff bit_drop_bit_eq bit_and_iff
    by (auto simp: add.commute [of k n])
  then show ?thesis using q unfolding shuffle_at_def q_def [symmetric] by auto
qed

lemma swap_masks_code:
  "swap_masks 1 0x5555555555555555 0xAAAAAAAAAAAAAAAA" "swap_masks 2 0x3333333333333333 0xCCCCCCCCCCCCCCCC"
  "swap_masks 4 0x0F0F0F0F0F0F0F0F 0xF0F0F0F0F0F0F0F0" "swap_masks 8 0x00FF00FF00FF00FF 0xFF00FF00FF00FF00"
  "swap_masks 16 0x0000FFFF0000FFFF 0xFFFF0000FFFF0000" "swap_masks 32 0x00000000FFFFFFFF 0xFFFFFFFF00000000"
  by code_simp+

lemma shuffle_masks_code:
  "shuffle_masks 8 0xFF0000FFFF0000FF 0x00FF000000FF0000 0x0000FF000000FF00"
  "shuffle_masks 4 0xF00FF00FF00FF00F 0x0F000F000F000F00 0x00F000F000F000F0"
  "shuffle_masks 2 0xC3C3C3C3C3C3C3C3 0x3030303030303030 0x0C0C0C0C0C0C0C0C"
  "shuffle_masks 1 0x9999999999999999 0x4444444444444444 0x2222222222222222"
  by code_simp+

lemmas bit_stages = swap_masks_code [THEN bit_swap_stage] shuffle_masks_code [THEN bit_shuffle_stage]

lemma stages_in_range:
  "list_all (\<lambda>n. list_all (\<lambda>k. swap_at k n < 64) [1, 2, 4, 8, 16, 32] \<and> list_all (\<lambda>k. shuffle_at k n < 64) [1, 2, 4, 8]) [0..<64]"
  by code_simp

lemma swap_at_less: "n < 64 \<Longrightarrow> k \<in> {1, 2, 4, 8, 16, 32} \<Longrightarrow> swap_at k n < 64"
  and shuffle_at_less: "n < 64 \<Longrightarrow> k \<in> {1, 2, 4, 8} \<Longrightarrow> shuffle_at k n < 64"
  using stages_in_range by (auto simp: list_all_iff)

lemma list_all_upt: "list_all P [0..<b] \<Longrightarrow> n < b \<Longrightarrow> P n"
  by (simp add: list_all_iff)

text \<open>The positions that the first three stages connect are those of one byte.\<close>

definition byte_orbit :: "nat \<Rightarrow> nat list" where
  "byte_orbit n = concat (map (\<lambda>k. [k, swap_at 1 k]) (concat (map (\<lambda>k. [k, swap_at 2 k]) [n, swap_at 4 n])))"

lemma byte_orbit_8: "list_all (\<lambda>r. list_all (\<lambda>m. m \<in> set (byte_orbit r)) [0..<8] \<and> list_all (\<lambda>k. k < 8) (byte_orbit r)) [0..<8]"
  by code_simp

lemma swap_at_byte:
  assumes "r < 8" "k \<in> {1, 2, 4}"
  shows "swap_at k (8 * q + r) = 8 * q + swap_at k r" "swap_at k r < 8"
proof -
  have d: "8 * q div k = 2 * (4 * q div k)" "k dvd 8 * q" using assms(2) by auto
  then have "(8 * q + r) div k = 2 * (4 * q div k) + r div k" by (simp add: div_plus_div_distrib_dvd_left)
  moreover have "odd (r div k) \<Longrightarrow> k \<le> r" by (metis div_less dvd_0_right not_le)
  ultimately show "swap_at k (8 * q + r) = 8 * q + swap_at k r" by (auto simp: swap_at_def)
  have "list_all (\<lambda>r. list_all (\<lambda>k. swap_at k r < 8) [1, 2, 4]) [0..<8]" by code_simp
  from list_all_upt [OF this assms(1)] assms(2) show "swap_at k r < 8" by auto
qed

lemma set_byte_orbit: "set (byte_orbit n) = (\<lambda>m. 8 * (n div 8) + m) ` {0..<8}"
proof -
  define q r where "q = n div 8" and "r = n mod 8"
  have n: "n = 8 * q + r" and r: "r < 8" by (simp_all add: q_def r_def)
  have "byte_orbit n = map (\<lambda>k. 8 * q + k) (byte_orbit r)"
    unfolding n byte_orbit_def using r by (simp add: swap_at_byte)
  moreover have "set (byte_orbit r) = {0..<8}" using list_all_upt [OF byte_orbit_8 r] by (auto simp: list_all_iff)
  ultimately show ?thesis unfolding q_def by simp
qed

lemma staged_reversals:
  assumes "n < 64"
  shows "bit (staged 56 swap_stages x) n \<longleftrightarrow> bit x (8 * (7 - n div 8) + n mod 8)"
    "n < 32 \<Longrightarrow> bit (staged 24 swap_stages x) n \<longleftrightarrow> bit x (8 * (3 - n div 8) + n mod 8)"
    "bit (staged 7 swap_stages x) n \<longleftrightarrow> bit x (8 * (n div 8) + (7 - n mod 8))"
    "bit (staged 7 (map (\<lambda>(b, f). (b, \<lambda>x. x OR f x)) swap_stages) x) n \<longleftrightarrow> (\<exists>m<8. bit x (8 * (n div 8) + m))"
proof -
  have p: "list_all (\<lambda>n. swap_at 8 (swap_at 16 (swap_at 32 n)) = 8 * (7 - n div 8) + n mod 8 \<and>
      (n < 32 \<longrightarrow> swap_at 8 (swap_at 16 n) = 8 * (3 - n div 8) + n mod 8) \<and>
      swap_at 1 (swap_at 2 (swap_at 4 n)) = 8 * (n div 8) + (7 - n mod 8)) [0..<64]" by code_simp
  have s: "staged 56 swap_stages x = swap_stage 32 0x00000000FFFFFFFF 0xFFFFFFFF00000000 (swap_stage 16 0x0000FFFF0000FFFF 0xFFFF0000FFFF0000
        (swap_stage 8 0x00FF00FF00FF00FF 0xFF00FF00FF00FF00 x))"
      "staged 24 swap_stages x = swap_stage 16 0x0000FFFF0000FFFF 0xFFFF0000FFFF0000 (swap_stage 8 0x00FF00FF00FF00FF 0xFF00FF00FF00FF00 x)"
      "staged 7 swap_stages x = swap_stage 4 0x0F0F0F0F0F0F0F0F 0xF0F0F0F0F0F0F0F0 (swap_stage 2 0x3333333333333333 0xCCCCCCCCCCCCCCCC
        (swap_stage 1 0x5555555555555555 0xAAAAAAAAAAAAAAAA x))"
    by (simp_all add: staged_def swap_stages_def)
  have l: "swap_at 32 n < 64" "swap_at 16 n < 64" "swap_at 4 n < 64" using assms by (simp_all add: swap_at_less)
  then have l2: "swap_at 16 (swap_at 32 n) < 64" "swap_at 2 (swap_at 4 n) < 64" "swap_at 2 n < 64" using assms by (simp_all add: swap_at_less)
  note p = list_all_upt [OF p assms]
  show "bit (staged 56 swap_stages x) n \<longleftrightarrow> bit x (8 * (7 - n div 8) + n mod 8)"
    unfolding s bit_stages(6) [OF assms] bit_stages(5) [OF l(1)] bit_stages(4) [OF l2(1)] p [THEN conjunct1] ..
  show "n < 32 \<Longrightarrow> bit (staged 24 swap_stages x) n \<longleftrightarrow> bit x (8 * (3 - n div 8) + n mod 8)"
    unfolding s bit_stages(5) [OF assms] bit_stages(4) [OF l(2)] using p [THEN conjunct2, THEN conjunct1] by (simp only: simp_thms)
  show "bit (staged 7 swap_stages x) n \<longleftrightarrow> bit x (8 * (n div 8) + (7 - n mod 8))"
    unfolding s bit_stages(3) [OF assms] bit_stages(2) [OF l(3)] bit_stages(1) [OF l2(2)] p [THEN conjunct2, THEN conjunct2] ..
  have t: "staged 7 (map (\<lambda>(b, f). (b, \<lambda>x. x OR f x)) swap_stages) x =
      (let y = x OR swap_stage 1 0x5555555555555555 0xAAAAAAAAAAAAAAAA x; z = y OR swap_stage 2 0x3333333333333333 0xCCCCCCCCCCCCCCCC y
       in z OR swap_stage 4 0x0F0F0F0F0F0F0F0F 0xF0F0F0F0F0F0F0F0 z)"
    by (simp add: staged_def swap_stages_def Let_def)
  show "bit (staged 7 (map (\<lambda>(b, f). (b, \<lambda>x. x OR f x)) swap_stages) x) n \<longleftrightarrow> (\<exists>m<8. bit x (8 * (n div 8) + m))"
  proof -
    have u: "set (byte_orbit n) = (\<lambda>m. 8 * (n div 8) + m) ` {0..<8}" by (rule set_byte_orbit)
    have "bit (staged 7 (map (\<lambda>(b, f). (b, \<lambda>x. x OR f x)) swap_stages) x) n \<longleftrightarrow> (\<exists>k \<in> set (byte_orbit n). bit x k)"
      unfolding t Let_def byte_orbit_def bit_or_iff bit_stages(3) [OF assms] bit_stages(2) [OF l(3)] bit_stages(2) [OF assms] bit_stages(1) [OF l2(2)]
        bit_stages(1) [OF l2(3)] bit_stages(1) [OF l(3)] bit_stages(1) [OF assms] by auto
    then show ?thesis unfolding u bex_simps by auto
  qed
qed

lemma all_below_numeral: "(\<forall>n<numeral v. P n) \<longleftrightarrow> P (pred_numeral v) \<and> (\<forall>n<pred_numeral v. P n)"
  by (simp add: numeral_eq_Suc All_less_Suc)

lemmas shuffle_at_eval =
  shuffle_at_def [of 1 0] shuffle_at_def [of 1 1] shuffle_at_def [of "numeral i" 0 for i] shuffle_at_def [of "numeral i" 1 for i] shuffle_at_def [of "numeral i" "Suc 0" for i]
  shuffle_at_def [of 1 "numeral j" for j] shuffle_at_def [of "numeral i" "numeral j" for i j]

lemma shuffle_positions:
  assumes "n < 32"
  shows "shuffle_at 8 (shuffle_at 4 (shuffle_at 2 (shuffle_at 1 n))) = (if even n then n div 2 else n div 2 + 16)"
    "shuffle_at 1 (shuffle_at 2 (shuffle_at 4 (shuffle_at 8 n))) = (if n < 16 then 2 * n else 2 * (n - 16) + 1)"
proof -
  have "\<forall>n<32. shuffle_at 8 (shuffle_at 4 (shuffle_at 2 (shuffle_at 1 n))) = (if even n then n div 2 else n div 2 + 16)"
    "\<forall>n<32. shuffle_at 1 (shuffle_at 2 (shuffle_at 4 (shuffle_at 8 n))) = (if n < 16 then 2 * n else 2 * (n - 16) + 1)"
    by (simp_all add: all_below_numeral shuffle_at_eval del: One_nat_def)
  with assms show "shuffle_at 8 (shuffle_at 4 (shuffle_at 2 (shuffle_at 1 n))) = (if even n then n div 2 else n div 2 + 16)"
    "shuffle_at 1 (shuffle_at 2 (shuffle_at 4 (shuffle_at 8 n))) = (if n < 16 then 2 * n else 2 * (n - 16) + 1)" by blast+
qed

lemma staged_interleavings:
  assumes n: "n < 32"
  shows "bit (staged 15 shuffle_stages x) n \<longleftrightarrow> bit x (if even n then n div 2 else n div 2 + 16)"
    "bit (staged 15 (rev shuffle_stages) x) n \<longleftrightarrow> bit x (if n < 16 then 2 * n else 2 * (n - 16) + 1)"
proof -
  have "n < 64" using n by simp
  then have l: "n < 64" "shuffle_at 1 n < 64" "shuffle_at 8 n < 64" by (simp_all add: shuffle_at_less)
  then have l2: "shuffle_at 2 (shuffle_at 1 n) < 64" "shuffle_at 4 (shuffle_at 8 n) < 64" by (simp_all add: shuffle_at_less)
  then have l3: "shuffle_at 4 (shuffle_at 2 (shuffle_at 1 n)) < 64" "shuffle_at 2 (shuffle_at 4 (shuffle_at 8 n)) < 64" by (simp_all add: shuffle_at_less)
  have "bit (staged 15 shuffle_stages x) n \<longleftrightarrow> bit x (shuffle_at 8 (shuffle_at 4 (shuffle_at 2 (shuffle_at 1 n))))"
    unfolding bit_stages(7) [OF l3(1), symmetric] bit_stages(8) [OF l2(1), symmetric] bit_stages(9) [OF l(2), symmetric] bit_stages(10) [OF l(1), symmetric]
    by (simp add: staged_def shuffle_stages_def)
  then show "bit (staged 15 shuffle_stages x) n \<longleftrightarrow> bit x (if even n then n div 2 else n div 2 + 16)"
    unfolding shuffle_positions(1) [OF n] .
  have "bit (staged 15 (rev shuffle_stages) x) n \<longleftrightarrow> bit x (shuffle_at 1 (shuffle_at 2 (shuffle_at 4 (shuffle_at 8 n))))"
    unfolding bit_stages(10) [OF l3(2), symmetric] bit_stages(9) [OF l2(2), symmetric] bit_stages(8) [OF l(3), symmetric] bit_stages(7) [OF l(1), symmetric]
    by (simp add: staged_def shuffle_stages_def)
  then show "bit (staged 15 (rev shuffle_stages) x) n \<longleftrightarrow> bit x (if n < 16 then 2 * n else 2 * (n - 16) + 1)"
    unfolding shuffle_positions(2) [OF n] .
qed

section \<open>Properties\<close>

text \<open>A register value of the given width, by its bits.\<close>

definition has_bits :: "nat \<Rightarrow> (nat \<Rightarrow> bool) \<Rightarrow> reg_t \<Rightarrow> bool" where
  "has_bits n f c \<longleftrightarrow> c = sext c n \<and> (\<forall>k<n. bit c k \<longleftrightarrow> f k)"

lemma has_bits_sext:
  assumes "n \<in> {32, 64}" "\<And>k. k < n \<Longrightarrow> bit w k \<longleftrightarrow> f k"
  shows "has_bits n f (sext w n)"
proof -
  have n: "0 < n" "n \<le> 64" using assms(1) by auto
  then have "sext (sext w n) n = sext w n" by (intro bit_word_eqI) (auto simp: bit_sext min_def)
  then show ?thesis using assms(2) n by (simp add: has_bits_def bit_sext_low)
qed

lemma has_bits_clmul:
  assumes "n \<in> {32, 64}"
  shows "has_bits n (cl_coeff n a b) (clmul_val n a b)" "has_bits n (\<lambda>k. cl_coeff n a b (n + k)) (clmulh_val n a b)"
    "has_bits n (\<lambda>k. cl_coeff n a b (n - 1 + k)) (clmulr_val n a b)"
proof -
  have n: "0 < n" "n \<le> 64" using assms by auto
  note b = bit_clmul_val [OF n, of _ a b]
  show "has_bits n (cl_coeff n a b) (clmul_val n a b)" unfolding clmul_val_def
    by (rule has_bits_sext [OF assms]) (use b(1) n in \<open>simp add: clmul_val_def bit_sext_low\<close>)
  show "has_bits n (\<lambda>k. cl_coeff n a b (n + k)) (clmulh_val n a b)" unfolding clmulh_val_def
    by (rule has_bits_sext [OF assms]) (use b(2) n in \<open>simp add: clmulh_val_def bit_sext_low\<close>)
  show "has_bits n (\<lambda>k. cl_coeff n a b (n - 1 + k)) (clmulr_val n a b)" unfolding clmulr_val_def
    by (rule has_bits_sext [OF assms]) (use b(3) n in \<open>simp add: clmulr_val_def bit_sext_low\<close>)
qed

text \<open>C2. The carry-less products multiply polynomials over the two-element field. For registers of width \<open>n\<close>, read as polynomials of degree below
  \<open>n\<close>, \<open>clmul\<close> writes the coefficients 0 to \<open>n - 1\<close> of the product, \<open>clmulh\<close> the coefficients from \<open>n\<close> up, and \<open>clmulr\<close> the \<open>n\<close> coefficients from
  \<open>n - 1\<close> up; without the extension, or with a register the embedded base lacks, the instruction is illegal.\<close>

theorem clmul_correct:
  fixes v insn s
  defines "n \<equiv> v_xlen v" and "a \<equiv> XPR s (insn_rs1 insn)" and "b \<equiv> XPR s (insn_rs2 insn)" and "rs \<equiv> [insn_rs1 insn, insn_rs2 insn, insn_rd insn]"
  assumes "n \<in> {32, 64}"
  shows "(\<exists>c. has_bits n (cl_coeff n a b) c \<and> insn_clmul v insn pc s =
      alu_done v insn (extension_enabled s EXT_ZBC \<or> extension_enabled s EXT_ZBKC) rs (first_npc v pc 4) (alu_write (insn_rd insn) c (XPR s)) s) \<and>
    (\<exists>c. has_bits n (\<lambda>k. cl_coeff n a b (n + k)) c \<and> insn_clmulh v insn pc s =
      alu_done v insn (extension_enabled s EXT_ZBC \<or> extension_enabled s EXT_ZBKC) rs (first_npc v pc 4) (alu_write (insn_rd insn) c (XPR s)) s) \<and>
    (\<exists>c. has_bits n (\<lambda>k. cl_coeff n a b (n - 1 + k)) c \<and> insn_clmulr v insn pc s =
      alu_done v insn (extension_enabled s EXT_ZBC) rs (first_npc v pc 4) (alu_write (insn_rd insn) c (XPR s)) s)"
  unfolding insn_clmul_def insn_clmulh_def insn_clmulr_def ext1_def ext2_def r_form_eq require_alu rs_def n_def [symmetric] a_def [symmetric] b_def [symmetric]
  using has_bits_clmul [OF assms(5), of a b] by blast

lemma xlen_example: "v_xlen (example_width n) = n"
  by (simp add: example_width_def)

theorem clmul_correct_witness:
  "(64 :: nat) \<in> {32, 64} \<and>
   (\<exists>c. has_bits 64 (cl_coeff 64 (XPR example_cpu (insn_rs1 0x0a209233)) (XPR example_cpu (insn_rs2 0x0a209233))) c \<and>
      insn_clmul (example_width 64) 0x0a209233 0x1000 example_cpu =
      alu_done (example_width 64) 0x0a209233 True [insn_rs1 0x0a209233, insn_rs2 0x0a209233, insn_rd 0x0a209233] (first_npc (example_width 64) 0x1000 4)
        (alu_write (insn_rd 0x0a209233) c (XPR example_cpu)) example_cpu)"
proof (intro conjI)
  have e: "extension_enabled example_cpu = (\<lambda>_. True)" by (simp add: example_cpu_def)
  have h: "v_xlen (example_width 64) \<in> {32, 64}" by (simp add: xlen_example)
  show "\<exists>c. has_bits 64 (cl_coeff 64 (XPR example_cpu (insn_rs1 0x0a209233)) (XPR example_cpu (insn_rs2 0x0a209233))) c \<and>
      insn_clmul (example_width 64) 0x0a209233 0x1000 example_cpu =
      alu_done (example_width 64) 0x0a209233 True [insn_rs1 0x0a209233, insn_rs2 0x0a209233, insn_rd 0x0a209233] (first_npc (example_width 64) 0x1000 4)
        (alu_write (insn_rd 0x0a209233) c (XPR example_cpu)) example_cpu"
    using clmul_correct [OF h, of example_cpu "0x0a209233" "0x1000", THEN conjunct1] by (simp only: xlen_example e simp_thms)
qed simp

definition unary_done :: "variant \<Rightarrow> insn_bits_t \<Rightarrow> reg_t \<Rightarrow> cpu \<Rightarrow> bool \<Rightarrow> reg_t \<Rightarrow> insn_result" where
  "unary_done v insn pc s enabled c =
     alu_done v insn enabled [insn_rs1 insn, insn_rd insn] (first_npc v pc 4) (alu_write (insn_rd insn) c (XPR s)) s"

lemma unary_alu: "require insn g (i_form f v insn pc s) = unary_done v insn pc s g (f (XPR s (insn_rs1 insn)))"
  unfolding i_form_eq require_alu unary_done_def ..

lemma require_unary: "require insn g (unary_done v insn pc s h c) = unary_done v insn pc s (g \<and> h) c"
  by (simp add: require_def unary_done_def alu_done_def)

lemmas permuting_defs = insn_grevi_def insn_gorci_def insn_shfli_def insn_unshfli_def shamt_ok_def zip_guard_def Let_def unary_alu require_unary

lemma zip_shamt: "insn_rs2 insn = 15 \<Longrightarrow> SHAMT insn < 16 \<Longrightarrow> SHAMT insn = 15"
proof -
  assume r: "insn_rs2 insn = 15" and l: "SHAMT insn < 16"
  have "unat (SHAMT insn AND mask 4) = unat (SHAMT insn)" unfolding and_mask_mod using l by (simp add: word_less_nat_alt)
  then have "SHAMT insn = SHAMT insn AND mask 4" by (simp only: word_unat_eq_iff)
  also have "\<dots> = insn_rs2 insn AND mask 4"
    unfolding SHAMT_def mask_63 i_imm_def insn_rs2_def
    by (rule bit_word_eqI) (auto simp: bit_and_iff bit_mask_iff bit_insn_x bit_insn_xs min_def)
  finally show "SHAMT insn = 15" using r by (simp add: mask_eq_exp_minus_1)
qed

lemma has_bits_staged:
  assumes n: "n \<in> {32, 64}"
  shows "has_bits n (\<lambda>k. bit x (8 * (n div 8 - 1 - k div 8) + k mod 8)) (sext (staged (of_nat (n - 8)) swap_stages x) n)"
    "has_bits n (\<lambda>k. bit x (8 * (k div 8) + (7 - k mod 8))) (sext (staged 7 swap_stages x) n)"
    "has_bits n (\<lambda>k. \<exists>m<8. bit x (8 * (k div 8) + m)) (sext (staged 7 (map (\<lambda>(b, f). (b, \<lambda>x. x OR f x)) swap_stages) x) n)"
    "has_bits 32 (\<lambda>k. bit x (if even k then k div 2 else k div 2 + 16)) (sext (staged 15 shuffle_stages x) 32)"
    "has_bits 32 (\<lambda>k. bit x (if k < 16 then 2 * k else 2 * (k - 16) + 1)) (sext (staged 15 (rev shuffle_stages) x) 32)"
proof -
  have l: "k < 64" if "k < n" for k using that n by auto
  have "bit (staged (of_nat (n - 8)) swap_stages x) k \<longleftrightarrow> bit x (8 * (n div 8 - 1 - k div 8) + k mod 8)" if "k < n" for k
    using n that staged_reversals(1,2) [of k x] by auto
  then show "has_bits n (\<lambda>k. bit x (8 * (n div 8 - 1 - k div 8) + k mod 8)) (sext (staged (of_nat (n - 8)) swap_stages x) n)"
    by (rule has_bits_sext [OF n])
  show "has_bits n (\<lambda>k. bit x (8 * (k div 8) + (7 - k mod 8))) (sext (staged 7 swap_stages x) n)"
    "has_bits n (\<lambda>k. \<exists>m<8. bit x (8 * (k div 8) + m)) (sext (staged 7 (map (\<lambda>(b, f). (b, \<lambda>x. x OR f x)) swap_stages) x) n)"
    by (rule has_bits_sext [OF n], rule staged_reversals, erule l)+
  show "has_bits 32 (\<lambda>k. bit x (if even k then k div 2 else k div 2 + 16)) (sext (staged 15 shuffle_stages x) 32)"
    "has_bits 32 (\<lambda>k. bit x (if k < 16 then 2 * k else 2 * (k - 16) + 1)) (sext (staged 15 (rev shuffle_stages) x) 32)"
    by (rule has_bits_sext, simp, erule staged_interleavings)+
qed

lemma reversals_done:
  assumes "v_xlen v \<in> {32, 64}"
  shows "insn_grevi v insn pc s =
      unary_done v insn pc s (SHAMT insn = of_nat (v_xlen v - 8) \<and> (extension_enabled s EXT_ZBB \<or> extension_enabled s EXT_ZBKB) \<or>
          SHAMT insn = 7 \<and> extension_enabled s EXT_ZBKB)
        (sext (staged (SHAMT insn) swap_stages (XPR s (insn_rs1 insn))) (v_xlen v))"
    "insn_gorci v insn pc s =
      unary_done v insn pc s (SHAMT insn = 7 \<and> extension_enabled s EXT_ZBB)
        (sext (staged (SHAMT insn) (map (\<lambda>(b, f). (b, \<lambda>x. x OR f x)) swap_stages) (XPR s (insn_rs1 insn))) (v_xlen v))"
  unfolding permuting_defs using assms by (auto intro!: arg_cong [where f = "\<lambda>g. unary_done v insn pc s g _"])

lemma interleavings_done:
  "insn_shfli v insn pc s =
      unary_done v insn pc s (v_xlen v = 32 \<and> insn_rs2 insn = 15 \<and> extension_enabled s EXT_ZBKB \<and> SHAMT insn = 15)
        (sext (staged (SHAMT insn AND of_nat ((v_xlen v - 1) div 2)) shuffle_stages (XPR s (insn_rs1 insn))) (v_xlen v))"
  "insn_unshfli v insn pc s =
      unary_done v insn pc s (v_xlen v = 32 \<and> insn_rs2 insn = 15 \<and> extension_enabled s EXT_ZBKB \<and> SHAMT insn = 15)
        (sext (staged (SHAMT insn AND of_nat ((v_xlen v - 1) div 2)) (rev shuffle_stages) (XPR s (insn_rs1 insn))) (v_xlen v))"
proof -
  have z: "(v_xlen v = 32 \<and> (insn_rs2 insn = of_nat (v_xlen v div 2 - 1) \<and> extension_enabled s EXT_ZBKB) \<and> SHAMT insn < of_nat (v_xlen v div 2)) =
      (v_xlen v = 32 \<and> insn_rs2 insn = 15 \<and> extension_enabled s EXT_ZBKB \<and> SHAMT insn = 15)"
    using zip_shamt [of insn] by auto
  show "insn_shfli v insn pc s =
      unary_done v insn pc s (v_xlen v = 32 \<and> insn_rs2 insn = 15 \<and> extension_enabled s EXT_ZBKB \<and> SHAMT insn = 15)
        (sext (staged (SHAMT insn AND of_nat ((v_xlen v - 1) div 2)) shuffle_stages (XPR s (insn_rs1 insn))) (v_xlen v))"
    "insn_unshfli v insn pc s =
      unary_done v insn pc s (v_xlen v = 32 \<and> insn_rs2 insn = 15 \<and> extension_enabled s EXT_ZBKB \<and> SHAMT insn = 15)
        (sext (staged (SHAMT insn AND of_nat ((v_xlen v - 1) div 2)) (rev shuffle_stages) (XPR s (insn_rs1 insn))) (v_xlen v))"
    unfolding permuting_defs z by (rule refl)+
qed

text \<open>C3. The permuting instructions move bits as their names say, at both register widths: \<open>rev8\<close> reverses the bytes of the register, \<open>brev8\<close> the bits of
  each byte, \<open>orc.b\<close> fills each byte with ones unless it is zero, \<open>zip\<close> interleaves the two halves of a 32-bit register and \<open>unzip\<close> takes them apart
  again. Every other encoding of the underlying general instructions is illegal.\<close>

theorem permutations_correct:
  fixes v insn s
  defines "n \<equiv> v_xlen v" and "x \<equiv> XPR s (insn_rs1 insn)" and "sh \<equiv> SHAMT insn"
  assumes n: "n \<in> {32, 64}"
  shows "(\<exists>c. insn_grevi v insn pc s =
        unary_done v insn pc s (sh = of_nat (n - 8) \<and> (extension_enabled s EXT_ZBB \<or> extension_enabled s EXT_ZBKB) \<or> sh = 7 \<and> extension_enabled s EXT_ZBKB) c \<and>
      (sh = of_nat (n - 8) \<longrightarrow> has_bits n (\<lambda>k. bit x (8 * (n div 8 - 1 - k div 8) + k mod 8)) c) \<and>
      (sh = 7 \<longrightarrow> has_bits n (\<lambda>k. bit x (8 * (k div 8) + (7 - k mod 8))) c)) \<and>
    (\<exists>c. insn_gorci v insn pc s = unary_done v insn pc s (sh = 7 \<and> extension_enabled s EXT_ZBB) c \<and>
      (sh = 7 \<longrightarrow> has_bits n (\<lambda>k. \<exists>m<8. bit x (8 * (k div 8) + m)) c)) \<and>
    (\<exists>c. insn_shfli v insn pc s = unary_done v insn pc s (n = 32 \<and> insn_rs2 insn = 15 \<and> extension_enabled s EXT_ZBKB \<and> sh = 15) c \<and>
      (n = 32 \<and> sh = 15 \<longrightarrow> has_bits 32 (\<lambda>k. bit x (if even k then k div 2 else k div 2 + 16)) c)) \<and>
    (\<exists>c. insn_unshfli v insn pc s = unary_done v insn pc s (n = 32 \<and> insn_rs2 insn = 15 \<and> extension_enabled s EXT_ZBKB \<and> sh = 15) c \<and>
      (n = 32 \<and> sh = 15 \<longrightarrow> has_bits 32 (\<lambda>k. bit x (if k < 16 then 2 * k else 2 * (k - 16) + 1)) c))"
proof (intro conjI)
  note b = has_bits_staged [OF n, of x]
  have m: "n = 32 \<and> sh = 15 \<Longrightarrow> sext (staged (sh AND of_nat ((n - 1) div 2)) f x) n = sext (staged 15 f x) 32" for f by simp
  show "\<exists>c. insn_grevi v insn pc s =
      unary_done v insn pc s (sh = of_nat (n - 8) \<and> (extension_enabled s EXT_ZBB \<or> extension_enabled s EXT_ZBKB) \<or> sh = 7 \<and> extension_enabled s EXT_ZBKB) c \<and>
      (sh = of_nat (n - 8) \<longrightarrow> has_bits n (\<lambda>k. bit x (8 * (n div 8 - 1 - k div 8) + k mod 8)) c) \<and>
      (sh = 7 \<longrightarrow> has_bits n (\<lambda>k. bit x (8 * (k div 8) + (7 - k mod 8))) c)"
    unfolding reversals_done(1) [OF n [unfolded n_def]] n_def [symmetric] x_def [symmetric] sh_def [symmetric]
    by (intro exI conjI impI, rule refl) (simp_all only: b)
  show "\<exists>c. insn_gorci v insn pc s = unary_done v insn pc s (sh = 7 \<and> extension_enabled s EXT_ZBB) c \<and>
      (sh = 7 \<longrightarrow> has_bits n (\<lambda>k. \<exists>m<8. bit x (8 * (k div 8) + m)) c)"
    unfolding reversals_done(2) [OF n [unfolded n_def]] n_def [symmetric] x_def [symmetric] sh_def [symmetric]
    by (intro exI conjI impI, rule refl) (simp only: b)
  show "\<exists>c. insn_shfli v insn pc s = unary_done v insn pc s (n = 32 \<and> insn_rs2 insn = 15 \<and> extension_enabled s EXT_ZBKB \<and> sh = 15) c \<and>
      (n = 32 \<and> sh = 15 \<longrightarrow> has_bits 32 (\<lambda>k. bit x (if even k then k div 2 else k div 2 + 16)) c)"
    unfolding interleavings_done n_def [symmetric] x_def [symmetric] sh_def [symmetric]
    by (intro exI conjI impI, rule refl, subst m) (assumption, rule b)
  show "\<exists>c. insn_unshfli v insn pc s = unary_done v insn pc s (n = 32 \<and> insn_rs2 insn = 15 \<and> extension_enabled s EXT_ZBKB \<and> sh = 15) c \<and>
      (n = 32 \<and> sh = 15 \<longrightarrow> has_bits 32 (\<lambda>k. bit x (if k < 16 then 2 * k else 2 * (k - 16) + 1)) c)"
    unfolding interleavings_done n_def [symmetric] x_def [symmetric] sh_def [symmetric]
    by (intro exI conjI impI, rule refl, subst m) (assumption, rule b)
qed

theorem permutations_correct_witness:
  "(32 :: nat) \<in> {32, 64} \<and> SHAMT 0x6980d213 = of_nat (32 - 8) \<and>
   (\<exists>c. insn_grevi (example_width 32) 0x6980d213 0 example_cpu = unary_done (example_width 32) 0x6980d213 0 example_cpu True c \<and>
      has_bits 32 (\<lambda>k. bit (XPR example_cpu (insn_rs1 0x6980d213)) (8 * (32 div 8 - 1 - k div 8) + k mod 8)) c)"
proof (intro conjI)
  have e: "extension_enabled example_cpu = (\<lambda>_. True)" by (simp add: example_cpu_def)
  have h: "v_xlen (example_width 32) \<in> {32, 64}" by (simp add: xlen_example)
  show sh: "SHAMT 0x6980d213 = of_nat (32 - 8)" by code_simp
  show "\<exists>c. insn_grevi (example_width 32) 0x6980d213 0 example_cpu = unary_done (example_width 32) 0x6980d213 0 example_cpu True c \<and>
      has_bits 32 (\<lambda>k. bit (XPR example_cpu (insn_rs1 0x6980d213)) (8 * (32 div 8 - 1 - k div 8) + k mod 8)) c"
    using permutations_correct [OF h, of "0x6980d213" 0 example_cpu, THEN conjunct1] unfolding xlen_example e sh simp_thms by blast
qed simp

end
