(* ===== verification/Privilege.thy ===== *)
theory Privilege
  imports Insns Hart_Interrupts
begin

text \<open>
  Privilege modes and the control and status registers of traps (\<^verbatim>\<open>riscv/csrs.cc\<close>, \<^verbatim>\<open>riscv/processor.cc\<close>). The state holds the stored values of the
  registers; a register whose class computes on reads or writes has the functions of that class. Of the registers that only other components
  write (\<^verbatim>\<open>mip\<close> with its device lines, \<^verbatim>\<open>mie\<close>, \<^verbatim>\<open>mvien\<close>, \<^verbatim>\<open>mvip\<close>, \<^verbatim>\<open>hvictl\<close>, the environment configuration) the fields hold what their \<open>read\<close> returns.
  Flushes of the lookaside buffers are recorded in a flag.
\<close>

unbundle bit_operations_syntax

section \<open>Encodings\<close>

definition MSTATUS_SIE :: reg_t where "MSTATUS_SIE = 0x2"
definition MSTATUS_MIE :: reg_t where "MSTATUS_MIE = 0x8"
definition MSTATUS_SPIE :: reg_t where "MSTATUS_SPIE = 0x20"
definition MSTATUS_UBE :: reg_t where "MSTATUS_UBE = 0x40"
definition MSTATUS_MPIE :: reg_t where "MSTATUS_MPIE = 0x80"
definition MSTATUS_SPP :: reg_t where "MSTATUS_SPP = 0x100"
definition MSTATUS_VS :: reg_t where "MSTATUS_VS = 0x600"
definition MSTATUS_FS :: reg_t where "MSTATUS_FS = 0x6000"
definition MSTATUS_XS :: reg_t where "MSTATUS_XS = 0x18000"
definition MSTATUS_TVM :: reg_t where "MSTATUS_TVM = 0x100000"
definition MSTATUS_TW :: reg_t where "MSTATUS_TW = 0x200000"
definition MSTATUS_TSR :: reg_t where "MSTATUS_TSR = 0x400000"
definition MSTATUS_SPELP :: reg_t where "MSTATUS_SPELP = 0x800000"
definition MSTATUS_SDT :: reg_t where "MSTATUS_SDT = 0x1000000"
definition MSTATUS_UXL :: reg_t where "MSTATUS_UXL = 0x300000000"
definition MSTATUS_GVA :: reg_t where "MSTATUS_GVA = 0x4000000000"
definition MSTATUS_MPELP :: reg_t where "MSTATUS_MPELP = 0x20000000000"
definition MSTATUS_MDT :: reg_t where "MSTATUS_MDT = 0x40000000000"
definition MSTATUS_SXL :: reg_t where "MSTATUS_SXL = 0xC00000000"
definition MSTATUS_SBE :: reg_t where "MSTATUS_SBE = 0x1000000000"
definition MSTATUS_MBE :: reg_t where "MSTATUS_MBE = 0x2000000000"
definition HSTATUS_VSXL :: reg_t where "HSTATUS_VSXL = 0x300000000"
definition DEFAULT_RSTVEC :: reg_t where "DEFAULT_RSTVEC = 0x1000"
definition SSTATUS_SIE :: reg_t where "SSTATUS_SIE = 0x2"
definition SSTATUS_SPIE :: reg_t where "SSTATUS_SPIE = 0x20"
definition SSTATUS_UBE :: reg_t where "SSTATUS_UBE = 0x40"
definition SSTATUS_SPP :: reg_t where "SSTATUS_SPP = 0x100"
definition SSTATUS_VS :: reg_t where "SSTATUS_VS = 0x600"
definition SSTATUS_FS :: reg_t where "SSTATUS_FS = 0x6000"
definition SSTATUS_XS :: reg_t where "SSTATUS_XS = 0x18000"
definition SSTATUS_SUM :: reg_t where "SSTATUS_SUM = 0x40000"
definition SSTATUS_MXR :: reg_t where "SSTATUS_MXR = 0x80000"
definition SSTATUS_SPELP :: reg_t where "SSTATUS_SPELP = 0x800000"
definition SSTATUS_SDT :: reg_t where "SSTATUS_SDT = 0x1000000"
definition SSTATUS32_SD :: reg_t where "SSTATUS32_SD = 0x80000000"
definition SSTATUS_UXL :: reg_t where "SSTATUS_UXL = 0x300000000"
definition SSTATUS64_SD :: reg_t where "SSTATUS64_SD = 0x8000000000000000"
definition HSTATUS_VTSR :: reg_t where "HSTATUS_VTSR = 0x400000"
definition HSTATUS_VTW :: reg_t where "HSTATUS_VTW = 0x200000"
definition HSTATUS_VTVM :: reg_t where "HSTATUS_VTVM = 0x100000"
definition HSTATUS_HU :: reg_t where "HSTATUS_HU = 0x200"
definition HSTATUS_SPV :: reg_t where "HSTATUS_SPV = 0x80"
definition HSTATUS_GVA :: reg_t where "HSTATUS_GVA = 0x40"
definition MNSTATUS_MNPV :: reg_t where "MNSTATUS_MNPV = 0x80"
definition MNSTATUS_MNPELP :: reg_t where "MNSTATUS_MNPELP = 0x200"
definition MNSTATUS_MNPP :: reg_t where "MNSTATUS_MNPP = 0x1800"
definition MENVCFG_DTE :: reg_t where "MENVCFG_DTE = 0x800000000000000"
definition HENVCFG_DTE :: reg_t where "HENVCFG_DTE = 0x800000000000000"
definition HVICTL_VTI :: reg_t where "HVICTL_VTI = 0x40000000"
definition HVICTL_IID :: reg_t where "HVICTL_IID = 0x3F0000"
definition HVICTL_DPR :: reg_t where "HVICTL_DPR = 0x200"
definition HVICTL_IPRIOM :: reg_t where "HVICTL_IPRIOM = 0x100"
definition HVICTL_IPRIO :: reg_t where "HVICTL_IPRIO = 0xFF"
definition HSTATUS_VGEIN :: reg_t where "HSTATUS_VGEIN = 0x3f000"
definition MTOPI_IID :: reg_t where "MTOPI_IID = 0xFFF0000"
definition IRQ_S_EXT :: reg_t where "IRQ_S_EXT = 9"
definition IRQ_VS_EXT :: reg_t where "IRQ_VS_EXT = 10"
definition IRQ_COP :: nat where "IRQ_COP = 12"
definition IRQ_LCOF :: nat where "IRQ_LCOF = 13"
definition MIP_SSIP :: reg_t where "MIP_SSIP = push_bit 1 1"
definition MIP_VSSIP :: reg_t where "MIP_VSSIP = push_bit 2 1"
definition MIP_VSEIP :: reg_t where "MIP_VSEIP = push_bit 10 1"
definition MIP_SGEIP :: reg_t where "MIP_SGEIP = push_bit 12 1"
definition MIP_LCOFIP :: reg_t where "MIP_LCOFIP = push_bit 13 1"
definition MIP_S_MASK :: reg_t where "MIP_S_MASK = MIP_SSIP OR MIP_STIP OR MIP_SEIP"
definition MIP_VS_MASK :: reg_t where "MIP_VS_MASK = MIP_VSSIP OR MIP_VSTIP OR MIP_VSEIP"
definition MIP_HS_MASK :: reg_t where "MIP_HS_MASK = MIP_VS_MASK OR MIP_SGEIP"
definition MIDELEG_FORCED_MASK :: reg_t where "MIDELEG_FORCED_MASK = MIP_HS_MASK"
definition CSR_TCONTROL_MPTE :: reg_t where "CSR_TCONTROL_MPTE = 0x80"
definition CSR_TCONTROL_MTE :: reg_t where "CSR_TCONTROL_MTE = 8"

section \<open>State\<close>

record state_t =
  enabled :: "isa_extension \<Rightarrow> bool"
  max_xlen :: nat
  impl_mmu :: bool
  any_vector_extensions :: bool
  any_custom_extensions :: bool
  has_page :: bool
  sstatus_write_mask :: reg_t
  s_pc :: reg_t
  s_prv :: reg_t
  s_v :: bool
  prev_prv :: reg_t
  prev_v :: bool
  prv_changed :: bool
  v_changed :: bool
  s_elp :: bool
  s_taken_branch :: bool
  s_debug_mode :: bool
  critical_error :: bool
  in_wfi :: bool
  tlb_flushed :: bool
  mstatus_val :: reg_t
  vsstatus_val :: reg_t
  hstatus_val :: reg_t
  mnstatus_val :: "reg_t option"
  mnepc_val :: reg_t
  mepc_val :: reg_t
  sepc_val :: reg_t
  vsepc_val :: reg_t
  mtvec_val :: reg_t
  stvec_val :: reg_t
  vstvec_val :: reg_t
  mcause_val :: reg_t
  scause_val :: reg_t
  vscause_val :: reg_t
  mtval_val :: reg_t
  mtval2_val :: reg_t
  mtinst_val :: reg_t
  stval_val :: reg_t
  vstval_val :: reg_t
  htval_val :: reg_t
  htinst_val :: reg_t
  medeleg_val :: reg_t
  mideleg_val :: reg_t
  hedeleg_val :: reg_t
  hideleg_val :: reg_t
  tcontrol_val :: "reg_t option"
  menvcfg_read :: reg_t
  henvcfg_read :: reg_t
  senvcfg_read :: reg_t
  mseccfg_read :: reg_t
  mip_read :: reg_t
  mie_read :: reg_t
  mvien_read :: reg_t
  mvip_read :: reg_t
  hvictl_read :: reg_t
  sie_val :: reg_t

section \<open>Privilege modes\<close>

definition legalize_privilege :: "state_t \<Rightarrow> reg_t \<Rightarrow> reg_t" where
  "legalize_privilege s p =
     (if \<not> enabled s EXT_U then PRV_M
      else if p = PRV_HS \<or> p = PRV_S \<and> \<not> enabled s EXT_S then PRV_U
      else p)"

definition set_privilege :: "reg_t \<Rightarrow> bool \<Rightarrow> state_t \<Rightarrow> state_t" where
  "set_privilege p virt s =
     (let s = s\<lparr>tlb_flushed := True, prev_prv := s_prv s, prev_v := s_v s\<rparr>;
          s = s\<lparr>s_prv := legalize_privilege s p\<rparr>;
          s = s\<lparr>s_v := virt \<and> s_prv s \<noteq> PRV_M\<rparr>
      in s\<lparr>prv_changed := s_prv s \<noteq> prev_prv s, v_changed := s_v s \<noteq> prev_v s\<rparr>)"

section \<open>Register classes\<close>

definition pc_mask :: "state_t \<Rightarrow> reg_t" where
  "pc_mask s = NOT (if enabled s EXT_ZCA then 0 else 2)"

definition epc_read :: "state_t \<Rightarrow> reg_t \<Rightarrow> reg_t" where
  "epc_read s val = val AND pc_mask s"

definition epc_write :: "reg_t \<Rightarrow> reg_t" where
  "epc_write val = val AND NOT 1"

definition tvec_write :: "reg_t \<Rightarrow> reg_t" where
  "tvec_write val = val AND NOT 2"

definition compute_sstatus_write_mask :: "state_t \<Rightarrow> reg_t" where
  "compute_sstatus_write_mask s =
     (let has_fs = (enabled s EXT_S \<or> enabled s EXT_F) \<and> \<not> enabled s EXT_ZFINX; has_vs = any_vector_extensions s
      in (if enabled s EXT_S then SSTATUS_SIE OR SSTATUS_SPIE OR SSTATUS_SPP else 0) OR
         (if has_page s then SSTATUS_SUM OR SSTATUS_MXR else 0) OR
         (if has_fs then SSTATUS_FS else 0) OR
         (if any_custom_extensions s then SSTATUS_XS else 0) OR
         (if has_vs then SSTATUS_VS else 0) OR
         (if enabled s EXT_ZICFILP then SSTATUS_SPELP else 0) OR
         (if enabled s EXT_SSDBLTRP then SSTATUS_SDT else 0))"

definition sd_bit :: "state_t \<Rightarrow> reg_t" where
  "sd_bit s = (if max_xlen s = 64 then SSTATUS64_SD else SSTATUS32_SD)"

definition sstatus_read_mask :: "state_t \<Rightarrow> reg_t" where
  "sstatus_read_mask s = sstatus_write_mask s OR SSTATUS_UBE OR SSTATUS_UXL OR (if max_xlen s = 32 then SSTATUS32_SD else SSTATUS64_SD)"

definition adjust_sd :: "state_t \<Rightarrow> reg_t \<Rightarrow> reg_t" where
  "adjust_sd s val =
     (if val AND SSTATUS_FS = SSTATUS_FS \<or> val AND SSTATUS_VS = SSTATUS_VS \<or> val AND SSTATUS_XS = SSTATUS_XS
      then val OR sd_bit s else val AND NOT (sd_bit s))"

definition maybe_flush_tlb :: "reg_t \<Rightarrow> reg_t \<Rightarrow> state_t \<Rightarrow> state_t" where
  "maybe_flush_tlb newval oldval s =
     (if (newval XOR oldval) AND (MSTATUS_MPP OR MSTATUS_MPRV OR (if has_page s then MSTATUS_MXR OR MSTATUS_SUM else 0)) \<noteq> 0
      then s\<lparr>tlb_flushed := True\<rparr> else s)"

definition mstatus_write_mask :: "state_t \<Rightarrow> reg_t" where
  "mstatus_write_mask s =
     (let has_mpv = enabled s EXT_H; has_gva = has_mpv
      in sstatus_write_mask s OR MSTATUS_MIE OR MSTATUS_MPIE OR
         (if enabled s EXT_U then MSTATUS_MPRV else 0) OR
         MSTATUS_MPP OR MSTATUS_TW OR
         (if enabled s EXT_S then MSTATUS_TSR else 0) OR
         (if has_page s then MSTATUS_TVM else 0) OR
         (if has_gva then MSTATUS_GVA else 0) OR
         (if has_mpv then MSTATUS_MPV else 0) OR
         (if enabled s EXT_SMDBLTRP then MSTATUS_MDT else 0) OR
         (if enabled s EXT_ZICFILP then MSTATUS_SPELP OR MSTATUS_MPELP else 0) OR
         (if enabled s EXT_SSDBLTRP then SSTATUS_SDT else 0))"

definition mstatus_write :: "reg_t \<Rightarrow> state_t \<Rightarrow> state_t" where
  "mstatus_write val s =
     (let msk = mstatus_write_mask s;
          requested_mpp = legalize_privilege s (get_field val MSTATUS_MPP);
          adjusted_val = set_field val MSTATUS_MPP requested_mpp;
          new_mstatus = (mstatus_val s AND NOT msk) OR (adjusted_val AND msk);
          new_mstatus = (if new_mstatus AND MSTATUS_MDT \<noteq> 0 then new_mstatus AND NOT MSTATUS_MIE else new_mstatus);
          new_mstatus = (if new_mstatus AND MSTATUS_SDT \<noteq> 0 then new_mstatus AND NOT MSTATUS_SIE else new_mstatus);
          s = maybe_flush_tlb new_mstatus (mstatus_val s) s
      in s\<lparr>mstatus_val := adjust_sd s new_mstatus\<rparr>)"

definition xlen_to_uxl :: "nat \<Rightarrow> reg_t option" where
  "xlen_to_uxl xl = (if xl = 32 then Some 1 else if xl = 64 then Some 2 else None)"

definition compute_mstatus_initial_value :: "bool \<Rightarrow> reg_t \<Rightarrow> state_t \<Rightarrow> reg_t" where
  "compute_mstatus_initial_value big_endian uxl s =
     (let big_endian_bits = (if enabled s EXT_U then MSTATUS_UBE else 0) OR (if enabled s EXT_S then MSTATUS_SBE else 0) OR MSTATUS_MBE
      in set_field 0 MSTATUS_MPP (if enabled s EXT_U then PRV_U else PRV_M) OR
         (if enabled s EXT_U \<and> max_xlen s \<noteq> 32 then set_field 0 MSTATUS_UXL uxl else 0) OR
         (if enabled s EXT_S \<and> max_xlen s \<noteq> 32 then set_field 0 MSTATUS_SXL uxl else 0) OR
         (if big_endian then big_endian_bits else 0) OR
         (if enabled s EXT_SMDBLTRP then MSTATUS_MDT else 0))"

text \<open>The high half that a 32-bit hart addresses separately (\<open>rv32_high_csr_t\<close>).\<close>

definition mstatush_write :: "reg_t \<Rightarrow> state_t \<Rightarrow> state_t" where
  "mstatush_write val s = mstatus_write (drop_bit 32 (push_bit 32 (mstatus_val s)) OR push_bit 32 (val AND 0xffffffff)) s"

definition sstatus_proxy_read :: "state_t \<Rightarrow> reg_t" where
  "sstatus_proxy_read s =
     mstatus_val s AND (sstatus_read_mask s AND NOT (if menvcfg_read s AND MENVCFG_DTE \<noteq> 0 then 0 else SSTATUS_SDT))"

definition sstatus_proxy_write :: "reg_t \<Rightarrow> state_t \<Rightarrow> state_t" where
  "sstatus_proxy_write val s =
     (let adj_write_mask = sstatus_write_mask s AND NOT (if menvcfg_read s AND MENVCFG_DTE \<noteq> 0 then 0 else SSTATUS_SDT);
          new_mstatus = (mstatus_val s AND NOT adj_write_mask) OR (val AND adj_write_mask);
          new_mstatus = (if new_mstatus AND SSTATUS_SDT \<noteq> 0 then new_mstatus AND NOT SSTATUS_SIE else new_mstatus)
      in mstatus_write new_mstatus s)"

definition vsstatus_read :: "state_t \<Rightarrow> reg_t" where
  "vsstatus_read s =
     vsstatus_val s AND (sstatus_read_mask s AND NOT (if henvcfg_read s AND HENVCFG_DTE \<noteq> 0 then 0 else SSTATUS_SDT))"

definition vsstatus_write :: "reg_t \<Rightarrow> state_t \<Rightarrow> state_t" where
  "vsstatus_write val s =
     (let adj_write_mask = sstatus_write_mask s AND NOT (if henvcfg_read s AND HENVCFG_DTE \<noteq> 0 then 0 else SSTATUS_SDT);
          newval = (vsstatus_val s AND NOT adj_write_mask) OR (val AND adj_write_mask);
          newval = (if newval AND SSTATUS_SDT \<noteq> 0 then newval AND NOT SSTATUS_SIE else newval);
          s = (if s_v s then maybe_flush_tlb newval (vsstatus_read s) s else s)
      in s\<lparr>vsstatus_val := adjust_sd s newval\<rparr>)"

definition sstatus_read :: "state_t \<Rightarrow> reg_t" where
  "sstatus_read s = (if s_v s then vsstatus_read s else sstatus_proxy_read s)"

definition sstatus_write :: "reg_t \<Rightarrow> state_t \<Rightarrow> state_t" where
  "sstatus_write val s = (if s_v s then vsstatus_write val s else sstatus_proxy_write val s)"

definition sepc_read :: "state_t \<Rightarrow> reg_t" where
  "sepc_read s = epc_read s (if s_v s then vsepc_val s else sepc_val s)"

definition hstatus_write :: "reg_t \<Rightarrow> state_t \<Rightarrow> state_t" where
  "hstatus_write val s =
     (let msk = HSTATUS_VTSR OR HSTATUS_VTW OR (if impl_mmu s then HSTATUS_VTVM else 0) OR (if enabled s EXT_SSNPM then HSTATUS_HUPMM else 0) OR
            HSTATUS_HU OR HSTATUS_SPVP OR HSTATUS_SPV OR HSTATUS_GVA;
          pmm = get_field val HSTATUS_HUPMM;
          adjusted_val = set_field val HSTATUS_HUPMM (if pmm \<noteq> 1 then pmm else 0);
          new_hstatus = (hstatus_val s AND NOT msk) OR (adjusted_val AND msk);
          s = (if get_field new_hstatus HSTATUS_HUPMM \<noteq> get_field (hstatus_val s) HSTATUS_HUPMM then s\<lparr>tlb_flushed := True\<rparr> else s)
      in s\<lparr>hstatus_val := new_hstatus\<rparr>)"

definition mnstatus_write :: "reg_t \<Rightarrow> state_t \<Rightarrow> state_t" where
  "mnstatus_write val s =
     (case mnstatus_val s of
        None \<Rightarrow> s
      | Some old \<Rightarrow>
          let msk = (NOT old AND MNSTATUS_NMIE) OR (if enabled s EXT_H then MNSTATUS_MNPV else 0) OR (if enabled s EXT_ZICFILP then MNSTATUS_MNPELP else 0) OR
                MNSTATUS_MNPP;
              requested_mnpp = legalize_privilege s (get_field val MNSTATUS_MNPP);
              adjusted_val = set_field val MNSTATUS_MNPP requested_mnpp
          in s\<lparr>mnstatus_val := Some ((old AND NOT msk) OR (adjusted_val AND msk))\<rparr>)"

definition cause_read :: "nat \<Rightarrow> nat \<Rightarrow> reg_t \<Rightarrow> reg_t" where
  "cause_read max_xl xl val = (if max_xl > xl then val OR push_bit (xl - 1) (drop_bit (max_xl - 1) val) else val)"

definition mideleg_read :: "state_t \<Rightarrow> reg_t" where
  "mideleg_read s = (if enabled s EXT_H then mideleg_val s OR MIDELEG_FORCED_MASK else mideleg_val s)"

definition mideleg_write :: "reg_t \<Rightarrow> state_t \<Rightarrow> state_t" where
  "mideleg_write val s =
     (let supervisor_ints = (if enabled s EXT_S then MIP_SSIP OR MIP_STIP OR MIP_SEIP else 0);
          lscof_int = (if enabled s EXT_SSCOFPMF then MIP_LCOFIP else 0);
          coprocessor_ints = push_bit IRQ_COP (of_bool (any_custom_extensions s));
          delegable_ints = supervisor_ints OR coprocessor_ints OR lscof_int
      in s\<lparr>mideleg_val := val AND delegable_ints\<rparr>)"

definition hideleg_read :: "state_t \<Rightarrow> reg_t" where
  "hideleg_read s = hideleg_val s AND mideleg_read s"

definition hypervisor_exceptions :: reg_t where
  "hypervisor_exceptions = push_bit 0xa 1 OR push_bit 0x14 1 OR push_bit 0x15 1 OR push_bit 0x16 1 OR push_bit 0x17 1"

definition medeleg_write :: "reg_t \<Rightarrow> state_t \<Rightarrow> state_t" where
  "medeleg_write val s =
     (let msk = push_bit 0 1 OR push_bit 1 1 OR push_bit 2 1 OR push_bit 3 1 OR push_bit 4 1 OR push_bit 5 1 OR push_bit 6 1 OR push_bit 7 1 OR push_bit 8 1 OR
            push_bit 9 1 OR push_bit 0xc 1 OR push_bit 0xd 1 OR push_bit 0xf 1 OR (if enabled s EXT_H then hypervisor_exceptions else 0) OR push_bit 0x12 1 OR
            push_bit 0x13 1
      in s\<lparr>medeleg_val := (medeleg_val s AND NOT msk) OR (val AND msk)\<rparr>)"

text \<open>The views of the interrupt registers that supervisor software sees.\<close>

definition sip_sie_read :: "state_t \<Rightarrow> reg_t \<Rightarrow> reg_t" where
  "sip_sie_read s r = r AND mideleg_read s AND NOT MIP_HS_MASK"

definition nonvirtual_sip_read :: "state_t \<Rightarrow> reg_t" where
  "nonvirtual_sip_read s =
     (let msk = NOT (mideleg_read s) AND mvien_read s in (sip_sie_read s (mip_read s) AND NOT msk) OR (mvip_read s AND msk))"

definition nonvirtual_sie_read :: "state_t \<Rightarrow> reg_t" where
  "nonvirtual_sie_read s =
     (let msk = NOT (mideleg_read s) AND mvien_read s in (sip_sie_read s (mie_read s) AND NOT msk) OR (sie_val s AND msk))"

section \<open>Reset\<close>

text \<open>The registers as the constructors leave them; the width has no encoding other than 32 and 64, for which the program aborts.\<close>

definition reset_mode :: "state_t \<Rightarrow> state_t" where
  "reset_mode s =
     s\<lparr>s_pc := DEFAULT_RSTVEC, s_prv := PRV_M, prev_prv := PRV_M, s_v := False, prev_v := False, prv_changed := False, v_changed := False,
       s_debug_mode := False, s_elp := False, critical_error := False\<rparr>"

definition reset_masks :: "state_t \<Rightarrow> state_t" where
  "reset_masks s =
     (let s = s\<lparr>has_page := enabled s EXT_S \<and> impl_mmu s\<rparr> in s\<lparr>sstatus_write_mask := compute_sstatus_write_mask s\<rparr>)"

definition reset_status :: "bool \<Rightarrow> reg_t \<Rightarrow> state_t \<Rightarrow> state_t" where
  "reset_status big_endian uxl s =
     (let m = compute_mstatus_initial_value big_endian uxl s
      in s\<lparr>mstatus_val := m, vsstatus_val := m AND sstatus_read_mask s, hstatus_val := set_field 0 HSTATUS_VSXL uxl,
           mnstatus_val := (if enabled s EXT_SMRNMI then Some 0 else None)\<rparr>)"

definition reset_trap_registers :: "state_t \<Rightarrow> state_t" where
  "reset_trap_registers s =
     s\<lparr>mepc_val := 0, mtval_val := 0, mtvec_val := 0, mcause_val := 0, medeleg_val := 0, mideleg_val := 0, sepc_val := 0, vsepc_val := 0,
       stval_val := 0, vstval_val := 0, stvec_val := 0, vstvec_val := 0, scause_val := 0, vscause_val := 0, mtval2_val := 0, mtinst_val := 0,
       hideleg_val := 0, hedeleg_val := 0, htval_val := 0, htinst_val := 0, mnepc_val := 0, tcontrol_val := map_option (\<lambda>_. 0) (tcontrol_val s)\<rparr>"

definition state_reset :: "bool \<Rightarrow> state_t \<Rightarrow> state_t option" where
  "state_reset big_endian s =
     (case xlen_to_uxl (max_xlen s) of
        None \<Rightarrow> None
      | Some uxl \<Rightarrow> Some (reset_trap_registers (reset_status big_endian uxl (reset_masks (reset_mode s)))))"

section \<open>Selection of interrupts\<close>

definition select_an_interrupt_with_default_priority :: "reg_t \<Rightarrow> reg_t" where
  "select_an_interrupt_with_default_priority e =
     (if drop_bit (IRQ_LCOF + 1) e \<noteq> 0 then push_bit (IRQ_LCOF + 1) (drop_bit (IRQ_LCOF + 1) e)
      else if e AND MIP_MEIP \<noteq> 0 then MIP_MEIP
      else if e AND MIP_MSIP \<noteq> 0 then MIP_MSIP
      else if e AND MIP_MTIP \<noteq> 0 then MIP_MTIP
      else if e AND MIP_SEIP \<noteq> 0 then MIP_SEIP
      else if e AND MIP_SSIP \<noteq> 0 then MIP_SSIP
      else if e AND MIP_STIP \<noteq> 0 then MIP_STIP
      else if e AND MIP_LCOFIP \<noteq> 0 then MIP_LCOFIP
      else if e AND MIP_VSEIP \<noteq> 0 then MIP_VSEIP
      else if e AND MIP_VSSIP \<noteq> 0 then MIP_VSSIP
      else if e AND MIP_VSTIP \<noteq> 0 then MIP_VSTIP
      else e)"

definition vstopi_read :: "state_t \<Rightarrow> reg_t" where
  "vstopi_read s =
     (let hvictl = hvictl_read s;
          vti = hvictl AND HVICTL_VTI \<noteq> 0;
          iid = get_field hvictl HVICTL_IID;
          dpr = hvictl AND HVICTL_DPR \<noteq> 0;
          ipriom = hvictl AND HVICTL_IPRIOM \<noteq> 0;
          iprio = get_field hvictl HVICTL_IPRIO;
          enabled_interrupts = drop_bit 1 (mip_read s AND mie_read s AND hideleg_read s);
          vgein = get_field (hstatus_val s) HSTATUS_VGEIN;
          virtual_sei_priority = (if vgein = 0 \<and> iid = IRQ_S_EXT \<and> iprio \<noteq> 0 then iprio else 255);
          result = (\<lambda>identity priority. set_field (if ipriom then priority else 1) MTOPI_IID identity)
      in if vti then
           if enabled_interrupts AND MIP_SEIP = 0 \<and> iid = IRQ_S_EXT then 0
           else let identity = (if enabled_interrupts AND MIP_SEIP \<noteq> 0 \<and> (iid = IRQ_S_EXT \<or> dpr) then IRQ_S_EXT else iid);
                    priority = (if identity = IRQ_S_EXT then virtual_sei_priority else if iprio \<noteq> 0 \<or> \<not> dpr then iprio else 255)
                in result identity priority
         else if enabled_interrupts = 0 then 0
         else let identity = of_nat (ctz (select_an_interrupt_with_default_priority enabled_interrupts));
                  priority = (if identity = IRQ_S_EXT then virtual_sei_priority else 255)
              in result identity priority)"

end
