(* ===== verification/Traps.thy ===== *)
theory Traps
  imports Privilege
begin

text \<open>
  Traps and returns (\<^verbatim>\<open>riscv/processor.cc\<close>, \<^verbatim>\<open>riscv/insns/mret.h\<close> and its siblings): which interrupt is taken, which mode handles a trap, the registers the
  entry writes, and the instructions that return. A trap is the record that the accessors of \<open>trap_t\<close> present; the step that takes an interrupt either leaves the
  state or throws the trap. Debug output is not modelled.
\<close>

unbundle bit_operations_syntax

section \<open>Taking interrupts\<close>

record trap_t =
  trap_cause :: reg_t
  trap_gva :: bool
  trap_tval :: reg_t
  trap_tval2 :: reg_t
  trap_tinst :: reg_t

definition plain_trap :: "reg_t \<Rightarrow> trap_t" where
  "plain_trap which = \<lparr>trap_cause = which, trap_gva = False, trap_tval = 0, trap_tval2 = 0, trap_tinst = 0\<rparr>"

definition nmie :: "state_t \<Rightarrow> bool" where
  "nmie s = (case mnstatus_val s of None \<Rightarrow> True | Some m \<Rightarrow> get_field m MNSTATUS_NMIE \<noteq> 0)"

definition interrupt_bit :: "state_t \<Rightarrow> reg_t" where
  "interrupt_bit s = push_bit (max_xlen s - 1) 1"

definition all_if :: "bool \<Rightarrow> reg_t" where
  "all_if b = - of_bool b"

text \<open>The interrupts that may be taken now: the machine's first, then those of the hypervisor or supervisor, then those of a guest.\<close>

definition enabled_interrupts :: "reg_t \<Rightarrow> reg_t \<Rightarrow> reg_t \<Rightarrow> state_t \<Rightarrow> reg_t" where
  "enabled_interrupts pending s_pending vs_pending s =
     (let mie = get_field (mstatus_val s) MSTATUS_MIE \<noteq> 0;
          m_enabled = s_prv s < PRV_M \<or> s_prv s = PRV_M \<and> mie;
          en = pending AND NOT (mideleg_read s) AND all_if m_enabled
      in if en = 0 then
           let deleg_to_hs = mideleg_read s AND NOT (hideleg_read s);
               sie = get_field (sstatus_read s) MSTATUS_SIE \<noteq> 0;
               hs_enabled = s_v s \<or> s_prv s < PRV_S \<or> s_prv s = PRV_S \<and> sie;
               en = ((pending AND deleg_to_hs) OR (s_pending AND NOT (hideleg_read s))) AND all_if hs_enabled
           in if s_v s \<and> en = 0 then
                let deleg_to_vs = hideleg_read s;
                    vs_enabled = s_prv s < PRV_S \<or> s_prv s = PRV_S \<and> sie
                in ((pending AND deleg_to_vs) OR vs_pending) AND all_if vs_enabled
              else en
         else en)"

definition aia_pending :: "state_t \<Rightarrow> reg_t \<times> reg_t" where
  "aia_pending s =
     (if enabled s EXT_SSAIA then
        let vstopi = vstopi_read s
        in (nonvirtual_sip_read s AND nonvirtual_sie_read s,
            (if vstopi \<noteq> 0 then push_bit (unat (get_field vstopi MTOPI_IID)) 1 else 0) AND NOT MIP_S_MASK)
      else (0, 0))"

definition take_interrupt :: "reg_t \<Rightarrow> state_t \<Rightarrow> trap_t option \<times> state_t" where
  "take_interrupt pending s =
     (let (s_pending, vs_pending) = aia_pending s
      in if pending = 0 \<and> s_pending = 0 \<and> vs_pending = 0 then (None, s)
         else
           let s = s\<lparr>in_wfi := False\<rparr>;
               en = enabled_interrupts pending s_pending vs_pending s
           in if \<not> s_debug_mode s \<and> nmie s \<and> en \<noteq> 0
              then (Some (plain_trap (interrupt_bit s OR of_nat (ctz (select_an_interrupt_with_default_priority en)))), s)
              else (None, s))"

section \<open>Taking traps\<close>

definition DEBUG_ROM_ENTRY :: reg_t where "DEBUG_ROM_ENTRY = 0x800"
definition DEBUG_ROM_TVEC :: reg_t where "DEBUG_ROM_TVEC = 0x808"
definition CAUSE_BREAKPOINT :: reg_t where "CAUSE_BREAKPOINT = 3"
definition CAUSE_DOUBLE_TRAP :: reg_t where "CAUSE_DOUBLE_TRAP = 0x10"

datatype trap_mode = Trap_VS | Trap_HS | Trap_M

record trap_route =
  r_interrupt :: bool
  r_bit :: reg_t
  r_double :: bool
  r_vti :: bool
  r_mode :: trap_mode

definition is_interrupt :: "trap_t \<Rightarrow> state_t \<Rightarrow> bool" where
  "is_interrupt t s \<longleftrightarrow> trap_cause t AND interrupt_bit s \<noteq> 0"

definition trap_bit :: "trap_t \<Rightarrow> state_t \<Rightarrow> reg_t" where
  "trap_bit t s = (if is_interrupt t s then trap_cause t AND NOT (interrupt_bit s) else trap_cause t)"

definition vs_delegated :: "trap_t \<Rightarrow> state_t \<Rightarrow> reg_t" where
  "vs_delegated t s =
     (if s_v s \<and> s_prv s \<le> PRV_S then if is_interrupt t s then hideleg_read s else medeleg_val s AND hedeleg_val s else 0)"

definition hs_delegated :: "trap_t \<Rightarrow> state_t \<Rightarrow> reg_t" where
  "hs_delegated t s =
     (if s_prv s \<le> PRV_S then if is_interrupt t s then mideleg_read s OR nonvirtual_sip_read s else medeleg_val s else 0)"

definition picks :: "reg_t \<Rightarrow> reg_t \<Rightarrow> bool" where
  "picks deleg b \<longleftrightarrow> drop_bit (unat b) deleg AND 1 \<noteq> 0"

definition supv_double_trap :: "trap_t \<Rightarrow> state_t \<Rightarrow> bool" where
  "supv_double_trap t s =
     (let b = trap_bit t s
      in if (s_prv s \<le> PRV_S \<and> b < of_nat (max_xlen s)) \<and> (picks (vs_delegated t s) b \<or> picks (hs_delegated t s) b)
         then get_field (if picks (vs_delegated t s) b then sstatus_read s else sstatus_proxy_read s) MSTATUS_SDT \<noteq> 0
         else False)"

definition virtual_trap_interrupt :: "reg_t \<Rightarrow> state_t \<Rightarrow> bool" where
  "virtual_trap_interrupt b s =
     (if enabled s EXT_SSAIA then
        let hvictl = hvictl_read s; iid = get_field hvictl HVICTL_IID
        in hvictl AND HVICTL_VTI \<noteq> 0 \<and> iid \<noteq> IRQ_S_EXT \<and> iid = b \<and> get_field (vstopi_read s) MTOPI_IID = iid
      else False)"

definition route :: "trap_t \<Rightarrow> state_t \<Rightarrow> trap_route" where
  "route t s =
     (let b = trap_bit t s;
          dbl = supv_double_trap t s;
          vsdeleg = (if dbl then 0 else vs_delegated t s);
          hsdeleg = (if dbl then 0 else hs_delegated t s);
          vti = virtual_trap_interrupt b s;
          small = (s_prv s \<le> PRV_S \<and> b < of_nat (max_xlen s))
      in \<lparr>r_interrupt = is_interrupt t s, r_bit = b, r_double = dbl, r_vti = vti,
          r_mode = (if small \<and> picks vsdeleg b \<or> vti then Trap_VS else if small \<and> picks hsdeleg b then Trap_HS else Trap_M)\<rparr>)"

definition vector_offset :: "reg_t \<Rightarrow> bool \<Rightarrow> reg_t \<Rightarrow> reg_t" where
  "vector_offset tvec interrupt b = (if tvec AND 1 \<noteq> 0 \<and> interrupt then 4 * b else 0)"

definition handler_address :: "reg_t \<Rightarrow> bool \<Rightarrow> reg_t \<Rightarrow> reg_t" where
  "handler_address tvec interrupt b = (tvec AND NOT 1) + vector_offset tvec interrupt b"

definition supervisor_entry :: "bool \<Rightarrow> reg_t \<Rightarrow> state_t \<Rightarrow> reg_t" where
  "supervisor_entry sdt x s =
     (let x = set_field x MSTATUS_SPIE (get_field x MSTATUS_SIE);
          x = set_field x MSTATUS_SPP (s_prv s);
          x = set_field x MSTATUS_SIE 0;
          x = set_field x MSTATUS_SPELP (of_bool (s_elp s))
      in if sdt then set_field x MSTATUS_SDT 1 else x)"

definition trap_to_vs :: "trap_t \<Rightarrow> reg_t \<Rightarrow> trap_route \<Rightarrow> state_t \<Rightarrow> state_t" where
  "trap_to_vs t epc r s =
     (let adjusted_cause = (if r_interrupt r \<and> r_bit r \<le> IRQ_VS_EXT \<and> \<not> r_vti r then r_bit r - 1 else r_bit r);
          s = s\<lparr>s_pc := handler_address (vstvec_val s) (r_interrupt r) adjusted_cause,
                vscause_val := adjusted_cause OR (if r_interrupt r then interrupt_bit s else 0),
                vsepc_val := epc_write epc,
                vstval_val := trap_tval t\<rparr>;
          x = supervisor_entry (menvcfg_read s AND MENVCFG_DTE \<noteq> 0 \<and> henvcfg_read s AND HENVCFG_DTE \<noteq> 0) (sstatus_read s) s;
          s = s\<lparr>s_elp := False\<rparr>;
          s = sstatus_write x s
      in set_privilege PRV_S True s)"

definition trap_to_hs :: "trap_t \<Rightarrow> reg_t \<Rightarrow> trap_route \<Rightarrow> state_t \<Rightarrow> state_t" where
  "trap_to_hs t epc r s =
     (let curr_virt = s_v s;
          s = s\<lparr>s_pc := handler_address (stvec_val s) (r_interrupt r) (r_bit r),
                scause_val := trap_cause t,
                sepc_val := epc_write epc,
                stval_val := trap_tval t,
                htval_val := trap_tval2 t,
                htinst_val := trap_tinst t\<rparr>;
          x = supervisor_entry (menvcfg_read s AND MENVCFG_DTE \<noteq> 0) (sstatus_proxy_read s) s;
          s = s\<lparr>s_elp := False\<rparr>;
          s = sstatus_proxy_write x s;
          s = (if enabled s EXT_H then
                 let x = hstatus_val s;
                     x = (if curr_virt then set_field x HSTATUS_SPVP (s_prv s) else x);
                     x = set_field x HSTATUS_SPV (of_bool curr_virt);
                     x = set_field x HSTATUS_GVA (of_bool (trap_gva t))
                 in hstatus_write x s
               else s)
      in set_privilege PRV_S False s)"

definition machine_entry :: "trap_t \<Rightarrow> reg_t \<Rightarrow> state_t \<Rightarrow> reg_t" where
  "machine_entry t x s =
     (let x = set_field x MSTATUS_MPIE (get_field x MSTATUS_MIE);
          x = set_field x MSTATUS_MPP (s_prv s);
          x = set_field x MSTATUS_MIE 0;
          x = set_field x MSTATUS_MPV (of_bool (s_v s));
          x = set_field x MSTATUS_GVA (of_bool (trap_gva t))
      in set_field x MSTATUS_MPELP (of_bool (s_elp s)))"

definition mstatus_write_all :: "reg_t \<Rightarrow> state_t \<Rightarrow> state_t" where
  "mstatus_write_all x s =
     (let s = mstatus_write x s in if max_xlen s = 32 then mstatush_write (drop_bit 32 x) s else s)"

definition tcontrol_write :: "(reg_t \<Rightarrow> reg_t) \<Rightarrow> state_t \<Rightarrow> state_t" where
  "tcontrol_write f s =
     (let m = CSR_TCONTROL_MPTE OR CSR_TCONTROL_MTE in s\<lparr>tcontrol_val := map_option (\<lambda>c. (c AND NOT m) OR (f c AND m)) (tcontrol_val s)\<rparr>)"

definition trap_to_m :: "trap_t \<Rightarrow> reg_t \<Rightarrow> trap_route \<Rightarrow> state_t \<Rightarrow> state_t" where
  "trap_to_m t epc r s =
     (let handler = handler_address (mtvec_val s) (r_interrupt r) (r_bit r);
          x = mstatus_val s
      in if enabled s EXT_SMDBLTRP \<and> (get_field x MSTATUS_MDT \<noteq> 0 \<or> \<not> nmie s) then s\<lparr>critical_error := True\<rparr>
         else
           let x = (if enabled s EXT_SMDBLTRP then set_field x MSTATUS_MDT 1 else x);
               s = s\<lparr>s_pc := (if \<not> nmie s then 0 else handler),
                     mepc_val := epc_write epc,
                     mcause_val := (if r_double r then CAUSE_DOUBLE_TRAP else trap_cause t),
                     mtval_val := trap_tval t,
                     mtval2_val := (if r_double r then trap_cause t else trap_tval2 t),
                     mtinst_val := trap_tinst t\<rparr>;
               x = machine_entry t x s;
               s = s\<lparr>s_elp := False\<rparr>;
               s = mstatus_write_all x s;
               s = tcontrol_write (\<lambda>c. if c AND CSR_TCONTROL_MTE \<noteq> 0 then CSR_TCONTROL_MPTE else 0) s
           in set_privilege PRV_M False s)"

definition trap_entry :: "trap_t \<Rightarrow> reg_t \<Rightarrow> state_t \<Rightarrow> state_t" where
  "trap_entry t epc s =
     (let r = route t s
      in case r_mode r of
           Trap_VS \<Rightarrow> trap_to_vs t epc r s
         | Trap_HS \<Rightarrow> trap_to_hs t epc r s
         | Trap_M \<Rightarrow> trap_to_m t epc r s)"

text \<open>The register \<^verbatim>\<open>hvictl\<close> is looked up whenever the supervisor's advanced interrupts are on, but it is registered only together with the hypervisor extension; without it the
  program dereferences a null pointer.\<close>

definition take_trap :: "trap_t \<Rightarrow> reg_t \<Rightarrow> state_t \<Rightarrow> state_t option" where
  "take_trap t epc s =
     (if s_debug_mode s then Some (s\<lparr>s_pc := (if trap_cause t = CAUSE_BREAKPOINT then DEBUG_ROM_ENTRY else DEBUG_ROM_TVEC)\<rparr>)
      else if enabled s EXT_SSAIA \<and> \<not> enabled s EXT_H then None
      else Some (trap_entry t epc s))"

section \<open>Returning from traps\<close>

datatype sys_trap = Sys_Illegal insn_bits_t | Sys_Virtual insn_bits_t | Sys_Aborted

type_synonym sys_result = "sys_trap + reg_t \<times> state_t"

definition sys_require :: "insn_bits_t \<Rightarrow> bool \<Rightarrow> sys_result \<Rightarrow> sys_result" where
  "sys_require insn c k = (if c then k else Inl (Sys_Illegal insn))"

definition sys_novirt :: "insn_bits_t \<Rightarrow> bool \<Rightarrow> sys_result \<Rightarrow> sys_result" where
  "sys_novirt insn v k = (if v then Inl (Sys_Virtual insn) else k)"

definition sys_set_pc :: "reg_t \<Rightarrow> state_t \<Rightarrow> state_t" where
  "sys_set_pc x s = s\<lparr>s_pc := x AND pc_mask s, s_taken_branch := True\<rparr>"

definition xLPE :: "bool \<Rightarrow> reg_t \<Rightarrow> state_t \<Rightarrow> bool option" where
  "xLPE v p s =
     (if \<not> enabled s EXT_ZICFILP then Some False
      else if p = PRV_U then Some ((if enabled s EXT_S then get_field (senvcfg_read s) SENVCFG_LPE else get_field (menvcfg_read s) MENVCFG_LPE) \<noteq> 0)
      else if p = PRV_S then Some ((if v then get_field (henvcfg_read s) HENVCFG_LPE else get_field (menvcfg_read s) MENVCFG_LPE) \<noteq> 0)
      else if p = PRV_M then Some (get_field (mseccfg_read s) MSECCFG_MLPE \<noteq> 0)
      else None)"

definition clear_vs_sdt :: "state_t \<Rightarrow> state_t" where
  "clear_vs_sdt s = vsstatus_write (vsstatus_read s AND NOT SSTATUS_SDT) s"

definition mret_status :: "reg_t \<Rightarrow> reg_t \<Rightarrow> bool \<Rightarrow> state_t \<Rightarrow> reg_t" where
  "mret_status x pp pv s =
     (let x = (if pp \<noteq> PRV_M then set_field x MSTATUS_MPRV 0 else x);
          x = set_field x MSTATUS_MIE (get_field x MSTATUS_MPIE);
          x = set_field x MSTATUS_MPIE 1;
          x = set_field x MSTATUS_MPP (if enabled s EXT_U then PRV_U else PRV_M);
          x = set_field x MSTATUS_MPV 0;
          x = set_field x MSTATUS_MPELP 0;
          x = set_field x MSTATUS_MDT 0
      in if pp = PRV_U \<or> pv \<and> pp \<noteq> PRV_M then set_field x MSTATUS_SDT 0 else x)"

definition mret_commit :: "reg_t \<Rightarrow> reg_t \<Rightarrow> bool \<Rightarrow> bool \<Rightarrow> state_t \<Rightarrow> state_t" where
  "mret_commit x pp pv lpe s =
     (let s = (if lpe then s\<lparr>s_elp := get_field x MSTATUS_MPELP \<noteq> 0\<rparr> else s);
          x = mret_status x pp pv s;
          s = (if pv \<and> pp = PRV_U then clear_vs_sdt s else s);
          s = mstatus_write_all x s;
          s = tcontrol_write (\<lambda>c. if c AND CSR_TCONTROL_MPTE \<noteq> 0 then CSR_TCONTROL_MPTE OR CSR_TCONTROL_MTE else 0) s
      in set_privilege pp pv s)"

definition insn_mret :: "insn_bits_t \<Rightarrow> state_t \<Rightarrow> sys_result" where
  "insn_mret insn s =
     sys_require insn (PRV_M \<le> s_prv s)
       (let s = sys_set_pc (epc_read s (mepc_val s)) (s\<lparr>s_taken_branch := False\<rparr>);
            x = mstatus_val s;
            pp = get_field x MSTATUS_MPP;
            pv = get_field x MSTATUS_MPV \<noteq> 0
        in case xLPE pv pp s of
             None \<Rightarrow> Inl Sys_Aborted
           | Some lpe \<Rightarrow> Inr (PC_SERIALIZE_AFTER, mret_commit x pp pv lpe s))"

definition sret_status :: "reg_t \<Rightarrow> reg_t" where
  "sret_status x =
     (let x = set_field x MSTATUS_SIE (get_field x MSTATUS_SPIE);
          x = set_field x MSTATUS_SPIE 1
      in set_field x MSTATUS_SPP PRV_U)"

definition sret_virtual :: "reg_t \<Rightarrow> state_t \<Rightarrow> bool" where
  "sret_virtual prev_hstatus s = (if \<not> s_v s \<and> enabled s EXT_H then get_field prev_hstatus HSTATUS_SPV \<noteq> 0 else s_v s)"

definition sret_release :: "reg_t \<Rightarrow> state_t \<Rightarrow> state_t" where
  "sret_release prev_hstatus s =
     (if \<not> s_v s then
        let s = (if enabled s EXT_H then hstatus_write (set_field prev_hstatus HSTATUS_SPV 0) s else s)
        in mstatus_write (set_field (mstatus_val s) MSTATUS_MPRV 0) s
      else s)"

definition sret_commit :: "reg_t \<Rightarrow> reg_t \<Rightarrow> bool \<Rightarrow> bool \<Rightarrow> state_t \<Rightarrow> state_t" where
  "sret_commit x pp pv lpe s =
     (let s = (if lpe then s\<lparr>s_elp := get_field x SSTATUS_SPELP \<noteq> 0\<rparr> else s);
          m = (s_prv s = PRV_M);
          s = (if m then mstatus_write (mstatus_val s AND NOT MSTATUS_MDT) s else s);
          x = (if m \<and> (pp = PRV_U \<or> pv) then set_field x SSTATUS_SDT 0 else x);
          s = (if m \<and> pv \<and> pp = PRV_U then clear_vs_sdt s else s);
          x = set_field x SSTATUS_SPELP 0;
          x = (if s_prv s = PRV_S then set_field x SSTATUS_SDT 0 else x);
          s = (if s_prv s = PRV_S \<and> \<not> s_v s \<and> pv \<and> pp = PRV_U then clear_vs_sdt s else s);
          s = sstatus_write x s
      in set_privilege pp pv s)"

definition sret_body :: "reg_t \<Rightarrow> state_t \<Rightarrow> sys_result" where
  "sret_body prev_hstatus s =
     (let s = sys_set_pc (sepc_read s) (s\<lparr>s_taken_branch := False\<rparr>);
          x = sstatus_read s;
          pp = get_field x MSTATUS_SPP;
          x = sret_status x;
          pv = sret_virtual prev_hstatus s;
          s = sret_release prev_hstatus s
      in case xLPE pv pp s of
           None \<Rightarrow> Inl Sys_Aborted
         | Some lpe \<Rightarrow> Inr (PC_SERIALIZE_AFTER, sret_commit x pp pv lpe s))"

definition insn_sret :: "insn_bits_t \<Rightarrow> state_t \<Rightarrow> sys_result" where
  "insn_sret insn s =
     sys_require insn (enabled s EXT_S)
       (let prev_hstatus = hstatus_val s
        in if s_v s
           then (if s_prv s = PRV_U \<or> get_field prev_hstatus HSTATUS_VTSR \<noteq> 0 then sys_novirt insn (s_v s) (sret_body prev_hstatus s)
                 else sret_body prev_hstatus s)
           else sys_require insn ((if get_field (mstatus_val s) MSTATUS_TSR \<noteq> 0 then PRV_M else PRV_S) \<le> s_prv s) (sret_body prev_hstatus s))"

definition mnret_commit :: "reg_t \<Rightarrow> reg_t \<Rightarrow> bool \<Rightarrow> bool \<Rightarrow> state_t \<Rightarrow> state_t" where
  "mnret_commit x pp pv lpe s =
     (let s = (if lpe then s\<lparr>s_elp := get_field x MNSTATUS_MNPELP \<noteq> 0\<rparr> else s);
          x = (if enabled s EXT_ZICFILP then set_field x MNSTATUS_MNPELP 0 else x)
      in set_privilege pp pv (mnstatus_write x s))"

definition insn_mnret :: "insn_bits_t \<Rightarrow> state_t \<Rightarrow> sys_result" where
  "insn_mnret insn s =
     sys_require insn (enabled s EXT_SMRNMI)
       (sys_require insn (PRV_M \<le> s_prv s)
         (let s = sys_set_pc (epc_read s (mnepc_val s)) (s\<lparr>s_taken_branch := False\<rparr>);
              x = (case mnstatus_val s of None \<Rightarrow> 0 | Some x \<Rightarrow> x);
              pp = get_field x MNSTATUS_MNPP;
              pv = get_field x MNSTATUS_MNPV \<noteq> 0;
              s = (if pp \<noteq> PRV_M then mstatus_write (set_field (mstatus_val s) MSTATUS_MPRV 0) s else s);
              x = set_field x MNSTATUS_NMIE 1
          in case xLPE pv pp s of
               None \<Rightarrow> Inl Sys_Aborted
             | Some lpe \<Rightarrow> Inr (PC_SERIALIZE_AFTER, mnret_commit x pp pv lpe s)))"

definition insn_ecall :: "insn_bits_t \<Rightarrow> state_t \<Rightarrow> trap_t option" where
  "insn_ecall insn s =
     (if s_prv s = PRV_U then Some (plain_trap 8)
      else if s_prv s = PRV_S then Some (plain_trap (if s_v s then 0xa else 9))
      else if s_prv s = PRV_M then Some (plain_trap 0xb)
      else None)"

end
