(* ===== verification/Status_Fields.thy ===== *)
theory Status_Fields
  imports Traps
begin

text \<open>
  The bits of the status registers after a write. A field whose mask is \<open>push_bit i (mask k)\<close> is read as \<open>k\<close> bits from position \<open>i\<close>, and writing it changes
  just those bits; with the position of each field, the effect of a write to \<^verbatim>\<open>mstatus\<close> becomes a statement about single bits.
\<close>

unbundle bit_operations_syntax

section \<open>Fields\<close>

lemma field_unit:
  assumes "0 < k" "i + k \<le> 64"
  shows "push_bit i (mask k) AND NOT (push_bit 1 (push_bit i (mask k))) = (2 ^ i :: reg_t)"
  by (rule bit_word_eqI, unfold bit_and_iff bit_not_iff push_bit_push_bit bit_push_bit_iff bit_mask_iff)
    (use assms in \<open>auto simp: bit_simps\<close>)

lemma get_field_range:
  assumes "0 < k" "i + k \<le> 64"
  shows "get_field x (push_bit i (mask k)) = take_bit k (drop_bit i x)"
proof -
  have "get_field x (push_bit i (mask k)) = drop_bit i (x AND push_bit i (mask k))"
    unfolding get_field_def field_unit [OF assms] by (simp only: drop_bit_eq_div)
  also have "\<dots> = take_bit k (drop_bit i x)"
    by (rule bit_word_eqI) (use assms in \<open>auto simp: bit_simps\<close>)
  finally show ?thesis .
qed

lemma bit_set_field_range:
  assumes "0 < k" "i + k \<le> 64"
  shows "bit (set_field x (push_bit i (mask k)) v) n \<longleftrightarrow> (if i \<le> n \<and> n < i + k then bit v (n - i) else bit x n)"
proof -
  have "set_field x (push_bit i (mask k)) v = (x AND NOT (push_bit i (mask k))) OR (push_bit i v AND push_bit i (mask k))"
    unfolding set_field_def field_unit [OF assms] by (simp only: push_bit_eq_mult)
  then show ?thesis
    using assms by (cases "n < 64") (auto simp: bit_simps dest: bit_imp_le_length)
qed

lemma one_bit_mask: "(2 ^ i :: reg_t) = push_bit i (mask 1)"
  by (simp add: push_bit_eq_mult)

lemma get_field_one:
  assumes "i < 64"
  shows "get_field x (2 ^ i) = of_bool (bit x i)"
proof -
  have "get_field x (push_bit i (mask 1)) = take_bit 1 (drop_bit i x)"
    using assms by (intro get_field_range) auto
  then show ?thesis
    unfolding one_bit_mask by (simp add: take_bit_Suc odd_iff_mod_2_eq_one bit_iff_odd_drop_bit)
qed

lemma bit_set_field_one:
  assumes "i < 64"
  shows "bit (set_field x (2 ^ i) v) n \<longleftrightarrow> (if n = i then bit v 0 else bit x n)"
  unfolding one_bit_mask using assms by (subst bit_set_field_range) auto

lemma two_bit_field:
  assumes "m = push_bit i (mask 2)" "i + 2 \<le> 64"
  shows "get_field x m = of_bool (bit x i) + 2 * of_bool (bit x (i + 1))"
    "bit (set_field x m v) n \<longleftrightarrow> (if n = i then bit v 0 else if n = i + 1 then bit v 1 else bit x n)"
proof -
  have "take_bit 2 (drop_bit i x) = of_bool (bit x i) + 2 * of_bool (bit x (i + 1))"
    by (simp add: numeral_2_eq_2 take_bit_Suc mod_2_eq_odd bit_iff_odd_drop_bit drop_bit_Suc drop_bit_half)
  then show "get_field x m = of_bool (bit x i) + 2 * of_bool (bit x (i + 1))"
    using assms by (simp add: get_field_range)
  show "bit (set_field x m v) n \<longleftrightarrow> (if n = i then bit v 0 else if n = i + 1 then bit v 1 else bit x n)"
    unfolding assms(1) using assms(2) by (subst bit_set_field_range) (auto simp: le_less_Suc_eq Suc_diff_le)
qed

lemma and_one_bit: "i < 64 \<Longrightarrow> x AND 2 ^ i = (0 :: reg_t) \<longleftrightarrow> \<not> bit x i"
  by (simp add: and_exp_eq_0_iff_not_bit)

lemma and_two_bits:
  assumes "i + 2 \<le> 64"
  shows "x AND push_bit i (mask 2) = (push_bit i (mask 2) :: reg_t) \<longleftrightarrow> bit x i \<and> bit x (i + 1)"
proof -
  have bits: "bit (push_bit i (mask 2) :: reg_t) n \<longleftrightarrow> n = i \<or> n = i + 1" for n
    using assms by (auto simp: bit_simps)
  show ?thesis
    unfolding bit_eq_iff [where 'a = "64 word"] bit_and_iff bits using assms by (auto dest: spec [of _ i] spec [of _ "Suc i"])
qed

lemma exp_bit: "i < 64 \<Longrightarrow> bit (2 ^ i :: reg_t) n \<longleftrightarrow> n = i"
  by (auto simp: bit_simps)

section \<open>Positions\<close>

named_theorems status_bits \<open>the status registers bit by bit\<close>

lemmas status_field_defs =
  HSTATUS_GVA_def HSTATUS_SPV_def HSTATUS_SPVP_def MNSTATUS_MNPELP_def MNSTATUS_MNPV_def MNSTATUS_NMIE_def
  MSTATUS_GVA_def MSTATUS_MDT_def MSTATUS_MIE_def MSTATUS_MPELP_def MSTATUS_MPIE_def MSTATUS_MPRV_def
  MSTATUS_MPV_def MSTATUS_MXR_def MSTATUS_SDT_def MSTATUS_SIE_def MSTATUS_SPELP_def MSTATUS_SPIE_def
  MSTATUS_SPP_def MSTATUS_SUM_def MSTATUS_TSR_def MSTATUS_TVM_def MSTATUS_TW_def SSTATUS32_SD_def
  SSTATUS64_SD_def SSTATUS_MXR_def SSTATUS_SDT_def SSTATUS_SIE_def SSTATUS_SPELP_def SSTATUS_SPIE_def
  SSTATUS_SPP_def SSTATUS_SUM_def SSTATUS_UBE_def MSTATUS_MPP_def MNSTATUS_MNPP_def SSTATUS_FS_def
  SSTATUS_VS_def SSTATUS_XS_def MSTATUS_UXL_def SSTATUS_UXL_def HSTATUS_HUPMM_def

lemma get_one_bit [status_bits]:
  fixes x :: reg_t
  shows
  "get_field x MSTATUS_SIE = of_bool (bit x 1)"
  "get_field x MSTATUS_MIE = of_bool (bit x 3)"
  "get_field x MSTATUS_SPIE = of_bool (bit x 5)"
  "get_field x MSTATUS_MPIE = of_bool (bit x 7)"
  "get_field x MSTATUS_SPP = of_bool (bit x 8)"
  "get_field x MSTATUS_MPRV = of_bool (bit x 17)"
  "get_field x MSTATUS_SPELP = of_bool (bit x 23)"
  "get_field x MSTATUS_SDT = of_bool (bit x 24)"
  "get_field x MSTATUS_GVA = of_bool (bit x 38)"
  "get_field x MSTATUS_MPV = of_bool (bit x 39)"
  "get_field x MSTATUS_MPELP = of_bool (bit x 41)"
  "get_field x MSTATUS_MDT = of_bool (bit x 42)"
  "get_field x SSTATUS_SPELP = of_bool (bit x 23)"
  "get_field x SSTATUS_SDT = of_bool (bit x 24)"
  "get_field x HSTATUS_SPV = of_bool (bit x 7)"
  "get_field x HSTATUS_SPVP = of_bool (bit x 8)"
  "get_field x HSTATUS_GVA = of_bool (bit x 6)"
  "get_field x MNSTATUS_NMIE = of_bool (bit x 3)"
  "get_field x MNSTATUS_MNPV = of_bool (bit x 7)"
  "get_field x MNSTATUS_MNPELP = of_bool (bit x 9)"
  unfolding status_field_defs using get_field_one [of 1 x] get_field_one [of 3 x] get_field_one [of 5 x] get_field_one [of 6 x] get_field_one [of 7 x] get_field_one [of 8 x] get_field_one [of 9 x] get_field_one [of 17 x] get_field_one [of 23 x] get_field_one [of 24 x] get_field_one [of 38 x] get_field_one [of 39 x] get_field_one [of 41 x] get_field_one [of 42 x] by simp_all

lemma set_one_bit [status_bits]:
  fixes x v :: reg_t
  shows
  "bit (set_field x MSTATUS_SIE v) n \<longleftrightarrow> (if n = 1 then bit v 0 else bit x n)"
  "bit (set_field x MSTATUS_MIE v) n \<longleftrightarrow> (if n = 3 then bit v 0 else bit x n)"
  "bit (set_field x MSTATUS_SPIE v) n \<longleftrightarrow> (if n = 5 then bit v 0 else bit x n)"
  "bit (set_field x MSTATUS_MPIE v) n \<longleftrightarrow> (if n = 7 then bit v 0 else bit x n)"
  "bit (set_field x MSTATUS_SPP v) n \<longleftrightarrow> (if n = 8 then bit v 0 else bit x n)"
  "bit (set_field x MSTATUS_MPRV v) n \<longleftrightarrow> (if n = 17 then bit v 0 else bit x n)"
  "bit (set_field x MSTATUS_SPELP v) n \<longleftrightarrow> (if n = 23 then bit v 0 else bit x n)"
  "bit (set_field x MSTATUS_SDT v) n \<longleftrightarrow> (if n = 24 then bit v 0 else bit x n)"
  "bit (set_field x MSTATUS_GVA v) n \<longleftrightarrow> (if n = 38 then bit v 0 else bit x n)"
  "bit (set_field x MSTATUS_MPV v) n \<longleftrightarrow> (if n = 39 then bit v 0 else bit x n)"
  "bit (set_field x MSTATUS_MPELP v) n \<longleftrightarrow> (if n = 41 then bit v 0 else bit x n)"
  "bit (set_field x MSTATUS_MDT v) n \<longleftrightarrow> (if n = 42 then bit v 0 else bit x n)"
  "bit (set_field x SSTATUS_SPELP v) n \<longleftrightarrow> (if n = 23 then bit v 0 else bit x n)"
  "bit (set_field x SSTATUS_SDT v) n \<longleftrightarrow> (if n = 24 then bit v 0 else bit x n)"
  "bit (set_field x HSTATUS_SPV v) n \<longleftrightarrow> (if n = 7 then bit v 0 else bit x n)"
  "bit (set_field x HSTATUS_SPVP v) n \<longleftrightarrow> (if n = 8 then bit v 0 else bit x n)"
  "bit (set_field x HSTATUS_GVA v) n \<longleftrightarrow> (if n = 6 then bit v 0 else bit x n)"
  "bit (set_field x MNSTATUS_NMIE v) n \<longleftrightarrow> (if n = 3 then bit v 0 else bit x n)"
  "bit (set_field x MNSTATUS_MNPV v) n \<longleftrightarrow> (if n = 7 then bit v 0 else bit x n)"
  "bit (set_field x MNSTATUS_MNPELP v) n \<longleftrightarrow> (if n = 9 then bit v 0 else bit x n)"
  unfolding status_field_defs using bit_set_field_one [of 1 x v n] bit_set_field_one [of 3 x v n] bit_set_field_one [of 5 x v n] bit_set_field_one [of 6 x v n] bit_set_field_one [of 7 x v n] bit_set_field_one [of 8 x v n] bit_set_field_one [of 9 x v n] bit_set_field_one [of 17 x v n] bit_set_field_one [of 23 x v n] bit_set_field_one [of 24 x v n] bit_set_field_one [of 38 x v n] bit_set_field_one [of 39 x v n] bit_set_field_one [of 41 x v n] bit_set_field_one [of 42 x v n] by simp_all

lemma bit_one_bit [status_bits]:
  "bit HSTATUS_GVA n \<longleftrightarrow> n = 6"
  "bit HSTATUS_SPV n \<longleftrightarrow> n = 7"
  "bit HSTATUS_SPVP n \<longleftrightarrow> n = 8"
  "bit MNSTATUS_MNPELP n \<longleftrightarrow> n = 9"
  "bit MNSTATUS_MNPV n \<longleftrightarrow> n = 7"
  "bit MNSTATUS_NMIE n \<longleftrightarrow> n = 3"
  "bit MSTATUS_GVA n \<longleftrightarrow> n = 38"
  "bit MSTATUS_MDT n \<longleftrightarrow> n = 42"
  "bit MSTATUS_MIE n \<longleftrightarrow> n = 3"
  "bit MSTATUS_MPELP n \<longleftrightarrow> n = 41"
  "bit MSTATUS_MPIE n \<longleftrightarrow> n = 7"
  "bit MSTATUS_MPRV n \<longleftrightarrow> n = 17"
  "bit MSTATUS_MPV n \<longleftrightarrow> n = 39"
  "bit MSTATUS_MXR n \<longleftrightarrow> n = 19"
  "bit MSTATUS_SDT n \<longleftrightarrow> n = 24"
  "bit MSTATUS_SIE n \<longleftrightarrow> n = 1"
  "bit MSTATUS_SPELP n \<longleftrightarrow> n = 23"
  "bit MSTATUS_SPIE n \<longleftrightarrow> n = 5"
  "bit MSTATUS_SPP n \<longleftrightarrow> n = 8"
  "bit MSTATUS_SUM n \<longleftrightarrow> n = 18"
  "bit MSTATUS_TSR n \<longleftrightarrow> n = 22"
  "bit MSTATUS_TVM n \<longleftrightarrow> n = 20"
  "bit MSTATUS_TW n \<longleftrightarrow> n = 21"
  "bit SSTATUS32_SD n \<longleftrightarrow> n = 31"
  "bit SSTATUS64_SD n \<longleftrightarrow> n = 63"
  "bit SSTATUS_MXR n \<longleftrightarrow> n = 19"
  "bit SSTATUS_SDT n \<longleftrightarrow> n = 24"
  "bit SSTATUS_SIE n \<longleftrightarrow> n = 1"
  "bit SSTATUS_SPELP n \<longleftrightarrow> n = 23"
  "bit SSTATUS_SPIE n \<longleftrightarrow> n = 5"
  "bit SSTATUS_SPP n \<longleftrightarrow> n = 8"
  "bit SSTATUS_SUM n \<longleftrightarrow> n = 18"
  "bit SSTATUS_UBE n \<longleftrightarrow> n = 6"
  unfolding status_field_defs using exp_bit [of 1 n] exp_bit [of 3 n] exp_bit [of 5 n] exp_bit [of 6 n] exp_bit [of 7 n] exp_bit [of 8 n] exp_bit [of 9 n] exp_bit [of 17 n] exp_bit [of 18 n] exp_bit [of 19 n] exp_bit [of 20 n] exp_bit [of 21 n] exp_bit [of 22 n] exp_bit [of 23 n] exp_bit [of 24 n] exp_bit [of 31 n] exp_bit [of 38 n] exp_bit [of 39 n] exp_bit [of 41 n] exp_bit [of 42 n] exp_bit [of 63 n] by simp_all

lemma two_bit_positions:
  "MSTATUS_MPP = push_bit 11 (mask 2)" "MNSTATUS_MNPP = push_bit 11 (mask 2)" "HSTATUS_HUPMM = push_bit 48 (mask 2)"
  "SSTATUS_FS = push_bit 13 (mask 2)" "SSTATUS_VS = push_bit 9 (mask 2)" "SSTATUS_XS = push_bit 15 (mask 2)" "SSTATUS_UXL = push_bit 32 (mask 2)"
  unfolding status_field_defs by (simp_all add: mask_eq_exp_minus_1 push_bit_eq_mult)

lemma get_two_bits [status_bits]:
  fixes x :: reg_t
  shows
  "get_field x MSTATUS_MPP = of_bool (bit x 11) + 2 * of_bool (bit x 12)"
  "get_field x MNSTATUS_MNPP = of_bool (bit x 11) + 2 * of_bool (bit x 12)"
  by (simp_all add: two_bit_field(1) [OF two_bit_positions(1)] two_bit_field(1) [OF two_bit_positions(2)])

lemma set_two_bits [status_bits]:
  fixes x v :: reg_t
  shows
  "bit (set_field x MSTATUS_MPP v) n \<longleftrightarrow> (if n = 11 then bit v 0 else if n = 12 then bit v 1 else bit x n)"
  "bit (set_field x MNSTATUS_MNPP v) n \<longleftrightarrow> (if n = 11 then bit v 0 else if n = 12 then bit v 1 else bit x n)"
  "bit (set_field x HSTATUS_HUPMM v) n \<longleftrightarrow> (if n = 48 then bit v 0 else if n = 49 then bit v 1 else bit x n)"
  by (simp_all add: two_bit_field(2) [OF two_bit_positions(1)] two_bit_field(2) [OF two_bit_positions(2)] two_bit_field(2) [OF two_bit_positions(3)])

lemma bit_two_bits [status_bits]:
  "bit MSTATUS_MPP n \<longleftrightarrow> n = 11 \<or> n = 12" "bit MNSTATUS_MNPP n \<longleftrightarrow> n = 11 \<or> n = 12" "bit HSTATUS_HUPMM n \<longleftrightarrow> n = 48 \<or> n = 49"
  "bit SSTATUS_FS n \<longleftrightarrow> n = 13 \<or> n = 14" "bit SSTATUS_VS n \<longleftrightarrow> n = 9 \<or> n = 10" "bit SSTATUS_XS n \<longleftrightarrow> n = 15 \<or> n = 16"
  "bit SSTATUS_UXL n \<longleftrightarrow> n = 32 \<or> n = 33"
  unfolding two_bit_positions by (auto simp: bit_simps)

lemma and_status_bit [status_bits]:
  fixes x :: reg_t
  shows
  "x AND MSTATUS_MDT = 0 \<longleftrightarrow> \<not> bit x 42" "x AND MSTATUS_SDT = 0 \<longleftrightarrow> \<not> bit x 24" "x AND SSTATUS_SDT = 0 \<longleftrightarrow> \<not> bit x 24"
  unfolding status_field_defs using and_one_bit [of 42 x] and_one_bit [of 24 x] by simp_all

lemma and_status_field [status_bits]:
  fixes x :: reg_t
  shows
  "x AND SSTATUS_FS = SSTATUS_FS \<longleftrightarrow> bit x 13 \<and> bit x 14" "x AND SSTATUS_VS = SSTATUS_VS \<longleftrightarrow> bit x 9 \<and> bit x 10"
  "x AND SSTATUS_XS = SSTATUS_XS \<longleftrightarrow> bit x 15 \<and> bit x 16"
  unfolding two_bit_positions using and_two_bits [of 13 x] and_two_bits [of 9 x] and_two_bits [of 15 x] by simp_all

lemmas bit_word_ops = bit_and_iff bit_or_iff bit_not_iff bit_xor_iff

section \<open>Writes to the status registers\<close>

definition sd_pos :: "state_t \<Rightarrow> nat" where
  "sd_pos s = (if max_xlen s = 64 then 63 else 31)"

definition dirty :: "(nat \<Rightarrow> bool) \<Rightarrow> bool" where
  "dirty b \<longleftrightarrow> b 13 \<and> b 14 \<or> b 9 \<and> b 10 \<or> b 15 \<and> b 16"

text \<open>The bits that a write requests once privilege is legal and the read-only bits are kept.\<close>

definition requested_bit :: "reg_t \<Rightarrow> state_t \<Rightarrow> nat \<Rightarrow> bool" where
  "requested_bit val s n \<longleftrightarrow>
     (if bit (mstatus_write_mask s) n
      then bit (set_field val MSTATUS_MPP (legalize_privilege s (get_field val MSTATUS_MPP))) n
      else bit (mstatus_val s) n)"

lemma bit_adjust_sd:
  "bit (adjust_sd s x) n \<longleftrightarrow> (if n = sd_pos s then dirty (bit x) else bit x n)"
  by (cases "n < 64") (auto simp: adjust_sd_def sd_bit_def sd_pos_def dirty_def status_bits bit_word_ops dest: bit_imp_le_length)

definition requested_word :: "reg_t \<Rightarrow> state_t \<Rightarrow> reg_t" where
  "requested_word val s =
     (mstatus_val s AND NOT (mstatus_write_mask s)) OR
     (set_field val MSTATUS_MPP (legalize_privilege s (get_field val MSTATUS_MPP)) AND mstatus_write_mask s)"

lemma bit_requested_word: "bit (requested_word val s) n \<longleftrightarrow> requested_bit val s n"
  by (auto simp: requested_word_def requested_bit_def bit_word_ops dest: bit_imp_le_length)

lemma requested_bit_less: "requested_bit val s n \<Longrightarrow> n < 64"
  using bit_imp_le_length [of "requested_word val s" n] by (simp add: bit_requested_word)

lemma flush_and_store:
  "(maybe_flush_tlb w m s)\<lparr>mstatus_val := adjust_sd (maybe_flush_tlb w m s) w\<rparr> =
     s\<lparr>mstatus_val := adjust_sd s w, tlb_flushed := tlb_flushed (maybe_flush_tlb w m s)\<rparr>"
  by (simp add: maybe_flush_tlb_def adjust_sd_def sd_bit_def)

lemma mstatus_write_eq:
  "mstatus_write val s =
     (let w = requested_word val s;
          w = (if bit w 42 then w AND NOT MSTATUS_MIE else w);
          w = (if bit w 24 then w AND NOT MSTATUS_SIE else w)
      in s\<lparr>mstatus_val := adjust_sd s w, tlb_flushed := tlb_flushed (maybe_flush_tlb w (mstatus_val s) s)\<rparr>)"
  unfolding mstatus_write_def Let_def requested_word_def [symmetric] flush_and_store by (simp only: status_bits not_not)

lemma bit_mstatus_write:
  "bit (mstatus_val (mstatus_write val s)) n \<longleftrightarrow>
     (if n = sd_pos s then dirty (requested_bit val s)
      else requested_bit val s n \<and> (n = 3 \<longrightarrow> \<not> requested_bit val s 42) \<and> (n = 1 \<longrightarrow> \<not> requested_bit val s 24))"
  by (auto simp: mstatus_write_eq Let_def bit_adjust_sd dirty_def bit_word_ops bit_requested_word status_bits requested_bit_less)

section \<open>Frames\<close>

text \<open>What a write to one register leaves alone.\<close>

lemma mstatus_write_frame [simp]:
  "enabled (mstatus_write v s) = enabled s" "max_xlen (mstatus_write v s) = max_xlen s" "sstatus_write_mask (mstatus_write v s) = sstatus_write_mask s"
  "has_page (mstatus_write v s) = has_page s" "impl_mmu (mstatus_write v s) = impl_mmu s" "hvictl_read (mstatus_write v s) = hvictl_read s"
  "menvcfg_read (mstatus_write v s) = menvcfg_read s" "henvcfg_read (mstatus_write v s) = henvcfg_read s" "senvcfg_read (mstatus_write v s) = senvcfg_read s"
  "mseccfg_read (mstatus_write v s) = mseccfg_read s" "s_pc (mstatus_write v s) = s_pc s" "s_prv (mstatus_write v s) = s_prv s"
  "s_v (mstatus_write v s) = s_v s" "s_elp (mstatus_write v s) = s_elp s" "vsstatus_val (mstatus_write v s) = vsstatus_val s"
  "hstatus_val (mstatus_write v s) = hstatus_val s" "mnstatus_val (mstatus_write v s) = mnstatus_val s" "mepc_val (mstatus_write v s) = mepc_val s"
  "sepc_val (mstatus_write v s) = sepc_val s" "vsepc_val (mstatus_write v s) = vsepc_val s" "mnepc_val (mstatus_write v s) = mnepc_val s"
  "tcontrol_val (mstatus_write v s) = tcontrol_val s"
  by (simp_all add: mstatus_write_eq Let_def)

lemma mstatush_write_frame [simp]:
  "enabled (mstatush_write v s) = enabled s" "max_xlen (mstatush_write v s) = max_xlen s" "sstatus_write_mask (mstatush_write v s) = sstatus_write_mask s"
  "has_page (mstatush_write v s) = has_page s" "impl_mmu (mstatush_write v s) = impl_mmu s" "hvictl_read (mstatush_write v s) = hvictl_read s"
  "menvcfg_read (mstatush_write v s) = menvcfg_read s" "henvcfg_read (mstatush_write v s) = henvcfg_read s" "senvcfg_read (mstatush_write v s) = senvcfg_read s"
  "mseccfg_read (mstatush_write v s) = mseccfg_read s" "s_pc (mstatush_write v s) = s_pc s" "s_prv (mstatush_write v s) = s_prv s"
  "s_v (mstatush_write v s) = s_v s" "s_elp (mstatush_write v s) = s_elp s" "vsstatus_val (mstatush_write v s) = vsstatus_val s"
  "hstatus_val (mstatush_write v s) = hstatus_val s" "mnstatus_val (mstatush_write v s) = mnstatus_val s" "mepc_val (mstatush_write v s) = mepc_val s"
  "sepc_val (mstatush_write v s) = sepc_val s" "vsepc_val (mstatush_write v s) = vsepc_val s" "mnepc_val (mstatush_write v s) = mnepc_val s"
  "tcontrol_val (mstatush_write v s) = tcontrol_val s"
  by (simp_all add: mstatush_write_def)

lemma sstatus_proxy_write_frame [simp]:
  "enabled (sstatus_proxy_write v s) = enabled s" "max_xlen (sstatus_proxy_write v s) = max_xlen s" "sstatus_write_mask (sstatus_proxy_write v s) = sstatus_write_mask s"
  "has_page (sstatus_proxy_write v s) = has_page s" "impl_mmu (sstatus_proxy_write v s) = impl_mmu s" "hvictl_read (sstatus_proxy_write v s) = hvictl_read s"
  "menvcfg_read (sstatus_proxy_write v s) = menvcfg_read s" "henvcfg_read (sstatus_proxy_write v s) = henvcfg_read s" "senvcfg_read (sstatus_proxy_write v s) = senvcfg_read s"
  "mseccfg_read (sstatus_proxy_write v s) = mseccfg_read s" "s_pc (sstatus_proxy_write v s) = s_pc s" "s_prv (sstatus_proxy_write v s) = s_prv s"
  "s_v (sstatus_proxy_write v s) = s_v s" "s_elp (sstatus_proxy_write v s) = s_elp s" "vsstatus_val (sstatus_proxy_write v s) = vsstatus_val s"
  "hstatus_val (sstatus_proxy_write v s) = hstatus_val s" "mnstatus_val (sstatus_proxy_write v s) = mnstatus_val s" "mepc_val (sstatus_proxy_write v s) = mepc_val s"
  "sepc_val (sstatus_proxy_write v s) = sepc_val s" "vsepc_val (sstatus_proxy_write v s) = vsepc_val s" "mnepc_val (sstatus_proxy_write v s) = mnepc_val s"
  "tcontrol_val (sstatus_proxy_write v s) = tcontrol_val s"
  by (simp_all add: sstatus_proxy_write_def Let_def)

lemma vsstatus_write_frame [simp]:
  "enabled (vsstatus_write v s) = enabled s" "max_xlen (vsstatus_write v s) = max_xlen s" "sstatus_write_mask (vsstatus_write v s) = sstatus_write_mask s"
  "has_page (vsstatus_write v s) = has_page s" "impl_mmu (vsstatus_write v s) = impl_mmu s" "hvictl_read (vsstatus_write v s) = hvictl_read s"
  "menvcfg_read (vsstatus_write v s) = menvcfg_read s" "henvcfg_read (vsstatus_write v s) = henvcfg_read s" "senvcfg_read (vsstatus_write v s) = senvcfg_read s"
  "mseccfg_read (vsstatus_write v s) = mseccfg_read s" "s_pc (vsstatus_write v s) = s_pc s" "s_prv (vsstatus_write v s) = s_prv s"
  "s_v (vsstatus_write v s) = s_v s" "s_elp (vsstatus_write v s) = s_elp s" "mstatus_val (vsstatus_write v s) = mstatus_val s"
  "hstatus_val (vsstatus_write v s) = hstatus_val s" "mnstatus_val (vsstatus_write v s) = mnstatus_val s" "mepc_val (vsstatus_write v s) = mepc_val s"
  "sepc_val (vsstatus_write v s) = sepc_val s" "vsepc_val (vsstatus_write v s) = vsepc_val s" "mnepc_val (vsstatus_write v s) = mnepc_val s"
  "tcontrol_val (vsstatus_write v s) = tcontrol_val s"
  by (simp_all add: vsstatus_write_def maybe_flush_tlb_def Let_def)

lemma sstatus_write_frame [simp]:
  "enabled (sstatus_write v s) = enabled s" "max_xlen (sstatus_write v s) = max_xlen s" "sstatus_write_mask (sstatus_write v s) = sstatus_write_mask s"
  "has_page (sstatus_write v s) = has_page s" "impl_mmu (sstatus_write v s) = impl_mmu s" "hvictl_read (sstatus_write v s) = hvictl_read s"
  "menvcfg_read (sstatus_write v s) = menvcfg_read s" "henvcfg_read (sstatus_write v s) = henvcfg_read s" "senvcfg_read (sstatus_write v s) = senvcfg_read s"
  "mseccfg_read (sstatus_write v s) = mseccfg_read s" "s_pc (sstatus_write v s) = s_pc s" "s_prv (sstatus_write v s) = s_prv s"
  "s_v (sstatus_write v s) = s_v s" "s_elp (sstatus_write v s) = s_elp s" "hstatus_val (sstatus_write v s) = hstatus_val s"
  "mnstatus_val (sstatus_write v s) = mnstatus_val s" "mepc_val (sstatus_write v s) = mepc_val s" "sepc_val (sstatus_write v s) = sepc_val s"
  "vsepc_val (sstatus_write v s) = vsepc_val s" "mnepc_val (sstatus_write v s) = mnepc_val s" "tcontrol_val (sstatus_write v s) = tcontrol_val s"
  by (simp_all add: sstatus_write_def)

lemma hstatus_write_frame [simp]:
  "enabled (hstatus_write v s) = enabled s" "max_xlen (hstatus_write v s) = max_xlen s" "sstatus_write_mask (hstatus_write v s) = sstatus_write_mask s"
  "has_page (hstatus_write v s) = has_page s" "impl_mmu (hstatus_write v s) = impl_mmu s" "hvictl_read (hstatus_write v s) = hvictl_read s"
  "menvcfg_read (hstatus_write v s) = menvcfg_read s" "henvcfg_read (hstatus_write v s) = henvcfg_read s" "senvcfg_read (hstatus_write v s) = senvcfg_read s"
  "mseccfg_read (hstatus_write v s) = mseccfg_read s" "s_pc (hstatus_write v s) = s_pc s" "s_prv (hstatus_write v s) = s_prv s"
  "s_v (hstatus_write v s) = s_v s" "s_elp (hstatus_write v s) = s_elp s" "mstatus_val (hstatus_write v s) = mstatus_val s"
  "vsstatus_val (hstatus_write v s) = vsstatus_val s" "mnstatus_val (hstatus_write v s) = mnstatus_val s" "mepc_val (hstatus_write v s) = mepc_val s"
  "sepc_val (hstatus_write v s) = sepc_val s" "vsepc_val (hstatus_write v s) = vsepc_val s" "mnepc_val (hstatus_write v s) = mnepc_val s"
  "tcontrol_val (hstatus_write v s) = tcontrol_val s"
  by (simp_all add: hstatus_write_def Let_def)

lemma mnstatus_write_frame [simp]:
  "enabled (mnstatus_write v s) = enabled s" "max_xlen (mnstatus_write v s) = max_xlen s" "sstatus_write_mask (mnstatus_write v s) = sstatus_write_mask s"
  "has_page (mnstatus_write v s) = has_page s" "impl_mmu (mnstatus_write v s) = impl_mmu s" "hvictl_read (mnstatus_write v s) = hvictl_read s"
  "menvcfg_read (mnstatus_write v s) = menvcfg_read s" "henvcfg_read (mnstatus_write v s) = henvcfg_read s" "senvcfg_read (mnstatus_write v s) = senvcfg_read s"
  "mseccfg_read (mnstatus_write v s) = mseccfg_read s" "s_pc (mnstatus_write v s) = s_pc s" "s_prv (mnstatus_write v s) = s_prv s"
  "s_v (mnstatus_write v s) = s_v s" "s_elp (mnstatus_write v s) = s_elp s" "mstatus_val (mnstatus_write v s) = mstatus_val s"
  "vsstatus_val (mnstatus_write v s) = vsstatus_val s" "hstatus_val (mnstatus_write v s) = hstatus_val s" "mepc_val (mnstatus_write v s) = mepc_val s"
  "sepc_val (mnstatus_write v s) = sepc_val s" "vsepc_val (mnstatus_write v s) = vsepc_val s" "mnepc_val (mnstatus_write v s) = mnepc_val s"
  "tcontrol_val (mnstatus_write v s) = tcontrol_val s"
  by (cases "mnstatus_val s"; simp add: mnstatus_write_def Let_def)+

lemma mstatus_write_all_frame [simp]:
  "enabled (mstatus_write_all v s) = enabled s" "max_xlen (mstatus_write_all v s) = max_xlen s" "sstatus_write_mask (mstatus_write_all v s) = sstatus_write_mask s"
  "has_page (mstatus_write_all v s) = has_page s" "impl_mmu (mstatus_write_all v s) = impl_mmu s" "hvictl_read (mstatus_write_all v s) = hvictl_read s"
  "menvcfg_read (mstatus_write_all v s) = menvcfg_read s" "henvcfg_read (mstatus_write_all v s) = henvcfg_read s" "senvcfg_read (mstatus_write_all v s) = senvcfg_read s"
  "mseccfg_read (mstatus_write_all v s) = mseccfg_read s" "s_pc (mstatus_write_all v s) = s_pc s" "s_prv (mstatus_write_all v s) = s_prv s"
  "s_v (mstatus_write_all v s) = s_v s" "s_elp (mstatus_write_all v s) = s_elp s" "vsstatus_val (mstatus_write_all v s) = vsstatus_val s"
  "hstatus_val (mstatus_write_all v s) = hstatus_val s" "mnstatus_val (mstatus_write_all v s) = mnstatus_val s" "mepc_val (mstatus_write_all v s) = mepc_val s"
  "sepc_val (mstatus_write_all v s) = sepc_val s" "vsepc_val (mstatus_write_all v s) = vsepc_val s" "mnepc_val (mstatus_write_all v s) = mnepc_val s"
  "tcontrol_val (mstatus_write_all v s) = tcontrol_val s"
  by (simp_all add: mstatus_write_all_def Let_def)

lemma tcontrol_write_frame [simp]:
  "enabled (tcontrol_write f s) = enabled s" "max_xlen (tcontrol_write f s) = max_xlen s" "sstatus_write_mask (tcontrol_write f s) = sstatus_write_mask s"
  "has_page (tcontrol_write f s) = has_page s" "impl_mmu (tcontrol_write f s) = impl_mmu s" "hvictl_read (tcontrol_write f s) = hvictl_read s"
  "menvcfg_read (tcontrol_write f s) = menvcfg_read s" "henvcfg_read (tcontrol_write f s) = henvcfg_read s" "senvcfg_read (tcontrol_write f s) = senvcfg_read s"
  "mseccfg_read (tcontrol_write f s) = mseccfg_read s" "s_pc (tcontrol_write f s) = s_pc s" "s_prv (tcontrol_write f s) = s_prv s"
  "s_v (tcontrol_write f s) = s_v s" "s_elp (tcontrol_write f s) = s_elp s" "mstatus_val (tcontrol_write f s) = mstatus_val s"
  "vsstatus_val (tcontrol_write f s) = vsstatus_val s" "hstatus_val (tcontrol_write f s) = hstatus_val s" "mnstatus_val (tcontrol_write f s) = mnstatus_val s"
  "mepc_val (tcontrol_write f s) = mepc_val s" "sepc_val (tcontrol_write f s) = sepc_val s" "vsepc_val (tcontrol_write f s) = vsepc_val s"
  "mnepc_val (tcontrol_write f s) = mnepc_val s"
  by (simp_all add: tcontrol_write_def Let_def)

lemma clear_vs_sdt_frame [simp]:
  "enabled (clear_vs_sdt s) = enabled s" "max_xlen (clear_vs_sdt s) = max_xlen s" "sstatus_write_mask (clear_vs_sdt s) = sstatus_write_mask s"
  "has_page (clear_vs_sdt s) = has_page s" "impl_mmu (clear_vs_sdt s) = impl_mmu s" "hvictl_read (clear_vs_sdt s) = hvictl_read s"
  "menvcfg_read (clear_vs_sdt s) = menvcfg_read s" "henvcfg_read (clear_vs_sdt s) = henvcfg_read s" "senvcfg_read (clear_vs_sdt s) = senvcfg_read s"
  "mseccfg_read (clear_vs_sdt s) = mseccfg_read s" "s_pc (clear_vs_sdt s) = s_pc s" "s_prv (clear_vs_sdt s) = s_prv s"
  "s_v (clear_vs_sdt s) = s_v s" "s_elp (clear_vs_sdt s) = s_elp s" "mstatus_val (clear_vs_sdt s) = mstatus_val s"
  "hstatus_val (clear_vs_sdt s) = hstatus_val s" "mnstatus_val (clear_vs_sdt s) = mnstatus_val s" "mepc_val (clear_vs_sdt s) = mepc_val s"
  "sepc_val (clear_vs_sdt s) = sepc_val s" "vsepc_val (clear_vs_sdt s) = vsepc_val s" "mnepc_val (clear_vs_sdt s) = mnepc_val s"
  "tcontrol_val (clear_vs_sdt s) = tcontrol_val s"
  by (simp_all add: clear_vs_sdt_def)

end
