(* ===== verification/Trap_Safety.thy ===== *)
theory Trap_Safety
  imports Status_Fields
begin

text \<open>
  The invariant of the privilege state, kept by every trap, every return and every write to a status register, and what traps and returns do to the mode.
\<close>

unbundle bit_operations_syntax

section \<open>The invariant\<close>

definition legal_prv :: "state_t \<Rightarrow> reg_t \<Rightarrow> bool" where
  "legal_prv s p \<longleftrightarrow> p = PRV_M \<or> enabled s EXT_U \<and> (p = PRV_U \<or> p = PRV_S \<and> enabled s EXT_S)"

text \<open>A value of \<^verbatim>\<open>mstatus\<close> that the hart can hold.\<close>

definition status_ok :: "state_t \<Rightarrow> reg_t \<Rightarrow> bool" where
  "status_ok s m \<longleftrightarrow>
     legal_prv s (get_field m MSTATUS_MPP) \<and>
     (get_field m MSTATUS_MDT \<noteq> 0 \<longrightarrow> get_field m MSTATUS_MIE = 0) \<and>
     (get_field m MSTATUS_SDT \<noteq> 0 \<longrightarrow> get_field m MSTATUS_SIE = 0) \<and>
     (m AND sd_bit s \<noteq> 0 \<longleftrightarrow> m AND SSTATUS_FS = SSTATUS_FS \<or> m AND SSTATUS_VS = SSTATUS_VS \<or> m AND SSTATUS_XS = SSTATUS_XS) \<and>
     (\<not> enabled s EXT_H \<longrightarrow> get_field m MSTATUS_MPV = 0)"

definition sstatus_fields :: reg_t where
  "sstatus_fields = SSTATUS_SIE OR SSTATUS_SPIE OR SSTATUS_SPP OR SSTATUS_SUM OR SSTATUS_MXR OR SSTATUS_FS OR SSTATUS_XS OR SSTATUS_VS OR SSTATUS_SPELP OR SSTATUS_SDT"

text \<open>The extensions fix which fields of \<^verbatim>\<open>sstatus\<close> are writable, and \<^verbatim>\<open>hvictl\<close> exists only with the hypervisor.\<close>

definition config_ok :: "state_t \<Rightarrow> bool" where
  "config_ok s \<longleftrightarrow>
     sstatus_write_mask s AND NOT sstatus_fields = 0 \<and>
     (enabled s EXT_S \<longrightarrow> (SSTATUS_SIE OR SSTATUS_SPIE OR SSTATUS_SPP) AND NOT (sstatus_write_mask s) = 0 \<and> enabled s EXT_U) \<and>
     (enabled s EXT_H \<longrightarrow> enabled s EXT_S) \<and>
     (\<not> enabled s EXT_H \<longrightarrow> hvictl_read s AND HVICTL_VTI = 0)"

definition mode_ok :: "state_t \<Rightarrow> bool" where
  "mode_ok s \<longleftrightarrow> legal_prv s (s_prv s) \<and> (s_v s \<longrightarrow> s_prv s \<noteq> PRV_M \<and> enabled s EXT_H)"

definition mnstatus_ok :: "state_t \<Rightarrow> reg_t \<Rightarrow> bool" where
  "mnstatus_ok s x \<longleftrightarrow> get_field x MNSTATUS_MNPP \<noteq> PRV_HS \<and> (\<not> enabled s EXT_H \<longrightarrow> get_field x MNSTATUS_MNPV = 0)"

definition csrs_ok :: "state_t \<Rightarrow> bool" where
  "csrs_ok s \<longleftrightarrow> config_ok s \<and> status_ok s (mstatus_val s) \<and> pred_option (mnstatus_ok s) (mnstatus_val s) \<and>
     (get_field (vsstatus_val s) MSTATUS_SDT \<noteq> 0 \<longrightarrow> get_field (vsstatus_val s) MSTATUS_SIE = 0)"

definition hart_ok :: "state_t \<Rightarrow> bool" where
  "hart_ok s \<longleftrightarrow> csrs_ok s \<and> mode_ok s"

section \<open>Privilege modes\<close>

lemma field_mpp_cases: "of_bool a + 2 * of_bool b \<in> {0, 1, 2, 3 :: reg_t}"
  by (cases a; cases b) simp_all

lemmas prv_defs = PRV_M_def PRV_S_def PRV_U_def PRV_HS_def

lemma legalize_legal:
  "legal_prv s p \<Longrightarrow> enabled s EXT_U \<or> p = PRV_M \<Longrightarrow> legalize_privilege s p = p"
  by (auto simp: legal_prv_def legalize_privilege_def prv_defs)

lemma legal_legalize: "p \<in> {0, 1, 2, 3} \<Longrightarrow> legal_prv s (legalize_privilege s p)"
  by (auto simp: legal_prv_def legalize_privilege_def prv_defs)

lemma legal_imp_legalize [simp]: "legal_prv s p \<Longrightarrow> legalize_privilege s p = p"
  by (auto simp: legal_prv_def legalize_privilege_def prv_defs)

lemma legal_prv_cases:
  assumes "legal_prv s p"
  obtains "p = 0" "enabled s EXT_U" | "p = 1" "enabled s EXT_U" "enabled s EXT_S" | "p = 3"
  using assms by (auto simp: legal_prv_def prv_defs)

lemma legalize_cases: "p \<in> {0, 1, 2, 3} \<Longrightarrow> legalize_privilege s p \<in> {0, 1, 3}"
  by (auto simp: legalize_privilege_def prv_defs)

lemma sstatus_mask_bit:
  assumes "config_ok s" "bit (sstatus_write_mask s) n"
  shows "n \<in> {1, 5, 8, 9, 10, 13, 14, 15, 16, 18, 19, 23, 24}"
proof -
  have "bit (sstatus_write_mask s AND NOT sstatus_fields) n \<longleftrightarrow> False"
    using assms(1) by (simp add: config_ok_def)
  then show ?thesis
    using assms(2) bit_imp_le_length [OF assms(2)] by (auto simp: bit_word_ops sstatus_fields_def status_bits)
qed

lemma mpp_bits:
  assumes "p \<in> {0, 1, 3 :: reg_t}"
  shows "of_bool (bit p 0) + 2 * of_bool (bit p 1) = p" "of_bool (bit p 0) + 2 * of_bool (bit p (Suc 0)) = p"
  using assms by auto

section \<open>Writes keep the status legal\<close>

lemma sd_bit_pos: "m AND sd_bit s = 0 \<longleftrightarrow> \<not> bit m (sd_pos s)"
  unfolding sd_bit_def sd_pos_def status_field_defs using and_one_bit [of 63 m] and_one_bit [of 31 m] by simp

lemma status_ok_bits:
  "status_ok s m \<longleftrightarrow>
     legal_prv s (of_bool (bit m 11) + 2 * of_bool (bit m 12)) \<and> (bit m 42 \<longrightarrow> \<not> bit m 3) \<and> (bit m 24 \<longrightarrow> \<not> bit m 1) \<and>
     (bit m (sd_pos s) \<longleftrightarrow> dirty (bit m)) \<and> (\<not> enabled s EXT_H \<longrightarrow> \<not> bit m 39)"
  by (auto simp: status_ok_def status_bits sd_bit_pos dirty_def)

lemma requested_mpp:
  "of_bool (requested_bit val s 11) + 2 * of_bool (requested_bit val s 12) = legalize_privilege s (get_field val MSTATUS_MPP)"
proof -
  have "legalize_privilege s (get_field val MSTATUS_MPP) \<in> {0, 1, 3}"
    unfolding status_bits by (intro legalize_cases field_mpp_cases)
  then show ?thesis
    by (simp add: requested_bit_def mstatus_write_mask_def Let_def status_bits bit_word_ops mpp_bits)
qed

lemma sd_pos_neq [simp]:
  assumes "n < 31 \<or> 31 < n \<and> n < 63"
  shows "sd_pos s \<noteq> n" "n \<noteq> sd_pos s"
  using assms by (auto simp: sd_pos_def)

lemma requested_no_mpv:
  assumes "config_ok s" "\<not> enabled s EXT_H" "\<not> bit (mstatus_val s) 39"
  shows "\<not> requested_bit val s 39"
  using assms sstatus_mask_bit [of s 39]
  by (auto simp: requested_bit_def mstatus_write_mask_def Let_def status_bits bit_word_ops)

lemma dirty_cong: "(\<And>n. n \<in> {9, 10, 13, 14, 15, 16} \<Longrightarrow> a n = b n) \<Longrightarrow> dirty a = dirty b"
  by (simp add: dirty_def)

lemma mstatus_write_mpp:
  "get_field (mstatus_val (mstatus_write val s)) MSTATUS_MPP = legalize_privilege s (get_field val MSTATUS_MPP)"
  unfolding requested_mpp [symmetric] by (simp add: get_two_bits bit_mstatus_write)

lemma mstatus_write_ok:
  assumes "config_ok s" "status_ok s (mstatus_val s)"
  shows "status_ok s (mstatus_val (mstatus_write val s))"
proof -
  have "legal_prv s (get_field (mstatus_val (mstatus_write val s)) MSTATUS_MPP)"
    unfolding mstatus_write_mpp unfolding status_bits by (intro legal_legalize field_mpp_cases)
  moreover have "\<not> enabled s EXT_H \<longrightarrow> \<not> requested_bit val s 39"
    using assms by (auto simp: status_ok_bits requested_no_mpv)
  ultimately show ?thesis
    unfolding status_ok_bits get_two_bits by (auto simp: bit_mstatus_write dirty_def)
qed

definition static :: "state_t \<Rightarrow> (isa_extension \<Rightarrow> bool) \<times> nat \<times> reg_t \<times> reg_t" where
  "static s = (enabled s, max_xlen s, sstatus_write_mask s, hvictl_read s)"

lemma static_cong:
  assumes "static s' = static s"
  shows "config_ok s' = config_ok s" "legal_prv s' = legal_prv s" "status_ok s' = status_ok s" "mnstatus_ok s' = mnstatus_ok s"
  using assms by (auto simp: static_def config_ok_def legal_prv_def fun_eq_iff status_ok_def mnstatus_ok_def sd_bit_def)

lemma csrs_okI:
  assumes "csrs_ok s" "static s' = static s" "status_ok s (mstatus_val s')" "pred_option (mnstatus_ok s) (mnstatus_val s')"
    "\<not> (bit (vsstatus_val s') 24 \<and> bit (vsstatus_val s') (Suc 0))"
  shows "csrs_ok s'"
  using assms(1,3-) unfolding csrs_ok_def static_cong [OF assms(2)] by (auto simp: status_bits)

lemma csrs_okD:
  assumes "csrs_ok s"
  shows "config_ok s" "status_ok s (mstatus_val s)" "pred_option (mnstatus_ok s) (mnstatus_val s)"
    "\<not> (bit (vsstatus_val s) 24 \<and> bit (vsstatus_val s) (Suc 0))"
  using assms by (auto simp: csrs_ok_def status_bits)

lemma csrs_ok_update [simp]:
  "csrs_ok (s\<lparr>s_pc := x0\<rparr>) = csrs_ok s" "csrs_ok (s\<lparr>s_elp := x1\<rparr>) = csrs_ok s" "csrs_ok (s\<lparr>s_taken_branch := x2\<rparr>) = csrs_ok s"
  "csrs_ok (s\<lparr>critical_error := x3\<rparr>) = csrs_ok s" "csrs_ok (s\<lparr>in_wfi := x4\<rparr>) = csrs_ok s" "csrs_ok (s\<lparr>tcontrol_val := x5\<rparr>) = csrs_ok s"
  "csrs_ok (s\<lparr>vscause_val := x6\<rparr>) = csrs_ok s" "csrs_ok (s\<lparr>vsepc_val := x7\<rparr>) = csrs_ok s" "csrs_ok (s\<lparr>vstval_val := x8\<rparr>) = csrs_ok s"
  "csrs_ok (s\<lparr>scause_val := x9\<rparr>) = csrs_ok s" "csrs_ok (s\<lparr>sepc_val := x10\<rparr>) = csrs_ok s" "csrs_ok (s\<lparr>stval_val := x11\<rparr>) = csrs_ok s"
  "csrs_ok (s\<lparr>htval_val := x12\<rparr>) = csrs_ok s" "csrs_ok (s\<lparr>htinst_val := x13\<rparr>) = csrs_ok s" "csrs_ok (s\<lparr>mepc_val := x14\<rparr>) = csrs_ok s"
  "csrs_ok (s\<lparr>mcause_val := x15\<rparr>) = csrs_ok s" "csrs_ok (s\<lparr>mtval_val := x16\<rparr>) = csrs_ok s" "csrs_ok (s\<lparr>mtval2_val := x17\<rparr>) = csrs_ok s"
  "csrs_ok (s\<lparr>mtinst_val := x18\<rparr>) = csrs_ok s" "csrs_ok (s\<lparr>medeleg_val := x19\<rparr>) = csrs_ok s" "csrs_ok (s\<lparr>mideleg_val := x20\<rparr>) = csrs_ok s"
  "csrs_ok (s\<lparr>hstatus_val := x21\<rparr>) = csrs_ok s"
  by (simp_all add: csrs_ok_def config_ok_def status_ok_def legal_prv_def mnstatus_ok_def [abs_def] sd_bit_def)

named_theorems csrs_kept

lemma mstatus_write_kept [csrs_kept]: "csrs_ok s \<Longrightarrow> csrs_ok (mstatus_write v s)"
  by (rule csrs_okI [of s]) (use csrs_okD(4) [of s] in \<open>auto simp: static_def csrs_okD mstatus_write_ok\<close>)

lemma mstatush_write_kept [csrs_kept]: "csrs_ok s \<Longrightarrow> csrs_ok (mstatush_write v s)"
  by (simp add: mstatush_write_def csrs_kept)

lemma sstatus_proxy_write_kept [csrs_kept]: "csrs_ok s \<Longrightarrow> csrs_ok (sstatus_proxy_write v s)"
  by (simp add: sstatus_proxy_write_def Let_def csrs_kept)

lemma vsstatus_write_val:
  "vsstatus_val (vsstatus_write v s) =
     (let m = sstatus_write_mask s AND NOT (if henvcfg_read s AND HENVCFG_DTE \<noteq> 0 then 0 else SSTATUS_SDT);
          w = (vsstatus_val s AND NOT m) OR (v AND m)
      in adjust_sd s (if bit w 24 then w AND NOT SSTATUS_SIE else w))"
proof -
  have "adjust_sd (maybe_flush_tlb a b s) = adjust_sd s" for a b
    by (simp add: maybe_flush_tlb_def adjust_sd_def sd_bit_def fun_eq_iff)
  moreover have "vsstatus_val (r\<lparr>vsstatus_val := y\<rparr>) = y" for r y
    by simp
  ultimately show ?thesis
    unfolding vsstatus_write_def Let_def by (cases "s_v s") (simp_all only: if_True if_False status_bits not_not)
qed

lemma vsstatus_write_kept [csrs_kept]: "csrs_ok s \<Longrightarrow> csrs_ok (vsstatus_write v s)"
  by (rule csrs_okI [of s]) (use csrs_okD(4) [of s] in \<open>auto simp: static_def csrs_okD vsstatus_write_val Let_def bit_adjust_sd bit_word_ops status_bits\<close>)

lemma sstatus_write_kept [csrs_kept]: "csrs_ok s \<Longrightarrow> csrs_ok (sstatus_write v s)"
  by (simp add: sstatus_write_def csrs_kept)

lemma hstatus_write_kept [csrs_kept]: "csrs_ok s \<Longrightarrow> csrs_ok (hstatus_write v s)"
  by (rule csrs_okI [of s]) (use csrs_okD(4) [of s] in \<open>auto simp: static_def csrs_okD\<close>)

lemma mnstatus_bits:
  "mnstatus_ok s x \<longleftrightarrow> of_bool (bit x 11) + 2 * of_bool (bit x 12) \<noteq> PRV_HS \<and> (\<not> enabled s EXT_H \<longrightarrow> \<not> bit x 7)"
  by (simp add: mnstatus_ok_def status_bits)

lemma mnstatus_write_ok:
  assumes "pred_option (mnstatus_ok s) (mnstatus_val s)"
  shows "pred_option (mnstatus_ok s) (mnstatus_val (mnstatus_write v s))"
proof (cases "mnstatus_val s")
  case (Some old)
  have "legalize_privilege s (get_field v MNSTATUS_MNPP) \<in> {0, 1, 3}"
    unfolding status_bits by (intro legalize_cases field_mpp_cases)
  then show ?thesis
    using assms Some by (auto simp: mnstatus_write_def Let_def mnstatus_bits bit_word_ops status_bits mpp_bits prv_defs)
qed (simp add: mnstatus_write_def)

lemma mnstatus_write_kept [csrs_kept]: "csrs_ok s \<Longrightarrow> csrs_ok (mnstatus_write v s)"
  by (rule csrs_okI [of s]) (use csrs_okD(4) [of s] in \<open>auto simp: static_def csrs_okD mnstatus_write_ok\<close>)

lemma mstatus_write_all_kept [csrs_kept]: "csrs_ok s \<Longrightarrow> csrs_ok (mstatus_write_all v s)"
  by (simp add: mstatus_write_all_def Let_def csrs_kept)

lemma tcontrol_write_kept [csrs_kept]: "csrs_ok s \<Longrightarrow> csrs_ok (tcontrol_write f s)"
  by (simp add: tcontrol_write_def Let_def)

lemma clear_vs_sdt_kept [csrs_kept]: "csrs_ok s \<Longrightarrow> csrs_ok (clear_vs_sdt s)"
  by (simp add: clear_vs_sdt_def csrs_kept)

section \<open>Traps and returns keep the invariant\<close>

lemma set_privilege_frame [simp]:
  "mstatus_val (set_privilege p v s) = mstatus_val s" "vsstatus_val (set_privilege p v s) = vsstatus_val s"
  "mnstatus_val (set_privilege p v s) = mnstatus_val s" "hstatus_val (set_privilege p v s) = hstatus_val s"
  "s_pc (set_privilege p v s) = s_pc s" "s_elp (set_privilege p v s) = s_elp s" "enabled (set_privilege p v s) = enabled s"
  "max_xlen (set_privilege p v s) = max_xlen s" "mepc_val (set_privilege p v s) = mepc_val s" "sepc_val (set_privilege p v s) = sepc_val s"
  "vsepc_val (set_privilege p v s) = vsepc_val s" "critical_error (set_privilege p v s) = critical_error s"
  "senvcfg_read (set_privilege p v s) = senvcfg_read s" "menvcfg_read (set_privilege p v s) = menvcfg_read s"
  "henvcfg_read (set_privilege p v s) = henvcfg_read s" "mseccfg_read (set_privilege p v s) = mseccfg_read s"
  "static (set_privilege p v s) = static s"
  by (simp_all add: set_privilege_def Let_def static_def)

lemma set_privilege_mode [simp]:
  "s_prv (set_privilege p v s) = legalize_privilege s p"
  "s_v (set_privilege p v s) \<longleftrightarrow> v \<and> legalize_privilege s p \<noteq> PRV_M"
  by (simp_all add: set_privilege_def Let_def legalize_privilege_def)

lemma set_privilege_ok:
  assumes "csrs_ok s" "p \<in> {0, 1, 2, 3}" "v \<Longrightarrow> enabled s EXT_H"
  shows "hart_ok (set_privilege p v s)"
proof -
  have "csrs_ok (set_privilege p v s)"
    by (rule csrs_okI [OF assms(1)]) (use csrs_okD [OF assms(1)] in auto)
  moreover have "mode_ok (set_privilege p v s)"
    using assms(3) legal_legalize [OF assms(2), of s] static_cong(2) [of "set_privilege p v s" s] by (simp add: mode_ok_def)
  ultimately show ?thesis
    by (simp add: hart_ok_def)
qed

lemma vti_needs_h: "csrs_ok s \<Longrightarrow> virtual_trap_interrupt b s \<Longrightarrow> enabled s EXT_H"
  by (auto simp: virtual_trap_interrupt_def csrs_ok_def config_ok_def Let_def split: if_splits)

lemma route_vs:
  assumes "r_mode (route t s) = Trap_VS"
  shows "s_v s \<and> s_prv s \<le> PRV_S \<and> picks (vs_delegated t s) (trap_bit t s) \<and> \<not> supv_double_trap t s \<or> virtual_trap_interrupt (trap_bit t s) s"
  using assms by (auto simp: route_def Let_def picks_def vs_delegated_def split: if_splits)

lemma trap_entry_ok:
  assumes "hart_ok s"
  shows "hart_ok (trap_entry t epc s)"
proof -
  have csrs: "csrs_ok s"
    using assms by (simp add: hart_ok_def)
  show ?thesis
  proof (cases "r_mode (route t s)")
    case Trap_VS
    then have "enabled s EXT_H"
      using assms route_vs [OF Trap_VS] vti_needs_h [OF csrs] by (auto simp: hart_ok_def mode_ok_def)
    then show ?thesis
      using csrs Trap_VS by (simp add: trap_entry_def trap_to_vs_def Let_def set_privilege_ok csrs_kept prv_defs)
  next
    case Trap_HS
    then show ?thesis
      using csrs by (simp add: trap_entry_def trap_to_hs_def Let_def set_privilege_ok csrs_kept prv_defs)
  next
    case Trap_M
    have "hart_ok (s\<lparr>critical_error := True\<rparr>)"
      using assms by (simp add: hart_ok_def mode_ok_def legal_prv_def)
    then show ?thesis
      using csrs Trap_M by (simp add: trap_entry_def trap_to_m_def Let_def set_privilege_ok csrs_kept prv_defs)
  qed
qed

text \<open>A trap that the program survives leaves a hart of the invariant.\<close>

lemma take_trap_ok:
  assumes "hart_ok s" "take_trap t epc s = Some s'"
  shows "hart_ok s'"
proof (cases "s_debug_mode s")
  case True
  then show ?thesis
    using assms by (auto simp: take_trap_def hart_ok_def mode_ok_def legal_prv_def)
next
  case False
  then show ?thesis
    using assms trap_entry_ok [of s t epc] by (auto simp: take_trap_def split: if_splits)
qed

lemma mpv_needs_h: "csrs_ok s \<Longrightarrow> bit (mstatus_val s) 39 \<Longrightarrow> enabled s EXT_H"
  by (auto simp: csrs_ok_def status_ok_bits)

lemma xLPE_known: "p \<in> {PRV_U, PRV_S, PRV_M} \<Longrightarrow> \<exists>b. xLPE v p s = Some b"
  by (auto simp: xLPE_def)

lemma xLPE_legal: "legal_prv s p \<Longrightarrow> \<exists>b. xLPE v p s = Some b"
  by (rule xLPE_known) (auto simp: legal_prv_def)

lemma xLPE_small: "\<exists>b. xLPE v (of_bool x) s = Some b"
  by (cases x) (auto simp: xLPE_def prv_defs)

lemma mret_commit_ok:
  "csrs_ok s \<Longrightarrow> pp \<in> {0, 1, 2, 3} \<Longrightarrow> (pv \<Longrightarrow> enabled s EXT_H) \<Longrightarrow> hart_ok (mret_commit x pp pv lpe s)"
  unfolding mret_commit_def Let_def by (rule set_privilege_ok) (auto simp: csrs_kept)

lemma sret_commit_ok:
  "csrs_ok s \<Longrightarrow> pp \<in> {0, 1, 2, 3} \<Longrightarrow> (pv \<Longrightarrow> enabled s EXT_H) \<Longrightarrow> hart_ok (sret_commit x pp pv lpe s)"
  unfolding sret_commit_def Let_def by (rule set_privilege_ok) (auto simp: csrs_kept)

lemma mnret_commit_ok:
  "csrs_ok s \<Longrightarrow> pp \<in> {0, 1, 2, 3} \<Longrightarrow> (pv \<Longrightarrow> enabled s EXT_H) \<Longrightarrow> hart_ok (mnret_commit x pp pv lpe s)"
  unfolding mnret_commit_def Let_def by (rule set_privilege_ok) (auto simp: csrs_kept)

text \<open>A return either is refused or reaches a state that satisfies the invariant: it never meets a mode that does not exist.\<close>

definition returns_ok :: "sys_result \<Rightarrow> bool" where
  "returns_ok r = (case r of Inl e \<Rightarrow> e \<noteq> Sys_Aborted | Inr (npc, s) \<Rightarrow> npc = PC_SERIALIZE_AFTER \<and> hart_ok s)"

lemma insn_mret_ok:
  assumes "hart_ok s"
  shows "returns_ok (insn_mret insn s)"
proof -
  have csrs: "csrs_ok s"
    using assms by (simp add: hart_ok_def)
  let ?u = "sys_set_pc (epc_read s (mepc_val s)) (s\<lparr>s_taken_branch := False\<rparr>)"
  let ?pp = "get_field (mstatus_val s) MSTATUS_MPP" and ?pv = "get_field (mstatus_val s) MSTATUS_MPV \<noteq> 0"
  have u: "csrs_ok ?u" "enabled ?u = enabled s" "mstatus_val ?u = mstatus_val s"
    using csrs by (simp_all add: sys_set_pc_def)
  have "legal_prv ?u ?pp"
    using csrs by (simp add: csrs_ok_def status_ok_def legal_prv_def u)
  then obtain lpe where "xLPE ?pv ?pp ?u = Some lpe"
    using xLPE_legal by blast
  moreover have "hart_ok (mret_commit (mstatus_val s) ?pp ?pv lpe ?u)"
    using mpv_needs_h [OF csrs] field_mpp_cases by (intro mret_commit_ok u) (auto simp: status_bits u)
  ultimately show ?thesis
    by (simp add: insn_mret_def sys_require_def returns_ok_def Let_def u)
qed

lemma sret_release_frame [simp]:
  "enabled (sret_release h s) = enabled s" "s_v (sret_release h s) = s_v s" "s_pc (sret_release h s) = s_pc s" "s_prv (sret_release h s) = s_prv s"
  by (simp_all add: sret_release_def Let_def)

lemma sret_release_kept [csrs_kept]: "csrs_ok s \<Longrightarrow> csrs_ok (sret_release h s)"
  by (simp add: sret_release_def Let_def csrs_kept)

lemma sret_body_ok:
  assumes "hart_ok s"
  shows "returns_ok (sret_body h s)"
proof -
  let ?u = "sys_set_pc (sepc_read s) (s\<lparr>s_taken_branch := False\<rparr>)"
  let ?pp = "get_field (sstatus_read ?u) MSTATUS_SPP" and ?pv = "sret_virtual h ?u"
  have u: "csrs_ok ?u" "enabled ?u = enabled s" "s_v ?u = s_v s"
    using assms by (simp_all add: sys_set_pc_def hart_ok_def)
  obtain lpe where "xLPE ?pv ?pp (sret_release h ?u) = Some lpe"
    unfolding get_one_bit using xLPE_small by blast
  moreover have "hart_ok (sret_commit (sret_status (sstatus_read ?u)) ?pp ?pv lpe (sret_release h ?u))"
    using assms u by (intro sret_commit_ok csrs_kept) (auto simp: get_one_bit sret_virtual_def hart_ok_def mode_ok_def split: if_splits)
  ultimately show ?thesis
    by (simp add: sret_body_def returns_ok_def Let_def)
qed

lemma insn_sret_ok: "hart_ok s \<Longrightarrow> returns_ok (insn_sret insn s)"
  using sret_body_ok [of s "hstatus_val s"]
  by (simp add: insn_sret_def sys_require_def sys_novirt_def Let_def) (simp add: returns_ok_def)

lemma insn_mnret_ok:
  assumes "hart_ok s"
  shows "returns_ok (insn_mnret insn s)"
proof -
  have csrs: "csrs_ok s"
    using assms by (simp add: hart_ok_def)
  define x where "x = (case mnstatus_val s of None \<Rightarrow> 0 | Some x \<Rightarrow> x)"
  let ?pp = "get_field x MNSTATUS_MNPP" and ?pv = "get_field x MNSTATUS_MNPV \<noteq> 0"
  define u where "u = sys_set_pc (epc_read s (mnepc_val s)) (s\<lparr>s_taken_branch := False\<rparr>)"
  define w where "w = (if ?pp \<noteq> PRV_M then mstatus_write (set_field (mstatus_val u) MSTATUS_MPRV 0) u else u)"
  have u: "csrs_ok u" "enabled u = enabled s" "mnstatus_val u = mnstatus_val s"
    using csrs by (simp_all add: u_def sys_set_pc_def)
  then have w: "csrs_ok w" "enabled w = enabled s"
    by (simp_all add: w_def csrs_kept)
  have x: "?pp \<noteq> PRV_HS" "?pv \<Longrightarrow> enabled s EXT_H"
    using csrs by (auto simp: x_def csrs_ok_def mnstatus_ok_def status_bits prv_defs split: option.splits)
  moreover have "?pp \<in> {0, 1, 2, 3}"
    unfolding status_bits by (rule field_mpp_cases)
  ultimately have "?pp \<in> {PRV_U, PRV_S, PRV_M}"
    by (auto simp: prv_defs)
  then obtain lpe where "xLPE ?pv ?pp w = Some lpe"
    using xLPE_known by blast
  moreover have "hart_ok (mnret_commit (set_field x MNSTATUS_NMIE 1) ?pp ?pv lpe w)"
    using x field_mpp_cases by (intro mnret_commit_ok w) (auto simp: status_bits w)
  ultimately show ?thesis
    by (simp add: insn_mnret_def sys_require_def returns_ok_def Let_def u_def [symmetric] u x_def [symmetric] w_def [symmetric])
qed

section \<open>Histories of a hart\<close>

text \<open>What changes the privilege state: traps, returns, and the registers that software writes.\<close>

inductive priv_step :: "state_t \<Rightarrow> state_t \<Rightarrow> bool" where
  Trap: "take_trap t epc s = Some s' \<Longrightarrow> priv_step s s'"
| Interrupt: "take_interrupt pending s = (Some t, s') \<Longrightarrow> take_trap t (s_pc s') s' = Some s'' \<Longrightarrow> priv_step s s''"
| Mret: "insn_mret insn s = Inr (npc, s') \<Longrightarrow> priv_step s s'"
| Sret: "insn_sret insn s = Inr (npc, s') \<Longrightarrow> priv_step s s'"
| Mnret: "insn_mnret insn s = Inr (npc, s') \<Longrightarrow> priv_step s s'"
| Write_mstatus: "priv_step s (mstatus_write v s)"
| Write_mstatush: "priv_step s (mstatush_write v s)"
| Write_sstatus: "priv_step s (sstatus_write v s)"
| Write_vsstatus: "priv_step s (vsstatus_write v s)"
| Write_hstatus: "priv_step s (hstatus_write v s)"
| Write_mnstatus: "priv_step s (mnstatus_write v s)"
| Write_medeleg: "priv_step s (medeleg_write v s)"
| Write_mideleg: "priv_step s (mideleg_write v s)"

lemma write_ok:
  assumes "hart_ok s"
  shows "hart_ok (mstatus_write v s)" "hart_ok (mstatush_write v s)" "hart_ok (sstatus_write v s)" "hart_ok (vsstatus_write v s)"
    "hart_ok (hstatus_write v s)" "hart_ok (mnstatus_write v s)" "hart_ok (medeleg_write v s)" "hart_ok (mideleg_write v s)"
  using assms unfolding hart_ok_def by (simp_all add: csrs_kept mode_ok_def legal_prv_def medeleg_write_def mideleg_write_def Let_def)

lemma take_interrupt_state: "take_interrupt pending s = (r, s') \<Longrightarrow> s' = s \<or> s' = s\<lparr>in_wfi := False\<rparr>"
  by (auto simp: take_interrupt_def Let_def split: prod.splits if_splits)

lemma priv_step_ok: "priv_step s s' \<Longrightarrow> hart_ok s \<Longrightarrow> hart_ok s'"
proof (induction rule: priv_step.induct)
  case (Interrupt pending s t s' s'')
  then have "hart_ok s'"
    using take_interrupt_state [OF Interrupt(1)] by (auto simp: hart_ok_def mode_ok_def legal_prv_def)
  then show ?case
    using Interrupt(2) by (rule take_trap_ok)
next
  case (Trap t epc s s')
  show ?case
    by (rule take_trap_ok [OF Trap(2,1)])
next
  case (Mret insn s npc s')
  then show ?case
    using insn_mret_ok [of s insn] by (simp add: returns_ok_def)
next
  case (Sret insn s npc s')
  then show ?case
    using insn_sret_ok [of s insn] by (simp add: returns_ok_def)
next
  case (Mnret insn s npc s')
  then show ?case
    using insn_mnret_ok [of s insn] by (simp add: returns_ok_def)
qed (simp_all add: write_ok)

section \<open>From reset\<close>

text \<open>Combinations of extensions that the parser of the ISA string accepts.\<close>

definition extensions_ok :: "state_t \<Rightarrow> bool" where
  "extensions_ok s \<longleftrightarrow> (enabled s EXT_S \<longrightarrow> enabled s EXT_U) \<and> (enabled s EXT_H \<longrightarrow> enabled s EXT_S) \<and>
     (\<not> enabled s EXT_H \<longrightarrow> hvictl_read s AND HVICTL_VTI = 0)"

lemma set_xl_bits:
  fixes x v :: reg_t
  shows
  "bit (set_field x MSTATUS_UXL v) n \<longleftrightarrow> (if n = 32 then bit v 0 else if n = 33 then bit v 1 else bit x n)"
  "bit (set_field x MSTATUS_SXL v) n \<longleftrightarrow> (if n = 34 then bit v 0 else if n = 35 then bit v 1 else bit x n)"
  using two_bit_field(2) [of MSTATUS_UXL 32 x v n] two_bit_field(2) [of MSTATUS_SXL 34 x v n]
  by (simp_all add: MSTATUS_UXL_def MSTATUS_SXL_def mask_eq_exp_minus_1 push_bit_eq_mult)

lemma bit_endian:
  "bit MSTATUS_UBE n \<longleftrightarrow> n = 6" "bit MSTATUS_SBE n \<longleftrightarrow> n = 36" "bit MSTATUS_MBE n \<longleftrightarrow> n = 37"
  unfolding MSTATUS_UBE_def MSTATUS_SBE_def MSTATUS_MBE_def using exp_bit [of 6 n] exp_bit [of 36 n] exp_bit [of 37 n] by simp_all

lemma initial_status_bit:
  assumes "bit (compute_mstatus_initial_value b uxl s) n" "n \<notin> {11, 12}"
  shows "n \<in> {6, 32, 33, 34, 35, 36, 37, 42}"
  using assms
  by (auto simp: compute_mstatus_initial_value_def Let_def bit_word_ops status_bits set_xl_bits bit_endian split: if_splits)

lemma initial_status_mpp:
  "get_field (compute_mstatus_initial_value b uxl s) MSTATUS_MPP = (if enabled s EXT_U then PRV_U else PRV_M)"
  unfolding get_two_bits
  by (simp add: compute_mstatus_initial_value_def Let_def bit_word_ops status_bits set_xl_bits bit_endian) (simp add: prv_defs)

lemma initial_status_ok: "status_ok s (compute_mstatus_initial_value b uxl s)"
proof -
  let ?m = "compute_mstatus_initial_value b uxl s"
  have "legal_prv s (get_field ?m MSTATUS_MPP)"
    by (simp add: initial_status_mpp legal_prv_def)
  moreover have "\<not> bit ?m n" if "n \<in> {1, 3, 9, 10, 13, 14, 15, 16, 24, 31, 39, 63}" for n
    using that initial_status_bit [of b uxl s n] by auto
  ultimately show ?thesis
    unfolding status_ok_bits get_two_bits by (simp add: dirty_def sd_pos_def)
qed

lemma compute_mask_ok:
  "compute_sstatus_write_mask s AND NOT sstatus_fields = 0"
  "enabled s EXT_S \<Longrightarrow> (SSTATUS_SIE OR SSTATUS_SPIE OR SSTATUS_SPP) AND NOT (compute_sstatus_write_mask s) = 0"
  by (rule bit_word_eqI, auto simp: compute_sstatus_write_mask_def sstatus_fields_def Let_def bit_word_ops status_bits split: if_splits)+

lemma reset_fields:
  assumes "state_reset b cfg = Some s"
  shows "enabled s = enabled cfg" "hvictl_read s = hvictl_read cfg" "s_prv s = PRV_M" "\<not> s_v s"
    "sstatus_write_mask s = compute_sstatus_write_mask s" "\<exists>uxl. mstatus_val s = compute_mstatus_initial_value b uxl s"
    "vsstatus_val s = mstatus_val s AND sstatus_read_mask s" "mnstatus_val s = None \<or> mnstatus_val s = Some 0"
proof -
  obtain uxl where s: "s = reset_trap_registers (reset_status b uxl (reset_masks (reset_mode cfg)))"
    using assms by (auto simp: state_reset_def split: option.splits)
  have masks: "sstatus_write_mask (reset_masks r) = compute_sstatus_write_mask (reset_masks r)" for r
    by (simp add: reset_masks_def compute_sstatus_write_mask_def)
  have status: "enabled (reset_status b uxl r) = enabled r" "mstatus_val (reset_status b uxl r) = compute_mstatus_initial_value b uxl r"
    "vsstatus_val (reset_status b uxl r) = mstatus_val (reset_status b uxl r) AND sstatus_read_mask r"
    "compute_sstatus_write_mask (reset_status b uxl r) = compute_sstatus_write_mask r"
    "compute_mstatus_initial_value b uxl (reset_status b uxl r) = compute_mstatus_initial_value b uxl r"
    "sstatus_read_mask (reset_status b uxl r) = sstatus_read_mask r" "sstatus_write_mask (reset_status b uxl r) = sstatus_write_mask r"
    "hvictl_read (reset_status b uxl r) = hvictl_read r" "s_prv (reset_status b uxl r) = s_prv r" "s_v (reset_status b uxl r) = s_v r"
    "mnstatus_val (reset_status b uxl r) = None \<or> mnstatus_val (reset_status b uxl r) = Some 0" for r
    by (simp_all add: reset_status_def Let_def compute_sstatus_write_mask_def compute_mstatus_initial_value_def sstatus_read_mask_def)
  have trap: "enabled (reset_trap_registers r) = enabled r" "mstatus_val (reset_trap_registers r) = mstatus_val r"
    "vsstatus_val (reset_trap_registers r) = vsstatus_val r" "compute_sstatus_write_mask (reset_trap_registers r) = compute_sstatus_write_mask r"
    "compute_mstatus_initial_value b uxl (reset_trap_registers r) = compute_mstatus_initial_value b uxl r"
    "sstatus_read_mask (reset_trap_registers r) = sstatus_read_mask r" "sstatus_write_mask (reset_trap_registers r) = sstatus_write_mask r"
    "hvictl_read (reset_trap_registers r) = hvictl_read r" "s_prv (reset_trap_registers r) = s_prv r" "s_v (reset_trap_registers r) = s_v r"
    "mnstatus_val (reset_trap_registers r) = mnstatus_val r" for r
    by (simp_all add: reset_trap_registers_def compute_sstatus_write_mask_def compute_mstatus_initial_value_def sstatus_read_mask_def)
  show "enabled s = enabled cfg" "hvictl_read s = hvictl_read cfg" "s_prv s = PRV_M" "\<not> s_v s"
    by (simp_all add: s status trap reset_masks_def reset_mode_def Let_def)
  show "sstatus_write_mask s = compute_sstatus_write_mask s" "vsstatus_val s = mstatus_val s AND sstatus_read_mask s"
    "mnstatus_val s = None \<or> mnstatus_val s = Some 0"
    using status(11) by (simp_all add: s trap status masks)
  show "\<exists>uxl. mstatus_val s = compute_mstatus_initial_value b uxl s"
    by (rule exI [of _ uxl]) (simp add: s trap status)
qed

lemma reset_ok:
  assumes "state_reset b cfg = Some s" "extensions_ok cfg"
  shows "hart_ok s"
proof -
  note reset = reset_fields [OF assms(1)]
  obtain uxl where m: "mstatus_val s = compute_mstatus_initial_value b uxl s"
    using reset(6) by blast
  have "\<not> bit (mstatus_val s) 24"
    using initial_status_bit [of b uxl s 24] by (auto simp: m)
  then have "get_field (vsstatus_val s) MSTATUS_SDT = 0"
    by (simp add: reset(7) get_one_bit bit_and_iff)
  moreover have "config_ok s"
    using assms(2) compute_mask_ok [of s] by (simp add: config_ok_def extensions_ok_def reset(1,2,5) [symmetric])
  moreover have "pred_option (mnstatus_ok s) (mnstatus_val s)"
    using reset(8) by (auto simp: mnstatus_ok_def status_bits prv_defs)
  ultimately show ?thesis
    using reset(3,4) initial_status_ok [of s b uxl] by (simp add: hart_ok_def csrs_ok_def mode_ok_def legal_prv_def m)
qed

text \<open>C5. From reset, whatever sequence of traps, interrupts, returns and writes to the status and delegation registers a hart goes through, its mode exists and is not a
  virtual machine mode, the previous privilege in \<^verbatim>\<open>mstatus\<close> is a mode it can return to, interrupts are off while a double-trap bit is set, and the summary bit agrees with the
  dirty fields; so no return instruction and no environment call meets a mode that does not exist and aborts the simulator.\<close>

theorem privilege_invariant:
  assumes "state_reset big_endian cfg = Some s0" "extensions_ok cfg" "priv_step\<^sup>*\<^sup>* s0 s"
  shows "hart_ok s \<and>
    insn_mret insn s \<noteq> Inl Sys_Aborted \<and> insn_sret insn s \<noteq> Inl Sys_Aborted \<and> insn_mnret insn s \<noteq> Inl Sys_Aborted \<and> insn_ecall insn s \<noteq> None"
proof -
  have ok: "hart_ok s"
    using assms(3) reset_ok [OF assms(1,2)] by (induction rule: rtranclp_induct) (auto intro: priv_step_ok)
  then have "insn_ecall insn s \<noteq> None"
    by (auto simp: hart_ok_def mode_ok_def legal_prv_def insn_ecall_def)
  then show ?thesis
    using ok insn_mret_ok [OF ok, of insn] insn_sret_ok [OF ok, of insn] insn_mnret_ok [OF ok, of insn] by (auto simp: returns_ok_def)
qed

section \<open>Where a trap goes\<close>

text \<open>
  The privileged specification: a trap is taken in machine mode unless the machine delegated its cause and the hart was not already in machine mode; a guest's trap
  that the hypervisor delegated in turn stays in the guest; a trap while the supervisor that would handle it is not ready for one goes to machine mode.
\<close>

definition delegated :: "trap_t \<Rightarrow> state_t \<Rightarrow> reg_t \<Rightarrow> reg_t \<Rightarrow> bool" where
  "delegated t s exceptions interrupts \<longleftrightarrow>
     s_prv s \<noteq> PRV_M \<and> trap_bit t s < of_nat (max_xlen s) \<and> \<not> supv_double_trap t s \<and>
     bit (if is_interrupt t s then interrupts else exceptions) (unat (trap_bit t s))"

definition trap_target :: "trap_t \<Rightarrow> state_t \<Rightarrow> reg_t \<times> bool" where
  "trap_target t s =
     (if s_v s \<and> delegated t s (medeleg_val s AND hedeleg_val s) (hideleg_read s) then (PRV_S, True)
      else if delegated t s (medeleg_val s) (mideleg_read s OR nonvirtual_sip_read s) then (PRV_S, False)
      else (PRV_M, False))"

definition unrecoverable :: "state_t \<Rightarrow> bool" where
  "unrecoverable s \<longleftrightarrow> enabled s EXT_SMDBLTRP \<and> (get_field (mstatus_val s) MSTATUS_MDT \<noteq> 0 \<or> \<not> nmie s)"

lemma picks_bit: "picks d b \<longleftrightarrow> bit d (unat b)"
  by (simp add: picks_def bit_iff_odd_drop_bit and_one_eq odd_iff_mod_2_eq_one)

lemma legal_below_m: "legal_prv s p \<Longrightarrow> p \<le> PRV_S \<longleftrightarrow> p \<noteq> PRV_M"
  by (auto simp: legal_prv_def prv_defs word_le_nat_alt)

lemma route_mode:
  assumes "hart_ok s" "\<not> virtual_trap_interrupt (trap_bit t s) s"
  shows "r_mode (route t s) =
     (case trap_target t s of (p, virt) \<Rightarrow> if virt then Trap_VS else if p = PRV_S then Trap_HS else Trap_M)"
proof -
  have below: "s_prv s \<le> PRV_S \<longleftrightarrow> s_prv s \<noteq> PRV_M"
    using assms(1) by (simp add: hart_ok_def mode_ok_def legal_below_m [of s])
  have "PRV_S \<noteq> PRV_M"
    by (simp add: prv_defs)
  then show ?thesis
    using assms(2)
    by (auto simp: route_def Let_def trap_target_def delegated_def picks_bit vs_delegated_def hs_delegated_def below)
qed

lemma trap_to_vs_mode:
  assumes "enabled s EXT_S" "enabled s EXT_U"
  shows "s_prv (trap_to_vs t epc r s) = PRV_S" "s_v (trap_to_vs t epc r s)"
  using assms by (simp_all add: trap_to_vs_def Let_def legalize_privilege_def prv_defs)

lemma trap_to_hs_mode:
  assumes "enabled s EXT_S" "enabled s EXT_U"
  shows "s_prv (trap_to_hs t epc r s) = PRV_S" "\<not> s_v (trap_to_hs t epc r s)"
  using assms by (simp_all add: trap_to_hs_def Let_def legalize_privilege_def prv_defs)

lemma trap_to_m_mode:
  assumes "\<not> unrecoverable s"
  shows "s_prv (trap_to_m t epc r s) = PRV_M" "\<not> s_v (trap_to_m t epc r s)"
  using assms by (auto simp: trap_to_m_def Let_def unrecoverable_def legalize_privilege_def prv_defs)

text \<open>The program counter of the handler and the address to resume at.\<close>

lemma trap_to_vs_pc:
  "s_pc (trap_to_vs t epc r s) =
     handler_address (vstvec_val s) (r_interrupt r) (if r_interrupt r \<and> r_bit r \<le> IRQ_VS_EXT \<and> \<not> r_vti r then r_bit r - 1 else r_bit r)"
  "vsepc_val (trap_to_vs t epc r s) = epc_write epc"
  by (simp_all add: trap_to_vs_def Let_def)

lemma trap_to_hs_pc:
  "s_pc (trap_to_hs t epc r s) = handler_address (stvec_val s) (r_interrupt r) (r_bit r)"
  "sepc_val (trap_to_hs t epc r s) = epc_write epc"
  by (simp_all add: trap_to_hs_def Let_def)

lemma trap_to_m_pc:
  assumes "\<not> unrecoverable s"
  shows "s_pc (trap_to_m t epc r s) = (if nmie s then handler_address (mtvec_val s) (r_interrupt r) (r_bit r) else 0)"
    "mepc_val (trap_to_m t epc r s) = epc_write epc"
  using assms by (auto simp: trap_to_m_def Let_def unrecoverable_def)

text \<open>Where the handler of a mode is and where it finds the address to resume at.\<close>

definition entered :: "trap_t \<Rightarrow> reg_t \<Rightarrow> state_t \<Rightarrow> state_t \<Rightarrow> bool" where
  "entered t epc s s' =
     (let i = is_interrupt t s; b = trap_bit t s; resume = epc AND NOT 1
      in if s_v s' then s_pc s' = handler_address (vstvec_val s) i (if i \<and> b \<le> 10 then b - 1 else b) \<and> vsepc_val s' = resume
         else if s_prv s' = PRV_S then s_pc s' = handler_address (stvec_val s) i b \<and> sepc_val s' = resume
         else s_pc s' = (if nmie s then handler_address (mtvec_val s) i b else 0) \<and> mepc_val s' = resume)"

lemma route_fields [simp]:
  "r_interrupt (route t s) = is_interrupt t s" "r_bit (route t s) = trap_bit t s" "r_vti (route t s) = virtual_trap_interrupt (trap_bit t s) s"
  by (simp_all add: route_def Let_def)

lemma delegated_below: "delegated t s e i \<Longrightarrow> s_prv s \<noteq> PRV_M"
  by (simp add: delegated_def)

lemma trap_target_cases:
  obtains "trap_target t s = (PRV_S, True)" "s_v s" "s_prv s \<noteq> PRV_M"
  | "trap_target t s = (PRV_S, False)" "s_prv s \<noteq> PRV_M"
  | "trap_target t s = (PRV_M, False)"
  unfolding trap_target_def using delegated_below by metis

lemma legal_le:
  "legal_prv s p \<Longrightarrow> p \<le> PRV_M" "legal_prv s p \<Longrightarrow> p \<noteq> PRV_M \<Longrightarrow> p \<le> PRV_S"
  by (auto simp: legal_prv_def prv_defs word_le_nat_alt)

lemma trap_entry_target:
  assumes ok: "hart_ok s" "enabled s EXT_S" and plain: "\<not> virtual_trap_interrupt (trap_bit t s) s"
    and recoverable: "unrecoverable s \<Longrightarrow> trap_target t s \<noteq> (PRV_M, False)"
  shows "(s_prv (trap_entry t epc s), s_v (trap_entry t epc s)) = trap_target t s" "entered t epc s (trap_entry t epc s)"
proof -
  have u: "enabled s EXT_U"
    using ok by (simp add: hart_ok_def csrs_ok_def config_ok_def)
  have "PRV_S \<noteq> PRV_M"
    by (simp add: prv_defs)
  then have "(s_prv (trap_entry t epc s), s_v (trap_entry t epc s)) = trap_target t s \<and> entered t epc s (trap_entry t epc s)"
    using route_mode [OF ok(1) plain] plain ok u
      recoverable trap_to_m_mode [of s t epc "route t s"] trap_to_m_pc [of s t epc "route t s"]
    by (cases "unrecoverable s"; cases rule: trap_target_cases [of t s])
      (simp_all add: trap_entry_def entered_def Let_def IRQ_VS_EXT_def epc_write_def trap_to_vs_mode trap_to_vs_pc trap_to_hs_mode trap_to_hs_pc)
  then show "(s_prv (trap_entry t epc s), s_v (trap_entry t epc s)) = trap_target t s" "entered t epc s (trap_entry t epc s)"
    by simp_all
qed

text \<open>
  The one case outside delegation: when \<^verbatim>\<open>hvictl\<close> injects an interrupt whose number is that of the cause, the trap enters the guest. The test looks only at the number, so it
  also applies to a synchronous exception, and to a hart in machine mode that runs no guest.
\<close>

lemma injected_trap_entry:
  assumes "virtual_trap_interrupt (trap_bit t s) s" "enabled s EXT_S" "enabled s EXT_U"
  shows "s_prv (trap_entry t epc s) = PRV_S \<and> s_v (trap_entry t epc s) \<and>
    s_pc (trap_entry t epc s) = handler_address (vstvec_val s) (is_interrupt t s) (trap_bit t s) \<and> vsepc_val (trap_entry t epc s) = epc AND NOT 1"
proof -
  have "r_mode (route t s) = Trap_VS"
    using assms(1) by (simp add: route_def Let_def)
  then show ?thesis
    using assms by (simp add: trap_entry_def trap_to_vs_mode trap_to_vs_pc epc_write_def)
qed

lemma unrecoverable_trap_entry:
  assumes "hart_ok s" "\<not> virtual_trap_interrupt (trap_bit t s) s" "unrecoverable s" "trap_target t s = (PRV_M, False)"
  shows "trap_entry t epc s = s\<lparr>critical_error := True\<rparr>"
proof -
  have "r_mode (route t s) = Trap_M"
    using route_mode [OF assms(1,2)] assms(4) by (simp add: prv_defs)
  then show ?thesis
    using assms(3) by (simp add: trap_entry_def trap_to_m_def Let_def unrecoverable_def)
qed

text \<open>C6. On a hart with supervisor mode, outside debug mode, a trap that the program survives is taken as follows. When \<^verbatim>\<open>hvictl\<close> injects an interrupt with the number of the cause, it enters
  the guest's supervisor, whatever the mode was (\<open>machine_exception_enters_guest\<close>). When it is due in machine mode and double traps or a handler of
  non-maskable interrupts forbid one there, only the critical error is recorded. Otherwise it is taken in the mode that the delegation registers prescribe (machine mode unless the
  cause was delegated to the supervisor, the guest's supervisor only for a guest whose hypervisor delegated it too), control continues at that mode's handler with the address to
  resume at recorded, privilege does not decrease, and a trap outside a guest does not enter one.\<close>

theorem trap_goes_where_delegated:
  assumes "hart_ok s" "enabled s EXT_S" "\<not> s_debug_mode s" "take_trap t epc s = Some s'"
  shows "if virtual_trap_interrupt (trap_bit t s) s
    then s_prv s' = PRV_S \<and> s_v s' \<and> s_pc s' = handler_address (vstvec_val s) (is_interrupt t s) (trap_bit t s) \<and> vsepc_val s' = epc AND NOT 1
    else if unrecoverable s \<and> trap_target t s = (PRV_M, False) then s' = s\<lparr>critical_error := True\<rparr>
    else (s_prv s', s_v s') = trap_target t s \<and> entered t epc s s' \<and> s_prv s \<le> s_prv s' \<and> (s_v s' \<longrightarrow> s_v s)"
proof -
  have s': "s' = trap_entry t epc s"
    using assms(3,4) by (simp add: take_trap_def split: if_splits)
  have u: "enabled s EXT_U"
    using assms by (simp add: hart_ok_def csrs_ok_def config_ok_def)
  have "legal_prv s (s_prv s)"
    using assms by (simp add: hart_ok_def mode_ok_def)
  note le = legal_le [OF this]
  have "s_prv s \<le> fst (trap_target t s) \<and> (snd (trap_target t s) \<longrightarrow> s_v s)"
    by (cases rule: trap_target_cases [of t s]) (auto simp: le)
  moreover have "(s_prv s', s_v s') = trap_target t s \<and> entered t epc s s'"
    if "\<not> virtual_trap_interrupt (trap_bit t s) s" "\<not> (unrecoverable s \<and> trap_target t s = (PRV_M, False))"
    using trap_entry_target [OF assms(1,2) that(1)] that(2) s' by blast
  ultimately show ?thesis
    using injected_trap_entry [OF _ assms(2) u] unrecoverable_trap_entry [OF assms(1)] s' by (metis fst_conv snd_conv)
qed

section \<open>A hart\<close>

text \<open>A 64-bit hart with user, supervisor and hypervisor modes that runs a user program; environment calls of users are delegated to the supervisor.\<close>

definition example_user :: state_t where
  "example_user = \<lparr>
     enabled = \<lambda>e. e \<in> {EXT_S, EXT_U, EXT_H, EXT_ZCA}, max_xlen = 64, impl_mmu = True, any_vector_extensions = False,
     any_custom_extensions = False, has_page = True, sstatus_write_mask = 0xC6122, s_pc = 0, s_prv = 0, s_v = False, prev_prv = 0, prev_v = False,
     prv_changed = False, v_changed = False, s_elp = False, s_taken_branch = False, s_debug_mode = False, critical_error = False, in_wfi = False,
     tlb_flushed = False, mstatus_val = 0xA00000008, vsstatus_val = 0, hstatus_val = 0, mnstatus_val = None, mnepc_val = 0, mepc_val = 0, sepc_val = 0,
     vsepc_val = 0, mtvec_val = 0x80000800, stvec_val = 0x80000400, vstvec_val = 0, mcause_val = 0, scause_val = 0, vscause_val = 0, mtval_val = 0,
     mtval2_val = 0, mtinst_val = 0, stval_val = 0, vstval_val = 0, htval_val = 0, htinst_val = 0, medeleg_val = 0x100, mideleg_val = 0,
     hedeleg_val = 0, hideleg_val = 0, tcontrol_val = None, menvcfg_read = 0, henvcfg_read = 0, senvcfg_read = 0, mseccfg_read = 0, mip_read = 0,
     mie_read = 0, mvien_read = 0, mvip_read = 0, hvictl_read = 0, sie_val = 0\<rparr>"

lemma example_ok: "hart_ok example_user" "extensions_ok example_user" "enabled example_user EXT_S" "\<not> s_debug_mode example_user" "\<not> unrecoverable example_user"
  "\<not> virtual_trap_interrupt b example_user"
  by (simp_all add: example_user_def hart_ok_def csrs_ok_def config_ok_def mode_ok_def status_ok_def legal_prv_def status_field_defs get_field_def sd_bit_def
      sstatus_fields_def prv_defs extensions_ok_def unrecoverable_def virtual_trap_interrupt_def)

lemma example_target:
  "trap_target (plain_trap 8) example_user = (PRV_S, False)" "trap_target (plain_trap 2) example_user = (PRV_M, False)"
  by code_simp+

theorem trap_goes_where_delegated_witness:
  "\<exists>s1 s2. hart_ok example_user \<and> s_prv example_user = PRV_U \<and>
     take_trap (plain_trap 8) 0x10000 example_user = Some s1 \<and> (s_prv s1, s_v s1) = (PRV_S, False) \<and>
     take_trap (plain_trap 2) 0x10000 example_user = Some s2 \<and> (s_prv s2, s_v s2) = (PRV_M, False)"
proof -
  have some: "take_trap t 0x10000 example_user = Some (trap_entry t 0x10000 example_user)" for t
    using example_ok(4) by (simp add: take_trap_def) (simp add: example_user_def)
  have "s_prv example_user = PRV_U"
    by (simp add: example_user_def PRV_U_def)
  then show ?thesis
    using trap_goes_where_delegated [OF example_ok(1,3,4) some, of "plain_trap 8"] trap_goes_where_delegated [OF example_ok(1,3,4) some, of "plain_trap 2"]
      example_ok some by (auto simp: example_target)
qed

theorem privilege_invariant_witness:
  "\<exists>s0. state_reset False example_user = Some s0 \<and> extensions_ok example_user \<and> priv_step\<^sup>*\<^sup>* s0 (mstatus_write 0x1800 s0) \<and>
     hart_ok (mstatus_write 0x1800 s0) \<and> insn_mret 0 (mstatus_write 0x1800 s0) \<noteq> Inl Sys_Aborted"
proof -
  obtain s0 where s0: "state_reset False example_user = Some s0"
    by (simp add: state_reset_def example_user_def xlen_to_uxl_def)
  have step: "priv_step\<^sup>*\<^sup>* s0 (mstatus_write 0x1800 s0)"
    by (intro r_into_rtranclp priv_step.Write_mstatus)
  show ?thesis
    using s0 step example_ok(2) privilege_invariant [OF s0 example_ok(2) step] by blast
qed

section \<open>Virtual interrupts that the hypervisor injects\<close>

definition example_injecting :: state_t where
  "example_injecting = example_user\<lparr>s_prv := PRV_M, enabled := (\<lambda>e. e \<in> {EXT_S, EXT_U, EXT_H, EXT_SSAIA}), hvictl_read := 0x400D0000\<rparr>"

lemma machine_exception_enters_guest:
  "s_prv example_injecting = PRV_M \<and> \<not> s_v example_injecting \<and> \<not> is_interrupt (plain_trap 13) example_injecting \<and>
   (\<exists>s'. take_trap (plain_trap 13) 0x10000 example_injecting = Some s' \<and> s_prv s' = PRV_S \<and> s_v s')"
proof -
  have "virtual_trap_interrupt (trap_bit (plain_trap 13) example_injecting) example_injecting" "\<not> is_interrupt (plain_trap 13) example_injecting"
    by code_simp+
  then show ?thesis
    using injected_trap_entry [of "plain_trap 13" example_injecting "0x10000"] by (simp add: take_trap_def example_injecting_def example_user_def)
qed

text \<open>Without the hypervisor extension the advanced interrupts make every trap dereference a null pointer.\<close>

lemma trap_without_hvictl: "\<not> s_debug_mode s \<Longrightarrow> enabled s EXT_SSAIA \<Longrightarrow> \<not> enabled s EXT_H \<Longrightarrow> take_trap t epc s = None"
  by (simp add: take_trap_def)

end
