(* ===== verification/Trap_Returns.thy ===== *)
theory Trap_Returns
  imports Trap_Safety
begin

text \<open>
  Returning from a machine-mode handler: what \<^verbatim>\<open>mstatus\<close> holds after the entry, after the return, and that the interrupted code continues where it was.
\<close>

unbundle bit_operations_syntax

section \<open>The machine status after a write\<close>

definition status_view :: "state_t \<Rightarrow> (isa_extension \<Rightarrow> bool) \<times> nat \<times> reg_t \<times> bool \<times> reg_t" where
  "status_view s = (enabled s, max_xlen s, sstatus_write_mask s, has_page s, mstatus_val s)"

lemma status_view_cong:
  assumes "status_view s' = status_view s"
  shows "requested_bit x s' = requested_bit x s" "sd_pos s' = sd_pos s"
  using assms by (auto simp: status_view_def requested_bit_def fun_eq_iff mstatus_write_mask_def legalize_privilege_def sd_pos_def)

lemma mstatus_write_view:
  assumes "status_view s' = status_view s"
  shows "mstatus_val (mstatus_write x s') = mstatus_val (mstatus_write x s)"
  by (rule bit_word_eqI) (simp add: bit_mstatus_write status_view_cong [OF assms])

text \<open>On a 32-bit hart the high half is written again with the same bits, which changes nothing.\<close>

lemma bit_halves:
  fixes a b :: reg_t
  shows "bit (drop_bit 32 (push_bit 32 a) OR push_bit 32 (drop_bit 32 b AND 0xffffffff)) n \<longleftrightarrow> (if n < 32 then bit a n else bit b n)"
proof -
  have low: "(0xffffffff :: reg_t) = mask 32"
    by (simp add: mask_eq_exp_minus_1)
  have high: "bit (drop_bit 32 b AND mask 32) i \<longleftrightarrow> bit b (32 + i)" for i
    using bit_imp_le_length [of b "32 + i"] by (auto simp only: bit_word_ops bit_drop_bit_eq bit_mask_iff o_def) auto
  have "bit (push_bit 32 (drop_bit 32 b AND mask 32)) n \<longleftrightarrow> 32 \<le> n \<and> bit b n"
    unfolding bit_push_bit_iff high using bit_imp_le_length [of b n] by auto
  moreover have "bit (drop_bit 32 (push_bit 32 a)) n \<longleftrightarrow> n < 32 \<and> bit a n"
    by (auto simp only: bit_drop_bit_eq bit_push_bit_iff o_def) auto
  ultimately show ?thesis
    unfolding low bit_or_iff by auto
qed

lemma mstatush_write_again:
  assumes "max_xlen s = 32"
  shows "mstatus_val (mstatush_write (drop_bit 32 x) (mstatus_write x s)) = mstatus_val (mstatus_write x s)"
proof -
  let ?s = "mstatus_write x s"
  define m where "m = mstatus_val ?s"
  define v where "v = drop_bit 32 (push_bit 32 m) OR push_bit 32 (drop_bit 32 x AND 0xffffffff)"
  have v: "bit v n \<longleftrightarrow> (if n < 32 then bit m n else bit x n)" for n
    unfolding v_def by (rule bit_halves)
  have same: "mstatus_write_mask ?s = mstatus_write_mask s" "legalize_privilege ?s = legalize_privilege s" "sd_pos ?s = 31" "sd_pos s = 31"
    using assms by (simp_all add: mstatus_write_mask_def legalize_privilege_def fun_eq_iff sd_pos_def)
  have "get_field v MSTATUS_MPP = get_field m MSTATUS_MPP"
    unfolding get_two_bits v by simp
  also have "\<dots> = legalize_privilege s (get_field x MSTATUS_MPP)"
    unfolding m_def by (rule mstatus_write_mpp)
  finally have mpp: "legalize_privilege s (get_field v MSTATUS_MPP) = get_field v MSTATUS_MPP"
    using legal_legalize [OF field_mpp_cases, of s "bit x 11" "bit x 12"] by (simp add: get_two_bits(1) [of x])
  have high: "bit x n = bit m n" if "bit (mstatus_write_mask s) n" "32 \<le> n" for n
    using that same by (simp add: m_def bit_mstatus_write requested_bit_def status_bits)
  have req: "requested_bit v ?s n \<longleftrightarrow> bit m n" for n
  proof -
    have "bit (set_field v MSTATUS_MPP (get_field v MSTATUS_MPP)) n \<longleftrightarrow> bit v n"
      by (simp add: set_two_bits get_two_bits)
    then show ?thesis
      using high [of n] by (auto simp: requested_bit_def same mpp v m_def [symmetric])
  qed
  have "mstatus_val (mstatus_write v ?s) = m"
    by (rule bit_word_eqI, unfold bit_mstatus_write [of v] same req) (auto simp: m_def bit_mstatus_write same dirty_def)
  then show ?thesis
    by (simp only: mstatush_write_def v_def m_def)
qed

lemma mstatus_write_all_val: "mstatus_val (mstatus_write_all x s) = mstatus_val (mstatus_write x s)"
  by (simp add: mstatus_write_all_def Let_def mstatush_write_again)

section \<open>Entry and return\<close>

lemma machine_mask_bits:
  assumes "config_ok s"
  shows "bit (mstatus_write_mask s) 3" "bit (mstatus_write_mask s) 7"
    "bit (mstatus_write_mask s) 39 \<longleftrightarrow> enabled s EXT_H" "bit (mstatus_write_mask s) 41 \<longleftrightarrow> enabled s EXT_ZICFILP"
    "bit (mstatus_write_mask s) 42 \<longleftrightarrow> enabled s EXT_SMDBLTRP"
  using sstatus_mask_bit [OF assms, of 39] sstatus_mask_bit [OF assms, of 41] sstatus_mask_bit [OF assms, of 42]
  by (auto simp: mstatus_write_mask_def Let_def status_bits bit_word_ops)

lemma requested_same:
  "bit x n = bit (mstatus_val s) n \<Longrightarrow> n \<noteq> 11 \<Longrightarrow> n \<noteq> 12 \<Longrightarrow> requested_bit x s n \<longleftrightarrow> bit (mstatus_val s) n"
  by (simp add: requested_bit_def status_bits)

text \<open>The fields that a trap and the return from it restore.\<close>

definition resumed_fields :: reg_t where
  "resumed_fields = MSTATUS_MIE OR SSTATUS_SIE OR SSTATUS_SPIE OR SSTATUS_SPP OR SSTATUS_VS OR SSTATUS_FS OR SSTATUS_XS OR SSTATUS_SUM OR SSTATUS_MXR OR
     MSTATUS_TVM OR MSTATUS_TW OR MSTATUS_TSR"

definition kept_bits :: "nat set" where
  "kept_bits = {5, 8, 9, 10, 13, 14, 15, 16, 18, 19, 20, 21, 22}"

lemma bit_resumed_fields: "bit resumed_fields n \<longleftrightarrow> n = 1 \<or> n = 3 \<or> n \<in> kept_bits"
  by (auto simp: resumed_fields_def kept_bits_def status_bits bit_word_ops)

definition entry_word :: "trap_t \<Rightarrow> state_t \<Rightarrow> reg_t" where
  "entry_word t s = machine_entry t (if enabled s EXT_SMDBLTRP then set_field (mstatus_val s) MSTATUS_MDT 1 else mstatus_val s) s"

lemma trap_to_m_status:
  assumes "\<not> unrecoverable s"
  shows "mstatus_val (trap_to_m t epc r s) = mstatus_val (mstatus_write (entry_word t s) s)"
  using assms
  by (auto simp: trap_to_m_def Let_def unrecoverable_def mstatus_write_all_val entry_word_def machine_entry_def status_view_def intro!: mstatus_write_view)

lemma bit_entry_word:
  "bit (entry_word t s) n \<longleftrightarrow>
     (if n = 41 then s_elp s else if n = 38 then trap_gva t else if n = 39 then s_v s else if n = 3 then False
      else if n = 11 then bit (s_prv s) 0 else if n = 12 then bit (s_prv s) 1 else if n = 7 then bit (mstatus_val s) 3
      else if n = 42 \<and> enabled s EXT_SMDBLTRP then True else bit (mstatus_val s) n)"
  by (simp add: entry_word_def machine_entry_def Let_def status_bits)

lemma entry_status:
  fixes t :: trap_t and s :: state_t
  assumes ok: "hart_ok s"
  defines "e \<equiv> mstatus_val (mstatus_write (entry_word t s) s)"
  shows "get_field e MSTATUS_MPP = s_prv s" "bit e 39 = s_v s" "bit e 7 = bit (mstatus_val s) 3" "\<not> bit e 3"
    "enabled s EXT_ZICFILP \<Longrightarrow> bit e 41 = s_elp s" "\<not> enabled s EXT_SMDBLTRP \<Longrightarrow> bit e 42 = bit (mstatus_val s) 42"
    "n \<in> kept_bits \<Longrightarrow> bit e n = bit (mstatus_val s) n" "bit e 1 = bit (mstatus_val s) 1"
proof -
  have config: "config_ok s" and status: "status_ok s (mstatus_val s)" and legal: "legal_prv s (s_prv s)"
    and virt: "s_v s \<Longrightarrow> enabled s EXT_H" "\<not> enabled s EXT_H \<Longrightarrow> \<not> bit (mstatus_val s) 39"
    using ok by (auto simp: hart_ok_def csrs_ok_def mode_ok_def status_ok_bits)
  have "s_prv s \<in> {0, 1, 3}"
    using legal by (auto elim: legal_prv_cases)
  then have "get_field (entry_word t s) MSTATUS_MPP = s_prv s"
    by (simp add: get_two_bits bit_entry_word mpp_bits)
  then show "get_field e MSTATUS_MPP = s_prv s"
    by (simp add: e_def mstatus_write_mpp legal)
  note bits = e_def bit_mstatus_write requested_bit_def status_bits bit_entry_word machine_mask_bits [OF config]
  show "bit e 39 = s_v s" "bit e 7 = bit (mstatus_val s) 3" "\<not> bit e 3"
    using virt by (auto simp: bits)
  show "enabled s EXT_ZICFILP \<Longrightarrow> bit e 41 = s_elp s" "\<not> enabled s EXT_SMDBLTRP \<Longrightarrow> bit e 42 = bit (mstatus_val s) 42"
    by (simp_all add: bits)
  show "bit e n = bit (mstatus_val s) n" if "n \<in> kept_bits"
  proof -
    have "requested_bit (entry_word t s) s n = bit (mstatus_val s) n"
      using that by (intro requested_same) (auto simp: bit_entry_word kept_bits_def)
    moreover have "n \<noteq> sd_pos s" "n \<noteq> 3" "n \<noteq> 1"
      using that by (auto simp: kept_bits_def sd_pos_def)
    ultimately show ?thesis
      by (simp add: e_def bit_mstatus_write)
  qed
  have "requested_bit (entry_word t s) s n = bit (mstatus_val s) n" if "n \<in> {1, 24}" for n
    using that by (intro requested_same) (auto simp: bit_entry_word)
  then show "bit e 1 = bit (mstatus_val s) 1"
    using status by (auto simp: e_def bit_mstatus_write status_ok_bits)
qed

lemma bit_mret_status:
  "bit (mret_status x pp pv s) n \<longleftrightarrow>
     (if n = 24 \<and> (pp = PRV_U \<or> pv \<and> pp \<noteq> PRV_M) then False else if n \<in> {39, 41, 42} then False
      else if n = 11 then bit (if enabled s EXT_U then PRV_U else PRV_M) 0 else if n = 12 then bit (if enabled s EXT_U then PRV_U else PRV_M) 1
      else if n = 7 then True else if n = 3 then bit x 7 else if n = 17 \<and> pp \<noteq> PRV_M then False else bit x n)"
  by (simp add: mret_status_def Let_def status_bits)

lemma mret_status_same:
  assumes "n \<notin> {3, 7, 11, 12, 17, 24, 39, 41, 42}"
  shows "bit (mret_status x pp pv s) n = bit x n"
  using assms unfolding bit_mret_status by simp

lemma return_status:
  fixes pp :: reg_t and pv :: bool and s :: state_t
  assumes config: "config_ok s" and status: "status_ok s (mstatus_val s)"
  defines "w \<equiv> mstatus_val (mstatus_write (mret_status (mstatus_val s) pp pv s) s)"
  shows "bit w 3 \<longleftrightarrow> bit (mstatus_val s) 7 \<and> (enabled s EXT_SMDBLTRP \<or> \<not> bit (mstatus_val s) 42)"
    "n \<in> kept_bits \<Longrightarrow> bit w n = bit (mstatus_val s) n" "bit w 1 = bit (mstatus_val s) 1"
proof -
  let ?x = "mret_status (mstatus_val s) pp pv s"
  show "bit w 3 \<longleftrightarrow> bit (mstatus_val s) 7 \<and> (enabled s EXT_SMDBLTRP \<or> \<not> bit (mstatus_val s) 42)"
    by (auto simp: w_def bit_mstatus_write requested_bit_def status_bits bit_mret_status machine_mask_bits [OF config])
  show "bit w n = bit (mstatus_val s) n" if "n \<in> kept_bits"
  proof -
    have "requested_bit ?x s n = bit (mstatus_val s) n"
      using that by (intro requested_same mret_status_same) (auto simp: kept_bits_def)
    moreover have "n \<noteq> sd_pos s" "n \<noteq> 3" "n \<noteq> 1"
      using that by (auto simp: kept_bits_def sd_pos_def)
    ultimately show ?thesis
      by (simp add: w_def bit_mstatus_write)
  qed
  have "requested_bit ?x s 1 = bit (mstatus_val s) 1"
    by (intro requested_same) (auto simp: bit_mret_status)
  moreover have "bit ?x 24 \<Longrightarrow> bit (mstatus_val s) 24"
    by (auto simp: bit_mret_status split: if_splits)
  then have "requested_bit ?x s 24 \<Longrightarrow> bit (mstatus_val s) 24"
    by (cases "bit (mstatus_write_mask s) 24") (simp_all add: requested_bit_def set_two_bits)
  ultimately show "bit w 1 = bit (mstatus_val s) 1"
    using status by (auto simp: w_def bit_mstatus_write status_ok_bits)
qed

lemma mret_commit_status:
  "mstatus_val (mret_commit x pp pv lpe s) = mstatus_val (mstatus_write (mret_status x pp pv s) s)"
  unfolding mret_commit_def Let_def set_privilege_frame tcontrol_write_frame mstatus_write_all_val
  by (auto simp: mret_status_def Let_def status_view_def intro!: mstatus_write_view)

lemma mret_commit_mode:
  assumes "legal_prv s pp" "pv \<Longrightarrow> pp \<noteq> PRV_M"
  shows "s_prv (mret_commit x pp pv lpe s) = pp" "s_v (mret_commit x pp pv lpe s) = pv" "s_pc (mret_commit x pp pv lpe s) = s_pc s"
    "s_elp (mret_commit x pp pv lpe s) = (if lpe then bit x 41 else s_elp s)"
proof -
  have "legalize_privilege s' pp = pp" if "enabled s' = enabled s" for s'
    using assms(1) that by (auto simp: legalize_privilege_def legal_prv_def prv_defs)
  then show "s_prv (mret_commit x pp pv lpe s) = pp" "s_v (mret_commit x pp pv lpe s) = pv" "s_pc (mret_commit x pp pv lpe s) = s_pc s"
    "s_elp (mret_commit x pp pv lpe s) = (if lpe then bit x 41 else s_elp s)"
    using assms(2) by (auto simp: mret_commit_def Let_def status_bits)
qed

text \<open>The part of the state that neither the entry nor the return changes and that decides about landing pads and alignment.\<close>

definition environment :: "state_t \<Rightarrow> (isa_extension \<Rightarrow> bool) \<times> reg_t \<times> reg_t \<times> reg_t \<times> reg_t" where
  "environment s = (enabled s, senvcfg_read s, menvcfg_read s, henvcfg_read s, mseccfg_read s)"

lemma environment_cong:
  assumes "environment s' = environment s"
  shows "xLPE v p s' = xLPE v p s" "pc_mask s' = pc_mask s" "legal_prv s' = legal_prv s"
  using assms by (auto simp: environment_def xLPE_def pc_mask_def legal_prv_def fun_eq_iff)

lemma trap_to_m_environment: "environment (trap_to_m t epc r s) = environment s"
  unfolding environment_def trap_to_m_def Let_def by simp

text \<open>C7. The return instruction undoes a trap that machine mode handled: after the entry, \<^verbatim>\<open>mret\<close> succeeds and leads back to the address that was interrupted, in the mode and
  virtualisation it had, with the interrupt enables and the other supervisor-visible fields of \<^verbatim>\<open>mstatus\<close> as they were, and with the landing-pad expectation of code
  that is subject to it.\<close>

theorem mret_undoes_trap:
  assumes ok: "hart_ok s" and machine: "\<not> s_debug_mode s" "r_mode (route t s) = Trap_M" "\<not> unrecoverable s"
    and taken: "take_trap t epc s = Some e"
  shows "\<exists>s'. insn_mret insn e = Inr (PC_SERIALIZE_AFTER, s') \<and>
    s_prv s' = s_prv s \<and> s_v s' = s_v s \<and> s_pc s' = epc AND NOT 1 AND pc_mask s \<and>
    mstatus_val s' AND resumed_fields = mstatus_val s AND resumed_fields \<and>
    (xLPE (s_v s) (s_prv s) s = Some True \<longrightarrow> s_elp s' = s_elp s)"
proof -
  define u where "u = sys_set_pc (epc_read e (mepc_val e)) (e\<lparr>s_taken_branch := False\<rparr>)"
  have e: "e = trap_to_m t epc (route t s) s"
    using machine taken by (auto simp: take_trap_def trap_entry_def split: if_splits)
  have "hart_ok e"
    using ok taken by (rule take_trap_ok)
  then have csrs: "csrs_ok u"
    by (simp add: u_def sys_set_pc_def hart_ok_def)
  have env: "environment u = environment s"
    using trap_to_m_environment by (simp add: u_def sys_set_pc_def e environment_def)
  note env = env environment_cong [OF this]
  have "enabled u = enabled s"
    using env(1) by (simp add: environment_def)
  have status: "mstatus_val u = mstatus_val (mstatus_write (entry_word t s) s)"
    by (simp add: u_def sys_set_pc_def e trap_to_m_status [OF machine(3)])
  note entry = entry_status [where t = t, OF ok, folded status]
  have fields: "get_field (mstatus_val u) MSTATUS_MPP = s_prv s" "get_field (mstatus_val u) MSTATUS_MPV \<noteq> 0 \<longleftrightarrow> s_v s"
    using entry(1,2) by (simp_all add: get_one_bit)
  have legal: "legal_prv s (s_prv s)" "s_v s \<Longrightarrow> s_prv s \<noteq> PRV_M"
    using ok by (auto simp: hart_ok_def mode_ok_def)
  obtain lpe where lpe: "xLPE (s_v s) (s_prv s) s = Some lpe"
    using xLPE_legal legal by blast
  define s' where "s' = mret_commit (mstatus_val u) (s_prv s) (s_v s) lpe u"
  have "PRV_M \<le> s_prv e"
    using trap_to_m_mode [OF machine(3)] by (simp add: e)
  then have "insn_mret insn e = Inr (PC_SERIALIZE_AFTER, s')"
    by (simp add: insn_mret_def sys_require_def Let_def u_def [symmetric] fields env lpe s'_def)
  moreover have "s_pc u = epc AND NOT 1 AND pc_mask s"
  proof -
    have "pc_mask e = pc_mask s"
      using environment_cong(2) [OF trap_to_m_environment] by (simp add: e)
    then show ?thesis
      using trap_to_m_pc(2) [OF machine(3)]
      by (simp add: u_def sys_set_pc_def epc_read_def e epc_write_def and.assoc) (simp add: pc_mask_def)
  qed
  moreover have "mstatus_val s' AND resumed_fields = mstatus_val s AND resumed_fields"
  proof -
    note return = return_status [where pp = "s_prv s" and pv = "s_v s", OF csrs_okD(1,2) [OF csrs], folded mret_commit_status [where lpe = lpe], folded s'_def]
    have "bit (mstatus_val s') 3 = bit (mstatus_val s) 3"
      using return(1) entry(3,6) csrs_okD(2) [of s] ok \<open>enabled u = enabled s\<close> by (auto simp: hart_ok_def status_ok_bits)
    moreover have "bit (mstatus_val s') n = bit (mstatus_val s) n" if "n = 1 \<or> n \<in> kept_bits" for n
      using that return(2,3) entry(7,8) by auto
    ultimately show ?thesis
      by (intro bit_word_eqI) (auto simp: bit_word_ops bit_resumed_fields)
  qed
  ultimately show ?thesis
    using mret_commit_mode [of u "s_prv s" "s_v s" "mstatus_val u" lpe] legal entry(5) lpe
    by (auto simp: s'_def [symmetric] env xLPE_def split: if_splits)
qed

lemma example_route: "r_mode (route (plain_trap 2) example_user) = Trap_M"
  by code_simp

theorem mret_undoes_trap_witness:
  "hart_ok example_user \<and> (\<exists>e s'. take_trap (plain_trap 2) 0x10001 example_user = Some e \<and> insn_mret 0x30200073 e = Inr (PC_SERIALIZE_AFTER, s') \<and>
     s_prv s' = PRV_U \<and> \<not> s_v s' \<and> s_pc s' = 0x10000 \<and> mstatus_val s' AND resumed_fields = 8)"
proof -
  have "s_prv example_user = PRV_U" "\<not> s_v example_user" "pc_mask example_user = -1" "mstatus_val example_user AND resumed_fields = 8"
    by code_simp+
  moreover have taken: "take_trap (plain_trap 2) 0x10001 example_user = Some (trap_entry (plain_trap 2) 0x10001 example_user)"
    using example_ok(4) by (simp add: take_trap_def) (simp add: example_user_def)
  ultimately show ?thesis
    using mret_undoes_trap [OF example_ok(1,4) example_route example_ok(5) taken, of "0x30200073"] example_ok(1) by auto
qed

end
