(* ===== verification/Interrupt_Choice.thy ===== *)
theory Interrupt_Choice
  imports Trap_Safety
begin

text \<open>
  Which interrupt a hart takes: the choice by bit tests against the table of default priorities, and the conditions under which it is taken.
\<close>

unbundle bit_operations_syntax

section \<open>Default priorities\<close>

text \<open>Nonstandard interrupts first, then the machine's, the supervisor's, the counter overflow and the guest's; within a level external, software, timer.\<close>

definition priority_order :: "nat list" where
  "priority_order = [14..<64] @ [11, 3, 7, 9, 1, 5, 13, 10, 2, 6] @ [0, 4, 8, 12]"

lemma ctz_eqI:
  assumes "bit e n" "\<And>m. m < n \<Longrightarrow> \<not> bit e m"
  shows "ctz e = n"
proof -
  have "e \<noteq> 0"
    using assms(1) by auto
  moreover have "finite {i. bit e i}"
    by (rule finite_subset [of _ "{..<64}"]) (auto dest: bit_imp_le_length)
  ultimately show ?thesis
    using assms by (auto simp: ctz_Min intro!: Min_eqI) (meson not_le_imp_less)
qed

lemma ctz_single: "k < 64 \<Longrightarrow> ctz (push_bit k 1) = k"
  by (rule ctz_eqI) (auto simp: bit_simps)

lemma mip_bit: "k < 64 \<Longrightarrow> (e :: reg_t) AND push_bit k 1 = 0 \<longleftrightarrow> \<not> bit e k"
  by (simp add: and_exp_eq_0_iff_not_bit push_bit_eq_mult)

lemma find_upt_ctz:
  fixes e :: reg_t
  assumes "\<And>n. bit w n \<longleftrightarrow> a \<le> n \<and> bit e n" "w \<noteq> 0"
  shows "find (bit e) [a..<64] = Some (ctz w)"
proof -
  have set: "bit w (ctz w)" and low: "take_bit (ctz w) w = 0"
    using ctz_bit [OF assms(2)] by auto
  have below: "\<not> bit w m" if "m < ctz w" for m
  proof
    assume "bit w m"
    then have "bit (take_bit (ctz w) w) m"
      using that by (simp add: bit_take_bit_iff)
    then show False
      by (simp add: low)
  qed
  have "a \<le> ctz w" "bit e (ctz w)" "ctz w < 64"
    using set assms(1) bit_imp_le_length [OF set] by auto
  then show ?thesis
    unfolding find_Some_iff
    by (intro exI [of _ "ctz w - a"]) (use below assms(1) in auto)
qed

lemma find_none: "(\<And>x. x \<in> set xs \<Longrightarrow> \<not> P x) \<Longrightarrow> find P (xs @ ys) = find P ys"
  by (induction xs) auto

lemma find_some: "find P xs = Some n \<Longrightarrow> find P (xs @ ys) = Some n"
  by (induction xs) auto

lemma find_filter: "(\<And>x. x \<in> set xs \<Longrightarrow> P x \<Longrightarrow> Q x) \<Longrightarrow> find P (filter Q xs) = find P xs"
  by (induction xs) auto

lemmas mip_defs = MIP_MEIP_def MIP_MSIP_def MIP_MTIP_def MIP_SEIP_def MIP_SSIP_def MIP_STIP_def MIP_LCOFIP_def MIP_VSEIP_def MIP_VSSIP_def MIP_VSTIP_def

lemma mip_bits:
  fixes e :: reg_t
  shows
  "e AND MIP_MEIP = 0 \<longleftrightarrow> \<not> bit e 11"
  "e AND MIP_MSIP = 0 \<longleftrightarrow> \<not> bit e 3"
  "e AND MIP_MTIP = 0 \<longleftrightarrow> \<not> bit e 7"
  "e AND MIP_SEIP = 0 \<longleftrightarrow> \<not> bit e 9"
  "e AND MIP_SSIP = 0 \<longleftrightarrow> \<not> bit e 1"
  "e AND MIP_STIP = 0 \<longleftrightarrow> \<not> bit e 5"
  "e AND MIP_LCOFIP = 0 \<longleftrightarrow> \<not> bit e 13"
  "e AND MIP_VSEIP = 0 \<longleftrightarrow> \<not> bit e 10"
  "e AND MIP_VSSIP = 0 \<longleftrightarrow> \<not> bit e 2"
  "e AND MIP_VSTIP = 0 \<longleftrightarrow> \<not> bit e 6"
  unfolding mip_defs using mip_bit [of 11 e] mip_bit [of 3 e] mip_bit [of 7 e] mip_bit [of 9 e] mip_bit [of 1 e] mip_bit [of 5 e] mip_bit [of 13 e] mip_bit [of 10 e] mip_bit [of 2 e] mip_bit [of 6 e] by simp_all

lemma ctz_mip:
  "ctz MIP_MEIP = 11" "ctz MIP_MSIP = 3" "ctz MIP_MTIP = 7" "ctz MIP_SEIP = 9" "ctz MIP_SSIP = 1" "ctz MIP_STIP = 5" "ctz MIP_LCOFIP = 13" "ctz MIP_VSEIP = 10" "ctz MIP_VSSIP = 2" "ctz MIP_VSTIP = 6"
  unfolding mip_defs using ctz_single [of 11] ctz_single [of 3] ctz_single [of 7] ctz_single [of 9] ctz_single [of 1] ctz_single [of 5] ctz_single [of 13] ctz_single [of 10] ctz_single [of 2] ctz_single [of 6] by simp_all

lemma select_cases:
  "ctz (select_an_interrupt_with_default_priority e) =
     (if drop_bit 14 e \<noteq> 0 then ctz (push_bit 14 (drop_bit 14 e))
      else if bit e 11 then 11 else if bit e 3 then 3 else if bit e 7 then 7 else if bit e 9 then 9 else if bit e 1 then 1 else if bit e 5 then 5 else if bit e 13 then 13 else if bit e 10 then 10 else if bit e 2 then 2 else if bit e 6 then 6 else ctz e)"
proof -
  have lcof: "IRQ_LCOF + 1 = 14"
    by (simp add: IRQ_LCOF_def)
  show ?thesis
    unfolding select_an_interrupt_with_default_priority_def lcof mip_bits not_not by (simp only: if_distrib [of ctz] ctz_mip)
qed

lemma select_is_highest:
  assumes "e \<noteq> 0"
  shows "find (bit e) priority_order = Some (ctz (select_an_interrupt_with_default_priority e))"
proof (cases "drop_bit 14 e = 0")
  case False
  have w: "bit (push_bit 14 (drop_bit 14 e)) n \<longleftrightarrow> 14 \<le> n \<and> bit e n" for n
    using bit_imp_le_length [of e n] by (auto simp: bit_push_bit_iff bit_drop_bit_eq)
  obtain n where "bit (drop_bit 14 e) n"
    using False by (metis bit_0_eq bit_word_eqI bot_apply bot_bool_def)
  then have "bit (push_bit 14 (drop_bit 14 e)) (14 + n)"
    unfolding w by (simp add: bit_drop_bit_eq)
  then have "push_bit 14 (drop_bit 14 e) \<noteq> 0"
    by fastforce
  from find_some [OF find_upt_ctz [of "push_bit 14 (drop_bit 14 e)" 14 e, OF w this]] show ?thesis
    unfolding priority_order_def select_cases using False by (simp only: if_True simp_thms)
next
  case True
  have small: "n < 14" if "bit e n" for n
  proof (rule ccontr)
    assume "\<not> n < 14"
    then have "bit (drop_bit 14 e) (n - 14)"
      using that by (simp add: bit_drop_bit_eq)
    then show False
      by (simp add: True)
  qed
  have order: "find (bit e) priority_order = find (bit e) ([11, 3, 7, 9, 1, 5, 13, 10, 2, 6] @ [0, 4, 8, 12])"
    unfolding priority_order_def by (rule find_none) (use small in force)
  show ?thesis
  proof (cases "\<exists>k \<in> {11, 3, 7, 9, 1, 5, 13, 10, 2, 6}. bit e k")
    case std: True
    then show ?thesis
      unfolding order select_cases by (auto simp: True)
  next
    case False
    have "find (bit e) [0..<64] = Some (ctz e)"
      using assms by (intro find_upt_ctz) auto
    moreover have "find (bit e) (filter (\<lambda>n. n \<in> {0, 4, 8, 12}) [0..<64]) = find (bit e) [0..<64]"
    proof (rule find_filter)
      fix n
      assume "bit e n"
      then have "n < 14" "n \<notin> {11, 3, 7, 9, 1, 5, 13, 10, 2, 6}"
        using small False by auto
      then show "n \<in> {0, 4, 8, 12}"
        by (simp add: less_Suc_eq numeral_eq_Suc)
    qed
    moreover have "filter (\<lambda>n. n \<in> {0, 4, 8, 12}) [0..<64] = [0, 4, 8, 12 :: nat]"
      by code_simp
    ultimately have "find (bit e) [0, 4, 8, 12] = Some (ctz e)"
      by (simp only:)
    moreover have "find (bit e) ([11, 3, 7, 9, 1, 5, 13, 10, 2, 6] @ [0, 4, 8, 12]) = find (bit e) [0, 4, 8, 12]"
      by (rule find_none) (use False in auto)
    ultimately show ?thesis
      unfolding order select_cases using False True by auto
  qed
qed

lemma select_first:
  fixes w :: reg_t
  assumes "\<And>n. bit w n \<longleftrightarrow> P n"
  shows "find P priority_order = (if w = 0 then None else Some (ctz (select_an_interrupt_with_default_priority w)))"
proof -
  have "P = bit w"
    using assms by (auto simp: fun_eq_iff)
  moreover have "find (bit (0 :: reg_t)) priority_order = None"
    by (simp add: find_None_iff)
  ultimately show ?thesis
    using select_is_highest [of w] by simp
qed

section \<open>Which interrupts may be taken\<close>

text \<open>
  The privileged specification, interrupt by interrupt. An interrupt is due at machine level unless the machine delegated it, at the hypervisor's (or supervisor's) level when it was
  delegated no further, and at the guest's level when it was; the advanced interrupt architecture adds the supervisor's own pending file and the interrupt the guest's
  controller presents. A level is open to a hart in a less privileged mode, and to a hart in the mode of that level when the mode has its interrupts enabled.
\<close>

definition s_file :: "state_t \<Rightarrow> nat \<Rightarrow> bool" where
  "s_file s n \<longleftrightarrow> enabled s EXT_SSAIA \<and> bit (nonvirtual_sip_read s) n \<and> bit (nonvirtual_sie_read s) n"

definition vs_file :: "state_t \<Rightarrow> nat \<Rightarrow> bool" where
  "vs_file s n \<longleftrightarrow> enabled s EXT_SSAIA \<and> vstopi_read s \<noteq> 0 \<and> n = unat (get_field (vstopi_read s) MTOPI_IID) \<and> n < 64 \<and> n \<notin> {1, 5, 9}"

definition due_machine :: "reg_t \<Rightarrow> state_t \<Rightarrow> nat \<Rightarrow> bool" where
  "due_machine pending s n \<longleftrightarrow> bit pending n \<and> \<not> bit (mideleg_read s) n \<and> (s_prv s \<noteq> PRV_M \<or> bit (mstatus_val s) 3)"

definition due_supervisor :: "reg_t \<Rightarrow> state_t \<Rightarrow> nat \<Rightarrow> bool" where
  "due_supervisor pending s n \<longleftrightarrow> (bit pending n \<and> bit (mideleg_read s) n \<or> s_file s n) \<and> \<not> bit (hideleg_read s) n \<and>
     (s_v s \<or> s_prv s = PRV_U \<or> s_prv s = PRV_S \<and> bit (mstatus_val s) 1)"

definition due_guest :: "reg_t \<Rightarrow> state_t \<Rightarrow> nat \<Rightarrow> bool" where
  "due_guest pending s n \<longleftrightarrow> (bit pending n \<and> bit (hideleg_read s) n \<or> vs_file s n) \<and>
     s_v s \<and> (s_prv s = PRV_U \<or> s_prv s = PRV_S \<and> bit (vsstatus_val s) 1)"

definition next_interrupt :: "reg_t \<Rightarrow> state_t \<Rightarrow> nat option" where
  "next_interrupt pending s =
     (case find (due_machine pending s) priority_order of
        Some n \<Rightarrow> Some n
      | None \<Rightarrow>
          (case find (due_supervisor pending s) priority_order of
             Some n \<Rightarrow> Some n
           | None \<Rightarrow> find (due_guest pending s) priority_order))"

lemma bit_and_all_if: "bit (x AND all_if b) n \<longleftrightarrow> b \<and> bit x n"
  by (cases b) (auto simp: all_if_def bit_and_iff dest: bit_imp_le_length)

lemma bit_and_not: "bit (x AND NOT y) n \<longleftrightarrow> bit x n \<and> \<not> bit y n" for x y :: reg_t
  by (auto simp: bit_and_iff bit_not_iff dest: bit_imp_le_length)

lemma bit_s_mask: "bit MIP_S_MASK n \<longleftrightarrow> n \<in> {1, 5, 9}"
  unfolding MIP_S_MASK_def MIP_SSIP_def MIP_STIP_def MIP_SEIP_def bit_or_iff bit_push_bit_iff bit_1_iff by auto

lemma bit_exp: "bit (2 ^ k :: reg_t) n \<longleftrightarrow> n = k \<and> n < 64"
  by (auto simp: bit_simps)

lemma aia_files:
  assumes "aia_pending s = (sp, vsp)"
  shows "bit sp n \<longleftrightarrow> s_file s n" "bit vsp n \<longleftrightarrow> vs_file s n"
  using assms
  by (auto simp: aia_pending_def s_file_def vs_file_def Let_def bit_and_iff bit_not_iff bit_s_mask bit_exp split: if_splits)

text \<open>The enable bits that the code reads through the masked views are the ones of the registers.\<close>

lemma sie_readable:
  assumes "hart_ok s" "s_prv s = PRV_S"
  shows "get_field (sstatus_read s) MSTATUS_SIE \<noteq> 0 \<longleftrightarrow> bit (if s_v s then vsstatus_val s else mstatus_val s) 1"
proof -
  have "legal_prv s (s_prv s)" "config_ok s"
    using assms(1) by (simp_all add: hart_ok_def mode_ok_def csrs_ok_def)
  then have "(SSTATUS_SIE OR SSTATUS_SPIE OR SSTATUS_SPP) AND NOT (sstatus_write_mask s) = 0"
    using assms(2) by (auto simp: legal_prv_def config_ok_def prv_defs)
  then have "\<not> bit ((SSTATUS_SIE OR SSTATUS_SPIE OR SSTATUS_SPP) AND NOT (sstatus_write_mask s)) 1"
    by simp
  then have "bit (sstatus_write_mask s) 1"
    by (simp add: bit_and_iff bit_or_iff bit_not_iff bit_one_bit)
  then show ?thesis
    by (simp add: get_one_bit sstatus_read_def sstatus_proxy_read_def vsstatus_read_def sstatus_read_mask_def bit_and_iff bit_or_iff bit_not_iff bit_one_bit)
qed

section \<open>Taking an interrupt\<close>

definition candidates :: "reg_t \<Rightarrow> state_t \<Rightarrow> reg_t" where
  "candidates pending s = (case aia_pending s of (s_pending, vs_pending) \<Rightarrow> enabled_interrupts pending s_pending vs_pending s)"

lemma bit_level:
  fixes p d h sp :: reg_t
  shows "bit ((p AND (d AND NOT h)) OR (sp AND NOT h)) n \<longleftrightarrow> (bit p n \<and> bit d n \<or> bit sp n) \<and> \<not> bit h n"
    and "bit ((p AND d) OR sp) n \<longleftrightarrow> bit p n \<and> bit d n \<or> bit sp n"
  by (auto simp: bit_and_iff bit_or_iff bit_not_iff dest: bit_imp_le_length)

lemma hart_modes:
  assumes "hart_ok s"
  shows "s_prv s < PRV_M \<or> s_prv s = PRV_M \<and> e \<longleftrightarrow> s_prv s \<noteq> PRV_M \<or> e" "s_prv s < PRV_S \<longleftrightarrow> s_prv s = PRV_U"
  using assms by (auto simp: hart_ok_def mode_ok_def legal_prv_def prv_defs)

lemma candidates_next:
  assumes ok: "hart_ok s"
  shows "next_interrupt pending s =
    (if candidates pending s = 0 then None else Some (ctz (select_an_interrupt_with_default_priority (candidates pending s))))"
proof -
  obtain sp vsp where aia: "aia_pending s = (sp, vsp)"
    by fastforce
  define m where "m = pending AND NOT (mideleg_read s) AND all_if (s_prv s < PRV_M \<or> s_prv s = PRV_M \<and> get_field (mstatus_val s) MSTATUS_MIE \<noteq> 0)"
  define sie where "sie \<longleftrightarrow> s_prv s = PRV_S \<and> get_field (sstatus_read s) MSTATUS_SIE \<noteq> 0"
  define hs where "hs = ((pending AND (mideleg_read s AND NOT (hideleg_read s))) OR (sp AND NOT (hideleg_read s))) AND all_if (s_v s \<or> s_prv s < PRV_S \<or> sie)"
  define vs where "vs = ((pending AND hideleg_read s) OR vsp) AND all_if (s_prv s < PRV_S \<or> sie)"
  have sie: "sie \<longleftrightarrow> s_prv s = PRV_S \<and> bit (if s_v s then vsstatus_val s else mstatus_val s) 1"
    using sie_readable [OF ok] by (auto simp: sie_def)
  have c: "candidates pending s = (if m = 0 then if s_v s \<and> hs = 0 then vs else hs else m)"
    unfolding candidates_def aia prod.case enabled_interrupts_def Let_def m_def hs_def vs_def sie_def by (rule refl)
  have "bit m n \<longleftrightarrow> due_machine pending s n" for n
    unfolding m_def and.assoc [symmetric] bit_and_all_if bit_and_not due_machine_def hart_modes(1) [OF ok] by (auto simp: get_one_bit)
  note fm = select_first [OF this]
  have "bit hs n \<longleftrightarrow> due_supervisor pending s n" for n
    unfolding hs_def bit_and_all_if bit_level bit_and_not due_supervisor_def hart_modes(2) [OF ok] sie aia_files [OF aia] by auto
  note fs = select_first [OF this]
  have "bit (if s_v s then vs else 0) n \<longleftrightarrow> due_guest pending s n" for n
    by (cases "s_v s") (simp_all add: vs_def due_guest_def bit_and_all_if bit_level hart_modes(2) [OF ok] sie aia_files [OF aia] conj_commute)
  note fv = select_first [OF this]
  show ?thesis
    unfolding next_interrupt_def fm fs fv c by simp
qed

lemma take_interrupt_eq:
  assumes "aia_pending s = (sp, vsp)"
  shows "take_interrupt pending s =
     (if pending = 0 \<and> sp = 0 \<and> vsp = 0 then (None, s)
      else (if candidates pending s \<noteq> 0 \<and> \<not> s_debug_mode s \<and> nmie s
            then Some (plain_trap (interrupt_bit s OR of_nat (ctz (select_an_interrupt_with_default_priority (candidates pending s))))) else None,
            s\<lparr>in_wfi := False\<rparr>))"
proof -
  have "enabled_interrupts pending sp vsp (s\<lparr>in_wfi := False\<rparr>) = candidates pending s"
    by (simp add: candidates_def assms enabled_interrupts_def Let_def mideleg_read_def hideleg_read_def sstatus_read_def sstatus_proxy_read_def vsstatus_read_def
        sstatus_read_mask_def)
  then show ?thesis
    by (simp add: take_interrupt_def assms Let_def nmie_def interrupt_bit_def)
qed

lemma word_zero_bits: "w = 0 \<longleftrightarrow> (\<forall>n. \<not> bit w n)" for w :: reg_t
  by (auto intro: bit_word_eqI)

lemma nothing_raised:
  fixes pending :: reg_t
  assumes "aia_pending s = (sp, vsp)"
  shows "pending = 0 \<and> sp = 0 \<and> vsp = 0 \<longleftrightarrow> \<not> (\<exists>n. bit pending n \<or> s_file s n \<or> vs_file s n)"
  unfolding word_zero_bits [of pending] word_zero_bits [of sp] word_zero_bits [of vsp] aia_files [OF assms] by auto

text \<open>C8. Outside debug mode and handlers of non-maskable interrupts a hart takes an interrupt exactly when one is due, and then the one that the specification of the levels
  prescribes: the machine's level comes before the supervisor's and that before the guest's, each level is open only to less privileged modes and to its own mode with interrupts
  enabled, delegation decides the level, and within a level the table of default priorities decides. Waiting ends as soon as any interrupt is raised, taken or not.\<close>

theorem take_interrupt_correct:
  assumes "hart_ok s"
  shows "take_interrupt pending s =
    (if s_debug_mode s \<or> \<not> nmie s then None else map_option (\<lambda>n. plain_trap (interrupt_bit s OR of_nat n)) (next_interrupt pending s),
     if \<exists>n. bit pending n \<or> s_file s n \<or> vs_file s n then s\<lparr>in_wfi := False\<rparr> else s)"
proof -
  obtain sp vsp where aia: "aia_pending s = (sp, vsp)"
    by fastforce
  have "next_interrupt pending s = None" if "\<not> (\<exists>n. bit pending n \<or> s_file s n \<or> vs_file s n)"
    using that by (simp add: next_interrupt_def due_machine_def due_supervisor_def due_guest_def find_None_iff split: option.split)
  then show ?thesis
    using candidates_next [OF assms, of pending] nothing_raised [OF aia, of pending] by (auto simp: take_interrupt_eq [OF aia])
qed

text \<open>A guest's supervisor with interrupts off: the delegated interrupts 2 and 6 wait, and the hypervisor's own 5 is taken.\<close>

definition example_guest :: state_t where
  "example_guest = example_user\<lparr>s_prv := PRV_S, s_v := True, mideleg_val := 0x222, hideleg_val := 0x444\<rparr>"

lemma example_guest_ok: "hart_ok example_guest"
  by (simp add: example_guest_def example_user_def hart_ok_def csrs_ok_def config_ok_def mode_ok_def status_ok_def legal_prv_def status_field_defs get_field_def
      sd_bit_def sstatus_fields_def prv_defs)

theorem take_interrupt_correct_witness:
  "hart_ok example_user \<and> fst (take_interrupt 0x282 example_user) = Some (plain_trap 0x8000000000000007) \<and>
   hart_ok example_guest \<and> fst (take_interrupt 0x44 example_guest) = None \<and> fst (take_interrupt 0x64 example_guest) = Some (plain_trap 0x8000000000000005)"
proof -
  have "next_interrupt 0x282 example_user = Some 7" "nmie example_user" "interrupt_bit example_user = 0x8000000000000000"
    "next_interrupt 0x44 example_guest = None" "next_interrupt 0x64 example_guest = Some 5" "nmie example_guest" "interrupt_bit example_guest = 0x8000000000000000"
    "\<not> s_debug_mode example_guest"
    by code_simp+
  then show ?thesis
    using take_interrupt_correct [OF example_ok(1), of "0x282"] take_interrupt_correct [OF example_guest_ok] example_ok(1,4) example_guest_ok by simp
qed

end
