(* ===== verification/Spec2Isabelle.thy ===== *)
theory Spec2Isabelle
  imports F32_Arith F64_Arith Softfloat_Compare Softfloat_ToInt Softfloat_Convert Arith Bus Clint Plic Cache_Sim TLB Insns_Bitmanip Trap_Returns Interrupt_Choice
begin

text \<open>
  Verification of the Spike RISC-V instruction-set simulator (\<^verbatim>\<open>src/\<close>).

  The simulator executes RISC-V programs. \<^verbatim>\<open>riscv/\<close> holds the harts with their registers, the memory management unit between a hart and the system bus,
  the devices on the bus and a cache simulator that observes the accesses; \<^verbatim>\<open>softfloat/\<close> is the IEEE 754 engine that gives floating-point instructions their
  meaning. An access of a hart is translated (page tables, cached by the lookaside buffers), checked by the physical memory protection and passed over the bus to
  memory or to a device; devices raise the interrupt bits of the harts.

  \<^bold>\<open>Theories and sources.\<close>

  \<^item> \<open>Spike_Prelude\<close>: the C integer types as words of their width (the fast types as on an LP64 platform) and the lemmas that read word expressions as
    expressions over numbers; its collection \<open>c_word\<close> feeds the simplifier.
  \<^item> \<open>Softfloat_State\<close>, \<open>Softfloat_Primitives\<close>, \<open>Softfloat_F32\<close>, \<open>Softfloat_F64\<close>: the engine's state (rounding mode, tininess, accrued flags, threaded explicitly), the
    integer primitives, and the formats with addition, subtraction, multiplication and division (\<^verbatim>\<open>softfloat/f32_add.c\<close> and its siblings, \<^verbatim>\<open>softfloat/s_*.c\<close>).
    \<open>IEEE_Rounding\<close> is the abstract specification: values of encodings, correct rounding in every mode, flags. Locale \<open>round_pack\<close> of
    \<open>Round_Pack\<close> is the contract of the rounding routines, interpreted for both formats; \<open>F32_Arith\<close>, \<open>F64_Division\<close> and \<open>F64_Arith\<close> prove the operations
    correctly rounded.
  \<^item> \<open>Softfloat_Compare\<close>, \<open>Softfloat_ToInt\<close>, \<open>Softfloat_Convert\<close>: comparisons, minimum and maximum, classification (\<^verbatim>\<open>fall_maxmin.c\<close>, \<^verbatim>\<open>f32_classify.c\<close>), the conversions
    to and from 32- and 64-bit integers and between the formats. Locales \<open>fp_compare\<close>, \<open>fp_maxmin\<close>, \<open>round_to_int32\<close> and \<open>round_to_int64\<close> hold what
    the formats and the targets share.
  \<^item> \<open>Arith\<close>: the integer helpers of \<^verbatim>\<open>riscv/arith.h\<close>.
  \<^item> \<open>PMP\<close>: the protection registers (\<^verbatim>\<open>riscv/csrs.cc\<close>) and the checks \<open>pmp_ok\<close> and \<open>pmp_homogeneous\<close> (\<^verbatim>\<open>riscv/mmu.cc\<close>). The state is a record of the
    registers; register writes are the steps of a transition relation.
  \<^item> \<open>Memory_Device\<close>, \<open>Bus\<close>: sparse memory, boot ROM, register lanes and the system bus (\<^verbatim>\<open>riscv/devices.cc\<close>, \<^verbatim>\<open>riscv/rom.cc\<close>). Locales \<open>readable_device\<close> and
    \<open>writable_device\<close> are the contract the bus relies on.
  \<^item> \<open>Hart_Interrupts\<close>, \<open>Clint\<close>, \<open>Plic\<close>: the interrupt bits of a hart, the core-local interruptor and the platform-level interrupt controller (\<^verbatim>\<open>riscv/clint.cc\<close>,
    \<^verbatim>\<open>riscv/plic.cc\<close>), with their memory-mapped registers and checkpoints.
  \<^item> \<open>Cache_Sim\<close>: set-associative and fully associative caches in a chain of miss handlers (\<^verbatim>\<open>riscv/cachesim.cc\<close>); locale \<open>tag_memory\<close> is the contract of both tag
    stores.
  \<^item> \<open>Radix_Walk\<close>, \<open>MMU\<close>, \<open>TLB\<close>: address translation (\<^verbatim>\<open>riscv/mmu.cc\<close>, \<^verbatim>\<open>riscv/mmu.h\<close>). Locale \<open>radix_walk\<close> is the contract of a loop through tables, interpreted
    for the walk of the first stage and for that of the second; the walks read and update page tables on the bus of \<open>Bus\<close> under the checks of
    \<open>PMP\<close>. The lookaside buffers are run as a transition system whose fills are successful translations.
  \<^item> \<open>Insn_Decode\<close>: fields and immediates of instruction words, the integer register file and the encoders of the debug module (\<^verbatim>\<open>riscv/decode.h\<close>,
    \<^verbatim>\<open>riscv/opcodes.h\<close>). \<open>Insns\<close>, \<open>Insns_Bitmanip\<close>: one definition per file of \<^verbatim>\<open>riscv/insns/\<close> for the integer instructions, as functions of the register width,
    the instruction word, its address and the state of the hart. \<open>ALU_Spec\<close>: the operations of the manual on words of the register width.
  \<^item> \<open>Privilege\<close>, \<open>Traps\<close>: the status, delegation and trap registers with their write masks, privilege modes and reset (\<^verbatim>\<open>riscv/csrs.cc\<close>, \<^verbatim>\<open>riscv/processor.cc\<close>), the choice of
    an interrupt, trap entry in the three handling modes, and the returns and environment calls (\<^verbatim>\<open>riscv/insns/mret.h\<close> and its siblings). The registers that other components own
    are fields holding what they read. \<open>Status_Fields\<close> turns writes into statements about single bits; \<open>Trap_Safety\<close>, \<open>Trap_Returns\<close> and \<open>Interrupt_Choice\<close>
    prove the invariant over histories, the routing of traps, the return and the choice.

  \<^bold>\<open>What is shown.\<close>

  \<^item> Arithmetic, conversions and comparisons of single and double precision deliver the correctly rounded (or exact, or ordered) result with exactly the IEEE flags, for all
    operands, NaN, infinite and subnormal ones included; widening and narrowing is a round trip.
  \<^item> Locked protection entries stay in force under every sequence of register writes, and decide alike as long as the lockdown bit stays as it was; the sector scan refines the
    byte-wise architectural decision except for the tail of misaligned accesses, which it does not look at; reachable configurations are legal; the homogeneity test is sound.
  \<^item> Translation succeeds exactly along a path of well-formed entries to a leaf that grants the access, in both stages, and the cases of page faults, access
    faults and second-stage traps are stated exactly (shadow-stack and cache-block accesses aside); a hit in a lookaside buffer returns the latest cached translation of its page, and the protection decision it was filled under holds on all of
    it.
  \<^item> Memory is a flat array of bytes; the bus picks the unique device; a store on the bus reads back.
  \<^item> The interrupt bits mirror the timer comparison and the pending, enabled, unclaimed sources over histories of accesses, changes of the harts and restored checkpoints (up
    to the next tick after a restore of the timer, and with the harts restored too for the controller); claims, completions, compare registers and checkpoints are round
    trips.
  \<^item> With at least one way, cache accesses hold the line afterwards and write back exactly the valid dirty victims; cleaning and invalidating ends and leaves no tag of its range
    dirty or marked valid.
  \<^item> The integer instructions compute the operations of the manual on registers of 32 and 64 bits, on every branch of their guards; carry-less products
    multiply polynomials and the permuting instructions move bits as specified; encoded instructions decode to their operands.
  \<^item> From reset, every history of traps, interrupts, returns and status writes keeps the mode and the status registers legal, so no return aborts; a trap is handled where the
    delegation registers say, without losing privilege, unless the hypervisor injects its number; \<^verbatim>\<open>mret\<close> undoes a machine trap; the interrupt taken is the one that
    the levels of the manual and the default priorities prescribe.
  \<^item> The integer helpers equal their mathematical definitions at every width.

  \<^bold>\<open>Bounds and termination.\<close> No model has fuel. Page-table walks recurse on the level, device transfers on the bytes left, the cache on the chain of
  miss handlers (with a termination proof, as the recursion is nested), range operations on the bytes left. Failed assertions, aborts and
  divisions by zero are values of the result type, never silently total.

  \<^bold>\<open>Not modelled.\<close>

  \<^item> Memory, floating-point, cipher, vector and the other system instructions (\<^verbatim>\<open>riscv/insns/\<close>), the step loop (\<^verbatim>\<open>riscv/execute.cc\<close>), debug mode entry and the control and
    status registers other than those above: each rests on components that are modelled (\<open>MMU\<close>, \<open>Traps\<close>, the engine), and is left for later.
  \<^item> The slow paths of loads, stores and fetches with debug triggers, load reservations and the instruction cache refill (\<^verbatim>\<open>riscv/mmu.cc\<close>, \<^verbatim>\<open>riscv/triggers.cc\<close>).
  \<^item> Half, extended and quadruple precision, square root, fused multiply-add and rounding to integral values of the engine.
  \<^item> Devices and tools whose substance is host I/O: UART, debug module, remote bitbang, the front-end server and ELF loader; the disassembler; the vendored
    device-tree library and JSON parser.
\<close>

end
